(* ===== verification/Prelude.thy ===== *)
theory Prelude
  imports Main "HOL-Library.Word" "HOL-Library.Monad_Syntax"
begin

unbundle bit_operations_syntax

text \<open>
  Shared vocabulary of the development: the machine integer types, the kernel's error codes
  (\<open>libc/include/panuti/errno.h\<close>), bit arrays stored in bytes (the descriptor table, the
  physical frame bitmap and the ext2 bitmaps all use them), and generic lemmas on lists
  and words.
\<close>

type_synonym u8 = "8 word"
type_synonym u16 = "16 word"
type_synonym u32 = "32 word"
type_synonym u64 = "64 word"

named_theorems model_defs \<open>definitions of the model, for unfolding whole operations\<close>

section \<open>Error codes\<close>

text \<open>
  \<open>PANUTIERRORCODE(code)\<close> is \<open>code + 0x80000000\<close>, read back as a 32-bit signed \<open>int\<close>
  by the functions that return it.
\<close>

definition errorcode :: "int \<Rightarrow> int" where
  "errorcode code = code - 2147483648"

abbreviation PLAINERR :: int where "PLAINERR \<equiv> errorcode 0"
abbreviation UNSUPPORTEDOP :: int where "UNSUPPORTEDOP \<equiv> errorcode 2"
abbreviation NOTFOUND :: int where "NOTFOUND \<equiv> errorcode 3"
abbreviation NOFDS :: int where "NOFDS \<equiv> errorcode 4"
abbreviation BADFD :: int where "BADFD \<equiv> errorcode 5"
abbreviation INVALIDADDR :: int where "INVALIDADDR \<equiv> errorcode 6"
abbreviation NOTSUPPORTED :: int where "NOTSUPPORTED \<equiv> errorcode 7"
abbreviation EXISTS :: int where "EXISTS \<equiv> errorcode 8"
abbreviation BUSY :: int where "BUSY \<equiv> errorcode 9"
abbreviation NOMEM :: int where "NOMEM \<equiv> errorcode 10"
abbreviation INVALIDARG :: int where "INVALIDARG \<equiv> errorcode 11"

text \<open>The kinds of inodes and handles (\<open>libc/include/panuti/inode_type.h\<close>).\<close>

datatype inode_type = INODE_NONE | INODE_DIR | INODE_FILE | INODE_BLOCK | INODE_PIPE | INODE_DVC

text \<open>The scheduling states of a task (\<open>kernel/include/kernel/sched/task.h\<close>).\<close>

datatype task_state = TASK_NONE | TASK_READY | TASK_RUNNING | TASK_BLOCKED | TASK_TERMINATED

section \<open>32-bit arithmetic on naturals\<close>

text \<open>
  Where addresses and sizes are modelled as naturals, \<open>wrap32\<close> is the reduction a
  \<open>uint32_t\<close> operation performs.
\<close>

definition wrap32 :: "nat \<Rightarrow> nat" where
  "wrap32 n = n mod 4294967296"

lemma wrap32_id [simp]: "n < 4294967296 \<Longrightarrow> wrap32 n = n"
  by (simp add: wrap32_def)

lemma wrap32_less [simp]: "wrap32 n < 4294967296"
  by (simp add: wrap32_def)

section \<open>Bit arrays in bytes\<close>

text \<open>
  \<open>arr[i / 8] & (1 << (i % 8))\<close>, \<open>arr[i / 8] |= 1 << (i % 8)\<close> and
  \<open>arr[i / 8] &= ~(1 << (i % 8))\<close>.
\<close>

definition bget :: "u8 list \<Rightarrow> nat \<Rightarrow> bool" where
  "bget arr i = bit (arr ! (i div 8)) (i mod 8)"

definition bset :: "u8 list \<Rightarrow> nat \<Rightarrow> u8 list" where
  "bset arr i = arr[i div 8 := (arr ! (i div 8)) OR push_bit (i mod 8) 1]"

definition bclr :: "u8 list \<Rightarrow> nat \<Rightarrow> u8 list" where
  "bclr arr i = arr[i div 8 := (arr ! (i div 8)) AND NOT (push_bit (i mod 8) 1)]"

lemma length_bset [simp]: "length (bset arr i) = length arr"
  by (simp add: bset_def)

lemma length_bclr [simp]: "length (bclr arr i) = length arr"
  by (simp add: bclr_def)

lemma div8_mod8_eq: "(i::nat) div 8 = j div 8 \<Longrightarrow> i mod 8 = j mod 8 \<Longrightarrow> i = j"
  by (metis div_mult_mod_eq)

lemma bit_exp_u8: "j < 8 \<Longrightarrow> bit (2 ^ n :: u8) j \<longleftrightarrow> n = j"
  by (auto simp: bit_exp_iff)

lemma bget_bset: "i div 8 < length arr \<Longrightarrow> bget (bset arr i) j = (i = j \<or> bget arr j)"
  by (cases "i div 8 = j div 8")
    (auto simp: bget_def bset_def bit_or_iff bit_exp_u8 dest: div8_mod8_eq)

lemma bget_bclr: "i div 8 < length arr \<Longrightarrow> bget (bclr arr i) j = (i \<noteq> j \<and> bget arr j)"
  by (cases "i div 8 = j div 8")
    (auto simp: bget_def bclr_def bit_and_iff bit_not_iff bit_exp_u8 dest: div8_mod8_eq)

lemma bget_replicate0: "i div 8 < n \<Longrightarrow> \<not> bget (replicate n 0) i"
  by (simp add: bget_def)

lemma sub_mul8:
  assumes "8 * n \<le> (i::nat)"
  shows "(i - 8 * n) div 8 = i div 8 - n" "(i - 8 * n) mod 8 = i mod 8"
proof -
  obtain k where "i = k + 8 * n" using assms by (metis add.commute le_Suc_ex)
  then show "(i - 8 * n) div 8 = i div 8 - n" "(i - 8 * n) mod 8 = i mod 8" by simp_all
qed

lemma bget_append:
  "bget (xs @ ys) i = (if i div 8 < length xs then bget xs i else bget ys (i - 8 * length xs))"
proof (cases "i div 8 < length xs")
  case False
  then have "8 * length xs \<le> i" by linarith
  from sub_mul8 [OF this] False show ?thesis by (simp add: bget_def nth_append)
qed (simp add: bget_def nth_append)

lemma byte_zero_iff: "(b::u8) = 0 \<longleftrightarrow> (\<forall>i<8. \<not> bit b i)"
  by (auto simp: bit_eq_iff)

lemma byte_full_iff: "(b::u8) = 255 \<longleftrightarrow> (\<forall>i<8. bit b i)"
proof
  assume "\<forall>i<8. bit b i"
  then have "b = mask 8" by (auto simp: bit_eq_iff bit_mask_iff)
  then show "b = 255" by (simp add: mask_eq_exp_minus_1)
next
  assume "b = 255"
  then have "b = mask 8" by (simp add: mask_eq_exp_minus_1)
  then show "\<forall>i<8. bit b i" by (simp add: bit_mask_iff del: mask_numeral)
qed

end
