(* ===== verification/Fd_Table.thy ===== *)
theory Fd_Table
  imports Prelude
begin

text \<open>
  The per-task file descriptor table of \<open>kernel/kernel/handle/handle.c\<close> and the slot lookup
  \<open>task_return_hslot\<close> of \<open>kernel/kernel/sched/task.c\<close>.

  A pointer is a natural number with 0 for the null pointer. The arrays \<open>table\<close> and
  \<open>openb\<close> are lists; the null array is the empty list (an allocated table has at least 16
  slots, so the two cannot be confused). \<open>cap\<close> never exceeds 1024, so it is a natural
  number. Each call of \<open>kmalloc\<close> that the code makes is a Boolean argument that says
  whether it succeeded.
\<close>

section \<open>Model\<close>

record handle =
  h_type :: inode_type
  h_impl :: nat
  h_ops :: nat
  h_inode :: nat

definition zero_handle :: handle where
  "zero_handle = \<lparr>h_type = INODE_NONE, h_impl = 0, h_ops = 0, h_inode = 0\<rparr>"

record fdtable =
  table :: "handle list"
  cap :: nat
  openb :: "u8 list"

definition MAX_HANDLES :: nat where "MAX_HANDLES = 1024"
definition FD_INITIAL_CAP :: nat where "FD_INITIAL_CAP = 16"

definition fdtable_grow :: "bool \<Rightarrow> bool \<Rightarrow> fdtable \<Rightarrow> int \<times> fdtable" where
  "fdtable_grow ok1 ok2 fdt =
    (if MAX_HANDLES \<le> cap fdt then (-1, fdt)
     else
       let nc = (if cap fdt \<noteq> 0 then cap fdt * 2 else FD_INITIAL_CAP);
           new_cap = (if MAX_HANDLES < nc then MAX_HANDLES else nc)
       in if \<not> ok1 then (-1, fdt)
          else
            let new_openb_bytes = (new_cap + 7) div 8
            in if \<not> ok2 then (-1, fdt)
               else
                 let new_table = replicate new_cap zero_handle;
                     new_openb = replicate new_openb_bytes 0;
                     new_table' = (if table fdt \<noteq> [] \<and> cap fdt \<noteq> 0
                        then take (cap fdt) (table fdt) @ drop (cap fdt) new_table else new_table);
                     old_bytes = (cap fdt + 7) div 8;
                     new_openb' = (if openb fdt \<noteq> []
                        then take old_bytes (openb fdt) @ drop old_bytes new_openb else new_openb)
                 in (0, \<lparr>table = new_table', cap = new_cap, openb = new_openb'\<rparr>))"

text \<open>The two nested scans of \<open>handle_alloc\<close>: the bits of one byte, then the bytes.\<close>

function scan_bits :: "u8 \<Rightarrow> nat \<Rightarrow> nat \<Rightarrow> nat \<Rightarrow> nat option" where
  "scan_bits v capv byte b =
    (if b < 8 then
       let slot = byte * 8 + b
       in if capv \<le> slot then None
          else if bit v b then scan_bits v capv byte (Suc b)
          else Some slot
     else None)"
  by pat_completeness auto
termination by (relation "measure (\<lambda>(v, c, y, b). 8 - b)") auto

declare scan_bits.simps [simp del]

function scan_bytes :: "u8 list \<Rightarrow> nat \<Rightarrow> nat \<Rightarrow> nat option" where
  "scan_bytes ob capv byte =
    (if byte < (capv + 7) div 8 then
       if ob ! byte = 255 then scan_bytes ob capv (Suc byte)
       else (case scan_bits (ob ! byte) capv byte 0 of
               Some slot \<Rightarrow> Some slot
             | None \<Rightarrow> scan_bytes ob capv (Suc byte))
     else None)"
  by pat_completeness auto
termination by (relation "measure (\<lambda>(ob, c, y). (c + 7) div 8 - y)") auto

declare scan_bytes.simps [simp del]

definition take_slot :: "fdtable \<Rightarrow> nat \<Rightarrow> inode_type \<Rightarrow> fdtable" where
  "take_slot fdt slot ty =
     fdt\<lparr>openb := bset (openb fdt) slot,
         table := (table fdt)[slot := (table fdt ! slot)\<lparr>h_type := ty\<rparr>]\<rparr>"

definition handle_alloc :: "bool \<Rightarrow> bool \<Rightarrow> fdtable \<Rightarrow> inode_type \<Rightarrow> int \<times> fdtable" where
  "handle_alloc ok1 ok2 fdt ty =
    (case scan_bytes (openb fdt) (cap fdt) 0 of
       Some slot \<Rightarrow> (int slot, take_slot fdt slot ty)
     | None \<Rightarrow>
         let slot = cap fdt
         in case fdtable_grow ok1 ok2 fdt of
              (rc, fdt') \<Rightarrow>
                if rc \<noteq> 0 then (PLAINERR, fdt')
                else (int slot, take_slot fdt' slot ty))"

definition handle_free :: "fdtable \<Rightarrow> int \<Rightarrow> fdtable" where
  "handle_free fdt fd =
    (if fd < 0 then fdt
     else if table fdt = [] \<or> openb fdt = [] \<or> cap fdt \<le> nat fd then fdt
     else
       let slot = nat fd;
           fdt1 = fdt\<lparr>openb := bclr (openb fdt) slot,
                      table := (table fdt)[slot := zero_handle]\<rparr>;
           openb_bytes = (cap fdt1 + 7) div 8
       in if \<exists>byte < openb_bytes. openb fdt1 ! byte \<noteq> 0 then fdt1
          else \<lparr>table = [], cap = 0, openb = []\<rparr>)"

definition task_return_hslot :: "nat \<Rightarrow> fdtable \<Rightarrow> handle option" where
  "task_return_hslot slot fdt =
    (if table fdt = [] \<or> openb fdt = [] \<or> cap fdt \<le> slot then None
     else if \<not> bget (openb fdt) slot then None
     else Some (table fdt ! slot))"

definition set_hslot :: "fdtable \<Rightarrow> nat \<Rightarrow> handle \<Rightarrow> fdtable" where
  "set_hslot fdt slot h = fdt\<lparr>table := (table fdt)[slot := h]\<rparr>"

definition empty_fdtable :: fdtable where
  "empty_fdtable = \<lparr>table = [], cap = 0, openb = []\<rparr>"

section \<open>Invariant and abstraction\<close>

definition fd_wf :: "fdtable \<Rightarrow> bool" where
  "fd_wf fdt \<longleftrightarrow>
     length (table fdt) = cap fdt \<and> length (openb fdt) = (cap fdt + 7) div 8 \<and>
     cap fdt mod 8 = 0 \<and> cap fdt \<le> MAX_HANDLES"

definition open_fds :: "fdtable \<Rightarrow> nat set" where
  "open_fds fdt = {s. s < cap fdt \<and> bget (openb fdt) s}"

lemma fd_wf_empty: "fd_wf empty_fdtable" "open_fds empty_fdtable = {}"
  by (auto simp: fd_wf_def empty_fdtable_def open_fds_def)

lemma finite_open_fds [simp]: "finite (open_fds fdt)"
  by (simp add: open_fds_def)

lemma fd_wf_div: "fd_wf fdt \<Longrightarrow> (cap fdt + 7) div 8 = cap fdt div 8"
  by (auto simp: fd_wf_def)

lemma fd_wf_slot: "fd_wf fdt \<Longrightarrow> s < cap fdt \<Longrightarrow> s div 8 < length (openb fdt)"
  by (auto simp: fd_wf_def)


section \<open>The scans find the lowest clear bit\<close>

lemma scan_bits_Some:
  "scan_bits v c y b = Some s \<Longrightarrow>
     \<exists>k. s = y * 8 + k \<and> b \<le> k \<and> k < 8 \<and> s < c \<and> \<not> bit v k \<and> (\<forall>j. b \<le> j \<and> j < k \<longrightarrow> bit v j)"
proof (induction v c y b rule: scan_bits.induct)
  case (1 v c y b)
  show ?case
  proof (cases "b < 8 \<and> y * 8 + b < c \<and> bit v b")
    case True
    with "1.prems" have "scan_bits v c y (Suc b) = Some s"
      by (simp add: scan_bits.simps [of v c y b])
    with "1.IH" True obtain k where "s = y * 8 + k" "Suc b \<le> k" "k < 8" "s < c" "\<not> bit v k"
      "\<forall>j. Suc b \<le> j \<and> j < k \<longrightarrow> bit v j" by fastforce
    with True show ?thesis
      by (intro exI [of _ k]) (metis Suc_leD Suc_leI le_neq_implies_less)
  next
    case False
    with "1.prems" show ?thesis
      by (auto simp: scan_bits.simps [of v c y b] Let_def split: if_splits)
  qed
qed

lemma scan_bits_None:
  "scan_bits v c y b = None \<Longrightarrow> b \<le> k \<Longrightarrow> k < 8 \<Longrightarrow> y * 8 + k < c \<Longrightarrow> bit v k"
proof (induction v c y b rule: scan_bits.induct)
  case (1 v c y b)
  have "bit v b \<and> scan_bits v c y (Suc b) = None"
    using "1.prems" by (auto simp: scan_bits.simps [of v c y b] split: if_splits)
  with "1.IH" "1.prems" show ?case
    by (cases "k = b") auto
qed

lemma bget_in_byte: "k < 8 \<Longrightarrow> bget ob (y * 8 + k) = bit (ob ! y) k"
  by (simp add: bget_def)

lemma byte_range_cases:
  assumes "(y::nat) * 8 \<le> t" "\<And>k. k < 8 \<Longrightarrow> t = y * 8 + k \<Longrightarrow> P" "Suc y * 8 \<le> t \<Longrightarrow> P"
  shows P
  using assms(1,3) assms(2) [of "t - y * 8"] by (cases "t < Suc y * 8") auto

lemma scan_bytes_step:
  "y < (c + 7) div 8 \<Longrightarrow>
   scan_bytes ob c y = (case if ob ! y = 255 then None else scan_bits (ob ! y) c y 0 of
      Some s \<Rightarrow> Some s | None \<Rightarrow> scan_bytes ob c (Suc y))"
  by (simp add: scan_bytes.simps [of ob c y])

lemma scan_byte_None:
  "(if ob ! y = 255 then None else scan_bits (ob ! y) c y 0) = None \<Longrightarrow> k < 8 \<Longrightarrow>
   y * 8 + k < c \<Longrightarrow> bget ob (y * 8 + k)"
  using scan_bits_None [of "ob ! y" c y 0 k] byte_full_iff [of "ob ! y"]
  by (auto simp: bget_in_byte split: if_splits)

lemma scan_bytes_Some:
  "scan_bytes ob c y = Some s \<Longrightarrow>
     y * 8 \<le> s \<and> s < c \<and> \<not> bget ob s \<and> (\<forall>t. y * 8 \<le> t \<and> t < s \<longrightarrow> bget ob t)"
proof (induction "(c + 7) div 8 - y" arbitrary: y)
  case 0
  then show ?case by (simp add: scan_bytes.simps [of ob c y])
next
  case (Suc n)
  then have lt: "y < (c + 7) div 8" by simp
  let ?r = "if ob ! y = 255 then None else scan_bits (ob ! y) c y 0"
  show ?case
  proof (cases ?r)
    case (Some s')
    with Suc.prems lt have "scan_bits (ob ! y) c y 0 = Some s"
      by (simp add: scan_bytes_step split: if_splits)
    from scan_bits_Some [OF this] obtain k where k: "s = y * 8 + k" "k < 8" "s < c"
      "\<not> bit (ob ! y) k" "\<And>j. j < k \<Longrightarrow> bit (ob ! y) j" by auto
    have "bget ob t" if "y * 8 \<le> t" "t < s" for t
      using that k bget_in_byte [of "t - y * 8" ob y] by auto
    with k show ?thesis by (simp add: bget_in_byte)
  next
    case None
    with Suc.prems lt have "scan_bytes ob c (Suc y) = Some s" by (simp add: scan_bytes_step)
    with Suc.hyps have IH: "Suc y * 8 \<le> s" "s < c" "\<not> bget ob s"
      "\<And>t. Suc y * 8 \<le> t \<Longrightarrow> t < s \<Longrightarrow> bget ob t" by (metis Suc_diff_Suc diff_Suc_1 lt)+
    have "bget ob t" if "y * 8 \<le> t" "t < s" for t
      using that(1)
    proof (rule byte_range_cases)
      fix k assume "k < 8" "t = y * 8 + k"
      with that IH(2) show ?thesis using scan_byte_None [OF None] by simp
    qed (use IH(4) that in blast)
    with IH show ?thesis by simp
  qed
qed

lemma scan_bytes_None:
  "scan_bytes ob c y = None \<Longrightarrow> y * 8 \<le> t \<Longrightarrow> t < c \<Longrightarrow> bget ob t"
proof (induction "(c + 7) div 8 - y" arbitrary: y)
  case 0
  then have "(c + 7) div 8 \<le> y" by simp
  then have "c \<le> y * 8" by linarith
  with 0(3,4) show ?case by linarith
next
  case (Suc n)
  then have lt: "y < (c + 7) div 8" by simp
  let ?r = "if ob ! y = 255 then None else scan_bits (ob ! y) c y 0"
  have "(case ?r of Some s \<Rightarrow> Some s | None \<Rightarrow> scan_bytes ob c (Suc y)) = None"
    by (simp only: scan_bytes_step [OF lt, symmetric] Suc.prems(1))
  then have none: "?r = None" "scan_bytes ob c (Suc y) = None"
    by (cases ?r; simp only: option.case option.distinct)+
  have n: "n = (c + 7) div 8 - Suc y" using Suc.hyps(2) lt by simp
  have IH: "Suc y * 8 \<le> t \<Longrightarrow> bget ob t"
    using Suc.hyps(1) [OF n none(2)] Suc.prems(3) by blast
  from Suc.prems(2) show ?case
    by (rule byte_range_cases) (use IH scan_byte_None [OF none(1)] Suc.prems(3) in blast)+
qed

lemmas scan_lowest = scan_bytes_Some [where y = 0, simplified]
lemmas scan_full = scan_bytes_None [where y = 0, simplified]


section \<open>What each operation does to the set of open descriptors\<close>

lemma bit_replicate0: "\<not> bget (replicate n 0) s" if "s div 8 < n"
  using that by (simp add: bget_def)

lemma fdtable_grow_fails:
  "\<not> (cap fdt < MAX_HANDLES \<and> ok1 \<and> ok2) \<Longrightarrow> fdtable_grow ok1 ok2 fdt = (-1, fdt)"
  by (simp add: fdtable_grow_def Let_def)

lemma fdtable_grow_cases:
  assumes "fd_wf fdt" "fdtable_grow ok1 ok2 fdt = (rc, fdt')"
  shows "rc = -1 \<and> fdt' = fdt \<and> (cap fdt = MAX_HANDLES \<or> \<not> ok1 \<or> \<not> ok2) \<or>
         rc = 0 \<and> fd_wf fdt' \<and> cap fdt < cap fdt' \<and> open_fds fdt' = open_fds fdt \<and>
         (\<forall>s < cap fdt. table fdt' ! s = table fdt ! s) \<and>
         (\<forall>s. cap fdt \<le> s \<and> s < cap fdt' \<longrightarrow> table fdt' ! s = zero_handle)"
proof (cases "cap fdt < MAX_HANDLES \<and> ok1 \<and> ok2")
  case False
  with assms show ?thesis using fdtable_grow_fails [OF False] by (auto simp: fd_wf_def)
next
  case True
  define nc where "nc = min MAX_HANDLES (if cap fdt \<noteq> 0 then cap fdt * 2 else FD_INITIAL_CAP)"
  let ?t = "table fdt @ replicate (nc - cap fdt) zero_handle"
  let ?o = "openb fdt @ replicate (nc div 8 - cap fdt div 8) 0"
  have lt: "cap fdt < nc" "nc \<le> MAX_HANDLES"
    using True by (auto simp: nc_def MAX_HANDLES_def FD_INITIAL_CAP_def)
  have m8: "nc mod 8 = 0" "(nc + 7) div 8 = nc div 8"
    using assms(1) by (auto simp: nc_def fd_wf_def MAX_HANDLES_def FD_INITIAL_CAP_def min_def)
  have wf: "length (table fdt) = cap fdt" "length (openb fdt) = cap fdt div 8" "cap fdt mod 8 = 0"
    using assms(1) by (auto simp: fd_wf_def)
  then have nil: "table fdt = [] \<longleftrightarrow> cap fdt = 0" "openb fdt = [] \<longleftrightarrow> cap fdt = 0" by auto
  have div: "(cap fdt + 7) div 8 = cap fdt div 8" using fd_wf_div [OF assms(1)] .
  have t: "(if table fdt \<noteq> [] \<and> cap fdt \<noteq> 0 then take (cap fdt) (table fdt)
      @ drop (cap fdt) (replicate nc zero_handle) else replicate nc zero_handle) = ?t"
    using wf(1) nil(1) by (cases "cap fdt = 0") simp_all
  have o: "(if openb fdt \<noteq> [] then take (cap fdt div 8) (openb fdt)
      @ drop (cap fdt div 8) (replicate (nc div 8) 0) else replicate (nc div 8) 0) = ?o"
    using wf(2) by (cases "openb fdt = []") simp_all
  have nc: "(if MAX_HANDLES < k then MAX_HANDLES else k) = min MAX_HANDLES k" for k by simp
  have "fdtable_grow ok1 ok2 fdt = (0, \<lparr>table = ?t, cap = nc, openb = ?o\<rparr>)"
    using True by (simp only: fdtable_grow_def Let_def nc nc_def [symmetric] m8(2) div t o) simp
  with assms(2) have eq: "fdt' = \<lparr>table = ?t, cap = nc, openb = ?o\<rparr>" "rc = 0" by simp_all
  have old: "bget ?o s \<longleftrightarrow> s < cap fdt \<and> bget (openb fdt) s" if "s < nc" for s
  proof -
    have c8: "8 * (cap fdt div 8) = cap fdt" using wf(3) by auto
    have s8: "s div 8 < nc div 8" "s div 8 < cap fdt div 8 \<longleftrightarrow> s < cap fdt"
      using that m8 wf(3) by auto
    show ?thesis
    proof (cases "s < cap fdt")
      case False
      then have "(s - cap fdt) div 8 < nc div 8 - cap fdt div 8"
        using sub_mul8(1) [of "cap fdt div 8" s] s8 c8 by (simp add: diff_less_mono not_less)
      with False s8 c8 wf(2) bit_replicate0 show ?thesis by (simp add: bget_append)
    qed (use s8 wf(2) bget_append in simp)
  qed
  have "nc div 8 = cap fdt div 8 + (nc div 8 - cap fdt div 8)"
    using lt(1) by (simp add: div_le_mono)
  then have "fd_wf fdt'" using eq wf lt m8 by (simp add: fd_wf_def)
  moreover have "open_fds fdt' = open_fds fdt"
    using eq lt old by (auto simp: open_fds_def)
  ultimately show ?thesis using eq wf lt by (auto simp: nth_append)
qed

lemma take_slot_effect:
  assumes "fd_wf fdt" "s < cap fdt"
  shows "fd_wf (take_slot fdt s ty)" "open_fds (take_slot fdt s ty) = insert s (open_fds fdt)"
    "cap (take_slot fdt s ty) = cap fdt"
    "u \<noteq> s \<Longrightarrow> table (take_slot fdt s ty) ! u = table fdt ! u"
    "table (take_slot fdt s ty) ! s = (table fdt ! s)\<lparr>h_type := ty\<rparr>"
  using assms fd_wf_slot [OF assms]
  by (auto simp: take_slot_def fd_wf_def open_fds_def bget_bset)

lemma handle_alloc_effect:
  assumes "fd_wf fdt" "handle_alloc ok1 ok2 fdt ty = (fd, fdt')"
  shows "0 \<le> fd \<and> fd_wf fdt' \<and> nat fd \<notin> open_fds fdt \<and> (\<forall>t < nat fd. t \<in> open_fds fdt) \<and>
           open_fds fdt' = insert (nat fd) (open_fds fdt) \<and> nat fd < MAX_HANDLES \<and>
           h_type (table fdt' ! nat fd) = ty \<and>
           (\<forall>t \<in> open_fds fdt. table fdt' ! t = table fdt ! t)
       \<or> fd = PLAINERR \<and> fdt' = fdt \<and> open_fds fdt = {..< cap fdt} \<and>
           (cap fdt = MAX_HANDLES \<or> \<not> ok1 \<or> \<not> ok2)"
proof (cases "scan_bytes (openb fdt) (cap fdt) 0")
  case (Some s)
  with assms have eq: "fd = int s" "fdt' = take_slot fdt s ty" by (auto simp: handle_alloc_def)
  from scan_lowest [OF Some] have s: "s < cap fdt" "\<not> bget (openb fdt) s"
    "\<And>t. t < s \<Longrightarrow> bget (openb fdt) t" by blast+
  have lim: "s < MAX_HANDLES" using s(1) assms(1) by (auto simp: fd_wf_def)
  have op: "s \<notin> open_fds fdt" "\<forall>t < s. t \<in> open_fds fdt" using s by (auto simp: open_fds_def)
  then have old: "\<forall>t \<in> open_fds fdt. table fdt' ! t = table fdt ! t"
    using eq(2) take_slot_effect(4) [OF assms(1) s(1)] op(1) by metis
  show ?thesis
    using eq lim op old take_slot_effect(1-3,5) [OF assms(1) s(1), of ty] by simp
next
  case None
  then have full: "open_fds fdt = {..< cap fdt}"
    using scan_full [OF None] by (auto simp: open_fds_def)
  obtain rc g where g: "fdtable_grow ok1 ok2 fdt = (rc, g)" by fastforce
  from fdtable_grow_cases [OF assms(1) g] show ?thesis
  proof
    assume "rc = -1 \<and> g = fdt \<and> (cap fdt = MAX_HANDLES \<or> \<not> ok1 \<or> \<not> ok2)"
    with assms g None full show ?thesis by (auto simp: handle_alloc_def)
  next
    assume r: "rc = 0 \<and> fd_wf g \<and> cap fdt < cap g \<and> open_fds g = open_fds fdt \<and>
         (\<forall>s < cap fdt. table g ! s = table fdt ! s) \<and>
         (\<forall>s. cap fdt \<le> s \<and> s < cap g \<longrightarrow> table g ! s = zero_handle)"
    with assms g None have eq: "fd = int (cap fdt)" "fdt' = take_slot g (cap fdt) ty"
      by (auto simp: handle_alloc_def Let_def)
    from r have "cap fdt < MAX_HANDLES" by (auto simp: fd_wf_def)
    with r eq full take_slot_effect(1-3,5) [of g "cap fdt" ty] show ?thesis
      by (simp add: take_slot_def)
  qed
qed

lemma openb_zero_iff:
  assumes "fd_wf fdt"
  shows "(\<exists>byte < (cap fdt + 7) div 8. openb fdt ! byte \<noteq> 0) \<longleftrightarrow> open_fds fdt \<noteq> {}"
proof
  assume "\<exists>byte < (cap fdt + 7) div 8. openb fdt ! byte \<noteq> 0"
  then obtain y k where "y < (cap fdt + 7) div 8" "k < 8" "bit (openb fdt ! y) k"
    using byte_zero_iff by blast
  moreover from this have "y * 8 + k < cap fdt" using assms by (auto simp: fd_wf_def)
  ultimately have "y * 8 + k \<in> open_fds fdt" by (simp add: open_fds_def bget_in_byte)
  then show "open_fds fdt \<noteq> {}" by blast
next
  assume "open_fds fdt \<noteq> {}"
  then obtain s where s: "s < cap fdt" "bget (openb fdt) s" by (auto simp: open_fds_def)
  then have "openb fdt ! (s div 8) \<noteq> 0" by (auto simp: bget_def)
  moreover have "s div 8 < (cap fdt + 7) div 8" using s assms by (auto simp: fd_wf_def)
  ultimately show "\<exists>byte < (cap fdt + 7) div 8. openb fdt ! byte \<noteq> 0" by blast
qed

lemma handle_free_effect:
  assumes "fd_wf fdt"
  shows "fd_wf (handle_free fdt fd)"
    "open_fds (handle_free fdt fd) = (if fd < 0 then open_fds fdt else open_fds fdt - {nat fd})"
    "t \<in> open_fds (handle_free fdt fd) \<Longrightarrow> table (handle_free fdt fd) ! t = table fdt ! t"
proof -
  let ?f = "fdt\<lparr>openb := bclr (openb fdt) (nat fd), table := (table fdt)[nat fd := zero_handle]\<rparr>"
  have skip: "handle_free fdt fd = fdt" if "fd < 0 \<or> cap fdt \<le> nat fd"
    using that assms by (auto simp: handle_free_def fd_wf_def)
  have go: "handle_free fdt fd = (if open_fds ?f \<noteq> {} then ?f else empty_fdtable) \<and> fd_wf ?f \<and>
      open_fds ?f = open_fds fdt - {nat fd}" if "0 \<le> fd" "nat fd < cap fdt"
  proof -
    have wf: "fd_wf ?f" using assms by (auto simp: fd_wf_def)
    have "table fdt \<noteq> []" "openb fdt \<noteq> []" using that assms by (auto simp: fd_wf_def)
    then show ?thesis using that openb_zero_iff [OF wf] wf fd_wf_slot [OF assms that(2)]
      by (auto simp: handle_free_def Let_def empty_fdtable_def open_fds_def bget_bclr)
  qed
  have out: "open_fds fdt = open_fds fdt - {nat fd}" if "cap fdt \<le> nat fd"
    using that by (auto simp: open_fds_def)
  show "fd_wf (handle_free fdt fd)"
    using skip go assms fd_wf_empty by (cases "fd < 0 \<or> cap fdt \<le> nat fd") (auto split: if_splits)
  show "open_fds (handle_free fdt fd) = (if fd < 0 then open_fds fdt else open_fds fdt - {nat fd})"
    using skip go out fd_wf_empty by (cases "fd < 0 \<or> cap fdt \<le> nat fd") (auto split: if_splits)
  show "t \<in> open_fds (handle_free fdt fd) \<Longrightarrow> table (handle_free fdt fd) ! t = table fdt ! t"
    using skip go fd_wf_empty by (cases "fd < 0 \<or> cap fdt \<le> nat fd") (auto split: if_splits)
qed

lemma hslot_open_iff: "fd_wf fdt \<Longrightarrow> task_return_hslot s fdt \<noteq> None \<longleftrightarrow> s \<in> open_fds fdt"
  by (auto simp: task_return_hslot_def open_fds_def fd_wf_def)

lemma set_hslot_effect:
  "fd_wf fdt \<Longrightarrow> fd_wf (set_hslot fdt s h)" "open_fds (set_hslot fdt s h) = open_fds fdt"
  "fd_wf fdt \<Longrightarrow> s \<in> open_fds fdt \<Longrightarrow> task_return_hslot s (set_hslot fdt s h) = Some h"
  "t \<noteq> s \<Longrightarrow> task_return_hslot t (set_hslot fdt s h) = task_return_hslot t fdt"
  by (auto simp: set_hslot_def fd_wf_def open_fds_def task_return_hslot_def)

section \<open>The descriptor table as an interface\<close>

text \<open>
  What the clients of the table (\<open>pipe_create_pair\<close>, \<open>open\<close>, \<open>task_release_handles\<close>) rely
  on: allocation gives a descriptor that was not open and opens exactly it, a failed
  allocation changes nothing, freeing closes exactly the descriptor given.
\<close>

locale fd_provider =
  fixes inv :: "'t \<Rightarrow> bool"
    and opens :: "'t \<Rightarrow> nat set"
    and alloc :: "'o \<Rightarrow> 't \<Rightarrow> int \<times> 't"
    and rel :: "'t \<Rightarrow> int \<Rightarrow> 't"
    and look :: "nat \<Rightarrow> 't \<Rightarrow> 'h option"
    and limit :: nat
  assumes alloc_ok: "inv t \<Longrightarrow> alloc k t = (fd, t') \<Longrightarrow> 0 \<le> fd \<Longrightarrow>
      inv t' \<and> nat fd \<notin> opens t \<and> opens t' = insert (nat fd) (opens t) \<and> nat fd < limit"
    and alloc_fail: "inv t \<Longrightarrow> alloc k t = (fd, t') \<Longrightarrow> fd < 0 \<Longrightarrow> t' = t"
    and rel_inv: "inv t \<Longrightarrow> inv (rel t fd)"
    and rel_opens: "inv t \<Longrightarrow> 0 \<le> fd \<Longrightarrow> opens (rel t fd) = opens t - {nat fd}"
    and look_open: "inv t \<Longrightarrow> look s t \<noteq> None \<longleftrightarrow> s \<in> opens t"
begin

lemma alloc_inv: "inv t \<Longrightarrow> alloc k t = (fd, t') \<Longrightarrow> inv t'"
  using alloc_ok [of t k fd t'] alloc_fail [of t k fd t'] by (cases "0 \<le> fd") auto

lemma alloc_look: "inv t \<Longrightarrow> alloc k t = (fd, t') \<Longrightarrow> 0 \<le> fd \<Longrightarrow> look (nat fd) t' \<noteq> None"
  using alloc_ok look_open by auto

lemma alloc_pair:
  assumes "inv t" "alloc k t = (fd1, t1)" "0 \<le> fd1" "alloc k' t1 = (fd2, t2)" "0 \<le> fd2"
  shows "inv t2 \<and> fd1 \<noteq> fd2 \<and> opens t2 = {nat fd1, nat fd2} \<union> opens t \<and>
    nat fd1 \<notin> opens t \<and> nat fd2 \<notin> opens t \<and>
    look (nat fd1) t2 \<noteq> None \<and> look (nat fd2) t2 \<noteq> None"
  using alloc_ok [OF assms(1-3)] alloc_ok [OF alloc_inv [OF assms(1,2)] assms(4,5)]
    look_open [of t2] by auto

lemma alloc_release:
  assumes "inv t" "alloc k t = (fd, t')" "0 \<le> fd"
  shows "inv (rel t' fd) \<and> opens (rel t' fd) = opens t"
  using alloc_ok [OF assms] rel_inv rel_opens assms(3) by auto

end

definition fd_alloc :: "bool \<times> bool \<times> inode_type \<Rightarrow> fdtable \<Rightarrow> int \<times> fdtable" where
  "fd_alloc k fdt = (case k of (ok1, ok2, ty) \<Rightarrow> handle_alloc ok1 ok2 fdt ty)"

interpretation fdp: fd_provider fd_wf open_fds fd_alloc handle_free task_return_hslot MAX_HANDLES
proof unfold_locales
  fix t k fd t'
  assume a: "fd_wf t" "fd_alloc k t = (fd, t')"
  then obtain ok1 ok2 ty where h: "handle_alloc ok1 ok2 t ty = (fd, t')"
    by (cases k) (auto simp: fd_alloc_def)
  note eff = handle_alloc_effect [OF a(1) h]
  show "0 \<le> fd \<Longrightarrow> fd_wf t' \<and> nat fd \<notin> open_fds t \<and> open_fds t' = insert (nat fd) (open_fds t) \<and>
      nat fd < MAX_HANDLES" using eff by (auto simp: errorcode_def)
  show "fd < 0 \<Longrightarrow> t' = t" using eff by auto
qed (simp_all only: handle_free_effect hslot_open_iff if_False not_less [symmetric] not_not)


section \<open>Properties\<close>

text \<open>C5: \<open>handle_alloc\<close> gives out the lowest free descriptor. From a well-formed table it either
  returns the least descriptor that is not open, below \<open>MAX_HANDLES\<close>, opens exactly that one,
  records the type and leaves every open handle as it was; or it returns \<open>PLAINERR\<close> with the table
  unchanged, and then every slot is open and the table is at its limit or an allocation failed.\<close>

theorem handle_alloc_lowest:
  assumes "fd_wf fdt" "handle_alloc ok1 ok2 fdt ty = (fd, fdt')"
  shows "0 \<le> fd \<and> fd_wf fdt' \<and> nat fd \<notin> open_fds fdt \<and> (\<forall>t < nat fd. t \<in> open_fds fdt) \<and>
           open_fds fdt' = insert (nat fd) (open_fds fdt) \<and> nat fd < MAX_HANDLES \<and>
           h_type (table fdt' ! nat fd) = ty \<and>
           (\<forall>t \<in> open_fds fdt. table fdt' ! t = table fdt ! t)
       \<or> fd = PLAINERR \<and> fdt' = fdt \<and> open_fds fdt = {..< cap fdt} \<and>
           (cap fdt = MAX_HANDLES \<or> \<not> ok1 \<or> \<not> ok2)"
  by (rule handle_alloc_effect [OF assms])

theorem handle_alloc_lowest_witness:
  "\<exists>fdt'. handle_alloc True True empty_fdtable INODE_PIPE = (0, fdt') \<and> open_fds fdt' = {0}"
proof -
  have "fst (handle_alloc True True empty_fdtable INODE_PIPE) = 0"
    by (simp add: handle_alloc_def empty_fdtable_def scan_bytes.simps fdtable_grow_def
        MAX_HANDLES_def FD_INITIAL_CAP_def Let_def)
  then obtain f where f: "handle_alloc True True empty_fdtable INODE_PIPE = (0, f)"
    by (metis prod.collapse)
  from handle_alloc_lowest [OF fd_wf_empty(1) f] f fd_wf_empty(2) show ?thesis
    by (auto simp: errorcode_def)
qed

text \<open>C6: Closing a descriptor closes that descriptor only. \<open>handle_free\<close> keeps the table
  well-formed, the descriptor no longer resolves, every other open descriptor resolves to the
  handle it had, and the table is given back when nothing is open any more.\<close>

theorem handle_free_exact:
  assumes "fd_wf fdt" "0 \<le> fd"
  shows "fd_wf (handle_free fdt fd) \<and> task_return_hslot (nat fd) (handle_free fdt fd) = None \<and>
    (\<forall>s. s \<noteq> nat fd \<longrightarrow> task_return_hslot s (handle_free fdt fd) = task_return_hslot s fdt) \<and>
    (open_fds fdt \<subseteq> {nat fd} \<and> nat fd < cap fdt \<longrightarrow> handle_free fdt fd = empty_fdtable)"
proof -
  note eff = handle_free_effect [OF assms(1)]
  have op: "open_fds (handle_free fdt fd) = open_fds fdt - {nat fd}" using eff(2) assms(2) by simp
  have none: "task_return_hslot s t = None" if "fd_wf t" "s \<notin> open_fds t" for s t
    using hslot_open_iff [OF that(1), of s] that(2) by (cases "task_return_hslot s t") auto
  have some: "task_return_hslot s t = Some (table t ! s)" if "fd_wf t" "s \<in> open_fds t" for s t
    using that by (auto simp: task_return_hslot_def fd_wf_def open_fds_def)
  have "task_return_hslot s (handle_free fdt fd) = task_return_hslot s fdt" if "s \<noteq> nat fd" for s
  proof (cases "s \<in> open_fds fdt")
    case True
    then have "s \<in> open_fds (handle_free fdt fd)" using op that by simp
    with True show ?thesis using some assms(1) eff(1,3) by simp
  next
    case False
    with op that none assms(1) eff(1) show ?thesis by simp
  qed
  moreover have "handle_free fdt fd = empty_fdtable" if "open_fds fdt \<subseteq> {nat fd}" "nat fd < cap fdt"
  proof -
    let ?f = "fdt\<lparr>openb := bclr (openb fdt) (nat fd), table := (table fdt)[nat fd := zero_handle]\<rparr>"
    have wf: "fd_wf ?f" "open_fds ?f = {}" "table fdt \<noteq> []" "openb fdt \<noteq> []"
      using that assms fd_wf_slot [OF assms(1) that(2)]
      by (auto simp: fd_wf_def open_fds_def bget_bclr)
    then show ?thesis using openb_zero_iff [OF wf(1)] that assms(2)
      by (auto simp: handle_free_def Let_def empty_fdtable_def)
  qed
  ultimately show ?thesis using op eff(1) none by simp
qed

theorem handle_free_exact_witness:
  "handle_free \<lparr>table = replicate 16 zero_handle, cap = 16, openb = [4, 0]\<rparr> 2 = empty_fdtable"
proof -
  let ?f = "\<lparr>table = replicate 16 zero_handle, cap = 16, openb = [4, 0]\<rparr>"
  have b: "bget [4, 0] s \<longleftrightarrow> s = 2" if "s < 16" for s
  proof -
    have four: "(4::u8) = 2 ^ 2" by simp
    have div: "s div 8 = (if s < 8 then 0 else 1)" using that by auto
    show ?thesis unfolding bget_def div four
      using bit_exp_u8 [of s 2] by (cases "s < 8") (auto simp del: power_numeral)
  qed
  have "fd_wf ?f" by (simp add: fd_wf_def MAX_HANDLES_def)
  moreover have "open_fds ?f \<subseteq> {nat 2}" using b by (auto simp: open_fds_def)
  ultimately show ?thesis using handle_free_exact [of ?f 2] by simp
qed

end
