(* ===== verification/Pipe.thy ===== *)
theory Pipe
  imports Fd_Table
begin

text \<open>
  Anonymous pipes, \<open>kernel/kernel/handle/pipe.c\<close>: the ring buffer, the two lists of waiting
  tasks, the reference counted ends and the creation of a pair of descriptors.

  The buffer indices never leave \<open>[0, capacity)\<close>, which \<open>pipe_wf\<close> states and every
  operation keeps, so they are natural numbers. \<open>readers_waiting\<close> holds the first
  \<open>no_readers_waiting\<close> entries of the array of that name. Task states are a function from
  task identifiers. A section that the code runs with interrupts off is one function; between
  two such sections any other task may run, and \<open>pipe_step\<close> interleaves them.
\<close>

section \<open>The ring buffer\<close>

definition PIPE_BUFFER_SIZE :: nat where "PIPE_BUFFER_SIZE = 4096"
definition PIPE_MAX_WAITERS :: nat where "PIPE_MAX_WAITERS = 8"

record pipe =
  buffer :: "u8 list"
  capacity :: nat
  head :: nat
  tail :: nat
  count :: nat
  p_refcount :: int
  readers_waiting :: "nat list"
  writers_waiting :: "nat list"
  write_end_closed :: bool
  read_end_closed :: bool

primrec read_loop :: "nat \<Rightarrow> pipe \<Rightarrow> u8 list \<times> pipe" where
  "read_loop 0 p = ([], p)"
| "read_loop (Suc n) p =
     (let b = buffer p ! head p;
          p' = p\<lparr>head := (head p + 1) mod capacity p\<rparr>
      in case read_loop n p' of (bs, q) \<Rightarrow> (b # bs, q))"

definition pipe_read_raw :: "pipe \<Rightarrow> nat \<Rightarrow> u8 list \<times> pipe" where
  "pipe_read_raw p len =
     (let n = (if count p < len then count p else len)
      in case read_loop n p of (bs, q) \<Rightarrow> (bs, q\<lparr>count := count q - n\<rparr>))"

primrec write_loop :: "u8 list \<Rightarrow> pipe \<Rightarrow> pipe" where
  "write_loop [] p = p"
| "write_loop (b # bs) p =
     write_loop bs (p\<lparr>buffer := (buffer p)[tail p := b], tail := (tail p + 1) mod capacity p\<rparr>)"

definition pipe_write_raw :: "pipe \<Rightarrow> u8 list \<Rightarrow> nat \<times> pipe" where
  "pipe_write_raw p bs =
     (let free_space = capacity p - count p;
          n = (if free_space < length bs then free_space else length bs);
          q = write_loop (take n bs) p
      in (n, q\<lparr>count := count q + n\<rparr>))"

definition pipe_init :: pipe where
  "pipe_init = \<lparr>buffer = replicate PIPE_BUFFER_SIZE 0, capacity = PIPE_BUFFER_SIZE, head = 0,
     tail = 0, count = 0, p_refcount = 2, readers_waiting = [], writers_waiting = [],
     write_end_closed = False, read_end_closed = False\<rparr>"

section \<open>Invariant and contents\<close>

definition pipe_wf :: "pipe \<Rightarrow> bool" where
  "pipe_wf p \<longleftrightarrow> 0 < capacity p \<and> length (buffer p) = capacity p \<and> head p < capacity p \<and>
     count p \<le> capacity p \<and> tail p = (head p + count p) mod capacity p"

definition pipe_bytes :: "pipe \<Rightarrow> u8 list" where
  "pipe_bytes p = map (\<lambda>i. buffer p ! ((head p + i) mod capacity p)) [0..<count p]"

lemma length_pipe_bytes [simp]: "length (pipe_bytes p) = count p"
  by (simp add: pipe_bytes_def)

lemma pipe_init_wf: "pipe_wf pipe_init" "pipe_bytes pipe_init = []"
  by (simp_all add: pipe_init_def pipe_wf_def PIPE_BUFFER_SIZE_def pipe_bytes_def)

lemma pipe_wf_frame [simp]:
  "pipe_wf (p\<lparr>readers_waiting := r\<rparr>) = pipe_wf p" "pipe_wf (p\<lparr>writers_waiting := r\<rparr>) = pipe_wf p"
  "pipe_wf (p\<lparr>write_end_closed := b\<rparr>) = pipe_wf p" "pipe_wf (p\<lparr>read_end_closed := b\<rparr>) = pipe_wf p"
  by (simp_all add: pipe_wf_def)

lemma pipe_bytes_frame [simp]:
  "pipe_bytes (p\<lparr>readers_waiting := r\<rparr>) = pipe_bytes p"
  "pipe_bytes (p\<lparr>writers_waiting := r\<rparr>) = pipe_bytes p"
  "pipe_bytes (p\<lparr>write_end_closed := b\<rparr>) = pipe_bytes p"
  "pipe_bytes (p\<lparr>read_end_closed := b\<rparr>) = pipe_bytes p"
  by (simp_all add: pipe_bytes_def)

lemma read_loop_eq:
  "read_loop n p = (map (\<lambda>i. buffer p ! ((head p + i) mod capacity p)) [0..<n],
     p\<lparr>head := (head p + n) mod capacity p\<rparr>)" if "head p < capacity p"
  using that
proof (induction n arbitrary: p)
  case 0
  then show ?case by simp
next
  case (Suc n)
  have "[0..<Suc n] = 0 # map Suc [0..<n]" by (simp add: map_Suc_upt upt_conv_Cons)
  moreover have "((head p + 1) mod capacity p + i) mod capacity p = (head p + Suc i) mod capacity p" for i
    by (simp add: mod_add_left_eq)
  moreover have "(head p + 1) mod capacity p < capacity p" using Suc.prems by simp
  ultimately show ?case using Suc by (simp add: Let_def comp_def del: upt_Suc)
qed

lemma write_loop_fields [simp]:
  "capacity (write_loop bs p) = capacity p" "head (write_loop bs p) = head p"
  "count (write_loop bs p) = count p" "p_refcount (write_loop bs p) = p_refcount p"
  "readers_waiting (write_loop bs p) = readers_waiting p"
  "writers_waiting (write_loop bs p) = writers_waiting p"
  "write_end_closed (write_loop bs p) = write_end_closed p"
  "read_end_closed (write_loop bs p) = read_end_closed p"
  "pipe.more (write_loop bs p) = pipe.more p"
  by (induction bs arbitrary: p) simp_all

lemma write_loop_tail:
  "tail p < capacity p \<Longrightarrow> tail (write_loop bs p) = (tail p + length bs) mod capacity p"
proof (induction bs arbitrary: p)
  case (Cons b bs)
  then show ?case by (simp add: mod_add_left_eq)
qed simp

lemma length_write_loop: "length (buffer (write_loop bs p)) = length (buffer p)"
  by (induction bs arbitrary: p) simp_all


lemma ring_mod:
  "h < c \<Longrightarrow> i \<le> c \<Longrightarrow> (h + i) mod c = (if h + i < c then h + i else h + i - c)" for h i c :: nat
  by (auto simp: le_mod_geq)

lemma ring_index_inj:
  "h < c \<Longrightarrow> i < c \<Longrightarrow> k < c \<Longrightarrow> (h + i) mod c = (h + k) mod c \<Longrightarrow> i = k" for h i k c :: nat
  by (simp add: ring_mod split: if_splits)

lemma write_loop_nth:
  assumes "head p < capacity p" "length (buffer p) = capacity p"
    "tail p = (head p + k) mod capacity p" "k + length bs \<le> capacity p" "i < k + length bs"
  shows "buffer (write_loop bs p) ! ((head p + i) mod capacity p) =
    (if i < k then buffer p ! ((head p + i) mod capacity p) else bs ! (i - k))"
  using assms
proof (induction bs arbitrary: p k)
  case Nil
  then show ?case by simp
next
  case (Cons b bs)
  let ?p = "p\<lparr>buffer := (buffer p)[tail p := b], tail := (tail p + 1) mod capacity p\<rparr>"
  have "buffer (write_loop bs ?p) ! ((head ?p + i) mod capacity ?p) =
    (if i < Suc k then buffer ?p ! ((head ?p + i) mod capacity ?p) else bs ! (i - Suc k))"
    by (rule Cons.IH) (use Cons.prems mod_add_left_eq [of "head p + k" "capacity p" 1] in simp_all)
  moreover have "tail p < capacity p" using Cons.prems by simp
  moreover have "i < Suc k \<Longrightarrow> (head p + i) mod capacity p = tail p \<longleftrightarrow> i = k"
    using Cons.prems ring_index_inj [of "head p" "capacity p" i k] by auto
  ultimately show ?case using Cons.prems
    by (cases "i = k") (auto simp: nth_list_update Suc_diff_le less_Suc_eq not_less le_Suc_eq)
qed

lemma pipe_read_raw_spec:
  assumes "pipe_wf p" "pipe_read_raw p len = (bs, q)"
  shows "bs = take len (pipe_bytes p)" "pipe_bytes q = drop len (pipe_bytes p)" "pipe_wf q"
    "q = p\<lparr>head := head q, count := count p - min (count p) len\<rparr>" "capacity q = capacity p"
proof -
  have hd: "head p < capacity p" using assms(1) by (simp add: pipe_wf_def)
  let ?n = "min (count p) len"
  have eq: "bs = map (\<lambda>i. buffer p ! ((head p + i) mod capacity p)) [0..<?n]"
    "q = p\<lparr>head := (head p + ?n) mod capacity p, count := count p - ?n\<rparr>"
    using assms(2) by (auto simp: pipe_read_raw_def Let_def read_loop_eq [OF hd] min_def split: if_splits)
  show "bs = take len (pipe_bytes p)"
    by (rule nth_equalityI) (simp_all add: eq(1) pipe_bytes_def)
  have "((head p + ?n) mod capacity p + i) mod capacity p = (head p + (?n + i)) mod capacity p" for i
    by (simp add: mod_add_left_eq add.assoc)
  then show "pipe_bytes q = drop len (pipe_bytes p)"
    by (auto simp: eq(2) pipe_bytes_def drop_map intro!: nth_equalityI)
  have "((head p + ?n) mod capacity p + (count p - ?n)) mod capacity p
      = (head p + count p) mod capacity p"
    by (subst mod_add_left_eq) simp
  then show "pipe_wf q" using assms(1)
    by (auto simp: eq(2) pipe_wf_def)
  show "q = p\<lparr>head := head q, count := count p - min (count p) len\<rparr>" "capacity q = capacity p"
    by (simp_all add: eq(2))
qed

lemma pipe_write_raw_spec:
  assumes "pipe_wf p" "pipe_write_raw p bs = (n, q)"
  shows "n = min (length bs) (capacity p - count p)" "pipe_bytes q = pipe_bytes p @ take n bs"
    "pipe_wf q" "q = p\<lparr>buffer := buffer q, tail := tail q, count := count p + n\<rparr>"
    "capacity q = capacity p"
proof -
  have wf: "head p < capacity p" "length (buffer p) = capacity p" "count p \<le> capacity p"
    "tail p = (head p + count p) mod capacity p" "tail p < capacity p"
    using assms(1) by (auto simp: pipe_wf_def)
  show n: "n = min (length bs) (capacity p - count p)"
    using assms(2) by (auto simp: pipe_write_raw_def Let_def)
  let ?w = "write_loop (take n bs) p"
  have q: "q = ?w\<lparr>count := count p + n\<rparr>"
    using assms(2) by (auto simp: pipe_write_raw_def Let_def)
  have "n \<le> length bs" by (simp add: n)
  then have len: "length (take n bs) = n" by simp
  have nth: "buffer ?w ! ((head p + i) mod capacity p) =
    (if i < count p then buffer p ! ((head p + i) mod capacity p) else take n bs ! (i - count p))"
    if "i < count p + n" for i
    using write_loop_nth [OF wf(1,2,4), of "take n bs" i] len n that wf(3) by simp
  show "pipe_bytes q = pipe_bytes p @ take n bs"
  proof (rule nth_equalityI)
    fix i assume "i < length (pipe_bytes q)"
    then have i: "i < count p + n" by (simp add: q)
    from nth [OF i] i show "pipe_bytes q ! i = (pipe_bytes p @ take n bs) ! i"
      by (simp add: q pipe_bytes_def nth_append)
  qed (simp add: q len del: length_take)
  show "pipe_wf q"
    using wf assms(1) n len write_loop_tail [OF wf(5), of "take n bs"]
    by (auto simp: q pipe_wf_def length_write_loop mod_add_left_eq add.assoc)
  show "q = p\<lparr>buffer := buffer q, tail := tail q, count := count p + n\<rparr>"
    by (rule pipe.equality) (simp_all add: q)
  show "capacity q = capacity p" by (simp add: q)
qed


lemma pipe_read_raw_frame:
  assumes "pipe_wf p" "pipe_read_raw p len = (bs, q)"
  shows "readers_waiting q = readers_waiting p" "writers_waiting q = writers_waiting p"
    "write_end_closed q = write_end_closed p" "read_end_closed q = read_end_closed p"
proof -
  have "q = p\<lparr>head := head q, count := count p - min (count p) len\<rparr>"
    by (rule pipe_read_raw_spec(4) [OF assms])
  then obtain h c where "q = p\<lparr>head := h, count := c\<rparr>" by blast
  then show "readers_waiting q = readers_waiting p" "writers_waiting q = writers_waiting p"
    "write_end_closed q = write_end_closed p" "read_end_closed q = read_end_closed p" by simp_all
qed

lemma pipe_write_raw_frame:
  assumes "pipe_wf p" "pipe_write_raw p bs = (n, q)"
  shows "readers_waiting q = readers_waiting p" "writers_waiting q = writers_waiting p"
    "write_end_closed q = write_end_closed p" "read_end_closed q = read_end_closed p"
proof -
  have "q = p\<lparr>buffer := buffer q, tail := tail q, count := count p + n\<rparr>"
    by (rule pipe_write_raw_spec(4) [OF assms])
  then obtain b t c where "q = p\<lparr>buffer := b, tail := t, count := c\<rparr>" by blast
  then show "readers_waiting q = readers_waiting p" "writers_waiting q = writers_waiting p"
    "write_end_closed q = write_end_closed p" "read_end_closed q = read_end_closed p" by simp_all
qed

section \<open>The pipe as a byte stream\<close>

text \<open>
  What \<open>pipe_read\<close> and \<open>pipe_write\<close> rely on: a bounded first-in first-out buffer. Any
  interleaving of transfers delivers the accepted bytes in order, none lost and none
  invented.
\<close>

datatype stream_op = Put "u8 list" | Get nat

fun run_stream :: "('q \<Rightarrow> u8 list \<Rightarrow> nat \<times> 'q) \<Rightarrow> ('q \<Rightarrow> nat \<Rightarrow> u8 list \<times> 'q) \<Rightarrow>
    stream_op list \<Rightarrow> 'q \<Rightarrow> u8 list \<times> u8 list \<times> 'q" where
  "run_stream put get [] q = ([], [], q)"
| "run_stream put get (Put bs # ops) q =
     (case put q bs of (n, q1) \<Rightarrow>
       case run_stream put get ops q1 of (sent, recv, q2) \<Rightarrow> (take n bs @ sent, recv, q2))"
| "run_stream put get (Get len # ops) q =
     (case get q len of (bs, q1) \<Rightarrow>
       case run_stream put get ops q1 of (sent, recv, q2) \<Rightarrow> (sent, bs @ recv, q2))"

locale byte_stream =
  fixes inv :: "'q \<Rightarrow> bool"
    and content :: "'q \<Rightarrow> u8 list"
    and size_of :: "'q \<Rightarrow> nat"
    and put :: "'q \<Rightarrow> u8 list \<Rightarrow> nat \<times> 'q"
    and get :: "'q \<Rightarrow> nat \<Rightarrow> u8 list \<times> 'q"
  assumes put_law: "inv q \<Longrightarrow> put q bs = (n, q') \<Longrightarrow>
      inv q' \<and> n = min (length bs) (size_of q - length (content q)) \<and>
      content q' = content q @ take n bs \<and> size_of q' = size_of q"
    and get_law: "inv q \<Longrightarrow> get q len = (bs, q') \<Longrightarrow>
      inv q' \<and> bs = take len (content q) \<and> content q' = drop len (content q) \<and>
      size_of q' = size_of q"
    and content_bounded: "inv q \<Longrightarrow> length (content q) \<le> size_of q"
begin

lemma put_progress:
  "inv q \<Longrightarrow> put q bs = (n, q') \<Longrightarrow> bs \<noteq> [] \<Longrightarrow> length (content q) < size_of q \<Longrightarrow> 0 < n"
  using put_law [of q bs n q'] by (cases bs) auto

lemma get_progress:
  "inv q \<Longrightarrow> get q len = (bs, q') \<Longrightarrow> 0 < len \<Longrightarrow> content q \<noteq> [] \<Longrightarrow> bs \<noteq> []"
  using get_law [of q len bs q'] by auto

lemma stream_fifo:
  "inv q \<Longrightarrow> run_stream put get ops q = (sent, recv, q') \<Longrightarrow>
   inv q' \<and> content q @ sent = recv @ content q' \<and> length (content q') \<le> size_of q"
proof (induction ops arbitrary: q sent recv q')
  case Nil
  then show ?case using content_bounded by simp
next
  case (Cons x ops)
  show ?case
  proof (cases x)
    case (Put bs)
    obtain n q1 where p: "put q bs = (n, q1)" by fastforce
    obtain s r q2 where r: "run_stream put get ops q1 = (s, r, q2)" by (metis prod_cases3)
    from put_law [OF Cons.prems(1) p] Cons.IH [OF _ r] Cons.prems(2) Put p r show ?thesis
      by (metis append.assoc case_prod_conv prod.inject run_stream.simps(2))
  next
    case (Get len)
    obtain bs q1 where p: "get q len = (bs, q1)" by fastforce
    obtain s r q2 where r: "run_stream put get ops q1 = (s, r, q2)" by (metis prod_cases3)
    from get_law [OF Cons.prems(1) p] Cons.IH [OF _ r] Cons.prems(2) Get p r show ?thesis
      by (metis append.assoc append_take_drop_id case_prod_conv prod.inject run_stream.simps(3))
  qed
qed

end

interpretation pipe_stream: byte_stream pipe_wf pipe_bytes capacity pipe_write_raw pipe_read_raw
proof unfold_locales
  show "pipe_wf q \<Longrightarrow> pipe_write_raw q bs = (n, q') \<Longrightarrow>
      pipe_wf q' \<and> n = min (length bs) (capacity q - length (pipe_bytes q)) \<and>
      pipe_bytes q' = pipe_bytes q @ take n bs \<and> capacity q' = capacity q" for q bs n q'
    using pipe_write_raw_spec(1-3,5) [of q bs n q'] by simp
  show "pipe_wf q \<Longrightarrow> pipe_read_raw q len = (bs, q') \<Longrightarrow>
      pipe_wf q' \<and> bs = take len (pipe_bytes q) \<and> pipe_bytes q' = drop len (pipe_bytes q) \<and>
      capacity q' = capacity q" for q len bs q'
    using pipe_read_raw_spec(1-3,5) [of q len bs q'] by simp
  show "pipe_wf q \<Longrightarrow> length (pipe_bytes q) \<le> capacity q" for q by (simp add: pipe_wf_def)
qed

section \<open>Blocking reads and writes\<close>

text \<open>\<open>task_wake\<close> of \<open>sched.c\<close> on every entry of a waiter list, \<open>pipe_wake_all\<close>.\<close>

definition task_wake :: "(nat \<Rightarrow> task_state) \<Rightarrow> nat \<Rightarrow> nat \<Rightarrow> task_state" where
  "task_wake st t = (if st t = TASK_BLOCKED then st(t := TASK_READY) else st)"

primrec pipe_wake_all :: "(nat \<Rightarrow> task_state) \<Rightarrow> nat list \<Rightarrow> nat \<Rightarrow> task_state" where
  "pipe_wake_all st [] = st"
| "pipe_wake_all st (t # ts) = pipe_wake_all (task_wake st t) ts"

lemma pipe_wake_all_apply:
  "pipe_wake_all st ts u = (if u \<in> set ts \<and> st u = TASK_BLOCKED then TASK_READY else st u)"
  by (induction ts arbitrary: st) (auto simp: task_wake_def)

text \<open>
  One pass of the loop of \<open>pipe_read\<close>: with interrupts off, either leave the loop or
  register and block. The result says whether the loop is left.
\<close>

definition pipe_read_check :: "nat \<Rightarrow> pipe \<Rightarrow> (nat \<Rightarrow> task_state) \<Rightarrow>
    bool \<times> pipe \<times> (nat \<Rightarrow> task_state)" where
  "pipe_read_check t p st =
    (if 0 < count p \<or> write_end_closed p then (True, p, st)
     else
       let p' = (if length (readers_waiting p) < PIPE_MAX_WAITERS
                 then p\<lparr>readers_waiting := readers_waiting p @ [t]\<rparr> else p)
       in (False, p', st(t := TASK_BLOCKED)))"

text \<open>What follows the loop: end of file, or the transfer and the wake-up of the writers.\<close>

definition pipe_read_finish :: "pipe \<Rightarrow> (nat \<Rightarrow> task_state) \<Rightarrow> nat \<Rightarrow>
    int \<times> u8 list \<times> pipe \<times> (nat \<Rightarrow> task_state)" where
  "pipe_read_finish p st len =
    (if count p = 0 then (0, [], p, st)
     else case pipe_read_raw p len of (bs, q) \<Rightarrow>
       (int (length bs), bs, q\<lparr>writers_waiting := []\<rparr>, pipe_wake_all st (writers_waiting q)))"

definition pipe_write_check :: "nat \<Rightarrow> pipe \<Rightarrow> (nat \<Rightarrow> task_state) \<Rightarrow>
    bool \<times> pipe \<times> (nat \<Rightarrow> task_state)" where
  "pipe_write_check t p st =
    (if count p < capacity p \<or> read_end_closed p then (True, p, st)
     else
       let p' = (if length (writers_waiting p) < PIPE_MAX_WAITERS
                 then p\<lparr>writers_waiting := writers_waiting p @ [t]\<rparr> else p)
       in (False, p', st(t := TASK_BLOCKED)))"

definition pipe_write_finish :: "pipe \<Rightarrow> (nat \<Rightarrow> task_state) \<Rightarrow> u8 list \<Rightarrow>
    int \<times> pipe \<times> (nat \<Rightarrow> task_state)" where
  "pipe_write_finish p st bs =
    (if count p = capacity p then (-1, p, st)
     else case pipe_write_raw p bs of (n, q) \<Rightarrow>
       (int n, q\<lparr>readers_waiting := []\<rparr>, pipe_wake_all st (readers_waiting q)))"

text \<open>The last reference to an end is dropped: \<open>pipe_end_release\<close> up to the frees.\<close>

definition pipe_signal_close :: "bool \<Rightarrow> pipe \<Rightarrow> (nat \<Rightarrow> task_state) \<Rightarrow>
    pipe \<times> (nat \<Rightarrow> task_state)" where
  "pipe_signal_close is_write_end p st =
    (if is_write_end
     then (p\<lparr>write_end_closed := True, readers_waiting := []\<rparr>, pipe_wake_all st (readers_waiting p))
     else (p\<lparr>read_end_closed := True, writers_waiting := []\<rparr>, pipe_wake_all st (writers_waiting p)))"

end
