(* ===== verification/Pipe_System.thy ===== *)
theory Pipe_System
  imports Pipe
begin

text \<open>
  Tasks that use one pipe concurrently (\<open>pipe_read\<close>, \<open>pipe_write\<close> and the closing of an end of
  \<open>kernel/kernel/handle/pipe.c\<close>), as a step relation over the sections that the code runs
  with interrupts off; then the reference counts of the two ends and \<open>pipe_create_pair\<close>.
\<close>

section \<open>Interleaved readers and writers\<close>

text \<open>
  Where a task stands in a call: before the check of the loop, past the loop, blocked in the
  loop (it resumes before the check), or returned with a value. System calls run with
  interrupts on (\<open>sti\<close> in \<open>syscall_entry.S\<close>), so a task can lose the processor between any
  two of these.
\<close>

datatype pipe_pc = Idle | Reading nat | ReadReady nat | ReadWaiting nat
  | Writing "u8 list" | WriteReady "u8 list" | WriteWaiting "u8 list" | Done int

record pipe_sys =
  pip :: pipe
  pcs :: "nat \<Rightarrow> pipe_pc"
  states :: "nat \<Rightarrow> task_state"

definition pipe_advance :: "nat \<Rightarrow> pipe_sys \<Rightarrow> pipe_sys" where
  "pipe_advance t s =
    (case pcs s t of
       Idle \<Rightarrow> s
     | Done r \<Rightarrow> s
     | ReadWaiting len \<Rightarrow> s\<lparr>pcs := (pcs s)(t := Reading len)\<rparr>
     | Reading len \<Rightarrow>
         (case pipe_read_check t (pip s) (states s) of (go, p, st) \<Rightarrow>
            s\<lparr>pip := p, states := st,
              pcs := (pcs s)(t := (if go then ReadReady len else ReadWaiting len))\<rparr>)
     | ReadReady len \<Rightarrow>
         (case pipe_read_finish (pip s) (states s) len of (r, bs, p, st) \<Rightarrow>
            s\<lparr>pip := p, states := st, pcs := (pcs s)(t := Done r)\<rparr>)
     | WriteWaiting bs \<Rightarrow> s\<lparr>pcs := (pcs s)(t := Writing bs)\<rparr>
     | Writing bs \<Rightarrow>
         (case pipe_write_check t (pip s) (states s) of (go, p, st) \<Rightarrow>
            s\<lparr>pip := p, states := st,
              pcs := (pcs s)(t := (if go then WriteReady bs else WriteWaiting bs))\<rparr>)
     | WriteReady bs \<Rightarrow>
         (case pipe_write_finish (pip s) (states s) bs of (r, p, st) \<Rightarrow>
            s\<lparr>pip := p, states := st, pcs := (pcs s)(t := Done r)\<rparr>))"

definition pipe_call_read :: "nat \<Rightarrow> nat \<Rightarrow> pipe_sys \<Rightarrow> pipe_sys" where
  "pipe_call_read t len s = s\<lparr>pcs := (pcs s)(t := Reading len)\<rparr>"

definition pipe_call_write :: "nat \<Rightarrow> u8 list \<Rightarrow> pipe_sys \<Rightarrow> pipe_sys" where
  "pipe_call_write t bs s =
     s\<lparr>pcs := (pcs s)(t := (if read_end_closed (pip s) then Done (-1) else Writing bs))\<rparr>"

definition pipe_close_end :: "bool \<Rightarrow> pipe_sys \<Rightarrow> pipe_sys" where
  "pipe_close_end w s =
     (case pipe_signal_close w (pip s) (states s) of (p, st) \<Rightarrow> s\<lparr>pip := p, states := st\<rparr>)"

inductive pipe_step :: "nat set \<Rightarrow> pipe_sys \<Rightarrow> pipe_sys \<Rightarrow> bool" for T where
  advance: "t \<in> T \<Longrightarrow> states s t \<noteq> TASK_BLOCKED \<Longrightarrow> pipe_step T s (pipe_advance t s)"
| call_read: "t \<in> T \<Longrightarrow> states s t \<noteq> TASK_BLOCKED \<Longrightarrow> pcs s t = Idle \<or> pcs s t = Done r \<Longrightarrow>
     pipe_step T s (pipe_call_read t len s)"
| call_write: "t \<in> T \<Longrightarrow> states s t \<noteq> TASK_BLOCKED \<Longrightarrow> pcs s t = Idle \<or> pcs s t = Done r \<Longrightarrow>
     pipe_step T s (pipe_call_write t bs s)"
| close_end: "pipe_step T s (pipe_close_end w s)"

definition pipe_sys_init :: pipe_sys where
  "pipe_sys_init = \<lparr>pip = pipe_init, pcs = (\<lambda>_. Idle), states = (\<lambda>_. TASK_READY)\<rparr>"

inductive pipe_reach :: "nat set \<Rightarrow> pipe_sys \<Rightarrow> bool" for T where
  start: "pipe_reach T pipe_sys_init"
| step: "pipe_reach T s \<Longrightarrow> pipe_step T s s' \<Longrightarrow> pipe_reach T s'"

text \<open>
  The invariant: whoever is blocked is registered, whoever is registered is blocked in the
  matching call, and waiters exist only while their wait is justified.
\<close>

definition pipe_inv :: "nat set \<Rightarrow> pipe_sys \<Rightarrow> bool" where
  "pipe_inv T s \<longleftrightarrow>
     (let p = pip s; rw = readers_waiting p; ww = writers_waiting p in
      pipe_wf p \<and> distinct rw \<and> distinct ww \<and> set rw \<subseteq> T \<and> set ww \<subseteq> T \<and>
      (\<forall>t \<in> set rw. \<exists>n. pcs s t = ReadWaiting n) \<and>
      (\<forall>t \<in> set ww. \<exists>bs. pcs s t = WriteWaiting bs) \<and>
      (\<forall>t. states s t = TASK_BLOCKED \<longleftrightarrow> t \<in> set rw \<or> t \<in> set ww) \<and>
      (rw \<noteq> [] \<longrightarrow> count p = 0 \<and> \<not> write_end_closed p) \<and>
      (ww \<noteq> [] \<longrightarrow> count p = capacity p \<and> \<not> read_end_closed p))"

lemma pipe_inv_init: "pipe_inv T pipe_sys_init"
  using pipe_init_wf by (simp add: pipe_inv_def pipe_sys_init_def Let_def) (simp add: pipe_init_def)

lemma waiters_room:
  assumes "distinct ws" "set ws \<subseteq> T" "t \<in> T" "t \<notin> set ws" "finite T" "card T \<le> PIPE_MAX_WAITERS"
  shows "length ws < PIPE_MAX_WAITERS"
proof -
  have "set ws \<subset> T" using assms(2-4) by auto
  then have "card (set ws) < card T" using assms(5) by (rule psubset_card_mono [rotated])
  with assms(1,6) show ?thesis by (simp add: distinct_card)
qed

lemma pipe_read_finish_effect:
  assumes "pipe_wf p" "pipe_read_finish p st len = (r, bs, q, st')"
  shows "count p = 0 \<and> q = p \<and> st' = st \<and> r = 0 \<and> bs = [] \<or>
    0 < count p \<and> pipe_wf q \<and> bs = take len (pipe_bytes p) \<and> pipe_bytes q = drop len (pipe_bytes p) \<and>
    r = int (length bs) \<and> writers_waiting q = [] \<and> readers_waiting q = readers_waiting p \<and>
    capacity q = capacity p \<and> write_end_closed q = write_end_closed p \<and>
    read_end_closed q = read_end_closed p \<and> st' = pipe_wake_all st (writers_waiting p)"
proof (cases "count p = 0")
  case False
  obtain cs q' where r: "pipe_read_raw p len = (cs, q')" by fastforce
  have "r = int (length cs)" "bs = cs" "q = q'\<lparr>writers_waiting := []\<rparr>"
    "st' = pipe_wake_all st (writers_waiting q')"
    using False assms(2) r by (auto simp: pipe_read_finish_def)
  then show ?thesis using False pipe_read_raw_spec(1-3,5) [OF assms(1) r]
      pipe_read_raw_frame [OF assms(1) r] by simp
qed (use assms(2) pipe_read_finish_def in simp)

lemma pipe_write_finish_effect:
  assumes "pipe_wf p" "pipe_write_finish p st bs = (r, q, st')"
  shows "count p = capacity p \<and> q = p \<and> st' = st \<and> r = -1 \<or>
    count p < capacity p \<and> pipe_wf q \<and> pipe_bytes q = pipe_bytes p @ take (nat r) bs \<and>
    r = int (min (length bs) (capacity p - count p)) \<and> readers_waiting q = [] \<and>
    writers_waiting q = writers_waiting p \<and>
    capacity q = capacity p \<and> write_end_closed q = write_end_closed p \<and>
    read_end_closed q = read_end_closed p \<and> st' = pipe_wake_all st (readers_waiting p)"
proof (cases "count p = capacity p")
  case False
  obtain n q' where r: "pipe_write_raw p bs = (n, q')" by fastforce
  have eq: "r = int n" "q = q'\<lparr>readers_waiting := []\<rparr>"
    "st' = pipe_wake_all st (readers_waiting q')"
    using False assms(2) r by (auto simp: pipe_write_finish_def)
  have "count p < capacity p" using False assms(1) by (simp add: pipe_wf_def)
  with eq show ?thesis using pipe_write_raw_spec(1-3,5) [OF assms(1) r]
      pipe_write_raw_frame [OF assms(1) r] by simp
qed (use assms(2) pipe_write_finish_def in simp)


lemma pipe_inv_pcs:
  assumes "pipe_inv T s" "states s t \<noteq> TASK_BLOCKED"
  shows "pipe_inv T (s\<lparr>pcs := (pcs s)(t := x)\<rparr>)"
  using assms by (simp add: pipe_inv_def Let_def)

lemma pipe_inv_read_check:
  assumes "pipe_inv T s" "states s t \<noteq> TASK_BLOCKED" "t \<in> T" "finite T" "card T \<le> PIPE_MAX_WAITERS"
    "pipe_read_check t (pip s) (states s) = (go, p, st)"
  shows "pipe_inv T (s\<lparr>pip := p, states := st,
     pcs := (pcs s)(t := (if go then ReadReady len else ReadWaiting len))\<rparr>)"
proof (cases go)
  case True
  with assms(6) have "p = pip s" "st = states s"
    by (auto simp: pipe_read_check_def Let_def split: if_splits)
  with pipe_inv_pcs [OF assms(1,2)] True show ?thesis by simp
next
  case False
  let ?rw = "readers_waiting (pip s)"
  have t: "t \<notin> set ?rw" "t \<notin> set (writers_waiting (pip s))"
    using assms(1,2) by (auto simp: pipe_inv_def Let_def)
  have ws: "distinct ?rw" "set ?rw \<subseteq> T"
    using assms(1) by (simp_all add: pipe_inv_def Let_def)
  have "length ?rw < PIPE_MAX_WAITERS"
    by (rule waiters_room [OF ws assms(3) t(1) assms(4,5)])
  with False assms(6) have "p = (pip s)\<lparr>readers_waiting := ?rw @ [t]\<rparr>"
    "st = (states s)(t := TASK_BLOCKED)" "count (pip s) = 0" "\<not> write_end_closed (pip s)"
    by (auto simp: pipe_read_check_def Let_def split: if_splits)
  with False assms(1,3) t show ?thesis by (auto simp: pipe_inv_def Let_def)
qed

lemma pipe_inv_write_check:
  assumes "pipe_inv T s" "states s t \<noteq> TASK_BLOCKED" "t \<in> T" "finite T" "card T \<le> PIPE_MAX_WAITERS"
    "pipe_write_check t (pip s) (states s) = (go, p, st)"
  shows "pipe_inv T (s\<lparr>pip := p, states := st,
     pcs := (pcs s)(t := (if go then WriteReady bs else WriteWaiting bs))\<rparr>)"
proof (cases go)
  case True
  with assms(6) have "p = pip s" "st = states s"
    by (auto simp: pipe_write_check_def Let_def split: if_splits)
  with pipe_inv_pcs [OF assms(1,2)] True show ?thesis by simp
next
  case False
  let ?ww = "writers_waiting (pip s)"
  have t: "t \<notin> set ?ww" "t \<notin> set (readers_waiting (pip s))" and wf: "pipe_wf (pip s)"
    using assms(1,2) by (auto simp: pipe_inv_def Let_def)
  have ws: "distinct ?ww" "set ?ww \<subseteq> T"
    using assms(1) by (simp_all add: pipe_inv_def Let_def)
  have "length ?ww < PIPE_MAX_WAITERS"
    by (rule waiters_room [OF ws assms(3) t(1) assms(4,5)])
  with False assms(6) wf have "p = (pip s)\<lparr>writers_waiting := ?ww @ [t]\<rparr>"
    "st = (states s)(t := TASK_BLOCKED)" "count (pip s) = capacity (pip s)" "\<not> read_end_closed (pip s)"
    by (auto simp: pipe_write_check_def pipe_wf_def Let_def split: if_splits)
  with False assms(1,3) t show ?thesis by (auto simp: pipe_inv_def Let_def)
qed

lemma pipe_inv_read_finish:
  assumes "pipe_inv T s" "states s t \<noteq> TASK_BLOCKED"
    "pipe_read_finish (pip s) (states s) len = (r, bs, p, st)"
  shows "pipe_inv T (s\<lparr>pip := p, states := st, pcs := (pcs s)(t := x)\<rparr>)"
proof -
  have wf: "pipe_wf (pip s)" using assms(1) by (simp add: pipe_inv_def Let_def)
  from pipe_read_finish_effect [OF wf assms(3)] assms(1,2) show ?thesis
    by (elim disjE conjE) (auto simp: pipe_inv_def Let_def pipe_wake_all_apply)
qed

lemma pipe_inv_write_finish:
  assumes "pipe_inv T s" "states s t \<noteq> TASK_BLOCKED"
    "pipe_write_finish (pip s) (states s) bs = (r, p, st)"
  shows "pipe_inv T (s\<lparr>pip := p, states := st, pcs := (pcs s)(t := x)\<rparr>)"
proof -
  have wf: "pipe_wf (pip s)" using assms(1) by (simp add: pipe_inv_def Let_def)
  from pipe_write_finish_effect [OF wf assms(3)] assms(1,2) show ?thesis
    by (elim disjE conjE) (auto simp: pipe_inv_def Let_def pipe_wake_all_apply)
qed

lemma pipe_inv_close:
  assumes "pipe_inv T s"
  shows "pipe_inv T (pipe_close_end w s)"
proof -
  have "0 < capacity (pip s)" using assms by (simp add: pipe_inv_def pipe_wf_def Let_def)
  with assms show ?thesis
    by (auto simp: pipe_inv_def Let_def pipe_close_end_def pipe_signal_close_def pipe_wake_all_apply)
qed

lemma pipe_inv_advance:
  assumes "pipe_inv T s" "states s t \<noteq> TASK_BLOCKED" "t \<in> T" "finite T" "card T \<le> PIPE_MAX_WAITERS"
  shows "pipe_inv T (pipe_advance t s)"
  using assms pipe_inv_read_check [OF assms] pipe_inv_write_check [OF assms]
    pipe_inv_read_finish [OF assms(1,2)] pipe_inv_write_finish [OF assms(1,2)]
    pipe_inv_pcs [OF assms(1,2)]
  by (simp add: pipe_advance_def split: pipe_pc.splits prod.splits)

lemma pipe_step_inv:
  assumes "pipe_step T s s'" "pipe_inv T s" "finite T" "card T \<le> PIPE_MAX_WAITERS"
  shows "pipe_inv T s'"
  using assms
proof (induction rule: pipe_step.induct)
  case (advance t s)
  then show ?case by (simp add: pipe_inv_advance)
qed (simp_all add: pipe_call_read_def pipe_call_write_def pipe_inv_pcs pipe_inv_close)

lemma pipe_reach_inv:
  "pipe_reach T s \<Longrightarrow> finite T \<Longrightarrow> card T \<le> PIPE_MAX_WAITERS \<Longrightarrow> pipe_inv T s"
  by (induction rule: pipe_reach.induct) (auto intro: pipe_inv_init pipe_step_inv)


section \<open>Reference counts of the ends\<close>

text \<open>
  The two ends and the pipe as heap objects (\<open>None\<close> once freed). An operation on a freed
  object is undefined behaviour and is \<open>None\<close>; \<open>pipe_end_ref\<close> and \<open>pipe_end_unref\<close>
  follow the code, \<open>pipe_end_release\<close> included.
\<close>

record pipe_objs =
  o_pipe :: "pipe option"
  o_read_end :: "int option"
  o_write_end :: "int option"
  o_states :: "nat \<Rightarrow> task_state"

definition end_ref :: "bool \<Rightarrow> pipe_objs \<Rightarrow> int option" where
  "end_ref w ob = (if w then o_write_end ob else o_read_end ob)"

definition set_end_ref :: "bool \<Rightarrow> int option \<Rightarrow> pipe_objs \<Rightarrow> pipe_objs" where
  "set_end_ref w r ob = (if w then ob\<lparr>o_write_end := r\<rparr> else ob\<lparr>o_read_end := r\<rparr>)"

definition pipe_end_ref :: "bool \<Rightarrow> pipe_objs \<Rightarrow> pipe_objs option" where
  "pipe_end_ref w ob = do {
     n \<leftarrow> end_ref w ob;
     Some (set_end_ref w (Some (n + 1)) ob) }"

definition pipe_end_release :: "bool \<Rightarrow> pipe_objs \<Rightarrow> pipe_objs option" where
  "pipe_end_release w ob = do {
     p \<leftarrow> o_pipe ob;
     let (p1, st) = pipe_signal_close w p (o_states ob);
     let p2 = p1\<lparr>p_refcount := p_refcount p1 - 1\<rparr>;
     let ob1 = ob\<lparr>o_pipe := (if p_refcount p2 = 0 then None else Some p2), o_states := st\<rparr>;
     Some (set_end_ref w None ob1) }"

definition pipe_end_unref :: "bool \<Rightarrow> pipe_objs \<Rightarrow> pipe_objs option" where
  "pipe_end_unref w ob = do {
     n \<leftarrow> end_ref w ob;
     let ob1 = set_end_ref w (Some (n - 1)) ob;
     if n - 1 > 0 then Some ob1 else pipe_end_release w ob1 }"

text \<open>
  The pipe counts the ends that exist and stands as long as one does; an end is closed for
  its peer exactly when it no longer exists.
\<close>

definition pipe_objs_wf :: "pipe_objs \<Rightarrow> bool" where
  "pipe_objs_wf ob \<longleftrightarrow>
     (\<forall>n. o_read_end ob = Some n \<longrightarrow> 0 < n) \<and> (\<forall>n. o_write_end ob = Some n \<longrightarrow> 0 < n) \<and>
     (case o_pipe ob of
        None \<Rightarrow> o_read_end ob = None \<and> o_write_end ob = None
      | Some p \<Rightarrow>
          p_refcount p = (if o_read_end ob = None then 0 else 1) + (if o_write_end ob = None then 0 else 1) \<and>
          0 < p_refcount p \<and>
          (write_end_closed p \<longleftrightarrow> o_write_end ob = None) \<and>
          (read_end_closed p \<longleftrightarrow> o_read_end ob = None))"

lemma pipe_end_ref_wf:
  assumes "pipe_objs_wf ob" "pipe_end_ref w ob = Some ob'"
  shows "pipe_objs_wf ob'"
proof -
  from assms(2) obtain n where "end_ref w ob = Some n" "ob' = set_end_ref w (Some (n + 1)) ob"
    by (auto simp: pipe_end_ref_def split: Option.bind_splits)
  with assms(1) show ?thesis
    by (cases w; cases "o_pipe ob") (auto simp: pipe_objs_wf_def end_ref_def set_end_ref_def)
qed

lemma pipe_end_unref_safe:
  assumes "pipe_objs_wf ob" "end_ref w ob = Some n"
  shows "\<exists>ob'. pipe_end_unref w ob = Some ob' \<and> pipe_objs_wf ob' \<and>
    end_ref (\<not> w) ob' = end_ref (\<not> w) ob \<and>
    (if 1 < n then end_ref w ob' = Some (n - 1) \<and> o_pipe ob' = o_pipe ob
     else end_ref w ob' = None \<and>
       (o_pipe ob' = None \<longleftrightarrow> end_ref (\<not> w) ob = None))"
proof -
  from assms obtain p where p: "o_pipe ob = Some p"
    by (auto simp: pipe_objs_wf_def end_ref_def split: option.splits if_splits)
  show ?thesis
  proof (cases "1 < n")
    case True
    with assms p show ?thesis
      by (cases w) (auto simp: pipe_end_unref_def pipe_objs_wf_def end_ref_def set_end_ref_def)
  next
    case False
    with assms p show ?thesis
      by (cases w) (auto simp: pipe_end_unref_def pipe_end_release_def pipe_signal_close_def
        pipe_objs_wf_def end_ref_def set_end_ref_def)
  qed
qed

section \<open>Creating a pair of descriptors\<close>

text \<open>
  \<open>pipe_create_pair\<close>. The three calls of \<open>kmalloc\<close> succeed or not by \<open>p_ok\<close>, \<open>r_ok\<close> and
  \<open>w_ok\<close>; \<open>k1\<close> and \<open>k2\<close> are the allocation outcomes inside the two \<open>handle_alloc\<close>
  calls. \<open>live\<close> lists which of the three objects are allocated when the call returns.
\<close>

datatype pipe_obj = PipeObj | ReadEndObj | WriteEndObj

definition pipe_create_pair ::
  "bool \<Rightarrow> bool \<Rightarrow> bool \<Rightarrow> bool \<times> bool \<Rightarrow> bool \<times> bool \<Rightarrow> nat \<Rightarrow> nat \<Rightarrow> nat \<Rightarrow> fdtable \<Rightarrow>
     int \<times> pipe_obj set \<times> fdtable \<times> (int \<times> int) option" where
  "pipe_create_pair p_ok r_ok w_ok k1 k2 read_end write_end ops t =
    (if \<not> p_ok then (PLAINERR, {}, t, None)
     else
       let live = {PipeObj} \<union> (if r_ok then {ReadEndObj} else {}) \<union> (if w_ok then {WriteEndObj} else {})
       in if \<not> r_ok \<or> \<not> w_ok then (PLAINERR, live - {ReadEndObj} - {WriteEndObj} - {PipeObj}, t, None)
       else case handle_alloc (fst k1) (snd k1) t INODE_PIPE of (r_des, t1) \<Rightarrow>
         if r_des < 0 then (NOFDS, live - {ReadEndObj} - {WriteEndObj} - {PipeObj}, t1, None)
         else case handle_alloc (fst k2) (snd k2) t1 INODE_PIPE of (w_des, t2) \<Rightarrow>
           if w_des < 0
           then (NOFDS, live - {ReadEndObj} - {WriteEndObj} - {PipeObj}, handle_free t2 r_des, None)
           else if task_return_hslot (nat r_des) t2 = None \<or> task_return_hslot (nat w_des) t2 = None
           then (PLAINERR, live - {ReadEndObj} - {WriteEndObj} - {PipeObj},
                 handle_free (handle_free t2 r_des) w_des, None)
           else
             let t3 = set_hslot t2 (nat r_des)
                   \<lparr>h_type = INODE_PIPE, h_impl = read_end, h_ops = ops, h_inode = 0\<rparr>;
                 t4 = set_hslot t3 (nat w_des)
                   \<lparr>h_type = INODE_PIPE, h_impl = write_end, h_ops = ops, h_inode = 0\<rparr>
             in (0, live, t4, Some (r_des, w_des)))"

lemma pipe_create_pair_effect:
  assumes "fd_wf t" "pipe_create_pair p_ok r_ok w_ok k1 k2 re we ops t = (rc, live, t', fds)"
  shows "fd_wf t' \<and>
    (case fds of
       None \<Rightarrow> rc < 0 \<and> live = {} \<and> open_fds t' = open_fds t
     | Some (r, w) \<Rightarrow> rc = 0 \<and> live = {PipeObj, ReadEndObj, WriteEndObj} \<and> r \<noteq> w \<and> 0 \<le> r \<and> 0 \<le> w \<and>
         nat r \<notin> open_fds t \<and> nat w \<notin> open_fds t \<and> open_fds t' = {nat r, nat w} \<union> open_fds t \<and>
         map_option h_impl (task_return_hslot (nat r) t') = Some re \<and>
         map_option h_impl (task_return_hslot (nat w) t') = Some we)"
proof -
  obtain r t1 where a1: "fd_alloc (fst k1, snd k1, INODE_PIPE) t = (r, t1)" by fastforce
  obtain w t2 where a2: "fd_alloc (fst k2, snd k2, INODE_PIPE) t1 = (w, t2)" by fastforce
  have h: "handle_alloc (fst k1) (snd k1) t INODE_PIPE = (r, t1)"
    "handle_alloc (fst k2) (snd k2) t1 INODE_PIPE = (w, t2)"
    using a1 a2 by (simp_all add: fd_alloc_def)
  note wf1 = fdp.alloc_inv [OF assms(1) a1]
  consider (nomem) "\<not> (p_ok \<and> r_ok \<and> w_ok)" | (nor) "p_ok" "r_ok" "w_ok" "r < 0"
    | (now) "p_ok" "r_ok" "w_ok" "0 \<le> r" "w < 0" | (ok) "p_ok" "r_ok" "w_ok" "0 \<le> r" "0 \<le> w"
    by linarith
  then show ?thesis
  proof cases
    case nomem
    then show ?thesis using assms
      by (auto simp: pipe_create_pair_def errorcode_def split: if_splits)
  next
    case nor
    then show ?thesis using assms h fdp.alloc_fail [OF assms(1) a1]
      by (auto simp: pipe_create_pair_def errorcode_def)
  next
    case now
    have "t2 = t1" using fdp.alloc_fail [OF wf1 a2] now by simp
    then show ?thesis using assms(2) h now fdp.alloc_release [OF assms(1) a1 now(4)]
      by (auto simp: pipe_create_pair_def errorcode_def)
  next
    case ok
    note pr = fdp.alloc_pair [OF assms(1) a1 ok(4) a2 ok(5)]
    have ne: "nat r \<noteq> nat w" using pr ok by auto
    from assms(2) ok h pr have eq: "rc = 0" "live = {PipeObj, ReadEndObj, WriteEndObj}" "fds = Some (r, w)"
      "t' = set_hslot (set_hslot t2 (nat r) \<lparr>h_type = INODE_PIPE, h_impl = re, h_ops = ops, h_inode = 0\<rparr>)
          (nat w) \<lparr>h_type = INODE_PIPE, h_impl = we, h_ops = ops, h_inode = 0\<rparr>"
      by (auto simp: pipe_create_pair_def Let_def)
    then show ?thesis using pr ne ok by (simp add: set_hslot_effect)
  qed
qed


section \<open>Executable runs\<close>

datatype pipe_act = Advance nat | CallRead nat nat | CallWrite nat "u8 list" | CloseEnd bool

definition pipe_ready :: "nat \<Rightarrow> pipe_sys \<Rightarrow> bool" where
  "pipe_ready t s \<longleftrightarrow> states s t \<noteq> TASK_BLOCKED \<and>
     (case pcs s t of Idle \<Rightarrow> True | Done r \<Rightarrow> True | _ \<Rightarrow> False)"

fun pipe_do :: "pipe_act \<Rightarrow> pipe_sys \<Rightarrow> pipe_sys option" where
  "pipe_do (Advance t) s = (if states s t = TASK_BLOCKED then None else Some (pipe_advance t s))"
| "pipe_do (CallRead t len) s = (if pipe_ready t s then Some (pipe_call_read t len s) else None)"
| "pipe_do (CallWrite t bs) s = (if pipe_ready t s then Some (pipe_call_write t bs s) else None)"
| "pipe_do (CloseEnd w) s = Some (pipe_close_end w s)"

fun pipe_run :: "pipe_act list \<Rightarrow> pipe_sys \<Rightarrow> pipe_sys option" where
  "pipe_run [] s = Some s"
| "pipe_run (a # as) s = (case pipe_do a s of None \<Rightarrow> None | Some s' \<Rightarrow> pipe_run as s')"

primrec act_in :: "nat set \<Rightarrow> pipe_act \<Rightarrow> bool" where
  "act_in T (Advance t) = (t \<in> T)"
| "act_in T (CallRead t len) = (t \<in> T)"
| "act_in T (CallWrite t bs) = (t \<in> T)"
| "act_in T (CloseEnd w) = True"

lemma pipe_do_step: "pipe_do a s = Some s' \<Longrightarrow> act_in T a \<Longrightarrow> pipe_step T s s'"
  by (cases a) (auto simp: pipe_ready_def split: if_splits pipe_pc.splits intro: pipe_step.intros)

lemma pipe_run_reach:
  "pipe_run as s = Some s' \<Longrightarrow> list_all (act_in T) as \<Longrightarrow> pipe_reach T s \<Longrightarrow> pipe_reach T s'"
proof (induction as arbitrary: s)
  case (Cons a as)
  then show ?case
    by (auto split: option.splits) (meson pipe_do_step pipe_reach.step)
qed simp

lemmas pipe_eval = pipe_ready_def pipe_advance_def pipe_call_read_def pipe_call_write_def
  pipe_close_end_def pipe_signal_close_def pipe_read_check_def pipe_read_finish_def
  pipe_write_check_def pipe_write_finish_def pipe_read_raw_def pipe_write_raw_def
  PIPE_MAX_WAITERS_def PIPE_BUFFER_SIZE_def pipe_sys_init_def pipe_init_def task_wake_def

text \<open>Nine readers find the pipe empty; then one byte is written.\<close>

definition nine_readers :: "pipe_act list" where
  "nine_readers = concat (map (\<lambda>t. [CallRead t 1, Advance t]) [0..<9]) @
     [CallWrite 9 [7], Advance 9, Advance 9]"

text \<open>
  A writer writes one byte; two readers pass the check of the loop before either of them
  takes the byte.
\<close>

definition read_race :: "pipe_act list" where
  "read_race = [CallWrite 0 [7], Advance 0, Advance 0,
     CallRead 1 1, Advance 1, CallRead 2 1, Advance 2, Advance 1, Advance 2]"

section \<open>Properties\<close>

text \<open>C1: Pipe bytes come out in the order they went in. For every interleaving of the transfers
  of \<open>pipe_write_raw\<close> and \<open>pipe_read_raw\<close> on a well-formed ring, the bytes that were in the pipe
  followed by the accepted bytes are the delivered bytes followed by what is still in the pipe;
  the ring stays well-formed and never holds more than its capacity.\<close>

theorem pipe_fifo:
  assumes "pipe_wf q" "run_stream pipe_write_raw pipe_read_raw ops q = (sent, recv, q')"
  shows "pipe_wf q' \<and> pipe_bytes q @ sent = recv @ pipe_bytes q' \<and> count q' \<le> capacity q"
  using pipe_stream.stream_fifo [OF assms] by simp

theorem pipe_fifo_witness:
  "\<exists>q q'. pipe_wf q \<and> pipe_bytes q = [5] \<and>
     run_stream pipe_write_raw pipe_read_raw [Put [1, 2], Get 1, Put [3], Get 1] q
       = ([1, 3], [5, 1], q') \<and> [5] @ [1, 3] = [5, 1] @ pipe_bytes q'"
proof -
  let ?q = "pipe_init\<lparr>buffer := [0, 5], capacity := 2, head := 1, tail := 0, count := 1\<rparr>"
  have wf: "pipe_wf ?q" "pipe_bytes ?q = [5]"
    by (simp_all add: pipe_wf_def pipe_bytes_def)
  have "\<exists>q'. run_stream pipe_write_raw pipe_read_raw [Put [1, 2], Get 1, Put [3], Get 1] ?q
       = ([1, 3], [5, 1], q')"
    by (simp add: pipe_write_raw_def pipe_read_raw_def)
  then show ?thesis using pipe_fifo [OF wf(1)] wf by metis
qed



text \<open>A ninth reader is lost. Ten tasks can reach a state in which a reader is blocked although
  a byte is in the pipe, and it is on no waiter list, so no later read, write or close wakes it:
  \<open>pipe_read\<close> blocks a task even when the list of waiting readers is full.\<close>

theorem pipe_ninth_reader_lost:
  "\<exists>s. pipe_reach {..<10} s \<and> states s 8 = TASK_BLOCKED \<and> pcs s 8 = ReadWaiting 1 \<and>
     0 < count (pip s) \<and> 8 \<notin> set (readers_waiting (pip s)) \<and> 8 \<notin> set (writers_waiting (pip s))"
proof -
  have "\<exists>s. pipe_run nine_readers pipe_sys_init = Some s \<and> states s 8 = TASK_BLOCKED \<and>
     pcs s 8 = ReadWaiting 1 \<and> 0 < count (pip s) \<and> 8 \<notin> set (readers_waiting (pip s)) \<and>
     8 \<notin> set (writers_waiting (pip s))"
    by (simp add: nine_readers_def upt_rec pipe_eval)
  moreover have "list_all (act_in {..<10}) nine_readers"
    by (simp add: nine_readers_def upt_rec)
  ultimately show ?thesis using pipe_run_reach pipe_reach.start by blast
qed

text \<open>A reader can be told end of file while the write end is open. Between the check of the
  loop and the transfer interrupts are on, so a second reader can drain the pipe; the first then
  returns 0, which stands for "nothing more will ever arrive".\<close>

theorem pipe_spurious_eof:
  "\<exists>s. pipe_reach {0, 1, 2} s \<and> pcs s 1 = Done 1 \<and> pcs s 2 = Done 0 \<and> \<not> write_end_closed (pip s)"
proof -
  have "\<exists>s. pipe_run read_race pipe_sys_init = Some s \<and> pcs s 1 = Done 1 \<and> pcs s 2 = Done 0 \<and>
     \<not> write_end_closed (pip s)"
    by (simp add: read_race_def pipe_eval)
  moreover have "list_all (act_in {0, 1, 2}) read_race"
    by (simp add: read_race_def)
  ultimately show ?thesis using pipe_run_reach pipe_reach.start by blast
qed

text \<open>C3: Dropping a reference to a pipe end is memory safe and exact. From a well-formed pair of
  ends, \<open>pipe_end_unref\<close> on an existing end touches no freed object; with more than one holder
  it only counts down, and the last holder closes the end, leaves the peer end as it was, and frees
  the pipe exactly when the peer end is gone too.\<close>

theorem pipe_unref_correct:
  assumes "pipe_objs_wf ob" "end_ref w ob = Some n"
  shows "\<exists>ob'. pipe_end_unref w ob = Some ob' \<and> pipe_objs_wf ob' \<and>
    end_ref (\<not> w) ob' = end_ref (\<not> w) ob \<and>
    (if 1 < n then end_ref w ob' = Some (n - 1) \<and> o_pipe ob' = o_pipe ob
     else end_ref w ob' = None \<and> (o_pipe ob' = None \<longleftrightarrow> end_ref (\<not> w) ob = None))"
  by (rule pipe_end_unref_safe [OF assms])

theorem pipe_unref_correct_witness:
  "\<exists>ob'. pipe_end_unref True \<lparr>o_pipe = Some pipe_init, o_read_end = Some 1, o_write_end = Some 1,
      o_states = (\<lambda>_. TASK_READY)\<rparr> = Some ob' \<and> o_pipe ob' \<noteq> None \<and> o_write_end ob' = None"
proof -
  let ?o = "\<lparr>o_pipe = Some pipe_init, o_read_end = Some 1, o_write_end = Some 1,
      o_states = (\<lambda>_. TASK_READY)\<rparr>"
  have "pipe_objs_wf ?o" "end_ref True ?o = Some 1"
    by (simp_all add: pipe_objs_wf_def pipe_init_def end_ref_def)
  from pipe_unref_correct [OF this] show ?thesis
    by (fastforce simp: end_ref_def)
qed

text \<open>C4: \<open>pipe_create_pair\<close> is all or nothing. Whatever allocations fail, on error no object stays
  allocated and the open descriptors are those from before; on success exactly two new, distinct
  descriptors are open and refer to the read end and the write end.\<close>

theorem pipe_create_pair_atomic:
  assumes "fd_wf t" "pipe_create_pair p_ok r_ok w_ok k1 k2 re we ops t = (rc, live, t', fds)"
  shows "fd_wf t' \<and>
    (case fds of
       None \<Rightarrow> rc < 0 \<and> live = {} \<and> open_fds t' = open_fds t
     | Some (r, w) \<Rightarrow> rc = 0 \<and> live = {PipeObj, ReadEndObj, WriteEndObj} \<and> r \<noteq> w \<and> 0 \<le> r \<and> 0 \<le> w \<and>
         nat r \<notin> open_fds t \<and> nat w \<notin> open_fds t \<and> open_fds t' = {nat r, nat w} \<union> open_fds t \<and>
         map_option h_impl (task_return_hslot (nat r) t') = Some re \<and>
         map_option h_impl (task_return_hslot (nat w) t') = Some we)"
  by (rule pipe_create_pair_effect [OF assms])

theorem pipe_create_pair_atomic_witness:
  "\<exists>live t'. pipe_create_pair True True False (True, True) (True, True) 1 2 3 empty_fdtable
     = (PLAINERR, live, t', None) \<and> live = {} \<and> open_fds t' = {}"
proof -
  have r: "pipe_create_pair True True False (True, True) (True, True) 1 2 3 empty_fdtable
     = (PLAINERR, {}, empty_fdtable, None)" by (simp add: pipe_create_pair_def)
  from pipe_create_pair_atomic [OF fd_wf_empty(1) r] r fd_wf_empty(2) show ?thesis by simp
qed

end
