(* ===== verification/Sched.thy ===== *)
theory Sched
  imports Prelude
begin

text \<open>
  The round-robin scheduler of \<open>kernel/kernel/sched/sched.c\<close>: a circular singly linked ready
  queue threaded through the tasks' \<open>next\<close> pointers, and the task that runs. Tasks are
  identified by their (nonzero) addresses, 0 is the null pointer. A loop over the queue is a
  \<open>partial_function\<close>, so that running round a broken ring for ever is \<open>None\<close>; a null
  dereference is \<open>None\<close> too. The context switch itself (\<open>task_switch_to\<close>, assembly) is the
  change of \<open>current\<close>.
\<close>

section \<open>Model\<close>

record sched =
  nxt :: "nat \<Rightarrow> nat"
  ready_queue :: nat
  current :: nat
  sched_initialized :: bool
  tstate :: "nat \<Rightarrow> task_state"

definition sched_add :: "nat \<Rightarrow> sched \<Rightarrow> sched" where
  "sched_add task s =
    (if ready_queue s = 0 then s\<lparr>ready_queue := task, nxt := (nxt s)(task := task)\<rparr>
     else
       let rq = ready_queue s;
           s1 = s\<lparr>nxt := (nxt s)(task := nxt s rq)\<rparr>
       in s1\<lparr>nxt := (nxt s1)(rq := task)\<rparr>)"

partial_function (option) find_prev :: "(nat \<Rightarrow> nat) \<Rightarrow> nat \<Rightarrow> nat \<Rightarrow> nat \<Rightarrow> nat option" where
  "find_prev nx task rq n =
    (if nx n \<noteq> task \<and> nx n \<noteq> rq then find_prev nx task rq (nx n) else Some n)"

definition sched_remove :: "nat \<Rightarrow> sched \<Rightarrow> sched option" where
  "sched_remove task s =
    (if task = 0 then Some s
     else if ready_queue s = 0 then Some s
     else if ready_queue s = task \<and> nxt s task = task
     then Some (s\<lparr>ready_queue := 0, nxt := (nxt s)(task := 0)\<rparr>)
     else do {
       n \<leftarrow> find_prev (nxt s) task (ready_queue s) (ready_queue s);
       let s1 = (if nxt s n = task then s\<lparr>nxt := (nxt s)(n := nxt s task)\<rparr> else s);
       let s2 = (if ready_queue s1 = task then s1\<lparr>ready_queue := n\<rparr> else s1);
       Some (s2\<lparr>nxt := (nxt s2)(task := 0)\<rparr>) })"

text \<open>The search of \<open>sched_schedule\<close>: \<open>Some None\<close> is the kernel panic.\<close>

partial_function (option) pick_next ::
  "(nat \<Rightarrow> nat) \<Rightarrow> (nat \<Rightarrow> task_state) \<Rightarrow> nat \<Rightarrow> nat \<Rightarrow> nat option option" where
  "pick_next nx st prev n =
    (if n = 0 then None
     else if st n \<noteq> TASK_READY
     then (if n = prev then Some None else pick_next nx st prev (nx n))
     else Some (Some n))"

datatype sched_result = Panic | Switched sched

definition sched_schedule :: "sched \<Rightarrow> sched_result option" where
  "sched_schedule s =
    (if \<not> sched_initialized s then Some (Switched s)
     else if current s = 0 then
       (if ready_queue s = 0 then None
        else Some (Switched (s\<lparr>current := ready_queue s,
               tstate := (tstate s)(ready_queue s := TASK_RUNNING)\<rparr>)))
     else
       let prev = current s;
           st = (if tstate s prev = TASK_RUNNING then (tstate s)(prev := TASK_READY) else tstate s)
       in case pick_next (nxt s) st prev (nxt s prev) of
            None \<Rightarrow> None
          | Some None \<Rightarrow> Some Panic
          | Some (Some n) \<Rightarrow>
              Some (Switched (s\<lparr>current := n, tstate := st(n := TASK_RUNNING)\<rparr>)))"

definition sched_init :: "sched \<Rightarrow> sched" where
  "sched_init s =
    (if ready_queue s = 0 then s
     else s\<lparr>current := ready_queue s, tstate := (tstate s)(ready_queue s := TASK_RUNNING),
            sched_initialized := True\<rparr>)"

definition task_block :: "nat \<Rightarrow> sched \<Rightarrow> sched_result option" where
  "task_block t s =
    (let s1 = s\<lparr>tstate := (tstate s)(t := TASK_BLOCKED)\<rparr>
     in if t = current s1 then sched_schedule s1 else Some (Switched s1))"

definition sched_wake :: "nat \<Rightarrow> sched \<Rightarrow> sched" where
  "sched_wake t s = (if tstate s t = TASK_BLOCKED then s\<lparr>tstate := (tstate s)(t := TASK_READY)\<rparr> else s)"

section \<open>The ring\<close>

definition ring :: "(nat \<Rightarrow> nat) \<Rightarrow> nat list \<Rightarrow> bool" where
  "ring nx xs \<longleftrightarrow> xs \<noteq> [] \<and> distinct xs \<and> 0 \<notin> set xs \<and>
     (\<forall>i < length xs. nx (xs ! i) = xs ! ((i + 1) mod length xs))"

text \<open>The queue as a list that starts at \<open>ready_queue\<close>.\<close>

definition queue :: "sched \<Rightarrow> nat list \<Rightarrow> bool" where
  "queue s xs \<longleftrightarrow> (if ready_queue s = 0 then xs = [] else ring (nxt s) xs \<and> hd xs = ready_queue s)"

lemma ring_hd:
  assumes "ring nx (x # ys)"
  shows "nx x = hd (ys @ [x])"
proof -
  have "nx ((x # ys) ! 0) = (x # ys) ! (1 mod Suc (length ys))"
    using assms by (auto simp: ring_def simp del: nth_Cons_0)
  then show ?thesis by (cases ys) simp_all
qed

lemma ring_rotate1:
  assumes "ring nx (x # ys)"
  shows "ring nx (ys @ [x])"
proof -
  let ?n = "Suc (length ys)"
  have nth: "(ys @ [x]) ! i = (x # ys) ! ((i + 1) mod ?n)" if "i < ?n" for i
    using that by (cases "i = length ys") (auto simp: nth_append)
  have "nx ((ys @ [x]) ! i) = (ys @ [x]) ! ((i + 1) mod ?n)" if "i < ?n" for i
  proof -
    have "nx ((x # ys) ! ((i + 1) mod ?n)) = (x # ys) ! (((i + 1) mod ?n + 1) mod ?n)"
      using assms by (auto simp: ring_def)
    then show ?thesis using that nth [of i] nth [of "(i + 1) mod ?n"] by simp
  qed
  with assms show ?thesis by (auto simp: ring_def)
qed

lemma ring_rotate: "ring nx xs \<Longrightarrow> ring nx (rotate k xs)"
proof (induction k)
  case (Suc k)
  then show ?case using ring_rotate1 [of nx "hd (rotate k xs)" "tl (rotate k xs)"]
    by (cases "rotate k xs") (auto simp: ring_def)
qed simp

lemma ring_split: "ring nx (as @ x # bs) \<Longrightarrow> ring nx (x # bs @ as)"
  using ring_rotate [of nx "as @ x # bs" "length as"] by (simp add: rotate_append)

lemma ringI_step:
  "ring nx (x # ys) \<longleftrightarrow> distinct (x # ys) \<and> 0 \<notin> set (x # ys) \<and>
     (\<forall>i < length ys. nx ((x # ys) ! i) = ys ! i) \<and> nx (last (x # ys)) = x"
proof
  assume r: "ring nx (x # ys)"
  have "nx ((x # ys) ! i) = ys ! i" if "i < length ys" for i
    using r that by (auto simp: ring_def)
  moreover have "nx ((x # ys) ! length ys) = x"
    using r by (simp add: ring_def del: nth_Cons_Suc)
  ultimately show "distinct (x # ys) \<and> 0 \<notin> set (x # ys) \<and>
     (\<forall>i < length ys. nx ((x # ys) ! i) = ys ! i) \<and> nx (last (x # ys)) = x"
    using r by (simp add: ring_def last_conv_nth del: last.simps)
next
  assume r: "distinct (x # ys) \<and> 0 \<notin> set (x # ys) \<and>
     (\<forall>i < length ys. nx ((x # ys) ! i) = ys ! i) \<and> nx (last (x # ys)) = x"
  have "nx ((x # ys) ! i) = (x # ys) ! ((i + 1) mod Suc (length ys))" if "i < Suc (length ys)" for i
    using that r last_conv_nth [of "x # ys"] by (cases "i = length ys") (auto simp del: last.simps)
  with r show "ring nx (x # ys)" by (simp add: ring_def)
qed

text \<open>The ring as a chain: from \<open>x\<close> through \<open>ys\<close> to \<open>e\<close>.\<close>

fun chain :: "(nat \<Rightarrow> nat) \<Rightarrow> nat \<Rightarrow> nat list \<Rightarrow> nat \<Rightarrow> bool" where
  "chain nx x [] e \<longleftrightarrow> nx x = e"
| "chain nx x (y # ys) e \<longleftrightarrow> nx x = y \<and> chain nx y ys e"

lemma chain_iff: "chain nx x ys e \<longleftrightarrow>
    (\<forall>i < length ys. nx ((x # ys) ! i) = ys ! i) \<and> nx (last (x # ys)) = e"
proof (induction ys arbitrary: x)
  case (Cons y ys)
  then show ?case by (auto simp: All_less_Suc2)
qed simp

lemma ring_chain: "ring nx (x # ys) \<longleftrightarrow> distinct (x # ys) \<and> 0 \<notin> set (x # ys) \<and> chain nx x ys x"
  by (simp add: ringI_step chain_iff)

lemma chain_append: "chain nx x (as @ y # bs) e \<longleftrightarrow> chain nx x as y \<and> chain nx y bs e"
  by (induction as arbitrary: x) auto

lemma chain_upd: "a \<noteq> x \<Longrightarrow> a \<notin> set ys \<Longrightarrow> chain (nx(a := v)) x ys e = chain nx x ys e"
  by (induction ys arbitrary: x) auto

lemma find_prev_chain:
  assumes "chain nx n ys e" "e = t \<or> e = rq" "t \<notin> set ys" "rq \<notin> set ys"
  shows "find_prev nx t rq n = Some (last (n # ys))"
  using assms
proof (induction ys arbitrary: n)
  case Nil
  then show ?case by (subst find_prev.simps) auto
next
  case (Cons y ys)
  then show ?case by (subst find_prev.simps) auto
qed

section \<open>Adding and removing\<close>

lemma sched_add_queue:
  assumes "queue s xs" "t \<noteq> 0" "t \<notin> set xs"
  shows "queue (sched_add t s) (case xs of [] \<Rightarrow> [t] | x # r \<Rightarrow> x # t # r)"
proof (cases xs)
  case Nil
  with assms show ?thesis by (auto simp: queue_def sched_add_def ring_chain ring_def split: if_splits)
next
  case (Cons x r)
  with assms have q: "ready_queue s = x" "x \<noteq> 0" "ring (nxt s) (x # r)"
    by (auto simp: queue_def split: if_splits)
  have "chain (nxt s) (nxt s x) (tl r) x" if "r \<noteq> []" using q that by (cases r) (auto simp: ring_chain)
  then have "chain ((nxt s)(t := nxt s x, x := t)) t r x"
    using q(3) assms(3) Cons by (cases r) (auto simp: ring_chain chain_upd)
  with q assms Cons show ?thesis by (auto simp: queue_def sched_add_def Let_def ring_chain)
qed

lemma sched_remove_middle:
  assumes "queue s (x # as @ t # bs)"
  shows "\<exists>s'. sched_remove t s = Some s' \<and> queue s' (x # as @ bs) \<and> nxt s' t = 0 \<and>
    current s' = current s \<and> tstate s' = tstate s"
proof -
  have q: "ready_queue s = x" "x \<noteq> 0" "ring (nxt s) (x # as @ t # bs)"
    using assms by (auto simp: queue_def split: if_splits)
  then have c: "chain (nxt s) x as t" "chain (nxt s) t bs x" and d: "distinct (x # as @ t # bs)"
    "0 \<notin> set (x # as @ t # bs)" by (auto simp: ring_chain chain_append)
  let ?n = "last (x # as)"
  have fp: "find_prev (nxt s) t x x = Some ?n"
    using find_prev_chain [OF c(1), of t x] d by auto
  have nn: "nxt s ?n = t" using c(1) by (simp add: chain_iff)
  let ?nx = "(nxt s)(?n := nxt s t, t := 0)"
  have n_in: "?n \<in> set (x # as)" by (metis last_in_set list.distinct(1))
  have upto: "chain ?nx x as (nxt s t)"
  proof -
    have "?n \<noteq> t" using d n_in by auto
    then have 1: "?nx ?n = nxt s t" by simp
    have "?nx ((x # as) ! i) = as ! i" if i: "i < length as" for i
    proof -
      have "(x # as) ! i \<noteq> ?n"
        using d i nth_eq_iff_index_eq [of "x # as" i "length as"]
        by (simp add: last_conv_nth del: last.simps)
      moreover have "(x # as) ! i \<noteq> t" using d i nth_mem [of i "x # as"] by auto
      ultimately show ?thesis using c(1) i by (simp add: chain_iff)
    qed
    with 1 show ?thesis by (simp add: chain_iff)
  qed
  have rest: "chain ?nx x (as @ bs) x"
  proof (cases bs)
    case Nil
    with upto c(2) show ?thesis by simp
  next
    case (Cons b bs')
    with c(2) have b: "nxt s t = b" "chain (nxt s) b bs' x" by auto
    have "chain ?nx b bs' x"
      using b(2) d n_in Cons by (subst chain_upd, force, force)+ simp
    with upto b Cons show ?thesis by (simp add: chain_append)
  qed
  have "x \<noteq> t" "t \<noteq> 0" using d by auto
  then show ?thesis
    using q fp nn rest d by (auto simp: sched_remove_def queue_def ring_chain Let_def)
qed

lemma sched_remove_head:
  assumes "queue s (t # r)"
  shows "\<exists>s'. sched_remove t s = Some s' \<and> nxt s' t = 0 \<and>
    queue s' (if r = [] then [] else last r # butlast r) \<and>
    current s' = current s \<and> tstate s' = tstate s"
proof (cases "r = []")
  case True
  with assms show ?thesis by (auto simp: queue_def sched_remove_def ring_chain split: if_splits)
next
  case False
  then obtain as z where r: "r = as @ [z]" by (metis rev_exhaust)
  have q: "ready_queue s = t" "t \<noteq> 0" and rg: "ring (nxt s) (t # as @ [z])"
    using assms r by (auto simp: queue_def split: if_splits)
  have c: "chain (nxt s) t as z" "nxt s z = t" and d: "distinct (t # as @ [z])" "0 \<notin> set (t # as @ [z])"
    using rg by (auto simp: ring_chain chain_append)
  have fp: "find_prev (nxt s) t t t = Some z"
    using find_prev_chain [of "nxt s" t "as @ [z]" t t t] rg by (auto simp: ring_chain)
  have ne: "nxt s t \<noteq> t" using c(1) d by (cases as) auto
  let ?nx = "(nxt s)(z := nxt s t, t := 0)"
  have "chain ?nx z as z"
  proof (cases as)
    case Nil
    with c d show ?thesis by auto
  next
    case (Cons a as')
    with c have a: "nxt s t = a" "chain (nxt s) a as' z" by auto
    have "chain ?nx a as' z" using a(2) d Cons by (subst chain_upd, force, force)+ simp
    with a Cons d show ?thesis by auto
  qed
  then show ?thesis
    using q fp ne c d r by (auto simp: sched_remove_def queue_def ring_chain Let_def)
qed

lemma sched_remove_absent:
  assumes "queue s xs" "t \<notin> set xs" "t \<noteq> 0"
  shows "\<exists>s'. sched_remove t s = Some s' \<and> queue s' xs \<and>
    current s' = current s \<and> tstate s' = tstate s"
proof (cases xs)
  case Nil
  with assms show ?thesis by (auto simp: queue_def sched_remove_def ring_def split: if_splits)
next
  case (Cons x ys)
  then have q: "ready_queue s = x" "x \<noteq> 0" and c: "chain (nxt s) x ys x" and
    d: "distinct (x # ys)" "0 \<notin> set (x # ys)"
    using assms by (auto simp: queue_def ring_chain split: if_splits)
  have fp: "find_prev (nxt s) t x x = Some (last (x # ys))"
    using find_prev_chain [OF c, of t x] d assms(2) Cons by auto
  have n: "nxt s (last (x # ys)) = x" using c by (simp add: chain_iff)
  have "chain ((nxt s)(t := 0)) x ys x" using c assms(2) Cons by (subst chain_upd) auto
  with fp n q d assms Cons show ?thesis
    by (auto simp: sched_remove_def queue_def ring_chain Let_def)
qed

section \<open>Choosing the next task\<close>

lemma pick_next_chain:
  assumes "chain nx n ys prev" "0 \<notin> set (n # ys @ [prev])" "prev \<notin> set (n # ys)"
  shows "pick_next nx st prev n = Some (List.find (\<lambda>t. st t = TASK_READY) (n # ys @ [prev]))"
  using assms
proof (induction ys arbitrary: n)
  case Nil
  then show ?case by (subst pick_next.simps, subst pick_next.simps) auto
next
  case (Cons y ys)
  then show ?case by (subst pick_next.simps) auto
qed

lemma pick_next_ring:
  assumes "ring nx (prev # ys)"
  shows "pick_next nx st prev (nx prev) = Some (List.find (\<lambda>t. st t = TASK_READY) (ys @ [prev]))"
proof (cases ys)
  case Nil
  with assms show ?thesis by (subst pick_next.simps) (auto simp: ring_chain)
next
  case (Cons y zs)
  with assms pick_next_chain [of nx y zs prev st] show ?thesis by (auto simp: ring_chain)
qed

text \<open>The state of the other tasks that \<open>sched_schedule\<close> looks at: the running task, when it is
  still runnable, counts as ready.\<close>

definition demoted :: "sched \<Rightarrow> nat \<Rightarrow> task_state" where
  "demoted s = (if tstate s (current s) = TASK_RUNNING
     then (tstate s)(current s := TASK_READY) else tstate s)"

lemma sched_schedule_ring:
  assumes "sched_initialized s" "ring (nxt s) (current s # ys)"
  shows "sched_schedule s = Some (case List.find (\<lambda>t. demoted s t = TASK_READY) (ys @ [current s]) of
     None \<Rightarrow> Panic
   | Some n \<Rightarrow> Switched (s\<lparr>current := n, tstate := (demoted s)(n := TASK_RUNNING)\<rparr>))"
proof -
  have "current s \<noteq> 0" using assms(2) by (auto simp: ring_def)
  then show ?thesis
    using assms(1) pick_next_ring [OF assms(2), of "demoted s"]
    unfolding sched_schedule_def Let_def demoted_def [symmetric]
    by (simp split: option.split)
qed

text \<open>Successive calls of \<open>sched_schedule\<close>, each preceded by an arbitrary change of the task
  states (blocking, waking) by whatever ran in between.\<close>

primrec sched_rounds :: "(nat \<Rightarrow> task_state) list \<Rightarrow> sched \<Rightarrow> nat list option" where
  "sched_rounds [] s = Some []"
| "sched_rounds (g # gs) s =
     (case sched_schedule (s\<lparr>tstate := g\<rparr>) of
        Some (Switched s') \<Rightarrow> do { ts \<leftarrow> sched_rounds gs s'; Some (current s' # ts) }
      | _ \<Rightarrow> None)"

lemma ring_advance:
  assumes "ring nx (prev # ys)" "ys @ [prev] = us @ n # vs"
  shows "ring nx (n # vs @ us)"
  using ring_split [of nx us n vs] ring_rotate1 [OF assms(1)] assms(2) by simp

lemma sched_schedule_progress:
  assumes "sched_initialized s" "ring (nxt s) (current s # ys)" "i \<le> length ys"
    "(ys @ [current s]) ! i = t" "tstate s t = TASK_READY"
  obtains s' zs where "sched_schedule s = Some (Switched s')" "sched_initialized s'"
    "nxt s' = nxt s" "ring (nxt s') (current s' # zs)"
    "\<exists>j \<le> length zs. (zs @ [current s']) ! j = t \<and> (current s' = t \<or> j < i)"
proof -
  let ?P = "\<lambda>u. demoted s u = TASK_READY" and ?l = "ys @ [current s]"
  have t: "?P t" using assms(5) by (auto simp: demoted_def)
  have i: "i < length ?l" using assms(3) by simp
  then have "t \<in> set ?l" using assms(4) nth_mem by metis
  with t have "List.find ?P ?l \<noteq> None" by (simp only: find_None_iff) blast
  then obtain n where f: "List.find ?P ?l = Some n" by blast
  from f obtain k where k: "k < length ?l" "?P (?l ! k)" "n = ?l ! k" "\<And>j. j < k \<Longrightarrow> \<not> ?P (?l ! j)"
    by (auto simp only: find_Some_iff)
  have ki: "k \<le> i" using k(4) t assms(4) by (metis not_le)
  have spl: "?l = take k ?l @ n # drop (Suc k) ?l" using k id_take_nth_drop by metis
  let ?zs = "drop (Suc k) ?l @ take k ?l"
  let ?s = "s\<lparr>current := n, tstate := (demoted s)(n := TASK_RUNNING)\<rparr>"
  have "ring (nxt s) (n # ?zs)" by (rule ring_advance [OF assms(2) spl])
  moreover have "sched_schedule s = Some (Switched ?s)"
    using sched_schedule_ring [OF assms(1,2)] f by simp
  moreover have "\<exists>j \<le> length ?zs. (?zs @ [n]) ! j = t \<and> (n = t \<or> j < i)"
  proof (cases "k = i")
    case True
    then show ?thesis using k(3) assms(4) nth_append_length [of ?zs n "[]"]
      by (intro exI [of _ "length ?zs"]) (simp only: simp_thms order.refl)
  next
    case False
    with ki have lt: "k < i" by simp
    then have "(?zs @ [n]) ! (i - Suc k) = ?l ! i"
      using i by (simp add: nth_append del: append_assoc) (auto simp: nth_append)
    with lt i assms(4) show ?thesis by (intro exI [of _ "i - Suc k"]) auto
  qed
  ultimately show ?thesis using assms(1) that [of ?s ?zs] by simp
qed

section \<open>Properties\<close>

text \<open>The ready queue is a ring and stays one. \<open>sched_add\<close> puts a task in right after the
  head, and \<open>sched_remove\<close> always terminates and takes out the given task and no other: the
  order of the rest is kept, the head is replaced by its predecessor when it is the one that
  goes, and removing a task that is not queued changes nothing.\<close>

theorem sched_queue_exact:
  assumes "queue s xs" "t \<noteq> 0"
  shows "(t \<notin> set xs \<longrightarrow> queue (sched_add t s) (case xs of [] \<Rightarrow> [t] | x # r \<Rightarrow> x # t # r)) \<and>
    (\<exists>s'. sched_remove t s = Some s' \<and> current s' = current s \<and> tstate s' = tstate s \<and>
      queue s' (if xs \<noteq> [] \<and> hd xs = t \<and> tl xs \<noteq> [] then last xs # butlast (tl xs)
                else remove1 t xs))"
proof (intro conjI impI)
  show "t \<notin> set xs \<Longrightarrow> queue (sched_add t s) (case xs of [] \<Rightarrow> [t] | x # r \<Rightarrow> x # t # r)"
    using sched_add_queue assms by blast
next
  show "\<exists>s'. sched_remove t s = Some s' \<and> current s' = current s \<and> tstate s' = tstate s \<and>
      queue s' (if xs \<noteq> [] \<and> hd xs = t \<and> tl xs \<noteq> [] then last xs # butlast (tl xs)
                else remove1 t xs)"
  proof (cases "t \<in> set xs")
    case False
    with sched_remove_absent [OF assms(1) False assms(2)] show ?thesis by (auto simp: remove1_idem)
  next
    case True
    then obtain x r where xs: "xs = x # r" by (cases xs) auto
    show ?thesis
    proof (cases "x = t")
      case True
      with sched_remove_head [of s t r] assms xs show ?thesis by (auto split: if_splits)
    next
      case False
      with True xs obtain as bs where r: "r = as @ t # bs" "t \<notin> set as"
        by (auto dest: split_list_first)
      with sched_remove_middle [of s x as t bs] assms xs False show ?thesis
        by (auto simp: remove1_append)
    qed
  qed
qed

theorem sched_queue_exact_witness:
  "\<exists>s'. sched_remove 2 \<lparr>nxt = (\<lambda>_. 0)(1 := 2, 2 := 3, 3 := 1), ready_queue = 1, current = 1,
      sched_initialized = True, tstate = \<lambda>_. TASK_READY\<rparr> = Some s' \<and> queue s' [1, 3]"
proof -
  let ?s = "\<lparr>nxt = (\<lambda>_. 0)(1 := 2, 2 := 3, 3 := 1), ready_queue = 1, current = 1,
      sched_initialized = True, tstate = \<lambda>_. TASK_READY\<rparr>"
  have "queue ?s [1, 2, 3]" by (simp add: queue_def ring_chain)
  from sched_queue_exact [OF this, of 2] show ?thesis by auto
qed

text \<open>C15: \<open>sched_schedule\<close> terminates and picks the first ready task after the running one, in
  ring order, the running one itself last; it panics only when no task of the ring can run. No
  two tasks are running afterwards if only the current one was.\<close>

theorem sched_schedule_correct:
  assumes "sched_initialized s" "ring (nxt s) (current s # ys)"
  shows "sched_schedule s = Some (case List.find (\<lambda>t. demoted s t = TASK_READY) (ys @ [current s]) of
       None \<Rightarrow> Panic
     | Some n \<Rightarrow> Switched (s\<lparr>current := n, tstate := (demoted s)(n := TASK_RUNNING)\<rparr>)) \<and>
     ((\<forall>t. tstate s t = TASK_RUNNING \<longrightarrow> t = current s) \<longrightarrow> sched_schedule s = Some (Switched s') \<longrightarrow>
       (\<forall>t. tstate s' t = TASK_RUNNING \<longleftrightarrow> t = current s'))"
proof (intro conjI impI allI)
  fix t
  assume one: "\<forall>t. tstate s t = TASK_RUNNING \<longrightarrow> t = current s" and
    s': "sched_schedule s = Some (Switched s')"
  obtain n where n: "List.find (\<lambda>t. demoted s t = TASK_READY) (ys @ [current s]) = Some n"
    using s' sched_schedule_ring [OF assms]
    by (cases "List.find (\<lambda>t. demoted s t = TASK_READY) (ys @ [current s])") simp_all
  have "s' = s\<lparr>current := n, tstate := (demoted s)(n := TASK_RUNNING)\<rparr>"
    using trans [OF s' [symmetric] sched_schedule_ring [OF assms]] unfolding n by simp
  moreover have "t = current s \<or> tstate s t \<noteq> TASK_RUNNING" using one by blast
  ultimately show "tstate s' t = TASK_RUNNING \<longleftrightarrow> t = current s'"
    by (auto simp: demoted_def)
qed (rule sched_schedule_ring [OF assms])

theorem sched_schedule_correct_witness:
  "\<exists>s'. sched_schedule \<lparr>nxt = (\<lambda>_. 0)(1 := 2, 2 := 3, 3 := 1), ready_queue = 1, current = 1,
      sched_initialized = True, tstate = \<lambda>u. if u = 1 then TASK_RUNNING
        else if u = 2 then TASK_BLOCKED else TASK_READY\<rparr>
      = Some (Switched s') \<and> current s' = 3 \<and> tstate s' 1 \<noteq> TASK_RUNNING"
proof -
  let ?s = "\<lparr>nxt = (\<lambda>_. 0)(1 := 2, 2 := 3, 3 := 1), ready_queue = 1, current = 1,
      sched_initialized = True, tstate = \<lambda>u. if u = 1 then TASK_RUNNING
        else if u = 2 then TASK_BLOCKED else TASK_READY\<rparr>"
  let ?s' = "?s\<lparr>current := 3, tstate := (demoted ?s)(3 := TASK_RUNNING)\<rparr>"
  have r: "sched_initialized ?s" "ring (nxt ?s) (current ?s # [2, 3])" by (simp_all add: ring_chain)
  have "List.find (\<lambda>t. demoted ?s t = TASK_READY) ([2, 3] @ [current ?s]) = Some 3"
    by (simp add: demoted_def)
  then have s': "sched_schedule ?s = Some (Switched ?s')"
    using sched_schedule_correct [OF r] by (simp only: option.case)
  have "tstate ?s' 1 \<noteq> TASK_RUNNING" by (simp add: demoted_def)
  with s' show ?thesis by (intro exI [of _ ?s'] conjI) simp_all
qed

text \<open>C14: The scheduler is fair. A ready task that stands \<open>i\<close> places after the running one in
  the ring runs within \<open>i + 1\<close> calls of \<open>sched_schedule\<close>, whatever happens to the states of the
  other tasks in between, and none of these calls panics or loops.\<close>

theorem sched_fair:
  assumes "sched_initialized s" "ring (nxt s) (current s # ys)" "i \<le> length ys"
    "(ys @ [current s]) ! i = t" "length gs = Suc i" "\<forall>g \<in> set gs. g t = TASK_READY"
  shows "\<exists>ts. sched_rounds gs s = Some ts \<and> t \<in> set ts"
proof -
  have "\<exists>ts. sched_rounds gs s = Some ts \<and> (i < length gs \<longrightarrow> t \<in> set ts)"
    using assms(1-4,6)
  proof (induction gs arbitrary: s ys i)
    case (Cons g gs)
    let ?s = "s\<lparr>tstate := g\<rparr>"
    have p: "sched_initialized ?s" "ring (nxt ?s) (current ?s # ys)" "(ys @ [current ?s]) ! i = t"
      "tstate ?s t = TASK_READY" "\<forall>g \<in> set gs. g t = TASK_READY"
      using Cons.prems by simp_all
    obtain s' zs where s': "sched_schedule ?s = Some (Switched s')" "sched_initialized s'"
      "ring (nxt s') (current s' # zs)"
      "\<exists>j \<le> length zs. (zs @ [current s']) ! j = t \<and> (current s' = t \<or> j < i)"
      using sched_schedule_progress [OF p(1,2) Cons.prems(3) p(3,4)] by blast
    then obtain j where j: "j \<le> length zs" "(zs @ [current s']) ! j = t" "current s' = t \<or> j < i"
      by blast
    from Cons.IH [OF s'(2,3) j(1,2) p(5)] obtain ts where
      "sched_rounds gs s' = Some ts" "j < length gs \<longrightarrow> t \<in> set ts" by blast
    with s'(1) j(3) show ?case by auto
  qed simp
  with assms(5) show ?thesis by auto
qed

theorem sched_fair_witness:
  "\<exists>ts. sched_rounds [(\<lambda>_. TASK_READY)(2 := TASK_BLOCKED), \<lambda>_. TASK_READY, \<lambda>_. TASK_READY]
     \<lparr>nxt = (\<lambda>_. 0)(1 := 2, 2 := 3, 3 := 1), ready_queue = 1, current = 3,
      sched_initialized = True, tstate = \<lambda>_. TASK_READY\<rparr> = Some ts \<and> 3 \<in> set ts"
proof -
  let ?s = "\<lparr>nxt = (\<lambda>_. 0)(1 := 2, 2 := 3, 3 := 1), ready_queue = 1, current = 3,
      sched_initialized = True, tstate = \<lambda>_. TASK_READY\<rparr>"
  have "ring (nxt ?s) (current ?s # [1, 2])" by (simp add: ring_chain)
  from sched_fair [OF _ this, of 2 3 "[(\<lambda>_. TASK_READY)(2 := TASK_BLOCKED), \<lambda>_. TASK_READY, \<lambda>_. TASK_READY]"]
  show ?thesis by (simp del: sched_rounds.simps)
qed

end
