(* ===== verification/Pmm.thy ===== *)
theory Pmm
  imports Prelude
begin

text \<open>
  The physical frame allocator, \<open>kernel/arch/i386/memman/pmm/pmm.c\<close>: one bit per 4 KiB frame (set
  means free), a cursor that wraps once, and the construction of the bitmap from the boot
  loader's memory map.

  Frame numbers stay below \<open>2 ^ 20\<close>, so they are natural numbers; the 32 and 64 bit sums that can
  wrap are reduced explicitly. The memory map and the module list are the lists that
  \<open>MBI_WALK\<close> and \<open>mods[i]\<close> read from the boot loader's memory; the end of the kernel image,
  a linker symbol, is the argument \<open>kernel_end\<close>. Logging is left out.
\<close>

section \<open>Bit operations\<close>

record pmm =
  bitmap :: "u8 list"
  bitmap_frames :: nat
  next_free_page :: nat
  rejected_ops :: nat

definition pmm_reject :: "pmm \<Rightarrow> pmm" where
  "pmm_reject s = s\<lparr>rejected_ops := wrap32 (rejected_ops s + 1)\<rparr>"

definition pmm_clrp :: "nat \<Rightarrow> pmm \<Rightarrow> pmm" where
  "pmm_clrp page s =
    (if \<not> page < bitmap_frames s then pmm_reject s
     else s\<lparr>bitmap := bset (bitmap s) page\<rparr>)"

definition pmm_setp :: "nat \<Rightarrow> pmm \<Rightarrow> pmm" where
  "pmm_setp page s =
    (if \<not> page < bitmap_frames s then pmm_reject s
     else s\<lparr>bitmap := bclr (bitmap s) page\<rparr>)"

definition pmm_bitmap_bytes :: "nat \<Rightarrow> nat" where
  "pmm_bitmap_bytes frames = (frames + 7) div 8"

section \<open>Allocation and release\<close>

function alloc_scan :: "u8 list \<Rightarrow> nat \<Rightarrow> nat \<Rightarrow> nat option" where
  "alloc_scan bm frames page =
    (if page < frames then (if bget bm page then Some page else alloc_scan bm frames (page + 1))
     else None)"
  by pat_completeness auto
termination by (relation "measure (\<lambda>(bm, frames, page). frames - page)") auto

declare alloc_scan.simps [simp del]

definition alloc_pass :: "nat \<times> pmm \<Rightarrow> nat \<times> pmm" where
  "alloc_pass rs = (case rs of (result, s) \<Rightarrow>
    if result \<noteq> 0 then (result, s)
    else
      let (result', s') =
        (case alloc_scan (bitmap s) (bitmap_frames s) (next_free_page s) of
           Some page \<Rightarrow> (page * 4096, pmm_setp page (s\<lparr>next_free_page := page + 1\<rparr>))
         | None \<Rightarrow> (0, s))
      in if result' = 0 then (0, s'\<lparr>next_free_page := 0\<rparr>) else (result', s'))"

definition pmm_allocp :: "pmm \<Rightarrow> nat \<times> pmm" where
  "pmm_allocp s = alloc_pass (alloc_pass (0, s))"

definition pmm_freep :: "nat \<Rightarrow> pmm \<Rightarrow> pmm" where
  "pmm_freep address s =
    (if address = 0 then s
     else
       let page = address div 4096
       in if \<not> page < bitmap_frames s then pmm_reject s
          else
            let s1 = (if page < next_free_page s then s\<lparr>next_free_page := page\<rparr> else s)
            in pmm_clrp page s1)"

section \<open>Building the bitmap at boot\<close>

record mmap_entry =
  e_addr :: nat
  e_len :: nat
  e_type :: nat

record mbi =
  mbi_flags :: u32
  mods :: "(nat \<times> nat) list"
  mmap :: "mmap_entry list"

definition PMM_PHYS_LIMIT :: nat where "PMM_PHYS_LIMIT = 4294967296"
definition PMM_IDENTITY_LIMIT :: nat where "PMM_IDENTITY_LIMIT = 4194304"
definition LOWMEM_END :: nat where "LOWMEM_END = 1048576"
definition KERNEL_START :: nat where "KERNEL_START = 1048576"

definition usable :: "mmap_entry \<Rightarrow> bool" where
  "usable entry \<longleftrightarrow> \<not> (e_type entry \<noteq> 1 \<or> PMM_PHYS_LIMIT \<le> e_addr entry)"

definition mmap_clamped_end :: "mmap_entry \<Rightarrow> nat" where
  "mmap_clamped_end entry =
    (let end = (e_addr entry + e_len entry) mod 2 ^ 64
     in if PMM_PHYS_LIMIT < end then PMM_PHYS_LIMIT else end)"

definition page_up :: "nat \<Rightarrow> nat" where
  "page_up x = (x + 4095) div 4096 * 4096"

definition carve_skip :: "nat \<Rightarrow> nat \<Rightarrow> nat \<Rightarrow> nat \<Rightarrow> nat" where
  "carve_skip start limit skip_start skip_end =
    (if skip_start \<le> start \<and> start < skip_end \<and> skip_end \<le> limit then
       let past = page_up skip_end in (if past \<le> limit then past else limit)
     else start)"

fun carve_walk :: "nat \<Rightarrow> nat \<Rightarrow> mmap_entry list \<Rightarrow> nat \<Rightarrow> nat \<Rightarrow> nat option" where
  "carve_walk kernel_end nbytes [] mod_start mod_end = None"
| "carve_walk kernel_end nbytes (entry # es) mod_start mod_end =
    (if \<not> usable entry then carve_walk kernel_end nbytes es mod_start mod_end
     else
       let end = mmap_clamped_end entry
       in if end \<le> LOWMEM_END then carve_walk kernel_end nbytes es mod_start mod_end
          else
            let limit0 = wrap32 end;
                limit = (if PMM_IDENTITY_LIMIT < limit0 then PMM_IDENTITY_LIMIT else limit0);
                start1 = carve_skip LOWMEM_END limit KERNEL_START kernel_end;
                start2 = carve_skip start1 limit mod_start mod_end;
                start = page_up start2
            in if start < limit \<and> nbytes \<le> limit - start then Some start
               else carve_walk kernel_end nbytes es mod_start mod_end)"

definition carve_place :: "nat \<Rightarrow> nat \<Rightarrow> mmap_entry list \<Rightarrow> nat \<Rightarrow> nat \<Rightarrow> nat option" where
  "carve_place kernel_end nbytes es mod_start mod_end =
    (if nbytes = 0 then None else carve_walk kernel_end nbytes es mod_start mod_end)"

definition max_end_of :: "mmap_entry list \<Rightarrow> nat" where
  "max_end_of es = fold (\<lambda>entry max_end.
     if \<not> usable entry then max_end
     else let end = mmap_clamped_end entry in (if max_end < end then end else max_end)) es 0"

definition mark_region :: "mmap_entry \<Rightarrow> pmm \<Rightarrow> pmm" where
  "mark_region entry s =
    (if \<not> usable entry then s
     else
       let start_page = e_addr entry div 4096;
           end_page = (mmap_clamped_end entry + 4095) div 4096
       in fold pmm_clrp [start_page..<end_page] s)"

definition reserve_module :: "nat \<times> nat \<Rightarrow> pmm \<Rightarrow> pmm" where
  "reserve_module m s =
     fold pmm_setp [fst m div 4096..<wrap32 (snd m + 4095) div 4096] s"

datatype pmm_boot = Boot_Panic | Booted pmm nat nat

definition map_bitmap_home :: "nat \<Rightarrow> pmm \<Rightarrow> pmm_boot" where
  "map_bitmap_home phys s =
    (case pmm_allocp s of (table_phys, s') \<Rightarrow>
       if table_phys = 0 then Boot_Panic else Booted s' phys table_phys)"

text \<open>\<open>pmm_init\<close>; on success the state, the place of the bitmap and the frame that its page
  table took.\<close>

definition reserve_all :: "nat \<Rightarrow> mbi \<Rightarrow> nat \<times> nat \<Rightarrow> nat \<Rightarrow> nat \<Rightarrow> pmm \<Rightarrow> pmm" where
  "reserve_all kernel_end mbi m0 bitmap_phys bitmap_bytes s0 =
    (let s1 = fold mark_region (mmap mbi) s0;
         s2 = fold pmm_setp [0..<LOWMEM_END div 4096] s1;
         s3 = fold pmm_setp [KERNEL_START div 4096..<wrap32 (kernel_end + 4095) div 4096] s2;
         s4 = (if fst m0 < snd m0 then fold reserve_module (mods mbi) s3 else s3);
         s5 = fold pmm_setp [bitmap_phys div 4096..<(bitmap_phys + bitmap_bytes + 4095) div 4096] s4
     in s5\<lparr>next_free_page := 0\<rparr>)"

definition pmm_init :: "nat \<Rightarrow> mbi \<Rightarrow> pmm_boot" where
  "pmm_init kernel_end mbi =
    (if \<not> bit (mbi_flags mbi) 6 then Boot_Panic
     else
       let m0 = (if bit (mbi_flags mbi) 3 \<and> mods mbi \<noteq> [] then hd (mods mbi) else (0, 0));
           max_end = max_end_of (mmap mbi)
       in if max_end = 0 then Boot_Panic
          else
            let frames = (max_end + 4095) div 4096;
                bitmap_bytes = pmm_bitmap_bytes frames
            in case carve_place kernel_end bitmap_bytes (mmap mbi) (fst m0) (snd m0) of
                 None \<Rightarrow> Boot_Panic
               | Some bitmap_phys \<Rightarrow>
                   let s0 = \<lparr>bitmap = replicate bitmap_bytes 0, bitmap_frames = frames,
                             next_free_page = 0, rejected_ops = 0\<rparr>
                   in map_bitmap_home bitmap_phys
                        (reserve_all kernel_end mbi m0 bitmap_phys bitmap_bytes s0))"

section \<open>Invariant and abstraction\<close>

definition free_frames :: "pmm \<Rightarrow> nat set" where
  "free_frames s = {p. p < bitmap_frames s \<and> bget (bitmap s) p}"

definition pmm_wf :: "pmm \<Rightarrow> bool" where
  "pmm_wf s \<longleftrightarrow> length (bitmap s) = pmm_bitmap_bytes (bitmap_frames s)"

lemma finite_free_frames [simp]: "finite (free_frames s)"
  by (simp add: free_frames_def)

lemma pmm_wf_byte: "pmm_wf s \<Longrightarrow> p < bitmap_frames s \<Longrightarrow> p div 8 < length (bitmap s)"
  by (auto simp: pmm_wf_def pmm_bitmap_bytes_def)

lemma pmm_reject_frame [simp]:
  "bitmap (pmm_reject s) = bitmap s" "bitmap_frames (pmm_reject s) = bitmap_frames s"
  "next_free_page (pmm_reject s) = next_free_page s"
  by (simp_all add: pmm_reject_def)

lemma pmm_setp_frame [simp]:
  "bitmap_frames (pmm_setp p s) = bitmap_frames s" "next_free_page (pmm_setp p s) = next_free_page s"
  "pmm_wf (pmm_setp p s) = pmm_wf s"
  by (simp_all add: pmm_setp_def pmm_wf_def)

lemma pmm_clrp_frame [simp]:
  "bitmap_frames (pmm_clrp p s) = bitmap_frames s" "next_free_page (pmm_clrp p s) = next_free_page s"
  "pmm_wf (pmm_clrp p s) = pmm_wf s"
  by (simp_all add: pmm_clrp_def pmm_wf_def)

lemma free_frames_setp: "pmm_wf s \<Longrightarrow> free_frames (pmm_setp p s) = free_frames s - {p}"
  by (auto simp: free_frames_def pmm_setp_def bget_bclr pmm_wf_byte)

lemma free_frames_clrp:
  "pmm_wf s \<Longrightarrow> free_frames (pmm_clrp p s) = free_frames s \<union> ({p} \<inter> {..<bitmap_frames s})"
  by (auto simp: free_frames_def pmm_clrp_def bget_bset pmm_wf_byte)

lemma pmm_cursor_frame [simp]:
  "free_frames (s\<lparr>next_free_page := n\<rparr>) = free_frames s" "pmm_wf (s\<lparr>next_free_page := n\<rparr>) = pmm_wf s"
  by (simp_all add: free_frames_def pmm_wf_def)

lemma fold_setp:
  "bitmap_frames (fold pmm_setp ps s) = bitmap_frames s \<and>
   next_free_page (fold pmm_setp ps s) = next_free_page s \<and>
   pmm_wf (fold pmm_setp ps s) = pmm_wf s \<and>
   (pmm_wf s \<longrightarrow> free_frames (fold pmm_setp ps s) = free_frames s - set ps)"
  by (induction ps arbitrary: s) (auto simp: free_frames_setp)

lemma fold_clrp:
  "bitmap_frames (fold pmm_clrp ps s) = bitmap_frames s \<and>
   pmm_wf (fold pmm_clrp ps s) = pmm_wf s \<and>
   (pmm_wf s \<longrightarrow> free_frames (fold pmm_clrp ps s) = free_frames s \<union> (set ps \<inter> {..<bitmap_frames s}))"
  by (induction ps arbitrary: s) (auto simp: free_frames_clrp)

lemma alloc_scan_Some:
  "alloc_scan bm fr p = Some q \<longleftrightarrow> p \<le> q \<and> q < fr \<and> bget bm q \<and> (\<forall>t. p \<le> t \<and> t < q \<longrightarrow> \<not> bget bm t)"
proof (induction bm fr p rule: alloc_scan.induct)
  case (1 bm fr p)
  show ?case
  proof (cases "p < fr \<and> \<not> bget bm p")
    case True
    then have "alloc_scan bm fr p = alloc_scan bm fr (p + 1)" by (subst alloc_scan.simps) simp
    with 1 True show ?thesis
      by (simp add: Suc_le_eq) (metis le_neq_implies_less less_or_eq_imp_le)
  next
    case False
    then show ?thesis
      by (subst alloc_scan.simps) (auto simp: le_less)
  qed
qed

lemma alloc_scan_None:
  "alloc_scan bm fr p = None \<longleftrightarrow> (\<forall>t. p \<le> t \<and> t < fr \<longrightarrow> \<not> bget bm t)"
proof (induction bm fr p rule: alloc_scan.induct)
  case (1 bm fr p)
  show ?case
  proof (cases "p < fr \<and> \<not> bget bm p")
    case True
    then have "alloc_scan bm fr p = alloc_scan bm fr (p + 1)" by (subst alloc_scan.simps) simp
    with 1 True show ?thesis
      by (simp add: Suc_le_eq) (metis le_neq_implies_less less_or_eq_imp_le)
  next
    case False
    then show ?thesis by (subst alloc_scan.simps) auto
  qed
qed

text \<open>One pass, and the two passes of an allocation.\<close>

lemma alloc_pass_done [simp]: "r \<noteq> 0 \<Longrightarrow> alloc_pass (r, s) = (r, s)"
  by (simp add: alloc_pass_def)

lemma alloc_pass_None:
  "alloc_scan (bitmap s) (bitmap_frames s) (next_free_page s) = None \<Longrightarrow>
   alloc_pass (0, s) = (0, s\<lparr>next_free_page := 0\<rparr>)"
  by (simp add: alloc_pass_def)

lemma alloc_pass_Some:
  "alloc_scan (bitmap s) (bitmap_frames s) (next_free_page s) = Some p \<Longrightarrow> p \<noteq> 0 \<Longrightarrow>
   alloc_pass (0, s) = (p * 4096, pmm_setp p (s\<lparr>next_free_page := p + 1\<rparr>))"
  by (simp add: alloc_pass_def)

lemma pmm_allocp_cases:
  assumes "pmm_wf s" "0 \<notin> free_frames s"
  obtains (none) "free_frames s = {}" "pmm_allocp s = (0, s\<lparr>next_free_page := 0\<rparr>)"
  | (page) p where "p \<in> free_frames s" "p \<noteq> 0"
    "pmm_allocp s = (p * 4096, pmm_setp p (s\<lparr>next_free_page := p + 1\<rparr>))"
proof -
  have nz: "p \<noteq> 0" if "alloc_scan (bitmap s) (bitmap_frames s) q = Some p" for q p
    using that assms(2) by (auto simp: alloc_scan_Some free_frames_def)
  consider p where "alloc_scan (bitmap s) (bitmap_frames s) (next_free_page s) = Some p"
    | p where "alloc_scan (bitmap s) (bitmap_frames s) (next_free_page s) = None"
      "alloc_scan (bitmap s) (bitmap_frames s) 0 = Some p"
    | "alloc_scan (bitmap s) (bitmap_frames s) (next_free_page s) = None"
      "alloc_scan (bitmap s) (bitmap_frames s) 0 = None" by blast
  then show thesis
  proof cases
    case (1 p)
    with nz have "p \<noteq> 0" by blast
    with 1 page [of p] show thesis
      by (auto simp: pmm_allocp_def alloc_pass_Some alloc_scan_Some free_frames_def)
  next
    case (2 p)
    with nz have "p \<noteq> 0" by blast
    with 2 page [of p] show thesis
      by (simp add: pmm_allocp_def alloc_pass_None alloc_pass_Some)
        (simp add: alloc_scan_Some free_frames_def)
  next
    case 3
    with none show thesis
      by (simp add: pmm_allocp_def alloc_pass_None) (auto simp: alloc_scan_None free_frames_def)
  qed
qed

lemma pmm_freep_free:
  assumes "pmm_wf s"
  shows "pmm_wf (pmm_freep a s)" "bitmap_frames (pmm_freep a s) = bitmap_frames s"
    "free_frames (pmm_freep a s) =
       (if a \<noteq> 0 \<and> a div 4096 < bitmap_frames s then insert (a div 4096) (free_frames s) else free_frames s)"
proof -
  have rej: "free_frames (pmm_reject s) = free_frames s" "pmm_wf (pmm_reject s) = pmm_wf s"
    by (simp_all add: free_frames_def pmm_wf_def)
  show "pmm_wf (pmm_freep a s)" "bitmap_frames (pmm_freep a s) = bitmap_frames s"
    "free_frames (pmm_freep a s) =
       (if a \<noteq> 0 \<and> a div 4096 < bitmap_frames s then insert (a div 4096) (free_frames s) else free_frames s)"
    using assms by (auto simp: pmm_freep_def Let_def rej free_frames_clrp)
qed

section \<open>The interface of a frame allocator\<close>

text \<open>What the layers above rely on: frames are numbers, \<open>avail\<close> is the set that may still be
  handed out, an address is a frame times the page size and 0 is the failure value.\<close>

locale frame_allocator =
  fixes inv :: "'s \<Rightarrow> bool" and avail :: "'s \<Rightarrow> nat set" and frames :: "'s \<Rightarrow> nat"
    and alloc :: "'s \<Rightarrow> nat \<times> 's" and release :: "nat \<Rightarrow> 's \<Rightarrow> 's"
  assumes alloc_none: "inv s \<Longrightarrow> alloc s = (0, s') \<Longrightarrow> inv s' \<and> avail s = {} \<and> avail s' = {} \<and> frames s' = frames s"
    and alloc_some: "inv s \<Longrightarrow> alloc s = (a, s') \<Longrightarrow> a \<noteq> 0 \<Longrightarrow>
      inv s' \<and> (\<exists>p. a = p * 4096 \<and> p \<noteq> 0 \<and> p \<in> avail s \<and> avail s' = avail s - {p}) \<and> frames s' = frames s"
    and release_inv: "inv s \<Longrightarrow> p \<noteq> 0 \<Longrightarrow> p < frames s \<Longrightarrow>
      inv (release (p * 4096) s) \<and> avail (release (p * 4096) s) = insert p (avail s) \<and>
      frames (release (p * 4096) s) = frames s"
    and avail_frames: "inv s \<Longrightarrow> p \<in> avail s \<Longrightarrow> p \<noteq> 0 \<and> p < frames s"
begin

text \<open>A client that allocates, and releases only what it holds. \<open>client (a) (held)\<close>: an allocation,
  or the release of the i-th frame it holds.\<close>

fun client :: "nat option list \<Rightarrow> 's \<times> nat list \<Rightarrow> 's \<times> nat list" where
  "client [] sh = sh"
| "client (None # ops) (s, held) =
    (case alloc s of (a, s') \<Rightarrow> client ops (s', if a = 0 then held else held @ [a]))"
| "client (Some i # ops) (s, held) =
    (if i < length held then client ops (release (held ! i) s, take i held @ drop (Suc i) held)
     else client ops (s, held))"

definition holds :: "'s \<Rightarrow> nat list \<Rightarrow> bool" where
  "holds s held \<longleftrightarrow> inv s \<and> distinct held \<and>
     (\<forall>a \<in> set held. \<exists>p. a = p * 4096 \<and> p \<noteq> 0 \<and> p < frames s \<and> p \<notin> avail s)"

lemma client_holds:
  "holds s held \<Longrightarrow> client ops (s, held) = (s', held') \<Longrightarrow>
   holds s' held' \<and> avail s' \<union> (\<lambda>a. a div 4096) ` set held' = avail s \<union> (\<lambda>a. a div 4096) ` set held \<and>
   frames s' = frames s"
proof (induction ops "(s, held)" arbitrary: s held rule: client.induct)
  case (2 ops s held)
  obtain a s1 where al: "alloc s = (a, s1)" by force
  have inv: "inv s" using 2 by (simp add: holds_def)
  show ?case
  proof (cases "a = 0")
    case True
    with alloc_none [OF inv] al have s1: "inv s1" "avail s = {}" "avail s1 = {}" "frames s1 = frames s"
      by auto
    then have "holds s1 held" using 2 by (auto simp: holds_def)
    with 2 al True s1 show ?thesis by auto
  next
    case False
    with alloc_some [OF inv al] obtain p where p: "a = p * 4096" "p \<noteq> 0" "p \<in> avail s"
      "avail s1 = avail s - {p}" "inv s1" "frames s1 = frames s" by auto
    with avail_frames [OF inv p(3)] have "holds s1 (held @ [a])" using 2 by (auto simp: holds_def)
    with 2 al False p show ?thesis by auto
  qed
next
  case (3 i ops s held)
  show ?case
  proof (cases "i < length held")
    case True
    define xs ys b where d: "xs = take i held" "ys = drop (Suc i) held" "b = held ! i"
    have h: "held = xs @ b # ys" unfolding d by (rule id_take_nth_drop [OF True])
    obtain p where p: "b = p * 4096" "p \<noteq> 0" "p < frames s" "p \<notin> avail s" "inv s"
      using "3.prems"(1) h by (auto simp: holds_def)
    note r = release_inv [OF p(5,2,3), folded p(1)]
    have hr: "holds (release b s) (xs @ ys)"
      using "3.prems"(1) r p(1) unfolding h holds_def by auto
    have cl: "client ops (release b s, xs @ ys) = (s', held')"
      using "3.prems"(2) True by (simp add: d)
    note * = "3.hyps"(1) [OF True, folded d, OF hr cl]
    have "avail (release b s) \<union> (\<lambda>a. a div 4096) ` set (xs @ ys) =
        avail s \<union> (\<lambda>a. a div 4096) ` set held"
      using r p(1) unfolding h by auto
    with * r show ?thesis by simp
  next
    case False
    with 3 show ?thesis by auto
  qed
qed auto

end

interpretation pmm_frames: frame_allocator "\<lambda>s. pmm_wf s \<and> 0 \<notin> free_frames s" free_frames
  bitmap_frames pmm_allocp pmm_freep
proof unfold_locales
  fix s a s' p
  assume i: "pmm_wf s \<and> 0 \<notin> free_frames s"
  then have w: "pmm_wf s" "0 \<notin> free_frames s" by auto
  show "pmm_allocp s = (0, s') \<Longrightarrow> (pmm_wf s' \<and> 0 \<notin> free_frames s') \<and> free_frames s = {} \<and>
      free_frames s' = {} \<and> bitmap_frames s' = bitmap_frames s"
    using w by (cases rule: pmm_allocp_cases [OF w]) auto
  show "pmm_allocp s = (a, s') \<Longrightarrow> a \<noteq> 0 \<Longrightarrow> (pmm_wf s' \<and> 0 \<notin> free_frames s') \<and>
      (\<exists>p. a = p * 4096 \<and> p \<noteq> 0 \<and> p \<in> free_frames s \<and> free_frames s' = free_frames s - {p}) \<and>
      bitmap_frames s' = bitmap_frames s"
    using w by (cases rule: pmm_allocp_cases [OF w]) (auto simp: free_frames_setp)
  show "p \<noteq> 0 \<Longrightarrow> p < bitmap_frames s \<Longrightarrow>
      (pmm_wf (pmm_freep (p * 4096) s) \<and> 0 \<notin> free_frames (pmm_freep (p * 4096) s)) \<and>
      free_frames (pmm_freep (p * 4096) s) = insert p (free_frames s) \<and>
      bitmap_frames (pmm_freep (p * 4096) s) = bitmap_frames s"
    using w pmm_freep_free [OF w(1), of "p * 4096"] by auto
  show "p \<in> free_frames s \<Longrightarrow> p \<noteq> 0 \<and> p < bitmap_frames s"
    using w by (auto simp: free_frames_def intro: gr0I)
qed

section \<open>What the boot leaves free\<close>

definition pages :: "nat \<Rightarrow> nat \<Rightarrow> nat set" where
  "pages a b = {a div 4096..<b div 4096}"

text \<open>
  The memory map read on its own: an available entry is one of type 1 that begins below 4 GiB,
  its end is the 64-bit sum cut off at 4 GiB, and a frame counts when the entry touches it.
\<close>

definition available_entry :: "mmap_entry \<Rightarrow> bool" where
  "available_entry e \<longleftrightarrow> e_type e = 1 \<and> e_addr e < 2 ^ 32"

definition entry_end :: "mmap_entry \<Rightarrow> nat" where
  "entry_end e = min (2 ^ 32) ((e_addr e + e_len e) mod 2 ^ 64)"

definition available_frames :: "mmap_entry list \<Rightarrow> nat set" where
  "available_frames es =
     (\<Union>e \<in> {e \<in> set es. available_entry e}. pages (e_addr e) (entry_end e + 4095))"

definition memory_frames :: "mmap_entry list \<Rightarrow> nat" where
  "memory_frames es = (Max (entry_end ` {e \<in> set es. available_entry e}) + 4095) div 4096"

lemma usable_available: "usable e \<longleftrightarrow> available_entry e"
  by (auto simp: usable_def available_entry_def PMM_PHYS_LIMIT_def)

lemma clamped_entry_end: "mmap_clamped_end e = entry_end e"
  by (simp add: mmap_clamped_end_def entry_end_def PMM_PHYS_LIMIT_def Let_def min_def)

lemma Max_insert_max: "finite A \<Longrightarrow> Max (insert (max m x) A) = Max (insert m (insert x A))"
  for m x :: nat
  by (cases "A = {}") (simp_all add: max.assoc)

lemma max_end_fold:
  "fold (\<lambda>entry max_end. if \<not> usable entry then max_end
     else let end = mmap_clamped_end entry in (if max_end < end then end else max_end)) es m =
   Max (insert m (entry_end ` {e \<in> set es. available_entry e}))"
proof (induction es arbitrary: m)
  case (Cons e es)
  let ?A = "entry_end ` {e \<in> set es. available_entry e}"
  have "{x \<in> set (e # es). available_entry x} =
    (if available_entry e then insert e {x \<in> set es. available_entry x} else {x \<in> set es. available_entry x})"
    by auto
  moreover have "Max (insert (max m x) ?A) = Max (insert m (insert x ?A))" for x
    by (rule Max_insert_max) simp
  ultimately show ?case using Cons [of m] Cons [of "max m (entry_end e)"]
    by (auto simp: usable_available clamped_entry_end Let_def max_def)
qed simp

lemma max_end_Max:
  assumes "max_end_of es \<noteq> 0"
  shows "max_end_of es = Max (entry_end ` {e \<in> set es. available_entry e})"
proof -
  let ?A = "entry_end ` {e \<in> set es. available_entry e}"
  have m: "max_end_of es = Max (insert 0 ?A)"
    unfolding max_end_of_def by (rule max_end_fold)
  have "?A \<noteq> {}"
  proof
    assume "?A = {}"
    then show False using assms m by (simp only: Max_singleton)
  qed
  then have "Max (insert 0 ?A) = max 0 (Max ?A)" by (intro Max_insert) simp_all
  with m show ?thesis by simp
qed

lemma available_below:
  assumes "max_end_of es \<noteq> 0"
  shows "available_frames es \<subseteq> {..<memory_frames es}"
proof
  fix p assume "p \<in> available_frames es"
  then obtain e where e: "e \<in> set es" "available_entry e" "p < (entry_end e + 4095) div 4096"
    by (auto simp: available_frames_def pages_def)
  then have "entry_end e \<le> Max (entry_end ` {e \<in> set es. available_entry e})" by (intro Max_ge) auto
  then have "(entry_end e + 4095) div 4096 \<le> memory_frames es"
    unfolding memory_frames_def by (intro div_le_mono) simp
  with e(3) show "p \<in> {..<memory_frames es}" by simp
qed

definition first_module :: "mbi \<Rightarrow> nat \<times> nat" where
  "first_module mbi = (if bit (mbi_flags mbi) 3 \<and> mods mbi \<noteq> [] then hd (mods mbi) else (0, 0))"

definition reserved_frames :: "nat \<Rightarrow> mbi \<Rightarrow> nat \<Rightarrow> nat \<Rightarrow> nat set" where
  "reserved_frames kernel_end mbi phys frames =
     pages 0 LOWMEM_END \<union> pages KERNEL_START (wrap32 (kernel_end + 4095)) \<union>
     (if fst (first_module mbi) < snd (first_module mbi)
      then \<Union>m \<in> set (mods mbi). pages (fst m) (wrap32 (snd m + 4095)) else {}) \<union>
     pages phys (phys + pmm_bitmap_bytes frames + 4095)"

lemma mark_region_frame:
  "bitmap_frames (mark_region e s) = bitmap_frames s \<and> pmm_wf (mark_region e s) = pmm_wf s \<and>
   (pmm_wf s \<longrightarrow> free_frames (mark_region e s) = free_frames s \<union>
      ((if available_entry e then pages (e_addr e) (entry_end e + 4095) else {}) \<inter> {..<bitmap_frames s}))"
  using fold_clrp by (auto simp: mark_region_def Let_def pages_def usable_available clamped_entry_end)

lemma fold_mark_region:
  "bitmap_frames (fold mark_region es s) = bitmap_frames s \<and>
   pmm_wf (fold mark_region es s) = pmm_wf s \<and>
   (pmm_wf s \<longrightarrow> free_frames (fold mark_region es s) =
      free_frames s \<union> (available_frames es \<inter> {..<bitmap_frames s}))"
proof (induction es arbitrary: s)
  case (Cons e es)
  then show ?case using mark_region_frame [of e s]
    by (auto simp: available_frames_def)
qed (simp add: available_frames_def)

lemma fold_reserve_module:
  "bitmap_frames (fold reserve_module ms s) = bitmap_frames s \<and>
   pmm_wf (fold reserve_module ms s) = pmm_wf s \<and>
   (pmm_wf s \<longrightarrow> free_frames (fold reserve_module ms s) =
      free_frames s - (\<Union>m \<in> set ms. pages (fst m) (wrap32 (snd m + 4095))))"
proof (induction ms arbitrary: s)
  case (Cons m ms)
  then show ?case using fold_setp [of "[fst m div 4096..<wrap32 (snd m + 4095) div 4096]" s]
    by (auto simp: reserve_module_def pages_def)
qed simp

lemma reserve_all_free:
  fixes ke phys :: nat and mbi :: mbi
  assumes "pmm_wf s" "free_frames s = {}" "bitmap_frames s = frames"
  defines "r \<equiv> reserve_all ke mbi (first_module mbi) phys (pmm_bitmap_bytes frames) s"
  shows "pmm_wf r" "bitmap_frames r = frames"
    "free_frames r = available_frames (mmap mbi) \<inter> {..<frames} - reserved_frames ke mbi phys frames"
proof -
  note fs = fold_setp fold_reserve_module fold_mark_region
  show "pmm_wf r" "bitmap_frames r = frames"
    using assms(1,3) by (simp_all add: r_def reserve_all_def Let_def fs)
  show "free_frames r = available_frames (mmap mbi) \<inter> {..<frames} - reserved_frames ke mbi phys frames"
    using assms(1-3)
    by (simp add: r_def reserve_all_def Let_def fs reserved_frames_def pages_def)
      (auto simp: pages_def)
qed

lemma pmm_init_Booted:
  assumes "pmm_init ke mbi = Booted s phys table"
  obtains r where "pmm_allocp r = (table, s)" "table \<noteq> 0" "pmm_wf r" "0 \<notin> free_frames r"
    "bitmap_frames r = memory_frames (mmap mbi)"
    "free_frames r = available_frames (mmap mbi) - reserved_frames ke mbi phys (memory_frames (mmap mbi))"
    "carve_place ke (pmm_bitmap_bytes (bitmap_frames r)) (mmap mbi)
       (fst (first_module mbi)) (snd (first_module mbi)) = Some phys"
proof -
  define fr where "fr = (max_end_of (mmap mbi) + 4095) div 4096"
  let ?s0 = "\<lparr>bitmap = replicate (pmm_bitmap_bytes fr) 0, bitmap_frames = fr,
                             next_free_page = 0, rejected_ops = 0\<rparr>"
  define r where "r = reserve_all ke mbi (first_module mbi) phys (pmm_bitmap_bytes fr) ?s0"
  have s0: "pmm_wf ?s0" "free_frames ?s0 = {}"
    by (auto simp: pmm_wf_def free_frames_def pmm_bitmap_bytes_def bget_replicate0)
  from assms have me: "max_end_of (mmap mbi) \<noteq> 0"
    by (auto simp: pmm_init_def Let_def split: if_splits)
  have fr: "fr = memory_frames (mmap mbi)"
    unfolding fr_def memory_frames_def max_end_Max [OF me] by (rule refl)
  have av: "available_frames (mmap mbi) \<inter> {..<fr} = available_frames (mmap mbi)"
    unfolding fr using available_below [OF me] by blast
  from assms have c: "carve_place ke (pmm_bitmap_bytes fr) (mmap mbi)
       (fst (first_module mbi)) (snd (first_module mbi)) = Some phys"
    "map_bitmap_home phys r = Booted s phys table"
    by (auto simp: pmm_init_def Let_def first_module_def [symmetric] fr_def [symmetric] r_def
        map_bitmap_home_def split: if_splits option.splits prod.splits)
  then have a: "pmm_allocp r = (table, s)" "table \<noteq> 0"
    by (auto simp: map_bitmap_home_def split: prod.splits if_splits)
  note R = reserve_all_free [OF s0, of fr ke mbi phys, folded r_def, simplified]
  have "0 \<notin> free_frames r"
    unfolding R(3) by (auto simp: reserved_frames_def pages_def LOWMEM_END_def)
  with that [of r] a c(1) R(1,2) R(3) [unfolded av] show thesis by (simp add: fr)
qed

lemmas carve_defs = carve_place_def max_end_of_def usable_def mmap_clamped_end_def PMM_PHYS_LIMIT_def
  PMM_IDENTITY_LIMIT_def LOWMEM_END_def KERNEL_START_def carve_skip_def page_up_def
  pmm_bitmap_bytes_def Let_def

section \<open>Properties\<close>


definition small_machine :: mbi where
  "small_machine = \<lparr>mbi_flags = 64, mods = [], mmap = [\<lparr>e_addr = 0, e_len = 2097152, e_type = 1\<rparr>]\<rparr>"


text \<open>C7: Frames are never handed out twice. Starting from a state in which frame 0 is reserved, for
  every sequence of allocations and releases of held frames, the frames held are distinct, none of
  them is free, and together with the free ones they are exactly the frames that were free or held
  before: none is lost either.\<close>

theorem pmm_no_double_handout:
  assumes "pmm_wf s" "0 \<notin> free_frames s" "pmm_frames.client ops (s, []) = (s', held)"
  shows "distinct held \<and> (\<forall>a \<in> set held. a mod 4096 = 0 \<and> a \<noteq> 0 \<and> a div 4096 \<notin> free_frames s') \<and>
    free_frames s' \<union> (\<lambda>a. a div 4096) ` set held = free_frames s"
proof -
  have "pmm_frames.holds s []" using assms by (simp add: pmm_frames.holds_def)
  from pmm_frames.client_holds [OF this assms(3)] show ?thesis
    by (auto simp: pmm_frames.holds_def)
qed

theorem pmm_no_double_handout_witness:
  "distinct (snd (pmm_frames.client [None, None, Some 0, None]
     (\<lparr>bitmap = [6], bitmap_frames = 3, next_free_page = 0, rejected_ops = 0\<rparr>, [])))"
proof -
  let ?s = "\<lparr>bitmap = [6], bitmap_frames = 3, next_free_page = 0, rejected_ops = 0\<rparr>"
  have "pmm_wf ?s" "0 \<notin> free_frames ?s"
    by (simp_all add: pmm_wf_def pmm_bitmap_bytes_def free_frames_def bget_def bit_iff_odd)
  from pmm_no_double_handout [OF this] show ?thesis by (metis prod.collapse)
qed

text \<open>C9: \<open>pmm_allocp\<close> fails only when no frame is free, wherever the cursor stands, and otherwise
  returns the address of a free frame and takes that frame only; \<open>pmm_freep\<close> makes the frame of
  a nonzero address inside the bitmap free and leaves the state's frames alone otherwise.\<close>

theorem pmm_alloc_free_correct:
  assumes "pmm_wf s" "0 \<notin> free_frames s"
  shows "(if free_frames s = {} then fst (pmm_allocp s) = 0 \<and> free_frames (snd (pmm_allocp s)) = {}
     else fst (pmm_allocp s) mod 4096 = 0 \<and> fst (pmm_allocp s) div 4096 \<in> free_frames s \<and>
       free_frames (snd (pmm_allocp s)) = free_frames s - {fst (pmm_allocp s) div 4096}) \<and>
    pmm_wf (snd (pmm_allocp s)) \<and>
    pmm_wf (pmm_freep a s) \<and> free_frames (pmm_freep a s) = free_frames s \<union>
      (if a \<noteq> 0 \<and> a div 4096 < bitmap_frames s then {a div 4096} else {})"
proof (cases rule: pmm_allocp_cases [OF assms])
  case 1
  then show ?thesis using pmm_freep_free [OF assms(1), of a] assms(1) by simp
next
  case (2 p)
  then show ?thesis using pmm_freep_free [OF assms(1), of a] assms(1)
    by (auto simp: free_frames_setp)
qed

theorem pmm_alloc_free_correct_witness:
  "fst (pmm_allocp \<lparr>bitmap = [0], bitmap_frames = 8, next_free_page = 3, rejected_ops = 0\<rparr>) = 0"
proof -
  let ?s = "\<lparr>bitmap = [0], bitmap_frames = 8, next_free_page = 3, rejected_ops = 0\<rparr>"
  have "pmm_wf ?s" "free_frames ?s = {}"
    by (simp_all add: pmm_wf_def pmm_bitmap_bytes_def free_frames_def bget_def)
  with pmm_alloc_free_correct [of ?s 0] show ?thesis by simp
qed

definition overlap_map :: "mmap_entry list" where
  "overlap_map = [\<lparr>e_addr = 1048576, e_len = 1072693248, e_type = 1\<rparr>]"

text \<open>The carve looks only at the start of the range it takes. With 1 GiB of memory, a kernel
  that ends at 0x110000 and a boot module at 0x111000, the bitmap is placed at 0x110000 and its
  32768 bytes cover the beginning of the module, which \<open>pmm_init\<close> then clears.\<close>

theorem carve_overlaps_module:
  "let nbytes = pmm_bitmap_bytes ((max_end_of overlap_map + 4095) div 4096) in
   \<exists>phys. carve_place 1114112 nbytes overlap_map 1118208 1183744 = Some phys \<and>
     phys < 1118208 \<and> 1118208 < phys + nbytes"
  by (simp add: carve_defs overlap_map_def)

text \<open>A region that reaches 4 GiB cannot hold the bitmap. Its end is clamped to \<open>2 ^ 32\<close>, which
  the 32-bit \<open>limit\<close> truncates to 0, so \<open>carve_place\<close> passes over every such region, however large
  and free it is.\<close>

theorem carve_skips_4gib_region:
  assumes "e_addr entry + e_len entry < 2 ^ 64" "2 ^ 32 \<le> e_addr entry + e_len entry"
  shows "carve_walk kernel_end nbytes (entry # es) mod_start mod_end =
    carve_walk kernel_end nbytes es mod_start mod_end"
proof -
  have "PMM_PHYS_LIMIT \<le> e_addr entry + e_len entry" using assms(2) by (simp add: PMM_PHYS_LIMIT_def)
  with assms(1) have "mmap_clamped_end entry = PMM_PHYS_LIMIT"
    by (simp add: mmap_clamped_end_def Let_def)
  then show ?thesis by (simp add: Let_def PMM_PHYS_LIMIT_def wrap32_def LOWMEM_END_def)
qed

theorem carve_skips_4gib_region_witness:
  "pmm_init 2097152 \<lparr>mbi_flags = 64, mods = [],
     mmap = [\<lparr>e_addr = 1048576, e_len = 8589934592, e_type = 1\<rparr>]\<rparr> = Boot_Panic"
proof -
  let ?e = "\<lparr>e_addr = 1048576, e_len = 8589934592, e_type = 1\<rparr>"
  have "carve_walk 2097152 n [?e] a b = None" for n a b
    using carve_skips_4gib_region [of ?e 2097152 n "[]" a b] by simp
  then show ?thesis by (simp add: pmm_init_def carve_place_def Let_def)
qed

text \<open>The carve never looks at where the region begins. For a region that starts at 16 MiB it
  answers with an address below 4 MiB that no region of the map describes.\<close>

theorem carve_outside_region:
  "\<exists>phys. carve_place 2097152 4096 [\<lparr>e_addr = 16777216, e_len = 117440512, e_type = 1\<rparr>] 0 0 = Some phys \<and>
     phys div 4096 \<notin> available_frames [\<lparr>e_addr = 16777216, e_len = 117440512, e_type = 1\<rparr>]"
  by (simp add: carve_defs available_frames_def pages_def)

end
