(* ===== verification/Vmm.thy ===== *)
theory Vmm
  imports Pmm
begin

text \<open>
  The page tables, \<open>kernel/arch/i386/memman/vmm/vmm.c\<close>. The code never touches a page table by
  its physical address: it reads and writes through the recursive entry 1023 of the active
  directory. So the model has physical memory (frames of 1024 words), the register \<open>cr3\<close>, the
  processor's two level walk, and every access of the code is a load or a store at a virtual
  address, which is \<open>None\<close> (a page fault) when the walk fails.

  Addresses are natural numbers below \<open>2 ^ 32\<close>; the additions that can wrap are reduced. Table
  entries and flags are 32-bit words. The translation cache is left out (the code invalidates each
  page it changes), and so are the physical frames' sharing with devices.
\<close>

section \<open>The processor\<close>

record vm =
  vpmm :: pmm
  mem :: "nat \<Rightarrow> nat \<Rightarrow> u32"
  cr3 :: nat

definition PAGE_RW :: u32 where "PAGE_RW = 2"
definition PAGE_USER :: u32 where "PAGE_USER = 4"

definition present :: "u32 \<Rightarrow> bool" where "present e = bit e 0"

definition entry_frame :: "u32 \<Rightarrow> nat" where "entry_frame e = unat e div 4096"

definition walk :: "vm \<Rightarrow> nat \<Rightarrow> nat option" where
  "walk s va =
    (let pde = mem s (cr3 s div 4096) (va div 4194304)
     in if present pde then
          let pte = mem s (entry_frame pde) (va div 4096 mod 1024)
          in if present pte then Some (entry_frame pte) else None
        else None)"

definition load :: "vm \<Rightarrow> nat \<Rightarrow> nat \<Rightarrow> u32 option" where
  "load s va i = (case walk s va of None \<Rightarrow> None | Some f \<Rightarrow> Some (mem s f i))"

definition store :: "vm \<Rightarrow> nat \<Rightarrow> nat \<Rightarrow> u32 \<Rightarrow> vm option" where
  "store s va i v = (case walk s va of None \<Rightarrow> None
     | Some f \<Rightarrow> Some (s\<lparr>mem := (mem s)(f := (mem s f)(i := v))\<rparr>))"

definition zero_page :: "vm \<Rightarrow> nat \<Rightarrow> vm option" where
  "zero_page s va = (case walk s va of None \<Rightarrow> None
     | Some f \<Rightarrow> Some (s\<lparr>mem := (mem s)(f := (\<lambda>_. 0))\<rparr>))"

section \<open>Mapping and unmapping\<close>

definition pte_get_table :: "nat \<Rightarrow> nat" where "pte_get_table pde_i = 4290772992 + pde_i * 4096"
definition current_page_dir :: nat where "current_page_dir = 4290772992 + 1023 * 4096"
definition PAGE_DIR_TEMP_MAP :: nat where "PAGE_DIR_TEMP_MAP = 3229614080"
definition KERNEL_PDE_START :: nat where "KERNEL_PDE_START = 768"
definition RECURSIVE_PDE_INDEX :: nat where "RECURSIVE_PDE_INDEX = 1023"

definition vmm_map :: "nat \<Rightarrow> nat \<Rightarrow> u32 \<Rightarrow> vm \<Rightarrow> vm option" where
  "vmm_map virt_addr phys_addr flags s =
    (let pde_i = virt_addr div 4194304;
         pte_i = virt_addr div 4096 mod 1024
     in do {
       pde \<leftarrow> load s current_page_dir pde_i;
       if \<not> present pde then
         (case pmm_allocp (vpmm s) of (pgtable_phys, pm) \<Rightarrow>
            let s1 = s\<lparr>vpmm := pm\<rparr>
            in if pgtable_phys = 0 then Some s1
               else do {
                 s2 \<leftarrow> store s1 current_page_dir pde_i (of_nat pgtable_phys OR 1 OR PAGE_RW OR (flags AND PAGE_USER));
                 s3 \<leftarrow> zero_page s2 (pte_get_table pde_i);
                 store s3 (pte_get_table pde_i) pte_i (of_nat phys_addr OR flags OR 1) })
       else do {
         s1 \<leftarrow> (if flags AND PAGE_USER \<noteq> 0 then store s current_page_dir pde_i (pde OR PAGE_USER) else Some s);
         store s1 (pte_get_table pde_i) pte_i (of_nat phys_addr OR flags OR 1) } })"

definition vmm_unmap :: "nat \<Rightarrow> vm \<Rightarrow> vm option" where
  "vmm_unmap virt_addr s =
    (let pde_i = virt_addr div 4194304;
         pte_i = virt_addr div 4096 mod 1024
     in do {
       pde \<leftarrow> load s current_page_dir pde_i;
       if \<not> present pde then Some s else store s (pte_get_table pde_i) pte_i 0 })"

definition vmm_get_phys :: "nat \<Rightarrow> vm \<Rightarrow> nat option" where
  "vmm_get_phys virt_addr s =
    (let pde_i = virt_addr div 4194304;
         pte_i = virt_addr div 4096 mod 1024
     in do {
       pde \<leftarrow> load s current_page_dir pde_i;
       if \<not> present pde then Some 0
       else do {
         pte \<leftarrow> load s (pte_get_table pde_i) pte_i;
         Some (if \<not> present pte then 0 else unat (pte AND NOT 4095)) } })"

definition in_space :: "nat \<Rightarrow> (vm \<Rightarrow> vm option) \<Rightarrow> vm \<Rightarrow> vm option" where
  "in_space target_cr3 f s =
    (let saved_cr3 = cr3 s
     in do {
       s1 \<leftarrow> f (s\<lparr>cr3 := target_cr3\<rparr>);
       Some (s1\<lparr>cr3 := saved_cr3\<rparr>) })"

definition vmm_map_in :: "nat \<Rightarrow> nat \<Rightarrow> nat \<Rightarrow> u32 \<Rightarrow> vm \<Rightarrow> vm option" where
  "vmm_map_in addr_space virt_addr phys_addr flags s =
    (if addr_space = 0 then Some s else in_space addr_space (vmm_map virt_addr phys_addr flags) s)"

fun map_run :: "nat \<Rightarrow> nat \<Rightarrow> nat list \<Rightarrow> u32 \<Rightarrow> vm \<Rightarrow> vm option" where
  "map_run virt_addr i [] flags s = Some s"
| "map_run virt_addr i (p # ps) flags s = do {
     s1 \<leftarrow> vmm_map (wrap32 (virt_addr + i * 4096)) p flags s;
     map_run virt_addr (i + 1) ps flags s1 }"

definition vmm_map_in_run :: "nat \<Rightarrow> nat \<Rightarrow> nat list \<Rightarrow> u32 \<Rightarrow> vm \<Rightarrow> vm option" where
  "vmm_map_in_run addr_space virt_addr phys flags s =
    (if addr_space = 0 \<or> phys = [] then Some s
     else in_space addr_space (map_run virt_addr 0 phys flags) s)"

definition vmm_unmap_in :: "nat \<Rightarrow> nat \<Rightarrow> vm \<Rightarrow> vm option" where
  "vmm_unmap_in addr_space virt_addr s =
    (if addr_space = 0 then Some s else in_space addr_space (vmm_unmap virt_addr) s)"

section \<open>Runs of pages\<close>

definition vmm_zero_frame :: "nat \<Rightarrow> vm \<Rightarrow> vm option" where
  "vmm_zero_frame phys s = do {
     s1 \<leftarrow> vmm_map PAGE_DIR_TEMP_MAP phys PAGE_RW s;
     p \<leftarrow> vmm_get_phys PAGE_DIR_TEMP_MAP s1;
     s2 \<leftarrow> (if p = phys then zero_page s1 PAGE_DIR_TEMP_MAP else Some s1);
     vmm_unmap PAGE_DIR_TEMP_MAP s2 }"

fun unmap_run :: "nat \<Rightarrow> nat list \<Rightarrow> vm \<Rightarrow> vm option" where
  "unmap_run virt [] s = Some s"
| "unmap_run virt (j # js) s = do {
     s1 \<leftarrow> vmm_unmap (wrap32 (virt + j * 4096)) s;
     unmap_run virt js s1 }"

fun map_zeroed_loop :: "nat \<Rightarrow> nat \<Rightarrow> nat \<Rightarrow> nat list \<Rightarrow> u32 \<Rightarrow> vm \<Rightarrow> (int \<times> vm) option" where
  "map_zeroed_loop virt count i [] flags s = Some (0, s)"
| "map_zeroed_loop virt count i (p # ps) flags s =
    (let v = wrap32 (virt + i * 4096)
     in do {
       s1 \<leftarrow> vmm_zero_frame p s;
       s2 \<leftarrow> vmm_map v p flags s1;
       q \<leftarrow> vmm_get_phys v s2;
       if q \<noteq> p then do {
         s3 \<leftarrow> unmap_run virt [0..<count] s2;
         Some (-1, s3) }
       else map_zeroed_loop virt count (i + 1) ps flags s2 })"

definition vmm_map_zeroed_run :: "nat \<Rightarrow> nat list \<Rightarrow> u32 \<Rightarrow> vm \<Rightarrow> (int \<times> vm) option" where
  "vmm_map_zeroed_run virt phys flags s = map_zeroed_loop virt (length phys) 0 phys flags s"

fun unmap_free_loop :: "nat \<Rightarrow> nat list \<Rightarrow> vm \<Rightarrow> vm option" where
  "unmap_free_loop virt [] s = Some s"
| "unmap_free_loop virt (i # is) s =
    (let v = wrap32 (virt + i * 4096)
     in do {
       frame \<leftarrow> vmm_get_phys v s;
       s1 \<leftarrow> (if frame \<noteq> 0 then do {
                s1 \<leftarrow> vmm_unmap v s;
                Some (s1\<lparr>vpmm := pmm_freep frame (vpmm s1)\<rparr>) }
             else Some s);
       unmap_free_loop virt is s1 })"

definition vmm_unmap_run_free :: "nat \<Rightarrow> nat \<Rightarrow> vm \<Rightarrow> vm option" where
  "vmm_unmap_run_free virt count s = unmap_free_loop virt [0..<count] s"

section \<open>Searching for unmapped pages\<close>

text \<open>The inner loop over one page table (\<open>None\<close> for an absent one) and the outer loop over the
  directory. The result of the inner loop is a run found, or the run in progress.\<close>

fun scan_table :: "(nat \<Rightarrow> u32) option \<Rightarrow> nat \<Rightarrow> nat list \<Rightarrow> nat \<Rightarrow> nat \<Rightarrow> nat \<Rightarrow> nat + nat \<times> nat" where
  "scan_table table pde_i [] count run_start run_len = Inr (run_start, run_len)"
| "scan_table table pde_i (pte_i # is) count run_start run_len =
    (if (case table of None \<Rightarrow> False | Some t \<Rightarrow> present (t pte_i))
     then scan_table table pde_i is count run_start 0
     else
       let run_start' = (if run_len = 0 then pde_i * 4194304 + pte_i * 4096 else run_start)
       in if run_len + 1 = count then Inl run_start'
          else scan_table table pde_i is count run_start' (run_len + 1))"

fun scan_dir :: "vm \<Rightarrow> nat \<Rightarrow> nat \<Rightarrow> nat \<Rightarrow> nat \<Rightarrow> nat list \<Rightarrow> nat \<Rightarrow> nat \<Rightarrow> nat \<Rightarrow> nat option" where
  "scan_dir s start_pde start_pte end_pde end_pte [] count run_start run_len = Some 0"
| "scan_dir s start_pde start_pte end_pde end_pte (pde_i # is) count run_start run_len = do {
     pde \<leftarrow> load s current_page_dir pde_i;
     table \<leftarrow> (if present pde
       then (case walk s (pte_get_table pde_i) of None \<Rightarrow> None | Some f \<Rightarrow> Some (Some (mem s f)))
       else Some None);
     let pte_lo = (if pde_i = start_pde then start_pte else 0);
     let pte_hi = (if pde_i = end_pde then end_pte else 1024);
     case scan_table table pde_i [pte_lo..<pte_hi] count run_start run_len of
       Inl run \<Rightarrow> Some run
     | Inr (run_start', run_len') \<Rightarrow>
         scan_dir s start_pde start_pte end_pde end_pte is count run_start' run_len' }"

definition vmm_scan_free :: "nat \<Rightarrow> nat \<Rightarrow> nat \<Rightarrow> vm \<Rightarrow> nat option" where
  "vmm_scan_free begn end count s =
    (if end \<le> begn \<or> count = 0 then Some 0
     else
       let start_pde = begn div 4194304; start_pte = begn div 4096 mod 1024;
           end_pde = end div 4194304; end_pte = end div 4096 mod 1024
       in scan_dir s start_pde start_pte end_pde end_pte
            [start_pde..<min (Suc end_pde) KERNEL_PDE_START] count 0 0)"

definition USER_SPACE_BASE :: nat where "USER_SPACE_BASE = 134512640"
definition USER_SPACE_END :: nat where "USER_SPACE_END = 3221225472"

definition vmm_find_free_run :: "nat \<Rightarrow> nat \<Rightarrow> vm \<Rightarrow> nat option" where
  "vmm_find_free_run hint count s =
    (if count = 0 then Some 0
     else
       let begn = (if hint \<noteq> 0 \<and> USER_SPACE_BASE \<le> hint \<and> hint < USER_SPACE_END
                   then hint div 4096 * 4096 else USER_SPACE_BASE)
       in do {
         run \<leftarrow> vmm_scan_free begn USER_SPACE_END count s;
         if run \<noteq> 0 \<or> begn = USER_SPACE_BASE then Some run
         else vmm_scan_free USER_SPACE_BASE begn count s })"

section \<open>Address spaces\<close>

fun copy_entries :: "nat \<Rightarrow> nat list \<Rightarrow> vm \<Rightarrow> vm option" where
  "copy_entries dst [] s = Some s"
| "copy_entries dst (i # is) s = do {
     e \<leftarrow> load s current_page_dir i;
     s1 \<leftarrow> store s dst i e;
     copy_entries dst is s1 }"

definition vmm_create_page_dir :: "vm \<Rightarrow> (nat \<times> vm) option" where
  "vmm_create_page_dir s =
    (case pmm_allocp (vpmm s) of (page_dir_phys, pm) \<Rightarrow>
       let s0 = s\<lparr>vpmm := pm\<rparr>
       in if page_dir_phys = 0 then Some (0, s0)
          else do {
            s1 \<leftarrow> vmm_map PAGE_DIR_TEMP_MAP page_dir_phys PAGE_RW s0;
            s2 \<leftarrow> zero_page s1 PAGE_DIR_TEMP_MAP;
            s3 \<leftarrow> copy_entries PAGE_DIR_TEMP_MAP [KERNEL_PDE_START..<RECURSIVE_PDE_INDEX] s2;
            s4 \<leftarrow> store s3 PAGE_DIR_TEMP_MAP RECURSIVE_PDE_INDEX (of_nat page_dir_phys OR 1 OR PAGE_RW);
            s5 \<leftarrow> vmm_unmap PAGE_DIR_TEMP_MAP s4;
            Some (page_dir_phys, s5) })"

fun free_table :: "nat \<Rightarrow> nat list \<Rightarrow> vm \<Rightarrow> vm option" where
  "free_table table [] s = Some s"
| "free_table table (j # js) s = do {
     pte \<leftarrow> load s table j;
     free_table table js
       (if present pte then s\<lparr>vpmm := pmm_freep (unat (pte AND NOT 4095)) (vpmm s)\<rparr> else s) }"

fun destroy_tables :: "nat list \<Rightarrow> vm \<Rightarrow> vm option" where
  "destroy_tables [] s = Some s"
| "destroy_tables (i # is) s = do {
     pde \<leftarrow> load s current_page_dir i;
     if \<not> present pde then destroy_tables is s
     else do {
       s1 \<leftarrow> free_table (pte_get_table i) [0..<1024] s;
       pde' \<leftarrow> load s1 current_page_dir i;
       s2 \<leftarrow> store (s1\<lparr>vpmm := pmm_freep (unat (pde' AND NOT 4095)) (vpmm s1)\<rparr>) current_page_dir i 0;
       destroy_tables is s2 } }"

definition vmm_destroy_page_dir :: "nat \<Rightarrow> nat \<Rightarrow> vm \<Rightarrow> vm option" where
  "vmm_destroy_page_dir kernel_dir dir_phys s =
    (if dir_phys = 0 \<or> dir_phys = kernel_dir then Some s
     else do {
       s1 \<leftarrow> in_space dir_phys (destroy_tables [0..<KERNEL_PDE_START]) s;
       Some (s1\<lparr>vpmm := pmm_freep dir_phys (vpmm s1)\<rparr>) })"

section \<open>Table entries\<close>

lemma entry_frame_or: "entry_frame (a OR b) = entry_frame a OR entry_frame b"
proof -
  have "(4096::nat) = 2 ^ 12" by simp
  then show ?thesis
    unfolding entry_frame_def unsigned_or_eq by (simp only: drop_bit_eq_div [symmetric] drop_bit_or)
qed

lemma entry_frame_small: "unat e < 4096 \<Longrightarrow> entry_frame e = 0"
  by (simp add: entry_frame_def)

lemma entry_frame_addr: "a < 4294967296 \<Longrightarrow> entry_frame (of_nat a) = a div 4096"
  by (simp add: entry_frame_def unat_of_nat)

lemma present_or [simp]: "present (a OR b) \<longleftrightarrow> present a \<or> present b"
  by (simp add: present_def bit_or_iff)

lemma present_1 [simp]: "present 1"
  by (simp add: present_def)

lemma present_0 [simp]: "\<not> present 0"
  by (simp add: present_def)

lemma unat_and_small: "unat (a AND b :: u32) \<le> unat b"
  by (metis and.commute word_and_le1 word_le_nat_alt)

lemma pde_frame: "a < 4294967296 \<Longrightarrow>
  entry_frame (of_nat a OR 1 OR PAGE_RW OR (flags AND PAGE_USER)) = a div 4096"
  using unat_and_small [of flags PAGE_USER]
  by (simp add: entry_frame_or entry_frame_addr entry_frame_small PAGE_RW_def PAGE_USER_def)

lemma pde_frame2: "a < 4294967296 \<Longrightarrow> entry_frame (of_nat a OR 1 OR PAGE_RW) = a div 4096"
  by (simp add: entry_frame_or entry_frame_addr entry_frame_small PAGE_RW_def)

lemma pde_user_frame: "entry_frame (pde OR PAGE_USER) = entry_frame pde"
  by (simp add: entry_frame_or entry_frame_small PAGE_USER_def)

lemma pte_frame: "a < 4294967296 \<Longrightarrow> unat flags < 4096 \<Longrightarrow>
  entry_frame (of_nat a OR flags OR 1) = a div 4096"
  by (simp add: entry_frame_or entry_frame_addr entry_frame_small)

lemma entry_addr: "unat (e AND NOT 4095) = entry_frame e * 4096"
proof -
  have m: "(4095::u32) = mask 12" by (simp add: mask_eq_exp_minus_1)
  have e: "e AND NOT 4095 = push_bit 12 (drop_bit 12 e)"
    unfolding m by (rule bit_word_eqI) (auto simp: bit_simps)
  have d: "unat (drop_bit 12 e) = unat e div 4096"
    by (simp add: drop_bit_eq_div unat_div)
  have "unat e < 2 ^ LENGTH(32)" by (rule unsigned_less)
  then have "unat e div 4096 < 1048576" by (simp add: less_mult_imp_div_less)
  then show ?thesis
    unfolding e entry_frame_def unsigned_push_bit_eq d
    by (simp add: push_bit_eq_mult take_bit_nat_eq_self_iff)
qed

section \<open>Invariant of the active address space\<close>

definition dir :: "vm \<Rightarrow> nat" where "dir s = cr3 s div 4096"

definition pde :: "vm \<Rightarrow> nat \<Rightarrow> u32" where "pde s i = mem s (dir s) i"

definition table_frames :: "vm \<Rightarrow> nat set" where
  "table_frames s = insert (dir s) (entry_frame ` pde s ` {i. i < 1023 \<and> present (pde s i)})"

text \<open>The directory maps itself, the frames of the directory and of its page tables are distinct and
  not free, and the frame allocator is in order.\<close>

definition vm_ok :: "vm \<Rightarrow> bool" where
  "vm_ok s \<longleftrightarrow> pmm_wf (vpmm s) \<and> 0 \<notin> free_frames (vpmm s) \<and> bitmap_frames (vpmm s) \<le> 1048576 \<and>
     present (pde s 1023) \<and> entry_frame (pde s 1023) = dir s \<and>
     (\<forall>i < 1023. present (pde s i) \<longrightarrow> entry_frame (pde s i) \<noteq> dir s) \<and>
     inj_on (\<lambda>i. entry_frame (pde s i)) {i. i < 1023 \<and> present (pde s i)} \<and>
     table_frames s \<inter> free_frames (vpmm s) = {}"

lemma pde_inj: "vm_ok s \<Longrightarrow> i < 1023 \<Longrightarrow> j < 1023 \<Longrightarrow> present (pde s i) \<Longrightarrow> present (pde s j) \<Longrightarrow>
  entry_frame (pde s i) = entry_frame (pde s j) \<longleftrightarrow> i = j"
  by (auto simp: vm_ok_def inj_on_def)

lemma pde_not_dir: "vm_ok s \<Longrightarrow> i < 1023 \<Longrightarrow> present (pde s i) \<Longrightarrow> entry_frame (pde s i) \<noteq> dir s"
  by (simp add: vm_ok_def)

text \<open>The page table entry of an address, 0 where there is no table.\<close>

definition pte :: "vm \<Rightarrow> nat \<Rightarrow> u32" where
  "pte s va = (if present (pde s (va div 4194304))
     then mem s (entry_frame (pde s (va div 4194304))) (va div 4096 mod 1024) else 0)"

lemma walk_pte: "walk s va = (if present (pte s va) then Some (entry_frame (pte s va)) else None)"
  by (simp add: walk_def pte_def pde_def dir_def Let_def)

lemma rec_indices [simp]:
  "current_page_dir div 4194304 = 1023" "current_page_dir div 4096 mod 1024 = 1023"
  "i < 1024 \<Longrightarrow> pte_get_table i div 4194304 = 1023"
  "i < 1024 \<Longrightarrow> pte_get_table i div 4096 mod 1024 = i"
proof -
  show "i < 1024 \<Longrightarrow> pte_get_table i div 4096 mod 1024 = i"
    using mod_mult_self1 [of i 1023 1024] by (simp add: pte_get_table_def add.commute)
qed (simp_all add: current_page_dir_def pte_get_table_def)

lemma walk_dir: "present (pde s 1023) \<Longrightarrow> entry_frame (pde s 1023) = dir s \<Longrightarrow>
    walk s current_page_dir = Some (dir s)"
  by (simp add: walk_def Let_def pde_def dir_def)

lemma walk_table: "present (pde s 1023) \<Longrightarrow> entry_frame (pde s 1023) = dir s \<Longrightarrow> i < 1024 \<Longrightarrow>
    walk s (pte_get_table i) = (if present (pde s i) then Some (entry_frame (pde s i)) else None)"
  by (simp add: walk_def Let_def pde_def dir_def)

lemma vm_ok_self: "vm_ok s \<Longrightarrow> present (pde s 1023) \<and> entry_frame (pde s 1023) = dir s"
  by (simp add: vm_ok_def)

lemma load_dir: "vm_ok s \<Longrightarrow> load s current_page_dir i = Some (pde s i)"
  unfolding load_def by (simp add: walk_dir vm_ok_self) (simp add: pde_def)

definition set_pde :: "nat \<Rightarrow> u32 \<Rightarrow> vm \<Rightarrow> vm" where
  "set_pde i e s = s\<lparr>mem := (mem s)(dir s := (mem s (dir s))(i := e))\<rparr>"

definition set_word :: "nat \<Rightarrow> nat \<Rightarrow> u32 \<Rightarrow> vm \<Rightarrow> vm" where
  "set_word f i e s = s\<lparr>mem := (mem s)(f := (mem s f)(i := e))\<rparr>"

lemma store_dir: "vm_ok s \<Longrightarrow> store s current_page_dir i e = Some (set_pde i e s)"
  by (simp add: store_def walk_dir vm_ok_self set_pde_def)

lemma store_table: "vm_ok s \<Longrightarrow> i < 1023 \<Longrightarrow> present (pde s i) \<Longrightarrow>
    store s (pte_get_table i) j e = Some (set_word (entry_frame (pde s i)) j e s)"
  by (simp add: store_def walk_table vm_ok_self set_word_def)

lemma set_word_simps [simp]:
  "cr3 (set_word f i e s) = cr3 s" "vpmm (set_word f i e s) = vpmm s" "dir (set_word f i e s) = dir s"
  "f \<noteq> dir s \<Longrightarrow> pde (set_word f i e s) = pde s"
  by (auto simp: set_word_def dir_def pde_def)

lemma vm_ok_set_word: "f \<noteq> dir s \<Longrightarrow> vm_ok (set_word f i e s) = vm_ok s"
  by (simp add: vm_ok_def table_frames_def)

lemma big_page: "(va::nat) div 4194304 = va div 4096 div 1024"
  by (simp flip: div_mult2_eq)

lemma index_eq_iff: "(va::nat) div 4096 = vb div 4096 \<longleftrightarrow>
   va div 4194304 = vb div 4194304 \<and> va div 4096 mod 1024 = vb div 4096 mod 1024"
  unfolding big_page by (metis div_mult_mod_eq)

lemma pte_set_word:
  assumes "vm_ok s" "va div 4194304 < 1023" "vb div 4194304 < 1023" "present (pde s (va div 4194304))"
  shows "pte (set_word (entry_frame (pde s (va div 4194304))) (va div 4096 mod 1024) e s) vb =
    (if vb div 4096 = va div 4096 then e else pte s vb)"
proof -
  define i where "i = va div 4194304"
  define k where "k = vb div 4194304"
  have nd: "entry_frame (pde s i) \<noteq> dir s" using assms pde_not_dir i_def by blast
  have m: "mem (set_word (entry_frame (pde s i)) j e s) f l =
      (if f = entry_frame (pde s i) \<and> l = j then e else mem s f l)" for j f l
    by (simp add: set_word_def)
  have "present (pde s k) \<Longrightarrow> entry_frame (pde s k) = entry_frame (pde s i) \<longleftrightarrow> k = i"
    using assms pde_inj [OF assms(1), of k i] by (simp add: i_def k_def)
  with nd assms(4) show ?thesis
    unfolding pte_def index_eq_iff [of vb va] i_def [symmetric] k_def [symmetric]
    by (simp add: m)
qed

lemma set_word_mem: "mem (set_word f i e s) g = (if g = f then (mem s f)(i := e) else mem s g)"
  by (simp add: set_word_def)

lemma set_pde_mem: "mem (set_pde i e s) g = (if g = dir s then (mem s (dir s))(i := e) else mem s g)"
  by (simp add: set_pde_def)

lemma set_pde_simps [simp]:
  "cr3 (set_pde i e s) = cr3 s" "vpmm (set_pde i e s) = vpmm s" "dir (set_pde i e s) = dir s"
  "pde (set_pde i e s) = (pde s)(i := e)"
  by (auto simp: set_pde_def dir_def pde_def)

text \<open>Everything outside the directory and the page tables.\<close>

definition same_data :: "vm \<Rightarrow> vm \<Rightarrow> bool" where
  "same_data s s' \<longleftrightarrow> (\<forall>f. f \<notin> table_frames s' \<longrightarrow> mem s' f = mem s f)"

lemma vm_ok_user_bit:
  assumes "vm_ok s" "i < 1023" "present (pde s i)"
  shows "vm_ok (set_pde i (pde s i OR PAGE_USER) s)"
    "table_frames (set_pde i (pde s i OR PAGE_USER) s) = table_frames s"
proof -
  let ?t = "set_pde i (pde s i OR PAGE_USER) s"
  have e: "entry_frame (pde ?t j) = entry_frame (pde s j)" "present (pde ?t j) = present (pde s j)" for j
    using assms(3) by (simp_all add: pde_user_frame)
  have t: "table_frames ?t = table_frames s"
    unfolding table_frames_def image_image using e by simp
  show "table_frames ?t = table_frames s" by (rule t)
  show "vm_ok ?t"
    using assms(1) unfolding vm_ok_def t e by simp
qed

lemma pte_user_bit:
  assumes "vm_ok s" "i < 1023" "present (pde s i)" "vb div 4194304 < 1023"
  shows "pte (set_pde i (pde s i OR PAGE_USER) s) vb = pte s vb"
proof -
  let ?t = "set_pde i (pde s i OR PAGE_USER) s"
  have e: "entry_frame (pde ?t j) = entry_frame (pde s j)" "present (pde ?t j) = present (pde s j)" for j
    using assms(3) by (simp_all add: pde_user_frame)
  show ?thesis
    using assms pde_not_dir [OF assms(1,4)] unfolding pte_def e by (simp add: set_pde_mem)
qed

text \<open>A new, empty page table from the frame allocator.\<close>

definition new_table :: "nat \<Rightarrow> u32 \<Rightarrow> nat \<Rightarrow> vm \<Rightarrow> vm" where
  "new_table i e q s = (set_pde i e s)\<lparr>mem := (mem (set_pde i e s))(q := (\<lambda>_. 0))\<rparr>"

lemma new_table_simps:
  assumes "q \<noteq> dir s"
  shows "cr3 (new_table i e q s) = cr3 s" "vpmm (new_table i e q s) = vpmm s"
    "dir (new_table i e q s) = dir s" "pde (new_table i e q s) = (pde s)(i := e)"
    "mem (new_table i e q s) f = (if f = q then (\<lambda>_. 0) else if f = dir s then (mem s f)(i := e) else mem s f)"
  using assms by (auto simp: new_table_def set_pde_def dir_def pde_def)

lemma new_table_ok:
  assumes "vm_ok s" "i < 1023" "\<not> present (pde s i)" "q \<in> free_frames (vpmm s)"
    "present e" "entry_frame e = q" "pmm_wf pm" "free_frames pm = free_frames (vpmm s) - {q}"
    "bitmap_frames pm = bitmap_frames (vpmm s)"
  defines "t \<equiv> new_table i e q (s\<lparr>vpmm := pm\<rparr>)"
  shows "vm_ok t" "table_frames t = insert q (table_frames s)"
    "vb div 4194304 < 1023 \<Longrightarrow> pte t vb = pte s vb"
proof -
  have q: "q \<notin> table_frames s" "q \<noteq> dir s" using assms(1,4) by (auto simp: vm_ok_def table_frames_def)
  have d: "dir (s\<lparr>vpmm := pm\<rparr>) = dir s" "pde (s\<lparr>vpmm := pm\<rparr>) = pde s"
    by (simp_all add: dir_def pde_def fun_eq_iff)
  note t = new_table_simps [of q "s\<lparr>vpmm := pm\<rparr>" i e, folded t_def, unfolded d, OF q(2), simplified]
  have ef: "entry_frame (pde s j) \<noteq> q" if "j < 1023" "present (pde s j)" for j
    using q(1) that by (auto simp: table_frames_def)
  show T: "table_frames t = insert q (table_frames s)"
    using assms(2,3,5,6) by (auto simp: table_frames_def t split: if_splits)
  show "vm_ok t"
    unfolding vm_ok_def T
  proof (intro conjI)
    show "inj_on (\<lambda>i. entry_frame (pde t i)) {i. i < 1023 \<and> present (pde t i)}"
    proof (rule inj_onI)
      fix a b
      assume "a \<in> {i. i < 1023 \<and> present (pde t i)}" "b \<in> {i. i < 1023 \<and> present (pde t i)}"
        "entry_frame (pde t a) = entry_frame (pde t b)"
      then show "a = b"
        using ef [of a] ef [of b] assms(6) pde_inj [OF assms(1), of a b]
        by (cases "a = i"; cases "b = i") (simp_all add: t)
    qed
    show "insert q (table_frames s) \<inter> free_frames (vpmm t) = {}"
      using assms(1,8) by (auto simp: t vm_ok_def)
  qed (use assms(1-9) q in \<open>auto simp: t vm_ok_def\<close>)
  show "pte t vb = pte s vb" if "vb div 4194304 < 1023"
    using that ef [OF that] assms(3,5,6) pde_not_dir [OF assms(1) that]
    by (auto simp: pte_def t)
qed

section \<open>The effect of each operation\<close>

definition leaf :: "nat \<Rightarrow> u32 \<Rightarrow> u32" where "leaf phys flags = of_nat phys OR flags OR 1"

lemma present_leaf [simp]: "present (leaf phys flags)"
  by (simp add: leaf_def)

text \<open>What a successful change of one entry establishes.\<close>

definition set_effect :: "nat \<Rightarrow> u32 \<Rightarrow> vm \<Rightarrow> vm \<Rightarrow> bool" where
  "set_effect va e s s' \<longleftrightarrow> vm_ok s' \<and> cr3 s' = cr3 s \<and>
     bitmap_frames (vpmm s') = bitmap_frames (vpmm s) \<and>
     table_frames s \<subseteq> table_frames s' \<and> (\<forall>i < 1023. present (pde s i) \<longrightarrow> present (pde s' i)) \<and>
     (\<forall>i < 1023. i \<noteq> va div 4194304 \<longrightarrow> present (pde s' i) = present (pde s i)) \<and>
     table_frames s' \<union> free_frames (vpmm s') = table_frames s \<union> free_frames (vpmm s) \<and>
     (\<forall>vb. vb div 4194304 < 1023 \<longrightarrow> pte s' vb = (if vb div 4096 = va div 4096 then e else pte s vb)) \<and>
     same_data s s' \<and> (\<forall>f \<in> table_frames s' - table_frames s. f \<in> free_frames (vpmm s))"

lemma set_word_effect:
  assumes "vm_ok s" "va div 4194304 < 1023" "present (pde s (va div 4194304))"
  shows "set_effect va e s (set_word (entry_frame (pde s (va div 4194304))) (va div 4096 mod 1024) e s)"
proof -
  have nd: "entry_frame (pde s (va div 4194304)) \<noteq> dir s" using assms pde_not_dir by blast
  have "entry_frame (pde s (va div 4194304)) \<in> table_frames s"
    using assms by (auto simp: table_frames_def)
  with nd assms show ?thesis
    by (auto simp: set_effect_def vm_ok_set_word pte_set_word table_frames_def same_data_def set_word_mem)
qed

lemma set_effect_pre:
  assumes "set_effect va e t s'" "cr3 t = cr3 s" "bitmap_frames (vpmm t) = bitmap_frames (vpmm s)"
    "table_frames s \<subseteq> table_frames t"
    "table_frames t \<union> free_frames (vpmm t) = table_frames s \<union> free_frames (vpmm s)"
    "\<And>vb. vb div 4194304 < 1023 \<Longrightarrow> pte t vb = pte s vb" "same_data s t"
    "table_frames t - table_frames s \<subseteq> free_frames (vpmm s)"
    "free_frames (vpmm t) \<subseteq> free_frames (vpmm s)"
    "\<And>i. i < 1023 \<Longrightarrow> present (pde s i) \<Longrightarrow> present (pde t i)"
    "\<And>i. i < 1023 \<Longrightarrow> i \<noteq> va div 4194304 \<Longrightarrow> present (pde t i) = present (pde s i)"
  shows "set_effect va e s s'"
proof -
  from assms(1) have e: "vm_ok s'" "cr3 s' = cr3 t" "bitmap_frames (vpmm s') = bitmap_frames (vpmm t)"
    "table_frames t \<subseteq> table_frames s'"
    "\<And>i. i < 1023 \<Longrightarrow> present (pde t i) \<Longrightarrow> present (pde s' i)"
    "\<And>i. i < 1023 \<Longrightarrow> i \<noteq> va div 4194304 \<Longrightarrow> present (pde s' i) = present (pde t i)"
    "table_frames s' \<union> free_frames (vpmm s') = table_frames t \<union> free_frames (vpmm t)"
    "\<And>vb. vb div 4194304 < 1023 \<Longrightarrow> pte s' vb = (if vb div 4096 = va div 4096 then e else pte t vb)"
    "\<And>f. f \<notin> table_frames s' \<Longrightarrow> mem s' f = mem t f"
    "\<And>f. f \<in> table_frames s' - table_frames t \<Longrightarrow> f \<in> free_frames (vpmm t)"
    by (simp_all add: set_effect_def same_data_def)
  show ?thesis
    unfolding set_effect_def same_data_def
  proof (intro conjI allI impI ballI)
    show "mem s' f = mem s f" if "f \<notin> table_frames s'" for f
      using e(4) e(9) [of f] that assms(7) unfolding same_data_def by force
    show "f \<in> free_frames (vpmm s)" if "f \<in> table_frames s' - table_frames s" for f
      using that e(10) [of f] assms(8,9) by blast
    show "table_frames s \<subseteq> table_frames s'" using assms(4) e(4) by (rule subset_trans)
    show "present (pde s' i) = present (pde s i)" if "i < 1023" "i \<noteq> va div 4194304" for i
      using e(6) [OF that] assms(11) [OF that] by simp
  qed (simp_all only: e assms if_cancel)
qed

lemma set_pde_data:
  assumes "vm_ok s" "i < 1023" "present (pde s i)"
  shows "same_data s (set_pde i (pde s i OR PAGE_USER) s)"
  using assms by (auto simp: same_data_def table_frames_def set_pde_mem)

lemma vmm_map_present:
  assumes "vm_ok s" "va div 4194304 < 1023" "present (pde s (va div 4194304))"
  shows "\<exists>s'. vmm_map va phys flags s = Some s' \<and> set_effect va (leaf phys flags) s s' \<and>
     table_frames s' = table_frames s \<and> vpmm s' = vpmm s \<and>
     (flags AND PAGE_USER = 0 \<longrightarrow> pde s' = pde s)"
proof -
  let ?i = "va div 4194304" and ?u = "set_pde (va div 4194304) (pde s (va div 4194304) OR PAGE_USER) s"
  define t where "t = (if flags AND PAGE_USER \<noteq> 0 then ?u else s)"
  have t: "vm_ok t" "table_frames t = table_frames s" "cr3 t = cr3 s" "vpmm t = vpmm s"
    "same_data s t" "present (pde t ?i)" "\<And>vb. vb div 4194304 < 1023 \<Longrightarrow> pte t vb = pte s vb"
    using vm_ok_user_bit [OF assms] pte_user_bit [OF assms] set_pde_data [OF assms] assms
    by (auto simp: t_def same_data_def)
  let ?s' = "set_word (entry_frame (pde t ?i)) (va div 4096 mod 1024) (leaf phys flags) t"
  have "set_effect va (leaf phys flags) t ?s'" by (rule set_word_effect [OF t(1) assms(2) t(6)])
  then have eff: "set_effect va (leaf phys flags) s ?s'"
    by (rule set_effect_pre) (auto simp: t, auto simp: t_def split: if_splits)
  have nd: "entry_frame (pde t ?i) \<noteq> dir t" using pde_not_dir t(1,6) assms(2) by blast
  have tf: "table_frames ?s' = table_frames s" "vpmm ?s' = vpmm s"
    "flags AND PAGE_USER = 0 \<longrightarrow> pde ?s' = pde s"
    using nd t(2,4) by (simp_all add: table_frames_def) (simp add: t_def)
  have "(if flags AND PAGE_USER \<noteq> 0 then store s current_page_dir ?i (pde s ?i OR PAGE_USER)
      else Some s) = Some t"
    using assms(1) by (simp add: t_def store_dir)
  then have "vmm_map va phys flags s = Some ?s'"
    using assms(3) store_table [OF t(1) assms(2) t(6)]
    by (simp add: vmm_map_def Let_def load_dir [OF assms(1)] leaf_def)
  with eff tf show ?thesis by blast
qed

lemma vmm_map_new:
  assumes "vm_ok s" "va div 4194304 < 1023" "\<not> present (pde s (va div 4194304))"
    "free_frames (vpmm s) \<noteq> {}"
  shows "\<exists>s'. vmm_map va phys flags s = Some s' \<and> set_effect va (leaf phys flags) s s'"
proof -
  let ?i = "va div 4194304"
  have w: "pmm_wf (vpmm s)" "0 \<notin> free_frames (vpmm s)" "bitmap_frames (vpmm s) \<le> 1048576"
    using assms(1) by (simp_all add: vm_ok_def)
  from pmm_allocp_cases [OF w(1,2)] assms(4) obtain q where q: "q \<in> free_frames (vpmm s)" "q \<noteq> 0"
    "pmm_allocp (vpmm s) = (q * 4096, pmm_setp q ((vpmm s)\<lparr>next_free_page := q + 1\<rparr>))" by metis
  define pm where "pm = pmm_setp q ((vpmm s)\<lparr>next_free_page := q + 1\<rparr>)"
  have pm: "pmm_wf pm" "free_frames pm = free_frames (vpmm s) - {q}"
    "bitmap_frames pm = bitmap_frames (vpmm s)"
    using w(1) by (simp_all add: pm_def free_frames_setp)
  define e :: u32 where "e = of_nat (q * 4096) OR 1 OR PAGE_RW OR (flags AND PAGE_USER)"
  have q20: "q < 1048576" using q(1) w(3) by (simp add: free_frames_def)
  then have e: "present e" "entry_frame e = q"
    using pde_frame [of "q * 4096" flags] by (simp_all add: e_def)
  have qd: "q \<noteq> dir s" using assms(1) q(1) by (auto simp: vm_ok_def table_frames_def)
  let ?s1 = "s\<lparr>vpmm := pm\<rparr>"
  define t where "t = new_table ?i e q ?s1"
  note T = new_table_ok [OF assms(1-3) q(1) e pm, folded t_def]
  have p1: "dir ?s1 = dir s" "pde ?s1 = pde s" by (simp_all add: dir_def pde_def fun_eq_iff)
  then have tf1: "table_frames ?s1 = table_frames s" by (simp add: table_frames_def)
  have s1: "vm_ok ?s1" "dir ?s1 = dir s" "pde ?s1 = pde s"
    using assms(1) pm unfolding vm_ok_def p1 tf1 by auto
  note ts = new_table_simps [of q "?s1" ?i e, folded t_def, unfolded s1, OF qd]
  have pt: "pde t ?i = e" by (simp add: ts)
  let ?s' = "set_word q (va div 4096 mod 1024) (leaf phys flags) t"
  have "set_effect va (leaf phys flags) t ?s'"
    using set_word_effect [OF T(1) assms(2), of "leaf phys flags"] pt e by simp
  then have eff: "set_effect va (leaf phys flags) s ?s'"
  proof (rule set_effect_pre)
    show "same_data s t" unfolding same_data_def T(2) by (auto simp: ts table_frames_def)
  qed (use T pm q e in \<open>auto simp: ts\<close>)
  have z: "zero_page (set_pde ?i e ?s1) (pte_get_table ?i) = Some t"
    using e assms(2) vm_ok_self [OF s1(1)] qd
    by (simp add: zero_page_def walk_table s1 t_def new_table_def)
  have "vmm_map va phys flags s = Some ?s'"
    using assms(3) q(2) store_dir [OF s1(1), of ?i e] z store_table [OF T(1) assms(2), of "va div 4096 mod 1024" "leaf phys flags"] pt e
    by (simp add: vmm_map_def Let_def load_dir [OF assms(1)] q(3) [folded pm_def] e_def [symmetric] leaf_def del: of_nat_mult)
  with eff show ?thesis by blast
qed

lemma vmm_map_effect:
  assumes "vm_ok s" "va div 4194304 < 1023"
  obtains (failed) s' where "vmm_map va phys flags s = Some s'" "\<not> present (pde s (va div 4194304))"
      "free_frames (vpmm s) = {}" "s' = s\<lparr>vpmm := (vpmm s)\<lparr>next_free_page := 0\<rparr>\<rparr>"
  | (mapped) s' where "vmm_map va phys flags s = Some s'" "set_effect va (leaf phys flags) s s'"
      "present (pde s (va div 4194304)) \<Longrightarrow> table_frames s' = table_frames s \<and> vpmm s' = vpmm s"
      "present (pde s (va div 4194304)) \<or> free_frames (vpmm s) \<noteq> {}"
proof (cases "present (pde s (va div 4194304))")
  case True
  with vmm_map_present [OF assms True, of phys flags] mapped show thesis by blast
next
  case False
  have w: "pmm_wf (vpmm s)" "0 \<notin> free_frames (vpmm s)" using assms(1) by (simp_all add: vm_ok_def)
  show thesis
  proof (cases "free_frames (vpmm s) = {}")
    case True
    with w have "pmm_allocp (vpmm s) = (0, (vpmm s)\<lparr>next_free_page := 0\<rparr>)"
      by (cases rule: pmm_allocp_cases [OF w]) auto
    with True False failed show thesis by (simp add: vmm_map_def load_dir [OF assms(1)])
  next
    case ne: False
    with vmm_map_new [OF assms False ne, of phys flags] mapped False show thesis by blast
  qed
qed

lemma vm_ok_cursor: "vm_ok (s\<lparr>vpmm := (vpmm s)\<lparr>next_free_page := n\<rparr>\<rparr>) = vm_ok s"
proof -
  have p: "dir (s\<lparr>vpmm := (vpmm s)\<lparr>next_free_page := n\<rparr>\<rparr>) = dir s"
    "pde (s\<lparr>vpmm := (vpmm s)\<lparr>next_free_page := n\<rparr>\<rparr>) = pde s" by (simp_all add: dir_def pde_def fun_eq_iff)
  then have "table_frames (s\<lparr>vpmm := (vpmm s)\<lparr>next_free_page := n\<rparr>\<rparr>) = table_frames s"
    by (simp add: table_frames_def)
  then show ?thesis by (simp add: vm_ok_def p)
qed

lemma pte_pmm: "pte (s\<lparr>vpmm := pm\<rparr>) va = pte s va"
  by (simp add: pte_def pde_def dir_def)

lemma vmm_get_phys_pte:
  assumes "vm_ok s" "va div 4194304 < 1023"
  shows "vmm_get_phys va s = Some (if present (pte s va) then entry_frame (pte s va) * 4096 else 0)"
proof -
  have "load s (pte_get_table (va div 4194304)) j = Some (mem s (entry_frame (pde s (va div 4194304))) j)"
    if "present (pde s (va div 4194304))" for j
    using assms vm_ok_self [OF assms(1)] that by (simp add: load_def walk_table)
  then show ?thesis
    by (simp add: vmm_get_phys_def Let_def load_dir [OF assms(1)] pte_def entry_addr [simplified])
qed

lemma vmm_unmap_effect:
  assumes "vm_ok s" "va div 4194304 < 1023"
  shows "\<exists>s'. vmm_unmap va s = Some s' \<and> vpmm s' = vpmm s \<and> table_frames s' = table_frames s \<and>
     pde s' = pde s \<and> set_effect va 0 s s'"
proof (cases "present (pde s (va div 4194304))")
  case True
  let ?s' = "set_word (entry_frame (pde s (va div 4194304))) (va div 4096 mod 1024) 0 s"
  have "table_frames ?s' = table_frames s"
    using pde_not_dir [OF assms True] by (simp add: table_frames_def)
  with True show ?thesis
    using store_table [OF assms True] set_word_effect [OF assms True, of 0] pde_not_dir [OF assms True]
    by (simp add: vmm_unmap_def load_dir [OF assms(1)])
next
  case False
  have "pte s vb = 0" if "vb div 4096 = va div 4096" for vb
    using False that index_eq_iff [of vb va] by (simp add: pte_def)
  with False assms(1) show ?thesis
    by (simp add: vmm_unmap_def load_dir [OF assms(1)] set_effect_def same_data_def)
qed

section \<open>The search for unmapped pages\<close>

text \<open>The reference: one loop over page numbers.\<close>

fun flat_scan :: "(nat \<Rightarrow> bool) \<Rightarrow> nat list \<Rightarrow> nat \<Rightarrow> nat \<Rightarrow> nat \<Rightarrow> nat + nat \<times> nat" where
  "flat_scan used [] count st len = Inr (st, len)"
| "flat_scan used (x # xs) count st len =
    (if used x then flat_scan used xs count st 0
     else if len + 1 = count then Inl (if len = 0 then x * 4096 else st)
     else flat_scan used xs count (if len = 0 then x * 4096 else st) (len + 1))"

lemma flat_scan_append: "flat_scan used (xs @ ys) count st len =
    (case flat_scan used xs count st len of Inl r \<Rightarrow> Inl r | Inr (st', len') \<Rightarrow> flat_scan used ys count st' len')"
  by (induction used xs count st len rule: flat_scan.induct) (simp_all add: Let_def)

lemma scan_table_flat:
  assumes "\<And>i. i \<in> set is \<Longrightarrow> used (pde_i * 1024 + i) = (case t of None \<Rightarrow> False | Some t \<Rightarrow> present (t i))"
  shows "scan_table t pde_i is count st len = flat_scan used (map (\<lambda>i. pde_i * 1024 + i) is) count st len"
  using assms
  by (induction t pde_i "is" count st len rule: scan_table.induct) (simp_all add: Let_def algebra_simps)

definition mapped :: "vm \<Rightarrow> nat \<Rightarrow> bool" where "mapped s page = present (pte s (page * 4096))"

lemma mapped_entry: "i < 1024 \<Longrightarrow> mapped s (pde_i * 1024 + i) =
    (case (if present (pde s pde_i) then Some (mem s (entry_frame (pde s pde_i))) else None) of
       None \<Rightarrow> False | Some t \<Rightarrow> present (t i))"
proof -
  assume i: "i < 1024"
  then have "(pde_i * 1024 + i) * 4096 div 4194304 = pde_i" "(pde_i * 1024 + i) * 4096 div 4096 mod 1024 = i"
    unfolding big_page by simp_all
  then show ?thesis by (simp add: mapped_def pte_def)
qed

definition segment :: "nat \<Rightarrow> nat \<Rightarrow> nat \<Rightarrow> nat \<Rightarrow> nat \<Rightarrow> nat list" where
  "segment sp slo ep ehi i = map (\<lambda>j. i * 1024 + j)
     [(if i = sp then slo else 0)..<(if i = ep then ehi else 1024)]"

lemma scan_dir_flat:
  assumes "vm_ok s" "\<forall>i \<in> set is. i < 1023" "ehi \<le> 1024"
  shows "scan_dir s sp slo ep ehi is count st len =
    Some (case flat_scan (mapped s) (concat (map (segment sp slo ep ehi) is)) count st len of
            Inl r \<Rightarrow> r | Inr _ \<Rightarrow> 0)"
  using assms(2)
proof (induction "is" arbitrary: st len)
  case (Cons i "is")
  let ?t = "if present (pde s i) then Some (mem s (entry_frame (pde s i))) else None"
  let ?lo = "if i = sp then slo else 0" and ?hi = "if i = ep then ehi else 1024"
  have flat: "scan_table ?t i [?lo..<?hi] count st len = flat_scan (mapped s) (segment sp slo ep ehi i) count st len"
    unfolding segment_def by (rule scan_table_flat, rule mapped_entry) (use assms(3) in \<open>auto split: if_splits\<close>)
  have "(if present (pde s i) then (case walk s (pte_get_table i) of None \<Rightarrow> None | Some f \<Rightarrow> Some (Some (mem s f)))
       else Some None) = Some ?t"
    using Cons.prems vm_ok_self [OF assms(1)] by (simp add: walk_table)
  then show ?case
    using Cons.IH Cons.prems
    by (simp add: load_dir [OF assms(1)] flat flat_scan_append Let_def split: sum.split prod.split del: if_split)
qed simp

text \<open>The pages a search covers, and what the reference finds.\<close>

lemma map_plus_upt: "map (\<lambda>j. n + j) [a..<b] = [n + a..<n + b]"
  by (induction b) auto

lemma segment_eq:
  assumes "sp = b div 1024" "ep = e div 1024" "k \<le> ep"
  shows "segment sp (b mod 1024) ep (e mod 1024) k =
    [(if k = sp then b else k * 1024)..<min e (Suc k * 1024)]"
proof -
  have "k * 1024 + (if k = sp then b mod 1024 else 0) = (if k = sp then b else k * 1024)"
    using assms(1) by simp
  moreover have "k * 1024 + (if k = ep then e mod 1024 else 1024) = min e (Suc k * 1024)"
  proof (cases "k = ep")
    case True
    then show ?thesis using assms(2) div_mult_mod_eq [of e 1024] mod_less_divisor [of 1024 e] by simp
  next
    case False
    then have "Suc k * 1024 \<le> ep * 1024" using assms(3) by simp
    also have "\<dots> \<le> e" unfolding assms(2) by simp
    finally show ?thesis using False by simp
  qed
  ultimately show ?thesis unfolding segment_def map_plus_upt by simp
qed

lemma segments:
  assumes "sp = b div 1024" "ep = e div 1024" "sp \<le> k" "k \<le> Suc ep"
  shows "concat (map (segment sp (b mod 1024) ep (e mod 1024)) [sp..<k]) =
    [b..<(if k \<le> sp then b else min e (k * 1024))]"
  using assms(3,4)
proof (induction k rule: dec_induct)
  case (step k)
  have le: "k * 1024 \<le> e" if "k \<noteq> sp"
  proof -
    have "k * 1024 \<le> ep * 1024" using step.prems by simp
    also have "\<dots> \<le> e" unfolding assms(2) by simp
    finally show ?thesis .
  qed
  have bl: "b \<le> k * 1024" if "k \<noteq> sp"
    using that step.hyps(1) assms(1) by (simp add: Suc_le_eq less_eq_div_iff_mult_less_eq less_imp_le dividend_less_div_times)
  show ?case
  proof (cases "k = sp")
    case True
    then show ?thesis using segment_eq [OF assms(1,2), of k] step.prems by simp
  next
    case False
    then have "concat (map (segment sp (b mod 1024) ep (e mod 1024)) [sp..<Suc k]) =
        [b..<k * 1024] @ [k * 1024..<min e (Suc k * 1024)]"
      using segment_eq [OF assms(1,2), of k] step le by simp
    also have "\<dots> = [b..<min e (Suc k * 1024)]"
      using bl [OF False] le [OF False]
        upt_add_eq_append [of b "k * 1024" "min e (Suc k * 1024) - k * 1024"] by simp
    finally show ?thesis using step.hyps by simp
  qed
qed simp

definition free_run :: "(nat \<Rightarrow> bool) \<Rightarrow> nat \<Rightarrow> nat \<Rightarrow> bool" where
  "free_run used r count \<longleftrightarrow> (\<forall>t. r \<le> t \<and> t < r + count \<longrightarrow> \<not> used t)"

lemma flat_scan_correct:
  assumes "0 < count" "len < count" "b \<le> x - len" "len \<le> x" "x \<le> e"
    "\<forall>t. x - len \<le> t \<and> t < x \<longrightarrow> \<not> used t" "0 < len \<longrightarrow> st = (x - len) * 4096"
    "\<forall>r. b \<le> r \<and> r < x - len \<longrightarrow> \<not> free_run used r count"
  shows "case flat_scan used [x..<e] count st len of
      Inl a \<Rightarrow> \<exists>r. a = r * 4096 \<and> b \<le> r \<and> r + count \<le> e \<and> free_run used r count \<and>
        (\<forall>r'. b \<le> r' \<and> r' < r \<longrightarrow> \<not> free_run used r' count)
    | Inr _ \<Rightarrow> \<forall>r. b \<le> r \<and> r + count \<le> e \<longrightarrow> \<not> free_run used r count"
  using assms
proof (induction "e - x" arbitrary: x st len)
  case 0
  then have "x = e" by simp
  with 0 show ?case by (auto simp: not_less)
next
  case (Suc n)
  then have lt: "x < e" and n: "n = e - Suc x" by simp_all
  have u: "[x..<e] = x # [Suc x..<e]" using lt by (simp add: upt_conv_Cons)
  show ?case
  proof (cases "used x")
    case True
    have "\<not> free_run used r count" if "b \<le> r" "r < Suc x" for r
    proof (cases "r < x - len")
      case False
      then have "r \<le> x" "x < r + count" using that Suc.prems(2) by auto
      with True show ?thesis unfolding free_run_def by blast
    qed (use that Suc.prems(8) in blast)
    then show ?thesis
      using Suc.hyps(1) [OF n, of 0 st] Suc.prems True lt by (simp add: u)
  next
    case False
    define st' where "st' = (if len = 0 then x * 4096 else st)"
    have st': "st' = (x - len) * 4096" using Suc.prems(7) by (simp add: st'_def)
    have un: "\<forall>t. x - len \<le> t \<and> t < Suc x \<longrightarrow> \<not> used t"
      using Suc.prems(6) False by (auto simp: less_Suc_eq)
    show ?thesis
    proof (cases "len + 1 = count")
      case True
      have "free_run used (x - len) count"
        using un Suc.prems(4) True by (auto simp: free_run_def)
      with True False Suc.prems lt show ?thesis
        by (simp add: u st'_def [symmetric] st')
    next
      case False': False
      then show ?thesis
        using Suc.hyps(1) [OF n, of "len + 1" st'] Suc.prems False lt un st'
        by (simp add: u st'_def [symmetric])
    qed
  qed
qed

lemma vmm_scan_free_correct:
  assumes "vm_ok s" "e \<le> 786432" "0 < count"
  shows "\<exists>a. vmm_scan_free (b * 4096) (e * 4096) count s = Some a \<and>
    (if a = 0 then b = 0 \<or> (\<forall>r. b \<le> r \<and> r + count \<le> e \<longrightarrow> \<not> free_run (mapped s) r count)
     else \<exists>r. a = r * 4096 \<and> b \<le> r \<and> r + count \<le> e \<and> free_run (mapped s) r count \<and>
       (\<forall>r'. b \<le> r' \<and> r' < r \<longrightarrow> \<not> free_run (mapped s) r' count))"
proof (cases "e \<le> b")
  case True
  then show ?thesis using assms(3) by (auto simp: vmm_scan_free_def)
next
  case False
  define k where "k = min (Suc (e div 1024)) 768"
  have d: "b * 4096 div 4194304 = b div 1024" "e * 4096 div 4194304 = e div 1024"
    unfolding big_page by simp_all
  have kb: "b div 1024 < k" using False assms(2) unfolding k_def by (auto intro: le_less_trans [OF div_le_mono [of b e 1024]])
  have "min e (k * 1024) = e"
    using assms(2) dividend_less_div_times [of 1024 e] by (simp add: k_def min_def)
  then have cat: "concat (map (segment (b div 1024) (b mod 1024) (e div 1024) (e mod 1024)) [b div 1024..<k]) = [b..<e]"
    using segments [of "b div 1024" b "e div 1024" e k] kb by (simp add: k_def)
  have "k \<le> 768" by (simp add: k_def)
  then have "\<forall>i \<in> set [b div 1024..<k]. i < 1023" by auto
  from scan_dir_flat [OF assms(1) this, of "e mod 1024" "b div 1024" "b mod 1024" "e div 1024" count 0 0, unfolded cat]
  have sc: "scan_dir s (b div 1024) (b mod 1024) (e div 1024) (e mod 1024) [b div 1024..<k] count 0 0 =
    Some (case flat_scan (mapped s) [b..<e] count 0 0 of Inl r \<Rightarrow> r | Inr _ \<Rightarrow> 0)" by simp
  have "vmm_scan_free (b * 4096) (e * 4096) count s =
    Some (case flat_scan (mapped s) [b..<e] count 0 0 of Inl r \<Rightarrow> r | Inr _ \<Rightarrow> 0)"
    unfolding vmm_scan_free_def Let_def d KERNEL_PDE_START_def k_def [symmetric]
    using False assms(3) sc by simp
  moreover have "case flat_scan (mapped s) [b..<e] count 0 0 of
      Inl a \<Rightarrow> \<exists>r. a = r * 4096 \<and> b \<le> r \<and> r + count \<le> e \<and> free_run (mapped s) r count \<and>
        (\<forall>r'. b \<le> r' \<and> r' < r \<longrightarrow> \<not> free_run (mapped s) r' count)
    | Inr _ \<Rightarrow> \<forall>r. b \<le> r \<and> r + count \<le> e \<longrightarrow> \<not> free_run (mapped s) r count"
    using assms(3) False by (intro flat_scan_correct) auto
  ultimately show ?thesis
    by (cases "flat_scan (mapped s) [b..<e] count 0 0") auto
qed

lemma scan_free_cases:
  assumes "vm_ok s" "e \<le> 786432" "0 < count" "0 < b"
  shows "\<exists>a. vmm_scan_free (b * 4096) (e * 4096) count s = Some a \<and>
    (a = 0 \<longrightarrow> (\<forall>r. b \<le> r \<and> r + count \<le> e \<longrightarrow> \<not> free_run (mapped s) r count)) \<and>
    (a \<noteq> 0 \<longrightarrow> (\<exists>r. a = r * 4096 \<and> b \<le> r \<and> r + count \<le> e \<and> free_run (mapped s) r count))"
proof -
  from vmm_scan_free_correct [OF assms(1-3), of b] obtain a where a:
    "vmm_scan_free (b * 4096) (e * 4096) count s = Some a"
    "if a = 0 then b = 0 \<or> (\<forall>r. b \<le> r \<and> r + count \<le> e \<longrightarrow> \<not> free_run (mapped s) r count)
     else \<exists>r. a = r * 4096 \<and> b \<le> r \<and> r + count \<le> e \<and> free_run (mapped s) r count \<and>
       (\<forall>r'. b \<le> r' \<and> r' < r \<longrightarrow> \<not> free_run (mapped s) r' count)" by blast
  then show ?thesis using assms(4) by (cases "a = 0") auto
qed

section \<open>Zeroed runs\<close>

definition temp_entry :: "vm \<Rightarrow> bool" where "temp_entry s = present (pde s 770)"

lemma temp_pde [simp]: "PAGE_DIR_TEMP_MAP div 4194304 = 770" "PAGE_DIR_TEMP_MAP div 4096 = 788480"
  by (simp_all add: PAGE_DIR_TEMP_MAP_def)

lemma set_effectD:
  assumes "set_effect va e s s'"
  shows "vm_ok s'" "cr3 s' = cr3 s" "bitmap_frames (vpmm s') = bitmap_frames (vpmm s)"
    "table_frames s \<subseteq> table_frames s'"
    "\<And>i. i < 1023 \<Longrightarrow> present (pde s i) \<Longrightarrow> present (pde s' i)"
    "\<And>vb. vb div 4194304 < 1023 \<Longrightarrow> pte s' vb = (if vb div 4096 = va div 4096 then e else pte s vb)"
    "\<And>f. f \<notin> table_frames s' \<Longrightarrow> mem s' f = mem s f"
    "\<And>f. f \<in> table_frames s' \<Longrightarrow> f \<in> table_frames s \<or> f \<in> free_frames (vpmm s)"
    "table_frames s' \<union> free_frames (vpmm s') = table_frames s \<union> free_frames (vpmm s)"
    "\<And>i. i < 1023 \<Longrightarrow> i \<noteq> va div 4194304 \<Longrightarrow> present (pde s' i) = present (pde s i)"
  using assms by (auto simp: set_effect_def same_data_def)

lemma vm_ok_zero:
  assumes "vm_ok s" "f \<notin> table_frames s"
  defines "t \<equiv> s\<lparr>mem := (mem s)(f := (\<lambda>_. 0))\<rparr>"
  shows "vm_ok t" "table_frames t = table_frames s" "pde t = pde s"
    "vb div 4194304 < 1023 \<Longrightarrow> pte t vb = pte s vb" "cr3 t = cr3 s" "vpmm t = vpmm s"
proof -
  have d: "dir t = dir s" "cr3 t = cr3 s" "vpmm t = vpmm s" by (simp_all add: t_def dir_def)
  have "f \<noteq> dir s" using assms(2) by (auto simp: table_frames_def)
  then show p: "pde t = pde s" by (simp add: pde_def t_def dir_def fun_eq_iff)
  show tf: "table_frames t = table_frames s" by (simp add: table_frames_def p d)
  show "vm_ok t" using assms(1) by (simp add: vm_ok_def p d tf)
  show "pte t vb = pte s vb" if "vb div 4194304 < 1023"
    using assms(2) that unfolding pte_def p by (auto simp: t_def table_frames_def)
qed (simp_all add: t_def)

text \<open>
  Clearing a frame through the scratch page. The scratch page's table is made on demand: it
  exists already, or a frame is free for it, or nothing is cleared.
\<close>

definition can_clear :: "vm \<Rightarrow> bool" where
  "can_clear s \<longleftrightarrow> temp_entry s \<or> free_frames (vpmm s) \<noteq> {}"

lemma vmm_zero_frame_effect:
  assumes "vm_ok s" "0 < q" "q < 1048576" "q \<notin> table_frames s" "q \<notin> free_frames (vpmm s)"
  shows "\<exists>s'. vmm_zero_frame (q * 4096) s = Some s' \<and> vm_ok s' \<and> cr3 s' = cr3 s \<and>
    (if can_clear s then temp_entry s' else \<not> temp_entry s' \<and> free_frames (vpmm s') = {}) \<and>
    (\<forall>i < 1023. present (pde s i) \<longrightarrow> present (pde s' i)) \<and> table_frames s \<subseteq> table_frames s' \<and>
    table_frames s' \<union> free_frames (vpmm s') = table_frames s \<union> free_frames (vpmm s) \<and>
    (\<forall>vb. vb div 4194304 < 1023 \<longrightarrow> pte s' vb = (if vb div 4096 = 788480 then 0 else pte s vb)) \<and>
    (\<forall>f. f \<notin> table_frames s' \<longrightarrow> mem s' f = (if can_clear s \<and> f = q then \<lambda>_. 0 else mem s f))"
proof -
  have lt: "PAGE_DIR_TEMP_MAP div 4194304 < 1023" by simp
  show ?thesis
  proof (cases rule: vmm_map_effect [OF assms(1) lt, of "q * 4096" PAGE_RW])
    case (1 s1)
    have np: "\<not> present (pde s 770)" "\<not> can_clear s" using 1 by (simp_all add: can_clear_def temp_entry_def)
    have ok: "vm_ok s1" using assms(1) 1(4) vm_ok_cursor by simp
    have pd: "pde s1 = pde s" "table_frames s1 = table_frames s" "cr3 s1 = cr3 s" "mem s1 = mem s"
      "free_frames (vpmm s1) = free_frames (vpmm s)"
      using 1(4) by (simp_all add: table_frames_def pde_def [abs_def] dir_def)
    have ps: "pte s1 vb = pte s vb" for vb unfolding 1(4) by (rule pte_pmm)
    have z: "pte s vb = 0" if "vb div 4096 = 788480" for vb
    proof -
      have "vb div 4194304 = 770" unfolding big_page that by simp
      then show ?thesis using np(1) by (simp add: pte_def)
    qed
    have g: "vmm_get_phys PAGE_DIR_TEMP_MAP s1 = Some 0"
      using vmm_get_phys_pte [OF ok lt] z [of PAGE_DIR_TEMP_MAP] ps by simp
    have u: "vmm_unmap PAGE_DIR_TEMP_MAP s1 = Some s1"
      using np(1) pd(1) by (simp add: vmm_unmap_def load_dir [OF ok])
    have "vmm_zero_frame (q * 4096) s = Some s1"
      using assms(2) by (simp add: vmm_zero_frame_def 1(1) g u)
    then show ?thesis using ok pd ps z np 1(3) by (auto simp: temp_entry_def)
  next
    case (2 s1)
    have cc: "can_clear s" using 2(4) by (simp add: can_clear_def temp_entry_def)
    note e1 = set_effectD [OF 2(2)]
    have pt: "pte s1 PAGE_DIR_TEMP_MAP = leaf (q * 4096) PAGE_RW" by (simp add: e1(6))
    have ef: "entry_frame (leaf (q * 4096) PAGE_RW) = q"
      using pte_frame [of "q * 4096" PAGE_RW] assms(3) by (simp add: leaf_def PAGE_RW_def)
    have g: "vmm_get_phys PAGE_DIR_TEMP_MAP s1 = Some (q * 4096)"
      by (simp add: vmm_get_phys_pte [OF e1(1)] pt ef)
    let ?s2 = "s1\<lparr>mem := (mem s1)(q := (\<lambda>_. 0))\<rparr>"
    have z: "zero_page s1 PAGE_DIR_TEMP_MAP = Some ?s2"
      by (simp add: zero_page_def walk_pte pt ef)
    have "q \<notin> table_frames s1" using e1(8) assms(4,5) by blast
    note e2 = vm_ok_zero [OF e1(1) this]
    from vmm_unmap_effect [OF e2(1), of PAGE_DIR_TEMP_MAP] obtain s3 where s3:
      "vmm_unmap PAGE_DIR_TEMP_MAP ?s2 = Some s3" "vpmm s3 = vpmm ?s2" "table_frames s3 = table_frames ?s2"
      "pde s3 = pde ?s2" "set_effect PAGE_DIR_TEMP_MAP 0 ?s2 s3" by auto
    note e3 = set_effectD [OF s3(5)]
    have run: "vmm_zero_frame (q * 4096) s = Some s3"
      by (simp add: vmm_zero_frame_def 2(1) g z s3(1))
    have "present (pde s1 770)"
    proof (rule ccontr)
      assume "\<not> present (pde s1 770)"
      then have "pte s1 PAGE_DIR_TEMP_MAP = 0" by (simp add: pte_def)
      then show False using pt by (metis present_0 present_leaf)
    qed
    then have t: "temp_entry s3" using s3(4) e2(3) by (simp add: temp_entry_def)
    have "pte s3 vb = (if vb div 4096 = 788480 then 0 else pte s vb)" if "vb div 4194304 < 1023" for vb
      using that by (simp add: e3(6) e2(4) e1(6))
    moreover have "mem s3 f = (if f = q then \<lambda>_. 0 else mem s f)" if "f \<notin> table_frames s3" for f
      using that s3(3) e2(2) e3(7) [of f] e1(7) [of f] by simp
    ultimately show ?thesis
      using run t cc e3(1,2) s3(2-4) e2(2,3,5,6) e1(2,4,5,9) by auto
  qed
qed

text \<open>Removing a run of pages below the kernel.\<close>

lemma run_addr: "b + n \<le> 786432 \<Longrightarrow> j < n \<Longrightarrow> wrap32 (b * 4096 + j * 4096) = (b + j) * 4096"
  by (simp add: wrap32_def)

lemma page_pde: "(b::nat) < 786432 \<Longrightarrow> b * 4096 div 4194304 < 1023"
  unfolding big_page by (simp add: less_mult_imp_div_less)

lemma unmap_run_effect:
  assumes "vm_ok s" "b + n \<le> 786432" "set js \<subseteq> {..<n}"
  shows "\<exists>s'. unmap_run (b * 4096) js s = Some s' \<and> vm_ok s' \<and> cr3 s' = cr3 s \<and> vpmm s' = vpmm s \<and>
    table_frames s' = table_frames s \<and>
    (\<forall>vb. vb div 4194304 < 1023 \<longrightarrow>
       pte s' vb = (if vb div 4096 \<in> (\<lambda>j. b + j) ` set js then 0 else pte s vb)) \<and> same_data s s'"
  using assms(1,3)
proof (induction js arbitrary: s)
  case Nil
  then show ?case by (simp add: same_data_def)
next
  case (Cons j js)
  then have j: "j < n" "b + j < 786432" using assms(2) by auto
  from vmm_unmap_effect [OF Cons.prems(1) page_pde [OF j(2)]] obtain s1 where s1:
    "vmm_unmap ((b + j) * 4096) s = Some s1" "vpmm s1 = vpmm s" "table_frames s1 = table_frames s"
    "set_effect ((b + j) * 4096) 0 s s1" by blast
  note e1 = set_effectD [OF s1(4)]
  from Cons.IH [OF e1(1)] Cons.prems(2) obtain s2 where s2: "unmap_run (b * 4096) js s1 = Some s2"
    "vm_ok s2" "cr3 s2 = cr3 s1" "vpmm s2 = vpmm s1" "table_frames s2 = table_frames s1"
    "\<And>vb. vb div 4194304 < 1023 \<Longrightarrow> pte s2 vb = (if vb div 4096 \<in> (\<lambda>j. b + j) ` set js then 0 else pte s1 vb)"
    "same_data s1 s2" by auto
  have "same_data s s2" using s2(5,7) e1(7) s1(3) by (auto simp: same_data_def)
  with s1 s2 e1(2,6) show ?case
    by (simp add: run_addr [OF assms(2) j(1)])
qed

text \<open>The frames a caller brings along: allocated, nonzero, and no page table.\<close>

definition fresh_frames :: "vm \<Rightarrow> nat list \<Rightarrow> bool" where
  "fresh_frames s qs \<longleftrightarrow> distinct qs \<and>
     (\<forall>q \<in> set qs. 0 < q \<and> q < 1048576 \<and> q \<notin> table_frames s \<and> q \<notin> free_frames (vpmm s))"

text \<open>One iteration: the frame is mapped, and cleared if the scratch page can be used, or nothing
  but the scratch page changed.\<close>

lemma map_zeroed_step:
  assumes "vm_ok s" "v < 786432" "fresh_frames s (q # qs)" "unat flags < 4096"
  obtains s1 s2 where "vmm_zero_frame (q * 4096) s = Some s1" "vmm_map (v * 4096) (q * 4096) flags s1 = Some s2"
    "vm_ok s2" "cr3 s2 = cr3 s" "fresh_frames s2 qs"
    "vmm_get_phys (v * 4096) s2 = Some (q * 4096) \<and> can_clear s2 = can_clear s \<and>
       (\<forall>vb. vb div 4194304 < 768 \<longrightarrow> pte s2 vb = (if vb div 4096 = v then leaf (q * 4096) flags else pte s vb)) \<and>
       (\<forall>f. f \<notin> table_frames s2 \<longrightarrow> mem s2 f = (if can_clear s \<and> f = q then \<lambda>_. 0 else mem s f)) \<and>
       q \<notin> table_frames s2 \<and> q \<notin> free_frames (vpmm s2) \<and> table_frames s \<subseteq> table_frames s2 \<and>
       table_frames s2 \<union> free_frames (vpmm s2) = table_frames s \<union> free_frames (vpmm s)
     \<or> vmm_get_phys (v * 4096) s2 = Some 0 \<and> (\<forall>vb. vb div 4194304 < 768 \<longrightarrow> pte s2 vb = pte s vb)"
proof -
  have q: "0 < q" "q < 1048576" "q \<notin> table_frames s" "q \<notin> free_frames (vpmm s)" "q \<notin> set qs"
    using assms(3) by (simp_all add: fresh_frames_def)
  from vmm_zero_frame_effect [OF assms(1) q(1-4)] obtain s1 where s1:
    "vmm_zero_frame (q * 4096) s = Some s1" "vm_ok s1" "cr3 s1 = cr3 s"
    "if can_clear s then temp_entry s1 else \<not> temp_entry s1 \<and> free_frames (vpmm s1) = {}"
    "table_frames s \<subseteq> table_frames s1"
    "table_frames s1 \<union> free_frames (vpmm s1) = table_frames s \<union> free_frames (vpmm s)"
    "\<And>vb. vb div 4194304 < 1023 \<Longrightarrow> pte s1 vb = (if vb div 4096 = 788480 then 0 else pte s vb)"
    "\<And>f. f \<notin> table_frames s1 \<Longrightarrow> mem s1 f = (if can_clear s \<and> f = q then \<lambda>_. 0 else mem s f)" by blast
  have low: "pte s1 vb = pte s vb" if "vb div 4194304 < 768" for vb
  proof -
    have "vb div 4096 \<noteq> 788480" using that unfolding big_page by auto
    with s1(7) [of vb] that show ?thesis by simp
  qed
  have v: "v * 4096 div 4194304 < 1023" "v * 4096 div 4194304 < 768"
    using page_pde [OF assms(2)] assms(2) unfolding big_page by (simp_all add: less_mult_imp_div_less)
  show thesis
  proof (cases rule: vmm_map_effect [OF s1(2) v(1), of "q * 4096" flags])
    case (1 s2)
    have "pte s1 (v * 4096) = 0" using 1(2) by (simp add: pte_def)
    moreover have ok: "vm_ok s2" using s1(2) 1(4) vm_ok_cursor by simp
    moreover have ps: "pte s2 vb = pte s1 vb" for vb unfolding 1(4) by (rule pte_pmm)
    moreover have tf: "table_frames s2 = table_frames s1" "free_frames (vpmm s2) = free_frames (vpmm s1)"
      using 1(4) by (simp_all add: table_frames_def pde_def [abs_def] dir_def)
    ultimately have g: "vmm_get_phys (v * 4096) s2 = Some 0"
      using vmm_get_phys_pte [OF ok v(1)] by simp
    have "cr3 s2 = cr3 s" using 1(4) s1(3) by simp
    moreover have "fresh_frames s2 qs" using assms(3) tf s1(6) unfolding fresh_frames_def by auto
    ultimately show thesis
      using that [OF s1(1) 1(1) ok] g ps low by simp
  next
    case (2 s2)
    note e = set_effectD [OF 2(2)]
    have g: "vmm_get_phys (v * 4096) s2 = Some (q * 4096)"
    proof -
      have "pte s2 (v * 4096) = leaf (q * 4096) flags" using e(6) [OF v(1)] by simp
      moreover have "entry_frame (leaf (q * 4096) flags) = q"
        using pte_frame [of "q * 4096" flags] q(2) assms(4) by (simp add: leaf_def)
      ultimately show ?thesis by (simp add: vmm_get_phys_pte [OF e(1) v(1)])
    qed
    have "770 \<noteq> v * 4096 div 4194304" using v(2) by simp
    then have tmp: "temp_entry s2 = temp_entry s1" using e(10) [of 770] by (simp add: temp_entry_def)
    have cc: "can_clear s2 = can_clear s"
    proof (cases "can_clear s")
      case False
      then have f1: "\<not> temp_entry s1" "free_frames (vpmm s1) = {}" using s1(4) by simp_all
      then have "vpmm s2 = vpmm s1" using 2(3,4) by blast
      with f1 tmp False show ?thesis by (simp add: can_clear_def)
    qed (use s1(4) tmp in \<open>simp add: can_clear_def\<close>)
    have fr: "fresh_frames s2 qs"
      using assms(3) e(9) s1(6) unfolding fresh_frames_def by auto
    have m: "mem s2 f = (if can_clear s \<and> f = q then \<lambda>_. 0 else mem s f)" if "f \<notin> table_frames s2" for f
    proof -
      have "f \<notin> table_frames s1" using that e(4) by blast
      then show ?thesis using e(7) [OF that] s1(8) [of f] by simp
    qed
    have qt: "q \<notin> table_frames s2" "q \<notin> free_frames (vpmm s2)" using e(9) q(3,4) s1(6) by auto
    have p2: "pte s2 vb = (if vb div 4096 = v then leaf (q * 4096) flags else pte s vb)"
      if "vb div 4194304 < 768" for vb using e(6) [of vb] low [of vb] that by simp
    have ts: "table_frames s \<subseteq> table_frames s2"
      "table_frames s2 \<union> free_frames (vpmm s2) = table_frames s \<union> free_frames (vpmm s)"
      using e(4,9) s1(5,6) by auto
    from that [OF s1(1) 2(1) e(1) _ fr] g m qt e(2) s1(3) cc p2 ts show thesis by simp
  qed
qed

lemma map_zeroed_loop_effect:
  assumes "vm_ok s" "can_clear s = c" "b + n \<le> 786432" "i + length qs = n" "fresh_frames s qs" "unat flags < 4096"
  shows "\<exists>rc s'. map_zeroed_loop (b * 4096) n i (map (\<lambda>q. q * 4096) qs) flags s = Some (rc, s') \<and>
    vm_ok s' \<and> cr3 s' = cr3 s \<and>
    (rc = 0 \<and> (\<forall>vb. vb div 4194304 < 768 \<longrightarrow> pte s' vb =
         (if b + i \<le> vb div 4096 \<and> vb div 4096 < b + n
          then leaf (qs ! (vb div 4096 - (b + i)) * 4096) flags else pte s vb)) \<and>
       (\<forall>f. f \<notin> table_frames s' \<longrightarrow> mem s' f = (if c \<and> f \<in> set qs then \<lambda>_. 0 else mem s f)) \<and>
       set qs \<inter> table_frames s' = {} \<and> table_frames s \<subseteq> table_frames s' \<and>
       table_frames s' \<union> free_frames (vpmm s') = table_frames s \<union> free_frames (vpmm s)
     \<or> rc = -1 \<and> (\<forall>vb. vb div 4194304 < 768 \<longrightarrow> pte s' vb =
         (if b \<le> vb div 4096 \<and> vb div 4096 < b + n then 0 else pte s vb)))"
  using assms(1,2,4,5)
proof (induction qs arbitrary: s i)
  case Nil
  then show ?case by auto
next
  case (Cons q qs)
  have i: "i < n" "b + i < 786432" using Cons.prems(3) assms(3) by simp_all
  note w = run_addr [OF assms(3) i(1)]
  obtain s1 s2 where s: "vmm_zero_frame (q * 4096) s = Some s1"
    "vmm_map ((b + i) * 4096) (q * 4096) flags s1 = Some s2" "vm_ok s2" "cr3 s2 = cr3 s"
    "fresh_frames s2 qs"
    "vmm_get_phys ((b + i) * 4096) s2 = Some (q * 4096) \<and> can_clear s2 = can_clear s \<and>
       (\<forall>vb. vb div 4194304 < 768 \<longrightarrow> pte s2 vb = (if vb div 4096 = b + i then leaf (q * 4096) flags else pte s vb)) \<and>
       (\<forall>f. f \<notin> table_frames s2 \<longrightarrow> mem s2 f = (if can_clear s \<and> f = q then \<lambda>_. 0 else mem s f)) \<and>
       q \<notin> table_frames s2 \<and> q \<notin> free_frames (vpmm s2) \<and> table_frames s \<subseteq> table_frames s2 \<and>
       table_frames s2 \<union> free_frames (vpmm s2) = table_frames s \<union> free_frames (vpmm s)
     \<or> vmm_get_phys ((b + i) * 4096) s2 = Some 0 \<and> (\<forall>vb. vb div 4194304 < 768 \<longrightarrow> pte s2 vb = pte s vb)"
    by (rule map_zeroed_step [OF Cons.prems(1) i(2) Cons.prems(4) assms(6)])
  have q: "0 < q" "q \<notin> set qs" using Cons.prems(4) by (simp_all add: fresh_frames_def)
  from s(6) show ?case
  proof (elim disjE conjE)
    assume g: "vmm_get_phys ((b + i) * 4096) s2 = Some 0" and
      same: "\<forall>vb. vb div 4194304 < 768 \<longrightarrow> pte s2 vb = pte s vb"
    have "set [0..<n] \<subseteq> {..<n}" by auto
    from unmap_run_effect [OF s(3) assms(3) this] obtain s3 where s3:
      "unmap_run (b * 4096) [0..<n] s2 = Some s3" "vm_ok s3" "cr3 s3 = cr3 s2"
      "\<forall>vb. vb div 4194304 < 1023 \<longrightarrow> pte s3 vb = (if vb div 4096 \<in> (\<lambda>j. b + j) ` set [0..<n] then 0 else pte s2 vb)"
      by blast
    have im: "x \<in> (\<lambda>j. b + j) ` set [0..<n] \<longleftrightarrow> b \<le> x \<and> x < b + n" for x
      by (auto intro: image_eqI [of _ _ "x - b"])
    show ?thesis
      using s s3 q(1) g same by (simp add: w Let_def im [simplified])
  next
    assume g: "vmm_get_phys ((b + i) * 4096) s2 = Some (q * 4096)" and cc: "can_clear s2 = can_clear s"
      and m: "\<forall>vb. vb div 4194304 < 768 \<longrightarrow> pte s2 vb = (if vb div 4096 = b + i then leaf (q * 4096) flags else pte s vb)"
      and d: "\<forall>f. f \<notin> table_frames s2 \<longrightarrow> mem s2 f = (if can_clear s \<and> f = q then \<lambda>_. 0 else mem s f)"
      and t: "q \<notin> table_frames s2" "q \<notin> free_frames (vpmm s2)" "table_frames s \<subseteq> table_frames s2"
        "table_frames s2 \<union> free_frames (vpmm s2) = table_frames s \<union> free_frames (vpmm s)"
    have c2: "can_clear s2 = c" using cc Cons.prems(2) by simp
    from Cons.IH [OF s(3) c2 _ s(5), of "Suc i"] Cons.prems(3) obtain rc s' where r:
      "map_zeroed_loop (b * 4096) n (Suc i) (map (\<lambda>q. q * 4096) qs) flags s2 = Some (rc, s')"
      "vm_ok s'" "cr3 s' = cr3 s2" and
      alt: "(rc = 0 \<and> (\<forall>vb. vb div 4194304 < 768 \<longrightarrow> pte s' vb =
         (if b + Suc i \<le> vb div 4096 \<and> vb div 4096 < b + n
          then leaf (qs ! (vb div 4096 - (b + Suc i)) * 4096) flags else pte s2 vb)) \<and>
       (\<forall>f. f \<notin> table_frames s' \<longrightarrow> mem s' f = (if c \<and> f \<in> set qs then \<lambda>_. 0 else mem s2 f)) \<and>
       set qs \<inter> table_frames s' = {} \<and> table_frames s2 \<subseteq> table_frames s' \<and>
       table_frames s' \<union> free_frames (vpmm s') = table_frames s2 \<union> free_frames (vpmm s2))
     \<or> rc = -1 \<and> (\<forall>vb. vb div 4194304 < 768 \<longrightarrow> pte s' vb =
         (if b \<le> vb div 4096 \<and> vb div 4096 < b + n then 0 else pte s2 vb))" by auto
    have eq: "map_zeroed_loop (b * 4096) n i (map (\<lambda>q. q * 4096) (q # qs)) flags s = Some (rc, s')"
      using s(1,2) g r(1) by (simp add: w Let_def)
    from alt show ?thesis
    proof (elim disjE conjE)
      assume z: "rc = 0" and
        m': "\<forall>vb. vb div 4194304 < 768 \<longrightarrow> pte s' vb =
         (if b + Suc i \<le> vb div 4096 \<and> vb div 4096 < b + n
          then leaf (qs ! (vb div 4096 - (b + Suc i)) * 4096) flags else pte s2 vb)" and
        d': "\<forall>f. f \<notin> table_frames s' \<longrightarrow> mem s' f = (if c \<and> f \<in> set qs then \<lambda>_. 0 else mem s2 f)" and
        t': "set qs \<inter> table_frames s' = {}" "table_frames s2 \<subseteq> table_frames s'"
          "table_frames s' \<union> free_frames (vpmm s') = table_frames s2 \<union> free_frames (vpmm s2)"
      have "pte s' vb = (if b + i \<le> vb div 4096 \<and> vb div 4096 < b + n
          then leaf ((q # qs) ! (vb div 4096 - (b + i)) * 4096) flags else pte s vb)"
        if "vb div 4194304 < 768" for vb
      proof -
        consider "vb div 4096 = b + i" | "b + Suc i \<le> vb div 4096" | "vb div 4096 < b + i" by linarith
        then show ?thesis
        proof cases
          case 2
          then have "vb div 4096 - (b + i) = Suc (vb div 4096 - (b + Suc i))" by simp
          with 2 m m' that show ?thesis by simp
        qed (use m m' that i(1) in auto)
      qed
      moreover have "mem s' f = (if c \<and> f \<in> set (q # qs) then \<lambda>_. 0 else mem s f)" if "f \<notin> table_frames s'" for f
      proof -
        have "f \<notin> table_frames s2" using that t'(2) by blast
        with that d [rule_format, of f] d' [rule_format, of f] Cons.prems(2) show ?thesis by (cases "f = q") simp_all
      qed
      moreover have "q \<notin> table_frames s'" using t t' by blast
      ultimately show ?thesis using eq r(2,3) s(4) z t t' by auto
    next
      assume "rc = -1" "\<forall>vb. vb div 4194304 < 768 \<longrightarrow> pte s' vb =
         (if b \<le> vb div 4096 \<and> vb div 4096 < b + n then 0 else pte s2 vb)"
      with eq r(2,3) s(4) m i(1) show ?thesis by auto
    qed
  qed
qed

section \<open>A new directory\<close>

text \<open>Writing a frame that is no page table.\<close>

definition set_frame :: "nat \<Rightarrow> (nat \<Rightarrow> u32) \<Rightarrow> vm \<Rightarrow> vm" where
  "set_frame f g s = s\<lparr>mem := (mem s)(f := g)\<rparr>"

lemma set_frame_facts:
  assumes "f \<notin> table_frames s"
  shows "pde (set_frame f g s) = pde s" "dir (set_frame f g s) = dir s" "cr3 (set_frame f g s) = cr3 s"
    "vpmm (set_frame f g s) = vpmm s" "table_frames (set_frame f g s) = table_frames s"
    "vm_ok (set_frame f g s) = vm_ok s" "mem (set_frame f g s) f = g"
    "vb div 4194304 < 1023 \<Longrightarrow> pte (set_frame f g s) vb = pte s vb"
proof -
  show d: "dir (set_frame f g s) = dir s" "cr3 (set_frame f g s) = cr3 s" "vpmm (set_frame f g s) = vpmm s"
    "mem (set_frame f g s) f = g"
    by (simp_all add: set_frame_def dir_def)
  have "f \<noteq> dir s" using assms by (auto simp: table_frames_def)
  then show p: "pde (set_frame f g s) = pde s" by (simp add: pde_def set_frame_def dir_def fun_eq_iff)
  show t: "table_frames (set_frame f g s) = table_frames s" by (simp add: table_frames_def p d)
  show "vm_ok (set_frame f g s) = vm_ok s" by (simp add: vm_ok_def p d t)
  show "pte (set_frame f g s) vb = pte s vb" if "vb div 4194304 < 1023"
    using assms that unfolding pte_def p by (auto simp: set_frame_def table_frames_def)
qed

lemma store_frame:
  assumes "va div 4194304 < 1023" "pte s va = leaf (q * 4096) flags" "q < 1048576" "unat flags < 4096"
  shows "store s va i e = Some (set_frame q ((mem s q)(i := e)) s)"
    "zero_page s va = Some (set_frame q (\<lambda>_. 0) s)"
proof -
  have "entry_frame (leaf (q * 4096) flags) = q"
    using pte_frame [of "q * 4096" flags] assms(3,4) by (simp add: leaf_def)
  then show "store s va i e = Some (set_frame q ((mem s q)(i := e)) s)"
    "zero_page s va = Some (set_frame q (\<lambda>_. 0) s)"
    using assms(2) by (simp_all add: store_def zero_page_def walk_pte set_frame_def)
qed

lemma copy_entries_effect:
  assumes "vm_ok s" "va div 4194304 < 1023" "pte s va = leaf (q * 4096) flags" "q < 1048576"
    "unat flags < 4096" "q \<notin> table_frames s"
  shows "copy_entries va is s = Some (set_frame q (\<lambda>i. if i \<in> set is then pde s i else mem s q i) s)"
  using assms
proof (induction "is" arbitrary: s)
  case Nil
  then show ?case by (simp add: set_frame_def)
next
  case (Cons i "is")
  let ?s1 = "set_frame q ((mem s q)(i := pde s i)) s"
  note f = set_frame_facts [OF Cons.prems(6), where g = "(mem s q)(i := pde s i)"]
  have "copy_entries va is ?s1 = Some (set_frame q (\<lambda>i. if i \<in> set is then pde ?s1 i else mem ?s1 q i) ?s1)"
    using Cons.prems f by (intro Cons.IH) simp_all
  moreover have eq: "(\<lambda>j. if j \<in> set is then pde s j else if j = i then pde s i else mem s q j) =
      (\<lambda>j. if j = i \<or> j \<in> set is then pde s j else mem s q j)" by auto
  ultimately show ?case
    using Cons.prems(1) store_frame(1) [OF Cons.prems(2-5)]
    by (simp add: load_dir f(1,7) cong: if_cong) (simp add: set_frame_def eq cong: if_cong)
qed

lemma vpmm_update_facts:
  "dir (s\<lparr>vpmm := pm\<rparr>) = dir s" "pde (s\<lparr>vpmm := pm\<rparr>) = pde s" "table_frames (s\<lparr>vpmm := pm\<rparr>) = table_frames s"
  by (simp_all add: dir_def pde_def [abs_def] table_frames_def)

text \<open>
  The directory is filled through the scratch page. It fails with a page fault when the directory
  took the last frame and the scratch page still has no table.
\<close>

definition dir_room :: "vm \<Rightarrow> bool" where
  "dir_room s \<longleftrightarrow> temp_entry s \<and> free_frames (vpmm s) \<noteq> {} \<or> 2 \<le> card (free_frames (vpmm s))"

lemma vmm_create_page_dir_effect:
  assumes "vm_ok s" "dir_room s"
  shows "\<exists>q s'. vmm_create_page_dir s = Some (q * 4096, s') \<and> 0 < q \<and> q \<in> free_frames (vpmm s) \<and>
    vm_ok s' \<and> cr3 s' = cr3 s \<and> table_frames s \<subseteq> table_frames s' \<and> q \<notin> table_frames s' \<and>
    insert q (table_frames s' \<union> free_frames (vpmm s')) = table_frames s \<union> free_frames (vpmm s) \<and>
    q \<notin> free_frames (vpmm s') \<and>
    (\<forall>i. mem s' q i = (if i = 1023 then of_nat (q * 4096) OR 1 OR PAGE_RW
       else if 768 \<le> i \<and> i < 1023 then pde s' i else 0)) \<and>
    (\<forall>vb. vb div 4194304 < 1023 \<longrightarrow> pte s' vb = (if vb div 4096 = 788480 then 0 else pte s vb)) \<and>
    (\<forall>f. f \<notin> table_frames s' \<longrightarrow> f \<noteq> q \<longrightarrow> mem s' f = mem s f)"
proof -
  have w: "pmm_wf (vpmm s)" "0 \<notin> free_frames (vpmm s)" "bitmap_frames (vpmm s) \<le> 1048576"
    using assms(1) by (simp_all add: vm_ok_def)
  have "free_frames (vpmm s) \<noteq> {}" using assms(2) by (auto simp: dir_room_def)
  with pmm_allocp_cases [OF w(1,2)] obtain q where q: "q \<in> free_frames (vpmm s)" "q \<noteq> 0"
    "pmm_allocp (vpmm s) = (q * 4096, pmm_setp q ((vpmm s)\<lparr>next_free_page := q + 1\<rparr>))" by metis
  define pm where "pm = pmm_setp q ((vpmm s)\<lparr>next_free_page := q + 1\<rparr>)"
  have pm: "pmm_wf pm" "free_frames pm = free_frames (vpmm s) - {q}" "bitmap_frames pm = bitmap_frames (vpmm s)"
    using w(1) by (simp_all add: pm_def free_frames_setp)
  have q20: "q < 1048576" using q(1) w(3) by (simp add: free_frames_def)
  have qt: "q \<notin> table_frames s" using assms(1) q(1) by (auto simp: vm_ok_def)
  let ?s0 = "s\<lparr>vpmm := pm\<rparr>"
  have s0: "vm_ok ?s0" using assms(1) pm unfolding vm_ok_def vpmm_update_facts by auto
  have room: "present (pde ?s0 (PAGE_DIR_TEMP_MAP div 4194304)) \<or> free_frames pm \<noteq> {}"
  proof (cases "temp_entry s")
    case False
    then have "2 \<le> card (free_frames (vpmm s))" using assms(2) by (simp add: dir_room_def)
    then have "free_frames pm \<noteq> {}" using pm(2) q(1) by (metis card_Diff_singleton card.empty diff_is_0_eq not_numeral_le_zero numeral_2_eq_2 Suc_1 One_nat_def diff_le_self le_trans not_less_eq_eq)
    then show ?thesis ..
  qed (simp add: temp_entry_def vpmm_update_facts)
  have lt: "PAGE_DIR_TEMP_MAP div 4194304 < 1023" by simp
  obtain s1 where s1: "vmm_map PAGE_DIR_TEMP_MAP (q * 4096) PAGE_RW ?s0 = Some s1"
    "set_effect PAGE_DIR_TEMP_MAP (leaf (q * 4096) PAGE_RW) ?s0 s1"
    using room by (cases rule: vmm_map_effect [OF s0 lt, of "q * 4096" PAGE_RW]) auto
  note e1 = set_effectD [OF s1(2), unfolded vpmm_update_facts, simplified]
  have rw: "unat PAGE_RW < 4096" by (simp add: PAGE_RW_def)
  have pt1: "pte s1 PAGE_DIR_TEMP_MAP = leaf (q * 4096) PAGE_RW" by (simp add: e1(6))
  have q1: "q \<notin> table_frames s1" "q \<notin> free_frames (vpmm s1)" using e1(9) pm(2) qt by auto
  let ?s2 = "set_frame q (\<lambda>_. 0) s1"
  note f2 = set_frame_facts [OF q1(1), where g = "\<lambda>_. 0"]
  define g where "g = (\<lambda>i. if KERNEL_PDE_START \<le> i \<and> i < RECURSIVE_PDE_INDEX then pde s1 i else 0)"
  have c: "copy_entries PAGE_DIR_TEMP_MAP [KERNEL_PDE_START..<RECURSIVE_PDE_INDEX] ?s2 = Some (set_frame q g ?s2)"
    unfolding g_def using copy_entries_effect [of ?s2 PAGE_DIR_TEMP_MAP q PAGE_RW] e1(1) f2 pt1 q20 rw q1
    by (simp cong: if_cong)
  let ?s3 = "set_frame q g ?s2"
  have q2: "q \<notin> table_frames ?s2" using q1 f2(5) by simp
  note f3 = set_frame_facts [OF q2, where g = g]
  define g' where "g' = g(1023 := of_nat (q * 4096) OR 1 OR PAGE_RW)"
  let ?s4 = "set_frame q g' ?s3"
  have q3: "q \<notin> table_frames ?s3" using q2 f3(5) by simp
  note f4 = set_frame_facts [OF q3, where g = g']
  have pt3: "pte ?s3 PAGE_DIR_TEMP_MAP = leaf (q * 4096) PAGE_RW" using pt1 f2(8) f3(8) by simp
  have st: "store ?s3 PAGE_DIR_TEMP_MAP RECURSIVE_PDE_INDEX (of_nat (q * 4096) OR 1 OR PAGE_RW) = Some ?s4"
    using store_frame(1) [OF _ pt3 q20 rw, of RECURSIVE_PDE_INDEX "of_nat (q * 4096) OR 1 OR PAGE_RW"]
    by (simp add: f3(7) g'_def RECURSIVE_PDE_INDEX_def del: of_nat_mult)
  have ok4: "vm_ok ?s4" using e1(1) f2(6) f3(6) f4(6) by simp
  from vmm_unmap_effect [OF ok4, of PAGE_DIR_TEMP_MAP] obtain s5 where s5:
    "vmm_unmap PAGE_DIR_TEMP_MAP ?s4 = Some s5" "vpmm s5 = vpmm ?s4" "table_frames s5 = table_frames ?s4"
    "set_effect PAGE_DIR_TEMP_MAP 0 ?s4 s5" "pde s5 = pde ?s4" by auto
  note e5 = set_effectD [OF s5(4)]
  have run: "vmm_create_page_dir s = Some (q * 4096, s5)"
    using s1(1) c st s5(1) q(2) store_frame(2) [OF _ pt1 q20 rw]
    by (simp add: vmm_create_page_dir_def q(3) pm_def [symmetric] Let_def del: of_nat_mult)
      (simp add: q(3) [simplified] pm_def [simplified, symmetric])
  have t5: "table_frames s5 = table_frames s1" "pde s5 = pde s1" "vpmm s5 = vpmm s1" "cr3 s5 = cr3 s"
    using s5(2,3,5) f2 f3 f4 e1(2) e5(2) by simp_all
  have mem5: "mem s5 f = (if f = q then g' else mem s1 f)" if "f \<notin> table_frames s1" for f
    using that e5(7) [of f] t5 by (simp add: set_frame_def)
  have "\<forall>i. mem s5 q i = (if i = 1023 then of_nat (q * 4096) OR 1 OR PAGE_RW
       else if 768 \<le> i \<and> i < 1023 then pde s5 i else 0)"
    using mem5 [OF q1(1)] by (simp add: t5(2) g'_def g_def KERNEL_PDE_START_def RECURSIVE_PDE_INDEX_def del: of_nat_mult)
  moreover have "\<forall>vb. vb div 4194304 < 1023 \<longrightarrow> pte s5 vb = (if vb div 4096 = 788480 then 0 else pte s vb)"
    using e5(6) f4(8) f3(8) f2(8) e1(6) by (simp add: pte_pmm)
  moreover have "\<forall>f. f \<notin> table_frames s5 \<longrightarrow> f \<noteq> q \<longrightarrow> mem s5 f = mem s f"
    using mem5 e1(7) t5(1) by simp
  moreover have "insert q (table_frames s5 \<union> free_frames (vpmm s5)) = table_frames s \<union> free_frames (vpmm s)"
    using e1(9) pm(2) q(1) t5 by auto
  ultimately show ?thesis
    using run q(1,2) e5(1) t5 e1(4) q1 by (intro exI [of _ q] exI [of _ s5]) simp
qed

section \<open>A concrete address space\<close>

text \<open>A directory in frame 1024 with all page tables present, in which exactly the pages of
  \<open>used\<close> are mapped, all of them to frame 1500.\<close>

definition demo_vm :: "(nat \<Rightarrow> bool) \<Rightarrow> vm" where
  "demo_vm used =
    \<lparr>vpmm = \<lparr>bitmap = [], bitmap_frames = 0, next_free_page = 0, rejected_ops = 0\<rparr>,
     mem = \<lambda>f i. if f = 1024 then of_nat ((i + 1) * 4096) OR 1
       else if f \<noteq> 0 \<and> used ((f - 1) * 1024 + i) then 6144001 else 0,
     cr3 = 4194304\<rparr>"

lemma demo_pde: "pde (demo_vm used) i = of_nat ((i + 1) * 4096) OR 1" "dir (demo_vm used) = 1024"
  by (simp_all add: pde_def demo_vm_def dir_def)

lemma demo_frame: "i < 1024 \<Longrightarrow> entry_frame (pde (demo_vm used) i) = i + 1 \<and> present (pde (demo_vm used) i)"
  unfolding demo_pde(1) using entry_frame_addr [of "(i + 1) * 4096"]
  by (simp add: entry_frame_or entry_frame_small del: of_nat_mult of_nat_add of_nat_Suc)

lemma demo_ok: "vm_ok (demo_vm used)"
proof -
  have "free_frames (vpmm (demo_vm used)) = {}" "pmm_wf (vpmm (demo_vm used))"
    "bitmap_frames (vpmm (demo_vm used)) = 0"
    by (simp_all add: demo_vm_def free_frames_def pmm_wf_def pmm_bitmap_bytes_def)
  then show ?thesis
    using demo_frame [of 1023 used] demo_frame [of _ used]
    by (auto simp: vm_ok_def demo_pde(2) inj_on_def)
qed

lemma demo_mapped: "page < 1047552 \<Longrightarrow> mapped (demo_vm used) page = used page"
proof -
  assume p: "page < 1047552"
  then have i: "page * 4096 div 4194304 = page div 1024" "page div 1024 < 1023"
    unfolding big_page by (simp_all add: less_mult_imp_div_less)
  from demo_frame [of "page div 1024" used] i have "mapped (demo_vm used) page =
      present (mem (demo_vm used) (page div 1024 + 1) (page mod 1024))"
    by (simp add: mapped_def pte_def)
  then show ?thesis using i(2) by (simp add: demo_vm_def present_def)
qed

section \<open>Properties\<close>

text \<open>C10: Mapping a page. In a consistent address space \<open>vmm_map\<close> never faults and keeps the space
  consistent. Unless a page table was needed and no frame was free, the page then translates to the
  given frame and every other page below the recursive window translates as before; in the
  exceptional case nothing changes, and \<open>vmm_unmap\<close> removes exactly the one translation.\<close>

theorem vmm_map_correct:
  assumes "vm_ok s" "va < 4290772992" "phys < 4294967296" "phys mod 4096 = 0" "unat flags < 4096"
  shows "\<exists>s'. vmm_map va phys flags s = Some s' \<and> vm_ok s' \<and>
    (if \<not> present (pde s (va div 4194304)) \<and> free_frames (vpmm s) = {}
     then \<forall>vb < 4290772992. vmm_get_phys vb s' = vmm_get_phys vb s
     else vmm_get_phys va s' = Some phys \<and>
       (\<forall>vb < 4290772992. vb div 4096 \<noteq> va div 4096 \<longrightarrow> vmm_get_phys vb s' = vmm_get_phys vb s)) \<and>
    (\<exists>s''. vmm_unmap va s' = Some s'' \<and> vm_ok s'' \<and> vmm_get_phys va s'' = Some 0 \<and>
       (\<forall>vb < 4290772992. vb div 4096 \<noteq> va div 4096 \<longrightarrow> vmm_get_phys vb s'' = vmm_get_phys vb s'))"
proof -
  have lt: "vb div 4194304 < 1023" if "vb < 4290772992" for vb :: nat
    using that by (simp add: less_mult_imp_div_less)
  note gp = vmm_get_phys_pte [OF _ lt]
  have un: "\<exists>s''. vmm_unmap va s' = Some s'' \<and> vm_ok s'' \<and> vmm_get_phys va s'' = Some 0 \<and>
       (\<forall>vb < 4290772992. vb div 4096 \<noteq> va div 4096 \<longrightarrow> vmm_get_phys vb s'' = vmm_get_phys vb s')"
    if "vm_ok s'" for s'
  proof -
    from vmm_unmap_effect [OF that lt [OF assms(2)]] obtain s'' where
      s'': "vmm_unmap va s' = Some s''" "set_effect va 0 s' s''" by blast
    note e = set_effectD [OF s''(2)]
    show ?thesis using s''(1) e(1) by (auto simp: gp that assms(2) e(6) lt)
  qed
  show ?thesis
  proof (cases rule: vmm_map_effect [OF assms(1) lt [OF assms(2)], of phys flags])
    case (1 s')
    have "vm_ok s'" unfolding 1(4) using assms(1) by (simp add: vm_ok_cursor)
    then show ?thesis using 1 un [of s'] assms(1) by (simp add: gp) (simp add: pte_pmm)
  next
    case (2 s')
    note e = set_effectD [OF 2(2)]
    have "entry_frame (leaf phys flags) * 4096 = phys"
      using pte_frame [OF assms(3,5)] assms(4) by (simp add: leaf_def) (metis add.right_neutral div_mult_mod_eq)
    moreover have "free_frames (vpmm s) \<noteq> {} \<or> present (pde s (va div 4194304))"
    proof (rule ccontr)
      assume no: "\<not> ?thesis"
      have w: "pmm_wf (vpmm s)" "0 \<notin> free_frames (vpmm s)" using assms(1) by (simp_all add: vm_ok_def)
      have "pmm_allocp (vpmm s) = (0, (vpmm s)\<lparr>next_free_page := 0\<rparr>)"
        using no by (cases rule: pmm_allocp_cases [OF w]) auto
      with no 2(1) have "s' = s\<lparr>vpmm := (vpmm s)\<lparr>next_free_page := 0\<rparr>\<rparr>"
        by (simp add: vmm_map_def load_dir [OF assms(1)])
      with e(6) [OF lt [OF assms(2)]] no show False by (simp add: pte_pmm) (simp add: pte_def leaf_def present_def bit_or_iff; metis present_0 present_1 present_def present_or)
    qed
    ultimately show ?thesis using 2(1) e(1) un [of s'] assms(1,2) by (auto simp: gp e(6) lt)
  qed
qed

theorem vmm_map_correct_witness:
  "\<exists>s'. vmm_map 134512640 8192 6 (demo_vm (\<lambda>_. False)) = Some s' \<and> vmm_get_phys 134512640 s' = Some 8192"
proof -
  have "present (pde (demo_vm (\<lambda>_. False)) (134512640 div 4194304))"
    using demo_frame [of 32 "\<lambda>_. False"] by simp
  with vmm_map_correct [OF demo_ok, of 134512640 8192 6 "\<lambda>_. False"] show ?thesis by auto
qed



text \<open>The exception occurs: with no frame free and no table for the scratch page, a page whose own
  table exists is installed with the old contents of its frame, and the result is 0.\<close>

theorem vmm_map_zeroed_uncleared:
  assumes "vm_ok s" "\<not> temp_entry s" "free_frames (vpmm s) = {}" "b < 786432"
    "present (pde s (b * 4096 div 4194304))" "fresh_frames s [q]" "unat flags < 4096"
  shows "\<exists>s'. vmm_map_zeroed_run (b * 4096) [q * 4096] flags s = Some (0, s') \<and>
    vmm_get_phys (b * 4096) s' = Some (q * 4096) \<and> mem s' q = mem s q"
proof -
  have q: "0 < q" "q < 1048576" "q \<notin> table_frames s" "q \<notin> free_frames (vpmm s)"
    using assms(6) by (simp_all add: fresh_frames_def)
  have nc: "\<not> can_clear s" using assms(2,3) by (simp add: can_clear_def)
  have lt: "b * 4096 div 4194304 < 1023" by (rule page_pde [OF assms(4)])
  from vmm_zero_frame_effect [OF assms(1) q] nc lt assms(3,5) obtain s1 where s1:
    "vmm_zero_frame (q * 4096) s = Some s1" "vm_ok s1" "present (pde s1 (b * 4096 div 4194304))"
    "table_frames s1 = table_frames s" "\<And>f. f \<notin> table_frames s1 \<Longrightarrow> mem s1 f = mem s f" by auto
  from vmm_map_present [OF s1(2) lt s1(3), of "q * 4096" flags] obtain s2 where s2:
    "vmm_map (b * 4096) (q * 4096) flags s1 = Some s2" "set_effect (b * 4096) (leaf (q * 4096) flags) s1 s2"
    "table_frames s2 = table_frames s1" by blast
  note e = set_effectD [OF s2(2)]
  have "entry_frame (leaf (q * 4096) flags) = q"
    using pte_frame [of "q * 4096" flags] q(2) assms(7) by (simp add: leaf_def)
  then have g: "vmm_get_phys (b * 4096) s2 = Some (q * 4096)"
    using e(6) [OF lt] by (simp add: vmm_get_phys_pte [OF e(1) lt])
  have w: "wrap32 (b * 4096) = b * 4096" using assms(4) by (simp add: wrap32_def)
  have "mem s2 q = mem s q" using e(7) [of q] s1(4,5) s2(3) q(3) by simp
  then show ?thesis
    using s1(1) s2(1) g by (simp add: vmm_map_zeroed_run_def w Let_def)
qed

text \<open>C12: The search for free pages. \<open>vmm_find_free_run\<close> answers with the page-aligned start of
  \<open>count\<close> unmapped pages inside user space, or with 0; after a 0 the only runs of that length still
  in user space are those that straddle the hint.\<close>

theorem vmm_find_free_run_correct:
  assumes "vm_ok s" "0 < count"
  shows "\<exists>a. vmm_find_free_run hint count s = Some a \<and>
    (if a \<noteq> 0 then \<exists>r. a = r * 4096 \<and> 32840 \<le> r \<and> r + count \<le> 786432 \<and> free_run (mapped s) r count
     else \<forall>r. 32840 \<le> r \<and> r + count \<le> 786432 \<and> free_run (mapped s) r count \<longrightarrow>
       r < hint div 4096 \<and> hint div 4096 < r + count)"
proof -
  define b where "b = (if hint \<noteq> 0 \<and> USER_SPACE_BASE \<le> hint \<and> hint < USER_SPACE_END then hint div 4096 else 32840)"
  have b: "32840 \<le> b" "b \<le> 786432" "b \<noteq> 32840 \<Longrightarrow> b = hint div 4096"
    by (auto simp: b_def USER_SPACE_BASE_def USER_SPACE_END_def div_le_mono [of 134512640 _ 4096, simplified]
        intro: less_imp_le simp: less_mult_imp_div_less)
  have bg: "(if hint \<noteq> 0 \<and> USER_SPACE_BASE \<le> hint \<and> hint < USER_SPACE_END
      then hint div 4096 * 4096 else USER_SPACE_BASE) = b * 4096" "USER_SPACE_END = 786432 * 4096"
      "b * 4096 = USER_SPACE_BASE \<longleftrightarrow> b = 32840" "USER_SPACE_BASE = 32840 * 4096"
    by (auto simp: b_def USER_SPACE_BASE_def USER_SPACE_END_def)
  have b0: "0 < b" using b(1) by simp
  from scan_free_cases [OF assms(1) order.refl assms(2) b0, folded bg(2)]
  obtain a1 where a1: "vmm_scan_free (b * 4096) USER_SPACE_END count s = Some a1"
    "a1 = 0 \<longrightarrow> (\<forall>r. b \<le> r \<and> r + count \<le> 786432 \<longrightarrow> \<not> free_run (mapped s) r count)"
    "a1 \<noteq> 0 \<longrightarrow> (\<exists>r. a1 = r * 4096 \<and> b \<le> r \<and> r + count \<le> 786432 \<and> free_run (mapped s) r count)"
    by (elim exE conjE) (rule that)
  have "0 < (32840::nat)" by simp
  from scan_free_cases [OF assms(1) b(2) assms(2) this, folded bg(4)]
  obtain a2 where a2: "vmm_scan_free USER_SPACE_BASE (b * 4096) count s = Some a2"
    "a2 = 0 \<longrightarrow> (\<forall>r. 32840 \<le> r \<and> r + count \<le> b \<longrightarrow> \<not> free_run (mapped s) r count)"
    "a2 \<noteq> 0 \<longrightarrow> (\<exists>r. a2 = r * 4096 \<and> 32840 \<le> r \<and> r + count \<le> b \<and> free_run (mapped s) r count)"
    by (elim exE conjE) (rule that)
  have f: "vmm_find_free_run hint count s = Some (if a1 \<noteq> 0 \<or> b = 32840 then a1 else a2)"
    using assms(2) a1(1) a2(1) unfolding vmm_find_free_run_def Let_def bg(1) by (simp add: bg(3))
  show ?thesis
  proof (cases "a1 \<noteq> 0 \<or> b = 32840")
    case True
    show ?thesis
    proof (cases "a1 = 0")
      case True
      with f a1(2) \<open>a1 \<noteq> 0 \<or> b = 32840\<close> show ?thesis by auto
    next
      case False
      with a1(3) f b(1) show ?thesis by (auto dest: order.trans)
    qed
  next
    case False
    then have n1: "\<forall>r. b \<le> r \<and> r + count \<le> 786432 \<longrightarrow> \<not> free_run (mapped s) r count"
      and bh: "b = hint div 4096" and f': "vmm_find_free_run hint count s = Some a2"
      using a1(2) b(3) f by auto
    show ?thesis
    proof (cases "a2 = 0")
      case True
      have "r < hint div 4096 \<and> hint div 4096 < r + count"
        if "32840 \<le> r \<and> r + count \<le> 786432 \<and> free_run (mapped s) r count" for r
        using that n1 mp [OF a2(2) True] unfolding bh by (meson not_le)
      with True f' show ?thesis by simp
    next
      case False
      with a2(3) f' b(2) show ?thesis by (auto dest: order.trans)
    qed
  qed
qed

theorem vmm_find_free_run_correct_witness:
  "\<exists>a. vmm_find_free_run 0 2 (demo_vm (\<lambda>p. p \<noteq> 40000 \<and> p \<noteq> 40001)) = Some a \<and> a \<noteq> 0"
proof -
  let ?s = "demo_vm (\<lambda>p. p \<noteq> 40000 \<and> p \<noteq> 40001)"
  have "free_run (mapped ?s) 40000 2"
    by (auto simp: free_run_def demo_mapped)
  from vmm_find_free_run_correct [OF demo_ok [of "\<lambda>p. p \<noteq> 40000 \<and> p \<noteq> 40001"], of 2 0]
  obtain a where a: "vmm_find_free_run 0 2 ?s = Some a"
    "if a \<noteq> 0 then \<exists>r. a = r * 4096 \<and> 32840 \<le> r \<and> r + 2 \<le> 786432 \<and> free_run (mapped ?s) r 2
     else \<forall>r. 32840 \<le> r \<and> r + 2 \<le> 786432 \<and> free_run (mapped ?s) r 2 \<longrightarrow> r < 0 div 4096 \<and> 0 div 4096 < r + 2"
    by (elim exE conjE meta_impE) (simp, rule that)
  have "a \<noteq> 0"
  proof
    assume "a = 0"
    with a(2) have "free_run (mapped ?s) 40000 2 \<longrightarrow> 40000 < 0 div (4096::nat)" by simp
    with \<open>free_run (mapped ?s) 40000 2\<close> show False by simp
  qed
  with a(1) show ?thesis by blast
qed

text \<open>The hint can make a satisfiable request fail. When the only unmapped pages of user space are
  one run of \<open>count\<close> pages and the hint points into that run past its first page, the search
  returns 0, although without the hint it returns the run.\<close>

theorem vmm_find_free_run_straddle:
  assumes "vm_ok s" "32840 \<le> r" "r + count \<le> 786432" "r < h" "h < r + count"
    "\<forall>p. 32840 \<le> p \<and> p < 786432 \<longrightarrow> (mapped s p \<longleftrightarrow> \<not> (r \<le> p \<and> p < r + count))"
  shows "vmm_find_free_run (h * 4096) count s = Some 0 \<and> vmm_find_free_run 0 count s = Some (r * 4096)"
proof -
  have c: "0 < count" using assms(4,5) by simp
  have only: "t = r" if "32840 \<le> t" "t + count \<le> 786432" "free_run (mapped s) t count" for t
  proof -
    define u where "u = t + count - 1"
    have "\<not> mapped s t" "\<not> mapped s u" using that(3) c by (auto simp: free_run_def u_def)
    moreover have "32840 \<le> u" "u < 786432" using that(1,2) c by (simp_all add: u_def)
    ultimately have "r \<le> t" "u < r + count"
      using assms(6) that(1,2) c by (auto dest: spec [of _ t] spec [of _ u])
    with c show ?thesis by (simp add: u_def)
  qed
  have fr: "free_run (mapped s) r count" using assms(2,3,6) by (auto simp: free_run_def)
  have b0: "0 < (32840::nat)" by simp
  from scan_free_cases [OF assms(1) order.refl c b0] obtain a where
    a: "vmm_scan_free (32840 * 4096) (786432 * 4096) count s = Some a"
    "a = 0 \<longrightarrow> (\<forall>r. 32840 \<le> r \<and> r + count \<le> 786432 \<longrightarrow> \<not> free_run (mapped s) r count)"
    "a \<noteq> 0 \<longrightarrow> (\<exists>r. a = r * 4096 \<and> 32840 \<le> r \<and> r + count \<le> 786432 \<and> free_run (mapped s) r count)"
    by (elim exE conjE) (rule that)
  then have "a = r * 4096" using only fr assms(2,3) by metis
  with a(1) c have z: "vmm_find_free_run 0 count s = Some (r * 4096)"
    by (simp add: vmm_find_free_run_def USER_SPACE_BASE_def USER_SPACE_END_def)
  have h: "32840 \<le> h" "h < 786432" "h \<noteq> 32840" using assms by simp_all
  have b: "(if h * 4096 \<noteq> 0 \<and> USER_SPACE_BASE \<le> h * 4096 \<and> h * 4096 < USER_SPACE_END
      then h * 4096 div 4096 * 4096 else USER_SPACE_BASE) = h * 4096"
    "USER_SPACE_END = 786432 * 4096" "USER_SPACE_BASE = 32840 * 4096"
    using h by (simp_all add: USER_SPACE_BASE_def USER_SPACE_END_def)
  have h0: "0 < h" "0 < (32840::nat)" using h by simp_all
  have s1: "vmm_scan_free (h * 4096) USER_SPACE_END count s = Some 0"
  proof -
    from scan_free_cases [OF assms(1) order.refl c h0(1)] obtain a where
      a: "vmm_scan_free (h * 4096) (786432 * 4096) count s = Some a"
      "a \<noteq> 0 \<longrightarrow> (\<exists>r. a = r * 4096 \<and> h \<le> r \<and> r + count \<le> 786432 \<and> free_run (mapped s) r count)"
      by (elim exE conjE) (rule that)
    moreover have "t = r" if "h \<le> t" "t + count \<le> 786432" "free_run (mapped s) t count" for t
      using only that h(1) by (meson order.trans)
    ultimately have "a = 0" using assms(4) by (metis not_le)
    with a(1) show ?thesis unfolding b(2) by simp
  qed
  have s2: "vmm_scan_free USER_SPACE_BASE (h * 4096) count s = Some 0"
  proof -
    from scan_free_cases [OF assms(1) less_imp_le [OF h(2)] c h0(2)] obtain a where
      a: "vmm_scan_free (32840 * 4096) (h * 4096) count s = Some a"
      "a \<noteq> 0 \<longrightarrow> (\<exists>r. a = r * 4096 \<and> 32840 \<le> r \<and> r + count \<le> h \<and> free_run (mapped s) r count)"
      by (elim exE conjE) (rule that)
    moreover have "t = r" if "32840 \<le> t" "t + count \<le> h" "free_run (mapped s) t count" for t
      using only that h(2) by (meson order.trans less_imp_le)
    ultimately have "a = 0" using assms(5) by (metis not_le)
    with a(1) show ?thesis unfolding b(3) by simp
  qed
  show ?thesis using z c s1 s2 unfolding vmm_find_free_run_def Let_def b(1) by simp
qed

theorem vmm_find_free_run_straddle_witness:
  "vmm_find_free_run (40001 * 4096) 2 (demo_vm (\<lambda>p. p \<noteq> 40000 \<and> p \<noteq> 40001)) = Some 0"
proof -
  have "\<forall>p. 32840 \<le> p \<and> p < 786432 \<longrightarrow>
      (mapped (demo_vm (\<lambda>p. p \<noteq> 40000 \<and> p \<noteq> 40001)) p \<longleftrightarrow> \<not> (40000 \<le> p \<and> p < 40000 + 2))"
    by (auto simp: demo_mapped)
  from vmm_find_free_run_straddle [OF demo_ok _ _ _ _ this, of 40001] show ?thesis by simp
qed

text \<open>Creating an address space under memory pressure faults. When the scratch page's table is
  missing and the new directory takes the last free frame, \<open>vmm_map\<close> silently does nothing and the
  \<open>memset\<close> that follows hits an unmapped address: the model's \<open>None\<close>.\<close>

lemma vmm_create_page_dir_fault:
  assumes "vm_ok s" "\<not> temp_entry s" "free_frames (vpmm s) = {q}"
  shows "vmm_create_page_dir s = None"
proof -
  have w: "pmm_wf (vpmm s)" "0 \<notin> free_frames (vpmm s)" using assms(1) by (simp_all add: vm_ok_def)
  obtain pm where pm: "pmm_allocp (vpmm s) = (q * 4096, pm)" "pmm_wf pm" "free_frames pm = {}" "q \<noteq> 0"
    "bitmap_frames pm = bitmap_frames (vpmm s)"
    using assms(3) w by (cases rule: pmm_allocp_cases [OF w]) (auto simp: free_frames_setp)
  let ?s0 = "s\<lparr>vpmm := pm\<rparr>"
  have s0: "vm_ok ?s0" using assms(1) pm unfolding vm_ok_def vpmm_update_facts by auto
  have np: "\<not> present (pde ?s0 770)" using assms(2) by (simp add: temp_entry_def vpmm_update_facts)
  have w0: "pmm_wf pm" "0 \<notin> free_frames pm" using pm by simp_all
  have "pmm_allocp pm = (0, pm\<lparr>next_free_page := 0\<rparr>)"
    using pm(3) by (cases rule: pmm_allocp_cases [OF w0]) auto
  then have m: "vmm_map PAGE_DIR_TEMP_MAP (q * 4096) PAGE_RW ?s0 =
      Some (?s0\<lparr>vpmm := pm\<lparr>next_free_page := 0\<rparr>\<rparr>)"
    using np by (simp add: vmm_map_def load_dir [OF s0])
  have "pte ?s0 PAGE_DIR_TEMP_MAP = 0" using np by (simp add: pte_def)
  then have "zero_page (?s0\<lparr>vpmm := pm\<lparr>next_free_page := 0\<rparr>\<rparr>) PAGE_DIR_TEMP_MAP = None"
    by (simp add: zero_page_def walk_pte pte_pmm)
  with m pm(1,4) show ?thesis by (simp add: vmm_create_page_dir_def Let_def)
qed

lemma vmm_create_page_dir_no_frame:
  assumes "vm_ok s" "free_frames (vpmm s) = {}"
  shows "vmm_create_page_dir s = Some (0, s\<lparr>vpmm := (vpmm s)\<lparr>next_free_page := 0\<rparr>\<rparr>)"
proof -
  have w: "pmm_wf (vpmm s)" "0 \<notin> free_frames (vpmm s)" using assms by (simp_all add: vm_ok_def)
  have "pmm_allocp (vpmm s) = (0, (vpmm s)\<lparr>next_free_page := 0\<rparr>)"
    using assms(2) by (cases rule: pmm_allocp_cases [OF w]) auto
  then show ?thesis by (simp add: vmm_create_page_dir_def)
qed

text \<open>The new directory loaded into \<open>cr3\<close>.\<close>

lemma new_space:
  assumes "vm_ok s" "dir_room s"
  shows "\<exists>q s'. vmm_create_page_dir s = Some (q * 4096, s') \<and> 0 < q \<and> q \<in> free_frames (vpmm s) \<and>
    vm_ok s' \<and> cr3 s' = cr3 s \<and> free_frames (vpmm s') = free_frames (vpmm s) - insert q (table_frames s') \<and>
    (\<forall>va < 4290772992. vmm_get_phys va s' =
       (if va div 4096 = PAGE_DIR_TEMP_MAP div 4096 then Some 0 else vmm_get_phys va s)) \<and>
    vm_ok (s'\<lparr>cr3 := q * 4096\<rparr>) \<and>
    (\<forall>va < 4290772992. vmm_get_phys va (s'\<lparr>cr3 := q * 4096\<rparr>) =
       (if va < 3221225472 then Some 0 else vmm_get_phys va s'))"
proof -
  from vmm_create_page_dir_effect [OF assms] obtain q s' where
    c: "vmm_create_page_dir s = Some (q * 4096, s')" "0 < q" "q \<in> free_frames (vpmm s)" "vm_ok s'"
      "cr3 s' = cr3 s" and
    t: "table_frames s \<subseteq> table_frames s'" "q \<notin> table_frames s'"
      "insert q (table_frames s' \<union> free_frames (vpmm s')) = table_frames s \<union> free_frames (vpmm s)"
      "q \<notin> free_frames (vpmm s')" and
    m: "\<forall>i. mem s' q i = (if i = 1023 then of_nat (q * 4096) OR 1 OR PAGE_RW
       else if 768 \<le> i \<and> i < 1023 then pde s' i else 0)" and
    p: "\<forall>vb. vb div 4194304 < 1023 \<longrightarrow> pte s' vb = (if vb div 4096 = 788480 then 0 else pte s vb)"
    by (elim exE conjE) (rule that)
  have fr: "free_frames (vpmm s') = free_frames (vpmm s) - insert q (table_frames s')"
    using t c(4) assms(1) unfolding vm_ok_def by blast
  define n where "n = s'\<lparr>cr3 := q * 4096\<rparr>"
  have "bitmap_frames (vpmm s) \<le> 1048576" using assms(1) by (simp add: vm_ok_def)
  then have q20: "q < 1048576" using c(3) by (simp add: free_frames_def)
  have d: "dir n = q" "vpmm n = vpmm s'" "mem n = mem s'" "cr3 n = q * 4096" by (simp_all add: n_def dir_def)
  have pd: "pde n i = (if i = 1023 then of_nat (q * 4096) OR 1 OR PAGE_RW
       else if 768 \<le> i \<and> i < 1023 then pde s' i else 0)" for i
    using m unfolding pde_def [of n] d by simp
  have self: "entry_frame (pde n 1023) = q" "present (pde n 1023)"
    using pde_frame2 [of "q * 4096"] q20 by (simp_all add: pd del: of_nat_mult)
  have tf: "table_frames n \<subseteq> insert q (table_frames s')"
    by (auto simp: table_frames_def d pd split: if_splits)
  have okn: "vm_ok n"
    unfolding vm_ok_def
  proof (intro conjI)
    show "\<forall>i < 1023. present (pde n i) \<longrightarrow> entry_frame (pde n i) \<noteq> dir n"
      using t(2) by (auto simp: pd d table_frames_def split: if_splits)
    show "inj_on (\<lambda>i. entry_frame (pde n i)) {i. i < 1023 \<and> present (pde n i)}"
      by (rule inj_onI) (use pde_inj [OF c(4)] in \<open>auto simp: pd split: if_splits\<close>)
    show "table_frames n \<inter> free_frames (vpmm n) = {}"
      using tf c(4) t(4) unfolding vm_ok_def d by blast
  qed (use c(4) self in \<open>simp_all add: vm_ok_def d\<close>)
  have lt: "va div 4194304 < 1023" if "va < 4290772992" for va :: nat
    using that by (simp add: less_mult_imp_div_less)
  have old: "vmm_get_phys va s' = (if va div 4096 = PAGE_DIR_TEMP_MAP div 4096 then Some 0 else vmm_get_phys va s)"
    if "va < 4290772992" for va
    using p lt [OF that] vmm_get_phys_pte [OF c(4) lt [OF that]] vmm_get_phys_pte [OF assms(1) lt [OF that]] by simp
  have new: "vmm_get_phys va n = (if va < 3221225472 then Some 0 else vmm_get_phys va s')"
    if va: "va < 4290772992" for va
  proof (cases "va < 3221225472")
    case True
    then have "va div 4194304 < 768" by (simp add: less_mult_imp_div_less)
    then have "pte n va = 0" by (simp add: pte_def pd)
    then show ?thesis using vmm_get_phys_pte [OF okn lt [OF va]] True by simp
  next
    case False
    then have "768 \<le> va div 4194304" using div_le_mono [of 3221225472 va 4194304] by simp
    then have "pte n va = pte s' va" using lt [OF va] by (simp add: pte_def pd d)
    then show ?thesis using False vmm_get_phys_pte [OF okn lt [OF va]] vmm_get_phys_pte [OF c(4) lt [OF va]] by simp
  qed
  show ?thesis using c fr okn old new unfolding n_def by (intro exI [of _ q] exI [of _ s']) simp
qed

text \<open>C13: A new address space shares the kernel and nothing else. With a frame free for it, and one
  more where the scratch page still needs its table, \<open>vmm_create_page_dir\<close> takes the frame (and
  the table), leaves the scratch page unmapped and every other translation of the running space as
  it was; loaded into \<open>cr3\<close> the new directory is a consistent space in which no user page is mapped
  and every kernel page translates as in the space that created it. With no frame free it returns
  0 and no translation changes; with one frame free and no table for the scratch page it faults.\<close>

theorem vmm_create_page_dir_correct:
  assumes "vm_ok s"
  shows "if free_frames (vpmm s) = {}
    then \<exists>s'. vmm_create_page_dir s = Some (0, s') \<and> vm_ok s' \<and>
      (\<forall>va < 4290772992. vmm_get_phys va s' = vmm_get_phys va s)
    else if \<not> temp_entry s \<and> card (free_frames (vpmm s)) = 1 then vmm_create_page_dir s = None
    else \<exists>q s'. vmm_create_page_dir s = Some (q * 4096, s') \<and> 0 < q \<and> q \<in> free_frames (vpmm s) \<and>
      vm_ok s' \<and> cr3 s' = cr3 s \<and> free_frames (vpmm s') = free_frames (vpmm s) - insert q (table_frames s') \<and>
      (\<forall>va < 4290772992. vmm_get_phys va s' =
         (if va div 4096 = PAGE_DIR_TEMP_MAP div 4096 then Some 0 else vmm_get_phys va s)) \<and>
      vm_ok (s'\<lparr>cr3 := q * 4096\<rparr>) \<and>
      (\<forall>va < 4290772992. vmm_get_phys va (s'\<lparr>cr3 := q * 4096\<rparr>) =
         (if va < 3221225472 then Some 0 else vmm_get_phys va s'))"
proof (cases "free_frames (vpmm s) = {}")
  case True
  let ?s' = "s\<lparr>vpmm := (vpmm s)\<lparr>next_free_page := 0\<rparr>\<rparr>"
  have ok: "vm_ok ?s'" using assms vm_ok_cursor by blast
  have "vmm_get_phys va ?s' = vmm_get_phys va s" if "va < 4290772992" for va
  proof -
    have "va div 4194304 < 1023" using that by (simp add: less_mult_imp_div_less)
    then show ?thesis by (simp add: vmm_get_phys_pte [OF ok] vmm_get_phys_pte [OF assms] pte_pmm)
  qed
  then show ?thesis using True ok vmm_create_page_dir_no_frame [OF assms True] by simp
next
  case ne: False
  show ?thesis
  proof (cases "\<not> temp_entry s \<and> card (free_frames (vpmm s)) = 1")
    case True
    then obtain q where "free_frames (vpmm s) = {q}" using card_1_singletonE by blast
    then show ?thesis using True vmm_create_page_dir_fault [OF assms] by simp
  next
    case False
    have "0 < card (free_frames (vpmm s))" using ne by (simp add: card_gt_0_iff)
    then have "dir_room s" using False ne by (auto simp: dir_room_def)
    from new_space [OF assms this] show ?thesis
      unfolding if_not_P [OF ne] if_not_P [OF False] .
  qed
qed

text \<open>The demonstration space with one free frame, 2000.\<close>

definition demo_vm1 :: "(nat \<Rightarrow> bool) \<Rightarrow> vm" where
  "demo_vm1 used = (demo_vm used)\<lparr>vpmm :=
     \<lparr>bitmap = replicate 250 0 @ [1], bitmap_frames = 2008, next_free_page = 0, rejected_ops = 0\<rparr>\<rparr>"

lemma demo_vm1_ok: "vm_ok (demo_vm1 used)" "temp_entry (demo_vm1 used)" "free_frames (vpmm (demo_vm1 used)) = {2000}"
proof -
  have "bget (replicate 250 0 @ [1]) p \<longleftrightarrow> p = 2000" if "p < 2008" for p
    using that bit_exp_u8 [of "p mod 8" 0] div8_mod8_eq [of p 2000]
    by (cases "p div 8 < 250") (auto simp: bget_append bget_replicate0 bget_def nth_append dest: le_antisym)
  then show fr: "free_frames (vpmm (demo_vm1 used)) = {2000}"
    by (auto simp: free_frames_def demo_vm1_def)
  have pd: "pde (demo_vm1 used) = pde (demo_vm used)" "dir (demo_vm1 used) = 1024"
    by (simp_all add: demo_vm1_def vpmm_update_facts demo_pde(2))
  show "temp_entry (demo_vm1 used)" using demo_frame [of 770 used] by (simp add: temp_entry_def pd)
  have "2000 \<notin> table_frames (demo_vm1 used)"
    using demo_frame [of _ used] by (auto simp: table_frames_def pd)
  then show "vm_ok (demo_vm1 used)"
    using demo_ok [of used] fr unfolding vm_ok_def pd demo_pde(2)
    by (simp add: demo_vm1_def pmm_wf_def pmm_bitmap_bytes_def)
qed

theorem vmm_create_page_dir_correct_witness:
  "\<exists>s'. vmm_create_page_dir (demo_vm1 (\<lambda>_. True)) = Some (2000 * 4096, s') \<and>
     vmm_get_phys 134512640 (s'\<lparr>cr3 := 2000 * 4096\<rparr>) = Some 0 \<and> vmm_get_phys PAGE_DIR_TEMP_MAP s' = Some 0"
proof -
  let ?s = "demo_vm1 (\<lambda>_. True)"
  have "free_frames (vpmm ?s) = {2000}" "temp_entry ?s" by (rule demo_vm1_ok)+
  with vmm_create_page_dir_correct [OF demo_vm1_ok(1), of "\<lambda>_. True"] obtain q s' where
    c: "vmm_create_page_dir ?s = Some (q * 4096, s')" "q \<in> {2000}" and
    o: "\<forall>va < 4290772992. vmm_get_phys va s' =
         (if va div 4096 = PAGE_DIR_TEMP_MAP div 4096 then Some 0 else vmm_get_phys va ?s)" and
    n: "\<forall>va < 4290772992. vmm_get_phys va (s'\<lparr>cr3 := q * 4096\<rparr>) =
         (if va < 3221225472 then Some 0 else vmm_get_phys va s')" by auto
  from o [rule_format, of PAGE_DIR_TEMP_MAP] have "vmm_get_phys PAGE_DIR_TEMP_MAP s' = Some 0"
    by (simp add: PAGE_DIR_TEMP_MAP_def)
  with c n [rule_format, of 134512640] show ?thesis by auto
qed

text \<open>A space in which creating an address space faults: the scratch page's entry of the
  demonstration space is taken out.\<close>

theorem vmm_create_page_dir_fault_witness:
  "vmm_create_page_dir (set_pde 770 0 (demo_vm1 (\<lambda>_. False))) = None"
proof -
  let ?d = "demo_vm1 (\<lambda>_. False)" and ?s = "set_pde 770 0 (demo_vm1 (\<lambda>_. False))"
  have tf: "table_frames ?s \<subseteq> table_frames ?d"
    by (auto simp: table_frames_def split: if_splits)
  have "vm_ok ?s"
    unfolding vm_ok_def
  proof (intro conjI)
    show "inj_on (\<lambda>i. entry_frame (pde ?s i)) {i. i < 1023 \<and> present (pde ?s i)}"
      by (rule inj_onI) (use pde_inj [OF demo_vm1_ok(1)] in \<open>auto split: if_splits\<close>)
    show "table_frames ?s \<inter> free_frames (vpmm ?s) = {}"
      using tf demo_vm1_ok(1) [of "\<lambda>_. False"] by (auto simp: vm_ok_def)
  qed (use demo_vm1_ok(1) [of "\<lambda>_. False"] in \<open>simp_all add: vm_ok_def\<close>)
  moreover have "\<not> temp_entry ?s" by (simp add: temp_entry_def)
  moreover have "free_frames (vpmm ?s) = {2000}" by (simp add: demo_vm1_ok(3))
  ultimately show ?thesis by (rule vmm_create_page_dir_fault)
qed

end
