(* ===== verification/Vmalloc.thy ===== *)
theory Vmalloc
  imports Vmm "HOL-Library.Multiset"
begin

text \<open>
  The kernel's page heap, \<open>kernel/kernel/memman/vmalloc/vmalloc.c\<close>: virtual ranges that grow
  upward from the end of the kernel image to \<open>VMALLOC_END\<close>, and a list of freed ranges that is
  searched first. The calls through \<open>memman\<close> are those of \<open>vmm.c\<close> and \<open>pmm.c\<close>. The array
  \<open>vmfree\<close> is the list of its first \<open>vmfree_count\<close> entries.
\<close>

section \<open>Model\<close>

record heap =
  hvm :: vm
  vmalloc_next :: nat
  vmfree :: "(nat \<times> nat) list"

definition VMALLOC_END :: nat where "VMALLOC_END = 3229614080"
definition VM_FREE_MAX :: nat where "VM_FREE_MAX = 256"

definition vmalloc_init :: "nat \<Rightarrow> vm \<Rightarrow> heap" where
  "vmalloc_init kernel_end m =
    (let n = wrap32 (page_up kernel_end)
     in \<lparr>hvm = m, vmalloc_next = (if n = 0 then 4096 else n), vmfree = []\<rparr>)"

text \<open>\<open>vmfree[i] = vmfree[--vmfree_count]\<close>\<close>

definition swap_remove :: "'a list \<Rightarrow> nat \<Rightarrow> 'a list" where
  "swap_remove xs i = butlast (xs[i := last xs])"

lemma length_swap_remove [simp]: "length (swap_remove xs i) = length xs - 1"
  by (simp add: swap_remove_def)

function insert_loop :: "nat \<Rightarrow> nat \<Rightarrow> (nat \<times> nat) list \<Rightarrow> nat \<Rightarrow> nat \<times> nat \<times> (nat \<times> nat) list" where
  "insert_loop lo hi fl i =
    (if i < length fl then
       let e_start = fst (fl ! i);
           e_end = wrap32 (e_start + snd (fl ! i) * 4096)
       in if lo \<le> e_end \<and> e_start \<le> hi then
            insert_loop (if e_start < lo then e_start else lo) (if hi < e_end then e_end else hi)
              (swap_remove fl i) 0
          else insert_loop lo hi fl (i + 1)
     else (lo, hi, fl))"
  by pat_completeness auto
termination by (relation "measures [\<lambda>(lo, hi, fl, i). length fl, \<lambda>(lo, hi, fl, i). length fl - i]") auto

declare insert_loop.simps [simp del]

definition vmfree_insert :: "nat \<Rightarrow> nat \<Rightarrow> (nat \<times> nat) list \<Rightarrow> (nat \<times> nat) list" where
  "vmfree_insert vaddr npages fl =
    (if npages = 0 then fl
     else case insert_loop vaddr (wrap32 (vaddr + npages * 4096)) fl 0 of
       (lo, hi, fl') \<Rightarrow>
         if VM_FREE_MAX \<le> length fl' then fl' else fl' @ [(lo, (hi - lo) div 4096)])"

definition best_step :: "(nat \<times> nat) list \<Rightarrow> nat \<Rightarrow> nat \<Rightarrow> nat option \<Rightarrow> nat option" where
  "best_step fl npages i best =
    (if npages \<le> snd (fl ! i) \<and> (case best of None \<Rightarrow> True | Some b \<Rightarrow> snd (fl ! i) < snd (fl ! b))
     then Some i else best)"

definition vmfree_take :: "nat \<Rightarrow> (nat \<times> nat) list \<Rightarrow> nat \<times> (nat \<times> nat) list" where
  "vmfree_take npages fl =
    (case fold (best_step fl npages) [0..<length fl] None of
       None \<Rightarrow> (0, fl)
     | Some best \<Rightarrow>
         let vaddr = fst (fl ! best)
         in if snd (fl ! best) = npages then (vaddr, swap_remove fl best)
            else (vaddr, fl[best := (wrap32 (vaddr + npages * 4096), snd (fl ! best) - npages)]))"

fun unwind_pages :: "nat \<Rightarrow> nat list \<Rightarrow> vm \<Rightarrow> vm option" where
  "unwind_pages base [] m = Some m"
| "unwind_pages base (j # js) m = do {
     m1 \<leftarrow> vmm_unmap (wrap32 (base + j * 4096)) m;
     p \<leftarrow> vmm_get_phys (wrap32 (base + j * 4096)) m1;
     unwind_pages base js (m1\<lparr>vpmm := pmm_freep p (vpmm m1)\<rparr>) }"

fun map_pages :: "nat \<Rightarrow> nat \<Rightarrow> nat list \<Rightarrow> heap \<Rightarrow> (nat \<times> heap) option" where
  "map_pages base npages [] h = Some (base, h)"
| "map_pages base npages (i # is) h =
    (case pmm_allocp (vpmm (hvm h)) of (phys, pm) \<Rightarrow>
       let m0 = (hvm h)\<lparr>vpmm := pm\<rparr>
       in if phys = 0 then do {
            m1 \<leftarrow> unwind_pages base [0..<i] m0;
            let fl1 = vmfree_insert base i (vmfree h);
            let fl2 = vmfree_insert (wrap32 (base + i * 4096)) (npages - i) fl1;
            Some (0, h\<lparr>hvm := m1, vmfree := fl2\<rparr>) }
          else do {
            m1 \<leftarrow> vmm_map (wrap32 (base + i * 4096)) phys (1 OR PAGE_RW) m0;
            map_pages base npages is (h\<lparr>hvm := m1\<rparr>) })"

definition vmalloc_pages :: "nat \<Rightarrow> heap \<Rightarrow> (nat \<times> heap) option" where
  "vmalloc_pages npages h =
    (if npages = 0 \<or> 65536 < npages then Some (0, h)
     else case vmfree_take npages (vmfree h) of
       (base, fl) \<Rightarrow>
         let h1 = h\<lparr>vmfree := fl\<rparr>
         in if base = 0 then
              (if VMALLOC_END < vmalloc_next h1 \<or> (VMALLOC_END - vmalloc_next h1) div 4096 < npages
               then Some (0, h1)
               else map_pages (vmalloc_next h1) npages [0..<npages]
                      (h1\<lparr>vmalloc_next := wrap32 (vmalloc_next h1 + npages * 4096)\<rparr>))
            else map_pages base npages [0..<npages] h1)"

definition vmalloc_pg :: "heap \<Rightarrow> (nat \<times> heap) option" where
  "vmalloc_pg h = vmalloc_pages 1 h"

definition vmalloc_free :: "nat \<Rightarrow> heap \<Rightarrow> heap option" where
  "vmalloc_free virt h =
    (if virt mod 4096 \<noteq> 0 then Some h
     else do {
       phys \<leftarrow> vmm_get_phys virt (hvm h);
       if phys = 0 then Some h
       else do {
         m1 \<leftarrow> vmm_unmap virt (hvm h);
         Some (h\<lparr>hvm := m1\<lparr>vpmm := pmm_freep phys (vpmm m1)\<rparr>, vmfree := vmfree_insert virt 1 (vmfree h)\<rparr>) } })"

fun free_pages_loop :: "nat \<Rightarrow> nat list \<Rightarrow> heap \<Rightarrow> heap option" where
  "free_pages_loop addr [] h = Some h"
| "free_pages_loop addr (i # is) h = do {
     h1 \<leftarrow> vmalloc_free (wrap32 (addr + i * 4096)) h;
     free_pages_loop addr is h1 }"

definition vmalloc_free_pages :: "nat \<Rightarrow> nat \<Rightarrow> heap \<Rightarrow> heap option" where
  "vmalloc_free_pages addr npages h = free_pages_loop addr [0..<npages] h"

section \<open>The list of freed ranges\<close>

lemma mset_swap_remove: "i < length xs \<Longrightarrow> mset (swap_remove xs i) = mset xs - {#xs ! i#}"
proof (cases xs rule: rev_exhaust)
  case (snoc ys z)
  assume i: "i < length xs"
  show ?thesis
  proof (cases "i = length ys")
    case True
    then show ?thesis by (simp add: snoc swap_remove_def)
  next
    case False
    with i snoc have "i < length ys" by simp
    then show ?thesis
      by (simp add: snoc swap_remove_def list_update_append nth_append mset_update)
  qed
qed simp

lemma set_swap_remove:
  assumes "i < length xs" "distinct xs"
  shows "distinct (swap_remove xs i)" "set (swap_remove xs i) = set xs - {xs ! i}"
proof -
  have m: "mset (swap_remove xs i) = mset (remove1 (xs ! i) xs)"
    using mset_swap_remove [OF assms(1)] by simp
  show "distinct (swap_remove xs i)" using mset_eq_imp_distinct_iff [OF m] assms(2) by simp
  show "set (swap_remove xs i) = set xs - {xs ! i}"
    using mset_eq_setD [OF m] assms(2) by simp
qed

definition pages_of :: "nat \<times> nat \<Rightarrow> nat set" where
  "pages_of e = {fst e div 4096..<fst e div 4096 + snd e}"

definition free_pages :: "(nat \<times> nat) list \<Rightarrow> nat set" where
  "free_pages fl = (\<Union>e \<in> set fl. pages_of e)"

text \<open>An entry is page aligned, not empty and inside 32 bits; two entries neither overlap nor
  touch.\<close>

definition entry_ok :: "nat \<times> nat \<Rightarrow> bool" where
  "entry_ok e \<longleftrightarrow> 0 < fst e \<and> fst e mod 4096 = 0 \<and> 0 < snd e \<and> fst e + snd e * 4096 < 4294967296"

definition apart :: "nat \<times> nat \<Rightarrow> nat \<times> nat \<Rightarrow> bool" where
  "apart e f \<longleftrightarrow> fst e + snd e * 4096 < fst f \<or> fst f + snd f * 4096 < fst e"

definition fl_ok :: "(nat \<times> nat) list \<Rightarrow> bool" where
  "fl_ok fl \<longleftrightarrow> distinct fl \<and> (\<forall>e \<in> set fl. entry_ok e) \<and>
     (\<forall>e \<in> set fl. \<forall>f \<in> set fl. e \<noteq> f \<longrightarrow> apart e f)"

lemma apart_disjoint: "entry_ok e \<Longrightarrow> entry_ok f \<Longrightarrow> apart e f \<Longrightarrow> pages_of e \<inter> pages_of f = {}"
  by (auto simp: apart_def entry_ok_def pages_of_def elim!: dvdE simp: mod_eq_0_iff_dvd)

lemma page_range_union:
  assumes "lo \<le> es + n * 4096" "es \<le> lo + k * 4096" "(lo::nat) mod 4096 = 0" "es mod 4096 = 0"
  shows "min lo es mod 4096 = 0"
    "pages_of (min lo es, (max (lo + k * 4096) (es + n * 4096) - min lo es) div 4096) =
     pages_of (lo, k) \<union> pages_of (es, n)"
    "min lo es + (max (lo + k * 4096) (es + n * 4096) - min lo es) div 4096 * 4096 =
     max (lo + k * 4096) (es + n * 4096)"
proof -
  obtain a where a: "lo = 4096 * a" using assms(3) by (auto simp: mod_eq_0_iff_dvd)
  obtain b where b: "es = 4096 * b" using assms(4) by (auto simp: mod_eq_0_iff_dvd)
  have ab: "a \<le> b + n" "b \<le> a + k" using assms(1,2) by (simp_all add: a b)
  have mn: "min lo es = 4096 * min a b" and
    mx: "max (lo + k * 4096) (es + n * 4096) = 4096 * max (a + k) (b + n)"
    by (simp_all add: a b min_def max_def)
  then have d: "(max (lo + k * 4096) (es + n * 4096) - min lo es) div 4096 = max (a + k) (b + n) - min a b"
    by (simp flip: diff_mult_distrib2)
  show "min lo es mod 4096 = 0" by (simp add: mn)
  show "pages_of (min lo es, (max (lo + k * 4096) (es + n * 4096) - min lo es) div 4096) =
     pages_of (lo, k) \<union> pages_of (es, n)"
    unfolding d mn using ab by (auto simp: pages_of_def a b)
  show "min lo es + (max (lo + k * 4096) (es + n * 4096) - min lo es) div 4096 * 4096 =
     max (lo + k * 4096) (es + n * 4096)"
    unfolding d mn mx by (simp add: algebra_simps)
qed

lemma fl_ok_subset: "fl_ok fl \<Longrightarrow> distinct fl' \<Longrightarrow> set fl' \<subseteq> set fl \<Longrightarrow> fl_ok fl'"
  unfolding fl_ok_def by blast

lemma swap_remove_ok:
  assumes "fl_ok fl" "i < length fl"
  shows "fl_ok (swap_remove fl i)" "free_pages (swap_remove fl i) = free_pages fl - pages_of (fl ! i)"
    "free_pages fl = free_pages (swap_remove fl i) \<union> pages_of (fl ! i)"
proof -
  have d: "distinct fl" using assms(1) by (simp add: fl_ok_def)
  note s = set_swap_remove [OF assms(2) d]
  have in': "fl ! i \<in> set fl" using assms(2) by simp
  show "fl_ok (swap_remove fl i)" by (rule fl_ok_subset [OF assms(1) s(1)]) (use s(2) in blast)
  show u: "free_pages fl = free_pages (swap_remove fl i) \<union> pages_of (fl ! i)"
    unfolding free_pages_def s(2) using in' by blast
  have "pages_of e \<inter> pages_of (fl ! i) = {}" if "e \<in> set fl - {fl ! i}" for e
    using that assms(1) in' apart_disjoint unfolding fl_ok_def by blast
  then have "free_pages (swap_remove fl i) \<inter> pages_of (fl ! i) = {}"
    unfolding free_pages_def s(2) by blast
  with u show "free_pages (swap_remove fl i) = free_pages fl - pages_of (fl ! i)" by blast
qed

lemma entry_end [simp]: "entry_ok e \<Longrightarrow> wrap32 (fst e + snd e * 4096) = fst e + snd e * 4096"
  by (simp add: entry_ok_def)

lemma insert_loop_touch:
  assumes "i < length fl" "fl ! i = (es, n)" "wrap32 (es + n * 4096) = ee" "lo \<le> ee \<and> es \<le> hi"
  shows "insert_loop lo hi fl i =
    insert_loop (if es < lo then es else lo) (if hi < ee then ee else hi) (swap_remove fl i) 0"
  by (subst insert_loop.simps) (simp only: assms if_P Let_def fst_conv snd_conv)

lemma insert_loop_skip:
  assumes "i < length fl" "fl ! i = (es, n)" "wrap32 (es + n * 4096) = ee" "\<not> (lo \<le> ee \<and> es \<le> hi)"
  shows "insert_loop lo hi fl i = insert_loop lo hi fl (i + 1)"
  by (subst insert_loop.simps) (simp only: assms if_P if_not_P Let_def fst_conv snd_conv if_False)

lemma insert_loop_correct:
  assumes "fl_ok fl" "entry_ok (lo, k)" "\<forall>j < i. j < length fl \<longrightarrow> apart (fl ! j) (lo, k)"
    "hi = lo + k * 4096" "insert_loop lo hi fl i = (lo', hi', fl')"
  shows "\<exists>k'. hi' = lo' + k' * 4096 \<and> entry_ok (lo', k') \<and> fl_ok fl' \<and> (\<forall>e \<in> set fl'. apart e (lo', k')) \<and>
    free_pages fl' \<union> pages_of (lo', k') = free_pages fl \<union> pages_of (lo, k)"
  using assms
proof (induction lo hi fl i arbitrary: k rule: insert_loop.induct)
  case (1 lo hi fl i)
  note hi = "1.prems"(4)
  show ?case
  proof (cases "i < length fl")
    case False
    with "1.prems" have "lo' = lo" "hi' = lo + k * 4096" "fl' = fl"
      by (simp_all add: insert_loop.simps [of lo "lo + k * 4096" fl i])
    moreover have "\<forall>e \<in> set fl. apart e (lo, k)"
      using "1.prems"(3) False by (metis in_set_conv_nth order_less_le_trans not_le_imp_less)
    ultimately show ?thesis using "1.prems"(1,2) by auto
  next
    case True
    obtain es n where e: "fl ! i = (es, n)" by force
    have eo: "entry_ok (es, n)" using "1.prems"(1) True e unfolding fl_ok_def by (metis nth_mem)
    have w: "wrap32 (es + n * 4096) = es + n * 4096" using entry_end [OF eo] by simp
    show ?thesis
    proof (cases "lo \<le> es + n * 4096 \<and> es \<le> hi")
      case touch: True
      then have touch': "lo \<le> es + n * 4096" "es \<le> lo + k * 4096" using hi by simp_all
      let ?lo = "if es < lo then es else lo"
      let ?hi = "if lo + k * 4096 < es + n * 4096 then es + n * 4096 else lo + k * 4096"
      define k' where "k' = (max (lo + k * 4096) (es + n * 4096) - min lo es) div 4096"
      have mm: "?lo = min lo es" "?hi = max (lo + k * 4096) (es + n * 4096)" by (auto simp: min_def max_def)
      have al: "lo mod 4096 = 0" "es mod 4096 = 0" using "1.prems"(2) eo by (simp_all add: entry_ok_def)
      note u = page_range_union [OF touch' al, folded k'_def mm]
      have ok: "entry_ok (?lo, k')"
        using "1.prems"(2) eo u(1,3) unfolding entry_ok_def fst_conv snd_conv mm
        by (auto simp: k'_def [symmetric] intro!: gr0I split: if_splits)
      have run: "insert_loop ?lo (if hi < es + n * 4096 then es + n * 4096 else hi) (swap_remove fl i) 0 = (lo', hi', fl')"
        using "1.prems"(5) insert_loop_touch [OF True e w touch] by simp
      have hi': "(if hi < es + n * 4096 then es + n * 4096 else hi) = ?lo + k' * 4096"
        using u(3) unfolding hi mm by simp
      note IH = "1.IH"(1) [OF True refl refl, unfolded e fst_conv snd_conv w, OF touch
          swap_remove_ok(1) [OF "1.prems"(1) True] ok _ hi' run]
      have "free_pages (swap_remove fl i) \<union> pages_of (?lo, k') = free_pages fl \<union> pages_of (lo, k)"
        using swap_remove_ok(3) [OF "1.prems"(1) True] u(2) e by auto
      with IH show ?thesis by simp
    next
      case no: False
      have run: "insert_loop lo hi fl (i + 1) = (lo', hi', fl')"
        using "1.prems"(5) insert_loop_skip [OF True e w no] by simp
      have ap: "\<forall>j < i + 1. j < length fl \<longrightarrow> apart (fl ! j) (lo, k)"
        using "1.prems"(3) no e hi by (auto simp: less_Suc_eq apart_def)
      show ?thesis
        by (rule "1.IH"(2) [OF True refl refl, unfolded e fst_conv snd_conv w, OF no "1.prems"(1,2) ap hi run])
    qed
  qed
qed

lemma insert_loop_length: "insert_loop lo hi fl i = (lo', hi', fl') \<Longrightarrow> length fl' \<le> length fl"
proof (induction lo hi fl i rule: insert_loop.induct)
  case (1 lo hi fl i)
  let ?e = "wrap32 (fst (fl ! i) + snd (fl ! i) * 4096)"
  show ?case
  proof (cases "i < length fl")
    case True
    show ?thesis
    proof (cases "lo \<le> ?e \<and> fst (fl ! i) \<le> hi")
      case touch: True
      then have "insert_loop (if fst (fl ! i) < lo then fst (fl ! i) else lo) (if hi < ?e then ?e else hi)
          (swap_remove fl i) 0 = (lo', hi', fl')"
        using "1.prems" insert_loop_touch [OF True surjective_pairing refl touch] by simp
      from "1.IH"(1) [OF True refl refl touch this] show ?thesis by simp
    next
      case no: False
      then have "insert_loop lo hi fl (i + 1) = (lo', hi', fl')"
        using "1.prems" insert_loop_skip [OF True surjective_pairing refl no] by simp
      from "1.IH"(2) [OF True refl refl no this] show ?thesis .
    qed
  qed (use "1.prems" in \<open>simp add: insert_loop.simps [of lo hi fl i]\<close>)
qed

lemma vmfree_insert_correct:
  assumes "fl_ok fl" "entry_ok (vaddr, n)"
  shows "fl_ok (vmfree_insert vaddr n fl)"
    "free_pages (vmfree_insert vaddr n fl) \<subseteq> free_pages fl \<union> pages_of (vaddr, n)"
    "length fl < VM_FREE_MAX \<Longrightarrow>
       free_pages (vmfree_insert vaddr n fl) = free_pages fl \<union> pages_of (vaddr, n)"
proof -
  have n: "n \<noteq> 0" "wrap32 (vaddr + n * 4096) = vaddr + n * 4096"
    using assms(2) entry_end [OF assms(2)] by (simp_all add: entry_ok_def)
  obtain lo' hi' fl' where run: "insert_loop vaddr (vaddr + n * 4096) fl 0 = (lo', hi', fl')"
    by (metis prod_cases3)
  from insert_loop_correct [OF assms _ refl run] obtain k' where k: "hi' = lo' + k' * 4096" "entry_ok (lo', k')"
    "fl_ok fl'" "\<forall>e \<in> set fl'. apart e (lo', k')"
    "free_pages fl' \<union> pages_of (lo', k') = free_pages fl \<union> pages_of (vaddr, n)" by auto
  note len = insert_loop_length [OF run]
  have ins: "vmfree_insert vaddr n fl = (if VM_FREE_MAX \<le> length fl' then fl' else fl' @ [(lo', k')])"
    using run n k(1) by (simp add: vmfree_insert_def)
  have "\<not> apart (lo', k') (lo', k')" by (simp add: apart_def)
  then have "fl_ok (fl' @ [(lo', k')])"
    using k(2-4) unfolding fl_ok_def by (auto simp: apart_def)
  then show "fl_ok (vmfree_insert vaddr n fl)" using k(3) by (simp add: ins)
  have fp: "free_pages (fl' @ [(lo', k')]) = free_pages fl \<union> pages_of (vaddr, n)"
    using k(5) by (auto simp: free_pages_def)
  show "free_pages (vmfree_insert vaddr n fl) \<subseteq> free_pages fl \<union> pages_of (vaddr, n)"
    using fp k(5) by (auto simp: ins)
  show "length fl < VM_FREE_MAX \<Longrightarrow>
       free_pages (vmfree_insert vaddr n fl) = free_pages fl \<union> pages_of (vaddr, n)"
    using fp len by (simp add: ins)
qed

lemma best_fold:
  "case fold (best_step fl n) [0..<k] None of
     None \<Rightarrow> \<forall>i < k. snd (fl ! i) < n
   | Some b \<Rightarrow> b < k \<and> n \<le> snd (fl ! b) \<and> (\<forall>i < k. n \<le> snd (fl ! i) \<longrightarrow> snd (fl ! b) \<le> snd (fl ! i))"
proof (induction k)
  case (Suc k)
  then show ?case
    by (cases "fold (best_step fl n) [0..<k] None") (auto simp: best_step_def less_Suc_eq not_le split: option.splits)
qed simp

lemma vmfree_take_none:
  assumes "vmfree_take n fl = (0, fl')" "fl_ok fl"
  shows "fl' = fl \<and> (\<forall>e \<in> set fl. snd e < n)"
proof (cases "fold (best_step fl n) [0..<length fl] None")
  case None
  with assms(1) best_fold [where fl = fl and n = n and k = "length fl"] show ?thesis
    by (simp add: vmfree_take_def all_set_conv_all_nth)
next
  case (Some b)
  with best_fold [where fl = fl and n = n and k = "length fl"] have "b < length fl" by simp
  then have "entry_ok (fl ! b)" using assms(2) by (simp add: fl_ok_def)
  with assms(1) Some show ?thesis by (auto simp: vmfree_take_def entry_ok_def Let_def split: if_splits)
qed

lemma fl_ok_apart: "fl_ok fl \<Longrightarrow> e \<in> set fl \<Longrightarrow> f \<in> set fl \<Longrightarrow> e \<noteq> f \<Longrightarrow> apart e f"
  by (simp add: fl_ok_def)

lemma fl_ok_disjoint: "fl_ok fl \<Longrightarrow> e \<in> set fl \<Longrightarrow> f \<in> set fl \<Longrightarrow> e \<noteq> f \<Longrightarrow> pages_of e \<inter> pages_of f = {}"
  using apart_disjoint by (simp add: fl_ok_def)

lemma apart_shrink:
  assumes "apart (v, m) f" "v \<le> w" "w + k * 4096 = v + m * 4096"
  shows "apart (w, k) f \<and> apart f (w, k) \<and> f \<noteq> (w, k)"
proof -
  obtain a c where f: "f = (a, c)" by force
  have "v + m * 4096 < a \<or> a + c * 4096 < v" using assms(1) by (simp add: apart_def f)
  then have "w + k * 4096 < a \<or> a + c * 4096 < w" using assms(2,3) by linarith
  moreover from this have "a \<noteq> w \<or> c \<noteq> k" by linarith
  ultimately show ?thesis by (auto simp: apart_def f)
qed

lemma vmfree_take_some:
  assumes "vmfree_take n fl = (v, fl')" "v \<noteq> 0" "fl_ok fl" "0 < n"
  shows "entry_ok (v, n) \<and> pages_of (v, n) \<subseteq> free_pages fl \<and> free_pages fl' = free_pages fl - pages_of (v, n) \<and>
    fl_ok fl' \<and> length fl' \<le> length fl \<and>
    (\<exists>e \<in> set fl. fst e = v \<and> n \<le> snd e \<and> (\<forall>f \<in> set fl. n \<le> snd f \<longrightarrow> snd e \<le> snd f))"
proof -
  obtain b where b: "fold (best_step fl n) [0..<length fl] None = Some b"
    using assms(1,2) by (auto simp: vmfree_take_def split: option.splits)
  with best_fold [where fl = fl and n = n and k = "length fl"] have bl: "b < length fl" "n \<le> snd (fl ! b)"
    "\<forall>i < length fl. n \<le> snd (fl ! i) \<longrightarrow> snd (fl ! b) \<le> snd (fl ! i)" by simp_all
  obtain m where e: "fl ! b = (v, m)" using assms(1) b by (cases "fl ! b") (auto simp: vmfree_take_def Let_def split: if_splits)
  have inb: "(v, m) \<in> set fl" using bl(1) e by (metis nth_mem)
  have eo: "entry_ok (v, m)" using assms(3) inb by (auto simp: fl_ok_def)
  have nm: "n \<le> m" using bl(2) e by simp
  have en: "entry_ok (v, n)" using eo nm assms(4) unfolding entry_ok_def by auto
  have best: "\<exists>e \<in> set fl. fst e = v \<and> n \<le> snd e \<and> (\<forall>f \<in> set fl. n \<le> snd f \<longrightarrow> snd e \<le> snd f)"
    using nm bl(3) e by (intro bexI [OF _ inb]) (simp add: all_set_conv_all_nth)
  have sub: "pages_of (v, n) \<subseteq> free_pages fl" 
  proof -
    have "pages_of (v, n) \<subseteq> pages_of (v, m)" using nm by (auto simp: pages_of_def)
    then show ?thesis unfolding free_pages_def using inb by blast
  qed
  show ?thesis
  proof (cases "m = n")
    case True
    then have fl': "fl' = swap_remove fl b" using assms(1) b e by (simp add: vmfree_take_def Let_def)
    from swap_remove_ok [OF assms(3) bl(1)] en sub best True e show ?thesis by (simp add: fl')
  next
    case False
    let ?e = "(v + n * 4096, m - n)"
    have w: "wrap32 (v + n * 4096) = v + n * 4096" using entry_end [OF en] by simp
    then have fl': "fl' = fl[b := ?e]" using assms(1) b e False by (simp add: vmfree_take_def Let_def)
    have fin: "v + n * 4096 + (m - n) * 4096 = v + m * 4096"
      using nm by (simp flip: add_mult_distrib)
    have d: "distinct fl" using assms(3) by (simp add: fl_ok_def)
    have st: "set fl' = insert ?e (set fl - {(v, m)})"
      unfolding fl' using set_update_distinct [OF d bl(1)] e by simp
    have ap: "apart ?e f \<and> apart f ?e \<and> f \<noteq> ?e" if "f \<in> set fl - {(v, m)}" for f
    proof -
      have "apart (v, m) f" by (rule fl_ok_apart [OF assms(3) inb]) (use that in auto)
      then show ?thesis by (rule apart_shrink) (simp_all only: fin le_add1)
    qed
    have eo': "entry_ok ?e"
      unfolding entry_ok_def fst_conv snd_conv fin
    proof (intro conjI)
      show "0 < v + n * 4096" "0 < m - n" using assms(4) nm False by simp_all
      show "(v + n * 4096) mod 4096 = 0" using eo by (simp add: entry_ok_def)
      show "v + m * 4096 < 4294967296" using eo by (simp add: entry_ok_def)
    qed
    have "?e \<notin> set fl - {fl ! b}" unfolding e using ap by blast
    then have "distinct fl'" unfolding fl' by (rule distinct_list_update [OF d])
    then have ok: "fl_ok fl'"
      using ap eo' assms(3) unfolding fl_ok_def st by blast
    have pe: "pages_of (v, m) = pages_of (v, n) \<union> pages_of ?e" "pages_of (v, n) \<inter> pages_of ?e = {}"
      using nm eo by (auto simp: pages_of_def entry_ok_def)
    have "pages_of f \<inter> pages_of (v, m) = {}" if "f \<in> set fl - {(v, m)}" for f
      by (rule fl_ok_disjoint [OF assms(3) _ inb]) (use that in auto)
    then have "free_pages fl' = free_pages fl - pages_of (v, n)"
      unfolding free_pages_def st using inb pe by blast
    with ok en sub best show ?thesis by (simp add: fl')
  qed
qed

section \<open>The heap\<close>

definition frame_at :: "vm \<Rightarrow> nat \<Rightarrow> nat" where "frame_at m p = entry_frame (pte m (p * 4096))"

text \<open>
  The invariant for a set \<open>L\<close> of live pages, those handed out and not yet freed. The kernel's page
  tables for the heap exist, and the live pages lie below \<open>vmalloc_next\<close>, apart from the freed
  ranges. Nothing is said of the mapping of pages that are not live: \<open>boot.S\<close> maps all of the
  first 4 MiB of the kernel half, so untouched heap pages, and the tail that a failed allocation
  puts on the list, are mapped to frames the heap does not own.
\<close>

definition heap_ok :: "nat set \<Rightarrow> heap \<Rightarrow> bool" where
  "heap_ok L h \<longleftrightarrow> vm_ok (hvm h) \<and> present (pde (hvm h) 768) \<and> present (pde (hvm h) 769) \<and>
     fl_ok (vmfree h) \<and> vmalloc_next h mod 4096 = 0 \<and>
     3221225472 \<le> vmalloc_next h \<and> vmalloc_next h \<le> VMALLOC_END \<and>
     free_pages (vmfree h) \<subseteq> {786432..<vmalloc_next h div 4096} \<and>
     L \<subseteq> {786432..<vmalloc_next h div 4096} \<and> L \<inter> free_pages (vmfree h) = {}"

text \<open>The live pages are mapped to distinct frames that are neither free nor page tables.\<close>

definition frames_ok :: "nat set \<Rightarrow> vm \<Rightarrow> bool" where
  "frames_ok L m \<longleftrightarrow> inj_on (frame_at m) L \<and>
     (\<forall>p \<in> L. mapped m p \<and> 0 < frame_at m p \<and> frame_at m p < bitmap_frames (vpmm m) \<and>
        frame_at m p \<notin> free_frames (vpmm m) \<and> frame_at m p \<notin> table_frames m)"

lemma heap_pde: "786432 \<le> (p::nat) \<Longrightarrow> p < 788480 \<Longrightarrow> p * 4096 div 4194304 = 768 \<or> p * 4096 div 4194304 = 769"
  unfolding big_page by (simp, linarith)

lemma heap_pde_lt: "(p::nat) < 788480 \<Longrightarrow> p * 4096 div 4194304 < 1023"
  unfolding big_page by (simp add: less_mult_imp_div_less)

lemma vm_ok_pmm:
  assumes "vm_ok s" "pmm_wf pm" "free_frames pm \<subseteq> free_frames (vpmm s)"
    "bitmap_frames pm = bitmap_frames (vpmm s)"
  shows "vm_ok (s\<lparr>vpmm := pm\<rparr>)"
  using assms unfolding vm_ok_def vpmm_update_facts by auto

lemma set_effect_page:
  "set_effect (b * 4096) e s s' \<Longrightarrow> p < 788480 \<Longrightarrow> pte s' (p * 4096) = (if p = b then e else pte s (p * 4096))"
  using set_effectD(6) [of "b * 4096" e s s' "p * 4096"] heap_pde_lt [of p] by auto

lemma frames_ok_keep:
  assumes "frames_ok L m" "\<And>p. p \<in> L \<Longrightarrow> pte m' (p * 4096) = pte m (p * 4096)"
    "free_frames (vpmm m') \<subseteq> free_frames (vpmm m)" "table_frames m' = table_frames m"
    "bitmap_frames (vpmm m') = bitmap_frames (vpmm m)"
  shows "frames_ok L m'"
proof -
  have k: "mapped m' p = mapped m p" "frame_at m' p = frame_at m p" if "p \<in> L" for p
    using assms(2) [OF that] by (simp_all add: mapped_def frame_at_def)
  then have "inj_on (frame_at m') L" using assms(1) by (simp add: frames_ok_def inj_on_def)
  with k assms(1,3-5) show ?thesis unfolding frames_ok_def by auto
qed

lemma frames_ok_subset: "frames_ok L m \<Longrightarrow> K \<subseteq> L \<Longrightarrow> frames_ok K m"
  unfolding frames_ok_def by (meson inj_on_subset subsetD)

lemma frames_ok_insert:
  assumes "frames_ok L m" "b \<notin> L" "mapped m b" "0 < frame_at m b" "frame_at m b < bitmap_frames (vpmm m)"
    "frame_at m b \<notin> free_frames (vpmm m)" "frame_at m b \<notin> table_frames m" "frame_at m b \<notin> frame_at m ` L"
  shows "frames_ok (insert b L) m"
  using assms by (auto simp: frames_ok_def)

text \<open>The state of an allocation in progress: of the pages \<open>[b, b + n)\<close> the first \<open>i\<close> are mapped.\<close>

definition growing :: "nat set \<Rightarrow> nat \<Rightarrow> nat \<Rightarrow> nat \<Rightarrow> vm \<Rightarrow> vm \<Rightarrow> bool" where
  "growing L b n i m0 m \<longleftrightarrow> vm_ok m \<and> present (pde m 768) \<and> present (pde m 769) \<and>
     frames_ok (L \<union> {b..<b + i}) m \<and> L \<inter> {b..<b + n} = {} \<and> L \<subseteq> {..<788480} \<and>
     786432 \<le> b \<and> b + n \<le> 788480 \<and> i \<le> n \<and> free_frames (vpmm m) \<subseteq> free_frames (vpmm m0) \<and>
     (\<forall>p \<in> {b..<b + i}. frame_at m p \<in> free_frames (vpmm m0)) \<and>
     (\<forall>p < 788480. p \<notin> {b..<b + i} \<longrightarrow> pte m (p * 4096) = pte m0 (p * 4096))"

lemma growing_start:
  "vm_ok m \<Longrightarrow> present (pde m 768) \<Longrightarrow> present (pde m 769) \<Longrightarrow> frames_ok L m \<Longrightarrow> L \<inter> {b..<b + n} = {} \<Longrightarrow>
   L \<subseteq> {..<788480} \<Longrightarrow> 786432 \<le> b \<Longrightarrow> b + n \<le> 788480 \<Longrightarrow> growing L b n 0 m m"
  by (simp add: growing_def)

lemma growing_step:
  assumes "growing L b n i m0 m" "i < n" "pmm_allocp (vpmm m) = (phys, pm)" "phys \<noteq> 0"
  obtains m1 where "vmm_map ((b + i) * 4096) phys (1 OR PAGE_RW) (m\<lparr>vpmm := pm\<rparr>) = Some m1"
    "growing L b n (Suc i) m0 m1"
proof -
  have g: "vm_ok m" "present (pde m 768)" "present (pde m 769)" "frames_ok (L \<union> {b..<b + i}) m" "786432 \<le> b"
    "b + n \<le> 788480" "L \<inter> {b..<b + n} = {}" "L \<subseteq> {..<788480}"
    using assms(1) by (simp_all add: growing_def)
  have w: "pmm_wf (vpmm m)" "0 \<notin> free_frames (vpmm m)" "bitmap_frames (vpmm m) \<le> 1048576"
    using g(1) by (simp_all add: vm_ok_def)
  obtain q where q: "phys = q * 4096" "q \<in> free_frames (vpmm m)" "pmm_wf pm"
    "free_frames pm = free_frames (vpmm m) - {q}" "bitmap_frames pm = bitmap_frames (vpmm m)"
    using assms(3,4) w(1) by (cases rule: pmm_allocp_cases [OF w(1,2)]) (auto simp: free_frames_setp)
  let ?m = "m\<lparr>vpmm := pm\<rparr>" and ?v = "(b + i) * 4096" and ?e = "leaf phys (1 OR PAGE_RW)"
  have ok: "vm_ok ?m" by (rule vm_ok_pmm [OF g(1) q(3)]) (use q in auto)
  have bi: "b + i < 788480" "786432 \<le> b + i" using g(5,6) assms(2) by simp_all
  have pr: "present (pde ?m (?v div 4194304))"
    using heap_pde [OF bi(2,1)] g(2,3) by (auto simp: vpmm_update_facts)
  from vmm_map_present [OF ok heap_pde_lt [OF bi(1)] pr, of phys "1 OR PAGE_RW"] obtain m1 where m1:
    "vmm_map ?v phys (1 OR PAGE_RW) ?m = Some m1" "set_effect ?v ?e ?m m1"
    "table_frames m1 = table_frames ?m" "vpmm m1 = vpmm ?m" by blast
  note e = set_effectD [OF m1(2)]
  have pt: "pte m1 (p * 4096) = (if p = b + i then ?e else pte m (p * 4096))" if "p < 788480" for p
    using set_effect_page [OF m1(2) that] by (simp add: pte_pmm)
  have q20: "q < bitmap_frames (vpmm m)" using q(2) by (simp add: free_frames_def)
  then have fe: "entry_frame ?e = q"
    using pte_frame [of phys "1 OR PAGE_RW"] w(3) by (simp add: leaf_def PAGE_RW_def q(1) del: of_nat_mult)
  have at: "mapped m1 (b + i)" "frame_at m1 (b + i) = q"
    using pt [OF bi(1)] fe by (simp_all add: mapped_def frame_at_def)
  have tf: "table_frames m1 = table_frames m" using m1(3) by (simp add: vpmm_update_facts)
  have qt: "q \<notin> table_frames m" "0 < q" using g(1) q(2) w(2) by (auto simp: vm_ok_def intro: gr0I)
  have old: "pte m1 (p * 4096) = pte m (p * 4096)" if "p \<in> L \<union> {b..<b + i}" for p
  proof -
    have "p < 788480" using that g(6,8) assms(2) by auto
    moreover have "p \<noteq> b + i" using that g(7) assms(2) by auto
    ultimately show ?thesis using pt by simp
  qed
  have ff: "free_frames (vpmm m1) = free_frames (vpmm m) - {q}" "bitmap_frames (vpmm m1) = bitmap_frames (vpmm m)"
    using m1(4) q(4,5) by simp_all
  have k: "frames_ok (L \<union> {b..<b + i}) m1"
    by (rule frames_ok_keep [OF g(4) old]) (use ff tf in auto)
  have nq: "q \<notin> frame_at m1 ` (L \<union> {b..<b + i})"
    using g(4) q(2) old unfolding frames_ok_def frame_at_def by auto
  have "frames_ok (insert (b + i) (L \<union> {b..<b + i})) m1"
    by (rule frames_ok_insert [OF k]) (use g(7) assms(2) at qt q20 ff tf nq in auto)
  moreover have "insert (b + i) (L \<union> {b..<b + i}) = L \<union> {b..<b + Suc i}" by auto
  ultimately have fok: "frames_ok (L \<union> {b..<b + Suc i}) m1" by simp
  have "growing L b n (Suc i) m0 m1"
    unfolding growing_def
  proof (intro conjI)
    show "present (pde m1 768)" "present (pde m1 769)"
      using e(5) g(2,3) by (auto simp: vpmm_update_facts)
    show "\<forall>p \<in> {b..<b + Suc i}. frame_at m1 p \<in> free_frames (vpmm m0)"
    proof
      fix p assume "p \<in> {b..<b + Suc i}"
      then consider "p = b + i" | "p \<in> {b..<b + i}" by fastforce
      then show "frame_at m1 p \<in> free_frames (vpmm m0)"
        by cases (use assms(1) at(2) q(2) old in \<open>auto simp: growing_def frame_at_def\<close>)
    qed
    show "\<forall>p < 788480. p \<notin> {b..<b + Suc i} \<longrightarrow> pte m1 (p * 4096) = pte m0 (p * 4096)"
      using assms(1) pt by (auto simp: growing_def)
  qed (use assms(1,2) e(1) fok ff in \<open>auto simp: growing_def\<close>)
  with m1(1) that show thesis by blast
qed

text \<open>Unwinding a failed allocation: the pages go, and no frame comes back.\<close>

lemma pmm_freep_0: "pmm_freep 0 pm = pm"
  by (simp add: pmm_freep_def)

lemma unwind_pages_effect:
  assumes "vm_ok m" "b + n \<le> 788480" "set js \<subseteq> {..<n}"
  shows "\<exists>m'. unwind_pages (b * 4096) js m = Some m' \<and> vm_ok m' \<and> vpmm m' = vpmm m \<and>
    table_frames m' = table_frames m \<and> pde m' = pde m \<and>
    (\<forall>p < 788480. pte m' (p * 4096) = (if p \<in> (\<lambda>j. b + j) ` set js then 0 else pte m (p * 4096)))"
  using assms(1,3)
proof (induction js arbitrary: m)
  case Nil
  then show ?case by simp
next
  case (Cons j js)
  then have j: "j < n" "b + j < 788480" using assms(2) by auto
  have w: "wrap32 (b * 4096 + j * 4096) = (b + j) * 4096" using j by (simp add: wrap32_def)
  from vmm_unmap_effect [OF Cons.prems(1) heap_pde_lt [OF j(2)]] obtain m1 where m1:
    "vmm_unmap ((b + j) * 4096) m = Some m1" "vpmm m1 = vpmm m" "table_frames m1 = table_frames m"
    "pde m1 = pde m" "set_effect ((b + j) * 4096) 0 m m1" by blast
  note e = set_effectD [OF m1(5)]
  have pt: "pte m1 (p * 4096) = (if p = b + j then 0 else pte m (p * 4096))" if "p < 788480" for p
    by (rule set_effect_page [OF m1(5) that])
  have g: "vmm_get_phys ((b + j) * 4096) m1 = Some 0"
    using vmm_get_phys_pte [OF e(1) heap_pde_lt [OF j(2)]] pt [OF j(2)] by simp
  from Cons.IH [OF e(1)] Cons.prems(2) obtain m2 where m2: "unwind_pages (b * 4096) js m1 = Some m2"
    "vm_ok m2" "vpmm m2 = vpmm m1" "table_frames m2 = table_frames m1" "pde m2 = pde m1"
    "\<forall>p < 788480. pte m2 (p * 4096) = (if p \<in> (\<lambda>j. b + j) ` set js then 0 else pte m1 (p * 4096))" by auto
  have "unwind_pages (b * 4096) (j # js) m = Some m2"
    using m1(1) g m2(1) by (simp add: w pmm_freep_0)
  moreover have "pte m2 (p * 4096) = (if p \<in> (\<lambda>j. b + j) ` set (j # js) then 0 else pte m (p * 4096))"
    if p: "p < 788480" for p
    using m2(6) [rule_format, OF p] pt [OF p] by (cases "p = b + j") auto
  ultimately show ?case using m1(2-4) m2(2-5) by simp
qed

text \<open>The rest of the heap while pages \<open>[b, b + n)\<close> are being mapped.\<close>

definition reserved :: "nat set \<Rightarrow> nat \<Rightarrow> nat \<Rightarrow> heap \<Rightarrow> bool" where
  "reserved L b n h \<longleftrightarrow> fl_ok (vmfree h) \<and> vmalloc_next h mod 4096 = 0 \<and>
     3221225472 \<le> vmalloc_next h \<and> vmalloc_next h \<le> VMALLOC_END \<and>
     free_pages (vmfree h) \<subseteq> {786432..<vmalloc_next h div 4096} \<and> b + n \<le> vmalloc_next h div 4096 \<and>
     free_pages (vmfree h) \<inter> {b..<b + n} = {} \<and>
     L \<subseteq> {786432..<vmalloc_next h div 4096} \<and> L \<inter> free_pages (vmfree h) = {}"

lemma reserved_hvm [simp]: "reserved L b n (h\<lparr>hvm := m\<rparr>) = reserved L b n h"
  by (simp add: reserved_def)

lemma next_page: "vmalloc_next h \<le> VMALLOC_END \<Longrightarrow> vmalloc_next h div 4096 \<le> 788480"
  using div_le_mono [of "vmalloc_next h" VMALLOC_END 4096] by (simp add: VMALLOC_END_def)

lemma grown_heap_ok:
  assumes "growing L b n n m0 (hvm h)" "reserved L b n h"
  shows "heap_ok (L \<union> {b..<b + n}) h"
  using assms by (auto simp: heap_ok_def growing_def reserved_def)

lemma page_entry: "0 < k \<Longrightarrow> 0 < b \<Longrightarrow> b + k \<le> 788480 \<Longrightarrow> entry_ok (b * 4096, k)"
  by (auto simp: entry_ok_def)

lemma pages_of_page [simp]: "pages_of (b * 4096, k) = {b..<b + k}"
  by (simp add: pages_of_def)

lemma insert_pages:
  assumes "fl_ok fl" "0 < b" "b + k \<le> 788480"
  shows "fl_ok (vmfree_insert (b * 4096) k fl)"
    "free_pages (vmfree_insert (b * 4096) k fl) \<subseteq> free_pages fl \<union> {b..<b + k}"
proof -
  show "fl_ok (vmfree_insert (b * 4096) k fl)"
    using vmfree_insert_correct(1) [OF assms(1) page_entry [OF _ assms(2,3)]] assms(1)
    by (cases "k = 0") (simp_all add: vmfree_insert_def)
  show "free_pages (vmfree_insert (b * 4096) k fl) \<subseteq> free_pages fl \<union> {b..<b + k}"
    using vmfree_insert_correct(2) [OF assms(1) page_entry [OF _ assms(2,3)]]
    by (cases "k = 0") (simp_all add: vmfree_insert_def)
qed

lemma unwound_heap_ok:
  assumes "growing L b n i m0 (hvm h)" "reserved L b n h" "i < n" "vm_ok m"
    "unwind_pages (b * 4096) [0..<i] m = Some m1"
    "m = (hvm h)\<lparr>vpmm := pm\<rparr>" "free_frames pm = {}" "bitmap_frames pm = bitmap_frames (vpmm (hvm h))"
  defines "h' \<equiv> h\<lparr>hvm := m1, vmfree := vmfree_insert (wrap32 (b * 4096 + i * 4096)) (n - i) (vmfree_insert (b * 4096) i (vmfree h))\<rparr>"
  shows "heap_ok L h'" "frames_ok L m1" "\<forall>p < 788480. p \<notin> {b..<b + n} \<longrightarrow> pte m1 (p * 4096) = pte m0 (p * 4096)"
proof -
  have g: "present (pde (hvm h) 768)" "present (pde (hvm h) 769)" "frames_ok (L \<union> {b..<b + i}) (hvm h)"
    "786432 \<le> b" "b + n \<le> 788480" "L \<inter> {b..<b + n} = {}" "L \<subseteq> {..<788480}"
    "\<And>p. p < 788480 \<Longrightarrow> p \<notin> {b..<b + i} \<Longrightarrow> pte (hvm h) (p * 4096) = pte m0 (p * 4096)"
    using assms(1) by (simp_all add: growing_def)
  have "set [0..<i] \<subseteq> {..<n}" using assms(3) by auto
  from unwind_pages_effect [OF assms(4) g(5) this] assms(5) have m1:
    "vm_ok m1" "vpmm m1 = pm" "table_frames m1 = table_frames (hvm h)" "pde m1 = pde (hvm h)"
    "\<And>p. p < 788480 \<Longrightarrow> pte m1 (p * 4096) = (if p \<in> (\<lambda>j. b + j) ` set [0..<i] then 0 else pte (hvm h) (p * 4096))"
    by (auto simp: assms(6) vpmm_update_facts pte_pmm)
  have im: "p \<in> (\<lambda>j. b + j) ` set [0..<i] \<longleftrightarrow> p \<in> {b..<b + i}" for p
    by (auto intro: image_eqI [of _ _ "p - b"])
  have sub: "{b..<b + i} \<subseteq> {b..<b + n}" using assms(3) by auto
  show "\<forall>p < 788480. p \<notin> {b..<b + n} \<longrightarrow> pte m1 (p * 4096) = pte m0 (p * 4096)"
    using m1(5) g(8) sub unfolding im by (simp add: subset_eq)
  have "frames_ok L (hvm h)" by (rule frames_ok_subset [OF g(3)]) simp
  then show "frames_ok L m1"
  proof (rule frames_ok_keep)
    fix p assume p: "p \<in> L"
    then have np: "p \<notin> {b..<b + i}" and lt: "p < 788480" using g(6,7) sub by auto
    from m1(5) [OF lt, unfolded im] show "pte m1 (p * 4096) = pte (hvm h) (p * 4096)"
      unfolding if_not_P [OF np] .
  qed (use m1(2,3) assms(7,8) in simp_all)
  have w: "wrap32 (b * 4096 + i * 4096) = (b + i) * 4096" using g(5) assms(3) by (simp add: wrap32_def)
  let ?f1 = "vmfree_insert (b * 4096) i (vmfree h)"
  have r: "fl_ok (vmfree h)" using assms(2) by (simp add: reserved_def)
  note i1 = insert_pages [OF r, of b i] and i2 = insert_pages [of ?f1 "b + i" "n - i"]
  have ivl: "{b..<b + i} \<union> {b + i..<b + n} = {b..<b + n}" using assms(3) by auto
  have f: "fl_ok (vmfree h')" using i1 i2 g(4,5) assms(3) by (simp add: h'_def w)
  have "free_pages (vmfree h') \<subseteq> free_pages ?f1 \<union> {b + i..<b + n}"
    using i1 i2 g(4,5) assms(3) by (simp add: h'_def w)
  moreover have "free_pages ?f1 \<subseteq> free_pages (vmfree h) \<union> {b..<b + i}"
    using i1 g(4,5) assms(3) by simp
  ultimately have f: "fl_ok (vmfree h')" "free_pages (vmfree h') \<subseteq> free_pages (vmfree h) \<union> {b..<b + n}"
    using f ivl by blast+
  have "{b..<b + n} \<subseteq> {786432..<vmalloc_next h div 4096}"
    using assms(2) g(4) by (auto simp: reserved_def)
  then have "free_pages (vmfree h') \<subseteq> {786432..<vmalloc_next h div 4096}"
    "L \<inter> free_pages (vmfree h') = {}"
    using f(2) assms(2) g(6) unfolding reserved_def by blast+
  then show "heap_ok L h'"
    using m1(1,4) g(1,2) f(1) assms(2) unfolding heap_ok_def reserved_def h'_def by simp
qed

text \<open>What a finished allocation of \<open>n\<close> pages has done to the heap with live pages \<open>L\<close>.\<close>

definition alloc_done :: "nat set \<Rightarrow> nat \<Rightarrow> heap \<Rightarrow> nat \<Rightarrow> heap \<Rightarrow> bool" where
  "alloc_done L n h a h' \<longleftrightarrow>
     (if a = 0 then heap_ok L h' \<and> frames_ok L (hvm h') \<and>
        (\<forall>p < 788480. p \<notin> free_pages (vmfree h) \<longrightarrow> p < vmalloc_next h div 4096 \<longrightarrow>
           pte (hvm h') (p * 4096) = pte (hvm h) (p * 4096))
      else \<exists>b. a = b * 4096 \<and> 786432 \<le> b \<and> b + n \<le> 788480 \<and> {b..<b + n} \<inter> L = {} \<and>
        (\<forall>p \<in> {b..<b + n}. p \<in> free_pages (vmfree h) \<or> vmalloc_next h div 4096 \<le> p) \<and>
        heap_ok (L \<union> {b..<b + n}) h' \<and> frames_ok (L \<union> {b..<b + n}) (hvm h') \<and>
        (\<forall>p \<in> {b..<b + n}. frame_at (hvm h') p \<in> free_frames (vpmm (hvm h))) \<and>
        (\<forall>p < 788480. p \<notin> {b..<b + n} \<longrightarrow> pte (hvm h') (p * 4096) = pte (hvm h) (p * 4096)))"

lemma map_pages_effect:
  assumes "growing L b n i m0 (hvm h)" "reserved L b n h" "0 < n"
  shows "\<exists>a h'. map_pages (b * 4096) n [i..<n] h = Some (a, h') \<and>
    (a = b * 4096 \<and> growing L b n n m0 (hvm h') \<and> heap_ok (L \<union> {b..<b + n}) h'
     \<or> a = 0 \<and> heap_ok L h' \<and> frames_ok L (hvm h') \<and> free_frames (vpmm (hvm h')) = {} \<and>
         (\<forall>p < 788480. p \<notin> {b..<b + n} \<longrightarrow> pte (hvm h') (p * 4096) = pte m0 (p * 4096)))"
  using assms
proof (induction "n - i" arbitrary: i h)
  case 0
  then have "i = n" by (simp add: growing_def)
  with 0 grown_heap_ok show ?case by simp
next
  case (Suc k)
  then have i: "i < n" by simp
  have u: "[i..<n] = i # [Suc i..<n]" using i by (simp add: upt_conv_Cons)
  have bn: "b + n \<le> 788480" "786432 \<le> b" "vm_ok (hvm h)" using Suc.prems(1) by (simp_all add: growing_def)
  have w: "wrap32 (b * 4096 + i * 4096) = (b + i) * 4096" using bn i by (simp add: wrap32_def)
  obtain phys pm where al: "pmm_allocp (vpmm (hvm h)) = (phys, pm)" by force
  have wf: "pmm_wf (vpmm (hvm h))" "0 \<notin> free_frames (vpmm (hvm h))" using bn(3) by (simp_all add: vm_ok_def)
  show ?case
  proof (cases "phys = 0")
    case True
    then have pm: "free_frames (vpmm (hvm h)) = {}" "pm = (vpmm (hvm h))\<lparr>next_free_page := 0\<rparr>"
      using al wf by (cases rule: pmm_allocp_cases [OF wf], auto)+
    let ?m = "(hvm h)\<lparr>vpmm := pm\<rparr>"
    have pmw: "pmm_wf pm" "free_frames pm = {}" "bitmap_frames pm = bitmap_frames (vpmm (hvm h))"
      using pm wf by simp_all
    have ok: "vm_ok ?m" by (rule vm_ok_pmm [OF bn(3) pmw(1) _ pmw(3)]) (simp add: pmw(2))
    have "set [0..<i] \<subseteq> {..<n}" using i by auto
    from unwind_pages_effect [OF ok bn(1) this] obtain m1 where m1: "unwind_pages (b * 4096) [0..<i] ?m = Some m1"
      "vpmm m1 = pm" by auto
    note U = unwound_heap_ok [OF Suc.prems(1,2) i ok m1(1) refl pmw(2,3)]
    show ?thesis
      using True al m1 pmw U by (simp add: u Let_def)
  next
    case False
    from growing_step [OF Suc.prems(1) i al False] obtain m1 where m1:
      "vmm_map ((b + i) * 4096) phys (1 OR PAGE_RW) ((hvm h)\<lparr>vpmm := pm\<rparr>) = Some m1"
      "growing L b n (Suc i) m0 m1" by blast
    have "k = n - Suc i" using Suc.hyps(2) by simp
    note IH = Suc.hyps(1) [OF this, of "h\<lparr>hvm := m1\<rparr>"]
    have "map_pages (b * 4096) n [i..<n] h = map_pages (b * 4096) n [Suc i..<n] (h\<lparr>hvm := m1\<rparr>)"
      using False al m1(1) by (simp add: u w [simplified] Let_def)
    with IH m1(2) Suc.prems(2,3) show ?thesis by simp
  qed
qed

lemma map_pages_done:
  assumes "frames_ok L (hvm h)" "vm_ok (hvm h)" "present (pde (hvm h) 768)" "present (pde (hvm h) 769)"
    "reserved L b n h" "0 < n" "786432 \<le> b" "b + n \<le> 788480" "L \<inter> {b..<b + n} = {}" "L \<subseteq> {..<788480}"
    "\<forall>p \<in> {b..<b + n}. p \<in> free_pages (vmfree h0) \<or> vmalloc_next h0 div 4096 \<le> p" "hvm h0 = hvm h"
  shows "\<exists>a h'. map_pages (b * 4096) n [0..<n] h = Some (a, h') \<and> alloc_done L n h0 a h' \<and>
    (a \<noteq> 0 \<or> free_frames (vpmm (hvm h')) = {})"
proof -
  have g: "growing L b n 0 (hvm h) (hvm h)" by (rule growing_start) (use assms in simp_all)
  from map_pages_effect [OF g assms(5,6)] obtain a h' where
    r: "map_pages (b * 4096) n [0..<n] h = Some (a, h')" and
    alt: "a = b * 4096 \<and> growing L b n n (hvm h) (hvm h') \<and> heap_ok (L \<union> {b..<b + n}) h'
     \<or> a = 0 \<and> heap_ok L h' \<and> frames_ok L (hvm h') \<and> free_frames (vpmm (hvm h')) = {} \<and>
         (\<forall>p < 788480. p \<notin> {b..<b + n} \<longrightarrow> pte (hvm h') (p * 4096) = pte (hvm h) (p * 4096))" by blast
  from alt show ?thesis
  proof (elim disjE conjE)
    assume a: "a = b * 4096" and gr: "growing L b n n (hvm h) (hvm h')" and ok: "heap_ok (L \<union> {b..<b + n}) h'"
    have "a \<noteq> 0" using a assms(7) by simp
    then show ?thesis using r a ok gr assms(7-9,11,12) unfolding alloc_done_def growing_def by auto
  next
    assume a: "a = 0" and p: "\<forall>p < 788480. p \<notin> {b..<b + n} \<longrightarrow> pte (hvm h') (p * 4096) = pte (hvm h) (p * 4096)"
      and ok: "heap_ok L h'" "frames_ok L (hvm h')" "free_frames (vpmm (hvm h')) = {}"
    have "pte (hvm h') (q * 4096) = pte (hvm h) (q * 4096)"
      if "q < 788480" "q \<notin> free_pages (vmfree h0)" "q < vmalloc_next h0 div 4096" for q
      using p that assms(11) by (metis not_le)
    with r a ok assms(12) show ?thesis unfolding alloc_done_def by auto
  qed
qed

lemma vmalloc_pages_done:
  assumes "heap_ok L h" "frames_ok L (hvm h)" "0 < n" "n \<le> 65536"
  shows "\<exists>a h'. vmalloc_pages n h = Some (a, h') \<and> alloc_done L n h a h' \<and>
    (a = 0 \<longrightarrow> n \<le> (VMALLOC_END - vmalloc_next h) div 4096 \<longrightarrow> free_frames (vpmm (hvm h')) = {})"
proof -
  have hk: "vm_ok (hvm h)" "present (pde (hvm h) 768)" "present (pde (hvm h) 769)" "fl_ok (vmfree h)"
    "vmalloc_next h mod 4096 = 0" "3221225472 \<le> vmalloc_next h" "vmalloc_next h \<le> VMALLOC_END"
    "free_pages (vmfree h) \<subseteq> {786432..<vmalloc_next h div 4096}"
    "L \<subseteq> {786432..<vmalloc_next h div 4096}" "L \<inter> free_pages (vmfree h) = {}"
    using assms(1) unfolding heap_ok_def by blast+
  have np: "vmalloc_next h div 4096 \<le> 788480" using hk(7) next_page by blast
  then have Llt: "L \<subseteq> {..<788480}" using hk(9) by auto
  have nx: "vmalloc_next h = vmalloc_next h div 4096 * 4096" using hk(5) by (metis add.right_neutral div_mult_mod_eq)
  have np': "786432 \<le> vmalloc_next h div 4096" using div_le_mono [OF hk(6), of 4096] by simp
  obtain base fl where t: "vmfree_take n (vmfree h) = (base, fl)" by force
  show ?thesis
  proof (cases "base = 0")
    case False
    note T = vmfree_take_some [OF t False hk(4) assms(3)]
    define b where "b = base div 4096"
    have b: "base = b * 4096" using T unfolding entry_ok_def b_def by (metis add.right_neutral div_mult_mod_eq fst_conv)
    have po: "pages_of (base, n) = {b..<b + n}" by (simp add: b)
    have sub: "{b..<b + n} \<subseteq> {786432..<vmalloc_next h div 4096}" using T hk(8) po by blast
    have "b \<in> {b..<b + n}" "b + n - 1 \<in> {b..<b + n}" using assms(3) by auto
    then have "b \<in> {786432..<vmalloc_next h div 4096}" "b + n - 1 \<in> {786432..<vmalloc_next h div 4096}"
      using sub by blast+
    then have bb: "786432 \<le> b" "b + n \<le> vmalloc_next h div 4096" using assms(3) by auto
    have fr: "free_pages fl = free_pages (vmfree h) - {b..<b + n}" "fl_ok fl" "{b..<b + n} \<subseteq> free_pages (vmfree h)"
      using T po by simp_all
    have rs: "reserved L b n (h\<lparr>vmfree := fl\<rparr>)"
      using hk(4-10) fr bb unfolding reserved_def by auto
    have "L \<inter> {b..<b + n} = {}" using hk(10) fr(3) by blast
    then have "\<exists>a h'. map_pages (b * 4096) n [0..<n] (h\<lparr>vmfree := fl\<rparr>) = Some (a, h') \<and> alloc_done L n h a h' \<and>
        (a \<noteq> 0 \<or> free_frames (vpmm (hvm h')) = {})"
      by (intro map_pages_done) (use assms(2,3) hk(1-3) rs bb np fr Llt in auto)
    then show ?thesis using False t assms(3,4) by (auto simp: vmalloc_pages_def b)
  next
    case True
    then have fl: "fl = vmfree h" using vmfree_take_none [of n "vmfree h" fl] t hk(4) by simp
    show ?thesis
    proof (cases "n \<le> (VMALLOC_END - vmalloc_next h) div 4096")
      case False
      then have "vmalloc_pages n h = Some (0, h)" using True t fl assms(3,4) by (simp add: vmalloc_pages_def)
      then show ?thesis using assms(1,2) False by (simp add: alloc_done_def)
    next
      case room: True
      define b where "b = vmalloc_next h div 4096"
      have b: "vmalloc_next h = b * 4096" using nx by (simp add: b_def)
      have bn: "b + n \<le> 788480"
      proof -
        have "(VMALLOC_END - b * 4096) div 4096 = 788480 - b"
          unfolding VMALLOC_END_def by (simp flip: diff_mult_distrib)
        with room np show ?thesis by (simp add: b [symmetric] b_def [symmetric])
      qed
      have w: "wrap32 (b * 4096 + n * 4096) = (b + n) * 4096" using bn by (simp add: wrap32_def)
      let ?h = "h\<lparr>vmalloc_next := (b + n) * 4096\<rparr>"
      have rs: "reserved L b n ?h"
        unfolding reserved_def
      proof (intro conjI)
        show "vmalloc_next ?h \<le> VMALLOC_END" using bn by (simp add: VMALLOC_END_def)
        show "3221225472 \<le> vmalloc_next ?h" using np' by (simp add: b_def)
        show "free_pages (vmfree ?h) \<inter> {b..<b + n} = {}" using hk(8) by (auto simp: b_def)
      qed (use hk(4,8-10) in \<open>auto simp: b_def\<close>)
      have "L \<inter> {b..<b + n} = {}" using hk(9) by (auto simp: b_def)
      then have "\<exists>a h'. map_pages (b * 4096) n [0..<n] ?h = Some (a, h') \<and> alloc_done L n h a h' \<and>
          (a \<noteq> 0 \<or> free_frames (vpmm (hvm h')) = {})"
        by (intro map_pages_done) (use assms(2,3) hk(1-3) rs bn np' b_def Llt in auto)
      then show ?thesis
        using True t fl room assms(3,4) hk(7) w by (auto simp: vmalloc_pages_def b [symmetric] not_less)
    qed
  qed
qed

lemma vmalloc_free_done:
  assumes "heap_ok L h" "frames_ok L (hvm h)" "p \<in> L"
  shows "\<exists>h'. vmalloc_free (p * 4096) h = Some h' \<and> heap_ok (L - {p}) h' \<and> frames_ok (L - {p}) (hvm h') \<and>
    \<not> mapped (hvm h') p \<and>
    free_frames (vpmm (hvm h')) = insert (frame_at (hvm h) p) (free_frames (vpmm (hvm h))) \<and>
    (\<forall>x < 788480. x \<noteq> p \<longrightarrow> pte (hvm h') (x * 4096) = pte (hvm h) (x * 4096)) \<and>
    vmalloc_next h' = vmalloc_next h"
proof -
  let ?m = "hvm h" and ?q = "frame_at (hvm h) p"
  have hk: "vm_ok ?m" "present (pde ?m 768)" "present (pde ?m 769)" "fl_ok (vmfree h)"
    "vmalloc_next h mod 4096 = 0" "3221225472 \<le> vmalloc_next h" "vmalloc_next h \<le> VMALLOC_END"
    "free_pages (vmfree h) \<subseteq> {786432..<vmalloc_next h div 4096}"
    "L \<subseteq> {786432..<vmalloc_next h div 4096}" "L \<inter> free_pages (vmfree h) = {}"
    using assms(1) unfolding heap_ok_def by blast+
  have np: "vmalloc_next h div 4096 \<le> 788480" using hk(7) next_page by blast
  then have Llt: "x < 788480" if "x \<in> L" for x using hk(9) that by auto
  have p: "786432 \<le> p" "p < 788480" using assms(3) hk(9) Llt by auto
  have q: "mapped ?m p" "0 < ?q" "?q < bitmap_frames (vpmm ?m)" "?q \<notin> free_frames (vpmm ?m)" "?q \<notin> table_frames ?m"
    using assms(2,3) by (auto simp: frames_ok_def)
  have g: "vmm_get_phys (p * 4096) ?m = Some (?q * 4096)"
    using vmm_get_phys_pte [OF hk(1) heap_pde_lt [OF p(2)]] q(1) by (simp add: mapped_def frame_at_def)
  from vmm_unmap_effect [OF hk(1) heap_pde_lt [OF p(2)]] obtain m1 where m1:
    "vmm_unmap (p * 4096) ?m = Some m1" "vpmm m1 = vpmm ?m" "table_frames m1 = table_frames ?m"
    "pde m1 = pde ?m" "set_effect (p * 4096) 0 ?m m1" by blast
  have pt: "pte m1 (x * 4096) = (if x = p then 0 else pte ?m (x * 4096))" if "x < 788480" for x
    by (rule set_effect_page [OF m1(5) that])
  have ok1: "vm_ok m1" using set_effectD(1) [OF m1(5)] .
  let ?pm = "pmm_freep (?q * 4096) (vpmm ?m)"
  let ?m2 = "m1\<lparr>vpmm := ?pm\<rparr>" and ?fl = "vmfree_insert (p * 4096) 1 (vmfree h)"
  have wf: "pmm_wf (vpmm ?m)" "0 \<notin> free_frames (vpmm ?m)" using hk(1) by (simp_all add: vm_ok_def)
  note pf = pmm_freep_free [OF wf(1), of "?q * 4096"]
  have ff: "free_frames ?pm = insert ?q (free_frames (vpmm ?m))" using pf(3) q(2,3) by simp
  have ok2: "vm_ok ?m2"
    unfolding vm_ok_def vpmm_update_facts
  proof (intro conjI)
    show "table_frames m1 \<inter> free_frames (vpmm ?m2) = {}"
      using ok1 ff q(5) m1(2,3) by (simp add: vm_ok_def)
    show "0 \<notin> free_frames (vpmm ?m2)" using ff wf(2) q(2) by simp
  qed (use ok1 pf(1,2) m1(2) in \<open>simp_all add: vm_ok_def\<close>)
  have f: "fl_ok ?fl" "free_pages ?fl \<subseteq> free_pages (vmfree h) \<union> {p..<p + 1}"
    using insert_pages [OF hk(4), of p 1] p by simp_all
  have keep: "mapped ?m2 x = mapped ?m x \<and> frame_at ?m2 x = frame_at ?m x" if "x \<in> L - {p}" for x
    using pt [of x] Llt [of x] that by (simp add: mapped_def frame_at_def pte_pmm)
  have inj: "inj_on (frame_at ?m) L" using assms(2) by (simp add: frames_ok_def)
  have nq: "frame_at ?m x \<noteq> ?q" if "x \<in> L - {p}" for x
    using inj that assms(3) by (auto simp: inj_on_def)
  have fo: "frames_ok (L - {p}) ?m2"
    unfolding frames_ok_def
  proof (intro conjI ballI)
    show "inj_on (frame_at ?m2) (L - {p})" using inj keep by (auto simp: inj_on_def)
    fix x assume x: "x \<in> L - {p}"
    then show "mapped ?m2 x" "0 < frame_at ?m2 x" "frame_at ?m2 x < bitmap_frames (vpmm ?m2)"
      "frame_at ?m2 x \<notin> free_frames (vpmm ?m2)" "frame_at ?m2 x \<notin> table_frames ?m2"
      using keep [OF x] nq [OF x] assms(2) ff pf(2) m1(3) by (auto simp: frames_ok_def vpmm_update_facts)
  qed
  let ?h' = "h\<lparr>hvm := ?m2, vmfree := ?fl\<rparr>"
  have run: "vmalloc_free (p * 4096) h = Some ?h'"
    using g m1(1,2) q(2) by (simp add: vmalloc_free_def)
  have "free_pages ?fl \<subseteq> {786432..<vmalloc_next h div 4096}" "(L - {p}) \<inter> free_pages ?fl = {}"
    using f(2) hk(8-10) assms(3) by auto
  then have hok: "heap_ok (L - {p}) ?h'"
    using ok2 hk(2,3,5-9) f(1) m1(4) unfolding heap_ok_def by (auto simp: vpmm_update_facts)
  have "\<not> mapped ?m2 p" using pt [OF p(2)] by (simp add: mapped_def pte_pmm)
  then show ?thesis
    using run hok fo ff pt by (intro exI [of _ ?h']) (simp add: pte_pmm)
qed

section \<open>Reachable heaps\<close>

text \<open>
  The heap from \<open>vmalloc_init\<close> on, with its live pages: \<open>vmalloc_pages\<close> and \<open>vmalloc_free\<close> of a live
  page, and anything the rest of the kernel does to memory that leaves the live pages alone.
\<close>

inductive heap_reach :: "heap \<Rightarrow> nat set \<Rightarrow> bool" where
  init: "vm_ok m \<Longrightarrow> present (pde m 768) \<Longrightarrow> present (pde m 769) \<Longrightarrow> 3221225472 \<le> kernel_end \<Longrightarrow>
    kernel_end \<le> VMALLOC_END \<Longrightarrow> heap_reach (vmalloc_init kernel_end m) {}"
| alloc: "heap_reach h L \<Longrightarrow> vmalloc_pages n h = Some (a, h') \<Longrightarrow>
    heap_reach h' (if a = 0 then L else L \<union> {a div 4096..<a div 4096 + n})"
| free: "heap_reach h L \<Longrightarrow> p \<in> L \<Longrightarrow> vmalloc_free (p * 4096) h = Some h' \<Longrightarrow> heap_reach h' (L - {p})"
| other: "heap_reach h L \<Longrightarrow> vm_ok m \<Longrightarrow> present (pde m 768) \<Longrightarrow> present (pde m 769) \<Longrightarrow>
    \<forall>p \<in> L. pte m (p * 4096) = pte (hvm h) (p * 4096) \<and>
      frame_at m p \<notin> free_frames (vpmm m) \<union> table_frames m \<Longrightarrow>
    bitmap_frames (vpmm m) = bitmap_frames (vpmm (hvm h)) \<Longrightarrow> heap_reach (h\<lparr>hvm := m\<rparr>) L"

lemma vmalloc_init_ok:
  assumes "vm_ok m" "present (pde m 768)" "present (pde m 769)" "3221225472 \<le> ke" "ke \<le> VMALLOC_END"
  shows "heap_ok {} (vmalloc_init ke m)" "frames_ok {} m"
proof -
  have k: "ke div 4096 * 4096 \<le> ke" "786432 \<le> (ke + 4095) div 4096" "(ke + 4095) div 4096 \<le> 788480"
    using assms(4,5) div_le_mono [of "3221225472 + 4095" "ke + 4095" 4096]
      div_le_mono [of "ke + 4095" "VMALLOC_END + 4095" 4096] by (simp_all add: VMALLOC_END_def)
  have "wrap32 (page_up ke) = (ke + 4095) div 4096 * 4096"
    using k(3) by (simp add: wrap32_def page_up_def)
  with k assms(1-3) show "heap_ok {} (vmalloc_init ke m)"
    by (simp add: heap_ok_def vmalloc_init_def Let_def fl_ok_def free_pages_def VMALLOC_END_def)
  show "frames_ok {} m" by (simp add: frames_ok_def)
qed

lemma heap_reach_ok: "heap_reach h L \<Longrightarrow> heap_ok L h \<and> frames_ok L (hvm h)"
proof (induction rule: heap_reach.induct)
  case (init m kernel_end)
  then show ?case using vmalloc_init_ok [of m kernel_end] by (simp add: vmalloc_init_def Let_def)
next
  case (alloc h L n a h')
  show ?case
  proof (cases "n = 0 \<or> 65536 < n")
    case True
    with alloc show ?thesis by (auto simp: vmalloc_pages_def)
  next
    case False
    with vmalloc_pages_done [of L h n] alloc have d: "alloc_done L n h a h'" by auto
    show ?thesis
    proof (cases "a = 0")
      case True
      with d show ?thesis by (simp add: alloc_done_def)
    next
      case False
      with d obtain b where "a = b * 4096" "heap_ok (L \<union> {b..<b + n}) h'" "frames_ok (L \<union> {b..<b + n}) (hvm h')"
        by (auto simp: alloc_done_def)
      with False show ?thesis by simp
    qed
  qed
next
  case (free h L p h')
  then show ?case using vmalloc_free_done [of L h p] by auto
next
  case (other h L m)
  have "frames_ok L m"
    unfolding frames_ok_def
  proof (intro conjI ballI)
    have e: "frame_at m p = frame_at (hvm h) p \<and> mapped m p = mapped (hvm h) p" if "p \<in> L" for p
      using other that by (simp add: frame_at_def mapped_def)
    show "inj_on (frame_at m) L" using other e by (auto simp: frames_ok_def inj_on_def)
    fix p assume "p \<in> L"
    with other e show "mapped m p" "0 < frame_at m p" "frame_at m p < bitmap_frames (vpmm m)"
      "frame_at m p \<notin> free_frames (vpmm m)" "frame_at m p \<notin> table_frames m" by (auto simp: frames_ok_def)
  qed
  with other show ?case by (simp add: heap_ok_def)
qed

section \<open>Properties\<close>


text \<open>The heap at boot: the whole first 4 MiB of the kernel half is mapped, the kernel image ends
  at \<open>0xC0150000\<close> and one frame is free.\<close>

definition boot_heap :: heap where
  "boot_heap = vmalloc_init 3222601728 (demo_vm1 (\<lambda>p. 786432 \<le> p \<and> p < 787456))"

lemma boot_heap_reach: "heap_reach boot_heap {}"
proof -
  let ?u = "\<lambda>p. 786432 \<le> p \<and> p < (787456::nat)"
  have pd: "pde (demo_vm1 ?u) = pde (demo_vm ?u)"
    by (simp add: demo_vm1_def vpmm_update_facts)
  show ?thesis
    unfolding boot_heap_def
    by (rule heap_reach.init [OF demo_vm1_ok(1)])
      (use demo_frame [of 768 ?u] demo_frame [of 769 ?u] in \<open>simp_all add: pd VMALLOC_END_def\<close>)
qed


text \<open>Freeing a page. For a live page \<open>vmalloc_free\<close> unmaps that page and no other, gives its frame
  back to the allocator, makes the range available again and keeps the heap consistent, so that an
  allocation that follows can be served from it.\<close>

theorem vmalloc_free_correct:
  assumes "heap_reach h L" "p \<in> L"
  shows "\<exists>h'. vmalloc_free (p * 4096) h = Some h' \<and> heap_ok (L - {p}) h' \<and> frames_ok (L - {p}) (hvm h') \<and>
    \<not> mapped (hvm h') p \<and>
    free_frames (vpmm (hvm h')) = insert (frame_at (hvm h) p) (free_frames (vpmm (hvm h))) \<and>
    (\<forall>x < 788480. x \<noteq> p \<longrightarrow> pte (hvm h') (x * 4096) = pte (hvm h) (x * 4096))"
  using vmalloc_free_done [OF _ _ assms(2)] heap_reach_ok [OF assms(1)] by blast

text \<open>A failed allocation leaks memory. When the heap window has room for the \<open>n\<close> pages and
  \<open>vmalloc_pages\<close> fails all the same, it has taken every free frame and gives none of them back:
  \<open>memman_get_phys\<close> is asked for the frame after the page has been unmapped and answers 0.\<close>

theorem vmalloc_failure_leaks:
  assumes "heap_reach h L" "0 < n" "n \<le> 65536"
    "n \<le> (VMALLOC_END - vmalloc_next h) div 4096" "vmalloc_pages n h = Some (0, h')"
  shows "free_frames (vpmm (hvm h')) = {}"
  using vmalloc_pages_done [OF _ _ assms(2,3)] heap_reach_ok [OF assms(1)] assms(4,5) by fastforce

theorem vmalloc_failure_leaks_witness:
  "\<exists>h'. vmalloc_pages 2 boot_heap = Some (0, h') \<and> free_frames (vpmm (hvm boot_heap)) = {2000} \<and>
     free_frames (vpmm (hvm h')) = {}"
proof -
  have fr: "free_frames (vpmm (hvm boot_heap)) = {2000}"
    by (simp add: boot_heap_def vmalloc_init_def Let_def demo_vm1_ok(3))
  have nx: "vmalloc_next boot_heap = 3222601728"
    by (simp add: boot_heap_def vmalloc_init_def Let_def page_up_def wrap32_def)
  from vmalloc_pages_done [of "{}" boot_heap 2] heap_reach_ok [OF boot_heap_reach] obtain a h' where
    r: "vmalloc_pages 2 boot_heap = Some (a, h')" "alloc_done {} 2 boot_heap a h'" by auto
  have "a = 0"
  proof (rule ccontr)
    assume "a \<noteq> 0"
    with r(2) obtain b where b: "\<forall>p \<in> {b..<b + 2}. frame_at (hvm h') p = 2000"
      "frames_ok {b..<b + 2} (hvm h')" by (auto simp: alloc_done_def fr)
    then have "frame_at (hvm h') b = frame_at (hvm h') (b + 1)" "inj_on (frame_at (hvm h')) {b..<b + 2}"
      by (simp_all add: frames_ok_def)
    from inj_onD [OF this(2,1)] show False by simp
  qed
  with r(1) vmalloc_failure_leaks [OF boot_heap_reach, of 2 h'] fr nx show ?thesis
    by (auto simp: VMALLOC_END_def)
qed

end
