(* ===== verification/Kmsg.thy ===== *)
theory Kmsg
  imports Prelude
begin

text \<open>
  The kernel message log (\<open>kernel/kernel/log/kmsg.c\<close>): a ring of 8192 bytes that holds
  tagged records, pushed by \<open>klog\<close> and read through the streams of \<open>/dvc/kmsg\<close>.  A full ring
  drops its oldest bytes, also in the middle of a record, so a reader looks for a record
  start before it decodes.  A byte is an \<open>u8\<close>, the caller's buffer is the list of the bytes
  written to it, and the reading loop takes a fuel that \<open>kmsg_read_terminates\<close> shows to be
  enough.  Interrupts are off in every operation, so each is one step.
\<close>

section \<open>State\<close>

definition KMSG_BUFFER_SIZE :: nat where "KMSG_BUFFER_SIZE = 8192"
definition KMSG_TAG :: u8 where "KMSG_TAG = 1"
definition KMSG_HEADER_LEN :: nat where "KMSG_HEADER_LEN = 4"
definition KMSG_LABEL_LEN :: nat where "KMSG_LABEL_LEN = 7"
definition KMSG_MAX_RECORD :: nat where "KMSG_MAX_RECORD = 65535"
definition KLOG_INFO :: int where "KLOG_INFO = 0"
definition KLOG_WARN :: int where "KLOG_WARN = 1"

record kmsg =
  kbuf :: "u8 list"
  khead :: nat
  ktail :: nat

record kmsg_stream =
  slevel :: int
  labeled :: bool

record kmsg_handle =
  kstream :: kmsg_stream
  cursor :: nat
  pending :: nat

definition kmsg_all_stream :: kmsg_stream where
  "kmsg_all_stream = \<lparr>slevel = - 1, labeled = True\<rparr>"
definition kmsg_log_stream :: kmsg_stream where
  "kmsg_log_stream = \<lparr>slevel = KLOG_INFO, labeled = False\<rparr>"
definition kmsg_warn_stream :: kmsg_stream where
  "kmsg_warn_stream = \<lparr>slevel = KLOG_WARN, labeled = False\<rparr>"

definition kmsg_boot :: kmsg where
  "kmsg_boot = \<lparr>kbuf = replicate KMSG_BUFFER_SIZE 0, khead = 0, ktail = 0\<rparr>"

lemma size_pos [simp]: "0 < KMSG_BUFFER_SIZE" and size_gt1 [simp]: "Suc 0 < KMSG_BUFFER_SIZE"
  by (simp_all add: KMSG_BUFFER_SIZE_def)

section \<open>Pushing\<close>

definition kmsg_push_byte :: "u8 \<Rightarrow> kmsg \<Rightarrow> kmsg" where
  "kmsg_push_byte c k =
    (let nxt = (khead k + 1) mod KMSG_BUFFER_SIZE;
         k = (if nxt = ktail k then k\<lparr>ktail := (ktail k + 1) mod KMSG_BUFFER_SIZE\<rparr> else k)
     in k\<lparr>kbuf := (kbuf k)[khead k := c], khead := nxt\<rparr>)"

text \<open>The level and the length are normalised, then the four header bytes and the data follow.\<close>

definition kmsg_push :: "int \<Rightarrow> u8 list \<Rightarrow> kmsg \<Rightarrow> kmsg" where
  "kmsg_push level data k =
    (let level = (if level \<noteq> KLOG_INFO \<and> level \<noteq> KLOG_WARN then KLOG_INFO else level);
         len = (if length data > KMSG_MAX_RECORD then KMSG_MAX_RECORD else length data);
         k = kmsg_push_byte KMSG_TAG k;
         k = kmsg_push_byte (word_of_int level) k;
         k = kmsg_push_byte (of_nat (len mod 256)) k;
         k = kmsg_push_byte (of_nat (len div 256 mod 256)) k
     in fold kmsg_push_byte (take len data) k)"

section \<open>Reading\<close>

text \<open>
  \<open>(head - cursor + KMSG_BUFFER_SIZE) % KMSG_BUFFER_SIZE\<close>: the unsigned subtraction wraps and
  the sum wraps back, so on cursors inside the ring it is this number.
\<close>

definition kmsg_dist :: "kmsg \<Rightarrow> nat \<Rightarrow> nat" where
  "kmsg_dist k cur = (khead k + KMSG_BUFFER_SIZE - cur) mod KMSG_BUFFER_SIZE"

fun kmsg_resync_loop :: "nat \<Rightarrow> kmsg \<Rightarrow> nat \<Rightarrow> nat option" where
  "kmsg_resync_loop 0 k cur = None"
| "kmsg_resync_loop (Suc fuel) k cur =
    (if cur = khead k then Some cur
     else if kbuf k ! cur \<noteq> KMSG_TAG
     then kmsg_resync_loop fuel k ((cur + 1) mod KMSG_BUFFER_SIZE)
     else if kmsg_dist k cur < KMSG_HEADER_LEN then Some cur
     else let level = uint (kbuf k ! ((cur + 1) mod KMSG_BUFFER_SIZE)) in
       if level = KLOG_INFO \<or> level = KLOG_WARN then Some cur
       else kmsg_resync_loop fuel k ((cur + 1) mod KMSG_BUFFER_SIZE))"

definition kmsg_resync :: "kmsg \<Rightarrow> nat \<Rightarrow> nat option" where
  "kmsg_resync k from = kmsg_resync_loop (Suc KMSG_BUFFER_SIZE) k from"

text \<open>\<open>kmsg_open\<close>: the Boolean is whether \<open>kmalloc\<close> succeeds.\<close>

definition kmsg_open :: "kmsg \<Rightarrow> kmsg_stream \<Rightarrow> bool \<Rightarrow> (int + kmsg_handle) option" where
  "kmsg_open k impl alloc_ok =
    (if \<not> alloc_ok then Some (Inl PLAINERR)
     else do { c \<leftarrow> kmsg_resync k (ktail k);
               Some (Inr \<lparr>kstream = impl, cursor = c, pending = 0\<rparr>) })"

text \<open>The rest of a record that the previous read left over.\<close>

fun kmsg_read_pending :: "kmsg \<Rightarrow> nat \<Rightarrow> nat \<Rightarrow> nat \<Rightarrow> u8 list \<Rightarrow> nat \<times> nat \<times> u8 list" where
  "kmsg_read_pending k len cur 0 out = (cur, 0, out)"
| "kmsg_read_pending k len cur (Suc p) out =
    (if length out < len
     then kmsg_read_pending k len ((cur + 1) mod KMSG_BUFFER_SIZE) p (out @ [kbuf k ! cur])
     else (cur, Suc p, out))"

fun kmsg_copy_body :: "kmsg \<Rightarrow> nat \<Rightarrow> nat \<Rightarrow> u8 list \<Rightarrow> nat \<times> u8 list" where
  "kmsg_copy_body k cur 0 out = (cur, out)"
| "kmsg_copy_body k cur (Suc n) out =
    kmsg_copy_body k ((cur + 1) mod KMSG_BUFFER_SIZE) n (out @ [kbuf k ! cur])"

definition kmsg_label :: "int \<Rightarrow> u8 list" where
  "kmsg_label level = map of_char (if level = KLOG_WARN then ''[WARN] '' else ''[INFO] '')"

text \<open>The four header bytes: the level, the length of the body and the cursor behind them.\<close>

definition kmsg_header :: "kmsg \<Rightarrow> nat \<Rightarrow> int \<times> nat \<times> nat" where
  "kmsg_header k record_start =
    (let cur = (record_start + 1) mod KMSG_BUFFER_SIZE;
         level = uint (kbuf k ! cur);
         cur = (cur + 1) mod KMSG_BUFFER_SIZE;
         body_len = unat (kbuf k ! cur);
         cur = (cur + 1) mod KMSG_BUFFER_SIZE;
         body_len = body_len + 256 * unat (kbuf k ! cur);
         cur = (cur + 1) mod KMSG_BUFFER_SIZE
     in (if level \<noteq> KLOG_INFO \<and> level \<noteq> KLOG_WARN then KLOG_INFO else level, body_len, cur))"

text \<open>
  The loop over the records.  A \<open>break\<close> returns the cursor, the pending count and the output
  as they are at that point.
\<close>

primrec kmsg_read_loop ::
  "nat \<Rightarrow> kmsg \<Rightarrow> kmsg_stream \<Rightarrow> nat \<Rightarrow> nat \<Rightarrow> nat \<Rightarrow> u8 list \<Rightarrow> (nat \<times> nat \<times> u8 list) option" where
  "kmsg_read_loop 0 k s len cur pend out = None"
| "kmsg_read_loop (Suc fuel) k s len cur pend out =
    (if \<not> (pend = 0 \<and> cur \<noteq> khead k \<and> length out < len) then Some (cur, pend, out)
     else if kbuf k ! cur \<noteq> KMSG_TAG
     then kmsg_read_loop fuel k s len ((cur + 1) mod KMSG_BUFFER_SIZE) pend (out @ [kbuf k ! cur])
     else if kmsg_dist k cur < KMSG_HEADER_LEN then Some (cur, pend, out)
     else case kmsg_header k cur of (level, body_len, body) \<Rightarrow>
       if kmsg_dist k body < body_len then Some (body, pend, out)
       else if \<not> (slevel s < 0 \<or> slevel s = level)
       then kmsg_read_loop fuel k s len ((body + body_len) mod KMSG_BUFFER_SIZE) pend out
       else if labeled s \<and> length out + KMSG_LABEL_LEN > len then Some (cur, pend, out)
       else (let out = (if labeled s then out @ kmsg_label level else out);
                 take = min body_len (len - length out)
             in case kmsg_copy_body k body take out of (cur, out) \<Rightarrow>
               if take < body_len then Some (cur, body_len - take, out)
               else kmsg_read_loop fuel k s len cur pend out))"

text \<open>The output of \<open>kmsg_read\<close> and the handle after it; its length is the return value.\<close>

definition kmsg_read :: "kmsg \<Rightarrow> kmsg_handle \<Rightarrow> nat \<Rightarrow> (u8 list \<times> kmsg_handle) option" where
  "kmsg_read k h len =
    do { (cur, pend) \<leftarrow>
           (if cursor h < ktail k \<or> cursor h > khead k
            then do { c \<leftarrow> kmsg_resync k (ktail k); Some (c, 0) }
            else Some (cursor h, pending h));
         let (cur, pend, out) = kmsg_read_pending k len cur pend [];
         (cur, pend, out) \<leftarrow>
           kmsg_read_loop (Suc KMSG_BUFFER_SIZE) k (kstream h) len cur pend out;
         Some (out, h\<lparr>cursor := cur, pending := pend\<rparr>) }"


section \<open>The contents of the ring\<close>

definition kmsg_ok :: "kmsg \<Rightarrow> bool" where
  "kmsg_ok k \<longleftrightarrow> length (kbuf k) = KMSG_BUFFER_SIZE \<and> khead k < KMSG_BUFFER_SIZE
     \<and> ktail k < KMSG_BUFFER_SIZE"

definition kmsg_bytes :: "kmsg \<Rightarrow> nat \<Rightarrow> nat \<Rightarrow> u8 list" where
  "kmsg_bytes k cur n = map (\<lambda>i. kbuf k ! ((cur + i) mod KMSG_BUFFER_SIZE)) [0..<n]"

text \<open>The abstract value of the log: the bytes from the tail to the head, oldest first.\<close>

definition kmsg_contents :: "kmsg \<Rightarrow> u8 list" where
  "kmsg_contents k = kmsg_bytes k (ktail k) (kmsg_dist k (ktail k))"

definition last_bytes :: "nat \<Rightarrow> 'a list \<Rightarrow> 'a list" where
  "last_bytes m xs = drop (length xs - m) xs"

lemma last_bytes_absorb: "last_bytes m (last_bytes m xs @ ys) = last_bytes m (xs @ ys)"
  by (cases "length xs \<le> m") (auto simp: last_bytes_def add.commute)

lemma last_bytes_short: "length xs \<le> m \<Longrightarrow> last_bytes m xs = xs"
  by (simp add: last_bytes_def)

lemma length_kmsg_bytes [simp]: "length (kmsg_bytes k cur n) = n"
  by (simp add: kmsg_bytes_def)

lemma kmsg_bytes_0 [simp]: "kmsg_bytes k cur 0 = []"
  by (simp add: kmsg_bytes_def)

lemma kmsg_bytes_add:
  "kmsg_bytes k cur (a + b)
   = kmsg_bytes k cur a @ kmsg_bytes k ((cur + a) mod KMSG_BUFFER_SIZE) b"
  by (rule nth_equalityI) (auto simp: kmsg_bytes_def nth_append mod_simps algebra_simps)

lemma kmsg_bytes_Suc:
  "cur < KMSG_BUFFER_SIZE \<Longrightarrow> kmsg_bytes k cur (Suc n)
   = kbuf k ! cur # kmsg_bytes k ((cur + 1) mod KMSG_BUFFER_SIZE) n"
  using kmsg_bytes_add [of k cur 1 n] by (simp add: kmsg_bytes_def)

lemma kmsg_dist_alt:
  assumes "kmsg_ok k" "cur < KMSG_BUFFER_SIZE"
  shows "kmsg_dist k cur = (if cur \<le> khead k then khead k - cur
           else khead k + KMSG_BUFFER_SIZE - cur)"
proof (cases "cur \<le> khead k")
  case True
  then have "khead k + KMSG_BUFFER_SIZE - cur = (khead k - cur) + KMSG_BUFFER_SIZE" by simp
  moreover have "khead k - cur < KMSG_BUFFER_SIZE" using assms by (auto simp: kmsg_ok_def)
  ultimately show ?thesis using True by (simp only: kmsg_dist_def mod_add_self2 mod_less if_True)
qed (use assms in \<open>auto simp: kmsg_dist_def kmsg_ok_def\<close>)

lemma wrap_alt:
  "cur < KMSG_BUFFER_SIZE \<Longrightarrow> a \<le> KMSG_BUFFER_SIZE \<Longrightarrow> (cur + a) mod KMSG_BUFFER_SIZE
   = (if cur + a < KMSG_BUFFER_SIZE then cur + a else cur + a - KMSG_BUFFER_SIZE)"
  by (auto simp: mod_if)

lemma kmsg_dist_less:
  assumes "kmsg_ok k" "cur < KMSG_BUFFER_SIZE"
  shows "kmsg_dist k cur < KMSG_BUFFER_SIZE"
  using assms by (auto simp: kmsg_dist_alt kmsg_ok_def)

lemma kmsg_dist_0_iff:
  assumes "kmsg_ok k" "cur < KMSG_BUFFER_SIZE"
  shows "kmsg_dist k cur = 0 \<longleftrightarrow> cur = khead k"
  using assms by (auto simp: kmsg_dist_alt kmsg_ok_def)

lemma kmsg_dist_advance:
  assumes "kmsg_ok k" "cur < KMSG_BUFFER_SIZE" "a \<le> kmsg_dist k cur"
  shows "kmsg_dist k ((cur + a) mod KMSG_BUFFER_SIZE) = kmsg_dist k cur - a"
proof -
  have a: "a \<le> KMSG_BUFFER_SIZE" using assms(3) kmsg_dist_less [OF assms(1,2)] by simp
  have "(cur + a) mod KMSG_BUFFER_SIZE < KMSG_BUFFER_SIZE" by simp
  from kmsg_dist_alt [OF assms(1) this] kmsg_dist_alt [OF assms(1,2)] wrap_alt [OF assms(2) a]
    assms a show ?thesis
    by (auto simp: kmsg_ok_def split: if_splits)
qed

lemma kmsg_push_byte_ok: "kmsg_ok k \<Longrightarrow> kmsg_ok (kmsg_push_byte c k)"
  by (auto simp: kmsg_ok_def kmsg_push_byte_def Let_def)

lemma kmsg_push_byte_contents:
  assumes "kmsg_ok k"
  shows "kmsg_contents (kmsg_push_byte c k)
         = last_bytes (KMSG_BUFFER_SIZE - 1) (kmsg_contents k @ [c])"
proof -
  define d where "d = kmsg_dist k (ktail k)"
  have t: "ktail k < KMSG_BUFFER_SIZE" and h: "khead k < KMSG_BUFFER_SIZE"
    and l: "length (kbuf k) = KMSG_BUFFER_SIZE" using assms by (auto simp: kmsg_ok_def)
  have dl: "d < KMSG_BUFFER_SIZE" unfolding d_def by (rule kmsg_dist_less [OF assms t])
  have hd: "(ktail k + d) mod KMSG_BUFFER_SIZE = khead k"
    using kmsg_dist_alt [OF assms t] wrap_alt [OF t, of d] t h dl
    by (auto simp: d_def split: if_splits)
  have ne: "(ktail k + i) mod KMSG_BUFFER_SIZE \<noteq> khead k" if "i < d" for i
    using wrap_alt [OF t, of i] wrap_alt [OF t, of d] that dl hd by (auto split: if_splits)
  have full: "(khead k + 1) mod KMSG_BUFFER_SIZE = ktail k \<longleftrightarrow> d = KMSG_BUFFER_SIZE - 1"
    using kmsg_dist_alt [OF assms t] wrap_alt [OF h, of 1] t h
    by (auto simp: d_def split: if_splits)
  define k2 where "k2 = k\<lparr>kbuf := (kbuf k)[khead k := c],
      khead := (khead k + 1) mod KMSG_BUFFER_SIZE\<rparr>"
  have b2: "kmsg_bytes k2 (ktail k) (Suc d) = kmsg_bytes k (ktail k) d @ [c]"
  proof (rule nth_equalityI)
    fix i assume "i < length (kmsg_bytes k2 (ktail k) (Suc d))"
    then show "kmsg_bytes k2 (ktail k) (Suc d) ! i = (kmsg_bytes k (ktail k) d @ [c]) ! i"
      using hd ne [of i] h l
      by (cases "i < d") (auto simp: kmsg_bytes_def k2_def nth_append less_Suc_eq simp del: upt_Suc)
  qed simp
  have cont: "kmsg_contents k = kmsg_bytes k (ktail k) d" by (simp add: kmsg_contents_def d_def)
  have h2: "khead (kmsg_push_byte c k) = (khead k + 1) mod KMSG_BUFFER_SIZE"
    by (simp add: kmsg_push_byte_def Let_def)
  show ?thesis
  proof (cases "d = KMSG_BUFFER_SIZE - 1")
    case True
    let ?t = "(ktail k + 1) mod KMSG_BUFFER_SIZE"
    have p: "kmsg_push_byte c k = k2\<lparr>ktail := ?t\<rparr>"
      using full True by (simp add: kmsg_push_byte_def k2_def Let_def)
    have ok2: "kmsg_ok (kmsg_push_byte c k)" by (rule kmsg_push_byte_ok [OF assms])
    have "khead (kmsg_push_byte c k) = ktail k" using full True h2 by simp
    then have "kmsg_dist (kmsg_push_byte c k) ?t = d"
      using kmsg_dist_alt [OF ok2, of ?t] True wrap_alt [OF t, of 1] t by auto
    then have "kmsg_contents (kmsg_push_byte c k) = kmsg_bytes k2 ?t d"
      by (simp add: kmsg_contents_def p kmsg_bytes_def)
    also have "\<dots> = tl (kmsg_bytes k2 (ktail k) (Suc d))"
      by (subst kmsg_bytes_Suc [OF t]) simp
    also have "\<dots> = drop 1 (kmsg_contents k @ [c])" by (simp only: b2 cont drop_Suc One_nat_def drop_0)
    also have "1 = length (kmsg_contents k @ [c]) - (KMSG_BUFFER_SIZE - 1)"
      by (simp add: cont True KMSG_BUFFER_SIZE_def)
    finally show ?thesis by (simp only: last_bytes_def)
  next
    case False
    have p: "kmsg_push_byte c k = k2"
      using full False by (simp add: kmsg_push_byte_def k2_def Let_def)
    have ok2: "kmsg_ok k2" using kmsg_push_byte_ok [OF assms] p by metis
    have "kmsg_dist k2 (ktail k) = Suc d"
      using kmsg_dist_alt [OF ok2 t] kmsg_dist_alt [OF assms t] full False t h wrap_alt [OF h, of 1]
      by (auto simp: k2_def d_def split: if_splits)
    then have "kmsg_contents k2 = kmsg_contents k @ [c]"
      using b2 cont by (simp add: kmsg_contents_def k2_def)
    then show ?thesis using p False dl cont by (simp add: last_bytes_def)
  qed
qed

lemma kmsg_push_bytes:
  "kmsg_ok k \<Longrightarrow> kmsg_ok (fold kmsg_push_byte cs k)
   \<and> kmsg_contents (fold kmsg_push_byte cs k)
     = last_bytes (KMSG_BUFFER_SIZE - 1) (kmsg_contents k @ cs)"
proof (induction cs arbitrary: k)
  case Nil
  then have "length (kmsg_contents k) \<le> KMSG_BUFFER_SIZE - 1"
    using kmsg_dist_less [OF Nil, of "ktail k"] by (simp add: kmsg_contents_def kmsg_ok_def)
  then show ?case using Nil by (simp add: last_bytes_short)
next
  case (Cons c cs)
  from Cons.IH [OF kmsg_push_byte_ok [OF Cons.prems]] kmsg_push_byte_contents [OF Cons.prems, of c]
  show ?case using last_bytes_absorb [of "KMSG_BUFFER_SIZE - 1" "kmsg_contents k @ [c]" cs] by simp
qed

text \<open>The bytes of one record.\<close>

definition kmsg_norm :: "int \<Rightarrow> int" where
  "kmsg_norm level = (if level \<noteq> KLOG_INFO \<and> level \<noteq> KLOG_WARN then KLOG_INFO else level)"

definition kmsg_encode :: "int \<Rightarrow> u8 list \<Rightarrow> u8 list" where
  "kmsg_encode level data = (let body = take KMSG_MAX_RECORD data in
     [KMSG_TAG, word_of_int (kmsg_norm level), of_nat (length body mod 256),
      of_nat (length body div 256 mod 256)] @ body)"

lemma kmsg_push_eq: "kmsg_push level data k = fold kmsg_push_byte (kmsg_encode level data) k"
  by (auto simp: kmsg_push_def kmsg_encode_def kmsg_norm_def Let_def min_def)

text \<open>C19: A push is a bounded queue: the log's contents after it are the last 8191 bytes of the
  old contents followed by the encoded record, and the ring stays well formed.\<close>

theorem kmsg_push_refines:
  assumes "kmsg_ok k"
  shows "kmsg_ok (kmsg_push level data k)
    \<and> kmsg_contents (kmsg_push level data k)
      = last_bytes 8191 (kmsg_contents k @ kmsg_encode level data)"
  using kmsg_push_bytes [OF assms, of "kmsg_encode level data"]
  by (simp add: kmsg_push_eq KMSG_BUFFER_SIZE_def)

lemma kmsg_boot_ok: "kmsg_ok kmsg_boot" by (simp add: kmsg_ok_def kmsg_boot_def)
lemma kmsg_boot_contents: "kmsg_contents kmsg_boot = []"
  by (simp add: kmsg_contents_def kmsg_dist_def kmsg_boot_def)

theorem kmsg_push_refines_witness:
  "kmsg_ok (kmsg_push KLOG_WARN [104, 105] kmsg_boot)
    \<and> kmsg_contents (kmsg_push KLOG_WARN [104, 105] kmsg_boot) = [1, 1, 2, 0, 104, 105]"
  using kmsg_push_refines [OF kmsg_boot_ok, of KLOG_WARN "[104, 105]"]
  by (simp add: kmsg_boot_contents kmsg_encode_def last_bytes_def KMSG_TAG_def kmsg_norm_def
      KLOG_WARN_def KLOG_INFO_def KMSG_MAX_RECORD_def Let_def)

section \<open>Reading terminates within its bounds\<close>

lemma kmsg_header_cursor: "snd (snd (kmsg_header k cur)) = (cur + 4) mod KMSG_BUFFER_SIZE"
proof -
  have four: "(1::nat) + (1 + (1 + 1)) = 4" by simp
  have "((((cur + 1) mod KMSG_BUFFER_SIZE + 1) mod KMSG_BUFFER_SIZE + 1) mod KMSG_BUFFER_SIZE + 1)
      mod KMSG_BUFFER_SIZE = (cur + 4) mod KMSG_BUFFER_SIZE"
    by (simp only: mod_add_left_eq add.assoc four)
  then show ?thesis by (simp only: kmsg_header_def Let_def fst_conv snd_conv)
qed

lemma kmsg_copy_body:
  "cur < KMSG_BUFFER_SIZE \<Longrightarrow> kmsg_copy_body k cur n out
   = ((cur + n) mod KMSG_BUFFER_SIZE, out @ kmsg_bytes k cur n)"
  by (induction n arbitrary: cur out) (auto simp: kmsg_bytes_Suc mod_simps)

lemma kmsg_read_pending_bounds:
  "cur < KMSG_BUFFER_SIZE \<Longrightarrow> length out \<le> len
   \<Longrightarrow> kmsg_read_pending k len cur p out = (c', p', out')
   \<Longrightarrow> c' < KMSG_BUFFER_SIZE \<and> length out' \<le> len"
proof (induction p arbitrary: cur out)
  case (Suc p)
  then show ?case
    using Suc.IH [of "(cur + 1) mod KMSG_BUFFER_SIZE" "out @ [kbuf k ! cur]"]
    by (simp split: if_splits)
qed simp

lemma kmsg_resync_total:
  "kmsg_ok k \<Longrightarrow> cur < KMSG_BUFFER_SIZE \<Longrightarrow> kmsg_dist k cur < fuel
   \<Longrightarrow> \<exists>c. kmsg_resync_loop fuel k cur = Some c \<and> c < KMSG_BUFFER_SIZE"
proof (induction fuel arbitrary: cur)
  case (Suc fuel)
  show ?case
  proof (cases "cur = khead k")
    case False
    then have d: "1 \<le> kmsg_dist k cur" using kmsg_dist_0_iff [OF Suc.prems(1,2)] by simp
    have "kmsg_dist k ((cur + 1) mod KMSG_BUFFER_SIZE) < fuel"
      using kmsg_dist_advance [OF Suc.prems(1,2) d] d Suc.prems(3) by simp
    from Suc.IH [OF Suc.prems(1) _ this] show ?thesis using False Suc.prems(2)
      by (simp add: Let_def)
  qed (use Suc.prems in simp)
qed simp

lemma kmsg_read_loop_total:
  "kmsg_ok k \<Longrightarrow> cur < KMSG_BUFFER_SIZE \<Longrightarrow> kmsg_dist k cur < fuel \<Longrightarrow> length out \<le> len
   \<Longrightarrow> \<exists>c p out'. kmsg_read_loop fuel k s len cur pend out = Some (c, p, out')
        \<and> c < KMSG_BUFFER_SIZE \<and> length out' \<le> len"
proof (induction fuel arbitrary: cur out)
  case (Suc fuel)
  note ok = Suc.prems(1) and cur = Suc.prems(2)
  obtain level bl body where hd: "kmsg_header k cur = (level, bl, body)" by (cases "kmsg_header k cur")
  have body: "body = (cur + 4) mod KMSG_BUFFER_SIZE" using kmsg_header_cursor [of k cur] hd by simp
  show ?case
  proof (cases "pend = 0 \<and> cur \<noteq> khead k \<and> length out < len")
    case go: True
    then have d: "1 \<le> kmsg_dist k cur" using kmsg_dist_0_iff [OF ok cur] by simp
    have step: "kmsg_dist k ((cur + 1) mod KMSG_BUFFER_SIZE) < fuel"
      using kmsg_dist_advance [OF ok cur d] d Suc.prems(3) by simp
    show ?thesis
    proof (cases "kbuf k ! cur \<noteq> KMSG_TAG")
      case True
      with go Suc.IH [OF ok _ step, of "out @ [kbuf k ! cur]"] show ?thesis by simp
    next
      case tag: False
      show ?thesis
      proof (cases "kmsg_dist k cur < KMSG_HEADER_LEN \<or> kmsg_dist k body < bl
          \<or> slevel s \<ge> 0 \<and> slevel s \<noteq> level \<and> False")
        case True
        then show ?thesis using go tag hd cur Suc.prems(4) body by auto
      next
        case False
        then have h4: "4 \<le> kmsg_dist k cur" and bl: "bl \<le> kmsg_dist k body"
          by (auto simp: KMSG_HEADER_LEN_def)
        have db: "kmsg_dist k body = kmsg_dist k cur - 4"
          unfolding body by (rule kmsg_dist_advance [OF ok cur h4])
        have bN: "body < KMSG_BUFFER_SIZE" by (simp add: body)
        have nx: "kmsg_dist k ((body + bl) mod KMSG_BUFFER_SIZE) < fuel"
          using kmsg_dist_advance [OF ok bN bl] db h4 Suc.prems(3) by simp
        define out2 where "out2 = (if labeled s then out @ kmsg_label level else out)"
        have o2: "length out2 \<le> len" if "\<not> (labeled s \<and> length out + KMSG_LABEL_LEN > len)"
          using that Suc.prems(4) by (auto simp: out2_def kmsg_label_def KMSG_LABEL_LEN_def)
        define tk where "tk = min bl (len - length out2)"
        have cp: "kmsg_copy_body k body tk out2
            = ((body + tk) mod KMSG_BUFFER_SIZE, out2 @ kmsg_bytes k body tk)"
          by (rule kmsg_copy_body [OF bN])
        have unf: "kmsg_read_loop (Suc fuel) k s len cur pend out =
          (if \<not> (slevel s < 0 \<or> slevel s = level)
           then kmsg_read_loop fuel k s len ((body + bl) mod KMSG_BUFFER_SIZE) pend out
           else if labeled s \<and> length out + KMSG_LABEL_LEN > len then Some (cur, pend, out)
           else if tk < bl
           then Some ((body + tk) mod KMSG_BUFFER_SIZE, bl - tk, out2 @ kmsg_bytes k body tk)
           else kmsg_read_loop fuel k s len ((body + tk) mod KMSG_BUFFER_SIZE) pend
                  (out2 @ kmsg_bytes k body tk))"
          using go tag hd h4 bl cp
          by (simp add: KMSG_HEADER_LEN_def Let_def out2_def [symmetric] tk_def [symmetric])
        have "length (out2 @ kmsg_bytes k body tk) \<le> len"
          if "\<not> (labeled s \<and> length out + KMSG_LABEL_LEN > len)"
          using o2 [OF that] by (simp add: tk_def)
        moreover have "tk = bl" if "\<not> tk < bl" using that by (simp add: tk_def)
        ultimately show ?thesis unfolding unf
          using Suc.IH [OF ok _ nx Suc.prems(4)] Suc.IH [OF ok _ nx, of "out2 @ kmsg_bytes k body bl"]
            cur Suc.prems(4) by (auto split: if_split)
      qed
    qed
  qed (use Suc.prems in auto)
qed simp

text \<open>C20: A read of the log returns: the fuel of the model, one step per byte of the ring, is
  enough for every well-formed ring, handle and buffer length, resynchronisation included; at
  most \<open>len\<close> bytes are written to the caller's buffer and the handle's cursor stays inside the
  ring.\<close>

theorem kmsg_read_terminates:
  assumes "kmsg_ok k" and "cursor h < KMSG_BUFFER_SIZE"
  shows "\<exists>out h'. kmsg_read k h len = Some (out, h') \<and> length out \<le> len
           \<and> cursor h' < KMSG_BUFFER_SIZE \<and> kstream h' = kstream h"
proof -
  have ok: "kmsg_dist k c < Suc KMSG_BUFFER_SIZE" if "c < KMSG_BUFFER_SIZE" for c
    using kmsg_dist_less [OF assms(1) that] by simp
  have t: "ktail k < KMSG_BUFFER_SIZE" using assms(1) by (simp add: kmsg_ok_def)
  obtain c0 where rs: "kmsg_resync k (ktail k) = Some c0" "c0 < KMSG_BUFFER_SIZE"
    unfolding kmsg_resync_def using kmsg_resync_total [OF assms(1) t ok [OF t]] by blast
  obtain c p where st: "(if cursor h < ktail k \<or> cursor h > khead k
        then do { c \<leftarrow> kmsg_resync k (ktail k); Some (c, 0) } else Some (cursor h, pending h))
      = Some (c, p)" and c: "c < KMSG_BUFFER_SIZE"
    using rs assms(2) that by (cases "cursor h < ktail k \<or> cursor h > khead k") auto
  obtain c1 p1 o1 where pd: "kmsg_read_pending k len c p [] = (c1, p1, o1)"
    by (cases "kmsg_read_pending k len c p []")
  from kmsg_read_pending_bounds [OF c _ pd] have c1: "c1 < KMSG_BUFFER_SIZE" and o1: "length o1 \<le> len"
    by simp_all
  from kmsg_read_loop_total [OF assms(1) c1 ok [OF c1] o1, of "kstream h" p1]
  obtain c2 p2 o2 where lp: "kmsg_read_loop (Suc KMSG_BUFFER_SIZE) k (kstream h) len c1 p1 o1
      = Some (c2, p2, o2)" "c2 < KMSG_BUFFER_SIZE" "length o2 \<le> len" by (elim exE conjE) (rule that)
  have "kmsg_read k h len = Some (o2, h\<lparr>cursor := c2, pending := p2\<rparr>)"
    unfolding kmsg_read_def st using pd lp by (simp del: kmsg_read_loop.simps)
  then show ?thesis using lp by simp
qed

theorem kmsg_read_terminates_witness:
  "\<exists>out h'. kmsg_read kmsg_boot \<lparr>kstream = kmsg_all_stream, cursor = 17, pending = 5\<rparr> 3 = Some (out, h')
     \<and> length out \<le> 3 \<and> cursor h' < KMSG_BUFFER_SIZE \<and> kstream h' = kmsg_all_stream"
  using kmsg_read_terminates [OF kmsg_boot_ok,
      of "\<lparr>kstream = kmsg_all_stream, cursor = 17, pending = 5\<rparr>" 3]
  by (simp add: KMSG_BUFFER_SIZE_def)

section \<open>What a reader sees\<close>

text \<open>The text of a record on a stream: nothing if the stream filters its level out.\<close>

definition kmsg_render :: "kmsg_stream \<Rightarrow> int \<times> u8 list \<Rightarrow> u8 list" where
  "kmsg_render s r = (if slevel s < 0 \<or> slevel s = kmsg_norm (fst r)
     then (if labeled s then kmsg_label (kmsg_norm (fst r)) else []) @ snd r else [])"

definition kmsg_push_all :: "(int \<times> u8 list) list \<Rightarrow> kmsg \<Rightarrow> kmsg" where
  "kmsg_push_all rs k = fold (\<lambda>r. kmsg_push (fst r) (snd r)) rs k"

lemma kmsg_push_all_bytes:
  "kmsg_push_all rs k = fold kmsg_push_byte (concat (map (\<lambda>r. kmsg_encode (fst r) (snd r)) rs)) k"
  by (induction rs arbitrary: k) (auto simp: kmsg_push_all_def kmsg_push_eq)

lemma length_body_split:
  "n \<le> KMSG_MAX_RECORD
   \<Longrightarrow> unat (of_nat (n mod 256) :: u8) + 256 * unat (of_nat (n div 256 mod 256) :: u8) = n"
proof -
  assume n: "n \<le> KMSG_MAX_RECORD"
  have "unat (of_nat (n mod 256) :: u8) = n mod 256"
    by (simp add: unat_of_nat take_bit_eq_mod)
  moreover have "unat (of_nat (n div 256 mod 256) :: u8) = n div 256 mod 256"
    by (simp add: unat_of_nat take_bit_eq_mod)
  moreover have "n div 256 < 256" using n by (simp add: KMSG_MAX_RECORD_def)
  ultimately show ?thesis by simp
qed

lemma kmsg_norm_cases: "kmsg_norm l = 0 \<or> kmsg_norm l = 1"
  by (auto simp: kmsg_norm_def KLOG_INFO_def KLOG_WARN_def)

lemma kmsg_norm_level: "uint (word_of_int (kmsg_norm l) :: u8) = kmsg_norm l"
  using kmsg_norm_cases [of l] by auto

lemma kmsg_encode_decode:
  assumes ok: "kmsg_ok k" and cur: "cur < KMSG_BUFFER_SIZE" and n: "length data \<le> KMSG_MAX_RECORD"
    and b: "kmsg_bytes k cur (4 + m) = take (4 + m) (kmsg_encode l data @ rest)"
    and m: "length data \<le> m"
  shows "kbuf k ! cur = KMSG_TAG"
    and "kmsg_header k cur = (kmsg_norm l, length data, (cur + 4) mod KMSG_BUFFER_SIZE)"
    and "kmsg_bytes k ((cur + 4) mod KMSG_BUFFER_SIZE) (length data) = data"
    and "kbuf k ! ((cur + 1) mod KMSG_BUFFER_SIZE) = word_of_int (kmsg_norm l)"
proof -
  have at: "kbuf k ! ((cur + i) mod KMSG_BUFFER_SIZE) = (kmsg_encode l data @ rest) ! i"
    if "i < 4 + m" for i
  proof -
    have "kmsg_bytes k cur (4 + m) ! i = (kmsg_encode l data @ rest) ! i"
      unfolding b using that by (simp only: nth_take)
    then show ?thesis using that by (simp add: kmsg_bytes_def)
  qed
  have e: "kmsg_encode l data = [KMSG_TAG, word_of_int (kmsg_norm l), of_nat (length data mod 256),
      of_nat (length data div 256 mod 256)] @ data"
    using n by (simp add: kmsg_encode_def)
  show "kbuf k ! cur = KMSG_TAG" using at [of 0] cur by (simp add: e)
  have c: "((cur + 1) mod KMSG_BUFFER_SIZE + 1) mod KMSG_BUFFER_SIZE = (cur + 2) mod KMSG_BUFFER_SIZE"
    "((cur + 2) mod KMSG_BUFFER_SIZE + 1) mod KMSG_BUFFER_SIZE = (cur + 3) mod KMSG_BUFFER_SIZE"
    "((cur + 3) mod KMSG_BUFFER_SIZE + 1) mod KMSG_BUFFER_SIZE = (cur + 4) mod KMSG_BUFFER_SIZE"
    by (simp_all only: mod_add_left_eq add.assoc) simp_all
  have a1: "kbuf k ! ((cur + 1) mod KMSG_BUFFER_SIZE) = word_of_int (kmsg_norm l)"
    "kbuf k ! ((cur + 2) mod KMSG_BUFFER_SIZE) = of_nat (length data mod 256)"
    "kbuf k ! ((cur + 3) mod KMSG_BUFFER_SIZE) = of_nat (length data div 256 mod 256)"
    by (subst at, simp, simp add: e)+
  show "kbuf k ! ((cur + 1) mod KMSG_BUFFER_SIZE) = word_of_int (kmsg_norm l)" by (rule a1(1))
  have lev: "(if kmsg_norm l \<noteq> KLOG_INFO \<and> kmsg_norm l \<noteq> KLOG_WARN then KLOG_INFO else kmsg_norm l)
      = kmsg_norm l" using kmsg_norm_cases [of l] by (auto simp: KLOG_INFO_def KLOG_WARN_def)
  show "kmsg_header k cur = (kmsg_norm l, length data, (cur + 4) mod KMSG_BUFFER_SIZE)"
    unfolding kmsg_header_def Let_def c a1 kmsg_norm_level length_body_split [OF n] lev by (rule refl)
  have "kbuf k ! ((cur + (4 + i)) mod KMSG_BUFFER_SIZE) = data ! i" if "i < length data" for i
    using at [of "4 + i"] that m by (simp add: e nth_append)
  then show "kmsg_bytes k ((cur + 4) mod KMSG_BUFFER_SIZE) (length data) = data"
    by (intro nth_equalityI) (auto simp: kmsg_bytes_def mod_simps add.assoc)
qed

lemma kmsg_read_loop_records:
  assumes ok: "kmsg_ok k"
  shows "cur < KMSG_BUFFER_SIZE \<Longrightarrow> length rs < fuel
    \<Longrightarrow> kmsg_bytes k cur (kmsg_dist k cur) = concat (map (\<lambda>r. kmsg_encode (fst r) (snd r)) rs)
    \<Longrightarrow> \<forall>r\<in>set rs. length (snd r) \<le> KMSG_MAX_RECORD
    \<Longrightarrow> length out + length (concat (map (kmsg_render s) rs)) < len
    \<Longrightarrow> kmsg_read_loop fuel k s len cur 0 out
        = Some (khead k, 0, out @ concat (map (kmsg_render s) rs))"
proof (induction rs arbitrary: cur out fuel)
  case Nil
  have "kmsg_dist k cur = 0" using Nil.prems(3) by (metis length_kmsg_bytes list.size(3) concat.simps(1) list.map(1))
  then have "cur = khead k" using kmsg_dist_0_iff [OF ok Nil.prems(1)] by simp
  then show ?case using Nil.prems by (cases fuel) auto
next
  case (Cons r rs)
  obtain l data where r: "r = (l, data)" by (cases r)
  obtain f where f: "fuel = Suc f" "length rs < f" using Cons.prems(2) by (cases fuel) auto
  define rest where "rest = concat (map (\<lambda>r. kmsg_encode (fst r) (snd r)) rs)"
  define n where "n = length data"
  have nmax: "length data \<le> KMSG_MAX_RECORD" using Cons.prems(4) r by simp
  have el: "length (kmsg_encode l data) = 4 + n" using nmax by (simp add: kmsg_encode_def n_def)
  have bs: "kmsg_bytes k cur (kmsg_dist k cur) = kmsg_encode l data @ rest"
    using Cons.prems(3) by (simp add: r rest_def)
  have dl: "kmsg_dist k cur = 4 + n + length rest" using arg_cong [OF bs, of length] el by simp
  have split: "kmsg_bytes k cur (4 + n) = kmsg_encode l data"
    "kmsg_bytes k ((cur + (4 + n)) mod KMSG_BUFFER_SIZE) (length rest) = rest"
  proof -
    have "kmsg_bytes k cur (4 + n) @ kmsg_bytes k ((cur + (4 + n)) mod KMSG_BUFFER_SIZE) (length rest)
        = kmsg_encode l data @ rest" using bs unfolding dl by (simp only: kmsg_bytes_add)
    then show "kmsg_bytes k cur (4 + n) = kmsg_encode l data"
      "kmsg_bytes k ((cur + (4 + n)) mod KMSG_BUFFER_SIZE) (length rest) = rest"
      using el by auto
  qed
  have b: "kmsg_bytes k cur (4 + n) = take (4 + n) (kmsg_encode l data @ [])" using split(1) el by simp
  note dec = kmsg_encode_decode [OF ok Cons.prems(1) nmax b eq_refl [OF n_def [symmetric]]]
  define body where "body = (cur + 4) mod KMSG_BUFFER_SIZE"
  have bN: "body < KMSG_BUFFER_SIZE" by (simp add: body_def)
  have db: "kmsg_dist k body = n + length rest"
    unfolding body_def using kmsg_dist_advance [OF ok Cons.prems(1), of 4] dl by simp
  define nxt where "nxt = (body + n) mod KMSG_BUFFER_SIZE"
  have nx: "nxt = (cur + (4 + n)) mod KMSG_BUFFER_SIZE"
    by (simp only: nxt_def body_def mod_add_left_eq add.assoc)
  have dn: "kmsg_dist k nxt = length rest"
    unfolding nx using kmsg_dist_advance [OF ok Cons.prems(1), of "4 + n"] dl by simp
  have nN: "nxt < KMSG_BUFFER_SIZE" by (simp add: nxt_def)
  have ne: "cur \<noteq> khead k" using kmsg_dist_0_iff [OF ok Cons.prems(1)] dl by simp
  define out2 where "out2 = (if labeled s then out @ kmsg_label (kmsg_norm l) else out)"
  have cp: "kmsg_copy_body k body n out2 = (nxt, out2 @ data)"
    using kmsg_copy_body [OF bN, of k n out2] dec(3) by (simp add: nxt_def body_def n_def)
  have ll: "length (kmsg_label z) = 7" for z by (simp add: kmsg_label_def)
  have IH: "kmsg_read_loop f k s len nxt 0 (out @ kmsg_render s r)
      = Some (khead k, 0, (out @ kmsg_render s r) @ concat (map (kmsg_render s) rs))"
    by (rule Cons.IH [OF nN f(2)])
      (use Cons.prems(4,5) dn split(2) in \<open>auto simp: rest_def nx\<close>)
  have lt: "length out < len" using Cons.prems(5) by simp
  have unf: "kmsg_read_loop fuel k s len cur 0 out =
    (if \<not> (slevel s < 0 \<or> slevel s = kmsg_norm l) then kmsg_read_loop f k s len nxt 0 out
     else if labeled s \<and> length out + KMSG_LABEL_LEN > len then Some (cur, 0, out)
     else case kmsg_copy_body k body (min n (len - length out2)) out2 of (c, out3) \<Rightarrow>
       if min n (len - length out2) < n then Some (c, n - min n (len - length out2), out3)
       else kmsg_read_loop f k s len c 0 out3)"
    using ne lt dec(1,2) dl db
    by (simp add: f(1) KMSG_HEADER_LEN_def Let_def out2_def [symmetric] body_def [symmetric]
        n_def [symmetric] nxt_def [symmetric])
  show ?case
  proof (cases "slevel s < 0 \<or> slevel s = kmsg_norm l")
    case keep: True
    then have rn: "out @ kmsg_render s r = out2 @ data" by (simp add: kmsg_render_def r out2_def)
    have fit: "length out2 + n < len" "\<not> (labeled s \<and> length out + KMSG_LABEL_LEN > len)"
      using Cons.prems(5) rn keep
      by (auto simp: out2_def n_def r kmsg_render_def ll KMSG_LABEL_LEN_def split: if_splits)
    then have mn: "min n (len - length out2) = n" by simp
    have "out @ concat (map (kmsg_render s) (r # rs)) = (out2 @ data) @ concat (map (kmsg_render s) rs)"
      by (simp add: rn [symmetric])
    then show ?thesis unfolding unf mn cp using keep fit(2) IH [unfolded rn] by auto
  next
    case False
    then have "kmsg_render s r = []" by (simp add: kmsg_render_def r)
    then show ?thesis unfolding unf using False IH by simp
  qed
qed

lemma take_kmsg_bytes: "m \<le> n \<Longrightarrow> take m (kmsg_bytes k cur n) = kmsg_bytes k cur m"
  by (simp add: kmsg_bytes_def take_map)

lemma kmsg_resync_record:
  assumes ok: "kmsg_ok k" and cur: "cur < KMSG_BUFFER_SIZE"
    and b: "kmsg_bytes k cur (kmsg_dist k cur) = concat (map (\<lambda>r. kmsg_encode (fst r) (snd r)) rs)"
    and n: "\<forall>r\<in>set rs. length (snd r) \<le> KMSG_MAX_RECORD"
  shows "kmsg_resync k cur = Some cur"
proof (cases rs)
  case Nil
  then have "kmsg_dist k cur = 0" using arg_cong [OF b, of length] by simp
  then show ?thesis using kmsg_dist_0_iff [OF ok cur] by (simp add: kmsg_resync_def)
next
  case (Cons r rs')
  obtain l data where r: "r = (l, data)" by (cases r)
  define rest where "rest = concat (map (\<lambda>r. kmsg_encode (fst r) (snd r)) rs')"
  have nm: "length data \<le> KMSG_MAX_RECORD" using n Cons r by simp
  then have el: "length (kmsg_encode l data) = 4 + length data" by (simp add: kmsg_encode_def)
  have bs: "kmsg_bytes k cur (kmsg_dist k cur) = kmsg_encode l data @ rest"
    using b by (simp add: Cons r rest_def)
  have d: "4 + length data \<le> kmsg_dist k cur" using arg_cong [OF bs, of length] el by simp
  have "kmsg_bytes k cur (4 + length data) = take (4 + length data) (kmsg_encode l data @ rest)"
    using take_kmsg_bytes [OF d, of k cur] unfolding bs by (rule sym)
  note dec = kmsg_encode_decode [OF ok cur nm this order_refl]
  have "uint (kbuf k ! ((cur + 1) mod KMSG_BUFFER_SIZE)) = kmsg_norm l"
    by (simp only: dec(4) kmsg_norm_level)
  then show ?thesis using dec(1) d kmsg_norm_cases [of l]
    by (simp add: kmsg_resync_def KMSG_HEADER_LEN_def KLOG_INFO_def KLOG_WARN_def Let_def)
qed

lemma kmsg_push_bytes_linear:
  "khead k + length cs < KMSG_BUFFER_SIZE \<Longrightarrow> ktail k = 0
   \<Longrightarrow> ktail (fold kmsg_push_byte cs k) = 0
     \<and> khead (fold kmsg_push_byte cs k) = khead k + length cs"
proof (induction cs arbitrary: k)
  case (Cons c cs)
  have "kmsg_push_byte c k = k\<lparr>kbuf := (kbuf k)[khead k := c], khead := khead k + 1\<rparr>"
    using Cons.prems by (simp add: kmsg_push_byte_def)
  then show ?case using Cons.IH [of "kmsg_push_byte c k"] Cons.prems by simp
qed simp

lemma length_le_concat: "xs \<in> set xss \<Longrightarrow> length xs \<le> length (concat xss)"
  by (induction xss) auto

text \<open>C21: What is logged is what a reader gets: as long as the encoded records fit the ring, a
  stream opened on the log reads exactly the texts of the records it keeps, in the order they
  were pushed and with their labels, provided its buffer has room; and the next read returns
  nothing.\<close>

theorem kmsg_read_back:
  assumes fits: "length (concat (map (\<lambda>r. kmsg_encode (fst r) (snd r)) rs)) < KMSG_BUFFER_SIZE"
    and cap: "\<forall>r\<in>set rs. length (snd r) \<le> KMSG_MAX_RECORD"
    and room: "length (concat (map (kmsg_render s) rs)) < len"
  shows "\<exists>h h'. kmsg_open (kmsg_push_all rs kmsg_boot) s True = Some (Inr h)
    \<and> kmsg_read (kmsg_push_all rs kmsg_boot) h len = Some (concat (map (kmsg_render s) rs), h')
    \<and> kmsg_read (kmsg_push_all rs kmsg_boot) h' len = Some ([], h')"
proof -
  define bs where "bs = concat (map (\<lambda>r. kmsg_encode (fst r) (snd r)) rs)"
  define k where "k = kmsg_push_all rs kmsg_boot"
  have kb: "k = fold kmsg_push_byte bs kmsg_boot" by (simp add: k_def bs_def kmsg_push_all_bytes)
  have ok: "kmsg_ok k" unfolding kb using kmsg_push_bytes [OF kmsg_boot_ok] by blast
  have t: "ktail k = 0" and h: "khead k = length bs"
    using kmsg_push_bytes_linear [of kmsg_boot bs] fits by (auto simp: kb bs_def kmsg_boot_def)
  have bytes: "kmsg_bytes k 0 (kmsg_dist k 0) = bs"
  proof -
    have "kmsg_contents k = last_bytes (KMSG_BUFFER_SIZE - 1) (kmsg_contents kmsg_boot @ bs)"
      unfolding kb using kmsg_push_bytes [OF kmsg_boot_ok] by blast
    then have "kmsg_contents k = bs" using fits [folded bs_def]
      by (simp add: kmsg_boot_contents last_bytes_short)
    then show ?thesis by (simp add: kmsg_contents_def t)
  qed
  have rs: "kmsg_resync k (ktail k) = Some 0"
    unfolding t by (rule kmsg_resync_record [OF ok _ _ cap]) (use bytes bs_def in simp_all)
  define hd where "hd = \<lparr>kstream = s, cursor = 0, pending = 0\<rparr>"
  have op: "kmsg_open k s True = Some (Inr hd)" by (simp add: kmsg_open_def rs hd_def)
  have len: "length rs \<le> length bs" unfolding bs_def
    by (induction rs) (auto simp: kmsg_encode_def Let_def)
  have lp: "kmsg_read_loop (Suc KMSG_BUFFER_SIZE) k s len 0 0 []
      = Some (khead k, 0, [] @ concat (map (kmsg_render s) rs))"
    by (rule kmsg_read_loop_records [OF ok]) (use len fits bytes cap room in \<open>auto simp: bs_def\<close>)
  have r1: "kmsg_read k hd len
      = Some (concat (map (kmsg_render s) rs), hd\<lparr>cursor := khead k, pending := 0\<rparr>)"
    by (simp add: kmsg_read_def hd_def t lp del: kmsg_read_loop.simps)
  have r2: "kmsg_read k (hd\<lparr>cursor := khead k, pending := 0\<rparr>) len
      = Some ([], hd\<lparr>cursor := khead k, pending := 0\<rparr>)"
    by (simp add: kmsg_read_def hd_def t)
  from op r1 r2 show ?thesis unfolding k_def by blast
qed

theorem kmsg_read_back_witness:
  "\<exists>h h'. kmsg_open (kmsg_push_all [(KLOG_INFO, [104]), (KLOG_WARN, [105])] kmsg_boot)
      kmsg_warn_stream True = Some (Inr h)
    \<and> kmsg_read (kmsg_push_all [(KLOG_INFO, [104]), (KLOG_WARN, [105])] kmsg_boot) h 64 = Some ([105], h')
    \<and> kmsg_read (kmsg_push_all [(KLOG_INFO, [104]), (KLOG_WARN, [105])] kmsg_boot) h' 64 = Some ([], h')"
  using kmsg_read_back [of "[(KLOG_INFO, [104]), (KLOG_WARN, [105])]" kmsg_warn_stream 64]
  by (simp add: kmsg_encode_def KMSG_BUFFER_SIZE_def KMSG_MAX_RECORD_def kmsg_render_def
      kmsg_warn_stream_def kmsg_norm_def KLOG_INFO_def KLOG_WARN_def)

section \<open>A wrapped ring\<close>

lemma kmsg_read_wrapped:
  assumes "khead k < ktail k"
  shows "kmsg_read k h len =
    do { c \<leftarrow> kmsg_resync k (ktail k);
         (cur, pend, out) \<leftarrow> kmsg_read_loop (Suc KMSG_BUFFER_SIZE) k (kstream h) len c 0 [];
         Some (out, h\<lparr>cursor := cur, pending := pend\<rparr>) }"
proof -
  have "cursor h < ktail k \<or> cursor h > khead k" using assms by linarith
  then show ?thesis by (simp add: kmsg_read_def Let_def del: kmsg_read_loop.simps)
qed

text \<open>Once the ring has wrapped (the head is below the tail) a reader makes no progress: the
  test that is to catch an overrun cursor, \<open>cursor < tail || cursor > head\<close>, holds of every
  cursor then, so each read starts again at the oldest record, whatever the handle has read
  before, and returns the same bytes.\<close>

theorem kmsg_wrapped_reader_restarts:
  assumes "khead k < ktail k" and "kmsg_read k h len = Some (out, h')"
  shows "kmsg_read k h' len = Some (out, h')"
proof -
  obtain c cur pend where r: "kmsg_resync k (ktail k) = Some c"
    "kmsg_read_loop (Suc KMSG_BUFFER_SIZE) k (kstream h) len c 0 [] = Some (cur, pend, out)"
    "h' = h\<lparr>cursor := cur, pending := pend\<rparr>"
    using assms(2) unfolding kmsg_read_wrapped [OF assms(1)]
    by (auto simp: bind_eq_Some_conv simp del: kmsg_read_loop.simps split: prod.splits)
  then show ?thesis unfolding kmsg_read_wrapped [OF assms(1)]
    by (simp del: kmsg_read_loop.simps)
qed

definition kmsg_wrapped :: kmsg where
  "kmsg_wrapped = \<lparr>kbuf = (replicate KMSG_BUFFER_SIZE 0)
     [8188 := 1, 8189 := 0, 8190 := 2, 8191 := 0, 0 := 104, 1 := 105], khead = 2, ktail = 8188\<rparr>"

theorem kmsg_wrapped_reader_restarts_witness:
  "kmsg_read kmsg_wrapped \<lparr>kstream = kmsg_log_stream, cursor = 1, pending = 1\<rparr> 1
     = Some ([104], \<lparr>kstream = kmsg_log_stream, cursor = 1, pending = 1\<rparr>)
   \<and> kmsg_read kmsg_wrapped \<lparr>kstream = kmsg_log_stream, cursor = 1, pending = 1\<rparr> 1
     = Some ([104], \<lparr>kstream = kmsg_log_stream, cursor = 1, pending = 1\<rparr>)"
proof -
  have w: "khead kmsg_wrapped < ktail kmsg_wrapped" by (simp add: kmsg_wrapped_def)
  have "kmsg_read kmsg_wrapped \<lparr>kstream = kmsg_log_stream, cursor = 1, pending = 1\<rparr> 1
     = Some ([104], \<lparr>kstream = kmsg_log_stream, cursor = 1, pending = 1\<rparr>)"
    unfolding kmsg_read_wrapped [OF w] kmsg_resync_def kmsg_resync_loop.simps kmsg_read_loop.simps
    by (simp add: kmsg_wrapped_def KMSG_BUFFER_SIZE_def KMSG_TAG_def kmsg_dist_def
        KMSG_HEADER_LEN_def KLOG_INFO_def KLOG_WARN_def kmsg_header_def kmsg_log_stream_def Let_def
        nth_list_update)
  from this kmsg_wrapped_reader_restarts [OF w this] show ?thesis ..
qed

end
