(* ===== verification/Kbd.thy ===== *)
theory Kbd
  imports Prelude
begin

text \<open>
  The keyboard: the packet queues between the interrupt handler and the readers
  (\<open>kernel/kernel/drivers/kbd/core.c\<close>), the decoding of a packet to a character
  (\<open>libc/panuti/kbd/kpktasc.c\<close>) and the line discipline of \<open>/dvc/kbd/line\<close>
  (\<open>kernel/kernel/drivers/kbd/line.c\<close>).  A read of the line device is a function of the
  packets its queue delivers while it runs; if they end before the line is complete it is
  still waiting.  The console is the list of the characters written to it.  Only the task
  that owns the line changes it (\<open>line_claim_other\<close>), so the packets of one read need no
  interleaving with other readers.
\<close>

section \<open>Key packets\<close>

type_synonym keycode = nat

definition KEYCODE_A :: keycode where "KEYCODE_A = 1"
definition KEYCODE_C :: keycode where "KEYCODE_C = 3"
definition KEYCODE_D :: keycode where "KEYCODE_D = 4"
definition KEYCODE_H :: keycode where "KEYCODE_H = 8"
definition KEYCODE_U :: keycode where "KEYCODE_U = 21"
definition KEYCODE_Z :: keycode where "KEYCODE_Z = 26"
definition KEYCODE_0 :: keycode where "KEYCODE_0 = 27"
definition KEYCODE_9 :: keycode where "KEYCODE_9 = 36"
definition KEYCODE_PERIOD :: keycode where "KEYCODE_PERIOD = 37"
definition KEYCODE_COMMA :: keycode where "KEYCODE_COMMA = 38"
definition KEYCODE_SEMICOLON :: keycode where "KEYCODE_SEMICOLON = 39"
definition KEYCODE_APOSTROPHE :: keycode where "KEYCODE_APOSTROPHE = 40"
definition KEYCODE_MINUS :: keycode where "KEYCODE_MINUS = 41"
definition KEYCODE_EQUALS :: keycode where "KEYCODE_EQUALS = 42"
definition KEYCODE_SLASH :: keycode where "KEYCODE_SLASH = 43"
definition KEYCODE_BACKSLASH :: keycode where "KEYCODE_BACKSLASH = 44"
definition KEYCODE_LBRACKET :: keycode where "KEYCODE_LBRACKET = 45"
definition KEYCODE_RBRACKET :: keycode where "KEYCODE_RBRACKET = 46"
definition KEYCODE_SPACE :: keycode where "KEYCODE_SPACE = 56"
definition KEYCODE_TAB :: keycode where "KEYCODE_TAB = 57"
definition KEYCODE_BACKSPACE :: keycode where "KEYCODE_BACKSPACE = 58"
definition KEYCODE_ENTER :: keycode where "KEYCODE_ENTER = 59"
definition KEYCODE_BACKTICK :: keycode where "KEYCODE_BACKTICK = 60"

lemmas keycode_defs = KEYCODE_A_def KEYCODE_C_def KEYCODE_D_def KEYCODE_H_def KEYCODE_U_def
  KEYCODE_Z_def KEYCODE_0_def KEYCODE_9_def KEYCODE_PERIOD_def KEYCODE_COMMA_def
  KEYCODE_SEMICOLON_def KEYCODE_APOSTROPHE_def KEYCODE_MINUS_def KEYCODE_EQUALS_def
  KEYCODE_SLASH_def KEYCODE_BACKSLASH_def KEYCODE_LBRACKET_def KEYCODE_RBRACKET_def
  KEYCODE_SPACE_def KEYCODE_TAB_def KEYCODE_BACKSPACE_def KEYCODE_ENTER_def KEYCODE_BACKTICK_def

record keypacket =
  keycode :: keycode
  pressed :: bool
  shift :: bool
  ctrl :: bool
  alt :: bool
  caps_lock :: bool
  scroll_lock :: bool
  num_lock :: bool

definition keypacket_to_ascii :: "keypacket \<Rightarrow> char" where
  "keypacket_to_ascii pkt =
    (let kc = keycode pkt; sh = shift pkt; caps = caps_lock pkt in
     if kc \<ge> KEYCODE_A \<and> kc \<le> KEYCODE_Z
     then (let base = 97 + (kc - KEYCODE_A) in
       if caps \<noteq> sh then char_of (base - 97 + 65) else char_of base)
     else if kc \<ge> KEYCODE_0 \<and> kc \<le> KEYCODE_9
     then (if sh then '')!@#$%^&*('' else ''0123456789'') ! (kc - KEYCODE_0)
     else if kc = KEYCODE_SPACE then CHR '' ''
     else if kc = KEYCODE_PERIOD then if sh then CHR ''>'' else CHR ''.''
     else if kc = KEYCODE_COMMA then if sh then CHR ''<'' else CHR '',''
     else if kc = KEYCODE_SEMICOLON then if sh then CHR '':'' else CHR '';''
     else if kc = KEYCODE_APOSTROPHE then if sh then CHR 0x22 else CHR 0x27
     else if kc = KEYCODE_MINUS then if sh then CHR ''_'' else CHR ''-''
     else if kc = KEYCODE_EQUALS then if sh then CHR ''+'' else CHR ''=''
     else if kc = KEYCODE_SLASH then if sh then CHR ''?'' else CHR ''/''
     else if kc = KEYCODE_BACKSLASH then if sh then CHR ''|'' else CHR 0x5C
     else if kc = KEYCODE_LBRACKET then if sh then CHR ''{'' else CHR ''[''
     else if kc = KEYCODE_RBRACKET then if sh then CHR ''}'' else CHR '']''
     else if kc = KEYCODE_BACKTICK then if sh then CHR ''~'' else CHR 0x60
     else CHR 0x00)"

text \<open>Every character a packet decodes to is printable: no control code enters a line this way.\<close>

lemma ascii_letter:
  "KEYCODE_A \<le> kc \<Longrightarrow> kc \<le> KEYCODE_Z
   \<Longrightarrow> of_char (char_of (97 + (kc - KEYCODE_A))) = (97 + (kc - KEYCODE_A) :: nat)
     \<and> of_char (char_of (97 + (kc - KEYCODE_A) - 97 + 65)) = (65 + (kc - KEYCODE_A) :: nat)"
  by (simp add: keycode_defs)

lemma digit_chars:
  "\<forall>c\<in>set ''0123456789)!@#$%^&*(''. 32 \<le> (of_char c :: nat) \<and> of_char c < (127::nat)"
  by simp

lemma digit_char_nth:
  "i < 10 \<Longrightarrow> (if sh then '')!@#$%^&*('' else ''0123456789'') ! i \<in> set ''0123456789)!@#$%^&*(''"
  using nth_mem [of i "if sh then '')!@#$%^&*('' else ''0123456789''"] by (cases sh) auto

definition ascii_ok :: "char \<Rightarrow> bool" where
  "ascii_ok c \<longleftrightarrow> c = CHR 0x00 \<or> 32 \<le> (of_char c :: nat) \<and> of_char c < (127::nat)"

lemma ascii_ok_if:
  "(b \<Longrightarrow> ascii_ok c) \<Longrightarrow> (\<not> b \<Longrightarrow> ascii_ok d) \<Longrightarrow> ascii_ok (if b then c else d)"
  by simp

lemma keypacket_printable: "ascii_ok (keypacket_to_ascii p)"
proof -
  have digit: "ascii_ok ((if sh then '')!@#$%^&*('' else ''0123456789'') ! (kc - KEYCODE_0))"
    if "KEYCODE_0 \<le> kc \<and> kc \<le> KEYCODE_9" for kc sh
  proof -
    have "kc - KEYCODE_0 < 10" using that unfolding KEYCODE_0_def KEYCODE_9_def by linarith
    from bspec [OF digit_chars digit_char_nth [OF this, of sh]] show ?thesis
      by (simp add: ascii_ok_def)
  qed
  have letter: "ascii_ok (char_of (97 + (kc - KEYCODE_A) - 97 + 65))"
    "ascii_ok (char_of (97 + (kc - KEYCODE_A)))" if "KEYCODE_A \<le> kc \<and> kc \<le> KEYCODE_Z" for kc
    using that ascii_letter [of kc] by (simp_all add: ascii_ok_def) (simp_all add: keycode_defs)
  show ?thesis unfolding keypacket_to_ascii_def Let_def
    by (intro ascii_ok_if letter digit) (simp_all add: ascii_ok_def)
qed

section \<open>The packet queues\<close>

definition KBD_QUEUE_SIZE :: nat where "KBD_QUEUE_SIZE = 64"
definition KBD_MAX_WAITERS :: nat where "KBD_MAX_WAITERS = 8"

record kbd_queue =
  qbuf :: "keypacket list"
  qhead :: nat
  qtail :: nat
  qcount :: nat
  qwaiting :: "nat list"

text \<open>\<open>queue_push\<close>: the new queue and the tasks it wakes.\<close>

definition queue_push :: "kbd_queue \<Rightarrow> keypacket \<Rightarrow> kbd_queue \<times> nat list" where
  "queue_push q pkt =
    (let q = (if qcount q = KBD_QUEUE_SIZE
              then q\<lparr>qhead := (qhead q + 1) mod KBD_QUEUE_SIZE, qcount := qcount q - 1\<rparr> else q)
     in (q\<lparr>qbuf := (qbuf q)[qtail q := pkt], qtail := (qtail q + 1) mod KBD_QUEUE_SIZE,
           qcount := qcount q + 1, qwaiting := []\<rparr>, qwaiting q))"

text \<open>
  One round of \<open>queue_read\<close>: with an empty queue the task registers as a waiter, if there is
  room, and blocks (\<open>Inl\<close>); otherwise it takes the oldest packet (\<open>Inr\<close>).
\<close>

definition queue_read :: "kbd_queue \<Rightarrow> nat \<Rightarrow> kbd_queue + (keypacket \<times> kbd_queue)" where
  "queue_read q task =
    (if qcount q = 0
     then Inl (if length (qwaiting q) < KBD_MAX_WAITERS then q\<lparr>qwaiting := qwaiting q @ [task]\<rparr> else q)
     else Inr (qbuf q ! qhead q,
               q\<lparr>qhead := (qhead q + 1) mod KBD_QUEUE_SIZE, qcount := qcount q - 1\<rparr>))"

definition kbd_core_drain :: "kbd_queue \<Rightarrow> kbd_queue" where
  "kbd_core_drain q = q\<lparr>qhead := 0, qtail := 0, qcount := 0\<rparr>"

text \<open>\<open>kbd_core_push\<close> feeds both queues: (line, raw).\<close>

definition kbd_core_push ::
  "kbd_queue \<Rightarrow> kbd_queue \<Rightarrow> keypacket \<Rightarrow> kbd_queue \<times> kbd_queue \<times> nat list" where
  "kbd_core_push line raw pkt =
    (let (line, w1) = queue_push line pkt; (raw, w2) = queue_push raw pkt in (line, raw, w1 @ w2))"

definition queue_ok :: "kbd_queue \<Rightarrow> bool" where
  "queue_ok q \<longleftrightarrow> length (qbuf q) = KBD_QUEUE_SIZE \<and> qhead q < KBD_QUEUE_SIZE
     \<and> qcount q \<le> KBD_QUEUE_SIZE \<and> qtail q = (qhead q + qcount q) mod KBD_QUEUE_SIZE
     \<and> length (qwaiting q) \<le> KBD_MAX_WAITERS"

definition queue_packets :: "kbd_queue \<Rightarrow> keypacket list" where
  "queue_packets q = map (\<lambda>i. qbuf q ! ((qhead q + i) mod KBD_QUEUE_SIZE)) [0..<qcount q]"

lemma queue_size_pos [simp]: "0 < KBD_QUEUE_SIZE" by (simp add: KBD_QUEUE_SIZE_def)

lemma queue_push_ok: "queue_ok q \<Longrightarrow> queue_ok (fst (queue_push q p))"
  by (auto simp: queue_ok_def queue_push_def Let_def mod_simps)

lemma ring_slot_neq:
  "h < KBD_QUEUE_SIZE \<Longrightarrow> i < n \<Longrightarrow> n < KBD_QUEUE_SIZE
   \<Longrightarrow> (h + i) mod KBD_QUEUE_SIZE \<noteq> (h + n) mod KBD_QUEUE_SIZE"
  by (auto simp: mod_if)

lemma queue_push_packets_room:
  assumes "queue_ok q" "qcount q < KBD_QUEUE_SIZE"
  shows "queue_packets (fst (queue_push q p)) = queue_packets q @ [p]"
proof (rule nth_equalityI)
  fix i assume "i < length (queue_packets (fst (queue_push q p)))"
  then consider "i < qcount q" | "i = qcount q"
    using assms by (auto simp: queue_packets_def queue_push_def Let_def less_Suc_eq)
  then show "queue_packets (fst (queue_push q p)) ! i = (queue_packets q @ [p]) ! i"
  proof cases
    case 1
    then show ?thesis using assms ring_slot_neq [of "qhead q" i "qcount q"]
      by (simp add: queue_packets_def queue_push_def queue_ok_def Let_def nth_append del: upt_Suc)
  next
    case 2
    then show ?thesis using assms
      by (simp add: queue_packets_def queue_push_def queue_ok_def Let_def nth_append del: upt_Suc)
  qed
qed (use assms in \<open>simp add: queue_packets_def queue_push_def Let_def\<close>)

lemma queue_drop_oldest:
  assumes "queue_ok q" "qcount q > 0"
  shows "queue_ok (q\<lparr>qhead := (qhead q + 1) mod KBD_QUEUE_SIZE, qcount := qcount q - 1\<rparr>)"
    and "queue_packets q = qbuf q ! qhead q
      # queue_packets (q\<lparr>qhead := (qhead q + 1) mod KBD_QUEUE_SIZE, qcount := qcount q - 1\<rparr>)"
proof -
  obtain n where n: "qcount q = Suc n" using assms(2) gr0_implies_Suc by blast
  show "queue_ok (q\<lparr>qhead := (qhead q + 1) mod KBD_QUEUE_SIZE, qcount := qcount q - 1\<rparr>)"
    using assms by (auto simp: queue_ok_def mod_simps n)
  show "queue_packets q = qbuf q ! qhead q
      # queue_packets (q\<lparr>qhead := (qhead q + 1) mod KBD_QUEUE_SIZE, qcount := qcount q - 1\<rparr>)"
    using assms(1)
    by (intro nth_equalityI)
      (auto simp: queue_packets_def n queue_ok_def nth_Cons mod_simps split: nat.split simp del: upt_Suc)
qed

lemma queue_push_packets:
  assumes "queue_ok q"
  shows "queue_packets (fst (queue_push q p))
    = (if qcount q = KBD_QUEUE_SIZE then tl (queue_packets q) else queue_packets q) @ [p]"
proof (cases "qcount q = KBD_QUEUE_SIZE")
  case True
  define q2 where "q2 = q\<lparr>qhead := (qhead q + 1) mod KBD_QUEUE_SIZE, qcount := qcount q - 1\<rparr>"
  have pos: "qcount q > 0" using True by simp
  have c: "qcount q2 < KBD_QUEUE_SIZE" using True by (simp add: q2_def)
  have "fst (queue_push q p) = fst (queue_push q2 p)"
    using True c by (simp add: queue_push_def q2_def Let_def KBD_QUEUE_SIZE_def)
  then show ?thesis
    using queue_push_packets_room [OF queue_drop_oldest(1) [OF assms pos, folded q2_def] c, of p]
      queue_drop_oldest(2) [OF assms pos, folded q2_def] True by simp
next
  case False
  then show ?thesis using queue_push_packets_room [OF assms, of p] assms
    by (simp add: queue_ok_def)
qed

text \<open>The packet queue is a FIFO that forgets its oldest packet when a 65th arrives: a push
  appends (after dropping the head of a full queue) and empties the waiter list into the wake
  list, a read takes the oldest packet, and both keep the queue well formed.\<close>

theorem kbd_queue_fifo:
  assumes "queue_ok q"
  shows "queue_ok (fst (queue_push q p)) \<and> snd (queue_push q p) = qwaiting q
    \<and> queue_packets (fst (queue_push q p))
      = (if qcount q = KBD_QUEUE_SIZE then tl (queue_packets q) else queue_packets q) @ [p]
    \<and> (case queue_read q t of
         Inl q2 \<Rightarrow> queue_packets q = [] \<and> queue_packets q2 = [] \<and> queue_ok q2
       | Inr (x, q2) \<Rightarrow> queue_packets q = x # queue_packets q2 \<and> queue_ok q2)"
  using queue_push_ok [OF assms, of p] queue_push_packets [OF assms, of p]
    queue_drop_oldest [OF assms] assms
  by (auto simp: queue_push_def queue_read_def Let_def queue_packets_def queue_ok_def)

theorem kbd_queue_fifo_witness:
  "\<exists>q p t. queue_ok q \<and> queue_packets (fst (queue_push q p)) = [p] \<and> snd (queue_push q p) = [t]
     \<and> queue_read q t = Inl (q\<lparr>qwaiting := [t, t]\<rparr>)"
proof -
  define p where "p = \<lparr>keycode = 1, pressed = True, shift = False, ctrl = False, alt = False,
    caps_lock = False, scroll_lock = False, num_lock = False\<rparr>"
  define q where "q = \<lparr>qbuf = replicate KBD_QUEUE_SIZE p, qhead = 63, qtail = 63, qcount = 0,
    qwaiting = [5]\<rparr>"
  have ok: "queue_ok q" by (simp add: q_def queue_ok_def KBD_QUEUE_SIZE_def KBD_MAX_WAITERS_def)
  have e: "queue_packets q = []" by (simp add: q_def queue_packets_def)
  have r: "queue_read q 5 = Inl (q\<lparr>qwaiting := [5, 5]\<rparr>)"
    by (simp add: q_def queue_read_def KBD_MAX_WAITERS_def)
  have w: "qwaiting q = [5]" "qcount q \<noteq> KBD_QUEUE_SIZE"
    by (simp_all add: q_def KBD_QUEUE_SIZE_def)
  from kbd_queue_fifo [OF ok, of p 5]
  have "queue_packets (fst (queue_push q p)) = [p]" "snd (queue_push q p) = [5]"
    using e w by simp_all
  then show ?thesis using ok r by (intro exI conjI)
qed

section \<open>The line discipline\<close>

definition KBD_LINE_MAX :: nat where "KBD_LINE_MAX = 256"
definition KBD_LINE_CAP :: nat where "KBD_LINE_CAP = KBD_LINE_MAX - 1"

text \<open>
  The line state and the console behind it: \<open>console_exists\<close> is whether \<open>handle_build\<close> finds
  \<open>/dvc/console\<close>, \<open>console_out\<close> what its write operation has received.  A task is a number,
  0 the null pointer.
\<close>

record kbd_line =
  line_buffer :: string
  line_len :: nat
  line_pos :: nat
  in_use :: bool
  owner :: nat
  console_ready :: bool
  console_exists :: bool
  console_out :: string

definition console_putchar :: "char \<Rightarrow> kbd_line \<Rightarrow> kbd_line" where
  "console_putchar c st =
    (let st = (if \<not> console_ready st then st\<lparr>console_ready := console_exists st\<rparr> else st)
     in if \<not> console_ready st then st else st\<lparr>console_out := console_out st @ [c]\<rparr>)"

definition console_erase_last :: "kbd_line \<Rightarrow> kbd_line" where
  "console_erase_last st =
    console_putchar CHR 0x08 (console_putchar CHR '' '' (console_putchar CHR 0x08 st))"

definition console_bell :: "kbd_line \<Rightarrow> kbd_line" where
  "console_bell st = console_putchar CHR 0x07 st"

fun clear_line_loop :: "nat \<Rightarrow> kbd_line \<Rightarrow> kbd_line" where
  "clear_line_loop 0 st = st"
| "clear_line_loop (Suc n) st = clear_line_loop n ((console_erase_last st)\<lparr>line_len := n\<rparr>)"

definition clear_line :: "kbd_line \<Rightarrow> kbd_line" where
  "clear_line st = (clear_line_loop (line_len st) st)\<lparr>line_pos := 0\<rparr>"

definition backspace :: "kbd_line \<Rightarrow> kbd_line" where
  "backspace st =
    (if line_len st = 0 then st
     else let st = (if line_buffer st ! (line_len st - 1) = CHR 0x09
                    then (console_erase_last ^^ 4) st else console_erase_last st);
              st = st\<lparr>line_len := line_len st - 1\<rparr>
          in if line_pos st > line_len st then st\<lparr>line_pos := line_len st\<rparr> else st)"

definition line_claim :: "nat \<Rightarrow> kbd_line \<Rightarrow> int \<times> kbd_line" where
  "line_claim cur st =
    (if in_use st \<and> owner st \<noteq> cur then (BUSY, st)
     else let fresh = \<not> in_use st;
              st = st\<lparr>in_use := True, owner := cur\<rparr>
          in (0, if fresh then st\<lparr>line_len := 0, line_pos := 0\<rparr> else st))"

definition line_release :: "kbd_line \<Rightarrow> kbd_line" where
  "line_release st = st\<lparr>in_use := False, owner := 0, line_len := 0, line_pos := 0\<rparr>"

text \<open>\<open>deliver_line\<close>: the return value, the bytes stored in the caller's buffer, the state.\<close>

definition deliver_line :: "nat \<Rightarrow> kbd_line \<Rightarrow> int \<times> string \<times> kbd_line" where
  "deliver_line len st =
    (let avail = line_len st - line_pos st;
         n = (if avail < len - 1 then avail else len - 1);
         buf = take n (drop (line_pos st) (line_buffer st)) @ [CHR 0x00];
         st = st\<lparr>line_pos := line_pos st + n\<rparr>
     in (int n, buf, if line_pos st = line_len st then line_release st else st))"

text \<open>One packet in the loop of \<open>kbd_line_read\<close>: the state, and the result if it returns.\<close>

definition line_append :: "char \<Rightarrow> string \<Rightarrow> kbd_line \<Rightarrow> kbd_line" where
  "line_append c echo st =
    (if line_len st < KBD_LINE_CAP
     then fold console_putchar echo
       (st\<lparr>line_buffer := (line_buffer st)[line_len st := c], line_len := line_len st + 1\<rparr>)
     else console_bell st)"

definition kbd_line_key ::
  "nat \<Rightarrow> keypacket \<Rightarrow> kbd_line \<Rightarrow> kbd_line \<times> (int \<times> string) option" where
  "kbd_line_key len pkt st =
    (if \<not> pressed pkt then (st, None)
     else if ctrl pkt then
       (if keycode pkt = KEYCODE_C \<or> keycode pkt = KEYCODE_U then (clear_line st, None)
        else if keycode pkt = KEYCODE_D then
          (if line_len st = 0 then (line_release st, Some (0, [CHR 0x00])) else (clear_line st, None))
        else if keycode pkt = KEYCODE_H then (backspace st, None)
        else (st, None))
     else if keycode pkt = KEYCODE_BACKSPACE then (backspace st, None)
     else if keycode pkt = KEYCODE_ENTER then
       (case deliver_line len (console_putchar CHR 0x0A st) of (n, buf, st) \<Rightarrow> (st, Some (n, buf)))
     else if keycode pkt = KEYCODE_TAB then (line_append CHR 0x09 ''    '' st, None)
     else let c = keypacket_to_ascii pkt in
       if c = CHR 0x00 then (st, None) else (line_append c [c] st, None))"

text \<open>
  The loop over what \<open>kbd_core_read_line_queue\<close> delivers; \<open>None\<close> in the list is a non-zero
  return of it.  When the list ends the task is still waiting for a packet.
\<close>

datatype line_result = Returned int string | Waiting

fun kbd_line_loop :: "nat \<Rightarrow> keypacket option list \<Rightarrow> kbd_line \<Rightarrow> kbd_line \<times> line_result" where
  "kbd_line_loop len [] st = (st, Waiting)"
| "kbd_line_loop len (None # ps) st = (line_release st, Returned (- 1) [])"
| "kbd_line_loop len (Some pkt # ps) st =
    (case kbd_line_key len pkt st of
       (st, Some (n, buf)) \<Rightarrow> (st, Returned n buf)
     | (st, None) \<Rightarrow> kbd_line_loop len ps st)"

definition kbd_line_read ::
  "nat \<Rightarrow> nat \<Rightarrow> keypacket option list \<Rightarrow> kbd_line \<Rightarrow> kbd_line \<times> line_result" where
  "kbd_line_read cur len ps st =
    (if len = 0 then (st, Returned 0 [])
     else case line_claim cur st of (rc, st) \<Rightarrow>
       if rc \<noteq> 0 then (st, Returned rc []) else kbd_line_loop len ps st)"

definition kbd_line_close :: "nat \<Rightarrow> kbd_line \<Rightarrow> int \<times> kbd_line" where
  "kbd_line_close self st =
    (0, if in_use st \<and> owner st = self
        then st\<lparr>in_use := False, owner := 0, line_len := 0, line_pos := 0\<rparr> else st)"

definition kbd_line_init :: "bool \<Rightarrow> kbd_line" where
  "kbd_line_init exists = \<lparr>line_buffer = replicate KBD_LINE_MAX CHR 0x00, line_len = 0, line_pos = 0,
     in_use = False, owner = 0, console_ready = False, console_exists = exists, console_out = []\<rparr>"

subsection \<open>The line a reader types\<close>

definition line_ok :: "kbd_line \<Rightarrow> bool" where
  "line_ok st \<longleftrightarrow> length (line_buffer st) = KBD_LINE_MAX \<and> line_len st \<le> KBD_LINE_CAP
     \<and> line_pos st \<le> line_len st"

definition line_text :: "kbd_line \<Rightarrow> string" where
  "line_text st = take (line_len st) (line_buffer st)"

text \<open>The edit each packet stands for, on the text alone, and the packets that end a read.\<close>

definition line_edit :: "keypacket \<Rightarrow> string \<Rightarrow> string" where
  "line_edit pkt l =
    (if \<not> pressed pkt then l
     else if ctrl pkt then
       (if keycode pkt \<in> {KEYCODE_C, KEYCODE_U, KEYCODE_D} then []
        else if keycode pkt = KEYCODE_H then butlast l else l)
     else if keycode pkt = KEYCODE_BACKSPACE then butlast l
     else let c = (if keycode pkt = KEYCODE_TAB then CHR 0x09 else keypacket_to_ascii pkt) in
       if c = CHR 0x00 \<or> length l \<ge> KBD_LINE_CAP then l else l @ [c])"

definition line_ends :: "keypacket \<Rightarrow> string \<Rightarrow> bool" where
  "line_ends pkt l \<longleftrightarrow> pressed pkt \<and>
     (if ctrl pkt then keycode pkt = KEYCODE_D \<and> l = [] else keycode pkt = KEYCODE_ENTER)"

fun typed :: "keypacket list \<Rightarrow> string \<Rightarrow> string option" where
  "typed [] l = Some l"
| "typed (p # ps) l = (if line_ends p l then None else typed ps (line_edit p l))"

definition same_line :: "kbd_line \<Rightarrow> kbd_line \<Rightarrow> bool" where
  "same_line st st' \<longleftrightarrow> line_buffer st' = line_buffer st \<and> line_len st' = line_len st
     \<and> line_pos st' = line_pos st \<and> in_use st' = in_use st \<and> owner st' = owner st"

lemma line_text_length: "line_ok st \<Longrightarrow> length (line_text st) = line_len st"
  by (simp add: line_ok_def line_text_def KBD_LINE_CAP_def KBD_LINE_MAX_def)

lemma same_line_trans: "same_line a b \<Longrightarrow> same_line b c \<Longrightarrow> same_line a c"
  by (simp add: same_line_def)

lemma same_line_putchar [simp]: "same_line st (console_putchar c st)"
  by (simp add: same_line_def console_putchar_def Let_def)

lemma same_line_erase [simp]: "same_line st (console_erase_last st)"
  unfolding console_erase_last_def by (blast intro: same_line_trans same_line_putchar)

lemma same_line_erase4 [simp]: "same_line st ((console_erase_last ^^ n) st)"
proof (induction n)
  case (Suc n) then show ?case by (auto intro: same_line_trans)
qed (simp add: same_line_def)

lemma same_line_fold [simp]: "same_line st (fold console_putchar cs st)"
proof (induction cs arbitrary: st)
  case (Cons c cs)
  have "same_line st (fold console_putchar cs (console_putchar c st))"
    by (rule same_line_trans [OF same_line_putchar Cons.IH])
  then show ?case by simp
qed (simp add: same_line_def)

lemma clear_line_loop:
  "line_buffer (clear_line_loop n st) = line_buffer st
    \<and> line_len (clear_line_loop n st) = (if n = 0 then line_len st else 0)
    \<and> in_use (clear_line_loop n st) = in_use st \<and> owner (clear_line_loop n st) = owner st"
proof (induction n arbitrary: st)
  case (Suc n)
  show ?case using same_line_erase [of st] Suc [of "(console_erase_last st)\<lparr>line_len := n\<rparr>"]
    by (simp add: same_line_def)
qed simp

lemma clear_line_text:
  "line_text (clear_line st) = [] \<and> line_pos (clear_line st) = 0
    \<and> (line_ok st \<longrightarrow> line_ok (clear_line st))
    \<and> in_use (clear_line st) = in_use st \<and> owner (clear_line st) = owner st"
  using clear_line_loop [of "line_len st" st] 
  by (simp add: clear_line_def line_text_def line_ok_def)

lemma backspace_text:
  assumes "line_ok st"
  shows "line_text (backspace st) = butlast (line_text st) \<and> line_ok (backspace st)
    \<and> line_pos (backspace st) \<le> line_pos st
    \<and> in_use (backspace st) = in_use st \<and> owner (backspace st) = owner st"
proof (cases "line_len st = 0")
  case False
  define s1 where "s1 = (if line_buffer st ! (line_len st - 1) = CHR 0x09
                    then (console_erase_last ^^ 4) st else console_erase_last st)"
  have s: "same_line st s1" unfolding s1_def by (cases "line_buffer st ! (line_len st - 1) = CHR 0x09") simp_all
  define n where "n = line_len st - 1"
  have bs: "backspace st = (let st2 = s1\<lparr>line_len := n\<rparr>
     in if line_pos st2 > line_len st2 then st2\<lparr>line_pos := line_len st2\<rparr> else st2)"
    using False s unfolding backspace_def s1_def [symmetric] n_def
    by (simp add: same_line_def Let_def)
  have len: "length (line_buffer st) = KBD_LINE_MAX" "line_len st \<le> KBD_LINE_CAP" "line_pos st \<le> line_len st"
    using assms by (simp_all add: line_ok_def)
  then have "line_len st \<le> length (line_buffer st)" by (simp add: KBD_LINE_CAP_def)
  then have "butlast (line_text st) = take n (line_buffer st)"
    by (simp add: line_text_def n_def butlast_take)
  then show ?thesis using s len False unfolding bs
    by (auto simp: same_line_def line_text_def line_ok_def n_def Let_def)
qed (use assms in \<open>simp add: backspace_def line_text_def\<close>)

lemma line_append_text:
  assumes "line_ok st"
  shows "line_text (line_append c e st)
      = (if length (line_text st) \<ge> KBD_LINE_CAP then line_text st else line_text st @ [c])
    \<and> line_ok (line_append c e st) \<and> line_pos (line_append c e st) = line_pos st
    \<and> in_use (line_append c e st) = in_use st \<and> owner (line_append c e st) = owner st"
proof -
  have len: "length (line_buffer st) = KBD_LINE_MAX" "line_len st \<le> KBD_LINE_CAP" "line_pos st \<le> line_len st"
    using assms by (simp_all add: line_ok_def)
  have tl: "length (line_text st) = line_len st"
    using len by (simp add: line_text_def KBD_LINE_CAP_def)
  define s1 where "s1 = st\<lparr>line_buffer := (line_buffer st)[line_len st := c], line_len := line_len st + 1\<rparr>"
  show ?thesis
  proof (cases "line_len st < KBD_LINE_CAP")
    case True
    have "same_line s1 (line_append c e st)" using True same_line_fold [of s1 e]
      by (simp add: line_append_def s1_def)
    then show ?thesis using True len tl unfolding same_line_def s1_def
      by (simp add: line_text_def line_ok_def take_Suc_conv_app_nth KBD_LINE_CAP_def)
  next
    case False
    have "same_line st (line_append c e st)" using False by (simp add: line_append_def console_bell_def)
    then show ?thesis using False len tl unfolding same_line_def
      by (simp add: line_text_def line_ok_def)
  qed
qed

lemma kbd_line_key_edit:
  assumes "line_ok st" "\<not> line_ends pkt (line_text st)"
  shows "\<exists>st'. kbd_line_key len pkt st = (st', None) \<and> line_text st' = line_edit pkt (line_text st)
    \<and> line_ok st' \<and> line_pos st' \<le> line_pos st \<and> in_use st' = in_use st \<and> owner st' = owner st"
proof -
  have tl: "line_text st = [] \<longleftrightarrow> line_len st = 0"
    using assms(1) by (auto simp: line_text_def line_ok_def KBD_LINE_MAX_def)
  consider "\<not> pressed pkt" | "pressed pkt" "ctrl pkt" | "pressed pkt" "\<not> ctrl pkt" by blast
  then show ?thesis
  proof cases
    case 1
    then show ?thesis using assms by (simp add: kbd_line_key_def line_edit_def)
  next
    case 2
    then show ?thesis using assms tl clear_line_text [of st] backspace_text [OF assms(1)]
      by (auto simp: kbd_line_key_def line_edit_def line_ends_def keycode_defs)
  next
    case 3
    then have ne: "keycode pkt \<noteq> KEYCODE_ENTER" using assms by (simp add: line_ends_def)
    show ?thesis
    proof (cases "keycode pkt = KEYCODE_BACKSPACE")
      case True
      then show ?thesis using 3 backspace_text [OF assms(1)]
        by (simp add: kbd_line_key_def line_edit_def)
    next
      case False
      then show ?thesis using 3 ne assms(1) line_append_text [OF assms(1)]
        by (simp add: kbd_line_key_def line_edit_def Let_def)
    qed
  qed
qed

lemma deliver_line_text:
  assumes "line_ok st" "0 < len" "deliver_line len st = (n, buf, st')"
  shows "n = int (min (line_len st - line_pos st) (len - 1))
    \<and> buf = take (len - 1) (drop (line_pos st) (line_text st)) @ [CHR 0x00]
    \<and> line_ok st'
    \<and> (if line_len st - line_pos st < len
       then \<not> in_use st' \<and> owner st' = 0 \<and> line_len st' = 0
       else in_use st' = in_use st \<and> owner st' = owner st \<and> line_text st' = line_text st
         \<and> line_pos st' = line_pos st + (len - 1))"
proof -
  have len: "length (line_buffer st) = KBD_LINE_MAX" "line_len st \<le> KBD_LINE_CAP" "line_pos st \<le> line_len st"
    using assms by (simp_all add: line_ok_def)
  define m where "m = min (line_len st - line_pos st) (len - 1)"
  have m: "(if line_len st - line_pos st < len - 1 then line_len st - line_pos st else len - 1) = m"
    by (simp add: m_def)
  have tk: "take m (drop (line_pos st) (line_buffer st))
      = take (len - 1) (drop (line_pos st) (line_text st))"
    by (simp add: line_text_def m_def drop_take min.commute)
  have e: "line_pos st + m = line_len st \<longleftrightarrow> line_len st - line_pos st < len"
    using len assms(2) by (auto simp: m_def)
  have le: "line_pos st + m \<le> line_len st" using len by (simp add: m_def)
  from assms(3) have r: "n = int m" "buf = take m (drop (line_pos st) (line_buffer st)) @ [CHR 0x00]"
    "st' = (if line_pos st + m = line_len st then line_release (st\<lparr>line_pos := line_pos st + m\<rparr>)
            else st\<lparr>line_pos := line_pos st + m\<rparr>)"
    unfolding deliver_line_def Let_def m by auto
  have "m = len - 1" if "\<not> line_len st - line_pos st < len" using that by (simp add: m_def)
  then show ?thesis unfolding r e tk m_def [symmetric] using len le
    by (cases "line_len st - line_pos st < len")
      (simp_all add: line_ok_def line_release_def line_text_def)
qed

lemma kbd_line_loop_typed:
  "line_ok st \<Longrightarrow> typed ps (line_text st) = Some l
   \<Longrightarrow> \<exists>st'. kbd_line_loop len (map Some ps @ rest) st = kbd_line_loop len rest st'
     \<and> line_text st' = l \<and> line_ok st' \<and> line_pos st' \<le> line_pos st
     \<and> in_use st' = in_use st \<and> owner st' = owner st"
proof (induction ps arbitrary: st)
  case (Cons p ps)
  then have ne: "\<not> line_ends p (line_text st)"
    and ty: "typed ps (line_edit p (line_text st)) = Some l" by (auto split: if_splits)
  from kbd_line_key_edit [OF Cons.prems(1) ne, of len]
  obtain st1 where s1: "kbd_line_key len p st = (st1, None)"
    "line_text st1 = line_edit p (line_text st)" "line_ok st1" "line_pos st1 \<le> line_pos st"
    "in_use st1 = in_use st" "owner st1 = owner st" by (elim exE conjE) (rule that)
  from Cons.IH [OF s1(3)] ty s1 show ?case by fastforce
qed auto

text \<open>C22: The line discipline delivers the line as edited: when a task reads a free line device
  and the packets amount to the text \<open>l\<close> (the fold of the edits, with no end of file on the
  way) followed by Enter, the read returns the first \<open>len - 1\<close> characters of \<open>l\<close> and a
  terminator; the line is released if all of it fitted, and else it stays with the task with
  the rest of the text behind the read position.\<close>

theorem kbd_line_read_refines:
  assumes ok: "line_ok st" and free: "\<not> in_use st" and len: "0 < len"
    and ty: "typed ps [] = Some l"
    and enter: "pressed e" "\<not> ctrl e" "keycode e = KEYCODE_ENTER"
  shows "\<exists>st'. kbd_line_read cur len (map Some ps @ [Some e]) st
      = (st', Returned (int (min (length l) (len - 1))) (take (len - 1) l @ [CHR 0x00]))
    \<and> line_ok st'
    \<and> (if length l < len then \<not> in_use st'
       else in_use st' \<and> owner st' = cur \<and> drop (line_pos st') (line_text st') = drop (len - 1) l)"
proof -
  define s0 where "s0 = st\<lparr>in_use := True, owner := cur, line_len := 0, line_pos := 0\<rparr>"
  have cl: "line_claim cur st = (0, s0)" using free by (simp add: line_claim_def s0_def Let_def)
  have ok0: "line_ok s0" "line_text s0 = []" using ok by (simp_all add: s0_def line_ok_def line_text_def)
  from kbd_line_loop_typed [OF ok0(1), unfolded ok0(2), OF ty, of len "[Some e]"]
  obtain s1 where s1: "kbd_line_loop len (map Some ps @ [Some e]) s0 = kbd_line_loop len [Some e] s1"
    "line_text s1 = l" "line_ok s1" "line_pos s1 \<le> line_pos s0" "in_use s1 = in_use s0" "owner s1 = owner s0"
    by (elim exE conjE) (rule that)
  define s2 where "s2 = console_putchar CHR 0x0A s1"
  have sl: "same_line s1 s2" by (simp add: s2_def)
  have ok2: "line_ok s2" and t2: "line_text s2 = l" and p2: "line_pos s2 = 0"
    and u2: "in_use s2" "owner s2 = cur"
    using sl s1 by (simp_all add: same_line_def line_ok_def line_text_def s0_def)
  have ll: "line_len s2 = length l" using ok2 t2 by (auto simp: line_ok_def line_text_def KBD_LINE_CAP_def)
  obtain n buf s3 where d: "deliver_line len s2 = (n, buf, s3)" by (cases "deliver_line len s2")
  have key: "kbd_line_key len e s1 = (s3, Some (n, buf))"
    using enter d by (simp add: kbd_line_key_def s2_def keycode_defs)
  have run: "kbd_line_read cur len (map Some ps @ [Some e]) st = (s3, Returned n buf)"
    using len by (simp add: kbd_line_read_def cl s1(1) key)
  from deliver_line_text [OF ok2 len d] show ?thesis
    unfolding run p2 ll t2 using u2 by (auto split: if_splits)
qed

definition key_down :: "keycode \<Rightarrow> keypacket" where
  "key_down kc = \<lparr>keycode = kc, pressed = True, shift = False, ctrl = False, alt = False,
     caps_lock = False, scroll_lock = False, num_lock = False\<rparr>"

lemma kbd_line_init_ok: "line_ok (kbd_line_init b)"
  by (simp add: kbd_line_init_def line_ok_def)

lemma typed_hi: "typed [key_down KEYCODE_H, key_down 9, key_down 10, key_down KEYCODE_BACKSPACE] [] = Some ''hi''"
  by (simp add: key_down_def line_ends_def line_edit_def keycode_defs keypacket_to_ascii_def
      KBD_LINE_CAP_def KBD_LINE_MAX_def Let_def char_of_def bit_Suc_0_iff)

theorem kbd_line_read_refines_witness:
  "\<exists>st'. kbd_line_read 7 16 (map Some [key_down KEYCODE_H, key_down 9, key_down 10, key_down KEYCODE_BACKSPACE]
       @ [Some (key_down KEYCODE_ENTER)]) (kbd_line_init True) = (st', Returned 2 (''hi'' @ [CHR 0x00]))
     \<and> line_ok st' \<and> \<not> in_use st'"
proof -
  have "\<not> in_use (kbd_line_init True)" by (simp add: kbd_line_init_def)
  from kbd_line_read_refines [OF kbd_line_init_ok this _ typed_hi, of 16 "key_down KEYCODE_ENTER" 7]
  show ?thesis by (simp add: key_down_def)
qed

subsection \<open>Bounds and ownership\<close>

text \<open>A task that does not own a busy line changes nothing.\<close>

lemma line_claim_other:
  "in_use st \<Longrightarrow> owner st \<noteq> cur \<Longrightarrow> 0 < len
   \<Longrightarrow> kbd_line_read cur len ps st = (st, Returned BUSY []) \<and> kbd_line_close cur st = (0, st)"
  by (simp add: kbd_line_read_def line_claim_def kbd_line_close_def errorcode_def)

lemma kbd_line_key_bounds:
  assumes "line_ok st" "0 < len" "kbd_line_key len pkt st = (st', r)"
  shows "line_ok st' \<and> (\<forall>n buf. r = Some (n, buf) \<longrightarrow> 0 \<le> n \<and> n < int len \<and> length buf = nat n + 1)"
proof (cases "line_ends pkt (line_text st)")
  case False
  from kbd_line_key_edit [OF assms(1) False, of len] assms(3) show ?thesis by auto
next
  case True
  show ?thesis
  proof (cases "ctrl pkt")
    case c: True
    have "line_len st = 0" using True c assms(1)
      by (auto simp: line_ends_def line_text_def line_ok_def KBD_LINE_MAX_def)
    then show ?thesis using True c assms
      by (auto simp: line_ends_def kbd_line_key_def keycode_defs line_release_def line_ok_def)
  next
    case c: False
    define s2 where "s2 = console_putchar CHR 0x0A st"
    have ok2: "line_ok s2" using assms(1) same_line_putchar [of st "CHR 0x0A"]
      by (auto simp: s2_def same_line_def line_ok_def)
    obtain n buf s3 where d: "deliver_line len s2 = (n, buf, s3)" by (cases "deliver_line len s2")
    have "kbd_line_key len pkt st = (s3, Some (n, buf))"
      using True c d by (simp add: kbd_line_key_def line_ends_def s2_def keycode_defs)
    moreover have "line_len s2 - line_pos s2 = length (drop (line_pos s2) (line_text s2))"
      using line_text_length [OF ok2] by simp
    ultimately show ?thesis using deliver_line_text [OF ok2 assms(2) d] assms(2,3)
      by (auto simp: min_def)
  qed
qed

lemma kbd_line_loop_bounds:
  "line_ok st \<Longrightarrow> 0 < len \<Longrightarrow> kbd_line_loop len ps st = (st', r)
   \<Longrightarrow> line_ok st' \<and> (\<forall>n buf. r = Returned n buf \<longrightarrow> n < int len \<and> length buf \<le> len)"
proof (induction len ps st rule: kbd_line_loop.induct)
  case (3 len pkt ps st)
  obtain s1 r1 where k: "kbd_line_key len pkt st = (s1, r1)" by (cases "kbd_line_key len pkt st")
  from kbd_line_key_bounds [OF 3(2,3) k] have ok: "line_ok s1"
    and b: "r1 = Some (n, buf) \<Longrightarrow> n < int len \<and> length buf \<le> len" for n buf by fastforce+
  show ?case
  proof (cases r1)
    case None
    then show ?thesis using 3(1) [OF k [symmetric] None ok 3(3)] 3(4) k by simp
  next
    case (Some a)
    then show ?thesis using 3(4) k ok b by (cases a) auto
  qed
qed (auto simp: line_release_def line_ok_def)

text \<open>No read of the line device, whatever packets arrive, whoever owns the line and whatever
  is left on it, leaves the 256-byte line buffer or the caller's buffer: the line keeps
  \<open>line_pos \<le> line_len \<le> 255\<close>, the return value is below \<open>len\<close> and at most \<open>len\<close> bytes,
  the terminator included, are stored.\<close>

theorem kbd_line_read_bounds:
  assumes "line_ok st" and "kbd_line_read cur len ps st = (st', r)"
  shows "line_ok st' \<and> (case r of Waiting \<Rightarrow> True
     | Returned n buf \<Rightarrow> length buf \<le> len \<and> (0 < len \<longrightarrow> n < int len))"
proof (cases "len = 0 \<or> fst (line_claim cur st) \<noteq> 0")
  case True
  then show ?thesis using assms
    by (auto simp: kbd_line_read_def line_claim_def errorcode_def Let_def split: if_splits)
next
  case False
  obtain s0 where c: "line_claim cur st = (0, s0)" using False by (cases "line_claim cur st") auto
  have ok: "line_ok s0" using c assms(1)
    by (auto simp: line_claim_def line_ok_def errorcode_def Let_def split: if_splits)
  have "kbd_line_loop len ps s0 = (st', r)" using assms(2) False c by (simp add: kbd_line_read_def)
  from kbd_line_loop_bounds [OF ok _ this] False show ?thesis by (auto split: line_result.splits)
qed

theorem kbd_line_read_bounds_witness:
  "line_ok (fst (kbd_line_read 7 2 [Some (key_down KEYCODE_H), Some (key_down 9),
     Some (key_down KEYCODE_ENTER)] (kbd_line_init False)))"
  using kbd_line_read_bounds [OF kbd_line_init_ok surjective_pairing] by blast

subsection \<open>Killing a line\<close>

text \<open>The columns a string moves the console's cursor: backspaces go back, bells nowhere.\<close>

definition char_columns :: "char \<Rightarrow> int" where
  "char_columns c = (if c = CHR 0x08 then - 1 else if c = CHR 0x07 then 0 else 1)"

definition columns :: "string \<Rightarrow> int" where
  "columns s = sum_list (map char_columns s)"

text \<open>A line is echoed with four columns for a tab.\<close>

definition echo_width :: "string \<Rightarrow> int" where
  "echo_width l = sum_list (map (\<lambda>c. if c = CHR 0x09 then 4 else 1) l)"

lemma echo_width_tabs: "echo_width l = int (length l) + 3 * int (count_list l CHR 0x09)"
  by (induction l) (auto simp: echo_width_def)

lemma putchar_columns:
  "console_ready st \<Longrightarrow> console_ready (console_putchar c st)
    \<and> columns (console_out (console_putchar c st)) = columns (console_out st) + char_columns c"
  by (simp add: console_putchar_def columns_def Let_def)

lemma erase_columns:
  "console_ready st \<Longrightarrow> console_ready (console_erase_last st)
    \<and> columns (console_out (console_erase_last st)) = columns (console_out st) - 1"
  by (simp add: console_erase_last_def putchar_columns char_columns_def)

lemma clear_line_loop_columns:
  "console_ready st
   \<Longrightarrow> columns (console_out (clear_line_loop n st)) = columns (console_out st) - int n"
  by (induction n arbitrary: st) (simp_all add: erase_columns)

text \<open>Killing a line erases one column per character, while a tab is echoed as four (and
  \<open>backspace\<close> erases four): after Ctrl-U on a line that is on the screen, three columns per
  tab of the line are left standing.\<close>

theorem kbd_clear_line_residue:
  assumes "line_ok st" and "console_ready st"
    and "columns (console_out st) = echo_width (line_text st)"
  shows "columns (console_out (clear_line st)) = 3 * int (count_list (line_text st) CHR 0x09)"
proof -
  have "length (line_text st) = line_len st"
    by (rule line_text_length [OF assms(1)])
  then show ?thesis using clear_line_loop_columns [OF assms(2), of "line_len st"] assms(3)
    by (simp add: clear_line_def echo_width_tabs)
qed

definition tab_line :: kbd_line where
  "tab_line = snd (0::nat, fst (kbd_line_read 7 16 [Some (key_down KEYCODE_TAB)] (kbd_line_init True)))"

lemma tab_line_eq: "tab_line = (kbd_line_init True)\<lparr>line_buffer := (replicate KBD_LINE_MAX CHR 0x00)[0 := CHR 0x09],
   line_len := 1, in_use := True, owner := 7, console_ready := True, console_out := ''    ''\<rparr>"
  by (simp add: tab_line_def kbd_line_read_def line_claim_def kbd_line_init_def key_down_def
      kbd_line_key_def line_append_def keycode_defs KBD_LINE_CAP_def KBD_LINE_MAX_def
      console_putchar_def Let_def del: replicate.simps)

theorem kbd_clear_line_residue_witness:
  "columns (console_out (clear_line tab_line)) = 3"
proof -
  have t: "line_text tab_line = [CHR 0x09]"
    by (simp add: line_text_def tab_line_eq KBD_LINE_MAX_def take_Suc_conv_app_nth del: replicate.simps)
  have "line_ok tab_line" by (simp add: tab_line_eq line_ok_def kbd_line_init_def KBD_LINE_CAP_def KBD_LINE_MAX_def)
  moreover have "console_ready tab_line" by (simp add: tab_line_eq)
  moreover have "columns (console_out tab_line) = echo_width (line_text tab_line)"
    unfolding t by (simp add: tab_line_eq echo_width_def columns_def char_columns_def)
  ultimately show ?thesis using kbd_clear_line_residue [of tab_line] by (simp add: t)
qed

end
