(* ===== verification/Block.thy ===== *)
theory Block
  imports Prelude
begin

text \<open>
  Block devices: the byte-granular access that the file systems use
  (\<open>kernel/kernel/block/utils.c\<close>), the handle operations of \<open>/dvc\<close> block nodes
  (\<open>kernel/kernel/block/block.c\<close>) and the RAM block device
  (\<open>kernel/kernel/drivers/ramblock/ramblock.c\<close>).  A device is the record of its operations
  over a state of any type; the contract of the operations is the locale \<open>block_device\<close>,
  which the RAM device is shown to meet.  \<open>alloc_ok\<close> says whether the \<open>kmalloc\<close> of an operation
  succeeds, and \<open>None\<close> is an access outside the scratch buffer.
\<close>

section \<open>Devices\<close>

definition BLOCK_OK :: int where "BLOCK_OK = 0"
definition BLOCK_ERR_INVAL :: int where "BLOCK_ERR_INVAL = - 1"
definition BLOCK_ERR_IO :: int where "BLOCK_ERR_IO = - 2"

definition wrap64 :: "nat \<Rightarrow> nat" where "wrap64 n = n mod 18446744073709551616"

lemma wrap64_id [simp]: "n < 18446744073709551616 \<Longrightarrow> wrap64 n = n"
  by (simp add: wrap64_def)

text \<open>
  \<open>read\<close> returns its code and the bytes stored in the caller's buffer, \<open>write\<close> its code and
  the new device state; a device may have no write operation.
\<close>

record 'd block_dev =
  op_read :: "'d \<Rightarrow> nat \<Rightarrow> nat \<Rightarrow> int \<times> u8 list"
  op_write :: "('d \<Rightarrow> nat \<Rightarrow> u8 list \<Rightarrow> nat \<Rightarrow> int \<times> 'd) option"
  impl :: 'd
  block_size :: nat
  block_count :: nat

definition chunk :: "nat \<Rightarrow> nat \<Rightarrow> 'a list \<Rightarrow> 'a list" where
  "chunk off n xs = take n (drop off xs)"

definition patch :: "nat \<Rightarrow> 'a list \<Rightarrow> 'a list \<Rightarrow> 'a list" where
  "patch off ys xs = take off xs @ ys @ drop (off + length ys) xs"

section \<open>Byte access (utils.c)\<close>

definition block_read_bytes ::
  "bool \<Rightarrow> 'd block_dev \<Rightarrow> nat \<Rightarrow> nat \<Rightarrow> (int \<times> u8 list) option" where
  "block_read_bytes alloc_ok dev offset len =
    (if len = 0 then Some (BLOCK_OK, [])
     else let
       blks = block_size dev;
       startblk = offset div blks;
       endblk = wrap64 (offset + len - 1) div blks;
       blkc = wrap32 (endblk + 1 - startblk)
     in if endblk \<ge> block_count dev then Some (BLOCK_ERR_INVAL, [])
     else if offset mod blks = 0 \<and> len mod blks = 0
     then Some (op_read dev (impl dev) startblk (len div blks))
     else if \<not> alloc_ok then Some (BLOCK_ERR_IO, [])
     else case op_read dev (impl dev) startblk blkc of (rc, scratch) \<Rightarrow>
       if rc = BLOCK_OK
       then let skip = wrap32 (offset - startblk * blks) in
         if length scratch > wrap32 (blkc * blks) \<or> skip + len > length scratch then None
         else Some (rc, chunk skip len scratch)
       else Some (rc, []))"

definition block_write_bytes ::
  "bool \<Rightarrow> 'd block_dev \<Rightarrow> nat \<Rightarrow> u8 list \<Rightarrow> (int \<times> 'd block_dev) option" where
  "block_write_bytes alloc_ok dev offset buf =
    (let len = length buf in
     if len = 0 then Some (BLOCK_OK, dev)
     else case op_write dev of None \<Rightarrow> Some (BLOCK_ERR_INVAL, dev)
     | Some wr \<Rightarrow> let
         blks = block_size dev;
         startblk = offset div blks;
         endblk = wrap64 (offset + len - 1) div blks;
         blkc = wrap32 (endblk + 1 - startblk)
       in if endblk \<ge> block_count dev then Some (BLOCK_ERR_INVAL, dev)
       else if offset mod blks = 0 \<and> len mod blks = 0
       then (case wr (impl dev) startblk buf (len div blks) of (rc, d) \<Rightarrow> Some (rc, dev\<lparr>impl := d\<rparr>))
       else if \<not> alloc_ok then Some (BLOCK_ERR_IO, dev)
       else case op_read dev (impl dev) startblk blkc of (rc, scratch) \<Rightarrow>
         if rc = BLOCK_OK
         then let skip = wrap32 (offset - startblk * blks) in
           if length scratch > wrap32 (blkc * blks) \<or> skip + len > length scratch then None
           else (case wr (impl dev) startblk (patch skip buf scratch) blkc of
             (rc, d) \<Rightarrow> Some (rc, dev\<lparr>impl := d\<rparr>))
         else Some (rc, dev))"

section \<open>The contract of a device\<close>

text \<open>
  \<open>content\<close> reads a device state as the bytes of all its blocks; \<open>good\<close> is the device's own
  invariant.
\<close>

locale block_device =
  fixes rd :: "'d \<Rightarrow> nat \<Rightarrow> nat \<Rightarrow> int \<times> u8 list"
    and wr :: "'d \<Rightarrow> nat \<Rightarrow> u8 list \<Rightarrow> nat \<Rightarrow> int \<times> 'd"
    and content :: "'d \<Rightarrow> u8 list"
    and good :: "nat \<Rightarrow> nat \<Rightarrow> 'd \<Rightarrow> bool"
  assumes content_length: "good bs cnt d \<Longrightarrow> length (content d) = cnt * bs"
    and size_bound: "good bs cnt d \<Longrightarrow> 0 < bs \<and> cnt * bs < 4294967296"
    and rd_ok: "good bs cnt d \<Longrightarrow> blk + n \<le> cnt \<Longrightarrow> rd d blk n = (0, chunk (blk * bs) (n * bs) (content d))"
    and wr_ok: "good bs cnt d \<Longrightarrow> blk + n \<le> cnt \<Longrightarrow> length xs = n * bs
      \<Longrightarrow> \<exists>d'. wr d blk xs n = (0, d') \<and> good bs cnt d' \<and> content d' = patch (blk * bs) xs (content d)"

lemma length_patch: "off + length ys \<le> length xs \<Longrightarrow> length (patch off ys xs) = length xs"
  by (simp add: patch_def)

lemma nth_patch:
  "off + length ys \<le> length xs \<Longrightarrow> i < length xs
   \<Longrightarrow> patch off ys xs ! i = (if off \<le> i \<and> i < off + length ys then ys ! (i - off) else xs ! i)"
  by (auto simp: patch_def nth_append min_def)

lemma length_chunk: "off + n \<le> length xs \<Longrightarrow> length (chunk off n xs) = n"
  by (simp add: chunk_def)

lemma nth_chunk: "off + n \<le> length xs \<Longrightarrow> i < n \<Longrightarrow> chunk off n xs ! i = xs ! (off + i)"
  by (simp add: chunk_def)

lemma chunk_patch:
  "off + length ys \<le> length xs \<Longrightarrow> chunk off (length ys) (patch off ys xs) = ys"
  by (simp add: chunk_def patch_def)

lemma chunk_chunk:
  "a + n \<le> m \<Longrightarrow> chunk a n (chunk b m xs) = chunk (b + a) n xs"
  by (simp add: chunk_def take_drop min_def add.commute)

lemma patch_window:
  assumes "a + length ys \<le> n" "b + n \<le> length xs"
  shows "patch b (patch a ys (chunk b n xs)) xs = patch (b + a) ys xs"
proof (rule nth_equalityI)
  have l: "length (patch a ys (chunk b n xs)) = n"
    using assms by (simp add: length_patch length_chunk)
  show "length (patch b (patch a ys (chunk b n xs)) xs) = length (patch (b + a) ys xs)"
    using assms l by (simp add: length_patch)
  fix i assume "i < length (patch b (patch a ys (chunk b n xs)) xs)"
  then have i: "i < length xs" using assms l by (simp add: length_patch)
  have w: "patch b (patch a ys (chunk b n xs)) xs ! i
      = (if b \<le> i \<and> i < b + n then patch a ys (chunk b n xs) ! (i - b) else xs ! i)"
    using nth_patch [of b "patch a ys (chunk b n xs)" xs i] l assms(2) i by simp
  show "patch b (patch a ys (chunk b n xs)) xs ! i = patch (b + a) ys xs ! i"
  proof (cases "b \<le> i \<and> i < b + n")
    case True
    then show ?thesis
      using w nth_patch [of a ys "chunk b n xs" "i - b"] nth_patch [of "b + a" ys xs i]
        nth_chunk [of b n xs "i - b"] length_chunk [of b n xs] assms i by auto
  next
    case False
    then show ?thesis using w nth_patch [of "b + a" ys xs i] assms i by auto
  qed
qed

text \<open>The block arithmetic of both routines, for a range inside the device.\<close>

lemma block_window:
  fixes bs cnt off len :: nat
  assumes "0 < bs" "cnt * bs < 4294967296" "0 < len" "off + len \<le> cnt * bs"
  defines "s \<equiv> off div bs" and "e \<equiv> wrap64 (off + len - 1) div bs"
  defines "n \<equiv> wrap32 (e + 1 - s)" and "k \<equiv> wrap32 (off - s * bs)"
  shows "e < cnt" and "s + n \<le> cnt" and "k = off mod bs" and "wrap32 (n * bs) = n * bs"
    and "k + len \<le> n * bs" and "s * bs + n * bs \<le> cnt * bs" and "s * bs + k = off"
    and "off mod bs = 0 \<Longrightarrow> len mod bs = 0 \<Longrightarrow> s + len div bs \<le> cnt \<and> s * bs = off \<and> len div bs * bs = len"
proof -
  have "off + len - 1 < 18446744073709551616" using assms(2,4) by linarith
  then have w: "wrap64 (off + len - 1) = off + len - 1" by (rule wrap64_id)
  have e: "e = (off + len - 1) div bs" unfolding e_def w by (rule refl)
  have "off + len - 1 < cnt * bs" using assms(3,4) by simp
  then show ec: "e < cnt" unfolding e using assms(1) by (simp add: less_mult_imp_div_less)
  have se: "s \<le> e" unfolding s_def e by (rule div_le_mono) (use assms(3) in simp)
  have cb: "cnt \<le> cnt * bs" using assms(1) by simp
  have "e + 1 - s < 4294967296" using ec cb assms(2) by linarith
  then have n: "n = e + 1 - s" unfolding n_def by (rule wrap32_id)
  show sn: "s + n \<le> cnt" using n ec se by simp
  have soff: "s * bs + off mod bs = off" unfolding s_def by simp
  have "off < 4294967296" using assms(2,4) by simp
  then have "off - s * bs < 4294967296" by simp
  then have k: "k = off - s * bs" by (simp add: k_def)
  show kk: "k = off mod bs" unfolding k using soff by linarith
  have "n * bs \<le> cnt * bs" using sn by simp
  then have "n * bs < 4294967296" using assms(2) by linarith
  then show wn: "wrap32 (n * bs) = n * bs" by (rule wrap32_id)
  have "off + len \<le> (e + 1) * bs"
    using dividend_less_times_div [OF assms(1), of "off + len - 1"] assms(3)
    by (simp add: e algebra_simps)
  moreover have "s * bs + n * bs = (e + 1) * bs" using n se by (simp add: distrib_right [symmetric])
  ultimately show "k + len \<le> n * bs" using soff kk by linarith
  show "s * bs + n * bs \<le> cnt * bs" using sn by (metis add_mult_distrib mult_le_mono1)
  show "s * bs + k = off" using soff kk by simp
  show "s + len div bs \<le> cnt \<and> s * bs = off \<and> len div bs * bs = len"
    if "off mod bs = 0" "len mod bs = 0"
  proof -
    have a: "s * bs = off" "len div bs * bs = len" using that soff by auto
    then have "(s + len div bs) * bs \<le> cnt * bs" using assms(4) by (simp add: distrib_right)
    then show ?thesis using a assms(1) by simp
  qed
qed

context block_device
begin

lemma read_bytes:
  assumes g: "good (block_size dev) (block_count dev) (impl dev)" and ops: "op_read dev = rd"
    and r: "off + len \<le> length (content (impl dev))"
  shows "block_read_bytes True dev off len = Some (BLOCK_OK, chunk off len (content (impl dev)))"
proof (cases "len = 0")
  case False
  note sb = size_bound [OF g] and cl = content_length [OF g]
  have len: "0 < len" and r2: "off + len \<le> block_count dev * block_size dev" using False r cl by simp_all
  note bw = block_window [OF conjunct1 [OF sb] conjunct2 [OF sb] len r2]
  show ?thesis
  proof (cases "off mod block_size dev = 0 \<and> len mod block_size dev = 0")
    case True
    note al = bw(8) [OF conjunct1 [OF True] conjunct2 [OF True]]
    from rd_ok [OF g conjunct1 [OF al]] show ?thesis
      using True False bw(1) al ops by (simp add: block_read_bytes_def Let_def BLOCK_OK_def)
  next
    case un: False
    define s where "s = off div block_size dev"
    define n where "n = wrap32 (wrap64 (off + len - 1) div block_size dev + 1 - s)"
    define k where "k = wrap32 (off - s * block_size dev)"
    note bw2 = bw [folded s_def, folded n_def k_def]
    define sc where "sc = chunk (s * block_size dev) (n * block_size dev) (content (impl dev))"
    have rdd: "rd (impl dev) s n = (0, sc)" unfolding sc_def by (rule rd_ok [OF g bw2(2)])
    have ls: "length sc = n * block_size dev" unfolding sc_def
      by (rule length_chunk) (use bw2(6) cl in simp)
    have "chunk k len sc = chunk off len (content (impl dev))"
      unfolding sc_def chunk_chunk [OF bw2(5)] bw2(7) by (rule refl)
    then show ?thesis unfolding block_read_bytes_def Let_def s_def [symmetric] n_def [symmetric]
        k_def [symmetric] ops rdd if_not_P [OF un]
      using False bw2(1,4,5) ls by (simp add: BLOCK_OK_def)
  qed
qed (simp add: block_read_bytes_def chunk_def)

lemma write_bytes:
  assumes g: "good (block_size dev) (block_count dev) (impl dev)" and ops: "op_read dev = rd"
    "op_write dev = Some wr" and r: "off + length xs \<le> length (content (impl dev))"
  shows "\<exists>d'. block_write_bytes True dev off xs = Some (BLOCK_OK, dev\<lparr>impl := d'\<rparr>)
    \<and> good (block_size dev) (block_count dev) d' \<and> content d' = patch off xs (content (impl dev))"
proof (cases "length xs = 0")
  case False
  note sb = size_bound [OF g] and cl = content_length [OF g]
  have len: "0 < length xs" and r2: "off + length xs \<le> block_count dev * block_size dev"
    using False r cl by simp_all
  note bw = block_window [OF conjunct1 [OF sb] conjunct2 [OF sb] len r2]
  show ?thesis
  proof (cases "off mod block_size dev = 0 \<and> length xs mod block_size dev = 0")
    case True
    note al = bw(8) [OF conjunct1 [OF True] conjunct2 [OF True]]
    from wr_ok [OF g conjunct1 [OF al] conjunct2 [OF conjunct2 [OF al], symmetric]]
    obtain d' where "wr (impl dev) (off div block_size dev) xs (length xs div block_size dev) = (0, d')"
      "good (block_size dev) (block_count dev) d'" "content d' = patch off xs (content (impl dev))"
      unfolding conjunct1 [OF conjunct2 [OF al]] by blast
    then show ?thesis using True False bw(1) ops
      by (auto simp: block_write_bytes_def Let_def BLOCK_OK_def)
  next
    case un: False
    define s where "s = off div block_size dev"
    define n where "n = wrap32 (wrap64 (off + length xs - 1) div block_size dev + 1 - s)"
    define k where "k = wrap32 (off - s * block_size dev)"
    note bw2 = bw [folded s_def, folded n_def k_def]
    define sc where "sc = chunk (s * block_size dev) (n * block_size dev) (content (impl dev))"
    have rdd: "rd (impl dev) s n = (0, sc)" unfolding sc_def by (rule rd_ok [OF g bw2(2)])
    have lw: "s * block_size dev + n * block_size dev \<le> length (content (impl dev))"
      using bw2(6) cl by simp
    have ls: "length sc = n * block_size dev" unfolding sc_def by (rule length_chunk [OF lw])
    have "length (patch k xs sc) = n * block_size dev"
      using length_patch [of k xs sc] bw2(5) ls by simp
    from wr_ok [OF g bw2(2) this]
    obtain d' where d: "wr (impl dev) s (patch k xs sc) n = (0, d')"
      "good (block_size dev) (block_count dev) d'"
      "content d' = patch (s * block_size dev) (patch k xs sc) (content (impl dev))" by blast
    have "content d' = patch off xs (content (impl dev))"
      using d(3) patch_window [OF bw2(5) lw] bw2(7) unfolding sc_def by simp
    moreover have "block_write_bytes True dev off xs = Some (BLOCK_OK, dev\<lparr>impl := d'\<rparr>)"
      unfolding block_write_bytes_def Let_def s_def [symmetric] n_def [symmetric] k_def [symmetric]
        ops rdd option.case if_not_P [OF un]
      using False bw2(1,4,5) ls d(1) by (simp add: BLOCK_OK_def)
    ultimately show ?thesis using d(2) by blast
  qed
qed (use g in \<open>auto simp: block_write_bytes_def patch_def Let_def intro!: exI [of _ "impl dev"]\<close>)

end

section \<open>The RAM device\<close>

record ramblock =
  rb_buffer :: "u8 list"
  rb_block_size :: nat
  rb_block_count :: nat

definition ramblock_read :: "ramblock \<Rightarrow> nat \<Rightarrow> nat \<Rightarrow> int \<times> u8 list" where
  "ramblock_read rb block count =
    (if wrap64 (block + count) > rb_block_count rb then (BLOCK_ERR_INVAL, [])
     else (BLOCK_OK, chunk (block * rb_block_size rb) (count * rb_block_size rb) (rb_buffer rb)))"

definition ramblock_write :: "ramblock \<Rightarrow> nat \<Rightarrow> u8 list \<Rightarrow> nat \<Rightarrow> int \<times> ramblock" where
  "ramblock_write rb block buf count =
    (if wrap64 (block + count) > rb_block_count rb then (BLOCK_ERR_INVAL, rb)
     else (BLOCK_OK, rb\<lparr>rb_buffer :=
       patch (block * rb_block_size rb) (take (count * rb_block_size rb) buf) (rb_buffer rb)\<rparr>))"

definition ramblock_count :: "ramblock \<Rightarrow> nat" where
  "ramblock_count rb = rb_block_count rb"

text \<open>
  \<open>block_register\<close> with its null checks, the allocation of the device and the registration
  as Booleans, and \<open>ramblock_init\<close> over it.
\<close>

definition block_register ::
  "bool \<Rightarrow> bool \<Rightarrow> ('d \<Rightarrow> nat \<Rightarrow> nat \<Rightarrow> int \<times> u8 list) \<Rightarrow>
   ('d \<Rightarrow> nat \<Rightarrow> u8 list \<Rightarrow> nat \<Rightarrow> int \<times> 'd) option \<Rightarrow> 'd \<Rightarrow> nat \<Rightarrow> nat \<Rightarrow> 'd block_dev option" where
  "block_register alloc_ok registered rd wr d bs cnt =
    (if bs = 0 then None
     else if \<not> alloc_ok then None
     else if \<not> registered then None
     else Some \<lparr>op_read = rd, op_write = wr, impl = d, block_size = bs, block_count = cnt\<rparr>)"

definition ramblock_init ::
  "bool \<Rightarrow> bool \<Rightarrow> bool \<Rightarrow> bool \<Rightarrow> nat \<Rightarrow> nat \<Rightarrow> ramblock block_dev option" where
  "ramblock_init rb_ok buf_ok dev_ok registered bs cnt =
    (if \<not> rb_ok then None
     else if \<not> buf_ok then None
     else block_register dev_ok registered ramblock_read (Some ramblock_write)
       \<lparr>rb_buffer = replicate (wrap32 (bs * wrap32 cnt)) 0, rb_block_size = bs, rb_block_count = cnt\<rparr>
       bs cnt)"

definition ramblock_good :: "nat \<Rightarrow> nat \<Rightarrow> ramblock \<Rightarrow> bool" where
  "ramblock_good bs cnt rb \<longleftrightarrow> rb_block_size rb = bs \<and> rb_block_count rb = cnt \<and> 0 < bs
     \<and> cnt * bs < 4294967296 \<and> length (rb_buffer rb) = cnt * bs"

lemma good_blocks:
  assumes "0 < bs" "cnt * bs < 4294967296" "blk + n \<le> cnt"
  shows "wrap64 (blk + n) = blk + n" "blk * bs + n * bs \<le> cnt * bs"
proof -
  have "cnt \<le> cnt * bs" using assms(1) by simp
  then have "blk + n < 18446744073709551616" using assms(2,3) by linarith
  then show "wrap64 (blk + n) = blk + n" by simp
  show "blk * bs + n * bs \<le> cnt * bs" using assms(3) by (metis add_mult_distrib mult_le_mono1)
qed

interpretation ram: block_device ramblock_read ramblock_write rb_buffer ramblock_good
proof unfold_locales
  fix bs cnt d blk n and xs :: "u8 list"
  assume g: "ramblock_good bs cnt d" and r: "blk + n \<le> cnt"
  then have gb: "wrap64 (blk + n) = blk + n" "blk * bs + n * bs \<le> length (rb_buffer d)"
    using good_blocks [of bs cnt blk n] by (auto simp: ramblock_good_def)
  show "ramblock_read d blk n = (0, chunk (blk * bs) (n * bs) (rb_buffer d))"
    using g r gb by (simp add: ramblock_read_def ramblock_good_def BLOCK_OK_def)
  assume "length xs = n * bs"
  then show "\<exists>d'. ramblock_write d blk xs n = (0, d') \<and> ramblock_good bs cnt d'
      \<and> rb_buffer d' = patch (blk * bs) xs (rb_buffer d)"
    using g r gb by (simp add: ramblock_write_def ramblock_good_def BLOCK_OK_def length_patch)
qed (auto simp: ramblock_good_def)

definition ram_dev :: "ramblock block_dev \<Rightarrow> bool" where
  "ram_dev dev \<longleftrightarrow> op_read dev = ramblock_read \<and> op_write dev = Some ramblock_write
     \<and> ramblock_good (block_size dev) (block_count dev) (impl dev)"

lemma ramblock_init_dev:
  assumes "ramblock_init a b c d bs cnt = Some dev" "cnt * bs < 4294967296"
  shows "ram_dev dev \<and> rb_buffer (impl dev) = replicate (cnt * bs) 0"
proof -
  have bs: "0 < bs" using assms(1) by (auto simp: ramblock_init_def block_register_def split: if_splits)
  then have "cnt \<le> cnt * bs" by simp
  then have "cnt < 4294967296" using assms(2) by linarith
  then have "wrap32 (bs * wrap32 cnt) = cnt * bs" using assms(2) by (simp add: mult.commute)
  then show ?thesis using assms bs
    by (auto simp: ramblock_init_def block_register_def ram_dev_def ramblock_good_def split: if_splits)
qed

text \<open>C17: Byte access to a block device is exact: on a RAM device, \<open>block_write_bytes\<close> replaces
  precisely the given byte range, whether or not it is aligned to blocks, and a following
  \<open>block_read_bytes\<close> of the range gives the written bytes back, while any other range inside
  the device reads as the unpatched or patched content prescribes.\<close>

theorem block_bytes_roundtrip:
  assumes "ram_dev dev" and "off + length xs \<le> block_count dev * block_size dev"
    and "off2 + len2 \<le> block_count dev * block_size dev"
  shows "\<exists>dev'. block_write_bytes True dev off xs = Some (BLOCK_OK, dev') \<and> ram_dev dev'
    \<and> block_read_bytes True dev' off (length xs) = Some (BLOCK_OK, xs)
    \<and> block_read_bytes True dev' off2 len2
      = Some (BLOCK_OK, chunk off2 len2 (patch off xs (rb_buffer (impl dev))))"
proof -
  have g: "ramblock_good (block_size dev) (block_count dev) (impl dev)"
    and rd: "op_read dev = ramblock_read" and wr: "op_write dev = Some ramblock_write"
    using assms(1) by (simp_all add: ram_dev_def)
  have l: "length (rb_buffer (impl dev)) = block_count dev * block_size dev"
    using g by (simp add: ramblock_good_def)
  from ram.write_bytes [OF g rd wr assms(2) [folded l]] obtain d where d:
    "block_write_bytes True dev off xs = Some (BLOCK_OK, dev\<lparr>impl := d\<rparr>)"
    "ramblock_good (block_size dev) (block_count dev) d"
    "rb_buffer d = patch off xs (rb_buffer (impl dev))" by blast
  define dev' where "dev' = dev\<lparr>impl := d\<rparr>"
  have g': "ramblock_good (block_size dev') (block_count dev') (impl dev')"
    and rd': "op_read dev' = ramblock_read" using d(2) rd by (simp_all add: dev'_def)
  have l': "length (rb_buffer (impl dev')) = block_count dev * block_size dev"
    using d(2) by (simp add: ramblock_good_def dev'_def)
  have c: "rb_buffer (impl dev') = patch off xs (rb_buffer (impl dev))" by (simp add: dev'_def d(3))
  have "ram_dev dev'" using g' rd' wr by (simp add: ram_dev_def dev'_def)
  with d(1) ram.read_bytes [OF g' rd' assms(2) [folded l']]
    ram.read_bytes [OF g' rd' assms(3) [folded l']] chunk_patch [OF assms(2) [folded l]]
  show ?thesis unfolding c dev'_def [symmetric] by simp
qed

lemma ram_dev_example:
  "\<exists>dev. ramblock_init True True True True 4 2 = Some dev \<and> ram_dev dev \<and> block_count dev = 2
     \<and> block_size dev = 4 \<and> rb_buffer (impl dev) = replicate 8 0"
  using ramblock_init_dev [of True True True True 4 2]
  by (simp add: ramblock_init_def block_register_def)

theorem block_bytes_roundtrip_witness:
  "\<exists>dev dev'. ramblock_init True True True True 4 2 = Some dev
     \<and> block_write_bytes True dev 3 [7, 8] = Some (BLOCK_OK, dev') \<and> ram_dev dev'
     \<and> block_read_bytes True dev' 3 2 = Some (BLOCK_OK, [7, 8])
     \<and> block_read_bytes True dev' 2 4 = Some (BLOCK_OK, [0, 7, 8, 0])"
proof -
  from ram_dev_example obtain dev where dev: "ramblock_init True True True True 4 2 = Some dev"
    "ram_dev dev" "block_count dev = 2" "block_size dev = 4"
    "rb_buffer (impl dev) = replicate 8 0" by blast
  from block_bytes_roundtrip [OF dev(2), of 3 "[7, 8]" 2 4] show ?thesis
    using dev by (auto simp: chunk_def patch_def numeral_eq_Suc)
qed

section \<open>The handle operations (block.c)\<close>

record 'd block_handle =
  bh_dev :: "'d block_dev"
  bh_offset :: nat

definition block_open_handle :: "bool \<Rightarrow> 'd block_dev \<Rightarrow> 'd block_handle option" where
  "block_open_handle alloc_ok dev =
    (if \<not> alloc_ok then None else Some \<lparr>bh_dev = dev, bh_offset = 0\<rparr>)"

text \<open>
  The window of blocks: the offset is a \<open>size_t\<close>, so \<open>offset + len - 1\<close> wraps at 32 bits.
  (first block, number of blocks, offset in the scratch buffer)
\<close>

definition block_span :: "nat \<Rightarrow> nat \<Rightarrow> nat \<Rightarrow> nat \<times> nat \<times> nat" where
  "block_span offset len bs =
    (let first_block = offset div bs;
         last_block = wrap32 (offset + len - 1) div bs
     in (first_block, wrap32 (wrap64 (18446744073709551616 + last_block + 1 - first_block)), offset mod bs))"

definition block_read_op ::
  "bool \<Rightarrow> 'd block_handle \<Rightarrow> nat \<Rightarrow> (int \<times> u8 list \<times> 'd block_handle) option" where
  "block_read_op alloc_ok bh len =
    (let dev = bh_dev bh; bs = block_size dev in
     if len = 0 then Some (0, [], bh)
     else case block_span (bh_offset bh) len bs of (first_block, num_blocks, buf_off) \<Rightarrow>
       if \<not> alloc_ok then Some (0, [], bh)
       else case op_read dev (impl dev) first_block num_blocks of (rc, tmp) \<Rightarrow>
         if rc \<noteq> 0 then Some (0, [], bh)
         else if length tmp > wrap32 (num_blocks * bs) \<or> buf_off + len > length tmp then None
         else Some (int len, chunk buf_off len tmp, bh\<lparr>bh_offset := wrap32 (bh_offset bh + len)\<rparr>))"

text \<open>
  When nothing has to be read back the scratch buffer is fresh memory, here zeros; the new
  bytes then cover all of it.
\<close>

definition block_write_op ::
  "bool \<Rightarrow> 'd block_handle \<Rightarrow> u8 list \<Rightarrow> (int \<times> 'd block_handle) option" where
  "block_write_op alloc_ok bh buf =
    (let dev = bh_dev bh; bs = block_size dev; len = length buf in
     if len = 0 then Some (0, bh)
     else case op_write dev of None \<Rightarrow> Some (BLOCK_ERR_INVAL, bh)
     | Some wr \<Rightarrow> (case block_span (bh_offset bh) len bs of (first_block, num_blocks, buf_off) \<Rightarrow>
       if wrap64 (first_block + num_blocks) > block_count dev then Some (BLOCK_ERR_INVAL, bh)
       else if \<not> alloc_ok then Some (0, bh)
       else let need_read = (buf_off \<noteq> 0 \<or> len < wrap32 (num_blocks * bs));
                (rc, tmp) = (if need_read then op_read dev (impl dev) first_block num_blocks
                             else (0, replicate (wrap32 (num_blocks * bs)) 0))
       in if rc \<noteq> 0 then Some (0, bh)
       else if length tmp > wrap32 (num_blocks * bs) \<or> buf_off + len > length tmp then None
       else case wr (impl dev) first_block (patch buf_off buf tmp) num_blocks of (rc, d) \<Rightarrow>
         if rc \<noteq> 0 then Some (0, bh\<lparr>bh_dev := dev\<lparr>impl := d\<rparr>\<rparr>)
         else Some (int len, \<lparr>bh_dev = dev\<lparr>impl := d\<rparr>, bh_offset = wrap32 (bh_offset bh + len)\<rparr>)))"

definition INT64_MAX :: int where "INT64_MAX = 9223372036854775807"

text \<open>\<open>SEEK_SET\<close>, \<open>SEEK_CUR\<close> and \<open>SEEK_END\<close> are 0, 1 and 2.\<close>

definition block_seek_op :: "'d block_handle \<Rightarrow> int \<Rightarrow> int \<Rightarrow> int \<times> 'd block_handle" where
  "block_seek_op bh whence offset =
    (let dev = bh_dev bh;
         dev_size = wrap64 (block_count dev * block_size dev)
     in case (if whence = 0 then Some 0
              else if whence = 1 then Some (int (bh_offset bh))
              else if whence = 2 then Some (if int dev_size > INT64_MAX then INT64_MAX else int dev_size)
              else None) of
       None \<Rightarrow> (INVALIDARG, bh)
     | Some base \<Rightarrow> let
         pos = (if offset > 0 \<and> base > INT64_MAX - offset then INT64_MAX else base + offset);
         pos = (if pos < 0 then 0 else pos);
         np = nat pos;
         np = (if np > dev_size then dev_size else np)
       in (0, bh\<lparr>bh_offset := wrap32 np\<rparr>))"

definition block_activate_op :: int where "block_activate_op = - 1"
definition block_rdy_op :: int where "block_rdy_op = - 1"

lemma block_span_inside:
  assumes "0 < bs" "cnt * bs < 4294967296" "0 < len" "off + len \<le> cnt * bs"
  defines "f \<equiv> fst (block_span off len bs)" and "n \<equiv> fst (snd (block_span off len bs))"
  shows "snd (snd (block_span off len bs)) = off mod bs" and "f + n \<le> cnt" and "wrap32 (n * bs) = n * bs"
    and "off mod bs + len \<le> n * bs" and "f * bs + off mod bs = off"
    and "wrap64 (f + n) = f + n" and "f * bs + n * bs \<le> cnt * bs"
proof -
  note bw = block_window [OF assms(1-4)]
  have lt: "off + len - 1 < 4294967296" "off + len - 1 < 18446744073709551616" using assms(2,4) by linarith+
  define s where "s = off div bs"
  define e where "e = (off + len - 1) div bs"
  have we: "wrap64 (off + len - 1) div bs = e" unfolding e_def using wrap64_id [OF lt(2)] by simp
  have we2: "wrap32 (off + len - 1) div bs = e" unfolding e_def using wrap32_id [OF lt(1)] by simp
  have se: "s \<le> e" unfolding s_def e_def by (rule div_le_mono) (use assms(3) in simp)
  have cb: "cnt \<le> cnt * bs" using assms(1) by simp
  have "18446744073709551616 + e + 1 - s = (e + 1 - s) + 18446744073709551616" using se by simp
  moreover have "e + 1 - s < 18446744073709551616" using bw(1) cb assms(2) unfolding we by linarith
  ultimately have "wrap64 (18446744073709551616 + e + 1 - s) = e + 1 - s"
    by (simp only: wrap64_def mod_add_self2 mod_less)
  then have n: "n = wrap32 (e + 1 - s)"
    by (simp only: n_def block_span_def Let_def we2 s_def [symmetric] fst_conv snd_conv)
  have f: "f = s" by (simp only: f_def block_span_def Let_def s_def fst_conv)
  have sc: "s * bs + off mod bs = off" unfolding s_def by simp
  note bw2 = bw [unfolded we, folded s_def, folded n]
  show "snd (snd (block_span off len bs)) = off mod bs" by (simp only: block_span_def Let_def snd_conv)
  show "f + n \<le> cnt" "wrap32 (n * bs) = n * bs" "f * bs + off mod bs = off" "f * bs + n * bs \<le> cnt * bs"
    using bw2(2,4,6) sc by (simp_all add: f)
  show "off mod bs + len \<le> n * bs" using bw2(3,5) by simp
  then show "wrap64 (f + n) = f + n"
    by (intro wrap64_id) (use \<open>f + n \<le> cnt\<close> cb assms(2) in linarith)
qed

lemma ram_dev_facts:
  assumes "ram_dev dev"
  shows "op_read dev = ramblock_read" "op_write dev = Some ramblock_write"
    "ramblock_good (block_size dev) (block_count dev) (impl dev)"
    "0 < block_size dev" "block_count dev * block_size dev < 4294967296"
    "length (rb_buffer (impl dev)) = block_count dev * block_size dev"
  using assms by (auto simp: ram_dev_def ramblock_good_def)

lemma block_read_op_inside:
  assumes dev: "ram_dev (bh_dev bh)" and len: "0 < len"
    and r: "bh_offset bh + len \<le> block_count (bh_dev bh) * block_size (bh_dev bh)"
  shows "block_read_op True bh len = Some (int len, chunk (bh_offset bh) len (rb_buffer (impl (bh_dev bh))),
    bh\<lparr>bh_offset := bh_offset bh + len\<rparr>)"
proof -
  note df = ram_dev_facts [OF dev]
  obtain f n b where sp: "block_span (bh_offset bh) len (block_size (bh_dev bh)) = (f, n, b)"
    by (metis prod_cases3)
  note bs = block_span_inside [OF df(4,5) len r, unfolded sp fst_conv snd_conv]
  have ro: "ramblock_read (impl (bh_dev bh)) f n
      = (0, chunk (f * block_size (bh_dev bh)) (n * block_size (bh_dev bh)) (rb_buffer (impl (bh_dev bh))))"
    by (rule ram.rd_ok [OF df(3) bs(2)])
  have ln: "length (chunk (f * block_size (bh_dev bh)) (n * block_size (bh_dev bh)) (rb_buffer (impl (bh_dev bh))))
      = n * block_size (bh_dev bh)" by (rule length_chunk) (use bs(7) df(6) in simp)
  have cc: "chunk (bh_offset bh mod block_size (bh_dev bh)) len
      (chunk (f * block_size (bh_dev bh)) (n * block_size (bh_dev bh)) (rb_buffer (impl (bh_dev bh))))
      = chunk (bh_offset bh) len (rb_buffer (impl (bh_dev bh)))"
    by (simp only: chunk_chunk [OF bs(4)] bs(5))
  have "wrap32 (bh_offset bh + len) = bh_offset bh + len" using r df(5) by (intro wrap32_id) linarith
  then show ?thesis
    unfolding block_read_op_def Let_def sp df(1) prod.case ro
    using len ln bs(1,3,4) cc by simp
qed

lemma block_write_op_inside:
  assumes dev: "ram_dev (bh_dev bh)" and ne: "xs \<noteq> []"
    and r: "bh_offset bh + length xs \<le> block_count (bh_dev bh) * block_size (bh_dev bh)"
  shows "\<exists>d. block_write_op True bh xs
      = Some (int (length xs), \<lparr>bh_dev = (bh_dev bh)\<lparr>impl := d\<rparr>, bh_offset = bh_offset bh + length xs\<rparr>)
    \<and> ram_dev ((bh_dev bh)\<lparr>impl := d\<rparr>) \<and> rb_buffer d = patch (bh_offset bh) xs (rb_buffer (impl (bh_dev bh)))"
proof -
  define dv where "dv = bh_dev bh"
  define off where "off = bh_offset bh"
  have len: "0 < length xs" using ne by simp
  note df = ram_dev_facts [OF dev, folded dv_def]
  obtain f n b where sp: "block_span off (length xs) (block_size dv) = (f, n, b)" by (metis prod_cases3)
  note bs = block_span_inside [OF df(4,5) len r [folded dv_def off_def], unfolded sp fst_conv snd_conv]
  define old where "old = chunk (f * block_size dv) (n * block_size dv) (rb_buffer (impl dv))"
  have ro: "ramblock_read (impl dv) f n = (0, old)" unfolding old_def by (rule ram.rd_ok [OF df(3) bs(2)])
  have win: "f * block_size dv + n * block_size dv \<le> length (rb_buffer (impl dv))" using bs(7) df(6) by simp
  have lo: "length old = n * block_size dv" unfolding old_def by (rule length_chunk [OF win])
  define need where "need = (b \<noteq> 0 \<or> length xs < n * block_size dv)"
  define tmp where "tmp = (if need then old else replicate (n * block_size dv) 0)"
  have lt: "length tmp = n * block_size dv" by (simp add: tmp_def lo)
  have pt: "patch b xs tmp = patch b xs old"
    using bs(1,4) lo by (auto simp: tmp_def need_def patch_def)
  have "length (patch b xs tmp) = n * block_size dv"
    using length_patch [of b xs tmp] bs(1,4) lt by simp
  from ram.wr_ok [OF df(3) bs(2) this]
  obtain d where d: "ramblock_write (impl dv) f (patch b xs tmp) n = (0, d)"
    "ramblock_good (block_size dv) (block_count dv) d"
    "rb_buffer d = patch (f * block_size dv) (patch b xs tmp) (rb_buffer (impl dv))" by blast
  have "b + length xs \<le> n * block_size dv" using bs(1,4) by simp
  from patch_window [OF this win] have cont: "rb_buffer d = patch off xs (rb_buffer (impl dv))"
    using d(3) bs(1,5) unfolding pt old_def by simp
  have wo: "wrap32 (off + length xs) = off + length xs"
    using r df(5) by (intro wrap32_id) (simp add: dv_def off_def)
  have tm: "(if need then ramblock_read (impl dv) f n else (0, replicate (n * block_size dv) 0)) = (0, tmp)"
    by (simp add: tmp_def ro)
  have "block_write_op True bh xs
      = Some (int (length xs), \<lparr>bh_dev = dv\<lparr>impl := d\<rparr>, bh_offset = off + length xs\<rparr>)"
    unfolding block_write_op_def Let_def dv_def [symmetric] off_def [symmetric] sp df(1,2) option.case
      prod.case bs(3,6) need_def [symmetric] tm d(1) wo
    using ne bs(1,2,4) lt by simp
  moreover have "ram_dev (dv\<lparr>impl := d\<rparr>)" using d(2) df(1,2) by (simp add: ram_dev_def)
  ultimately show ?thesis using cont unfolding dv_def off_def by blast
qed

lemma block_seek_set:
  "block_count (bh_dev bh) * block_size (bh_dev bh) < 4294967296
   \<Longrightarrow> off \<le> block_count (bh_dev bh) * block_size (bh_dev bh)
   \<Longrightarrow> block_seek_op bh 0 (int off) = (0, bh\<lparr>bh_offset := off\<rparr>)"
  by (simp add: block_seek_op_def Let_def INT64_MAX_def)

text \<open>C18: A block node is a file of its device's bytes: a write through a handle, at any offset
  and of any length inside the device, stores exactly its bytes there and moves the offset
  behind them, and reading the same range after a seek returns them.\<close>

theorem block_handle_write_read:
  assumes dev: "ram_dev (bh_dev bh)" and ne: "xs \<noteq> []"
    and r: "bh_offset bh + length xs \<le> block_count (bh_dev bh) * block_size (bh_dev bh)"
  shows "\<exists>bh2. block_write_op True bh xs = Some (int (length xs), bh2)
    \<and> ram_dev (bh_dev bh2) \<and> bh_offset bh2 = bh_offset bh + length xs
    \<and> rb_buffer (impl (bh_dev bh2)) = patch (bh_offset bh) xs (rb_buffer (impl (bh_dev bh)))
    \<and> block_read_op True (snd (block_seek_op bh2 0 (int (bh_offset bh)))) (length xs)
      = Some (int (length xs), xs, bh2)"
proof -
  note df = ram_dev_facts [OF dev]
  from block_write_op_inside [OF dev ne r] obtain d where d:
    "block_write_op True bh xs
      = Some (int (length xs), \<lparr>bh_dev = (bh_dev bh)\<lparr>impl := d\<rparr>, bh_offset = bh_offset bh + length xs\<rparr>)"
    "ram_dev ((bh_dev bh)\<lparr>impl := d\<rparr>)"
    "rb_buffer d = patch (bh_offset bh) xs (rb_buffer (impl (bh_dev bh)))" by blast
  define bh2 where "bh2 = \<lparr>bh_dev = (bh_dev bh)\<lparr>impl := d\<rparr>, bh_offset = bh_offset bh + length xs\<rparr>"
  define bh3 where "bh3 = bh2\<lparr>bh_offset := bh_offset bh\<rparr>"
  have sk: "snd (block_seek_op bh2 0 (int (bh_offset bh))) = bh3"
    using block_seek_set [of bh2 "bh_offset bh"] df(5) r by (simp add: bh2_def bh3_def)
  have "block_read_op True bh3 (length xs) = Some (int (length xs),
      chunk (bh_offset bh3) (length xs) (rb_buffer (impl (bh_dev bh3))), bh3\<lparr>bh_offset := bh_offset bh3 + length xs\<rparr>)"
    by (rule block_read_op_inside) (use d(2) ne r in \<open>auto simp: bh3_def bh2_def\<close>)
  moreover have "chunk (bh_offset bh) (length xs) (rb_buffer d) = xs"
    unfolding d(3) by (rule chunk_patch) (use r df(6) in simp)
  ultimately have fin: "block_read_op True (snd (block_seek_op bh2 0 (int (bh_offset bh)))) (length xs)
      = Some (int (length xs), xs, bh2)" unfolding sk by (simp add: bh3_def bh2_def)
  show ?thesis
    by (intro exI [of _ bh2] conjI fin) (simp_all add: bh2_def d)
qed

theorem block_handle_write_read_witness:
  "\<exists>dev bh bh2. ramblock_init True True True True 4 2 = Some dev
    \<and> block_open_handle True dev = Some bh \<and> block_write_op True bh [1, 2, 3, 4, 5] = Some (5, bh2)
    \<and> bh_offset bh2 = 5
    \<and> block_read_op True (snd (block_seek_op bh2 0 0)) 5 = Some (5, [1, 2, 3, 4, 5], bh2)"
proof -
  from ram_dev_example obtain dev where dev: "ramblock_init True True True True 4 2 = Some dev"
    "ram_dev dev" "block_count dev = 2" "block_size dev = 4" by blast
  define bh where "bh = \<lparr>bh_dev = dev, bh_offset = 0\<rparr>"
  have "block_open_handle True dev = Some bh" by (simp add: block_open_handle_def bh_def)
  moreover have "bh_offset bh = 0" "ram_dev (bh_dev bh)"
    "block_count (bh_dev bh) * block_size (bh_dev bh) = 8" using dev by (simp_all add: bh_def)
  moreover have "length [1, 2, 3, 4, 5 :: u8] = 5" "int 5 = 5" "int 0 = 0" by simp_all
  moreover from this block_handle_write_read [of bh "[1, 2, 3, 4, 5]", unfolded \<open>bh_offset bh = 0\<close> this]
  obtain bh2 where "block_write_op True bh [1, 2, 3, 4, 5] = Some (5, bh2)" "bh_offset bh2 = 5"
    "block_read_op True (snd (block_seek_op bh2 0 0)) 5 = Some (5, [1, 2, 3, 4, 5], bh2)"
    using \<open>ram_dev (bh_dev bh)\<close> \<open>block_count (bh_dev bh) * block_size (bh_dev bh) = 8\<close> by auto
  ultimately show ?thesis using dev(1) by blast
qed

text \<open>Seeking stays on the device: for each of the three origins and every 64-bit offset the
  new position is the sum clamped to \<open>[0, size]\<close>, an overflowing sum included, and an unknown
  origin is refused and changes nothing.\<close>

theorem block_seek_clamps:
  assumes "block_count (bh_dev bh) * block_size (bh_dev bh) < 4294967296"
    and "bh_offset bh < 4294967296" and "- INT64_MAX - 1 \<le> offset" and "offset \<le> INT64_MAX"
  shows "(whence \<notin> {0, 1, 2} \<longrightarrow> block_seek_op bh whence offset = (INVALIDARG, bh))
    \<and> (whence \<in> {0, 1, 2} \<longrightarrow> (\<exists>base. base = (if whence = 0 then 0 else if whence = 1 then int (bh_offset bh)
          else int (block_count (bh_dev bh) * block_size (bh_dev bh)))
        \<and> block_seek_op bh whence offset = (0, bh\<lparr>bh_offset :=
            nat (max 0 (min (int (block_count (bh_dev bh) * block_size (bh_dev bh))) (base + offset)))\<rparr>)))"
proof -
  define sz where "sz = block_count (bh_dev bh) * block_size (bh_dev bh)"
  have sz: "sz < 4294967296" using assms(1) by (simp add: sz_def)
  then have w: "wrap64 sz = sz" by simp
  have step: "wrap32 (if nat (if p < 0 then 0 else p) > sz then sz else nat (if p < 0 then 0 else p))
      = nat (max 0 (min (int sz) (base + offset)))"
    if "p = (if offset > 0 \<and> base > INT64_MAX - offset then INT64_MAX else base + offset)" "0 \<le> base"
    for p base
    using that sz by (auto simp: INT64_MAX_def min_def max_def)
  have nm: "\<not> int sz > INT64_MAX" using sz by (simp add: INT64_MAX_def)
  have s: "block_seek_op bh whence offset
      = (0, bh\<lparr>bh_offset := nat (max 0 (min (int sz) (base + offset)))\<rparr>)"
    if b: "(if whence = 0 then Some 0 else if whence = 1 then Some (int (bh_offset bh))
        else if whence = 2 then Some (int sz) else None) = Some base" "0 \<le> base" for base
    unfolding block_seek_op_def Let_def sz_def [symmetric] w if_not_P [OF nm] b(1) option.case
      step [OF refl b(2)] by (rule refl)
  have "block_seek_op bh whence offset = (INVALIDARG, bh)" if "whence \<notin> {0, 1, 2}"
    using that by (simp add: block_seek_op_def)
  then show ?thesis unfolding sz_def [symmetric]
    using s [of 0] s [of "int (bh_offset bh)"] s [of "int sz"] by auto
qed

theorem block_seek_clamps_witness:
  "\<exists>dev bh. ramblock_init True True True True 4 2 = Some dev \<and> block_open_handle True dev = Some bh
    \<and> block_seek_op bh 2 INT64_MAX = (0, bh\<lparr>bh_offset := 8\<rparr>)
    \<and> block_seek_op bh 1 (- 5) = (0, bh) \<and> block_seek_op bh 7 1 = (INVALIDARG, bh)"
proof -
  from ram_dev_example obtain dev where dev: "ramblock_init True True True True 4 2 = Some dev"
    "ram_dev dev" "block_count dev = 2" "block_size dev = 4" by blast
  define bh where "bh = \<lparr>bh_dev = dev, bh_offset = 0\<rparr>"
  have "block_open_handle True dev = Some bh" by (simp add: block_open_handle_def bh_def)
  moreover have "block_seek_op bh 2 INT64_MAX = (0, bh\<lparr>bh_offset := 8\<rparr>)"
    using block_seek_clamps [of bh INT64_MAX 2] dev by (simp add: bh_def INT64_MAX_def)
  moreover have "block_seek_op bh 1 (- 5) = (0, bh)" "block_seek_op bh 7 1 = (INVALIDARG, bh)"
    using block_seek_clamps [of bh "- 5" 1] block_seek_clamps [of bh 1 7] dev
    by (simp_all add: bh_def INT64_MAX_def)
  ultimately show ?thesis using dev(1) by blast
qed

text \<open>A read through a block node that crosses the end of the device returns 0, the value of
  an end of file, and transfers nothing, although bytes remain before the end: the routine
  asks the device for the whole window and gives up when that fails.\<close>

theorem block_read_op_loses_tail:
  assumes "ram_dev (bh_dev bh)" and "0 < len"
    and "bh_offset bh < block_count (bh_dev bh) * block_size (bh_dev bh)"
    and "block_count (bh_dev bh) * block_size (bh_dev bh) < bh_offset bh + len"
    and "bh_offset bh + len < 4294967296"
  shows "block_read_op True bh len = Some (0, [], bh)"
proof -
  note df = ram_dev_facts [OF assms(1)]
  define bs where "bs = block_size (bh_dev bh)"
  define cnt where "cnt = block_count (bh_dev bh)"
  define off where "off = bh_offset bh"
  note a = assms(2-5) [folded bs_def cnt_def off_def]
  have b0: "0 < bs" using df(4) by (simp add: bs_def)
  obtain f n b where sp: "block_span off len bs = (f, n, b)" by (metis prod_cases3)
  define e where "e = (off + len - 1) div bs"
  have we: "wrap32 (off + len - 1) div bs = e" unfolding e_def using wrap32_id [of "off + len - 1"] a by simp
  have fs: "f = off div bs" using sp unfolding block_span_def Let_def by simp
  have fe: "f \<le> e" unfolding fs e_def by (rule div_le_mono) (use a in simp)
  have "e \<le> off + len - 1" unfolding e_def by (rule div_le_dividend)
  then have el: "e < 4294967296" using a by linarith
  have "18446744073709551616 + e + 1 - f = (e + 1 - f) + 18446744073709551616" using fe by simp
  moreover have "e + 1 - f < 18446744073709551616" using el by linarith
  ultimately have w1: "wrap64 (18446744073709551616 + e + 1 - f) = e + 1 - f"
    by (simp only: wrap64_def mod_add_self2 mod_less)
  have n: "n = wrap32 (e + 1 - f)" using sp w1 unfolding block_span_def Let_def we fs by simp
  have "cnt \<le> e" unfolding e_def using a b0 by (metis Suc_diff_1 add_gr_0 less_Suc_eq_le less_eq_div_iff_mult_less_eq)
  have "e + 1 \<le> off + len" using \<open>e \<le> off + len - 1\<close> a(1) by linarith
  then have "e + 1 - f < 4294967296" using a(4) by linarith
  then have n2: "n = e + 1 - f" unfolding n by (rule wrap32_id)
  have "wrap64 (f + n) > cnt" using n2 fe \<open>cnt \<le> e\<close> el by simp
  then have "ramblock_read (impl (bh_dev bh)) f n = (BLOCK_ERR_INVAL, [])"
    using df(3) by (simp add: ramblock_read_def ramblock_good_def cnt_def)
  then show ?thesis
    using a sp df(1) by (simp add: block_read_op_def Let_def bs_def off_def BLOCK_ERR_INVAL_def)
qed

theorem block_read_op_loses_tail_witness:
  "\<exists>dev bh. ramblock_init True True True True 4 2 = Some dev \<and> block_open_handle True dev = Some bh
    \<and> block_read_op True bh 9 = Some (0, [], bh)"
proof -
  from ram_dev_example obtain dev where dev: "ramblock_init True True True True 4 2 = Some dev"
    "ram_dev dev" "block_count dev = 2" "block_size dev = 4" by blast
  define bh where "bh = \<lparr>bh_dev = dev, bh_offset = 0\<rparr>"
  have "block_open_handle True dev = Some bh" by (simp add: block_open_handle_def bh_def)
  then show ?thesis using dev block_read_op_loses_tail [of bh 9] by (auto simp: bh_def)
qed

end
