(* ===== verification/Slab.thy ===== *)
theory Slab
  imports Prelude
begin

text \<open>
  The kernel heap \<open>kmalloc\<close>/\<open>kfree\<close> (\<open>kernel/kernel/memman/slab/slab.c\<close>): nine caches of
  one-page slabs whose free objects are chained through their own first word, and a registry
  of 64 allocations of whole pages.  A slab is kept with the first word of each of its
  objects (\<open>words\<close>); the owner of an allocated object may change its word, which
  \<open>slab_user_write\<close> models.  Page ranges come from \<open>vmalloc\<close>: its answer is an argument of
  the allocation, and a release is reported as an event.
\<close>

section \<open>State\<close>

definition SLAB_MAGIC :: u32 where "SLAB_MAGIC = 0xBABEBAB1"
definition PAGE_SIZE :: nat where "PAGE_SIZE = 4096"
definition MAX_BIG_ALLOCS :: nat where "MAX_BIG_ALLOCS = 64"

text \<open>\<open>(uint32_t)-1\<close>, the end of a free list.\<close>

definition NO_OBJ :: nat where "NO_OBJ = 4294967295"

record slab =
  obj_size :: nat
  sfree :: nat
  used :: nat
  capacity :: nat
  words :: "nat list"

text \<open>
  The heap: the bases of the slabs of each cache, newest first; the slab in each page that
  holds one (with the magic number in its header); the registry of big allocations
  (address, pages; address 0 for a free entry).
\<close>

record heap =
  caches :: "(nat \<times> nat list) list"
  slabs :: "nat \<Rightarrow> slab option"
  big_allocs :: "(nat \<times> nat) list"

datatype vm_event = No_Event | Free_Pages nat nat | Free_Page nat

definition kmalloc_caches :: "nat list" where
  "kmalloc_caches = [8, 16, 32, 64, 128, 256, 512, 1024, 2048]"

definition heap_boot :: heap where
  "heap_boot = \<lparr>caches = map (\<lambda>s. (s, [])) kmalloc_caches, slabs = (\<lambda>_. None),
     big_allocs = replicate MAX_BIG_ALLOCS (0, 0)\<rparr>"

section \<open>Slabs\<close>

definition align_up :: "u32 \<Rightarrow> u32 \<Rightarrow> u32" where
  "align_up value alignment = (value + alignment - 1) AND NOT (alignment - 1)"

text \<open>\<open>align_up(sizeof(slab_t), obj_size)\<close>: the header has six 32-bit fields.\<close>

definition slab_header :: "nat \<Rightarrow> nat" where
  "slab_header osz = unat (align_up 24 (of_nat osz))"

definition slab_obj :: "nat \<Rightarrow> slab \<Rightarrow> nat \<Rightarrow> nat" where
  "slab_obj base s index = base + slab_header (obj_size s) + index * obj_size s"

definition slab_create :: "nat \<Rightarrow> slab option" where
  "slab_create osz =
    (let cap = (PAGE_SIZE - slab_header osz) div osz in
     if cap = 0 then None
     else Some \<lparr>obj_size = osz, sfree = 0, used = 0, capacity = cap,
                words = map (\<lambda>i. i + 1) [0..<cap - 1] @ [NO_OBJ]\<rparr>)"

text \<open>Taking the first free object of a slab, and the owner's writes to its object.\<close>

definition slab_take :: "slab \<Rightarrow> nat \<times> slab" where
  "slab_take s =
    (let index = sfree s in
     (index, s\<lparr>sfree := words s ! index, used := used s + 1, words := (words s)[index := 0]\<rparr>))"

definition slab_user_write :: "nat \<Rightarrow> nat \<Rightarrow> slab \<Rightarrow> slab" where
  "slab_user_write index v s = s\<lparr>words := (words s)[index := v]\<rparr>"

text \<open>The double-free scan of \<open>kfree\<close>: at most \<open>capacity\<close> steps along the free list.\<close>

fun free_scan :: "nat \<Rightarrow> slab \<Rightarrow> nat \<Rightarrow> nat \<Rightarrow> bool" where
  "free_scan 0 s free_index index = False"
| "free_scan (Suc n) s free_index index =
    (if free_index = NO_OBJ then False
     else if free_index = index then True
     else free_scan n s (words s ! free_index) index)"

definition slab_put :: "slab \<Rightarrow> nat \<Rightarrow> slab" where
  "slab_put s index =
    s\<lparr>words := (words s)[index := sfree s], sfree := index, used := used s - 1\<rparr>"

subsection \<open>The free list\<close>

fun free_path :: "nat list \<Rightarrow> nat \<Rightarrow> nat list \<Rightarrow> bool" where
  "free_path ws f [] = (f = NO_OBJ)"
| "free_path ws f (i # xs) = (f = i \<and> i < length ws \<and> free_path ws (ws ! i) xs)"

definition slab_ok :: "slab \<Rightarrow> nat list \<Rightarrow> bool" where
  "slab_ok s xs \<longleftrightarrow> free_path (words s) (sfree s) xs \<and> distinct xs
     \<and> length xs + used s = capacity s \<and> length (words s) = capacity s \<and> capacity s < NO_OBJ"

lemma free_path_unique: "free_path ws f xs \<Longrightarrow> free_path ws f ys \<Longrightarrow> length ws < NO_OBJ \<Longrightarrow> xs = ys"
proof (induction xs arbitrary: f ys)
  case Nil then show ?case by (cases ys) auto
next
  case (Cons i xs) then show ?case by (cases ys) auto
qed

lemma free_path_bound: "free_path ws f xs \<Longrightarrow> i \<in> set xs \<Longrightarrow> i < length ws"
  by (induction xs arbitrary: f) auto

lemma free_path_update: "free_path ws f xs \<Longrightarrow> i \<notin> set xs \<Longrightarrow> free_path (ws[i := v]) f xs"
  by (induction xs arbitrary: f) auto

lemma free_path_chain:
  assumes ws: "length ws = c" "\<And>i. i + 1 < c \<Longrightarrow> ws ! i = i + 1" "ws ! (c - 1) = NO_OBJ"
  shows "a + n = c \<Longrightarrow> 0 < n \<Longrightarrow> free_path ws a [a..<c]"
proof (induction n arbitrary: a)
  case (Suc n)
  show ?case
  proof (cases n)
    case 0
    then have "c = Suc a" using Suc.prems by simp
    then show ?thesis using ws by simp
  next
    case (Suc m)
    then have "free_path ws (a + 1) [a + 1..<c]" using Suc.IH [of "a + 1"] Suc.prems by simp
    moreover have "ws ! a = a + 1" using ws(2) [of a] Suc Suc.prems by simp
    ultimately show ?thesis using Suc Suc.prems ws(1) by (simp add: upt_conv_Cons)
  qed
qed simp

lemma free_path_range:
  "0 < c \<Longrightarrow> free_path (map (\<lambda>i. i + 1) [0..<c - 1] @ [NO_OBJ]) 0 [0..<c]"
  by (rule free_path_chain [where n = c]) (auto simp: nth_append)

lemma slab_create_ok:
  assumes "slab_create osz = Some s" "osz \<le> PAGE_SIZE"
  shows "slab_ok s [0..<capacity s] \<and> used s = 0 \<and> obj_size s = osz
    \<and> slab_header osz + capacity s * osz \<le> PAGE_SIZE"
proof -
  define cap where "cap = (PAGE_SIZE - slab_header osz) div osz"
  have s: "0 < cap" "s = \<lparr>obj_size = osz, sfree = 0, used = 0, capacity = cap,
                words = map (\<lambda>i. i + 1) [0..<cap - 1] @ [NO_OBJ]\<rparr>"
    using assms(1) by (auto simp: slab_create_def cap_def Let_def split: if_splits)
  have "cap \<le> PAGE_SIZE" unfolding cap_def
    by (rule order_trans [OF div_le_dividend]) simp
  then have c: "cap < NO_OBJ" by (simp add: NO_OBJ_def PAGE_SIZE_def)
  have "cap * osz \<le> PAGE_SIZE - slab_header osz" unfolding cap_def by (rule div_times_less_eq_dividend)
  moreover have "slab_header osz \<le> PAGE_SIZE"
    using s(1) unfolding cap_def by (metis diff_is_0_eq div_0 less_irrefl nat_le_linear)
  ultimately show ?thesis using free_path_range [of cap] c s
    by (simp add: slab_ok_def)
qed

lemma slab_take_ok:
  assumes "slab_ok s xs" "sfree s \<noteq> NO_OBJ" "slab_take s = (i, s')"
  shows "\<exists>ys. xs = i # ys \<and> slab_ok s' ys \<and> i < capacity s \<and> capacity s' = capacity s
    \<and> obj_size s' = obj_size s \<and> used s' = used s + 1"
proof -
  from assms obtain ys where xs: "xs = i # ys"
    by (cases xs) (auto simp: slab_ok_def slab_take_def Let_def)
  then show ?thesis using assms
    by (auto simp: slab_ok_def slab_take_def Let_def free_path_update)
qed

lemma slab_user_write_ok:
  "slab_ok s xs \<Longrightarrow> i \<notin> set xs \<Longrightarrow> slab_ok (slab_user_write i v s) xs"
  by (simp add: slab_ok_def slab_user_write_def free_path_update)

lemma free_scan_iff:
  assumes "free_path (words s) f xs" "length xs \<le> n" "length (words s) < NO_OBJ"
  shows "free_scan n s f index \<longleftrightarrow> index \<in> set xs"
  using assms
proof (induction xs arbitrary: f n)
  case Nil then show ?case by (cases n) auto
next
  case (Cons i xs)
  then show ?case by (cases n) auto
qed

lemma slab_put_ok:
  assumes "slab_ok s xs" "i \<notin> set xs" "i < capacity s" "used s \<noteq> 0"
  shows "slab_ok (slab_put s i) (i # xs)"
  using assms by (auto simp: slab_ok_def slab_put_def free_path_update)

section \<open>Allocation and release\<close>

definition cache_for :: "nat \<Rightarrow> nat \<Rightarrow> heap \<Rightarrow> (nat \<times> nat list) option" where
  "cache_for sz align h = List.find (\<lambda>c. fst c \<ge> sz \<and> fst c mod align = 0) (caches h)"

definition slab_has_room :: "heap \<Rightarrow> nat \<Rightarrow> bool" where
  "slab_has_room h b = (case slabs h b of None \<Rightarrow> False | Some s \<Rightarrow> sfree s \<noteq> NO_OBJ)"

definition cache_push :: "nat \<Rightarrow> nat \<Rightarrow> (nat \<times> nat list) list \<Rightarrow> (nat \<times> nat list) list" where
  "cache_push osz b cs = map (\<lambda>(o2, bs). if o2 = osz then (o2, b # bs) else (o2, bs)) cs"

definition first_big :: "nat \<Rightarrow> heap \<Rightarrow> nat option" where
  "first_big v h = List.find (\<lambda>i. fst (big_allocs h ! i) = v) [0..<MAX_BIG_ALLOCS]"

text \<open>
  \<open>kmalloc_inner\<close>: \<open>pages\<close> is what \<open>vmalloc_pg\<close> or \<open>vmalloc_pages\<close> answers if it is called
  (0 for failure).  \<open>None\<close> is the panic of \<open>slab_create\<close> when there is no page.
\<close>

definition kmalloc_big :: "nat \<Rightarrow> nat \<Rightarrow> nat \<Rightarrow> heap \<Rightarrow> nat \<times> heap \<times> vm_event" where
  "kmalloc_big sz align pages h =
    (if align > PAGE_SIZE then (0, h, No_Event)
     else let need = sz + PAGE_SIZE - 1 in
       if need > 65535 * PAGE_SIZE then (0, h, No_Event)
       else let npages = need div PAGE_SIZE in
         if pages = 0 then (0, h, No_Event)
         else let data = (if sz \<le> PAGE_SIZE then pages else wrap32 (pages + PAGE_SIZE));
                  total_pages = (if sz \<le> PAGE_SIZE then 1 else npages + 1)
         in case first_big 0 h of
            None \<Rightarrow> (0, h, if total_pages = 1 then Free_Page data
                         else Free_Pages (data - PAGE_SIZE) total_pages)
          | Some slot \<Rightarrow> (data, h\<lparr>big_allocs := (big_allocs h)[slot := (data, total_pages)]\<rparr>, No_Event))"

definition kmalloc_take :: "nat \<Rightarrow> heap \<Rightarrow> nat \<times> heap" where
  "kmalloc_take b h = (case slabs h b of None \<Rightarrow> (0, h)
    | Some s \<Rightarrow> (case slab_take s of (i, s') \<Rightarrow> (slab_obj b s i, h\<lparr>slabs := (slabs h)(b \<mapsto> s')\<rparr>)))"

definition kmalloc_inner :: "nat \<Rightarrow> nat \<Rightarrow> nat \<Rightarrow> heap \<Rightarrow> (nat \<times> heap \<times> vm_event) option" where
  "kmalloc_inner sz align pages h =
    (if sz = 0 then Some (0, h, No_Event)
     else let align = (if align = 0 then 1 else align) in
     if sz > 2048 then Some (kmalloc_big sz align pages h)
     else case cache_for sz align h of None \<Rightarrow> Some (0, h, No_Event)
     | Some (osz, bases) \<Rightarrow>
       (case List.find (slab_has_room h) bases of
          Some b \<Rightarrow> (case kmalloc_take b h of (p, h') \<Rightarrow> Some (p, h', No_Event))
        | None \<Rightarrow>
          if pages = 0 then None
          else (case slab_create osz of
              None \<Rightarrow> Some (0, h, Free_Page pages)
            | Some s \<Rightarrow> (case kmalloc_take pages
                (h\<lparr>slabs := (slabs h)(pages \<mapsto> s), caches := cache_push osz pages (caches h)\<rparr>) of
                (p, h') \<Rightarrow> Some (p, h', No_Event)))))"

text \<open>
  \<open>kfree_inner\<close>.  A page that holds no slab is taken not to carry the magic number, so a
  pointer into it is ignored.
\<close>

definition kfree_inner :: "nat \<Rightarrow> heap \<Rightarrow> heap \<times> vm_event" where
  "kfree_inner ptr h =
    (if ptr = 0 then (h, No_Event)
     else if ptr mod PAGE_SIZE = 0 then
       (case first_big ptr h of
          Some i \<Rightarrow> let npages = snd (big_allocs h ! i);
                        base = (if npages > 1 then ptr - PAGE_SIZE else ptr)
                    in (h\<lparr>big_allocs := (big_allocs h)[i := (0, npages)]\<rparr>, Free_Pages base npages)
        | None \<Rightarrow> (h, Free_Page ptr))
     else let base = ptr div PAGE_SIZE * PAGE_SIZE in
       case slabs h base of None \<Rightarrow> (h, No_Event)
       | Some s \<Rightarrow>
         let offset = wrap32 (4294967296 + ptr - base - slab_header (obj_size s)) in
         if offset mod obj_size s \<noteq> 0 then (h, No_Event)
         else let index = offset div obj_size s in
           if index \<ge> capacity s \<or> used s = 0 then (h, No_Event)
           else if free_scan (capacity s) s (sfree s) index then (h, No_Event)
           else (h\<lparr>slabs := (slabs h)(base \<mapsto> slab_put s index)\<rparr>, No_Event))"

section \<open>The heap invariant\<close>

definition slab_live :: "slab \<Rightarrow> nat \<Rightarrow> bool" where
  "slab_live s i \<longleftrightarrow> i < capacity s \<and> \<not> free_scan (capacity s) s (sfree s) i"

definition page_ok :: "nat \<Rightarrow> slab \<Rightarrow> bool" where
  "page_ok b s \<longleftrightarrow> obj_size s \<in> set kmalloc_caches \<and> (\<exists>xs. slab_ok s xs) \<and> b mod PAGE_SIZE = 0
     \<and> 0 < b \<and> b < 4294967296 \<and> slab_header (obj_size s) + capacity s * obj_size s \<le> PAGE_SIZE"

definition slabs_ok :: "heap \<Rightarrow> bool" where
  "slabs_ok h \<longleftrightarrow> map fst (caches h) = kmalloc_caches \<and> (\<forall>b s. slabs h b = Some s \<longrightarrow> page_ok b s)
     \<and> (\<forall>(osz, bs)\<in>set (caches h). \<forall>b\<in>set bs. \<exists>s. slabs h b = Some s \<and> obj_size s = osz)"

definition heap_live :: "heap \<Rightarrow> nat \<Rightarrow> bool" where
  "heap_live h p \<longleftrightarrow> (\<exists>b s i. slabs h b = Some s \<and> slab_live s i \<and> p = slab_obj b s i)"

text \<open>The extent of the object at an address, allocated or free.\<close>

definition heap_object :: "heap \<Rightarrow> nat \<Rightarrow> nat \<Rightarrow> bool" where
  "heap_object h p n \<longleftrightarrow> (\<exists>b s i. slabs h b = Some s \<and> i < capacity s \<and> p = slab_obj b s i \<and> n = obj_size s)"

lemma find_result: "List.find P xs = Some x \<Longrightarrow> x \<in> set xs \<and> P x"
  by (induction xs) (auto split: if_splits)

lemma find_exists: "\<exists>x\<in>set xs. P x \<Longrightarrow> \<exists>y. List.find P xs = Some y"
  by (induction xs) auto

lemma slabs_boot_ok: "slabs_ok heap_boot"
  by (simp add: slabs_ok_def heap_boot_def kmalloc_caches_def)

lemma slab_live_iff: "slab_ok s xs \<Longrightarrow> slab_live s i \<longleftrightarrow> i < capacity s \<and> i \<notin> set xs"
  using free_scan_iff [of s "sfree s" xs "capacity s" i] by (auto simp: slab_live_def slab_ok_def)

lemma cache_sizes:
  "osz \<in> set kmalloc_caches \<Longrightarrow> 0 < osz \<and> osz \<le> 2048 \<and> osz dvd PAGE_SIZE \<and> osz dvd slab_header osz
     \<and> 0 < slab_header osz \<and> slab_header osz < PAGE_SIZE"
  by (auto simp: kmalloc_caches_def slab_header_def align_up_def PAGE_SIZE_def)

lemma slab_obj_inside:
  assumes "page_ok b s" "i < capacity s"
  shows "b < slab_obj b s i" and "slab_obj b s i + obj_size s \<le> b + PAGE_SIZE"
    and "slab_obj b s i div PAGE_SIZE * PAGE_SIZE = b" and "slab_obj b s i mod PAGE_SIZE \<noteq> 0"
proof -
  note cs = cache_sizes [of "obj_size s"]
  have mem: "obj_size s \<in> set kmalloc_caches" using assms(1) by (simp add: page_ok_def)
  have "i * obj_size s + obj_size s \<le> capacity s * obj_size s"
    using assms(2) by (metis Suc_leI add.commute mult_Suc mult_le_mono1)
  then have up: "slab_header (obj_size s) + i * obj_size s + obj_size s \<le> PAGE_SIZE"
    using assms(1) by (simp add: page_ok_def)
  have pos: "0 < slab_header (obj_size s) + i * obj_size s" "0 < obj_size s" using cs [OF mem] by auto
  show "b < slab_obj b s i" using pos by (simp add: slab_obj_def)
  show "slab_obj b s i + obj_size s \<le> b + PAGE_SIZE" using up by (simp add: slab_obj_def)
  obtain k where k: "b = k * PAGE_SIZE" using assms(1) by (auto simp: page_ok_def mod_eq_0_iff_dvd elim: dvdE)
  define r where "r = slab_header (obj_size s) + i * obj_size s"
  have r: "0 < r" "r < PAGE_SIZE" using up pos by (simp_all add: r_def)
  have p: "slab_obj b s i = r + k * PAGE_SIZE" by (simp add: slab_obj_def r_def k)
  show "slab_obj b s i div PAGE_SIZE * PAGE_SIZE = b" unfolding p using r k by simp
  show "slab_obj b s i mod PAGE_SIZE \<noteq> 0" unfolding p using r by simp
qed

lemma slab_obj_eq:
  assumes "page_ok b s" "i < capacity s" "page_ok b2 s2" "j < capacity s2"
    "slab_obj b s i = slab_obj b2 s2 j"
  shows "b = b2"
  using slab_obj_inside(3) [OF assms(1,2)] slab_obj_inside(3) [OF assms(3,4)] assms(5) by simp

lemma slab_obj_index:
  "page_ok b s \<Longrightarrow> slab_obj b s i = slab_obj b s j \<longleftrightarrow> i = j"
  using cache_sizes [of "obj_size s"] by (auto simp: slab_obj_def page_ok_def)

text \<open>Different objects of the heap do not overlap.\<close>

lemma heap_objects_disjoint:
  assumes "slabs_ok h" "heap_object h p n" "heap_object h q m" "p \<noteq> q"
  shows "p + n \<le> q \<or> q + m \<le> p"
proof -
  from assms(2) obtain b s i where p: "slabs h b = Some s" "i < capacity s" "p = slab_obj b s i"
    "n = obj_size s" by (auto simp: heap_object_def)
  from assms(3) obtain b2 s2 j where q: "slabs h b2 = Some s2" "j < capacity s2" "q = slab_obj b2 s2 j"
    "m = obj_size s2" by (auto simp: heap_object_def)
  have ok: "page_ok b s" "page_ok b2 s2" using assms(1) p(1) q(1) by (auto simp: slabs_ok_def)
  show ?thesis
  proof (cases "b = b2")
    case True
    then have s: "s2 = s" using p q by simp
    then consider "i < j" | "j < i" using assms(4) p q True by (cases i j rule: linorder_cases) auto
    then show ?thesis
    proof cases
      case 1
      then have "i * obj_size s + obj_size s \<le> j * obj_size s" by (metis Suc_leI add.commute mult_Suc mult_le_mono1)
      then show ?thesis using p q s True by (simp add: slab_obj_def)
    next
      case 2
      then have "j * obj_size s + obj_size s \<le> i * obj_size s" by (metis Suc_leI add.commute mult_Suc mult_le_mono1)
      then show ?thesis using p q s True by (simp add: slab_obj_def)
    qed
  next
    case False
    have "b mod PAGE_SIZE = 0" "b2 mod PAGE_SIZE = 0" using ok by (simp_all add: page_ok_def)
    then obtain k l where kl: "b = k * PAGE_SIZE" "b2 = l * PAGE_SIZE"
      by (metis dvd_def mod_eq_0_iff_dvd mult.commute)
    have "b + PAGE_SIZE \<le> b2 \<or> b2 + PAGE_SIZE \<le> b"
    proof (cases "k < l")
      case True
      then have "Suc k * PAGE_SIZE \<le> l * PAGE_SIZE" by (intro mult_le_mono1) simp
      then show ?thesis by (simp add: kl)
    next
      case ge: False
      then have "Suc l * PAGE_SIZE \<le> k * PAGE_SIZE" using False kl by (intro mult_le_mono1) (cases "k = l"; simp)
      then show ?thesis by (simp add: kl)
    qed
    then show ?thesis
      using slab_obj_inside(1,2) [OF ok(1) p(2)] slab_obj_inside(1,2) [OF ok(2) q(2)] p q by linarith
  qed
qed

section \<open>Allocation is exclusive, release is exact\<close>

lemma slabs_ok_update:
  "slabs_ok h \<Longrightarrow> slabs h b = Some s \<Longrightarrow> page_ok b s' \<Longrightarrow> obj_size s' = obj_size s
   \<Longrightarrow> slabs_ok (h\<lparr>slabs := (slabs h)(b \<mapsto> s')\<rparr>)"
  by (fastforce simp: slabs_ok_def)

lemma slab_take_live:
  assumes "slab_ok s xs" "sfree s \<noteq> NO_OBJ" "slab_take s = (i, s')"
  shows "\<not> slab_live s i" and "slab_live s' j \<longleftrightarrow> slab_live s j \<or> j = i"
proof -
  from slab_take_ok [OF assms] obtain ys where ys: "xs = i # ys" "slab_ok s' ys" "i < capacity s"
    "capacity s' = capacity s" by blast
  have d: "distinct xs" using assms(1) by (simp add: slab_ok_def)
  show "\<not> slab_live s i" using slab_live_iff [OF assms(1)] ys by simp
  show "slab_live s' j \<longleftrightarrow> slab_live s j \<or> j = i"
    using slab_live_iff [OF assms(1)] slab_live_iff [OF ys(2)] ys d by auto
qed

lemma kmalloc_take_ok:
  assumes ok: "slabs_ok h" and b: "slabs h b = Some s" and f: "sfree s \<noteq> NO_OBJ"
    and t: "kmalloc_take b h = (p, h')"
  shows "slabs_ok h' \<and> \<not> heap_live h p \<and> (\<forall>q. heap_live h' q \<longleftrightarrow> heap_live h q \<or> q = p)
    \<and> heap_object h' p (obj_size s) \<and> obj_size s dvd p \<and> p \<noteq> 0"
proof -
  have pg: "page_ok b s" using ok b by (simp add: slabs_ok_def)
  then obtain xs where xs: "slab_ok s xs" by (auto simp: page_ok_def)
  obtain i s' where tk: "slab_take s = (i, s')" by (cases "slab_take s")
  note live = slab_take_live [OF xs f tk]
  from slab_take_ok [OF xs f tk] obtain ys where ys: "slab_ok s' ys" "i < capacity s"
    "capacity s' = capacity s" "obj_size s' = obj_size s" by blast
  have p: "p = slab_obj b s i" and h': "h' = h\<lparr>slabs := (slabs h)(b \<mapsto> s')\<rparr>"
    using t b tk by (auto simp: kmalloc_take_def)
  have o2: "slab_obj b s' j = slab_obj b s j" for j by (simp add: slab_obj_def ys(4))
  have pg': "page_ok b s'" using pg ys by (auto simp: page_ok_def)
  have ok': "slabs_ok h'" unfolding h' by (rule slabs_ok_update [OF ok b pg' ys(4)])
  have nl: "\<not> heap_live h p"
  proof
    assume "heap_live h p"
    then obtain b2 s2 j where l: "slabs h b2 = Some s2" "slab_live s2 j" "p = slab_obj b2 s2 j"
      by (auto simp: heap_live_def)
    have pg2: "page_ok b2 s2" using ok l(1) by (simp add: slabs_ok_def)
    have "j < capacity s2" using l(2) by (simp add: slab_live_def)
    then have "b = b2" using slab_obj_eq [OF pg ys(2) pg2, of j] l(3) p by simp
    then show False using l b p slab_obj_index [OF pg] live(1) by simp
  qed
  have "heap_live h' q \<longleftrightarrow> heap_live h q \<or> q = p" for q
  proof
    assume "heap_live h' q"
    then obtain b2 s2 j where l: "slabs h' b2 = Some s2" "slab_live s2 j" "q = slab_obj b2 s2 j"
      by (auto simp: heap_live_def)
    show "heap_live h q \<or> q = p"
      using l b live(2) [of j] o2 p by (cases "b2 = b") (auto simp: h' heap_live_def)
  next
    assume "heap_live h q \<or> q = p"
    then show "heap_live h' q"
    proof
      assume "heap_live h q"
      then obtain b2 s2 j where l: "slabs h b2 = Some s2" "slab_live s2 j" "q = slab_obj b2 s2 j"
        by (auto simp: heap_live_def)
      show ?thesis
      proof (cases "b2 = b")
        case True
        then have "slabs h' b = Some s'" "slab_live s' j" "q = slab_obj b s' j"
          using l b live(2) [of j] o2 by (auto simp: h')
        then show ?thesis unfolding heap_live_def by blast
      next
        case False
        then have "slabs h' b2 = Some s2" using l by (simp add: h')
        then show ?thesis unfolding heap_live_def using l by blast
      qed
    next
      assume "q = p"
      then have "slabs h' b = Some s'" "slab_live s' i" "q = slab_obj b s' i"
        using live(2) [of i] o2 p by (auto simp: h')
      then show ?thesis unfolding heap_live_def by blast
    qed
  qed
  moreover have "slabs h' b = Some s'" "i < capacity s'" "p = slab_obj b s' i" "obj_size s = obj_size s'"
    using ys o2 p by (auto simp: h')
  then have "heap_object h' p (obj_size s)" unfolding heap_object_def by blast
  moreover have "obj_size s dvd p" "p \<noteq> 0"
  proof -
    have mem: "obj_size s \<in> set kmalloc_caches" and bm: "PAGE_SIZE dvd b"
      using pg by (auto simp: page_ok_def)
    note cs = cache_sizes [OF mem]
    have "obj_size s dvd b" using cs bm dvd_trans by blast
    then show "obj_size s dvd p" using cs p by (simp add: slab_obj_def)
    show "p \<noteq> 0" using slab_obj_inside(1) [OF pg ys(2)] p by simp
  qed
  ultimately show ?thesis using ok' nl by blast
qed

lemma slab_create_some:
  "osz \<in> set kmalloc_caches \<Longrightarrow> \<exists>s. slab_create osz = Some s"
  by (auto simp: slab_create_def kmalloc_caches_def slab_header_def align_up_def PAGE_SIZE_def Let_def)

lemma fst_cache_push: "map fst (cache_push osz b cs) = map fst cs"
  by (induction cs) (auto simp: cache_push_def)

lemma heap_add_slab:
  assumes ok: "slabs_ok h" and mem: "osz \<in> set kmalloc_caches" and s: "slab_create osz = Some s"
    and pg: "pages \<noteq> 0" "pages mod PAGE_SIZE = 0" "pages < 4294967296" and fresh: "slabs h pages = None"
  defines "h1 \<equiv> h\<lparr>slabs := (slabs h)(pages \<mapsto> s), caches := cache_push osz pages (caches h)\<rparr>"
  shows "slabs_ok h1 \<and> slabs h1 pages = Some s \<and> sfree s \<noteq> NO_OBJ \<and> obj_size s = osz
    \<and> (\<forall>q. heap_live h1 q \<longleftrightarrow> heap_live h q)"
proof -
  have le: "osz \<le> PAGE_SIZE" using cache_sizes [OF mem] by (simp add: PAGE_SIZE_def)
  note sc = slab_create_ok [OF s le]
  have pok: "page_ok pages s" unfolding page_ok_def using sc pg mem by auto
  have c1: "map fst (caches h1) = kmalloc_caches"
    using ok by (simp add: slabs_ok_def h1_def fst_cache_push)
  have c2: "\<exists>s2. slabs h1 b = Some s2 \<and> obj_size s2 = o2"
    if m: "(o2, bs) \<in> set (caches h1)" "b \<in> set bs" for o2 bs b
  proof -
    from m(1) obtain bs0 where b0: "(o2, bs0) \<in> set (caches h)"
      "bs = (if o2 = osz then pages # bs0 else bs0)"
      by (auto simp: h1_def cache_push_def split: if_splits)
    show ?thesis
    proof (cases "b = pages")
      case True
      then have "o2 = osz"
        using b0 m(2) ok fresh by (fastforce simp: slabs_ok_def split: if_splits)
      then show ?thesis using True sc by (simp add: h1_def)
    next
      case False
      then have "b \<in> set bs0" using b0(2) m(2) by (auto split: if_splits)
      then show ?thesis using ok b0(1) False by (fastforce simp: slabs_ok_def h1_def)
    qed
  qed
  have c3: "page_ok b s2" if "slabs h1 b = Some s2" for b s2
    using that pok ok by (cases "b = pages") (auto simp: h1_def slabs_ok_def)
  have "slabs_ok h1" unfolding slabs_ok_def using c1 c3 by (auto intro: c2)
  moreover have "\<not> slab_live s i" for i using slab_live_iff [of s "[0..<capacity s]" i] sc by auto
  then have "slabs h1 b = Some s2 \<and> slab_live s2 i \<longleftrightarrow> slabs h b = Some s2 \<and> slab_live s2 i" for b s2 i
    using fresh by (cases "b = pages") (auto simp: h1_def)
  then have "heap_live h1 q \<longleftrightarrow> heap_live h q" for q
    unfolding heap_live_def by blast
  moreover have "sfree s \<noteq> NO_OBJ"
    using s by (auto simp: slab_create_def Let_def NO_OBJ_def split: if_splits)
  ultimately show ?thesis using sc by (simp add: h1_def)
qed

lemma slab_dom_update: "slabs h b = Some s \<Longrightarrow> dom ((slabs h)(b \<mapsto> s')) = dom (slabs h)"
  by (simp add: dom_def) blast

lemma heap_object_unique:
  assumes "slabs_ok h" "heap_object h p n" "heap_object h p m" shows "n = m"
proof -
  from assms(2) obtain b s i where p: "slabs h b = Some s" "i < capacity s" "p = slab_obj b s i"
    "n = obj_size s" by (auto simp: heap_object_def)
  from assms(3) obtain b2 s2 j where q: "slabs h b2 = Some s2" "j < capacity s2" "p = slab_obj b2 s2 j"
    "m = obj_size s2" by (auto simp: heap_object_def)
  have "page_ok b s" "page_ok b2 s2" using assms(1) p(1) q(1) by (auto simp: slabs_ok_def)
  then have "b = b2" using slab_obj_eq p q by blast
  then show ?thesis using p q by simp
qed

lemma heap_live_object: "heap_live h p \<Longrightarrow> \<exists>n. heap_object h p n"
  by (auto simp: heap_live_def heap_object_def slab_live_def)

lemma heap_object_update:
  assumes "slabs h b = Some s" "capacity s' = capacity s" "obj_size s' = obj_size s"
  shows "heap_object (h\<lparr>slabs := (slabs h)(b \<mapsto> s')\<rparr>) q m \<longleftrightarrow> heap_object h q m"
proof -
  have "(\<exists>s2 i. ((slabs h)(b \<mapsto> s')) b2 = Some s2 \<and> i < capacity s2 \<and> q = slab_obj b2 s2 i \<and> m = obj_size s2)
      \<longleftrightarrow> (\<exists>s2 i. slabs h b2 = Some s2 \<and> i < capacity s2 \<and> q = slab_obj b2 s2 i \<and> m = obj_size s2)" for b2
    using assms by (cases "b2 = b") (simp_all add: slab_obj_def)
  then show ?thesis by (simp add: heap_object_def)
qed

text \<open>What taking an object leaves of the rest of the heap.\<close>

lemma kmalloc_take_frame:
  assumes ok: "slabs_ok h" and b: "slabs h b = Some s" and f: "sfree s \<noteq> NO_OBJ"
    and t: "kmalloc_take b h = (p, h')"
  shows "big_allocs h' = big_allocs h \<and> dom (slabs h') = dom (slabs h)
    \<and> (\<forall>q m. heap_object h' q m \<longleftrightarrow> heap_object h q m)"
proof -
  have "page_ok b s" using ok b by (simp add: slabs_ok_def)
  then obtain xs where xs: "slab_ok s xs" by (auto simp: page_ok_def)
  obtain i s' where tk: "slab_take s = (i, s')" by (cases "slab_take s")
  from slab_take_ok [OF xs f tk] have c: "capacity s' = capacity s" "obj_size s' = obj_size s" by auto
  have h': "h' = h\<lparr>slabs := (slabs h)(b \<mapsto> s')\<rparr>" using t b tk by (auto simp: kmalloc_take_def)
  show ?thesis unfolding h' using heap_object_update [of h b s s', OF b c] slab_dom_update [OF b] by simp
qed

section \<open>The registry of big allocations\<close>

text \<open>The pages of an entry (the page before the data belongs to an entry of several pages)
  and the bytes its owner may use.\<close>

fun big_base :: "nat \<times> nat \<Rightarrow> nat" where
  "big_base (a, k) = (if k > 1 then a - PAGE_SIZE else a)"

fun big_range :: "nat \<times> nat \<Rightarrow> nat set" where
  "big_range (a, k) = {big_base (a, k)..<big_base (a, k) + k * PAGE_SIZE}"

fun big_size :: "nat \<times> nat \<Rightarrow> nat" where
  "big_size (a, k) = (if k > 1 then (k - 1) * PAGE_SIZE else PAGE_SIZE)"

fun big_entry_ok :: "nat \<times> nat \<Rightarrow> bool" where
  "big_entry_ok (a, k) \<longleftrightarrow> a mod PAGE_SIZE = 0 \<and> 1 \<le> k
     \<and> PAGE_SIZE \<le> big_base (a, k) \<and> big_base (a, k) + k * PAGE_SIZE \<le> 4294967296"

definition big_set :: "heap \<Rightarrow> (nat \<times> nat) set" where
  "big_set h = {e \<in> set (big_allocs h). fst e \<noteq> 0}"

definition slab_pages :: "heap \<Rightarrow> nat set" where
  "slab_pages h = (\<Union>b\<in>dom (slabs h). {b..<b + PAGE_SIZE})"

text \<open>All bytes of the pages the heap holds.\<close>

definition heap_pages :: "heap \<Rightarrow> nat set" where
  "heap_pages h = slab_pages h \<union> (\<Union>e\<in>big_set h. big_range e)"

definition bigs_ok :: "heap \<Rightarrow> bool" where
  "bigs_ok h \<longleftrightarrow> length (big_allocs h) = MAX_BIG_ALLOCS
     \<and> (\<forall>e\<in>big_set h. big_entry_ok e \<and> big_range e \<inter> slab_pages h = {})
     \<and> (\<forall>i<MAX_BIG_ALLOCS. \<forall>j<MAX_BIG_ALLOCS. i \<noteq> j \<longrightarrow> fst (big_allocs h ! i) \<noteq> 0
          \<longrightarrow> fst (big_allocs h ! j) \<noteq> 0 \<longrightarrow> big_range (big_allocs h ! i) \<inter> big_range (big_allocs h ! j) = {})"

definition heap_ok :: "heap \<Rightarrow> bool" where
  "heap_ok h \<longleftrightarrow> slabs_ok h \<and> bigs_ok h"

definition heap_big :: "heap \<Rightarrow> nat \<Rightarrow> nat \<Rightarrow> bool" where
  "heap_big h p n \<longleftrightarrow> (\<exists>e\<in>big_set h. fst e = p \<and> n = big_size e)"

text \<open>The allocations of the heap: address and usable size.\<close>

definition heap_block :: "heap \<Rightarrow> nat \<Rightarrow> nat \<Rightarrow> bool" where
  "heap_block h p n \<longleftrightarrow> heap_live h p \<and> heap_object h p n \<or> heap_big h p n"

lemma heap_boot_ok: "heap_ok heap_boot"
  using slabs_boot_ok by (simp add: heap_ok_def bigs_ok_def big_set_def heap_boot_def MAX_BIG_ALLOCS_def)

lemma heap_object_pages:
  assumes "slabs_ok h" "heap_object h p n" shows "{p..<p + n} \<subseteq> slab_pages h" "0 < n"
proof -
  from assms(2) obtain b s i where p: "slabs h b = Some s" "i < capacity s" "p = slab_obj b s i"
    "n = obj_size s" by (auto simp: heap_object_def)
  have pg: "page_ok b s" using assms(1) p(1) by (auto simp: slabs_ok_def)
  have "{p..<p + n} \<subseteq> {b..<b + PAGE_SIZE}" using slab_obj_inside(1,2) [OF pg p(2)] p(3,4) by auto
  moreover have "b \<in> dom (slabs h)" using p(1) by blast
  ultimately show "{p..<p + n} \<subseteq> slab_pages h" unfolding slab_pages_def by blast
  have "obj_size s \<in> set kmalloc_caches" using pg by (simp add: page_ok_def)
  then show "0 < n" using cache_sizes p(4) by blast
qed

lemma big_size_range:
  assumes "big_entry_ok e" shows "{fst e..<fst e + big_size e} \<subseteq> big_range e" "0 < big_size e"
proof -
  obtain a k where e: "e = (a, k)" by (cases e)
  have "(k - 1) * PAGE_SIZE + PAGE_SIZE = k * PAGE_SIZE" if "1 < k" using that by (simp add: algebra_simps)
  then show "{fst e..<fst e + big_size e} \<subseteq> big_range e" using assms by (auto simp: e)
  show "0 < big_size e" using assms by (auto simp: e PAGE_SIZE_def)
qed

lemma interval_disjoint: "{a..<b} \<inter> {c..<d} = {} \<Longrightarrow> a < b \<Longrightarrow> c < d \<Longrightarrow> b \<le> c \<or> d \<le> (a::nat)"
  by (metis Int_iff atLeastLessThan_iff empty_iff not_le linorder_linear)

lemma big_set_index: "bigs_ok h \<Longrightarrow> e \<in> big_set h \<Longrightarrow> \<exists>i<MAX_BIG_ALLOCS. big_allocs h ! i = e"
  by (auto simp: bigs_ok_def big_set_def in_set_conv_nth)

text \<open>Objects and big allocations at different addresses do not overlap.\<close>

lemma heap_extents_disjoint:
  assumes ok: "heap_ok h" and p: "heap_object h p n \<or> heap_big h p n"
    and q: "heap_object h q m \<or> heap_big h q m" and d: "p \<noteq> q"
  shows "p + n \<le> q \<or> q + m \<le> p"
proof -
  have so: "slabs_ok h" and bo: "bigs_ok h" using ok by (simp_all add: heap_ok_def)
  have mixed: "a + k \<le> c \<or> c + l \<le> a" if o: "heap_object h a k" and b: "heap_big h c l" for a k c l
  proof -
    obtain e where e: "e \<in> big_set h" "fst e = c" "l = big_size e" using b by (auto simp: heap_big_def)
    have eo: "big_entry_ok e" "big_range e \<inter> slab_pages h = {}" using bo e(1) by (auto simp: bigs_ok_def)
    have "{a..<a + k} \<inter> {c..<c + l} = {}"
      using heap_object_pages [OF so o] big_size_range [OF eo(1)] eo(2) e by blast
    then show ?thesis
      using heap_object_pages [OF so o] big_size_range [OF eo(1)] e by (intro interval_disjoint) auto
  qed
  have bigs: "p + n \<le> q \<or> q + m \<le> p" if b: "heap_big h p n" "heap_big h q m"
  proof -
    obtain e f where e: "e \<in> big_set h" "fst e = p" "n = big_size e" and f: "f \<in> big_set h" "fst f = q" "m = big_size f"
      using b by (auto simp: heap_big_def)
    have eo: "big_entry_ok e" "big_entry_ok f" using bo e(1) f(1) by (auto simp: bigs_ok_def)
    obtain i j where i: "i < MAX_BIG_ALLOCS" "big_allocs h ! i = e" and j: "j < MAX_BIG_ALLOCS" "big_allocs h ! j = f"
      using big_set_index [OF bo] e(1) f(1) by blast
    have "i \<noteq> j" using d e f i j by auto
    moreover have "fst e \<noteq> 0" "fst f \<noteq> 0" using e(1) f(1) by (auto simp: big_set_def)
    ultimately have "big_range e \<inter> big_range f = {}" using bo i j unfolding bigs_ok_def by blast
    then have "{p..<p + n} \<inter> {q..<q + m} = {}" using big_size_range(1) [OF eo(1)] big_size_range(1) [OF eo(2)] e f by blast
    then show ?thesis using big_size_range(2) [OF eo(1)] big_size_range(2) [OF eo(2)] e f
      by (intro interval_disjoint) auto
  qed
  from p q show ?thesis
    using heap_objects_disjoint [OF so _ _ d] mixed bigs by blast
qed

section \<open>Allocation\<close>

text \<open>A cache serves the request exactly when one of the sizes is large enough and a multiple
  of the alignment.\<close>

definition small_fits :: "nat \<Rightarrow> nat \<Rightarrow> bool" where
  "small_fits sz align \<longleftrightarrow> (\<exists>osz\<in>set kmalloc_caches. sz \<le> osz \<and> (if align = 0 then 1 else align) dvd osz)"

lemma cache_for_fits:
  assumes "slabs_ok h" "a = (if align = 0 then 1 else align)"
  shows "(cache_for sz a h = None) = (\<not> small_fits sz align)"
    and "cache_for sz a h = Some (osz, bs) \<Longrightarrow> (osz, bs) \<in> set (caches h) \<and> sz \<le> osz \<and> a dvd osz
       \<and> osz \<in> set kmalloc_caches"
proof -
  have f: "fst ` set (caches h) = set kmalloc_caches" using assms(1) by (simp add: slabs_ok_def flip: set_map)
  show some: "(osz, bs) \<in> set (caches h) \<and> sz \<le> osz \<and> a dvd osz \<and> osz \<in> set kmalloc_caches"
    if c: "cache_for sz a h = Some (osz, bs)" for osz bs
  proof -
    from find_result [OF c [unfolded cache_for_def]]
    have m: "(osz, bs) \<in> set (caches h)" "sz \<le> osz" "a dvd osz" by (simp_all add: mod_0_imp_dvd)
    then have "osz \<in> fst ` set (caches h)" by force
    then show ?thesis using m f by simp
  qed
  show "(cache_for sz a h = None) = (\<not> small_fits sz align)"
  proof (cases "cache_for sz a h")
    case None
    have "\<not> (sz \<le> osz \<and> a dvd osz)" if m: "osz \<in> set kmalloc_caches" for osz
    proof
      assume g: "sz \<le> osz \<and> a dvd osz"
      from m f obtain c where c: "c \<in> set (caches h)" "fst c = osz" by force
      then have "\<exists>c\<in>set (caches h). fst c \<ge> sz \<and> fst c mod a = 0" using g by auto
      from find_exists [OF this] None show False by (simp add: cache_for_def)
    qed
    then show ?thesis using None assms(2) unfolding small_fits_def by blast
  next
    case (Some c)
    then show ?thesis using some [of "fst c" "snd c"] assms(2) unfolding small_fits_def by auto
  qed
qed

text \<open>A request of at most 2048 bytes that fits a cache.\<close>

lemma kmalloc_small:
  assumes ok: "slabs_ok h" and sz: "0 < sz" "sz \<le> 2048" and fit: "small_fits sz align"
    and pg: "pages mod PAGE_SIZE = 0" "pages < 4294967296" "slabs h pages = None \<or> pages = 0"
  shows "case kmalloc_inner sz align pages h of None \<Rightarrow> pages = 0
    | Some (p, h', ev) \<Rightarrow> ev = No_Event \<and> p \<noteq> 0 \<and> slabs_ok h' \<and> \<not> heap_live h p
        \<and> (\<forall>q. heap_live h' q \<longleftrightarrow> heap_live h q \<or> q = p) \<and> (align \<noteq> 0 \<longrightarrow> align dvd p)
        \<and> (\<exists>n\<ge>sz. heap_object h' p n) \<and> (\<forall>q m. heap_object h q m \<longrightarrow> heap_object h' q m)
        \<and> big_allocs h' = big_allocs h \<and> dom (slabs h') \<subseteq> dom (slabs h) \<union> {pages}
        \<and> (dom (slabs h') \<subseteq> dom (slabs h) \<or> pages \<noteq> 0)"
proof -
  define a where "a = (if align = 0 then 1 else align)"
  obtain osz bases where cf: "cache_for sz a h = Some (osz, bases)"
    using cache_for_fits(1) [OF ok a_def, of sz] fit by (cases "cache_for sz a h") auto
  note c = cache_for_fits(2) [OF ok a_def cf]
  have run: "kmalloc_inner sz align pages h =
      (case List.find (slab_has_room h) bases of
          Some b \<Rightarrow> (case kmalloc_take b h of (p, h') \<Rightarrow> Some (p, h', No_Event))
        | None \<Rightarrow>
          if pages = 0 then None
          else (case slab_create osz of
              None \<Rightarrow> Some (0, h, Free_Page pages)
            | Some s \<Rightarrow> (case kmalloc_take pages
                (h\<lparr>slabs := (slabs h)(pages \<mapsto> s), caches := cache_push osz pages (caches h)\<rparr>) of
                (p, h') \<Rightarrow> Some (p, h', No_Event))))"
    using sz cf by (simp add: kmalloc_inner_def a_def)
  have al: "align \<noteq> 0 \<longrightarrow> align dvd p" if "osz dvd p" for p
    using c dvd_trans [OF _ that] by (simp add: a_def split: if_splits)
  show ?thesis
  proof (cases "List.find (slab_has_room h) bases")
    case None
    show ?thesis
    proof (cases "pages = 0")
      case True
      have "kmalloc_inner sz align pages h = None" unfolding run using None True by simp
      then show ?thesis using True by simp
    next
      case False
      then have fresh: "slabs h pages = None" using pg(3) by simp
      have mem: "osz \<in> set kmalloc_caches" using c by simp
      obtain s where s: "slab_create osz = Some s" using slab_create_some [OF mem] by blast
      define h1 where "h1 = h\<lparr>slabs := (slabs h)(pages \<mapsto> s), caches := cache_push osz pages (caches h)\<rparr>"
      note add = heap_add_slab [OF ok mem s False pg(1,2) fresh, folded h1_def]
      obtain p h' where t: "kmalloc_take pages h1 = (p, h')" by (cases "kmalloc_take pages h1")
      have ok1: "slabs_ok h1" "slabs h1 pages = Some s" "sfree s \<noteq> NO_OBJ" "obj_size s = osz"
        "\<And>q. heap_live h1 q \<longleftrightarrow> heap_live h q" using add by auto
      note take = kmalloc_take_ok [OF ok1(1-3) t] and frame = kmalloc_take_frame [OF ok1(1-3) t]
      have "heap_object h q m \<longrightarrow> heap_object h1 q m" for q m
        using fresh by (auto simp: heap_object_def h1_def) (metis option.distinct(1))
      then have mono: "heap_object h q m \<longrightarrow> heap_object h' q m" for q m using frame by blast
      have "kmalloc_inner sz align pages h = Some (p, h', No_Event)"
        unfolding run using None False s t by (simp add: h1_def)
      moreover have "dom (slabs h') = insert pages (dom (slabs h))" "big_allocs h' = big_allocs h"
        using frame by (simp_all add: h1_def)
      ultimately show ?thesis using take ok1(4,5) c al [of p] mono False by auto
    qed
  next
    case (Some b)
    then have b: "b \<in> set bases" "slab_has_room h b" using find_result [OF Some] by simp_all
    then obtain s where s: "slabs h b = Some s" "sfree s \<noteq> NO_OBJ" "obj_size s = osz"
      using ok c by (fastforce simp: slabs_ok_def slab_has_room_def)
    obtain p h' where t: "kmalloc_take b h = (p, h')" by (cases "kmalloc_take b h")
    note take = kmalloc_take_ok [OF ok s(1,2) t] and frame = kmalloc_take_frame [OF ok s(1,2) t]
    have "kmalloc_inner sz align pages h = Some (p, h', No_Event)" unfolding run using Some t by simp
    then show ?thesis using take frame s(3) c al [of p] by auto
  qed
qed

text \<open>What the heap asks \<open>vmalloc\<close> for, and gives back when the registry is full.\<close>

definition vmalloc_request :: "nat \<Rightarrow> nat" where
  "vmalloc_request sz = (if sz \<le> PAGE_SIZE then 1 else (sz + PAGE_SIZE - 1) div PAGE_SIZE + 1)"

definition vm_release :: "nat \<Rightarrow> nat \<Rightarrow> vm_event" where
  "vm_release sz pages = (if vmalloc_request sz = 1 then Free_Page pages else Free_Pages pages (vmalloc_request sz))"

text \<open>The contract of \<open>vmalloc\<close>: no pages, or as many as asked for inside the address space,
  none of which the heap holds already.\<close>

definition vmalloc_answer :: "heap \<Rightarrow> nat \<Rightarrow> nat \<Rightarrow> bool" where
  "vmalloc_answer h sz pages \<longleftrightarrow> pages = 0 \<or> pages mod PAGE_SIZE = 0
     \<and> pages + vmalloc_request sz * PAGE_SIZE \<le> 4294967296
     \<and> {pages..<pages + vmalloc_request sz * PAGE_SIZE} \<inter> heap_pages h = {}"

definition kmalloc_fits :: "nat \<Rightarrow> nat \<Rightarrow> bool" where
  "kmalloc_fits sz align \<longleftrightarrow> 0 < sz \<and> (if sz \<le> 2048 then small_fits sz align
     else align \<le> PAGE_SIZE \<and> sz + PAGE_SIZE - 1 \<le> 65535 * PAGE_SIZE)"

definition big_full :: "heap \<Rightarrow> bool" where
  "big_full h \<longleftrightarrow> (\<forall>e\<in>set (big_allocs h). fst e \<noteq> 0)"

lemma first_big_none: "bigs_ok h \<Longrightarrow> first_big 0 h = None \<longleftrightarrow> big_full h"
  by (auto simp: first_big_def bigs_ok_def big_full_def find_None_iff all_set_conv_all_nth)

lemma first_big_some: "first_big v h = Some i \<Longrightarrow> i < MAX_BIG_ALLOCS \<and> fst (big_allocs h ! i) = v"
  using find_result [of "\<lambda>i. fst (big_allocs h ! i) = v" "[0..<MAX_BIG_ALLOCS]" i] by (simp add: first_big_def)

text \<open>Entering an allocation into a free slot, and clearing a slot.\<close>

lemma big_set_update:
  assumes "i < length (big_allocs h)" "fst (big_allocs h ! i) = 0" "a \<noteq> 0"
  shows "big_set (h\<lparr>big_allocs := (big_allocs h)[i := (a, k)]\<rparr>) = insert (a, k) (big_set h)"
proof -
  have "e \<in> set ((big_allocs h)[i := (a, k)]) \<longleftrightarrow> e = (a, k) \<or> e \<in> set (big_allocs h)" if f: "fst e \<noteq> 0" for e
  proof
    assume "e \<in> set ((big_allocs h)[i := (a, k)])"
    then show "e = (a, k) \<or> e \<in> set (big_allocs h)" using set_update_subset_insert by fastforce
  next
    assume "e = (a, k) \<or> e \<in> set (big_allocs h)"
    then show "e \<in> set ((big_allocs h)[i := (a, k)])"
    proof
      assume "e = (a, k)"
      then show ?thesis using set_update_memI [OF assms(1)] by simp
    next
      assume "e \<in> set (big_allocs h)"
      then obtain j where j: "j < length (big_allocs h)" "big_allocs h ! j = e" by (auto simp: in_set_conv_nth)
      then have "(big_allocs h)[i := (a, k)] ! j = e" using f assms(2) by (cases "j = i") auto
      then show ?thesis using j(1) by (metis length_list_update nth_mem)
    qed
  qed
  then show ?thesis using assms(3) by (auto simp: big_set_def)
qed

lemma bigs_ok_enter:
  assumes ok: "bigs_ok h" and i: "i < MAX_BIG_ALLOCS" "fst (big_allocs h ! i) = 0"
    and e: "big_entry_ok (a, k)" "a \<noteq> 0" and d: "big_range (a, k) \<inter> heap_pages h = {}"
  shows "bigs_ok (h\<lparr>big_allocs := (big_allocs h)[i := (a, k)]\<rparr>)"
proof -
  define h' where "h' = h\<lparr>big_allocs := (big_allocs h)[i := (a, k)]\<rparr>"
  have len: "length (big_allocs h) = MAX_BIG_ALLOCS" using ok by (simp add: bigs_ok_def)
  have set: "big_set h' = insert (a, k) (big_set h)" unfolding h'_def using big_set_update [of i h a k] len i e(2) by simp
  have sp: "slab_pages h' = slab_pages h" by (simp add: slab_pages_def h'_def)
  have other: "big_range (a, k) \<inter> big_range (big_allocs h ! j) = {}"
    if "j < MAX_BIG_ALLOCS" "fst (big_allocs h ! j) \<noteq> 0" for j
  proof -
    have "big_allocs h ! j \<in> big_set h" using that len by (simp add: big_set_def)
    then show ?thesis using d unfolding heap_pages_def by blast
  qed
  have "\<forall>e\<in>big_set h'. big_entry_ok e \<and> big_range e \<inter> slab_pages h' = {}"
    using ok e d unfolding set sp by (auto simp: bigs_ok_def heap_pages_def)
  moreover have "big_range (big_allocs h' ! m) \<inter> big_range (big_allocs h' ! j) = {}"
    if m: "m < MAX_BIG_ALLOCS" "j < MAX_BIG_ALLOCS" "m \<noteq> j" "fst (big_allocs h' ! m) \<noteq> 0" "fst (big_allocs h' ! j) \<noteq> 0" for m j
  proof (cases "m = i \<or> j = i")
    case True
    then show ?thesis using m len other [of m] other [of j] by (auto simp: h'_def nth_list_update simp del: big_range.simps)
  next
    case False
    then show ?thesis using m ok by (auto simp: h'_def bigs_ok_def simp del: big_range.simps)
  qed
  ultimately show ?thesis using len by (simp add: bigs_ok_def h'_def)
qed

text \<open>A larger request: with pages and a free slot it becomes a big allocation of these pages.\<close>

lemma kmalloc_big_enter:
  assumes ok: "heap_ok h" and sz: "2048 < sz" and fit: "kmalloc_fits sz align"
    and pg: "pages \<noteq> 0" and ans: "vmalloc_answer h sz pages" and nf: "\<not> big_full h"
  shows "\<exists>p h' n. kmalloc_big sz (if align = 0 then 1 else align) pages h = (p, h', No_Event) \<and> p \<noteq> 0
    \<and> heap_ok h' \<and> p mod PAGE_SIZE = 0 \<and> sz \<le> n \<and> slabs h' = slabs h
    \<and> (\<forall>q m. heap_big h' q m \<longleftrightarrow> heap_big h q m \<or> q = p \<and> m = n)
    \<and> (\<forall>m. \<not> heap_big h p m) \<and> (\<forall>m. \<not> heap_object h p m)"
proof -
  define k where "k = vmalloc_request sz"
  define p where "p = (if sz \<le> PAGE_SIZE then pages else pages + PAGE_SIZE)"
  have so: "slabs_ok h" and bo: "bigs_ok h" using ok by (simp_all add: heap_ok_def)
  from nf obtain i where i: "first_big 0 h = Some i" using first_big_none [OF bo] by (cases "first_big 0 h") auto
  note i2 = first_big_some [OF i]
  have an: "pages mod PAGE_SIZE = 0" "pages + k * PAGE_SIZE \<le> 4294967296"
    "{pages..<pages + k * PAGE_SIZE} \<inter> heap_pages h = {}" using ans pg by (simp_all add: vmalloc_answer_def k_def)
  have pl: "PAGE_SIZE \<le> pages" using pg an(1) by (metis mod_less not_le)
  have k1: "k = (if sz \<le> PAGE_SIZE then 1 else (sz + PAGE_SIZE - 1) div PAGE_SIZE + 1)" by (simp add: k_def vmalloc_request_def)
  have kb: "1 < k" if "\<not> sz \<le> PAGE_SIZE"
  proof -
    have "1 \<le> (sz + PAGE_SIZE - 1) div PAGE_SIZE" using that by (simp add: PAGE_SIZE_def)
    then show ?thesis using that k1 by simp
  qed
  have wr: "wrap32 (pages + PAGE_SIZE) = pages + PAGE_SIZE" if "\<not> sz \<le> PAGE_SIZE"
  proof -
    have "PAGE_SIZE * 2 \<le> PAGE_SIZE * k" using kb [OF that] by (intro mult_le_mono2) simp
    then have "pages + PAGE_SIZE < 4294967296" using an(2) by (simp add: mult.commute PAGE_SIZE_def)
    then show ?thesis by (simp add: wrap32_def)
  qed
  define h' where "h' = h\<lparr>big_allocs := (big_allocs h)[i := (p, k)]\<rparr>"
  have run: "kmalloc_big sz (if align = 0 then 1 else align) pages h = (p, h', No_Event)"
    using fit sz pg i wr by (auto simp: kmalloc_big_def kmalloc_fits_def Let_def p_def h'_def k1 PAGE_SIZE_def)
  have p0: "p \<noteq> 0" using pg by (simp add: p_def)
  have pm: "p mod PAGE_SIZE = 0" using an(1) by (simp add: p_def mod_add_self2)
  have base: "big_base (p, k) = pages" using k1 kb by (auto simp: p_def)
  have eo: "big_entry_ok (p, k)" using pm pl an(2) base k1 by (simp del: big_base.simps)
  have rng: "big_range (p, k) = {pages..<pages + k * PAGE_SIZE}" using base by (simp del: big_base.simps)
  have dis: "big_range (p, k) \<inter> heap_pages h = {}" unfolding rng by (rule an(3))
  have ok': "heap_ok h'" unfolding heap_ok_def
  proof
    show "slabs_ok h'" using so by (simp add: slabs_ok_def h'_def)
    show "bigs_ok h'" unfolding h'_def using bigs_ok_enter [OF bo _ _ eo p0 dis] i2 by blast
  qed
  have len: "length (big_allocs h) = MAX_BIG_ALLOCS" using bo by (simp add: bigs_ok_def)
  have set: "big_set h' = insert (p, k) (big_set h)" unfolding h'_def using big_set_update [of i h p k] len i2 p0 by simp
  note sr = big_size_range [OF eo, simplified fst_conv]
  have pin: "p \<in> big_range (p, k)" using sr by force
  have nb: "\<not> heap_big h p m" for m
  proof
    assume "heap_big h p m"
    then obtain e where e: "e \<in> big_set h" "fst e = p" by (auto simp: heap_big_def)
    have "p \<in> big_range e" using big_size_range [of e] bo e by (force simp: bigs_ok_def)
    then show False using dis pin e(1) unfolding heap_pages_def by blast
  qed
  have no: "\<not> heap_object h p m" for m
    using heap_object_pages [OF so, of p m] dis pin unfolding heap_pages_def by force
  have n: "sz \<le> big_size (p, k)"
  proof (cases "sz \<le> PAGE_SIZE")
    case True then show ?thesis by (simp add: k1)
  next
    case False
    have "sz \<le> (sz + PAGE_SIZE - 1) div PAGE_SIZE * PAGE_SIZE" by (simp add: PAGE_SIZE_def)
    then show ?thesis using False kb k1 by simp
  qed
  have "heap_big h' q m \<longleftrightarrow> heap_big h q m \<or> q = p \<and> m = big_size (p, k)" for q m
    unfolding heap_big_def set by auto
  then show ?thesis using run p0 ok' pm n nb no by (intro exI [of _ p] exI [of _ h'] exI [of _ "big_size (p, k)"]) (auto simp: h'_def)
qed

lemma slab_pages_mono:
  "dom (slabs h') \<subseteq> dom (slabs h) \<union> {b} \<Longrightarrow> slab_pages h' \<subseteq> slab_pages h \<union> {b..<b + PAGE_SIZE}"
  unfolding slab_pages_def by blast

lemma bigs_ok_slabs:
  assumes "bigs_ok h" "big_allocs h' = big_allocs h" "slab_pages h' \<subseteq> slab_pages h \<union> R"
    "R \<inter> heap_pages h = {}"
  shows "bigs_ok h'"
proof -
  have s: "big_set h' = big_set h" using assms(2) by (simp add: big_set_def)
  have "big_range e \<inter> slab_pages h' = {}" if "e \<in> big_set h" for e
    using assms(1,3,4) that unfolding bigs_ok_def heap_pages_def by blast
  then show ?thesis using assms(1,2) by (simp add: bigs_ok_def s)
qed

lemma heap_object_not_big:
  assumes "heap_ok h" "heap_object h p n" shows "\<not> heap_big h p m"
proof
  assume "heap_big h p m"
  then obtain e where e: "e \<in> big_set h" "fst e = p" by (auto simp: heap_big_def)
  have eo: "big_entry_ok e" "big_range e \<inter> slab_pages h = {}" using assms(1) e(1) by (auto simp: heap_ok_def bigs_ok_def)
  have "p \<in> big_range e" using big_size_range [OF eo(1)] e(2) by force
  moreover have "p \<in> slab_pages h" using heap_object_pages [of h p n] assms by (force simp: heap_ok_def)
  ultimately show False using eo(2) by blast
qed

lemma kmalloc_small_exclusive:
  assumes ok: "heap_ok h" and ans: "vmalloc_answer h sz pages"
    and small: "kmalloc_fits sz align" "sz \<le> 2048"
  shows "kmalloc_inner sz align pages h = None \<and> pages = 0
    \<or> (\<exists>p h' n. kmalloc_inner sz align pages h = Some (p, h', No_Event) \<and> p \<noteq> 0 \<and> heap_ok h' \<and> sz \<le> n
      \<and> (align dvd PAGE_SIZE \<longrightarrow> align dvd p)
      \<and> (\<forall>m. \<not> heap_block h p m) \<and> (\<forall>q m. heap_block h' q m \<longleftrightarrow> heap_block h q m \<or> q = p \<and> m = n)
      \<and> (\<forall>q m. (heap_object h' q m \<or> heap_big h' q m) \<and> q \<noteq> p \<longrightarrow> p + n \<le> q \<or> q + m \<le> p))"
proof -
  have so: "slabs_ok h" and bo: "bigs_ok h" using ok by (simp_all add: heap_ok_def)
  have f: "0 < sz" "small_fits sz align" using small by (simp_all add: kmalloc_fits_def)
  have k1: "vmalloc_request sz = 1" using small(2) by (simp add: vmalloc_request_def PAGE_SIZE_def)
  have an: "pages mod PAGE_SIZE = 0" "pages < 4294967296" "pages \<noteq> 0 \<Longrightarrow> {pages..<pages + PAGE_SIZE} \<inter> heap_pages h = {}"
    using ans k1 by (auto simp: vmalloc_answer_def PAGE_SIZE_def)
  have fr: "slabs h pages = None \<or> pages = 0"
    using an(3) unfolding heap_pages_def slab_pages_def PAGE_SIZE_def by fastforce
  show ?thesis
  proof (cases "kmalloc_inner sz align pages h")
    case None
    then show ?thesis using kmalloc_small [OF so f(1) small(2) f(2) an(1,2) fr] small by simp
  next
    case (Some r)
    obtain p h' ev where r: "r = (p, h', ev)" by (cases r)
    from kmalloc_small [OF so f(1) small(2) f(2) an(1,2) fr] have
      s: "ev = No_Event" "p \<noteq> 0" "slabs_ok h'" "\<not> heap_live h p" "\<And>q. heap_live h' q \<longleftrightarrow> heap_live h q \<or> q = p"
        "align \<noteq> 0 \<longrightarrow> align dvd p" "\<exists>n\<ge>sz. heap_object h' p n" "\<And>q m. heap_object h q m \<Longrightarrow> heap_object h' q m"
        "big_allocs h' = big_allocs h" "dom (slabs h') \<subseteq> dom (slabs h) \<union> {pages}"
        "dom (slabs h') \<subseteq> dom (slabs h) \<or> pages \<noteq> 0"
      unfolding Some r option.case prod.case by blast+
    have "slab_pages h' \<subseteq> slab_pages h \<union> (if pages = 0 then {} else {pages..<pages + PAGE_SIZE})"
      proof (cases "pages = 0")
      case True
      then have "dom (slabs h') \<subseteq> dom (slabs h)" using s(11) by simp
      then show ?thesis unfolding slab_pages_def by blast
    next
      case False then show ?thesis using slab_pages_mono [OF s(10)] by simp
    qed
    then have "bigs_ok h'" by (rule bigs_ok_slabs [OF bo s(9)]) (simp add: an(3))
    then have ok': "heap_ok h'" using s(3) by (simp add: heap_ok_def)
    obtain n where n: "sz \<le> n" "heap_object h' p n" using s(7) by blast
    have big: "heap_big h' q m \<longleftrightarrow> heap_big h q m" for q m using s(9) by (simp add: heap_big_def big_set_def)
    have nb: "\<not> heap_big h p m" for m using heap_object_not_big [OF ok' n(2)] big by blast
    have blocks: "heap_block h' q m \<longleftrightarrow> heap_block h q m \<or> q = p \<and> m = n" for q m
      using s(4,5,8) n(2) big heap_object_unique [OF s(3)] heap_live_object [of h q] unfolding heap_block_def by metis
    have dis: "p + n \<le> q \<or> q + m \<le> p" if "(heap_object h' q m \<or> heap_big h' q m) \<and> q \<noteq> p" for q m
      using heap_extents_disjoint [OF ok', of p n q m] that n(2) by blast
    have nob: "\<not> heap_block h p m" for m using s(4) nb by (simp add: heap_block_def)
    have "align dvd PAGE_SIZE \<longrightarrow> align dvd p" using s(6) by (cases "align = 0") (simp_all add: PAGE_SIZE_def)
    then show ?thesis unfolding Some r using s(1,2) ok' n(1) blocks dis nob by blast
  qed
qed

lemma kmalloc_big_fails:
  assumes ok: "heap_ok h" and ans: "vmalloc_answer h sz pages"
    and fail: "kmalloc_fits sz align" "2048 < sz" "pages = 0 \<or> big_full h"
  shows "kmalloc_inner sz align pages h = Some (0, h, if pages \<noteq> 0 then vm_release sz pages else No_Event)"
proof -
  have bo: "bigs_ok h" using ok by (simp add: heap_ok_def)
  have "pages \<noteq> 0 \<Longrightarrow> 1 < vmalloc_request sz \<Longrightarrow> wrap32 (pages + PAGE_SIZE) - PAGE_SIZE = pages"
  proof -
    assume a: "pages \<noteq> 0" "1 < vmalloc_request sz"
    have "2 * PAGE_SIZE \<le> vmalloc_request sz * PAGE_SIZE" using a(2) by (intro mult_le_mono1) simp
    then have "pages + PAGE_SIZE < 4294967296" using ans a(1) by (simp add: vmalloc_answer_def PAGE_SIZE_def)
    then show ?thesis by (simp add: wrap32_def)
  qed
  note wr = this
  have k: "vmalloc_request sz = 1" if "sz \<le> PAGE_SIZE" using that by (simp add: vmalloc_request_def)
  have k2: "1 < vmalloc_request sz" "vmalloc_request sz = (sz + PAGE_SIZE - 1) div PAGE_SIZE + 1" if g: "\<not> sz \<le> PAGE_SIZE"
  proof -
    show e: "vmalloc_request sz = (sz + PAGE_SIZE - 1) div PAGE_SIZE + 1" using g by (simp add: vmalloc_request_def)
    have "PAGE_SIZE div PAGE_SIZE \<le> (sz + PAGE_SIZE - 1) div PAGE_SIZE" using g by (intro div_le_mono) simp
    then show "1 < vmalloc_request sz" unfolding e by (simp add: PAGE_SIZE_def)
  qed
  define a where "a = (if align = 0 then 1 else align)"
  have a: "\<not> PAGE_SIZE < a" "\<not> 65535 * PAGE_SIZE < sz + PAGE_SIZE - 1"
    using fail(1,2) by (simp_all add: a_def kmalloc_fits_def not_less) (simp add: PAGE_SIZE_def)
  have "kmalloc_inner sz align pages h = Some (kmalloc_big sz a pages h)"
    using fail(2) by (simp add: kmalloc_inner_def Let_def a_def)
  also have "kmalloc_big sz a pages h = (0, h, if pages \<noteq> 0 then vm_release sz pages else No_Event)"
  proof (cases "pages = 0")
    case True then show ?thesis using a by (simp add: kmalloc_big_def Let_def)
  next
    case False
    then have "first_big 0 h = None" using fail(3) first_big_none [OF bo] by simp
    then show ?thesis using a False k k2 wr
      by (cases "sz \<le> PAGE_SIZE") (simp_all add: kmalloc_big_def Let_def vm_release_def)
  qed
  finally show ?thesis .
qed

lemma kmalloc_big_exclusive:
  assumes ok: "heap_ok h" and ans: "vmalloc_answer h sz pages"
    and big: "kmalloc_fits sz align" "2048 < sz" "pages \<noteq> 0" "\<not> big_full h"
  shows "\<exists>p h' n. kmalloc_inner sz align pages h = Some (p, h', No_Event) \<and> p \<noteq> 0 \<and> heap_ok h' \<and> sz \<le> n
      \<and> (align dvd PAGE_SIZE \<longrightarrow> align dvd p)
      \<and> (\<forall>m. \<not> heap_block h p m) \<and> (\<forall>q m. heap_block h' q m \<longleftrightarrow> heap_block h q m \<or> q = p \<and> m = n)
      \<and> (\<forall>q m. (heap_object h' q m \<or> heap_big h' q m) \<and> q \<noteq> p \<longrightarrow> p + n \<le> q \<or> q + m \<le> p)"
proof -
  from kmalloc_big_enter [OF ok big(2,1,3) ans big(4)] obtain p h' n where
    r: "kmalloc_big sz (if align = 0 then 1 else align) pages h = (p, h', No_Event)" and
    s: "p \<noteq> 0" "heap_ok h'" "p mod PAGE_SIZE = 0" "sz \<le> n" "slabs h' = slabs h"
      "\<forall>q m. heap_big h' q m \<longleftrightarrow> heap_big h q m \<or> q = p \<and> m = n"
      "\<forall>m. \<not> heap_big h p m" "\<forall>m. \<not> heap_object h p m" by (elim exE conjE) (rule that)
  have run: "kmalloc_inner sz align pages h = Some (p, h', No_Event)"
    using big(2) r by (simp add: kmalloc_inner_def Let_def)
  have same: "heap_object h' q m = heap_object h q m" "heap_live h' q = heap_live h q" for q m
    using s(5) by (simp_all add: heap_object_def heap_live_def)
  have blocks: "heap_block h' q m \<longleftrightarrow> heap_block h q m \<or> q = p \<and> m = n" for q m
    using s(6) same unfolding heap_block_def by blast
  have "heap_big h' p n" using s(6) by blast
  then have dis: "p + n \<le> q \<or> q + m \<le> p" if "(heap_object h' q m \<or> heap_big h' q m) \<and> q \<noteq> p" for q m
    using heap_extents_disjoint [OF s(2), of p n q m] that by blast
  have "PAGE_SIZE dvd p" using s(3) by blast
  then have al: "align dvd PAGE_SIZE \<longrightarrow> align dvd p" using dvd_trans by blast
  have nob: "\<not> heap_block h p m" for m using s(7,8) by (simp add: heap_block_def)
  show ?thesis using run s(1,2,4) blocks dis al nob by blast
qed

text \<open>C23: \<open>kmalloc\<close> hands out memory exclusively, for every size, alignment and answer of
  \<open>vmalloc\<close> that keeps its contract.  It panics only when a small request needs a page and
  there is none; it fails exactly when nothing serves the request (no size class, an alignment
  over a page, too many pages) or, for more than 2048 bytes, when there are no pages or no free
  slot in the registry, and then the heap is as it was and the pages are given back.  When it
  succeeds the block is aligned, at least as large as asked, was not allocated and overlaps no
  other object or big allocation; every other allocation stays as it was and the heap stays
  well formed.\<close>

theorem kmalloc_exclusive:
  assumes ok: "heap_ok h" and ans: "vmalloc_answer h sz pages"
  shows "case kmalloc_inner sz align pages h of
      None \<Rightarrow> kmalloc_fits sz align \<and> sz \<le> 2048 \<and> pages = 0
    | Some (p, h', ev) \<Rightarrow> heap_ok h'
        \<and> (p = 0 \<longleftrightarrow> \<not> kmalloc_fits sz align \<or> 2048 < sz \<and> (pages = 0 \<or> big_full h))
        \<and> (p = 0 \<longrightarrow> h' = h \<and> ev = (if kmalloc_fits sz align \<and> pages \<noteq> 0 then vm_release sz pages else No_Event))
        \<and> (p \<noteq> 0 \<longrightarrow> ev = No_Event \<and> (align dvd PAGE_SIZE \<longrightarrow> align dvd p) \<and> (\<forall>m. \<not> heap_block h p m)
            \<and> (\<exists>n\<ge>sz. (\<forall>q m. heap_block h' q m \<longleftrightarrow> heap_block h q m \<or> q = p \<and> m = n)
                \<and> (\<forall>q m. (heap_object h' q m \<or> heap_big h' q m) \<and> q \<noteq> p \<longrightarrow> p + n \<le> q \<or> q + m \<le> p)))"
proof -
  consider (none) "\<not> kmalloc_fits sz align" | (small) "kmalloc_fits sz align" "sz \<le> 2048"
    | (fail) "kmalloc_fits sz align" "2048 < sz" "pages = 0 \<or> big_full h"
    | (big) "kmalloc_fits sz align" "2048 < sz" "pages \<noteq> 0" "\<not> big_full h" by linarith
  then show ?thesis
  proof cases
    case none
    have "slabs_ok h" using ok by (simp add: heap_ok_def)
    then have "kmalloc_inner sz align pages h = Some (0, h, No_Event)"
      using none cache_for_fits(1) [OF _ refl, of h sz align]
      by (auto simp: kmalloc_inner_def kmalloc_big_def kmalloc_fits_def Let_def PAGE_SIZE_def)
    then show ?thesis using ok none by simp
  next
    case small
    from kmalloc_small_exclusive [OF ok ans small] show ?thesis
    proof (elim disjE exE conjE)
      assume "kmalloc_inner sz align pages h = None" "pages = 0"
      then show ?thesis using small by simp
    qed (use small in simp, blast)
  next
    case fail
    from kmalloc_big_fails [OF ok ans fail] show ?thesis using ok fail by simp
  next
    case big
    from kmalloc_big_exclusive [OF ok ans big] show ?thesis
      by (elim exE conjE) (use big in simp, blast)
  qed
qed

lemma heap_boot_dead: "\<not> heap_live heap_boot q"
  by (simp add: heap_live_def heap_boot_def)

lemma heap_boot_pages: "heap_pages heap_boot = {}"
  by (simp add: heap_pages_def slab_pages_def big_set_def heap_boot_def)

text \<open>A request of two pages from the fresh heap.\<close>

theorem kmalloc_exclusive_witness:
  "\<exists>p h' n. kmalloc_inner 5000 16 8192 heap_boot = Some (p, h', No_Event) \<and> p \<noteq> 0 \<and> heap_ok h' \<and> 16 dvd p
    \<and> 5000 \<le> n \<and> (\<forall>q m. heap_block h' q m \<longleftrightarrow> q = p \<and> m = n)"
proof -
  have d: "(16::nat) dvd PAGE_SIZE" unfolding PAGE_SIZE_def by (rule dvdI [of _ _ 256]) simp
  have a: "vmalloc_answer heap_boot 5000 8192"
    by (simp add: vmalloc_answer_def heap_boot_pages vmalloc_request_def PAGE_SIZE_def)
  have f: "kmalloc_fits 5000 16" "\<not> big_full heap_boot"
    by (simp_all add: kmalloc_fits_def PAGE_SIZE_def big_full_def heap_boot_def MAX_BIG_ALLOCS_def)
  have e: "\<not> heap_block heap_boot q m" for q m
    using heap_boot_dead by (simp add: heap_block_def heap_big_def big_set_def) (simp add: heap_boot_def)
  from kmalloc_exclusive [OF heap_boot_ok a, of 16] f d e show ?thesis
    by (auto split: option.splits prod.splits)
qed

text \<open>The index the release computes from a pointer is an object of the slab only for that object.\<close>

lemma kfree_index:
  assumes pg: "page_ok b s" and p: "p div PAGE_SIZE * PAGE_SIZE = b"
  defines "off \<equiv> wrap32 (4294967296 + p - b - slab_header (obj_size s))"
  assumes al: "off mod obj_size s = 0" and i: "off div obj_size s < capacity s"
  shows "p = slab_obj b s (off div obj_size s)"
proof -
  have mem: "obj_size s \<in> set kmalloc_caches" using pg by (simp add: page_ok_def)
  note cs = cache_sizes [OF mem]
  define H where "H = slab_header (obj_size s)"
  define r where "r = p mod PAGE_SIZE"
  have pr: "p = b + r" unfolding r_def p [symmetric] by simp
  have rl: "r < 4096" by (simp add: r_def PAGE_SIZE_def)
  have Hl: "0 < H" "H < 4096" using cs by (simp_all add: H_def PAGE_SIZE_def)
  have off: "off = wrap32 (4294967296 + r - H)" by (simp add: off_def pr H_def)
  have bound: "off < 4096"
  proof -
    have "off div obj_size s + 1 \<le> capacity s" using i by simp
    then have "(off div obj_size s + 1) * obj_size s \<le> capacity s * obj_size s" by (rule mult_le_mono1)
    moreover have "off div obj_size s * obj_size s = off" using al by auto
    moreover have "capacity s * obj_size s \<le> PAGE_SIZE" using pg by (simp add: page_ok_def)
    ultimately show ?thesis using cs by (simp add: PAGE_SIZE_def)
  qed
  have "H \<le> r"
  proof (rule ccontr)
    assume "\<not> H \<le> r"
    then have "4294967296 + r - H < 4294967296" "4096 \<le> 4294967296 + r - H" using Hl by auto
    then show False using bound off by simp
  qed
  then have "4294967296 + r - H = (r - H) + 4294967296" by simp
  moreover have "r - H < 4294967296" using rl by simp
  ultimately have "off = r - H" unfolding off by (simp only: wrap32_def mod_add_self2 mod_less)
  moreover have "off div obj_size s * obj_size s = off" using al by auto
  ultimately show ?thesis using \<open>H \<le> r\<close> by (simp add: slab_obj_def H_def [symmetric] pr)
qed

lemma kfree_index_obj:
  assumes pg: "page_ok b s" and i: "i < capacity s"
  defines "off \<equiv> wrap32 (4294967296 + slab_obj b s i - b - slab_header (obj_size s))"
  shows "off mod obj_size s = 0" and "off div obj_size s = i"
proof -
  have mem: "obj_size s \<in> set kmalloc_caches" using pg by (simp add: page_ok_def)
  note cs = cache_sizes [OF mem]
  have "4294967296 + slab_obj b s i - b - slab_header (obj_size s) = i * obj_size s + 4294967296"
    by (simp add: slab_obj_def)
  moreover have "i * obj_size s < 4294967296"
    using slab_obj_inside(2) [OF pg i] by (simp add: slab_obj_def PAGE_SIZE_def)
  ultimately have "off = i * obj_size s" unfolding off_def by (simp only: wrap32_def mod_add_self2 mod_less)
  then show "off mod obj_size s = 0" "off div obj_size s = i" using cs by simp_all
qed

lemma slab_put_live:
  assumes "slab_ok s xs" "slab_live s i"
  shows "used s \<noteq> 0" and "slab_ok (slab_put s i) (i # xs)"
    and "slab_live (slab_put s i) j \<longleftrightarrow> slab_live s j \<and> j \<noteq> i"
proof -
  have i: "i < capacity s" "i \<notin> set xs" using slab_live_iff [OF assms(1)] assms(2) by auto
  have "card (insert i (set xs)) \<le> capacity s"
  proof -
    have "insert i (set xs) \<subseteq> {..<capacity s}"
      using i assms(1) free_path_bound by (fastforce simp: slab_ok_def)
    then show ?thesis using card_mono [of "{..<capacity s}"] by simp
  qed
  then show u: "used s \<noteq> 0" using i(2) assms(1) distinct_card [of xs] by (auto simp: slab_ok_def)
  show ok: "slab_ok (slab_put s i) (i # xs)" by (rule slab_put_ok [OF assms(1) i(2,1) u])
  show "slab_live (slab_put s i) j \<longleftrightarrow> slab_live s j \<and> j \<noteq> i"
    using slab_live_iff [OF ok, of j] slab_live_iff [OF assms(1), of j] by (auto simp: slab_put_def)
qed

lemma kfree_frame:
  assumes "p mod PAGE_SIZE \<noteq> 0"
  shows "big_allocs (fst (kfree_inner p h)) = big_allocs h" "dom (slabs (fst (kfree_inner p h))) = dom (slabs h)"
  using assms slab_dom_update
  by (auto simp: kfree_inner_def Let_def split: option.split if_splits)

lemma kfree_slabs:
  assumes ok: "slabs_ok h" and p: "p mod PAGE_SIZE \<noteq> 0"
  shows "snd (kfree_inner p h) = No_Event \<and> slabs_ok (fst (kfree_inner p h))
    \<and> (\<forall>q. heap_live (fst (kfree_inner p h)) q \<longleftrightarrow> heap_live h q \<and> q \<noteq> p)
    \<and> (\<not> heap_live h p \<longrightarrow> fst (kfree_inner p h) = h)"
proof (cases "heap_live h p")
  case True
  then obtain b s i where l: "slabs h b = Some s" "slab_live s i" "p = slab_obj b s i"
    by (auto simp: heap_live_def)
  have pg: "page_ok b s" using ok l(1) by (simp add: slabs_ok_def)
  then obtain xs where xs: "slab_ok s xs" by (auto simp: page_ok_def)
  have i: "i < capacity s" "\<not> free_scan (capacity s) s (sfree s) i" using l(2) by (auto simp: slab_live_def)
  note put = slab_put_live [OF xs l(2)]
  have base: "p div PAGE_SIZE * PAGE_SIZE = b" unfolding l(3) by (rule slab_obj_inside(3) [OF pg i(1)])
  note ix = kfree_index_obj [OF pg i(1), folded l(3)]
  have p0: "p \<noteq> 0" using p by (metis mod_0)
  define h' where "h' = h\<lparr>slabs := (slabs h)(b \<mapsto> slab_put s i)\<rparr>"
  have run: "kfree_inner p h = (h', No_Event)"
    unfolding kfree_inner_def Let_def base using p p0 l(1) ix i put(1) by (simp add: h'_def)
  have pg': "page_ok b (slab_put s i)" using pg put(2) by (auto simp: page_ok_def slab_put_def)
  have ok': "slabs_ok h'" unfolding h'_def by (rule slabs_ok_update [OF ok l(1) pg']) (simp add: slab_put_def)
  have obj: "slab_obj b (slab_put s i) j = slab_obj b s j" for j by (simp add: slab_obj_def slab_put_def)
  have "heap_live h' q \<longleftrightarrow> heap_live h q \<and> q \<noteq> p" for q
  proof
    assume "heap_live h' q"
    then obtain b2 s2 j where m: "slabs h' b2 = Some s2" "slab_live s2 j" "q = slab_obj b2 s2 j"
      by (auto simp: heap_live_def)
    show "heap_live h q \<and> q \<noteq> p"
    proof (cases "b2 = b")
      case True
      then have "s2 = slab_put s i" using m(1) by (simp add: h'_def)
      then have "slab_live s j" "j \<noteq> i" "q = slab_obj b s j" using put(3) [of j] m obj True by auto
      then show ?thesis using l slab_obj_index [OF pg, of j i] unfolding heap_live_def by auto
    next
      case False
      then have s2: "slabs h b2 = Some s2" using m(1) by (simp add: h'_def)
      then have pg2: "page_ok b2 s2" using ok by (simp add: slabs_ok_def)
      have "j < capacity s2" using m(2) by (simp add: slab_live_def)
      then have "q \<noteq> p" using slab_obj_eq [OF pg i(1) pg2, of j] l(3) m(3) False by auto
      then show ?thesis using s2 m unfolding heap_live_def by blast
    qed
  next
    assume q: "heap_live h q \<and> q \<noteq> p"
    then obtain b2 s2 j where m: "slabs h b2 = Some s2" "slab_live s2 j" "q = slab_obj b2 s2 j"
      by (auto simp: heap_live_def)
    show "heap_live h' q"
    proof (cases "b2 = b")
      case True
      then have "s2 = s" "j \<noteq> i" using m l q by auto
      then have "slabs h' b = Some (slab_put s i)" "slab_live (slab_put s i) j" "q = slab_obj b (slab_put s i) j"
        using m True put(3) [of j] obj by (auto simp: h'_def)
      then show ?thesis unfolding heap_live_def by blast
    next
      case False
      then have "slabs h' b2 = Some s2" using m(1) by (simp add: h'_def)
      then show ?thesis using m unfolding heap_live_def by blast
    qed
  qed
  then show ?thesis unfolding run using ok' True by simp
next
  case False
  have "kfree_inner p h = (h, No_Event)"
  proof (cases "slabs h (p div PAGE_SIZE * PAGE_SIZE)")
    case None
    then show ?thesis using p by (simp add: kfree_inner_def)
  next
    case (Some s)
    define b where "b = p div PAGE_SIZE * PAGE_SIZE"
    have s: "slabs h b = Some s" using Some by (simp add: b_def)
    have pg: "page_ok b s" using ok s by (simp add: slabs_ok_def)
    define off where "off = wrap32 (4294967296 + p - b - slab_header (obj_size s))"
    have "free_scan (capacity s) s (sfree s) (off div obj_size s)"
      if c: "off mod obj_size s = 0" "off div obj_size s < capacity s"
    proof (rule ccontr)
      assume "\<not> free_scan (capacity s) s (sfree s) (off div obj_size s)"
      then have "slab_live s (off div obj_size s)" using c(2) by (simp add: slab_live_def)
      moreover have "p = slab_obj b s (off div obj_size s)"
        unfolding off_def by (rule kfree_index [OF pg b_def [symmetric] c [unfolded off_def]])
      ultimately show False using False s unfolding heap_live_def by blast
    qed
    then show ?thesis unfolding kfree_inner_def Let_def b_def [symmetric] s option.case off_def [symmetric]
      using p by auto
  qed
  then show ?thesis using ok False by auto
qed

text \<open>C24: \<open>kfree\<close> of a pointer below page alignment releases exactly the object it names: an
  allocated object is freed and nothing else changes, and any other such pointer (a free
  object again, the middle of an object, a slab header, another page) leaves the heap as it
  is.\<close>

theorem kfree_exact:
  assumes ok: "heap_ok h" and p: "p mod PAGE_SIZE \<noteq> 0"
  shows "snd (kfree_inner p h) = No_Event \<and> heap_ok (fst (kfree_inner p h))
    \<and> (\<forall>q. heap_live (fst (kfree_inner p h)) q \<longleftrightarrow> heap_live h q \<and> q \<noteq> p)
    \<and> (\<not> heap_live h p \<longrightarrow> fst (kfree_inner p h) = h)"
proof -
  have so: "slabs_ok h" and bo: "bigs_ok h" using ok by (simp_all add: heap_ok_def)
  have "slab_pages (fst (kfree_inner p h)) = slab_pages h" using kfree_frame(2) [OF p] by (simp add: slab_pages_def)
  then have "bigs_ok (fst (kfree_inner p h))"
    by (intro bigs_ok_slabs [OF bo kfree_frame(1) [OF p], of "{}"]) simp_all
  then show ?thesis using kfree_slabs [OF so p] by (simp add: heap_ok_def)
qed

text \<open>An object of the first slab of the heap ends with its release.\<close>

theorem kfree_exact_witness:
  "\<exists>p h. heap_ok h \<and> heap_live h p \<and> \<not> heap_live (fst (kfree_inner p h)) p \<and> heap_ok (fst (kfree_inner p h))
    \<and> kfree_inner p (fst (kfree_inner p h)) = (fst (kfree_inner p h), No_Event)"
proof -
  have f: "small_fits 24 8"
    unfolding small_fits_def by (rule bexI [of _ 32]) (auto simp: kmalloc_caches_def intro: dvdI [of _ _ 4])
  have "slabs heap_boot 4096 = None \<or> 4096 = (0::nat)" by (simp add: heap_boot_def)
  from kmalloc_small [OF slabs_boot_ok _ _ f _ _ this] obtain p h n where
    s: "slabs_ok h" "heap_live h p" "heap_object h p n" "big_allocs h = big_allocs heap_boot"
    by (auto simp: PAGE_SIZE_def split: option.splits prod.splits)
  have "bigs_ok h" using s(4) by (simp add: bigs_ok_def big_set_def heap_boot_def MAX_BIG_ALLOCS_def)
  then have ok: "heap_ok h" using s(1) by (simp add: heap_ok_def)
  have p: "p mod PAGE_SIZE \<noteq> 0"
    using s(1,3) slab_obj_inside(4) by (auto simp: heap_object_def slabs_ok_def)
  note k = kfree_exact [OF ok p]
  then have ok': "heap_ok (fst (kfree_inner p h))" and d: "\<not> heap_live (fst (kfree_inner p h)) p" by blast+
  from kfree_exact [OF ok' p] d have "kfree_inner p (fst (kfree_inner p h)) = (fst (kfree_inner p h), No_Event)"
    by (metis prod.collapse)
  then show ?thesis using ok s(2) d ok' by blast
qed

end
