(* ===== verification/Calc.thy ===== *)
theory Calc
  imports Prelude "HOL-Library.Signed_Division"
begin

text \<open>
  The expression evaluator of the calculator (\<open>calc/src/eval.c\<close>), a recursive descent parser
  over \<open>long\<close> values with overflow, division and nesting errors.  The target is i686, so a
  \<open>long\<close> has 32 bits; values are \<open>int\<close>s with the overflow checks of the code.  The input is
  the list of the characters before the terminating NUL.  The fuel of the recursion,
  \<open>3 * length + 3\<close>, is enough for every string (\<open>calc_total\<close>).
\<close>

definition CALC_OK :: int where "CALC_OK = 0"
definition CALC_ERR_SYNTAX :: int where "CALC_ERR_SYNTAX = - 1"
definition CALC_ERR_DIVZERO :: int where "CALC_ERR_DIVZERO = - 2"
definition CALC_ERR_OVERFLOW :: int where "CALC_ERR_OVERFLOW = - 3"
definition CALC_ERR_COMPLEX :: int where "CALC_ERR_COMPLEX = - 4"
definition CALC_ERR_TRAILING :: int where "CALC_ERR_TRAILING = - 5"
definition CALC_MAX_DEPTH :: nat where "CALC_MAX_DEPTH = 64"
definition LONG_MAX :: int where "LONG_MAX = 2147483647"
definition LONG_MIN :: int where "LONG_MIN = - 2147483648"

lemmas calc_codes = CALC_OK_def CALC_ERR_SYNTAX_def CALC_ERR_DIVZERO_def CALC_ERR_OVERFLOW_def
  CALC_ERR_COMPLEX_def CALC_ERR_TRAILING_def

record calc_parser =
  inp :: string
  depth :: nat
  err :: int

definition peek :: "calc_parser \<Rightarrow> char" where
  "peek ps = (case inp ps of [] \<Rightarrow> CHR 0x00 | c # _ \<Rightarrow> c)"

definition advance :: "calc_parser \<Rightarrow> calc_parser" where
  "advance ps = ps\<lparr>inp := tl (inp ps)\<rparr>"

definition calc_space :: "char \<Rightarrow> bool" where
  "calc_space c \<longleftrightarrow> c = CHR '' '' \<or> c = CHR 0x09 \<or> c = CHR 0x0A \<or> c = CHR 0x0D"

definition skip_ws :: "calc_parser \<Rightarrow> calc_parser" where
  "skip_ws ps = ps\<lparr>inp := dropWhile calc_space (inp ps)\<rparr>"

definition is_digit :: "char \<Rightarrow> bool" where
  "is_digit c \<longleftrightarrow> 48 \<le> (of_char c :: nat) \<and> of_char c \<le> (57 :: nat)"

definition digit_val :: "char \<Rightarrow> int" where
  "digit_val c = int (of_char c) - 48"

text \<open>The digit loop: the value, the rest of the input, and whether it overflowed.\<close>

fun number_loop :: "int \<Rightarrow> string \<Rightarrow> int \<times> string \<times> bool" where
  "number_loop v [] = (v, [], False)"
| "number_loop v (c # cs) =
    (if \<not> is_digit c then (v, c # cs, False)
     else if v > (LONG_MAX - digit_val c) div 10 then (0, c # cs, True)
     else number_loop (v * 10 + digit_val c) cs)"

definition parse_number :: "calc_parser \<Rightarrow> int \<times> calc_parser" where
  "parse_number ps =
    (if \<not> is_digit (peek ps) then (0, ps\<lparr>err := CALC_ERR_SYNTAX\<rparr>)
     else case number_loop 0 (inp ps) of (v, cs, overflow) \<Rightarrow>
       if overflow then (0, ps\<lparr>inp := cs, err := CALC_ERR_OVERFLOW\<rparr>) else (v, ps\<lparr>inp := cs\<rparr>))"

text \<open>\<open>__builtin_add_overflow\<close> and its kin: the result if it fits a \<open>long\<close>.\<close>

definition fits_long :: "int \<Rightarrow> int + int" where
  "fits_long r = (if LONG_MIN \<le> r \<and> r \<le> LONG_MAX then Inr r else Inl CALC_ERR_OVERFLOW)"

definition term_op :: "char \<Rightarrow> int \<Rightarrow> int \<Rightarrow> int + int" where
  "term_op c v rhs =
    (if c = CHR ''*'' then fits_long (v * rhs)
     else if rhs = 0 then Inl CALC_ERR_DIVZERO
     else if rhs = - 1 \<and> v = LONG_MIN then Inl CALC_ERR_OVERFLOW
     else Inr (if c = CHR ''/'' then v sdiv rhs else v smod rhs))"

definition expr_op :: "char \<Rightarrow> int \<Rightarrow> int \<Rightarrow> int + int" where
  "expr_op c v rhs = fits_long (if c = CHR ''+'' then v + rhs else v - rhs)"

text \<open>The parts of \<open>parse_factor\<close> after its recursive calls.\<close>

definition factor_close :: "int \<Rightarrow> calc_parser \<Rightarrow> int \<times> calc_parser" where
  "factor_close v ps =
    (if err ps \<noteq> 0 then (0, ps)
     else let ps = skip_ws ps in
       if peek ps \<noteq> CHR '')'' then (0, ps\<lparr>err := CALC_ERR_SYNTAX\<rparr>) else (v, advance ps))"

definition factor_sign :: "char \<Rightarrow> int \<Rightarrow> calc_parser \<Rightarrow> int \<times> calc_parser" where
  "factor_sign c v ps =
    (if err ps \<noteq> 0 then (0, ps)
     else if c = CHR ''+'' then (v, ps)
     else case fits_long (0 - v) of Inl e \<Rightarrow> (0, ps\<lparr>err := e\<rparr>) | Inr r \<Rightarrow> (r, ps))"

definition enter :: "calc_parser \<Rightarrow> calc_parser" where
  "enter ps = (advance ps)\<lparr>depth := depth ps + 1\<rparr>"

definition leave :: "calc_parser \<Rightarrow> calc_parser" where
  "leave ps = ps\<lparr>depth := depth ps - 1\<rparr>"

fun parse_factor :: "nat \<Rightarrow> calc_parser \<Rightarrow> (int \<times> calc_parser) option"
  and parse_term :: "nat \<Rightarrow> calc_parser \<Rightarrow> (int \<times> calc_parser) option"
  and term_loop :: "nat \<Rightarrow> int \<Rightarrow> calc_parser \<Rightarrow> (int \<times> calc_parser) option"
  and parse_expr :: "nat \<Rightarrow> calc_parser \<Rightarrow> (int \<times> calc_parser) option"
  and expr_loop :: "nat \<Rightarrow> int \<Rightarrow> calc_parser \<Rightarrow> (int \<times> calc_parser) option" where
  "parse_factor 0 ps = None"
| "parse_factor (Suc n) ps0 =
    (let ps = skip_ws ps0 in
     if err ps \<noteq> 0 then Some (0, ps)
     else if depth ps \<ge> CALC_MAX_DEPTH then Some (0, ps\<lparr>err := CALC_ERR_COMPLEX\<rparr>)
     else if peek ps = CHR ''('' then
       (case parse_expr n (enter ps) of None \<Rightarrow> None | Some (v, ps) \<Rightarrow> Some (factor_close v (leave ps)))
     else if peek ps = CHR ''-'' \<or> peek ps = CHR ''+'' then
       (case parse_factor n (enter ps) of None \<Rightarrow> None
        | Some (v, ps2) \<Rightarrow> Some (factor_sign (peek ps) v (leave ps2)))
     else Some (parse_number ps))"
| "parse_term 0 ps = None"
| "parse_term (Suc n) ps =
    (case parse_factor n ps of None \<Rightarrow> None | Some (v, ps) \<Rightarrow> term_loop n v ps)"
| "term_loop 0 v ps = None"
| "term_loop (Suc n) v ps0 =
    (if err ps0 \<noteq> 0 then Some (v, ps0)
     else let ps = skip_ws ps0; c = peek ps in
       if c \<noteq> CHR ''*'' \<and> c \<noteq> CHR ''/'' \<and> c \<noteq> CHR ''%'' then Some (v, ps)
       else case parse_factor n (advance ps) of None \<Rightarrow> None
       | Some (rhs, ps) \<Rightarrow>
         if err ps \<noteq> 0 then Some (0, ps)
         else case term_op c v rhs of Inl e \<Rightarrow> Some (0, ps\<lparr>err := e\<rparr>) | Inr r \<Rightarrow> term_loop n r ps)"
| "parse_expr 0 ps = None"
| "parse_expr (Suc n) ps =
    (case parse_term n ps of None \<Rightarrow> None | Some (v, ps) \<Rightarrow> expr_loop n v ps)"
| "expr_loop 0 v ps = None"
| "expr_loop (Suc n) v ps0 =
    (if err ps0 \<noteq> 0 then Some (v, ps0)
     else let ps = skip_ws ps0; c = peek ps in
       if c \<noteq> CHR ''+'' \<and> c \<noteq> CHR ''-'' then Some (v, ps)
       else case parse_term n (advance ps) of None \<Rightarrow> None
       | Some (rhs, ps) \<Rightarrow>
         if err ps \<noteq> 0 then Some (0, ps)
         else case expr_op c v rhs of Inl e \<Rightarrow> Some (0, ps\<lparr>err := e\<rparr>) | Inr r \<Rightarrow> expr_loop n r ps)"

text \<open>\<open>calc_eval\<close>: the error code, or the value stored in \<open>*out\<close>.\<close>

definition calc_eval :: "string option \<Rightarrow> (int + int) option" where
  "calc_eval expr = (case expr of None \<Rightarrow> Some (Inl CALC_ERR_SYNTAX)
   | Some s \<Rightarrow>
     (case parse_expr (3 * length s + 3) \<lparr>inp = s, depth = 0, err = CALC_OK\<rparr> of None \<Rightarrow> None
      | Some (v, ps) \<Rightarrow>
        if err ps \<noteq> 0 then Some (Inl (err ps))
        else if peek (skip_ws ps) \<noteq> CHR 0x00 then Some (Inl CALC_ERR_TRAILING)
        else Some (Inr v)))"

definition calc_eval_strerror :: "int \<Rightarrow> string" where
  "calc_eval_strerror code =
    (if code = CALC_OK then ''ok''
     else if code = CALC_ERR_SYNTAX then ''malformed expression''
     else if code = CALC_ERR_DIVZERO then ''division by zero''
     else if code = CALC_ERR_OVERFLOW then ''integer overflow''
     else if code = CALC_ERR_COMPLEX then ''expression is nested too deeply''
     else if code = CALC_ERR_TRAILING then ''trailing characters after the expression''
     else ''unknown error'')"

section \<open>Termination\<close>

lemma inp_simps [simp]:
  "inp (leave ps) = inp ps" "err (leave ps) = err ps" "err (skip_ws ps) = err ps"
  "depth (skip_ws ps) = depth ps" "err (enter ps) = err ps" "err (advance ps) = err ps"
  "depth (advance ps) = depth ps" "depth (enter ps) = Suc (depth ps)" "depth (leave ps) = depth ps - 1"
  "inp (advance ps) = tl (inp ps)" "inp (enter ps) = tl (inp ps)"
  by (simp_all add: leave_def skip_ws_def enter_def advance_def)

lemma skip_ws_le: "length (inp (skip_ws ps)) \<le> length (inp ps)"
  by (simp add: skip_ws_def length_dropWhile_le)

lemma peek_pos: "peek ps \<noteq> CHR 0x00 \<Longrightarrow> 0 < length (inp ps)"
  by (auto simp: peek_def split: list.splits)

lemma number_loop_le: "length (fst (snd (number_loop v cs))) \<le> length cs"
  by (induction v cs rule: number_loop.induct) auto

lemma parse_number_le: "parse_number ps = (v, ps') \<Longrightarrow> length (inp ps') \<le> length (inp ps)"
  using number_loop_le [of 0 "inp ps"] by (auto simp: parse_number_def split: if_splits prod.splits)

lemma factor_close_le: "length (inp (snd (factor_close v ps))) \<le> length (inp ps)"
  using skip_ws_le [of ps] by (auto simp: factor_close_def Let_def)

lemma factor_sign_le: "length (inp (snd (factor_sign c v ps))) \<le> length (inp ps)"
  by (auto simp: factor_sign_def split: sum.splits)

lemma some_intro: "(\<And>v ps'. r = (v, ps') \<Longrightarrow> P v ps') \<Longrightarrow> \<exists>v ps'. Some r = Some (v, ps') \<and> P v ps'"
  by (cases r) auto

text \<open>Every parser returns, and the input never grows.\<close>

lemma calc_total:
  "(\<forall>ps. 3 * length (inp ps) + 1 \<le> n \<longrightarrow> (\<exists>v ps'. parse_factor n ps = Some (v, ps') \<and> length (inp ps') \<le> length (inp ps)))
 \<and> (\<forall>ps. 3 * length (inp ps) + 2 \<le> n \<longrightarrow> (\<exists>v ps'. parse_term n ps = Some (v, ps') \<and> length (inp ps') \<le> length (inp ps)))
 \<and> (\<forall>v ps. 3 * length (inp ps) + 1 \<le> n \<longrightarrow> (\<exists>v2 ps'. term_loop n v ps = Some (v2, ps') \<and> length (inp ps') \<le> length (inp ps)))
 \<and> (\<forall>ps. 3 * length (inp ps) + 3 \<le> n \<longrightarrow> (\<exists>v ps'. parse_expr n ps = Some (v, ps') \<and> length (inp ps') \<le> length (inp ps)))
 \<and> (\<forall>v ps. 3 * length (inp ps) + 2 \<le> n \<longrightarrow> (\<exists>v2 ps'. expr_loop n v ps = Some (v2, ps') \<and> length (inp ps') \<le> length (inp ps)))"
proof (induction n)
  case (Suc n)
  have F: "3 * length (inp ps) + 1 \<le> n \<Longrightarrow> \<exists>v ps'. parse_factor n ps = Some (v, ps') \<and> length (inp ps') \<le> length (inp ps)" for v ps
    by (rule conjunct1 [OF Suc.IH, rule_format])
  have T: "3 * length (inp ps) + 2 \<le> n \<Longrightarrow> \<exists>v ps'. parse_term n ps = Some (v, ps') \<and> length (inp ps') \<le> length (inp ps)" for v ps
    by (rule conjunct1 [OF conjunct2 [OF Suc.IH], rule_format])
  have TL: "3 * length (inp ps) + 1 \<le> n \<Longrightarrow> \<exists>v2 ps'. term_loop n v ps = Some (v2, ps') \<and> length (inp ps') \<le> length (inp ps)" for v ps
    by (rule conjunct1 [OF conjunct2 [OF conjunct2 [OF Suc.IH]], rule_format])
  have E: "3 * length (inp ps) + 3 \<le> n \<Longrightarrow> \<exists>v ps'. parse_expr n ps = Some (v, ps') \<and> length (inp ps') \<le> length (inp ps)" for v ps
    by (rule conjunct1 [OF conjunct2 [OF conjunct2 [OF conjunct2 [OF Suc.IH]]], rule_format])
  have EL: "3 * length (inp ps) + 2 \<le> n \<Longrightarrow> \<exists>v2 ps'. expr_loop n v ps = Some (v2, ps') \<and> length (inp ps') \<le> length (inp ps)" for v ps
    by (rule conjunct2 [OF conjunct2 [OF conjunct2 [OF conjunct2 [OF Suc.IH]]], rule_format])
  have "\<exists>v ps'. parse_factor (Suc n) ps = Some (v, ps') \<and> length (inp ps') \<le> length (inp ps)"
    if l: "3 * length (inp ps) + 1 \<le> Suc n" for ps
  proof -
    note sk = skip_ws_le [of ps]
    define q where "q = skip_ws ps"
    have q: "length (inp q) \<le> length (inp ps)" using sk by (simp add: q_def)
    have ent: "peek q \<noteq> CHR 0x00 \<Longrightarrow> 3 * length (inp (enter q)) + 3 \<le> n \<and> length (inp (enter q)) \<le> length (inp ps)"
      using peek_pos [of q] q l by (cases "inp q") auto
    consider "err q \<noteq> 0 \<or> depth q \<ge> CALC_MAX_DEPTH"
      | "err q = 0" "depth q < CALC_MAX_DEPTH" "peek q = CHR ''(''"
      | "err q = 0" "depth q < CALC_MAX_DEPTH" "peek q = CHR ''-'' \<or> peek q = CHR ''+''" "peek q \<noteq> CHR ''(''"
      | "err q = 0" "depth q < CALC_MAX_DEPTH" "peek q \<noteq> CHR ''-''" "peek q \<noteq> CHR ''+''" "peek q \<noteq> CHR ''(''"
      by fastforce
    then show ?thesis
    proof cases
      case 1
      then show ?thesis using q by (auto simp: Let_def q_def [symmetric])
    next
      case 2
      then have e: "3 * length (inp (enter q)) + 3 \<le> n" "length (inp (enter q)) \<le> length (inp ps)"
        using ent by auto
      from E [OF e(1)] obtain v q2 where q2: "parse_expr n (enter q) = Some (v, q2)"
        "length (inp q2) \<le> length (inp (enter q))" by blast
      have "length (inp (snd (factor_close v (leave q2)))) \<le> length (inp ps)"
        using factor_close_le [of v "leave q2"] q2 e by simp
      then show ?thesis using 2 q2
        by (cases "factor_close v (leave q2)") (simp add: Let_def q_def [symmetric])
    next
      case 3
      then have e: "3 * length (inp (enter q)) + 1 \<le> n" "length (inp (enter q)) \<le> length (inp ps)"
        using ent by auto
      from F [OF e(1)] obtain v q2 where q2: "parse_factor n (enter q) = Some (v, q2)"
        "length (inp q2) \<le> length (inp (enter q))" by blast
      have "length (inp (snd (factor_sign (peek q) v (leave q2)))) \<le> length (inp ps)"
        using factor_sign_le [of "peek q" v "leave q2"] q2 e by simp
      then show ?thesis using 3 q2
        by (cases "factor_sign (peek q) v (leave q2)") (simp add: Let_def q_def [symmetric])
    next
      case 4
      obtain v q2 where q2: "parse_number q = (v, q2)" by (cases "parse_number q")
      then have "length (inp q2) \<le> length (inp ps)" using parse_number_le q by fastforce
      then show ?thesis using 4 q2 by (simp add: Let_def q_def [symmetric])
    qed
  qed
  moreover have "\<exists>v ps'. parse_term (Suc n) ps = Some (v, ps') \<and> length (inp ps') \<le> length (inp ps)"
    if l: "3 * length (inp ps) + 2 \<le> Suc n" for ps
  proof -
    from F [of ps] l obtain v p1 where p1: "parse_factor n ps = Some (v, p1)" "length (inp p1) \<le> length (inp ps)" by auto
    then have "3 * length (inp p1) + 1 \<le> n" using l by simp
    from TL [OF this, of v] p1 show ?thesis by fastforce
  qed
  moreover have "\<exists>v2 ps'. term_loop (Suc n) v ps = Some (v2, ps') \<and> length (inp ps') \<le> length (inp ps)"
    if l: "3 * length (inp ps) + 1 \<le> Suc n" for v ps
  proof -
    define q where "q = skip_ws ps"
    have q: "length (inp q) \<le> length (inp ps)" using skip_ws_le by (simp add: q_def)
    show ?thesis
    proof (cases "err ps \<noteq> 0 \<or> peek q \<noteq> CHR ''*'' \<and> peek q \<noteq> CHR ''/'' \<and> peek q \<noteq> CHR ''%''")
      case True
      then show ?thesis using q by (auto simp: Let_def q_def [symmetric])
    next
      case False
      then have "0 < length (inp q)" by (intro peek_pos) auto
      then have "3 * length (inp (advance q)) + 1 \<le> n" "length (inp (advance q)) \<le> length (inp ps)"
        using q l \<open>0 < length (inp q)\<close> by (cases "inp q"; simp)+
      from F [OF this(1)] this(2) obtain rhs p1 where p1: "parse_factor n (advance q) = Some (rhs, p1)"
        "length (inp p1) \<le> length (inp (advance q))" by blast
      then have "3 * length (inp p1) + 1 \<le> n" "length (inp p1) \<le> length (inp ps)"
        using \<open>0 < length (inp q)\<close> q l by (cases "inp q"; simp)+
      note le = this
      have c: "(peek q \<noteq> CHR ''*'' \<and> peek q \<noteq> CHR ''/'' \<and> peek q \<noteq> CHR ''%'') = False" "(err ps \<noteq> 0) = False" using False by blast+
      have u: "term_loop (Suc n) v ps = (if err p1 \<noteq> 0 then Some (0, p1)
          else case term_op (peek q) v rhs of Inl e \<Rightarrow> Some (0, p1\<lparr>err := e\<rparr>) | Inr r \<Rightarrow> term_loop n r p1)"
        unfolding term_loop.simps Let_def q_def [symmetric] c if_False p1(1) option.case prod.case
        by (rule refl)
      show ?thesis
      proof (cases "term_op (peek q) v rhs")
        case (Inr r)
        from TL [OF le(1), of r] obtain v2 p2 where "term_loop n r p1 = Some (v2, p2)"
          "length (inp p2) \<le> length (inp p1)" by blast
        then show ?thesis unfolding u Inr using le(2) by simp
      qed (use le in \<open>simp add: u del: term_loop.simps expr_loop.simps\<close>)
    qed
  qed
  moreover have "\<exists>v ps'. parse_expr (Suc n) ps = Some (v, ps') \<and> length (inp ps') \<le> length (inp ps)"
    if l: "3 * length (inp ps) + 3 \<le> Suc n" for ps
  proof -
    from T [of ps] l obtain v p1 where p1: "parse_term n ps = Some (v, p1)" "length (inp p1) \<le> length (inp ps)" by auto
    then have "3 * length (inp p1) + 2 \<le> n" using l by simp
    from EL [OF this, of v] p1 show ?thesis by fastforce
  qed
  moreover have "\<exists>v2 ps'. expr_loop (Suc n) v ps = Some (v2, ps') \<and> length (inp ps') \<le> length (inp ps)"
    if l: "3 * length (inp ps) + 2 \<le> Suc n" for v ps
  proof -
    define q where "q = skip_ws ps"
    have q: "length (inp q) \<le> length (inp ps)" using skip_ws_le by (simp add: q_def)
    show ?thesis
    proof (cases "err ps \<noteq> 0 \<or> peek q \<noteq> CHR ''+'' \<and> peek q \<noteq> CHR ''-''")
      case True
      then show ?thesis using q by (auto simp: Let_def q_def [symmetric])
    next
      case False
      then have "0 < length (inp q)" by (intro peek_pos) auto
      then have "3 * length (inp (advance q)) + 2 \<le> n" "length (inp (advance q)) \<le> length (inp ps)"
        using q l \<open>0 < length (inp q)\<close> by (cases "inp q"; simp)+
      from T [OF this(1)] this(2) obtain rhs p1 where p1: "parse_term n (advance q) = Some (rhs, p1)"
        "length (inp p1) \<le> length (inp (advance q))" by blast
      then have "3 * length (inp p1) + 2 \<le> n" "length (inp p1) \<le> length (inp ps)"
        using \<open>0 < length (inp q)\<close> q l by (cases "inp q"; simp)+
      note le = this
      have c: "(peek q \<noteq> CHR ''+'' \<and> peek q \<noteq> CHR ''-'') = False" "(err ps \<noteq> 0) = False" using False by blast+
      have u: "expr_loop (Suc n) v ps = (if err p1 \<noteq> 0 then Some (0, p1)
          else case expr_op (peek q) v rhs of Inl e \<Rightarrow> Some (0, p1\<lparr>err := e\<rparr>) | Inr r \<Rightarrow> expr_loop n r p1)"
        unfolding expr_loop.simps Let_def q_def [symmetric] c if_False p1(1) option.case prod.case
        by (rule refl)
      show ?thesis
      proof (cases "expr_op (peek q) v rhs")
        case (Inr r)
        from EL [OF le(1), of r] obtain v2 p2 where "expr_loop n r p1 = Some (v2, p2)"
          "length (inp p2) \<le> length (inp p1)" by blast
        then show ?thesis unfolding u Inr using le(2) by simp
      qed (use le in \<open>simp add: u del: term_loop.simps expr_loop.simps\<close>)
    qed
  qed
  ultimately show ?case by blast
qed simp

text \<open>The value of a digit string, most significant digit first.\<close>

definition decimal :: "string \<Rightarrow> int" where
  "decimal ds = foldl (\<lambda>v d. v * 10 + digit_val d) 0 ds"

lemma decimal_mono: "0 \<le> v \<Longrightarrow> \<forall>d\<in>set ds. is_digit d \<Longrightarrow> v \<le> foldl (\<lambda>v d. v * 10 + digit_val d) v ds"
proof (induction ds arbitrary: v)
  case (Cons d ds)
  have "0 \<le> digit_val d" using Cons.prems by (simp add: is_digit_def digit_val_def)
  then have "v \<le> v * 10 + digit_val d" "0 \<le> v * 10 + digit_val d" using Cons.prems by simp_all
  with Cons.IH [of "v * 10 + digit_val d"] Cons.prems show ?case by simp
qed simp

lemma number_loop_decimal:
  "0 \<le> v \<Longrightarrow> \<forall>d\<in>set ds. is_digit d \<Longrightarrow> t = [] \<or> \<not> is_digit (hd t)
   \<Longrightarrow> (if foldl (\<lambda>v d. v * 10 + digit_val d) v ds \<le> LONG_MAX \<or> ds = []
       then number_loop v (ds @ t) = (foldl (\<lambda>v d. v * 10 + digit_val d) v ds, t, False)
       else snd (snd (number_loop v (ds @ t))))"
proof (induction ds arbitrary: v)
  case Nil
  then show ?case by (cases t) auto
next
  case (Cons d ds)
  have d: "is_digit d" "0 \<le> digit_val d" "digit_val d \<le> 9"
    using Cons.prems by (simp_all add: is_digit_def digit_val_def)
  have chk: "v > (LONG_MAX - digit_val d) div 10 \<longleftrightarrow> v * 10 + digit_val d > LONG_MAX"
    by (simp add: LONG_MAX_def) linarith
  define w where "w = v * 10 + digit_val d"
  have w: "0 \<le> w" using Cons.prems d by (simp add: w_def)
  show ?case
  proof (cases "w > LONG_MAX")
    case True
    then have "\<not> foldl (\<lambda>v d. v * 10 + digit_val d) w ds \<le> LONG_MAX"
      using decimal_mono [OF w, of ds] Cons.prems by auto
    then show ?thesis using True d chk by (simp add: w_def [symmetric])
  next
    case False
    then show ?thesis using Cons.IH [OF w] Cons.prems d chk
      by (cases "ds = []") (auto simp: w_def [symmetric])
  qed
qed

lemma parse_number_decimal:
  assumes "ds \<noteq> []" "\<forall>d\<in>set ds. is_digit d" "t = [] \<or> \<not> is_digit (hd t)" "inp ps = ds @ t" "err ps = 0"
  shows "case fits_long (decimal ds) of
      Inr v \<Rightarrow> parse_number ps = (v, ps\<lparr>inp := t\<rparr>)
    | Inl c \<Rightarrow> \<exists>ps'. parse_number ps = (0, ps') \<and> err ps' = c"
proof -
  have p: "is_digit (peek ps)" using assms by (cases ds) (auto simp: peek_def)
  have pos: "0 \<le> decimal ds" using decimal_mono [of 0 ds] assms(2) by (simp add: decimal_def)
  note nl = number_loop_decimal [of 0 ds t, OF _ assms(2,3), folded decimal_def]
  show ?thesis
  proof (cases "decimal ds \<le> LONG_MAX")
    case True
    then show ?thesis using nl p assms(1,4) pos
      by (simp add: parse_number_def fits_long_def LONG_MIN_def)
  next
    case False
    then have "snd (snd (number_loop 0 (ds @ t)))" using nl assms(1) by simp
    then show ?thesis using False p assms(4)
      by (auto simp: parse_number_def fits_long_def split: prod.splits)
  qed
qed

section \<open>Division and the range of a long\<close>

lemma sdiv_abs: "w \<noteq> 0 \<Longrightarrow> \<bar>(v::int) sdiv w\<bar> \<le> \<bar>v\<bar> div \<bar>w\<bar>"
proof -
  assume "w \<noteq> 0"
  then have "0 \<le> \<bar>v\<bar> div \<bar>w\<bar>" by (simp add: pos_imp_zdiv_nonneg_iff)
  then show ?thesis by (simp add: signed_divide_int_def abs_mult abs_sgn_eq)
qed

lemma sdiv_bound: "\<bar>(v::int) sdiv w\<bar> \<le> \<bar>v\<bar>"
proof (cases "w = 0")
  case False
  have "\<bar>v\<bar> div \<bar>w\<bar> \<le> \<bar>v\<bar> div 1" using False by (intro zdiv_mono2) auto
  then show ?thesis using sdiv_abs [OF False, of v] by simp
qed simp

lemma smod_bound: "\<bar>(v::int) smod w\<bar> \<le> \<bar>v\<bar> \<and> (0 \<le> v \<longrightarrow> 0 \<le> v smod w) \<and> (v \<le> 0 \<longrightarrow> v smod w \<le> 0)"
proof -
  have "0 \<le> \<bar>v\<bar> mod \<bar>w\<bar>" by (cases "w = 0") simp_all
  moreover have "\<bar>v\<bar> mod \<bar>w\<bar> \<le> \<bar>v\<bar>" by (cases "w = 0") (simp_all add: zmod_le_nonneg_dividend)
  ultimately show ?thesis by (auto simp: smod_int_alt_def sgn_if abs_mult)
qed

text \<open>The checks of the code amount to the range of the result.\<close>

lemma term_op_value:
  assumes "LONG_MIN \<le> v" "v \<le> LONG_MAX" "c \<in> set ''*/%''"
  shows "term_op c v w = (if c = CHR ''*'' then fits_long (v * w)
       else if w = 0 then Inl CALC_ERR_DIVZERO
       else if c = CHR ''/'' then fits_long (v sdiv w)
       else if w = - 1 \<and> v = LONG_MIN then Inl CALC_ERR_OVERFLOW
       else Inr (v smod w))"
proof -
  have "fits_long (v sdiv w) = (if w = - 1 \<and> v = LONG_MIN then Inl CALC_ERR_OVERFLOW else Inr (v sdiv w))"
    if w: "w \<noteq> 0"
  proof (cases "w = - 1")
    case True
    then show ?thesis using assms by (auto simp: fits_long_def LONG_MIN_def LONG_MAX_def)
  next
    case False
    have "v sdiv w \<le> LONG_MAX"
    proof (cases "v = LONG_MIN")
      case True
      show ?thesis
      proof (cases "w = 1")
        case True
        then show ?thesis using assms by simp
      next
        case w1: False
        then have "2 \<le> \<bar>w\<bar>" using w False by linarith
        then have "\<bar>v\<bar> div \<bar>w\<bar> \<le> \<bar>v\<bar> div 2" by (intro zdiv_mono2) auto
        then have "\<bar>v sdiv w\<bar> \<le> \<bar>v\<bar> div 2" using sdiv_abs [OF w, of v] by simp
        then show ?thesis using True by (simp add: LONG_MIN_def LONG_MAX_def)
      qed
    next
      case v: False
      then show ?thesis using sdiv_bound [of v w] assms by (simp add: LONG_MIN_def LONG_MAX_def)
    qed
    moreover have "LONG_MIN \<le> v sdiv w"
      using sdiv_bound [of v w] assms by (simp add: LONG_MIN_def LONG_MAX_def)
    ultimately show ?thesis using False by (simp add: fits_long_def)
  qed
  then show ?thesis using assms(3) by (auto simp: term_op_def)
qed

section \<open>The grammar\<close>

text \<open>
  The phrases of the grammar with the white space inside them: a factor is a number, a signed
  factor or an expression in parentheses; a term is a factor and a list of \<open>* / %\<close> with their
  right operands; an expression is a term and a list of \<open>+ -\<close> with theirs. Every phrase begins
  with its own white space; \<open>fac_text\<close> and the like print it, \<open>fac_ok\<close> and the like say which
  characters its parts may hold.
\<close>

datatype fac = FNum string string | FSign string char fac | FPar string exp string
  and trm = Trm fac trest
  and trest = TNil | TOp string char fac trest
  and exp = Exp trm erest
  and erest = ENil | EOp string char trm erest

primrec fac_text and trm_text and trest_text and exp_text and erest_text where
  "fac_text (FNum w ds) = w @ ds"
| "fac_text (FSign w c f) = w @ [c] @ fac_text f"
| "fac_text (FPar w e w') = w @ ''('' @ exp_text e @ w' @ '')''"
| "trm_text (Trm f r) = fac_text f @ trest_text r"
| "trest_text TNil = []"
| "trest_text (TOp w c f r) = w @ [c] @ fac_text f @ trest_text r"
| "exp_text (Exp a r) = trm_text a @ erest_text r"
| "erest_text ENil = []"
| "erest_text (EOp w c a r) = w @ [c] @ trm_text a @ erest_text r"

abbreviation spaces :: "string \<Rightarrow> bool" where
  "spaces w \<equiv> list_all calc_space w"

primrec fac_ok and trm_ok and trest_ok and exp_ok and erest_ok where
  "fac_ok (FNum w ds) = (spaces w \<and> ds \<noteq> [] \<and> list_all is_digit ds)"
| "fac_ok (FSign w c f) = (spaces w \<and> c \<in> set ''+-'' \<and> fac_ok f)"
| "fac_ok (FPar w e w') = (spaces w \<and> exp_ok e \<and> spaces w')"
| "trm_ok (Trm f r) = (fac_ok f \<and> trest_ok r)"
| "trest_ok TNil = True"
| "trest_ok (TOp w c f r) = (spaces w \<and> c \<in> set ''*/%'' \<and> fac_ok f \<and> trest_ok r)"
| "exp_ok (Exp a r) = (trm_ok a \<and> erest_ok r)"
| "erest_ok ENil = True"
| "erest_ok (EOp w c a r) = (spaces w \<and> c \<in> set ''+-'' \<and> trm_ok a \<and> erest_ok r)"

text \<open>
  The value in the arithmetic of \<open>long\<close>: operators of a list are applied from left to right, and
  the first error in evaluation order is the result. A factor below 64 signs and parentheses
  is too complex.
\<close>

definition bin_value :: "char \<Rightarrow> int \<Rightarrow> int \<Rightarrow> int + int" where
  "bin_value c v w =
    (if c = CHR ''+'' then fits_long (v + w)
     else if c = CHR ''-'' then fits_long (v - w)
     else if c = CHR ''*'' then fits_long (v * w)
     else if w = 0 then Inl CALC_ERR_DIVZERO
     else if c = CHR ''/'' then fits_long (v sdiv w)
     else if w = - 1 \<and> v = LONG_MIN then Inl CALC_ERR_OVERFLOW
     else Inr (v smod w))"

definition on_value :: "int + int \<Rightarrow> (int \<Rightarrow> int + int) \<Rightarrow> int + int" where
  "on_value r f = (case r of Inl e \<Rightarrow> Inl e | Inr v \<Rightarrow> f v)"

lemma on_value_simps [simp]: "on_value (Inl e) f = Inl e" "on_value (Inr v) f = f v"
  by (simp_all add: on_value_def)

primrec fac_value :: "fac \<Rightarrow> nat \<Rightarrow> int + int"
  and trm_value :: "trm \<Rightarrow> nat \<Rightarrow> int + int"
  and trest_value :: "trest \<Rightarrow> nat \<Rightarrow> int \<Rightarrow> int + int"
  and exp_value :: "exp \<Rightarrow> nat \<Rightarrow> int + int"
  and erest_value :: "erest \<Rightarrow> nat \<Rightarrow> int \<Rightarrow> int + int" where
  "fac_value (FNum w ds) d = (if 64 \<le> d then Inl CALC_ERR_COMPLEX else fits_long (decimal ds))"
| "fac_value (FSign w c f) d = (if 64 \<le> d then Inl CALC_ERR_COMPLEX else
     on_value (fac_value f (Suc d)) (\<lambda>v. if c = CHR ''-'' then fits_long (- v) else Inr v))"
| "fac_value (FPar w e w') d = (if 64 \<le> d then Inl CALC_ERR_COMPLEX else exp_value e (Suc d))"
| "trm_value (Trm f r) d = on_value (fac_value f d) (trest_value r d)"
| "trest_value TNil d v = Inr v"
| "trest_value (TOp w c f r) d v =
     on_value (fac_value f d) (\<lambda>rhs. on_value (bin_value c v rhs) (trest_value r d))"
| "exp_value (Exp a r) d = on_value (trm_value a d) (erest_value r d)"
| "erest_value ENil d v = Inr v"
| "erest_value (EOp w c a r) d v =
     on_value (trm_value a d) (\<lambda>rhs. on_value (bin_value c v rhs) (erest_value r d))"

definition in_long :: "int \<Rightarrow> bool" where
  "in_long v \<longleftrightarrow> LONG_MIN \<le> v \<and> v \<le> LONG_MAX"

lemma fits_long_in: "fits_long r = Inr v \<Longrightarrow> in_long v"
  by (auto simp: fits_long_def in_long_def split: if_splits)

lemma bin_value_in: "bin_value c v w = Inr r \<Longrightarrow> in_long v \<Longrightarrow> in_long r"
  using smod_bound [of v w]
  by (auto simp: bin_value_def in_long_def LONG_MIN_def LONG_MAX_def fits_long_def split: if_splits)

lemma values_in:
  "(\<forall>d v. fac_value f d = Inr v \<longrightarrow> in_long v)"
  "(\<forall>d v. trm_value a d = Inr v \<longrightarrow> in_long v)"
  "(\<forall>d u v. in_long u \<longrightarrow> trest_value tr d u = Inr v \<longrightarrow> in_long v)"
  "(\<forall>d v. exp_value e d = Inr v \<longrightarrow> in_long v)"
  "(\<forall>d u v. in_long u \<longrightarrow> erest_value er d u = Inr v \<longrightarrow> in_long v)"
  by (induction f and a and tr and e and er)
    (auto simp: on_value_def split: sum.splits if_splits dest: fits_long_in bin_value_in, blast+)

lemma op_values:
  "in_long v \<Longrightarrow> c \<in> set ''*/%'' \<Longrightarrow> term_op c v w = bin_value c v w"
  "c \<in> set ''+-'' \<Longrightarrow> expr_op c v w = bin_value c v w"
  using term_op_value [of v c w] by (auto simp: in_long_def bin_value_def expr_op_def)

lemma errs:
  "fits_long r = Inl c \<Longrightarrow> c \<noteq> 0" "bin_value b v w = Inl c \<Longrightarrow> c \<noteq> 0"
  by (auto simp: fits_long_def bin_value_def calc_codes split: if_splits)

section \<open>Every text of the grammar is read as its value\<close>

text \<open>
  What may follow a phrase: the number before it must have ended, and the next character that is
  not white space must not continue its list of operators.
\<close>

abbreviation trim :: "string \<Rightarrow> string" where "trim \<equiv> dropWhile calc_space"

definition stops :: "string \<Rightarrow> string \<Rightarrow> bool" where
  "stops ops t \<longleftrightarrow> trim t = [] \<or> hd (trim t) \<notin> set ops"

definition follows :: "string \<Rightarrow> string \<Rightarrow> bool" where
  "follows ops t \<longleftrightarrow> (t = [] \<or> \<not> is_digit (hd t)) \<and> stops ops t"

text \<open>What a parser does on a phrase: the value and the rest, or its error.\<close>

definition run_ok :: "(int \<times> calc_parser) option \<Rightarrow> int + int \<Rightarrow> calc_parser \<Rightarrow> bool" where
  "run_ok r val ps = (case val of Inr v \<Rightarrow> r = Some (v, ps)
     | Inl c \<Rightarrow> c \<noteq> 0 \<and> (\<exists>v ps'. r = Some (v, ps') \<and> err ps' = c))"

lemma run_ok_simps:
  "run_ok r (Inl c) ps \<longleftrightarrow> c \<noteq> 0 \<and> (\<exists>v ps'. r = Some (v, ps') \<and> err ps' = c)"
  "run_ok r (Inr v) ps \<longleftrightarrow> r = Some (v, ps)"
  by (simp_all add: run_ok_def)

lemma skip_spaces: "inp ps = w @ t \<Longrightarrow> spaces w \<Longrightarrow> skip_ws ps = ps\<lparr>inp := trim t\<rparr>"
  by (simp add: skip_ws_def dropWhile_append list_all_iff)

lemma space_op: "c \<in> set ''+-*/%()'' \<Longrightarrow> \<not> calc_space c" "c \<in> set ''+-*/%()'' \<Longrightarrow> \<not> is_digit c"
  by (auto simp: calc_space_def is_digit_def)

lemma digit_space: "is_digit c \<Longrightarrow> \<not> calc_space c"
  by (auto simp: calc_space_def is_digit_def)

lemma space_digit: "calc_space c \<Longrightarrow> \<not> is_digit c"
  by (auto simp: calc_space_def is_digit_def)

lemma follows_op:
  assumes "spaces w" "c \<in> set ''+-*/%()''" "c \<notin> set ops"
  shows "follows ops (w @ c # t)"
  using assms space_op [of c] space_digit
  by (cases w) (auto simp: follows_def stops_def dropWhile_append list_all_iff)

lemma follows_mono: "follows ops t \<Longrightarrow> set ops' \<subseteq> set ops \<Longrightarrow> follows ops' t"
  by (auto simp: follows_def stops_def)

lemma follows_trest: "trest_ok r \<Longrightarrow> follows ''*/%'' t \<Longrightarrow> follows [] (trest_text r @ t)"
  by (cases r) (auto intro!: follows_op intro: follows_mono)

lemma follows_erest: "erest_ok r \<Longrightarrow> follows ''*/%+-'' t \<Longrightarrow> follows ''*/%'' (erest_text r @ t)"
  by (cases r) (auto intro!: follows_op intro: follows_mono)

text \<open>The loops, one step.\<close>

lemma stops_peek: "stops ops (inp ps) \<Longrightarrow> CHR 0x00 \<notin> set ops \<Longrightarrow> peek (skip_ws ps) \<notin> set ops"
  by (cases "trim (inp ps)") (simp_all add: stops_def peek_def skip_ws_def del: dropWhile_eq_Nil_conv)

lemma term_loop_stop:
  assumes "err ps = 0" "stops ''*/%'' (inp ps)"
  shows "term_loop (Suc n) v ps = Some (v, skip_ws ps)"
  using assms(1) stops_peek [OF assms(2)] by (simp add: Let_def)

lemma expr_loop_stop:
  assumes "err ps = 0" "stops ''+-'' (inp ps)"
  shows "expr_loop (Suc n) v ps = Some (v, skip_ws ps)"
  using assms(1) stops_peek [OF assms(2)] by (simp add: Let_def)

lemma term_loop_op:
  assumes "err ps = 0" "inp ps = w @ c # t" "spaces w" "c \<in> set ''*/%''"
  shows "term_loop (Suc n) v ps = (case parse_factor n (ps\<lparr>inp := t\<rparr>) of None \<Rightarrow> None
     | Some (rhs, ps) \<Rightarrow> if err ps \<noteq> 0 then Some (0, ps)
         else case term_op c v rhs of Inl e \<Rightarrow> Some (0, ps\<lparr>err := e\<rparr>) | Inr r \<Rightarrow> term_loop n r ps)"
proof -
  have s: "skip_ws ps = ps\<lparr>inp := c # t\<rparr>"
    using skip_spaces [OF assms(2,3)] space_op(1) [of c] assms(4) by auto
  have a: "peek (ps\<lparr>inp := c # t\<rparr>) = c" "advance (ps\<lparr>inp := c # t\<rparr>) = ps\<lparr>inp := t\<rparr>"
    by (simp_all add: peek_def advance_def)
  have c: "(c \<noteq> CHR ''*'' \<and> c \<noteq> CHR ''/'' \<and> c \<noteq> CHR ''%'') = False" using assms(4) by auto
  show ?thesis unfolding term_loop.simps Let_def s a c using assms(1) by (simp del: term_loop.simps)
qed

lemma expr_loop_op:
  assumes "err ps = 0" "inp ps = w @ c # t" "spaces w" "c \<in> set ''+-''"
  shows "expr_loop (Suc n) v ps = (case parse_term n (ps\<lparr>inp := t\<rparr>) of None \<Rightarrow> None
     | Some (rhs, ps) \<Rightarrow> if err ps \<noteq> 0 then Some (0, ps)
         else case expr_op c v rhs of Inl e \<Rightarrow> Some (0, ps\<lparr>err := e\<rparr>) | Inr r \<Rightarrow> expr_loop n r ps)"
proof -
  have s: "skip_ws ps = ps\<lparr>inp := c # t\<rparr>"
    using skip_spaces [OF assms(2,3)] space_op(1) [of c] assms(4) by auto
  have a: "peek (ps\<lparr>inp := c # t\<rparr>) = c" "advance (ps\<lparr>inp := c # t\<rparr>) = ps\<lparr>inp := t\<rparr>"
    by (simp_all add: peek_def advance_def)
  have c: "(c \<noteq> CHR ''+'' \<and> c \<noteq> CHR ''-'') = False" using assms(4) by auto
  show ?thesis unfolding expr_loop.simps Let_def s a c using assms(1) by (simp del: expr_loop.simps)
qed

lemma loops_err:
  "err ps \<noteq> 0 \<Longrightarrow> term_loop (Suc n) v ps = Some (v, ps)"
  "err ps \<noteq> 0 \<Longrightarrow> expr_loop (Suc n) v ps = Some (v, ps)"
  by simp_all

lemma run_ok_cases:
  assumes "run_ok r val ps"
  obtains c v p where "val = Inl c" "r = Some (v, p)" "err p = c" "c \<noteq> 0"
    | v where "val = Inr v" "r = Some (v, ps)"
  using assms by (cases val) (auto simp: run_ok_def)

text \<open>The text of every phrase is read as its value, whatever may follow it.\<close>

lemma parse_num:
  assumes "fac_ok (FNum w ds)" "inp ps = fac_text (FNum w ds) @ t" "follows [] t" "err ps = 0"
  shows "run_ok (parse_factor (Suc n) ps) (fac_value (FNum w ds) (depth ps)) (ps\<lparr>inp := t\<rparr>)"
proof -
  obtain d ds' where ds: "ds = d # ds'" "is_digit d" using assms(1) by (cases ds) auto
  define q where "q = ps\<lparr>inp := ds @ t\<rparr>"
  have s: "skip_ws ps = q"
    using skip_spaces [of ps w "ds @ t"] assms(1,2) ds digit_space by (simp add: q_def)
  have p: "peek q = d" "depth q = depth ps" "err q = 0" "q\<lparr>inp := t\<rparr> = ps\<lparr>inp := t\<rparr>"
    using ds assms(4) by (simp_all add: q_def peek_def)
  have np: "d \<noteq> CHR ''(''" "d \<noteq> CHR ''-''" "d \<noteq> CHR ''+''" using ds(2) by (auto simp: is_digit_def)
  have run: "parse_factor (Suc n) ps =
      (if 64 \<le> depth ps then Some (0, q\<lparr>err := CALC_ERR_COMPLEX\<rparr>) else Some (parse_number q))"
    using p np by (simp add: s Let_def CALC_MAX_DEPTH_def)
  have ok: "ds \<noteq> []" "\<forall>d\<in>set ds. is_digit d" using assms(1) by (simp_all add: list_all_iff)
  have "t = [] \<or> \<not> is_digit (hd t)" using assms(3) by (simp add: follows_def)
  from parse_number_decimal [OF ok this _ p(3)] p(4) show ?thesis unfolding run
    by (auto simp: run_ok_def q_def calc_codes split: sum.splits dest: errs(1))
qed

lemma parse_sign:
  assumes ok: "fac_ok (FSign w c f)" and i: "inp ps = fac_text (FSign w c f) @ t" and e: "err ps = 0"
    and IH: "\<And>q. inp q = fac_text f @ t \<Longrightarrow> err q = 0 \<Longrightarrow>
      run_ok (parse_factor n q) (fac_value f (depth q)) (q\<lparr>inp := t\<rparr>)"
  shows "run_ok (parse_factor (Suc n) ps) (fac_value (FSign w c f) (depth ps)) (ps\<lparr>inp := t\<rparr>)"
proof -
  define q where "q = ps\<lparr>inp := c # fac_text f @ t\<rparr>"
  have c: "c = CHR ''+'' \<or> c = CHR ''-''" using ok by auto
  have s: "skip_ws ps = q" using skip_spaces [of ps w "c # fac_text f @ t"] ok i space_op(1) [of c]
    by (auto simp: q_def)
  have p: "peek q = c" "depth q = depth ps" "err q = 0" "leave ((enter q)\<lparr>inp := t\<rparr>) = ps\<lparr>inp := t\<rparr>"
    using e by (simp_all add: q_def peek_def leave_def enter_def advance_def)
  have run: "parse_factor (Suc n) ps =
      (if 64 \<le> depth ps then Some (0, q\<lparr>err := CALC_ERR_COMPLEX\<rparr>)
       else case parse_factor n (enter q) of None \<Rightarrow> None
        | Some (v, ps2) \<Rightarrow> Some (factor_sign c v (leave ps2)))"
    using p c by (auto simp: s Let_def CALC_MAX_DEPTH_def)
  have "run_ok (parse_factor n (enter q)) (fac_value f (Suc (depth ps))) ((enter q)\<lparr>inp := t\<rparr>)"
    using IH [of "enter q"] e by (simp add: q_def)
  then show ?thesis unfolding run using p(3,4) e c
    by (elim run_ok_cases)
      (auto simp: run_ok_def factor_sign_def calc_codes split: sum.splits dest: errs(1))
qed

lemma parse_paren:
  assumes ok: "fac_ok (FPar w x w')" and i: "inp ps = fac_text (FPar w x w') @ t" and e: "err ps = 0"
    and IH: "\<And>q. inp q = exp_text x @ w' @ CHR '')'' # t \<Longrightarrow> err q = 0 \<Longrightarrow>
      run_ok (parse_expr n q) (exp_value x (depth q)) (q\<lparr>inp := CHR '')'' # t\<rparr>)"
  shows "run_ok (parse_factor (Suc n) ps) (fac_value (FPar w x w') (depth ps)) (ps\<lparr>inp := t\<rparr>)"
proof -
  define q where "q = ps\<lparr>inp := CHR ''('' # exp_text x @ w' @ CHR '')'' # t\<rparr>"
  have s: "skip_ws ps = q" using skip_spaces [of ps w "CHR ''('' # exp_text x @ w' @ CHR '')'' # t"] ok i
    by (simp add: q_def calc_space_def)
  have p: "peek q = CHR ''(''" "depth q = depth ps" "err q = 0"
    using e by (simp_all add: q_def peek_def)
  define z where "z = leave ((enter q)\<lparr>inp := CHR '')'' # t\<rparr>)"
  have z: "err z = 0" "skip_ws z = z" "peek z = CHR '')''" "advance z = ps\<lparr>inp := t\<rparr>"
    using e by (simp_all add: z_def q_def peek_def leave_def enter_def advance_def skip_ws_def calc_space_def)
  have run: "parse_factor (Suc n) ps =
      (if 64 \<le> depth ps then Some (0, q\<lparr>err := CALC_ERR_COMPLEX\<rparr>)
       else case parse_expr n (enter q) of None \<Rightarrow> None
        | Some (v, ps2) \<Rightarrow> Some (factor_close v (leave ps2)))"
    using p by (simp add: s Let_def CALC_MAX_DEPTH_def)
  have "run_ok (parse_expr n (enter q)) (exp_value x (Suc (depth ps))) ((enter q)\<lparr>inp := CHR '')'' # t\<rparr>)"
    using IH [of "enter q"] e by (simp add: q_def)
  then show ?thesis unfolding run using z p(3)
    by (elim run_ok_cases) (auto simp: run_ok_def factor_close_def calc_codes z_def [symmetric])
qed

lemma parse_trm:
  assumes e: "err ps = 0"
    and F: "run_ok (parse_factor (Suc n) ps) (fac_value f (depth ps)) (ps\<lparr>inp := trest_text r @ t\<rparr>)"
    and R: "\<And>v q. in_long v \<Longrightarrow> inp q = trest_text r @ t \<Longrightarrow> err q = 0 \<Longrightarrow>
      run_ok (term_loop (Suc n) v q) (trest_value r (depth q) v) (q\<lparr>inp := trim t\<rparr>)"
  shows "run_ok (parse_term (Suc (Suc n)) ps) (trm_value (Trm f r) (depth ps)) (ps\<lparr>inp := trim t\<rparr>)"
  using F
proof (cases rule: run_ok_cases)
  case (1 c v p)
  then show ?thesis using loops_err(1) [of p n v] by (simp add: run_ok_simps del: term_loop.simps parse_factor.simps)
next
  case (2 v)
  have "in_long v" using values_in(1) 2 by blast
  from R [OF this, of "ps\<lparr>inp := trest_text r @ t\<rparr>"] 2 e show ?thesis
    by (simp del: term_loop.simps parse_factor.simps)
qed

lemma parse_trest:
  assumes v: "in_long v" and ok: "trest_ok (TOp w c f r)" and i: "inp ps = trest_text (TOp w c f r) @ t"
    and e: "err ps = 0"
    and F: "\<And>q. inp q = fac_text f @ trest_text r @ t \<Longrightarrow> err q = 0 \<Longrightarrow>
      run_ok (parse_factor (Suc n) q) (fac_value f (depth q)) (q\<lparr>inp := trest_text r @ t\<rparr>)"
    and R: "\<And>v q. in_long v \<Longrightarrow> inp q = trest_text r @ t \<Longrightarrow> err q = 0 \<Longrightarrow>
      run_ok (term_loop (Suc n) v q) (trest_value r (depth q) v) (q\<lparr>inp := trim t\<rparr>)"
  shows "run_ok (term_loop (Suc (Suc n)) v ps) (trest_value (TOp w c f r) (depth ps) v) (ps\<lparr>inp := trim t\<rparr>)"
proof -
  define q where "q = ps\<lparr>inp := fac_text f @ trest_text r @ t\<rparr>"
  have c: "spaces w" "c \<in> set ''*/%''" using ok by simp_all
  note run = term_loop_op [OF e _ c, of "fac_text f @ trest_text r @ t" "Suc n" v, folded q_def]
  have run: "term_loop (Suc (Suc n)) v ps = (case parse_factor (Suc n) q of None \<Rightarrow> None
     | Some (rhs, ps) \<Rightarrow> if err ps \<noteq> 0 then Some (0, ps)
         else case term_op c v rhs of Inl e \<Rightarrow> Some (0, ps\<lparr>err := e\<rparr>) | Inr r \<Rightarrow> term_loop (Suc n) r ps)"
    using run i by simp
  define q2 where "q2 = ps\<lparr>inp := trest_text r @ t\<rparr>"
  have q: "err q2 = 0" "depth q2 = depth ps" "inp q2 = trest_text r @ t" "q2\<lparr>inp := trim t\<rparr> = ps\<lparr>inp := trim t\<rparr>"
    using e by (simp_all add: q2_def)
  have "run_ok (parse_factor (Suc n) q) (fac_value f (depth ps)) q2"
    using F [of q] e by (simp add: q_def q2_def)
  then show ?thesis
  proof (cases rule: run_ok_cases)
    case (1 ec u p)
    then show ?thesis unfolding run by (simp add: run_ok_simps del: term_loop.simps parse_factor.simps)
  next
    case (2 u)
    show ?thesis
    proof (cases "bin_value c v u")
      case (Inl ec)
      then have "term_loop (Suc n) 0 (q2\<lparr>err := ec\<rparr>) = Some (0, q2\<lparr>err := ec\<rparr>)"
        using errs(2) loops_err(1) by simp
      with Inl 2 q show ?thesis unfolding run op_values(1) [OF v c(2)]
        by (simp add: run_ok_simps errs(2) [OF Inl] del: term_loop.simps parse_factor.simps)
    next
      case (Inr x)
      from R [OF bin_value_in [OF Inr v] q(3,1)] Inr 2 q show ?thesis unfolding run op_values(1) [OF v c(2)]
        by (simp del: term_loop.simps parse_factor.simps)
    qed
  qed
qed

lemma parse_exp:
  assumes e: "err ps = 0"
    and A: "run_ok (parse_term (Suc n) ps) (trm_value a (depth ps)) (ps\<lparr>inp := trim (erest_text r @ t)\<rparr>)"
    and R: "\<And>v q. in_long v \<Longrightarrow> inp q = trim (erest_text r @ t) \<Longrightarrow> err q = 0 \<Longrightarrow>
      run_ok (expr_loop (Suc n) v q) (erest_value r (depth q) v) (q\<lparr>inp := trim t\<rparr>)"
  shows "run_ok (parse_expr (Suc (Suc n)) ps) (exp_value (Exp a r) (depth ps)) (ps\<lparr>inp := trim t\<rparr>)"
  using A
proof (cases rule: run_ok_cases)
  case (1 c v p)
  then show ?thesis using loops_err(2) [of p n v] by (simp add: run_ok_simps del: expr_loop.simps parse_term.simps)
next
  case (2 v)
  have "in_long v" using values_in(2) 2 by blast
  from R [OF this, of "ps\<lparr>inp := trim (erest_text r @ t)\<rparr>"] 2 e show ?thesis
    by (simp del: expr_loop.simps parse_term.simps)
qed

lemma trim_erest: "erest_ok (EOp w c a r) \<Longrightarrow> trim (erest_text (EOp w c a r) @ t) = c # trm_text a @ erest_text r @ t"
  using space_op(1) [of c] by (auto simp: dropWhile_append list_all_iff)

lemma parse_erest:
  assumes v: "in_long v" and ok: "erest_ok (EOp w c a r)" and i: "inp ps = trim (erest_text (EOp w c a r) @ t)"
    and e: "err ps = 0"
    and A: "\<And>q. inp q = trm_text a @ erest_text r @ t \<Longrightarrow> err q = 0 \<Longrightarrow>
      run_ok (parse_term (Suc n) q) (trm_value a (depth q)) (q\<lparr>inp := trim (erest_text r @ t)\<rparr>)"
    and R: "\<And>v q. in_long v \<Longrightarrow> inp q = trim (erest_text r @ t) \<Longrightarrow> err q = 0 \<Longrightarrow>
      run_ok (expr_loop (Suc n) v q) (erest_value r (depth q) v) (q\<lparr>inp := trim t\<rparr>)"
  shows "run_ok (expr_loop (Suc (Suc n)) v ps) (erest_value (EOp w c a r) (depth ps) v) (ps\<lparr>inp := trim t\<rparr>)"
proof -
  define q where "q = ps\<lparr>inp := trm_text a @ erest_text r @ t\<rparr>"
  have c: "c \<in> set ''+-''" using ok by simp
  have i': "inp ps = [] @ c # trm_text a @ erest_text r @ t" using i trim_erest [OF ok] by simp
  have run: "expr_loop (Suc (Suc n)) v ps = (case parse_term (Suc n) q of None \<Rightarrow> None
     | Some (rhs, ps) \<Rightarrow> if err ps \<noteq> 0 then Some (0, ps)
         else case expr_op c v rhs of Inl e \<Rightarrow> Some (0, ps\<lparr>err := e\<rparr>) | Inr r \<Rightarrow> expr_loop (Suc n) r ps)"
    using expr_loop_op [OF e i' _ c, of "Suc n" v, folded q_def] by simp
  define q2 where "q2 = ps\<lparr>inp := trim (erest_text r @ t)\<rparr>"
  have q: "err q2 = 0" "depth q2 = depth ps" "inp q2 = trim (erest_text r @ t)"
    "q2\<lparr>inp := trim t\<rparr> = ps\<lparr>inp := trim t\<rparr>"
    using e by (simp_all add: q2_def)
  have "run_ok (parse_term (Suc n) q) (trm_value a (depth ps)) q2"
    using A [of q] e by (simp add: q_def q2_def)
  then show ?thesis
  proof (cases rule: run_ok_cases)
    case (1 ec u p)
    then show ?thesis unfolding run by (simp add: run_ok_simps del: expr_loop.simps parse_term.simps)
  next
    case (2 u)
    show ?thesis
    proof (cases "bin_value c v u")
      case (Inl ec)
      with 2 q show ?thesis unfolding run op_values(2) [OF c]
        by (simp add: run_ok_simps errs(2) [OF Inl] del: expr_loop.simps parse_term.simps)
    next
      case (Inr x)
      from R [OF bin_value_in [OF Inr v] q(3,1)] Inr 2 q show ?thesis unfolding run op_values(2) [OF c]
        by (simp del: expr_loop.simps parse_term.simps)
    qed
  qed
qed

lemma fac_text_ne: "fac_ok f \<Longrightarrow> 0 < length (fac_text f)"
  by (cases f) auto

lemma stops_trim [simp]: "stops ops (trim t) = stops ops t"
  by (simp add: stops_def dropWhile_idem del: dropWhile_eq_Nil_conv)

lemma follows_stops: "follows ops t \<Longrightarrow> set ops' \<subseteq> set ops \<Longrightarrow> stops ops' t"
  by (auto simp: follows_def stops_def)

definition fac_reads :: "fac \<Rightarrow> bool" where
  "fac_reads f \<longleftrightarrow> (\<forall>ps t n. fac_ok f \<longrightarrow> inp ps = fac_text f @ t \<longrightarrow> follows [] t \<longrightarrow> err ps = 0 \<longrightarrow>
     3 * length (inp ps) + 1 \<le> n \<longrightarrow> run_ok (parse_factor n ps) (fac_value f (depth ps)) (ps\<lparr>inp := t\<rparr>))"

definition trm_reads :: "trm \<Rightarrow> bool" where
  "trm_reads a \<longleftrightarrow> (\<forall>ps t n. trm_ok a \<longrightarrow> inp ps = trm_text a @ t \<longrightarrow> follows ''*/%'' t \<longrightarrow> err ps = 0 \<longrightarrow>
     3 * length (inp ps) + 2 \<le> n \<longrightarrow> run_ok (parse_term n ps) (trm_value a (depth ps)) (ps\<lparr>inp := trim t\<rparr>))"

definition trest_reads :: "trest \<Rightarrow> bool" where
  "trest_reads r \<longleftrightarrow> (\<forall>v ps t n. in_long v \<longrightarrow> trest_ok r \<longrightarrow> inp ps = trest_text r @ t \<longrightarrow> follows ''*/%'' t \<longrightarrow>
     err ps = 0 \<longrightarrow> 3 * length (inp ps) + 1 \<le> n \<longrightarrow>
     run_ok (term_loop n v ps) (trest_value r (depth ps) v) (ps\<lparr>inp := trim t\<rparr>))"

definition exp_reads :: "exp \<Rightarrow> bool" where
  "exp_reads x \<longleftrightarrow> (\<forall>ps t n. exp_ok x \<longrightarrow> inp ps = exp_text x @ t \<longrightarrow> follows ''*/%+-'' t \<longrightarrow> err ps = 0 \<longrightarrow>
     3 * length (inp ps) + 3 \<le> n \<longrightarrow> run_ok (parse_expr n ps) (exp_value x (depth ps)) (ps\<lparr>inp := trim t\<rparr>))"

definition erest_reads :: "erest \<Rightarrow> bool" where
  "erest_reads r \<longleftrightarrow> (\<forall>v ps t n. in_long v \<longrightarrow> erest_ok r \<longrightarrow> inp ps = trim (erest_text r @ t) \<longrightarrow>
     follows ''*/%+-'' t \<longrightarrow> err ps = 0 \<longrightarrow> 3 * length (inp ps) + 2 \<le> n \<longrightarrow>
     run_ok (expr_loop n v ps) (erest_value r (depth ps) v) (ps\<lparr>inp := trim t\<rparr>))"

lemma reads_sign: "fac_reads f \<Longrightarrow> fac_reads (FSign w c f)"
  unfolding fac_reads_def
proof (intro allI impI)
  fix ps :: calc_parser and t n
  assume IH: "\<forall>ps t n. fac_ok f \<longrightarrow> inp ps = fac_text f @ t \<longrightarrow> follows [] t \<longrightarrow> err ps = 0 \<longrightarrow>
     3 * length (inp ps) + 1 \<le> n \<longrightarrow> run_ok (parse_factor n ps) (fac_value f (depth ps)) (ps\<lparr>inp := t\<rparr>)"
    and h: "fac_ok (FSign w c f)" "inp ps = fac_text (FSign w c f) @ t" "follows [] t" "err ps = 0"
    "3 * length (inp ps) + 1 \<le> n"
  obtain m where n: "n = Suc m" using h(5) by (cases n) auto
  show "run_ok (parse_factor n ps) (fac_value (FSign w c f) (depth ps)) (ps\<lparr>inp := t\<rparr>)"
    unfolding n by (rule parse_sign [OF h(1,2,4)]) (use IH h n in simp)
qed

lemma reads_paren: "exp_reads x \<Longrightarrow> fac_reads (FPar w x w')"
  unfolding fac_reads_def
proof (intro allI impI)
  fix ps :: calc_parser and t n
  assume IH: "exp_reads x"
    and h: "fac_ok (FPar w x w')" "inp ps = fac_text (FPar w x w') @ t" "follows [] t" "err ps = 0"
    "3 * length (inp ps) + 1 \<le> n"
  obtain m where n: "n = Suc m" using h(5) by (cases n) auto
  have fo: "follows ''*/%+-'' (w' @ CHR '')'' # t)" by (rule follows_op) (use h(1) in simp_all)
  have tr: "trim (w' @ CHR '')'' # t) = CHR '')'' # t"
    using h(1) by (simp add: dropWhile_append list_all_iff calc_space_def)
  have "run_ok (parse_expr m q) (exp_value x (depth q)) (q\<lparr>inp := CHR '')'' # t\<rparr>)"
    if "inp q = exp_text x @ w' @ CHR '')'' # t" "err q = 0" for q
    using IH [unfolded exp_reads_def, rule_format, OF _ that(1) fo that(2), of m, unfolded tr] h n that by simp
  then show "run_ok (parse_factor n ps) (fac_value (FPar w x w') (depth ps)) (ps\<lparr>inp := t\<rparr>)"
    unfolding n by (rule parse_paren [OF h(1,2,4)])
qed

lemma suc_suc:
  assumes "2 \<le> n"
  obtains m where "n = Suc (Suc m)"
  using assms by (cases n; cases "n - 1") auto

lemma reads_trm:
  assumes "fac_reads f" "trest_reads r"
  shows "trm_reads (Trm f r)"
  unfolding trm_reads_def
proof (intro allI impI)
  fix ps :: calc_parser and t n
  assume h: "trm_ok (Trm f r)" "inp ps = trm_text (Trm f r) @ t" "follows ''*/%'' t" "err ps = 0"
    "3 * length (inp ps) + 2 \<le> n"
  have ok: "fac_ok f" "trest_ok r" using h(1) by simp_all
  have "2 \<le> n" using h(5) by simp
  then obtain m where n: "n = Suc (Suc m)" by (rule suc_suc)
  have i: "inp ps = fac_text f @ trest_text r @ t" using h(2) by simp
  have F: "run_ok (parse_factor (Suc m) ps) (fac_value f (depth ps)) (ps\<lparr>inp := trest_text r @ t\<rparr>)"
    using assms(1) [unfolded fac_reads_def, rule_format, OF ok(1) i follows_trest [OF ok(2) h(3)] h(4), of "Suc m"]
      h(5) n by simp
  show "run_ok (parse_term n ps) (trm_value (Trm f r) (depth ps)) (ps\<lparr>inp := trim t\<rparr>)"
    unfolding n
  proof (rule parse_trm [OF h(4) F])
    fix v and q :: calc_parser assume q: "in_long v" "inp q = trest_text r @ t" "err q = 0"
    show "run_ok (term_loop (Suc m) v q) (trest_value r (depth q) v) (q\<lparr>inp := trim t\<rparr>)"
      using assms(2) [unfolded trest_reads_def, rule_format, OF q(1) ok(2) q(2) h(3) q(3), of "Suc m"]
        h(5) i q(2) n by simp
  qed
qed

lemma reads_trest:
  assumes "fac_reads f" "trest_reads r"
  shows "trest_reads (TOp w c f r)"
  unfolding trest_reads_def
proof (intro allI impI)
  fix v and ps :: calc_parser and t n
  assume h: "in_long v" "trest_ok (TOp w c f r)" "inp ps = trest_text (TOp w c f r) @ t" "follows ''*/%'' t"
    "err ps = 0" "3 * length (inp ps) + 1 \<le> n"
  have ok: "fac_ok f" "trest_ok r" using h(2) by simp_all
  have "2 \<le> n" using h(3,6) by simp
  then obtain m where n: "n = Suc (Suc m)" by (rule suc_suc)
  show "run_ok (term_loop n v ps) (trest_value (TOp w c f r) (depth ps) v) (ps\<lparr>inp := trim t\<rparr>)"
    unfolding n
  proof (rule parse_trest [OF h(1,2,3,5)])
    fix q :: calc_parser assume q: "inp q = fac_text f @ trest_text r @ t" "err q = 0"
    show "run_ok (parse_factor (Suc m) q) (fac_value f (depth q)) (q\<lparr>inp := trest_text r @ t\<rparr>)"
      using assms(1) [unfolded fac_reads_def, rule_format, OF ok(1) q(1) follows_trest [OF ok(2) h(4)] q(2), of "Suc m"]
        h(3,6) n q by simp
  next
    fix v and q :: calc_parser assume q: "in_long v" "inp q = trest_text r @ t" "err q = 0"
    show "run_ok (term_loop (Suc m) v q) (trest_value r (depth q) v) (q\<lparr>inp := trim t\<rparr>)"
      using assms(2) [unfolded trest_reads_def, rule_format, OF q(1) ok(2) q(2) h(4) q(3), of "Suc m"]
        h(3,6) q(2) n fac_text_ne [OF ok(1)] by simp
  qed
qed

lemma reads_exp:
  assumes "trm_reads a" "erest_reads r"
  shows "exp_reads (Exp a r)"
  unfolding exp_reads_def
proof (intro allI impI)
  fix ps :: calc_parser and t n
  assume h: "exp_ok (Exp a r)" "inp ps = exp_text (Exp a r) @ t" "follows ''*/%+-'' t" "err ps = 0"
    "3 * length (inp ps) + 3 \<le> n"
  have ok: "trm_ok a" "erest_ok r" using h(1) by simp_all
  have "2 \<le> n" using h(5) by simp
  then obtain m where n: "n = Suc (Suc m)" by (rule suc_suc)
  have i: "inp ps = trm_text a @ erest_text r @ t" using h(2) by simp
  have A: "run_ok (parse_term (Suc m) ps) (trm_value a (depth ps)) (ps\<lparr>inp := trim (erest_text r @ t)\<rparr>)"
    using assms(1) [unfolded trm_reads_def, rule_format, OF ok(1) i follows_erest [OF ok(2) h(3)] h(4), of "Suc m"]
      h(5) n by simp
  show "run_ok (parse_expr n ps) (exp_value (Exp a r) (depth ps)) (ps\<lparr>inp := trim t\<rparr>)"
    unfolding n
  proof (rule parse_exp [OF h(4) A])
    fix v and q :: calc_parser assume q: "in_long v" "inp q = trim (erest_text r @ t)" "err q = 0"
    have "length (inp q) \<le> length (inp ps)"
      using length_dropWhile_le [of calc_space "erest_text r @ t"] q(2) i by simp
    then show "run_ok (expr_loop (Suc m) v q) (erest_value r (depth q) v) (q\<lparr>inp := trim t\<rparr>)"
      using assms(2) [unfolded erest_reads_def, rule_format, OF q(1) ok(2) q(2) h(3) q(3), of "Suc m"]
        h(5) n by simp
  qed
qed

lemma reads_erest:
  assumes "trm_reads a" "erest_reads r"
  shows "erest_reads (EOp w c a r)"
  unfolding erest_reads_def
proof (intro allI impI)
  fix v and ps :: calc_parser and t n
  assume h: "in_long v" "erest_ok (EOp w c a r)" "inp ps = trim (erest_text (EOp w c a r) @ t)"
    "follows ''*/%+-'' t" "err ps = 0" "3 * length (inp ps) + 2 \<le> n"
  have ok: "trm_ok a" "erest_ok r" using h(2) by simp_all
  have i: "inp ps = c # trm_text a @ erest_text r @ t" using h(3) trim_erest [OF h(2)] by simp
  have "2 \<le> n" using h(6) by simp
  then obtain m where n: "n = Suc (Suc m)" by (rule suc_suc)
  show "run_ok (expr_loop n v ps) (erest_value (EOp w c a r) (depth ps) v) (ps\<lparr>inp := trim t\<rparr>)"
    unfolding n
  proof (rule parse_erest [OF h(1,2,3,5)])
    fix q :: calc_parser assume q: "inp q = trm_text a @ erest_text r @ t" "err q = 0"
    show "run_ok (parse_term (Suc m) q) (trm_value a (depth q)) (q\<lparr>inp := trim (erest_text r @ t)\<rparr>)"
      using assms(1) [unfolded trm_reads_def, rule_format, OF ok(1) q(1) follows_erest [OF ok(2) h(4)] q(2), of "Suc m"]
        h(6) n q i by simp
  next
    fix v and q :: calc_parser assume q: "in_long v" "inp q = trim (erest_text r @ t)" "err q = 0"
    have "length (inp q) < length (inp ps)"
      using length_dropWhile_le [of calc_space "erest_text r @ t"] q(2) i by simp
    then show "run_ok (expr_loop (Suc m) v q) (erest_value r (depth q) v) (q\<lparr>inp := trim t\<rparr>)"
      using assms(2) [unfolded erest_reads_def, rule_format, OF q(1) ok(2) q(2) h(4) q(3), of "Suc m"]
        h(6) n by simp
  qed
qed

lemma all_reads: "fac_reads f" "trm_reads a" "trest_reads tr" "exp_reads x" "erest_reads er"
proof (induction f and a and tr and x and er)
  case (FNum w ds)
  show ?case unfolding fac_reads_def
  proof (intro allI impI)
    fix ps :: calc_parser and t n
    assume h: "fac_ok (FNum w ds)" "inp ps = fac_text (FNum w ds) @ t" "follows [] t" "err ps = 0"
      "3 * length (inp ps) + 1 \<le> n"
    obtain m where n: "n = Suc m" using h(5) by (cases n) auto
    show "run_ok (parse_factor n ps) (fac_value (FNum w ds) (depth ps)) (ps\<lparr>inp := t\<rparr>)"
      unfolding n by (rule parse_num [OF h(1-4)])
  qed
next
  case TNil
  show ?case unfolding trest_reads_def
  proof (intro allI impI)
    fix v and ps :: calc_parser and t n
    assume h: "inp ps = trest_text TNil @ t" "follows ''*/%'' t" "err ps = 0" "3 * length (inp ps) + 1 \<le> n"
    obtain m where n: "n = Suc m" using h(4) by (cases n) auto
    from term_loop_stop [of ps m v] h follows_stops [OF h(2)]
    show "run_ok (term_loop n v ps) (trest_value TNil (depth ps) v) (ps\<lparr>inp := trim t\<rparr>)"
      by (simp add: n run_ok_simps skip_ws_def del: term_loop.simps)
  qed
next
  case ENil
  show ?case unfolding erest_reads_def
  proof (intro allI impI)
    fix v and ps :: calc_parser and t n
    assume h: "inp ps = trim (erest_text ENil @ t)" "follows ''*/%+-'' t" "err ps = 0" "3 * length (inp ps) + 2 \<le> n"
    obtain m where n: "n = Suc m" using h(4) by (cases n) auto
    from expr_loop_stop [of ps m v] h follows_stops [OF h(2), of "''+-''"]
    show "run_ok (expr_loop n v ps) (erest_value ENil (depth ps) v) (ps\<lparr>inp := trim t\<rparr>)"
      by (simp add: n run_ok_simps skip_ws_def dropWhile_idem del: expr_loop.simps)
  qed
qed (simp_all add: reads_sign reads_paren reads_trm reads_trest reads_exp reads_erest)

lemma calc_eval_text:
  assumes "exp_ok e" "spaces w"
  shows "calc_eval (Some (exp_text e @ w)) = Some (exp_value e 0)"
proof -
  define ps where "ps = \<lparr>inp = exp_text e @ w, depth = 0, err = CALC_OK\<rparr>"
  have tw: "trim w = []" using assms(2) by (simp add: list_all_iff)
  have fo: "follows ''*/%+-'' w"
    using assms(2) by (cases w) (auto simp: follows_def stops_def list_all_iff dest: space_digit)
  have "run_ok (parse_expr (3 * length (exp_text e @ w) + 3) ps) (exp_value e (depth ps)) (ps\<lparr>inp := trim w\<rparr>)"
    using all_reads(4) [of e, unfolded exp_reads_def, rule_format, OF assms(1) _ fo, of ps]
    by (simp add: ps_def CALC_OK_def)
  then show ?thesis
    by (cases rule: run_ok_cases)
      (auto simp: calc_eval_def ps_def [symmetric] tw, simp_all add: ps_def CALC_OK_def skip_ws_def peek_def)
qed

section \<open>Only texts of the grammar are read\<close>

text \<open>
  Whenever a parser ends without an error it has read a phrase, whose value it returns; by
  induction on the fuel, one lemma per parser.
\<close>

lemma skip_split: "\<exists>w. spaces w \<and> inp ps = w @ inp (skip_ws ps)"
  by (rule exI [of _ "takeWhile calc_space (inp ps)"])
    (auto simp: skip_ws_def list_all_iff dest: set_takeWhileD)

lemma peek_cons: "peek ps = c \<Longrightarrow> c \<noteq> CHR 0x00 \<Longrightarrow> inp ps = c # tl (inp ps)"
  by (cases "inp ps") (auto simp: peek_def)

lemma parse_number_sound:
  assumes "parse_number ps = (v, q)" "err q = 0" "err ps = 0"
  shows "\<exists>ds. ds \<noteq> [] \<and> list_all is_digit ds \<and> inp ps = ds @ inp q \<and> fits_long (decimal ds) = Inr v \<and>
    depth q = depth ps"
proof -
  define ds where "ds = takeWhile is_digit (inp ps)"
  define t where "t = dropWhile is_digit (inp ps)"
  have d: "is_digit (peek ps)"
    using assms by (auto simp: parse_number_def calc_codes split: if_splits)
  then have ne: "ds \<noteq> []" unfolding ds_def peek_def
    by (cases "inp ps") (simp_all add: is_digit_def)
  have all: "\<forall>d\<in>set ds. is_digit d" using set_takeWhileD by (fastforce simp: ds_def)
  have t: "t = [] \<or> \<not> is_digit (hd t)" using hd_dropWhile [of is_digit "inp ps"] by (auto simp: t_def)
  have i: "inp ps = ds @ t" by (simp add: ds_def t_def)
  from parse_number_decimal [OF ne all t i assms(3)] assms(1,2) errs(1) ne all i show ?thesis
    by (intro exI [of _ ds]) (auto simp: list_all_iff split: sum.splits)
qed

definition sound_fac where
  "sound_fac n \<longleftrightarrow> (\<forall>ps v q. parse_factor n ps = Some (v, q) \<longrightarrow> err q = 0 \<longrightarrow> err ps = 0 \<and> depth q = depth ps \<and>
     (\<exists>f. fac_ok f \<and> inp ps = fac_text f @ inp q \<and> fac_value f (depth ps) = Inr v))"

definition sound_trm where
  "sound_trm n \<longleftrightarrow> (\<forall>ps v q. parse_term n ps = Some (v, q) \<longrightarrow> err q = 0 \<longrightarrow> err ps = 0 \<and> depth q = depth ps \<and>
     (\<exists>a w. trm_ok a \<and> spaces w \<and> inp ps = trm_text a @ w @ inp q \<and> trm_value a (depth ps) = Inr v))"

definition sound_trest where
  "sound_trest n \<longleftrightarrow> (\<forall>ps u v q. in_long u \<longrightarrow> term_loop n u ps = Some (v, q) \<longrightarrow> err q = 0 \<longrightarrow>
     err ps = 0 \<and> depth q = depth ps \<and>
     (\<exists>r w. trest_ok r \<and> spaces w \<and> inp ps = trest_text r @ w @ inp q \<and> trest_value r (depth ps) u = Inr v))"

definition sound_exp where
  "sound_exp n \<longleftrightarrow> (\<forall>ps v q. parse_expr n ps = Some (v, q) \<longrightarrow> err q = 0 \<longrightarrow> err ps = 0 \<and> depth q = depth ps \<and>
     (\<exists>x w. exp_ok x \<and> spaces w \<and> inp ps = exp_text x @ w @ inp q \<and> exp_value x (depth ps) = Inr v))"

definition sound_erest where
  "sound_erest n \<longleftrightarrow> (\<forall>ps u v q z. in_long u \<longrightarrow> spaces z \<longrightarrow> expr_loop n u ps = Some (v, q) \<longrightarrow> err q = 0 \<longrightarrow>
     err ps = 0 \<and> depth q = depth ps \<and>
     (\<exists>r w. erest_ok r \<and> spaces w \<and> z @ inp ps = erest_text r @ w @ inp q \<and> erest_value r (depth ps) u = Inr v))"

lemma sound_fac_step:
  assumes "sound_fac n" "sound_exp n"
  shows "sound_fac (Suc n)"
  unfolding sound_fac_def
proof (intro allI impI)
  fix ps :: calc_parser and v q
  assume r: "parse_factor (Suc n) ps = Some (v, q)" and e: "err q = 0"
  obtain w where w: "spaces w" "inp ps = w @ inp (skip_ws ps)" using skip_split by blast
  define s where "s = skip_ws ps"
  have s: "depth s = depth ps" "err s = err ps" "inp ps = w @ inp s" by (simp_all add: s_def w)
  have e0: "err ps = 0" and dp: "\<not> 64 \<le> depth ps"
    using r e by (auto simp: Let_def CALC_MAX_DEPTH_def calc_codes split: if_splits)
  consider "peek s = CHR ''(''" | "peek s = CHR ''-'' \<or> peek s = CHR ''+''"
    | "peek s \<noteq> CHR ''(''" "peek s \<noteq> CHR ''-''" "peek s \<noteq> CHR ''+''" by blast
  then show "err ps = 0 \<and> depth q = depth ps \<and>
     (\<exists>f. fac_ok f \<and> inp ps = fac_text f @ inp q \<and> fac_value f (depth ps) = Inr v)"
  proof cases
    case 1
    with r e0 dp s obtain u p where p: "parse_expr n (enter s) = Some (u, p)" "factor_close u (leave p) = (v, q)"
      by (auto simp: Let_def s_def [symmetric] CALC_MAX_DEPTH_def split: option.splits)
    have c: "err p = 0" "u = v" "peek (skip_ws (leave p)) = CHR '')''" "q = advance (skip_ws (leave p))"
      using p(2) e by (auto simp: factor_close_def Let_def calc_codes split: if_splits)
    from assms(2) [unfolded sound_exp_def, rule_format, OF p(1) c(1)] obtain x z where
      x: "depth p = Suc (depth ps)" "exp_ok x" "spaces z" "inp (enter s) = exp_text x @ z @ inp p"
      "exp_value x (Suc (depth ps)) = Inr u" using s by auto
    obtain y where y: "spaces y" "inp (leave p) = y @ inp (skip_ws (leave p))" using skip_split by blast
    have "inp (skip_ws (leave p)) = CHR '')'' # inp q" using peek_cons [OF c(3)] c(4) by simp
    moreover have "inp s = CHR ''('' # inp (enter s)" using peek_cons [OF 1] by simp
    ultimately have "inp ps = fac_text (FPar w x (z @ y)) @ inp q" using s(3) x(4) y(2) by simp
    moreover have "depth q = depth ps" using c(4) x(1) by simp
    ultimately show ?thesis using e0 w(1) x y(1) dp c(2) by (intro conjI exI [of _ "FPar w x (z @ y)"]) auto
  next
    case 2
    with r e0 dp s obtain u p where p: "parse_factor n (enter s) = Some (u, p)"
      "factor_sign (peek s) u (leave p) = (v, q)"
      by (auto simp: Let_def s_def [symmetric] CALC_MAX_DEPTH_def split: option.splits)
    have c: "err p = 0" "(if peek s = CHR ''-'' then fits_long (- u) else Inr u) = Inr v" "q = leave p"
      using p(2) e 2 by (auto simp: factor_sign_def calc_codes split: if_splits sum.splits dest: errs(1))
    from assms(1) [unfolded sound_fac_def, rule_format, OF p(1) c(1)] obtain f where
      f: "depth p = Suc (depth ps)" "fac_ok f" "inp (enter s) = fac_text f @ inp p"
      "fac_value f (Suc (depth ps)) = Inr u" using s by auto
    have "inp s = peek s # inp (enter s)" using peek_cons [of s "peek s"] 2 by auto
    then have "inp ps = fac_text (FSign w (peek s) f) @ inp q" using s(3) f(3) c(3) by simp
    then show ?thesis using e0 w(1) 2 f dp c(2,3)
      by (intro conjI exI [of _ "FSign w (peek s) f"]) auto
  next
    case 3
    with r e0 dp s have p: "parse_number s = (v, q)"
      by (simp add: Let_def s_def [symmetric] CALC_MAX_DEPTH_def)
    from parse_number_sound [OF p e] s e0 obtain ds where "ds \<noteq> []" "list_all is_digit ds"
      "inp s = ds @ inp q" "fits_long (decimal ds) = Inr v" "depth q = depth s" by auto
    then show ?thesis using e0 w(1) dp s by (intro conjI exI [of _ "FNum w ds"]) auto
  qed
qed

lemma sound_trm_step:
  assumes "sound_fac n" "sound_trest n"
  shows "sound_trm (Suc n)"
  unfolding sound_trm_def
proof (intro allI impI)
  fix ps :: calc_parser and v q
  assume r: "parse_term (Suc n) ps = Some (v, q)" and e: "err q = 0"
  from r obtain u p where p: "parse_factor n ps = Some (u, p)" "term_loop n u p = Some (v, q)"
    by (auto split: option.splits)
  have "err p = 0" using p(2) e by (cases n) (auto split: if_splits)
  from assms(1) [unfolded sound_fac_def, rule_format, OF p(1) this] obtain f where
    f: "err ps = 0" "depth p = depth ps" "fac_ok f" "inp ps = fac_text f @ inp p" "fac_value f (depth ps) = Inr u"
    by blast
  have "in_long u" using values_in(1) f(5) by blast
  from assms(2) [unfolded sound_trest_def, rule_format, OF this p(2) e] obtain r w where
    "depth q = depth p" "trest_ok r" "spaces w" "inp p = trest_text r @ w @ inp q" "trest_value r (depth p) u = Inr v"
    by blast
  with f show "err ps = 0 \<and> depth q = depth ps \<and>
     (\<exists>a w. trm_ok a \<and> spaces w \<and> inp ps = trm_text a @ w @ inp q \<and> trm_value a (depth ps) = Inr v)"
    by (intro conjI exI [of _ "Trm f r"] exI [of _ w]) simp_all
qed

lemma sound_exp_step:
  assumes "sound_trm n" "sound_erest n"
  shows "sound_exp (Suc n)"
  unfolding sound_exp_def
proof (intro allI impI)
  fix ps :: calc_parser and v q
  assume r: "parse_expr (Suc n) ps = Some (v, q)" and e: "err q = 0"
  from r obtain u p where p: "parse_term n ps = Some (u, p)" "expr_loop n u p = Some (v, q)"
    by (auto split: option.splits)
  have "err p = 0" using p(2) e by (cases n) (auto split: if_splits)
  from assms(1) [unfolded sound_trm_def, rule_format, OF p(1) this] obtain a z where
    f: "err ps = 0" "depth p = depth ps" "trm_ok a" "spaces z" "inp ps = trm_text a @ z @ inp p"
    "trm_value a (depth ps) = Inr u" by blast
  have "in_long u" using values_in(2) f(6) by blast
  from assms(2) [unfolded sound_erest_def, rule_format, OF this f(4) p(2) e] obtain r w where
    "depth q = depth p" "erest_ok r" "spaces w" "z @ inp p = erest_text r @ w @ inp q"
    "erest_value r (depth p) u = Inr v"
    by blast
  with f show "err ps = 0 \<and> depth q = depth ps \<and>
     (\<exists>x w. exp_ok x \<and> spaces w \<and> inp ps = exp_text x @ w @ inp q \<and> exp_value x (depth ps) = Inr v)"
    by (intro conjI exI [of _ "Exp a r"] exI [of _ w]) simp_all
qed

lemma sound_trest_step:
  assumes "sound_fac n" "sound_trest n"
  shows "sound_trest (Suc n)"
  unfolding sound_trest_def
proof (intro allI impI)
  fix ps :: calc_parser and u v q
  assume u: "in_long u" and r: "term_loop (Suc n) u ps = Some (v, q)" and e: "err q = 0"
  obtain w where w: "spaces w" "inp ps = w @ inp (skip_ws ps)" using skip_split by blast
  define s where "s = skip_ws ps"
  have e0: "err ps = 0" using r e by (auto split: if_splits)
  have s: "depth s = depth ps" "err s = 0" "inp ps = w @ inp s" using e0 by (simp_all add: s_def w)
  show "err ps = 0 \<and> depth q = depth ps \<and>
     (\<exists>r w. trest_ok r \<and> spaces w \<and> inp ps = trest_text r @ w @ inp q \<and> trest_value r (depth ps) u = Inr v)"
  proof (cases "peek s \<in> set ''*/%''")
    case False
    then have "v = u" "q = s" using r e0 by (auto simp: Let_def s_def [symmetric])
    then show ?thesis using e0 s w(1) by (intro conjI exI [of _ TNil] exI [of _ w]) simp_all
  next
    case True
    with r e0 obtain x p y where p: "parse_factor n (advance s) = Some (x, p)" "err p = 0"
      "term_op (peek s) u x = Inr y" "term_loop n y p = Some (v, q)"
      using e by (auto simp: Let_def s_def [symmetric] calc_codes term_op_def fits_long_def
        split: option.splits if_splits sum.splits)
    from assms(1) [unfolded sound_fac_def, rule_format, OF p(1,2)] obtain f where
      f: "depth p = depth ps" "fac_ok f" "inp (advance s) = fac_text f @ inp p" "fac_value f (depth ps) = Inr x"
      using s by auto
    have y: "bin_value (peek s) u x = Inr y" using p(3) op_values(1) [OF u True] by simp
    from assms(2) [unfolded sound_trest_def, rule_format, OF bin_value_in [OF y u] p(4) e] obtain r z where
      z: "depth q = depth p" "trest_ok r" "spaces z" "inp p = trest_text r @ z @ inp q"
      "trest_value r (depth p) y = Inr v" by blast
    have "inp s = peek s # inp (advance s)" using peek_cons [of s "peek s"] True by auto
    then have "inp ps = trest_text (TOp w (peek s) f r) @ z @ inp q" using s(3) f(3) z(4) by simp
    then show ?thesis using e0 w(1) True f z y
      by (intro conjI exI [of _ "TOp w (peek s) f r"] exI [of _ z]) auto
  qed
qed

lemma sound_erest_step:
  assumes "sound_trm n" "sound_erest n"
  shows "sound_erest (Suc n)"
  unfolding sound_erest_def
proof (intro allI impI)
  fix ps :: calc_parser and u v q z
  assume u: "in_long u" and z: "spaces z" and r: "expr_loop (Suc n) u ps = Some (v, q)" and e: "err q = 0"
  obtain w where w: "spaces w" "inp ps = w @ inp (skip_ws ps)" using skip_split by blast
  define s where "s = skip_ws ps"
  have e0: "err ps = 0" using r e by (auto split: if_splits)
  have s: "depth s = depth ps" "err s = 0" "inp ps = w @ inp s" using e0 by (simp_all add: s_def w)
  show "err ps = 0 \<and> depth q = depth ps \<and>
     (\<exists>r w. erest_ok r \<and> spaces w \<and> z @ inp ps = erest_text r @ w @ inp q \<and> erest_value r (depth ps) u = Inr v)"
  proof (cases "peek s \<in> set ''+-''")
    case False
    then have "v = u" "q = s" using r e0 by (auto simp: Let_def s_def [symmetric])
    then show ?thesis using e0 s w(1) z by (intro conjI exI [of _ ENil] exI [of _ "z @ w"]) simp_all
  next
    case True
    with r e0 obtain x p y where p: "parse_term n (advance s) = Some (x, p)" "err p = 0"
      "expr_op (peek s) u x = Inr y" "expr_loop n y p = Some (v, q)"
      using e by (auto simp: Let_def s_def [symmetric] calc_codes expr_op_def fits_long_def
        split: option.splits if_splits sum.splits)
    from assms(1) [unfolded sound_trm_def, rule_format, OF p(1,2)] obtain a z' where
      f: "depth p = depth ps" "trm_ok a" "spaces z'" "inp (advance s) = trm_text a @ z' @ inp p"
      "trm_value a (depth ps) = Inr x"
      using s by auto
    have y: "bin_value (peek s) u x = Inr y" using p(3) op_values(2) [OF True] by simp
    from assms(2) [unfolded sound_erest_def, rule_format, OF bin_value_in [OF y u] f(3) p(4) e] obtain r z'' where
      z': "depth q = depth p" "erest_ok r" "spaces z''" "z' @ inp p = erest_text r @ z'' @ inp q"
      "erest_value r (depth p) y = Inr v" by blast
    have "inp s = peek s # inp (advance s)" using peek_cons [of s "peek s"] True by auto
    then have "z @ inp ps = erest_text (EOp (z @ w) (peek s) a r) @ z'' @ inp q" using s(3) f(4) z'(4) by simp
    then show ?thesis using e0 w(1) True f z' y z
      by (intro conjI exI [of _ "EOp (z @ w) (peek s) a r"] exI [of _ z'']) auto
  qed
qed

lemma all_sound: "sound_fac n \<and> sound_trm n \<and> sound_trest n \<and> sound_exp n \<and> sound_erest n"
proof (induction n)
  case 0
  show ?case by (simp add: sound_fac_def sound_trm_def sound_trest_def sound_exp_def sound_erest_def)
next
  case (Suc n)
  then show ?case
    by (simp add: sound_fac_step sound_trm_step sound_trest_step sound_exp_step sound_erest_step)
qed

lemma calc_eval_grammar:
  assumes "calc_eval (Some s) = Some (Inr v)" "CHR 0x00 \<notin> set s"
  shows "\<exists>e w. exp_ok e \<and> spaces w \<and> s = exp_text e @ w \<and> exp_value e 0 = Inr v"
proof -
  from assms(1) obtain q where q: "parse_expr (3 * length s + 3) \<lparr>inp = s, depth = 0, err = CALC_OK\<rparr> = Some (v, q)"
    "err q = 0" "peek (skip_ws q) = CHR 0x00"
    by (auto simp: calc_eval_def split: option.splits if_splits)
  have "sound_exp (3 * length s + 3)" using all_sound by blast
  from this [unfolded sound_exp_def, rule_format, OF q(1,2)] obtain e w where
    e: "exp_ok e" "spaces w" "s = exp_text e @ w @ inp q" "exp_value e 0 = Inr v" by auto
  obtain z where z: "spaces z" "inp q = z @ inp (skip_ws q)" using skip_split by blast
  have "set (inp (skip_ws q)) \<subseteq> set s" using e(3) z(2) by (metis Un_subset_iff set_append subset_refl)
  then have "inp (skip_ws q) = []" using q(3) assms(2) by (cases "inp (skip_ws q)") (auto simp: peek_def)
  then show ?thesis using e z by (intro exI [of _ e] exI [of _ "w @ z"]) simp
qed

text \<open>C25: The evaluator accepts the grammar and computes its value. On every string without a NUL
  \<open>calc_eval\<close> returns; if the string is an expression of the grammar, with white space anywhere
  between its symbols and at its end, the result is the value of that expression: products bind
  before sums, operators of equal rank apply from left to right, and the first overflow, division
  by zero or nesting below 64 levels is its error; and if the result is a value, the string is an
  expression of the grammar.\<close>

theorem calc_eval_correct:
  assumes "CHR 0x00 \<notin> set s"
  shows "\<exists>r. calc_eval (Some s) = Some r \<and>
     (\<forall>e w. exp_ok e \<and> spaces w \<and> s = exp_text e @ w \<longrightarrow> r = exp_value e 0) \<and>
     ((\<exists>v. r = Inr v) \<longrightarrow> (\<exists>e w. exp_ok e \<and> spaces w \<and> s = exp_text e @ w))"
proof -
  have "\<exists>v q. parse_expr (3 * length s + 3) \<lparr>inp = s, depth = 0, err = CALC_OK\<rparr> = Some (v, q)"
    using calc_total [of "3 * length s + 3"] by (metis calc_parser.select_convs(1) order_refl)
  then have "calc_eval (Some s) \<noteq> None" by (auto simp: calc_eval_def)
  then obtain r where r: "calc_eval (Some s) = Some r" by blast
  have "r = exp_value e 0" if "exp_ok e \<and> spaces w \<and> s = exp_text e @ w" for e w
    using calc_eval_text that r by auto
  moreover have "\<exists>e w. exp_ok e \<and> spaces w \<and> s = exp_text e @ w" if "r = Inr v" for v
    using calc_eval_grammar [OF _ assms] r that by blast
  ultimately show ?thesis using r by blast
qed

theorem calc_eval_correct_witness:
  "calc_eval (Some '' 5 + 6*-2 - 8/(3 -1) '') = Some (Inr (- 11))"
proof -
  let ?n = "\<lambda>w ds. Trm (FNum w ds) TNil"
  let ?e = "Exp (?n '' '' ''5'') (EOp '' '' CHR ''+''
     (Trm (FNum '' '' ''6'') (TOp [] CHR ''*'' (FSign [] CHR ''-'' (FNum [] ''2'')) TNil))
     (EOp '' '' CHR ''-'' (Trm (FNum '' '' ''8'') (TOp [] CHR ''/''
        (FPar [] (Exp (?n [] ''3'') (EOp '' '' CHR ''-'' (?n [] ''1'') ENil)) []) TNil)) ENil))"
  have ok: "exp_ok ?e" "spaces '' ''" by (simp_all add: calc_space_def is_digit_def)
  have tx: "'' 5 + 6*-2 - 8/(3 -1) '' = exp_text ?e @ '' ''" by simp
  have v: "exp_value ?e 0 = Inr (- 11)"
    by (simp add: decimal_def digit_val_def fits_long_def bin_value_def LONG_MIN_def LONG_MAX_def
        signed_divide_int_def)
  have "CHR 0x00 \<notin> set '' 5 + 6*-2 - 8/(3 -1) ''" by simp
  from calc_eval_correct [OF this] ok tx v show ?thesis by metis
qed

end
