(* ===== verification/Pur_Parse.thy ===== *)
theory Pur_Parse
  imports Prelude
begin

text \<open>
  The parser of the shell \<open>pur\<close>: its syntax tree pools (\<open>pur/src/ast.c\<close>) and its tokenizer and
  recursive descent parser (\<open>pur/src/parse.c\<close>).  The pools are lists with their capacities;
  \<open>answers\<close> holds the outcomes of the coming \<open>realloc\<close> calls (all succeed when it is used up).
  The parsers take a fuel that \<open>pur_total\<close> shows to be enough; \<open>None\<close> is running out of it.
  C does not check an access to a pool; the field \<open>in_range\<close> records whether every access of the
  current call was inside the memory the pool has (\<open>access\<close>).
\<close>

section \<open>Status codes, tokens and the tree\<close>

datatype pur_status = PUR_PARSE_OK | PUR_PARSE_EMPTY | PUR_PARSE_ERR_SYNTAX
  | PUR_PARSE_ERR_EMPTY_GROUP | PUR_PARSE_ERR_QUOTE | PUR_PARSE_ERR_NODES | PUR_PARSE_ERR_LEAVES
  | PUR_PARSE_ERR_ARGV | PUR_PARSE_ERR_COMPLEX | PUR_PARSE_ERR_MEMORY | PUR_PARSE_ERR_OPERATOR
  | PUR_PARSE_ERR_TRAILING_BG | PUR_PARSE_ERR_RESERVED | PUR_PARSE_ERR_EXPRS

datatype pur_op = PUR_OP_NONE | PUR_OP_AND | PUR_OP_OR | PUR_OP_BG

datatype pur_tok = PUR_T_END | PUR_T_WORD | PUR_T_LPAREN | PUR_T_RPAREN | PUR_T_SEMI | PUR_T_GT
  | PUR_T_AND | PUR_T_OR | PUR_T_BG | PUR_T_PIPE

datatype pur_kind = PUR_NODE_LEAF | PUR_NODE_GROUP | PUR_NODE_EXPR

record pur_token =
  ttype :: pur_tok
  toff :: nat
  tlen :: nat

record pur_node =
  kind :: pur_kind
  first :: nat
  count :: nat
  rhs :: nat

record pur_leaf =
  argv_first :: nat
  argc :: nat

definition PUR_AST_INIT :: nat where "PUR_AST_INIT = 64"
definition PUR_GROUP_INIT :: nat where "PUR_GROUP_INIT = 8"
definition PUR_MAX_LEAVES :: nat where "PUR_MAX_LEAVES = 16"
definition PUR_MAX_DEPTH :: nat where "PUR_MAX_DEPTH = 16"
definition PUR_MAX_ARGV :: nat where "PUR_MAX_ARGV = 32"
definition PUR_MAX_EXPRS :: nat where "PUR_MAX_EXPRS = 64"

record pur =
  line :: string
  toks :: "pur_token list"
  toks_cap :: nat
  pos :: nat
  expr_start :: "nat list"
  expr_op :: "pur_op list"
  nodes :: "pur_node list"
  nodes_cap :: nat
  leaves :: "pur_leaf list"
  argv_off :: "nat list"
  argv_cap :: nat
  member_pool :: "nat list"
  members_cap :: nat
  root :: nat
  answers :: "bool list"
  in_range :: bool

text \<open>An access that is inside its pool exactly if the condition holds.\<close>

definition access :: "bool \<Rightarrow> pur \<Rightarrow> pur" where
  "access b st = st\<lparr>in_range := in_range st \<and> b\<rparr>"

section \<open>The pools (ast.c)\<close>

text \<open>
  The doubling loop; 32 rounds are enough because its own overflow check stops it before.
  The result is the new capacity in elements of \<open>esz\<close> bytes.
\<close>

fun grow_want :: "nat \<Rightarrow> nat \<Rightarrow> nat \<Rightarrow> nat \<Rightarrow> nat option" where
  "grow_want 0 esz want need = None"
| "grow_want (Suc n) esz want need =
    (if \<not> want < need then Some want
     else if want > 4294967295 div 2 div esz then None
     else grow_want n esz (want * 2) need)"

definition pool_reserve :: "nat \<Rightarrow> nat \<Rightarrow> nat \<Rightarrow> nat \<Rightarrow> bool list \<Rightarrow> nat option \<times> bool list" where
  "pool_reserve init cap need esz as =
    (if need \<le> cap then (Some cap, as)
     else case grow_want 32 esz (if cap \<noteq> 0 then cap else init) need of None \<Rightarrow> (None, as)
     | Some want \<Rightarrow> (case as of [] \<Rightarrow> (Some want, [])
         | a # as \<Rightarrow> (if a then Some want else None, as)))"

text \<open>
  The pool of capacity \<open>cap\<close>, reserved to \<open>c\<close> elements of \<open>esz\<close> bytes, has room for \<open>used\<close> elements:
  the byte count passed to a \<open>realloc\<close> did not wrap.
\<close>

definition room_for :: "nat \<Rightarrow> nat \<Rightarrow> nat \<Rightarrow> nat \<Rightarrow> bool" where
  "room_for cap c esz used \<longleftrightarrow> used \<le> c \<and> (c = cap \<or> int c * int esz < 4294967296)"

definition pur_ast_reset :: "pur \<Rightarrow> pur" where
  "pur_ast_reset st = st\<lparr>nodes := [], leaves := [], argv_off := [], member_pool := [], root := 0\<rparr>"

definition pur_node_new :: "pur_kind \<Rightarrow> pur \<Rightarrow> nat option \<times> pur" where
  "pur_node_new k st =
    (case pool_reserve PUR_AST_INIT (nodes_cap st) (length (nodes st) + 1) 16 (answers st) of
       (None, as) \<Rightarrow> (None, st\<lparr>answers := as\<rparr>)
     | (Some c, as) \<Rightarrow> (Some (length (nodes st)),
         access (room_for (nodes_cap st) c 16 (length (nodes st) + 1))
           (st\<lparr>nodes := nodes st @ [\<lparr>kind = k, first = 0, count = 0, rhs = 0\<rparr>], nodes_cap := c, answers := as\<rparr>)))"

definition pur_leaf_new :: "nat \<Rightarrow> nat \<Rightarrow> pur \<Rightarrow> nat option \<times> pur" where
  "pur_leaf_new af n st =
    (if length (leaves st) \<ge> PUR_MAX_LEAVES then (None, st)
     else (Some (length (leaves st)), access (length (leaves st) < PUR_MAX_LEAVES)
            (st\<lparr>leaves := leaves st @ [\<lparr>argv_first = af, argc = n\<rparr>]\<rparr>)))"

definition pur_argv_push :: "nat \<Rightarrow> pur \<Rightarrow> nat option \<times> pur" where
  "pur_argv_push off st =
    (case pool_reserve PUR_AST_INIT (argv_cap st) (length (argv_off st) + 1) 4 (answers st) of
       (None, as) \<Rightarrow> (None, st\<lparr>answers := as\<rparr>)
     | (Some c, as) \<Rightarrow> (Some (length (argv_off st)),
         access (room_for (argv_cap st) c 4 (length (argv_off st) + 1))
           (st\<lparr>argv_off := argv_off st @ [off], argv_cap := c, answers := as\<rparr>)))"

definition pur_group_set :: "nat \<Rightarrow> nat list \<Rightarrow> pur \<Rightarrow> bool \<times> pur" where
  "pur_group_set g ms st =
    (case (if length ms > 0
           then pool_reserve PUR_AST_INIT (members_cap st) (length (member_pool st) + length ms) 4 (answers st)
           else (Some (members_cap st), answers st)) of
       (None, as) \<Rightarrow> (False, st\<lparr>answers := as\<rparr>)
     | (Some c, as) \<Rightarrow> (True,
         access (g < length (nodes st)
             \<and> (ms \<noteq> [] \<longrightarrow> room_for (members_cap st) c 4 (length (member_pool st) + length ms)))
           (st\<lparr>nodes := (nodes st)[g := (nodes st ! g)\<lparr>first := length (member_pool st), count := length ms\<rparr>],
              member_pool := member_pool st @ ms, members_cap := c, answers := as\<rparr>)))"

definition pur_node_is_leaf :: "pur \<Rightarrow> nat \<Rightarrow> bool" where
  "pur_node_is_leaf st n \<longleftrightarrow> kind (nodes st ! n) = PUR_NODE_LEAF"

definition pur_member :: "pur \<Rightarrow> nat \<Rightarrow> nat \<Rightarrow> nat" where
  "pur_member st g i = member_pool st ! (first (nodes st ! g) + i)"

section \<open>Tokens\<close>

definition pur_space :: "char \<Rightarrow> bool" where
  "pur_space c \<longleftrightarrow> c = CHR '' '' \<or> c = CHR 0x09 \<or> c = CHR 0x0A \<or> c = CHR 0x0D"

definition pur_delim :: "char \<Rightarrow> bool" where
  "pur_delim c \<longleftrightarrow> pur_space c \<or> c = CHR ''('' \<or> c = CHR '')'' \<or> c = CHR '';'' \<or> c = CHR ''>''
     \<or> c = CHR ''&'' \<or> c = CHR ''|'' \<or> c = CHR 0x22"

text \<open>The punctuation at the front of the input: its type and length.\<close>

definition pur_punct :: "char \<Rightarrow> string \<Rightarrow> (pur_tok \<times> nat) option" where
  "pur_punct c cs =
    (if c = CHR ''('' then Some (PUR_T_LPAREN, 1)
     else if c = CHR '')'' then Some (PUR_T_RPAREN, 1)
     else if c = CHR '';'' then Some (PUR_T_SEMI, 1)
     else if c = CHR ''>'' then Some (PUR_T_GT, 1)
     else if c = CHR ''&'' then
       (case cs of d # _ \<Rightarrow> if d = CHR ''&'' then Some (PUR_T_AND, 2) else Some (PUR_T_BG, 1)
        | [] \<Rightarrow> Some (PUR_T_BG, 1))
     else if c = CHR ''|'' then
       (case cs of d # _ \<Rightarrow> if d = CHR ''|'' then Some (PUR_T_OR, 2) else Some (PUR_T_PIPE, 1)
        | [] \<Rightarrow> Some (PUR_T_PIPE, 1))
     else None)"

text \<open>
  One token at offset \<open>off\<close> of the line (the input is not empty and starts with no space): the
  token and the number of characters it takes, or an unterminated quote.
\<close>

definition next_token :: "nat \<Rightarrow> char \<Rightarrow> string \<Rightarrow> (pur_token \<times> nat) option" where
  "next_token off c cs =
    (case pur_punct c cs of Some (t, n) \<Rightarrow> Some (\<lparr>ttype = t, toff = off, tlen = n\<rparr>, n)
     | None \<Rightarrow>
       if c = CHR 0x22 then
         (let w = takeWhile (\<lambda>d. d \<noteq> CHR 0x22) cs in
          if length w = length cs then None
          else Some (\<lparr>ttype = PUR_T_WORD, toff = off + 1, tlen = length w\<rparr>, length w + 2))
       else (let w = takeWhile (\<lambda>d. \<not> pur_delim d) (c # cs) in
          Some (\<lparr>ttype = PUR_T_WORD, toff = off, tlen = length w\<rparr>, length w)))"

definition toks_push :: "pur_token \<Rightarrow> pur \<Rightarrow> bool \<times> pur" where
  "toks_push t st =
    (case pool_reserve PUR_AST_INIT (toks_cap st) (length (toks st) + 1) 12 (answers st) of
       (None, as) \<Rightarrow> (False, st\<lparr>answers := as\<rparr>)
     | (Some c, as) \<Rightarrow> (True, access (room_for (toks_cap st) c 12 (length (toks st) + 1))
         (st\<lparr>toks := toks st @ [t], toks_cap := c, answers := as\<rparr>)))"

text \<open>The loop of \<open>tokenize\<close>; every token takes at least one character, so the input is fuel.\<close>

fun tokenize_loop :: "nat \<Rightarrow> nat \<Rightarrow> string \<Rightarrow> pur \<Rightarrow> (pur_status \<times> pur) option" where
  "tokenize_loop 0 off s st = None"
| "tokenize_loop (Suc fuel) off s st =
    (case s of
       [] \<Rightarrow> (case toks_push \<lparr>ttype = PUR_T_END, toff = 0, tlen = 0\<rparr> st of
                (ok, st) \<Rightarrow> Some (if ok then PUR_PARSE_OK else PUR_PARSE_ERR_MEMORY, st))
     | c # cs \<Rightarrow>
       if pur_space c then tokenize_loop fuel (off + 1) cs st
       else (case next_token off c cs of None \<Rightarrow> Some (PUR_PARSE_ERR_QUOTE, st)
         | Some (t, n) \<Rightarrow> (case toks_push t st of (ok, st) \<Rightarrow>
             if ok then tokenize_loop fuel (off + n) (drop n s) st
             else Some (PUR_PARSE_ERR_MEMORY, st))))"

definition tokenize :: "pur \<Rightarrow> (pur_status \<times> pur) option" where
  "tokenize st = tokenize_loop (length (line st) + 1) 0 (line st) (st\<lparr>toks := []\<rparr>)"

text \<open>
  Words are terminated in place.  The line is kept with its final NUL, so the write behind the
  last word is inside it.
\<close>

definition terminate_words :: "pur_token list \<Rightarrow> string \<Rightarrow> string" where
  "terminate_words ts s = fold (\<lambda>t s. if ttype t = PUR_T_WORD then s[toff t + tlen t := CHR 0x00] else s) ts s"

definition words_in_line :: "pur_token list \<Rightarrow> string \<Rightarrow> bool" where
  "words_in_line ts s \<longleftrightarrow> (\<forall>t\<in>set ts. ttype t = PUR_T_WORD \<longrightarrow> toff t + tlen t < length s)"

section \<open>The parser (parse.c)\<close>

text \<open>
  The token at \<open>pos\<close>.  The parser reads no other, so its reads are in the pool if \<open>pos\<close> is, which
  \<open>eat\<close> and the two places that set \<open>pos\<close> record.
\<close>

definition tok :: "pur \<Rightarrow> pur_tok" where "tok st = ttype (toks st ! pos st)"

definition at_token :: "nat \<Rightarrow> pur \<Rightarrow> pur" where
  "at_token p st = access (p < length (toks st)) (st\<lparr>pos := p\<rparr>)"

definition eat :: "pur \<Rightarrow> pur" where "eat st = at_token (pos st + 1) st"

type_synonym 'a parsed = "(pur_status + 'a) \<times> pur"

function leaf_loop :: "nat \<Rightarrow> pur \<Rightarrow> nat parsed" where
  "leaf_loop n st =
    (if tok st \<noteq> PUR_T_WORD then (Inr n, st)
     else if n \<ge> PUR_MAX_ARGV then (Inl PUR_PARSE_ERR_ARGV, st)
     else case pur_argv_push (toff (toks st ! pos st)) st of
       (None, st) \<Rightarrow> (Inl PUR_PARSE_ERR_ARGV, st)
     | (Some _, st) \<Rightarrow> leaf_loop (n + 1) (eat st))"
  by auto
termination by (relation "measure (\<lambda>(n, _). PUR_MAX_ARGV - n)") auto

declare leaf_loop.simps [simp del]

definition set_first :: "nat \<Rightarrow> nat \<Rightarrow> pur \<Rightarrow> pur" where
  "set_first n f st = access (n < length (nodes st)) (st\<lparr>nodes := (nodes st)[n := (nodes st ! n)\<lparr>first := f\<rparr>]\<rparr>)"

definition set_rhs :: "nat \<Rightarrow> nat \<Rightarrow> pur \<Rightarrow> pur" where
  "set_rhs n r st = access (n < length (nodes st)) (st\<lparr>nodes := (nodes st)[n := (nodes st ! n)\<lparr>rhs := r\<rparr>]\<rparr>)"

definition parse_leaf :: "pur \<Rightarrow> nat parsed" where
  "parse_leaf st0 =
    (case leaf_loop 0 st0 of
       (Inl e, st) \<Rightarrow> (Inl e, st)
     | (Inr n, st) \<Rightarrow> (case pur_leaf_new (length (argv_off st0)) n st of
         (None, st) \<Rightarrow> (Inl PUR_PARSE_ERR_LEAVES, st)
       | (Some leaf, st) \<Rightarrow> (case pur_node_new PUR_NODE_LEAF st of
           (None, st) \<Rightarrow> (Inl PUR_PARSE_ERR_NODES, st)
         | (Some n, st) \<Rightarrow> (Inr n, set_first n leaf st))))"

text \<open>The end of \<open>parse_group\<close>, once its members are parsed, and of a step of \<open>parse_expr\<close>.\<close>

definition group_close :: "nat list \<Rightarrow> pur \<Rightarrow> nat parsed" where
  "group_close ms st =
    (if tok st \<noteq> PUR_T_RPAREN then (Inl PUR_PARSE_ERR_SYNTAX, st)
     else (case pur_node_new PUR_NODE_GROUP (eat st) of
       (None, st) \<Rightarrow> (Inl PUR_PARSE_ERR_NODES, st)
     | (Some g, st) \<Rightarrow> (case pur_group_set g ms st of (ok, st) \<Rightarrow>
         if ok then (Inr (if length ms = 1 then ms ! 0 else g), st)
         else (Inl PUR_PARSE_ERR_NODES, st))))"

definition expr_node :: "nat \<Rightarrow> nat \<Rightarrow> pur \<Rightarrow> nat parsed" where
  "expr_node node r st =
    (case pur_node_new PUR_NODE_EXPR st of
       (None, st) \<Rightarrow> (Inl PUR_PARSE_ERR_NODES, st)
     | (Some e, st) \<Rightarrow> (Inr e, set_rhs e r (set_first e node st)))"

text \<open>\<open>members_reserve\<close>: the capacity of the members of one group.\<close>

definition members_reserve :: "nat \<Rightarrow> nat \<Rightarrow> pur \<Rightarrow> nat option \<times> pur" where
  "members_reserve cap need st =
    (case pool_reserve PUR_GROUP_INIT cap need 4 (answers st) of
       (None, as) \<Rightarrow> (None, st\<lparr>answers := as\<rparr>)
     | (Some c, as) \<Rightarrow> (Some c, access (c = cap \<or> int c * 4 < 4294967296) (st\<lparr>answers := as\<rparr>)))"

text \<open>Going on with the result of a parser: an error is passed on.\<close>

definition on_ok :: "'a parsed option \<Rightarrow> ('a \<Rightarrow> pur \<Rightarrow> 'b parsed option) \<Rightarrow> 'b parsed option" where
  "on_ok r f = (case r of None \<Rightarrow> None
     | Some (res, st) \<Rightarrow> (case res of Inl e \<Rightarrow> Some (Inl e, st) | Inr a \<Rightarrow> f a st))"

definition on_room :: "nat option \<times> pur \<Rightarrow> (nat \<Rightarrow> pur \<Rightarrow> 'b parsed option) \<Rightarrow> 'b parsed option" where
  "on_room r f = (case r of (None, st) \<Rightarrow> Some (Inl PUR_PARSE_ERR_MEMORY, st) | (Some c, st) \<Rightarrow> f c st)"

function (sequential) parse_operand :: "nat \<Rightarrow> nat \<Rightarrow> pur \<Rightarrow> nat parsed option"
  and parse_group :: "nat \<Rightarrow> nat \<Rightarrow> pur \<Rightarrow> nat parsed option"
  and group_loop :: "nat \<Rightarrow> nat \<Rightarrow> nat list \<Rightarrow> nat \<Rightarrow> pur \<Rightarrow> nat list parsed option"
  and parse_expr :: "nat \<Rightarrow> nat \<Rightarrow> pur \<Rightarrow> nat parsed option"
  and expr_loop :: "nat \<Rightarrow> nat \<Rightarrow> nat \<Rightarrow> nat \<Rightarrow> pur \<Rightarrow> nat parsed option" where
  "parse_operand 0 depth st = None"
| "parse_operand (Suc n) depth st =
    (if tok st = PUR_T_LPAREN then parse_group n depth st
     else if tok st = PUR_T_WORD then Some (parse_leaf st)
     else Some (Inl PUR_PARSE_ERR_SYNTAX, st))"
| "parse_group 0 depth st = None"
| "parse_group (Suc n) depth st =
    (if tok st \<noteq> PUR_T_LPAREN then Some (Inl PUR_PARSE_ERR_SYNTAX, st)
     else if depth \<ge> PUR_MAX_DEPTH then Some (Inl PUR_PARSE_ERR_COMPLEX, eat st)
     else if tok (eat st) = PUR_T_RPAREN then Some (Inl PUR_PARSE_ERR_EMPTY_GROUP, eat st)
     else on_ok (group_loop n depth [] 0 (eat st)) (\<lambda>ms st. Some (group_close ms st)))"
| "group_loop 0 depth ms cap st = None"
| "group_loop (Suc n) depth ms cap st0 =
    on_room (members_reserve cap (length ms + 1) st0) (\<lambda>cap st.
      on_ok (parse_expr n (depth + 1) (access (length ms < cap) st)) (\<lambda>m st.
        if tok st \<noteq> PUR_T_SEMI then Some (Inr (ms @ [m]), st)
        else if tok (eat st) = PUR_T_RPAREN then Some (Inr (ms @ [m]), eat st)
        else group_loop n depth (ms @ [m]) cap (eat st)))"
| "parse_expr 0 depth st = None"
| "parse_expr (Suc n) depth st0 =
    on_ok (parse_operand n depth st0) (\<lambda>node st. expr_loop n depth 0 node st)"
| "expr_loop 0 depth nfold node st = None"
| "expr_loop (Suc n) depth nfold node st0 =
    (if tok st0 \<noteq> PUR_T_GT then Some (Inr node, st0)
     else if depth + (nfold + 1) > PUR_MAX_DEPTH then Some (Inl PUR_PARSE_ERR_COMPLEX, st0)
     else if tok (eat st0) \<noteq> PUR_T_WORD \<and> tok (eat st0) \<noteq> PUR_T_LPAREN
     then Some (Inl PUR_PARSE_ERR_SYNTAX, eat st0)
     else on_ok (parse_operand n (depth + (nfold + 1)) (eat st0)) (\<lambda>r st.
       on_ok (Some (expr_node node r st)) (\<lambda>e st. expr_loop n depth (nfold + 1) e st)))"
  by pat_completeness auto

termination
  by (relation "measure (case_sum (case_sum fst fst) (case_sum fst (case_sum fst fst)))") simp_all

definition parse_fuel :: "pur \<Rightarrow> nat" where
  "parse_fuel st = 4 * length (toks st) + 4"

text \<open>
  The command level: the loop of \<open>pur_parse_command\<close>.  \<open>nexprs\<close> is the length of
  \<open>expr_start\<close>; its fuel counts expressions.
\<close>

definition op_of_tok :: "pur_tok \<Rightarrow> pur_status + pur_op" where
  "op_of_tok t =
    (if t = PUR_T_AND then Inr PUR_OP_AND
     else if t = PUR_T_OR then Inr PUR_OP_OR
     else if t = PUR_T_BG then Inr PUR_OP_BG
     else if t = PUR_T_END then Inr PUR_OP_NONE
     else if t = PUR_T_PIPE then Inl PUR_PARSE_ERR_RESERVED
     else Inl PUR_PARSE_ERR_SYNTAX)"

primrec command_loop :: "nat \<Rightarrow> pur \<Rightarrow> (pur_status \<times> pur) option" where
  "command_loop 0 st = None"
| "command_loop (Suc n) st =
    (if tok st = PUR_T_PIPE then Some (PUR_PARSE_ERR_RESERVED, st)
     else if tok st = PUR_T_AND \<or> tok st = PUR_T_OR \<or> tok st = PUR_T_BG
     then Some (PUR_PARSE_ERR_OPERATOR, st)
     else if tok st = PUR_T_END
     then Some (if expr_op st ! (length (expr_start st) - 1) = PUR_OP_BG
                then PUR_PARSE_ERR_TRAILING_BG else PUR_PARSE_ERR_OPERATOR,
                access (1 \<le> length (expr_start st) \<and> length (expr_start st) \<le> length (expr_op st)) st)
     else if length (expr_start st) \<ge> PUR_MAX_EXPRS then Some (PUR_PARSE_ERR_EXPRS, st)
     else (case parse_expr (parse_fuel st) 0
           (pur_ast_reset (access (length (expr_start st) < PUR_MAX_EXPRS) st)) of None \<Rightarrow> None
       | Some (Inl e, st2) \<Rightarrow> Some (e, st2)
       | Some (Inr r, st2) \<Rightarrow> (case op_of_tok (tok st2) of
           Inl e \<Rightarrow> Some (e, st2)
         | Inr op \<Rightarrow>
             let st3 = st2\<lparr>expr_start := expr_start st @ [pos st], expr_op := expr_op st @ [op]\<rparr> in
             if op = PUR_OP_NONE then Some (PUR_PARSE_OK, st3) else command_loop n (eat st3))))"

definition pur_parse_command :: "string \<Rightarrow> pur \<Rightarrow> (pur_status \<times> pur) option" where
  "pur_parse_command text st =
    (case tokenize (st\<lparr>line := text, in_range := True\<rparr>) of None \<Rightarrow> None
     | Some (rc, st) \<Rightarrow>
       if rc \<noteq> PUR_PARSE_OK then Some (rc, st)
       else let st = at_token 0 (access (words_in_line (toks st) (line st @ [CHR 0x00]))
               (st\<lparr>line := terminate_words (toks st) (line st @ [CHR 0x00]), expr_start := [], expr_op := []\<rparr>)) in
         if tok st = PUR_T_END then Some (PUR_PARSE_EMPTY, st)
         else command_loop (PUR_MAX_EXPRS + 1) st)"

definition pur_parse_nexprs :: "pur \<Rightarrow> nat" where
  "pur_parse_nexprs st = length (expr_start st)"

definition pur_parse_load :: "int \<Rightarrow> pur \<Rightarrow> (pur_status \<times> pur) option" where
  "pur_parse_load index st =
    (if index < 0 \<or> index \<ge> int (length (expr_start st)) then Some (PUR_PARSE_ERR_SYNTAX, st)
     else (case parse_expr (parse_fuel st) 0
           (at_token (expr_start st ! nat index) (pur_ast_reset (st\<lparr>in_range := True\<rparr>))) of
         None \<Rightarrow> None
       | Some (Inl e, st) \<Rightarrow> Some (e, st)
       | Some (Inr r, st) \<Rightarrow> Some (PUR_PARSE_OK, st\<lparr>root := r\<rparr>)))"

definition pur_parse_op :: "int \<Rightarrow> pur \<Rightarrow> pur_op" where
  "pur_parse_op index st =
    (if index < 0 \<or> index \<ge> int (length (expr_start st)) then PUR_OP_NONE else expr_op st ! nat index)"

definition pur_parse_op_str :: "pur_op \<Rightarrow> string" where
  "pur_parse_op_str op = (case op of PUR_OP_AND \<Rightarrow> ''&&'' | PUR_OP_OR \<Rightarrow> ''||'' | PUR_OP_BG \<Rightarrow> ''&''
     | PUR_OP_NONE \<Rightarrow> [])"

definition pur_op_should_run :: "pur_op \<Rightarrow> int \<Rightarrow> bool" where
  "pur_op_should_run op status =
    (case op of PUR_OP_AND \<Rightarrow> status = 0 | PUR_OP_OR \<Rightarrow> status \<noteq> 0 | _ \<Rightarrow> True)"

text \<open>\<open>pur_leaf_argv\<close>: the argument strings of a leaf, each up to its terminating NUL.\<close>

definition c_string :: "nat \<Rightarrow> string \<Rightarrow> string" where
  "c_string off s = takeWhile (\<lambda>c. c \<noteq> CHR 0x00) (drop off s)"

definition pur_leaf_argv :: "int \<Rightarrow> pur \<Rightarrow> string list option" where
  "pur_leaf_argv leaf st =
    (if leaf < 0 \<or> leaf \<ge> int (length (leaves st)) then None
     else let l = leaves st ! nat leaf in
       Some (map (\<lambda>i. c_string (argv_off st ! (argv_first l + i)) (line st)) [0..<argc l]))"

definition pur_parse_strerror :: "pur_status \<Rightarrow> string" where
  "pur_parse_strerror status = (case status of
      PUR_PARSE_OK \<Rightarrow> ''ok''
    | PUR_PARSE_EMPTY \<Rightarrow> ''empty''
    | PUR_PARSE_ERR_SYNTAX \<Rightarrow> ''syntax error''
    | PUR_PARSE_ERR_EMPTY_GROUP \<Rightarrow> ''an empty group has no leaves to wire''
    | PUR_PARSE_ERR_QUOTE \<Rightarrow> ''unterminated quote''
    | PUR_PARSE_ERR_NODES \<Rightarrow> ''statement too complex''
    | PUR_PARSE_ERR_LEAVES \<Rightarrow> ''too many commands in one statement''
    | PUR_PARSE_ERR_ARGV \<Rightarrow> ''too many arguments for one command''
    | PUR_PARSE_ERR_COMPLEX \<Rightarrow> ''statement too complex''
    | PUR_PARSE_ERR_MEMORY \<Rightarrow> ''out of memory''
    | PUR_PARSE_ERR_OPERATOR \<Rightarrow> ''syntax error: an operator joins two expressions''
    | PUR_PARSE_ERR_TRAILING_BG \<Rightarrow>
        ''syntax error: '' @ [CHR 0x27] @ ''&'' @ [CHR 0x27] @ '' backgrounding is not supported''
    | PUR_PARSE_ERR_RESERVED \<Rightarrow> ''syntax error: pur pipes with '' @ [CHR 0x27] @ ''>'' @ [CHR 0x27]
        @ '', not '' @ [CHR 0x27] @ ''|'' @ [CHR 0x27]
    | PUR_PARSE_ERR_EXPRS \<Rightarrow> ''too many expressions in one command'')"

section \<open>The tree is well formed\<close>

definition node_ok :: "nat \<Rightarrow> nat \<Rightarrow> nat list \<Rightarrow> pur_node \<Rightarrow> bool" where
  "node_ok i nl ms nd = (case kind nd of
      PUR_NODE_LEAF \<Rightarrow> first nd < nl
    | PUR_NODE_GROUP \<Rightarrow> first nd + count nd \<le> length ms \<and> (\<forall>j<count nd. ms ! (first nd + j) < i)
    | PUR_NODE_EXPR \<Rightarrow> first nd < i \<and> rhs nd < i)"

definition leaf_ok :: "nat \<Rightarrow> pur_leaf \<Rightarrow> bool" where
  "leaf_ok na l \<longleftrightarrow> argv_first l + argc l \<le> na \<and> 1 \<le> argc l \<and> argc l \<le> PUR_MAX_ARGV"

text \<open>
  Children come before their parents, so the tree has no cycle; leaves and argument lists are
  inside their pools and limits.
\<close>

definition ast_ok :: "pur \<Rightarrow> bool" where
  "ast_ok st \<longleftrightarrow> (\<forall>i<length (nodes st). node_ok i (length (leaves st)) (member_pool st) (nodes st ! i))
     \<and> length (leaves st) \<le> PUR_MAX_LEAVES \<and> (\<forall>l\<in>set (leaves st). leaf_ok (length (argv_off st)) l)"

definition toks_ok :: "pur_token list \<Rightarrow> bool" where
  "toks_ok ts \<longleftrightarrow> ts \<noteq> [] \<and> (\<forall>i<length ts. ttype (ts ! i) = PUR_T_END \<longleftrightarrow> i = length ts - 1)"

definition same_input :: "pur \<Rightarrow> pur \<Rightarrow> bool" where
  "same_input st0 st \<longleftrightarrow> toks st = toks st0 \<and> line st = line st0 \<and> expr_start st = expr_start st0
     \<and> expr_op st = expr_op st0"

text \<open>What a successful parser keeps, and what it promises of its result.\<close>

definition parsed_ok :: "pur \<Rightarrow> pur \<Rightarrow> bool" where
  "parsed_ok st0 st \<longleftrightarrow> same_input st0 st \<and> pos st0 \<le> pos st \<and> pos st < length (toks st) \<and> ast_ok st
     \<and> length (nodes st0) \<le> length (nodes st) \<and> (in_range st0 \<longrightarrow> in_range st)"

definition ready :: "pur \<Rightarrow> bool" where
  "ready st \<longleftrightarrow> toks_ok (toks st) \<and> pos st < length (toks st) \<and> ast_ok st"

lemma parsed_ok_trans: "parsed_ok a b \<Longrightarrow> parsed_ok b c \<Longrightarrow> parsed_ok a c"
  by (auto simp: parsed_ok_def same_input_def)

lemma parsed_ok_ready: "ready a \<Longrightarrow> parsed_ok a b \<Longrightarrow> ready b"
  by (auto simp: parsed_ok_def same_input_def ready_def)

lemma parsed_ok_refl: "ready a \<Longrightarrow> parsed_ok a a"
  by (auto simp: parsed_ok_def same_input_def ready_def)

lemma eat_parsed:
  assumes "ready st" "tok st \<noteq> PUR_T_END"
  shows "parsed_ok st (eat st)" and "ready (eat st)" and "pos (eat st) = pos st + 1"
proof -
  have "pos st \<noteq> length (toks st) - 1" using assms by (auto simp: ready_def toks_ok_def tok_def)
  then have "pos st + 1 < length (toks st)" using assms(1) by (auto simp: ready_def)
  then show "parsed_ok st (eat st)" using assms(1)
    by (auto simp: parsed_ok_def same_input_def ready_def eat_def at_token_def access_def ast_ok_def)
  then show "ready (eat st)" by (rule parsed_ok_ready [OF assms(1)])
qed (simp add: eat_def at_token_def access_def)

lemma eat_fields [simp]:
  "toks (eat st) = toks st" "nodes (eat st) = nodes st" "leaves (eat st) = leaves st"
  "argv_off (eat st) = argv_off st" "member_pool (eat st) = member_pool st" "expr_start (eat st) = expr_start st"
  "expr_op (eat st) = expr_op st" "line (eat st) = line st" "pos (eat st) = pos st + 1"
  by (simp_all add: eat_def at_token_def access_def)

lemma grow_want_enough: "grow_want n esz want need = Some w \<Longrightarrow> need \<le> w \<and> (w = want \<or> w * esz < 4294967296)"
proof (induction n arbitrary: want)
  case (Suc n)
  show ?case
  proof (cases "want < need")
    case True
    then have w: "\<not> want > 4294967295 div 2 div esz" "grow_want n esz (want * 2) need = Some w"
      using Suc.prems by (auto split: if_splits)
    have "want * esz * 2 \<le> 4294967295"
    proof -
      have "want * esz \<le> 4294967295 div 2 div esz * esz" using w(1) by (intro mult_le_mono1) simp
      also have "\<dots> \<le> 4294967295 div 2" by (rule div_times_less_eq_dividend)
      finally show ?thesis by simp
    qed
    then show ?thesis using Suc.IH [OF w(2)] by (auto simp: mult.commute mult.left_commute)
  qed (use Suc.prems in auto)
qed simp

lemma pool_reserve_room:
  assumes "pool_reserve init cap need esz as = (Some c, as')" "init * esz < 4294967296"
  shows "room_for cap c esz need"
proof -
  have "need \<le> c \<and> (c = cap \<or> c * esz < 4294967296)"
    using assms grow_want_enough [of 32 esz "if cap \<noteq> 0 then cap else init" need c]
    by (auto simp: pool_reserve_def split: if_splits option.splits list.splits)
  moreover have "int c * int esz < 4294967296 \<longleftrightarrow> c * esz < 4294967296"
    by (metis of_nat_less_iff of_nat_mult of_nat_numeral)
  ultimately show ?thesis by (simp add: room_for_def)
qed

lemmas pool_inits = PUR_AST_INIT_def PUR_GROUP_INIT_def

lemma access_in_range: "in_range st \<Longrightarrow> b \<Longrightarrow> in_range (access b st)"
  by (simp add: access_def)

lemma access_fields [simp]:
  "toks (access b st) = toks st" "nodes (access b st) = nodes st" "leaves (access b st) = leaves st"
  "argv_off (access b st) = argv_off st" "member_pool (access b st) = member_pool st"
  "expr_start (access b st) = expr_start st" "expr_op (access b st) = expr_op st" "line (access b st) = line st"
  "pos (access b st) = pos st" "nodes_cap (access b st) = nodes_cap st" "argv_cap (access b st) = argv_cap st"
  "members_cap (access b st) = members_cap st" "answers (access b st) = answers st"
  by (simp_all add: access_def)

lemma access_true [simp]: "access True st = st"
  by (simp add: access_def)

lemma pool_room [simp]:
  "pool_reserve PUR_AST_INIT cap need 16 as = (Some c, as') \<Longrightarrow> room_for cap c 16 need"
  "pool_reserve PUR_AST_INIT cap need 12 as = (Some c, as') \<Longrightarrow> room_for cap c 12 need"
  "pool_reserve PUR_AST_INIT cap need 4 as = (Some c, as') \<Longrightarrow> room_for cap c 4 need"
  "pool_reserve PUR_GROUP_INIT cap need 4 as = (Some c, as') \<Longrightarrow> room_for cap c 4 need"
  by (auto intro!: pool_reserve_room simp: pool_inits)

text \<open>Every operation on the pools stays inside them.\<close>

lemma node_new_range: "in_range st \<Longrightarrow> pur_node_new k st = (r, st') \<Longrightarrow> in_range st'"
  by (auto simp: pur_node_new_def access_def split: prod.splits option.splits)

lemma leaf_new_range: "in_range st \<Longrightarrow> pur_leaf_new a n st = (r, st') \<Longrightarrow> in_range st'"
  by (auto simp: pur_leaf_new_def access_def split: if_splits)

lemma argv_push_range: "in_range st \<Longrightarrow> pur_argv_push a st = (r, st') \<Longrightarrow> in_range st'"
  by (auto simp: pur_argv_push_def access_def split: prod.splits option.splits)

lemma toks_push_range: "in_range st \<Longrightarrow> toks_push t st = (r, st') \<Longrightarrow> in_range st'"
  by (auto simp: toks_push_def access_def split: prod.splits option.splits)

lemma group_set_range: "in_range st \<Longrightarrow> g < length (nodes st) \<Longrightarrow> pur_group_set g ms st = (r, st') \<Longrightarrow> in_range st'"
  by (auto simp: pur_group_set_def access_def split: prod.splits option.splits if_splits)

lemma members_reserve_range:
  "in_range st \<Longrightarrow> members_reserve cap need st = (r, st') \<Longrightarrow> in_range st'"
  "members_reserve cap need st = (Some c, st') \<Longrightarrow> need \<le> c"
  using pool_room(4)
  by (auto simp: members_reserve_def access_def room_for_def split: prod.splits option.splits)

lemma eat_range: "ready st \<Longrightarrow> tok st \<noteq> PUR_T_END \<Longrightarrow> in_range st \<Longrightarrow> in_range (eat st)"
  using eat_parsed(1) [of st] by (simp add: parsed_ok_def)

lemma ast_ok_cong:
  "nodes st' = nodes st \<Longrightarrow> leaves st' = leaves st \<Longrightarrow> argv_off st' = argv_off st
   \<Longrightarrow> member_pool st' = member_pool st \<Longrightarrow> ast_ok st' = ast_ok st"
  by (simp add: ast_ok_def)

lemma pur_argv_push_ok:
  assumes "ready st" "pur_argv_push off st = (Some i, st')"
  shows "parsed_ok st st' \<and> ready st' \<and> pos st' = pos st \<and> length (argv_off st') = length (argv_off st) + 1
    \<and> leaves st' = leaves st \<and> nodes st' = nodes st"
proof -
  have f: "toks st' = toks st" "line st' = line st" "expr_start st' = expr_start st" "expr_op st' = expr_op st"
    "pos st' = pos st" "nodes st' = nodes st" "leaves st' = leaves st" "member_pool st' = member_pool st"
    "argv_off st' = argv_off st @ [off]"
    using assms(2) by (auto simp: pur_argv_push_def access_def split: prod.splits option.splits)
  moreover have "in_range st \<longrightarrow> in_range st'" using argv_push_range assms(2) by blast
  ultimately show ?thesis using assms(1)
    by (fastforce simp: ready_def parsed_ok_def same_input_def ast_ok_def leaf_ok_def)
qed

lemma leaf_loop_ok:
  "ready st \<Longrightarrow> n \<le> PUR_MAX_ARGV \<Longrightarrow> leaf_loop n st = (Inr m, st')
   \<Longrightarrow> parsed_ok st st' \<and> n \<le> m \<and> m \<le> PUR_MAX_ARGV \<and> pos st' = pos st + (m - n)
     \<and> length (argv_off st') = length (argv_off st) + (m - n) \<and> leaves st' = leaves st
     \<and> (tok st = PUR_T_WORD \<longrightarrow> n < m)"
proof (induction n st rule: leaf_loop.induct)
  case (1 n st)
  show ?case
  proof (cases "tok st = PUR_T_WORD")
    case False
    then show ?thesis using 1 by (simp add: leaf_loop.simps [of n] parsed_ok_refl)
  next
    case True
    then have n: "n < PUR_MAX_ARGV" using 1 by (auto simp: leaf_loop.simps [of n] split: if_splits)
    obtain r s1 where p: "pur_argv_push (toff (toks st ! pos st)) st = (r, s1)" by fastforce
    obtain i where r: "r = Some i" using 1(4) True n p by (cases r) (auto simp: leaf_loop.simps [of n])
    note ps = pur_argv_push_ok [OF 1(2) p [unfolded r]]
    have tk: "tok s1 = PUR_T_WORD" using ps True
      by (auto simp: tok_def parsed_ok_def same_input_def)
    have rs1: "ready s1" using ps by simp
    have "tok s1 \<noteq> PUR_T_END" using tk by simp
    note et = eat_parsed [OF rs1 this]
    have run: "leaf_loop (n + 1) (eat s1) = (Inr m, st')"
      using 1(4) True n p r by (simp add: leaf_loop.simps [of n])
    have "\<not> n \<ge> PUR_MAX_ARGV" "\<not> tok st \<noteq> PUR_T_WORD" using n True by simp_all
    from 1(1) [OF this(2,1) p [symmetric, unfolded r] refl et(2) _ run] n
    have IH: "parsed_ok (eat s1) st' \<and> n + 1 \<le> m \<and> m \<le> PUR_MAX_ARGV \<and> pos st' = pos (eat s1) + (m - (n + 1))
     \<and> length (argv_off st') = length (argv_off (eat s1)) + (m - (n + 1)) \<and> leaves st' = leaves (eat s1)" by simp
    have "parsed_ok st st'"
      using parsed_ok_trans [OF _ parsed_ok_trans [OF et(1)]] ps IH by blast
    then show ?thesis using IH ps et(3) True by auto
  qed
qed

lemma pur_node_new_ok:
  assumes "pur_node_new k st = (Some n, st')"
  shows "n = length (nodes st) \<and> nodes st' = nodes st @ [\<lparr>kind = k, first = 0, count = 0, rhs = 0\<rparr>]
    \<and> same_input st st' \<and> pos st' = pos st \<and> leaves st' = leaves st \<and> argv_off st' = argv_off st
    \<and> member_pool st' = member_pool st \<and> (in_range st \<longrightarrow> in_range st')"
  using assms node_new_range [of st k "Some n" st']
  by (auto simp: pur_node_new_def same_input_def access_def split: prod.splits option.splits)

lemma ast_ok_add:
  assumes "ast_ok st" "nodes st' = nodes st @ [nd]" "leaves st' = leaves st @ ls"
    "argv_off st' = argv_off st" "member_pool st' = member_pool st @ ms"
    "node_ok (length (nodes st)) (length (leaves st')) (member_pool st') nd"
    "length (leaves st') \<le> PUR_MAX_LEAVES" "\<forall>l\<in>set ls. leaf_ok (length (argv_off st)) l"
  shows "ast_ok st'"
proof -
  have "node_ok i (length (leaves st')) (member_pool st') (nodes st' ! i)" if "i < length (nodes st')" for i
  proof (cases "i < length (nodes st)")
    case True
    then have "node_ok i (length (leaves st)) (member_pool st) (nodes st ! i)"
      using assms(1) by (simp add: ast_ok_def)
    then show ?thesis using True assms(2,3,5)
      by (auto simp: node_ok_def nth_append split: pur_kind.splits)
  next
    case False
    then have "i = length (nodes st)" using that assms(2) by simp
    then show ?thesis using assms(2,6) by (simp add: nth_append)
  qed
  then show ?thesis using assms(1,3,4,7,8) by (auto simp: ast_ok_def)
qed

lemma set_range:
  "in_range st \<Longrightarrow> n < length (nodes st) \<Longrightarrow> in_range (set_first n f st)"
  "in_range st \<Longrightarrow> n < length (nodes st) \<Longrightarrow> in_range (set_rhs n f st)"
  by (simp_all add: set_first_def set_rhs_def access_def)

lemma set_fields [simp]:
  "nodes (set_first n f st) = (nodes st)[n := (nodes st ! n)\<lparr>first := f\<rparr>]"
  "nodes (set_rhs n f st) = (nodes st)[n := (nodes st ! n)\<lparr>rhs := f\<rparr>]"
  by (simp_all add: set_first_def set_rhs_def)

lemma parse_leaf_ok:
  assumes rd: "ready st" and w: "tok st = PUR_T_WORD" and r: "parse_leaf st = (Inr n, st')"
  shows "parsed_ok st st' \<and> pos st < pos st' \<and> n < length (nodes st')"
proof -
  obtain res s1 where l: "leaf_loop 0 st = (res, s1)" by fastforce
  obtain m where m: "res = Inr m" using r l by (cases res) (auto simp: parse_leaf_def)
  note ll = leaf_loop_ok [OF rd _ l [unfolded m], simplified]
  obtain lf s2 where lf: "pur_leaf_new (length (argv_off st)) m s1 = (Some lf, s2)"
    using r l m by (cases "pur_leaf_new (length (argv_off st)) m s1") (auto simp: parse_leaf_def split: option.splits)
  then have lf2: "lf = length (leaves s1)" "length (leaves s1) < PUR_MAX_LEAVES"
    "s2 = s1\<lparr>leaves := leaves s1 @ [\<lparr>argv_first = length (argv_off st), argc = m\<rparr>]\<rparr>"
    by (auto simp: pur_leaf_new_def access_def split: if_splits)
  obtain k s3 where nd: "pur_node_new PUR_NODE_LEAF s2 = (Some k, s3)" "n = k" "st' = set_first k lf s3"
    using r l m lf by (cases "pur_node_new PUR_NODE_LEAF s2") (auto simp: parse_leaf_def split: option.splits)
  note nn = pur_node_new_ok [OF nd(1)]
  have nodes: "nodes st' = nodes s1 @ [\<lparr>kind = PUR_NODE_LEAF, first = lf, count = 0, rhs = 0\<rparr>]"
    using nn by (simp add: nd(3) set_first_def lf2(3))
  have rest: "leaves st' = leaves s1 @ [\<lparr>argv_first = length (argv_off st), argc = m\<rparr>]"
    "argv_off st' = argv_off s1" "member_pool st' = member_pool s1 @ []" "same_input s1 st'" "pos st' = pos s1"
    using nn by (simp_all add: nd(3) set_first_def lf2(3) same_input_def)
  have "ast_ok s1" using ll by (simp add: parsed_ok_def)
  then have "ast_ok st'"
    by (rule ast_ok_add [OF _ nodes rest(1,2,3)])
      (use lf2 ll w rest(1) in \<open>auto simp: node_ok_def leaf_ok_def\<close>)
  moreover have "length (nodes st') = length (nodes s1) + 1" "n = length (nodes s1)"
    using nodes nn nd(2) by (simp_all add: lf2(3))
  moreover have "in_range s1 \<longrightarrow> in_range st'"
    using leaf_new_range [OF _ lf] nn nd(2,3) nodes set_range(1) [of s3 k lf] by auto
  ultimately show ?thesis using ll rest w by (auto simp: parsed_ok_def same_input_def)
qed

lemma expr_node_ok:
  assumes rd: "ready st" and m: "node < length (nodes st)" "r < length (nodes st)"
    and e: "expr_node node r st = (Inr e, st')"
  shows "parsed_ok st st' \<and> e < length (nodes st') \<and> pos st' = pos st"
proof -
  obtain k s1 where nd: "pur_node_new PUR_NODE_EXPR st = (Some k, s1)" "e = k"
    "st' = set_rhs k r (set_first k node s1)"
    using e by (cases "pur_node_new PUR_NODE_EXPR st") (auto simp: expr_node_def split: option.splits)
  note nn = pur_node_new_ok [OF nd(1)]
  have nodes: "nodes st' = nodes st @ [\<lparr>kind = PUR_NODE_EXPR, first = node, count = 0, rhs = r\<rparr>]"
    using nn by (simp add: nd(3) set_first_def set_rhs_def)
  have rest: "leaves st' = leaves st @ []" "argv_off st' = argv_off st" "member_pool st' = member_pool st @ []"
    "same_input st st'" "pos st' = pos st"
    using nn by (simp_all add: nd(3) set_first_def set_rhs_def same_input_def)
  have "ast_ok st" using rd by (simp add: ready_def)
  then have "ast_ok st'"
    by (rule ast_ok_add [OF _ nodes rest(1,2,3)])
      (use m rd rest in \<open>auto simp: node_ok_def ready_def ast_ok_def\<close>)
  moreover have "in_range st \<longrightarrow> in_range st'"
    using nn nd(3) set_range(1) [of s1 k node] set_range(2) [of "set_first k node s1" k r] by simp
  ultimately show ?thesis using nodes rest nn nd(2) rd by (auto simp: parsed_ok_def same_input_def ready_def)
qed

lemma group_close_ok:
  assumes rd: "ready st" and ms: "ms \<noteq> []" "\<forall>m\<in>set ms. m < length (nodes st)"
    and r: "group_close ms st = (Inr n, st')"
  shows "parsed_ok st st' \<and> pos st < pos st' \<and> n < length (nodes st')"
proof -
  have tk: "tok st = PUR_T_RPAREN" using r by (auto simp: group_close_def split: if_splits)
  then have "tok st \<noteq> PUR_T_END" by simp
  note et = eat_parsed [OF rd this]
  obtain g s1 where nd: "pur_node_new PUR_NODE_GROUP (eat st) = (Some g, s1)"
    using r tk by (cases "pur_node_new PUR_NODE_GROUP (eat st)") (auto simp: group_close_def split: option.splits)
  note nn = pur_node_new_ok [OF nd]
  have gs: "pur_group_set g ms s1 = (True, st')" and n: "n = (if length ms = 1 then ms ! 0 else g)"
    using r tk nd by (auto simp: group_close_def split: prod.splits if_splits)
  have g: "g = length (nodes st)" using nn by simp
  have nodes: "nodes st' = nodes (eat st) @ [\<lparr>kind = PUR_NODE_GROUP, first = length (member_pool st), count = length ms, rhs = 0\<rparr>]"
    using gs nn by (auto simp: pur_group_set_def access_def split: prod.splits option.splits if_splits)
  have rest: "leaves st' = leaves (eat st) @ []" "argv_off st' = argv_off (eat st)"
    "member_pool st' = member_pool (eat st) @ ms" "same_input (eat st) st'" "pos st' = pos (eat st)"
    using gs nn by (auto simp: pur_group_set_def same_input_def access_def split: prod.splits option.splits if_splits)
  have ok: "ast_ok (eat st)" using et(2) by (simp add: ready_def)
  then have "ast_ok st'"
    by (rule ast_ok_add [OF _ nodes rest(1,2,3)])
      (use ms ok rest in \<open>auto simp: node_ok_def ast_ok_def nth_append\<close>)
  moreover have "n < length (nodes st')"
  proof (cases "length ms = 1")
    case True
    then have "ms ! 0 \<in> set ms" by (intro nth_mem) simp
    then have "ms ! 0 < length (nodes st)" using ms(2) by blast
    then show ?thesis using n nodes True by simp
  qed (simp add: n g nodes)
  moreover have "in_range (eat st) \<longrightarrow> in_range st'"
    using nn g group_set_range [OF _ _ gs] by simp
  ultimately have "parsed_ok (eat st) st'" using nodes rest et(2)
    by (auto simp: parsed_ok_def same_input_def ready_def)
  then show ?thesis using parsed_ok_trans [OF et(1)] et(3) \<open>n < length (nodes st')\<close> rest by simp
qed

lemma members_reserve_ok:
  "ready st \<Longrightarrow> members_reserve cap need st = (c, st') \<Longrightarrow> parsed_ok st st' \<and> pos st' = pos st \<and> ready st'"
  using members_reserve_range(1) [of st cap need c st']
  by (auto simp: members_reserve_def parsed_ok_def same_input_def ready_def ast_ok_def split: prod.splits option.splits)

text \<open>
  The outcome of a parser: it returns without an access outside a pool, and if it succeeds it has
  consumed at least \<open>k\<close> tokens and its result satisfies \<open>Q\<close>.
\<close>

definition outcome :: "pur \<Rightarrow> nat \<Rightarrow> ('a \<Rightarrow> pur \<Rightarrow> bool) \<Rightarrow> 'a parsed option \<Rightarrow> bool" where
  "outcome st0 k Q r \<longleftrightarrow> (\<exists>res st. r = Some (res, st)
     \<and> (\<forall>a. res = Inr a \<longrightarrow> parsed_ok st0 st \<and> pos st0 + k \<le> pos st \<and> Q a st)
     \<and> res \<noteq> Inl PUR_PARSE_OK \<and> (in_range st0 \<longrightarrow> in_range st))"

definition is_node :: "nat \<Rightarrow> pur \<Rightarrow> bool" where "is_node n st \<longleftrightarrow> n < length (nodes st)"

definition are_nodes :: "nat list \<Rightarrow> pur \<Rightarrow> bool" where
  "are_nodes ms st \<longleftrightarrow> ms \<noteq> [] \<and> (\<forall>m\<in>set ms. m < length (nodes st))"

lemma outcome_err [simp]: "outcome st0 k Q (Some (Inl e, st)) \<longleftrightarrow> e \<noteq> PUR_PARSE_OK \<and> (in_range st0 \<longrightarrow> in_range st)"
  by (auto simp: outcome_def)

lemma outcome_ok: "parsed_ok st0 st \<Longrightarrow> pos st0 + k \<le> pos st \<Longrightarrow> Q a st \<Longrightarrow> outcome st0 k Q (Some (Inr a, st))"
  by (auto simp: outcome_def parsed_ok_def)

lemma outcome_on_ok:
  assumes "outcome st0 k Q r" "\<And>a st. parsed_ok st0 st \<Longrightarrow> pos st0 + k \<le> pos st \<Longrightarrow> Q a st \<Longrightarrow> outcome st j P (f a st)"
  shows "outcome st0 (k + j) P (on_ok r f)"
proof -
  from assms(1) obtain res st where r: "r = Some (res, st)"
    "\<forall>a. res = Inr a \<longrightarrow> parsed_ok st0 st \<and> pos st0 + k \<le> pos st \<and> Q a st"
    "res \<noteq> Inl PUR_PARSE_OK" "in_range st0 \<longrightarrow> in_range st" by (auto simp: outcome_def)
  show ?thesis
  proof (cases res)
    case (Inr a)
    then have o1: "parsed_ok st0 st" "pos st0 + k \<le> pos st" "Q a st" using r(2) by auto
    from assms(2) [OF o1] obtain res2 st2 where f: "f a st = Some (res2, st2)"
      "\<forall>b. res2 = Inr b \<longrightarrow> parsed_ok st st2 \<and> pos st + j \<le> pos st2 \<and> P b st2"
      "res2 \<noteq> Inl PUR_PARSE_OK" "in_range st \<longrightarrow> in_range st2" by (auto simp: outcome_def)
    have "outcome st0 (k + j) P (f a st)"
      using f o1 r(4) parsed_ok_trans [OF o1(1)] by (auto simp: outcome_def)
    then show ?thesis by (simp add: on_ok_def r(1) Inr)
  qed (use r in \<open>auto simp: on_ok_def\<close>)
qed

lemma outcome_from:
  "parsed_ok st0 st \<Longrightarrow> pos st = pos st0 + j \<Longrightarrow> outcome st k Q r \<Longrightarrow> outcome st0 (j + k) Q r"
proof -
  assume a: "parsed_ok st0 st" "pos st = pos st0 + j" "outcome st k Q r"
  have "in_range st0 \<longrightarrow> in_range st" using a(1) by (simp add: parsed_ok_def)
  then show ?thesis using a(2,3) parsed_ok_trans [OF a(1)] by (fastforce simp: outcome_def)
qed

lemma outcome_weaken: "outcome st k Q r \<Longrightarrow> j \<le> k \<Longrightarrow> outcome st j Q r"
  by (fastforce simp: outcome_def)

definition todo :: "pur \<Rightarrow> nat" where "todo st = length (toks st) - pos st"

lemma todo_parsed: "ready st0 \<Longrightarrow> parsed_ok st0 st \<Longrightarrow> pos st0 + k \<le> pos st \<Longrightarrow> todo st + k \<le> todo st0"
  by (auto simp: todo_def ready_def parsed_ok_def same_input_def)

lemma is_node_mono: "is_node n st \<Longrightarrow> parsed_ok st st' \<Longrightarrow> is_node n st'"
  by (auto simp: is_node_def parsed_ok_def)

lemma outcome_some:
  "(\<And>n st'. r = (Inr n, st') \<Longrightarrow> parsed_ok st st' \<and> pos st + k \<le> pos st' \<and> Q n st')
   \<Longrightarrow> fst r \<noteq> Inl PUR_PARSE_OK \<Longrightarrow> (in_range st \<Longrightarrow> in_range (snd r)) \<Longrightarrow> outcome st k Q (Some r)"
  by (cases r) (auto simp: outcome_def)

lemma leaf_loop_err: "fst (leaf_loop n st) \<noteq> Inl PUR_PARSE_OK"
proof (induction n st rule: leaf_loop.induct)
  case (1 n st)
  then show ?case
    by (subst leaf_loop.simps) (auto split: prod.split option.split)
qed

lemma leaf_loop_range: "ready st \<Longrightarrow> in_range st \<Longrightarrow> in_range (snd (leaf_loop n st))"
proof (induction n st rule: leaf_loop.induct)
  case (1 n st)
  show ?case
  proof (cases "tok st \<noteq> PUR_T_WORD \<or> n \<ge> PUR_MAX_ARGV")
    case True
    then show ?thesis using 1(3) by (auto simp: leaf_loop.simps [of n])
  next
    case False
    obtain r s1 where p: "pur_argv_push (toff (toks st ! pos st)) st = (r, s1)" by fastforce
    have i1: "in_range s1" by (rule argv_push_range [OF 1(3) p])
    show ?thesis
    proof (cases r)
      case None
      then show ?thesis using False p i1 by (simp add: leaf_loop.simps [of n])
    next
      case (Some i)
      note ps = pur_argv_push_ok [OF 1(2) p [unfolded Some]]
      have "tok s1 \<noteq> PUR_T_END" using ps False by (auto simp: tok_def parsed_ok_def same_input_def)
      note et = eat_parsed [OF _ this]
      have "ready (eat s1)" "in_range (eat s1)" using et ps i1 by (auto simp: parsed_ok_def)
      from 1(1) [OF _ _ p [symmetric, unfolded Some] refl this] False
      have "in_range (snd (leaf_loop (n + 1) (eat s1)))" by simp
      then show ?thesis using False p Some by (simp add: leaf_loop.simps [of n])
    qed
  qed
qed

lemma step_err:
  "fst (parse_leaf st) \<noteq> Inl PUR_PARSE_OK" "fst (group_close ms st) \<noteq> Inl PUR_PARSE_OK"
  "fst (expr_node node r st) \<noteq> Inl PUR_PARSE_OK"
  using leaf_loop_err [of 0 st]
  by (auto simp: parse_leaf_def group_close_def expr_node_def split: prod.splits sum.splits option.splits)

lemma parse_leaf_range:
  assumes "ready st" "in_range st" shows "in_range (snd (parse_leaf st))"
proof -
  obtain res s1 where l: "leaf_loop 0 st = (res, s1)" by fastforce
  have i1: "in_range s1" using leaf_loop_range [OF assms, of 0] l by simp
  show ?thesis
  proof (cases res)
    case (Inr m)
    obtain lf s2 where lf: "pur_leaf_new (length (argv_off st)) m s1 = (lf, s2)" by fastforce
    have i2: "in_range s2" by (rule leaf_new_range [OF i1 lf])
    obtain nd s3 where nd: "pur_node_new PUR_NODE_LEAF s2 = (nd, s3)" by fastforce
    have i3: "in_range s3" by (rule node_new_range [OF i2 nd])
    show ?thesis using i2 i3 l Inr lf nd pur_node_new_ok [of PUR_NODE_LEAF s2 _ s3] set_range(1) [OF i3]
      by (cases lf; cases nd) (auto simp: parse_leaf_def)
  qed (use l i1 in \<open>simp add: parse_leaf_def\<close>)
qed

lemma expr_node_range:
  assumes "in_range st" shows "in_range (snd (expr_node node r st))"
proof -
  obtain nd s1 where nd: "pur_node_new PUR_NODE_EXPR st = (nd, s1)" by fastforce
  have i1: "in_range s1" by (rule node_new_range [OF assms nd])
  show ?thesis
  proof (cases nd)
    case (Some k)
    note nn = pur_node_new_ok [OF nd [unfolded Some]]
    then show ?thesis using nd Some set_range(1) [OF i1, of k node] set_range(2) [of "set_first k node s1" k r]
      by (simp add: expr_node_def)
  qed (use nd i1 in \<open>simp add: expr_node_def\<close>)
qed

lemma group_close_range:
  assumes "ready st" "in_range st" shows "in_range (snd (group_close ms st))"
proof (cases "tok st = PUR_T_RPAREN")
  case True
  then have "tok st \<noteq> PUR_T_END" by simp
  then have ie: "in_range (eat st)" using eat_parsed [OF assms(1)] assms(2) by (auto simp: parsed_ok_def)
  obtain nd s1 where nd: "pur_node_new PUR_NODE_GROUP (eat st) = (nd, s1)" by fastforce
  have i1: "in_range s1" by (rule node_new_range [OF ie nd])
  show ?thesis
  proof (cases nd)
    case (Some g)
    note nn = pur_node_new_ok [OF nd [unfolded Some]]
    obtain ok s2 where gs: "pur_group_set g ms s1 = (ok, s2)" by fastforce
    have "in_range s2" by (rule group_set_range [OF i1 _ gs]) (use nn in simp)
    then show ?thesis using True nd Some gs by (simp add: group_close_def)
  qed (use True nd i1 in \<open>simp add: group_close_def\<close>)
qed (use assms in \<open>simp add: group_close_def\<close>)

lemma outcome_leaf: "ready st \<Longrightarrow> tok st = PUR_T_WORD \<Longrightarrow> outcome st 1 is_node (Some (parse_leaf st))"
  by (rule outcome_some) (use parse_leaf_ok step_err parse_leaf_range in \<open>fastforce simp: is_node_def\<close>)+

lemma outcome_close:
  assumes "ready st" "are_nodes ms st"
  shows "outcome st 1 is_node (Some (group_close ms st))"
proof (rule outcome_some [OF _ step_err(2)])
  fix n st' assume "group_close ms st = (Inr n, st')"
  from group_close_ok [OF assms(1) _ _ this] assms(2)
  show "parsed_ok st st' \<and> pos st + 1 \<le> pos st' \<and> is_node n st'"
    by (simp add: are_nodes_def is_node_def)
qed (use group_close_range [OF assms(1)] in blast)

lemma outcome_expr_node:
  assumes "ready st" "is_node node st" "is_node r st"
  shows "outcome st 0 is_node (Some (expr_node node r st))"
proof (rule outcome_some [OF _ step_err(3)])
  fix n st' assume "expr_node node r st = (Inr n, st')"
  from expr_node_ok [OF assms(1) _ _ this] assms(2,3)
  show "parsed_ok st st' \<and> pos st + 0 \<le> pos st' \<and> is_node n st'"
    by (simp add: is_node_def)
qed (use expr_node_range in blast)

lemma outcome_on_room:
  assumes "ready st" "\<And>c st'. parsed_ok st st' \<Longrightarrow> pos st' = pos st \<Longrightarrow> ready st' \<Longrightarrow> need \<le> c
      \<Longrightarrow> outcome st' k Q (f c st')"
  shows "outcome st k Q (on_room (members_reserve cap need st) f)"
proof -
  obtain c st' where m: "members_reserve cap need st = (c, st')" by fastforce
  note mr = members_reserve_ok [OF assms(1) m]
  show ?thesis
  proof (cases c)
    case (Some a)
    then have "need \<le> a" using members_reserve_range(2) m by blast
    then show ?thesis using Some outcome_from [of st st' 0 k Q] mr assms(2) m by (simp add: on_room_def)
  qed (use mr in \<open>simp add: on_room_def m parsed_ok_def\<close>)
qed

text \<open>Each parser at one more unit of fuel, from the parsers it calls.\<close>

lemma operand_step:
  assumes "ready st" "\<And>d. outcome st 1 is_node (parse_group n d st)"
  shows "outcome st 1 is_node (parse_operand (Suc n) d st)"
  using assms outcome_leaf [of st] by simp

lemma group_step:
  assumes "ready st" "\<And>d. ready (eat st) \<Longrightarrow> pos (eat st) = pos st + 1
      \<Longrightarrow> outcome (eat st) 1 are_nodes (group_loop n d [] 0 (eat st))"
  shows "outcome st 1 is_node (parse_group (Suc n) d st)"
proof (cases "tok st = PUR_T_LPAREN")
  case True
  then have "tok st \<noteq> PUR_T_END" by simp
  note et = eat_parsed [OF assms(1) this]
  have "outcome (eat st) (1 + 1) is_node
      (on_ok (group_loop n d [] 0 (eat st)) (\<lambda>ms st. Some (group_close ms st)))"
    by (rule outcome_on_ok [OF assms(2) [OF et(2,3)]])
      (use et(2) outcome_close parsed_ok_ready in blast)
  then have "outcome st (1 + 2) is_node
      (on_ok (group_loop n d [] 0 (eat st)) (\<lambda>ms st. Some (group_close ms st)))"
    using outcome_from [OF et(1,3)] by simp
  then have "outcome st 1 is_node
      (on_ok (group_loop n d [] 0 (eat st)) (\<lambda>ms st. Some (group_close ms st)))"
    by (rule outcome_weaken) simp
  then show ?thesis using eat_range [OF assms(1) \<open>tok st \<noteq> PUR_T_END\<close>] by simp
qed simp

lemma group_loop_step:
  assumes rd: "ready st" and ms: "\<forall>m\<in>set ms. m < length (nodes st)"
    and E: "\<And>st1 d. ready st1 \<Longrightarrow> pos st1 = pos st \<Longrightarrow> parsed_ok st st1 \<Longrightarrow> outcome st1 1 is_node (parse_expr n d st1)"
    and GL: "\<And>st1 ms cap. ready st1 \<Longrightarrow> parsed_ok st st1 \<Longrightarrow> pos st + 2 \<le> pos st1
      \<Longrightarrow> \<forall>m\<in>set ms. m < length (nodes st1) \<Longrightarrow> outcome st1 1 are_nodes (group_loop n d ms cap st1)"
  shows "outcome st 1 are_nodes (group_loop (Suc n) d ms cap st)"
  unfolding group_loop.simps
proof (rule outcome_on_room [OF rd], goal_cases)
  case (1 c st1)
  have acc: "access (length ms < c) st1 = st1" using 1(4) by (simp add: Suc_le_eq)
  have "outcome st1 (1 + 0) are_nodes (on_ok (parse_expr n (d + 1) st1) (\<lambda>m st.
        if tok st \<noteq> PUR_T_SEMI then Some (Inr (ms @ [m]), st)
        else if tok (eat st) = PUR_T_RPAREN then Some (Inr (ms @ [m]), eat st)
        else group_loop n d (ms @ [m]) c (eat st)))"
  proof (rule outcome_on_ok [OF E [OF 1(3,2,1)]], goal_cases)
    case (1 m st2)
    have r2: "ready st2" by (rule parsed_ok_ready [OF _ 1(1)]) fact
    have p2: "parsed_ok st st2" by (rule parsed_ok_trans [OF _ 1(1)]) fact
    have n2: "are_nodes (ms @ [m]) st2" using ms p2 1(3) by (auto simp: are_nodes_def is_node_def parsed_ok_def)
    show ?case
    proof (cases "tok st2 = PUR_T_SEMI")
      case True
      then have "tok st2 \<noteq> PUR_T_END" by simp
      note et = eat_parsed [OF r2 this]
      have n3: "are_nodes (ms @ [m]) (eat st2)" using n2 by (simp add: are_nodes_def)
      have "outcome (eat st2) 1 are_nodes (group_loop n d (ms @ [m]) c (eat st2))"
        by (rule GL [OF et(2) parsed_ok_trans [OF p2 et(1)]])
          (use 1(2) et(3) n3 \<open>pos st1 = pos st\<close> in \<open>auto simp: are_nodes_def\<close>)
      then have "outcome st2 0 are_nodes (group_loop n d (ms @ [m]) c (eat st2))"
        by (rule outcome_weaken [OF outcome_from [OF et(1,3)]]) simp
      moreover have "outcome st2 0 are_nodes (Some (Inr (ms @ [m]), eat st2))"
        by (rule outcome_some) (use et(1,3) n3 in \<open>auto simp: parsed_ok_def\<close>)
      ultimately show ?thesis using True by simp
    next
      case False
      have "outcome st2 0 are_nodes (Some (Inr (ms @ [m]), st2))"
        by (rule outcome_some) (use parsed_ok_refl [OF r2] n2 in auto)
      then show ?thesis using False by simp
    qed
  qed
  then show ?case by (simp add: acc)
qed

lemma chain_step:
  assumes rd: "ready st" and op: "\<And>d. outcome st 1 is_node (parse_operand n d st)"
    and EL: "\<And>st1 node. ready st1 \<Longrightarrow> parsed_ok st st1 \<Longrightarrow> pos st + 1 \<le> pos st1 \<Longrightarrow> is_node node st1
      \<Longrightarrow> outcome st1 0 is_node (expr_loop n d 0 node st1)"
  shows "outcome st 1 is_node (parse_expr (Suc n) d st)"
proof -
  have "outcome st (1 + 0) is_node (on_ok (parse_operand n d st) (\<lambda>node st. expr_loop n d 0 node st))"
    by (rule outcome_on_ok [OF op]) (use rd EL parsed_ok_ready in blast)
  then show ?thesis by simp
qed

lemma chain_loop_step:
  assumes rd: "ready st" and nd: "is_node node st"
    and op: "\<And>d. ready (eat st) \<Longrightarrow> pos (eat st) = pos st + 1 \<Longrightarrow> outcome (eat st) 1 is_node (parse_operand n d (eat st))"
    and EL: "\<And>st1 node k. ready st1 \<Longrightarrow> parsed_ok st st1 \<Longrightarrow> pos st + 1 \<le> pos st1 \<Longrightarrow> is_node node st1
      \<Longrightarrow> outcome st1 0 is_node (expr_loop n d k node st1)"
  shows "outcome st 0 is_node (expr_loop (Suc n) d k node st)"
proof (cases "tok st = PUR_T_GT")
  case True
  then have "tok st \<noteq> PUR_T_END" by simp
  note et = eat_parsed [OF rd this]
  have "outcome (eat st) (1 + 0) is_node (on_ok (parse_operand n (d + (k + 1)) (eat st)) (\<lambda>r st.
       on_ok (Some (expr_node node r st)) (\<lambda>e st. expr_loop n d (k + 1) e st)))"
  proof (rule outcome_on_ok [OF op [OF et(2,3)]], goal_cases)
    case (1 r st2)
    have r2: "ready st2" by (rule parsed_ok_ready [OF et(2) 1(1)])
    have p2: "parsed_ok st st2" by (rule parsed_ok_trans [OF et(1) 1(1)])
    have "outcome st2 (0 + 0) is_node (on_ok (Some (expr_node node r st2)) (\<lambda>e st. expr_loop n d (k + 1) e st))"
    proof (rule outcome_on_ok [OF outcome_expr_node [OF r2 is_node_mono [OF nd p2] 1(3)]], goal_cases)
      case (1 e st3)
      then show ?case
        using EL [OF parsed_ok_ready [OF r2 1(1)] parsed_ok_trans [OF p2 1(1)]] \<open>pos (eat st) + 1 \<le> pos st2\<close> et(3)
        by simp
    qed
    then show ?case by simp
  qed
  then have "outcome st 0 is_node (on_ok (parse_operand n (d + (k + 1)) (eat st)) (\<lambda>r st.
       on_ok (Some (expr_node node r st)) (\<lambda>e st. expr_loop n d (k + 1) e st)))"
    by (rule outcome_weaken [OF outcome_from [OF et(1,3)]]) simp
  then show ?thesis using True eat_range [OF rd \<open>tok st \<noteq> PUR_T_END\<close>] by simp
next
  case False
  have "outcome st 0 is_node (Some (Inr node, st))"
    by (rule outcome_some) (use parsed_ok_refl [OF rd] nd in auto)
  then show ?thesis using False by simp
qed

lemma pur_total:
  "(\<forall>st d. ready st \<longrightarrow> 4 * todo st + 2 \<le> n \<longrightarrow> outcome st 1 is_node (parse_operand n d st))
 \<and> (\<forall>st d. ready st \<longrightarrow> 4 * todo st + 1 \<le> n \<longrightarrow> outcome st 1 is_node (parse_group n d st))
 \<and> (\<forall>st d ms cap. ready st \<longrightarrow> 4 * todo st + 4 \<le> n \<longrightarrow> (\<forall>m\<in>set ms. m < length (nodes st))
     \<longrightarrow> outcome st 1 are_nodes (group_loop n d ms cap st))
 \<and> (\<forall>st d. ready st \<longrightarrow> 4 * todo st + 3 \<le> n \<longrightarrow> outcome st 1 is_node (parse_expr n d st))
 \<and> (\<forall>st d k node. ready st \<longrightarrow> 4 * todo st + 2 \<le> n \<longrightarrow> is_node node st
     \<longrightarrow> outcome st 0 is_node (expr_loop n d k node st))"
proof (induction n)
  case (Suc n)
  note O = conjunct1 [OF Suc.IH, rule_format]
  note G = conjunct1 [OF conjunct2 [OF Suc.IH], rule_format]
  note GL = conjunct1 [OF conjunct2 [OF conjunct2 [OF Suc.IH]], rule_format]
  note E = conjunct1 [OF conjunct2 [OF conjunct2 [OF conjunct2 [OF Suc.IH]]], rule_format]
  note EL = conjunct2 [OF conjunct2 [OF conjunct2 [OF conjunct2 [OF Suc.IH]]], rule_format]
  have todo_eat: "todo (eat st) + 1 = todo st" if "ready st" "ready (eat st)" for st
    using that by (auto simp: todo_def ready_def)
  have "outcome st 1 is_node (parse_operand (Suc n) d st)" if "ready st" "4 * todo st + 2 \<le> Suc n" for st d
    by (rule operand_step [OF that(1) G]) (use that in simp_all)
  moreover have "outcome st 1 is_node (parse_group (Suc n) d st)" if "ready st" "4 * todo st + 1 \<le> Suc n" for st d
  proof (rule group_step [OF that(1) GL])
    assume "ready (eat st)"
    then show "4 * todo (eat st) + 4 \<le> n" using todo_eat [OF that(1)] that(2) by simp
  qed simp_all
  moreover have "outcome st 1 are_nodes (group_loop (Suc n) d ms cap st)"
    if t: "ready st" "4 * todo st + 4 \<le> Suc n" "\<forall>m\<in>set ms. m < length (nodes st)" for st d ms cap
  proof (rule group_loop_step [OF t(1,3)])
    fix st1 d assume a: "ready st1" "pos st1 = pos st" "parsed_ok st st1"
    show "outcome st1 1 is_node (parse_expr n d st1)"
      by (rule E [OF a(1)]) (use todo_parsed [OF t(1) a(3), of 0] a(2) t(2) in simp)
  next
    fix st1 ms cap assume a: "ready st1" "parsed_ok st st1" "pos st + 2 \<le> pos st1" "\<forall>m\<in>set ms. m < length (nodes st1)"
    show "outcome st1 1 are_nodes (group_loop n d ms cap st1)"
      by (rule GL [OF a(1) _ bspec [OF a(4)]]) (use todo_parsed [OF t(1) a(2,3)] t(2) in simp_all)
  qed
  moreover have "outcome st 1 is_node (parse_expr (Suc n) d st)"
    if t: "ready st" "4 * todo st + 3 \<le> Suc n" for st d
  proof (rule chain_step [OF t(1) O])
    show "ready st" "4 * todo st + 2 \<le> n" using t by simp_all
  next
    fix st1 node assume a: "ready st1" "parsed_ok st st1" "pos st + 1 \<le> pos st1" "is_node node st1"
    show "outcome st1 0 is_node (expr_loop n d 0 node st1)"
      by (rule EL [OF a(1) _ a(4)]) (use todo_parsed [OF t(1) a(2,3)] t(2) in simp)
  qed
  moreover have "outcome st 0 is_node (expr_loop (Suc n) d k node st)"
    if t: "ready st" "4 * todo st + 2 \<le> Suc n" "is_node node st" for st d k node
  proof (rule chain_loop_step [OF t(1,3)])
    fix d assume a: "ready (eat st)"
    show "outcome (eat st) 1 is_node (parse_operand n d (eat st))"
      by (rule O [OF a]) (use todo_eat [OF t(1) a] t(2) in simp)
  next
    fix st1 node k assume a: "ready st1" "parsed_ok st st1" "pos st + 1 \<le> pos st1" "is_node node st1"
    show "outcome st1 0 is_node (expr_loop n d k node st1)"
      by (rule EL [OF a(1) _ a(4)]) (use todo_parsed [OF t(1) a(2,3)] t(2) in simp)
  qed
  ultimately show ?case by blast
qed simp

section \<open>Tokens are in range\<close>

definition words_inside :: "nat \<Rightarrow> pur_token list \<Rightarrow> bool" where
  "words_inside L ts \<longleftrightarrow> (\<forall>t\<in>set ts. ttype t = PUR_T_WORD \<longrightarrow> toff t + tlen t \<le> L)"

lemma pur_punct_some:
  "pur_punct c cs = Some (t, n) \<Longrightarrow> t \<noteq> PUR_T_END \<and> t \<noteq> PUR_T_WORD \<and> 1 \<le> n \<and> n \<le> length (c # cs)"
  by (auto simp: pur_punct_def split: if_splits list.splits)

lemma pur_punct_none: "pur_punct c cs = None \<Longrightarrow> c \<noteq> CHR 0x22 \<Longrightarrow> \<not> pur_space c \<Longrightarrow> \<not> pur_delim c"
  by (auto simp: pur_punct_def pur_delim_def split: if_splits list.splits)

lemma next_token_ok:
  assumes "next_token off c cs = Some (t, n)" "\<not> pur_space c"
  shows "ttype t \<noteq> PUR_T_END \<and> 1 \<le> n \<and> n \<le> length (c # cs) \<and> (ttype t = PUR_T_WORD \<longrightarrow> toff t + tlen t \<le> off + length (c # cs))"
proof (cases "pur_punct c cs")
  case (Some a)
  then show ?thesis using assms pur_punct_some [of c cs] by (cases a) (auto simp: next_token_def)
next
  case None
  have l: "length (takeWhile P cs) \<le> length cs" for P by (rule length_takeWhile_le)
  show ?thesis
  proof (cases "c = CHR 0x22")
    case True
    then show ?thesis using assms None l [of "\<lambda>d. d \<noteq> CHR 0x22"]
      by (auto simp: next_token_def Let_def split: if_splits)
  next
    case False
    have "\<not> pur_delim c" by (rule pur_punct_none [OF None False assms(2)])
    then show ?thesis using assms None False l [of "\<lambda>d. \<not> pur_delim d"] by (auto simp: next_token_def Let_def)
  qed
qed

lemma toks_push_ok:
  "toks_push t st = (ok, st') \<Longrightarrow> ok \<Longrightarrow> toks st' = toks st @ [t] \<and> line st' = line st"
  by (auto simp: toks_push_def access_def split: prod.splits option.splits)

lemma tokenize_loop_ok:
  "length s < fuel \<Longrightarrow> \<forall>t\<in>set (toks st). ttype t \<noteq> PUR_T_END \<Longrightarrow> words_inside (off + length s) (toks st)
   \<Longrightarrow> \<exists>rc st'. tokenize_loop fuel off s st = Some (rc, st') \<and> (in_range st \<longrightarrow> in_range st')
     \<and> (rc = PUR_PARSE_OK \<longrightarrow> toks_ok (toks st') \<and> words_inside (off + length s) (toks st') \<and> line st' = line st)"
proof (induction fuel arbitrary: off s st)
  case (Suc fuel)
  show ?case
  proof (cases s)
    case Nil
    obtain ok st' where p: "toks_push \<lparr>ttype = PUR_T_END, toff = 0, tlen = 0\<rparr> st = (ok, st')" by fastforce
    have "toks_ok (toks st @ [\<lparr>ttype = PUR_T_END, toff = 0, tlen = 0\<rparr>])"
      using Suc.prems(2) by (auto simp: toks_ok_def nth_append all_set_conv_all_nth)
    then show ?thesis using toks_push_ok [OF p] toks_push_range [OF _ p] Suc.prems(3) p Nil
      by (cases ok) (auto simp: words_inside_def)
  next
    case (Cons c cs)
    show ?thesis
    proof (cases "pur_space c")
      case True
      have "words_inside (off + 1 + length cs) (toks st)" using Suc.prems(3) Cons by simp
      from Suc.IH [of cs st "off + 1", OF _ Suc.prems(2) this] Suc.prems(1) Cons True
      show ?thesis by simp
    next
      case sp: False
      show ?thesis
      proof (cases "next_token off c cs")
        case None
        then show ?thesis using Cons sp by simp
      next
        case (Some a)
        obtain t n where a: "a = (t, n)" by (cases a)
        note nt = next_token_ok [OF Some [unfolded a] sp]
        obtain ok st1 where p: "toks_push t st = (ok, st1)" by fastforce
        show ?thesis
        proof (cases ok)
          case False
          then show ?thesis using Cons sp Some a p toks_push_range [OF _ p] by simp
        next
          case True
          note tp = toks_push_ok [OF p True]
          have t1: "\<forall>t\<in>set (toks st1). ttype t \<noteq> PUR_T_END" using tp nt Suc.prems(2) by auto
          have run: "tokenize_loop (Suc fuel) off s st = tokenize_loop fuel (off + n) (drop n s) st1"
            using Cons sp Some a p True by simp
          have lt: "length (drop n s) < fuel" using nt Suc.prems(1) Cons by (cases n) auto
          have e: "off + n + length (drop n s) = off + length s" using nt Cons by simp
          have "words_inside (off + length s) (toks st1)"
            using tp nt Suc.prems(3) Cons by (auto simp: words_inside_def)
          from Suc.IH [OF lt t1, of "off + n", unfolded e, OF this]
          show ?thesis unfolding run using tp toks_push_range [OF _ p] by auto
        qed
      qed
    qed
  qed
qed simp

lemma tokenize_ok:
  "\<exists>rc st'. tokenize st = Some (rc, st') \<and> (in_range st \<longrightarrow> in_range st') \<and> (rc = PUR_PARSE_OK \<longrightarrow>
     toks_ok (toks st') \<and> words_inside (length (line st)) (toks st') \<and> line st' = line st)"
  using tokenize_loop_ok [of "line st" "length (line st) + 1" "st\<lparr>toks := []\<rparr>" 0]
  by (simp add: tokenize_def words_inside_def)

section \<open>Commands\<close>

lemma reset_ready: "toks_ok (toks st) \<Longrightarrow> pos st < length (toks st) \<Longrightarrow> ready (pur_ast_reset st)"
  by (simp add: ready_def pur_ast_reset_def ast_ok_def)

lemma parse_expr_reset:
  assumes "toks_ok (toks st)" "pos st < length (toks st)"
  shows "outcome (pur_ast_reset st) 1 is_node (parse_expr (parse_fuel st) 0 (pur_ast_reset st))"
proof -
  have f: "4 * todo (pur_ast_reset st) + 3 \<le> parse_fuel st"
    by (simp add: todo_def pur_ast_reset_def parse_fuel_def)
  show ?thesis
    using conjunct1 [OF conjunct2 [OF conjunct2 [OF conjunct2 [OF pur_total]]], rule_format, OF reset_ready [OF assms] f] .
qed

text \<open>What \<open>pur_parse_command\<close> leaves for the walk over its expressions.\<close>

definition command_ok :: "pur \<Rightarrow> bool" where
  "command_ok st \<longleftrightarrow> toks_ok (toks st) \<and> length (expr_start st) \<le> PUR_MAX_EXPRS
     \<and> length (expr_op st) = length (expr_start st) \<and> (\<forall>p\<in>set (expr_start st). p < length (toks st))"

lemma command_loop_ok:
  "command_ok st \<Longrightarrow> pos st < length (toks st) \<Longrightarrow> PUR_MAX_EXPRS < n + length (expr_start st)
   \<Longrightarrow> 1 \<le> length (expr_start st) \<or> tok st \<noteq> PUR_T_END \<Longrightarrow> in_range st
   \<Longrightarrow> \<exists>rc st'. command_loop n st = Some (rc, st') \<and> in_range st'
     \<and> (rc = PUR_PARSE_OK \<longrightarrow> command_ok st' \<and> 1 \<le> length (expr_start st'))"
proof (induction n arbitrary: st)
  case 0
  then show ?case by (simp add: command_ok_def)
next
  case (Suc n)
  have tk: "toks_ok (toks st)" using Suc.prems(1) by (simp add: command_ok_def)
  show ?case
  proof (cases "tok st = PUR_T_PIPE \<or> tok st = PUR_T_AND \<or> tok st = PUR_T_OR \<or> tok st = PUR_T_BG
      \<or> tok st = PUR_T_END \<or> length (expr_start st) \<ge> PUR_MAX_EXPRS")
    case True
    have "length (expr_op st) = length (expr_start st)" using Suc.prems(1) by (simp add: command_ok_def)
    then show ?thesis using True Suc.prems(4,5) by auto
  next
    case go: False
    then have acc: "access (length (expr_start st) < PUR_MAX_EXPRS) st = st" by simp
    from parse_expr_reset [OF tk Suc.prems(2)] Suc.prems(5)
    obtain res st2 where pe: "parse_expr (parse_fuel st) 0 (pur_ast_reset st) = Some (res, st2)"
      and ok: "\<And>a. res = Inr a \<Longrightarrow> parsed_ok (pur_ast_reset st) st2 \<and> pos st + 1 \<le> pos st2"
      and ne: "res \<noteq> Inl PUR_PARSE_OK" and ir: "in_range st2"
      by (auto simp: outcome_def pur_ast_reset_def)
    show ?thesis
    proof (cases res)
      case (Inl e)
      then show ?thesis using go pe ne ir by (auto simp: acc)
    next
      case (Inr r)
      note ps = ok [OF Inr]
      have fr: "toks st2 = toks st" "pos st2 < length (toks st)"
        using ps by (auto simp: parsed_ok_def same_input_def pur_ast_reset_def)
      show ?thesis
      proof (cases "op_of_tok (tok st2)")
        case (Inl e)
        then have "e \<noteq> PUR_PARSE_OK" by (auto simp: op_of_tok_def split: if_splits)
        then show ?thesis using go pe Inr Inl ir by (auto simp: acc)
      next
        case op: (Inr op)
        define st3 where "st3 = st2\<lparr>expr_start := expr_start st @ [pos st], expr_op := expr_op st @ [op]\<rparr>"
        have c3: "command_ok st3" using Suc.prems(1,2) go fr by (auto simp: st3_def command_ok_def)
        have run: "command_loop (Suc n) st
            = (if op = PUR_OP_NONE then Some (PUR_PARSE_OK, st3) else command_loop n (eat st3))"
          using go pe Inr op by (simp add: st3_def Let_def acc)
        show ?thesis
        proof (cases "op = PUR_OP_NONE")
          case True
          then show ?thesis unfolding run using c3 ir by (simp add: st3_def)
        next
          case False
          then have "tok st2 \<noteq> PUR_T_END" using op by (auto simp: op_of_tok_def)
          then have "pos st2 \<noteq> length (toks st) - 1" using tk fr by (auto simp: tok_def toks_ok_def)
          then have "pos (eat st3) < length (toks (eat st3))" using fr by (simp add: st3_def)
          moreover have "command_ok (eat st3)" using c3 by (simp add: command_ok_def)
          moreover have "PUR_MAX_EXPRS < n + length (expr_start (eat st3))"
            using Suc.prems(3) by (simp add: st3_def)
          moreover have "in_range (eat st3)" using ir \<open>pos st2 \<noteq> length (toks st) - 1\<close> fr
            by (simp add: eat_def at_token_def access_def st3_def)
          moreover have "1 \<le> length (expr_start (eat st3))" by (simp add: st3_def)
          ultimately show ?thesis unfolding run using Suc.IH False by simp
        qed
      qed
    qed
  qed
qed

lemma command_ok_cong: "toks b = toks a \<Longrightarrow> expr_start b = expr_start a \<Longrightarrow> expr_op b = expr_op a
  \<Longrightarrow> command_ok b = command_ok a"
  by (simp add: command_ok_def)

lemma pur_parse_load_ok:
  assumes "command_ok st" "in_range st"
  shows "\<exists>rc st'. pur_parse_load i st = Some (rc, st') \<and> in_range st' \<and>
     (rc = PUR_PARSE_OK \<longrightarrow> command_ok st' \<and> ast_ok st' \<and> root st' < length (nodes st'))"
proof (cases "i < 0 \<or> i \<ge> int (length (expr_start st))")
  case True
  then show ?thesis using assms(2) by (auto simp: pur_parse_load_def)
next
  case False
  define s0 where "s0 = st\<lparr>pos := expr_start st ! nat i, in_range := True\<rparr>"
  have m: "expr_start st ! nat i \<in> set (expr_start st)" using False by (intro nth_mem) linarith
  have s0: "toks_ok (toks s0)" "pos s0 < length (toks s0)"
    using assms m by (auto simp: s0_def command_ok_def)
  have "expr_start st ! nat i < length (toks st)" using s0(2) by (simp add: s0_def)
  then have e: "at_token (expr_start st ! nat i) (pur_ast_reset (st\<lparr>in_range := True\<rparr>)) = pur_ast_reset s0"
    "parse_fuel st = parse_fuel s0"
    by (simp_all add: s0_def pur_ast_reset_def parse_fuel_def at_token_def access_def)
  have ir: "in_range (pur_ast_reset s0)" by (simp add: pur_ast_reset_def s0_def)
  from parse_expr_reset [OF s0] ir obtain res st2 where
    pe: "parse_expr (parse_fuel s0) 0 (pur_ast_reset s0) = Some (res, st2)" and ne: "res \<noteq> Inl PUR_PARSE_OK"
    and i2: "in_range st2" and ok: "\<And>a. res = Inr a \<Longrightarrow> parsed_ok (pur_ast_reset s0) st2 \<and> is_node a st2"
    by (auto simp: outcome_def)
  show ?thesis
  proof (cases res)
    case (Inl er)
    then show ?thesis using False pe ne i2 by (simp add: pur_parse_load_def e)
  next
    case (Inr r)
    note ps = ok [OF Inr]
    have "command_ok (st2\<lparr>root := r\<rparr>)"
      using ps assms by (auto simp: parsed_ok_def same_input_def pur_ast_reset_def s0_def command_ok_def)
    moreover have "ast_ok (st2\<lparr>root := r\<rparr>)" using ps by (simp add: parsed_ok_def ast_ok_def)
    ultimately show ?thesis using False pe Inr ps i2 by (auto simp: pur_parse_load_def e is_node_def)
  qed
qed

lemma words_in_lineI: "words_inside (length s) ts \<Longrightarrow> words_in_line ts (s @ [c])"
  by (auto simp: words_inside_def words_in_line_def)

text \<open>C26: The shell's parser is total and stays in its pools: for every line and every pattern of
  allocation failures \<open>pur_parse_command\<close> returns, and each of its accesses to the line and to the
  token, node, leaf, argument, member and expression pools is inside the memory the pool has at
  that moment, also when it fails.  If it accepts the line there are between 1 and 64 expressions,
  and loading any of them returns, again without an access out of range; when that succeeds the
  root is a node, every child index is smaller than its parent's, every leaf is one of at most 16
  and has between 1 and 32 arguments inside the argument pool.\<close>

theorem pur_parse_safe:
  "\<exists>rc st'. pur_parse_command text st = Some (rc, st') \<and> in_range st' \<and>
     (rc = PUR_PARSE_OK \<longrightarrow> 1 \<le> pur_parse_nexprs st' \<and> pur_parse_nexprs st' \<le> 64 \<and>
       (\<forall>i. \<exists>rc2 st2. pur_parse_load i st' = Some (rc2, st2) \<and> in_range st2 \<and>
         (rc2 = PUR_PARSE_OK \<longrightarrow> ast_ok st2 \<and> root st2 < length (nodes st2))))"
proof -
  from tokenize_ok [of "st\<lparr>line := text, in_range := True\<rparr>"] obtain rc s1
    where t: "tokenize (st\<lparr>line := text, in_range := True\<rparr>) = Some (rc, s1)" and i1: "in_range s1"
      and tk: "rc = PUR_PARSE_OK \<Longrightarrow> toks_ok (toks s1) \<and> words_inside (length (line s1)) (toks s1)" by auto
  show ?thesis
  proof (cases "rc = PUR_PARSE_OK")
    case False
    then show ?thesis using t i1 by (simp add: pur_parse_command_def)
  next
    case True
    define s2 where "s2 = at_token 0 (access (words_in_line (toks s1) (line s1 @ [CHR 0x00]))
      (s1\<lparr>line := terminate_words (toks s1) (line s1 @ [CHR 0x00]), expr_start := [], expr_op := []\<rparr>))"
    have i2: "in_range s2" using i1 tk [OF True] words_in_lineI
      by (simp add: s2_def at_token_def access_def toks_ok_def)
    have c2: "command_ok s2" "pos s2 < length (toks s2)" "PUR_MAX_EXPRS < (PUR_MAX_EXPRS + 1) + length (expr_start s2)"
      using tk [OF True] by (auto simp: s2_def command_ok_def toks_ok_def at_token_def)
    have run: "pur_parse_command text st
        = (if tok s2 = PUR_T_END then Some (PUR_PARSE_EMPTY, s2) else command_loop (PUR_MAX_EXPRS + 1) s2)"
      using t True by (simp add: pur_parse_command_def Let_def s2_def [symmetric])
    show ?thesis
    proof (cases "tok s2 = PUR_T_END")
      case ended: True
      then show ?thesis unfolding run using i2 by simp
    next
      case False
      from command_loop_ok [OF c2 _ i2] False obtain rc2 s3
        where l: "command_loop (PUR_MAX_EXPRS + 1) s2 = Some (rc2, s3)" and i3: "in_range s3"
          and ok: "rc2 = PUR_PARSE_OK \<Longrightarrow> command_ok s3 \<and> 1 \<le> length (expr_start s3)" by auto
      have r2: "pur_parse_command text st = Some (rc2, s3)" using run False l by (simp del: command_loop.simps)
      have "1 \<le> pur_parse_nexprs s3 \<and> pur_parse_nexprs s3 \<le> 64" if "rc2 = PUR_PARSE_OK"
        using ok [OF that] by (simp add: command_ok_def PUR_MAX_EXPRS_def pur_parse_nexprs_def)
      moreover have "\<exists>rc2 st2. pur_parse_load i s3 = Some (rc2, st2) \<and> in_range st2 \<and>
         (rc2 = PUR_PARSE_OK \<longrightarrow> ast_ok st2 \<and> root st2 < length (nodes st2))" if "rc2 = PUR_PARSE_OK" for i
        using pur_parse_load_ok [OF _ i3, of i] ok [OF that] by blast
      ultimately show ?thesis using r2 i3 by blast
    qed
  qed
qed

definition pur_start :: pur where
  "pur_start = \<lparr>line = [], toks = [], toks_cap = 0, pos = 0, expr_start = [], expr_op = [], nodes = [],
     nodes_cap = 0, leaves = [], argv_off = [], argv_cap = 0, member_pool = [], members_cap = 0, root = 0,
     answers = [], in_range = True\<rparr>"

lemma pur_example: "map_option fst (pur_parse_command ''(ls;cat)>wc && x'' pur_start) = Some PUR_PARSE_OK"
  by code_simp

theorem pur_parse_safe_witness:
  "\<exists>st'. pur_parse_command ''(ls;cat)>wc && x'' pur_start = Some (PUR_PARSE_OK, st')
     \<and> 1 \<le> pur_parse_nexprs st' \<and> pur_parse_nexprs st' \<le> 64"
  using pur_parse_safe [of "''(ls;cat)>wc && x''" pur_start] pur_example by auto

end
