(* ===== verification/Registry.thy ===== *)
theory Registry
  imports Prelude
begin

text \<open>
  The name registry: inodes and directory entries with their reference counts
  (\<open>kernel/kernel/handle/registry.c\<close>), the mount table (\<open>kernel/kernel/handle/mount.c\<close>) and
  the cursor of an open directory (\<open>kernel/kernel/handle/dir.c\<close>).

  Inodes and entries are heap objects at addresses that are never used twice, so an access to a
  freed one is \<open>None\<close>.  The entries of a directory, a list threaded through \<open>next\<close>, are the list
  \<open>i_children\<close>.  An entry is linked only after its name is set, so the tests of \<open>d->name\<close> do not
  fail and are left out.  \<open>answers\<close> holds the outcomes of the coming \<open>kmalloc\<close> calls (all
  succeed when it is used up).  A mounted file system is a number; its table of operations, whose
  entries may be null, is the argument \<open>fs\<close>.
\<close>

section \<open>State\<close>

definition REG_MAX_INODES :: int where "REG_MAX_INODES = 65536"
definition REG_MAX_DIRENTS :: int where "REG_MAX_DIRENTS = 262144"
definition REG_MAX_NAME_LEN :: nat where "REG_MAX_NAME_LEN = 256"
definition REG_MAX_MOUNTS :: nat where "REG_MAX_MOUNTS = 64"
definition INT_MAX :: int where "INT_MAX = 2147483647"
definition UINT16_MAX :: nat where "UINT16_MAX = 65535"

record inode =
  i_type :: inode_type
  i_refcount :: int
  i_deleted :: bool
  i_impl :: nat
  i_ops :: nat
  i_children :: "nat list"
  i_mnt :: "nat option"

record dirent =
  d_name :: string
  d_refcount :: nat
  d_inode :: nat

record mount =
  m_in_use :: bool
  m_id :: nat
  m_mountpoint :: nat
  m_root :: nat
  m_fs :: nat
  m_refcount :: nat

record reg =
  inodes :: "nat \<Rightarrow> inode option"
  dirents :: "nat \<Rightarrow> dirent option"
  inode_count :: int
  dirent_count :: int
  reg_root :: nat
  mounts :: "mount list"
  next_mount_id :: nat
  fresh :: nat
  answers :: "bool list"

record fs_ops =
  fs_lookup :: "(nat \<Rightarrow> string \<Rightarrow> reg \<Rightarrow> (nat \<times> reg) option) option"
  fs_create :: "(nat \<Rightarrow> string \<Rightarrow> inode_type \<Rightarrow> reg \<Rightarrow> (int \<times> reg) option) option"
  fs_unlink :: "(nat \<Rightarrow> string \<Rightarrow> reg \<Rightarrow> (int \<times> reg) option) option"
  fs_rename :: "(nat \<Rightarrow> string \<Rightarrow> nat \<Rightarrow> string \<Rightarrow> reg \<Rightarrow> (int \<times> reg) option) option"
  fs_link :: "(nat \<Rightarrow> nat \<Rightarrow> string \<Rightarrow> reg \<Rightarrow> (int \<times> reg) option) option"
  fs_finish :: "(reg \<Rightarrow> reg option) option"

definition set_inode :: "nat \<Rightarrow> inode \<Rightarrow> reg \<Rightarrow> reg" where
  "set_inode a i r = r\<lparr>inodes := (inodes r)(a \<mapsto> i)\<rparr>"

definition set_dirent :: "nat \<Rightarrow> dirent \<Rightarrow> reg \<Rightarrow> reg" where
  "set_dirent d e r = r\<lparr>dirents := (dirents r)(d \<mapsto> e)\<rparr>"

definition kmalloc_ok :: "reg \<Rightarrow> bool \<times> reg" where
  "kmalloc_ok r = (case answers r of [] \<Rightarrow> (True, r) | a # as \<Rightarrow> (a, r\<lparr>answers := as\<rparr>))"

section \<open>Inodes and directory entries\<close>

definition is_dot_name :: "string \<Rightarrow> bool" where
  "is_dot_name name \<longleftrightarrow> name = ''.'' \<or> name = ''..''"

definition registry_inode_alloc :: "inode_type \<Rightarrow> reg \<Rightarrow> nat \<times> reg" where
  "registry_inode_alloc ty r =
    (if inode_count r \<ge> REG_MAX_INODES then (0, r)
     else case kmalloc_ok r of (ok, r) \<Rightarrow>
       if \<not> ok then (0, r)
       else let a = fresh r in
         (a, r\<lparr>fresh := a + 1, inode_count := inode_count r + 1,
               inodes := (inodes r)(a \<mapsto> \<lparr>i_type = ty, i_refcount = 1, i_deleted = False, i_impl = 0,
                 i_ops = 0, i_children = [], i_mnt = None\<rparr>)\<rparr>))"

definition dirent_alloc :: "reg \<Rightarrow> nat \<times> reg" where
  "dirent_alloc r =
    (if dirent_count r \<ge> REG_MAX_DIRENTS then (0, r)
     else case kmalloc_ok r of (ok, r) \<Rightarrow>
       if \<not> ok then (0, r)
       else let d = fresh r in
         (d, r\<lparr>fresh := d + 1, dirent_count := dirent_count r + 1,
               dirents := (dirents r)(d \<mapsto> \<lparr>d_name = [], d_refcount = 1, d_inode = 0\<rparr>)\<rparr>))"

definition dirent_ref :: "nat \<Rightarrow> reg \<Rightarrow> reg option" where
  "dirent_ref d r =
    (if d = 0 then Some r
     else do {
       e \<leftarrow> dirents r d;
       if d_refcount e = UINT16_MAX then Some r
       else Some (set_dirent d (e\<lparr>d_refcount := d_refcount e + 1\<rparr>) r) })"

definition inode_ref :: "nat \<Rightarrow> reg \<Rightarrow> reg option" where
  "inode_ref a r =
    (if a = 0 then Some r
     else do {
       i \<leftarrow> inodes r a;
       if i_refcount i < INT_MAX then Some (set_inode a (i\<lparr>i_refcount := i_refcount i + 1\<rparr>) r)
       else Some r })"

text \<open>
  \<open>inode_unref\<close>, \<open>registry_destroy\<close> and \<open>dirent_put\<close> call each other: destroying a directory
  puts its entries, which drop their inodes.  \<open>unref\<close> is the recursive call of \<open>inode_unref\<close>.
\<close>

definition dirent_put :: "(nat \<Rightarrow> reg \<Rightarrow> reg option) \<Rightarrow> nat \<Rightarrow> bool \<Rightarrow> reg \<Rightarrow> reg option" where
  "dirent_put unref d drop_inode r =
    (if d = 0 then Some r
     else do {
       e \<leftarrow> dirents r d;
       let rc = (if d_refcount e > 0 then d_refcount e - 1 else 0);
       if rc \<noteq> 0 then Some (set_dirent d (e\<lparr>d_refcount := rc\<rparr>) r)
       else do {
         let r1 = r\<lparr>dirent_count := dirent_count r - 1, dirents := (dirents r)(d := None)\<rparr>;
         if drop_inode then unref (d_inode e) r1 else Some r1 } })"

fun put_children :: "(nat \<Rightarrow> reg \<Rightarrow> reg option) \<Rightarrow> nat \<Rightarrow> nat list \<Rightarrow> reg \<Rightarrow> reg option" where
  "put_children unref a [] r = Some r"
| "put_children unref a (d # ds) r = do {
     e \<leftarrow> dirents r d;
     r1 \<leftarrow> dirent_put unref d (d_inode e \<noteq> a) r;
     put_children unref a ds r1 }"

definition registry_destroy :: "(nat \<Rightarrow> reg \<Rightarrow> reg option) \<Rightarrow> nat \<Rightarrow> reg \<Rightarrow> reg option" where
  "registry_destroy unref a r = do {
     i \<leftarrow> inodes r a;
     if i_refcount i > 0 then Some r
     else do {
       r1 \<leftarrow> (if i_type i = INODE_DIR then do {
           r1 \<leftarrow> put_children unref a (i_children i) r;
           i1 \<leftarrow> inodes r1 a;
           Some (set_inode a (i1\<lparr>i_children := []\<rparr>) r1) }
         else Some r);
       _ \<leftarrow> inodes r1 a;
       Some (r1\<lparr>inode_count := inode_count r1 - 1, inodes := (inodes r1)(a := None)\<rparr>) } }"

primrec unref_depth :: "nat \<Rightarrow> nat \<Rightarrow> reg \<Rightarrow> reg option" where
  "unref_depth 0 a r = None"
| "unref_depth (Suc n) a r =
    (if a = 0 then Some r
     else do {
       i \<leftarrow> inodes r a;
       let r1 = set_inode a (i\<lparr>i_refcount := i_refcount i - 1\<rparr>) r;
       if i_refcount i - 1 \<noteq> 0 then Some r1 else registry_destroy (unref_depth n) a r1 })"

text \<open>The number of objects ever allocated bounds the depth (\<open>inode_unref_ok\<close>).\<close>

definition inode_unref :: "nat \<Rightarrow> reg \<Rightarrow> reg option" where
  "inode_unref a r = unref_depth (Suc (fresh r)) a r"

definition dirent_unref :: "nat \<Rightarrow> reg \<Rightarrow> reg option" where
  "dirent_unref d r = dirent_put inode_unref d True r"

section \<open>Entries of a directory\<close>

definition registry_linkdirent :: "nat \<Rightarrow> string \<Rightarrow> nat \<Rightarrow> reg \<Rightarrow> (nat \<times> reg) option" where
  "registry_linkdirent dir name target r =
    (if name = [] \<or> REG_MAX_NAME_LEN \<le> length name then Some (0, r)
     else case kmalloc_ok r of (ok, r) \<Rightarrow>
       if \<not> ok then Some (0, r)
       else case dirent_alloc r of (d, r) \<Rightarrow>
         if d = 0 then Some (0, r)
         else do {
           i \<leftarrow> inodes r dir;
           let r = set_dirent d \<lparr>d_name = name, d_refcount = 1, d_inode = target\<rparr> r;
           let r = set_inode dir (i\<lparr>i_children := d # i_children i\<rparr>) r;
           r \<leftarrow> (if target \<noteq> dir then inode_ref target r else Some r);
           Some (d, r) })"

primrec find_entry :: "string \<Rightarrow> nat list \<Rightarrow> reg \<Rightarrow> nat option" where
  "find_entry name [] r = Some 0"
| "find_entry name (d # ds) r = do {
     e \<leftarrow> dirents r d;
     if d_name e = name then Some d else find_entry name ds r }"

definition registry_finddirent :: "nat \<Rightarrow> string \<Rightarrow> reg \<Rightarrow> nat option" where
  "registry_finddirent dir name r = do { i \<leftarrow> inodes r dir; find_entry name (i_children i) r }"

definition dirent_detach :: "nat \<Rightarrow> string \<Rightarrow> reg \<Rightarrow> (nat \<times> reg) option" where
  "dirent_detach dir name r = do {
     i \<leftarrow> inodes r dir;
     d \<leftarrow> find_entry name (i_children i) r;
     if d = 0 then Some (0, r)
     else Some (d, set_inode dir (i\<lparr>i_children := remove1 d (i_children i)\<rparr>) r) }"

definition dirent_rename :: "nat \<Rightarrow> string \<Rightarrow> reg \<Rightarrow> (bool \<times> reg) option" where
  "dirent_rename d name r =
    (if name = [] \<or> REG_MAX_NAME_LEN \<le> length name then Some (False, r)
     else case kmalloc_ok r of (ok, r) \<Rightarrow>
       if \<not> ok then Some (False, r)
       else do { e \<leftarrow> dirents r d; Some (True, set_dirent d (e\<lparr>d_name := name\<rparr>) r) })"

primrec only_dots :: "nat list \<Rightarrow> reg \<Rightarrow> bool option" where
  "only_dots [] r = Some True"
| "only_dots (d # ds) r = do {
     e \<leftarrow> dirents r d;
     if is_dot_name (d_name e) then only_dots ds r else Some False }"

definition registry_dir_is_empty :: "nat \<Rightarrow> reg \<Rightarrow> bool option" where
  "registry_dir_is_empty dir r = do { i \<leftarrow> inodes r dir; only_dots (i_children i) r }"

text \<open>Following the parents; it does not end in a cycle of directories.\<close>

partial_function (option) dir_has_ancestor :: "nat \<Rightarrow> nat \<Rightarrow> reg \<Rightarrow> bool option" where
  "dir_has_ancestor dir ancestor r =
    (if dir = 0 then Some False
     else if dir = ancestor then Some True
     else do {
       up \<leftarrow> registry_finddirent dir ''..'' r;
       if up = 0 then Some False
       else do {
         e \<leftarrow> dirents r up;
         if d_inode e = dir then Some False else dir_has_ancestor (d_inode e) ancestor r } })"

section \<open>The invariant of the reference counts\<close>

text \<open>
  The entries that count for an inode: those that name it from outside its own list.  The
  entries \<open>.\<close> of a directory, and \<open>..\<close> of the root, are its own and do not count.
\<close>

definition refset :: "reg \<Rightarrow> nat \<Rightarrow> nat set" where
  "refset r a = {d. \<exists>e. dirents r d = Some e \<and> d_inode e = a \<and>
     (\<forall>i. inodes r a = Some i \<longrightarrow> d \<notin> set (i_children i))}"

text \<open>
  \<open>H\<close> counts the other holders of each inode (open handles, working directories, mounts), \<open>D\<close>
  the cursors that hold each entry.  \<open>K\<close> is the part of each list that is still to be put: the
  whole list, except while a directory is being destroyed.
\<close>

definition inv_inodes :: "(nat \<Rightarrow> nat) \<Rightarrow> (nat \<Rightarrow> nat list) \<Rightarrow> reg \<Rightarrow> bool" where
  "inv_inodes H K r \<longleftrightarrow> finite (dom (inodes r)) \<and> inode_count r = int (card (dom (inodes r))) \<and>
     (\<forall>a i. inodes r a = Some i \<longrightarrow> 0 < a \<and> a < fresh r \<and> i_refcount i = int (card (refset r a) + H a) \<and>
        set (K a) \<subseteq> set (i_children i) \<and> distinct (K a) \<and> distinct (i_children i) \<and>
        (0 < i_refcount i \<longrightarrow> K a = i_children i) \<and> (i_type i \<noteq> INODE_DIR \<longrightarrow> i_children i = [])) \<and>
     (\<forall>a. inodes r a = None \<longrightarrow> H a = 0 \<and> K a = []) \<and>
     (\<forall>a b i j. inodes r a = Some i \<longrightarrow> inodes r b = Some j \<longrightarrow> a \<noteq> b \<longrightarrow>
        set (i_children i) \<inter> set (i_children j) = {})"

definition inv_dirents :: "(nat \<Rightarrow> nat) \<Rightarrow> (nat \<Rightarrow> nat) \<Rightarrow> (nat \<Rightarrow> nat list) \<Rightarrow> reg \<Rightarrow> bool" where
  "inv_dirents H D K r \<longleftrightarrow> finite (dom (dirents r)) \<and> dirent_count r = int (card (dom (dirents r))) \<and>
     (\<forall>d e. dirents r d = Some e \<longrightarrow> 0 < d \<and> d < fresh r \<and> inodes r (d_inode e) \<noteq> None \<and>
        d_refcount e = D d + (if \<exists>a. d \<in> set (K a) then 1 else 0) \<and> 0 < d_refcount e) \<and>
     (\<forall>d. dirents r d = None \<longrightarrow> D d = 0 \<and> (\<forall>a. d \<notin> set (K a))) \<and>
     (\<forall>d e i. dirents r d = Some e \<longrightarrow> inodes r (d_inode e) = Some i \<longrightarrow> d \<in> set (i_children i) \<longrightarrow>
        0 < D d \<longrightarrow> 0 < H (d_inode e))"

definition reg_inv :: "(nat \<Rightarrow> nat) \<Rightarrow> (nat \<Rightarrow> nat) \<Rightarrow> (nat \<Rightarrow> nat list) \<Rightarrow> reg \<Rightarrow> bool" where
  "reg_inv H D K r \<longleftrightarrow> inv_inodes H K r \<and> inv_dirents H D K r"

text \<open>What dropping references does: objects disappear or lose counts, and nothing else.\<close>

definition reg_shrink :: "(nat \<Rightarrow> nat list) \<Rightarrow> (nat \<Rightarrow> nat list) \<Rightarrow> reg \<Rightarrow> reg \<Rightarrow> bool" where
  "reg_shrink K K' r r' \<longleftrightarrow>
     (\<forall>a i'. inodes r' a = Some i' \<longrightarrow> (\<exists>i. inodes r a = Some i \<and> i'\<lparr>i_refcount := 0\<rparr> = i\<lparr>i_refcount := 0\<rparr> \<and>
        i_refcount i' \<le> i_refcount i)) \<and>
     (\<forall>a i. inodes r a = Some i \<longrightarrow> i_refcount i = 0 \<longrightarrow> inodes r' a = Some i) \<and>
     (\<forall>d e'. dirents r' d = Some e' \<longrightarrow> (\<exists>e. dirents r d = Some e \<and> e'\<lparr>d_refcount := 0\<rparr> = e\<lparr>d_refcount := 0\<rparr>)) \<and>
     (\<forall>a. inodes r' a \<noteq> None \<longrightarrow> K' a = K a) \<and>
     reg_root r' = reg_root r \<and> mounts r' = mounts r \<and> next_mount_id r' = next_mount_id r \<and>
     fresh r' = fresh r \<and> answers r' = answers r"

definition counted :: "reg \<Rightarrow> nat set" where
  "counted r = {a. \<exists>i. inodes r a = Some i \<and> 0 < i_refcount i}"

definition zeros :: "reg \<Rightarrow> nat set" where
  "zeros r = {a. \<exists>i. inodes r a = Some i \<and> i_refcount i = 0}"

section \<open>Single updates\<close>

lemma refset_cong:
  assumes "\<And>d. map_option d_inode (dirents r' d) = map_option d_inode (dirents r d)"
    and "map_option (set \<circ> i_children) (inodes r' a) = map_option (set \<circ> i_children) (inodes r a)"
  shows "refset r' a = refset r a"
proof -
  have "(\<exists>e. dirents r' d = Some e \<and> d_inode e = a) \<longleftrightarrow> (\<exists>e. dirents r d = Some e \<and> d_inode e = a)" for d
    using assms(1) [of d] by (cases "dirents r' d"; cases "dirents r d") auto
  moreover have "(\<forall>i. inodes r' a = Some i \<longrightarrow> d \<notin> set (i_children i)) \<longleftrightarrow>
      (\<forall>i. inodes r a = Some i \<longrightarrow> d \<notin> set (i_children i))" for d
    using assms(2) by (cases "inodes r' a"; cases "inodes r a") auto
  ultimately show ?thesis unfolding refset_def by blast
qed

lemma finite_refset: "reg_inv H D K r \<Longrightarrow> finite (refset r a)"
  by (rule finite_subset [of _ "dom (dirents r)"]) (auto simp: refset_def reg_inv_def inv_dirents_def)

lemma set_inode_simps [simp]:
  "inodes (set_inode a i r) = (inodes r)(a \<mapsto> i)" "dirents (set_inode a i r) = dirents r"
  "inode_count (set_inode a i r) = inode_count r" "dirent_count (set_inode a i r) = dirent_count r"
  "fresh (set_inode a i r) = fresh r" "reg_root (set_inode a i r) = reg_root r"
  "mounts (set_inode a i r) = mounts r" "next_mount_id (set_inode a i r) = next_mount_id r"
  "answers (set_inode a i r) = answers r"
  by (simp_all add: set_inode_def)

lemma set_dirent_simps [simp]:
  "dirents (set_dirent d e r) = (dirents r)(d \<mapsto> e)" "inodes (set_dirent d e r) = inodes r"
  "inode_count (set_dirent d e r) = inode_count r" "dirent_count (set_dirent d e r) = dirent_count r"
  "fresh (set_dirent d e r) = fresh r" "reg_root (set_dirent d e r) = reg_root r"
  "mounts (set_dirent d e r) = mounts r" "next_mount_id (set_dirent d e r) = next_mount_id r"
  "answers (set_dirent d e r) = answers r"
  by (simp_all add: set_dirent_def)

lemma dom_upd_present: "m a = Some x \<Longrightarrow> dom (m(a \<mapsto> y)) = dom m"
  by auto

lemma inv_inode: "reg_inv H D K r \<Longrightarrow> inodes r a = Some i \<Longrightarrow>
  0 < a \<and> a < fresh r \<and> i_refcount i = int (card (refset r a) + H a) \<and> set (K a) \<subseteq> set (i_children i) \<and>
  distinct (K a) \<and> distinct (i_children i) \<and> (0 < i_refcount i \<longrightarrow> K a = i_children i) \<and>
  (i_type i \<noteq> INODE_DIR \<longrightarrow> i_children i = [])"
  by (simp add: reg_inv_def inv_inodes_def)

lemma inv_no_inode: "reg_inv H D K r \<Longrightarrow> inodes r a = None \<Longrightarrow> H a = 0 \<and> K a = []"
  by (simp add: reg_inv_def inv_inodes_def)

lemma inv_apart: "reg_inv H D K r \<Longrightarrow> inodes r a = Some i \<Longrightarrow> inodes r b = Some j \<Longrightarrow> a \<noteq> b \<Longrightarrow>
  x \<in> set (i_children i) \<Longrightarrow> x \<notin> set (i_children j)"
  unfolding reg_inv_def inv_inodes_def by (elim conjE) blast

lemma inv_dirent: "reg_inv H D K r \<Longrightarrow> dirents r d = Some e \<Longrightarrow> 0 < d \<and> d < fresh r \<and>
  inodes r (d_inode e) \<noteq> None \<and> d_refcount e = D d + (if \<exists>a. d \<in> set (K a) then 1 else 0) \<and> 0 < d_refcount e"
  unfolding reg_inv_def inv_dirents_def by (elim conjE) blast

lemma inv_no_dirent: "reg_inv H D K r \<Longrightarrow> dirents r d = None \<Longrightarrow> D d = 0 \<and> d \<notin> set (K a)"
  by (simp add: reg_inv_def inv_dirents_def)

lemma inv_self: "reg_inv H D K r \<Longrightarrow> dirents r d = Some e \<Longrightarrow> inodes r (d_inode e) = Some i \<Longrightarrow>
  d \<in> set (i_children i) \<Longrightarrow> 0 < D d \<Longrightarrow> 0 < H (d_inode e)"
  by (simp add: reg_inv_def inv_dirents_def)

lemma inv_K_child: "reg_inv H D K r \<Longrightarrow> d \<in> set (K a) \<Longrightarrow> \<exists>i. inodes r a = Some i \<and> d \<in> set (i_children i)"
  using inv_inode [of H D K r a] inv_no_inode [of H D K r a] by (cases "inodes r a") auto

lemma inv_K_unique: "reg_inv H D K r \<Longrightarrow> d \<in> set (K a) \<Longrightarrow> d \<in> set (K b) \<Longrightarrow> a = b"
  using inv_K_child [of H D K r d a] inv_K_child [of H D K r d b] inv_apart by metis

text \<open>One reference less to an inode that stays.\<close>

lemma inode_count_down:
  assumes inv: "reg_inv H D K r" and a: "inodes r a = Some i" and h: "0 < H a"
    and self: "\<And>d e. dirents r d = Some e \<Longrightarrow> d_inode e = a \<Longrightarrow> d \<in> set (i_children i) \<Longrightarrow> 0 < D d \<Longrightarrow> 1 < H a"
  shows "reg_inv (H(a := H a - 1)) D K (set_inode a (i\<lparr>i_refcount := i_refcount i - 1\<rparr>) r)"
proof -
  let ?r = "set_inode a (i\<lparr>i_refcount := i_refcount i - 1\<rparr>) r"
  have refs: "refset ?r x = refset r x" for x by (rule refset_cong) (use a in auto)
  have dom: "dom (inodes ?r) = dom (inodes r)" using a by auto
  have "inv_inodes (H(a := H a - 1)) K ?r"
    using inv a h unfolding inv_inodes_def reg_inv_def refs dom
    by (auto simp: of_nat_diff split: if_splits)
  moreover have "inv_dirents (H(a := H a - 1)) D K ?r"
    using inv a h self unfolding inv_dirents_def reg_inv_def
    by (auto split: if_splits)
  ultimately show ?thesis by (simp add: reg_inv_def)
qed

lemma card_dom_remove: "finite (dom m) \<Longrightarrow> m a = Some x \<Longrightarrow> int (card (dom m - {a})) = int (card (dom m)) - 1"
  using card_Suc_Diff1 [of "dom m" a] by (simp add: domI del: card_Diff_insert) 

lemma remove_inode:
  assumes inv: "reg_inv H D K r" and a: "inodes r a = Some i" and rc: "i_refcount i = 0" and K: "K a = []"
  shows "reg_inv H D K (r\<lparr>inode_count := inode_count r - 1, inodes := (inodes r)(a := None)\<rparr>)"
    (is "reg_inv H D K ?r")
proof -
  have "card (refset r a) = 0" "H a = 0" using inv_inode [OF inv a] rc by auto
  then have z: "refset r a = {}" "H a = 0" using finite_refset [OF inv, of a] by auto
  have gone: "d_inode e \<noteq> a" if e: "dirents r d = Some e" for d e
  proof
    assume ea: "d_inode e = a"
    with z(1) a e have self: "d \<in> set (i_children i)" by (auto simp: refset_def)
    have "d \<notin> set (K b)" for b
      using inv_K_child [OF inv, of d b] inv_apart [OF inv _ a _ _ , of b _ d] self K by fastforce
    with inv_dirent [OF inv e] have "0 < D d" by auto
    with inv_self [OF inv e _ self] ea a z(2) show False by auto
  qed
  have "refset ?r a = {}" using gone by (simp add: refset_def)
  then have refs: "refset ?r x = refset r x" for x
    using z(1) by (cases "x = a") (auto simp: refset_def)
  have dom: "dom (inodes ?r) = dom (inodes r) - {a}" by auto
  have fin: "finite (dom (inodes r))" using inv by (simp add: reg_inv_def inv_inodes_def)
  have card: "int (card (dom (inodes r) - {a})) = int (card (dom (inodes r))) - 1"
    by (rule card_dom_remove [OF fin a])
  have "inv_inodes H K ?r"
    using inv z K fin card unfolding inv_inodes_def reg_inv_def refs dom by auto
  moreover have "inv_dirents H D K ?r"
    using inv gone unfolding inv_dirents_def reg_inv_def by (auto split: if_splits)
  ultimately show ?thesis by (simp add: reg_inv_def)
qed

lemma pending_tail:
  assumes inv: "reg_inv H D K r" and a: "inodes r a = Some i" and K: "K a = d # ds"
  shows "(\<exists>b. x \<in> set ((K(a := ds)) b)) \<longleftrightarrow> x \<noteq> d \<and> (\<exists>b. x \<in> set (K b))"
proof
  have only: "d \<notin> set (K b)" if "b \<noteq> a" for b using inv_K_unique [OF inv, of d b a] K that by auto
  have dist: "d \<notin> set ds" using inv_inode [OF inv a] K by auto
  assume "\<exists>b. x \<in> set ((K(a := ds)) b)"
  then obtain b where b: "x \<in> set ((K(a := ds)) b)" by blast
  with K have "x \<in> set (K b)" by (auto split: if_splits)
  with b only dist show "x \<noteq> d \<and> (\<exists>b. x \<in> set (K b))" by (cases "b = a") auto
next
  assume "x \<noteq> d \<and> (\<exists>b. x \<in> set (K b))"
  then obtain b where "x \<noteq> d" "x \<in> set (K b)" by blast
  with K show "\<exists>b. x \<in> set ((K(a := ds)) b)" by (intro exI [of _ b]) (auto split: if_splits)
qed

text \<open>Putting the entry \<open>d\<close> of a directory that is being destroyed.\<close>

lemma put_held_dirent:
  assumes inv: "reg_inv H D K r" and a: "inodes r a = Some i" and rc: "i_refcount i = 0"
    and K: "K a = d # ds" and e: "dirents r d = Some e" and held: "D d \<noteq> 0"
  shows "reg_inv H D (K(a := ds)) (set_dirent d (e\<lparr>d_refcount := D d\<rparr>) r)" (is "reg_inv H D ?K ?r")
proof -
  have refs: "refset ?r x = refset r x" for x by (rule refset_cong) (use e in auto)
  have dom: "dom (dirents ?r) = dom (dirents r)" using e by auto
  note mem = pending_tail [OF inv a K]
  have dist: "d \<notin> set ds" "set ds \<subseteq> set (i_children i)" "distinct ds" using inv_inode [OF inv a] K by auto
  have none: "(\<forall>b. x \<notin> set (?K b)) \<longleftrightarrow> \<not> (x \<noteq> d \<and> (\<exists>b. x \<in> set (K b)))" for x
    using mem [of x] by blast
  have "inv_inodes H ?K ?r"
    using inv a rc K dist unfolding inv_inodes_def reg_inv_def refs by auto
  moreover have "inv_dirents H D ?K ?r"
    using inv e held unfolding inv_dirents_def reg_inv_def mem none dom by (auto split: if_splits)
  ultimately show ?thesis by (simp add: reg_inv_def)
qed

lemma put_free_dirent:
  assumes inv: "reg_inv H D K r" and a: "inodes r a = Some i" and rc: "i_refcount i = 0"
    and K: "K a = d # ds" and e: "dirents r d = Some e" and held: "D d = 0"
  shows "reg_inv (if d_inode e = a then H else H(d_inode e := H (d_inode e) + 1)) D (K(a := ds))
    (r\<lparr>dirent_count := dirent_count r - 1, dirents := (dirents r)(d := None)\<rparr>)" (is "reg_inv ?H D ?K ?r")
proof -
  let ?t = "d_inode e"
  have child: "d \<in> set (i_children i)" using inv_inode [OF inv a] K by auto
  have dist: "d \<notin> set ds" "set ds \<subseteq> set (i_children i)" "distinct ds" using inv_inode [OF inv a] K by auto
  obtain j where j: "inodes r ?t = Some j" using inv_dirent [OF inv e] by auto
  have refs: "refset ?r x = (if x = ?t \<and> ?t \<noteq> a then refset r x - {d} else refset r x)" for x
    using child a e by (auto simp: refset_def)
  have mem: "d \<in> refset r ?t" if "?t \<noteq> a"
    using inv_apart [OF inv a j] child that e j by (auto simp: refset_def)
  have cards: "int (card (refset ?r x) + ?H x) = int (card (refset r x) + H x)" for x
    using card_Suc_Diff1 [OF finite_refset [OF inv, of ?t] mem] unfolding refs by auto
  have fin: "finite (dom (dirents r))" using inv by (simp add: reg_inv_def inv_dirents_def)
  have dom: "dom (dirents ?r) = dom (dirents r) - {d}" by auto
  have card: "int (card (dom (dirents r) - {d})) = int (card (dom (dirents r))) - 1"
    by (rule card_dom_remove [OF fin e])
  have inx: "inodes ?r = inodes r" "fresh ?r = fresh r" by simp_all
  note mem = pending_tail [OF inv a K]
  have none: "(\<forall>b. x \<notin> set (?K b)) \<longleftrightarrow> \<not> (x \<noteq> d \<and> (\<exists>b. x \<in> set (K b)))" for x
    using mem [of x] by blast
  have "inv_inodes ?H ?K ?r"
    using inv a rc K j dist unfolding inv_inodes_def reg_inv_def cards inx by auto
  moreover have "inv_dirents ?H D ?K ?r"
    using inv fin card held unfolding inv_dirents_def reg_inv_def mem none dom inx
    by (auto split: if_splits)
  ultimately show ?thesis by (simp add: reg_inv_def)
qed

section \<open>Dropping references\<close>

lemma shrink_refl: "reg_shrink K K r r"
  by (auto simp: reg_shrink_def)

lemma shrink_inode: "reg_shrink K K' r r' \<Longrightarrow> inodes r' a = Some i' \<Longrightarrow>
  \<exists>i. inodes r a = Some i \<and> i'\<lparr>i_refcount := 0\<rparr> = i\<lparr>i_refcount := 0\<rparr> \<and> i_refcount i' \<le> i_refcount i"
  unfolding reg_shrink_def by (elim conjE) blast

lemma shrink_dirent: "reg_shrink K K' r r' \<Longrightarrow> dirents r' d = Some e' \<Longrightarrow>
  \<exists>e. dirents r d = Some e \<and> e'\<lparr>d_refcount := 0\<rparr> = e\<lparr>d_refcount := 0\<rparr>"
  unfolding reg_shrink_def by (elim conjE) blast

lemma shrink_kept: "reg_shrink K K' r r' \<Longrightarrow> inodes r a = Some i \<Longrightarrow> i_refcount i = 0 \<Longrightarrow> inodes r' a = Some i"
  unfolding reg_shrink_def by (elim conjE) blast

lemma shrink_K: "reg_shrink K K' r r' \<Longrightarrow> inodes r' a \<noteq> None \<Longrightarrow> K' a = K a"
  unfolding reg_shrink_def by (elim conjE) blast

lemma shrink_rest: "reg_shrink K K' r r' \<Longrightarrow> reg_root r' = reg_root r \<and> mounts r' = mounts r \<and>
  next_mount_id r' = next_mount_id r \<and> fresh r' = fresh r \<and> answers r' = answers r"
  by (simp add: reg_shrink_def)

lemma shrink_trans:
  assumes 1: "reg_shrink K K1 r r1" and 2: "reg_shrink K1 K2 r1 r2"
  shows "reg_shrink K K2 r r2"
  unfolding reg_shrink_def
proof (intro conjI allI impI)
  fix a i' assume "inodes r2 a = Some i'"
  from shrink_inode [OF 2 this] obtain j where j: "inodes r1 a = Some j"
    "i'\<lparr>i_refcount := 0\<rparr> = j\<lparr>i_refcount := 0\<rparr>" "i_refcount i' \<le> i_refcount j" by blast
  from shrink_inode [OF 1 j(1)] j(2,3)
  show "\<exists>i. inodes r a = Some i \<and> i'\<lparr>i_refcount := 0\<rparr> = i\<lparr>i_refcount := 0\<rparr> \<and> i_refcount i' \<le> i_refcount i"
    by fastforce
next
  fix d e' assume "dirents r2 d = Some e'"
  from shrink_dirent [OF 2 this] obtain f where f: "dirents r1 d = Some f"
    "e'\<lparr>d_refcount := 0\<rparr> = f\<lparr>d_refcount := 0\<rparr>" by blast
  from shrink_dirent [OF 1 f(1)] f(2)
  show "\<exists>e. dirents r d = Some e \<and> e'\<lparr>d_refcount := 0\<rparr> = e\<lparr>d_refcount := 0\<rparr>" by auto
next
  fix a assume a: "inodes r2 a \<noteq> None"
  then have "inodes r1 a \<noteq> None" using shrink_inode [OF 2] by blast
  then show "K2 a = K a" using shrink_K [OF 2 a] shrink_K [OF 1] by simp
qed (use 1 2 in \<open>simp_all add: shrink_kept shrink_rest [OF 1] shrink_rest [OF 2]\<close>)

lemma finite_counted: "reg_inv H D K r \<Longrightarrow> finite (counted r)"
  by (rule finite_subset [of _ "dom (inodes r)"]) (auto simp: counted_def reg_inv_def inv_inodes_def)

lemma counted_shrink: "reg_shrink K K' r r' \<Longrightarrow> counted r' \<subseteq> counted r"
  unfolding counted_def using shrink_inode by fastforce

text \<open>The contract of a function that drops one reference to an inode.\<close>

definition drops :: "(nat \<Rightarrow> reg \<Rightarrow> reg option) \<Rightarrow> nat \<Rightarrow> bool" where
  "drops unref n \<longleftrightarrow> (\<forall>H D K r a. reg_inv H D K r \<longrightarrow> 0 < H a \<longrightarrow> card (counted r) < n \<longrightarrow>
     (\<forall>d e i. dirents r d = Some e \<longrightarrow> d_inode e = a \<longrightarrow> inodes r a = Some i \<longrightarrow> d \<in> set (i_children i) \<longrightarrow>
        0 < D d \<longrightarrow> 1 < H a) \<longrightarrow>
     (\<exists>r' K'. unref a r = Some r' \<and> reg_inv (H(a := H a - 1)) D K' r' \<and> reg_shrink K K' r r' \<and>
        zeros r' \<subseteq> zeros r))"

lemma dropsD:
  assumes "drops unref n" "reg_inv H D K r" "0 < H a" "card (counted r) < n"
    "\<And>d e i. dirents r d = Some e \<Longrightarrow> d_inode e = a \<Longrightarrow> inodes r a = Some i \<Longrightarrow> d \<in> set (i_children i) \<Longrightarrow>
       0 < D d \<Longrightarrow> 1 < H a"
  obtains r' K' where "unref a r = Some r'" "reg_inv (H(a := H a - 1)) D K' r'" "reg_shrink K K' r r'"
    "zeros r' \<subseteq> zeros r"
proof -
  have "\<exists>r' K'. unref a r = Some r' \<and> reg_inv (H(a := H a - 1)) D K' r' \<and> reg_shrink K K' r r' \<and>
      zeros r' \<subseteq> zeros r"
    using assms(1) [unfolded drops_def, rule_format, OF assms(2-4)] assms(5) by blast
  then show thesis using that by blast
qed

lemma put_children_ok:
  assumes "drops unref n" and "reg_inv H D K r" and "inodes r a = Some i" and "i_refcount i = 0"
    and "K a = ds" and "card (counted r) < n"
  shows "\<exists>r' K'. put_children unref a ds r = Some r' \<and> reg_inv H D K' r' \<and> K' a = [] \<and>
    reg_shrink (K(a := [])) K' r r' \<and> zeros r' \<subseteq> zeros r"
  using assms(2-)
proof (induction ds arbitrary: K r)
  case Nil
  then have "K(a := []) = K" by auto
  then show ?case using Nil shrink_refl by (intro exI [of _ r] exI [of _ K]) auto
next
  case (Cons d ds)
  note inv = Cons.prems(1) and a = Cons.prems(2) and rc = Cons.prems(3) and K = Cons.prems(4)
  obtain e where e: "dirents r d = Some e"
    using inv_no_dirent [OF inv, of d a] K by (cases "dirents r d") auto
  obtain j where j: "inodes r (d_inode e) = Some j" using inv_dirent [OF inv e] by auto
  have "\<exists>a. d \<in> set (K a)" using K by (intro exI [of _ a]) simp
  then have refc: "d_refcount e = D d + 1" using inv_dirent [OF inv e] by simp
  have step: "\<exists>r1 K1. dirent_put unref d (d_inode e \<noteq> a) r = Some r1 \<and> reg_inv H D K1 r1 \<and> K1 a = ds \<and>
      reg_shrink (K(a := ds)) K1 r r1 \<and> zeros r1 \<subseteq> zeros r"
  proof (cases "D d = 0")
    case False
    have "reg_shrink (K(a := ds)) (K(a := ds)) r (set_dirent d (e\<lparr>d_refcount := D d\<rparr>) r)"
      using e by (auto simp: reg_shrink_def)
    then show ?thesis using put_held_dirent [OF inv a rc K e False] e refc False inv_dirent [OF inv e]
      by (intro exI [of _ "set_dirent d (e\<lparr>d_refcount := D d\<rparr>) r"] exI [of _ "K(a := ds)"])
        (simp add: dirent_put_def Let_def zeros_def)
  next
    case True
    define r0 where "r0 = r\<lparr>dirent_count := dirent_count r - 1, dirents := (dirents r)(d := None)\<rparr>"
    note inv0 = put_free_dirent [OF inv a rc K e True, folded r0_def]
    have sh0: "reg_shrink (K(a := ds)) (K(a := ds)) r r0"
      by (auto simp: reg_shrink_def r0_def split: if_splits)
    have put: "dirent_put unref d (d_inode e \<noteq> a) r = (if d_inode e \<noteq> a then unref (d_inode e) r0 else Some r0)"
      using e refc True inv_dirent [OF inv e] by (simp add: dirent_put_def Let_def r0_def)
    show ?thesis
    proof (cases "d_inode e = a")
      case True
      then show ?thesis using put inv0 sh0
        by (intro exI [of _ r0] exI [of _ "K(a := ds)"]) (simp add: zeros_def r0_def)
    next
      case other: False
      let ?t = "d_inode e" let ?H = "H(?t := H ?t + 1)"
      have self: "1 < ?H ?t" if "dirents r0 x = Some f" "d_inode f = ?t" "inodes r0 ?t = Some k" "x \<in> set (i_children k)" "0 < D x" for x f k
        using that inv_self [OF inv, of x f k] by (auto simp: r0_def split: if_splits)
      have small: "card (counted r0) < n" using Cons.prems(5) by (simp add: counted_def r0_def)
      have inv1: "reg_inv ?H D (K(a := ds)) r0" using inv0 other by simp
      have pos: "0 < ?H ?t" by simp
      obtain r1 K1 where u: "unref ?t r0 = Some r1" "reg_inv (?H(?t := ?H ?t - 1)) D K1 r1"
          "reg_shrink (K(a := ds)) K1 r0 r1" "zeros r1 \<subseteq> zeros r0"
        by (rule dropsD [OF assms(1) inv1 pos small self])
      have "inodes r1 a = Some i" using shrink_kept [OF u(3), of a i] a rc by (simp add: r0_def)
      then have "K1 a = ds" using shrink_K [OF u(3), of a] by simp
      moreover have "?H(?t := ?H ?t - 1) = H" by simp
      moreover have "zeros r0 = zeros r" by (simp add: zeros_def r0_def)
      ultimately show ?thesis using u put other shrink_trans [OF sh0 u(3)] by auto
    qed
  qed
  then obtain r1 K1 where 1: "dirent_put unref d (d_inode e \<noteq> a) r = Some r1" "reg_inv H D K1 r1" "K1 a = ds"
      "reg_shrink (K(a := ds)) K1 r r1" "zeros r1 \<subseteq> zeros r" by blast
  note a1 = shrink_kept [OF 1(4) a rc]
  have "card (counted r1) < n"
    using Cons.prems(5) card_mono [OF finite_counted [OF inv] counted_shrink [OF 1(4)]] by simp
  from Cons.IH [OF 1(2) a1 rc 1(3) this] obtain r2 K2 where 2: "put_children unref a ds r1 = Some r2"
      "reg_inv H D K2 r2" "K2 a = []" "reg_shrink (K1(a := [])) K2 r1 r2"
      "zeros r2 \<subseteq> zeros r1" by blast
  have "reg_shrink (K(a := [])) (K1(a := [])) r r1"
    using 1(4) unfolding reg_shrink_def by (elim conjE) (intro conjI, simp_all)
  from shrink_trans [OF this 2(4)] show ?case using 1(1) 2(1-3) e subset_trans [OF 2(5) 1(5)]
    by (intro exI [of _ r2] exI [of _ K2]) (simp add: fun_upd_def)
qed

lemma unref_depth_drops: "drops (unref_depth n) n"
proof (induction n)
  case 0
  then show ?case by (simp add: drops_def)
next
  case (Suc n)
  show ?case unfolding drops_def
  proof (intro allI impI)
    fix H D K r a
    assume inv: "reg_inv H D K r" and h: "0 < H a" and small: "card (counted r) < Suc n"
      and "\<forall>d e i. dirents r d = Some e \<longrightarrow> d_inode e = a \<longrightarrow> inodes r a = Some i \<longrightarrow>
        d \<in> set (i_children i) \<longrightarrow> 0 < D d \<longrightarrow> 1 < H a"
    obtain i where i: "inodes r a = Some i"
      using inv_no_inode [OF inv, of a] h by (cases "inodes r a") auto
    have a0: "a \<noteq> 0" using inv_inode [OF inv i] by simp
    have rc: "0 < i_refcount i" using inv_inode [OF inv i] h by simp
    let ?H = "H(a := H a - 1)"
    define i1 where "i1 = i\<lparr>i_refcount := i_refcount i - 1\<rparr>"
    define r1 where "r1 = set_inode a i1 r"
    have inv1: "reg_inv ?H D K r1" unfolding r1_def i1_def
      by (rule inode_count_down [OF inv i h]) (use \<open>\<forall>d e i. _ d e i\<close> i in blast)
    have a1: "inodes r1 a = Some i1" by (simp add: r1_def)
    have sh1: "reg_shrink K K r r1"
      using i rc by (auto simp: reg_shrink_def r1_def i1_def)
    have run: "unref_depth (Suc n) a r =
        (if i_refcount i1 \<noteq> 0 then Some r1 else registry_destroy (unref_depth n) a r1)"
      using a0 i by (simp add: r1_def i1_def Let_def)
    show "\<exists>r' K'. unref_depth (Suc n) a r = Some r' \<and> reg_inv ?H D K' r' \<and> reg_shrink K K' r r' \<and>
        zeros r' \<subseteq> zeros r"
    proof (cases "i_refcount i1 = 0")
      case False
      then have "zeros r1 \<subseteq> zeros r" by (auto simp: zeros_def r1_def)
      then show ?thesis unfolding run using False inv1 sh1 by auto
    next
      case zero: True
      have "counted r1 = counted r - {a}"
        using zero i by (auto simp: counted_def r1_def)
      then have "card (counted r1) = card (counted r) - 1" "a \<in> counted r"
        using rc i finite_counted [OF inv] by (auto simp: counted_def)
      then have small1: "card (counted r1) < n"
        using small finite_counted [OF inv] by (metis Suc_less_SucD Suc_pred card_gt_0_iff emptyE diff_Suc_1 Suc_pred' One_nat_def)
      obtain r2 K2 i2 where 2: "(if i_type i1 = INODE_DIR then put_children (unref_depth n) a (i_children i1) r1 else Some r1) = Some r2"
          "reg_inv ?H D K2 r2" "K2 a = []" "reg_shrink (K(a := [])) K2 r1 r2"
          "zeros r2 \<subseteq> zeros r1"
      proof (cases "i_type i1 = INODE_DIR")
        case True
        have "K a = i_children i1" using inv_inode [OF inv i] rc by (simp add: i1_def)
        from put_children_ok [OF Suc inv1 a1 zero this small1] show thesis
          using that True by auto
      next
        case False
        then have "i_children i1 = []" "K a = []" using inv_inode [OF inv1 a1] by auto
        then have "K(a := []) = K" by auto
        then show thesis using that [of r1 K] False inv1 \<open>K a = []\<close> shrink_refl by simp
      qed
      note a2 = shrink_kept [OF 2(4) a1 zero]
      define r3 where "r3 = r2\<lparr>inode_count := inode_count r2 - 1, inodes := (inodes r2)(a := None)\<rparr>"
      note inv3 = remove_inode [OF 2(2) a2 zero 2(3), folded r3_def]
      have "registry_destroy (unref_depth n) a r1 = Some r3"
        using 2(1) a1 a2 zero unfolding registry_destroy_def
        by (cases "i_type i1 = INODE_DIR") (auto simp: set_inode_def r3_def)
      moreover have "reg_shrink K K2 r r3"
      proof -
        have sh: "reg_shrink (K(a := [])) (K(a := [])) r r1"
          using i rc by (auto simp: reg_shrink_def r1_def i1_def)
        note sh2 = shrink_trans [OF sh 2(4)]
        show ?thesis unfolding reg_shrink_def
        proof (intro conjI allI impI)
          fix b j assume b: "inodes r b = Some j" "i_refcount j = 0"
          show "inodes r3 b = Some j"
            using shrink_kept [OF sh2 b] b i rc by (cases "b = a") (auto simp: r3_def)
        qed (use sh2 in \<open>auto simp: r3_def reg_shrink_def split: if_splits\<close>)
      qed
      moreover have "zeros r1 \<subseteq> zeros r \<union> {a}" "zeros r3 = zeros r2 - {a}"
        by (auto simp: zeros_def r1_def r3_def)
      then have "zeros r3 \<subseteq> zeros r" using 2(5) by blast
      ultimately show ?thesis unfolding run using zero inv3 by auto
    qed
  qed
qed

section \<open>States between operations\<close>

text \<open>
  Between two operations nothing is being destroyed, and an inode lives exactly as long as an
  entry or a holder refers to it.
\<close>

definition kids :: "reg \<Rightarrow> nat \<Rightarrow> nat list" where
  "kids r a = (case inodes r a of Some i \<Rightarrow> i_children i | None \<Rightarrow> [])"

definition reg_ok :: "(nat \<Rightarrow> nat) \<Rightarrow> (nat \<Rightarrow> nat) \<Rightarrow> reg \<Rightarrow> bool" where
  "reg_ok H D r \<longleftrightarrow> reg_inv H D (kids r) r \<and> zeros r = {} \<and> 0 < fresh r \<and>
     dirent_count r \<le> REG_MAX_DIRENTS"

definition reg_less :: "reg \<Rightarrow> reg \<Rightarrow> bool" where
  "reg_less r r' \<longleftrightarrow> reg_shrink (kids r) (kids r') r r'"

lemma reg_okD: "reg_ok H D r \<Longrightarrow> reg_inv H D (kids r) r"
  by (simp add: reg_ok_def)

lemma reg_less_refl: "reg_less r r"
  by (simp add: reg_less_def shrink_refl)

lemma reg_less_trans: "reg_less r r1 \<Longrightarrow> reg_less r1 r2 \<Longrightarrow> reg_less r r2"
  unfolding reg_less_def by (rule shrink_trans)

lemma shrink_children: "reg_shrink K K' r r' \<Longrightarrow> inodes r' a = Some i' \<Longrightarrow>
  \<exists>i. inodes r a = Some i \<and> i_children i' = i_children i \<and> i_type i' = i_type i \<and>
    i_deleted i' = i_deleted i \<and> i_mnt i' = i_mnt i"
  using shrink_inode [of K K' r r' a i'] by (metis inode.ext_inject inode.surjective inode.update_convs(2))

lemma kids_shrink: "reg_shrink K K' r r' \<Longrightarrow> kids r' a = (if inodes r' a = None then [] else kids r a)"
  by (cases "inodes r' a") (auto simp: kids_def dest: shrink_children)

text \<open>The end of an operation that started between operations.\<close>

lemma reg_ok_shrunk:
  assumes "reg_inv H D K' r'" "reg_shrink (kids r) K' r r'" "zeros r' \<subseteq> zeros r" "zeros r = {}" "0 < fresh r"
    and "reg_inv H0 D0 K r" "dirent_count r \<le> REG_MAX_DIRENTS"
  shows "reg_ok H D r' \<and> reg_less r r'"
proof -
  have "K' a = kids r' a" for a
    using inv_no_inode [OF assms(1), of a] shrink_K [OF assms(2), of a] kids_shrink [OF assms(2), of a]
    by (cases "inodes r' a") auto
  then have "K' = kids r'" by auto
  have "dom (dirents r') \<subseteq> dom (dirents r)" using shrink_dirent [OF assms(2)] by blast
  moreover have "finite (dom (dirents r))" "dirent_count r = int (card (dom (dirents r)))"
    using assms(6) by (simp_all add: reg_inv_def inv_dirents_def)
  moreover have "dirent_count r' = int (card (dom (dirents r')))"
    using assms(1) by (simp add: reg_inv_def inv_dirents_def)
  ultimately have "dirent_count r' \<le> dirent_count r" using card_mono by simp
  then show ?thesis using \<open>K' = kids r'\<close> assms shrink_rest [OF assms(2)] by (simp add: reg_ok_def reg_less_def)
qed

lemma counted_bound: "reg_inv H D K r \<Longrightarrow> card (counted r) < Suc (fresh r)"
proof -
  assume inv: "reg_inv H D K r"
  have "counted r \<subseteq> {..<fresh r}" using inv_inode [OF inv] by (auto simp: counted_def)
  then have "card (counted r) \<le> fresh r" using card_mono [of "{..<fresh r}"] by fastforce
  then show ?thesis by simp
qed

lemma inode_unref_ok:
  assumes ok: "reg_ok H D r" and h: "0 < H a"
    and self: "\<And>d e i. dirents r d = Some e \<Longrightarrow> d_inode e = a \<Longrightarrow> inodes r a = Some i \<Longrightarrow>
      d \<in> set (i_children i) \<Longrightarrow> 0 < D d \<Longrightarrow> 1 < H a"
  shows "\<exists>r'. inode_unref a r = Some r' \<and> reg_ok (H(a := H a - 1)) D r' \<and> reg_less r r'"
proof -
  from ok have inv: "reg_inv H D (kids r) r" and z: "zeros r = {}" "0 < fresh r" "dirent_count r \<le> REG_MAX_DIRENTS" by (simp_all add: reg_ok_def)
  obtain r' K' where "unref_depth (Suc (fresh r)) a r = Some r'" "reg_inv (H(a := H a - 1)) D K' r'"
      "reg_shrink (kids r) K' r r'" "zeros r' \<subseteq> zeros r"
    by (rule dropsD [OF unref_depth_drops inv h counted_bound [OF inv] self])
  with reg_ok_shrunk [OF _ _ _ z(1,2) inv z(3)] show ?thesis unfolding inode_unref_def by blast
qed

text \<open>Dropping the hold of a cursor, or of the list that an entry was detached from.\<close>

lemma drop_last_dirent:
  assumes inv: "reg_inv H D K r" and e: "dirents r d = Some e" and held: "D d = 1"
    and out: "\<And>a. d \<notin> set (K a)" and outside: "\<And>i. inodes r (d_inode e) = Some i \<Longrightarrow> d \<notin> set (i_children i)"
  shows "reg_inv (H(d_inode e := H (d_inode e) + 1)) (D(d := 0)) K
    (r\<lparr>dirent_count := dirent_count r - 1, dirents := (dirents r)(d := None)\<rparr>)" (is "reg_inv ?H ?D K ?r")
proof -
  let ?t = "d_inode e"
  obtain j where j: "inodes r ?t = Some j" using inv_dirent [OF inv e] by auto
  have refs: "refset ?r x = (if x = ?t then refset r x - {d} else refset r x)" for x
    using e by (auto simp: refset_def)
  have mem: "d \<in> refset r ?t" using outside e by (auto simp: refset_def)
  have cards: "int (card (refset ?r x) + ?H x) = int (card (refset r x) + H x)" for x
    using card_Suc_Diff1 [OF finite_refset [OF inv, of ?t] mem] unfolding refs by auto
  have fin: "finite (dom (dirents r))" using inv by (simp add: reg_inv_def inv_dirents_def)
  have dom: "dom (dirents ?r) = dom (dirents r) - {d}" by auto
  have card: "int (card (dom (dirents r) - {d})) = int (card (dom (dirents r))) - 1"
    by (rule card_dom_remove [OF fin e])
  have inx: "inodes ?r = inodes r" "fresh ?r = fresh r" by simp_all
  have "inv_inodes ?H K ?r"
    using inv j unfolding inv_inodes_def reg_inv_def cards inx by auto
  moreover have "inv_dirents ?H ?D K ?r"
    using inv fin card out unfolding inv_dirents_def reg_inv_def dom inx by (auto split: if_splits)
  ultimately show ?thesis by (simp add: reg_inv_def)
qed

lemma dirent_count_down:
  assumes inv: "reg_inv H D K r" and e: "dirents r d = Some e" and held: "0 < D d" "1 < d_refcount e"
  shows "reg_inv H (D(d := D d - 1)) K (set_dirent d (e\<lparr>d_refcount := d_refcount e - 1\<rparr>) r)" (is "reg_inv H ?D K ?r")
proof -
  have refs: "refset ?r x = refset r x" for x by (rule refset_cong) (use e in auto)
  have dom: "dom (dirents ?r) = dom (dirents r)" using e by auto
  have "inv_inodes H K ?r" using inv unfolding inv_inodes_def reg_inv_def refs by auto
  moreover have "inv_dirents H ?D K ?r"
    using inv e held unfolding inv_dirents_def reg_inv_def dom by (auto split: if_splits)
  ultimately show ?thesis by (simp add: reg_inv_def)
qed

lemma dirent_unref_ok:
  assumes ok: "reg_ok H D r" and h: "0 < D d"
  shows "\<exists>r'. dirent_unref d r = Some r' \<and> reg_ok H (D(d := D d - 1)) r' \<and> reg_less r r'"
proof -
  from ok have inv: "reg_inv H D (kids r) r" and z: "zeros r = {}" "0 < fresh r" "dirent_count r \<le> REG_MAX_DIRENTS" by (simp_all add: reg_ok_def)
  obtain e where e: "dirents r d = Some e" using inv_no_dirent [OF inv, of d] h by (cases "dirents r d") auto
  have d0: "d \<noteq> 0" "0 < d_refcount e" using inv_dirent [OF inv e] by auto
  show ?thesis
  proof (cases "d_refcount e = 1")
    case False
    define r1 where "r1 = set_dirent d (e\<lparr>d_refcount := d_refcount e - 1\<rparr>) r"
    have "reg_inv H (D(d := D d - 1)) (kids r) r1" unfolding r1_def
      by (rule dirent_count_down [OF inv e h]) (use False d0 in simp)
    moreover have "reg_shrink (kids r) (kids r) r r1" using e by (auto simp: reg_shrink_def r1_def)
    moreover have "zeros r1 = zeros r" by (simp add: zeros_def r1_def)
    moreover have "dirent_unref d r = Some r1"
      using e d0 False by (simp add: dirent_unref_def dirent_put_def Let_def r1_def)
    ultimately show ?thesis using reg_ok_shrunk [OF _ _ _ z(1,2) inv z(3)] by blast
  next
    case True
    have D1: "D d = 1" and out: "d \<notin> set (kids r a)" for a
      using inv_dirent [OF inv e] h True by (auto split: if_splits)
    define r1 where "r1 = r\<lparr>dirent_count := dirent_count r - 1, dirents := (dirents r)(d := None)\<rparr>"
    let ?t = "d_inode e" let ?H = "H(?t := H ?t + 1)"
    have inv1: "reg_inv ?H (D(d := 0)) (kids r) r1" unfolding r1_def
      by (rule drop_last_dirent [OF inv e D1 out]) (use out [of ?t] in \<open>auto simp: kids_def\<close>)
    have k1: "kids r1 = kids r" "zeros r1 = zeros r" by (simp_all add: r1_def kids_def zeros_def fun_eq_iff)
    have ok1: "reg_ok ?H (D(d := 0)) r1" using inv1 z k1 by (simp add: reg_ok_def r1_def)
    have self: "1 < ?H ?t" if "dirents r1 x = Some f" "d_inode f = ?t" "inodes r1 ?t = Some k"
        "x \<in> set (i_children k)" "0 < (D(d := 0)) x" for x f k
      using that inv_self [OF inv, of x f k] by (auto simp: r1_def split: if_splits)
    have "\<exists>r'. inode_unref ?t r1 = Some r' \<and> reg_ok (?H(?t := ?H ?t - 1)) (D(d := 0)) r' \<and> reg_less r1 r'"
      by (rule inode_unref_ok [OF ok1]) (simp, rule self)
    moreover have "reg_less r r1"
      unfolding reg_less_def k1 by (auto simp: reg_shrink_def r1_def split: if_splits)
    moreover have "dirent_unref d r = inode_unref ?t r1"
      using e d0 True by (simp add: dirent_unref_def dirent_put_def Let_def r1_def)
    moreover have "?H(?t := ?H ?t - 1) = H" "D(d := D d - 1) = D(d := 0)" using D1 by simp_all
    ultimately show ?thesis by (metis reg_less_trans)
  qed
qed

lemma ok_pos: "reg_ok H D r \<Longrightarrow> inodes r a = Some i \<Longrightarrow> 0 < i_refcount i"
  using inv_inode [OF reg_okD, of H D r a i] unfolding reg_ok_def zeros_def by (cases "i_refcount i = 0") auto

section \<open>Adding and detaching entries\<close>

lemma reg_inv_cong:
  assumes "inodes r' = inodes r" "dirents r' = dirents r" "inode_count r' = inode_count r"
    "dirent_count r' = dirent_count r" "fresh r \<le> fresh r'"
  shows "reg_inv H D K r \<Longrightarrow> reg_inv H D K r'"
proof -
  have refs: "refset r' = refset r" using assms(1,2) by (simp add: refset_def fun_eq_iff)
  have lt: "a < fresh r \<Longrightarrow> a < fresh r'" for a using assms(5) by simp
  have "inv_inodes H K r \<Longrightarrow> inv_inodes H K r'"
    unfolding inv_inodes_def assms(1-4) refs by (auto intro: lt)
  moreover have "inv_dirents H D K r \<Longrightarrow> inv_dirents H D K r'"
    unfolding inv_dirents_def assms(1-4) by (auto intro: lt split: if_splits)
  ultimately show "reg_inv H D K r \<Longrightarrow> reg_inv H D K r'" by (simp add: reg_inv_def)
qed

lemma reg_ok_cong:
  assumes "inodes r' = inodes r" "dirents r' = dirents r" "inode_count r' = inode_count r"
    "dirent_count r' = dirent_count r" "fresh r \<le> fresh r'"
  shows "reg_ok H D r \<Longrightarrow> reg_ok H D r'"
proof -
  have "kids r' = kids r" "zeros r' = zeros r" using assms(1) by (simp_all add: kids_def zeros_def fun_eq_iff)
  then show "reg_ok H D r \<Longrightarrow> reg_ok H D r'"
    using reg_inv_cong [OF assms] assms(4,5) by (simp add: reg_ok_def)
qed

lemma reg_ok_answers [simp]: "reg_ok H D r \<Longrightarrow> reg_ok H D (r\<lparr>answers := as\<rparr>)"
  by (rule reg_ok_cong [of "r\<lparr>answers := as\<rparr>" r]) simp_all

lemma kmalloc_ok_cases: obtains as where "kmalloc_ok r = (True, r\<lparr>answers := as\<rparr>)" | as where "kmalloc_ok r = (False, r\<lparr>answers := as\<rparr>)"
proof (cases "answers r")
  case Nil
  then have "kmalloc_ok r = (True, r\<lparr>answers := []\<rparr>)" by (simp add: kmalloc_ok_def)
  then show thesis using that by blast
next
  case (Cons a as)
  then have "kmalloc_ok r = (a, r\<lparr>answers := as\<rparr>)" by (simp add: kmalloc_ok_def)
  then show thesis using that by (cases a) auto
qed

text \<open>The registry with a new entry \<open>name\<close> for \<open>t\<close> at the head of the list of \<open>dir\<close>.\<close>

definition add_entry :: "nat \<Rightarrow> string \<Rightarrow> nat \<Rightarrow> reg \<Rightarrow> reg" where
  "add_entry dir name t r = r\<lparr>fresh := fresh r + 1, dirent_count := dirent_count r + 1,
     dirents := (dirents r)(fresh r \<mapsto> \<lparr>d_name = name, d_refcount = 1, d_inode = t\<rparr>),
     inodes := (\<lambda>x. map_option (\<lambda>i. i\<lparr>
       i_children := (if x = dir then fresh r # i_children i else i_children i),
       i_refcount := (if x = t \<and> t \<noteq> dir then i_refcount i + 1 else i_refcount i)\<rparr>) (inodes r x))\<rparr>"

lemma ok_kid: "reg_ok H D r \<Longrightarrow> d \<in> set (kids r a) \<Longrightarrow> \<exists>e. dirents r d = Some e"
  using inv_no_dirent [OF reg_okD, of H D r d a] by (cases "dirents r d") auto

lemma ok_fresh:
  assumes "reg_ok H D r"
  shows "inodes r (fresh r) = None" "dirents r (fresh r) = None" "fresh r \<notin> set (kids r a)"
proof -
  show "inodes r (fresh r) = None" "dirents r (fresh r) = None"
    using inv_inode [OF reg_okD [OF assms], of "fresh r"] inv_dirent [OF reg_okD [OF assms], of "fresh r"]
    by (cases "inodes r (fresh r)", auto, cases "dirents r (fresh r)", auto)
  then show "fresh r \<notin> set (kids r a)" using ok_kid [OF assms] by fastforce
qed

lemma add_entry_simps [simp]:
  "dirents (add_entry dir name t r) = (dirents r)(fresh r \<mapsto> \<lparr>d_name = name, d_refcount = 1, d_inode = t\<rparr>)"
  "fresh (add_entry dir name t r) = fresh r + 1" "reg_root (add_entry dir name t r) = reg_root r"
  "mounts (add_entry dir name t r) = mounts r" "answers (add_entry dir name t r) = answers r"
  by (simp_all add: add_entry_def)

lemma kids_add_entry: "inodes r dir \<noteq> None \<Longrightarrow> kids (add_entry dir name t r) = (kids r)(dir := fresh r # kids r dir)"
  by (auto simp: kids_def add_entry_def fun_eq_iff split: option.splits)

lemma add_entry_ok:
  assumes ok: "reg_ok H D r" and i: "inodes r dir = Some i" "i_type i = INODE_DIR" and j: "inodes r t = Some j"
    and room: "dirent_count r < REG_MAX_DIRENTS"
  shows "reg_ok H D (add_entry dir name t r)" (is "reg_ok H D ?r")
proof -
  let ?d = "fresh r" let ?n = "inodes ?r"
  note inv = reg_okD [OF ok]
  have fr: "inodes r ?d = None" "dirents r ?d = None" "?d \<notin> set (kids r a)" for a by (rule ok_fresh [OF ok])+
  have unused: "?d \<notin> set (i_children k)" if "inodes r x = Some k" for x k
    using fr(3) [of x] that by (simp add: kids_def)
  have n: "?n x = map_option (\<lambda>i. i\<lparr>
       i_children := (if x = dir then ?d # i_children i else i_children i),
       i_refcount := (if x = t \<and> t \<noteq> dir then i_refcount i + 1 else i_refcount i)\<rparr>) (inodes r x)" for x
    by (simp add: add_entry_def)
  have refs: "refset ?r x = (if x = t \<and> t \<noteq> dir then insert ?d (refset r x) else refset r x)" for x
  proof (cases "inodes r x")
    case None
    then have "x \<noteq> t" "x \<noteq> dir" using i j by auto
    then show ?thesis using None fr(2) by (auto simp: refset_def n)
  next
    case (Some k)
    then show ?thesis using unused [OF Some] fr(2) by (auto simp: refset_def n)
  qed
  have notin: "?d \<notin> refset r x" for x using fr(2) by (auto simp: refset_def)
  have cards: "card (refset ?r x) = (if x = t \<and> t \<noteq> dir then card (refset r x) + 1 else card (refset r x))" for x
    using notin finite_refset [OF inv, of x] unfolding refs by auto
  have domn: "dom ?n = dom (inodes r)" by (auto simp: n)
  have domd: "dom (dirents ?r) = insert ?d (dom (dirents r))" by auto
  have fin: "finite (dom (dirents r))" using inv by (simp add: reg_inv_def inv_dirents_def)
  have cardd: "card (insert ?d (dom (dirents r))) = card (dom (dirents r)) + 1" using fin fr(2) by (subst card_insert_disjoint) auto
  have kd: "kids ?r = (kids r)(dir := ?d # kids r dir)" by (rule kids_add_entry) (use i in simp)
  have z: "zeros r = {}" "0 < fresh r" using ok by (simp_all add: reg_ok_def)
  have zero: "i_refcount k \<noteq> 0 \<and> 0 \<le> i_refcount k" if "inodes r x = Some k" for x k
    using that z inv_inode [OF inv that] by (auto simp: zeros_def)
  have "inv_inodes H (kids ?r) ?r"
    unfolding inv_inodes_def
  proof (intro conjI allI impI)
    show "finite (dom ?n)" "inode_count ?r = int (card (dom ?n))"
      using inv unfolding domn by (simp_all add: reg_inv_def inv_inodes_def add_entry_def)
    fix a k assume "?n a = Some k"
    then obtain k0 where k0: "inodes r a = Some k0" "k = k0\<lparr>
       i_children := (if a = dir then ?d # i_children k0 else i_children k0),
       i_refcount := (if a = t \<and> t \<noteq> dir then i_refcount k0 + 1 else i_refcount k0)\<rparr>" by (auto simp: n)
    have kk: "kids r a = i_children k0" using k0(1) by (simp add: kids_def)
    note f = inv_inode [OF inv k0(1)]
    show "0 < a" "a < fresh ?r" "i_refcount k = int (card (refset ?r a) + H a)"
      using f k0(2) by (auto simp: cards)
    show "set (kids ?r a) \<subseteq> set (i_children k)" "distinct (kids ?r a)" "distinct (i_children k)" "kids ?r a = i_children k"
      using f k0(2) kk unused [OF k0(1)] by (auto simp: kd)
    assume "i_type k \<noteq> INODE_DIR" then show "i_children k = []" using f k0 i by (auto split: if_splits)
  next
    fix a assume "?n a = None"
    then have "inodes r a = None" by (simp add: n)
    then show "H a = 0" "kids ?r a = []" using inv_no_inode [OF inv] i by (auto simp: kd)
  next
    fix a b k l assume "?n a = Some k" "?n b = Some l" "a \<noteq> b"
    then obtain k0 l0 where "inodes r a = Some k0" "inodes r b = Some l0"
      "i_children k = (if a = dir then ?d # i_children k0 else i_children k0)"
      "i_children l = (if b = dir then ?d # i_children l0 else i_children l0)" by (auto simp: n)
    then show "set (i_children k) \<inter> set (i_children l) = {}"
      using unused inv_apart [OF inv, of a k0 b l0] \<open>a \<noteq> b\<close> by auto
  qed
  moreover have "inv_dirents H D (kids ?r) ?r"
    unfolding inv_dirents_def
  proof (intro conjI allI impI)
    show "finite (dom (dirents ?r))" using fin unfolding domd by simp
    show "dirent_count ?r = int (card (dom (dirents ?r)))"
      using inv unfolding domd cardd by (simp add: reg_inv_def inv_dirents_def add_entry_def)
    fix d e assume e: "dirents ?r d = Some e"
    have mem: "(\<exists>a. d \<in> set (kids ?r a)) \<longleftrightarrow> d = ?d \<or> (\<exists>a. d \<in> set (kids r a))"
      unfolding kd by (auto split: if_splits)
    have d0: "D ?d = 0" using inv_no_dirent [OF inv fr(2)] by simp
    show "0 < d" "d < fresh ?r" "?n (d_inode e) \<noteq> None" "0 < d_refcount e"
      using e inv_dirent [OF inv, of d e] j z(2) by (auto simp: n split: if_splits)
    show "d_refcount e = D d + (if \<exists>a. d \<in> set (kids ?r a) then 1 else 0)"
      unfolding mem using e inv_dirent [OF inv, of d e] d0 by (auto split: if_splits)
    fix k assume k: "?n (d_inode e) = Some k" "d \<in> set (i_children k)" "0 < D d"
    then have "dirents r d = Some e" "d \<noteq> ?d" using e d0 by (auto split: if_splits)
    then show "0 < H (d_inode e)" using k inv_self [OF inv, of d e] by (auto simp: n split: if_splits)
  next
    fix d assume "dirents ?r d = None"
    then have "dirents r d = None" "d \<noteq> ?d" by (auto split: if_splits)
    then show "D d = 0" "d \<notin> set (kids ?r a)" for a using inv_no_dirent [OF inv] by (auto simp: kd)
  qed
  moreover have "zeros ?r = {}"
  proof (rule equals0I)
    fix a assume "a \<in> zeros ?r"
    then obtain k where "inodes r a = Some k" "i_refcount k = 0 \<or> i_refcount k + 1 = 0"
      by (auto simp: zeros_def n split: if_splits)
    with zero show False by fastforce
  qed
  ultimately show ?thesis using room by (simp add: reg_ok_def reg_inv_def add_entry_def)
qed

lemma card_refset_le: "reg_inv H D K r \<Longrightarrow> int (card (refset r a)) \<le> dirent_count r"
proof -
  assume inv: "reg_inv H D K r"
  then have "finite (dom (dirents r))" "dirent_count r = int (card (dom (dirents r)))"
    by (simp_all add: reg_inv_def inv_dirents_def)
  moreover have "refset r a \<subseteq> dom (dirents r)" by (auto simp: refset_def)
  ultimately show ?thesis using card_mono by fastforce
qed

text \<open>Fewer than 2000000000 holders keep a count away from its limit, where it sticks.\<close>

abbreviation few :: "nat \<Rightarrow> bool" where "few n \<equiv> n < 2000000000"

lemma linkdirent_cases:
  assumes ok: "reg_ok H D r" and i: "inodes r dir = Some i" and j: "inodes r t = Some j" and few: "few (H t)"
  obtains as where "registry_linkdirent dir name t r = Some (0, r\<lparr>answers := as\<rparr>)"
  | as where "registry_linkdirent dir name t r = Some (fresh r, add_entry dir name t (r\<lparr>answers := as\<rparr>))"
      "name \<noteq> []" "length name < REG_MAX_NAME_LEN" "dirent_count r < REG_MAX_DIRENTS"
proof (cases "name = [] \<or> REG_MAX_NAME_LEN \<le> length name")
  case True
  then have "registry_linkdirent dir name t r = Some (0, r\<lparr>answers := answers r\<rparr>)"
    by (simp add: registry_linkdirent_def)
  then show thesis by (rule that(1))
next
  case False
  note name = this
  show thesis
  proof (cases rule: kmalloc_ok_cases [of r])
    case (2 as)
    then have "registry_linkdirent dir name t r = Some (0, r\<lparr>answers := as\<rparr>)"
      using name by (simp add: registry_linkdirent_def)
    then show thesis by (rule that(1))
  next
    case (1 as)
    let ?r1 = "r\<lparr>answers := as\<rparr>"
    show thesis
    proof (cases "REG_MAX_DIRENTS \<le> dirent_count r")
      case True
      then have "registry_linkdirent dir name t r = Some (0, r\<lparr>answers := as\<rparr>)"
        using name 1 by (simp add: registry_linkdirent_def dirent_alloc_def)
      then show thesis by (rule that(1))
    next
      case room: False
      show thesis
      proof (cases rule: kmalloc_ok_cases [of ?r1])
        case (2 bs)
        then have "registry_linkdirent dir name t r = Some (0, r\<lparr>answers := bs\<rparr>)"
          using name 1 room by (simp add: registry_linkdirent_def dirent_alloc_def)
        then show thesis by (rule that(1))
      next
        case 2: (1 bs)
        let ?r = "add_entry dir name t (r\<lparr>answers := bs\<rparr>)"
        have "card (refset r t) \<le> 262144"
          using card_refset_le [OF reg_okD [OF ok], of t] room by (simp add: REG_MAX_DIRENTS_def)
        then have rc: "i_refcount j < INT_MAX"
          using inv_inode [OF reg_okD [OF ok] j] few by (simp add: INT_MAX_def)
        have pos: "0 < fresh r" using ok by (simp add: reg_ok_def)
        have "registry_linkdirent dir name t r = Some (fresh r, ?r)"
        proof (cases "t = dir")
          case True
          then show ?thesis using name 1 2 room pos i
            by (simp add: registry_linkdirent_def dirent_alloc_def Let_def set_inode_def set_dirent_def add_entry_def)
              (rule reg.equality; use i j in \<open>auto simp: fun_eq_iff option.map_ident\<close>)
        next
          case False
          then have "t \<noteq> 0" using inv_inode [OF reg_okD [OF ok] j] by simp
          then show ?thesis using name 1 2 room pos i j rc False
            by (simp add: registry_linkdirent_def dirent_alloc_def Let_def set_inode_def set_dirent_def add_entry_def inode_ref_def)
              (rule reg.equality; use i j in \<open>auto simp: fun_eq_iff option.map_ident\<close>)
        qed
        then show thesis by (rule that(2)) (use name room in auto)
      qed
    qed
  qed
qed

text \<open>A new inode, held by its creator.\<close>

definition new_inode :: "inode_type \<Rightarrow> reg \<Rightarrow> reg" where
  "new_inode ty r = r\<lparr>fresh := fresh r + 1, inode_count := inode_count r + 1,
     inodes := (inodes r)(fresh r \<mapsto> \<lparr>i_type = ty, i_refcount = 1, i_deleted = False, i_impl = 0,
       i_ops = 0, i_children = [], i_mnt = None\<rparr>)\<rparr>"

lemma inode_alloc_cases:
  assumes "0 < fresh r"
  obtains as where "registry_inode_alloc ty r = (0, r\<lparr>answers := as\<rparr>)"
  | as where "registry_inode_alloc ty r = (fresh r, new_inode ty (r\<lparr>answers := as\<rparr>))"
proof (cases "REG_MAX_INODES \<le> inode_count r")
  case True
  then have "registry_inode_alloc ty r = (0, r\<lparr>answers := answers r\<rparr>)" by (simp add: registry_inode_alloc_def)
  then show thesis by (rule that(1))
next
  case room: False
  show thesis
  proof (cases rule: kmalloc_ok_cases [of r])
    case (1 as)
    then show thesis using room by (intro that(2) [of as]) (simp add: registry_inode_alloc_def new_inode_def Let_def)
  next
    case (2 as)
    then show thesis using room by (intro that(1) [of as]) (simp add: registry_inode_alloc_def)
  qed
qed

lemma kids_new_inode: "inodes r (fresh r) = None \<Longrightarrow> kids (new_inode ty r) = kids r"
  by (auto simp: kids_def new_inode_def fun_eq_iff split: option.splits)

lemma new_inode_ok:
  assumes ok: "reg_ok H D r"
  shows "reg_ok (H(fresh r := 1)) D (new_inode ty r)" (is "reg_ok ?H D ?r")
proof -
  let ?a = "fresh r"
  note inv = reg_okD [OF ok]
  have fr: "inodes r ?a = None" by (rule ok_fresh [OF ok])
  have z: "zeros r = {}" "0 < fresh r" "dirent_count r \<le> REG_MAX_DIRENTS" using ok by (simp_all add: reg_ok_def)
  have h0: "H ?a = 0" using inv_no_inode [OF inv fr] by simp
  have none: "d_inode e \<noteq> ?a" if "dirents r d = Some e" for d e using inv_dirent [OF inv that] fr by auto
  have n: "inodes ?r x = (if x = ?a then Some \<lparr>i_type = ty, i_refcount = 1, i_deleted = False, i_impl = 0,
       i_ops = 0, i_children = [], i_mnt = None\<rparr> else inodes r x)" "dirents ?r = dirents r" "fresh ?r = ?a + 1"
    "inode_count ?r = inode_count r + 1" "dirent_count ?r = dirent_count r" for x by (simp_all add: new_inode_def)
  have refs: "refset ?r x = (if x = ?a then {} else refset r x)" for x
    using none by (auto simp: refset_def n)
  have dom: "dom (inodes ?r) = insert ?a (dom (inodes r))" by (auto simp: n split: if_splits)
  have fin: "finite (dom (inodes r))" "inode_count r = int (card (dom (inodes r)))"
    using inv by (simp_all add: reg_inv_def inv_inodes_def)
  have card: "card (insert ?a (dom (inodes r))) = card (dom (inodes r)) + 1"
    using fin fr by (subst card_insert_disjoint) auto
  have "inv_inodes ?H (kids r) ?r"
    unfolding inv_inodes_def dom card
  proof (intro conjI allI impI)
    fix a i assume "inodes ?r a = Some i"
    moreover have "kids r ?a = []" using fr by (simp add: kids_def)
    ultimately show "0 < a" "a < fresh ?r" "i_refcount i = int (card (refset ?r a) + ?H a)" "set (kids r a) \<subseteq> set (i_children i)"
        "distinct (kids r a)" "distinct (i_children i)"
      and "0 < i_refcount i \<Longrightarrow> kids r a = i_children i" "i_type i \<noteq> INODE_DIR \<Longrightarrow> i_children i = []"
      using inv_inode [OF inv, of a i] z(2) by (auto simp: n refs split: if_splits)
  next
    fix a b i j assume "inodes ?r a = Some i" "inodes ?r b = Some j" "a \<noteq> b"
    then show "set (i_children i) \<inter> set (i_children j) = {}"
      using inv_apart [OF inv, of a i b j] by (auto simp: n split: if_splits)
  qed (use fin inv_no_inode [OF inv] in \<open>auto simp: n split: if_splits\<close>)
  moreover have "inv_dirents ?H D (kids r) ?r"
    unfolding inv_dirents_def
  proof (intro conjI allI impI)
    fix d e assume e: "dirents ?r d = Some e"
    then have e': "dirents r d = Some e" by (simp add: n)
    show "0 < d" "d < fresh ?r" "inodes ?r (d_inode e) \<noteq> None" "0 < d_refcount e"
      "d_refcount e = D d + (if \<exists>a. d \<in> set (kids r a) then 1 else 0)"
      using inv_dirent [OF inv e'] none [OF e'] by (auto simp: n)
    fix i assume "inodes ?r (d_inode e) = Some i" "d \<in> set (i_children i)" "0 < D d"
    then show "0 < ?H (d_inode e)" using inv_self [OF inv e'] none [OF e'] by (simp add: n)
  next
    fix d a assume "dirents ?r d = None"
    then show "D d = 0" "d \<notin> set (kids r a)" using inv_no_dirent [OF inv] by (simp_all add: n)
  qed (use inv in \<open>simp_all add: n reg_inv_def inv_dirents_def\<close>)
  moreover have "zeros ?r = {}" using z by (auto simp: zeros_def n split: if_splits)
  ultimately show ?thesis using kids_new_inode [OF fr] n(3,5) z(3) by (simp add: reg_ok_def reg_inv_def)
qed

lemma inode_ref_ok:
  assumes ok: "reg_ok H D r" and i: "inodes r a = Some i" and few: "few (H a)"
  shows "inode_ref a r = Some (set_inode a (i\<lparr>i_refcount := i_refcount i + 1\<rparr>) r)"
    and "reg_ok (H(a := H a + 1)) D (set_inode a (i\<lparr>i_refcount := i_refcount i + 1\<rparr>) r)"
proof -
  let ?r = "set_inode a (i\<lparr>i_refcount := i_refcount i + 1\<rparr>) r"
  note inv = reg_okD [OF ok]
  have "i_refcount i < INT_MAX" "0 < a" "0 < i_refcount i"
    using inv_inode [OF inv i] few card_refset_le [OF inv, of a] ok_pos [OF ok i] ok
    by (simp_all add: INT_MAX_def REG_MAX_DIRENTS_def reg_ok_def)
  then show "inode_ref a r = Some ?r" using i by (simp add: inode_ref_def)
  have refs: "refset ?r x = refset r x" for x by (rule refset_cong) (use i in auto)
  have dom: "dom (inodes ?r) = dom (inodes r)" using i by auto
  have kd: "kids ?r = kids r" using i by (simp add: kids_def fun_eq_iff)
  have "inv_inodes (H(a := H a + 1)) (kids r) ?r"
    using inv i \<open>0 < i_refcount i\<close> unfolding inv_inodes_def reg_inv_def refs dom by (auto split: if_splits)
  moreover have "inv_dirents (H(a := H a + 1)) D (kids r) ?r"
    using inv i unfolding inv_dirents_def reg_inv_def by (auto split: if_splits)
  moreover have "zeros ?r = {}" "0 < fresh ?r" "dirent_count ?r \<le> REG_MAX_DIRENTS"
    using ok \<open>0 < i_refcount i\<close> by (auto simp: reg_ok_def zeros_def split: if_splits)
  ultimately show "reg_ok (H(a := H a + 1)) D ?r" by (simp add: reg_ok_def reg_inv_def kd)
qed

text \<open>Detaching an entry that is not the directory's own turns its place in the list into a hold.\<close>

lemma kids_set_inode: "kids (set_inode a i r) = (kids r)(a := i_children i)"
  by (auto simp: kids_def fun_eq_iff)

lemma detach_ok:
  assumes ok: "reg_ok H D r" and i: "inodes r dir = Some i" and d: "d \<in> set (i_children i)"
    and e: "dirents r d = Some e" and other: "d_inode e \<noteq> dir"
  shows "reg_ok H (D(d := D d + 1)) (set_inode dir (i\<lparr>i_children := remove1 d (i_children i)\<rparr>) r)"
    (is "reg_ok H ?D ?r")
proof -
  note inv = reg_okD [OF ok]
  have ki: "kids r dir = i_children i" using i by (simp add: kids_def)
  have kd: "kids ?r = (kids r)(dir := remove1 d (i_children i))" by (simp add: kids_set_inode)
  have dist: "distinct (i_children i)" using inv_inode [OF inv i] by simp
  then have rem: "set (remove1 d (i_children i)) = set (i_children i) - {d}" by simp
  have only: "d \<notin> set (kids r b)" if "b \<noteq> dir" for b
    using inv_K_unique [OF inv, of d b dir] d ki that by auto
  have refs: "refset ?r x = refset r x" for x
    using i e other by (auto simp: refset_def rem)
  have dom: "dom (inodes ?r) = dom (inodes r)" using i by auto
  have "inv_inodes H (kids ?r) ?r"
    unfolding inv_inodes_def dom refs
  proof (intro conjI allI impI)
    fix a k assume k: "inodes ?r a = Some k"
    have "inodes r a = Some (if a = dir then i else k)" using k i by (auto split: if_splits)
    note f = inv_inode [OF inv this]
    have "a \<noteq> dir \<Longrightarrow> kids r a = i_children k" using k by (auto simp: kids_def)
    then show "0 < a" "a < fresh ?r" "i_refcount k = int (card (refset r a) + H a)" "set (kids ?r a) \<subseteq> set (i_children k)"
      "distinct (kids ?r a)" "distinct (i_children k)" "kids ?r a = i_children k" "i_type k \<noteq> INODE_DIR \<Longrightarrow> i_children k = []"
      using f k dist unfolding kd by (auto split: if_splits dest: distinct_remove1)
  next
    fix a b k l assume "inodes ?r a = Some k" "inodes ?r b = Some l" "a \<noteq> b"
    then show "set (i_children k) \<inter> set (i_children l) = {}"
      using inv_apart [OF inv, of a k b l] inv_apart [OF inv i, of b l] inv_apart [OF inv, of a k dir i] i
      by (auto simp: rem split: if_splits)
  next
    fix a assume "inodes ?r a = None"
    then show "H a = 0" "kids ?r a = []" using inv_no_inode [OF inv] by (auto simp: kd split: if_splits)
  qed (use inv in \<open>simp_all add: reg_inv_def inv_inodes_def\<close>)
  moreover have "inv_dirents H ?D (kids ?r) ?r"
  proof -
    have mem: "(\<exists>b. x \<in> set (kids ?r b)) \<longleftrightarrow> x \<noteq> d \<and> (\<exists>b. x \<in> set (kids r b))" for x
    proof -
      have "x \<in> set (kids ?r b) \<longleftrightarrow> x \<noteq> d \<and> x \<in> set (kids r b)" for b
        unfolding kd using only [of b] rem ki by (cases "b = dir") auto
      then show ?thesis by blast
    qed
    have self: "0 < H (d_inode f)" if f: "dirents r x = Some f" "inodes ?r (d_inode f) = Some k" "x \<in> set (i_children k)" "0 < ?D x" for x f k
    proof (cases "x = d")
      case True
      then have fe: "f = e" using e f(1) by simp
      then have "inodes r (d_inode e) = Some k" using f(2) other by simp
      then show ?thesis using f(3) True only [OF other] by (simp add: kids_def)
    next
      case False
      then have D: "0 < D x" using f(4) by simp
      show ?thesis
      proof (cases "d_inode f = dir")
        case True
        then have "k = i\<lparr>i_children := remove1 d (i_children i)\<rparr>" using f(2) by simp
        then have "x \<in> set (remove1 d (i_children i))" using f(3) by simp
        then have x: "x \<in> set (i_children i)" unfolding rem by blast
        have "inodes r (d_inode f) = Some i" unfolding True by (rule i)
        from inv_self [OF inv f(1) this x D] show ?thesis .
      next
        case False
        then have "inodes r (d_inode f) = Some k" using f(2) by simp
        from inv_self [OF inv f(1) this f(3) D] show ?thesis .
      qed
    qed
    have has: "\<exists>b. d \<in> set (kids r b)" using d ki by (intro exI [of _ dir]) simp
    show ?thesis unfolding inv_dirents_def
    proof (intro conjI allI impI)
      fix x f assume "dirents ?r x = Some f"
      then have f: "dirents r x = Some f" by simp
      show "0 < d_refcount f" using inv_dirent [OF inv f] by blast
      show "0 < x" "x < fresh ?r" "inodes ?r (d_inode f) \<noteq> None"
        using inv_dirent [OF inv f] by simp_all
      show "d_refcount f = ?D x + (if \<exists>a. x \<in> set (kids ?r a) then 1 else 0)"
        unfolding mem using inv_dirent [OF inv f] has by (cases "x = d") simp_all
    next
      fix x assume "dirents ?r x = None"
      then have "dirents r x = None" "x \<noteq> d" using e by auto
      then show "?D x = 0" "x \<notin> set (kids ?r b)" for b using inv_no_dirent [OF inv] mem [of x] by auto
    next
      fix x f k assume "dirents ?r x = Some f" "inodes ?r (d_inode f) = Some k" "x \<in> set (i_children k)" "0 < ?D x"
      then show "0 < H (d_inode f)" by (intro self) simp_all
    qed (use inv in \<open>simp_all add: reg_inv_def inv_dirents_def\<close>)
  qed
  moreover have "zeros ?r = {}" using ok ok_pos [OF ok i] by (auto simp: reg_ok_def zeros_def split: if_splits)
  ultimately show ?thesis using ok by (simp add: reg_ok_def reg_inv_def)
qed

text \<open>Marking a directory, and pointing an entry to another inode.\<close>

lemma mark_ok:
  assumes ok: "reg_ok H D r" and i: "inodes r a = Some i"
    and i': "i_refcount i' = i_refcount i" "i_children i' = i_children i" "i_type i' = i_type i"
  shows "reg_ok H D (set_inode a i' r)" (is "reg_ok H D ?r")
proof -
  note inv = reg_okD [OF ok]
  have refs: "refset ?r x = refset r x" for x by (rule refset_cong) (use i i' in auto)
  have dom: "dom (inodes ?r) = dom (inodes r)" using i by auto
  have kd: "kids ?r = kids r" using i i' by (auto simp: kids_def fun_eq_iff)
  have "inv_inodes H (kids r) ?r"
    using inv i i' unfolding inv_inodes_def reg_inv_def refs dom by (auto split: if_splits)
  moreover have "inv_dirents H D (kids r) ?r"
    using inv i i' unfolding inv_dirents_def reg_inv_def by (auto split: if_splits)
  moreover have "zeros ?r = {}" using ok i i' by (auto simp: reg_ok_def zeros_def split: if_splits)
  ultimately show ?thesis using ok by (simp add: reg_ok_def reg_inv_def kd)
qed

lemma redirect_ok:
  assumes ok: "reg_ok (H(n := H n + 1)) D r" and e: "dirents r u = Some e" and n: "inodes r n = Some j"
    and ne: "d_inode e \<noteq> n" and out: "u \<notin> set (kids r n)" "u \<notin> set (kids r (d_inode e))"
    and self: "\<And>d f. dirents r d = Some f \<Longrightarrow> d_inode f = n \<Longrightarrow> d \<in> set (kids r n) \<Longrightarrow> 0 < D d \<Longrightarrow> 0 < H n"
  shows "reg_ok (H(d_inode e := H (d_inode e) + 1)) D (set_dirent u (e\<lparr>d_inode := n\<rparr>) r)" (is "reg_ok ?H D ?r")
proof -
  let ?p = "d_inode e"
  note inv = reg_okD [OF ok]
  obtain k where k: "inodes r ?p = Some k" using inv_dirent [OF inv e] by auto
  have kid: "i_children j = kids r n" "i_children k = kids r ?p" using n k by (simp_all add: kids_def)
  have refs: "refset ?r x = (if x = n then insert u (refset r n) else refset r x - {u})" for x
    using e n out ne kid by (auto simp: refset_def split: if_splits)
  have un: "u \<notin> refset r n" "u \<in> refset r ?p" and uo: "x \<noteq> ?p \<Longrightarrow> u \<notin> refset r x" for x
    using e ne k out kid by (auto simp: refset_def)
  have cards: "card (refset ?r x) + ?H x = card (refset r x) + (H(n := H n + 1)) x" for x
    using card_Suc_Diff1 [OF finite_refset [OF inv] un(2)] finite_refset [OF inv] un(1) uo [of x] ne
    unfolding refs by auto
  have dom: "dom (dirents ?r) = dom (dirents r)" using e by auto
  have kd: "kids ?r = kids r" by (simp add: kids_def fun_eq_iff)
  have inx: "inodes ?r = inodes r" "fresh ?r = fresh r" by simp_all
  have "inv_inodes ?H (kids r) ?r"
    unfolding inv_inodes_def inx
  proof (intro conjI allI impI)
    fix a i assume a: "inodes r a = Some i"
    note f = inv_inode [OF inv a]
    then show "i_refcount i = int (card (refset ?r a) + ?H a)" unfolding cards by blast
  next
    fix a assume "inodes r a = None"
    then show "?H a = 0" using inv_no_inode [OF inv, of a] k by (auto split: if_splits)
  qed (use inv in \<open>auto simp: reg_inv_def inv_inodes_def\<close>)
  moreover have "inv_dirents ?H D (kids r) ?r"
  proof -
    have s: "0 < ?H (d_inode f)" if "dirents ?r x = Some f" "inodes r (d_inode f) = Some l" "x \<in> set (i_children l)" "0 < D x" for x f l
    proof (cases "x = u")
      case True
      then show ?thesis using that n out by (auto simp: kids_def)
    next
      case False
      then have x: "dirents r x = Some f" using that by simp
      have "x \<in> set (kids r (d_inode f))" using that by (simp add: kids_def)
      then show ?thesis using inv_self [OF inv x that(2-4)] self [OF x] that by (auto split: if_splits)
    qed
    show ?thesis unfolding inv_dirents_def dom inx
    proof (intro conjI allI impI)
      fix d f assume f: "dirents ?r d = Some f"
      show "0 < d" "d < fresh r" "inodes r (d_inode f) \<noteq> None" "0 < d_refcount f"
        "d_refcount f = D d + (if \<exists>a. d \<in> set (kids r a) then 1 else 0)"
        using f inv_dirent [OF inv, of d] inv_dirent [OF inv e] e n by (auto split: if_splits)
    next
      fix d assume "dirents ?r d = None"
      then have "dirents r d = None" by (simp split: if_splits)
      then show "D d = 0" "d \<notin> set (kids r a)" for a using inv_no_dirent [OF inv] by simp_all
    qed (use inv s in \<open>simp_all add: reg_inv_def inv_dirents_def\<close>)
  qed
  ultimately show ?thesis using ok by (simp add: reg_ok_def reg_inv_def kd zeros_def)
qed

end
