(* ===== verification/Namespace.thy ===== *)
theory Namespace
  imports Registry
begin

text \<open>
  The operations on the name registry: the mount table (\<open>kernel/kernel/handle/mount.c\<close>), the
  walk along a path, and making, linking, renaming and unlinking entries
  (\<open>kernel/kernel/handle/registry.c\<close>).  An inode address 0 is the null pointer, and a result
  \<open>None\<close> is an access to a freed object.  A path is the list of its characters.
\<close>

section \<open>The mount table\<close>

definition mount_find :: "nat \<Rightarrow> reg \<Rightarrow> nat option" where
  "mount_find mountpoint r =
    (if mountpoint = 0 then None
     else List.find (\<lambda>m. m_in_use (mounts r ! m) \<and> m_mountpoint (mounts r ! m) = mountpoint)
            [0..<length (mounts r)])"

definition mount_attach :: "nat \<Rightarrow> nat \<Rightarrow> nat \<Rightarrow> reg \<Rightarrow> (int \<times> reg) option" where
  "mount_attach mountpoint fsid rootn r =
    (if mountpoint = 0 \<or> rootn = 0 then Some (-1, r)
     else if mount_find mountpoint r \<noteq> None then Some (-1, r)
     else do {
       i \<leftarrow> inodes r mountpoint;
       if i_mnt i \<noteq> None \<or> i_deleted i then Some (-1, r)
       else case List.find (\<lambda>m. \<not> m_in_use (mounts r ! m)) [0..<length (mounts r)] of
         None \<Rightarrow> Some (-1, r)
       | Some m \<Rightarrow> do {
           let r = r\<lparr>next_mount_id := next_mount_id r + 1,
                     mounts := (mounts r)[m := \<lparr>m_in_use = True, m_id = next_mount_id r,
                       m_mountpoint = mountpoint, m_root = rootn, m_fs = fsid, m_refcount = 0\<rparr>]\<rparr>;
           r \<leftarrow> inode_ref mountpoint r;
           r \<leftarrow> inode_ref rootn r;
           Some (0, r) } })"

text \<open>Clearing the mount that an inode is inside of.\<close>

definition clear_mnt :: "nat \<Rightarrow> reg \<Rightarrow> reg option" where
  "clear_mnt a r =
    (if a = 0 then Some r else do { i \<leftarrow> inodes r a; Some (set_inode a (i\<lparr>i_mnt := None\<rparr>) r) })"

definition mount_detach :: "(nat \<Rightarrow> fs_ops) \<Rightarrow> nat \<Rightarrow> reg \<Rightarrow> (int \<times> reg) option" where
  "mount_detach fs mountpoint r =
    (case mount_find mountpoint r of
       None \<Rightarrow> Some (-1, r)
     | Some m \<Rightarrow>
         let mt = mounts r ! m in
         if m_refcount mt > 0 then Some (-1, r)
         else do {
           r \<leftarrow> (case fs_finish (fs (m_fs mt)) of Some finish \<Rightarrow> finish r | None \<Rightarrow> Some r);
           r \<leftarrow> clear_mnt (m_root mt) r;
           r \<leftarrow> clear_mnt (m_mountpoint mt) r;
           let r = r\<lparr>mounts := (mounts r)[m := mt\<lparr>m_in_use := False, m_mountpoint := 0, m_root := 0,
                                              m_fs := 0, m_refcount := 0\<rparr>]\<rparr>;
           r \<leftarrow> inode_unref (m_root mt) r;
           r \<leftarrow> inode_unref (m_mountpoint mt) r;
           Some (0, r) })"

section \<open>Walking along a path\<close>

text \<open>Stepping from a mountpoint into the mounted file system.\<close>

definition enter_mount :: "nat \<Rightarrow> reg \<Rightarrow> (nat \<times> reg) option" where
  "enter_mount a r =
    (case mount_find a r of
       None \<Rightarrow> Some (a, r)
     | Some m \<Rightarrow> do {
         let t = m_root (mounts r ! m);
         i \<leftarrow> inodes r t;
         Some (t, set_inode t (i\<lparr>i_mnt := Some m\<rparr>) r) })"

text \<open>A component inside a mounted file system: the child and whether the walk left the mount.\<close>

definition walk_mounted :: "(nat \<Rightarrow> fs_ops) \<Rightarrow> nat \<Rightarrow> nat \<Rightarrow> string \<Rightarrow> reg \<Rightarrow> (nat \<times> bool \<times> reg) option" where
  "walk_mounted fs m current seg r =
    (let mt = mounts r ! m in
     if seg = ''..'' \<and> current = m_root mt then do {
       up \<leftarrow> registry_finddirent (m_mountpoint mt) ''..'' r;
       if up \<noteq> 0 then do { e \<leftarrow> dirents r up; Some (d_inode e, True, r) }
       else Some (m_mountpoint mt, True, r) }
     else case fs_lookup (fs (m_fs mt)) of
       Some look \<Rightarrow> do {
         (child, r) \<leftarrow> look current seg r;
         if child \<noteq> 0 then do {
           i \<leftarrow> inodes r child;
           Some (child, False, set_inode child (i\<lparr>i_mnt := Some m\<rparr>) r) }
         else Some (0, False, r) }
     | None \<Rightarrow> Some (0, False, r))"

text \<open>Undoing the entries of a directory that could not be completed.\<close>

definition undo_own :: "nat \<Rightarrow> string \<Rightarrow> reg \<Rightarrow> reg option" where
  "undo_own a name r = do {
     (d, r) \<leftarrow> dirent_detach a name r;
     if d \<noteq> 0 then do { e \<leftarrow> dirents r d; dirent_put inode_unref d (d_inode e \<noteq> a) r } else Some r }"

definition walk_undo :: "nat \<Rightarrow> nat \<Rightarrow> string \<Rightarrow> reg \<Rightarrow> (nat \<times> reg) option" where
  "walk_undo new current seg r = do {
     r \<leftarrow> undo_own new ''.'' r;
     r \<leftarrow> undo_own new ''..'' r;
     (d, r) \<leftarrow> dirent_detach current seg r;
     r \<leftarrow> (if d \<noteq> 0 then dirent_unref d r else Some r);
     r \<leftarrow> inode_unref new r;
     Some (0, r) }"

definition walk_create :: "inode_type \<Rightarrow> nat \<Rightarrow> string \<Rightarrow> reg \<Rightarrow> (nat \<times> reg) option" where
  "walk_create ty current seg r = do {
     i \<leftarrow> inodes r current;
     if i_deleted i then Some (0, r)
     else case registry_inode_alloc ty r of (new, r) \<Rightarrow>
       if new = 0 then Some (0, r)
       else do {
         (d, r) \<leftarrow> registry_linkdirent current seg new r;
         if d = 0 then do { r \<leftarrow> inode_unref new r; Some (0, r) }
         else if ty = INODE_DIR then do {
           (d1, r) \<leftarrow> registry_linkdirent new ''.'' new r;
           (d2, r) \<leftarrow> (if d1 \<noteq> 0 then registry_linkdirent new ''..'' current r else Some (0, r));
           if d2 = 0 then walk_undo new current seg r
           else do { r \<leftarrow> inode_unref new r; Some (new, r) } }
         else do { r \<leftarrow> inode_unref new r; Some (new, r) } } }"

text \<open>
  The loop of \<open>walk\<close>: \<open>p\<close> is the rest of the path.  At its end \<open>trail\<close> says whether the path has
  more than one character and ends in a slash.
\<close>

function walk_loop :: "(nat \<Rightarrow> fs_ops) \<Rightarrow> inode_type option \<Rightarrow> bool \<Rightarrow> nat \<Rightarrow> string \<Rightarrow> reg \<Rightarrow> (nat \<times> reg) option" where
  "walk_loop fs create trail current p r =
    (if p = [] then do {
       i \<leftarrow> inodes r current;
       Some (if trail \<and> i_type i \<noteq> INODE_DIR then 0 else current, r) }
     else
       let seg = takeWhile (\<lambda>c. c \<noteq> CHR ''/'') p;
           rest = dropWhile (\<lambda>c. c \<noteq> CHR ''/'') p;
           is_last = (rest = [])
       in if seg = [] then walk_loop fs create trail current (tl p) r
       else do {
         i \<leftarrow> inodes r current;
         if i_type i \<noteq> INODE_DIR then Some (0, r)
         else do {
           (child, crossed_out, r1) \<leftarrow> (case i_mnt i of
              Some m \<Rightarrow> walk_mounted fs m current seg r
            | None \<Rightarrow> do {
                d \<leftarrow> registry_finddirent current seg r;
                if d = 0 then Some (0, False, r)
                else do { e \<leftarrow> dirents r d; Some (d_inode e, False, r) } });
           if child = 0 \<and> i_mnt i = None \<and> is_last \<and> create \<noteq> None
           then walk_create (the create) current seg r1
           else if child = 0 then Some (0, r1)
           else if is_last \<and> create \<noteq> None then Some (0, r1)
           else do {
             (next, r2) \<leftarrow> (if crossed_out then Some (child, r1) else enter_mount child r1);
             walk_loop fs create trail next (tl rest) r2 } } })"
  by pat_completeness auto
termination
proof (relation "measure (\<lambda>(fs, create, trail, current, p, r). length p)", goal_cases)
  case (3 fs create trail current p r)
  have "length (dropWhile (\<lambda>c. c \<noteq> CHR ''/'') p) \<le> length p" by (rule length_dropWhile_le)
  then show ?case using 3
    by (cases p; cases "dropWhile (\<lambda>c. c \<noteq> CHR ''/'') p") (auto split: if_splits)
qed auto

declare walk_loop.simps [simp del]

definition walk :: "(nat \<Rightarrow> fs_ops) \<Rightarrow> nat \<Rightarrow> string \<Rightarrow> inode_type option \<Rightarrow> reg \<Rightarrow> (nat \<times> reg) option" where
  "walk fs start path create r =
    (if path = [] then Some (0, r)
     else
       let current = (if hd path = CHR ''/'' then reg_root r else start);
           p = (if hd path = CHR ''/'' then tl path else path);
           trail = (1 < length path \<and> last path = CHR ''/'')
       in do {
         i \<leftarrow> inodes r current;
         (a, r) \<leftarrow> (if i_mnt i = None then enter_mount current r else Some (current, r));
         walk_loop fs create trail a p r })"

definition registry_resolve :: "(nat \<Rightarrow> fs_ops) \<Rightarrow> nat \<Rightarrow> string \<Rightarrow> reg \<Rightarrow> (nat \<times> reg) option" where
  "registry_resolve fs start path r = walk fs start path None r"

definition registry_find :: "(nat \<Rightarrow> fs_ops) \<Rightarrow> string \<Rightarrow> reg \<Rightarrow> (nat \<times> reg) option" where
  "registry_find fs path r = walk fs (reg_root r) path None r"

section \<open>Making directories, files and nodes\<close>

text \<open>The path without its trailing slashes, its last component, and what precedes it.\<close>

function strip_slashes :: "string \<Rightarrow> string" where
  "strip_slashes p = (if 1 < length p \<and> last p = CHR ''/'' then strip_slashes (butlast p) else p)"
  by pat_completeness auto
termination by (relation "measure length") auto

declare strip_slashes.simps [simp del]

definition last_name :: "string \<Rightarrow> string" where
  "last_name p = rev (takeWhile (\<lambda>c. c \<noteq> CHR ''/'') (rev p))"

definition parent_path :: "string \<Rightarrow> string" where
  "parent_path p = rev (dropWhile (\<lambda>c. c \<noteq> CHR ''/'') (rev p))"

text \<open>
  The directory that holds the last component: the one the walk starts at, or the one its prefix
  resolves to, which has to fit a buffer of 128 bytes; 0 if there is none.
\<close>

definition parent_dir :: "(nat \<Rightarrow> fs_ops) \<Rightarrow> nat \<Rightarrow> string \<Rightarrow> reg \<Rightarrow> (nat \<times> reg) option" where
  "parent_dir fs start path r =
    (let pre = parent_path (strip_slashes path) in
     if pre = [] then Some (start, r)
     else if 128 \<le> length pre then Some (0, r)
     else registry_resolve fs start pre r)"

definition registry_splitpath :: "(nat \<Rightarrow> fs_ops) \<Rightarrow> nat \<Rightarrow> string \<Rightarrow> reg \<Rightarrow> ((nat \<times> string) option \<times> reg) option" where
  "registry_splitpath fs start path r =
    (if path = [] then Some (None, r)
     else
       let name = last_name (strip_slashes path) in
       if name = [] then Some (None, r)
       else do {
         (p, r) \<leftarrow> parent_dir fs start path r;
         if p = 0 then Some (None, r)
         else do {
           i \<leftarrow> inodes r p;
           if i_type i \<noteq> INODE_DIR then Some (None, r) else Some (Some (p, name), r) } })"

definition registry_mkdir_at :: "(nat \<Rightarrow> fs_ops) \<Rightarrow> nat \<Rightarrow> string \<Rightarrow> reg \<Rightarrow> (int \<times> reg) option" where
  "registry_mkdir_at fs start path r =
    (if path = [] then Some (-1, r)
     else
       let name = last_name (strip_slashes path);
           base = (if hd path = CHR ''/'' then reg_root r else start)
       in if name = [] then Some (-1, r)
       else do {
         (parent, r) \<leftarrow> parent_dir fs base path r;
         if parent = 0 then Some (-1, r)
         else do {
           i \<leftarrow> inodes r parent;
           if i_type i \<noteq> INODE_DIR \<or> i_deleted i then Some (-1, r)
           else case i_mnt i of
             Some m \<Rightarrow> (case fs_create (fs (m_fs (mounts r ! m))) of
                 None \<Rightarrow> Some (-1, r)
               | Some create \<Rightarrow> create parent name INODE_DIR r)
           | None \<Rightarrow> do {
               (n, r) \<leftarrow> walk fs base path (Some INODE_DIR) r;
               Some (if n \<noteq> 0 then 0 else -1, r) } } })"

definition registry_mkdir :: "(nat \<Rightarrow> fs_ops) \<Rightarrow> string \<Rightarrow> reg \<Rightarrow> (int \<times> reg) option" where
  "registry_mkdir fs path r = registry_mkdir_at fs (reg_root r) path r"

definition registry_mkfile_at :: "(nat \<Rightarrow> fs_ops) \<Rightarrow> nat \<Rightarrow> string \<Rightarrow> reg \<Rightarrow> (int \<times> reg) option" where
  "registry_mkfile_at fs start path r =
    (if path = [] then Some (-1, r)
     else
       let name = last_name (strip_slashes path);
           base = (if hd path = CHR ''/'' then reg_root r else start)
       in if name = [] then Some (-1, r)
       else do {
         (parent, r) \<leftarrow> parent_dir fs base path r;
         if parent = 0 then Some (-1, r)
         else do {
           i \<leftarrow> inodes r parent;
           if i_type i \<noteq> INODE_DIR \<or> i_deleted i then Some (-1, r)
           else case i_mnt i of
             None \<Rightarrow> Some (-1, r)
           | Some m \<Rightarrow> (case fs_create (fs (m_fs (mounts r ! m))) of
                 None \<Rightarrow> Some (-1, r)
               | Some create \<Rightarrow> create parent name INODE_FILE r) } })"

definition registry_mkfile :: "(nat \<Rightarrow> fs_ops) \<Rightarrow> string \<Rightarrow> reg \<Rightarrow> (int \<times> reg) option" where
  "registry_mkfile fs path r = registry_mkfile_at fs (reg_root r) path r"

definition registry_add :: "(nat \<Rightarrow> fs_ops) \<Rightarrow> string \<Rightarrow> inode_type \<Rightarrow> nat \<Rightarrow> nat \<Rightarrow> reg \<Rightarrow> (int \<times> reg) option" where
  "registry_add fs path ty impl ops r = do {
     (n, r) \<leftarrow> walk fs (reg_root r) path (Some ty) r;
     if n = 0 then Some (-1, r)
     else do {
       i \<leftarrow> inodes r n;
       Some (0, set_inode n (i\<lparr>i_impl := impl, i_ops := ops\<rparr>) r) } }"

definition registry_mount :: "(nat \<Rightarrow> fs_ops) \<Rightarrow> string \<Rightarrow> nat \<Rightarrow> reg \<Rightarrow> (int \<times> reg) option" where
  "registry_mount fs path fsid r = do {
     (n, r) \<leftarrow> walk fs (reg_root r) path None r;
     if n = 0 then Some (-1, r)
     else do {
       i \<leftarrow> inodes r n;
       if i_type i \<noteq> INODE_DIR then Some (-1, r)
       else case registry_inode_alloc INODE_DIR r of (rn, r) \<Rightarrow>
         if rn = 0 then Some (-1, r)
         else do {
           (rc, r) \<leftarrow> mount_attach n fsid rn r;
           r \<leftarrow> inode_unref rn r;
           Some (if rc \<noteq> 0 then -1 else 0, r) } } }"

definition registry_unmount :: "(nat \<Rightarrow> fs_ops) \<Rightarrow> string \<Rightarrow> reg \<Rightarrow> (int \<times> reg) option" where
  "registry_unmount fs path r =
    (if path = ''/'' then
       (case mount_find (reg_root r) r of
          None \<Rightarrow> Some (-1, r)
        | Some m \<Rightarrow> mount_detach fs (m_mountpoint (mounts r ! m)) r)
     else do {
       (res, r) \<leftarrow> registry_splitpath fs (reg_root r) path r;
       case res of None \<Rightarrow> Some (-1, r)
       | Some (parent, name) \<Rightarrow> do {
           d \<leftarrow> registry_finddirent parent name r;
           if d = 0 then Some (-1, r)
           else do {
             e \<leftarrow> dirents r d;
             i \<leftarrow> inodes r (d_inode e);
             if i_type i \<noteq> INODE_DIR \<or> mount_find (d_inode e) r = None then Some (-1, r)
             else mount_detach fs (d_inode e) r } } })"

section \<open>Unlinking, linking and renaming\<close>

text \<open>The inode an entry names, and whether something is mounted on it.\<close>

definition entry_mounted :: "nat \<Rightarrow> reg \<Rightarrow> bool option" where
  "entry_mounted d r =
    (if d = 0 then Some False else do { e \<leftarrow> dirents r d; Some (mount_find (d_inode e) r \<noteq> None) })"

text \<open>Whether an entry names a directory with entries of its own.\<close>

definition entry_full_dir :: "nat \<Rightarrow> reg \<Rightarrow> bool option" where
  "entry_full_dir d r =
    (if d = 0 then Some False
     else do {
       e \<leftarrow> dirents r d;
       i \<leftarrow> inodes r (d_inode e);
       if i_type i = INODE_DIR then do { b \<leftarrow> registry_dir_is_empty (d_inode e) r; Some (\<not> b) }
       else Some False })"

definition mark_deleted :: "nat \<Rightarrow> reg \<Rightarrow> reg option" where
  "mark_deleted a r = do { i \<leftarrow> inodes r a; Some (set_inode a (i\<lparr>i_deleted := True\<rparr>) r) }"

text \<open>The common end of an unlink: the entry leaves the list and drops its inode.\<close>

definition unlink_entry :: "bool \<Rightarrow> nat \<Rightarrow> string \<Rightarrow> reg \<Rightarrow> (int \<times> reg) option" where
  "unlink_entry native dir name r = do {
     (d, r) \<leftarrow> dirent_detach dir name r;
     if d = 0 then Some (-1, r)
     else do {
       e \<leftarrow> dirents r d;
       t \<leftarrow> inodes r (d_inode e);
       r \<leftarrow> (if native \<and> i_type t = INODE_DIR then mark_deleted (d_inode e) r else Some r);
       r \<leftarrow> dirent_unref d r;
       Some (0, r) } }"

definition registry_unlink :: "(nat \<Rightarrow> fs_ops) \<Rightarrow> nat \<Rightarrow> string \<Rightarrow> reg \<Rightarrow> (int \<times> reg) option" where
  "registry_unlink fs dir name r =
    (if dir = 0 then Some (-1, r)
     else do {
       i \<leftarrow> inodes r dir;
       if i_type i \<noteq> INODE_DIR then Some (-1, r)
       else if is_dot_name name \<or> i_deleted i then Some (BUSY, r)
       else do {
         d \<leftarrow> registry_finddirent dir name r;
         busy \<leftarrow> entry_mounted d r;
         if busy then Some (BUSY, r)
         else do {
           full \<leftarrow> (if i_mnt i = None then entry_full_dir d r else Some False);
           if full then Some (BUSY, r)
           else case i_mnt i of
             None \<Rightarrow> unlink_entry True dir name r
           | Some m \<Rightarrow> (case fs_unlink (fs (m_fs (mounts r ! m))) of
                 None \<Rightarrow> unlink_entry False dir name r
               | Some unl \<Rightarrow> do {
                   (ret, r) \<leftarrow> unl dir name r;
                   if ret < 0 then Some (-1, r)
                   else do {
                     i \<leftarrow> inodes r dir;
                     unlink_entry (i_mnt i = None) dir name r } }) } } })"

definition registry_link :: "(nat \<Rightarrow> fs_ops) \<Rightarrow> nat \<Rightarrow> nat \<Rightarrow> string \<Rightarrow> reg \<Rightarrow> (int \<times> reg) option" where
  "registry_link fs target dir name r =
    (if target = 0 \<or> dir = 0 \<or> name = [] \<or> REG_MAX_NAME_LEN \<le> length name then Some (PLAINERR, r)
     else do {
       i \<leftarrow> inodes r dir;
       if i_type i \<noteq> INODE_DIR then Some (NOTFOUND, r)
       else if i_deleted i then Some (BUSY, r)
       else do {
         t \<leftarrow> inodes r target;
         if is_dot_name name \<or> i_type t = INODE_DIR then Some (UNSUPPORTEDOP, r)
         else if i_mnt i \<noteq> i_mnt t then Some (UNSUPPORTEDOP, r)
         else case i_mnt i of
           Some m \<Rightarrow> (case fs_link (fs (m_fs (mounts r ! m))) of
               None \<Rightarrow> Some (UNSUPPORTEDOP, r)
             | Some link \<Rightarrow> do {
                 (ret, r) \<leftarrow> link target dir name r;
                 if ret < 0 then Some (ret, r)
                 else do { (_, r) \<leftarrow> registry_linkdirent dir name target r; Some (0, r) } })
         | None \<Rightarrow> do {
             d \<leftarrow> registry_finddirent dir name r;
             if d \<noteq> 0 then Some (EXISTS, r)
             else do {
               (d, r) \<leftarrow> registry_linkdirent dir name target r;
               Some (if d = 0 then PLAINERR else 0, r) } } } })"

text \<open>Renaming inside a mounted file system: the entries only cache what the file system holds.\<close>

definition rename_recache :: "nat \<Rightarrow> string \<Rightarrow> nat \<Rightarrow> string \<Rightarrow> reg \<Rightarrow> reg option" where
  "rename_recache old_dir old_name new_dir new_name r = do {
     (victim, r) \<leftarrow> dirent_detach new_dir new_name r;
     r \<leftarrow> (if victim \<noteq> 0 then dirent_unref victim r else Some r);
     d \<leftarrow> registry_finddirent old_dir old_name r;
     if d = 0 then Some r
     else if old_dir = new_dir then do { (_, r) \<leftarrow> dirent_rename d new_name r; Some r }
     else do {
       (moved, r) \<leftarrow> dirent_detach old_dir old_name r;
       if moved = 0 then Some r
       else do {
         e \<leftarrow> dirents r moved;
         (added, r) \<leftarrow> registry_linkdirent new_dir new_name (d_inode e) r;
         if added = 0 then do {
           (_, r) \<leftarrow> registry_linkdirent old_dir old_name (d_inode e) r;
           dirent_unref moved r }
         else dirent_unref moved r } } }"

text \<open>The entry that a rename replaces.\<close>

definition rename_victim :: "nat \<Rightarrow> string \<Rightarrow> bool \<Rightarrow> reg \<Rightarrow> (int \<times> reg) option" where
  "rename_victim new_dir new_name dst_dir r = do {
     (dst, r) \<leftarrow> dirent_detach new_dir new_name r;
     if dst = 0 then Some (PLAINERR, r)
     else do {
       e \<leftarrow> dirents r dst;
       r \<leftarrow> (if dst_dir then mark_deleted (d_inode e) r else Some r);
       r \<leftarrow> dirent_unref dst r;
       Some (0, r) } }"

text \<open>Pointing \<open>..\<close> of a directory that moved to its new parent.\<close>

definition rename_reparent :: "nat \<Rightarrow> nat \<Rightarrow> reg \<Rightarrow> reg option" where
  "rename_reparent moved new_dir r = do {
     up \<leftarrow> registry_finddirent moved ''..'' r;
     if up = 0 then Some r
     else do {
       e \<leftarrow> dirents r up;
       if d_inode e = new_dir then Some r
       else do {
         r \<leftarrow> inode_ref new_dir r;
         e1 \<leftarrow> dirents r up;
         let r = set_dirent up (e1\<lparr>d_inode := new_dir\<rparr>) r;
         inode_unref (d_inode e) r } } }"

definition rename_move :: "nat \<Rightarrow> string \<Rightarrow> nat \<Rightarrow> string \<Rightarrow> nat \<Rightarrow> bool \<Rightarrow> reg \<Rightarrow> (int \<times> reg) option" where
  "rename_move old_dir old_name new_dir new_name moved moved_is_dir r = do {
     (added, r) \<leftarrow> registry_linkdirent new_dir new_name moved r;
     if added = 0 then Some (PLAINERR, r)
     else do {
       (old, r) \<leftarrow> dirent_detach old_dir old_name r;
       if old = 0 then do {
         (added, r) \<leftarrow> dirent_detach new_dir new_name r;
         r \<leftarrow> (if added \<noteq> 0 then dirent_unref added r else Some r);
         Some (PLAINERR, r) }
       else do {
         r \<leftarrow> dirent_unref old r;
         r \<leftarrow> (if moved_is_dir \<and> old_dir \<noteq> new_dir then rename_reparent moved new_dir r else Some r);
         Some (0, r) } } }"

definition rename_native :: "nat \<Rightarrow> string \<Rightarrow> nat \<Rightarrow> string \<Rightarrow> reg \<Rightarrow> (int \<times> reg) option" where
  "rename_native old_dir old_name new_dir new_name r = do {
     src \<leftarrow> registry_finddirent old_dir old_name r;
     if src = 0 then Some (NOTFOUND, r)
     else do {
       e \<leftarrow> dirents r src;
       i \<leftarrow> inodes r (d_inode e);
       let moved = d_inode e;
       let moved_is_dir = (i_type i = INODE_DIR);
       below \<leftarrow> (if moved_is_dir then dir_has_ancestor new_dir moved r else Some False);
       if below then Some (BUSY, r)
       else do {
         dst \<leftarrow> registry_finddirent new_dir new_name r;
         if dst = 0 then rename_move old_dir old_name new_dir new_name moved moved_is_dir r
         else do {
           f \<leftarrow> dirents r dst;
           if d_inode f = moved then Some (0, r)
           else do {
             j \<leftarrow> inodes r (d_inode f);
             let dst_dir = (i_type j = INODE_DIR);
             if moved_is_dir \<noteq> dst_dir then Some (UNSUPPORTEDOP, r)
             else do {
               empty \<leftarrow> (if dst_dir then registry_dir_is_empty (d_inode f) r else Some True);
               if \<not> empty then Some (BUSY, r)
               else do {
                 (rc, r) \<leftarrow> rename_victim new_dir new_name dst_dir r;
                 if rc \<noteq> 0 then Some (rc, r)
                 else rename_move old_dir old_name new_dir new_name moved moved_is_dir r } } } } } } }"

definition registry_rename :: "(nat \<Rightarrow> fs_ops) \<Rightarrow> nat \<Rightarrow> string \<Rightarrow> nat \<Rightarrow> string \<Rightarrow> reg \<Rightarrow> (int \<times> reg) option" where
  "registry_rename fs old_dir old_name new_dir new_name r =
    (if old_dir = 0 \<or> new_dir = 0 then Some (PLAINERR, r)
     else do {
       i \<leftarrow> inodes r old_dir;
       j \<leftarrow> inodes r new_dir;
       if i_type i \<noteq> INODE_DIR \<or> i_type j \<noteq> INODE_DIR then Some (NOTFOUND, r)
       else if old_name = [] \<or> new_name = [] \<or> REG_MAX_NAME_LEN \<le> length old_name \<or> REG_MAX_NAME_LEN \<le> length new_name
       then Some (PLAINERR, r)
       else if i_deleted i \<or> i_deleted j then Some (BUSY, r)
       else if is_dot_name old_name \<or> is_dot_name new_name then Some (BUSY, r)
       else if old_dir = new_dir \<and> old_name = new_name then Some (0, r)
       else do {
         old_entry \<leftarrow> registry_finddirent old_dir old_name r;
         b1 \<leftarrow> entry_mounted old_entry r;
         if b1 then Some (BUSY, r)
         else do {
           new_entry \<leftarrow> registry_finddirent new_dir new_name r;
           b2 \<leftarrow> entry_mounted new_entry r;
           if b2 then Some (BUSY, r)
           else if i_mnt i \<noteq> i_mnt j then Some (UNSUPPORTEDOP, r)
           else case i_mnt i of
             None \<Rightarrow> rename_native old_dir old_name new_dir new_name r
           | Some m \<Rightarrow> (case fs_rename (fs (m_fs (mounts r ! m))) of
                 None \<Rightarrow> Some (UNSUPPORTEDOP, r)
               | Some ren \<Rightarrow> do {
                   (ret, r) \<leftarrow> ren old_dir old_name new_dir new_name r;
                   if ret < 0 then Some (ret, r)
                   else do {
                     r \<leftarrow> rename_recache old_dir old_name new_dir new_name r;
                     Some (0, r) } }) } } })"

section \<open>Boot and open directories\<close>

definition registry_init :: "bool list \<Rightarrow> nat \<Rightarrow> (reg option)" where
  "registry_init as start =
    (let r = \<lparr>inodes = Map.empty, dirents = Map.empty, inode_count = 0, dirent_count = 0, reg_root = 0,
              mounts = replicate REG_MAX_MOUNTS \<lparr>m_in_use = False, m_id = 0, m_mountpoint = 0, m_root = 0, m_fs = 0, m_refcount = 0\<rparr>,
              next_mount_id = 1, fresh = start, answers = as\<rparr>
     in case registry_inode_alloc INODE_DIR r of (a, r) \<Rightarrow> do {
          let r = r\<lparr>reg_root := a\<rparr>;
          (_, r) \<leftarrow> registry_linkdirent a ''.'' a r;
          (_, r) \<leftarrow> registry_linkdirent a ''..'' a r;
          Some r })"

text \<open>
  The cursor of an open directory: the entry that is read next.  The entry after \<open>d\<close> is its
  successor in the list of the directory \<open>dir\<close> that was opened; a detached entry has none.
\<close>

definition next_entry :: "nat \<Rightarrow> nat list \<Rightarrow> nat" where
  "next_entry d ds = (case dropWhile (\<lambda>x. x \<noteq> d) ds of _ # n # _ \<Rightarrow> n | _ \<Rightarrow> 0)"

definition dir_handle_start :: "nat \<Rightarrow> reg \<Rightarrow> (nat \<times> reg) option" where
  "dir_handle_start dir r = do {
     i \<leftarrow> inodes r dir;
     let entry = (case i_children i of [] \<Rightarrow> 0 | d # _ \<Rightarrow> d);
     r \<leftarrow> dirent_ref entry r;
     Some (entry, r) }"

definition dir_handle_advance :: "nat \<Rightarrow> nat \<Rightarrow> reg \<Rightarrow> (nat \<times> reg) option" where
  "dir_handle_advance dir current r =
    (if current = 0 then Some (0, r)
     else do {
       i \<leftarrow> inodes r dir;
       let nxt = next_entry current (i_children i);
       r \<leftarrow> (if nxt \<noteq> 0 then dirent_ref nxt r else Some r);
       r \<leftarrow> dirent_unref current r;
       Some (nxt, r) })"

definition dir_close :: "nat \<Rightarrow> reg \<Rightarrow> (int \<times> reg) option" where
  "dir_close current r = do { r \<leftarrow> dirent_unref current r; Some (0, r) }"

section \<open>The name space\<close>

text \<open>
  The name space that the registry stands for: to each directory the map from names to inodes.
  It is well formed if names are unique, every directory has \<open>.\<close> for itself and \<open>..\<close> for the
  directory that has the one entry for it, the parents lead to the root without a cycle, every
  directory but the root has an entry unless it was deleted, and a deleted one has no entries.
  \<open>native\<close> says that nothing is mounted.
\<close>

definition ent :: "reg \<Rightarrow> nat \<Rightarrow> string \<times> nat" where
  "ent r d = (case dirents r d of Some e \<Rightarrow> (d_name e, d_inode e) | None \<Rightarrow> ([], 0))"

definition entry :: "reg \<Rightarrow> nat \<Rightarrow> string \<Rightarrow> nat option" where
  "entry r a = map_of (map (ent r) (kids r a))"

definition is_dir :: "reg \<Rightarrow> nat \<Rightarrow> bool" where
  "is_dir r a \<longleftrightarrow> (\<exists>i. inodes r a = Some i \<and> i_type i = INODE_DIR)"

definition native :: "reg \<Rightarrow> bool" where
  "native r \<longleftrightarrow> (\<forall>a i. inodes r a = Some i \<longrightarrow> i_mnt i = None) \<and> (\<forall>m\<in>set (mounts r). \<not> m_in_use m)"

definition names_unique :: "reg \<Rightarrow> bool" where
  "names_unique r \<longleftrightarrow> (\<forall>a. distinct (map (fst \<circ> ent r) (kids r a)))"

definition dots_ok :: "reg \<Rightarrow> bool" where
  "dots_ok r \<longleftrightarrow> is_dir r (reg_root r) \<and> entry r (reg_root r) ''..'' = Some (reg_root r) \<and>
     (\<forall>a. is_dir r a \<longrightarrow> entry r a ''.'' = Some a \<and> (\<exists>p. entry r a ''..'' = Some p \<and> is_dir r p)) \<and>
     (\<forall>a n. entry r a n = Some a \<longrightarrow> n = ''.'' \<or> n = ''..'' \<and> a = reg_root r)"

definition parents_ok :: "reg \<Rightarrow> bool" where
  "parents_ok r \<longleftrightarrow> (\<forall>a n t. entry r a n = Some t \<longrightarrow> \<not> is_dot_name n \<longrightarrow> is_dir r t \<longrightarrow>
     t \<noteq> reg_root r \<and> entry r t ''..'' = Some a \<and> (\<forall>m. entry r a m = Some t \<longrightarrow> \<not> is_dot_name m \<longrightarrow> m = n))"

definition ranked :: "(nat \<Rightarrow> nat) \<Rightarrow> reg \<Rightarrow> bool" where
  "ranked rank r \<longleftrightarrow> (\<forall>a p. a \<noteq> reg_root r \<longrightarrow> is_dir r a \<longrightarrow> entry r a ''..'' = Some p \<longrightarrow> rank p < rank a)"

definition in_use :: "reg \<Rightarrow> nat \<Rightarrow> bool" where
  "in_use r a \<longleftrightarrow> (\<exists>i. inodes r a = Some i \<and> i_type i = INODE_DIR \<and> \<not> i_deleted i)"

definition linked_ok :: "reg \<Rightarrow> bool" where
  "linked_ok r \<longleftrightarrow> (\<forall>a. in_use r a \<longrightarrow> a = reg_root r \<or> (\<exists>p n. \<not> is_dot_name n \<and> entry r p n = Some a)) \<and>
     (\<forall>p n t. entry r p n = Some t \<longrightarrow> \<not> is_dot_name n \<longrightarrow> in_use r p)"

definition ns_ok :: "reg \<Rightarrow> bool" where
  "ns_ok r \<longleftrightarrow> names_unique r \<and> dots_ok r \<and> parents_ok r \<and> native r \<and> (\<exists>rank. ranked rank r) \<and> linked_ok r"

lemma in_use_dir: "in_use r a \<Longrightarrow> is_dir r a"
  by (auto simp: in_use_def is_dir_def)

lemma entry_None_kids: "inodes r a = None \<Longrightarrow> entry r a = Map.empty"
  by (simp add: entry_def kids_def)

lemma entry_kid: "entry r a n = Some t \<Longrightarrow> \<exists>d\<in>set (kids r a). ent r d = (n, t)"
  unfolding entry_def by (drule map_of_SomeD) auto

lemma kid_entry: "names_unique r \<Longrightarrow> d \<in> set (kids r a) \<Longrightarrow> ent r d = (n, t) \<Longrightarrow> entry r a n = Some t"
  unfolding entry_def names_unique_def
  by (rule map_of_is_SomeI) (auto simp: o_def intro!: rev_image_eqI [of d])

lemma entry_live: "reg_ok H D r \<Longrightarrow> entry r a n = Some t \<Longrightarrow> inodes r a \<noteq> None \<and> inodes r t \<noteq> None"
proof
  assume ok: "reg_ok H D r" and e: "entry r a n = Some t"
  show "inodes r a \<noteq> None"
  proof
    assume "inodes r a = None"
    from entry_None_kids [OF this] e show False by simp
  qed
  from entry_kid [OF e] obtain d where d: "d \<in> set (kids r a)" "ent r d = (n, t)" by blast
  with ok_kid [OF ok d(1)] obtain f where f: "dirents r d = Some f" "d_inode f = t" by (auto simp: ent_def)
  then show "inodes r t \<noteq> None" using inv_dirent [OF reg_okD [OF ok] f(1)] by simp
qed

text \<open>Dropping references leaves the name space as it is for every inode that still lives.\<close>

lemma ent_shrink: "reg_shrink K K' r r' \<Longrightarrow> dirents r' d \<noteq> None \<Longrightarrow> ent r' d = ent r d"
proof -
  assume sh: "reg_shrink K K' r r'" and "dirents r' d \<noteq> None"
  then obtain e' where e': "dirents r' d = Some e'" by blast
  from shrink_dirent [OF sh e'] obtain e where e: "dirents r d = Some e" "e'\<lparr>d_refcount := 0\<rparr> = e\<lparr>d_refcount := 0\<rparr>"
    by blast
  from e(2) have "d_name e' = d_name e \<and> d_inode e' = d_inode e" by (cases e; cases e') simp
  with e(1) e' show ?thesis by (simp add: ent_def)
qed

lemma entry_less:
  assumes ok: "reg_ok H D r'" and less: "reg_less r r'"
  shows "entry r' a = (if inodes r' a = None then Map.empty else entry r a)"
proof (cases "inodes r' a")
  case None
  then show ?thesis by (simp add: entry_None_kids)
next
  case (Some i)
  have k: "kids r' a = kids r a" using less Some by (simp add: reg_less_def kids_shrink)
  have "map (ent r') (kids r' a) = map (ent r) (kids r' a)"
    using ok_kid [OF ok] ent_shrink less unfolding reg_less_def by (intro map_cong refl) blast
  then have "map (ent r') (kids r a) = map (ent r) (kids r a)" unfolding k .
  then show ?thesis using Some unfolding entry_def k by (simp only: option.distinct if_False)
qed

lemma is_dir_less: "reg_less r r' \<Longrightarrow> is_dir r' a \<longleftrightarrow> inodes r' a \<noteq> None \<and> is_dir r a"
  unfolding reg_less_def is_dir_def using shrink_children [of "kids r" "kids r'" r r' a] by (cases "inodes r' a") auto

lemma names_unique_less:
  assumes ok: "reg_ok H D r'" and less: "reg_less r r'" and ns: "names_unique r"
  shows "names_unique r'"
proof -
  have k: "kids r' a = (if inodes r' a = None then [] else kids r a)" for a
    using less by (simp add: reg_less_def kids_shrink)
  have "map (fst \<circ> ent r') (kids r' a) = map (fst \<circ> ent r) (kids r' a)" for a
    using ok_kid [OF ok, of _ a] ent_shrink less unfolding reg_less_def by (intro map_cong refl) fastforce
  then have names: "map (fst \<circ> ent r') (kids r' a) = map (fst \<circ> ent r) (kids r' a)" for a .
  show ?thesis using ns unfolding names_unique_def names unfolding k by simp
qed

lemma native_less: "reg_less r r' \<Longrightarrow> native r \<Longrightarrow> native r'"
  unfolding native_def reg_less_def by (auto dest: shrink_children shrink_rest)

lemma in_use_less: "reg_less r r' \<Longrightarrow> in_use r' a \<longleftrightarrow> inodes r' a \<noteq> None \<and> in_use r a"
  unfolding reg_less_def in_use_def using shrink_children [of "kids r" "kids r'" r r' a] by (cases "inodes r' a") auto

text \<open>A directory in use is never freed: a chain of entries leads to it from the root.\<close>

lemma in_use_live:
  assumes ok: "reg_ok H D r'" and less: "reg_less r r'" and ns: "ns_ok r" and rt: "0 < H (reg_root r)"
    and use: "in_use r a"
  shows "inodes r' a \<noteq> None"
proof -
  obtain rank where rank: "ranked rank r" using ns by (auto simp: ns_ok_def)
  have root: "inodes r' (reg_root r) \<noteq> None" using inv_no_inode [OF reg_okD [OF ok], of "reg_root r"] rt by auto
  show ?thesis using use
  proof (induction "rank a" arbitrary: a rule: less_induct)
    case less: less
    show ?case
    proof (cases "a = reg_root r")
      case False
      then obtain p n where e: "\<not> is_dot_name n" "entry r p n = Some a" "in_use r p"
        using ns less.prems unfolding ns_ok_def linked_ok_def by blast
      then have "entry r a ''..'' = Some p" using ns in_use_dir [OF less.prems] unfolding ns_ok_def parents_ok_def by blast
      then have "rank p < rank a" using rank False in_use_dir [OF less.prems] unfolding ranked_def by blast
      from less.hyps [OF this e(3)] have "entry r' p n = Some a" using e(2) entry_less [OF ok assms(2), of p] by simp
      then show ?thesis using entry_live [OF ok] by blast
    qed (use root in simp)
  qed
qed

lemma ns_ok_less:
  assumes ok: "reg_ok H D r'" and less: "reg_less r r'" and ns: "ns_ok r" and rt: "0 < H (reg_root r)"
  shows "ns_ok r'"
proof -
  have root: "reg_root r' = reg_root r" using less by (simp add: reg_less_def reg_shrink_def)
  have live: "inodes r' (reg_root r) \<noteq> None" using inv_no_inode [OF reg_okD [OF ok], of "reg_root r"] rt by auto
  note e = entry_less [OF ok less] and d = is_dir_less [OF less]
  have tgt: "inodes r' t \<noteq> None" if "inodes r' a \<noteq> None" "entry r a n = Some t" for a n t
    using entry_live [OF ok, of a n t] that by (simp add: e)
  have "names_unique r'" using ns names_unique_less [OF ok less] by (simp add: ns_ok_def)
  moreover have "dots_ok r'"
    unfolding dots_ok_def root
  proof (intro conjI allI impI)
    have dots: "dots_ok r" using ns by (simp add: ns_ok_def)
    show "is_dir r' (reg_root r)" "entry r' (reg_root r) ''..'' = Some (reg_root r)"
      using dots live by (simp_all add: d e dots_ok_def)
    fix a assume "is_dir r' a"
    then have a: "inodes r' a \<noteq> None" "is_dir r a" by (simp_all add: d)
    with dots obtain p where p: "entry r a ''..'' = Some p" "is_dir r p" "entry r a ''.'' = Some a"
      unfolding dots_ok_def by blast
    show "entry r' a ''.'' = Some a" using p a by (simp add: e)
    show "\<exists>p. entry r' a ''..'' = Some p \<and> is_dir r' p" using p a tgt [OF a(1) p(1)] by (simp add: e d)
  next
    fix a n assume "entry r' a n = Some a"
    then have "entry r a n = Some a" by (simp add: e split: if_splits)
    then show "n = ''.'' \<or> n = ''..'' \<and> a = reg_root r" using ns by (simp add: ns_ok_def dots_ok_def)
  qed
  moreover have "parents_ok r'"
    using ns unfolding ns_ok_def parents_ok_def root e d by (auto split: if_splits)
  moreover have "native r'" using ns native_less [OF less] by (simp add: ns_ok_def)
  moreover have "\<exists>rank. ranked rank r'"
    using ns unfolding ns_ok_def ranked_def root e d by (auto split: if_splits)
  moreover have "linked_ok r'"
    unfolding linked_ok_def root
  proof (intro conjI allI impI)
    fix a assume a: "in_use r' a"
    then have "in_use r a" by (simp add: in_use_less [OF less])
    then consider "a = reg_root r" | p n where "\<not> is_dot_name n" "entry r p n = Some a" "in_use r p"
      using ns unfolding ns_ok_def linked_ok_def by blast
    then show "a = reg_root r \<or> (\<exists>p n. \<not> is_dot_name n \<and> entry r' p n = Some a)"
    proof cases
      case (2 p n)
      then have "entry r' p n = Some a" using in_use_live [OF ok less ns rt 2(3)] by (simp add: e)
      then show ?thesis using 2(1) by blast
    qed simp
  next
    fix p n t assume "entry r' p n = Some t" "\<not> is_dot_name n"
    then show "in_use r' p" using ns unfolding ns_ok_def linked_ok_def
      by (auto simp: e in_use_less [OF less] split: if_splits)
  qed
  ultimately show ?thesis by (simp add: ns_ok_def)
qed

text \<open>What the search of a directory finds.\<close>

lemma find_entry_ok:
  assumes "\<And>d. d \<in> set ds \<Longrightarrow> \<exists>e. dirents r d = Some e \<and> 0 < d"
  shows "\<exists>d. find_entry name ds r = Some d \<and>
    (if d = 0 then map_of (map (ent r) ds) name = None
     else d \<in> set ds \<and> map_of (map (ent r) ds) name = Some (snd (ent r d)) \<and> fst (ent r d) = name)"
  using assms
proof (induction ds)
  case (Cons x ds)
  obtain e where e: "dirents r x = Some e" "0 < x" using Cons.prems [of x] by auto
  have "\<exists>d. find_entry name ds r = Some d \<and>
    (if d = 0 then map_of (map (ent r) ds) name = None
     else d \<in> set ds \<and> map_of (map (ent r) ds) name = Some (snd (ent r d)) \<and> fst (ent r d) = name)"
    by (rule Cons.IH) (use Cons.prems in auto)
  then obtain d where d: "find_entry name ds r = Some d" "if d = 0 then map_of (map (ent r) ds) name = None
     else d \<in> set ds \<and> map_of (map (ent r) ds) name = Some (snd (ent r d)) \<and> fst (ent r d) = name" by blast
  have x: "ent r x = (d_name e, d_inode e)" using e by (simp add: ent_def)
  show ?case
  proof (cases "d_name e = name")
    case True
    then show ?thesis using e x by (intro exI [of _ x]) simp
  next
    case False
    then show ?thesis using e x d by (intro exI [of _ d]) simp
  qed
qed simp

lemma finddirent_ok:
  assumes ok: "reg_ok H D r" and i: "inodes r a = Some i"
  obtains "registry_finddirent a name r = Some 0" "entry r a name = None"
  | d e where "registry_finddirent a name r = Some d" "d \<noteq> 0" "d \<in> set (i_children i)" "dirents r d = Some e"
      "d_name e = name" "entry r a name = Some (d_inode e)"
proof -
  have k: "kids r a = i_children i" using i by (simp add: kids_def)
  have "\<exists>e. dirents r d = Some e \<and> 0 < d" if "d \<in> set (i_children i)" for d
    using ok_kid [OF ok, of d a] that inv_dirent [OF reg_okD [OF ok], of d] unfolding k by auto
  from find_entry_ok [of "i_children i", OF this, of name] obtain d where d: "find_entry name (i_children i) r = Some d"
    "if d = 0 then entry r a name = None
     else d \<in> set (i_children i) \<and> entry r a name = Some (snd (ent r d)) \<and> fst (ent r d) = name"
    unfolding entry_def k by blast
  have run: "registry_finddirent a name r = Some d" using i d(1) by (simp add: registry_finddirent_def)
  show thesis
  proof (cases "d = 0")
    case True
    then show thesis using run d(2) that(1) by simp
  next
    case False
    then obtain e where "dirents r d = Some e" using d(2) ok_kid [OF ok, of d a] unfolding k by auto
    then show thesis using run d(2) False by (intro that(2) [of d e]) (auto simp: ent_def)
  qed
qed

section \<open>Removing and adding an entry of the name space\<close>

lemma map_of_remove1:
  "distinct (map (fst \<circ> f) xs) \<Longrightarrow> d \<in> set xs \<Longrightarrow> map_of (map f (remove1 d xs)) = (map_of (map f xs))(fst (f d) := None)"
proof (induction xs)
  case (Cons x xs)
  show ?case
  proof (cases "x = d")
    case True
    have "map_of (map f xs) (fst (f d)) = None"
      using Cons.prems True by (auto simp: map_of_eq_None_iff image_image)
    then show ?thesis using True by (auto simp: fun_eq_iff)
  next
    case False
    then have "d \<in> set xs" "fst (f x) \<noteq> fst (f d)" using Cons.prems by (auto simp: image_iff)
    then show ?thesis using Cons False by (auto simp: fun_eq_iff)
  qed
qed simp

lemma ent_set_inode [simp]: "ent (set_inode a i r) = ent r"
  by (simp add: ent_def fun_eq_iff)

lemma entry_detach:
  assumes "names_unique r" "inodes r dir = Some i" "d \<in> set (i_children i)" "fst (ent r d) = name"
  shows "entry (set_inode dir (i\<lparr>i_children := remove1 d (i_children i)\<rparr>) r) a =
    (if a = dir then (entry r dir)(name := None) else entry r a)"
proof -
  have k: "kids r dir = i_children i" using assms(2) by (simp add: kids_def)
  have "distinct (map (fst \<circ> ent r) (i_children i))"
    using assms(1) unfolding names_unique_def k [symmetric] by blast
  from map_of_remove1 [OF this assms(3)] show ?thesis
    unfolding entry_def kids_set_inode using k assms(4) by simp
qed

lemma names_unique_detach:
  assumes "names_unique r" "inodes r dir = Some i"
  shows "names_unique (set_inode dir (i\<lparr>i_children := remove1 d (i_children i)\<rparr>) r)"
  unfolding names_unique_def
proof
  fix a
  have "kids r dir = i_children i" using assms(2) by (simp add: kids_def)
  with assms(1) have "distinct (map (fst \<circ> ent r) (i_children i))" by (metis names_unique_def)
  then have "distinct (map (fst \<circ> ent r) (remove1 d (i_children i)))"
    by (simp add: distinct_map inj_on_diff)
  then show "distinct (map (fst \<circ> ent (set_inode dir (i\<lparr>i_children := remove1 d (i_children i)\<rparr>) r)) (kids (set_inode dir (i\<lparr>i_children := remove1 d (i_children i)\<rparr>) r) a))"
    using assms(1) by (simp add: kids_set_inode names_unique_def)
qed

lemma entry_add:
  assumes ok: "reg_ok H D r" and dir: "inodes r dir \<noteq> None"
  shows "entry (add_entry dir name t r) a = (if a = dir then (entry r dir)(name \<mapsto> t) else entry r a)"
    and "entry r dir name = None \<Longrightarrow> names_unique r \<Longrightarrow> names_unique (add_entry dir name t r)"
proof -
  let ?r = "add_entry dir name t r"
  have old: "ent ?r d = ent r d" if "d \<in> set (kids r a)" for a d
    using that ok_fresh(3) [OF ok, of a] by (auto simp: ent_def)
  have new: "ent ?r (fresh r) = (name, t)" by (simp add: ent_def)
  have k: "kids ?r = (kids r)(dir := fresh r # kids r dir)" by (rule kids_add_entry [OF dir])
  have m: "map (ent ?r) (kids r a) = map (ent r) (kids r a)" for a by (rule map_cong) (use old in auto)
  show "entry ?r a = (if a = dir then (entry r dir)(name \<mapsto> t) else entry r a)"
    unfolding entry_def k by (simp add: new m)
  assume none: "entry r dir name = None" and uniq: "names_unique r"
  have m2: "map (fst \<circ> ent ?r) (kids r a) = map (fst \<circ> ent r) (kids r a)" for a by (rule map_cong) (use old in auto)
  have "name \<notin> set (map (fst \<circ> ent r) (kids r dir))"
    using none by (auto simp: entry_def map_of_eq_None_iff image_image)
  then show "names_unique ?r"
    using uniq unfolding names_unique_def k by (simp add: new m2 del: map_map)
qed

lemma ns_ok_remove:
  assumes ns: "ns_ok r" and e: "\<And>a. entry r1 a = (if a = dir then (entry r dir)(name := None) else entry r a)"
    and name: "\<not> is_dot_name name" and d: "\<And>a. is_dir r1 a = is_dir r a" and root: "reg_root r1 = reg_root r"
    and rest: "names_unique r1" "native r1" and t: "entry r dir name = Some t"
    and u: "\<And>a. in_use r1 a \<longleftrightarrow> in_use r a \<and> a \<noteq> t" and empty: "\<And>n. is_dir r t \<Longrightarrow> entry r t n \<noteq> None \<Longrightarrow> is_dot_name n"
  shows "ns_ok r1"
proof -
  have dd: "entry r1 a ''.'' = entry r a ''.''" "entry r1 a ''..'' = entry r a ''..''" for a
    using name by (auto simp: e is_dot_name_def)
  have sub: "entry r1 a n = Some t \<Longrightarrow> entry r a n = Some t" for a n t by (auto simp: e split: if_splits)
  have "dots_ok r1" using ns sub unfolding ns_ok_def dots_ok_def dd d root by blast
  moreover have "parents_ok r1" using ns sub unfolding ns_ok_def parents_ok_def dd d root by blast
  moreover have "\<exists>rank. ranked rank r1" using ns unfolding ns_ok_def ranked_def dd d root by blast
  moreover have "linked_ok r1"
    unfolding linked_ok_def root
  proof (intro conjI allI impI)
    fix a assume "in_use r1 a"
    then have "in_use r a" "a \<noteq> t" by (simp_all add: u)
    then consider "a = reg_root r" | p n where "\<not> is_dot_name n" "entry r p n = Some a"
      using ns unfolding ns_ok_def linked_ok_def by blast
    then show "a = reg_root r \<or> (\<exists>p n. \<not> is_dot_name n \<and> entry r1 p n = Some a)"
    proof cases
      case (2 p n)
      then have "entry r1 p n = Some a" using t \<open>a \<noteq> t\<close> by (auto simp: e)
      then show ?thesis using 2(1) by blast
    qed simp
  next
    fix p n x assume x: "entry r1 p n = Some x" "\<not> is_dot_name n"
    then have p: "in_use r p" "entry r p n \<noteq> None" using ns sub [OF x(1)] unfolding ns_ok_def linked_ok_def by auto
    then show "in_use r1 p" using empty [of n] x(2) in_use_dir [OF p(1)] by (auto simp: u)
  qed
  ultimately show ?thesis using rest by (simp add: ns_ok_def)
qed

lemma dir_empty_ok:
  assumes ok: "reg_ok H D r" and dir: "inodes r a \<noteq> None"
  shows "registry_dir_is_empty a r = Some (\<forall>n. entry r a n \<noteq> None \<longrightarrow> is_dot_name n)"
proof -
  obtain i where i: "inodes r a = Some i" using dir by blast
  have k: "kids r a = i_children i" using i by (simp add: kids_def)
  have "only_dots ds r = Some (\<forall>n. map_of (map (ent r) ds) n \<noteq> None \<longrightarrow> is_dot_name n)" if "set ds \<subseteq> set (kids r a)" for ds
    using that
  proof (induction ds)
    case (Cons d ds)
    then obtain e where "dirents r d = Some e" using ok_kid [OF ok, of d a] by auto
    then have x: "only_dots (d # ds) r = (if is_dot_name (d_name e) then only_dots ds r else Some False)"
      "ent r d = (d_name e, d_inode e)" by (simp_all add: ent_def)
    show ?case
    proof (cases "is_dot_name (d_name e)")
      case True
      have "only_dots ds r = Some (\<forall>n. map_of (map (ent r) ds) n \<noteq> None \<longrightarrow> is_dot_name n)"
        using Cons by simp
      then show ?thesis using x True by (simp del: not_None_eq) metis
    next
      case False
      then show ?thesis using x by (simp del: not_None_eq) (metis option.distinct(1))
    qed
  qed simp
  from this [of "kids r a"] show ?thesis using i by (simp add: registry_dir_is_empty_def entry_def k)
qed

lemma native_find: "native r \<Longrightarrow> mount_find a r = None"
  by (auto simp: mount_find_def native_def find_None_iff)

lemma native_mnt: "native r \<Longrightarrow> inodes r a = Some i \<Longrightarrow> i_mnt i = None"
  by (simp add: native_def)

end
