(* ===== verification/Namespace_Ops.thy ===== *)
theory Namespace_Ops
  imports Namespace
begin

text \<open>
  What unlinking, resolving a path and linking do to the name space, as long as nothing is mounted:
  the effect on every directory, with the reference counts kept exact.
\<close>

section \<open>Unlinking\<close>

text \<open>The last reference to an inode without entries, and a reference that is not the last.\<close>

lemma inode_unref_last:
  assumes "inodes r a = Some i" "i_refcount i = 1" "i_children i = []" "0 < a" "0 < fresh r"
  shows "inode_unref a r = Some (r\<lparr>inode_count := inode_count r - 1, inodes := (inodes r)(a := None)\<rparr>)"
  using assms by (cases "i_type i = INODE_DIR"; cases "fresh r")
    (simp_all add: inode_unref_def registry_destroy_def Let_def set_inode_def)

lemma inode_unref_more:
  assumes "inodes r a = Some i" "i_refcount i \<noteq> 1" "0 < a"
  shows "inode_unref a r = Some (set_inode a (i\<lparr>i_refcount := i_refcount i - 1\<rparr>) r)"
  using assms by (simp add: inode_unref_def Let_def)

lemma is_dir_set_inode: "inodes r a = Some i \<Longrightarrow> i_type i' = i_type i \<Longrightarrow> is_dir (set_inode a i' r) = is_dir r"
  by (auto simp: is_dir_def fun_eq_iff)

lemma native_set_inode: "native r \<Longrightarrow> i_mnt i' = None \<Longrightarrow> native (set_inode a i' r)"
  by (auto simp: native_def)

lemma kids_mark: "inodes r a = Some i \<Longrightarrow> i_children i' = i_children i \<Longrightarrow> kids (set_inode a i' r) = kids r"
  by (auto simp: kids_def fun_eq_iff)

lemma entry_mark: "inodes r a = Some i \<Longrightarrow> i_children i' = i_children i \<Longrightarrow> entry (set_inode a i' r) = entry r"
  by (simp add: entry_def fun_eq_iff kids_mark)

lemma names_unique_mark: "inodes r a = Some i \<Longrightarrow> i_children i' = i_children i \<Longrightarrow>
  names_unique (set_inode a i' r) = names_unique r"
  by (simp add: names_unique_def kids_mark)

text \<open>The common end of unlinking an entry that is there.\<close>

lemma remove_entry_ok:
  assumes ok: "reg_ok H D r" and ns: "ns_ok r" and rt: "0 < H (reg_root r)" and i: "inodes r dir = Some i"
    and name: "\<not> is_dot_name name" and t: "entry r dir name = Some t" and td: "inodes r t = Some j"
    and del: "del \<longleftrightarrow> i_type j = INODE_DIR" and empty: "\<And>n. is_dir r t \<Longrightarrow> entry r t n \<noteq> None \<Longrightarrow> is_dot_name n"
  shows "\<exists>d r1 r2 r3. dirent_detach dir name r = Some (d, r1) \<and> d \<noteq> 0 \<and>
    (\<exists>e. dirents r1 d = Some e \<and> d_inode e = t) \<and> (\<exists>j1. inodes r1 t = Some j1 \<and> i_type j1 = i_type j) \<and>
    (if del then mark_deleted t r1 else Some r1) = Some r2 \<and> dirent_unref d r2 = Some r3 \<and>
    reg_ok H D r3 \<and> ns_ok r3 \<and> reg_root r3 = reg_root r \<and>
    (\<forall>a. inodes r3 a \<noteq> None \<longrightarrow> entry r3 a = (if a = dir then (entry r dir)(name := None) else entry r a)) \<and>
    (\<forall>a. inodes r3 a \<noteq> None \<longrightarrow> inodes r a \<noteq> None \<and> is_dir r3 a = is_dir r a) \<and>
    (\<forall>a. in_use r a \<and> a \<noteq> t \<longrightarrow> in_use r3 a)"
proof -
  from ns have uniq: "names_unique r" and dots: "dots_ok r" and nat: "native r" by (simp_all add: ns_ok_def)
  obtain d e where d: "registry_finddirent dir name r = Some d" "d \<noteq> 0" "d \<in> set (i_children i)" "dirents r d = Some e"
      "d_name e = name" "d_inode e = t"
    by (rule finddirent_ok [OF ok i, of name]) (use t in auto)
  have other: "d_inode e \<noteq> dir"
    using dots t name d(6) unfolding dots_ok_def is_dot_name_def by blast
  define r1 where "r1 = set_inode dir (i\<lparr>i_children := remove1 d (i_children i)\<rparr>) r"
  have det: "dirent_detach dir name r = Some (d, r1)"
    using d(1,2) i by (simp add: dirent_detach_def registry_finddirent_def r1_def)
  note ok1 = detach_ok [OF ok i d(3,4) other, folded r1_def]
  have e1: "entry r1 a = (if a = dir then (entry r dir)(name := None) else entry r a)" for a
    unfolding r1_def by (rule entry_detach [OF uniq i d(3)]) (use d in \<open>simp add: ent_def\<close>)
  obtain j1 where j1: "inodes r1 t = Some j1" "i_type j1 = i_type j" using td other d(6) by (simp add: r1_def)
  have nat1: "native r1" and uniq1: "names_unique r1"
    unfolding r1_def using native_set_inode [OF nat] native_mnt [OF nat i] names_unique_detach [OF uniq i] by simp_all
  have tdir: "t \<noteq> dir" using other d(6) by simp
  define r2 where "r2 = (if del then set_inode t (j1\<lparr>i_deleted := True\<rparr>) r1 else r1)"
  have mk: "(if del then mark_deleted t r1 else Some r1) = Some r2"
    using j1 by (simp add: mark_deleted_def r2_def)
  have ok2: "reg_ok H (D(d := D d + 1)) r2"
    unfolding r2_def using ok1 mark_ok [OF ok1 j1(1)] by simp
  have e2: "entry r2 = entry r1" "is_dir r2 = is_dir r1" "reg_root r2 = reg_root r"
    using entry_mark [OF j1(1)] is_dir_set_inode [OF j1(1)] by (simp_all add: r2_def r1_def)
  have nat2: "native r2" using native_set_inode [OF nat1] native_mnt [OF nat1 j1(1)] by (simp add: r2_def nat1)
  have uniq2: "names_unique r2" using uniq1 names_unique_mark [OF j1(1)] by (simp add: r2_def)
  have use2: "in_use r2 a \<longleftrightarrow> in_use r a \<and> a \<noteq> t" for a
    using i j1 td del tdir by (auto simp: in_use_def r2_def r1_def)
  have ns2: "ns_ok r2"
  proof (rule ns_ok_remove [OF ns _ name])
    show "entry r2 a = (if a = dir then (entry r dir)(name := None) else entry r a)" for a by (simp add: e2 e1)
    show "is_dir r2 a = is_dir r a" for a using is_dir_set_inode [OF i] by (simp add: e2 r1_def)
  qed (use e2 uniq2 nat2 use2 empty t in simp_all)
  have "0 < (D(d := D d + 1)) d" by simp
  moreover have "(D(d := D d + 1))(d := (D(d := D d + 1)) d - 1) = D" by simp
  ultimately obtain r3 where r3: "dirent_unref d r2 = Some r3" "reg_ok H D r3" "reg_less r2 r3"
    using dirent_unref_ok [OF ok2, of d] by metis
  have ns3: "ns_ok r3" by (rule ns_ok_less [OF r3(2,3) ns2]) (use rt e2 in simp)
  have root3: "reg_root r3 = reg_root r" using r3(3) e2(3) by (simp add: reg_less_def reg_shrink_def)
  have live: "inodes r a \<noteq> None" if "inodes r3 a \<noteq> None" for a
  proof -
    have "inodes r2 a \<noteq> None" using that shrink_children [OF r3(3) [unfolded reg_less_def], of a] by fastforce
    then show ?thesis using i j1 td by (auto simp: r2_def r1_def split: if_splits)
  qed
  have "in_use r3 a" if "in_use r a \<and> a \<noteq> t" for a
    using in_use_live [OF r3(2,3) ns2, of a] rt e2 that use2 by (simp add: in_use_less [OF r3(3)])
  moreover have "entry r3 a = (if a = dir then (entry r dir)(name := None) else entry r a)" if "inodes r3 a \<noteq> None" for a
    using entry_less [OF r3(2,3), of a] that by (simp add: e2 e1)
  moreover have "is_dir r3 a = is_dir r a" if "inodes r3 a \<noteq> None" for a
    using is_dir_less [OF r3(3), of a] that e2(2) is_dir_set_inode [OF i] by (simp add: r1_def)
  moreover have "inodes r1 t = Some j1" "dirents r1 d = Some e" using j1 d(4) by (simp_all add: r1_def)
  ultimately show ?thesis using det mk r3 ns3 root3 live d(2,6) j1(2) by blast
qed

lemma registry_unlink_ok:
  assumes ok: "reg_ok H D r" and ns: "ns_ok r" and rt: "0 < H (reg_root r)"
    and dir: "inodes r dir = Some i" "i_type i = INODE_DIR"
  shows "\<exists>rc r'. registry_unlink fs dir name r = Some (rc, r') \<and> reg_ok H D r' \<and> ns_ok r' \<and> reg_root r' = reg_root r \<and> (rc \<noteq> 0 \<longrightarrow> r' = r) \<and>
    (rc = 0 \<longleftrightarrow> \<not> is_dot_name name \<and> \<not> i_deleted i \<and>
       (\<exists>t. entry r dir name = Some t \<and> (is_dir r t \<longrightarrow> (\<forall>n. entry r t n \<noteq> None \<longrightarrow> is_dot_name n)))) \<and>
    (rc = 0 \<longrightarrow> (\<forall>a. inodes r' a \<noteq> None \<longrightarrow>
       entry r' a = (if a = dir then (entry r dir)(name := None) else entry r a)))"
proof -
  from ns have nat: "native r" by (simp add: ns_ok_def)
  have pos: "dir \<noteq> 0" using inv_inode [OF reg_okD [OF ok] dir(1)] by simp
  note mnt = native_mnt [OF nat dir(1)] and fnd = native_find [OF nat]
  consider "is_dot_name name \<or> i_deleted i" | "\<not> is_dot_name name" "\<not> i_deleted i" "entry r dir name = None"
    | t where "\<not> is_dot_name name" "\<not> i_deleted i" "entry r dir name = Some t"
    by (cases "entry r dir name") blast+
  then show ?thesis
  proof cases
    case 1
    then have "registry_unlink fs dir name r = Some (BUSY, r)" using pos dir by (simp add: registry_unlink_def)
    then show ?thesis using 1 ok ns by (auto simp: errorcode_def)
  next
    case 2
    have f: "registry_finddirent dir name r = Some 0"
      by (rule finddirent_ok [OF ok dir(1), of name]) (use 2 in auto)
    then have "dirent_detach dir name r = Some (0, r)" using dir by (simp add: registry_finddirent_def dirent_detach_def)
    then have "registry_unlink fs dir name r = Some (-1, r)" using 2 f pos dir mnt
      by (simp add: registry_unlink_def entry_mounted_def entry_full_dir_def unlink_entry_def)
    then show ?thesis using 2 ok ns by auto
  next
    case (3 t)
    obtain d e where d: "registry_finddirent dir name r = Some d" "d \<noteq> 0" "dirents r d = Some e" "d_inode e = t"
      by (rule finddirent_ok [OF ok dir(1), of name]) (use 3 in auto)
    obtain j where j: "inodes r t = Some j" using entry_live [OF ok 3(3)] by blast
    have full: "entry_full_dir d r = Some (is_dir r t \<and> \<not> (\<forall>n. entry r t n \<noteq> None \<longrightarrow> is_dot_name n))"
      using d j dir_empty_ok [OF ok, of t] by (simp add: entry_full_dir_def is_dir_def)
    show ?thesis
    proof (cases "is_dir r t \<and> \<not> (\<forall>n. entry r t n \<noteq> None \<longrightarrow> is_dot_name n)")
      case True
      then have "registry_unlink fs dir name r = Some (BUSY, r)" using 3 d full pos dir mnt fnd
        by (simp add: registry_unlink_def entry_mounted_def)
      then show ?thesis using True 3(3) ok ns by (auto simp: errorcode_def)
    next
      case False
      let ?del = "i_type j = INODE_DIR"
      have "\<And>n. is_dir r t \<Longrightarrow> entry r t n \<noteq> None \<Longrightarrow> is_dot_name n" using False by blast
      from remove_entry_ok [OF ok ns rt dir(1) 3(1,3) j, of ?del, OF refl this] obtain d1 r1 r2 r3 e1 j1 where
        1: "dirent_detach dir name r = Some (d1, r1)" "d1 \<noteq> 0" "dirents r1 d1 = Some e1" "d_inode e1 = t"
          "inodes r1 t = Some j1" "i_type j1 = i_type j" "(if ?del then mark_deleted t r1 else Some r1) = Some r2"
          "dirent_unref d1 r2 = Some r3" "reg_ok H D r3" "ns_ok r3" "reg_root r3 = reg_root r"
          "\<forall>a. inodes r3 a \<noteq> None \<longrightarrow> entry r3 a = (if a = dir then (entry r dir)(name := None) else entry r a)"
        by blast
      have "unlink_entry True dir name r = Some (0, r3)"
        using 1(1-8) by (cases ?del) (simp_all add: unlink_entry_def)
      moreover have "entry_full_dir d r = Some False" unfolding full using False by blast
      ultimately have "registry_unlink fs dir name r = Some (0, r3)" using 3 d pos dir mnt fnd
        by (simp add: registry_unlink_def entry_mounted_def)
      moreover have "\<exists>t. entry r dir name = Some t \<and> (is_dir r t \<longrightarrow> (\<forall>n. entry r t n \<noteq> None \<longrightarrow> is_dot_name n))"
        using 3(3) False by blast
      ultimately show ?thesis using 1(9-12) 3(1,2)
        by (intro exI [of _ "0::int"] exI [of _ r3] conjI impI) blast+
    qed
  qed
qed

section \<open>Resolving a path\<close>

text \<open>The components of a path, and following them through the name space.\<close>

fun split_slash :: "string \<Rightarrow> string list" where
  "split_slash [] = [[]]"
| "split_slash (c # cs) = (if c = CHR ''/'' then [] # split_slash cs
     else case split_slash cs of s # ss \<Rightarrow> (c # s) # ss | [] \<Rightarrow> [[c]])"

definition components :: "string \<Rightarrow> string list" where
  "components p = filter (\<lambda>s. s \<noteq> []) (split_slash p)"

fun follow :: "reg \<Rightarrow> nat \<Rightarrow> string list \<Rightarrow> nat option" where
  "follow r a [] = Some a"
| "follow r a (n # ns) = (if is_dir r a then (case entry r a n of None \<Rightarrow> None | Some b \<Rightarrow> follow r b ns) else None)"

lemma split_slash_word: "CHR ''/'' \<notin> set w \<Longrightarrow> split_slash w = [w]"
  by (induction w) auto

lemma split_slash_append: "CHR ''/'' \<notin> set w \<Longrightarrow> split_slash (w @ CHR ''/'' # q) = w # split_slash q"
  by (induction w) auto

lemma components_Nil [simp]: "components [] = []"
  by (simp add: components_def)

lemma split_path:
  assumes seg: "seg = takeWhile (\<lambda>c. c \<noteq> CHR ''/'') p" and rest: "rest = dropWhile (\<lambda>c. c \<noteq> CHR ''/'') p"
  shows "p = seg @ rest" and "components p = (if seg = [] then [] else [seg]) @ components (tl rest)"
    and "seg = [] \<Longrightarrow> tl p = tl rest" and "p \<noteq> [] \<Longrightarrow> length (tl rest) < length p"
    and "last p = CHR ''/'' \<Longrightarrow> p \<noteq> [] \<Longrightarrow> rest \<noteq> [] \<and> (tl rest = [] \<or> last (tl rest) = CHR ''/'')"
    and "last p \<noteq> CHR ''/'' \<Longrightarrow> p \<noteq> [] \<Longrightarrow> (rest = [] \<and> seg \<noteq> []) \<or> (tl rest \<noteq> [] \<and> last (tl rest) \<noteq> CHR ''/'')"
proof -
  have w: "CHR ''/'' \<notin> set seg" unfolding seg by (auto dest: set_takeWhileD)
  have lw: "seg \<noteq> [] \<Longrightarrow> last seg \<noteq> CHR ''/''" using w last_in_set [of seg] by metis
  show p: "p = seg @ rest" unfolding seg rest by simp
  show "seg = [] \<Longrightarrow> tl p = tl rest" using p by simp
  have hd: "rest = [] \<or> (\<exists>q. rest = CHR ''/'' # q)"
    using hd_dropWhile [of "\<lambda>c. c \<noteq> CHR ''/''" p] unfolding rest [symmetric] by (cases rest) auto
  show "components p = (if seg = [] then [] else [seg]) @ components (tl rest)"
    using hd split_slash_word [OF w] split_slash_append [OF w] unfolding p by (auto simp: components_def)
  show "p \<noteq> [] \<Longrightarrow> length (tl rest) < length p" using p by (cases rest) auto
  show "last p = CHR ''/'' \<Longrightarrow> p \<noteq> [] \<Longrightarrow> rest \<noteq> [] \<and> (tl rest = [] \<or> last (tl rest) = CHR ''/'')"
    using p lw hd by (auto split: if_splits)
  show "last p \<noteq> CHR ''/'' \<Longrightarrow> p \<noteq> [] \<Longrightarrow> (rest = [] \<and> seg \<noteq> []) \<or> (tl rest \<noteq> [] \<and> last (tl rest) \<noteq> CHR ''/'')"
    using p lw hd by (auto split: if_splits)
qed

lemma walk_loop_step:
  assumes ok: "reg_ok H D r" and nat: "native r" and i: "inodes r a = Some i" and p: "p \<noteq> []"
    and seg: "seg = takeWhile (\<lambda>c. c \<noteq> CHR ''/'') p" and rest: "rest = dropWhile (\<lambda>c. c \<noteq> CHR ''/'') p"
  shows "walk_loop fs create trail a p r =
    (if seg = [] then walk_loop fs create trail a (tl p) r
     else if i_type i \<noteq> INODE_DIR then Some (0, r)
     else case entry r a seg of
       None \<Rightarrow> if rest = [] \<and> create \<noteq> None then walk_create (the create) a seg r else Some (0, r)
     | Some b \<Rightarrow> if rest = [] \<and> create \<noteq> None then Some (0, r) else walk_loop fs create trail b (tl rest) r)"
proof -
  have mnt: "i_mnt i = None" by (rule native_mnt [OF nat i])
  note fold = seg [symmetric] rest [symmetric]
  show ?thesis
  proof (cases "entry r a seg")
    case None
    then have "registry_finddirent a seg r = Some 0" by (cases rule: finddirent_ok [OF ok i, of seg]) auto
    then show ?thesis using None i p mnt by (cases create; subst walk_loop.simps) (simp_all add: Let_def fold)
  next
    case (Some b)
    obtain d e where d: "registry_finddirent a seg r = Some d" "d \<noteq> 0" "dirents r d = Some e" "d_inode e = b"
      by (rule finddirent_ok [OF ok i, of seg]) (use Some in auto)
    obtain j where j: "inodes r b = Some j" using entry_live [OF ok Some] by blast
    have b: "b \<noteq> 0" using inv_inode [OF reg_okD [OF ok] j] by simp
    have "enter_mount b r = Some (b, r)" using native_find [OF nat] by (simp add: enter_mount_def)
    then show ?thesis using Some d b i p mnt by (cases create; subst walk_loop.simps) (simp_all add: Let_def fold)
  qed
qed

lemma walk_loop_end: "inodes r a = Some i \<Longrightarrow>
  walk_loop fs create trail a [] r = Some (if trail \<and> i_type i \<noteq> INODE_DIR then 0 else a, r)"
  by (subst walk_loop.simps) simp

text \<open>Without creation, or after a slash, the walk follows the components.\<close>

lemma walk_loop_follow:
  assumes ok: "reg_ok H D r" and nat: "native r" and a: "inodes r a \<noteq> None"
    and c: "create = None \<or> p = [] \<or> last p = CHR ''/''"
  shows "walk_loop fs create trail a p r =
    Some (case follow r a (components p) of None \<Rightarrow> 0 | Some b \<Rightarrow> if trail \<and> \<not> is_dir r b then 0 else b, r)"
  using a c
proof (induction "length p" arbitrary: a p rule: less_induct)
  case less
  obtain i where i: "inodes r a = Some i" using less.prems by blast
  have dir: "is_dir r a \<longleftrightarrow> i_type i = INODE_DIR" using i by (simp add: is_dir_def)
  show ?case
  proof (cases "p = []")
    case True
    then show ?thesis using walk_loop_end [OF i] dir by simp
  next
    case False
    define seg where "seg = takeWhile (\<lambda>c. c \<noteq> CHR ''/'') p"
    define rest where "rest = dropWhile (\<lambda>c. c \<noteq> CHR ''/'') p"
    note sp = split_path [OF seg_def rest_def]
    have lastp: "create = None \<or> tl rest = [] \<or> last (tl rest) = CHR ''/''" and ne: "\<not> (rest = [] \<and> create \<noteq> None)"
      using less.prems(2) False sp(5) by auto
    note run = walk_loop_step [OF ok nat i False seg_def rest_def, of fs create trail]
    show ?thesis
    proof (cases "seg = []")
      case True
      then show ?thesis using run sp(2) less.hyps [of "tl rest" a, OF sp(4) [OF False]] less.prems(1) lastp sp(3) by simp
    next
      case seg: False
      have comp: "components p = seg # components (tl rest)" using sp(2) seg by simp
      show ?thesis
      proof (cases "i_type i = INODE_DIR \<and> entry r a seg \<noteq> None")
        case no: False
        then show ?thesis using ne seg unfolding run comp by (cases "entry r a seg") (auto simp: dir)
      next
        case True
        then obtain b where b: "entry r a seg = Some b" by blast
        have "inodes r b \<noteq> None" using entry_live [OF ok b] by blast
        from less.hyps [OF sp(4) [OF False] this lastp] show ?thesis
          using True b ne seg unfolding run comp by (cases create) (simp_all add: dir)
      qed
    qed
  qed
qed

text \<open>With creation and no slash at the end, it follows all but the last and creates that.\<close>

lemma walk_loop_create:
  assumes ok: "reg_ok H D r" and nat: "native r" and a: "inodes r a \<noteq> None"
    and c: "p \<noteq> []" "last p \<noteq> CHR ''/''"
  shows "components p \<noteq> [] \<and> walk_loop fs (Some ty) trail a p r =
    (case follow r a (butlast (components p)) of None \<Rightarrow> Some (0, r)
     | Some b \<Rightarrow> if \<not> is_dir r b \<or> entry r b (last (components p)) \<noteq> None then Some (0, r)
         else walk_create ty b (last (components p)) r)"
  using a c
proof (induction "length p" arbitrary: a p rule: less_induct)
  case less
  obtain i where i: "inodes r a = Some i" using less.prems by blast
  have dir: "is_dir r a \<longleftrightarrow> i_type i = INODE_DIR" using i by (simp add: is_dir_def)
  define seg where "seg = takeWhile (\<lambda>c. c \<noteq> CHR ''/'') p"
  define rest where "rest = dropWhile (\<lambda>c. c \<noteq> CHR ''/'') p"
  note sp = split_path [OF seg_def rest_def]
  note run = walk_loop_step [OF ok nat i less.prems(2) seg_def rest_def, of fs "Some ty" trail]
  show ?case
  proof (cases "rest = []")
    case True
    then have "seg \<noteq> []" using sp(1) less.prems(2) by simp
    moreover have "components p = [seg]" using sp(2) True \<open>seg \<noteq> []\<close> by simp
    ultimately show ?thesis using run True by (auto simp: dir split: option.split)
  next
    case False
    then have tl: "tl rest \<noteq> []" "last (tl rest) \<noteq> CHR ''/''" using sp(6) less.prems by auto
    note IH = less.hyps [OF sp(4) [OF less.prems(2)] _ tl]
    show ?thesis
    proof (cases "seg = []")
      case True
      have c: "components p = components (tl rest)" using sp(2) True by simp
      have r: "walk_loop fs (Some ty) trail a p r = walk_loop fs (Some ty) trail a (tl rest) r"
        using run sp(3) True by simp
      show ?thesis unfolding c r by (rule IH) (rule less.prems(1))
    next
      case seg: False
      have comp: "components p = seg # components (tl rest)" using sp(2) seg by simp
      show ?thesis
      proof (cases "i_type i = INODE_DIR \<and> entry r a seg \<noteq> None")
        case no: False
        have "components (tl rest) \<noteq> []" using IH [of a] i by simp
        then have "butlast (components p) = seg # butlast (components (tl rest))" "components p \<noteq> []"
          by (simp_all add: comp)
        then show ?thesis using no seg False unfolding run by (cases "entry r a seg") (auto simp: dir)
      next
        case True
        then obtain b where b: "entry r a seg = Some b" by blast
        have "inodes r b \<noteq> None" using entry_live [OF ok b] by blast
        note step = IH [OF this]
        then have "butlast (components p) = seg # butlast (components (tl rest))" "components p \<noteq> []"
          "last (components p) = last (components (tl rest))"
          by (simp_all add: comp)
        then show ?thesis using True b seg False step unfolding run by (simp add: dir cong: option.case_cong if_cong)
      qed
    qed
  qed
qed

lemma components_slash: "components (CHR ''/'' # p) = components p"
  by (simp add: components_def)

lemma registry_resolve_ok:
  assumes "reg_ok H D r" "native r" "inodes r start \<noteq> None" "inodes r (reg_root r) \<noteq> None" and "path \<noteq> []"
  shows "registry_resolve fs start path r =
    Some (case follow r (if hd path = CHR ''/'' then reg_root r else start) (components path) of
            None \<Rightarrow> 0
          | Some a \<Rightarrow> if 1 < length path \<and> last path = CHR ''/'' \<and> \<not> is_dir r a then 0 else a, r)"
proof -
  let ?cur = "if hd path = CHR ''/'' then reg_root r else start"
  let ?p = "if hd path = CHR ''/'' then tl path else path"
  have live: "inodes r ?cur \<noteq> None" using assms by simp
  then obtain i where i: "inodes r ?cur = Some i" by blast
  have "enter_mount ?cur r = Some (?cur, r)" using native_find [OF assms(2)] by (simp add: enter_mount_def)
  moreover have "components ?p = components path" using assms(5) components_slash [of "tl path"] by (cases path) auto
  moreover have "i_mnt i = None" by (rule native_mnt [OF assms(2) i])
  ultimately show ?thesis
    using walk_loop_follow [OF assms(1,2) live, of None ?p fs "1 < length path \<and> last path = CHR ''/''"] i assms(5)
    by (simp add: registry_resolve_def walk_def Let_def split: option.split)
qed

section \<open>Linking\<close>

lemma view_cong:
  assumes "inodes r' = inodes r" "dirents r' = dirents r" "reg_root r' = reg_root r" "mounts r' = mounts r"
  shows "entry r' = entry r" "is_dir r' = is_dir r" "ns_ok r' = ns_ok r" "kids r' = kids r" "in_use r' = in_use r"
proof -
  have k: "kids r' = kids r" "ent r' = ent r" using assms by (simp_all add: kids_def ent_def fun_eq_iff)
  show e: "entry r' = entry r" "is_dir r' = is_dir r"
    by (rule ext, simp add: entry_def k) (rule ext, simp add: is_dir_def assms)
  show u: "in_use r' = in_use r" by (simp add: in_use_def assms fun_eq_iff)
  show "ns_ok r' = ns_ok r" using assms k e u
    by (simp add: ns_ok_def names_unique_def dots_ok_def parents_ok_def native_def ranked_def linked_ok_def)
  show "kids r' = kids r" by (rule k)
qed

lemma answers_view [simp]: "entry (r\<lparr>answers := as\<rparr>) = entry r" "is_dir (r\<lparr>answers := as\<rparr>) = is_dir r"
  "ns_ok (r\<lparr>answers := as\<rparr>) = ns_ok r" "kids (r\<lparr>answers := as\<rparr>) = kids r"
  "in_use (r\<lparr>answers := as\<rparr>) = in_use r"
  by (rule view_cong; simp)+

lemma answers_parts [simp]: "ent (r\<lparr>answers := as\<rparr>) = ent r" "names_unique (r\<lparr>answers := as\<rparr>) = names_unique r"
  "native (r\<lparr>answers := as\<rparr>) = native r"
proof -
  show e: "ent (r\<lparr>answers := as\<rparr>) = ent r" by (simp add: ent_def fun_eq_iff)
  show "names_unique (r\<lparr>answers := as\<rparr>) = names_unique r" by (simp add: names_unique_def e)
  show "native (r\<lparr>answers := as\<rparr>) = native r" by (simp add: native_def)
qed

lemma is_dir_add [simp]: "is_dir (add_entry dir name t r) = is_dir r"
proof
  show "is_dir (add_entry dir name t r) x = is_dir r x" for x
    by (cases "inodes r x") (simp_all add: is_dir_def add_entry_def)
qed

lemma in_use_add [simp]: "in_use (add_entry dir name t r) = in_use r"
proof
  show "in_use (add_entry dir name t r) x = in_use r x" for x
    by (cases "inodes r x") (simp_all add: in_use_def add_entry_def)
qed

lemma in_use_mark: "inodes r a = Some i \<Longrightarrow> i_type i' = i_type i \<Longrightarrow> i_deleted i' = i_deleted i \<Longrightarrow>
  in_use (set_inode a i' r) = in_use r"
  by (auto simp: in_use_def fun_eq_iff)

lemma native_add: "native r \<Longrightarrow> native (add_entry dir name t r)"
  by (auto simp: native_def add_entry_def)

lemma ns_ok_add_leaf:
  assumes ok: "reg_ok H D r" and ns: "ns_ok r" and use: "in_use r dir" and none: "entry r dir name = None"
    and name: "\<not> is_dot_name name" and t: "\<not> is_dir r t"
  shows "ns_ok (add_entry dir name t r)" (is "ns_ok ?r")
proof -
  note dir = in_use_dir [OF use]
  from dir have live: "inodes r dir \<noteq> None" by (auto simp: is_dir_def)
  note e = entry_add(1) [OF ok live]
  from ns have uniq: "names_unique r" "native r" by (simp_all add: ns_ok_def)
  have dd: "entry ?r a ''.'' = entry r a ''.''" "entry ?r a ''..'' = entry r a ''..''" for a
    using name by (auto simp: e is_dot_name_def)
  have old: "entry ?r a n = Some x \<Longrightarrow> (a = dir \<and> n = name \<and> x = t) \<or> entry r a n = Some x" for a n x
    by (auto simp: e split: if_splits)
  have "dots_ok ?r"
    using ns old dir t unfolding ns_ok_def dots_ok_def dd is_dir_add add_entry_simps by blast
  moreover have "parents_ok ?r"
    using ns old t unfolding ns_ok_def parents_ok_def dd is_dir_add add_entry_simps by blast
  moreover have "\<exists>rank. ranked rank ?r"
    using ns unfolding ns_ok_def ranked_def dd is_dir_add add_entry_simps by blast
  moreover have keep: "entry r p n = Some x \<Longrightarrow> entry ?r p n = Some x" for p n x using none by (auto simp: e)
  then have "linked_ok ?r"
    using ns old use unfolding ns_ok_def linked_ok_def in_use_add add_entry_simps by blast
  ultimately show ?thesis
    using entry_add(2) [OF ok live none uniq(1)] native_add [OF uniq(2)] by (simp add: ns_ok_def)
qed

lemma registry_link_ok:
  assumes ok: "reg_ok H D r" and ns: "ns_ok r" and few: "few (H target)"
    and dir: "inodes r dir = Some i" "i_type i = INODE_DIR" and t: "inodes r target = Some j"
  shows "\<exists>rc r'. registry_link fs target dir name r = Some (rc, r') \<and> reg_ok H D r' \<and> ns_ok r' \<and> reg_root r' = reg_root r \<and>
    (rc \<noteq> 0 \<longrightarrow> inodes r' = inodes r \<and> dirents r' = dirents r) \<and>
    (rc = 0 \<longrightarrow> \<not> is_dot_name name \<and> 0 < length name \<and> length name < 256 \<and> \<not> i_deleted i \<and> i_type j \<noteq> INODE_DIR \<and>
       entry r dir name = None \<and> (\<forall>a. entry r' a = (if a = dir then (entry r dir)(name \<mapsto> target) else entry r a))) \<and>
    (rc = EXISTS \<longleftrightarrow> \<not> is_dot_name name \<and> 0 < length name \<and> length name < 256 \<and> \<not> i_deleted i \<and> i_type j \<noteq> INODE_DIR \<and>
       entry r dir name \<noteq> None)"
proof -
  from ns have nat: "native r" by (simp add: ns_ok_def)
  note m = native_mnt [OF nat dir(1)] native_mnt [OF nat t]
  have pos: "dir \<noteq> 0" "target \<noteq> 0" using inv_inode [OF reg_okD [OF ok]] dir(1) t by blast+
  let ?len = "name = [] \<or> REG_MAX_NAME_LEN \<le> length name"
  have len: "?len \<longleftrightarrow> \<not> (0 < length name \<and> length name < 256)" by (auto simp: REG_MAX_NAME_LEN_def)
  consider "?len \<or> i_deleted i \<or> is_dot_name name \<or> i_type j = INODE_DIR"
    | "\<not> ?len" "\<not> i_deleted i" "\<not> is_dot_name name" "i_type j \<noteq> INODE_DIR" by blast
  then show ?thesis
  proof cases
    case 1
    define rc where "rc = (if ?len then PLAINERR else if i_deleted i then BUSY else UNSUPPORTEDOP)"
    have "registry_link fs target dir name r = Some (rc, r)"
      using 1 pos dir t m by (auto simp: registry_link_def rc_def)
    moreover have "rc \<noteq> 0" "rc \<noteq> EXISTS" by (simp_all add: rc_def errorcode_def)
    ultimately show ?thesis using 1 ok ns len by (intro exI [of _ rc] exI [of _ r]) auto
  next
    case 2
    show ?thesis
    proof (cases rule: finddirent_ok [OF ok dir(1), of name])
      case (2 d e)
      then have "registry_link fs target dir name r = Some (EXISTS, r)"
        using \<open>\<not> ?len\<close> \<open>\<not> i_deleted i\<close> \<open>\<not> is_dot_name name\<close> \<open>i_type j \<noteq> INODE_DIR\<close> pos dir t m
        by (simp add: registry_link_def)
      then show ?thesis using 2 \<open>\<not> ?len\<close> \<open>\<not> i_deleted i\<close> \<open>\<not> is_dot_name name\<close> \<open>i_type j \<noteq> INODE_DIR\<close> ok ns len
        by (intro exI [of _ EXISTS] exI [of _ r]) (auto simp: errorcode_def)
    next
      case 1
      have run: "registry_link fs target dir name r = do {
          (d, r) \<leftarrow> registry_linkdirent dir name target r;
          Some (if d = 0 then PLAINERR else 0, r) }"
        using 1 2 pos dir t m by (simp add: registry_link_def)
      show ?thesis
      proof (cases rule: linkdirent_cases [OF ok dir(1) t few, of name])
        case (1 as)
        then show ?thesis unfolding run using ok ns \<open>entry r dir name = None\<close>
          by (intro exI [of _ PLAINERR] exI [of _ "r\<lparr>answers := as\<rparr>"]) (simp add: errorcode_def)
      next
        case link: (2 as)
        let ?r0 = "r\<lparr>answers := as\<rparr>"
        have ok0: "reg_ok H D ?r0" using ok by simp
        have f: "fresh r \<noteq> 0" using ok by (simp add: reg_ok_def)
        have "reg_ok H D (add_entry dir name target ?r0)"
          by (rule add_entry_ok [OF ok0]) (use dir t link(4) in simp_all)
        moreover have "ns_ok (add_entry dir name target ?r0)"
          by (rule ns_ok_add_leaf [OF ok0]) (use ns 1 2 dir t in \<open>auto simp: is_dir_def in_use_def\<close>)
        moreover have "entry (add_entry dir name target ?r0) a = (if a = dir then (entry r dir)(name \<mapsto> target) else entry r a)" for a
          using entry_add(1) [OF ok0, of dir name target a] dir(1) by simp
        ultimately show ?thesis unfolding run using link 1 2 f len
          by (intro exI [of _ "0::int"] exI [of _ "add_entry dir name target ?r0"]) (simp add: errorcode_def)
      qed
    qed
  qed
qed

end
