(* ===== verification/Namespace_Make.thy ===== *)
theory Namespace_Make
  imports Namespace_Ops
begin

text \<open>
  Creating entries (\<open>walk\<close> with creation, \<open>registry_mkdir_at\<close>): the new inode, its entry and the
  entries \<open>.\<close> and \<open>..\<close> appear together or, if an allocation fails on the way, not at all.
\<close>

section \<open>Creating\<close>

text \<open>A failed creation: only the address counter and the answers have moved.\<close>

lemma walk_create_fail:
  assumes ok: "reg_ok H D r" and i: "inodes r a = Some i"
  defines "new \<equiv> fresh r"
  shows "inode_unref new (new_inode ty r) = Some (r\<lparr>fresh := fresh r + 1\<rparr>)"
    and "walk_undo new a seg (add_entry a seg new (new_inode ty r)) = Some (0, r\<lparr>fresh := fresh r + 2\<rparr>)"
    and "walk_undo new a seg (add_entry new ''.'' new (add_entry a seg new (new_inode ty r))) = Some (0, r\<lparr>fresh := fresh r + 3\<rparr>)"
proof -
  have f: "inodes r new = None" "dirents r new = None" "0 < new" "a \<noteq> new"
    using ok_fresh [OF ok] ok i by (auto simp: new_def reg_ok_def)
  show "inode_unref new (new_inode ty r) = Some (r\<lparr>fresh := fresh r + 1\<rparr>)"
    using f by (subst inode_unref_last) (auto simp: new_inode_def new_def fun_upd_idem intro!: reg.equality)
  have g: "dirents r (Suc new) = None" "dirents r (Suc (Suc new)) = None"
    using inv_dirent [OF reg_okD [OF ok], of "Suc new"] inv_dirent [OF reg_okD [OF ok], of "Suc (Suc new)"]
    by (auto simp: new_def) (metis Suc_n_not_le_n lessI less_imp_le not_None_eq order_less_trans)+
  define r1 where "r1 = add_entry a seg new (new_inode ty r)"
  let ?d = "Suc new"
  have r1: "inodes r1 new = Some \<lparr>i_type = ty, i_refcount = 2, i_deleted = False, i_impl = 0, i_ops = 0, i_children = [], i_mnt = None\<rparr>"
    "inodes r1 a = Some (i\<lparr>i_children := ?d # i_children i\<rparr>)" "x \<noteq> a \<Longrightarrow> x \<noteq> new \<Longrightarrow> inodes r1 x = inodes r x"
    "dirents r1 = (dirents r)(?d \<mapsto> \<lparr>d_name = seg, d_refcount = 1, d_inode = new\<rparr>)" "fresh r1 = new + 2"
    "dirent_count r1 = dirent_count r + 1" "inode_count r1 = inode_count r + 1" "reg_root r1 = reg_root r"
    "mounts r1 = mounts r" "next_mount_id r1 = next_mount_id r" "answers r1 = answers r" for x
    using i f by (simp_all add: r1_def add_entry_def new_inode_def new_def option.map_ident)
  have rest: "do { (d, r) \<leftarrow> dirent_detach a seg r2; r \<leftarrow> (if d \<noteq> 0 then dirent_unref d r else Some r);
       r \<leftarrow> inode_unref new r; Some (0::nat, r) } = Some (0, r\<lparr>fresh := fresh r2\<rparr>)"
    if r2: "r2 = r1\<lparr>fresh := n\<rparr>" "0 < n" for r2 n
  proof -
    define r3 where "r3 = set_inode a i r2"
    have 3: "dirent_detach a seg r2 = Some (?d, r3)"
      using r1 i by (simp add: dirent_detach_def r2 r3_def)
    define r4 where "r4 = r3\<lparr>dirent_count := dirent_count r3 - 1, dirents := (dirents r3)(?d := None)\<rparr>"
    define r5 where "r5 = set_inode new \<lparr>i_type = ty, i_refcount = 1, i_deleted = False, i_impl = 0, i_ops = 0, i_children = [], i_mnt = None\<rparr> r4"
    have "inodes r4 new = Some \<lparr>i_type = ty, i_refcount = 2, i_deleted = False, i_impl = 0, i_ops = 0, i_children = [], i_mnt = None\<rparr>"
      using f r1(1) by (simp add: r4_def r3_def r2)
    from inode_unref_more [OF this] f have "inode_unref new r4 = Some r5" by (simp add: r5_def)
    then have 4: "dirent_unref ?d r3 = Some r5"
      using r1(4) by (simp add: dirent_unref_def dirent_put_def Let_def r4_def r3_def r2)
    have "inodes r5 new = Some \<lparr>i_type = ty, i_refcount = 1, i_deleted = False, i_impl = 0, i_ops = 0, i_children = [], i_mnt = None\<rparr>"
      "0 < fresh r5" using r2(2) by (simp_all add: r5_def r4_def r3_def r2(1))
    from inode_unref_last [OF this(1) _ _ f(3) this(2)]
    have "inode_unref new r5 = Some (r5\<lparr>inode_count := inode_count r5 - 1, inodes := (inodes r5)(new := None)\<rparr>)"
      by simp
    moreover have "r5\<lparr>inode_count := inode_count r5 - 1, inodes := (inodes r5)(new := None)\<rparr> = r\<lparr>fresh := fresh r2\<rparr>"
    proof (rule reg.equality)
      have "((inodes r1)(a \<mapsto> i))(new := None) = inodes r"
        using r1(3) f i by (auto simp: fun_eq_iff)
      then show "inodes (r5\<lparr>inode_count := inode_count r5 - 1, inodes := (inodes r5)(new := None)\<rparr>) = inodes (r\<lparr>fresh := fresh r2\<rparr>)"
        using f by (simp add: r5_def r4_def r3_def r2)
      show "dirents (r5\<lparr>inode_count := inode_count r5 - 1, inodes := (inodes r5)(new := None)\<rparr>) = dirents (r\<lparr>fresh := fresh r2\<rparr>)"
        using r1(4) g by (simp add: r5_def r4_def r3_def r2 fun_upd_idem)
    qed (use r1 in \<open>simp_all add: r5_def r4_def r3_def r2\<close>)
    ultimately show ?thesis using 3 4 by simp
  qed
  have r: "fresh r = new" by (simp add: new_def)
  have own: "undo_own new n r1 = Some r1" for n
    using r1(1) by (simp add: undo_own_def dirent_detach_def)
  show "walk_undo new a seg (add_entry a seg new (new_inode ty r)) = Some (0, r\<lparr>fresh := fresh r + 2\<rparr>)"
    unfolding r1_def [symmetric] using own rest [of r1 "fresh r1"] r1(5) f by (simp add: walk_undo_def r)
  define r6 where "r6 = add_entry new ''.'' new r1"
  have r6: "inodes r6 = (inodes r1)(new \<mapsto> \<lparr>i_type = ty, i_refcount = 2, i_deleted = False, i_impl = 0, i_ops = 0, i_children = [Suc ?d], i_mnt = None\<rparr>)"
    "dirents r6 = (dirents r1)(Suc ?d \<mapsto> \<lparr>d_name = ''.'', d_refcount = 1, d_inode = new\<rparr>)" "fresh r6 = new + 3"
    "dirent_count r6 = dirent_count r1 + 1"
    using r1 by (auto simp: r6_def add_entry_def fun_eq_iff option.map_ident)
  have dot: "undo_own new ''.'' r6 = Some (r1\<lparr>fresh := new + 3\<rparr>)"
  proof -
    have "dirents r1 (Suc ?d) = None" using r1(4) g by simp
    then show ?thesis
      using r6 r1 by (simp add: undo_own_def dirent_detach_def dirent_put_def Let_def)
        (rule reg.equality; simp add: r6_def add_entry_def fun_upd_idem)
  qed
  have dotdot: "undo_own new ''..'' (r1\<lparr>fresh := new + 3\<rparr>) = Some (r1\<lparr>fresh := new + 3\<rparr>)"
    using r1(1) by (simp add: undo_own_def dirent_detach_def)
  show "walk_undo new a seg (add_entry new ''.'' new (add_entry a seg new (new_inode ty r))) = Some (0, r\<lparr>fresh := fresh r + 3\<rparr>)"
    unfolding r1_def [symmetric] unfolding r6_def [symmetric]
    using dot dotdot rest [of "r1\<lparr>fresh := new + 3\<rparr>" "new + 3"] f by (simp add: walk_undo_def r)
qed

lemma new_inode_simps [simp]:
  "inodes (new_inode ty r) = (inodes r)(fresh r \<mapsto> \<lparr>i_type = ty, i_refcount = 1, i_deleted = False, i_impl = 0,
     i_ops = 0, i_children = [], i_mnt = None\<rparr>)"
  "dirents (new_inode ty r) = dirents r" "fresh (new_inode ty r) = fresh r + 1" "reg_root (new_inode ty r) = reg_root r"
  "mounts (new_inode ty r) = mounts r" "(new_inode ty r)\<lparr>answers := as\<rparr> = new_inode ty (r\<lparr>answers := as\<rparr>)"
  "dirent_count (new_inode ty r) = dirent_count r"
  by (simp_all add: new_inode_def)

lemma add_entry_answers [simp]: "(add_entry dir name t r)\<lparr>answers := as\<rparr> = add_entry dir name t (r\<lparr>answers := as\<rparr>)"
  by (rule reg.equality) (simp_all add: add_entry_def cong: if_cong)

lemma new_inode_view:
  assumes "reg_ok H D r"
  shows "entry (new_inode ty r) = entry r" "is_dir (new_inode ty r) x \<longleftrightarrow> x = fresh r \<and> ty = INODE_DIR \<or> is_dir r x"
    "names_unique (new_inode ty r) = names_unique r" "native r \<Longrightarrow> native (new_inode ty r)"
    "in_use (new_inode ty r) x \<longleftrightarrow> x = fresh r \<and> ty = INODE_DIR \<or> in_use r x"
proof -
  note fr = ok_fresh(1) [OF assms]
  have k: "kids (new_inode ty r) = kids r" "ent (new_inode ty r) = ent r"
    using kids_new_inode [OF fr] by (simp_all add: ent_def fun_eq_iff)
  show "entry (new_inode ty r) = entry r" by (simp add: entry_def fun_eq_iff k)
  show "is_dir (new_inode ty r) x \<longleftrightarrow> x = fresh r \<and> ty = INODE_DIR \<or> is_dir r x"
    using fr by (auto simp: is_dir_def)
  show "names_unique (new_inode ty r) = names_unique r" by (simp add: names_unique_def k)
  show "native r \<Longrightarrow> native (new_inode ty r)" by (auto simp: native_def)
  show "in_use (new_inode ty r) x \<longleftrightarrow> x = fresh r \<and> ty = INODE_DIR \<or> in_use r x"
    using fr by (auto simp: in_use_def)
qed

lemma ns_ok_create:
  assumes ok: "reg_ok H D r" and ns: "ns_ok r" and use: "in_use r a" and name: "\<not> is_dot_name seg" and b: "inodes r b = None"
    and e: "\<And>x. entry r' x = (if x = a then (entry r a)(seg \<mapsto> b)
       else if x = b \<and> dirp then [''.'' \<mapsto> b, ''..'' \<mapsto> a] else entry r x)"
    and d: "\<And>x. is_dir r' x \<longleftrightarrow> x = b \<and> dirp \<or> is_dir r x" and root: "reg_root r' = reg_root r"
    and none: "entry r a seg = None" and u: "\<And>x. in_use r' x \<longleftrightarrow> x = b \<and> dirp \<or> in_use r x"
    and rest: "names_unique r'" "native r'"
  shows "ns_ok r'"
proof -
  note a = in_use_dir [OF use]
  have dots: "dots_ok r" "parents_ok r" using ns by (simp_all add: ns_ok_def)
  have nb: "\<not> is_dir r b" "entry r b n = None" "entry r x n \<noteq> Some b" for n x
    using b entry_None_kids [OF b] entry_live [OF ok, of x n b] by (auto simp: is_dir_def)
  have ab: "a \<noteq> b" "reg_root r \<noteq> b" using a nb dots by (auto simp: dots_ok_def)
  have up: "entry r' x ''..'' = (if x = b \<and> dirp then Some a else entry r x ''..'')" for x
    using name ab by (auto simp: e is_dot_name_def)
  have dot: "entry r' x ''.'' = (if x = b \<and> dirp then Some b else entry r x ''.'')" for x
    using name ab by (auto simp: e is_dot_name_def)
  have old: "entry r' x n = Some t \<Longrightarrow> x = a \<and> n = seg \<and> t = b \<or> x = b \<and> dirp \<and> is_dot_name n \<and> n \<noteq> ''.'' \<and> t = a
     \<or> x = b \<and> dirp \<and> n = ''.'' \<and> t = b \<or> entry r x n = Some t \<and> t \<noteq> b" for x n t
    using ab nb by (auto simp: e is_dot_name_def split: if_splits)
  have "dots_ok r'"
    unfolding dots_ok_def root
  proof (intro conjI allI impI)
    show "is_dir r' (reg_root r)" "entry r' (reg_root r) ''..'' = Some (reg_root r)"
      using dots ab by (simp_all add: d up dots_ok_def)
    show "entry r' x ''.'' = Some x" "\<exists>p. entry r' x ''..'' = Some p \<and> is_dir r' p" if "is_dir r' x" for x
      using that dots a by (auto simp: d dot up dots_ok_def)
    show "n = ''.'' \<or> n = ''..'' \<and> x = reg_root r" if "entry r' x n = Some x" for x n
      using old [OF that] ab dots(1) unfolding dots_ok_def by blast
  qed
  moreover have "parents_ok r'"
    unfolding parents_ok_def root
  proof (intro allI impI)
    fix x n t assume "entry r' x n = Some t" "\<not> is_dot_name n" "is_dir r' t"
    with old [of x n t] consider "x = a" "n = seg" "t = b" | "entry r x n = Some t" "t \<noteq> b" by (auto simp: is_dot_name_def)
    then show "t \<noteq> reg_root r \<and> entry r' t ''..'' = Some x \<and> (\<forall>m. entry r' x m = Some t \<longrightarrow> \<not> is_dot_name m \<longrightarrow> m = n)"
    proof cases
      case 1
      have "m = seg" if "entry r' x m = Some t" "\<not> is_dot_name m" for m
        using old [OF that(1)] 1 that(2) by (auto simp: is_dot_name_def)
      then show ?thesis using 1 \<open>is_dir r' t\<close> nb(1) ab by (simp add: d up)
    next
      case 2
      have m: "entry r x m = Some t" if "entry r' x m = Some t" "\<not> is_dot_name m" for m
        using old [OF that(1)] 2 that(2) by (auto simp: is_dot_name_def)
      show ?thesis using 2 \<open>is_dir r' t\<close> \<open>\<not> is_dot_name n\<close> dots(2) m unfolding d up parents_ok_def by auto
    qed
  qed
  moreover have "\<exists>rank. ranked rank r'"
  proof -
    obtain rank where rk: "ranked rank r" using ns by (auto simp: ns_ok_def)
    have "ranked (rank(b := Suc (rank a))) r'"
      using rk ab nb unfolding ranked_def root d up by (auto split: if_splits)
    then show ?thesis by blast
  qed
  moreover have "linked_ok r'"
    unfolding linked_ok_def root
  proof (intro conjI allI impI)
    fix x assume "in_use r' x"
    then consider "x = b" | "x = reg_root r" | p n where "\<not> is_dot_name n" "entry r p n = Some x"
      using ns unfolding u ns_ok_def linked_ok_def by blast
    then show "x = reg_root r \<or> (\<exists>p n. \<not> is_dot_name n \<and> entry r' p n = Some x)"
    proof cases
      case 1
      then have "entry r' a seg = Some x" by (simp add: e)
      then show ?thesis using name by blast
    next
      case (3 p n)
      then have "entry r' p n = Some x" using none nb by (auto simp: e)
      then show ?thesis using 3 by blast
    qed simp
  next
    fix p n t assume n: "entry r' p n = Some t" "\<not> is_dot_name n"
    from old [OF n(1)] n(2) consider "p = a" | "entry r p n = Some t" by (auto simp: is_dot_name_def)
    then show "in_use r' p" using ns use n(2) unfolding u ns_ok_def linked_ok_def by cases blast+
  qed
  ultimately show ?thesis using rest by (simp add: ns_ok_def)
qed

text \<open>The creator's own reference to a new inode that has an entry by now.\<close>

lemma drop_creator:
  assumes ok: "reg_ok (H(b := 1)) D r" and b: "inodes r b = Some j" and H: "H b = 0" and two: "i_refcount j = 2"
    and own: "\<And>d. d \<in> set (i_children j) \<Longrightarrow> D d = 0" and nat: "native r"
  obtains r' where "inode_unref b r = Some r'" "reg_ok H D r'" "entry r' = entry r" "is_dir r' = is_dir r" "in_use r' = in_use r"
    "names_unique r' = names_unique r" "native r'" "reg_root r' = reg_root r"
    "inodes r' b = Some (j\<lparr>i_refcount := 1\<rparr>)"
proof -
  have pos: "0 < b" using inv_inode [OF reg_okD [OF ok] b] by simp
  define r' where "r' = set_inode b (j\<lparr>i_refcount := 1\<rparr>) r"
  have run: "inode_unref b r = Some r'" using inode_unref_more [OF b _ pos] two by (simp add: r'_def)
  have "reg_ok ((H(b := 1))(b := (H(b := 1)) b - 1)) D r'"
    using inode_unref_ok [OF ok, of b] own b run by fastforce
  moreover have "(H(b := 1))(b := (H(b := 1)) b - 1) = H" using H by (simp add: fun_upd_idem)
  moreover have "native r'" unfolding r'_def by (rule native_set_inode [OF nat]) (use native_mnt [OF nat b] in simp)
  ultimately show thesis using run b entry_mark [OF b] is_dir_set_inode [OF b] names_unique_mark [OF b] in_use_mark [OF b]
    by (intro that [of r']) (simp_all add: r'_def)
qed

text \<open>The new inode with its entry in the directory.\<close>

lemma create_entry_ok:
  assumes ok: "reg_ok H D q" and ns: "ns_ok q" and i: "inodes q a = Some i" "i_type i = INODE_DIR"
    and none: "entry q a seg = None" and b: "b = fresh q" and room: "dirent_count q < REG_MAX_DIRENTS"
    and r3_def: "r3 = add_entry a seg b (new_inode ty q)"
  shows "reg_ok (H(b := 1)) D r3" "entry r3 x = (if x = a then (entry q a)(seg \<mapsto> b) else entry q x)"
    "is_dir r3 x \<longleftrightarrow> x = b \<and> ty = INODE_DIR \<or> is_dir q x" "names_unique r3" "native r3" "reg_root r3 = reg_root q"
    "inodes r3 b = Some \<lparr>i_type = ty, i_refcount = 2, i_deleted = False, i_impl = 0, i_ops = 0, i_children = [], i_mnt = None\<rparr>"
    "inodes r3 a \<noteq> None" "fresh r3 = b + 2" "in_use r3 x \<longleftrightarrow> x = b \<and> ty = INODE_DIR \<or> in_use q x"
proof -
  have fr: "inodes q b = None" "a \<noteq> b" using ok_fresh(1) [OF ok] i b by auto
  note ok1 = new_inode_ok [OF ok, of ty, folded b]
  have i1: "inodes (new_inode ty q) a = Some i" "inodes (new_inode ty q) b = Some \<lparr>i_type = ty, i_refcount = 1,
      i_deleted = False, i_impl = 0, i_ops = 0, i_children = [], i_mnt = None\<rparr>" using i fr b by simp_all
  note v = new_inode_view [OF ok, of ty, folded b]
  show "reg_ok (H(b := 1)) D r3" unfolding r3_def by (rule add_entry_ok [OF ok1 i1(1) i(2) i1(2)]) (simp add: room)
  show "entry r3 x = (if x = a then (entry q a)(seg \<mapsto> b) else entry q x)"
    using entry_add(1) [OF ok1, of a seg b x] i1 by (simp add: r3_def v)
  show "is_dir r3 x \<longleftrightarrow> x = b \<and> ty = INODE_DIR \<or> is_dir q x" "in_use r3 x \<longleftrightarrow> x = b \<and> ty = INODE_DIR \<or> in_use q x"
    by (simp_all add: r3_def v)
  show "names_unique r3" "native r3"
    using entry_add(2) [OF ok1, of a seg b] i1 none ns native_add v by (simp_all add: r3_def v ns_ok_def)
  show "inodes r3 b = Some \<lparr>i_type = ty, i_refcount = 2, i_deleted = False, i_impl = 0, i_ops = 0, i_children = [], i_mnt = None\<rparr>"
    "inodes r3 a \<noteq> None" using i1 fr by (simp_all add: r3_def add_entry_def)
qed (use b in \<open>simp_all add: r3_def\<close>)

text \<open>The entries \<open>.\<close> and \<open>..\<close> of a new directory.\<close>

lemma create_dots_ok:
  assumes ok: "reg_ok H1 D r" and b: "inodes r b = Some j" "i_type j = INODE_DIR" "i_children j = []"
    and a: "inodes r a \<noteq> None" "a \<noteq> b" and uniq: "names_unique r" and nat: "native r" and few: "few (H1 b)" "few (H1 a)"
  obtains as where "registry_linkdirent b ''.'' b r = Some (0, r\<lparr>answers := as\<rparr>)"
  | as as' where "registry_linkdirent b ''.'' b r = Some (fresh r, add_entry b ''.'' b (r\<lparr>answers := as\<rparr>))"
      "registry_linkdirent b ''..'' a (add_entry b ''.'' b (r\<lparr>answers := as\<rparr>)) = Some (0, add_entry b ''.'' b (r\<lparr>answers := as'\<rparr>))"
  | as d r5 j5 where "registry_linkdirent b ''.'' b r = Some (fresh r, add_entry b ''.'' b (r\<lparr>answers := as\<rparr>))"
      "registry_linkdirent b ''..'' a (add_entry b ''.'' b (r\<lparr>answers := as\<rparr>)) = Some (d, r5)" "d \<noteq> 0"
      "reg_ok H1 D r5" "names_unique r5" "native r5" "is_dir r5 = is_dir r" "in_use r5 = in_use r" "reg_root r5 = reg_root r"
      "\<And>x. entry r5 x = (if x = b then [''.'' \<mapsto> b, ''..'' \<mapsto> a] else entry r x)"
      "inodes r5 b = Some j5" "i_type j5 = i_type j" "i_refcount j5 = i_refcount j" "i_deleted j5 = i_deleted j"
      "\<And>d. d \<in> set (i_children j5) \<Longrightarrow> D d = 0"
proof (cases rule: linkdirent_cases [OF ok b(1) b(1) few(1), of "''.''"])
  case (1 as)
  then show ?thesis by (rule that(1))
next
  case dot: (2 as)
  define q where "q = r\<lparr>answers := as\<rparr>"
  have okq: "reg_ok H1 D q" "inodes q b = Some j" "names_unique q" "native q" "dirent_count q < REG_MAX_DIRENTS"
    using ok b uniq nat dot(4) by (simp_all add: q_def)
  define r4 where "r4 = add_entry b ''.'' b q"
  have ok4: "reg_ok H1 D r4" unfolding r4_def
    by (rule add_entry_ok [OF okq(1,2) b(2) okq(2,5)])
  have b4: "inodes r4 b = Some (j\<lparr>i_children := [fresh r]\<rparr>)" using b okq(2) by (simp add: r4_def add_entry_def q_def)
  obtain k where k: "inodes r4 a = Some k" using a by (auto simp: r4_def add_entry_def q_def)
  have fr: "0 < fresh r" using ok by (simp add: reg_ok_def)
  note unused = ok_fresh(2) [OF okq(1)] ok_fresh(2) [OF ok4]
  have e0: "entry q b = Map.empty" using b okq(2) by (simp add: entry_def kids_def)
  have e4: "entry r4 x = (if x = b then [''.'' \<mapsto> b] else entry r x)" for x
    using entry_add(1) [OF okq(1), of b "''.''" b x] okq(2) e0 by (simp add: r4_def) (simp add: q_def)
  have u4: "names_unique r4" "native r4"
    using entry_add(2) [OF okq(1), of b "''.''" b] okq e0 native_add by (simp_all add: r4_def)
  show ?thesis
  proof (cases rule: linkdirent_cases [OF ok4 b4 k few(2), of "''..''"])
    case (1 as')
    then show ?thesis using dot(1) by (intro that(2)) (simp_all add: r4_def q_def)
  next
    case (2 as')
    define q4 where "q4 = r4\<lparr>answers := as'\<rparr>"
    have okq4: "reg_ok H1 D q4" "inodes q4 b = inodes r4 b" "inodes q4 a = inodes r4 a" "names_unique q4" "native q4"
        "dirent_count q4 < REG_MAX_DIRENTS" "entry q4 = entry r4" "is_dir q4 = is_dir r4" "fresh q4 = fresh r4"
      using ok4 u4 2(4) by (simp_all add: q4_def)
    define r5 where "r5 = add_entry b ''..'' a q4"
    have ok5: "reg_ok H1 D r5" unfolding r5_def
      by (rule add_entry_ok [OF okq4(1) trans [OF okq4(2) b4] _ trans [OF okq4(3) k] okq4(6)]) (simp add: b(2))
    have e5: "entry r5 x = (if x = b then [''.'' \<mapsto> b, ''..'' \<mapsto> a] else entry r x)" for x
      using entry_add(1) [OF okq4(1), of b "''..''" a x] okq4 b4 by (simp add: r5_def e4)
    have u5: "names_unique r5" "native r5"
      using entry_add(2) [OF okq4(1), of b "''..''" a] okq4 b4 e4 [of b] native_add by (simp_all add: r5_def)
    have b5: "inodes r5 b = Some (j\<lparr>i_children := [fresh r4, fresh r]\<rparr>)"
      using okq4 b4 a by (simp add: r5_def add_entry_def)
    have D0: "D (fresh r) = 0" "D (fresh r4) = 0"
      using inv_no_dirent [OF reg_okD [OF okq(1)] unused(1)] inv_no_dirent [OF reg_okD [OF ok4] unused(2)] by (simp_all add: q_def)
    show ?thesis
    proof (rule that(3))
      show "registry_linkdirent b ''..'' a (add_entry b ''.'' b (r\<lparr>answers := as\<rparr>)) = Some (fresh r4, r5)"
        using 2(1) by (simp add: r4_def q_def r5_def q4_def)
      show "registry_linkdirent b ''.'' b r = Some (fresh r, add_entry b ''.'' b (r\<lparr>answers := as\<rparr>))" by (rule dot(1))
      show "fresh r4 \<noteq> 0" by (simp add: r4_def)
      show "reg_ok H1 D r5" by (rule ok5)
      show "names_unique r5" "native r5" by (rule u5)+
      show "is_dir r5 = is_dir r" "in_use r5 = in_use r" by (simp_all add: r5_def q4_def) (simp_all add: r4_def q_def)
      show "reg_root r5 = reg_root r" by (simp add: r5_def q4_def r4_def q_def)
      show "entry r5 x = (if x = b then [''.'' \<mapsto> b, ''..'' \<mapsto> a] else entry r x)" for x by (rule e5)
      show "inodes r5 b = Some (j\<lparr>i_children := [fresh r4, fresh r]\<rparr>)" by (rule b5)
      show "d \<in> set (i_children (j\<lparr>i_children := [fresh r4, fresh r]\<rparr>)) \<Longrightarrow> D d = 0" for d using D0 by auto
    qed simp_all
  qed
qed

text \<open>Creating an entry: all or nothing.\<close>

definition created :: "inode_type \<Rightarrow> nat \<Rightarrow> string \<Rightarrow> nat \<Rightarrow> reg \<Rightarrow> reg \<Rightarrow> bool" where
  "created ty a seg b r r' \<longleftrightarrow> inodes r b = None \<and> (\<exists>j. inodes r' b = Some j \<and> i_type j = ty \<and> \<not> i_deleted j) \<and>
     (\<forall>x. entry r' x = (if x = a then (entry r a)(seg \<mapsto> b)
        else if x = b \<and> ty = INODE_DIR then [''.'' \<mapsto> b, ''..'' \<mapsto> a] else entry r x)) \<and>
     (\<forall>x. is_dir r' x \<longleftrightarrow> x = b \<and> ty = INODE_DIR \<or> is_dir r x) \<and>
     (\<forall>x. in_use r' x \<longleftrightarrow> x = b \<and> ty = INODE_DIR \<or> in_use r x)"

lemma walk_create_linked:
  assumes ok: "reg_ok H D q" and ns: "ns_ok q" and few: "few (H a)"
    and i: "inodes q a = Some i" "i_type i = INODE_DIR"
    and del: "\<not> i_deleted i"
    and none: "entry q a seg = None" and b: "b = fresh q" and room: "dirent_count q < REG_MAX_DIRENTS"
    and run: "walk_create ty a seg r = (if ty = INODE_DIR then do {
             (d1, r) \<leftarrow> registry_linkdirent b ''.'' b (add_entry a seg b (new_inode ty q));
             (d2, r) \<leftarrow> (if d1 \<noteq> 0 then registry_linkdirent b ''..'' a r else Some (0, r));
             if d2 = 0 then walk_undo b a seg r
             else do { r \<leftarrow> inode_unref b r; Some (b, r) } }
           else do { r \<leftarrow> inode_unref b (add_entry a seg b (new_inode ty q)); Some (b, r) })"
  shows "(\<exists>as n. walk_create ty a seg r = Some (0, q\<lparr>answers := as, fresh := n\<rparr>) \<and> fresh q \<le> n) \<or>
    (\<exists>r'. walk_create ty a seg r = Some (b, r') \<and> reg_ok H D r' \<and> ns_ok r' \<and> reg_root r' = reg_root q \<and>
       created ty a seg b q r')"
proof -
  define r3 where "r3 = add_entry a seg b (new_inode ty q)"
  note c = create_entry_ok [OF ok ns i none b room r3_def]
  have fr: "inodes q b = None" "a \<noteq> b" using ok_fresh(1) [OF ok] i b by auto
  have Hb: "H b = 0" using inv_no_inode [OF reg_okD [OF ok] fr(1)] by simp
  have dira: "is_dir q a" "in_use q a" using i del by (simp_all add: is_dir_def in_use_def)
  have name: "\<not> is_dot_name seg" using ns none dira by (auto simp: ns_ok_def dots_ok_def is_dot_name_def)
  have eb: "entry q b = Map.empty" using entry_None_kids [OF fr(1)] .
  have fin: "\<exists>r'. inode_unref b s = Some r' \<and> reg_ok H D r' \<and> ns_ok r' \<and> reg_root r' = reg_root q \<and> created ty a seg b q r'"
    if s: "reg_ok (H(b := 1)) D s" "inodes s b = Some j" "i_refcount j = 2" "i_type j = ty" "\<not> i_deleted j"
      "\<And>d. d \<in> set (i_children j) \<Longrightarrow> D d = 0" "native s" "names_unique s" "reg_root s = reg_root q"
      "\<And>x. entry s x = (if x = a then (entry q a)(seg \<mapsto> b)
          else if x = b \<and> ty = INODE_DIR then [''.'' \<mapsto> b, ''..'' \<mapsto> a] else entry q x)"
      "\<And>x. is_dir s x \<longleftrightarrow> x = b \<and> ty = INODE_DIR \<or> is_dir q x"
      "\<And>x. in_use s x \<longleftrightarrow> x = b \<and> ty = INODE_DIR \<or> in_use q x" for s j
  proof -
    obtain r' where r': "inode_unref b s = Some r'" "reg_ok H D r'" "entry r' = entry s" "is_dir r' = is_dir s" "in_use r' = in_use s"
      "names_unique r' = names_unique s" "native r'" "reg_root r' = reg_root s" "inodes r' b = Some (j\<lparr>i_refcount := 1\<rparr>)"
      by (rule drop_creator [OF s(1,2) Hb s(3,6,7)])
    have "ns_ok r'"
      by (rule ns_ok_create [OF ok ns dira(2) name fr(1), where dirp = "ty = INODE_DIR"]) (use r' s none in simp_all)
    then show ?thesis using r' s(4,5,9-12) fr(1) by (simp add: created_def)
  qed
  show ?thesis
  proof (cases "ty = INODE_DIR")
    case False
    have "\<exists>r'. inode_unref b r3 = Some r' \<and> reg_ok H D r' \<and> ns_ok r' \<and> reg_root r' = reg_root q \<and> created ty a seg b q r'"
      by (rule fin [OF c(1,7)]) (use c(2-6,10) False in simp_all)
    then show ?thesis using run False unfolding r3_def by auto
  next
    case True
    have few1: "few ((H(b := 1)) b)" "few ((H(b := 1)) a)" using few fr by simp_all
    have an: "b \<noteq> a" using fr by simp
    have un: "walk_create ty a seg r = do {
             (d1, r) \<leftarrow> registry_linkdirent b ''.'' b r3;
             (d2, r) \<leftarrow> (if d1 \<noteq> 0 then registry_linkdirent b ''..'' a r else Some (0, r));
             if d2 = 0 then walk_undo b a seg r
             else do { r \<leftarrow> inode_unref b r; Some (b, r) } }" using run True by (simp add: r3_def)
    have okq: "reg_ok H D (q\<lparr>answers := as\<rparr>)" "inodes (q\<lparr>answers := as\<rparr>) a = Some i" for as using ok i by simp_all
    have undo: "walk_undo b a seg (add_entry a seg b (new_inode ty (q\<lparr>answers := as\<rparr>))) =
        Some (0, q\<lparr>answers := as, fresh := fresh q + 2\<rparr>)"
      "walk_undo b a seg (add_entry b ''.'' b (add_entry a seg b (new_inode ty (q\<lparr>answers := as\<rparr>)))) =
        Some (0, q\<lparr>answers := as, fresh := fresh q + 3\<rparr>)" for as
      using walk_create_fail(2,3) [OF okq [where as = as], where ty = ty and seg = seg] b by simp_all
    let ?j = "\<lparr>i_type = ty, i_refcount = 2, i_deleted = False, i_impl = 0, i_ops = 0, i_children = [], i_mnt = None\<rparr>"
    have j: "i_type ?j = INODE_DIR" "i_children ?j = []" using True by simp_all
    show ?thesis
    proof (cases rule: create_dots_ok [OF c(1) c(7) j c(8) fr(2) c(4,5) few1])
      case (1 as)
      then have "walk_create ty a seg r = Some (0, q\<lparr>answers := as, fresh := fresh q + 2\<rparr>)"
        unfolding un using undo(1) [where as = as] by (simp add: r3_def b)
      then show ?thesis by (intro disjI1 exI [of _ as] exI [of _ "fresh q + 2"]) simp
    next
      case (2 as as')
      then have "walk_create ty a seg r = Some (0, q\<lparr>answers := as', fresh := fresh q + 3\<rparr>)"
        unfolding un using undo(2) [where as = as'] c(9) by (simp add: r3_def b)
      then show ?thesis by (intro disjI1 exI [of _ as'] exI [of _ "fresh q + 3"]) simp
    next
      case (3 as d r5 j5)
      have "\<exists>r'. inode_unref b r5 = Some r' \<and> reg_ok H D r' \<and> ns_ok r' \<and> reg_root r' = reg_root q \<and> created ty a seg b q r'"
        by (rule fin [OF 3(4,11)]) (use 3 c fr True in \<open>simp_all add: eb\<close>)
      then show ?thesis unfolding un using 3(1-3) c(9) by auto
    qed
  qed
qed

lemma walk_create_ok:
  assumes ok: "reg_ok H D r" and ns: "ns_ok r" and few: "few (H a)"
    and i: "inodes r a = Some i" "i_type i = INODE_DIR" and none: "entry r a seg = None"
  shows "\<exists>b r'. walk_create ty a seg r = Some (b, r') \<and> reg_ok H D r' \<and> ns_ok r' \<and> reg_root r' = reg_root r \<and>
    (b = 0 \<longrightarrow> inodes r' = inodes r \<and> dirents r' = dirents r) \<and>
    (b \<noteq> 0 \<longrightarrow> \<not> i_deleted i \<and> seg \<noteq> [] \<and> length seg < 256 \<and> created ty a seg b r r')" (is "\<exists>b r'. ?P b r'")
proof -
  have failed: "?P 0 (r\<lparr>answers := as, fresh := n\<rparr>)"
    if "walk_create ty a seg r = Some (0, r\<lparr>answers := as, fresh := n\<rparr>)" "fresh r \<le> n" for as n
  proof -
    have "reg_ok H D (r\<lparr>answers := as, fresh := n\<rparr>)"
      by (rule reg_ok_cong [OF _ _ _ _ _ ok]) (use that in simp_all)
    moreover have "ns_ok (r\<lparr>answers := as, fresh := n\<rparr>) = ns_ok r" by (rule view_cong) simp_all
    ultimately show ?thesis using that(1) ns by simp
  qed
  define b where "b = fresh r"
  have f: "0 < b" "b \<noteq> a" "inodes r b = None" using ok ok_fresh(1) [OF ok] i by (auto simp: reg_ok_def b_def)
  show ?thesis
  proof (cases "i_deleted i")
    case True
    then have "walk_create ty a seg r = Some (0, r\<lparr>answers := answers r, fresh := fresh r\<rparr>)" using i by (simp add: walk_create_def)
    then show ?thesis using failed by blast
  next
    case del: False
    show ?thesis
    proof (cases rule: inode_alloc_cases [OF f(1) [unfolded b_def], of ty])
      case (1 as)
      then have "walk_create ty a seg r = Some (0, r\<lparr>answers := as, fresh := fresh r\<rparr>)"
        using i del by (simp add: walk_create_def)
      then show ?thesis using failed by blast
    next
      case alloc: (2 as)
      define r1 where "r1 = new_inode ty (r\<lparr>answers := as\<rparr>)"
      have ok1: "reg_ok (H(b := 1)) D r1" unfolding r1_def using new_inode_ok [of H D "r\<lparr>answers := as\<rparr>" ty] ok by (simp add: b_def)
      have i1: "inodes r1 a = Some i" "inodes r1 b \<noteq> None" "few ((H(b := 1)) b)" using i f by (simp_all add: r1_def b_def)
      then obtain j where j: "inodes r1 b = Some j" by blast
      have run1: "walk_create ty a seg r = do {
           (d, r) \<leftarrow> registry_linkdirent a seg b r1;
           if d = 0 then do { r \<leftarrow> inode_unref b r; Some (0, r) }
           else if ty = INODE_DIR then do {
             (d1, r) \<leftarrow> registry_linkdirent b ''.'' b r;
             (d2, r) \<leftarrow> (if d1 \<noteq> 0 then registry_linkdirent b ''..'' a r else Some (0, r));
             if d2 = 0 then walk_undo b a seg r
             else do { r \<leftarrow> inode_unref b r; Some (b, r) } }
           else do { r \<leftarrow> inode_unref b r; Some (b, r) } }"
        using alloc i del f by (simp add: walk_create_def b_def r1_def cong: if_cong)
      show ?thesis
      proof (cases rule: linkdirent_cases [OF ok1 i1(1) j i1(3), of seg])
        case (1 as1)
        have okr: "reg_ok H D (r\<lparr>answers := as1\<rparr>)" "inodes (r\<lparr>answers := as1\<rparr>) a = Some i" using ok i by simp_all
        have "walk_create ty a seg r = Some (0, r\<lparr>answers := as1, fresh := fresh r + 1\<rparr>)"
          unfolding run1 using 1 walk_create_fail(1) [OF okr, of ty] by (simp add: b_def r1_def)
        then have "?P 0 (r\<lparr>answers := as1, fresh := fresh r + 1\<rparr>)" by (rule failed) simp
        then show ?thesis by blast
      next
        case (2 as1)
        let ?q = "r\<lparr>answers := as1\<rparr>"
        have run: "walk_create ty a seg r = (if ty = INODE_DIR then do {
             (d1, r) \<leftarrow> registry_linkdirent b ''.'' b (add_entry a seg b (new_inode ty ?q));
             (d2, r) \<leftarrow> (if d1 \<noteq> 0 then registry_linkdirent b ''..'' a r else Some (0, r));
             if d2 = 0 then walk_undo b a seg r
             else do { r \<leftarrow> inode_unref b r; Some (b, r) } }
           else do { r \<leftarrow> inode_unref b (add_entry a seg b (new_inode ty ?q)); Some (b, r) })"
          unfolding run1 using 2(1) by (simp add: r1_def)
        have "(\<exists>as n. walk_create ty a seg r = Some (0, ?q\<lparr>answers := as, fresh := n\<rparr>) \<and> fresh ?q \<le> n) \<or>
            (\<exists>r'. walk_create ty a seg r = Some (b, r') \<and> reg_ok H D r' \<and> ns_ok r' \<and> reg_root r' = reg_root ?q \<and>
              created ty a seg b ?q r')"
          by (rule walk_create_linked [where H = H and D = D and i = i and q = ?q and a = a and seg = seg and ty = ty and r = r and b = b]) (use ok ns i none 2 few run del in \<open>simp_all add: b_def r1_def cong: if_cong\<close>)
        then show ?thesis
        proof
          assume "\<exists>as n. walk_create ty a seg r = Some (0, ?q\<lparr>answers := as, fresh := n\<rparr>) \<and> fresh ?q \<le> n"
          then obtain as n where "walk_create ty a seg r = Some (0, r\<lparr>answers := as, fresh := n\<rparr>)" "fresh r \<le> n" by auto
          then have "?P 0 (r\<lparr>answers := as, fresh := n\<rparr>)" by (rule failed)
          then show ?thesis by blast
        next
          assume "\<exists>r'. walk_create ty a seg r = Some (b, r') \<and> reg_ok H D r' \<and> ns_ok r' \<and> reg_root r' = reg_root ?q \<and>
              created ty a seg b ?q r'"
          then show ?thesis using del f 2(2,3) by (auto simp: REG_MAX_NAME_LEN_def created_def)
        qed
      qed
    qed
  qed
qed

section \<open>Making directories and nodes\<close>

lemma follow_live: "reg_ok H D r \<Longrightarrow> inodes r a \<noteq> None \<Longrightarrow> follow r a ns = Some b \<Longrightarrow> inodes r b \<noteq> None"
proof (induction ns arbitrary: a)
  case (Cons n ns)
  from Cons.prems(3) obtain c where c: "entry r a n = Some c" "follow r c ns = Some b"
    by (auto split: if_splits option.splits)
  show ?case by (rule Cons.IH [OF Cons.prems(1) _ c(2)]) (use entry_live [OF Cons.prems(1) c(1)] in blast)
qed simp

text \<open>
  A walk that creates the last component: what the path reaches, and whether the component is
  new.  A path that ends in a slash never creates.
\<close>

definition start_of :: "nat \<Rightarrow> string \<Rightarrow> reg \<Rightarrow> nat" where
  "start_of start path r = (if hd path = CHR ''/'' then reg_root r else start)"

definition made :: "inode_type \<Rightarrow> nat \<Rightarrow> string \<Rightarrow> nat \<Rightarrow> reg \<Rightarrow> reg \<Rightarrow> bool" where
  "made ty base path b r r' \<longleftrightarrow> (\<exists>p. follow r base (butlast (components path)) = Some p \<and> is_dir r p \<and>
     entry r p (last (components path)) = None \<and> created ty p (last (components path)) b r r')"

lemma walk_native:
  assumes ok: "reg_ok H D r" and nat: "native r" and path: "path \<noteq> []" and live: "inodes r (start_of start path r) \<noteq> None"
  obtains p where "walk fs start path create r =
      walk_loop fs create (1 < length path \<and> last path = CHR ''/'') (start_of start path r) p r"
    "components p = components path" "last path \<noteq> CHR ''/'' \<longrightarrow> p \<noteq> [] \<and> last p \<noteq> CHR ''/''"
    "last path = CHR ''/'' \<longrightarrow> p = [] \<or> last p = CHR ''/''"
proof -
  obtain i where i: "inodes r (start_of start path r) = Some i" using live by blast
  have e: "enter_mount (start_of start path r) r = Some (start_of start path r, r)"
    using native_find [OF nat] by (simp add: enter_mount_def)
  show thesis
  proof (rule that [of "if hd path = CHR ''/'' then tl path else path"])
    show "components (if hd path = CHR ''/'' then tl path else path) = components path"
      using path components_slash [of "tl path"] by (cases path) auto
  qed (use i e native_mnt [OF nat i] path in \<open>auto simp: walk_def Let_def start_of_def neq_Nil_conv split: if_splits\<close>)
qed

lemma walk_makes:
  assumes ok: "reg_ok H D r" and ns: "ns_ok r" and few: "\<And>a. few (H a)" and path: "path \<noteq> []"
    and live: "inodes r (start_of start path r) \<noteq> None"
  shows "\<exists>b r'. walk fs start path (Some ty) r = Some (b, r') \<and> reg_ok H D r' \<and> ns_ok r' \<and> reg_root r' = reg_root r \<and>
    (if last path = CHR ''/'' then r' = r \<and> (b \<noteq> 0 \<longrightarrow> follow r (start_of start path r) (components path) = Some b)
     else if b = 0 then inodes r' = inodes r \<and> dirents r' = dirents r
     else made ty (start_of start path r) path b r r')"
proof -
  from ns have nat: "native r" by (simp add: ns_ok_def)
  let ?a = "start_of start path r"
  obtain p where p: "walk fs start path (Some ty) r = walk_loop fs (Some ty) (1 < length path \<and> last path = CHR ''/'') ?a p r"
    "components p = components path" "last path \<noteq> CHR ''/'' \<longrightarrow> p \<noteq> [] \<and> last p \<noteq> CHR ''/''"
    "last path = CHR ''/'' \<longrightarrow> p = [] \<or> last p = CHR ''/''"
    by (rule walk_native [OF ok nat path live, of fs "Some ty"])
  show ?thesis
  proof (cases "last path = CHR ''/''")
    case True
    then show ?thesis unfolding p(1)
      using walk_loop_follow [OF ok nat live, of "Some ty" p fs "1 < length path \<and> last path = CHR ''/''"] p ok ns
      by (auto split: option.split)
  next
    case False
    let ?n = "last (components path)"
    have run: "walk fs start path (Some ty) r = (case follow r ?a (butlast (components path)) of None \<Rightarrow> Some (0, r)
        | Some b \<Rightarrow> if \<not> is_dir r b \<or> entry r b ?n \<noteq> None then Some (0, r) else walk_create ty b ?n r)"
      unfolding p(1) using walk_loop_create [OF ok nat live, of p fs ty] p(3) False unfolding p(2) by blast
    show ?thesis
    proof (cases "\<exists>b. follow r ?a (butlast (components path)) = Some b \<and> is_dir r b \<and> entry r b ?n = None")
      case True
      then obtain b where b: "follow r ?a (butlast (components path)) = Some b" "is_dir r b" "entry r b ?n = None" by blast
      then obtain i where i: "inodes r b = Some i" "i_type i = INODE_DIR" by (auto simp: is_dir_def)
      have "walk fs start path (Some ty) r = walk_create ty b ?n r" unfolding run using b by simp
      moreover obtain c r' where "walk_create ty b ?n r = Some (c, r')" "reg_ok H D r'" "ns_ok r'" "reg_root r' = reg_root r"
        "c = 0 \<longrightarrow> inodes r' = inodes r \<and> dirents r' = dirents r" "c \<noteq> 0 \<longrightarrow> created ty b ?n c r r'"
        using walk_create_ok [OF ok ns few i b(3), of ty] by blast
      ultimately show ?thesis using b False unfolding made_def by (intro exI [of _ c] exI [of _ r']) auto
    next
      case no: False
      then have "walk fs start path (Some ty) r = Some (0, r)" unfolding run by (auto split: option.split)
      then show ?thesis using False ok ns by simp
    qed
  qed
qed

lemma parent_dir_ok:
  assumes ok: "reg_ok H D r" and nat: "native r" and live: "inodes r start \<noteq> None" "inodes r (reg_root r) \<noteq> None"
  shows "\<exists>p. parent_dir fs start path r = Some (p, r) \<and> (p = 0 \<or> inodes r p \<noteq> None)"
proof -
  let ?pre = "parent_path (strip_slashes path)"
  consider "?pre = []" | "128 \<le> length ?pre" | "?pre \<noteq> []" "length ?pre < 128" by fastforce
  then show ?thesis
  proof cases
    case 3
    let ?a = "start_of start ?pre r"
    have a: "inodes r ?a \<noteq> None" using live by (simp add: start_of_def)
    note res = registry_resolve_ok [OF ok nat live 3(1), of fs]
    have "follow r ?a (components ?pre) = Some b \<Longrightarrow> inodes r b \<noteq> None" for b by (rule follow_live [OF ok a])
    then show ?thesis using 3 res by (auto simp: parent_dir_def start_of_def Let_def split: option.split)
  next
    case 2
    then have "?pre \<noteq> []" by auto
    then show ?thesis using 2 by (auto simp: parent_dir_def Let_def)
  qed (use live in \<open>auto simp: parent_dir_def Let_def\<close>)
qed

lemma registry_mkdir_at_ok:
  assumes ok: "reg_ok H D r" and ns: "ns_ok r" and few: "\<And>a. few (H a)"
    and live: "inodes r start \<noteq> None" "inodes r (reg_root r) \<noteq> None"
  shows "\<exists>rc r'. registry_mkdir_at fs start path r = Some (rc, r') \<and> reg_ok H D r' \<and> ns_ok r' \<and> reg_root r' = reg_root r \<and>
    (rc \<noteq> 0 \<or> last path = CHR ''/'' \<longrightarrow> inodes r' = inodes r \<and> dirents r' = dirents r) \<and>
    (rc = 0 \<and> last path \<noteq> CHR ''/'' \<longrightarrow> (\<exists>b. made INODE_DIR (start_of start path r) path b r r'))"
proof -
  from ns have nat: "native r" by (simp add: ns_ok_def)
  let ?base = "start_of start path r"
  have base: "inodes r ?base \<noteq> None" "start_of ?base path r = ?base" using live by (simp_all add: start_of_def)
  obtain p where p: "parent_dir fs ?base path r = Some (p, r)" "p = 0 \<or> inodes r p \<noteq> None"
    using parent_dir_ok [OF ok nat base(1) live(2)] by blast
  note defs = registry_mkdir_at_def Let_def start_of_def [symmetric]
  show ?thesis
  proof (cases "path = [] \<or> last_name (strip_slashes path) = [] \<or> p = 0 \<or>
      (\<exists>i. inodes r p = Some i \<and> (i_type i \<noteq> INODE_DIR \<or> i_deleted i))")
    case True
    then have "registry_mkdir_at fs start path r = Some (-1, r)" using p by (auto simp: defs)
    then show ?thesis using ok ns by simp
  next
    case False
    then obtain i where i: "inodes r p = Some i" "i_type i = INODE_DIR" "\<not> i_deleted i" "p \<noteq> 0" using p by blast
    have run: "registry_mkdir_at fs start path r =
        do { (n, r) \<leftarrow> walk fs ?base path (Some INODE_DIR) r; Some (if n \<noteq> 0 then 0 else -1, r) }"
      using False i p native_mnt [OF nat i(1)] by (simp add: defs)
    have "path \<noteq> []" using False by simp
    then obtain b r' where "walk fs ?base path (Some INODE_DIR) r = Some (b, r')" "reg_ok H D r'" "ns_ok r'" "reg_root r' = reg_root r"
      "if last path = CHR ''/'' then r' = r \<and> (b \<noteq> 0 \<longrightarrow> follow r ?base (components path) = Some b)
       else if b = 0 then inodes r' = inodes r \<and> dirents r' = dirents r else made INODE_DIR ?base path b r r'"
      using walk_makes [OF ok ns few, of path ?base fs INODE_DIR] unfolding base(2) using base(1) by blast
    then show ?thesis unfolding run by (auto split: if_splits)
  qed
qed

end
