(* ===== verification/Namespace_Rename.thy ===== *)
theory Namespace_Rename
  imports Namespace_Ops
begin

text \<open>
  Renaming (\<open>registry_rename\<close>): the move of an entry, the replacement of another one, the new
  parent of a directory that moves, and the search that keeps it from moving below itself.
\<close>

section \<open>Renaming\<close>

text \<open>The directories above a directory, itself included; the search for one of them ends.\<close>

definition up :: "reg \<Rightarrow> nat \<Rightarrow> nat \<Rightarrow> bool" where
  "up r a b \<longleftrightarrow> entry r a ''..'' = Some b"

lemma dir_has_ancestor_ok:
  assumes ok: "reg_ok H D r" and ns: "ns_ok r" and dir: "is_dir r dir"
  shows "dir_has_ancestor dir anc r = Some ((up r)\<^sup>*\<^sup>* dir anc)"
proof -
  obtain rank where rank: "ranked rank r" using ns by (auto simp: ns_ok_def)
  show ?thesis using dir
  proof (induction "rank dir" arbitrary: dir rule: less_induct)
    case less
    obtain i where i: "inodes r dir = Some i" using less.prems by (auto simp: is_dir_def)
    have pos: "dir \<noteq> 0" using inv_inode [OF reg_okD [OF ok] i] by simp
    obtain p where p: "entry r dir ''..'' = Some p" "is_dir r p" using ns less.prems by (auto simp: ns_ok_def dots_ok_def)
    obtain d e where d: "registry_finddirent dir ''..'' r = Some d" "d \<noteq> 0" "dirents r d = Some e" "d_inode e = p"
      by (rule finddirent_ok [OF ok i, of "''..''"]) (use p in auto)
    have run: "dir_has_ancestor dir anc r = (if dir = anc then Some True else if p = dir then Some False else dir_has_ancestor p anc r)"
      using pos d by (subst dir_has_ancestor.simps) simp
    have star: "(up r)\<^sup>*\<^sup>* dir anc \<longleftrightarrow> dir = anc \<or> (up r)\<^sup>*\<^sup>* p anc"
      using p(1) by (auto simp: up_def elim: converse_rtranclpE intro: converse_rtranclp_into_rtranclp)
    show ?case
    proof (cases "p = dir")
      case True
      have "(up r)\<^sup>*\<^sup>* dir anc \<longrightarrow> anc = dir"
      proof
        assume "(up r)\<^sup>*\<^sup>* dir anc"
        then show "anc = dir" by (induction rule: rtranclp_induct) (use p True in \<open>simp_all add: up_def\<close>)
      qed
      then show ?thesis using run True by auto
    next
      case False
      then have "dir \<noteq> reg_root r" using p ns by (auto simp: ns_ok_def dots_ok_def)
      then have "rank p < rank dir" using rank less.prems p(1) by (simp add: ranked_def)
      from less.hyps [OF this p(2)] show ?thesis using run star False by simp
    qed
  qed
qed

text \<open>Dropping an entry whose inode has another one frees no inode.\<close>

lemma dirent_unref_more:
  assumes "dirents r d = Some e" "inodes r (d_inode e) = Some i" "2 \<le> i_refcount i" "0 < d" "0 < d_inode e" "d_refcount e \<noteq> 0"
  obtains r' where "dirent_unref d r = Some r'" "dom (inodes r') = dom (inodes r)"
proof -
  show thesis
  proof (cases "d_refcount e = 1")
    case True
    define r1 where "r1 = r\<lparr>dirent_count := dirent_count r - 1, dirents := (dirents r)(d := None)\<rparr>"
    have "inodes r1 (d_inode e) = Some i" "i_refcount i \<noteq> 1" using assms by (simp_all add: r1_def)
    from inode_unref_more [OF this assms(5)] have "dirent_unref d r = Some (set_inode (d_inode e) (i\<lparr>i_refcount := i_refcount i - 1\<rparr>) r1)"
      using True assms by (simp add: dirent_unref_def dirent_put_def Let_def r1_def)
    then show thesis by (rule that) (use assms(2) in \<open>auto simp: r1_def\<close>)
  next
    case False
    then have "dirent_unref d r = Some (set_dirent d (e\<lparr>d_refcount := d_refcount e - 1\<rparr>) r)"
      using assms by (simp add: dirent_unref_def dirent_put_def Let_def)
    then show thesis by (rule that) simp
  qed
qed

lemma entry_redirect:
  assumes "names_unique r" "dirents r u = Some e" "u \<in> set (kids r a)" "\<And>x. x \<noteq> a \<Longrightarrow> u \<notin> set (kids r x)"
  shows "entry (set_dirent u (e\<lparr>d_inode := t\<rparr>) r) x = (if x = a then (entry r a)(d_name e \<mapsto> t) else entry r x)"
    and "names_unique (set_dirent u (e\<lparr>d_inode := t\<rparr>) r)"
proof -
  let ?r = "set_dirent u (e\<lparr>d_inode := t\<rparr>) r"
  have k: "kids ?r = kids r" by (simp add: kids_def fun_eq_iff)
  have same: "ent ?r d = ent r d" if "d \<noteq> u" for d using that by (simp add: ent_def)
  have fst: "fst (ent ?r d) = fst (ent r d)" for d using assms(2) by (simp add: ent_def)
  then have fsts: "fst \<circ> ent ?r = fst \<circ> ent r" by (simp add: fun_eq_iff)
  show "names_unique ?r" using assms(1) by (simp add: names_unique_def k fsts)
  have m: "map_of (map (ent ?r) ds) = (map_of (map (ent r) ds))(d_name e \<mapsto> t)"
    if "u \<in> set ds" "distinct (map (fst \<circ> ent r) ds)" for ds
    using that
  proof (induction ds)
    case (Cons d ds)
    show ?case
    proof (cases "d = u")
      case True
      have "u \<notin> set ds" using Cons.prems(2) True by auto
      then have "ent ?r d = ent r d" if "d \<in> set ds" for d using that by (intro same) blast
      then have "map (ent ?r) ds = map (ent r) ds" by (rule map_cong [OF refl])
      moreover have "ent ?r d = (d_name e, t)" "ent r d = (d_name e, d_inode e)" using True assms(2) by (simp_all add: ent_def)
      ultimately show ?thesis by (simp only: list.map map_of.simps fst_conv snd_conv fun_upd_upd)
    next
      case False
      moreover have "fst (ent r d) \<noteq> d_name e"
        using Cons.prems False assms(2) by (auto simp: ent_def image_iff)
      ultimately show ?thesis using Cons same [OF False] by (auto simp: fun_eq_iff)
    qed
  qed simp
  show "entry ?r x = (if x = a then (entry r a)(d_name e \<mapsto> t) else entry r x)"
  proof (cases "x = a")
    case True
    then show ?thesis using m [OF assms(3)] assms(1) by (simp add: entry_def k names_unique_def)
  next
    case False
    have "ent ?r d = ent r d" if "d \<in> set (kids r x)" for d using that assms(4) [OF False] by (intro same) blast
    then have "map (ent ?r) (kids r x) = map (ent r) (kids r x)" by (rule map_cong [OF refl])
    then show ?thesis unfolding entry_def k using False by (simp only: if_False)
  qed
qed

text \<open>The name space after a move.\<close>

definition moved_entry :: "reg \<Rightarrow> nat \<Rightarrow> string \<Rightarrow> nat \<Rightarrow> string \<Rightarrow> nat \<Rightarrow> nat \<Rightarrow> string \<Rightarrow> nat option" where
  "moved_entry r od on nd nn t a =
    (let m = (if a = od then (entry r od)(on := None) else entry r a);
         m = (if a = nd then m(nn \<mapsto> t) else m)
     in if a = t \<and> is_dir r t then m(''..'' \<mapsto> nd) else m)"

lemma ns_ok_move:
  assumes ok: "reg_ok H D r" and ns: "ns_ok r" and t: "entry r od on = Some t" and free: "entry r nd nn = None"
    and dots: "\<not> is_dot_name on" "\<not> is_dot_name nn" and use: "in_use r nd"
    and below: "is_dir r t \<Longrightarrow> \<not> (up r)\<^sup>*\<^sup>* nd t"
    and e: "\<And>a. entry r' a = moved_entry r od on nd nn t a"
    and d: "is_dir r' = is_dir r" "in_use r' = in_use r" "reg_root r' = reg_root r" and rest: "names_unique r'" "native r'"
  shows "ns_ok r'"
proof -
  have dotsr: "dots_ok r" and par: "parents_ok r" and lnk: "linked_ok r" using ns by (simp_all add: ns_ok_def)
  have ndir: "is_dir r nd" by (rule in_use_dir [OF use])
  have troot: "is_dir r t \<Longrightarrow> t \<noteq> reg_root r" using par t dots unfolding parents_ok_def by blast
  have tnd: "is_dir r t \<Longrightarrow> t \<noteq> nd" using below by auto
  have tup: "is_dir r t \<Longrightarrow> entry r t ''..'' = Some od" using par t dots unfolding parents_ok_def by blast
  have tod: "t \<noteq> od" using dotsr t dots unfolding dots_ok_def is_dot_name_def by blast
  have uniqt: "p = od \<and> n = on" if "entry r p n = Some t" "\<not> is_dot_name n" "is_dir r t" for p n
  proof -
    have "p = od" using par that tup unfolding parents_ok_def by fastforce
    then show ?thesis using par t that dots(1) unfolding parents_ok_def by blast
  qed
  have dot: "entry r' a ''.'' = entry r a ''.''" for a
    using dots by (auto simp: e moved_entry_def Let_def is_dot_name_def)
  have dd: "entry r' a ''..'' = (if a = t \<and> is_dir r t then Some nd else entry r a ''..'')" for a
    using dots by (auto simp: e moved_entry_def Let_def is_dot_name_def)
  have old: "(a = nd \<and> n = nn \<and> x = t) \<or> (a = t \<and> n = ''..'' \<and> x = nd \<and> is_dir r t) \<or>
      (entry r a n = Some x \<and> \<not> (a = od \<and> n = on) \<and> \<not> (a = nd \<and> n = nn))" if "entry r' a n = Some x" for a n x
    using that free by (auto simp: e moved_entry_def Let_def split: if_splits)
  have keep: "entry r' a n = Some x" if "entry r a n = Some x" "\<not> (a = od \<and> n = on)" "\<not> is_dot_name n" for a n x
    using that free dots by (auto simp: e moved_entry_def Let_def is_dot_name_def)
  have new: "entry r' nd nn = Some t" using tnd dots by (auto simp: e moved_entry_def Let_def is_dot_name_def)
  have nt: "t \<noteq> nd"
  proof
    assume "t = nd"
    then show False using tnd ndir by simp
  qed
  have "dots_ok r'"
    unfolding dots_ok_def d
  proof (intro conjI allI impI)
    show "is_dir r (reg_root r)" "entry r' (reg_root r) ''..'' = Some (reg_root r)"
      using dotsr troot by (auto simp: dots_ok_def dd)
    show "entry r' x ''.'' = Some x" "\<exists>p. entry r' x ''..'' = Some p \<and> is_dir r p" if "is_dir r x" for x
      using that dotsr ndir by (auto simp: dots_ok_def dd dot)
    show "n = ''.'' \<or> n = ''..'' \<and> x = reg_root r" if "entry r' x n = Some x" for x n
      using old [OF that] dotsr nt unfolding dots_ok_def by blast
  qed
  moreover have "parents_ok r'"
    unfolding parents_ok_def d
  proof (intro allI impI)
    fix a n x assume x: "entry r' a n = Some x" "\<not> is_dot_name n" "is_dir r x"
    have o: "(b = nd \<and> m = nn \<and> x = t) \<or> entry r b m = Some x \<and> x \<noteq> t" if "entry r' b m = Some x" "\<not> is_dot_name m" for b m
      using old [OF that(1)] that(2) uniqt [of b m] x(3) by (auto simp: is_dot_name_def)
    from o [OF x(1,2)] show "x \<noteq> reg_root r \<and> entry r' x ''..'' = Some a \<and> (\<forall>m. entry r' a m = Some x \<longrightarrow> \<not> is_dot_name m \<longrightarrow> m = n)"
    proof
      assume "a = nd \<and> n = nn \<and> x = t"
      then show ?thesis using troot x(3) o by (simp add: dd)
    next
      assume n: "entry r a n = Some x \<and> x \<noteq> t"
      then have "x \<noteq> reg_root r \<and> entry r x ''..'' = Some a \<and> (\<forall>m. entry r a m = Some x \<longrightarrow> \<not> is_dot_name m \<longrightarrow> m = n)"
        using par x unfolding parents_ok_def by blast
      moreover have "entry r a m = Some x" if "entry r' a m = Some x" "\<not> is_dot_name m" for m using o [OF that] n by blast
      ultimately show ?thesis using n by (simp add: dd)
    qed
  qed
  moreover have "\<exists>rank. ranked rank r'"
  proof -
    obtain rank where rk: "ranked rank r" using ns by (auto simp: ns_ok_def)
    define rank' where "rank' a = (if is_dir r t \<and> (up r)\<^sup>*\<^sup>* a t then rank a + rank nd + 1 else rank a)" for a
    have "ranked rank' r'"
      unfolding ranked_def d
    proof (intro allI impI)
      fix a p assume a: "a \<noteq> reg_root r" "is_dir r a" "entry r' a ''..'' = Some p"
      show "rank' p < rank' a"
      proof (cases "a = t")
        case True
        then have "p = nd" "\<not> (up r)\<^sup>*\<^sup>* nd t" using a below by (simp_all add: dd)
        then show ?thesis using True a(2) by (simp add: rank'_def)
      next
        case False
        then have p: "up r a p" using a(3) by (simp add: dd up_def)
        then have "rank p < rank a" using rk a by (simp add: ranked_def up_def)
        moreover have "(up r)\<^sup>*\<^sup>* a t \<longleftrightarrow> (up r)\<^sup>*\<^sup>* p t"
          using False p by (auto simp: up_def elim: converse_rtranclpE intro: converse_rtranclp_into_rtranclp)
        ultimately show ?thesis by (simp add: rank'_def)
      qed
    qed
    then show ?thesis by blast
  qed
  moreover have "linked_ok r'"
    unfolding linked_ok_def d
  proof (intro conjI allI impI)
    fix a assume "in_use r a"
    then consider "a = reg_root r" | p n where "\<not> is_dot_name n" "entry r p n = Some a" using lnk unfolding linked_ok_def by blast
    then show "a = reg_root r \<or> (\<exists>p n. \<not> is_dot_name n \<and> entry r' p n = Some a)"
    proof cases
      case (2 p n)
      show ?thesis
      proof (cases "p = od \<and> n = on")
        case True
        then have "a = t" using 2 t by simp
        then show ?thesis using new dots(2) by blast
      next
        case False
        then show ?thesis using keep [OF 2(2) _ 2(1)] 2(1) by blast
      qed
    qed simp
  next
    fix p n x assume x: "entry r' p n = Some x" "\<not> is_dot_name n"
    from old [OF x(1)] x(2) consider "p = nd" | "entry r p n = Some x" by (auto simp: is_dot_name_def)
    then show "in_use r p" using lnk use x(2) unfolding linked_ok_def by cases blast+
  qed
  ultimately show ?thesis using rest by (simp add: ns_ok_def)
qed

text \<open>The new parent of a directory that has moved.\<close>

lemma rename_reparent_ok:
  assumes ok: "reg_ok H D r" and few: "\<And>a. few (H a)" and t: "is_dir r t" and uniq: "names_unique r" and nat: "native r"
    and p: "entry r t ''..'' = Some p" and nd: "inodes r nd \<noteq> None" and ne: "p \<noteq> nd" "t \<noteq> nd" "t \<noteq> p"
  obtains r5 r6 where "rename_reparent t nd r = Some r6" "reg_ok H D r6" "reg_less r5 r6"
    "\<forall>a. entry r5 a = (if a = t then (entry r t)(''..'' \<mapsto> nd) else entry r a)" "names_unique r5" "native r5"
    "dom (inodes r5) = dom (inodes r)"
    "is_dir r5 = is_dir r" "in_use r5 = in_use r" "reg_root r5 = reg_root r"
proof -
  obtain i where i: "inodes r t = Some i" using t by (auto simp: is_dir_def)
  obtain k where k: "inodes r nd = Some k" using nd by blast
  obtain u e where u: "registry_finddirent t ''..'' r = Some u" "u \<noteq> 0" "u \<in> set (i_children i)" "dirents r u = Some e"
      "d_name e = ''..''" "d_inode e = p"
    by (rule finddirent_ok [OF ok i, of "''..''"]) (use p in auto)
  have ut: "u \<in> set (kids r t)" using u(3) i by (simp add: kids_def)
  have un: "x \<noteq> t \<Longrightarrow> u \<notin> set (kids r x)" for x using inv_K_unique [OF reg_okD [OF ok] ut] by blast
  define r4 where "r4 = set_inode nd (k\<lparr>i_refcount := i_refcount k + 1\<rparr>) r"
  note r4 = inode_ref_ok [OF ok k few, folded r4_def]
  have kids4: "kids r4 = kids r" using k by (simp add: r4_def kids_mark)
  have d4: "dirents r4 = dirents r" "inodes r4 nd \<noteq> None" by (simp_all add: r4_def)
  define r5 where "r5 = set_dirent u (e\<lparr>d_inode := nd\<rparr>) r4"
  have self: "0 < H a" if "dirents r d = Some f" "d_inode f = a" "d \<in> set (kids r a)" "0 < D d" for d f a
    using inv_self [OF reg_okD [OF ok] that(1), of "the (inodes r a)"] that inv_dirent [OF reg_okD [OF ok] that(1)]
    by (auto simp: kids_def)
  have "reg_ok (H(p := H p + 1)) D r5"
    unfolding r5_def u(6) [symmetric]
    by (rule redirect_ok [OF r4(2), where j = "the (inodes r4 nd)"]) (use u(4,6) d4 ne un self in \<open>auto simp: kids4\<close>)
  note ok5 = this
  have upd: "(H(p := H p + 1))(p := (H(p := H p + 1)) p - 1) = H" by simp
  have slf: "1 < (H(p := H p + 1)) p" if d: "dirents r5 d = Some f" "d_inode f = p" "inodes r5 p = Some j" "d \<in> set (i_children j)" "0 < D d" for d f j
  proof -
    have "i_children j = kids r p" using d(3) ne(1) k by (auto simp: r5_def r4_def kids_def split: if_splits)
    then have d': "d \<in> set (kids r p)" "d \<noteq> u" using d(4) un [of p] ne by auto
    then have "dirents r d = Some f" using d(1) by (simp add: r5_def r4_def)
    from self [OF this d(2) d'(1) d(5)] show ?thesis by simp
  qed
  have "\<exists>r'. inode_unref p r5 = Some r' \<and> reg_ok H D r' \<and> reg_less r5 r'"
    by (rule inode_unref_ok [OF ok5, where a = p, unfolded upd]) (simp, rule slf)
  then obtain r6 where r6: "inode_unref p r5 = Some r6" "reg_ok H D r6" "reg_less r5 r6" by blast
  have d5: "dirents r4 u = Some e" "names_unique r4" "u \<in> set (kids r4 t)" "\<And>x. x \<noteq> t \<Longrightarrow> u \<notin> set (kids r4 x)"
    using u uniq ut un by (simp_all add: kids4) (simp_all add: r4_def names_unique_mark [OF k])
  have e4: "entry r4 = entry r" using entry_mark [OF k] by (simp add: r4_def)
  note red = entry_redirect [OF d5(2,1,3,4), of nd, folded r5_def, unfolded u(5) e4]
  have v4: "is_dir r4 = is_dir r" "in_use r4 = in_use r" "native r4"
    using is_dir_set_inode [OF k] in_use_mark [OF k] native_set_inode [OF nat] native_mnt [OF nat k] by (simp_all add: r4_def)
  have v5: "is_dir r5 = is_dir r" "in_use r5 = in_use r" "native r5"
    using v4 by (simp_all add: r5_def is_dir_def in_use_def native_def fun_eq_iff)
  have "rename_reparent t nd r = Some r6"
    using u r4(1) r6(1) ne d5(1) by (simp add: rename_reparent_def r5_def)
  then show thesis
    by (rule that [OF _ r6(2,3)]) (use red v5 k in \<open>auto simp: r5_def r4_def\<close>)
qed

text \<open>The move itself: the new entry first, then the old one away.\<close>

lemma rename_move_ok:
  assumes ok: "reg_ok H D r" and ns: "ns_ok r" and few: "\<And>a. few (H a)" and rt: "0 < H (reg_root r)"
    and t: "entry r od on = Some t" and free: "entry r nd nn = None"
    and dots: "\<not> is_dot_name on" "\<not> is_dot_name nn" and use: "in_use r nd" "is_dir r od"
    and below: "is_dir r t \<Longrightarrow> \<not> (up r)\<^sup>*\<^sup>* nd t"
  shows "\<exists>rc r'. rename_move od on nd nn t (is_dir r t) r = Some (rc, r') \<and> reg_ok H D r' \<and> ns_ok r' \<and> reg_root r' = reg_root r \<and>
    (rc = PLAINERR \<and> inodes r' = inodes r \<and> dirents r' = dirents r \<or>
     rc = 0 \<and> (\<forall>a. inodes r' a \<noteq> None \<longrightarrow> entry r' a = moved_entry r od on nd nn t a) \<and>
       (\<forall>a. in_use r a \<longrightarrow> in_use r' a) \<and> (\<forall>a. inodes r' a \<noteq> None \<longrightarrow> inodes r a \<noteq> None \<and> is_dir r' a = is_dir r a))"
proof -
  from ns have uniq: "names_unique r" and nat: "native r" and dotsr: "dots_ok r" by (simp_all add: ns_ok_def)
  obtain k where k: "inodes r nd = Some k" "i_type k = INODE_DIR" using in_use_dir [OF use(1)] by (auto simp: is_dir_def)
  obtain j where j: "inodes r t = Some j" using entry_live [OF ok t] by blast
  have tnd: "t \<noteq> nd" using below in_use_dir [OF use(1)] by auto
  have tod: "t \<noteq> od" using dotsr t dots unfolding dots_ok_def is_dot_name_def by blast
  have diff: "\<not> (od = nd \<and> on = nn)" using t free by auto
  show ?thesis
  proof (cases rule: linkdirent_cases [OF ok k(1) j few, of nn])
    case (1 as)
    then have "rename_move od on nd nn t (is_dir r t) r = Some (PLAINERR, r\<lparr>answers := as\<rparr>)"
      by (simp add: rename_move_def)
    then show ?thesis using ok ns by (intro exI [of _ PLAINERR] exI [of _ "r\<lparr>answers := as\<rparr>"]) simp
  next
    case link: (2 as)
    define q where "q = r\<lparr>answers := as\<rparr>"
    have okq: "reg_ok H D q" "names_unique q" "native q" "entry q = entry r" "inodes q = inodes r" "is_dir q = is_dir r"
      "in_use q = in_use r" using ok uniq nat by (simp_all add: q_def)
    define r1 where "r1 = add_entry nd nn t q"
    have ok1: "reg_ok H D r1" unfolding r1_def
      by (rule add_entry_ok [OF okq(1)]) (use okq k j link in \<open>simp_all add: q_def\<close>)
    have e1: "entry r1 a = (if a = nd then (entry r nd)(nn \<mapsto> t) else entry r a)" for a
      using entry_add(1) [OF okq(1), of nd nn t a] okq k by (simp add: r1_def)
    have v1: "names_unique r1" "native r1" "is_dir r1 = is_dir r" "in_use r1 = in_use r" "reg_root r1 = reg_root r"
      using entry_add(2) [OF okq(1), of nd nn t] okq k free native_add by (simp_all add: r1_def) (simp add: q_def)
    have "is_dir r1 od" using use v1 by simp
    then obtain i1 where i1: "inodes r1 od = Some i1" by (auto simp: is_dir_def)
    have t1: "entry r1 od on = Some t" using t e1 diff by auto
    obtain d e where d: "registry_finddirent od on r1 = Some d" "d \<noteq> 0" "d \<in> set (i_children i1)" "dirents r1 d = Some e"
        "d_name e = on" "d_inode e = t"
      by (rule finddirent_ok [OF ok1 i1, of on]) (use t1 in auto)
    define r2 where "r2 = set_inode od (i1\<lparr>i_children := remove1 d (i_children i1)\<rparr>) r1"
    have det: "dirent_detach od on r1 = Some (d, r2)"
      using d i1 by (simp add: dirent_detach_def registry_finddirent_def r2_def)
    have ok2: "reg_ok H (D(d := D d + 1)) r2"
      unfolding r2_def by (rule detach_ok [OF ok1 i1 d(3,4)]) (use d(6) tod in simp)
    have e2: "entry r2 a = (if a = od then (entry r1 od)(on := None) else entry r1 a)" for a
      unfolding r2_def by (rule entry_detach [OF v1(1) i1 d(3)]) (use d in \<open>simp add: ent_def\<close>)
    have v2: "names_unique r2" "native r2" "is_dir r2 = is_dir r" "in_use r2 = in_use r" "reg_root r2 = reg_root r"
      using v1 names_unique_detach [OF v1(1) i1] native_set_inode [OF v1(2)] native_mnt [OF v1(2) i1]
        is_dir_set_inode [OF i1] in_use_mark [OF i1] by (simp_all add: r2_def)
    have "inodes r2 t = Some (j\<lparr>i_refcount := i_refcount j + 1\<rparr>)"
      using j tnd tod okq(5) by (simp add: r2_def r1_def add_entry_def)
    moreover have "2 \<le> i_refcount (j\<lparr>i_refcount := i_refcount j + 1\<rparr>)" using ok_pos [OF ok j] by simp
    moreover have "dirents r2 d = Some e" "0 < d" "0 < d_inode e" "d_refcount e \<noteq> 0"
      using d inv_dirent [OF reg_okD [OF ok1] d(4)] inv_inode [OF reg_okD [OF ok] j]
      by (simp_all add: r2_def del: not_gr_zero neq0_conv)
    ultimately obtain r3 where r3: "dirent_unref d r2 = Some r3" "dom (inodes r3) = dom (inodes r2)"
      using dirent_unref_more [of r2 d e] d(6) by metis
    have r3': "reg_ok H D r3" "reg_less r2 r3" using dirent_unref_ok [OF ok2, of d] r3(1) by (simp_all add: fun_upd_idem)
    have live: "inodes r3 a = None \<longleftrightarrow> inodes r2 a = None" for a using r3(2) by (metis domIff)
    have "inodes r2 a = None \<longleftrightarrow> inodes r a = None" for a
      using i1 okq(5) by (auto simp: r2_def r1_def add_entry_def)
    then have live0: "inodes r3 a = None \<longleftrightarrow> inodes r a = None" for a by (simp add: live)
    have e3: "entry r3 a = entry r2 a" for a
      using entry_less [OF r3', of a] live [of a] entry_None_kids [of r2 a] by auto
    have v3: "is_dir r3 = is_dir r" "in_use r3 = in_use r"
      unfolding v2(3,4) [symmetric] fun_eq_iff is_dir_less [OF r3'(2)] in_use_less [OF r3'(2)] live
      by (auto simp: is_dir_def in_use_def)
    have u3: "names_unique r3" "native r3" "reg_root r3 = reg_root r"
      using names_unique_less [OF r3' v2(1)] native_less [OF r3'(2) v2(2)] v2(5) r3'(2)
      by (simp_all add: reg_less_def reg_shrink_def)
    note move = ns_ok_move [OF ok ns t free dots use(1) below]
    have e3': "entry r3 a = (let m = (if a = od then (entry r od)(on := None) else entry r a) in if a = nd then m(nn \<mapsto> t) else m)" for a
      unfolding e3 e2 e1 using diff by (auto simp: Let_def)
    have up: "is_dir r t \<Longrightarrow> entry r t ''..'' = Some od" using ns t dots unfolding ns_ok_def parents_ok_def by blast
    have run: "rename_move od on nd nn t (is_dir r t) r =
        do { r \<leftarrow> (if is_dir r t \<and> od \<noteq> nd then rename_reparent t nd r3 else Some r3); Some (0, r) }"
      using link(1) det r3(1) d(2) ok by (simp add: rename_move_def r1_def q_def reg_ok_def)
    show ?thesis
    proof (cases "is_dir r t \<and> od \<noteq> nd")
      case False
      then have m: "entry r3 a = moved_entry r od on nd nn t a" for a
        using e3' up tod tnd by (auto simp: moved_entry_def Let_def fun_upd_idem)
      have "ns_ok r3" by (rule move) (use m v3 u3 in simp_all)
      moreover have "(if is_dir r t \<and> od \<noteq> nd then rename_reparent t nd r3 else Some r3) = Some r3" using False by (rule if_not_P)
      ultimately show ?thesis unfolding run using r3' m v3 live0 u3
        by (intro exI [of _ "0::int"] exI [of _ r3]) (simp del: not_None_eq)
    next
      case True
      have pr: "is_dir r3 t" "entry r3 t ''..'' = Some od" "inodes r3 nd \<noteq> None" "od \<noteq> nd" "t \<noteq> nd" "t \<noteq> od"
        using True v3(1) e3' up tnd tod in_use_dir [OF use(1)] unfolding v3(1) [symmetric] by (auto simp: is_dir_def)
      obtain r5 r6 where r6: "rename_reparent t nd r3 = Some r6" "reg_ok H D r6" "reg_less r5 r6"
        and e5: "\<forall>a. entry r5 a = (if a = t then (entry r3 t)(''..'' \<mapsto> nd) else entry r3 a)"
        and v5a: "names_unique r5" "native r5" and dom5: "dom (inodes r5) = dom (inodes r3)"
        and v5: "is_dir r5 = is_dir r3" "in_use r5 = in_use r3" "reg_root r5 = reg_root r3"
        by (rule rename_reparent_ok [OF r3'(1) few pr(1) u3(1,2) pr(2-6)])
      have m: "entry r5 a = moved_entry r od on nd nn t a" for a
        using e3' True tnd tod by (simp add: e5 moved_entry_def Let_def)
      have ns5: "ns_ok r5" by (rule move) (use m v3 u3 v5a v5 in simp_all)
      have rt5: "0 < H (reg_root r5)" using rt u3 v5 by simp
      have "ns_ok r6" by (rule ns_ok_less [OF r6(2,3) ns5 rt5])
      moreover have "reg_root r6 = reg_root r" using r6(3) u3 v5 by (simp add: reg_less_def reg_shrink_def)
      moreover have "in_use r6 a" if "in_use r a" for a
        using in_use_live [OF r6(2,3) ns5 rt5, of a] that v3 v5 by (simp add: in_use_less [OF r6(3)])
      moreover have "inodes r a \<noteq> None" if "inodes r6 a \<noteq> None" for a
      proof -
        have "inodes r5 a \<noteq> None" using that shrink_children [OF r6(3) [unfolded reg_less_def], of a] by fastforce
        then have "inodes r3 a \<noteq> None" using dom5 by (metis domIff)
        then show ?thesis using live0 by simp
      qed
      moreover have "is_dir r6 a = is_dir r a" if "inodes r6 a \<noteq> None" for a
        using is_dir_less [OF r6(3), of a] that v3 v5 by simp
      moreover have "entry r6 a = moved_entry r od on nd nn t a" if "inodes r6 a \<noteq> None" for a
        using entry_less [OF r6(2,3), of a] that m by simp
      ultimately show ?thesis unfolding run using True r6(1,2) by simp
    qed
  qed
qed

text \<open>A rename over an entry that is there.\<close>

lemma rename_replace_ok:
  assumes ok: "reg_ok H D r" and ns: "ns_ok r" and few: "\<And>a. few (H a)" and rt: "0 < H (reg_root r)"
    and t: "entry r od on = Some t" and v: "entry r nd nn = Some v"
    and dots: "\<not> is_dot_name on" "\<not> is_dot_name nn" and use: "in_use r od" "in_use r nd"
    and below: "is_dir r t \<Longrightarrow> \<not> (up r)\<^sup>*\<^sup>* nd t"
    and kind: "v \<noteq> t" "is_dir r t = is_dir r v" and empty: "\<And>n. is_dir r v \<Longrightarrow> entry r v n \<noteq> None \<Longrightarrow> is_dot_name n"
  shows "\<exists>q3 rc r'. rename_victim nd nn (is_dir r v) r = Some (0, q3) \<and>
    rename_move od on nd nn t (is_dir r t) q3 = Some (rc, r') \<and> reg_ok H D r' \<and> ns_ok r' \<and> reg_root r' = reg_root r \<and>
    (rc = PLAINERR \<and> (\<forall>a. inodes r' a \<noteq> None \<longrightarrow> entry r' a = (if a = nd then (entry r nd)(nn := None) else entry r a)) \<or>
     rc = 0 \<and> (\<forall>a. inodes r' a \<noteq> None \<longrightarrow> entry r' a = moved_entry r od on nd nn t a))"
proof -
  obtain l where l: "inodes r v = Some l" using entry_live [OF ok v] by blast
  have isv: "i_type l = INODE_DIR \<longleftrightarrow> is_dir r v" using l by (simp add: is_dir_def)
  obtain j where j: "inodes r nd = Some j" using use by (auto simp: in_use_def)
  from remove_entry_ok [OF ok ns rt j dots(2) v l refl empty] obtain d1 q1 q2 q3 f1 l1 where
    q: "dirent_detach nd nn r = Some (d1, q1)" "d1 \<noteq> 0" "dirents q1 d1 = Some f1" "d_inode f1 = v"
      "inodes q1 v = Some l1" "(if i_type l = INODE_DIR then mark_deleted v q1 else Some q1) = Some q2"
      "dirent_unref d1 q2 = Some q3" "reg_ok H D q3" "ns_ok q3" "reg_root q3 = reg_root r"
      "\<forall>a. inodes q3 a \<noteq> None \<longrightarrow> entry q3 a = (if a = nd then (entry r nd)(nn := None) else entry r a)"
      "\<forall>a. inodes q3 a \<noteq> None \<longrightarrow> inodes r a \<noteq> None \<and> is_dir q3 a = is_dir r a"
      "\<forall>a. in_use r a \<and> a \<noteq> v \<longrightarrow> in_use q3 a" by blast
  have vic: "rename_victim nd nn (is_dir r v) r = Some (0, q3)" using q(1-7) isv
    by (cases "is_dir r v") (simp_all add: rename_victim_def)
  have vod: "v \<noteq> od" using kind empty t dots(1) in_use_dir [OF use(1)] by auto
  have vnd: "v \<noteq> nd" using ns v dots(2) unfolding ns_ok_def dots_ok_def is_dot_name_def by blast
  have use3: "in_use q3 od" "in_use q3 nd" using q(13) use vod vnd by auto
  then have live3: "inodes q3 od \<noteq> None" "inodes q3 nd \<noteq> None" by (auto simp: in_use_def)
  have e3: "entry q3 od on = Some t" "entry q3 nd nn = None" using live3 q(11) t kind(1) v by auto
  have t3: "is_dir q3 t = is_dir r t" using q(12) entry_live [OF q(8) e3(1)] by blast
  have "up q3 a b \<Longrightarrow> up r a b" for a b
    using entry_live [OF q(8), of a "''..''" b] q(11) dots(2) by (auto simp: up_def is_dot_name_def split: if_splits)
  then have "up q3 \<le> up r" by blast
  then have "(up q3)\<^sup>*\<^sup>* nd t \<Longrightarrow> (up r)\<^sup>*\<^sup>* nd t" using rtranclp_mono by blast
  then have nb3: "is_dir q3 t \<Longrightarrow> \<not> (up q3)\<^sup>*\<^sup>* nd t" using below t3 by blast
  from rename_move_ok [OF q(8,9) few _ e3 dots use3(2) in_use_dir [OF use3(1)] nb3] rt q(10) obtain rc r' where
    m: "rename_move od on nd nn t (is_dir q3 t) q3 = Some (rc, r')" "reg_ok H D r'" "ns_ok r'" "reg_root r' = reg_root r"
     "rc = PLAINERR \<and> inodes r' = inodes q3 \<and> dirents r' = dirents q3 \<or>
      rc = 0 \<and> (\<forall>a. inodes r' a \<noteq> None \<longrightarrow> entry r' a = moved_entry q3 od on nd nn t a) \<and>
      (\<forall>a. inodes r' a \<noteq> None \<longrightarrow> inodes q3 a \<noteq> None)" by auto
  from m(5) have "rc = PLAINERR \<and> (\<forall>a. inodes r' a \<noteq> None \<longrightarrow> entry r' a = (if a = nd then (entry r nd)(nn := None) else entry r a)) \<or>
     rc = 0 \<and> (\<forall>a. inodes r' a \<noteq> None \<longrightarrow> entry r' a = moved_entry r od on nd nn t a)"
  proof (elim disjE conjE)
    assume f: "rc = PLAINERR" "inodes r' = inodes q3" "dirents r' = dirents q3"
    have "ent r' = ent q3" "kids r' = kids q3" using f by (simp_all add: kids_def ent_def fun_eq_iff)
    then have "entry r' = entry q3" unfolding entry_def [abs_def] by simp
    then show ?thesis using q(11) f by simp
  next
    assume f: "rc = 0" "\<forall>a. inodes r' a \<noteq> None \<longrightarrow> entry r' a = moved_entry q3 od on nd nn t a"
      "\<forall>a. inodes r' a \<noteq> None \<longrightarrow> inodes q3 a \<noteq> None"
    have mv: "moved_entry q3 od on nd nn t a = moved_entry r od on nd nn t a" if "inodes q3 a \<noteq> None" for a
      using that live3 q(11) t3 by (auto simp: moved_entry_def Let_def)
    then show ?thesis using f by metis
  qed
  moreover have "rename_move od on nd nn t (is_dir r t) q3 = Some (rc, r')" using m(1) t3 by simp
  ultimately show ?thesis using vic m(2-4) by blast
qed

lemma rename_native_ok:
  assumes ok: "reg_ok H D r" and ns: "ns_ok r" and few: "\<And>a. few (H a)" and rt: "0 < H (reg_root r)"
    and use: "in_use r od" "in_use r nd" and dots: "\<not> is_dot_name on" "\<not> is_dot_name nn"
  shows "\<exists>rc r'. rename_native od on nd nn r = Some (rc, r') \<and> reg_ok H D r' \<and> ns_ok r' \<and> reg_root r' = reg_root r \<and>
    (rc = 0 \<longrightarrow> (\<exists>t. entry r od on = Some t \<and> (is_dir r t \<longrightarrow> \<not> (up r)\<^sup>*\<^sup>* nd t) \<and>
       (entry r nd nn = Some t \<and> r' = r \<or>
        (\<forall>v. entry r nd nn = Some v \<longrightarrow> v \<noteq> t \<and> is_dir r v = is_dir r t \<and> (is_dir r v \<longrightarrow> (\<forall>n. entry r v n \<noteq> None \<longrightarrow> is_dot_name n))) \<and>
        (\<forall>a. inodes r' a \<noteq> None \<longrightarrow> entry r' a = moved_entry r od on nd nn t a)))) \<and>
    (rc \<noteq> 0 \<longrightarrow> inodes r' = inodes r \<and> dirents r' = dirents r \<or>
       rc = PLAINERR \<and> entry r nd nn \<noteq> None \<and>
       (\<forall>a. inodes r' a \<noteq> None \<longrightarrow> entry r' a = (if a = nd then (entry r nd)(nn := None) else entry r a)))"
    (is "\<exists>rc r'. ?P rc r'")
proof -
  obtain i j where i: "inodes r od = Some i" and j: "inodes r nd = Some j" using use by (auto simp: in_use_def)
  have same: "?P rc r" if "rename_native od on nd nn r = Some (rc, r)" "rc \<noteq> 0" for rc
    using that ok ns by simp
  show ?thesis
  proof (cases "entry r od on")
    case None
    then have "registry_finddirent od on r = Some 0" by (cases rule: finddirent_ok [OF ok i, of on]) auto
    then have "rename_native od on nd nn r = Some (NOTFOUND, r)" by (simp add: rename_native_def)
    then show ?thesis by (intro exI) (erule same, simp add: errorcode_def)
  next
    case t: (Some t)
    obtain d e where d: "registry_finddirent od on r = Some d" "d \<noteq> 0" "dirents r d = Some e" "d_inode e = t"
      by (rule finddirent_ok [OF ok i, of on]) (use t in auto)
    obtain k where k: "inodes r t = Some k" using entry_live [OF ok t] by blast
    have isd: "i_type k = INODE_DIR \<longleftrightarrow> is_dir r t" using k by (simp add: is_dir_def)
    have below: "(if is_dir r t then dir_has_ancestor nd t r else Some False) = Some (is_dir r t \<and> (up r)\<^sup>*\<^sup>* nd t)"
      using dir_has_ancestor_ok [OF ok ns in_use_dir [OF use(2)], of t] by simp
    show ?thesis
    proof (cases "is_dir r t \<and> (up r)\<^sup>*\<^sup>* nd t")
      case True
      then have "rename_native od on nd nn r = Some (BUSY, r)"
        using d k below by (simp add: rename_native_def isd)
      then show ?thesis by (intro exI) (erule same, simp add: errorcode_def)
    next
      case nbl: False
      then have nb: "is_dir r t \<Longrightarrow> \<not> (up r)\<^sup>*\<^sup>* nd t" by blast
      have run2: "rename_native od on nd nn r = do {
          dst \<leftarrow> registry_finddirent nd nn r;
          if dst = 0 then rename_move od on nd nn t (is_dir r t) r
          else do {
            f \<leftarrow> dirents r dst;
            if d_inode f = t then Some (0, r)
            else do {
              j \<leftarrow> inodes r (d_inode f);
              let dst_dir = (i_type j = INODE_DIR);
              if is_dir r t \<noteq> dst_dir then Some (UNSUPPORTEDOP, r)
              else do {
                empty \<leftarrow> (if dst_dir then registry_dir_is_empty (d_inode f) r else Some True);
                if \<not> empty then Some (BUSY, r)
                else do {
                  (rc, q) \<leftarrow> rename_victim nd nn dst_dir r;
                  if rc \<noteq> 0 then Some (rc, q) else rename_move od on nd nn t (is_dir r t) q } } } } }"
        using d k below nbl by (simp add: rename_native_def isd, simp only: Let_def)
      show ?thesis
      proof (cases "entry r nd nn")
        case None
        have "registry_finddirent nd nn r = Some 0" by (cases rule: finddirent_ok [OF ok j, of nn]) (use None in auto)
        then have "rename_native od on nd nn r = rename_move od on nd nn t (is_dir r t) r" unfolding run2 by simp
        with rename_move_ok [OF ok ns few rt t None dots use(2) in_use_dir [OF use(1)]] nb obtain rc r' where
          "rename_native od on nd nn r = Some (rc, r')" "reg_ok H D r'" "ns_ok r'" "reg_root r' = reg_root r"
          "rc = PLAINERR \<and> inodes r' = inodes r \<and> dirents r' = dirents r \<or>
           rc = 0 \<and> (\<forall>a. inodes r' a \<noteq> None \<longrightarrow> entry r' a = moved_entry r od on nd nn t a)" by metis
        then show ?thesis using t None dots use nb
          by (intro exI [of _ rc] exI [of _ r']) (auto simp: errorcode_def)
      next
        case v: (Some v)
        obtain d2 f where f: "registry_finddirent nd nn r = Some d2" "d2 \<noteq> 0" "dirents r d2 = Some f" "d_inode f = v"
          by (rule finddirent_ok [OF ok j, of nn]) (use v in auto)
        obtain l where l: "inodes r v = Some l" using entry_live [OF ok v] by blast
        have isv: "i_type l = INODE_DIR \<longleftrightarrow> is_dir r v" using l by (simp add: is_dir_def)
        have emp: "(if is_dir r v then registry_dir_is_empty v r else Some True) =
            Some (is_dir r v \<longrightarrow> (\<forall>n. entry r v n \<noteq> None \<longrightarrow> is_dot_name n))"
          using dir_empty_ok [OF ok, of v] l by simp
        consider "v = t" | "v \<noteq> t" "is_dir r t \<noteq> is_dir r v"
          | "v \<noteq> t" "is_dir r t = is_dir r v" "\<not> (is_dir r v \<longrightarrow> (\<forall>n. entry r v n \<noteq> None \<longrightarrow> is_dot_name n))"
          | "v \<noteq> t" "is_dir r t = is_dir r v" "is_dir r v \<longrightarrow> (\<forall>n. entry r v n \<noteq> None \<longrightarrow> is_dot_name n)" by blast
        then show ?thesis
        proof cases
          case 1
          then have "rename_native od on nd nn r = Some (0, r)" unfolding run2 using f by simp
          then show ?thesis using ok ns 1 v t dots use nb by (intro exI [of _ "0::int"] exI [of _ r]) simp
        next
          case 2
          then have "rename_native od on nd nn r = Some (UNSUPPORTEDOP, r)" unfolding run2 using f l by (simp add: isv)
          then show ?thesis by (intro exI) (erule same, simp add: errorcode_def)
        next
          case 3
          then have "rename_native od on nd nn r = Some (BUSY, r)" unfolding run2 using f l emp by (simp add: isv)
          then show ?thesis by (intro exI) (erule same, simp add: errorcode_def)
        next
          case repl: 4
          obtain q3 rc r' where q: "rename_victim nd nn (is_dir r v) r = Some (0, q3)"
              "rename_move od on nd nn t (is_dir r t) q3 = Some (rc, r')" "reg_ok H D r'" "ns_ok r'" "reg_root r' = reg_root r"
              "rc = PLAINERR \<and> (\<forall>a. inodes r' a \<noteq> None \<longrightarrow> entry r' a = (if a = nd then (entry r nd)(nn := None) else entry r a)) \<or>
               rc = 0 \<and> (\<forall>a. inodes r' a \<noteq> None \<longrightarrow> entry r' a = moved_entry r od on nd nn t a)"
            using rename_replace_ok [OF ok ns few rt t v dots use nb repl(1,2)] repl(3) by blast
          have "rename_native od on nd nn r = Some (rc, r')"
            unfolding run2 using f l emp repl q(1,2) by (cases "is_dir r v") (simp_all add: isv)
          moreover have "PLAINERR \<noteq> 0" by (simp add: errorcode_def)
          ultimately show ?thesis using q(3-6) repl t v dots use nb by (intro exI [of _ rc] exI [of _ r']) auto
        qed
      qed
    qed
  qed
qed

lemma registry_rename_ok:
  assumes ok: "reg_ok H D r" and ns: "ns_ok r" and few: "\<And>a. few (H a)" and rt: "0 < H (reg_root r)"
    and dirs: "is_dir r od" "is_dir r nd"
  shows "\<exists>rc r'. registry_rename fs od on nd nn r = Some (rc, r') \<and> reg_ok H D r' \<and> ns_ok r' \<and> reg_root r' = reg_root r \<and>
    (rc = 0 \<longrightarrow> od = nd \<and> on = nn \<and> r' = r \<or> (\<exists>t. entry r od on = Some t \<and> \<not> is_dot_name on \<and> \<not> is_dot_name nn \<and>
       in_use r od \<and> in_use r nd \<and> (is_dir r t \<longrightarrow> \<not> (up r)\<^sup>*\<^sup>* nd t) \<and>
       (entry r nd nn = Some t \<and> r' = r \<or>
        (\<forall>v. entry r nd nn = Some v \<longrightarrow> v \<noteq> t \<and> is_dir r v = is_dir r t \<and> (is_dir r v \<longrightarrow> (\<forall>n. entry r v n \<noteq> None \<longrightarrow> is_dot_name n))) \<and>
        (\<forall>a. inodes r' a \<noteq> None \<longrightarrow> entry r' a = moved_entry r od on nd nn t a)))) \<and>
    (rc \<noteq> 0 \<longrightarrow> inodes r' = inodes r \<and> dirents r' = dirents r \<or>
       rc = PLAINERR \<and> entry r nd nn \<noteq> None \<and>
       (\<forall>a. inodes r' a \<noteq> None \<longrightarrow> entry r' a = (if a = nd then (entry r nd)(nn := None) else entry r a)))"
    (is "\<exists>rc r'. ?P rc r'")
proof -
  from ns have nat: "native r" by (simp add: ns_ok_def)
  note fnd = native_find [OF nat]
  obtain i j where i: "inodes r od = Some i" "i_type i = INODE_DIR" and j: "inodes r nd = Some j" "i_type j = INODE_DIR"
    using dirs by (auto simp: is_dir_def)
  have pos: "od \<noteq> 0" "nd \<noteq> 0" using inv_inode [OF reg_okD [OF ok]] i(1) j(1) by blast+
  have same: "?P rc r" if "registry_rename fs od on nd nn r = Some (rc, r)" "rc \<noteq> 0" for rc
    using that ok ns by simp
  let ?len = "on = [] \<or> nn = [] \<or> REG_MAX_NAME_LEN \<le> length on \<or> REG_MAX_NAME_LEN \<le> length nn"
  consider "?len" | "\<not> ?len" "i_deleted i \<or> i_deleted j \<or> is_dot_name on \<or> is_dot_name nn"
    | "\<not> ?len" "\<not> i_deleted i" "\<not> i_deleted j" "\<not> is_dot_name on" "\<not> is_dot_name nn" "od = nd \<and> on = nn"
    | "\<not> ?len" "\<not> i_deleted i" "\<not> i_deleted j" "\<not> is_dot_name on" "\<not> is_dot_name nn" "\<not> (od = nd \<and> on = nn)"
    by blast
  then show ?thesis
  proof cases
    case 1
    then have "registry_rename fs od on nd nn r = Some (PLAINERR, r)" using pos i j by (auto simp: registry_rename_def)
    then show ?thesis by (intro exI) (erule same, simp add: errorcode_def)
  next
    case 2
    then have "registry_rename fs od on nd nn r = Some (BUSY, r)" using pos i j by (auto simp: registry_rename_def)
    then show ?thesis by (intro exI) (erule same, simp add: errorcode_def)
  next
    case 3
    then have "registry_rename fs od on nd nn r = Some (0, r)" using pos i j by (simp add: registry_rename_def)
    then show ?thesis using 3 ok ns by (intro exI [of _ "0::int"] exI [of _ r]) simp
  next
    case 4
    have use: "in_use r od" "in_use r nd" using i j 4 by (simp_all add: in_use_def)
    have mnt: "\<exists>d. registry_finddirent a n r = Some d \<and> entry_mounted d r = Some False" if ad: "is_dir r a" for a n
    proof -
      obtain k where k: "inodes r a = Some k" using ad by (auto simp: is_dir_def)
      show ?thesis by (cases rule: finddirent_ok [OF ok k, of n]) (simp_all add: entry_mounted_def fnd)
    qed
    from mnt [OF dirs(1), of on] mnt [OF dirs(2), of nn] obtain d1 d2 where
      "registry_finddirent od on r = Some d1" "entry_mounted d1 r = Some False"
      "registry_finddirent nd nn r = Some d2" "entry_mounted d2 r = Some False" by blast
    then have run: "registry_rename fs od on nd nn r = rename_native od on nd nn r"
      using 4 pos i j native_mnt [OF nat i(1)] native_mnt [OF nat j(1)]
      by (cases "od = nd") (simp_all add: registry_rename_def)
    obtain rc r' where "rename_native od on nd nn r = Some (rc, r')" "reg_ok H D r'" "ns_ok r'" "reg_root r' = reg_root r"
      "rc = 0 \<longrightarrow> (\<exists>t. entry r od on = Some t \<and> (is_dir r t \<longrightarrow> \<not> (up r)\<^sup>*\<^sup>* nd t) \<and>
         (entry r nd nn = Some t \<and> r' = r \<or>
          (\<forall>v. entry r nd nn = Some v \<longrightarrow> v \<noteq> t \<and> is_dir r v = is_dir r t \<and> (is_dir r v \<longrightarrow> (\<forall>n. entry r v n \<noteq> None \<longrightarrow> is_dot_name n))) \<and>
          (\<forall>a. inodes r' a \<noteq> None \<longrightarrow> entry r' a = moved_entry r od on nd nn t a)))"
      "rc \<noteq> 0 \<longrightarrow> inodes r' = inodes r \<and> dirents r' = dirents r \<or>
         rc = PLAINERR \<and> entry r nd nn \<noteq> None \<and>
         (\<forall>a. inodes r' a \<noteq> None \<longrightarrow> entry r' a = (if a = nd then (entry r nd)(nn := None) else entry r a))"
      using rename_native_ok [OF ok ns few rt use 4(4,5)] by blast
    then show ?thesis unfolding run [symmetric] using 4(4,5) use by blast
  qed
qed

end
