(* ===== verification/Namespace_Run.thy ===== *)
theory Namespace_Run
  imports Namespace_Make Namespace_Rename
begin

text \<open>
  The name registry at work: the state that booting leaves, every sequence of operations from
  there, and the operations' effects.
\<close>

section \<open>Boot\<close>

definition empty_reg :: "nat \<Rightarrow> reg" where
  "empty_reg start = \<lparr>inodes = Map.empty, dirents = Map.empty, inode_count = 0, dirent_count = 0, reg_root = 0,
     mounts = replicate REG_MAX_MOUNTS \<lparr>m_in_use = False, m_id = 0, m_mountpoint = 0, m_root = 0, m_fs = 0, m_refcount = 0\<rparr>,
     next_mount_id = 1, fresh = start, answers = []\<rparr>"

lemma empty_reg_ok: "0 < s \<Longrightarrow> reg_ok (\<lambda>_. 0) (\<lambda>_. 0) (empty_reg s)"
  by (simp add: reg_ok_def reg_inv_def inv_inodes_def inv_dirents_def zeros_def empty_reg_def kids_def REG_MAX_DIRENTS_def)

definition boot_reg :: "nat \<Rightarrow> reg" where
  "boot_reg s = add_entry s ''..'' s (add_entry s ''.'' s ((new_inode INODE_DIR (empty_reg s))\<lparr>reg_root := s\<rparr>))"

lemma registry_init_run: "0 < s \<Longrightarrow> registry_init [] s = Some (boot_reg s)"
  by (simp add: registry_init_def registry_inode_alloc_def kmalloc_ok_def Let_def REG_MAX_INODES_def
      registry_linkdirent_def dirent_alloc_def REG_MAX_NAME_LEN_def REG_MAX_DIRENTS_def boot_reg_def
      add_entry_def new_inode_def empty_reg_def set_inode_def set_dirent_def fun_eq_iff)

lemma boot_reg_ok:
  assumes "0 < s"
  shows "reg_ok ((\<lambda>_. 0)(s := 1)) (\<lambda>_. 0) (boot_reg s)" "ns_ok (boot_reg s)" "reg_root (boot_reg s) = s"
proof -
  let ?r0 = "empty_reg s" let ?H = "(\<lambda>_. 0)(s := 1)"
  have f: "fresh ?r0 = s" "native ?r0" "names_unique ?r0" "entry ?r0 a = Map.empty" "\<not> is_dir ?r0 a" for a
    by (simp_all add: empty_reg_def native_def names_unique_def kids_def entry_def is_dir_def)
  define r1 where "r1 = (new_inode INODE_DIR ?r0)\<lparr>reg_root := s\<rparr>"
  have "reg_ok ?H (\<lambda>_. 0) (new_inode INODE_DIR ?r0)"
    using new_inode_ok [OF empty_reg_ok [OF assms], of INODE_DIR] by (simp add: f)
  then have ok1: "reg_ok ?H (\<lambda>_. 0) r1" unfolding r1_def by (rule reg_ok_cong [rotated -1]) simp_all
  let ?j = "\<lparr>i_type = INODE_DIR, i_refcount = 1, i_deleted = False, i_impl = 0, i_ops = 0, i_children = [], i_mnt = None\<rparr>"
  have i1: "inodes r1 = [s \<mapsto> ?j]" "fresh r1 = s + 1" "dirent_count r1 = 0" "reg_root r1 = s"
    by (simp_all add: r1_def f) (simp_all add: empty_reg_def)
  define r2 where "r2 = add_entry s ''.'' s r1"
  have r2: "inodes r2 s = Some (?j\<lparr>i_children := [s + 1]\<rparr>)" "dirent_count r2 = 1" "inodes r2 = (inodes r1)(s \<mapsto> ?j\<lparr>i_children := [s + 1]\<rparr>)"
    by (simp_all add: r2_def add_entry_def i1 fun_eq_iff)
  have b: "boot_reg s = add_entry s ''..'' s r2" by (simp add: boot_reg_def r2_def r1_def)
  have ok2: "reg_ok ?H (\<lambda>_. 0) r2" unfolding r2_def
    by (rule add_entry_ok [OF ok1, where i = ?j and j = ?j]) (simp_all add: i1 REG_MAX_DIRENTS_def)
  show okb: "reg_ok ?H (\<lambda>_. 0) (boot_reg s)" unfolding b
    by (rule add_entry_ok [OF ok2, where i = "?j\<lparr>i_children := [s + 1]\<rparr>" and j = "?j\<lparr>i_children := [s + 1]\<rparr>"])
      (simp_all add: r2 REG_MAX_DIRENTS_def)
  have v1: "entry r1 a = Map.empty" "names_unique r1" "native r1" "is_dir r1 a \<longleftrightarrow> a = s" "in_use r1 a \<longleftrightarrow> a = s" for a
    by (simp_all add: entry_def kids_def i1 names_unique_def native_def is_dir_def in_use_def) (simp add: r1_def empty_reg_def)
  have e2: "entry r2 a = (if a = s then [''.'' \<mapsto> s] else Map.empty)" "names_unique r2" "native r2" for a
    using entry_add [OF ok1, of s "''.''" s] native_add [OF v1(3)] by (simp_all add: r2_def i1 v1)
  have e3: "entry (boot_reg s) a = (if a = s then [''.'' \<mapsto> s, ''..'' \<mapsto> s] else Map.empty)" "names_unique (boot_reg s)" "native (boot_reg s)" for a
    using entry_add [OF ok2, of s "''..''" s] native_add [OF e2(3)] by (simp_all add: b r2 e2)
  have d3: "is_dir (boot_reg s) a \<longleftrightarrow> a = s" "in_use (boot_reg s) a \<longleftrightarrow> a = s" for a
    by (simp_all add: b r2_def v1)
  show root: "reg_root (boot_reg s) = s" by (simp add: b r2_def i1)
  show "ns_ok (boot_reg s)"
    unfolding ns_ok_def dots_ok_def parents_ok_def ranked_def linked_ok_def root d3 e3(1)
    by (auto simp: e3(2,3) is_dot_name_def split: if_splits)
qed

section \<open>Every sequence of operations\<close>

text \<open>
  From boot, in any order: making directories, linking, unlinking and renaming, with any names and
  memory running out at any point, and other parts of the kernel taking (\<open>hold\<close>) and dropping
  references to inodes; the root keeps its own.  \<open>H\<close> counts the references held.
\<close>

inductive name_run :: "(nat \<Rightarrow> fs_ops) \<Rightarrow> (nat \<Rightarrow> nat) \<Rightarrow> reg \<Rightarrow> bool" for fs where
  boot: "0 < s \<Longrightarrow> registry_init [] s = Some r \<Longrightarrow> name_run fs ((\<lambda>_. 0)(s := 1)) r"
| memory: "name_run fs H r \<Longrightarrow> name_run fs H (r\<lparr>answers := as\<rparr>)"
| hold: "name_run fs H r \<Longrightarrow> inodes r a \<noteq> None \<Longrightarrow> few (H a + 1) \<Longrightarrow> inode_ref a r = Some r' \<Longrightarrow>
    name_run fs (H(a := H a + 1)) r'"
| drop: "name_run fs H r \<Longrightarrow> 0 < H a \<Longrightarrow> a = reg_root r \<longrightarrow> 1 < H a \<Longrightarrow> inode_unref a r = Some r' \<Longrightarrow>
    name_run fs (H(a := H a - 1)) r'"
| mkdir: "name_run fs H r \<Longrightarrow> inodes r start \<noteq> None \<Longrightarrow> registry_mkdir_at fs start path r = Some (rc, r') \<Longrightarrow>
    name_run fs H r'"
| link: "name_run fs H r \<Longrightarrow> is_dir r dir \<Longrightarrow> inodes r t \<noteq> None \<Longrightarrow> registry_link fs t dir name r = Some (rc, r') \<Longrightarrow>
    name_run fs H r'"
| unlink: "name_run fs H r \<Longrightarrow> is_dir r dir \<Longrightarrow> registry_unlink fs dir name r = Some (rc, r') \<Longrightarrow> name_run fs H r'"
| rename: "name_run fs H r \<Longrightarrow> is_dir r od \<Longrightarrow> is_dir r nd \<Longrightarrow> registry_rename fs od on nd nn r = Some (rc, r') \<Longrightarrow>
    name_run fs H r'"

definition run_inv :: "(nat \<Rightarrow> nat) \<Rightarrow> reg \<Rightarrow> bool" where
  "run_inv H r \<longleftrightarrow> reg_ok H (\<lambda>_. 0) r \<and> ns_ok r \<and> 0 < H (reg_root r) \<and> (\<forall>a. few (H a))"

lemma run_drop:
  assumes "run_inv H r" "0 < H a" "a = reg_root r \<longrightarrow> 1 < H a"
  shows "\<exists>r'. inode_unref a r = Some r' \<and> run_inv (H(a := H a - 1)) r'"
proof -
  from assms have ok: "reg_ok H (\<lambda>_. 0) r" and ns: "ns_ok r" and rt: "0 < H (reg_root r)" and few: "\<And>x. few (H x)"
    by (auto simp: run_inv_def)
  obtain r' where r': "inode_unref a r = Some r'" "reg_ok (H(a := H a - 1)) (\<lambda>_. 0) r'" "reg_less r r'"
    using inode_unref_ok [OF ok assms(2)] by auto
  have rt': "0 < (H(a := H a - 1)) (reg_root r)" using rt assms(3) by auto
  have root: "reg_root r' = reg_root r" using r'(3) by (simp add: reg_less_def reg_shrink_def)
  have "few ((H(a := H a - 1)) x)" for x
    using few [of x] by (cases "x = a") (simp_all add: less_imp_diff_less)
  then have "\<forall>x. few ((H(a := H a - 1)) x)" by blast
  then have "run_inv (H(a := H a - 1)) r'"
    unfolding run_inv_def root using r'(2) rt' ns_ok_less [OF r'(2,3) ns rt'] by blast
  then show ?thesis using r'(1) by blast
qed

lemma run_hold:
  assumes "run_inv H r" "inodes r a \<noteq> None" "few (H a + 1)"
  shows "\<exists>r'. inode_ref a r = Some r' \<and> run_inv (H(a := H a + 1)) r'"
proof -
  from assms have ok: "reg_ok H (\<lambda>_. 0) r" and ns: "ns_ok r" and rt: "0 < H (reg_root r)" and few: "\<And>x. few (H x)"
    by (auto simp: run_inv_def)
  obtain i where i: "inodes r a = Some i" using assms(2) by blast
  let ?r = "set_inode a (i\<lparr>i_refcount := i_refcount i + 1\<rparr>) r"
  have nat: "native r" using ns by (simp add: ns_ok_def)
  have "ns_ok ?r"
    using ns entry_mark [OF i] is_dir_set_inode [OF i] names_unique_mark [OF i] in_use_mark [OF i]
      native_set_inode [OF nat] native_mnt [OF nat i]
    by (simp add: ns_ok_def dots_ok_def parents_ok_def ranked_def linked_ok_def)
  then show ?thesis using inode_ref_ok [OF ok i few] rt few assms(3) by (simp add: run_inv_def)
qed

lemma run_ops:
  assumes inv: "run_inv H r"
  shows "inodes r start \<noteq> None \<Longrightarrow> \<exists>rc r'. registry_mkdir_at fs start path r = Some (rc, r') \<and> run_inv H r'"
    and "is_dir r dir \<Longrightarrow> inodes r t \<noteq> None \<Longrightarrow> \<exists>rc r'. registry_link fs t dir name r = Some (rc, r') \<and> run_inv H r'"
    and "is_dir r dir \<Longrightarrow> \<exists>rc r'. registry_unlink fs dir name r = Some (rc, r') \<and> run_inv H r'"
    and "is_dir r dir \<Longrightarrow> is_dir r nd \<Longrightarrow> \<exists>rc r'. registry_rename fs dir name nd nn r = Some (rc, r') \<and> run_inv H r'"
proof -
  from inv have ok: "reg_ok H (\<lambda>_. 0) r" and ns: "ns_ok r" and rt: "0 < H (reg_root r)" and few: "\<And>x. few (H x)"
    by (auto simp: run_inv_def)
  have keep: "run_inv H r'" if "reg_ok H (\<lambda>_. 0) r'" "ns_ok r'" "reg_root r' = reg_root r" for r'
    using that rt few by (simp add: run_inv_def)
  have root: "inodes r (reg_root r) \<noteq> None" using inv_no_inode [OF reg_okD [OF ok], of "reg_root r"] rt by auto
  show "inodes r start \<noteq> None \<Longrightarrow> \<exists>rc r'. registry_mkdir_at fs start path r = Some (rc, r') \<and> run_inv H r'"
    using registry_mkdir_at_ok [OF ok ns few _ root, of start fs path] keep by blast
  show "is_dir r dir \<Longrightarrow> inodes r t \<noteq> None \<Longrightarrow> \<exists>rc r'. registry_link fs t dir name r = Some (rc, r') \<and> run_inv H r'"
    using registry_link_ok [OF ok ns few, of dir _ t _ fs name] keep unfolding is_dir_def by blast
  show "is_dir r dir \<Longrightarrow> \<exists>rc r'. registry_unlink fs dir name r = Some (rc, r') \<and> run_inv H r'"
    using registry_unlink_ok [OF ok ns rt, of dir _ fs name] keep unfolding is_dir_def by blast
  show "is_dir r dir \<Longrightarrow> is_dir r nd \<Longrightarrow> \<exists>rc r'. registry_rename fs dir name nd nn r = Some (rc, r') \<and> run_inv H r'"
    using registry_rename_ok [OF ok ns few rt, of dir nd fs name nn] keep by blast
qed

lemma run_inv_reachable: "name_run fs H r \<Longrightarrow> run_inv H r"
proof (induction rule: name_run.induct)
  case (boot s r)
  then have r: "r = boot_reg s" using registry_init_run by simp
  show ?case unfolding run_inv_def r boot_reg_ok(3) [OF boot(1)]
    using boot_reg_ok(1,2) [OF boot(1)] by (intro conjI) simp_all
next
  case (memory H r as)
  then show ?case by (simp add: run_inv_def)
next
  case (hold H r a r')
  then show ?case using run_hold [of H r a] by (auto simp: fun_upd_def)
next
  case (drop H r a r')
  then show ?case using run_drop [of H r a] by (auto simp: fun_upd_def)
next
  case (mkdir H r start path rc r')
  then show ?case using run_ops(1) [of H r start fs path] by auto
next
  case (link H r dir t name rc r')
  then show ?case using run_ops(2) [of H r dir t fs name] by auto
next
  case (unlink H r dir name rc r')
  then show ?case using run_ops(3) [of H r dir fs name] by auto
next
  case (rename H r od nd on nn rc r')
  then show ?case using run_ops(4) [of H r od nd fs on nn] by auto
qed

section \<open>The effects of the operations\<close>


lemma boot_run: "name_run fs ((\<lambda>_. 0)(1 := 1)) (boot_reg 1)"
  by (rule name_run.boot) (simp_all add: registry_init_run)

lemma boot_dir: "is_dir (boot_reg 1) 1"
  by (simp add: boot_reg_def is_dir_def new_inode_def add_entry_def empty_reg_def)






text \<open>C30: Making a directory: if it reports success for a path without a slash at its end, the last
  component is a new empty directory of the directory that the others lead to, and no other
  directory has changed; if it fails, none has, also where memory runs out half way.  For a path
  that ends in a slash it changes nothing, whatever it reports.\<close>

theorem registry_mkdir_at_correct:
  assumes "name_run fs H r" and "inodes r start \<noteq> None"
  shows "\<exists>rc r'. registry_mkdir_at fs start path r = Some (rc, r') \<and>
    (rc \<noteq> 0 \<or> last path = CHR ''/'' \<longrightarrow> inodes r' = inodes r \<and> dirents r' = dirents r) \<and>
    (rc = 0 \<and> last path \<noteq> CHR ''/'' \<longrightarrow> (\<exists>b p. inodes r b = None \<and>
       follow r (if hd path = CHR ''/'' then reg_root r else start) (butlast (components path)) = Some p \<and>
       is_dir r p \<and> entry r p (last (components path)) = None \<and>
       (\<forall>a. is_dir r' a \<longleftrightarrow> a = b \<or> is_dir r a) \<and>
       (\<forall>a. entry r' a = (if a = p then (entry r p)(last (components path) \<mapsto> b)
          else if a = b then [''.'' \<mapsto> b, ''..'' \<mapsto> p] else entry r a))))"
proof -
  have inv: "reg_ok H (\<lambda>_. 0) r" "ns_ok r" "\<And>a. few (H a)" "0 < H (reg_root r)"
    using run_inv_reachable [OF assms(1)] by (simp_all add: run_inv_def)
  have "inodes r (reg_root r) \<noteq> None" using inv_no_inode [OF reg_okD [OF inv(1)], of "reg_root r"] inv(4) by auto
  from registry_mkdir_at_ok [OF inv(1-3) assms(2) this, of fs path] obtain rc r' where
    R: "registry_mkdir_at fs start path r = Some (rc, r')"
      "rc \<noteq> 0 \<or> last path = CHR ''/'' \<longrightarrow> inodes r' = inodes r \<and> dirents r' = dirents r"
      "rc = 0 \<and> last path \<noteq> CHR ''/'' \<longrightarrow> (\<exists>b. made INODE_DIR (start_of start path r) path b r r')" by blast
  have "\<exists>b p. inodes r b = None \<and>
       follow r (if hd path = CHR ''/'' then reg_root r else start) (butlast (components path)) = Some p \<and>
       is_dir r p \<and> entry r p (last (components path)) = None \<and>
       (\<forall>a. is_dir r' a \<longleftrightarrow> a = b \<or> is_dir r a) \<and>
       (\<forall>a. entry r' a = (if a = p then (entry r p)(last (components path) \<mapsto> b)
          else if a = b then [''.'' \<mapsto> b, ''..'' \<mapsto> p] else entry r a))" if "rc = 0 \<and> last path \<noteq> CHR ''/''"
  proof -
    from that R(3) obtain b p where p: "follow r (start_of start path r) (butlast (components path)) = Some p" "is_dir r p"
      "entry r p (last (components path)) = None" "created INODE_DIR p (last (components path)) b r r'"
      unfolding made_def by blast
    then show ?thesis
      by (intro exI [of _ b] exI [of _ p]) (simp add: start_of_def created_def)
  qed
  from R(1,2) impI [OF this] show ?thesis by (intro exI [of _ rc] exI [of _ r'] conjI)
qed

theorem registry_mkdir_at_correct_witness:
  "\<exists>rc r'. registry_mkdir_at (\<lambda>_. undefined) 1 ''tmp'' (boot_reg 1) = Some (rc, r') \<and>
    (rc \<noteq> 0 \<longrightarrow> inodes r' = inodes (boot_reg 1))"
  using registry_mkdir_at_correct [OF boot_run, where start = 1 and path = "''tmp''"] boot_dir by (fastforce simp: is_dir_def)



text \<open>An entry that was detached has no successor: a reader of the directory whose next entry is
  unlinked is at its end, whatever the directory still holds.\<close>

lemma dropWhile_absent: "d \<notin> set ds \<Longrightarrow> dropWhile (\<lambda>x. x \<noteq> d) ds = []"
  by (auto simp: dropWhile_eq_Nil_conv)

lemma advance_detached:
  assumes "inodes r dir = Some i" "d \<notin> set (i_children i)" "0 < d" "dir_handle_advance dir d r = Some (nxt, r')"
  shows "nxt = 0"
  using assms by (auto simp: dir_handle_advance_def next_entry_def dropWhile_absent split: if_splits Option.bind_splits)

end
