(* ===== verification/Ext2_Layout.thy ===== *)
theory Ext2_Layout
  imports Block
begin

text \<open>
  The on-disk structures of ext2 (\<open>kernel/include/kernel/fs/ext2.h\<close>): little-endian packed
  structs, as records of naturals with their encoding into bytes.  \<open>pack ws vs\<close> lays the values
  \<open>vs\<close> out in fields of \<open>ws\<close> bytes; \<open>unpack\<close> reads them back.  The lemmas show that decoding
  inverts encoding and that re-encoding a decoded struct gives the same bytes.
\<close>

section \<open>Little-endian fields\<close>

primrec le_bytes :: "nat \<Rightarrow> nat \<Rightarrow> u8 list" where
  "le_bytes 0 v = []"
| "le_bytes (Suc k) v = of_nat v # le_bytes k (v div 256)"

primrec le_val :: "u8 list \<Rightarrow> nat" where
  "le_val [] = 0"
| "le_val (b # bs) = unat b + 256 * le_val bs"

primrec unpack :: "nat list \<Rightarrow> u8 list \<Rightarrow> nat list" where
  "unpack [] bs = []"
| "unpack (w # ws) bs = le_val (take w bs) # unpack ws (drop w bs)"

fun pack :: "nat list \<Rightarrow> nat list \<Rightarrow> u8 list" where
  "pack (w # ws) (v # vs) = le_bytes w v @ pack ws vs"
| "pack _ _ = []"

lemma length_le_bytes [simp]: "length (le_bytes k v) = k"
  by (induction k arbitrary: v) simp_all

lemma byte_less: "unat (b :: u8) < 256"
  using unsigned_less [of b, where ?'a = nat] by simp

lemma le_val_bytes: "v < 256 ^ k \<Longrightarrow> le_val (le_bytes k v) = v"
proof (induction k arbitrary: v)
  case (Suc k)
  have "v div 256 < 256 ^ k" using Suc.prems by (simp add: less_mult_imp_div_less mult.commute)
  from Suc.IH [OF this] show ?case by (simp add: unat_of_nat)
qed simp

lemma le_bytes_val: "length bs = k \<Longrightarrow> le_bytes k (le_val bs) = bs"
proof (induction bs arbitrary: k)
  case (Cons b bs)
  then obtain k' where k: "k = Suc k'" "length bs = k'" by auto
  have "(256 :: u8) = 0" by simp
  then have "256 * w = (0 :: u8)" for w by (metis mult_zero_left)
  then have "(of_nat (unat b + 256 * le_val bs) :: u8) = b" by simp
  moreover have "(unat b + 256 * le_val bs) div 256 = le_val bs"
    using byte_less [of b] by simp
  ultimately show ?case using Cons.IH [OF k(2)] k(1) by simp
qed simp

lemma le_val_less: "le_val bs < 256 ^ length bs"
proof (induction bs)
  case (Cons b bs)
  with byte_less [of b] show ?case by simp
qed simp

lemma length_unpack [simp]: "length (unpack ws bs) = length ws"
  by (induction ws arbitrary: bs) simp_all

lemma length_pack: "length vs = length ws \<Longrightarrow> length (pack ws vs) = sum_list ws"
  by (induction ws vs rule: list_induct2') auto

text \<open>\<open>fits ws vs\<close>: every value fits the field it is stored in.\<close>

abbreviation fits :: "nat list \<Rightarrow> nat list \<Rightarrow> bool" where
  "fits ws vs \<equiv> list_all2 (\<lambda>w v. v < 256 ^ w) ws vs"

lemma unpack_pack: "fits ws vs \<Longrightarrow> unpack ws (pack ws vs @ r) = vs"
  by (induction arbitrary: r rule: list_all2_induct) (simp_all add: le_val_bytes)

lemma pack_unpack: "length bs = sum_list ws \<Longrightarrow> pack ws (unpack ws bs) = bs"
proof (induction ws arbitrary: bs)
  case (Cons w ws)
  then have "length (take w bs) = w" "length (drop w bs) = sum_list ws" by simp_all
  with Cons.IH [of "drop w bs"] show ?case by (simp add: le_bytes_val)
qed simp

lemma unpack_fits: "sum_list ws \<le> length bs \<Longrightarrow> fits ws (unpack ws bs)"
proof (induction ws arbitrary: bs)
  case (Cons w ws)
  then have "length (take w bs) = w" by simp
  then have "le_val (take w bs) < 256 ^ w" by (metis le_val_less)
  with Cons show ?case by simp
qed simp

section \<open>Inodes\<close>

record ihdr =
  i_mode :: nat
  i_uid :: nat
  i_size :: nat
  i_atime :: nat
  i_ctime :: nat
  i_mtime :: nat
  i_dtime :: nat
  i_gid :: nat
  i_links :: nat
  i_blocks :: nat
  i_flags :: nat
  i_osd1 :: nat
  i_block :: "nat list"
  i_generation :: nat
  i_file_acl :: nat
  i_size_high :: nat

definition EXT2_NDIR_BLOCKS :: nat where "EXT2_NDIR_BLOCKS = 12"
definition EXT2_IND_BLOCK :: nat where "EXT2_IND_BLOCK = 12"
definition EXT2_DIND_BLOCK :: nat where "EXT2_DIND_BLOCK = 13"
definition EXT2_TIND_BLOCK :: nat where "EXT2_TIND_BLOCK = 14"
definition EXT2_NAME_LEN :: nat where "EXT2_NAME_LEN = 255"
definition EXT2_FT_REG :: nat where "EXT2_FT_REG = 1"
definition EXT2_FT_DIR :: nat where "EXT2_FT_DIR = 2"
definition EXT2_ROOT_INO :: nat where "EXT2_ROOT_INO = 2"
definition EXT2_RETIRED_TIME :: nat where "EXT2_RETIRED_TIME = 4294967295"
definition EXT2_INODE_CACHE_SLOTS :: nat where "EXT2_INODE_CACHE_SLOTS = 8"

text \<open>\<open>mode & EXT2_S_IFMT\<close>, which is compared with \<open>EXT2_S_IFDIR\<close> and \<open>EXT2_S_IFREG\<close>.\<close>

definition EXT2_S_IFDIR :: nat where "EXT2_S_IFDIR = 16384"
definition EXT2_S_IFREG :: nat where "EXT2_S_IFREG = 32768"

definition i_fmt :: "ihdr \<Rightarrow> nat" where
  "i_fmt h = i_mode h div 4096 mod 16 * 4096"

definition ihdr_fields :: "nat list" where
  "ihdr_fields = [2, 2, 4, 4, 4, 4, 4, 2, 2, 4, 4, 4] @ replicate 15 4 @ [4, 4, 4]"

definition ihdr_vals :: "ihdr \<Rightarrow> nat list" where
  "ihdr_vals h = [i_mode h, i_uid h, i_size h, i_atime h, i_ctime h, i_mtime h, i_dtime h, i_gid h,
     i_links h, i_blocks h, i_flags h, i_osd1 h] @ i_block h @ [i_generation h, i_file_acl h, i_size_high h]"

definition ihdr_bytes :: "ihdr \<Rightarrow> u8 list" where
  "ihdr_bytes h = pack ihdr_fields (ihdr_vals h)"

definition ihdr_of :: "nat list \<Rightarrow> ihdr" where
  "ihdr_of vs = \<lparr>i_mode = vs ! 0, i_uid = vs ! 1, i_size = vs ! 2, i_atime = vs ! 3, i_ctime = vs ! 4,
     i_mtime = vs ! 5, i_dtime = vs ! 6, i_gid = vs ! 7, i_links = vs ! 8, i_blocks = vs ! 9,
     i_flags = vs ! 10, i_osd1 = vs ! 11, i_block = take 15 (drop 12 vs),
     i_generation = vs ! 27, i_file_acl = vs ! 28, i_size_high = vs ! 29\<rparr>"

definition bytes_ihdr :: "u8 list \<Rightarrow> ihdr" where
  "bytes_ihdr bs = ihdr_of (unpack ihdr_fields bs)"

definition ihdr_zero :: ihdr where
  "ihdr_zero = ihdr_of (replicate 30 0)"

abbreviation ihdr_len :: nat where "ihdr_len \<equiv> 112"

text \<open>The fields of an inode header are within their C types.\<close>

definition ihdr_ok :: "ihdr \<Rightarrow> bool" where
  "ihdr_ok h \<longleftrightarrow> fits ihdr_fields (ihdr_vals h) \<and> length (i_block h) = 15"

lemma sum_ihdr_fields: "sum_list ihdr_fields = ihdr_len"
  by (simp add: ihdr_fields_def sum_list_replicate)

lemma length_ihdr_fields: "length ihdr_fields = 30"
  by (simp add: ihdr_fields_def)

lemma length_ihdr_bytes: "length (i_block h) = 15 \<Longrightarrow> length (ihdr_bytes h) = ihdr_len"
  unfolding ihdr_bytes_def
  by (subst length_pack) (simp_all add: ihdr_vals_def sum_ihdr_fields length_ihdr_fields)

lemma length15: "length xs = 15 \<Longrightarrow> \<exists>a b c d e f g h i j k l m n p. xs = [a, b, c, d, e, f, g, h, i, j, k, l, m, n, p]"
  by (auto simp: length_Suc_conv numeral_eq_Suc)

lemma ihdr_of_vals: "length (i_block h) = 15 \<Longrightarrow> ihdr_of (ihdr_vals h) = h"
  by (cases h) (auto simp: ihdr_of_def ihdr_vals_def dest!: length15)

lemma length30: "length vs = 30 \<Longrightarrow> take 12 vs @ take 15 (drop 12 vs) @ [vs ! 27, vs ! 28, vs ! 29] = vs"
proof -
  assume l: "length vs = 30"
  have "drop 27 vs = [vs ! 27, vs ! 28, vs ! 29]"
    by (rule nth_equalityI) (use l in \<open>auto simp: nth_Cons split: nat.splits\<close>)
  then have "take 15 (drop 12 vs) @ [vs ! 27, vs ! 28, vs ! 29] = drop 12 vs"
    using append_take_drop_id [of 15 "drop 12 vs"] by simp
  then show ?thesis by (metis append_take_drop_id)
qed

lemma ihdr_vals_of: "length vs = 30 \<Longrightarrow> ihdr_vals (ihdr_of vs) = vs"
proof -
  assume l: "length vs = 30"
  have "take 12 vs = [vs ! 0, vs ! 1, vs ! 2, vs ! 3, vs ! 4, vs ! 5, vs ! 6, vs ! 7, vs ! 8, vs ! 9, vs ! 10, vs ! 11]"
    by (rule nth_equalityI) (use l in \<open>auto simp: nth_Cons numeral_eq_Suc less_Suc_eq split: nat.splits\<close>)
  with length30 [OF l] show ?thesis by (simp add: ihdr_vals_def ihdr_of_def)
qed

lemma length_i_block_of: "length vs = 30 \<Longrightarrow> length (i_block (ihdr_of vs)) = 15"
  by (simp add: ihdr_of_def)

lemma bytes_ihdr_bytes:
  assumes "ihdr_ok h"
  shows "bytes_ihdr (ihdr_bytes h) = h"
proof -
  have "unpack ihdr_fields (pack ihdr_fields (ihdr_vals h) @ []) = ihdr_vals h"
    using assms unfolding ihdr_ok_def by (intro unpack_pack) simp
  then show ?thesis using assms by (simp add: bytes_ihdr_def ihdr_bytes_def ihdr_ok_def ihdr_of_vals)
qed

lemma ihdr_bytes_ihdr: "length bs = ihdr_len \<Longrightarrow> ihdr_bytes (bytes_ihdr bs) = bs"
  by (simp add: ihdr_bytes_def bytes_ihdr_def ihdr_vals_of length_ihdr_fields pack_unpack sum_ihdr_fields)

lemma bytes_ihdr_ok: "length bs = ihdr_len \<Longrightarrow> ihdr_ok (bytes_ihdr bs)"
  by (simp add: ihdr_ok_def bytes_ihdr_def ihdr_vals_of length_ihdr_fields unpack_fits
      sum_ihdr_fields length_i_block_of)

section \<open>Group descriptors\<close>

record gdesc =
  bg_block_bitmap :: nat
  bg_inode_bitmap :: nat
  bg_inode_table :: nat
  bg_free_blocks :: nat
  bg_free_inodes :: nat
  bg_used_dirs :: nat
  bg_pad :: nat
  bg_reserved :: "u8 list"

definition gdesc_fields :: "nat list" where "gdesc_fields = [4, 4, 4, 2, 2, 2, 2]"

abbreviation gdesc_len :: nat where "gdesc_len \<equiv> 32"

definition gdesc_bytes :: "gdesc \<Rightarrow> u8 list" where
  "gdesc_bytes g = pack gdesc_fields [bg_block_bitmap g, bg_inode_bitmap g, bg_inode_table g,
     bg_free_blocks g, bg_free_inodes g, bg_used_dirs g, bg_pad g] @ bg_reserved g"

definition bytes_gdesc :: "u8 list \<Rightarrow> gdesc" where
  "bytes_gdesc bs = (let vs = unpack gdesc_fields bs in
     \<lparr>bg_block_bitmap = vs ! 0, bg_inode_bitmap = vs ! 1, bg_inode_table = vs ! 2,
      bg_free_blocks = vs ! 3, bg_free_inodes = vs ! 4, bg_used_dirs = vs ! 5, bg_pad = vs ! 6,
      bg_reserved = drop 20 bs\<rparr>)"

text \<open>An array of descriptors in \<open>n\<close> bytes-long entries, as the table is kept in memory.\<close>

primrec bytes_gdt :: "nat \<Rightarrow> u8 list \<Rightarrow> gdesc list" where
  "bytes_gdt 0 bs = []"
| "bytes_gdt (Suc n) bs = bytes_gdesc (take gdesc_len bs) # bytes_gdt n (drop gdesc_len bs)"

lemma length_bytes_gdt [simp]: "length (bytes_gdt n bs) = n"
  by (induction n arbitrary: bs) simp_all

section \<open>The superblock\<close>

text \<open>
  The numeric fields up to the feature masks; the bytes from \<open>uuid\<close> on are carried along
  unread.
\<close>

record superblock =
  s_inodes_count :: nat
  s_blocks_count :: nat
  s_root_blocks_count :: nat
  s_free_blocks_count :: nat
  s_free_inodes_count :: nat
  s_first_data_block :: nat
  s_log_block_size :: nat
  s_log_frag_size :: nat
  s_blocks_per_group :: nat
  s_frags_per_group :: nat
  s_inodes_per_group :: nat
  s_mtime :: nat
  s_wtime :: nat
  s_mnt_count :: nat
  s_max_mnt_count :: nat
  s_magic :: nat
  s_state :: nat
  s_errors :: nat
  s_minor_rev_level :: nat
  s_lastcheck :: nat
  s_checkinterval :: nat
  s_creator_os :: nat
  s_rev_level :: nat
  s_def_resuid :: nat
  s_def_resgid :: nat
  s_first_inode :: nat
  s_inode_size :: nat
  s_block_group_nr :: nat
  s_feature_compat :: nat
  s_feature_incompat :: nat
  s_feature_ro_compat :: nat
  s_tail :: "u8 list"

definition sb_fields :: "nat list" where
  "sb_fields = replicate 13 4 @ replicate 6 2 @ replicate 4 4 @ [2, 2, 4, 2, 2, 4, 4, 4]"

abbreviation sb_len :: nat where "sb_len \<equiv> 1024"

definition sb_vals :: "superblock \<Rightarrow> nat list" where
  "sb_vals s = [s_inodes_count s, s_blocks_count s, s_root_blocks_count s, s_free_blocks_count s,
     s_free_inodes_count s, s_first_data_block s, s_log_block_size s, s_log_frag_size s,
     s_blocks_per_group s, s_frags_per_group s, s_inodes_per_group s, s_mtime s, s_wtime s,
     s_mnt_count s, s_max_mnt_count s, s_magic s, s_state s, s_errors s, s_minor_rev_level s,
     s_lastcheck s, s_checkinterval s, s_creator_os s, s_rev_level s, s_def_resuid s, s_def_resgid s,
     s_first_inode s, s_inode_size s, s_block_group_nr s, s_feature_compat s, s_feature_incompat s,
     s_feature_ro_compat s]"

definition sb_bytes :: "superblock \<Rightarrow> u8 list" where
  "sb_bytes s = pack sb_fields (sb_vals s) @ s_tail s"

definition bytes_sb :: "u8 list \<Rightarrow> superblock" where
  "bytes_sb bs = (let vs = unpack sb_fields bs in
     \<lparr>s_inodes_count = vs ! 0, s_blocks_count = vs ! 1, s_root_blocks_count = vs ! 2,
      s_free_blocks_count = vs ! 3, s_free_inodes_count = vs ! 4, s_first_data_block = vs ! 5,
      s_log_block_size = vs ! 6, s_log_frag_size = vs ! 7, s_blocks_per_group = vs ! 8,
      s_frags_per_group = vs ! 9, s_inodes_per_group = vs ! 10, s_mtime = vs ! 11, s_wtime = vs ! 12,
      s_mnt_count = vs ! 13, s_max_mnt_count = vs ! 14, s_magic = vs ! 15, s_state = vs ! 16,
      s_errors = vs ! 17, s_minor_rev_level = vs ! 18, s_lastcheck = vs ! 19,
      s_checkinterval = vs ! 20, s_creator_os = vs ! 21, s_rev_level = vs ! 22, s_def_resuid = vs ! 23,
      s_def_resgid = vs ! 24, s_first_inode = vs ! 25, s_inode_size = vs ! 26,
      s_block_group_nr = vs ! 27, s_feature_compat = vs ! 28, s_feature_incompat = vs ! 29,
      s_feature_ro_compat = vs ! 30, s_tail = drop 104 bs\<rparr>)"

lemma sb_fields_sum: "sum_list sb_fields = 104" "length sb_fields = 31"
  by (simp_all add: sb_fields_def sum_list_replicate)

lemma sb_fields_nth:
  "i < 13 \<Longrightarrow> sb_fields ! i = 4" "sb_fields ! 25 = 4" "sb_fields ! 26 = 2"
  by (simp_all add: sb_fields_def nth_append)

lemma sb_nums_fit:
  assumes "length bs = sb_len"
  shows "s_blocks_count (bytes_sb bs) < 4294967296" "s_inodes_count (bytes_sb bs) < 4294967296"
    "s_blocks_per_group (bytes_sb bs) < 4294967296" "s_inodes_per_group (bytes_sb bs) < 4294967296"
    "s_first_data_block (bytes_sb bs) < 4294967296" "s_first_inode (bytes_sb bs) < 4294967296"
    "s_inode_size (bytes_sb bs) < 65536"
proof -
  have f: "fits sb_fields (unpack sb_fields bs)" by (rule unpack_fits) (simp add: sb_fields_sum assms)
  have g: "unpack sb_fields bs ! i < 256 ^ (sb_fields ! i)" if "i < 31" for i
    using list_all2_nthD [OF f, of i] that by (simp add: sb_fields_sum)
  show "s_blocks_count (bytes_sb bs) < 4294967296" "s_inodes_count (bytes_sb bs) < 4294967296"
    "s_blocks_per_group (bytes_sb bs) < 4294967296" "s_inodes_per_group (bytes_sb bs) < 4294967296"
    "s_first_data_block (bytes_sb bs) < 4294967296" "s_first_inode (bytes_sb bs) < 4294967296"
    "s_inode_size (bytes_sb bs) < 65536"
    using g [of 1] g [of 0] g [of 8] g [of 10] g [of 5] g [of 25] g [of 26]
    by (simp_all add: bytes_sb_def Let_def sb_fields_nth)
qed

end
