(* ===== verification/Ext2_Base.thy ===== *)
theory Ext2_Base
  imports Ext2_Layout
begin

text \<open>
  The state of a mounted ext2 file system (\<open>ext2_t\<close>, \<open>kernel/include/kernel/fs/ext2.h\<close>) and its
  block transfers (\<open>kernel/kernel/fs/ext2/helpers.c\<close>).  Operations pass the state explicitly and
  return \<open>None\<close> for an access outside a buffer.  \<open>answers\<close> are the outcomes of the allocations
  to come: every \<open>kmalloc\<close> and every transfer (which may need a scratch buffer) takes the next
  one, and an exhausted list means that memory has run out.

  The locale \<open>failstop_device\<close> is what the file system relies on: a transfer that succeeds is
  exact, one that fails changes nothing.  The RAM device, whose transfers never fail inside the
  device, is an instance.
\<close>

section \<open>The state\<close>

record bitmap_cache =
  bc_buf :: "u8 list"
  bc_cached :: nat
  bc_dirty :: bool

record icache_slot =
  ic_num :: nat
  ic_hdr :: ihdr

record 'd ext2 =
  e_dev :: "'d block_dev"
  e_sb :: superblock
  bsize :: nat
  first_data_block :: nat
  group_count :: nat
  inode_size :: nat
  first_inode :: nat
  inodes_per_block :: nat
  addrs_per_block :: nat
  gdt_blocks :: nat
  gdt :: "gdesc list"
  e_incompat :: nat
  e_ro_compat :: nat
  has_filetype :: bool
  large_files :: bool
  read_only :: bool
  sb_dirty :: bool
  gdt_dirty :: bool
  dir_buf :: "u8 list"
  cached_dir_inode :: nat
  cached_dir_block :: nat
  cached_dir_size :: nat
  cached_dir_blocks :: "nat list"
  inode_cache :: "icache_slot list"
  inode_cache_next :: nat
  cached_indirect_block :: nat
  cached_indirect_buf :: "u8 list"
  block_bitmap :: bitmap_cache
  inode_bitmap :: bitmap_cache
  block_alloc_hint :: nat
  inode_alloc_hint :: nat
  inode_list :: "nat list"
  pending_free :: "nat list"
  pending_free_cap :: nat
  answers :: "bool list"

abbreviation blocks_count :: "'d ext2 \<Rightarrow> nat" where "blocks_count fs \<equiv> s_blocks_count (e_sb fs)"
abbreviation inodes_count :: "'d ext2 \<Rightarrow> nat" where "inodes_count fs \<equiv> s_inodes_count (e_sb fs)"
abbreviation bpg :: "'d ext2 \<Rightarrow> nat" where "bpg fs \<equiv> s_blocks_per_group (e_sb fs)"
abbreviation ipg :: "'d ext2 \<Rightarrow> nat" where "ipg fs \<equiv> s_inodes_per_group (e_sb fs)"

definition kmalloc_ok :: "'d ext2 \<Rightarrow> bool \<times> 'd ext2" where
  "kmalloc_ok fs = (case answers fs of [] \<Rightarrow> (False, fs) | a # as \<Rightarrow> (a, fs\<lparr>answers := as\<rparr>))"

section \<open>Transfers\<close>

text \<open>The bytes a transfer stored, put into the buffer it was given.\<close>

definition fill_buf :: "u8 list \<Rightarrow> u8 list \<Rightarrow> u8 list option" where
  "fill_buf buf ys = (if length ys \<le> length buf then Some (patch 0 ys buf) else None)"

definition dev_read :: "'d ext2 \<Rightarrow> nat \<Rightarrow> u8 list \<Rightarrow> (int \<times> u8 list \<times> 'd ext2) option" where
  "dev_read fs offset buf = (case kmalloc_ok fs of (a, fs) \<Rightarrow> do {
     (rc, ys) \<leftarrow> block_read_bytes a (e_dev fs) offset (length buf);
     buf \<leftarrow> fill_buf buf ys;
     Some (rc, buf, fs) })"

definition dev_write :: "'d ext2 \<Rightarrow> nat \<Rightarrow> u8 list \<Rightarrow> (int \<times> 'd ext2) option" where
  "dev_write fs offset buf = (case kmalloc_ok fs of (a, fs) \<Rightarrow> do {
     (rc, dev) \<leftarrow> block_write_bytes a (e_dev fs) offset buf;
     Some (rc, fs\<lparr>e_dev := dev\<rparr>) })"

definition div_ceil_u32 :: "nat \<Rightarrow> nat \<Rightarrow> nat" where
  "div_ceil_u32 x y = wrap32 ((x + y - 1) div y)"

definition ext2_sectors_per_block :: "'d ext2 \<Rightarrow> nat" where
  "ext2_sectors_per_block fs = bsize fs div 512"

definition UINT64_MAX :: nat where "UINT64_MAX = 18446744073709551615"

definition ext2_read_block :: "'d ext2 \<Rightarrow> nat \<Rightarrow> u8 list \<Rightarrow> (int \<times> u8 list \<times> 'd ext2) option" where
  "ext2_read_block fs block buf =
    (let offset = block * bsize fs in
     if offset > UINT64_MAX - bsize fs then Some (BLOCK_ERR_INVAL, buf, fs)
     else if block \<ge> blocks_count fs then Some (BLOCK_ERR_INVAL, buf, fs)
     else dev_read fs offset buf)"

definition ext2_write_block :: "'d ext2 \<Rightarrow> nat \<Rightarrow> u8 list \<Rightarrow> (int \<times> 'd ext2) option" where
  "ext2_write_block fs block buf =
    (let offset = block * bsize fs in
     if offset > UINT64_MAX - bsize fs then Some (BLOCK_ERR_INVAL, fs)
     else if block \<ge> blocks_count fs then Some (BLOCK_ERR_INVAL, fs)
     else dev_write fs offset buf)"

definition ext2_zero_block :: "'d ext2 \<Rightarrow> nat \<Rightarrow> (int \<times> 'd ext2) option" where
  "ext2_zero_block fs block = (case kmalloc_ok fs of (a, fs) \<Rightarrow>
     if \<not> a then Some (-1, fs)
     else do {
       (rc, fs) \<leftarrow> ext2_write_block fs block (replicate (bsize fs) 0);
       Some (if rc = BLOCK_OK then 0 else -1, fs) })"

section \<open>The contract of the device\<close>

locale failstop_device =
  fixes rd :: "'d \<Rightarrow> nat \<Rightarrow> nat \<Rightarrow> int \<times> u8 list"
    and wr :: "'d \<Rightarrow> nat \<Rightarrow> u8 list \<Rightarrow> nat \<Rightarrow> int \<times> 'd"
    and content :: "'d \<Rightarrow> u8 list"
    and good :: "nat \<Rightarrow> nat \<Rightarrow> 'd \<Rightarrow> bool"
  assumes fs_length: "good bs cnt d \<Longrightarrow> length (content d) = cnt * bs"
    and fs_bound: "good bs cnt d \<Longrightarrow> 0 < bs \<and> cnt * bs < 4294967296"
    and fs_rd: "good bs cnt d \<Longrightarrow> blk + n \<le> cnt \<Longrightarrow> \<exists>e ys. rd d blk n = (e, ys)
      \<and> length ys \<le> n * bs \<and> (e = 0 \<longrightarrow> ys = chunk (blk * bs) (n * bs) (content d))"
    and fs_wr: "good bs cnt d \<Longrightarrow> blk + n \<le> cnt \<Longrightarrow> length xs = n * bs \<Longrightarrow> \<exists>e d'. wr d blk xs n = (e, d')
      \<and> good bs cnt d' \<and> content d' = (if e = 0 then patch (blk * bs) xs (content d) else content d)"
begin

lemma xfer_read:
  assumes g: "good (block_size dev) (block_count dev) (impl dev)" and ops: "op_read dev = rd"
    and r: "off + len \<le> length (content (impl dev))"
  shows "\<exists>rc ys. block_read_bytes a dev off len = Some (rc, ys) \<and> length ys \<le> len
    \<and> (rc = 0 \<longrightarrow> ys = chunk off len (content (impl dev)))"
proof (cases "len = 0")
  case False
  note sb = fs_bound [OF g] and cl = fs_length [OF g]
  have len: "0 < len" and r2: "off + len \<le> block_count dev * block_size dev" using False r cl by simp_all
  note bw = block_window [OF conjunct1 [OF sb] conjunct2 [OF sb] len r2]
  show ?thesis
  proof (cases "off mod block_size dev = 0 \<and> len mod block_size dev = 0")
    case True
    note al = bw(8) [OF conjunct1 [OF True] conjunct2 [OF True]]
    from fs_rd [OF g conjunct1 [OF al]] obtain e ys where e:
      "rd (impl dev) (off div block_size dev) (len div block_size dev) = (e, ys)" "length ys \<le> len"
      "e = 0 \<longrightarrow> ys = chunk off len (content (impl dev))"
      using al by auto
    then show ?thesis
      using True False bw(1) al ops by (simp add: block_read_bytes_def Let_def BLOCK_OK_def)
  next
    case un: False
    define s where "s = off div block_size dev"
    define n where "n = wrap32 (wrap64 (off + len - 1) div block_size dev + 1 - s)"
    define k where "k = wrap32 (off - s * block_size dev)"
    note bw2 = bw [folded s_def, folded n_def k_def]
    from fs_rd [OF g bw2(2)] obtain e sc where rdd: "rd (impl dev) s n = (e, sc)"
      "length sc \<le> n * block_size dev"
      "e = 0 \<longrightarrow> sc = chunk (s * block_size dev) (n * block_size dev) (content (impl dev))" by blast
    show ?thesis
    proof (cases "a \<and> e = 0")
      case True
      then have sc: "sc = chunk (s * block_size dev) (n * block_size dev) (content (impl dev))"
        using rdd(3) by simp
      have ls: "length sc = n * block_size dev" unfolding sc
        by (rule length_chunk) (use bw2(6) cl in simp)
      have "chunk k len sc = chunk off len (content (impl dev))"
        unfolding sc chunk_chunk [OF bw2(5)] bw2(7) by (rule refl)
      moreover have "length (chunk k len sc) \<le> len" by (simp add: chunk_def)
      ultimately show ?thesis unfolding block_read_bytes_def Let_def s_def [symmetric] n_def [symmetric]
          k_def [symmetric] ops rdd(1) if_not_P [OF un]
        using True False bw2(1,4,5) ls by (simp add: BLOCK_OK_def)
    next
      case no: False
      then show ?thesis unfolding block_read_bytes_def Let_def s_def [symmetric] n_def [symmetric]
          k_def [symmetric] ops rdd(1) if_not_P [OF un]
        using False bw2(1) by (auto simp: BLOCK_OK_def BLOCK_ERR_IO_def)
    qed
  qed
qed (simp add: block_read_bytes_def chunk_def)

lemma xfer_write:
  assumes g: "good (block_size dev) (block_count dev) (impl dev)" and ops: "op_read dev = rd"
    "op_write dev = Some wr" and r: "off + length xs \<le> length (content (impl dev))"
  shows "\<exists>rc d'. block_write_bytes a dev off xs = Some (rc, dev\<lparr>impl := d'\<rparr>)
    \<and> good (block_size dev) (block_count dev) d'
    \<and> content d' = (if rc = 0 then patch off xs (content (impl dev)) else content (impl dev))"
proof (cases "length xs = 0")
  case True
  then show ?thesis
    using g by (auto simp: block_write_bytes_def patch_def Let_def intro!: exI [of _ "impl dev"])
next
  case False
  note sb = fs_bound [OF g] and cl = fs_length [OF g]
  have len: "0 < length xs" and r2: "off + length xs \<le> block_count dev * block_size dev"
    using False r cl by simp_all
  note bw = block_window [OF conjunct1 [OF sb] conjunct2 [OF sb] len r2]
  have same: "dev = dev\<lparr>impl := impl dev\<rparr>" by simp
  show ?thesis
  proof (cases "off mod block_size dev = 0 \<and> length xs mod block_size dev = 0")
    case True
    note al = bw(8) [OF conjunct1 [OF True] conjunct2 [OF True]]
    from fs_wr [OF g conjunct1 [OF al] conjunct2 [OF conjunct2 [OF al], symmetric]]
    obtain e d' where "wr (impl dev) (off div block_size dev) xs (length xs div block_size dev) = (e, d')"
      "good (block_size dev) (block_count dev) d'"
      "content d' = (if e = 0 then patch off xs (content (impl dev)) else content (impl dev))"
      unfolding conjunct1 [OF conjunct2 [OF al]] by blast
    then show ?thesis using True False bw(1) ops
      by (auto simp: block_write_bytes_def Let_def BLOCK_OK_def)
  next
    case un: False
    define s where "s = off div block_size dev"
    define n where "n = wrap32 (wrap64 (off + length xs - 1) div block_size dev + 1 - s)"
    define k where "k = wrap32 (off - s * block_size dev)"
    note bw2 = bw [folded s_def, folded n_def k_def]
    have lw: "s * block_size dev + n * block_size dev \<le> length (content (impl dev))"
      using bw2(6) cl by simp
    from fs_rd [OF g bw2(2)] obtain e sc where rdd: "rd (impl dev) s n = (e, sc)"
      "length sc \<le> n * block_size dev"
      "e = 0 \<longrightarrow> sc = chunk (s * block_size dev) (n * block_size dev) (content (impl dev))" by blast
    show ?thesis
    proof (cases "a \<and> e = 0")
      case True
      then have sc: "sc = chunk (s * block_size dev) (n * block_size dev) (content (impl dev))"
        using rdd(3) by simp
      have ls: "length sc = n * block_size dev" unfolding sc by (rule length_chunk [OF lw])
      have "length (patch k xs sc) = n * block_size dev"
        using length_patch [of k xs sc] bw2(5) ls by simp
      from fs_wr [OF g bw2(2) this]
      obtain e2 d' where d: "wr (impl dev) s (patch k xs sc) n = (e2, d')"
        "good (block_size dev) (block_count dev) d'"
        "content d' = (if e2 = 0 then patch (s * block_size dev) (patch k xs sc) (content (impl dev))
          else content (impl dev))" by blast
      have "content d' = (if e2 = 0 then patch off xs (content (impl dev)) else content (impl dev))"
        using d(3) patch_window [OF bw2(5) lw] bw2(7) unfolding sc by simp
      moreover have "block_write_bytes a dev off xs = Some (e2, dev\<lparr>impl := d'\<rparr>)"
        unfolding block_write_bytes_def Let_def s_def [symmetric] n_def [symmetric] k_def [symmetric]
          ops rdd(1) option.case if_not_P [OF un]
        using True False bw2(1,4,5) ls d(1) by (simp add: BLOCK_OK_def)
      ultimately show ?thesis using d(2) by blast
    next
      case no: False
      then show ?thesis unfolding block_write_bytes_def Let_def s_def [symmetric] n_def [symmetric]
          k_def [symmetric] ops rdd(1) option.case if_not_P [OF un]
        using False bw2(1) g by (auto simp: BLOCK_OK_def BLOCK_ERR_IO_def intro!: exI [of _ "impl dev"])
    qed
  qed
qed

end

text \<open>A device whose transfers never fail is one that fails without effect.\<close>

sublocale block_device \<subseteq> fail: failstop_device rd wr content good
proof unfold_locales
  fix bs cnt d blk n and xs :: "u8 list"
  assume g: "good bs cnt d"
  show "length (content d) = cnt * bs" by (rule content_length [OF g])
  show "0 < bs \<and> cnt * bs < 4294967296" by (rule size_bound [OF g])
  assume r: "blk + n \<le> cnt"
  have "blk * bs + n * bs \<le> length (content d)"
    using good_blocks(2) [OF _ _ r] size_bound [OF g] content_length [OF g] by simp
  then show "\<exists>e ys. rd d blk n = (e, ys) \<and> length ys \<le> n * bs
      \<and> (e = 0 \<longrightarrow> ys = chunk (blk * bs) (n * bs) (content d))"
    using rd_ok [OF g r] length_chunk [of "blk * bs" "n * bs" "content d"] by simp
  assume "length xs = n * bs"
  from wr_ok [OF g r this] show "\<exists>e d'. wr d blk xs n = (e, d') \<and> good bs cnt d'
      \<and> content d' = (if e = 0 then patch (blk * bs) xs (content d) else content d)" by auto
qed

section \<open>The volume as an array of blocks\<close>

text \<open>
  \<open>blk content fs b\<close> are the bytes of block \<open>b\<close> of the volume.  \<open>on_device\<close> says that the file
  system sits on a device with the given operations and that its blocks are inside it;
  \<open>same_but_dev\<close> that a state differs from another in its device and in the allocations left.
\<close>

definition blk :: "('d \<Rightarrow> u8 list) \<Rightarrow> 'd ext2 \<Rightarrow> nat \<Rightarrow> u8 list" where
  "blk content fs b = chunk (b * bsize fs) (bsize fs) (content (impl (e_dev fs)))"

definition on_device ::
  "('d \<Rightarrow> nat \<Rightarrow> nat \<Rightarrow> int \<times> u8 list) \<Rightarrow> ('d \<Rightarrow> nat \<Rightarrow> u8 list \<Rightarrow> nat \<Rightarrow> int \<times> 'd) \<Rightarrow>
   (nat \<Rightarrow> nat \<Rightarrow> 'd \<Rightarrow> bool) \<Rightarrow> 'd ext2 \<Rightarrow> bool" where
  "on_device rd wr good fs \<longleftrightarrow> op_read (e_dev fs) = rd \<and> op_write (e_dev fs) = Some wr
     \<and> good (block_size (e_dev fs)) (block_count (e_dev fs)) (impl (e_dev fs))
     \<and> blocks_count fs * bsize fs \<le> block_count (e_dev fs) * block_size (e_dev fs)
     \<and> 0 < bsize fs \<and> blocks_count fs < 4294967296"

definition same_but_dev :: "'d ext2 \<Rightarrow> 'd ext2 \<Rightarrow> bool" where
  "same_but_dev fs fs' \<longleftrightarrow> fs' = fs\<lparr>e_dev := e_dev fs', answers := answers fs'\<rparr>"

lemma same_but_dev_refl [intro, simp]: "same_but_dev fs fs"
  by (simp add: same_but_dev_def)

lemma same_but_dev_trans: "same_but_dev a b \<Longrightarrow> same_but_dev b c \<Longrightarrow> same_but_dev a c"
  by (cases a; cases b; cases c) (simp add: same_but_dev_def)

lemma same_but_devD:
  assumes "same_but_dev fs fs'"
  shows "e_sb fs' = e_sb fs" "bsize fs' = bsize fs" "first_data_block fs' = first_data_block fs"
    "group_count fs' = group_count fs" "inode_size fs' = inode_size fs"
    "first_inode fs' = first_inode fs" "inodes_per_block fs' = inodes_per_block fs"
    "addrs_per_block fs' = addrs_per_block fs" "gdt_blocks fs' = gdt_blocks fs" "gdt fs' = gdt fs"
    "has_filetype fs' = has_filetype fs" "large_files fs' = large_files fs"
    "read_only fs' = read_only fs" "block_bitmap fs' = block_bitmap fs"
    "inode_bitmap fs' = inode_bitmap fs" "inode_cache fs' = inode_cache fs"
    "cached_indirect_block fs' = cached_indirect_block fs"
    "cached_indirect_buf fs' = cached_indirect_buf fs" "pending_free fs' = pending_free fs"
    "pending_free_cap fs' = pending_free_cap fs"
    "block_alloc_hint fs' = block_alloc_hint fs" "inode_alloc_hint fs' = inode_alloc_hint fs"
  using assms by (cases fs; cases fs'; simp add: same_but_dev_def)+

lemma kmalloc_ok_same: "kmalloc_ok fs = (a, fs') \<Longrightarrow> same_but_dev fs fs' \<and> e_dev fs' = e_dev fs"
  by (auto simp: kmalloc_ok_def same_but_dev_def split: list.splits)

lemma length_fill_buf: "fill_buf buf ys = Some b \<Longrightarrow> length b = length buf"
  by (auto simp: fill_buf_def length_patch split: if_splits)

lemma fill_buf_exact: "length ys = length buf \<Longrightarrow> fill_buf buf ys = Some ys"
  by (simp add: fill_buf_def patch_def)

lemma chunk_patch_apart:
  assumes "a + n \<le> length xs" "off + length ys \<le> length xs" "a + n \<le> off \<or> off + length ys \<le> a"
  shows "chunk a n (patch off ys xs) = chunk a n xs"
proof (rule nth_equalityI)
  have l: "length (patch off ys xs) = length xs" by (rule length_patch [OF assms(2)])
  then show "length (chunk a n (patch off ys xs)) = length (chunk a n xs)" by (simp add: chunk_def)
  fix i assume "i < length (chunk a n (patch off ys xs))"
  then have i: "i < n" by (simp add: chunk_def)
  then show "chunk a n (patch off ys xs) ! i = chunk a n xs ! i"
    using assms l nth_patch [OF assms(2), of "a + i"] by (auto simp: nth_chunk)
qed

lemma blocks_apart: "c \<noteq> b \<Longrightarrow> c * n + n \<le> b * n \<or> b * n + n \<le> c * (n :: nat)"
  by (metis add.commute linorder_neqE_nat mult_Suc mult_le_mono1 Suc_leI)

context failstop_device
begin

abbreviation at :: "'d ext2 \<Rightarrow> bool" where "at \<equiv> on_device rd wr good"
abbreviation bytes :: "'d ext2 \<Rightarrow> u8 list" where "bytes fs \<equiv> content (impl (e_dev fs))"

lemma on_device_length: "at fs \<Longrightarrow> blocks_count fs * bsize fs \<le> length (bytes fs)"
  using fs_length by (auto simp: on_device_def)

lemma block_inside:
  assumes "at fs" "b < blocks_count fs"
  shows "b * bsize fs + bsize fs \<le> length (bytes fs)"
    "b * bsize fs + bsize fs < 4294967296" "\<not> UINT64_MAX - bsize fs < b * bsize fs"
proof -
  have "Suc b * bsize fs \<le> blocks_count fs * bsize fs" using assms(2) by (intro mult_le_mono1) simp
  then show l: "b * bsize fs + bsize fs \<le> length (bytes fs)" using on_device_length [OF assms(1)] by simp
  have "length (bytes fs) < 4294967296"
    using assms(1) fs_length fs_bound by (metis on_device_def)
  with l show lt: "b * bsize fs + bsize fs < 4294967296" by simp
  show "\<not> UINT64_MAX - bsize fs < b * bsize fs" unfolding UINT64_MAX_def using lt by linarith
qed

lemma length_blk: "at fs \<Longrightarrow> b < blocks_count fs \<Longrightarrow> length (blk content fs b) = bsize fs"
  unfolding blk_def by (rule length_chunk) (rule block_inside)

lemma at_same:
  assumes "at fs" "same_but_dev fs fs'" "e_dev fs' = (e_dev fs)\<lparr>impl := d\<rparr>"
    "good (block_size (e_dev fs)) (block_count (e_dev fs)) d"
  shows "at fs'"
  using assms(1,3,4) same_but_devD [OF assms(2)] by (simp add: on_device_def)

lemma at_alloc: "at fs \<Longrightarrow> kmalloc_ok fs = (a, fs') \<Longrightarrow> at fs'"
  using kmalloc_ok_same [of fs a fs'] same_but_devD(1,2) [of fs fs'] by (auto simp: on_device_def)

lemma dev_read_ok:
  assumes "at fs" "off + length buf \<le> length (bytes fs)"
  shows "\<exists>rc buf' fs'. dev_read fs off buf = Some (rc, buf', fs') \<and> same_but_dev fs fs'
    \<and> e_dev fs' = e_dev fs \<and> at fs' \<and> length buf' = length buf
    \<and> (rc = BLOCK_OK \<longrightarrow> buf' = chunk off (length buf) (bytes fs))"
proof -
  obtain a f where k: "kmalloc_ok fs = (a, f)" by fastforce
  note ks = kmalloc_ok_same [OF k] and af = at_alloc [OF assms(1) k]
  from xfer_read [of "e_dev f" off "length buf" a] obtain rc ys where r:
    "block_read_bytes a (e_dev f) off (length buf) = Some (rc, ys)" "length ys \<le> length buf"
    "rc = 0 \<longrightarrow> ys = chunk off (length buf) (bytes fs)"
    using assms(2) af ks by (auto simp: on_device_def)
  then have f: "fill_buf buf ys = Some (patch 0 ys buf)" by (simp add: fill_buf_def)
  have "patch 0 ys buf = chunk off (length buf) (bytes fs)" if "rc = 0"
  proof -
    have "length ys = length buf" using r(3) that length_chunk [OF assms(2)] by simp
    then show ?thesis using r(3) that by (simp add: patch_def)
  qed
  moreover have "length (patch 0 ys buf) = length buf" by (rule length_patch) (use r(2) in simp)
  ultimately show ?thesis using k r(1) f ks af by (simp add: dev_read_def BLOCK_OK_def)
qed

lemma dev_write_ok:
  assumes "at fs" "off + length buf \<le> length (bytes fs)"
  shows "\<exists>rc fs'. dev_write fs off buf = Some (rc, fs') \<and> same_but_dev fs fs' \<and> at fs'
    \<and> bytes fs' = (if rc = BLOCK_OK then patch off buf (bytes fs) else bytes fs)"
proof -
  obtain a f where k: "kmalloc_ok fs = (a, f)" by fastforce
  note ks = kmalloc_ok_same [OF k] and af = at_alloc [OF assms(1) k]
  from xfer_write [of "e_dev f" off buf a] obtain rc d where r:
    "block_write_bytes a (e_dev f) off buf = Some (rc, (e_dev f)\<lparr>impl := d\<rparr>)"
    "good (block_size (e_dev f)) (block_count (e_dev f)) d"
    "content d = (if rc = 0 then patch off buf (bytes fs) else bytes fs)"
    using assms(2) af ks by (auto simp: on_device_def)
  define fs' where "fs' = f\<lparr>e_dev := (e_dev f)\<lparr>impl := d\<rparr>\<rparr>"
  have s: "same_but_dev f fs'" by (simp add: fs'_def same_but_dev_def)
  have "at fs'" by (rule at_same [OF af s _ r(2)]) (simp add: fs'_def)
  moreover have "dev_write fs off buf = Some (rc, fs')" using k r(1) by (simp add: dev_write_def fs'_def)
  ultimately show ?thesis using r(3) same_but_dev_trans [OF conjunct1 [OF ks] s]
    by (intro exI conjI) (assumption | simp add: fs'_def BLOCK_OK_def)+
qed

text \<open>One rule per block transfer: a read gives the block or an error code, a write replaces
  the block or changes nothing.\<close>

lemma read_block_ok:
  assumes "at fs" "length buf = bsize fs"
  shows "\<exists>rc buf' fs'. ext2_read_block fs b buf = Some (rc, buf', fs') \<and> same_but_dev fs fs'
    \<and> e_dev fs' = e_dev fs \<and> at fs' \<and> length buf' = bsize fs
    \<and> (rc = BLOCK_OK \<longrightarrow> b < blocks_count fs \<and> buf' = blk content fs b)"
proof (cases "b < blocks_count fs")
  case True
  note bi = block_inside [OF assms(1) True]
  from dev_read_ok [OF assms(1), of "b * bsize fs" buf] bi(1) assms(2) True show ?thesis
    using bi(3) by (auto simp: ext2_read_block_def Let_def blk_def)
next
  case False
  then show ?thesis using assms by (auto simp: ext2_read_block_def Let_def BLOCK_ERR_INVAL_def BLOCK_OK_def)
qed

lemma write_block_ok:
  assumes "at fs" "length buf = bsize fs"
  shows "\<exists>rc fs'. ext2_write_block fs b buf = Some (rc, fs') \<and> same_but_dev fs fs' \<and> at fs'
    \<and> (rc = BLOCK_OK \<longrightarrow> b < blocks_count fs)
    \<and> (\<forall>c<blocks_count fs. blk content fs' c = (if rc = BLOCK_OK \<and> c = b then buf else blk content fs c))"
proof (cases "b < blocks_count fs")
  case True
  note bi = block_inside [OF assms(1) True]
  from dev_write_ok [OF assms(1), of "b * bsize fs" buf] bi(1) assms(2)
  obtain rc fs' where w: "dev_write fs (b * bsize fs) buf = Some (rc, fs')" "same_but_dev fs fs'" "at fs'"
    "bytes fs' = (if rc = BLOCK_OK then patch (b * bsize fs) buf (bytes fs) else bytes fs)" by auto
  have bs: "bsize fs' = bsize fs" by (rule same_but_devD(2) [OF w(2)])
  have "blk content fs' c = (if rc = BLOCK_OK \<and> c = b then buf else blk content fs c)"
    if c: "c < blocks_count fs" for c
  proof (cases "rc = BLOCK_OK")
    case ok: True
    show ?thesis
    proof (cases "c = b")
      case True
      then show ?thesis using ok w(4) bs chunk_patch [of "b * bsize fs" buf "bytes fs"] bi(1) assms(2)
        by (simp add: blk_def)
    next
      case ne: False
      have "chunk (c * bsize fs) (bsize fs) (patch (b * bsize fs) buf (bytes fs))
          = chunk (c * bsize fs) (bsize fs) (bytes fs)"
        by (rule chunk_patch_apart)
          (use block_inside(1) [OF assms(1) c] bi(1) assms(2) blocks_apart [OF ne] in auto)
      then show ?thesis using ok ne w(4) bs by (simp add: blk_def)
    qed
  qed (use w(4) bs in \<open>simp add: blk_def\<close>)
  moreover have "ext2_write_block fs b buf = Some (rc, fs')"
    using w(1) True bi(3) by (simp add: ext2_write_block_def Let_def)
  ultimately show ?thesis using w(2,3) True by blast
next
  case False
  then show ?thesis using assms by (auto simp: ext2_write_block_def Let_def BLOCK_ERR_INVAL_def BLOCK_OK_def)
qed

lemma zero_block_ok:
  assumes "at fs"
  shows "\<exists>rc fs'. ext2_zero_block fs b = Some (rc, fs') \<and> same_but_dev fs fs' \<and> at fs'
    \<and> (rc = 0 \<longrightarrow> b < blocks_count fs)
    \<and> (\<forall>c<blocks_count fs. blk content fs' c
        = (if rc = 0 \<and> c = b then replicate (bsize fs) 0 else blk content fs c))"
proof -
  obtain a f where k: "kmalloc_ok fs = (a, f)" by fastforce
  note ks = kmalloc_ok_same [OF k] and af = at_alloc [OF assms k]
  note sd = same_but_devD(1,2) [OF conjunct1 [OF ks]]
  have same: "blk content f c = blk content fs c" for c using sd ks by (simp add: blk_def)
  show ?thesis
  proof (cases a)
    case True
    from write_block_ok [OF af, of "replicate (bsize f) 0" b] obtain rc fs' where w:
      "ext2_write_block f b (replicate (bsize f) 0) = Some (rc, fs')" "same_but_dev f fs'" "at fs'"
      "rc = BLOCK_OK \<longrightarrow> b < blocks_count f"
      "\<forall>c<blocks_count f. blk content fs' c
        = (if rc = BLOCK_OK \<and> c = b then replicate (bsize f) 0 else blk content f c)" by auto
    have z: "ext2_zero_block fs b = Some (if rc = BLOCK_OK then 0 else -1, fs')"
      using k True w(1) by (simp add: ext2_zero_block_def)
    show ?thesis unfolding z using w(3-5) same_but_dev_trans [OF conjunct1 [OF ks] w(2)] sd same by auto
  next
    case False
    then show ?thesis using k ks af same by (simp add: ext2_zero_block_def)
  qed
qed

end

end
