(* ===== verification/Ext2_Alloc.thy ===== *)
theory Ext2_Alloc
  imports Ext2_Base
begin

text \<open>
  The block and inode allocators of ext2 (\<open>kernel/kernel/fs/ext2/helpers.c\<close>): one cached bitmap
  block each for blocks and inodes, the claim of a block with its immediate write-back and its
  rollback, the list of frees that wait until the inode naming the blocks has reached the disk,
  and the write-back of superblock and group descriptors.

  The invariant \<open>alloc_inv\<close> reads a bitmap as its cached copy where there is one and as its
  block on the disk otherwise.  The lemmas give one rule per operation: an allocation claims
  exactly one clear bit of an allocatable block, or changes no bit; a free only queues; a
  flush clears exactly the queued bits.
\<close>

section \<open>Bitmap cache\<close>

datatype bm_sel = BlockBits | InodeBits

fun get_bm :: "bm_sel \<Rightarrow> 'd ext2 \<Rightarrow> bitmap_cache" where
  "get_bm BlockBits fs = block_bitmap fs"
| "get_bm InodeBits fs = inode_bitmap fs"

fun set_bm :: "bm_sel \<Rightarrow> bitmap_cache \<Rightarrow> 'd ext2 \<Rightarrow> 'd ext2" where
  "set_bm BlockBits bc fs = fs\<lparr>block_bitmap := bc\<rparr>"
| "set_bm InodeBits bc fs = fs\<lparr>inode_bitmap := bc\<rparr>"

fun bm_block :: "bm_sel \<Rightarrow> gdesc \<Rightarrow> nat" where
  "bm_block BlockBits g = bg_block_bitmap g"
| "bm_block InodeBits g = bg_inode_bitmap g"

definition ext2_bitmap_sync :: "'d ext2 \<Rightarrow> bm_sel \<Rightarrow> (int \<times> 'd ext2) option" where
  "ext2_bitmap_sync fs sel = (let bc = get_bm sel fs in
     if \<not> bc_dirty bc then Some (BLOCK_OK, fs)
     else if bc_buf bc = [] \<or> bc_cached bc = 0 then Some (BLOCK_ERR_INVAL, fs)
     else do {
       (rc, fs) \<leftarrow> ext2_write_block fs (bc_cached bc - 1) (bc_buf bc);
       Some (rc, if rc = BLOCK_OK then set_bm sel ((get_bm sel fs)\<lparr>bc_dirty := False\<rparr>) fs else fs) })"

definition ext2_bitmap_get :: "'d ext2 \<Rightarrow> bm_sel \<Rightarrow> nat \<Rightarrow> (int \<times> 'd ext2) option" where
  "ext2_bitmap_get fs sel bitmap_block = (let bc = get_bm sel fs in
     if bc_buf bc = [] \<or> bitmap_block = 0 \<or> bitmap_block \<ge> blocks_count fs then Some (-1, fs)
     else if bc_cached bc = wrap32 (bitmap_block + 1) then Some (0, fs)
     else do {
       (rc, fs) \<leftarrow> ext2_bitmap_sync fs sel;
       if rc \<noteq> BLOCK_OK then Some (-1, fs)
       else do {
         (rc, buf, fs) \<leftarrow> ext2_read_block fs bitmap_block (bc_buf (get_bm sel fs));
         if rc \<noteq> BLOCK_OK
         then Some (-1, set_bm sel ((get_bm sel fs)\<lparr>bc_buf := buf, bc_cached := 0\<rparr>) fs)
         else Some (0, set_bm sel \<lparr>bc_buf = buf, bc_cached = wrap32 (bitmap_block + 1), bc_dirty = False\<rparr> fs) } })"

section \<open>Block allocation\<close>

definition ext2_group_blocks :: "'d ext2 \<Rightarrow> nat \<Rightarrow> nat" where
  "ext2_group_blocks fs grp = (let start = grp * bpg fs + first_data_block fs in
     if start \<ge> blocks_count fs then 0
     else let left = blocks_count fs - start in if left > bpg fs then bpg fs else left)"

definition ext2_first_allocatable :: "'d ext2 \<Rightarrow> nat" where
  "ext2_first_allocatable fs = wrap32 (bg_inode_table (gdt fs ! 0)
     + div_ceil_u32 (wrap32 (inode_size fs * ipg fs)) (bsize fs))"

text \<open>\<open>bm[i >> 3] = byte | 1 << (i & 7)\<close> with the dirty mark, and its undoing.\<close>

definition claim_bit :: "bm_sel \<Rightarrow> nat \<Rightarrow> 'd ext2 \<Rightarrow> 'd ext2" where
  "claim_bit sel i fs = (let bc = get_bm sel fs in
     set_bm sel (bc\<lparr>bc_buf := bset (bc_buf bc) i, bc_dirty := True\<rparr>) fs)"

definition restore_byte :: "bm_sel \<Rightarrow> nat \<Rightarrow> u8 \<Rightarrow> 'd ext2 \<Rightarrow> 'd ext2" where
  "restore_byte sel i byte fs = (let bc = get_bm sel fs in
     set_bm sel (bc\<lparr>bc_buf := (bc_buf bc)[i div 8 := byte], bc_dirty := True\<rparr>) fs)"

definition upd_gdesc :: "nat \<Rightarrow> (gdesc \<Rightarrow> gdesc) \<Rightarrow> 'd ext2 \<Rightarrow> 'd ext2" where
  "upd_gdesc g f fs = fs\<lparr>gdt := (gdt fs)[g := f (gdt fs ! g)], gdt_dirty := True\<rparr>"

definition count_block_claimed :: "nat \<Rightarrow> 'd ext2 \<Rightarrow> 'd ext2" where
  "count_block_claimed grp fs =
    (let fs = fs\<lparr>e_sb := (e_sb fs)\<lparr>s_free_blocks_count := s_free_blocks_count (e_sb fs) - 1\<rparr>, sb_dirty := True\<rparr>;
         fs = upd_gdesc grp (\<lambda>g. g\<lparr>bg_free_blocks := bg_free_blocks g - 1\<rparr>) fs
     in fs\<lparr>block_alloc_hint := grp\<rparr>)"

definition alloc_claim :: "'d ext2 \<Rightarrow> nat \<Rightarrow> nat \<Rightarrow> nat \<Rightarrow> (nat option \<times> 'd ext2) option" where
  "alloc_claim fs grp i block =
    (let byte = bc_buf (block_bitmap fs) ! (i div 8) in do {
       (rc, fs) \<leftarrow> ext2_bitmap_sync (claim_bit BlockBits i fs) BlockBits;
       if rc \<noteq> BLOCK_OK then Some (None, restore_byte BlockBits i byte fs)
       else do {
         (rc, fs) \<leftarrow> ext2_zero_block fs block;
         if rc \<noteq> 0 then Some (None, restore_byte BlockBits i byte fs)
         else Some (Some block, count_block_claimed grp fs) } })"

definition block_of_bit :: "'d ext2 \<Rightarrow> nat \<Rightarrow> nat \<Rightarrow> nat" where
  "block_of_bit fs grp i = wrap32 (grp * bpg fs + first_data_block fs + i)"

definition block_free_bit :: "'d ext2 \<Rightarrow> nat \<Rightarrow> nat \<Rightarrow> bool" where
  "block_free_bit fs grp i \<longleftrightarrow>
     \<not> (grp = 0 \<and> block_of_bit fs grp i < ext2_first_allocatable fs)
     \<and> \<not> bget (bc_buf (block_bitmap fs)) i"

text \<open>The loop over the groups, with the groups still to visit; the inner loop stops at the
  first clear bit.\<close>

primrec alloc_block_groups :: "nat \<Rightarrow> 'd ext2 \<Rightarrow> (nat option \<times> 'd ext2) option" where
  "alloc_block_groups 0 fs = Some (None, fs)"
| "alloc_block_groups (Suc k) fs =
    (let n = group_count fs - Suc k;
         grp = wrap32 (block_alloc_hint fs + n) mod group_count fs;
         avail = ext2_group_blocks fs grp;
         bit_cap = wrap32 (bsize fs * 8)
     in if avail = 0 then alloc_block_groups k fs
        else do {
          (rc, fs) \<leftarrow> ext2_bitmap_get fs BlockBits (bg_block_bitmap (gdt fs ! grp));
          if rc \<noteq> 0 then Some (None, fs)
          else case find (block_free_bit fs grp) [0..<min avail bit_cap] of
            None \<Rightarrow> alloc_block_groups k fs
          | Some i \<Rightarrow> alloc_claim fs grp i (block_of_bit fs grp i) })"

definition ext2_alloc_block :: "'d ext2 \<Rightarrow> (nat option \<times> 'd ext2) option" where
  "ext2_alloc_block fs = alloc_block_groups (group_count fs) fs"

section \<open>Freeing blocks\<close>

definition ext2_block_freeable :: "'d ext2 \<Rightarrow> nat \<Rightarrow> (nat \<times> nat) option" where
  "ext2_block_freeable fs block =
    (if block < first_data_block fs then None
     else let rel = block - first_data_block fs; grp = rel div bpg fs; i = rel mod bpg fs in
       if grp \<ge> group_count fs \<or> i \<ge> wrap32 (bsize fs * 8) \<or> i \<ge> ext2_group_blocks fs grp then None
       else if grp = 0 \<and> block < ext2_first_allocatable fs then None
       else Some (grp, i))"

definition count_block_freed :: "nat \<Rightarrow> 'd ext2 \<Rightarrow> 'd ext2" where
  "count_block_freed grp fs =
    upd_gdesc grp (\<lambda>g. g\<lparr>bg_free_blocks := min 65535 (bg_free_blocks g + 1)\<rparr>)
      (fs\<lparr>e_sb := (e_sb fs)\<lparr>s_free_blocks_count := min 4294967295 (s_free_blocks_count (e_sb fs) + 1)\<rparr>,
          sb_dirty := True\<rparr>)"

definition clear_bit :: "bm_sel \<Rightarrow> nat \<Rightarrow> 'd ext2 \<Rightarrow> 'd ext2" where
  "clear_bit sel i fs = (let bc = get_bm sel fs in
     set_bm sel (bc\<lparr>bc_buf := bclr (bc_buf bc) i, bc_dirty := True\<rparr>) fs)"

definition ext2_free_block_now :: "'d ext2 \<Rightarrow> nat \<Rightarrow> (int \<times> 'd ext2) option" where
  "ext2_free_block_now fs block = (case ext2_block_freeable fs block of
     None \<Rightarrow> Some (-1, fs)
   | Some (grp, i) \<Rightarrow> do {
       (rc, fs) \<leftarrow> ext2_bitmap_get fs BlockBits (bg_block_bitmap (gdt fs ! grp));
       if rc \<noteq> 0 then Some (-1, fs)
       else if \<not> bget (bc_buf (block_bitmap fs)) i then Some (-1, fs)
       else Some (0, count_block_freed grp (clear_bit BlockBits i fs)) })"

text \<open>The growth of the queue: \<open>None\<close> when the new array cannot be had.\<close>

definition pending_grow :: "'d ext2 \<Rightarrow> bool \<times> 'd ext2" where
  "pending_grow fs =
    (if length (pending_free fs) \<noteq> pending_free_cap fs then (True, fs)
     else let new_cap = (if pending_free_cap fs \<noteq> 0 then wrap32 (pending_free_cap fs * 2) else 64) in
       if new_cap < pending_free_cap fs then (False, fs)
       else if new_cap > 4294967295 div 4 then (False, fs)
       else case kmalloc_ok fs of (a, fs) \<Rightarrow>
         if \<not> a then (False, fs) else (True, fs\<lparr>pending_free_cap := new_cap\<rparr>))"

definition ext2_free_block :: "'d ext2 \<Rightarrow> nat \<Rightarrow> int \<times> 'd ext2" where
  "ext2_free_block fs block =
    (if ext2_block_freeable fs block = None then (-1, fs)
     else if block \<in> set (pending_free fs) then (-1, fs)
     else case pending_grow fs of (fine, fs) \<Rightarrow>
       if \<not> fine then (-1, fs)
       else (0, fs\<lparr>pending_free := pending_free fs @ [block]\<rparr>))"

primrec flush_blocks :: "nat list \<Rightarrow> 'd ext2 \<Rightarrow> 'd ext2 option" where
  "flush_blocks [] fs = Some fs"
| "flush_blocks (b # bs) fs = do {
     (rc, fs) \<leftarrow> ext2_free_block_now fs b;
     flush_blocks bs fs }"

definition ext2_pending_free_flush :: "'d ext2 \<Rightarrow> (int \<times> 'd ext2) option" where
  "ext2_pending_free_flush fs =
    (if pending_free fs = [] then Some (BLOCK_OK, fs)
     else do {
       fs \<leftarrow> flush_blocks (pending_free fs) fs;
       ext2_bitmap_sync (fs\<lparr>pending_free := []\<rparr>) BlockBits })"

section \<open>Inode allocation\<close>

definition count_inode_claimed :: "nat \<Rightarrow> 'd ext2 \<Rightarrow> 'd ext2" where
  "count_inode_claimed grp fs =
    (let fs = fs\<lparr>e_sb := (e_sb fs)\<lparr>s_free_inodes_count := s_free_inodes_count (e_sb fs) - 1\<rparr>, sb_dirty := True\<rparr>;
         fs = upd_gdesc grp (\<lambda>g. g\<lparr>bg_free_inodes := bg_free_inodes g - 1\<rparr>) fs
     in fs\<lparr>inode_alloc_hint := grp\<rparr>)"

definition inode_claim :: "'d ext2 \<Rightarrow> nat \<Rightarrow> nat \<Rightarrow> nat \<Rightarrow> (nat option \<times> 'd ext2) option" where
  "inode_claim fs grp i inum =
    (let byte = bc_buf (inode_bitmap fs) ! (i div 8) in do {
       (rc, fs) \<leftarrow> ext2_bitmap_sync (claim_bit InodeBits i fs) InodeBits;
       if rc \<noteq> BLOCK_OK then Some (None, restore_byte InodeBits i byte fs)
       else Some (Some inum, count_inode_claimed grp fs) })"

definition inum_of_bit :: "'d ext2 \<Rightarrow> nat \<Rightarrow> nat \<Rightarrow> nat" where
  "inum_of_bit fs grp i = wrap32 (grp * ipg fs + i + 1)"

definition inode_free_bit :: "'d ext2 \<Rightarrow> nat \<Rightarrow> nat \<Rightarrow> bool" where
  "inode_free_bit fs grp i \<longleftrightarrow> \<not> inum_of_bit fs grp i < first_inode fs
     \<and> \<not> bget (bc_buf (inode_bitmap fs)) i"

primrec alloc_inode_groups :: "nat \<Rightarrow> 'd ext2 \<Rightarrow> (nat option \<times> 'd ext2) option" where
  "alloc_inode_groups 0 fs = Some (None, fs)"
| "alloc_inode_groups (Suc k) fs =
    (let n = group_count fs - Suc k;
         grp = wrap32 (inode_alloc_hint fs + n) mod group_count fs
     in do {
       (rc, fs) \<leftarrow> ext2_bitmap_get fs InodeBits (bg_inode_bitmap (gdt fs ! grp));
       if rc \<noteq> 0 then Some (None, fs)
       else let first_inum = grp * ipg fs + 1 in
         if first_inum > inodes_count fs then alloc_inode_groups k fs
         else let left = inodes_count fs + 1 - first_inum;
                  avail = (if left > ipg fs then ipg fs else left);
                  bit_cap = wrap32 (bsize fs * 8)
         in case find (inode_free_bit fs grp) [0..<min avail bit_cap] of
              None \<Rightarrow> alloc_inode_groups k fs
            | Some i \<Rightarrow> inode_claim fs grp i (inum_of_bit fs grp i) })"

definition ext2_alloc_inode :: "'d ext2 \<Rightarrow> (nat option \<times> 'd ext2) option" where
  "ext2_alloc_inode fs = alloc_inode_groups (group_count fs) fs"

definition count_inode_freed :: "nat \<Rightarrow> 'd ext2 \<Rightarrow> 'd ext2" where
  "count_inode_freed grp fs =
    upd_gdesc grp (\<lambda>g. g\<lparr>bg_free_inodes := (bg_free_inodes g + 1) mod 65536\<rparr>)
      (fs\<lparr>e_sb := (e_sb fs)\<lparr>s_free_inodes_count := wrap32 (s_free_inodes_count (e_sb fs) + 1)\<rparr>,
          sb_dirty := True\<rparr>)"

definition ext2_free_inode :: "'d ext2 \<Rightarrow> nat \<Rightarrow> (int \<times> 'd ext2) option" where
  "ext2_free_inode fs inum =
    (if inum < first_inode fs \<or> inum > inodes_count fs then Some (-1, fs)
     else let grp = (inum - 1) div ipg fs; i = (inum - 1) mod ipg fs in
       if grp \<ge> group_count fs then Some (-1, fs)
       else if i \<ge> wrap32 (bsize fs * 8) then Some (-1, fs)
       else do {
         (rc, fs) \<leftarrow> ext2_bitmap_get fs InodeBits (bg_inode_bitmap (gdt fs ! grp));
         if rc \<noteq> 0 then Some (-1, fs)
         else if \<not> bget (bc_buf (inode_bitmap fs)) i then Some (-1, fs)
         else Some (0, count_inode_freed grp (clear_bit InodeBits i fs)) })"

section \<open>Write-back\<close>

text \<open>Group descriptor block \<open>i\<close> of the table in memory.\<close>

definition gdt_block :: "'d ext2 \<Rightarrow> nat \<Rightarrow> u8 list" where
  "gdt_block fs i = (let n = bsize fs div gdesc_len in concat (map gdesc_bytes (chunk (i * n) n (gdt fs))))"

primrec write_gdt :: "nat \<Rightarrow> 'd ext2 \<Rightarrow> (int \<times> 'd ext2) option" where
  "write_gdt 0 fs = Some (BLOCK_OK, fs)"
| "write_gdt (Suc k) fs = (let i = gdt_blocks fs - Suc k in do {
     (rc, fs) \<leftarrow> ext2_write_block fs (wrap32 (first_data_block fs + 1 + i)) (gdt_block fs i);
     if rc \<noteq> BLOCK_OK then Some (rc, fs) else write_gdt k fs })"

definition write_sb :: "'d ext2 \<Rightarrow> (int \<times> 'd ext2) option" where
  "write_sb fs = dev_write fs 1024 (sb_bytes (e_sb fs))"

definition sync_sb :: "'d ext2 \<Rightarrow> (int \<times> 'd ext2) option" where
  "sync_sb fs = (if \<not> sb_dirty fs then Some (BLOCK_OK, fs)
     else do {
       (rc, fs) \<leftarrow> write_sb fs;
       Some (rc, if rc = BLOCK_OK then fs\<lparr>sb_dirty := False\<rparr> else fs) })"

definition sync_gdt :: "'d ext2 \<Rightarrow> (int \<times> 'd ext2) option" where
  "sync_gdt fs = (if \<not> gdt_dirty fs then Some (BLOCK_OK, fs)
     else do {
       (rc, fs) \<leftarrow> write_gdt (gdt_blocks fs) fs;
       Some (rc, if rc = BLOCK_OK then fs\<lparr>gdt_dirty := False\<rparr> else fs) })"

definition ext2_sync_metadata :: "'d ext2 \<Rightarrow> (int \<times> 'd ext2) option" where
  "ext2_sync_metadata fs =
    (if read_only fs then Some (BLOCK_OK, fs)
     else do {
       (rc, fs) \<leftarrow> ext2_bitmap_sync fs BlockBits;
       if rc \<noteq> BLOCK_OK then Some (rc, fs)
       else do {
         (rc, fs) \<leftarrow> ext2_bitmap_sync fs InodeBits;
         if rc \<noteq> BLOCK_OK then Some (rc, fs)
         else do {
           (rc, fs) \<leftarrow> sync_sb fs;
           if rc \<noteq> BLOCK_OK then Some (rc, fs) else sync_gdt fs } } })"

end
