(* ===== verification/Ext2_Alloc_Inv.thy ===== *)
theory Ext2_Alloc_Inv
  imports Ext2_Alloc
begin

text \<open>
  Correctness of the ext2 allocators.  \<open>lay\<close> is the layout of the volume, which no operation
  changes; \<open>bm_bits\<close> reads the bitmap of a group through the cache; \<open>alloc_inv\<close> is the invariant.
\<close>

section \<open>The layout\<close>

definition gd_lay :: "gdesc \<Rightarrow> nat \<times> nat \<times> nat" where
  "gd_lay g = (bg_block_bitmap g, bg_inode_bitmap g, bg_inode_table g)"

definition lay :: "'d ext2 \<Rightarrow> (nat \<times> nat \<times> nat \<times> nat \<times> nat) \<times> (nat \<times> nat \<times> nat \<times> nat \<times> nat)
    \<times> (nat \<times> nat \<times> nat) list" where
  "lay fs = ((bsize fs, blocks_count fs, bpg fs, ipg fs, inodes_count fs),
     (first_data_block fs, group_count fs, inode_size fs, first_inode fs, gdt_blocks fs),
     map gd_lay (gdt fs))"

text \<open>What the allocators never touch: the other caches and the flags of the mount.\<close>

definition rest_of :: "'d ext2 \<Rightarrow> (u8 list \<times> nat \<times> nat \<times> nat \<times> nat list) \<times> (icache_slot list \<times> nat)
    \<times> (nat \<times> u8 list) \<times> (bool \<times> bool \<times> bool \<times> nat \<times> nat \<times> nat list)" where
  "rest_of fs = ((dir_buf fs, cached_dir_inode fs, cached_dir_block fs, cached_dir_size fs, cached_dir_blocks fs),
     (inode_cache fs, inode_cache_next fs), (cached_indirect_block fs, cached_indirect_buf fs),
     (has_filetype fs, large_files fs, read_only fs, addrs_per_block fs, inodes_per_block fs, inode_list fs))"

lemma lay_fields:
  assumes "lay fs' = lay fs"
  shows "bsize fs' = bsize fs" "blocks_count fs' = blocks_count fs" "bpg fs' = bpg fs" "ipg fs' = ipg fs"
    "inodes_count fs' = inodes_count fs" "first_data_block fs' = first_data_block fs"
    "group_count fs' = group_count fs" "inode_size fs' = inode_size fs" "first_inode fs' = first_inode fs"
    "gdt_blocks fs' = gdt_blocks fs" "length (gdt fs') = length (gdt fs)"
  using assms by (auto simp: lay_def dest: map_eq_imp_length_eq)

lemma lay_nth:
  assumes "lay fs' = lay fs" "g < length (gdt fs)"
  shows "bm_block sel (gdt fs' ! g) = bm_block sel (gdt fs ! g)"
    "bg_block_bitmap (gdt fs' ! g) = bg_block_bitmap (gdt fs ! g)"
    "bg_inode_bitmap (gdt fs' ! g) = bg_inode_bitmap (gdt fs ! g)"
    "bg_inode_table (gdt fs' ! g) = bg_inode_table (gdt fs ! g)"
proof -
  have "map gd_lay (gdt fs') ! g = map gd_lay (gdt fs) ! g" using assms(1) by (simp add: lay_def)
  then have "gd_lay (gdt fs' ! g) = gd_lay (gdt fs ! g)" using assms lay_fields(11) [OF assms(1)] by simp
  then show "bm_block sel (gdt fs' ! g) = bm_block sel (gdt fs ! g)"
    "bg_block_bitmap (gdt fs' ! g) = bg_block_bitmap (gdt fs ! g)"
    "bg_inode_bitmap (gdt fs' ! g) = bg_inode_bitmap (gdt fs ! g)"
    "bg_inode_table (gdt fs' ! g) = bg_inode_table (gdt fs ! g)"
    by (cases sel; simp add: gd_lay_def)+
qed

text \<open>What mounting checks of the geometry, and the bitmaps being blocks of their own.\<close>

definition geom :: "'d ext2 \<Rightarrow> bool" where
  "geom fs \<longleftrightarrow> first_data_block fs \<le> 1 \<and> first_data_block fs < blocks_count fs
     \<and> 0 < bpg fs \<and> bpg fs \<le> 8 * bsize fs \<and> 0 < ipg fs \<and> ipg fs \<le> 8 * bsize fs \<and> bsize fs \<le> 4096
     \<and> 0 < group_count fs \<and> group_count fs \<le> length (gdt fs)
     \<and> (group_count fs - 1) * bpg fs < blocks_count fs - first_data_block fs
     \<and> blocks_count fs - first_data_block fs \<le> group_count fs * bpg fs
     \<and> inodes_count fs \<le> group_count fs * ipg fs \<and> inodes_count fs < 4294967296
     \<and> blocks_count fs < 4294967296"

definition bitmaps_ok :: "'d ext2 \<Rightarrow> bool" where
  "bitmaps_ok fs \<longleftrightarrow> (\<forall>sel g. g < group_count fs \<longrightarrow>
       0 < bm_block sel (gdt fs ! g) \<and> bm_block sel (gdt fs ! g) < blocks_count fs)
     \<and> (\<forall>sel sel' g g'. g < group_count fs \<longrightarrow> g' < group_count fs
         \<longrightarrow> bm_block sel (gdt fs ! g) = bm_block sel' (gdt fs ! g') \<longrightarrow> sel = sel' \<and> g = g')"

definition is_bitmap :: "'d ext2 \<Rightarrow> nat \<Rightarrow> bool" where
  "is_bitmap fs c \<longleftrightarrow> (\<exists>sel. \<exists>g<group_count fs. c = bm_block sel (gdt fs ! g))"

text \<open>The blocks that hold the volume's own structures.\<close>

definition is_meta :: "'d ext2 \<Rightarrow> nat \<Rightarrow> bool" where
  "is_meta fs c \<longleftrightarrow> is_bitmap fs c \<or> c \<le> first_data_block fs + gdt_blocks fs
     \<or> (\<exists>g<group_count fs. bg_inode_table (gdt fs ! g) \<le> c
          \<and> c < bg_inode_table (gdt fs ! g) + div_ceil_u32 (wrap32 (inode_size fs * ipg fs)) (bsize fs))"

lemma geom_length: "geom fs \<Longrightarrow> g < group_count fs \<Longrightarrow> g < length (gdt fs)"
  by (simp add: geom_def)

lemma lay_geom: "lay fs' = lay fs \<Longrightarrow> geom fs' = geom fs"
  by (simp add: geom_def lay_fields [of fs' fs])

lemma lay_bitmap:
  assumes "lay fs' = lay fs" "geom fs"
  shows "is_bitmap fs' c = is_bitmap fs c" "bitmaps_ok fs' = bitmaps_ok fs" "is_meta fs' c = is_meta fs c"
proof -
  note f = lay_fields [OF assms(1)]
  note n = lay_nth [OF assms(1) geom_length [OF assms(2)]]
  show b: "is_bitmap fs' c = is_bitmap fs c" unfolding is_bitmap_def f(7) by (simp add: n cong: conj_cong)
  show "bitmaps_ok fs' = bitmaps_ok fs" unfolding bitmaps_ok_def using n f by simp
  show "is_meta fs' c = is_meta fs c" unfolding is_meta_def b f by (simp add: n cong: conj_cong)
qed

lemma lay_funs:
  assumes "lay fs' = lay fs" "geom fs"
  shows "ext2_group_blocks fs' g = ext2_group_blocks fs g" "ext2_first_allocatable fs' = ext2_first_allocatable fs"
    "ext2_block_freeable fs' b = ext2_block_freeable fs b" "block_of_bit fs' g i = block_of_bit fs g i"
proof -
  note f = lay_fields [OF assms(1)]
  have "0 < length (gdt fs)" using assms(2) by (auto simp: geom_def)
  note n = lay_nth [OF assms(1) this]
  show a: "ext2_group_blocks fs' g = ext2_group_blocks fs g" for g
    by (simp add: ext2_group_blocks_def f Let_def)
  show b: "ext2_first_allocatable fs' = ext2_first_allocatable fs"
    by (simp add: ext2_first_allocatable_def f n)
  show "ext2_block_freeable fs' b = ext2_block_freeable fs b"
    by (simp add: ext2_block_freeable_def f a b Let_def)
  show "block_of_bit fs' g i = block_of_bit fs g i" by (simp add: block_of_bit_def f)
qed

lemma same_lay: "same_but_dev fs fs' \<Longrightarrow> lay fs' = lay fs \<and> rest_of fs' = rest_of fs"
  by (cases fs; cases fs') (simp add: same_but_dev_def lay_def rest_of_def)

section \<open>Bitmaps through the cache\<close>

definition bm_bits :: "('d \<Rightarrow> u8 list) \<Rightarrow> bm_sel \<Rightarrow> 'd ext2 \<Rightarrow> nat \<Rightarrow> u8 list" where
  "bm_bits content sel fs g =
    (if bc_cached (get_bm sel fs) = bm_block sel (gdt fs ! g) + 1 then bc_buf (get_bm sel fs)
     else blk content fs (bm_block sel (gdt fs ! g)))"

definition bm_ok :: "('d \<Rightarrow> u8 list) \<Rightarrow> bm_sel \<Rightarrow> 'd ext2 \<Rightarrow> bool" where
  "bm_ok content sel fs \<longleftrightarrow> (let bc = get_bm sel fs in
     length (bc_buf bc) = bsize fs \<and> (bc_dirty bc \<longrightarrow> bc_cached bc \<noteq> 0)
     \<and> (bc_cached bc \<noteq> 0 \<longrightarrow> (\<exists>g<group_count fs. bc_cached bc = bm_block sel (gdt fs ! g) + 1))
     \<and> (bc_cached bc \<noteq> 0 \<and> \<not> bc_dirty bc \<longrightarrow> bc_buf bc = blk content fs (bc_cached bc - 1)))"

text \<open>A step that may move bits between the caches and the disk but changes none.\<close>

definition bits_eq :: "('d \<Rightarrow> u8 list) \<Rightarrow> 'd ext2 \<Rightarrow> 'd ext2 \<Rightarrow> bool" where
  "bits_eq content fs fs' \<longleftrightarrow> lay fs' = lay fs \<and> rest_of fs' = rest_of fs
     \<and> pending_free fs' = pending_free fs
     \<and> (\<forall>sel g. g < group_count fs \<longrightarrow> bm_bits content sel fs' g = bm_bits content sel fs g)
     \<and> (\<forall>c<blocks_count fs. \<not> is_bitmap fs c \<longrightarrow> blk content fs' c = blk content fs c)"

lemma get_set_bm [simp]: "get_bm s (set_bm s' bc fs) = (if s = s' then bc else get_bm s fs)"
  by (cases s; cases s') simp_all

lemma set_bm_fields [simp]:
  "e_dev (set_bm s bc fs) = e_dev fs" "e_sb (set_bm s bc fs) = e_sb fs" "bsize (set_bm s bc fs) = bsize fs"
  "gdt (set_bm s bc fs) = gdt fs" "group_count (set_bm s bc fs) = group_count fs"
  "pending_free (set_bm s bc fs) = pending_free fs" "pending_free_cap (set_bm s bc fs) = pending_free_cap fs"
  "lay (set_bm s bc fs) = lay fs" "rest_of (set_bm s bc fs) = rest_of fs"
  "blk content (set_bm s bc fs) = blk content fs" "answers (set_bm s bc fs) = answers fs"
  "first_data_block (set_bm s bc fs) = first_data_block fs"
  "block_alloc_hint (set_bm s bc fs) = block_alloc_hint fs"
  by (cases s; simp add: lay_def rest_of_def blk_def fun_eq_iff)+

lemma get_bm_same: "same_but_dev fs fs' \<Longrightarrow> get_bm s fs' = get_bm s fs"
  using same_but_devD(14,15) [of fs fs'] by (cases s) simp_all

lemma on_device_set_bm [simp]: "on_device rd wr good (set_bm s bc fs) = on_device rd wr good fs"
  by (simp add: on_device_def)

lemma bits_eq_refl [simp]: "bits_eq content fs fs"
  by (simp add: bits_eq_def)

lemma bits_eq_trans:
  assumes "bits_eq content a b" "bits_eq content b c" "geom a"
  shows "bits_eq content a c"
proof -
  have l: "lay b = lay a" "lay c = lay b" using assms(1,2) by (simp_all add: bits_eq_def)
  note f = lay_fields [OF l(1)] and ib = lay_bitmap(1) [OF l(1) assms(3)]
  show ?thesis using assms(1,2) f ib unfolding bits_eq_def by simp
qed

lemma bm_blocks_differ:
  "bitmaps_ok fs \<Longrightarrow> g < group_count fs \<Longrightarrow> g' < group_count fs
   \<Longrightarrow> (bm_block sel (gdt fs ! g) = bm_block sel' (gdt fs ! g')) = (sel = sel' \<and> g = g')"
  unfolding bitmaps_ok_def by blast

context failstop_device
begin

lemma bitmap_sync_ok:
  assumes a: "at fs" and ok: "\<And>s. bm_ok content s fs" and bo: "bitmaps_ok fs" and ge: "geom fs"
  shows "\<exists>rc fs'. ext2_bitmap_sync fs sel = Some (rc, fs') \<and> at fs' \<and> bits_eq content fs fs'
    \<and> (\<forall>s. bm_ok content s fs') \<and> (\<forall>s. s \<noteq> sel \<longrightarrow> get_bm s fs' = get_bm s fs)
    \<and> bc_buf (get_bm sel fs') = bc_buf (get_bm sel fs)
    \<and> bc_cached (get_bm sel fs') = bc_cached (get_bm sel fs)
    \<and> (rc = BLOCK_OK \<longrightarrow> \<not> bc_dirty (get_bm sel fs'))"
proof (cases "bc_dirty (get_bm sel fs)")
  case False
  then show ?thesis using a ok by (simp add: ext2_bitmap_sync_def Let_def)
next
  case True
  define bc where "bc = get_bm sel fs"
  have bs: "0 < bsize fs" using a by (simp add: on_device_def)
  have l: "length (bc_buf bc) = bsize fs" and c0: "bc_cached bc \<noteq> 0"
    using ok [of sel] True by (auto simp: bm_ok_def Let_def bc_def)
  obtain g where g: "g < group_count fs" "bc_cached bc = bm_block sel (gdt fs ! g) + 1"
    using ok [of sel] c0 by (auto simp: bm_ok_def Let_def bc_def)
  define bb where "bb = bm_block sel (gdt fs ! g)"
  have bb: "bb < blocks_count fs" using bo g(1) by (auto simp: bitmaps_ok_def bb_def)
  from write_block_ok [OF a l, of bb] obtain rc f where w:
    "ext2_write_block fs bb (bc_buf bc) = Some (rc, f)" "same_but_dev fs f" "at f"
    "\<forall>c<blocks_count fs. blk content f c = (if rc = BLOCK_OK \<and> c = bb then bc_buf bc else blk content fs c)"
    by blast
  note sl = same_lay [OF w(2)] and gs = get_bm_same [OF w(2)] and sd = same_but_devD [OF w(2)]
  define fs' where "fs' = (if rc = BLOCK_OK then set_bm sel (bc\<lparr>bc_dirty := False\<rparr>) f else f)"
  have run: "ext2_bitmap_sync fs sel = Some (rc, fs')"
    using True c0 l bs w(1) g(2) gs by (auto simp: ext2_bitmap_sync_def Let_def bc_def [symmetric] fs'_def bb_def)
  have at': "at fs'" using w(3) by (simp add: fs'_def)
  have bk: "blk content fs' = blk content f" by (simp add: fs'_def)
  have lf: "lay fs' = lay fs" "rest_of fs' = rest_of fs" "pending_free fs' = pending_free fs"
    "gdt fs' = gdt fs" "bsize fs' = bsize fs" "group_count fs' = group_count fs"
    using sl sd by (simp_all add: fs'_def)
  have gb: "bc_buf (get_bm sel fs') = bc_buf bc" "bc_cached (get_bm sel fs') = bc_cached bc"
    using gs by (simp_all add: fs'_def bc_def)
  have go: "s \<noteq> sel \<Longrightarrow> get_bm s fs' = get_bm s fs" for s using gs by (simp add: fs'_def)
  have other: "blk content fs' (bm_block s (gdt fs ! g')) = blk content fs (bm_block s (gdt fs ! g'))"
    if "s \<noteq> sel \<or> g' \<noteq> g" "g' < group_count fs" for s g'
  proof -
    have "bm_block s (gdt fs ! g') \<noteq> bb" using bm_blocks_differ [OF bo that(2) g(1)] that(1)
      by (auto simp: bb_def)
    moreover have "bm_block s (gdt fs ! g') < blocks_count fs" using bo that(2) by (auto simp: bitmaps_ok_def)
    ultimately show ?thesis using w(4) bk by simp
  qed
  have bits: "bm_bits content s fs' g' = bm_bits content s fs g'" if g': "g' < group_count fs" for s g'
  proof (cases "s = sel \<and> g' = g")
    case True
    then show ?thesis using g(2) gb by (simp add: bm_bits_def lf bc_def [symmetric])
  next
    case False
    then have "blk content fs' (bm_block s (gdt fs ! g')) = blk content fs (bm_block s (gdt fs ! g'))"
      using other g' by blast
    then show ?thesis using gb go [of s] by (cases "s = sel") (auto simp: bm_bits_def lf bc_def)
  qed
  have ib: "\<not> is_bitmap fs c \<Longrightarrow> c \<noteq> bb" for c using g(1) by (auto simp: is_bitmap_def bb_def)
  have be: "bits_eq content fs fs'"
    unfolding bits_eq_def using lf bits w(4) bk ib by simp
  have okk: "bm_ok content s fs'" for s
  proof (cases "s = sel")
    case True
    have "bc_buf bc = blk content fs' bb" if "\<not> bc_dirty (get_bm sel fs')"
    proof (cases "rc = BLOCK_OK")
      case False
      then show ?thesis using that gs \<open>bc_dirty (get_bm sel fs)\<close> by (simp add: fs'_def)
    qed (use w(4) bb bk in simp)
    then show ?thesis using l g gb True
      by (auto simp: bm_ok_def Let_def lf bb_def [symmetric])
  next
    case False
    have "bc_cached (get_bm s fs) \<noteq> 0 \<Longrightarrow> blk content fs' (bc_cached (get_bm s fs) - 1)
        = blk content fs (bc_cached (get_bm s fs) - 1)"
      using ok [of s] other False by (auto simp: bm_ok_def Let_def)
    then show ?thesis using ok [of s] go [OF False] by (auto simp: bm_ok_def Let_def lf)
  qed
  show ?thesis
    using run at' be okk gb go by (auto simp: bc_def [symmetric]) (simp add: fs'_def)
qed

lemma bitmap_get_ok:
  assumes a: "at fs" and ok: "\<And>s. bm_ok content s fs" and bo: "bitmaps_ok fs" and ge: "geom fs"
    and g: "g < group_count fs"
  shows "\<exists>rc fs'. ext2_bitmap_get fs sel (bm_block sel (gdt fs ! g)) = Some (rc, fs') \<and> at fs'
    \<and> bits_eq content fs fs' \<and> (\<forall>s. bm_ok content s fs')
    \<and> (rc = 0 \<longrightarrow> bc_cached (get_bm sel fs') = bm_block sel (gdt fs ! g) + 1)"
proof -
  define bb where "bb = bm_block sel (gdt fs ! g)"
  have bs: "0 < bsize fs" and bc32: "blocks_count fs < 4294967296" using a by (simp_all add: on_device_def)
  have bb: "0 < bb" "bb < blocks_count fs" using bo g by (auto simp: bitmaps_ok_def bb_def)
  have ne: "bc_buf (get_bm sel fs) \<noteq> []" using ok [of sel] bs by (auto simp: bm_ok_def Let_def)
  have w1: "wrap32 (bb + 1) = bb + 1" using bb bc32 by simp
  show ?thesis
  proof (cases "bc_cached (get_bm sel fs) = bb + 1")
    case True
    then have "ext2_bitmap_get fs sel bb = Some (0, fs)"
      using ne bb w1 unfolding ext2_bitmap_get_def Let_def by simp
    then show ?thesis unfolding bb_def [symmetric] using a ok True by auto
  next
    case False
    from bitmap_sync_ok [OF a ok bo ge, of sel] obtain rc f where s:
      "ext2_bitmap_sync fs sel = Some (rc, f)" "at f" "bits_eq content fs f" "\<And>s. bm_ok content s f"
      "rc = BLOCK_OK \<longrightarrow> \<not> bc_dirty (get_bm sel f)" by blast
    have lf: "lay f = lay fs" using s(3) by (simp add: bits_eq_def)
    note lff = lay_fields [OF lf] and lfn = lay_nth [OF lf geom_length [OF ge]]
    have run1: "ext2_bitmap_get fs sel bb = (if rc \<noteq> BLOCK_OK then Some (-1, f)
       else do { (rc, buf, fs) \<leftarrow> ext2_read_block f bb (bc_buf (get_bm sel f));
         if rc \<noteq> BLOCK_OK
         then Some (-1, set_bm sel ((get_bm sel fs)\<lparr>bc_buf := buf, bc_cached := 0\<rparr>) fs)
         else Some (0, set_bm sel \<lparr>bc_buf = buf, bc_cached = bb + 1, bc_dirty = False\<rparr> fs) })"
      using ne bb False s(1) unfolding ext2_bitmap_get_def Let_def w1 by simp
    show ?thesis
    proof (cases "rc = BLOCK_OK")
      case no: False
      then show ?thesis unfolding bb_def [symmetric] run1 using s(2-4) by simp
    next
      case True
      have lb: "length (bc_buf (get_bm sel f)) = bsize f" using s(4) [of sel] by (simp add: bm_ok_def Let_def)
      from read_block_ok [OF s(2) lb, of bb] obtain rc2 buf h where r:
        "ext2_read_block f bb (bc_buf (get_bm sel f)) = Some (rc2, buf, h)" "same_but_dev f h"
        "e_dev h = e_dev f" "at h" "length buf = bsize f" "rc2 = BLOCK_OK \<longrightarrow> buf = blk content f bb" by blast
      note sl = same_lay [OF r(2)] and gs = get_bm_same [OF r(2)] and sd = same_but_devD [OF r(2)]
      have bk: "blk content h = blk content f" using r(3) sd(2) by (simp add: blk_def fun_eq_iff)
      have clean: "\<not> bc_dirty (get_bm sel f)" using s(5) True by simp
      define nc where "nc = (if rc2 \<noteq> BLOCK_OK then (get_bm sel f)\<lparr>bc_buf := buf, bc_cached := 0\<rparr>
        else \<lparr>bc_buf = buf, bc_cached = bb + 1, bc_dirty = False\<rparr>)"
      define fs' where "fs' = set_bm sel nc h"
      have run: "ext2_bitmap_get fs sel bb = Some (if rc2 \<noteq> BLOCK_OK then -1 else 0, fs')"
        unfolding run1 using True r(1) gs by (simp add: fs'_def nc_def)
      have lf2: "lay fs' = lay f" "rest_of fs' = rest_of f" "pending_free fs' = pending_free f"
        "gdt fs' = gdt f" "bsize fs' = bsize f" "group_count fs' = group_count f" "blk content fs' = blk content f"
        using sl sd bk by (simp_all add: fs'_def)
      have gm: "get_bm s fs' = (if s = sel then nc else get_bm s f)" for s using gs by (simp add: fs'_def)
      have gef: "geom f" using lay_geom [OF lf] ge by simp
      have bof: "bitmaps_ok f" using lay_bitmap(2) [OF lf ge] bo by simp
      have bbf: "bb = bm_block sel (gdt f ! g)" using lfn(1) [OF g] by (simp add: bb_def)
      have bits_sel: "bm_bits content sel f g' = blk content f (bm_block sel (gdt f ! g'))"
        if g': "g' < group_count f" for g'
      proof (cases "bc_cached (get_bm sel f) = bm_block sel (gdt f ! g') + 1")
        case True
        then show ?thesis using clean s(4) [of sel] by (auto simp: bm_bits_def bm_ok_def Let_def)
      qed (simp add: bm_bits_def)
      have bits: "bm_bits content s fs' g' = bm_bits content s f g'" if g': "g' < group_count f" for s g'
      proof (cases "s = sel")
        case True
        show ?thesis
        proof (cases "rc2 = BLOCK_OK \<and> g' = g")
          case yes: True
          have "bm_bits content sel fs' g' = buf" using yes gm [of sel] bbf
            by (simp add: bm_bits_def lf2 nc_def)
          then show ?thesis using True yes bits_sel [OF g'] r(6) bbf by simp
        next
          case no: False
          have "rc2 = BLOCK_OK \<Longrightarrow> bb \<noteq> bm_block sel (gdt f ! g')"
            using bm_blocks_differ [OF bof g', of g sel sel] no g lff(7) bbf by auto
          then have "bm_bits content sel fs' g' = blk content f (bm_block sel (gdt f ! g'))"
            using gm [of sel] by (auto simp: bm_bits_def lf2 nc_def)
          then show ?thesis using True bits_sel [OF g'] by simp
        qed
      next
        case False
        then show ?thesis using gm [of s] by (simp add: bm_bits_def lf2)
      qed
      have "bits_eq content f fs'" unfolding bits_eq_def using lf2 bits by simp
      note be = bits_eq_trans [OF s(3) this ge]
      have okk: "bm_ok content s fs'" for s
      proof (cases "s = sel")
        case True
        have "\<exists>g'<group_count f. bb + 1 = bm_block sel (gdt f ! g') + 1" using g lff(7) bbf by auto
        then show ?thesis using True gm [of sel] r(5,6) clean
          by (auto simp: bm_ok_def Let_def lf2 nc_def)
      next
        case False
        then show ?thesis using gm [of s] s(4) [of s] by (simp add: bm_ok_def Let_def lf2)
      qed
      have "at fs'" using r(4) by (simp add: fs'_def)
      moreover have "rc2 = BLOCK_OK \<Longrightarrow> bc_cached (get_bm sel fs') = bb + 1" using gm [of sel] by (simp add: nc_def)
      ultimately show ?thesis unfolding bb_def [symmetric] run using be okk by auto
    qed
  qed
qed

end

section \<open>Blocks and their bits\<close>

lemma group_blocks_le:
  "geom fs \<Longrightarrow> i < ext2_group_blocks fs g
   \<Longrightarrow> i < bpg fs \<and> i < 8 * bsize fs \<and> g * bpg fs + first_data_block fs + i < blocks_count fs
     \<and> g < group_count fs"
proof -
  assume ge: "geom fs" and i: "i < ext2_group_blocks fs g"
  then have b: "i < bpg fs" "g * bpg fs + first_data_block fs + i < blocks_count fs"
    by (auto simp: ext2_group_blocks_def Let_def split: if_splits)
  have "g < group_count fs"
  proof (rule ccontr)
    assume "\<not> g < group_count fs"
    then have "group_count fs * bpg fs \<le> g * bpg fs" by (intro mult_le_mono1) simp
    moreover have "blocks_count fs - first_data_block fs \<le> group_count fs * bpg fs"
      using ge by (simp add: geom_def)
    ultimately show False using b(2) by linarith
  qed
  then show ?thesis using b ge by (auto simp: geom_def)
qed

lemma block_of_bit_eq:
  "geom fs \<Longrightarrow> i < ext2_group_blocks fs g \<Longrightarrow> block_of_bit fs g i = g * bpg fs + first_data_block fs + i"
  using group_blocks_le [of fs i g] unfolding block_of_bit_def geom_def by (intro wrap32_id) linarith

lemma bit_cap: "geom fs \<Longrightarrow> wrap32 (bsize fs * 8) = 8 * bsize fs"
  by (simp add: geom_def)

text \<open>A block can be freed when it is a bit of a group's bitmap outside the first group's
  metadata; it determines the group and the bit.\<close>

lemma freeable_iff:
  assumes "geom fs"
  shows "ext2_block_freeable fs b = Some (g, i) \<longleftrightarrow> i < ext2_group_blocks fs g
    \<and> b = g * bpg fs + first_data_block fs + i \<and> \<not> (g = 0 \<and> b < ext2_first_allocatable fs)"
proof
  assume f: "ext2_block_freeable fs b = Some (g, i)"
  then have "first_data_block fs \<le> b" "g = (b - first_data_block fs) div bpg fs"
    "i = (b - first_data_block fs) mod bpg fs" "i < ext2_group_blocks fs g"
    "\<not> (g = 0 \<and> b < ext2_first_allocatable fs)"
    by (auto simp: ext2_block_freeable_def Let_def split: if_splits)
  moreover from this have "g * bpg fs + i = b - first_data_block fs" by simp
  ultimately show "i < ext2_group_blocks fs g \<and> b = g * bpg fs + first_data_block fs + i
      \<and> \<not> (g = 0 \<and> b < ext2_first_allocatable fs)" by linarith
next
  assume r: "i < ext2_group_blocks fs g \<and> b = g * bpg fs + first_data_block fs + i
    \<and> \<not> (g = 0 \<and> b < ext2_first_allocatable fs)"
  note gb = group_blocks_le [OF assms conjunct1 [OF r]]
  have sub: "b - first_data_block fs = g * bpg fs + i" using r by simp
  have "(g * bpg fs + i) div bpg fs = g" "(g * bpg fs + i) mod bpg fs = i" using gb by simp_all
  then show "ext2_block_freeable fs b = Some (g, i)"
    using r gb bit_cap [OF assms] by (auto simp: ext2_block_freeable_def Let_def sub)
qed

lemma freeable_less:
  assumes "geom fs" "ext2_block_freeable fs b = Some (g, i)"
  shows "b < blocks_count fs" "g < group_count fs" "i < 8 * bsize fs" "block_of_bit fs g i = b"
  using freeable_iff [OF assms(1)] assms(2) group_blocks_le [OF assms(1), of i g]
    block_of_bit_eq [OF assms(1), of i g] by auto

text \<open>The state of a block's bit.\<close>

definition in_use :: "('d \<Rightarrow> u8 list) \<Rightarrow> 'd ext2 \<Rightarrow> nat \<Rightarrow> bool" where
  "in_use content fs b = (case ext2_block_freeable fs b of None \<Rightarrow> False
     | Some (g, i) \<Rightarrow> bget (bm_bits content BlockBits fs g) i)"

definition claimable :: "('d \<Rightarrow> u8 list) \<Rightarrow> 'd ext2 \<Rightarrow> nat \<Rightarrow> bool" where
  "claimable content fs b = (case ext2_block_freeable fs b of None \<Rightarrow> False
     | Some (g, i) \<Rightarrow> \<not> bget (bm_bits content BlockBits fs g) i)"

definition alloc_inv :: "('d \<Rightarrow> u8 list) \<Rightarrow> 'd ext2 \<Rightarrow> bool" where
  "alloc_inv content fs \<longleftrightarrow> geom fs \<and> bitmaps_ok fs \<and> (\<forall>s. bm_ok content s fs)
     \<and> (\<forall>b. is_meta fs b \<longrightarrow> \<not> claimable content fs b)
     \<and> (\<forall>b\<in>set (pending_free fs). in_use content fs b \<and> \<not> is_meta fs b)
     \<and> distinct (pending_free fs)"

text \<open>\<open>claimed content fs b fs'\<close>: block \<open>b\<close> was free in \<open>fs\<close>; in \<open>fs'\<close> its bit is set, in the bitmap
  on the disk too, the block is zeroed, and every other bit and every other block outside the
  bitmaps is as before.\<close>

definition claimed :: "('d \<Rightarrow> u8 list) \<Rightarrow> 'd ext2 \<Rightarrow> nat \<Rightarrow> 'd ext2 \<Rightarrow> bool" where
  "claimed content fs b fs' \<longleftrightarrow> lay fs' = lay fs \<and> rest_of fs' = rest_of fs
     \<and> pending_free fs' = pending_free fs
     \<and> claimable content fs b \<and> in_use content fs' b
     \<and> (\<forall>c. c \<noteq> b \<longrightarrow> in_use content fs' c = in_use content fs c \<and> claimable content fs' c = claimable content fs c)
     \<and> (\<forall>g<group_count fs. bm_bits content InodeBits fs' g = bm_bits content InodeBits fs g)
     \<and> blk content fs' b = replicate (bsize fs) 0
     \<and> (\<forall>c<blocks_count fs. \<not> is_bitmap fs c \<longrightarrow> c \<noteq> b \<longrightarrow> blk content fs' c = blk content fs c)
     \<and> (\<forall>g i. ext2_block_freeable fs b = Some (g, i)
          \<longrightarrow> blk content fs' (bg_block_bitmap (gdt fs ! g)) = bm_bits content BlockBits fs' g)"

lemma in_use_cong:
  assumes "lay fs' = lay fs" "geom fs"
    "\<And>g. g < group_count fs \<Longrightarrow> bm_bits content BlockBits fs' g = bm_bits content BlockBits fs g"
  shows "in_use content fs' b = in_use content fs b" "claimable content fs' b = claimable content fs b"
  using lay_funs(3) [OF assms(1,2), of b] assms(3) freeable_less(2) [OF assms(2), of b]
  by (auto simp: in_use_def claimable_def split: option.splits)

lemma bits_eqD:
  assumes "bits_eq content fs fs'" "geom fs"
  shows "lay fs' = lay fs" "rest_of fs' = rest_of fs" "pending_free fs' = pending_free fs"
    "in_use content fs' b = in_use content fs b" "claimable content fs' b = claimable content fs b"
    "geom fs'" "bitmaps_ok fs' = bitmaps_ok fs" "is_meta fs' b = is_meta fs b" "is_bitmap fs' b = is_bitmap fs b"
  using assms lay_geom [of fs' fs] lay_bitmap [of fs' fs] in_use_cong [of fs' fs content]
  by (simp_all add: bits_eq_def)

lemma bits_eq_inv:
  assumes "bits_eq content fs fs'" "alloc_inv content fs" "\<And>s. bm_ok content s fs'"
  shows "alloc_inv content fs'"
proof -
  have ge: "geom fs" using assms(2) by (simp add: alloc_inv_def)
  show ?thesis using assms(2,3) unfolding alloc_inv_def by (simp add: bits_eqD [OF assms(1) ge])
qed

text \<open>Steps that leave both caches and all bitmap blocks alone leave every bit alone.\<close>

lemma bits_frame:
  assumes l: "lay fs' = lay fs" and ge: "geom fs" and bo: "bitmaps_ok fs"
    and gm: "\<And>s. get_bm s fs' = get_bm s fs"
    and bk: "\<And>c. is_bitmap fs c \<Longrightarrow> c < blocks_count fs \<Longrightarrow> blk content fs' c = blk content fs c"
  shows "g < group_count fs \<Longrightarrow> bm_bits content s fs' g = bm_bits content s fs g"
    "bm_ok content s fs \<Longrightarrow> bm_ok content s fs'"
proof -
  note f = lay_fields [OF l] and n = lay_nth [OF l geom_length [OF ge]]
  have b: "blk content fs' (bm_block s (gdt fs ! g)) = blk content fs (bm_block s (gdt fs ! g))"
    if "g < group_count fs" for g
    by (rule bk) (use that bo in \<open>auto simp: is_bitmap_def bitmaps_ok_def\<close>)
  show "bm_bits content s fs' g = bm_bits content s fs g" if "g < group_count fs"
    using b [OF that] n(1) [OF that] gm [of s] by (simp add: bm_bits_def)
  assume k: "bm_ok content s fs"
  have ex: "(\<exists>g<group_count fs. x = bm_block s (gdt fs' ! g) + 1) = (\<exists>g<group_count fs. x = bm_block s (gdt fs ! g) + 1)" for x
    by (simp add: n cong: conj_cong)
  show "bm_ok content s fs'"
  proof (cases "bc_cached (get_bm s fs) = 0")
    case True
    then show ?thesis using k by (simp add: bm_ok_def Let_def gm f)
  next
    case False
    then obtain g where g: "g < group_count fs" "bc_cached (get_bm s fs) = bm_block s (gdt fs ! g) + 1"
      using k by (auto simp: bm_ok_def Let_def)
    then show ?thesis using k ex b [OF g(1)] by (simp add: bm_ok_def Let_def gm f)
  qed
qed

text \<open>Writing into the cached bitmap changes the bits of the cached group only.\<close>

lemma put_bits:
  assumes bo: "bitmaps_ok fs" and g: "g < group_count fs"
    and c: "bc_cached (get_bm sel fs) = bm_block sel (gdt fs ! g) + 1" and l: "length buf = bsize fs"
    and ok: "\<And>s. bm_ok content s fs"
  defines "fs' \<equiv> set_bm sel ((get_bm sel fs)\<lparr>bc_buf := buf, bc_dirty := True\<rparr>) fs"
  shows "\<And>s. bm_ok content s fs'"
    "\<And>s g'. g' < group_count fs \<Longrightarrow> bm_bits content s fs' g'
      = (if s = sel \<and> g' = g then buf else bm_bits content s fs g')"
proof -
  show "bm_ok content s fs'" for s
    using ok [of s] c l g by (auto simp: bm_ok_def Let_def fs'_def)
  show "bm_bits content s fs' g' = (if s = sel \<and> g' = g then buf else bm_bits content s fs g')"
    if g': "g' < group_count fs" for s g'
    using bm_blocks_differ [OF bo g' g, of sel sel] c by (auto simp: bm_bits_def fs'_def)
qed

lemma upd_gdesc_lay:
  "(\<And>g. gd_lay (f g) = gd_lay g) \<Longrightarrow> lay (upd_gdesc i f fs) = lay fs"
  by (simp add: lay_def upd_gdesc_def map_update)
    (metis list_update_id list_update_beyond map_update nth_map not_le)

lemma upd_gdesc_fields [simp]:
  "get_bm s (upd_gdesc i f fs) = get_bm s fs" "blk content (upd_gdesc i f fs) = blk content fs"
  "rest_of (upd_gdesc i f fs) = rest_of fs" "pending_free (upd_gdesc i f fs) = pending_free fs"
  "on_device rd wr good (upd_gdesc i f fs) = on_device rd wr good fs"
  by (cases s; simp add: upd_gdesc_def blk_def rest_of_def on_device_def fun_eq_iff)+

lemma count_lay [simp]:
  "lay (count_block_claimed g fs) = lay fs" "lay (count_block_freed g fs) = lay fs"
  "lay (count_inode_claimed g fs) = lay fs" "lay (count_inode_freed g fs) = lay fs"
proof -
  have hint: "lay (f\<lparr>block_alloc_hint := x\<rparr>) = lay f" "lay (f\<lparr>inode_alloc_hint := x\<rparr>) = lay f" for f :: "'d ext2" and x
    by (simp_all add: lay_def)
  show "lay (count_block_claimed g fs) = lay fs" "lay (count_block_freed g fs) = lay fs"
    "lay (count_inode_claimed g fs) = lay fs" "lay (count_inode_freed g fs) = lay fs"
    unfolding count_block_claimed_def count_block_freed_def count_inode_claimed_def
      count_inode_freed_def Let_def hint
    by (subst upd_gdesc_lay, simp add: gd_lay_def, simp add: lay_def)+
qed

lemma count_fields [simp]:
  "get_bm s (count_block_claimed g fs) = get_bm s fs" "get_bm s (count_block_freed g fs) = get_bm s fs"
  "get_bm s (count_inode_claimed g fs) = get_bm s fs" "get_bm s (count_inode_freed g fs) = get_bm s fs"
  "blk content (count_block_claimed g fs) = blk content fs" "blk content (count_block_freed g fs) = blk content fs"
  "blk content (count_inode_claimed g fs) = blk content fs" "blk content (count_inode_freed g fs) = blk content fs"
  "rest_of (count_block_claimed g fs) = rest_of fs" "rest_of (count_block_freed g fs) = rest_of fs"
  "rest_of (count_inode_claimed g fs) = rest_of fs" "rest_of (count_inode_freed g fs) = rest_of fs"
  "pending_free (count_block_claimed g fs) = pending_free fs" "pending_free (count_block_freed g fs) = pending_free fs"
  "pending_free (count_inode_claimed g fs) = pending_free fs" "pending_free (count_inode_freed g fs) = pending_free fs"
  "on_device rd wr good (count_block_claimed g fs) = on_device rd wr good fs"
  "on_device rd wr good (count_block_freed g fs) = on_device rd wr good fs"
  "on_device rd wr good (count_inode_claimed g fs) = on_device rd wr good fs"
  "on_device rd wr good (count_inode_freed g fs) = on_device rd wr good fs"
  by (cases s; simp add: count_block_claimed_def count_block_freed_def count_inode_claimed_def
      count_inode_freed_def Let_def upd_gdesc_def blk_def rest_of_def on_device_def fun_eq_iff)+

end
