(* ===== verification/Ext2_Alloc_Ops.thy ===== *)
theory Ext2_Alloc_Ops
  imports Ext2_Alloc_Inv
begin

text \<open>
  One rule per allocator operation of ext2: what it does to the bits, and that it keeps the
  invariant, whatever transfers and allocations fail on the way.
\<close>

section \<open>Claiming a block\<close>

lemma bset_undo: "i div 8 < length xs \<Longrightarrow> (bset xs i)[i div 8 := xs ! (i div 8)] = xs"
  by (simp add: bset_def)

lemma on_device_bits [simp]:
  "on_device rd wr good (restore_byte s i x fs) = on_device rd wr good fs"
  "on_device rd wr good (claim_bit s i fs) = on_device rd wr good fs"
  "on_device rd wr good (clear_bit s i fs) = on_device rd wr good fs"
  by (simp_all only: restore_byte_def claim_bit_def clear_bit_def Let_def on_device_set_bm)

lemma get_bm_pending: "get_bm s (fs\<lparr>pending_free := xs\<rparr>) = get_bm s fs"
  by (cases s) simp_all

lemma pending_fields:
  "lay (fs\<lparr>pending_free := xs\<rparr>) = lay fs" "rest_of (fs\<lparr>pending_free := xs\<rparr>) = rest_of fs"
  "blk content (fs\<lparr>pending_free := xs\<rparr>) = blk content fs"
  by (simp_all add: lay_def rest_of_def blk_def fun_eq_iff)

lemma claimed_trans:
  assumes e: "bits_eq content fs f" and ge: "geom fs" and c: "claimed content f b fs'"
  shows "claimed content fs b fs'"
proof -
  have l: "lay f = lay fs" using e by (simp add: bits_eq_def)
  note d = bits_eqD [OF e ge] and lf = lay_fields [OF l] and lu = lay_funs [OF l ge]
  have bm: "ext2_block_freeable fs b = Some (g, i) \<Longrightarrow> bg_block_bitmap (gdt f ! g) = bg_block_bitmap (gdt fs ! g)" for g i
    using freeable_less(2) [OF ge] lay_nth(2) [OF l geom_length [OF ge]] by blast
  have ib: "g < group_count fs \<Longrightarrow> bm_bits content InodeBits f g = bm_bits content InodeBits fs g" for g
    using e by (simp add: bits_eq_def)
  have bk: "c < blocks_count fs \<Longrightarrow> \<not> is_bitmap fs c \<Longrightarrow> blk content f c = blk content fs c" for c
    using e by (simp add: bits_eq_def)
  show ?thesis using c bm ib bk unfolding claimed_def by (simp add: d lf lu)
qed

lemma claimed_inv:
  assumes c: "claimed content fs b fs'" and inv: "alloc_inv content fs" and ok: "\<And>s. bm_ok content s fs'"
  shows "alloc_inv content fs'"
proof -
  have l: "lay fs' = lay fs" and p: "pending_free fs' = pending_free fs" and u: "in_use content fs' b"
    and o: "\<And>c. c \<noteq> b \<Longrightarrow> in_use content fs' c = in_use content fs c"
      "\<And>c. c \<noteq> b \<Longrightarrow> claimable content fs' c = claimable content fs c"
    using c by (simp_all add: claimed_def)
  have ge: "geom fs" using inv by (simp add: alloc_inv_def)
  note lb = lay_bitmap [OF l ge]
  have nb: "\<not> claimable content fs' b" using u by (auto simp: in_use_def claimable_def split: option.splits)
  have "\<not> claimable content fs' x" if "is_meta fs x" for x
    using nb o(2) [of x] inv that by (cases "x = b") (auto simp: alloc_inv_def)
  moreover have "in_use content fs' x" if "x \<in> set (pending_free fs)" for x
    using u o(1) [of x] inv that by (cases "x = b") (auto simp: alloc_inv_def)
  ultimately show ?thesis
    using inv ok lay_geom [OF l] unfolding alloc_inv_def by (simp add: lb p)
qed

lemma alloc_invD:
  assumes "alloc_inv content fs"
  shows "geom fs" "bitmaps_ok fs" "bm_ok content s fs" "is_meta fs b \<Longrightarrow> \<not> claimable content fs b"
    "b \<in> set (pending_free fs) \<Longrightarrow> in_use content fs b" "b \<in> set (pending_free fs) \<Longrightarrow> \<not> is_meta fs b"
    "distinct (pending_free fs)"
  using assms unfolding alloc_inv_def by blast+

text \<open>\<open>freed content fs S fs'\<close>: only bits of blocks in \<open>S\<close> may have been cleared.\<close>

definition freed :: "('d \<Rightarrow> u8 list) \<Rightarrow> 'd ext2 \<Rightarrow> nat set \<Rightarrow> 'd ext2 \<Rightarrow> bool" where
  "freed content fs S fs' \<longleftrightarrow> lay fs' = lay fs \<and> rest_of fs' = rest_of fs
     \<and> (\<forall>c. c \<notin> S \<longrightarrow> in_use content fs' c = in_use content fs c \<and> claimable content fs' c = claimable content fs c)
     \<and> (\<forall>g<group_count fs. bm_bits content InodeBits fs' g = bm_bits content InodeBits fs g)
     \<and> (\<forall>c<blocks_count fs. \<not> is_bitmap fs c \<longrightarrow> blk content fs' c = blk content fs c)"

text \<open>The invariant without the queue, which holds while the queue is being flushed.\<close>

definition alloc_core :: "('d \<Rightarrow> u8 list) \<Rightarrow> 'd ext2 \<Rightarrow> bool" where
  "alloc_core content fs \<longleftrightarrow> geom fs \<and> bitmaps_ok fs \<and> (\<forall>s. bm_ok content s fs)
     \<and> (\<forall>b. is_meta fs b \<longrightarrow> \<not> claimable content fs b)"

lemma alloc_coreD:
  assumes "alloc_core content fs"
  shows "geom fs" "bitmaps_ok fs" "bm_ok content s fs" "is_meta fs b \<Longrightarrow> \<not> claimable content fs b"
  using assms unfolding alloc_core_def by blast+

lemma alloc_inv_core: "alloc_inv content fs \<Longrightarrow> alloc_core content fs"
  by (simp add: alloc_inv_def alloc_core_def)

lemma bits_eq_core:
  assumes "bits_eq content fs fs'" "alloc_core content fs" "\<And>s. bm_ok content s fs'"
  shows "alloc_core content fs'"
  using assms(2,3) unfolding alloc_core_def by (simp add: bits_eqD [OF assms(1) alloc_coreD(1) [OF assms(2)]])

lemma bits_eq_freed: "bits_eq content fs fs' \<Longrightarrow> geom fs \<Longrightarrow> freed content fs S fs'"
  by (simp add: freed_def bits_eqD(1,2,4,5)) (simp add: bits_eq_def)

lemma freed_mono: "freed content fs S fs' \<Longrightarrow> S \<subseteq> T \<Longrightarrow> freed content fs T fs'"
  unfolding freed_def by blast

lemma freed_trans:
  assumes "freed content a S b" "freed content b T c" "geom a"
  shows "freed content a (S \<union> T) c"
proof -
  have l: "lay b = lay a" using assms(1) by (simp add: freed_def)
  note f = lay_fields [OF l] and ib = lay_bitmap(1) [OF l assms(3)]
  show ?thesis using assms(1,2) f ib unfolding freed_def by simp
qed

lemma length_bits:
  assumes "bm_ok content s fs" "bc_cached (get_bm s fs) = bm_block s (gdt fs ! g) + 1"
  shows "bm_bits content s fs g = bc_buf (get_bm s fs)" "length (bc_buf (get_bm s fs)) = bsize fs"
  using assms by (simp_all add: bm_bits_def bm_ok_def Let_def)

context failstop_device
begin

lemma claim_sync_ok:
  assumes a: "at fs" and ok: "\<And>s. bm_ok content s fs" and bo: "bitmaps_ok fs" and ge: "geom fs"
    and g: "g < group_count fs" and c: "bc_cached (get_bm sel fs) = bm_block sel (gdt fs ! g) + 1"
    and i: "i < 8 * bsize fs"
  shows "\<exists>rc f. ext2_bitmap_sync (claim_bit sel i fs) sel = Some (rc, f) \<and> at f \<and> lay f = lay fs
    \<and> rest_of f = rest_of fs \<and> pending_free f = pending_free fs \<and> (\<forall>s. bm_ok content s f)
    \<and> bc_cached (get_bm sel f) = bm_block sel (gdt fs ! g) + 1
    \<and> bc_buf (get_bm sel f) = bset (bc_buf (get_bm sel fs)) i
    \<and> (\<forall>s g'. g' < group_count fs \<longrightarrow> bm_bits content s f g'
        = (if s = sel \<and> g' = g then bset (bm_bits content sel fs g) i else bm_bits content s fs g'))
    \<and> (\<forall>c<blocks_count fs. \<not> is_bitmap fs c \<longrightarrow> blk content f c = blk content fs c)
    \<and> (rc = BLOCK_OK \<longrightarrow> blk content f (bm_block sel (gdt fs ! g)) = bm_bits content sel f g)"
proof -
  define fs1 where "fs1 = claim_bit sel i fs"
  have e1: "fs1 = set_bm sel ((get_bm sel fs)\<lparr>bc_buf := bset (bc_buf (get_bm sel fs)) i, bc_dirty := True\<rparr>) fs"
    by (simp add: fs1_def claim_bit_def Let_def)
  note lb = length_bits [OF ok c]
  note pb = put_bits [OF bo g c _ ok, where buf = "bset (bc_buf (get_bm sel fs)) i", folded e1, unfolded length_bset, OF lb(2)]
  have l1: "lay fs1 = lay fs" "rest_of fs1 = rest_of fs" "pending_free fs1 = pending_free fs" "gdt fs1 = gdt fs"
    "blk content fs1 = blk content fs" "at fs1 = at fs" "bsize fs1 = bsize fs" "group_count fs1 = group_count fs"
    by (simp_all add: e1)
  have ge1: "geom fs1" and bo1: "bitmaps_ok fs1" using lay_geom [OF l1(1)] lay_bitmap(2) [OF l1(1) ge] ge bo by simp_all
  from bitmap_sync_ok [OF _ pb(1) bo1 ge1, of sel] a l1 obtain rc f where s:
    "ext2_bitmap_sync fs1 sel = Some (rc, f)" "at f" "bits_eq content fs1 f" "\<And>s. bm_ok content s f"
    "bc_buf (get_bm sel f) = bc_buf (get_bm sel fs1)" "bc_cached (get_bm sel f) = bc_cached (get_bm sel fs1)"
    "rc = BLOCK_OK \<longrightarrow> \<not> bc_dirty (get_bm sel f)" by auto
  have lf: "lay f = lay fs" using s(3) l1 by (simp add: bits_eq_def)
  have gf: "bm_block sel (gdt f ! g) = bm_block sel (gdt fs ! g)"
    by (rule lay_nth(1) [OF lf geom_length [OF ge g]])
  have cf: "bc_cached (get_bm sel f) = bm_block sel (gdt fs ! g) + 1" using s(6) c e1 by simp
  have bits: "bm_bits content s f g' = (if s = sel \<and> g' = g then bset (bm_bits content sel fs g) i else bm_bits content s fs g')"
    if "g' < group_count fs" for s g'
    using s(3) pb(2) [OF that, of s] that lb(1) by (simp add: bits_eq_def l1)
  have bk: "blk content f c = blk content fs c" if "c < blocks_count fs" "\<not> is_bitmap fs c" for c
    using s(3) that lay_bitmap(1) [OF l1(1) ge] lay_fields(2) [OF l1(1)] by (simp add: bits_eq_def l1)
  have dur: "blk content f (bm_block sel (gdt fs ! g)) = bm_bits content sel f g" if "rc = BLOCK_OK"
    using s(4) [of sel] s(7) that cf gf by (simp add: bm_ok_def bm_bits_def Let_def)
  show ?thesis unfolding fs1_def [symmetric] using s(1-6) lf l1 cf bits bk dur
    by (simp add: bits_eq_def e1)
qed

text \<open>Undoing the claim in the cached copy restores every bit.\<close>

lemma restore_ok:
  assumes lf: "lay f = lay fs" and ge: "geom fs" and bo: "bitmaps_ok fs" and ok: "\<And>s. bm_ok content s f"
    and g: "g < group_count fs" and c: "bc_cached (get_bm sel f) = bm_block sel (gdt fs ! g) + 1"
    and b: "bc_buf (get_bm sel f) = bset xs i" and xs: "length xs = bsize fs" "i < 8 * bsize fs"
      "xs = bm_bits content sel fs g"
    and bits: "\<And>s g'. g' < group_count fs \<Longrightarrow> \<not> (s = sel \<and> g' = g) \<Longrightarrow> bm_bits content s f g' = bm_bits content s fs g'"
    and r: "rest_of f = rest_of fs" "pending_free f = pending_free fs"
    and bk: "\<And>c. c < blocks_count fs \<Longrightarrow> \<not> is_bitmap fs c \<Longrightarrow> blk content f c = blk content fs c"
  shows "bits_eq content fs (restore_byte sel i (xs ! (i div 8)) f)"
    "bm_ok content s (restore_byte sel i (xs ! (i div 8)) f)"
proof -
  define h where "h = restore_byte sel i (xs ! (i div 8)) f"
  have eh: "h = set_bm sel ((get_bm sel f)\<lparr>bc_buf := xs, bc_dirty := True\<rparr>) f"
    unfolding h_def restore_byte_def Let_def b using bset_undo [of i xs] xs(1,2) by simp
  note lff = lay_fields [OF lf] and lfn = lay_nth [OF lf geom_length [OF ge g]]
  have bof: "bitmaps_ok f" using lay_bitmap(2) [OF lf ge] bo by simp
  have cf: "bc_cached (get_bm sel f) = bm_block sel (gdt f ! g) + 1" using c lfn by simp
  note pb = put_bits [OF bof _ cf _ ok, where buf = xs, folded eh, unfolded lff, OF g xs(1)]
  show "bm_ok content s (restore_byte sel i (xs ! (i div 8)) f)" using pb(1) by (simp add: h_def)
  have "bm_bits content s h g' = bm_bits content s fs g'" if "g' < group_count fs" for s g'
    using pb(2) [OF that, of s] xs(3) bits [OF that, of s] by auto
  then show "bits_eq content fs (restore_byte sel i (xs ! (i div 8)) f)"
    unfolding h_def [symmetric] bits_eq_def using lf r bk by (simp add: eh)
qed

lemma alloc_claim_ok:
  assumes a: "at fs" and inv: "alloc_inv content fs" and fb: "ext2_block_freeable fs b = Some (g, i)"
    and cl: "\<not> bget (bm_bits content BlockBits fs g) i"
    and c: "bc_cached (get_bm BlockBits fs) = bm_block BlockBits (gdt fs ! g) + 1"
  shows "\<exists>r fs'. alloc_claim fs g i b = Some (r, fs') \<and> at fs' \<and> alloc_inv content fs'
    \<and> (case r of None \<Rightarrow> bits_eq content fs fs' | Some x \<Rightarrow> x = b \<and> claimed content fs b fs')"
proof -
  note ge = alloc_invD(1) [OF inv] and bo = alloc_invD(2) [OF inv] and ok = alloc_invD(3) [OF inv]
  note fl = freeable_less [OF ge fb]
  define xs where "xs = bc_buf (block_bitmap fs)"
  have xs: "length xs = bsize fs" "xs = bm_bits content BlockBits fs g"
    using length_bits [OF ok c] by (simp_all add: xs_def)
  have i8: "i div 8 < length xs" using fl(3) xs(1) by simp
  have clm: "claimable content fs b" using fb cl by (simp add: claimable_def)
  have nm: "\<not> is_meta fs b" using alloc_invD(4) [OF inv] clm by blast
  then have nb: "\<not> is_bitmap fs b" by (simp add: is_meta_def)
  from claim_sync_ok [OF a ok bo ge fl(2) c fl(3)] obtain rc f where s:
    "ext2_bitmap_sync (claim_bit BlockBits i fs) BlockBits = Some (rc, f)" "at f" "lay f = lay fs"
    "rest_of f = rest_of fs" "pending_free f = pending_free fs" "\<And>s. bm_ok content s f"
    "bc_cached (get_bm BlockBits f) = bm_block BlockBits (gdt fs ! g) + 1"
    "bc_buf (get_bm BlockBits f) = bset xs i"
    "\<And>s g'. g' < group_count fs \<Longrightarrow> bm_bits content s f g'
        = (if s = BlockBits \<and> g' = g then bset (bm_bits content BlockBits fs g) i else bm_bits content s fs g')"
    "\<And>c. c < blocks_count fs \<Longrightarrow> \<not> is_bitmap fs c \<Longrightarrow> blk content f c = blk content fs c"
    "rc = BLOCK_OK \<longrightarrow> blk content f (bm_block BlockBits (gdt fs ! g)) = bm_bits content BlockBits f g"
    by (auto simp: xs_def)
  have run: "alloc_claim fs g i b = (if rc \<noteq> BLOCK_OK then Some (None, restore_byte BlockBits i (xs ! (i div 8)) f)
     else do { (rc, f) \<leftarrow> ext2_zero_block f b;
       if rc \<noteq> 0 then Some (None, restore_byte BlockBits i (xs ! (i div 8)) f)
       else Some (Some b, count_block_claimed g f) })"
    using s(1) unfolding alloc_claim_def Let_def xs_def [symmetric] by simp
  have undo: "bits_eq content fs (restore_byte BlockBits i (xs ! (i div 8)) h)
      \<and> alloc_inv content (restore_byte BlockBits i (xs ! (i div 8)) h)"
    if h: "lay h = lay fs" "rest_of h = rest_of fs" "pending_free h = pending_free fs" "\<And>s. bm_ok content s h"
      "get_bm BlockBits h = get_bm BlockBits f"
      "\<And>s g'. g' < group_count fs \<Longrightarrow> bm_bits content s h g' = bm_bits content s f g'"
      "\<And>c. c < blocks_count fs \<Longrightarrow> \<not> is_bitmap fs c \<Longrightarrow> blk content h c = blk content fs c" for h
  proof -
    note rk = restore_ok [OF h(1) ge bo h(4) fl(2) _ _ xs(1) fl(3) xs(2) _ h(2,3,7), unfolded h(5), OF s(7,8)]
    have bt: "bm_bits content s h g' = bm_bits content s fs g'"
      if "g' < group_count fs" "\<not> (s = BlockBits \<and> g' = g)" for s g'
      using h(6) [OF that(1)] s(9) [OF that(1)] that(2) by auto
    show ?thesis using bits_eq_inv [OF rk(1) inv rk(2)] rk(1) bt by blast
  qed
  show ?thesis
  proof (cases "rc = BLOCK_OK")
    case False
    from undo [OF s(3-6)] s(10) have "bits_eq content fs (restore_byte BlockBits i (xs ! (i div 8)) f)
      \<and> alloc_inv content (restore_byte BlockBits i (xs ! (i div 8)) f)" by simp
    moreover have "at (restore_byte BlockBits i (xs ! (i div 8)) f)"
      using s(2) by simp
    ultimately show ?thesis using run False by simp
  next
    case True
    from zero_block_ok [OF s(2), of b] obtain rc2 h where z: "ext2_zero_block f b = Some (rc2, h)"
      "same_but_dev f h" "at h" "\<forall>c<blocks_count f. blk content h c
        = (if rc2 = 0 \<and> c = b then replicate (bsize f) 0 else blk content f c)" by blast
    note sl = same_lay [OF z(2)] and gm = get_bm_same [OF z(2)] and sd = same_but_devD [OF z(2)]
      and lff = lay_fields [OF s(3)]
    have gef: "geom f" and bof: "bitmaps_ok f" and ibf: "is_bitmap f c = is_bitmap fs c" for c
      using lay_geom [OF s(3)] lay_bitmap [OF s(3) ge] ge bo by simp_all
    have bkh: "blk content h c = blk content f c" if "c < blocks_count fs" "c \<noteq> b" for c
      using z(4) that lff by simp
    have fr: "g' < group_count fs \<Longrightarrow> bm_bits content s h g' = bm_bits content s f g'"
      "bm_ok content s h" for s g'
      using bits_frame [OF conjunct1 [OF sl] gef bof gm, of content] bkh nb s(6) lff ibf by (metis)+
    have lh: "lay h = lay fs" "rest_of h = rest_of fs" "pending_free h = pending_free fs"
      using sl s(3-5) sd by simp_all
    show ?thesis
    proof (cases "rc2 = 0")
      case no: False
      have "blk content h c = blk content fs c" if "c < blocks_count fs" "\<not> is_bitmap fs c" for c
        using z(4) no s(10) [OF that] lff that(1) by simp
      from undo [OF lh fr(2) gm fr(1) this] have "bits_eq content fs (restore_byte BlockBits i (xs ! (i div 8)) h)
        \<and> alloc_inv content (restore_byte BlockBits i (xs ! (i div 8)) h)" by simp
      moreover have "at (restore_byte BlockBits i (xs ! (i div 8)) h)"
        using z(3) by simp
      ultimately show ?thesis using run True z(1) no by simp
    next
      case yes: True
      define fs' where "fs' = count_block_claimed g h"
      have lf': "lay fs' = lay fs" "rest_of fs' = rest_of fs" "pending_free fs' = pending_free fs"
        "blk content fs' = blk content h" "\<And>s. get_bm s fs' = get_bm s h"
        using lh by (simp_all add: fs'_def)
      have leq: "lay fs' = lay h" using lf'(1) lh(1) by simp
      have geh: "geom h" and boh: "bitmaps_ok h" using lay_geom [OF lh(1)] lay_bitmap(2) [OF lh(1) ge] ge bo by simp_all
      have gch: "group_count h = group_count fs" using lay_fields(7) [OF lh(1)] .
      have bt: "g' < group_count fs \<Longrightarrow> bm_bits content s fs' g' = bm_bits content s h g'" for s g'
        using bits_frame(1) [OF leq geh boh lf'(5)] lf'(4) gch by simp
      have okk: "bm_ok content s fs'" for s
        using bits_frame(2) [OF leq geh boh lf'(5)] lf'(4) fr(2) by simp
      have bits: "bm_bits content s fs' g' = (if s = BlockBits \<and> g' = g then bset xs i else bm_bits content s fs g')"
        if "g' < group_count fs" for s g'
        using bt [OF that] fr(1) [OF that] s(9) [OF that] xs(2) by simp
      have use: "in_use content fs' x = (x = b \<or> in_use content fs x)"
        "claimable content fs' x = (x \<noteq> b \<and> claimable content fs x)" for x
      proof -
        have "in_use content fs' x = (x = b \<or> in_use content fs x)
          \<and> claimable content fs' x = (x \<noteq> b \<and> claimable content fs x)"
        proof (cases "ext2_block_freeable fs x")
          case None
          then have "x \<noteq> b" using fb by auto
          then show ?thesis using None lay_funs(3) [OF lf'(1) ge, of x] by (simp add: in_use_def claimable_def)
        next
          case (Some y)
          obtain g' j where y: "y = (g', j)" by (cases y)
          note flx = freeable_less [OF ge Some [unfolded y]]
          have bj: "x = b \<longleftrightarrow> g' = g \<and> j = i"
          proof
            assume "x = b"
            then show "g' = g \<and> j = i" using fb Some y by simp
          next
            assume "g' = g \<and> j = i"
            then show "x = b" using flx(4) fl(4) by metis
          qed
          have f': "ext2_block_freeable fs' x = Some (g', j)"
            using lay_funs(3) [OF lf'(1) ge, of x] Some y by simp
          have "bget (bm_bits content BlockBits fs' g') j
              = (g' = g \<and> j = i \<or> bget (bm_bits content BlockBits fs g') j)"
            unfolding bits [OF flx(2), of BlockBits] using bget_bset [OF i8, of j]
            by (cases "g' = g") (auto simp: xs(2) [symmetric])
          moreover have "g' = g \<and> j = i \<Longrightarrow> \<not> bget (bm_bits content BlockBits fs g') j" using cl by simp
          ultimately show ?thesis unfolding in_use_def claimable_def f' Some y option.case prod.case bj
            by blast
        qed
        then show "in_use content fs' x = (x = b \<or> in_use content fs x)"
          "claimable content fs' x = (x \<noteq> b \<and> claimable content fs x)" by blast+
      qed
      have "claimed content fs b fs'" unfolding claimed_def
      proof (intro conjI allI impI)
        show "blk content fs' b = replicate (bsize fs) 0" using z(4) yes fl(1) lff lf'(4) by simp
        show "blk content fs' x = blk content fs x" if "x < blocks_count fs" "\<not> is_bitmap fs x" "x \<noteq> b" for x
          using bkh [OF that(1,3)] s(10) [OF that(1,2)] lf'(4) by simp
        show "blk content fs' (bg_block_bitmap (gdt fs ! g')) = bm_bits content BlockBits fs' g'"
          if "ext2_block_freeable fs b = Some (g', j)" for g' j
        proof -
          have "g' = g" using that fb by simp
          moreover have "bm_block BlockBits (gdt fs ! g) < blocks_count fs"
            using bo fl(2) unfolding bitmaps_ok_def by blast
          moreover have "is_bitmap fs (bm_block BlockBits (gdt fs ! g))"
            using fl(2) unfolding is_bitmap_def by blast
          with nb have "bm_block BlockBits (gdt fs ! g) \<noteq> b" by blast
          ultimately show ?thesis using s(11) True bkh lf'(4) bt [OF fl(2)] fr(1) [OF fl(2)] by simp
        qed
      qed (use lf' clm use bits in auto)
      moreover have "at fs'" using z(3) by (simp add: fs'_def)
      moreover have "alloc_claim fs g i b = Some (Some b, fs')" using run True z(1) yes by (simp add: fs'_def)
      ultimately show ?thesis using claimed_inv [OF _ inv okk] by auto
    qed
  qed
qed

text \<open>The scan of the groups.\<close>

lemma find_some: "find P xs = Some x \<Longrightarrow> x \<in> set xs \<and> P x"
  by (auto simp: find_Some_iff)

lemma alloc_groups_ok:
  assumes "at fs" "alloc_inv content fs"
  shows "\<exists>r fs'. alloc_block_groups k fs = Some (r, fs') \<and> at fs' \<and> alloc_inv content fs'
    \<and> (case r of None \<Rightarrow> bits_eq content fs fs' | Some b \<Rightarrow> claimed content fs b fs')"
  using assms
proof (induction k arbitrary: fs)
  case (Suc k)
  note a = Suc.prems(1) and inv = Suc.prems(2)
  note ge = alloc_invD(1) [OF inv] and bo = alloc_invD(2) [OF inv] and ok = alloc_invD(3) [OF inv]
  define g where "g = wrap32 (block_alloc_hint fs + (group_count fs - Suc k)) mod group_count fs"
  have g: "g < group_count fs" using ge by (simp add: g_def geom_def)
  have step: "\<exists>r fs'. alloc_block_groups k f = Some (r, fs') \<and> at fs' \<and> alloc_inv content fs'
      \<and> (case r of None \<Rightarrow> bits_eq content fs fs' | Some b \<Rightarrow> claimed content fs b fs')"
    if f: "at f" "alloc_inv content f" "bits_eq content fs f" for f
  proof -
    from Suc.IH [OF f(1,2)] obtain r fs' where r: "alloc_block_groups k f = Some (r, fs')" "at fs'"
      "alloc_inv content fs'" "case r of None \<Rightarrow> bits_eq content f fs' | Some b \<Rightarrow> claimed content f b fs'" by blast
    have "case r of None \<Rightarrow> bits_eq content fs fs' | Some b \<Rightarrow> claimed content fs b fs'"
      using r(4) bits_eq_trans [OF f(3) _ ge] claimed_trans [OF f(3) ge] by (cases r) auto
    with r show ?thesis by blast
  qed
  show ?case
  proof (cases "ext2_group_blocks fs g = 0")
    case True
    then show ?thesis using step [OF a inv] by (simp add: Let_def g_def)
  next
    case ne: False
    from bitmap_get_ok [OF a ok bo ge g, of BlockBits] obtain rc f where b:
      "ext2_bitmap_get fs BlockBits (bg_block_bitmap (gdt fs ! g)) = Some (rc, f)" "at f"
      "bits_eq content fs f" "\<And>s. bm_ok content s f"
      "rc = 0 \<longrightarrow> bc_cached (get_bm BlockBits f) = bm_block BlockBits (gdt fs ! g) + 1" by auto
    have invf: "alloc_inv content f" by (rule bits_eq_inv [OF b(3) inv b(4)])
    note gef = alloc_invD(1) [OF invf]
    have lf: "lay f = lay fs" using b(3) by (simp add: bits_eq_def)
    note lff = lay_fields [OF lf] and lu = lay_funs [OF lf ge]
    define n where "n = min (ext2_group_blocks fs g) (wrap32 (bsize fs * 8))"
    have run: "alloc_block_groups (Suc k) fs = (if rc \<noteq> 0 then Some (None, f)
       else case find (block_free_bit f g) [0..<n] of None \<Rightarrow> alloc_block_groups k f
         | Some i \<Rightarrow> alloc_claim f g i (block_of_bit f g i))"
      unfolding alloc_block_groups.simps Let_def g_def [symmetric] n_def [symmetric]
      using ne b(1) by simp
    show ?thesis
    proof (cases "rc = 0")
      case False
      then show ?thesis unfolding run using b(2,3) invf by auto
    next
      case rc: True
      show ?thesis
      proof (cases "find (block_free_bit f g) [0..<n]")
        case None
        then show ?thesis unfolding run using rc step [OF b(2) invf b(3)] by simp
      next
        case (Some i)
        then have i: "i < n" "block_free_bit f g i" using find_some [of "block_free_bit f g" "[0..<n]" i] by auto
        have ig: "i < ext2_group_blocks f g" using i(1) lu by (simp add: n_def)
        have fb: "ext2_block_freeable f (block_of_bit f g i) = Some (g, i)"
          unfolding freeable_iff [OF gef] using ig i(2) block_of_bit_eq [OF gef ig] by (simp add: block_free_bit_def)
        have cf: "bc_cached (get_bm BlockBits f) = bm_block BlockBits (gdt f ! g) + 1"
          using b(5) rc lay_nth(1) [OF lf geom_length [OF ge g]] by simp
        have cl: "\<not> bget (bm_bits content BlockBits f g) i"
          using i(2) length_bits(1) [OF b(4) cf] by (simp add: block_free_bit_def)
        from alloc_claim_ok [OF b(2) invf fb cl cf] obtain r fs' where r:
          "alloc_claim f g i (block_of_bit f g i) = Some (r, fs')" "at fs'" "alloc_inv content fs'"
          "case r of None \<Rightarrow> bits_eq content f fs'
            | Some x \<Rightarrow> x = block_of_bit f g i \<and> claimed content f (block_of_bit f g i) fs'" by blast
        have "case r of None \<Rightarrow> bits_eq content fs fs' | Some b \<Rightarrow> claimed content fs b fs'"
          using r(4) bits_eq_trans [OF b(3) _ ge] claimed_trans [OF b(3) ge] by (cases r) auto
        then show ?thesis unfolding run using rc Some r by simp
      qed
    qed
  qed
qed simp

lemma alloc_block_ok:
  assumes "at fs" "alloc_inv content fs"
  shows "\<exists>r fs'. ext2_alloc_block fs = Some (r, fs') \<and> at fs' \<and> alloc_inv content fs'
    \<and> (case r of None \<Rightarrow> bits_eq content fs fs' | Some b \<Rightarrow> claimed content fs b fs')"
  unfolding ext2_alloc_block_def by (rule alloc_groups_ok [OF assms])

section \<open>Freeing\<close>

text \<open>A free only queues the block: no bit changes.\<close>

lemma pending_grow_ok:
  assumes "pending_grow fs = (r, fs')"
  shows "same_but_dev fs (fs'\<lparr>pending_free_cap := pending_free_cap fs\<rparr>)" "e_dev fs' = e_dev fs"
  using assms by (cases fs; auto simp: pending_grow_def Let_def kmalloc_ok_def same_but_dev_def
      split: if_splits list.splits)+

lemma free_block_ok:
  assumes a: "at fs" and inv: "alloc_inv content fs" and f: "ext2_free_block fs b = (rc, fs')"
    and u: "in_use content fs b" "\<not> is_meta fs b"
  shows "at fs'" "alloc_inv content fs'" "lay fs' = lay fs" "rest_of fs' = rest_of fs"
    "e_dev fs' = e_dev fs" "\<And>s. get_bm s fs' = get_bm s fs"
    "pending_free fs' = (if rc = 0 then pending_free fs @ [b] else pending_free fs)"
    "rc = 0 \<or> rc = -1" "rc = 0 \<Longrightarrow> b \<notin> set (pending_free fs)"
    "in_use content fs' c = in_use content fs c" "blk content fs' = blk content fs"
proof -
  note ge = alloc_invD(1) [OF inv] and bo = alloc_invD(2) [OF inv] and ok = alloc_invD(3) [OF inv]
  obtain r h where g: "pending_grow fs = (r, h)" by fastforce
  note pg = pending_grow_ok [OF g]
  have sl: "lay h = lay fs" "rest_of h = rest_of fs"
    using same_lay [OF pg(1)] by (simp_all add: lay_def rest_of_def)
  have gm: "get_bm s h = get_bm s fs" for s using get_bm_same [OF pg(1), of s] by (cases s) simp_all
  have pf: "pending_free h = pending_free fs" using same_but_devD(19) [OF pg(1)] by simp
  have ahh: "on_device rd wr good h = on_device rd wr good fs"
    using pg lay_fields [OF sl(1)] by (simp add: on_device_def)
  have bkh: "blk content h = blk content fs" using pg(2) lay_fields(1) [OF sl(1)] by (simp add: blk_def fun_eq_iff)
  have fr: "ext2_block_freeable fs b \<noteq> None" using u(1) by (auto simp: in_use_def split: option.splits)
  consider "fs' = fs" "rc = -1" | "fs' = h" "rc = -1"
    | "fs' = h\<lparr>pending_free := pending_free fs @ [b]\<rparr>" "rc = 0" "b \<notin> set (pending_free fs)"
  proof (cases "b \<in> set (pending_free fs)")
    case True
    then have "(rc, fs') = (-1, fs)" using f fr unfolding ext2_free_block_def by simp
    then show ?thesis using that(1) by simp
  next
    case False
    have e: "(if \<not> r then (-1, h) else (0, h\<lparr>pending_free := pending_free h @ [b]\<rparr>)) = (rc, fs')"
      using f unfolding ext2_free_block_def g prod.case if_not_P [OF fr] if_not_P [OF False] .
    show ?thesis
    proof (cases r)
      case True
      show ?thesis
        by (rule that(3)) (use e True False in \<open>simp_all only: pf simp_thms if_False prod.inject\<close>)
    next
      case no: False
      show ?thesis by (rule that(2)) (use e no in \<open>simp_all only: simp_thms if_True prod.inject\<close>)
    qed
  qed
  then have cs: "lay fs' = lay fs \<and> rest_of fs' = rest_of fs \<and> e_dev fs' = e_dev fs
      \<and> (\<forall>s. get_bm s fs' = get_bm s fs) \<and> blk content fs' = blk content fs
      \<and> pending_free fs' = (if rc = 0 then pending_free fs @ [b] else pending_free fs)
      \<and> (rc = 0 \<or> rc = -1) \<and> (rc = 0 \<longrightarrow> b \<notin> set (pending_free fs))"
    by cases (simp_all add: sl pg(2) gm bkh pf pending_fields get_bm_pending)
  then show l: "lay fs' = lay fs" and r': "rest_of fs' = rest_of fs" and d: "e_dev fs' = e_dev fs"
    and gm': "\<And>s. get_bm s fs' = get_bm s fs" and bk: "blk content fs' = blk content fs"
    and p: "pending_free fs' = (if rc = 0 then pending_free fs @ [b] else pending_free fs)"
      "rc = 0 \<or> rc = -1" "rc = 0 \<Longrightarrow> b \<notin> set (pending_free fs)" by simp_all
  show a': "at fs'" using a lay_fields(1,2) [OF l] d by (simp add: on_device_def)
  have bits: "g < group_count fs \<Longrightarrow> bm_bits content s fs' g = bm_bits content s fs g" for s g
    by (rule bits_frame(1) [OF l ge bo gm']) (simp_all add: bk)
  have okk: "bm_ok content s fs'" for s
    by (rule bits_frame(2) [OF l ge bo gm']) (simp_all add: bk ok)
  note iu = in_use_cong [OF l ge bits]
  show "in_use content fs' c = in_use content fs c" for c by (rule iu(1))
  show "alloc_inv content fs'"
    using inv u p okk lay_geom [OF l] lay_bitmap [OF l ge] unfolding alloc_inv_def
    by (auto simp: iu)
qed

lemma free_now_ok:
  assumes a: "at fs" and inv: "alloc_core content fs" and nm: "\<not> is_meta fs b"
  shows "\<exists>rc fs'. ext2_free_block_now fs b = Some (rc, fs') \<and> at fs' \<and> alloc_core content fs'
    \<and> freed content fs {b} fs' \<and> pending_free fs' = pending_free fs \<and> (rc = 0 \<longrightarrow> claimable content fs' b)"
proof (cases "ext2_block_freeable fs b")
  case None
  then show ?thesis using a inv by (simp add: ext2_free_block_now_def freed_def)
next
  case (Some y)
  obtain g i where y: "y = (g, i)" by (cases y)
  note fb = Some [unfolded y]
  note ge = alloc_coreD(1) [OF inv] and bo = alloc_coreD(2) [OF inv] and ok = alloc_coreD(3) [OF inv]
  note fl = freeable_less [OF ge fb]
  from bitmap_get_ok [OF a ok bo ge fl(2), of BlockBits] obtain rc f where b:
    "ext2_bitmap_get fs BlockBits (bg_block_bitmap (gdt fs ! g)) = Some (rc, f)" "at f"
    "bits_eq content fs f" "\<And>s. bm_ok content s f"
    "rc = 0 \<longrightarrow> bc_cached (get_bm BlockBits f) = bm_block BlockBits (gdt fs ! g) + 1" by auto
  note d = bits_eqD [OF b(3) ge]
  note lu = lay_funs [OF d(1) ge] and lff = lay_fields [OF d(1)]
  have coref: "alloc_core content f" by (rule bits_eq_core [OF b(3) inv b(4)])
  have frf: "freed content fs {b} f" using b(3) d by (simp add: freed_def bits_eq_def)
  show ?thesis
  proof (cases "rc = 0 \<and> bget (bc_buf (block_bitmap f)) i")
    case False
    then have "ext2_free_block_now fs b = Some (-1, f)" using fb b(1) by (auto simp: ext2_free_block_now_def)
    then show ?thesis using b(2) coref frf d(3) by simp
  next
    case True
    define h where "h = clear_bit BlockBits i f"
    define fs' where "fs' = count_block_freed g h"
    have run: "ext2_free_block_now fs b = Some (0, fs')"
      using fb b(1) True by (simp add: ext2_free_block_now_def fs'_def h_def)
    have cf: "bc_cached (get_bm BlockBits f) = bm_block BlockBits (gdt f ! g) + 1"
      using b(5) True lay_nth(1) [OF d(1) geom_length [OF ge fl(2)]] by simp
    note lb = length_bits [OF b(4) cf]
    have eh: "h = set_bm BlockBits ((get_bm BlockBits f)\<lparr>bc_buf := bclr (bc_buf (get_bm BlockBits f)) i, bc_dirty := True\<rparr>) f"
      by (simp add: h_def clear_bit_def Let_def)
    have bof: "bitmaps_ok f" using d(7) bo by simp
    note pb = put_bits [OF bof _ cf _ b(4), where buf = "bclr (bc_buf (get_bm BlockBits f)) i", folded eh,
        unfolded length_bclr lff, OF fl(2) lb(2) [unfolded lff]]
    have lh: "lay h = lay f" "rest_of h = rest_of f" "pending_free h = pending_free f" "blk content h = blk content f"
      "at h = at f" unfolding eh by (simp_all only: set_bm_fields on_device_set_bm)
    have l': "lay fs' = lay h" "rest_of fs' = rest_of f" "pending_free fs' = pending_free f"
      "blk content fs' = blk content f" "at fs'" "\<And>s. get_bm s fs' = get_bm s h"
      using lh b(2) by (simp_all add: fs'_def)
    have lfs: "lay fs' = lay fs" using l' lh d(1) by simp
    have geh: "geom h" and boh: "bitmaps_ok h" and gch: "group_count h = group_count fs"
      using lay_geom [OF lh(1)] lay_bitmap(2) [OF lh(1) d(6)] d(6) bof lay_fields(7) [OF lh(1)] lff by simp_all
    have bt: "g' < group_count fs \<Longrightarrow> bm_bits content s fs' g' = bm_bits content s h g'" for s g'
      using bits_frame(1) [OF l'(1) geh boh l'(6)] l'(4) lh(4) gch by simp
    have okk: "bm_ok content s fs'" for s
      using bits_frame(2) [OF l'(1) geh boh l'(6)] l'(4) lh(4) pb(1) by simp
    have be: "g' < group_count fs \<Longrightarrow> bm_bits content s f g' = bm_bits content s fs g'" for s g'
      using b(3) by (simp add: bits_eq_def)
    have bits: "bm_bits content s fs' g' = (if s = BlockBits \<and> g' = g then bclr (bm_bits content BlockBits fs g) i
        else bm_bits content s fs g')" if "g' < group_count fs" for s g'
      using bt [OF that, of s] pb(2) [OF that, of s] lb(1) be [OF that, of s] be [OF fl(2), of BlockBits] by simp
    have i8: "i div 8 < length (bm_bits content BlockBits fs g)"
      using lb be [OF fl(2), of BlockBits] fl(3) lff by simp
    have fr': "ext2_block_freeable fs' x = ext2_block_freeable fs x" for x by (rule lay_funs(3) [OF lfs ge])
    have clb: "claimable content fs' b"
      unfolding claimable_def fr' fb option.case prod.case bits [OF fl(2)] using bget_bclr [OF i8, of i] by simp
    have oth: "in_use content fs' x = in_use content fs x" "claimable content fs' x = claimable content fs x"
      if "x \<noteq> b" for x
    proof -
      have "(case ext2_block_freeable fs x of None \<Rightarrow> True
        | Some (g', j) \<Rightarrow> bget (bm_bits content BlockBits fs' g') j = bget (bm_bits content BlockBits fs g') j)"
      proof (cases "ext2_block_freeable fs x")
        case (Some z)
        obtain g' j where z: "z = (g', j)" by (cases z)
        note flx = freeable_less [OF ge Some [unfolded z]]
        have "\<not> (g' = g \<and> j = i)"
        proof
          assume "g' = g \<and> j = i"
          then have "x = b" using flx(4) fl(4) by metis
          with that show False ..
        qed
        then show ?thesis unfolding Some z option.case prod.case bits [OF flx(2)]
          using bget_bclr [OF i8, of j] by auto
      qed simp
      then show "in_use content fs' x = in_use content fs x" "claimable content fs' x = claimable content fs x"
        by (simp_all add: in_use_def claimable_def fr' split: option.splits prod.splits)
    qed
    have "freed content fs {b} fs'" unfolding freed_def
      using lfs l' d oth bits b(3) by (simp add: bits_eq_def)
    moreover have "alloc_core content fs'"
      using alloc_coreD(4) [OF inv] nm oth okk lay_geom [OF lfs] lay_bitmap [OF lfs ge] ge bo
      unfolding alloc_core_def by metis
    ultimately show ?thesis using run l' d(3) clb by simp
  qed
qed

lemma flush_blocks_ok:
  assumes "at fs" "alloc_core content fs" "\<And>b. b \<in> set bs \<Longrightarrow> \<not> is_meta fs b"
  shows "\<exists>fs'. flush_blocks bs fs = Some fs' \<and> at fs' \<and> alloc_core content fs'
    \<and> freed content fs (set bs) fs' \<and> pending_free fs' = pending_free fs"
  using assms
proof (induction bs arbitrary: fs)
  case Nil
  then show ?case by (simp add: freed_def)
next
  case (Cons b bs)
  note ge = alloc_coreD(1) [OF Cons.prems(2)]
  from free_now_ok [OF Cons.prems(1,2), of b] Cons.prems(3) obtain rc f where f:
    "ext2_free_block_now fs b = Some (rc, f)" "at f" "alloc_core content f" "freed content fs {b} f"
    "pending_free f = pending_free fs" by auto
  have l: "lay f = lay fs" using f(4) by (simp add: freed_def)
  have "\<not> is_meta f x" if "x \<in> set bs" for x using Cons.prems(3) that lay_bitmap(3) [OF l ge] by simp
  from Cons.IH [OF f(2,3) this] obtain fs' where r: "flush_blocks bs f = Some fs'" "at fs'"
    "alloc_core content fs'" "freed content f (set bs) fs'" "pending_free fs' = pending_free f" by blast
  have "freed content fs (set (b # bs)) fs'"
    by (rule freed_trans [OF f(4) r(4) ge, THEN freed_mono]) auto
  then show ?case using f(1,5) r by simp
qed

text \<open>Flushing empties the queue; only bits of queued blocks can have been cleared.\<close>

lemma flush_ok:
  assumes a: "at fs" and inv: "alloc_inv content fs"
  shows "\<exists>rc fs'. ext2_pending_free_flush fs = Some (rc, fs') \<and> at fs' \<and> alloc_inv content fs'
    \<and> freed content fs (set (pending_free fs)) fs' \<and> pending_free fs' = []"
proof (cases "pending_free fs = []")
  case True
  then show ?thesis using a inv by (auto simp: ext2_pending_free_flush_def freed_def)
next
  case False
  note core = alloc_inv_core [OF inv] and ge = alloc_invD(1) [OF inv]
  from flush_blocks_ok [OF a core alloc_invD(6) [OF inv]] obtain f where f:
    "flush_blocks (pending_free fs) fs = Some f" "at f" "alloc_core content f"
    "freed content fs (set (pending_free fs)) f" by blast
  define h where "h = f\<lparr>pending_free := []\<rparr>"
  have h: "at h" "lay h = lay f" "rest_of h = rest_of f" "blk content h = blk content f" "\<And>s. get_bm s h = get_bm s f"
    "pending_free h = []"
    using f(2) by (simp_all add: h_def on_device_def lay_def rest_of_def blk_def fun_eq_iff get_bm_pending)
  have gef: "geom f" and bof: "bitmaps_ok f" using alloc_coreD(1,2) [OF f(3)] .
  have bits: "g < group_count f \<Longrightarrow> bm_bits content s h g = bm_bits content s f g" for s g
    by (rule bits_frame(1) [OF h(2) gef bof h(5)]) (simp_all add: h)
  have okh: "bm_ok content s h" for s
    by (rule bits_frame(2) [OF h(2) gef bof h(5)]) (simp_all add: h alloc_coreD(3) [OF f(3)])
  have invh: "alloc_inv content h"
    using alloc_coreD [OF f(3)] okh lay_geom [OF h(2)] lay_bitmap [OF h(2) gef] in_use_cong [OF h(2) gef bits]
    by (simp add: alloc_inv_def h(6))
  have fh: "freed content fs (set (pending_free fs)) h"
  proof -
    have gc: "group_count f = group_count fs" using f(4) lay_fields(7) by (auto simp: freed_def)
    show ?thesis using f(4) h(2-4) bits in_use_cong [OF h(2) gef bits] unfolding freed_def gc by simp
  qed
  from bitmap_sync_ok [OF h(1) okh alloc_invD(2,1) [OF invh], of BlockBits] obtain rc fs' where s:
    "ext2_bitmap_sync h BlockBits = Some (rc, fs')" "at fs'" "bits_eq content h fs'" "\<And>s. bm_ok content s fs'" by blast
  have "ext2_pending_free_flush fs = Some (rc, fs')"
    using False f(1) s(1) by (simp add: ext2_pending_free_flush_def h_def)
  moreover have "alloc_inv content fs'" by (rule bits_eq_inv [OF s(3) invh s(4)])
  moreover have "freed content fs (set (pending_free fs)) fs'"
    using freed_trans [OF fh bits_eq_freed [OF s(3) alloc_invD(1) [OF invh], of "{}"] ge] by simp
  moreover have "pending_free fs' = []" using s(3) h(6) by (simp add: bits_eq_def)
  ultimately show ?thesis using s(2) by blast
qed

end

end
