(* ===== verification/Ext2_Alloc_Inodes.thy ===== *)
theory Ext2_Alloc_Inodes
  imports Ext2_Alloc_Ops
begin

text \<open>
  The inode allocator of ext2 and the write-back of the metadata: one rule per operation, as for
  the blocks.
\<close>

definition inode_used :: "('d \<Rightarrow> u8 list) \<Rightarrow> 'd ext2 \<Rightarrow> nat \<Rightarrow> bool" where
  "inode_used content fs inum \<longleftrightarrow>
     bget (bm_bits content InodeBits fs ((inum - 1) div ipg fs)) ((inum - 1) mod ipg fs)"

text \<open>The step that gives inode \<open>inum\<close> the bit \<open>v\<close> and changes no other bit.\<close>

definition inode_marked :: "('d \<Rightarrow> u8 list) \<Rightarrow> 'd ext2 \<Rightarrow> nat \<Rightarrow> bool \<Rightarrow> 'd ext2 \<Rightarrow> bool" where
  "inode_marked content fs inum v fs' \<longleftrightarrow> lay fs' = lay fs \<and> rest_of fs' = rest_of fs
     \<and> pending_free fs' = pending_free fs
     \<and> 0 < inum \<and> inum \<le> inodes_count fs \<and> inode_used content fs inum = (\<not> v) \<and> inode_used content fs' inum = v
     \<and> (\<forall>j. 0 < j \<longrightarrow> j \<le> inodes_count fs \<longrightarrow> j \<noteq> inum \<longrightarrow> inode_used content fs' j = inode_used content fs j)
     \<and> (\<forall>g<group_count fs. bm_bits content BlockBits fs' g = bm_bits content BlockBits fs g)
     \<and> (\<forall>c<blocks_count fs. \<not> is_bitmap fs c \<longrightarrow> blk content fs' c = blk content fs c)"

lemma inum_group:
  assumes "geom fs" "0 < j" "j \<le> inodes_count fs"
  shows "(j - 1) div ipg fs < group_count fs" "(j - 1) mod ipg fs < ipg fs"
    "(j - 1) mod ipg fs < 8 * bsize fs"
    "(j - 1) div ipg fs * ipg fs + (j - 1) mod ipg fs + 1 = j"
proof -
  have p: "0 < ipg fs" "ipg fs \<le> 8 * bsize fs" and le: "j - 1 < group_count fs * ipg fs"
    using assms by (auto simp: geom_def)
  show "(j - 1) div ipg fs < group_count fs" using le by (rule less_mult_imp_div_less)
  show "(j - 1) mod ipg fs < ipg fs" using p by simp
  then show "(j - 1) mod ipg fs < 8 * bsize fs" using p by linarith
  show "(j - 1) div ipg fs * ipg fs + (j - 1) mod ipg fs + 1 = j" using assms(2) by simp
qed

lemma inum_bit:
  assumes "i < ipg fs"
  shows "(g * ipg fs + i + 1 - 1) div ipg fs = g" "(g * ipg fs + i + 1 - 1) mod ipg fs = i"
  using assms by simp_all

lemma inode_used_cong:
  assumes "lay fs' = lay fs" "geom fs" "0 < j" "j \<le> inodes_count fs"
    "\<And>g. g < group_count fs \<Longrightarrow> bm_bits content InodeBits fs' g = bm_bits content InodeBits fs g"
  shows "inode_used content fs' j = inode_used content fs j"
  using assms(5) inum_group [OF assms(2-4)] lay_fields [OF assms(1)] by (simp add: inode_used_def)

lemma inode_marked_trans:
  assumes e: "bits_eq content fs f" and ge: "geom fs" and m: "inode_marked content f inum v fs'"
  shows "inode_marked content fs inum v fs'"
proof -
  have l: "lay f = lay fs" using e by (simp add: bits_eq_def)
  note d = bits_eqD [OF e ge] and lf = lay_fields [OF l]
  have u: "0 < j \<Longrightarrow> j \<le> inodes_count fs \<Longrightarrow> inode_used content f j = inode_used content fs j" for j
    by (rule inode_used_cong [OF l ge]) (use e in \<open>simp_all add: bits_eq_def\<close>)
  have bb: "g < group_count fs \<Longrightarrow> bm_bits content BlockBits f g = bm_bits content BlockBits fs g" for g
    using e by (simp add: bits_eq_def)
  have bk: "c < blocks_count fs \<Longrightarrow> \<not> is_bitmap fs c \<Longrightarrow> blk content f c = blk content fs c" for c
    using e by (simp add: bits_eq_def)
  have "0 < inum" "inum \<le> inodes_count fs" using m lf by (simp_all add: inode_marked_def)
  then have "inode_used content f inum = inode_used content fs inum" by (rule u)
  then show ?thesis using m u bb bk unfolding inode_marked_def by (simp add: d lf)
qed

lemma inode_marked_inv:
  assumes m: "inode_marked content fs inum v fs'" and inv: "alloc_inv content fs" and ok: "\<And>s. bm_ok content s fs'"
  shows "alloc_inv content fs'"
proof -
  note ge = alloc_invD(1) [OF inv]
  have l: "lay fs' = lay fs" and p: "pending_free fs' = pending_free fs"
    and b: "\<And>g. g < group_count fs \<Longrightarrow> bm_bits content BlockBits fs' g = bm_bits content BlockBits fs g"
    using m by (simp_all add: inode_marked_def)
  show ?thesis using inv ok lay_geom [OF l] lay_bitmap [OF l ge] in_use_cong [OF l ge b]
    unfolding alloc_inv_def by (simp add: p)
qed

text \<open>A state in which exactly the bit of one inode differs.\<close>

lemma inode_bit_marked:
  assumes l: "lay fs' = lay fs" and ge: "geom fs" and r: "rest_of fs' = rest_of fs" "pending_free fs' = pending_free fs"
    and i: "i < ipg fs" "g * ipg fs + i + 1 \<le> inodes_count fs"
    and old: "bget (bm_bits content InodeBits fs g) i = (\<not> v)" and new: "bget buf i = v"
    and same: "\<And>j. j < 8 * bsize fs \<Longrightarrow> j \<noteq> i \<Longrightarrow> bget buf j = bget (bm_bits content InodeBits fs g) j"
    and bits: "\<And>s g'. g' < group_count fs \<Longrightarrow> bm_bits content s fs' g'
      = (if s = InodeBits \<and> g' = g then buf else bm_bits content s fs g')"
    and bk: "\<And>c. c < blocks_count fs \<Longrightarrow> \<not> is_bitmap fs c \<Longrightarrow> blk content fs' c = blk content fs c"
  shows "inode_marked content fs (g * ipg fs + i + 1) v fs'"
proof -
  note lf = lay_fields [OF l]
  have ig: "(g * ipg fs + i + 1 - 1) div ipg fs = g" "(g * ipg fs + i + 1 - 1) mod ipg fs = i"
    using inum_bit [OF i(1)] by simp_all
  have g: "g < group_count fs" using inum_group(1) [OF ge _ i(2)] ig(1) by simp
  have u: "inode_used content fs' j = inode_used content fs j"
    if j: "0 < j" "j \<le> inodes_count fs" "j \<noteq> g * ipg fs + i + 1" for j
  proof -
    note jg = inum_group [OF ge j(1,2)]
    show ?thesis
    proof (cases "(j - 1) div ipg fs = g")
      case True
      then have "(j - 1) mod ipg fs \<noteq> i" using jg(4) j(3) by auto
      then show ?thesis using True bits [OF g, of InodeBits] same [OF jg(3)] by (simp add: inode_used_def lf)
    next
      case False
      then show ?thesis using bits [OF jg(1), of InodeBits] by (simp add: inode_used_def lf)
    qed
  qed
  have "inode_used content fs (g * ipg fs + i + 1) = (\<not> v)" unfolding inode_used_def ig by (rule old)
  moreover have "inode_used content fs' (g * ipg fs + i + 1) = v"
    unfolding inode_used_def lf ig bits [OF g] using new by simp
  ultimately show ?thesis using l r i(2) u bits bk unfolding inode_marked_def by simp
qed

context failstop_device
begin

lemma inode_claim_ok:
  assumes a: "at fs" and inv: "alloc_inv content fs" and g: "g < group_count fs"
    and c: "bc_cached (get_bm InodeBits fs) = bm_block InodeBits (gdt fs ! g) + 1"
    and i: "i < ipg fs" "g * ipg fs + i + 1 \<le> inodes_count fs"
    and cl: "\<not> bget (bm_bits content InodeBits fs g) i"
  shows "\<exists>r fs'. inode_claim fs g i (g * ipg fs + i + 1) = Some (r, fs') \<and> at fs' \<and> alloc_inv content fs'
    \<and> (case r of None \<Rightarrow> bits_eq content fs fs'
       | Some x \<Rightarrow> x = g * ipg fs + i + 1 \<and> inode_marked content fs x True fs')"
proof -
  note ge = alloc_invD(1) [OF inv] and bo = alloc_invD(2) [OF inv] and ok = alloc_invD(3) [OF inv]
  define xs where "xs = bc_buf (inode_bitmap fs)"
  have xs: "length xs = bsize fs" "xs = bm_bits content InodeBits fs g"
    using length_bits [OF ok c] by (simp_all add: xs_def)
  have i8: "i < 8 * bsize fs" using i(1) ge by (simp add: geom_def)
  then have il: "i div 8 < length xs" using xs(1) by simp
  from claim_sync_ok [OF a ok bo ge g c i8] obtain rc f where s:
    "ext2_bitmap_sync (claim_bit InodeBits i fs) InodeBits = Some (rc, f)" "at f" "lay f = lay fs"
    "rest_of f = rest_of fs" "pending_free f = pending_free fs" "\<And>s. bm_ok content s f"
    "bc_cached (get_bm InodeBits f) = bm_block InodeBits (gdt fs ! g) + 1"
    "bc_buf (get_bm InodeBits f) = bset xs i"
    "\<And>s g'. g' < group_count fs \<Longrightarrow> bm_bits content s f g'
        = (if s = InodeBits \<and> g' = g then bset (bm_bits content InodeBits fs g) i else bm_bits content s fs g')"
    "\<And>c. c < blocks_count fs \<Longrightarrow> \<not> is_bitmap fs c \<Longrightarrow> blk content f c = blk content fs c"
    by (auto simp: xs_def)
  define inum where "inum = g * ipg fs + i + 1"
  have run: "inode_claim fs g i inum = (if rc \<noteq> BLOCK_OK then Some (None, restore_byte InodeBits i (xs ! (i div 8)) f)
     else Some (Some inum, count_inode_claimed g f))"
    using s(1) unfolding inode_claim_def Let_def xs_def [symmetric] by simp
  show ?thesis
  proof (cases "rc = BLOCK_OK")
    case False
    have bt: "bm_bits content s f g' = bm_bits content s fs g'"
      if "g' < group_count fs" "\<not> (s = InodeBits \<and> g' = g)" for s g'
      using s(9) [OF that(1)] that(2) by auto
    note rk = restore_ok [OF s(3) ge bo s(6) g s(7,8) xs(1) i8 xs(2) bt s(4,5,10)]
    have rk1: "bits_eq content fs (restore_byte InodeBits i (xs ! (i div 8)) f)" by (rule rk(1))
    have rk2: "\<And>s. bm_ok content s (restore_byte InodeBits i (xs ! (i div 8)) f)" by (rule rk(2))
    show ?thesis unfolding inum_def [symmetric] run using False bits_eq_inv [OF rk1 inv rk2] rk1 s(2) by simp
  next
    case True
    define fs' where "fs' = count_inode_claimed g f"
    have l': "lay fs' = lay f" "rest_of fs' = rest_of f" "pending_free fs' = pending_free f"
      "blk content fs' = blk content f" "at fs'" "\<And>s. get_bm s fs' = get_bm s f"
      using s(2) by (simp_all add: fs'_def)
    have gef: "geom f" and bof: "bitmaps_ok f" and gcf: "group_count f = group_count fs"
      using lay_geom [OF s(3)] lay_bitmap(2) [OF s(3) ge] ge bo lay_fields(7) [OF s(3)] by simp_all
    have bt: "g' < group_count fs \<Longrightarrow> bm_bits content s fs' g' = bm_bits content s f g'" for s g'
      using bits_frame(1) [OF l'(1) gef bof l'(6)] l'(4) gcf by simp
    have okk: "bm_ok content s fs'" for s
      using bits_frame(2) [OF l'(1) gef bof l'(6)] l'(4) s(6) by simp
    have "inode_marked content fs (g * ipg fs + i + 1) True fs'"
    proof (rule inode_bit_marked [OF _ ge _ _ i, where buf = "bset xs i"])
      show "bm_bits content s fs' g' = (if s = InodeBits \<and> g' = g then bset xs i else bm_bits content s fs g')"
        if "g' < group_count fs" for s g' using bt [OF that] s(9) [OF that] xs(2) by simp
      show "bget (bset xs i) j = bget (bm_bits content InodeBits fs g) j" if "j \<noteq> i" for j
        using bget_bset [OF il, of j] that xs(2) by simp
    qed (use s l' cl bget_bset [OF il, of i] in simp_all)
    then show ?thesis unfolding inum_def [symmetric] run
      using True l'(5) inode_marked_inv [OF _ inv okk] by (auto simp: fs'_def inum_def)
  qed
qed

lemma alloc_inode_groups_ok:
  assumes "at fs" "alloc_inv content fs"
  shows "\<exists>r fs'. alloc_inode_groups k fs = Some (r, fs') \<and> at fs' \<and> alloc_inv content fs'
    \<and> (case r of None \<Rightarrow> bits_eq content fs fs'
       | Some x \<Rightarrow> first_inode fs \<le> x \<and> inode_marked content fs x True fs')"
  using assms
proof (induction k arbitrary: fs)
  case (Suc k)
  note a = Suc.prems(1) and inv = Suc.prems(2)
  note ge = alloc_invD(1) [OF inv] and bo = alloc_invD(2) [OF inv] and ok = alloc_invD(3) [OF inv]
  define g where "g = wrap32 (inode_alloc_hint fs + (group_count fs - Suc k)) mod group_count fs"
  have g: "g < group_count fs" using ge by (simp add: g_def geom_def)
  from bitmap_get_ok [OF a ok bo ge g, of InodeBits] obtain rc f where b:
    "ext2_bitmap_get fs InodeBits (bg_inode_bitmap (gdt fs ! g)) = Some (rc, f)" "at f"
    "bits_eq content fs f" "\<And>s. bm_ok content s f"
    "rc = 0 \<longrightarrow> bc_cached (get_bm InodeBits f) = bm_block InodeBits (gdt fs ! g) + 1" by auto
  have invf: "alloc_inv content f" by (rule bits_eq_inv [OF b(3) inv b(4)])
  note gef = alloc_invD(1) [OF invf]
  have lf: "lay f = lay fs" using b(3) by (simp add: bits_eq_def)
  note lff = lay_fields [OF lf]
  have step: "\<exists>r fs'. alloc_inode_groups k f = Some (r, fs') \<and> at fs' \<and> alloc_inv content fs'
      \<and> (case r of None \<Rightarrow> bits_eq content fs fs'
         | Some x \<Rightarrow> first_inode fs \<le> x \<and> inode_marked content fs x True fs')"
  proof -
    from Suc.IH [OF b(2) invf] obtain r fs' where r: "alloc_inode_groups k f = Some (r, fs')" "at fs'"
      "alloc_inv content fs'" "case r of None \<Rightarrow> bits_eq content f fs'
        | Some x \<Rightarrow> first_inode f \<le> x \<and> inode_marked content f x True fs'" by blast
    have "case r of None \<Rightarrow> bits_eq content fs fs' | Some x \<Rightarrow> first_inode fs \<le> x \<and> inode_marked content fs x True fs'"
      using r(4) bits_eq_trans [OF b(3) _ ge] inode_marked_trans [OF b(3) ge] lff(9) by (cases r) auto
    with r show ?thesis by blast
  qed
  define left where "left = inodes_count f + 1 - (g * ipg f + 1)"
  define n where "n = min (if left > ipg f then ipg f else left) (wrap32 (bsize f * 8))"
  have run: "alloc_inode_groups (Suc k) fs = (if rc \<noteq> 0 then Some (None, f)
     else if g * ipg f + 1 > inodes_count f then alloc_inode_groups k f
     else case find (inode_free_bit f g) [0..<n] of None \<Rightarrow> alloc_inode_groups k f
       | Some i \<Rightarrow> inode_claim f g i (inum_of_bit f g i))"
    unfolding alloc_inode_groups.simps Let_def g_def [symmetric] using b(1)
    by (simp add: n_def left_def)
  show ?case
  proof (cases "rc = 0")
    case False
    then show ?thesis unfolding run using b(2,3) invf by auto
  next
    case rc: True
    show ?thesis
    proof (cases "g * ipg f + 1 > inodes_count f \<or> find (inode_free_bit f g) [0..<n] = None")
      case True
      then show ?thesis unfolding run using rc step by (cases "g * ipg f + 1 > inodes_count f") simp_all
    next
      case False
      then obtain i where Some: "find (inode_free_bit f g) [0..<n] = Some i" and le: "g * ipg f + 1 \<le> inodes_count f"
        by auto
      then have i: "i < n" "inode_free_bit f g i" using find_some [of "inode_free_bit f g" "[0..<n]" i] by auto
      have ii: "i < ipg f" "g * ipg f + i + 1 \<le> inodes_count f"
        using i(1) le by (auto simp: n_def left_def split: if_splits)
      have num: "inum_of_bit f g i = g * ipg f + i + 1"
        unfolding inum_of_bit_def by (rule wrap32_id) (use ii(2) gef in \<open>simp add: geom_def\<close>)
      have gf: "g < group_count f" using g lff by simp
      have cf: "bc_cached (get_bm InodeBits f) = bm_block InodeBits (gdt f ! g) + 1"
        using b(5) rc lay_nth(1) [OF lf geom_length [OF ge g]] by simp
      have cl: "\<not> bget (bm_bits content InodeBits f g) i" and fi: "first_inode f \<le> g * ipg f + i + 1"
        using i(2) length_bits(1) [OF b(4) cf] num by (simp_all add: inode_free_bit_def)
      from inode_claim_ok [OF b(2) invf gf cf ii cl] obtain r fs' where r:
        "inode_claim f g i (g * ipg f + i + 1) = Some (r, fs')" "at fs'" "alloc_inv content fs'"
        "case r of None \<Rightarrow> bits_eq content f fs'
          | Some x \<Rightarrow> x = g * ipg f + i + 1 \<and> inode_marked content f x True fs'" by blast
      have "case r of None \<Rightarrow> bits_eq content fs fs' | Some x \<Rightarrow> first_inode fs \<le> x \<and> inode_marked content fs x True fs'"
        using r(4) bits_eq_trans [OF b(3) _ ge] inode_marked_trans [OF b(3) ge] fi lff(9) by (cases r) auto
      then show ?thesis unfolding run using rc Some le r num by simp
    qed
  qed
qed simp

lemma alloc_inode_ok:
  assumes "at fs" "alloc_inv content fs"
  shows "\<exists>r fs'. ext2_alloc_inode fs = Some (r, fs') \<and> at fs' \<and> alloc_inv content fs'
    \<and> (case r of None \<Rightarrow> bits_eq content fs fs'
       | Some x \<Rightarrow> first_inode fs \<le> x \<and> inode_marked content fs x True fs')"
  unfolding ext2_alloc_inode_def by (rule alloc_inode_groups_ok [OF assms])

lemma free_inode_ok:
  assumes a: "at fs" and inv: "alloc_inv content fs" and fi: "0 < first_inode fs"
  shows "\<exists>rc fs'. ext2_free_inode fs inum = Some (rc, fs') \<and> at fs' \<and> alloc_inv content fs'
    \<and> (if rc = 0 then first_inode fs \<le> inum \<and> inode_marked content fs inum False fs' else bits_eq content fs fs')"
proof (cases "inum < first_inode fs \<or> inum > inodes_count fs")
  case True
  then show ?thesis using a inv by (auto simp: ext2_free_inode_def)
next
  case False
  note ge = alloc_invD(1) [OF inv] and bo = alloc_invD(2) [OF inv] and ok = alloc_invD(3) [OF inv]
  have in1: "0 < inum" "inum \<le> inodes_count fs" using False fi by auto
  define g where "g = (inum - 1) div ipg fs"
  define i where "i = (inum - 1) mod ipg fs"
  note ig = inum_group [OF ge in1, folded g_def i_def]
  from bitmap_get_ok [OF a ok bo ge ig(1), of InodeBits] obtain rc f where b:
    "ext2_bitmap_get fs InodeBits (bg_inode_bitmap (gdt fs ! g)) = Some (rc, f)" "at f"
    "bits_eq content fs f" "\<And>s. bm_ok content s f"
    "rc = 0 \<longrightarrow> bc_cached (get_bm InodeBits f) = bm_block InodeBits (gdt fs ! g) + 1" by auto
  note d = bits_eqD [OF b(3) ge]
  have invf: "alloc_inv content f" by (rule bits_eq_inv [OF b(3) inv b(4)])
  have run: "ext2_free_inode fs inum = (if rc \<noteq> 0 then Some (-1, f)
     else if \<not> bget (bc_buf (inode_bitmap f)) i then Some (-1, f)
     else Some (0, count_inode_freed g (clear_bit InodeBits i f)))"
    unfolding ext2_free_inode_def Let_def g_def [symmetric] i_def [symmetric]
    using False ig(1,3) bit_cap [OF ge] b(1) by simp
  show ?thesis
  proof (cases "rc = 0 \<and> bget (bc_buf (inode_bitmap f)) i")
    case False
    then show ?thesis unfolding run using b(2,3) invf by auto
  next
    case True
    have cf: "bc_cached (get_bm InodeBits f) = bm_block InodeBits (gdt f ! g) + 1"
      using b(5) True lay_nth(1) [OF d(1) geom_length [OF ge ig(1)]] by simp
    note lb = length_bits [OF b(4) cf] and lff = lay_fields [OF d(1)]
    define buf where "buf = bclr (bc_buf (get_bm InodeBits f)) i"
    define h where "h = clear_bit InodeBits i f"
    define fs' where "fs' = count_inode_freed g h"
    have eh: "h = set_bm InodeBits ((get_bm InodeBits f)\<lparr>bc_buf := buf, bc_dirty := True\<rparr>) f"
      by (simp add: h_def clear_bit_def Let_def buf_def)
    have bof: "bitmaps_ok f" and gf: "g < group_count f" using d(7) bo ig(1) lff by simp_all
    have lbuf: "length buf = bsize f" using lb(2) by (simp add: buf_def)
    note pb = put_bits [OF bof gf cf lbuf b(4), folded eh]
    have lh: "lay h = lay f" "rest_of h = rest_of f" "pending_free h = pending_free f" "blk content h = blk content f"
      "at h = at f" unfolding eh by (simp_all only: set_bm_fields on_device_set_bm)
    have l': "lay fs' = lay h" "rest_of fs' = rest_of f" "pending_free fs' = pending_free f"
      "blk content fs' = blk content f" "at fs'" "\<And>s. get_bm s fs' = get_bm s h"
      using lh b(2) by (simp_all add: fs'_def)
    have geh: "geom h" and boh: "bitmaps_ok h" and gch: "group_count h = group_count f"
      using lay_geom [OF lh(1)] lay_bitmap(2) [OF lh(1) d(6)] d(6) bof lay_fields(7) [OF lh(1)] by simp_all
    have bt: "g' < group_count f \<Longrightarrow> bm_bits content s fs' g' = bm_bits content s h g'" for s g'
      using bits_frame(1) [OF l'(1) geh boh l'(6)] l'(4) lh(4) gch by simp
    have okk: "bm_ok content s fs'" for s
      using bits_frame(2) [OF l'(1) geh boh l'(6)] l'(4) lh(4) pb(1) by simp
    have il: "i div 8 < length (bc_buf (get_bm InodeBits f))" using lb(2) ig(3) lff by simp
    have iff: "i < ipg f" "g * ipg f + i + 1 \<le> inodes_count f" using ig(2,4) in1 lff by simp_all
    have "inode_marked content f (g * ipg f + i + 1) False fs'"
    proof (rule inode_bit_marked [OF _ d(6) _ _ iff, where buf = buf])
      show "bm_bits content s fs' g' = (if s = InodeBits \<and> g' = g then buf else bm_bits content s f g')"
        if "g' < group_count f" for s g' using bt [OF that] pb(2) [OF that] by simp
      show "bget buf j = bget (bm_bits content InodeBits f g) j" if "j \<noteq> i" for j
        using bget_bclr [OF il, of j] that lb(1) by (simp add: buf_def)
      show "bget buf i = False" using bget_bclr [OF il, of i] by (simp add: buf_def)
      show "bget (bm_bits content InodeBits f g) i = (\<not> False)" using True lb(1) by simp
    qed (use l' lh in simp_all)
    then have m: "inode_marked content f inum False fs'" using ig(4) lff(4) by simp
    note mt = inode_marked_trans [OF b(3) ge m]
    show ?thesis unfolding run using True l'(5) mt inode_marked_inv [OF m invf okk] \<open>\<not> (inum < first_inode fs \<or> _)\<close>
      by (simp add: fs'_def h_def)
  qed
qed

end

end
