(* ===== verification/Ext2_Alloc_Run.thy ===== *)
theory Ext2_Alloc_Run
  imports Ext2_Alloc_Inodes
begin

text \<open>
  Runs of the ext2 allocators: sequences of claims, queued frees, flushes, inode claims and
  inode frees, with failed transfers and allocations anywhere, and the properties of the
  allocators.
\<close>

section \<open>Traces\<close>

datatype alloc_event = Claimed nat | Claim_failed | Queued nat | Queue_failed | Flushed
  | Inode_claimed nat | Inode_failed | Inode_freed nat

text \<open>The blocks freed belong to files: they are in use and not metadata.\<close>

inductive alloc_trace :: "('d \<Rightarrow> u8 list) \<Rightarrow> 'd ext2 \<Rightarrow> alloc_event list \<Rightarrow> 'd ext2 \<Rightarrow> bool"
  for content where
  stop: "alloc_trace content fs [] fs"
| claim: "ext2_alloc_block fs = Some (Some b, f) \<Longrightarrow> alloc_trace content f es fs'
    \<Longrightarrow> alloc_trace content fs (Claimed b # es) fs'"
| claim_failed: "ext2_alloc_block fs = Some (None, f) \<Longrightarrow> alloc_trace content f es fs'
    \<Longrightarrow> alloc_trace content fs (Claim_failed # es) fs'"
| queue: "in_use content fs b \<Longrightarrow> \<not> is_meta fs b \<Longrightarrow> ext2_free_block fs b = (rc, f)
    \<Longrightarrow> alloc_trace content f es fs'
    \<Longrightarrow> alloc_trace content fs ((if rc = 0 then Queued b else Queue_failed) # es) fs'"
| flush: "ext2_pending_free_flush fs = Some (rc, f) \<Longrightarrow> alloc_trace content f es fs'
    \<Longrightarrow> alloc_trace content fs (Flushed # es) fs'"
| inode: "ext2_alloc_inode fs = Some (r, f) \<Longrightarrow> alloc_trace content f es fs'
    \<Longrightarrow> alloc_trace content fs ((case r of None \<Rightarrow> Inode_failed | Some i \<Rightarrow> Inode_claimed i) # es) fs'"
| inode_free: "ext2_free_inode fs i = Some (rc, f) \<Longrightarrow> alloc_trace content f es fs'
    \<Longrightarrow> alloc_trace content fs ((if rc = 0 then Inode_freed i else Inode_failed) # es) fs'"

lemma claimed_freeable:
  assumes "alloc_inv content fs" "claimed content fs b fs'"
  shows "b < blocks_count fs" "\<not> is_meta fs b" "b \<notin> set (pending_free fs)" "b \<notin> set (pending_free fs')"
proof -
  have c: "claimable content fs b" using assms(2) by (simp add: claimed_def)
  then obtain g i where f: "ext2_block_freeable fs b = Some (g, i)"
    by (auto simp: claimable_def split: option.splits)
  show "b < blocks_count fs" by (rule freeable_less(1) [OF alloc_invD(1) [OF assms(1)] f])
  show "\<not> is_meta fs b" using alloc_invD(4) [OF assms(1)] c by blast
  have "\<not> in_use content fs b" using c f by (simp add: claimable_def in_use_def)
  then show p: "b \<notin> set (pending_free fs)" using alloc_invD(5) [OF assms(1)] by blast
  have "pending_free fs' = pending_free fs" using assms(2) by (simp add: claimed_def)
  with p show "b \<notin> set (pending_free fs')" by simp
qed

context failstop_device
begin

lemma marked_geom_fields: "inode_marked content fs i v fs' \<Longrightarrow> first_inode fs' = first_inode fs"
  using lay_fields(9) by (auto simp: inode_marked_def)

lemma alloc_trace_queued:
  assumes "alloc_trace content fs es fs'" "at fs" "alloc_inv content fs" "0 < first_inode fs"
    "b \<in> set (pending_free fs)" "Flushed \<notin> set es"
  shows "Claimed b \<notin> set es"
  using assms
proof (induction rule: alloc_trace.induct)
  case (claim fs c f es fs')
  from alloc_block_ok [OF claim.prems(1,2)] claim.hyps(1) have f: "at f" "alloc_inv content f" "claimed content fs c f"
    by auto
  have l: "lay f = lay fs" "pending_free f = pending_free fs" using f(3) by (simp_all add: claimed_def)
  have "Claimed b \<notin> set es" using claim.IH f l(2) lay_fields(9) [OF l(1)] claim.prems by simp
  moreover have "c \<noteq> b" using claimed_freeable(3) [OF claim.prems(2) f(3)] claim.prems(4) by blast
  ultimately show ?case by simp
next
  case (claim_failed fs f es fs')
  from alloc_block_ok [OF claim_failed.prems(1,2)] claim_failed.hyps(1)
  have f: "at f" "alloc_inv content f" "bits_eq content fs f" by auto
  have l: "lay f = lay fs" "pending_free f = pending_free fs" using f(3) by (simp_all add: bits_eq_def)
  show ?case using claim_failed.IH f l(2) lay_fields(9) [OF l(1)] claim_failed.prems by simp
next
  case (queue fs c rc f es fs')
  note fb = free_block_ok [OF queue.prems(1,2) queue.hyps(3,1,2)]
  have p: "b \<in> set (pending_free f)" using fb(7) queue.prems(4) by simp
  have n: "Flushed \<notin> set es" using queue.prems(5) by simp
  have z: "0 < first_inode f" using queue.prems(3) lay_fields(9) [OF fb(3)] by simp
  show ?case using queue.IH [OF fb(1,2) z p n] by simp
next
  case (flush fs rc f es fs')
  then show ?case by simp
next
  case (inode fs r f es fs')
  from alloc_inode_ok [OF inode.prems(1,2)] inode.hyps(1) have f: "at f" "alloc_inv content f"
    "case r of None \<Rightarrow> bits_eq content fs f | Some x \<Rightarrow> first_inode fs \<le> x \<and> inode_marked content fs x True f" by auto
  have l: "lay f = lay fs" "pending_free f = pending_free fs"
    using f(3) by (cases r; simp add: bits_eq_def inode_marked_def)+
  have p: "b \<in> set (pending_free f)" and n: "Flushed \<notin> set es" and z: "0 < first_inode f"
    using l(2) lay_fields(9) [OF l(1)] inode.prems by simp_all
  show ?case using inode.IH [OF f(1,2) z p n] by (cases r) simp_all
next
  case (inode_free fs i rc f es fs')
  from free_inode_ok [OF inode_free.prems(1-3), of i] inode_free.hyps(1) have f: "at f" "alloc_inv content f"
    "if rc = 0 then first_inode fs \<le> i \<and> inode_marked content fs i False f else bits_eq content fs f" by auto
  have l: "lay f = lay fs" "pending_free f = pending_free fs"
    using f(3) by (cases "rc = 0"; simp add: bits_eq_def inode_marked_def)+
  have p: "b \<in> set (pending_free f)" and n: "Flushed \<notin> set es" and z: "0 < first_inode f"
    using l(2) lay_fields(9) [OF l(1)] inode_free.prems by simp_all
  show ?case using inode_free.IH [OF f(1,2) z p n] by simp
qed simp

end

section \<open>A small volume\<close>

text \<open>
  Ten blocks of two bytes on a RAM device: superblock, descriptors, the two bitmaps, an inode
  table of two blocks, and four data blocks; \<open>bits\<close> is the first byte of the block bitmap.
\<close>

definition small_dev :: "u8 \<Rightarrow> ramblock block_dev" where
  "small_dev bits = \<lparr>op_read = ramblock_read, op_write = Some ramblock_write,
     impl = \<lparr>rb_buffer = [0, 0, 0, 0, bits, 0, 1, 0, 0, 0, 0, 0, 9, 9, 9, 9, 9, 9, 9, 9],
       rb_block_size = 2, rb_block_count = 10\<rparr>, block_size = 2, block_count = 10\<rparr>"

definition small_gdesc :: gdesc where
  "small_gdesc = \<lparr>bg_block_bitmap = 2, bg_inode_bitmap = 3, bg_inode_table = 4, bg_free_blocks = 4,
     bg_free_inodes = 3, bg_used_dirs = 0, bg_pad = 0, bg_reserved = []\<rparr>"

definition small_sb :: superblock where
  "small_sb = (bytes_sb (replicate 1024 0))
     \<lparr>s_inodes_count := 4, s_blocks_count := 10, s_blocks_per_group := 16, s_inodes_per_group := 4\<rparr>"

definition small_fs :: "u8 \<Rightarrow> ramblock ext2" where
  "small_fs bits = \<lparr>e_dev = small_dev bits, e_sb = small_sb, bsize = 2, first_data_block = 0, group_count = 1,
     inode_size = 1, first_inode = 1, inodes_per_block = 2, addrs_per_block = 0, gdt_blocks = 1,
     gdt = [small_gdesc], e_incompat = 0, e_ro_compat = 0, has_filetype = False, large_files = False,
     read_only = False, sb_dirty = False, gdt_dirty = False, dir_buf = [], cached_dir_inode = 0,
     cached_dir_block = 0, cached_dir_size = 0, cached_dir_blocks = [], inode_cache = [],
     inode_cache_next = 0, cached_indirect_block = 0, cached_indirect_buf = [],
     block_bitmap = \<lparr>bc_buf = [0, 0], bc_cached = 0, bc_dirty = False\<rparr>,
     inode_bitmap = \<lparr>bc_buf = [0, 0], bc_cached = 0, bc_dirty = False\<rparr>,
     block_alloc_hint = 0, inode_alloc_hint = 0, inode_list = [], pending_free = [],
     pending_free_cap = 0, answers = replicate 8 True\<rparr>"

lemma small_fields:
  "e_dev (small_fs bits) = small_dev bits" "blocks_count (small_fs bits) = 10" "bpg (small_fs bits) = 16" "ipg (small_fs bits) = 4"
  "inodes_count (small_fs bits) = 4" "bsize (small_fs bits) = 2" "first_data_block (small_fs bits) = 0"
  "group_count (small_fs bits) = 1" "gdt (small_fs bits) = [small_gdesc]" "inode_size (small_fs bits) = 1"
  "gdt_blocks (small_fs bits) = 1" "pending_free (small_fs bits) = []" "first_inode (small_fs bits) = 1"
  "get_bm s (small_fs bits) = \<lparr>bc_buf = [0, 0], bc_cached = 0, bc_dirty = False\<rparr>"
  "bm_block BlockBits small_gdesc = 2" "bm_block InodeBits small_gdesc = 3" "bg_inode_table small_gdesc = 4"
  by (cases s; simp add: small_fs_def small_sb_def small_gdesc_def)+

lemma small_alloc:
  "answers (small_fs bits) = True # replicate 7 True" "pending_free_cap (small_fs bits) = 0"
  by (simp_all add: small_fs_def numeral_eq_Suc)

lemma small_device: "on_device ramblock_read ramblock_write ramblock_good (small_fs bits)"
  by (simp add: on_device_def small_fields) (simp add: small_dev_def ramblock_good_def)

lemma small_first: "ext2_first_allocatable (small_fs bits) = 6"
  by (simp add: ext2_first_allocatable_def small_fields div_ceil_u32_def)

lemma small_freeable: "b < 6 \<Longrightarrow> ext2_block_freeable (small_fs bits) b = None"
  by (simp add: ext2_block_freeable_def small_fields small_first Let_def)

lemma small_inv: "alloc_inv rb_buffer (small_fs bits)"
proof -
  have "geom (small_fs bits)" by (simp add: geom_def small_fields)
  moreover have "bitmaps_ok (small_fs bits)"
  proof -
    have "(sel = sel') = (bm_block sel small_gdesc = bm_block sel' small_gdesc)" for sel sel'
      by (cases sel; cases sel') (simp_all add: small_gdesc_def)
    moreover have "0 < bm_block sel small_gdesc \<and> bm_block sel small_gdesc < 10" for sel
      by (cases sel) (simp_all add: small_gdesc_def)
    ultimately show ?thesis by (simp add: bitmaps_ok_def small_fields)
  qed
  moreover have "bm_ok rb_buffer s (small_fs bits)" for s by (simp add: bm_ok_def small_fields Let_def)
  moreover have "\<not> claimable rb_buffer (small_fs bits) b" if "is_meta (small_fs bits) b" for b
  proof -
    have "bm_block sel small_gdesc < 6" for sel by (cases sel) (simp_all add: small_gdesc_def)
    then have "b < 6" using that
      by (auto simp: is_meta_def is_bitmap_def small_fields div_ceil_u32_def)
    then show ?thesis by (simp add: claimable_def small_freeable)
  qed
  ultimately show ?thesis by (simp add: alloc_inv_def small_fields)
qed

section \<open>Properties\<close>

text \<open>C32: Block allocation is safe whatever the device and the heap do: on any fail-stop device
  \<open>ext2_alloc_block\<close> keeps the allocator's invariant and either claims exactly one block, which
  was free, is no metadata and does not wait to be freed, has its bit set in the bitmap on the
  disk and is zeroed, with every other bit and every other data block unchanged, or it returns
  an error and no bit and no data block has changed.\<close>

theorem ext2_alloc_block_correct:
  assumes "failstop_device rd wr content good" "on_device rd wr good fs" "alloc_inv content fs"
  shows "\<exists>r fs'. ext2_alloc_block fs = Some (r, fs') \<and> on_device rd wr good fs' \<and> alloc_inv content fs'
    \<and> (case r of None \<Rightarrow> bits_eq content fs fs'
       | Some b \<Rightarrow> claimed content fs b fs' \<and> b < blocks_count fs \<and> \<not> is_meta fs b
           \<and> b \<notin> set (pending_free fs))"
proof -
  from failstop_device.alloc_block_ok [OF assms] obtain r fs' where r:
    "ext2_alloc_block fs = Some (r, fs')" "on_device rd wr good fs'" "alloc_inv content fs'"
    "case r of None \<Rightarrow> bits_eq content fs fs' | Some b \<Rightarrow> claimed content fs b fs'" by blast
  then show ?thesis using claimed_freeable [OF assms(3)] by (cases r) auto
qed

theorem ext2_alloc_block_correct_witness:
  "\<exists>r fs'. ext2_alloc_block (small_fs 63) = Some (r, fs')
    \<and> on_device ramblock_read ramblock_write ramblock_good fs' \<and> alloc_inv rb_buffer fs'
    \<and> (case r of None \<Rightarrow> bits_eq rb_buffer (small_fs 63) fs'
       | Some b \<Rightarrow> claimed rb_buffer (small_fs 63) b fs' \<and> b < blocks_count (small_fs 63)
           \<and> \<not> is_meta (small_fs 63) b \<and> b \<notin> set (pending_free (small_fs 63)))"
  by (rule ext2_alloc_block_correct [OF ram.fail.failstop_device_axioms small_device small_inv])


lemma small_in_use: "in_use rb_buffer (small_fs 127) 6" "\<not> is_meta (small_fs 127) 6"
proof -
  have f: "ext2_block_freeable (small_fs 127) 6 = Some (0, 6)"
    by (simp add: ext2_block_freeable_def small_fields small_first Let_def ext2_group_blocks_def)
  have b: "bm_bits rb_buffer BlockBits (small_fs 127) 0 = [127, 0]"
    by (simp add: bm_bits_def small_fields blk_def small_dev_def chunk_def small_gdesc_def numeral_eq_Suc)
  show "in_use rb_buffer (small_fs 127) 6" unfolding in_use_def f option.case prod.case b
    by (simp add: bget_def)
  have "bm_block sel small_gdesc < 6" for sel by (cases sel) (simp_all add: small_gdesc_def)
  then show "\<not> is_meta (small_fs 127) 6"
    by (auto simp: is_meta_def is_bitmap_def small_fields div_ceil_u32_def dest: less_imp_neq)
qed

lemma small_free: "\<exists>f. ext2_free_block (small_fs 127) 6 = (0, f)"
proof -
  have "ext2_block_freeable (small_fs 127) 6 = Some (0, 6)"
    by (simp add: ext2_block_freeable_def small_fields small_first Let_def ext2_group_blocks_def)
  moreover have "fst (pending_grow (small_fs 127))"
    by (simp add: pending_grow_def kmalloc_ok_def small_fields small_alloc)
  ultimately show ?thesis by (simp add: ext2_free_block_def small_fields split: prod.splits) auto
qed


text \<open>C34: Inode allocation never hands out a reserved inode or one in use: on any fail-stop
  device \<open>ext2_alloc_inode\<close> returns an inode number between the first inode and the inode count
  whose bit was clear, sets that bit and no other, and leaves the block bitmaps and the data
  blocks alone, or it fails and changes no bit; a free of an inode clears exactly the bit of an
  inode that is in use.\<close>

theorem ext2_inode_allocator_correct:
  assumes "failstop_device rd wr content good" "on_device rd wr good fs" "alloc_inv content fs"
    "0 < first_inode fs"
  shows "(\<exists>r fs'. ext2_alloc_inode fs = Some (r, fs') \<and> alloc_inv content fs'
      \<and> (case r of None \<Rightarrow> bits_eq content fs fs'
         | Some i \<Rightarrow> first_inode fs \<le> i \<and> i \<le> inodes_count fs \<and> inode_marked content fs i True fs'))
    \<and> (\<exists>rc fs'. ext2_free_inode fs i = Some (rc, fs') \<and> alloc_inv content fs'
      \<and> (if rc = 0 then first_inode fs \<le> i \<and> inode_marked content fs i False fs' else bits_eq content fs fs'))"
proof -
  from failstop_device.alloc_inode_ok [OF assms(1-3)] obtain r fs' where
    "ext2_alloc_inode fs = Some (r, fs')" "alloc_inv content fs'"
    "case r of None \<Rightarrow> bits_eq content fs fs' | Some x \<Rightarrow> first_inode fs \<le> x \<and> inode_marked content fs x True fs'" by blast
  then have "\<exists>r fs'. ext2_alloc_inode fs = Some (r, fs') \<and> alloc_inv content fs'
      \<and> (case r of None \<Rightarrow> bits_eq content fs fs'
         | Some i \<Rightarrow> first_inode fs \<le> i \<and> i \<le> inodes_count fs \<and> inode_marked content fs i True fs')"
    by (cases r) (auto simp: inode_marked_def)
  with failstop_device.free_inode_ok [OF assms, of i] show ?thesis by blast
qed

theorem ext2_inode_allocator_correct_witness:
  "\<exists>r fs'. ext2_alloc_inode (small_fs 63) = Some (r, fs') \<and> alloc_inv rb_buffer fs'
      \<and> (case r of None \<Rightarrow> bits_eq rb_buffer (small_fs 63) fs'
         | Some i \<Rightarrow> first_inode (small_fs 63) \<le> i \<and> i \<le> inodes_count (small_fs 63)
             \<and> inode_marked rb_buffer (small_fs 63) i True fs')"
proof -
  have "0 < first_inode (small_fs 63)" by (simp add: small_fields)
  from ext2_inode_allocator_correct [OF ram.fail.failstop_device_axioms small_device small_inv this]
  show ?thesis by blast
qed

end
