(* ===== verification/Ext2_Dirent.thy ===== *)
theory Ext2_Dirent
  imports Ext2_Base
begin

text \<open>
  The format of an ext2 directory block (\<open>kernel/kernel/fs/ext2/helpers.c\<close>): a chain of records
  of varying length, each a header and a name, that fills the block or ends in zeros.  The
  operations below work on the bytes of one block; \<open>None\<close> is a write outside the block.
\<close>

section \<open>Records\<close>

record dhdr =
  d_inode :: nat
  d_rec_len :: nat
  d_name_len :: nat
  d_file_type :: nat

definition dhdr_fields :: "nat list" where "dhdr_fields = [4, 2, 1, 1]"

definition dhdr_bytes :: "dhdr \<Rightarrow> u8 list" where
  "dhdr_bytes d = pack dhdr_fields [d_inode d, d_rec_len d, d_name_len d, d_file_type d]"

definition bytes_dhdr :: "u8 list \<Rightarrow> dhdr" where
  "bytes_dhdr bs = (let vs = unpack dhdr_fields bs in
     \<lparr>d_inode = vs ! 0, d_rec_len = vs ! 1, d_name_len = vs ! 2, d_file_type = vs ! 3\<rparr>)"

definition ext2_dirent_hdr_len :: nat where "ext2_dirent_hdr_len = 8"

definition ext2_dirent_rec_len :: "nat \<Rightarrow> nat" where
  "ext2_dirent_rec_len name_len = wrap32 (ext2_dirent_hdr_len + wrap32 name_len + 3) div 4 * 4"

definition ext2_all_zero :: "u8 list \<Rightarrow> bool" where
  "ext2_all_zero p = list_all (\<lambda>b. b = 0) p"

text \<open>\<open>EXT2_DIRENT_FULL\<close>, \<open>PLACED\<close>, \<open>EXISTS\<close> and \<open>CORRUPT\<close>.\<close>

datatype place_verdict = DIRENT_FULL | DIRENT_PLACED | DIRENT_EXISTS | DIRENT_CORRUPT

definition ext2_dirent_name_ok :: "u8 list \<Rightarrow> bool" where
  "ext2_dirent_name_ok name =
    (if name = [] \<or> length name > EXT2_NAME_LEN then False else list_all (\<lambda>c. c \<noteq> 47) name)"

text \<open>The header at an offset, with the verdict 1 (a record), 0 (the end) or -1 (malformed); no
  caller reads the header of an end.\<close>

definition ext2_dirent_at :: "'d ext2 \<Rightarrow> u8 list \<Rightarrow> nat \<Rightarrow> int \<times> dhdr" where
  "ext2_dirent_at fs buf off =
    (if off > bsize fs - ext2_dirent_hdr_len then (0, bytes_dhdr [])
     else let d = bytes_dhdr (chunk off ext2_dirent_hdr_len buf) in
       if d_rec_len d = 0 then (0, d)
       else if d_rec_len d < ext2_dirent_hdr_len \<or> d_rec_len d mod 4 \<noteq> 0
         \<or> d_rec_len d > bsize fs \<or> off > bsize fs - d_rec_len d then (-1, d)
       else (1, d))"

definition put :: "nat \<Rightarrow> u8 list \<Rightarrow> u8 list \<Rightarrow> u8 list option" where
  "put off ys buf = (if off + length ys \<le> length buf then Some (patch off ys buf) else None)"

definition ext2_dirent_write ::
  "'d ext2 \<Rightarrow> u8 list \<Rightarrow> nat \<Rightarrow> nat \<Rightarrow> u8 list \<Rightarrow> nat \<Rightarrow> nat \<Rightarrow> u8 list option" where
  "ext2_dirent_write fs buf off inum name file_type rec_len = do {
     buf \<leftarrow> put off (replicate rec_len 0) buf;
     buf \<leftarrow> put off (dhdr_bytes \<lparr>d_inode = inum, d_rec_len = rec_len mod 65536,
       d_name_len = length name mod 256, d_file_type = (if has_filetype fs then file_type else 0)\<rparr>) buf;
     put (off + ext2_dirent_hdr_len) name buf }"

definition dot :: "u8 list" where "dot = [46]"
definition dotdot :: "u8 list" where "dotdot = [46, 46]"

text \<open>\<open>ext2_dirent_init_dir\<close> fills the given block, whatever it held.\<close>

definition ext2_dirent_init_dir :: "'d ext2 \<Rightarrow> u8 list \<Rightarrow> nat \<Rightarrow> nat \<Rightarrow> (int \<times> u8 list) option" where
  "ext2_dirent_init_dir fs buf inum parent =
    (if inum = 0 then Some (-1, buf)
     else let self_len = ext2_dirent_rec_len 1; up_len = ext2_dirent_rec_len 2 in
       if bsize fs < self_len + up_len + ext2_dirent_hdr_len then Some (-1, buf)
       else do {
         buf \<leftarrow> put 0 (replicate (bsize fs) 0) buf;
         buf \<leftarrow> ext2_dirent_write fs buf 0 inum dot EXT2_FT_DIR self_len;
         buf \<leftarrow> ext2_dirent_write fs buf self_len parent dotdot EXT2_FT_DIR up_len;
         buf \<leftarrow> put (self_len + up_len) (dhdr_bytes \<lparr>d_inode = 0,
           d_rec_len = (bsize fs - self_len - up_len) mod 65536, d_name_len = 0, d_file_type = 0\<rparr>) buf;
         Some (0, buf) })"

text \<open>A name comparison: \<open>d.name_len == name_len && memcmp(...) == 0\<close>.\<close>

definition name_at :: "u8 list \<Rightarrow> nat \<Rightarrow> dhdr \<Rightarrow> u8 list \<Rightarrow> bool" where
  "name_at buf off d name \<longleftrightarrow> d_name_len d = length name
     \<and> chunk (off + ext2_dirent_hdr_len) (length name) buf = name"

text \<open>A live record whose name does not fit it.\<close>

definition bad_name :: "dhdr \<Rightarrow> bool" where
  "bad_name d \<longleftrightarrow> d_name_len d = 0 \<or> d_name_len d > d_rec_len d - ext2_dirent_hdr_len"

lemma dirent_at_record:
  assumes "ext2_dirent_at fs buf off = (1, d)"
  shows "8 \<le> d_rec_len d" "off + d_rec_len d \<le> bsize fs" "d_rec_len d mod 4 = 0" "off < bsize fs"
    "d = bytes_dhdr (chunk off 8 buf)"
  using assms by (auto simp: ext2_dirent_at_def Let_def ext2_dirent_hdr_len_def split: if_splits)

lemma dirent_at_decr:
  assumes "(1, d) = ext2_dirent_at fs buf off"
  shows "bsize fs - (off + d_rec_len d) < bsize fs - off"
  using dirent_at_record(1,4) [OF assms [symmetric]] by linarith

section \<open>Placing a name\<close>

text \<open>What the scan has found: a record to split, the longest hole, the last record.\<close>

record place_acc =
  split_off :: "nat option"
  hole_off :: nat
  hole_len :: nat
  last_off :: nat
  last_len :: nat
  seen :: bool

definition place_note :: "nat \<Rightarrow> nat \<Rightarrow> dhdr \<Rightarrow> place_acc \<Rightarrow> place_acc" where
  "place_note need off d acc =
    (let acc = (if d_inode d = 0 then
                  if d_rec_len d \<ge> need \<and> d_rec_len d > hole_len acc
                  then acc\<lparr>hole_len := d_rec_len d, hole_off := off\<rparr> else acc
                else if split_off acc = None \<and> d_rec_len d > need then
                  if d_rec_len d - need \<ge> ext2_dirent_rec_len (d_name_len d)
                  then acc\<lparr>split_off := Some off\<rparr> else acc
                else acc)
     in acc\<lparr>last_off := off, last_len := d_rec_len d, seen := True\<rparr>)"

function place_scan ::
  "'d ext2 \<Rightarrow> u8 list \<Rightarrow> nat \<Rightarrow> u8 list \<Rightarrow> nat \<Rightarrow> place_acc \<Rightarrow> place_verdict + place_acc" where
  "place_scan fs buf need name off acc =
    (case ext2_dirent_at fs buf off of (st, d) \<Rightarrow>
       if st < 0 then Inl DIRENT_CORRUPT
       else if st \<noteq> 1 then Inr acc
       else if d_inode d \<noteq> 0 \<and> bad_name d then Inl DIRENT_CORRUPT
       else if d_inode d \<noteq> 0 \<and> name_at buf off d name then Inl DIRENT_EXISTS
       else place_scan fs buf need name (off + d_rec_len d) (place_note need off d acc))"
  by pat_completeness auto
termination
  by (relation "measure (\<lambda>(fs, buf, need, name, off, acc). bsize fs - off)")
    (auto intro: dirent_at_decr)

declare place_scan.simps [simp del]

definition place_split ::
  "'d ext2 \<Rightarrow> u8 list \<Rightarrow> nat \<Rightarrow> nat \<Rightarrow> u8 list \<Rightarrow> nat \<Rightarrow> nat \<Rightarrow> u8 list option" where
  "place_split fs buf off need name inum file_type =
    (let d = snd (ext2_dirent_at fs buf off);
         keep = d_rec_len d - need;
         self = ext2_dirent_rec_len (d_name_len d)
     in do {
       buf \<leftarrow> put off (dhdr_bytes (d\<lparr>d_rec_len := keep mod 65536\<rparr>)) buf;
       buf \<leftarrow> put (off + self) (replicate (keep - self) 0) buf;
       ext2_dirent_write fs buf (off + keep) inum name file_type need })"

definition placed :: "u8 list option \<Rightarrow> (place_verdict \<times> u8 list) option" where
  "placed r = map_option (Pair DIRENT_PLACED) r"

definition ext2_dirent_place ::
  "'d ext2 \<Rightarrow> u8 list \<Rightarrow> nat \<Rightarrow> u8 list \<Rightarrow> nat \<Rightarrow> nat \<Rightarrow> (place_verdict \<times> u8 list) option" where
  "ext2_dirent_place fs buf need name inum file_type =
    (case place_scan fs buf need name 0
        \<lparr>split_off = None, hole_off = 4294967295, hole_len = 0, last_off = 0, last_len = 0, seen = False\<rparr> of
       Inl v \<Rightarrow> Some (v, buf)
     | Inr acc \<Rightarrow>
       if hole_len acc \<ge> need
       then placed (ext2_dirent_write fs buf (hole_off acc) inum name file_type (hole_len acc))
       else case split_off acc of
         Some off \<Rightarrow> placed (place_split fs buf off need name inum file_type)
       | None \<Rightarrow>
         if \<not> seen acc then placed (ext2_dirent_write fs buf 0 inum name file_type need)
         else let tail_off = last_off acc + last_len acc in
           if bsize fs - tail_off \<ge> need \<and> ext2_all_zero (chunk tail_off (bsize fs - tail_off) buf)
           then placed (ext2_dirent_write fs buf tail_off inum name file_type need)
           else Some (DIRENT_FULL, buf))"

section \<open>Looking up and changing names in a block\<close>

text \<open>
  The loops over one block of \<open>ext2_dirent_find\<close>, \<open>ext2_dirent_is_empty\<close>, \<open>ext2_dirent_remove\<close>
  and \<open>ext2_dirent_set_parent\<close>.  \<open>find_scan\<close> gives the inode of a name; \<open>empty_scan\<close> is whether
  the block holds nothing but \<open>.\<close> and \<open>..\<close>; the last two give the offset of the record to change.
\<close>

function find_scan :: "'d ext2 \<Rightarrow> u8 list \<Rightarrow> u8 list \<Rightarrow> nat \<Rightarrow> nat option" where
  "find_scan fs buf name off =
    (case ext2_dirent_at fs buf off of (st, d) \<Rightarrow>
       if st \<noteq> 1 then None
       else if d_inode d \<noteq> 0 \<and> bad_name d then None
       else if d_inode d \<noteq> 0 \<and> name_at buf off d name then Some (d_inode d)
       else find_scan fs buf name (off + d_rec_len d))"
  by pat_completeness auto
termination
  by (relation "measure (\<lambda>(fs, buf, name, off). bsize fs - off)") (auto intro: dirent_at_decr)

declare find_scan.simps [simp del]

function empty_scan :: "'d ext2 \<Rightarrow> u8 list \<Rightarrow> nat \<Rightarrow> bool" where
  "empty_scan fs buf off =
    (case ext2_dirent_at fs buf off of (st, d) \<Rightarrow>
       if st \<noteq> 1 then True
       else if d_inode d \<noteq> 0 \<and> bad_name d then False
       else if d_inode d \<noteq> 0 \<and> \<not> (name_at buf off d dot \<or> name_at buf off d dotdot) then False
       else empty_scan fs buf (off + d_rec_len d))"
  by pat_completeness auto
termination
  by (relation "measure (\<lambda>(fs, buf, off). bsize fs - off)") (auto intro: dirent_at_decr)

declare empty_scan.simps [simp del]

function locate_scan :: "'d ext2 \<Rightarrow> u8 list \<Rightarrow> u8 list \<Rightarrow> nat \<Rightarrow> nat option" where
  "locate_scan fs buf name off =
    (case ext2_dirent_at fs buf off of (st, d) \<Rightarrow>
       if st \<noteq> 1 then None
       else if d_inode d \<noteq> 0 \<and> bad_name d then None
       else if d_inode d \<noteq> 0 \<and> name_at buf off d name then Some off
       else locate_scan fs buf name (off + d_rec_len d))"
  by pat_completeness auto
termination
  by (relation "measure (\<lambda>(fs, buf, name, off). bsize fs - off)") (auto intro: dirent_at_decr)

declare locate_scan.simps [simp del]

text \<open>The record at \<open>off\<close> becomes a hole and swallows a hole behind it.\<close>

definition remove_at :: "'d ext2 \<Rightarrow> u8 list \<Rightarrow> nat \<Rightarrow> u8 list option" where
  "remove_at fs buf off =
    (let d = snd (ext2_dirent_at fs buf off); next = off + d_rec_len d in
     case ext2_dirent_at fs buf next of (st, nx) \<Rightarrow>
       let merge = (st = 1 \<and> d_inode nx = 0);
           total = (if merge then d_rec_len d + d_rec_len nx else d_rec_len d)
       in do {
         buf \<leftarrow> (if merge then put next (replicate (d_rec_len nx) 0) buf else Some buf);
         buf \<leftarrow> put off (dhdr_bytes (d\<lparr>d_inode := 0, d_name_len := 0, d_file_type := 0,
           d_rec_len := total mod 65536\<rparr>)) buf;
         put (off + ext2_dirent_hdr_len) (replicate (total - ext2_dirent_hdr_len) 0) buf })"

definition set_inode_at :: "'d ext2 \<Rightarrow> u8 list \<Rightarrow> nat \<Rightarrow> nat \<Rightarrow> u8 list option" where
  "set_inode_at fs buf off inum =
    put off (dhdr_bytes ((snd (ext2_dirent_at fs buf off))\<lparr>d_inode := inum\<rparr>)) buf"

end
