(* ===== verification/Ext2_Dirent_Block.thy ===== *)
theory Ext2_Dirent_Block
  imports Ext2_Dirent
begin

text \<open>
  Directory blocks as lists of segments.  A well-formed block is the concatenation of encoded
  segments, holes among them, and a zero tail; the names it lists form a finite map
  (\<open>dir_map\<close>).  Every operation on the bytes is shown to be an operation on the segments, and
  so on the map.
\<close>

section \<open>Segments\<close>

record seg =
  s_ino :: nat
  s_nlen :: nat
  s_ftype :: nat
  s_body :: "u8 list"

definition rlen :: "seg \<Rightarrow> nat" where "rlen s = 8 + length (s_body s)"

definition seg_hdr :: "seg \<Rightarrow> dhdr" where
  "seg_hdr s = \<lparr>d_inode = s_ino s, d_rec_len = rlen s, d_name_len = s_nlen s, d_file_type = s_ftype s\<rparr>"

definition enc :: "seg \<Rightarrow> u8 list" where "enc s = dhdr_bytes (seg_hdr s) @ s_body s"

definition encs :: "seg list \<Rightarrow> u8 list" where "encs ss = concat (map enc ss)"

definition seg_name :: "seg \<Rightarrow> u8 list" where "seg_name s = take (s_nlen s) (s_body s)"

text \<open>The fields fit, the length is a multiple of four, and a live record holds its name.\<close>

definition seg_ok :: "seg \<Rightarrow> bool" where
  "seg_ok s \<longleftrightarrow> s_ino s < 4294967296 \<and> s_nlen s < 256 \<and> s_ftype s < 256 \<and> rlen s < 65536
     \<and> rlen s mod 4 = 0 \<and> (s_ino s \<noteq> 0 \<longrightarrow> 0 < s_nlen s \<and> s_nlen s \<le> length (s_body s))"

definition entries :: "seg list \<Rightarrow> (u8 list \<times> nat) list" where
  "entries ss = map (\<lambda>s. (seg_name s, s_ino s)) (filter (\<lambda>s. s_ino s \<noteq> 0) ss)"

definition block_is :: "'d ext2 \<Rightarrow> seg list \<Rightarrow> nat \<Rightarrow> u8 list \<Rightarrow> bool" where
  "block_is fs ss k buf \<longleftrightarrow> buf = encs ss @ replicate k 0 \<and> length buf = bsize fs
     \<and> list_all seg_ok ss \<and> distinct (map fst (entries ss))"

lemma block_isD:
  assumes "block_is fs ss k buf"
  shows "buf = encs ss @ replicate k 0" "length buf = bsize fs" "list_all seg_ok ss" "distinct (map fst (entries ss))"
  using assms unfolding block_is_def by blast+

text \<open>The block size of a volume as mounting accepts it.\<close>

definition bsize_ok :: "'d ext2 \<Rightarrow> bool" where
  "bsize_ok fs \<longleftrightarrow> 32 \<le> bsize fs \<and> bsize fs < 65536 \<and> bsize fs mod 4 = 0"

lemma length_dhdr_bytes [simp]: "length (dhdr_bytes d) = 8"
  unfolding dhdr_bytes_def by (subst length_pack) (simp_all add: dhdr_fields_def)

lemma length_enc [simp]: "length (enc s) = rlen s"
  by (simp add: enc_def rlen_def)

lemma encs_simps [simp]:
  "encs [] = []" "encs (s # ss) = enc s @ encs ss" "encs (ss @ ts) = encs ss @ encs ts"
  by (simp_all add: encs_def)

lemma entries_simps [simp]:
  "entries [] = []"
  "entries (s # ss) = (if s_ino s = 0 then entries ss else (seg_name s, s_ino s) # entries ss)"
  "entries (ss @ ts) = entries ss @ entries ts"
  by (simp_all add: entries_def)

lemma bytes_dhdr_bytes:
  assumes "d_inode d < 4294967296" "d_rec_len d < 65536" "d_name_len d < 256" "d_file_type d < 256"
  shows "bytes_dhdr (dhdr_bytes d @ r) = d"
proof -
  have "fits dhdr_fields [d_inode d, d_rec_len d, d_name_len d, d_file_type d]"
    using assms by (simp add: dhdr_fields_def)
  from unpack_pack [OF this, of r] show ?thesis by (simp add: bytes_dhdr_def dhdr_bytes_def)
qed

lemma le_val_zeros: "le_val (replicate n 0) = 0"
  by (induction n) simp_all

lemma dhdr_of_zeros: "d_rec_len (bytes_dhdr (replicate k 0)) = 0"
  by (simp add: bytes_dhdr_def dhdr_fields_def Let_def le_val_zeros)

lemma chunk_at: "length P = off \<Longrightarrow> chunk off n (P @ xs) = take n xs"
  by (auto simp: chunk_def)

lemma rlen_ge: "8 \<le> rlen s" by (simp add: rlen_def)

lemma at_seg:
  assumes "buf = P @ enc s @ R" "length buf = bsize fs" "seg_ok s"
  shows "ext2_dirent_at fs buf (length P) = (1, seg_hdr s)"
proof -
  have c: "chunk (length P) 8 buf = dhdr_bytes (seg_hdr s)"
    unfolding assms(1) by (subst chunk_at) (simp_all add: enc_def)
  have d: "bytes_dhdr (chunk (length P) 8 buf) = seg_hdr s"
    unfolding c using bytes_dhdr_bytes [of "seg_hdr s" "[]"] assms(3) by (simp add: seg_hdr_def seg_ok_def)
  have l: "length P + rlen s \<le> bsize fs" using assms(1,2) by simp
  have "rlen s mod 4 = 0" using assms(3) by (simp add: seg_ok_def)
  moreover have "\<not> bsize fs - 8 < length P" "\<not> bsize fs - rlen s < length P"
    using l rlen_ge [of s] by linarith+
  ultimately show ?thesis using l rlen_ge [of s] d
    by (simp add: ext2_dirent_at_def ext2_dirent_hdr_len_def Let_def) (simp add: seg_hdr_def)
qed

lemma at_tail:
  assumes "buf = P @ replicate k 0" "length buf = bsize fs" "8 \<le> bsize fs"
  shows "fst (ext2_dirent_at fs buf (length P)) = 0"
proof (cases "length P > bsize fs - 8")
  case False
  then have "8 \<le> k" using assms by auto
  then have "chunk (length P) 8 buf = replicate 8 0"
    unfolding assms(1) by (subst chunk_at) simp_all
  then show ?thesis using dhdr_of_zeros [of 8] by (simp add: ext2_dirent_at_def ext2_dirent_hdr_len_def Let_def)
qed (simp add: ext2_dirent_at_def ext2_dirent_hdr_len_def)

lemma at_tailE:
  assumes "buf = P @ encs [] @ replicate k 0" "length buf = bsize fs" "8 \<le> bsize fs"
  obtains d where "ext2_dirent_at fs buf (length P) = (0, d)"
  using at_tail [of buf P k fs] assms by (cases "ext2_dirent_at fs buf (length P)") simp

text \<open>A record found at a segment: its header, its name and its validity.\<close>

lemma seg_name_at:
  assumes "buf = P @ enc s @ R" "seg_ok s" "s_ino s \<noteq> 0"
  shows "name_at buf (length P) (seg_hdr s) name = (seg_name s = name)" "\<not> bad_name (seg_hdr s)"
proof -
  have l: "s_nlen s \<le> length (s_body s)" "0 < s_nlen s" using assms(2,3) by (auto simp: seg_ok_def)
  then have ln: "length (seg_name s) = s_nlen s" by (simp add: seg_name_def)
  have "chunk (length P + 8) (s_nlen s) buf = seg_name s"
    unfolding assms(1) using chunk_at [of "P @ dhdr_bytes (seg_hdr s)" "length P + 8" "s_nlen s" "s_body s @ R"] l
    by (simp add: enc_def seg_name_def)
  then show "name_at buf (length P) (seg_hdr s) name = (seg_name s = name)"
    using ln by (auto simp: name_at_def ext2_dirent_hdr_len_def seg_hdr_def)
  show "\<not> bad_name (seg_hdr s)"
    using l by (simp add: bad_name_def seg_hdr_def ext2_dirent_hdr_len_def rlen_def)
qed

section \<open>Scans\<close>

text \<open>One turn of each loop, at a segment.\<close>

lemma scan_seg:
  assumes b: "buf = P @ enc s @ R" and l: "length buf = bsize fs" and ok: "seg_ok s"
  shows "find_scan fs buf name (length P)
      = (if s_ino s \<noteq> 0 \<and> seg_name s = name then Some (s_ino s) else find_scan fs buf name (length (P @ enc s)))"
    "empty_scan fs buf (length P)
      = ((s_ino s = 0 \<or> seg_name s \<in> {dot, dotdot}) \<and> empty_scan fs buf (length (P @ enc s)))"
    "locate_scan fs buf name (length P)
      = (if s_ino s \<noteq> 0 \<and> seg_name s = name then Some (length P) else locate_scan fs buf name (length (P @ enc s)))"
    "place_scan fs buf need name (length P) acc
      = (if s_ino s \<noteq> 0 \<and> seg_name s = name then Inl DIRENT_EXISTS
         else place_scan fs buf need name (length (P @ enc s)) (place_note need (length P) (seg_hdr s) acc))"
proof -
  note a = at_seg [OF b l ok]
  have h: "d_inode (seg_hdr s) = s_ino s" "d_rec_len (seg_hdr s) = rlen s" by (simp_all add: seg_hdr_def)
  have lp: "length (P @ enc s) = length P + rlen s" by simp
  have n: "s_ino s \<noteq> 0 \<Longrightarrow> name_at buf (length P) (seg_hdr s) nm = (seg_name s = nm)" for nm
    by (rule seg_name_at(1) [OF b ok])
  have nb: "s_ino s \<noteq> 0 \<Longrightarrow> \<not> bad_name (seg_hdr s)" by (rule seg_name_at(2) [OF b ok])
  show "find_scan fs buf name (length P)
      = (if s_ino s \<noteq> 0 \<and> seg_name s = name then Some (s_ino s) else find_scan fs buf name (length (P @ enc s)))"
    unfolding find_scan.simps [of fs buf name "length P"] a prod.case h lp using n [of name] nb
    by (cases "s_ino s = 0") simp_all
  show "empty_scan fs buf (length P)
      = ((s_ino s = 0 \<or> seg_name s \<in> {dot, dotdot}) \<and> empty_scan fs buf (length (P @ enc s)))"
    unfolding empty_scan.simps [of fs buf "length P"] a prod.case h lp using n [of dot] n [of dotdot] nb
    by (cases "s_ino s = 0") simp_all
  show "locate_scan fs buf name (length P)
      = (if s_ino s \<noteq> 0 \<and> seg_name s = name then Some (length P) else locate_scan fs buf name (length (P @ enc s)))"
    unfolding locate_scan.simps [of fs buf name "length P"] a prod.case h lp using n [of name] nb
    by (cases "s_ino s = 0") simp_all
  show "place_scan fs buf need name (length P) acc
      = (if s_ino s \<noteq> 0 \<and> seg_name s = name then Inl DIRENT_EXISTS
         else place_scan fs buf need name (length (P @ enc s)) (place_note need (length P) (seg_hdr s) acc))"
    unfolding place_scan.simps [of fs buf need name "length P" acc] a prod.case h lp using n [of name] nb
    by (cases "s_ino s = 0") simp_all
qed

lemma find_scan_segs:
  assumes "buf = P @ encs ss @ replicate k 0" "length buf = bsize fs" "8 \<le> bsize fs" "list_all seg_ok ss"
  shows "find_scan fs buf name (length P) = map_of (entries ss) name"
  using assms(1,4)
proof (induction ss arbitrary: P)
  case Nil
  from at_tailE [OF Nil(1) assms(2,3)] obtain d where "ext2_dirent_at fs buf (length P) = (0, d)" .
  then show ?case by (subst find_scan.simps) simp
next
  case (Cons s ss)
  have b: "buf = P @ enc s @ (encs ss @ replicate k 0)" and ok: "seg_ok s" using Cons.prems by simp_all
  have "find_scan fs buf name (length (P @ enc s)) = map_of (entries ss) name"
    by (rule Cons.IH) (use Cons.prems in simp_all)
  then show ?case unfolding scan_seg(1) [OF b assms(2) ok] by auto
qed

lemma empty_scan_segs:
  assumes "buf = P @ encs ss @ replicate k 0" "length buf = bsize fs" "8 \<le> bsize fs" "list_all seg_ok ss"
  shows "empty_scan fs buf (length P) = (fst ` set (entries ss) \<subseteq> {dot, dotdot})"
  using assms(1,4)
proof (induction ss arbitrary: P)
  case Nil
  from at_tailE [OF Nil(1) assms(2,3)] obtain d where "ext2_dirent_at fs buf (length P) = (0, d)" .
  then show ?case by (subst empty_scan.simps) simp
next
  case (Cons s ss)
  have b: "buf = P @ enc s @ (encs ss @ replicate k 0)" and ok: "seg_ok s" using Cons.prems by simp_all
  have "empty_scan fs buf (length (P @ enc s)) = (fst ` set (entries ss) \<subseteq> {dot, dotdot})"
    by (rule Cons.IH) (use Cons.prems in simp_all)
  then show ?case unfolding scan_seg(2) [OF b assms(2) ok] by auto
qed

lemma locate_scan_segs:
  assumes "buf = P @ encs ss @ replicate k 0" "length buf = bsize fs" "8 \<le> bsize fs" "list_all seg_ok ss"
  shows "case locate_scan fs buf name (length P) of
      None \<Rightarrow> name \<notin> fst ` set (entries ss)
    | Some off \<Rightarrow> \<exists>A s B. ss = A @ s # B \<and> off = length P + length (encs A) \<and> s_ino s \<noteq> 0 \<and> seg_name s = name
        \<and> name \<notin> fst ` set (entries A)"
  using assms(1,4)
proof (induction ss arbitrary: P)
  case Nil
  from at_tailE [OF Nil(1) assms(2,3)] obtain d where "ext2_dirent_at fs buf (length P) = (0, d)" .
  then show ?case by (subst locate_scan.simps) simp
next
  case (Cons s ss)
  have b: "buf = P @ enc s @ (encs ss @ replicate k 0)" and ok: "seg_ok s" using Cons.prems by simp_all
  have IH: "case locate_scan fs buf name (length (P @ enc s)) of
      None \<Rightarrow> name \<notin> fst ` set (entries ss)
    | Some off \<Rightarrow> \<exists>A s' B. ss = A @ s' # B \<and> off = length (P @ enc s) + length (encs A) \<and> s_ino s' \<noteq> 0
        \<and> seg_name s' = name \<and> name \<notin> fst ` set (entries A)"
    by (rule Cons.IH) (use Cons.prems in simp_all)
  show ?case
  proof (cases "s_ino s \<noteq> 0 \<and> seg_name s = name")
    case True
    then have r: "locate_scan fs buf name (length P) = Some (length P)"
      unfolding scan_seg(3) [OF b assms(2) ok] by simp
    have "s # ss = [] @ s # ss" by simp
    with True show ?thesis unfolding r option.case
      by (intro exI [of _ "[]"] exI [of _ s] exI [of _ ss]) simp
  next
    case False
    then have r: "locate_scan fs buf name (length P) = locate_scan fs buf name (length (P @ enc s))"
      unfolding scan_seg(3) [OF b assms(2) ok] by (rule if_not_P)
    show ?thesis
    proof (cases "locate_scan fs buf name (length (P @ enc s))")
      case None
      then show ?thesis using IH False unfolding r by auto
    next
      case (Some off)
      then obtain A s' B where a: "ss = A @ s' # B" "off = length (P @ enc s) + length (encs A)" "s_ino s' \<noteq> 0"
        "seg_name s' = name" "name \<notin> fst ` set (entries A)" using IH by auto
      then show ?thesis unfolding r Some option.case using False
        by (intro exI [of _ "s # A"] exI [of _ s'] exI [of _ B]) auto
    qed
  qed
qed

text \<open>The scan of \<open>ext2_dirent_place\<close>: \<open>acc_ok done acc\<close> describes what it has found in \<open>done\<close>.\<close>

definition no_room :: "nat \<Rightarrow> seg \<Rightarrow> bool" where
  "no_room need s \<longleftrightarrow> (if s_ino s = 0 then rlen s < need
     else \<not> (need < rlen s \<and> ext2_dirent_rec_len (s_nlen s) \<le> rlen s - need))"

definition acc_ok :: "nat \<Rightarrow> seg list \<Rightarrow> place_acc \<Rightarrow> bool" where
  "acc_ok need ds acc \<longleftrightarrow>
     (hole_len acc = 0 \<or> need \<le> hole_len acc \<and> (\<exists>A s B. ds = A @ s # B \<and> s_ino s = 0
        \<and> hole_off acc = length (encs A) \<and> hole_len acc = rlen s))
   \<and> (case split_off acc of None \<Rightarrow> True | Some p \<Rightarrow> \<exists>A s B. ds = A @ s # B \<and> s_ino s \<noteq> 0
        \<and> p = length (encs A) \<and> need < rlen s \<and> ext2_dirent_rec_len (s_nlen s) \<le> rlen s - need)
   \<and> seen acc = (ds \<noteq> [])
   \<and> (ds \<noteq> [] \<longrightarrow> last_off acc + last_len acc = length (encs ds))
   \<and> (hole_len acc < need \<longrightarrow> split_off acc = None \<longrightarrow> list_all (no_room need) ds)"

lemma acc_ok_hole:
  assumes "acc_ok need ds acc" "hole_len acc \<noteq> 0"
  obtains A s B where "ds = A @ s # B" "s_ino s = 0" "hole_off acc = length (encs A)" "hole_len acc = rlen s"
proof -
  have "hole_len acc = 0 \<or> need \<le> hole_len acc \<and> (\<exists>A s B. ds = A @ s # B \<and> s_ino s = 0
        \<and> hole_off acc = length (encs A) \<and> hole_len acc = rlen s)"
    using assms(1) unfolding acc_ok_def by (rule conjunct1)
  then show ?thesis using assms(2) that by blast
qed

lemma acc_ok_split:
  assumes "acc_ok need ds acc" "split_off acc = Some p"
  obtains A s B where "ds = A @ s # B" "s_ino s \<noteq> 0" "p = length (encs A)" "need < rlen s"
    "ext2_dirent_rec_len (s_nlen s) \<le> rlen s - need"
proof -
  have "case split_off acc of None \<Rightarrow> True | Some p \<Rightarrow> \<exists>A s B. ds = A @ s # B \<and> s_ino s \<noteq> 0
        \<and> p = length (encs A) \<and> need < rlen s \<and> ext2_dirent_rec_len (s_nlen s) \<le> rlen s - need"
    using assms(1) unfolding acc_ok_def by (rule conjunct1 [OF conjunct2])
  then show ?thesis using that unfolding assms(2) option.case by blast
qed

lemma acc_ok_note:
  assumes "acc_ok need ds acc"
  shows "acc_ok need (ds @ [s]) (place_note need (length (encs ds)) (seg_hdr s) acc)"
proof -
  define acc' where "acc' = place_note need (length (encs ds)) (seg_hdr s) acc"
  have ext: "\<exists>A t B. ds @ [s] = A @ t # B \<and> Q A t" if "\<exists>A t B. ds = A @ t # B \<and> Q A t" for Q
    using that by (metis append.assoc append_Cons)
  have new: "\<exists>A t B. ds @ [s] = A @ t # B \<and> Q A t" if "Q ds s" for Q using that by blast
  have h: "hole_len acc' = 0 \<or> need \<le> hole_len acc' \<and> (\<exists>A t B. ds @ [s] = A @ t # B \<and> s_ino t = 0
      \<and> hole_off acc' = length (encs A) \<and> hole_len acc' = rlen t)"
  proof (cases "s_ino s = 0 \<and> need \<le> rlen s \<and> hole_len acc < rlen s")
    case True
    then have "hole_len acc' = rlen s" "hole_off acc' = length (encs ds)"
      by (simp_all add: acc'_def place_note_def seg_hdr_def Let_def)
    then show ?thesis using True
      new [of "\<lambda>A t. s_ino t = 0 \<and> hole_off acc' = length (encs A) \<and> hole_len acc' = rlen t"] by auto
  next
    case False
    then have "hole_len acc' = hole_len acc" "hole_off acc' = hole_off acc"
      by (auto simp: acc'_def place_note_def seg_hdr_def Let_def)
    then show ?thesis using assms
      ext [of "\<lambda>A t. s_ino t = 0 \<and> hole_off acc' = length (encs A) \<and> hole_len acc' = rlen t"]
      unfolding acc_ok_def by auto
  qed
  have sp: "case split_off acc' of None \<Rightarrow> True | Some p \<Rightarrow> \<exists>A t B. ds @ [s] = A @ t # B \<and> s_ino t \<noteq> 0
        \<and> p = length (encs A) \<and> need < rlen t \<and> ext2_dirent_rec_len (s_nlen t) \<le> rlen t - need"
  proof (cases "split_off acc = None \<and> s_ino s \<noteq> 0 \<and> need < rlen s \<and> ext2_dirent_rec_len (s_nlen s) \<le> rlen s - need")
    case True
    then have "split_off acc' = Some (length (encs ds))"
      by (simp add: acc'_def place_note_def seg_hdr_def Let_def)
    then show ?thesis using True
      new [of "\<lambda>A t. s_ino t \<noteq> 0 \<and> length (encs ds) = length (encs A) \<and> need < rlen t
        \<and> ext2_dirent_rec_len (s_nlen t) \<le> rlen t - need"] by auto
  next
    case False
    then have e: "split_off acc' = split_off acc"
      by (auto simp: acc'_def place_note_def seg_hdr_def Let_def)
    show ?thesis unfolding e
    proof (cases "split_off acc")
      case (Some p)
      then show "case split_off acc of None \<Rightarrow> True | Some p \<Rightarrow> \<exists>A t B. ds @ [s] = A @ t # B \<and> s_ino t \<noteq> 0
        \<and> p = length (encs A) \<and> need < rlen t \<and> ext2_dirent_rec_len (s_nlen t) \<le> rlen t - need"
        using assms ext [of "\<lambda>A t. s_ino t \<noteq> 0 \<and> p = length (encs A) \<and> need < rlen t
          \<and> ext2_dirent_rec_len (s_nlen t) \<le> rlen t - need"] unfolding acc_ok_def by simp
    qed simp
  qed
  have "seen acc'" "last_off acc' + last_len acc' = length (encs (ds @ [s]))"
    by (simp_all add: acc'_def place_note_def seg_hdr_def Let_def)
  moreover have "list_all (no_room need) (ds @ [s])" if "hole_len acc' < need" "split_off acc' = None"
  proof -
    have "hole_len acc < need \<and> split_off acc = None \<and> no_room need s"
      using that by (auto simp: acc'_def place_note_def seg_hdr_def Let_def no_room_def split: if_splits)
    then show ?thesis using assms unfolding acc_ok_def by simp
  qed
  ultimately show ?thesis using h sp unfolding acc'_def [symmetric] acc_ok_def by simp
qed

lemma place_scan_segs:
  assumes "buf = encs ds @ encs ss @ replicate k 0" "length buf = bsize fs" "8 \<le> bsize fs" "list_all seg_ok ss"
    "acc_ok need ds acc"
  shows "case place_scan fs buf need name (length (encs ds)) acc of
      Inl v \<Rightarrow> v = DIRENT_EXISTS \<and> name \<in> fst ` set (entries ss)
    | Inr acc' \<Rightarrow> acc_ok need (ds @ ss) acc' \<and> name \<notin> fst ` set (entries ss)"
  using assms(1,4,5)
proof (induction ss arbitrary: ds acc)
  case Nil
  from at_tailE [OF Nil(1) assms(2,3)] obtain d where "ext2_dirent_at fs buf (length (encs ds)) = (0, d)" .
  then show ?case using Nil(3) by (subst place_scan.simps) simp
next
  case (Cons s ss)
  have b: "buf = encs ds @ enc s @ (encs ss @ replicate k 0)" and ok: "seg_ok s" using Cons.prems by simp_all
  have IH: "case place_scan fs buf need name (length (encs (ds @ [s]))) (place_note need (length (encs ds)) (seg_hdr s) acc) of
      Inl v \<Rightarrow> v = DIRENT_EXISTS \<and> name \<in> fst ` set (entries ss)
    | Inr acc' \<Rightarrow> acc_ok need ((ds @ [s]) @ ss) acc' \<and> name \<notin> fst ` set (entries ss)"
    by (rule Cons.IH) (use Cons.prems acc_ok_note in simp_all)
  show ?case
  proof (cases "s_ino s \<noteq> 0 \<and> seg_name s = name")
    case True
    then have r: "place_scan fs buf need name (length (encs ds)) acc = Inl DIRENT_EXISTS"
      unfolding scan_seg(4) [OF b assms(2) ok] by simp
    show ?thesis unfolding r using True by simp
  next
    case False
    then have r: "place_scan fs buf need name (length (encs ds)) acc
        = place_scan fs buf need name (length (encs (ds @ [s]))) (place_note need (length (encs ds)) (seg_hdr s) acc)"
      unfolding scan_seg(4) [OF b assms(2) ok] by auto
    show ?thesis unfolding r using IH False
      by (cases "place_scan fs buf need name (length (encs (ds @ [s]))) (place_note need (length (encs ds)) (seg_hdr s) acc)")
        auto
  qed
qed

section \<open>Writes\<close>

lemma put_mid:
  "length P = off \<Longrightarrow> length ys = length X \<Longrightarrow> put off ys (P @ X @ S) = Some (P @ ys @ S)"
  by (auto simp: put_def patch_def)

definition new_seg :: "'d ext2 \<Rightarrow> nat \<Rightarrow> u8 list \<Rightarrow> nat \<Rightarrow> nat \<Rightarrow> seg" where
  "new_seg fs inum name file_type rec_len =
    \<lparr>s_ino = inum, s_nlen = length name, s_ftype = (if has_filetype fs then file_type else 0),
     s_body = name @ replicate (rec_len - 8 - length name) 0\<rparr>"

lemma rlen_new_seg: "8 + length name \<le> rec_len \<Longrightarrow> rlen (new_seg fs inum name ft rec_len) = rec_len"
  by (simp add: rlen_def new_seg_def)

lemma new_seg_name [simp]: "seg_name (new_seg fs inum name ft rec_len) = name" "s_ino (new_seg fs inum name ft rec_len) = inum"
  by (simp_all add: seg_name_def new_seg_def)

lemma write_seg:
  assumes "length P = off" "length X = rec_len" "8 + length name \<le> rec_len" "rec_len < 65536" "length name < 256"
  shows "ext2_dirent_write fs (P @ X @ S) off inum name ft rec_len = Some (P @ enc (new_seg fs inum name ft rec_len) @ S)"
proof -
  define h where "h = seg_hdr (new_seg fs inum name ft rec_len)"
  have h: "h = \<lparr>d_inode = inum, d_rec_len = rec_len mod 65536, d_name_len = length name mod 256,
      d_file_type = (if has_filetype fs then ft else 0)\<rparr>"
    using assms rlen_new_seg [OF assms(3), of fs inum ft] by (simp add: h_def seg_hdr_def) (simp add: new_seg_def)
  define z where "z = replicate (rec_len - 8 - length name) (0 :: u8)"
  have sp: "replicate rec_len (0 :: u8) = replicate 8 0 @ replicate (length name) 0 @ z"
    unfolding z_def replicate_add [symmetric] using assms(3) by simp
  have 1: "put off (replicate rec_len 0) (P @ X @ S) = Some (P @ replicate rec_len 0 @ S)"
    by (rule put_mid) (use assms in simp_all)
  have 2: "put off (dhdr_bytes h) (P @ replicate rec_len 0 @ S)
      = Some (P @ dhdr_bytes h @ (replicate (length name) 0 @ z @ S))"
    unfolding sp append_assoc by (rule put_mid) (use assms in simp_all)
  have 3: "put (off + 8) name (P @ dhdr_bytes h @ (replicate (length name) 0 @ z @ S))
      = Some ((P @ dhdr_bytes h) @ name @ (z @ S))"
    using put_mid [of "P @ dhdr_bytes h" "off + 8" name "replicate (length name) 0" "z @ S"] assms(1) by simp
  have "enc (new_seg fs inum name ft rec_len) = dhdr_bytes h @ name @ z"
    by (simp add: enc_def h_def new_seg_def z_def)
  then show ?thesis unfolding ext2_dirent_write_def h [symmetric] ext2_dirent_hdr_len_def using 1 2 3 by simp
qed

lemma rec_len_bounds:
  assumes "n < 256"
  shows "8 + n \<le> ext2_dirent_rec_len n" "ext2_dirent_rec_len n \<le> n + 11" "ext2_dirent_rec_len n mod 4 = 0"
proof -
  have e: "ext2_dirent_rec_len n = (n + 11) div 4 * 4"
    using assms by (simp add: ext2_dirent_rec_len_def ext2_dirent_hdr_len_def)
  have m: "(n + 11) mod 4 < 4" by simp
  have d: "(n + 11) div 4 * 4 + (n + 11) mod 4 = n + 11" by (rule div_mult_mod_eq)
  show "ext2_dirent_rec_len n \<le> n + 11" "ext2_dirent_rec_len n mod 4 = 0" unfolding e by simp_all
  show "8 + n \<le> ext2_dirent_rec_len n" unfolding e using m d by linarith
qed

lemma new_seg_ok:
  assumes "0 < length name" "length name < 256" "8 + length name \<le> rec_len" "rec_len < 65536" "rec_len mod 4 = 0"
    "inum < 4294967296" "ft < 256"
  shows "seg_ok (new_seg fs inum name ft rec_len)"
proof -
  have "length name \<le> rec_len - 8" using assms(3) by linarith
  then show ?thesis using assms rlen_new_seg [OF assms(3), of fs inum ft]
    by (simp add: seg_ok_def) (simp add: new_seg_def)
qed

lemma encs_mult4: "list_all seg_ok ss \<Longrightarrow> length (encs ss) mod 4 = 0"
  by (induction ss) (auto simp: seg_ok_def mod_add_eq [symmetric])

text \<open>Cutting a live record down to \<open>keep\<close> bytes.\<close>

definition cut_seg :: "seg \<Rightarrow> nat \<Rightarrow> seg" where
  "cut_seg s keep = (let self = ext2_dirent_rec_len (s_nlen s) in
     s\<lparr>s_body := take (self - 8) (s_body s) @ replicate (keep - self) 0\<rparr>)"

lemma cut_seg_facts:
  assumes ok: "seg_ok s" and live: "s_ino s \<noteq> 0" and k: "ext2_dirent_rec_len (s_nlen s) \<le> keep" "keep < rlen s"
    "keep mod 4 = 0"
  shows "rlen (cut_seg s keep) = keep" "seg_ok (cut_seg s keep)" "seg_name (cut_seg s keep) = seg_name s"
    "s_ino (cut_seg s keep) = s_ino s"
proof -
  have n: "s_nlen s < 256" "0 < s_nlen s" "s_nlen s \<le> length (s_body s)" using ok live by (auto simp: seg_ok_def)
  note rb = rec_len_bounds [OF n(1)]
  have l: "length (take (ext2_dirent_rec_len (s_nlen s) - 8) (s_body s)) = ext2_dirent_rec_len (s_nlen s) - 8"
    using k rb by (auto simp: rlen_def)
  then show r: "rlen (cut_seg s keep) = keep" using k rb by (simp add: rlen_def cut_seg_def Let_def)
  show i: "s_ino (cut_seg s keep) = s_ino s" by (simp add: cut_seg_def Let_def)
  have nl: "s_nlen (cut_seg s keep) = s_nlen s" "s_ftype (cut_seg s keep) = s_ftype s" by (simp_all add: cut_seg_def Let_def)
  have lb: "s_nlen s \<le> length (s_body (cut_seg s keep))" using r rb k unfolding rlen_def by linarith
  show "seg_ok (cut_seg s keep)" using ok live r i nl n lb k unfolding seg_ok_def by auto
  have "s_nlen s \<le> ext2_dirent_rec_len (s_nlen s) - 8" using rb(1) by linarith
  then show "seg_name (cut_seg s keep) = seg_name s"
    unfolding seg_name_def nl using l by (simp add: cut_seg_def Let_def min_def)
qed

lemma split_seg:
  assumes b: "buf = P @ enc s @ R" and l: "length buf = bsize fs" and ok: "seg_ok s" and live: "s_ino s \<noteq> 0"
    and need: "need < rlen s" "ext2_dirent_rec_len (s_nlen s) \<le> rlen s - need" "8 + length name \<le> need"
      "length name < 256" "need mod 4 = 0"
  shows "place_split fs buf (length P) need name inum ft
    = Some (P @ enc (cut_seg s (rlen s - need)) @ enc (new_seg fs inum name ft need) @ R)"
proof -
  define keep where "keep = rlen s - need"
  define self where "self = ext2_dirent_rec_len (s_nlen s)"
  have d: "ext2_dirent_at fs buf (length P) = (1, seg_hdr s)" by (rule at_seg [OF b l ok])
  have n: "s_nlen s < 256" "rlen s < 65536" "rlen s mod 4 = 0" using ok by (auto simp: seg_ok_def)
  note rb = rec_len_bounds [OF n(1), folded self_def]
  have ks: "self \<le> keep" "keep + need = rlen s" "8 \<le> self" using need(1,2) rb by (simp_all add: keep_def self_def)
  have k4: "keep mod 4 = 0"
  proof -
    have "4 dvd rlen s" "4 dvd need" using n(3) need(5) by (simp_all add: dvd_eq_mod_eq_0)
    then have "4 dvd keep" unfolding keep_def by (rule dvd_diff_nat)
    then show ?thesis by (simp add: dvd_eq_mod_eq_0)
  qed
  have kl: "keep < rlen s" "keep < 65536" "keep mod 65536 = keep" using ks(2) need(3) n(2) by auto
  define h where "h = (seg_hdr s)\<lparr>d_rec_len := keep\<rparr>"
  have hc: "h = seg_hdr (cut_seg s keep)"
    using cut_seg_facts(1) [OF ok live ks(1) [unfolded self_def] kl(1) k4]
    by (simp add: h_def seg_hdr_def) (simp add: cut_seg_def Let_def)
  define b1 where "b1 = take (self - 8) (s_body s)"
  define b2 where "b2 = take (keep - self) (drop (self - 8) (s_body s))"
  define b3 where "b3 = drop (keep - self) (drop (self - 8) (s_body s))"
  have lb: "length (s_body s) = (self - 8) + ((keep - self) + need)" using ks unfolding rlen_def by linarith
  have bd: "s_body s = b1 @ b2 @ b3" unfolding b1_def b2_def b3_def by (simp only: append_take_drop_id)
  have ll: "length b1 = self - 8" "length b2 = keep - self" "length b3 = need"
    using lb by (simp_all add: b1_def b2_def b3_def)
  have 1: "put (length P) (dhdr_bytes h) buf = Some (P @ dhdr_bytes h @ (b1 @ b2 @ b3 @ R))"
    unfolding b using put_mid [of P "length P" "dhdr_bytes h" "dhdr_bytes (seg_hdr s)" "b1 @ b2 @ b3 @ R"]
    by (simp add: enc_def bd)
  have 2: "put (length P + self) (replicate (keep - self) 0) (P @ dhdr_bytes h @ (b1 @ b2 @ b3 @ R))
      = Some ((P @ dhdr_bytes h @ b1) @ replicate (keep - self) 0 @ (b3 @ R))"
    using put_mid [of "P @ dhdr_bytes h @ b1" "length P + self" "replicate (keep - self) 0" b2 "b3 @ R"] ll ks by simp
  have e1: "enc (cut_seg s keep) = dhdr_bytes h @ b1 @ replicate (keep - self) 0"
    unfolding enc_def hc [symmetric] by (simp add: cut_seg_def Let_def b1_def self_def)
  have 3: "ext2_dirent_write fs ((P @ enc (cut_seg s keep)) @ b3 @ R) (length P + keep) inum name ft need
      = Some ((P @ enc (cut_seg s keep)) @ enc (new_seg fs inum name ft need) @ R)"
    by (rule write_seg) (use ll ks need n e1 in simp_all)
  have 2: "put (length P + self) (replicate (keep - self) 0) (P @ dhdr_bytes h @ (b1 @ b2 @ b3 @ R))
      = Some ((P @ enc (cut_seg s keep)) @ b3 @ R)" using 2 e1 by simp
  have hd: "d_rec_len (seg_hdr s) = rlen s" "d_name_len (seg_hdr s) = s_nlen s" by (simp_all add: seg_hdr_def)
  show ?thesis
    unfolding place_split_def d snd_conv Let_def hd keep_def [symmetric] self_def [symmetric] kl(3)
      h_def [symmetric] 1 Option.bind.bind_lunit 2 3 by simp
qed

section \<open>The map of a block\<close>

text \<open>
  \<open>dir_ok\<close>: the block is well formed and lists each name once; \<open>dir_map\<close> reads it.
\<close>

definition dir_ok :: "'d ext2 \<Rightarrow> u8 list \<Rightarrow> bool" where
  "dir_ok fs buf \<longleftrightarrow> (\<exists>ss k. block_is fs ss k buf)"

definition dir_map :: "'d ext2 \<Rightarrow> u8 list \<Rightarrow> (u8 list \<rightharpoonup> nat)" where
  "dir_map fs buf name = find_scan fs buf name 0"

lemma dir_map_segs: "block_is fs ss k buf \<Longrightarrow> 8 \<le> bsize fs \<Longrightarrow> dir_map fs buf = map_of (entries ss)"
  unfolding dir_map_def fun_eq_iff block_is_def using find_scan_segs [of buf "[]" ss k fs] by auto

lemma map_of_insert:
  "k \<notin> fst ` set (xs @ ys) \<Longrightarrow> map_of (xs @ (k, v) # ys) = (map_of (xs @ ys))(k \<mapsto> v)"
  by (induction xs) (auto simp: fun_eq_iff)

text \<open>There is no place for a record of \<open>need\<close> bytes: every hole is shorter, every live record
  has too little slack, and so has the tail.\<close>

definition dir_full :: "'d ext2 \<Rightarrow> u8 list \<Rightarrow> nat \<Rightarrow> bool" where
  "dir_full fs buf need \<longleftrightarrow> (\<exists>ss k. block_is fs ss k buf \<and> list_all (no_room need) ss \<and> k < need)"

lemma block_insert:
  assumes b: "block_is fs ss k buf" and b8: "8 \<le> bsize fs"
    and ss': "entries ss' = X @ (name, inum) # Y" "entries ss = X @ Y" and nm: "name \<notin> fst ` set (entries ss)"
    and l: "length (encs ss') + k' = bsize fs" and ok: "list_all seg_ok ss'"
  shows "dir_ok fs (encs ss' @ replicate k' 0)"
    "dir_map fs (encs ss' @ replicate k' 0) = (dir_map fs buf)(name \<mapsto> inum)"
proof -
  have "distinct (map fst (entries ss))" using b by (simp add: block_is_def)
  then have "distinct (map fst (entries ss'))" using ss' nm by auto
  then have b': "block_is fs ss' k' (encs ss' @ replicate k' 0)" using l ok by (simp add: block_is_def)
  then show "dir_ok fs (encs ss' @ replicate k' 0)" by (auto simp: dir_ok_def)
  show "dir_map fs (encs ss' @ replicate k' 0) = (dir_map fs buf)(name \<mapsto> inum)"
    unfolding dir_map_segs [OF b' b8] dir_map_segs [OF b b8] ss' using nm map_of_insert [of name X Y inum] ss'(2) by simp
qed

text \<open>Placing a name, by cases of what the scan found.\<close>

lemma dirent_place_ok:
  assumes b: "block_is fs ss k buf" and bs: "bsize_ok fs" and nm: "0 < length name" "length name < 256"
    and iv: "inum \<noteq> 0" "inum < 4294967296" "ft < 256"
    and need: "need = ext2_dirent_rec_len (length name)" "need \<le> bsize fs"
  shows "\<exists>v buf'. ext2_dirent_place fs buf need name inum ft = Some (v, buf')
    \<and> (case v of DIRENT_EXISTS \<Rightarrow> name \<in> dom (dir_map fs buf) \<and> buf' = buf
       | DIRENT_FULL \<Rightarrow> name \<notin> dom (dir_map fs buf) \<and> buf' = buf \<and> list_all (no_room need) ss \<and> k < need
       | DIRENT_CORRUPT \<Rightarrow> False
       | DIRENT_PLACED \<Rightarrow> name \<notin> dom (dir_map fs buf) \<and> dir_ok fs buf'
           \<and> dir_map fs buf' = (dir_map fs buf)(name \<mapsto> inum))"
proof -
  have b8: "8 \<le> bsize fs" and b16: "bsize fs < 65536" using bs by (simp_all add: bsize_ok_def)
  have buf: "buf = encs ss @ replicate k 0" "length buf = bsize fs" "list_all seg_ok ss"
    by (rule block_isD [OF b])+
  note rb = rec_len_bounds [OF nm(2), folded need(1)]
  have n16: "need < 65536" using need(2) b16 by simp
  have dm: "dir_map fs buf = map_of (entries ss)" by (rule dir_map_segs [OF b b8])
  define acc0 where "acc0 = \<lparr>split_off = None, hole_off = 4294967295, hole_len = 0, last_off = 0, last_len = 0, seen = False\<rparr>"
  have a0: "acc_ok need [] acc0" by (simp add: acc_ok_def acc0_def)
  have ps: "case place_scan fs buf need name 0 acc0 of
      Inl v \<Rightarrow> v = DIRENT_EXISTS \<and> name \<in> fst ` set (entries ss)
    | Inr acc' \<Rightarrow> acc_ok need ss acc' \<and> name \<notin> fst ` set (entries ss)"
  proof -
    have "buf = encs [] @ encs ss @ replicate k 0" using buf(1) by simp
    from place_scan_segs [OF this buf(2) b8 buf(3) a0, of name] show ?thesis
      unfolding append_Nil encs_simps(1) list.size(3) .
  qed
  have placedI: ?thesis
    if "ext2_dirent_place fs buf need name inum ft = Some (DIRENT_PLACED, encs ss' @ replicate k' 0)"
      "entries ss' = X @ (name, inum) # Y" "entries ss = X @ Y" "name \<notin> fst ` set (entries ss)"
      "length (encs ss') + k' = bsize fs" "list_all seg_ok ss'" for ss' k' X Y
  proof -
    have "name \<notin> dom (dir_map fs buf)" using that(4) by (simp add: dm dom_map_of_conv_image_fst)
    with that(1) block_insert [OF b b8 that(2-6)] show ?thesis by simp
  qed
  show ?thesis
  proof (cases "place_scan fs buf need name 0 acc0")
    case (Inl v)
    then show ?thesis using ps
      by (simp add: ext2_dirent_place_def acc0_def [symmetric] dm dom_map_of_conv_image_fst)
  next
    case (Inr acc)
    then have ao: "acc_ok need ss acc" and nn: "name \<notin> fst ` set (entries ss)" using ps by simp_all
    have run: "ext2_dirent_place fs buf need name inum ft = (if hole_len acc \<ge> need
       then placed (ext2_dirent_write fs buf (hole_off acc) inum name ft (hole_len acc))
       else case split_off acc of
         Some off \<Rightarrow> placed (place_split fs buf off need name inum ft)
       | None \<Rightarrow>
         if \<not> seen acc then placed (ext2_dirent_write fs buf 0 inum name ft need)
         else if bsize fs - (last_off acc + last_len acc) \<ge> need
             \<and> ext2_all_zero (chunk (last_off acc + last_len acc) (bsize fs - (last_off acc + last_len acc)) buf)
           then placed (ext2_dirent_write fs buf (last_off acc + last_len acc) inum name ft need)
           else Some (DIRENT_FULL, buf))"
      unfolding ext2_dirent_place_def acc0_def [symmetric] Inr sum.case Let_def ..
    have nsok: "seg_ok (new_seg fs inum name ft need)" by (rule new_seg_ok [OF nm rb(1) n16 rb(3) iv(2,3)])
    show ?thesis
    proof (cases "hole_len acc \<ge> need")
      case True
      then have "hole_len acc \<noteq> 0" using rb(1) by simp
      from acc_ok_hole [OF ao this] obtain A s B where h:
        "ss = A @ s # B" "s_ino s = 0" "hole_off acc = length (encs A)" "hole_len acc = rlen s" .
      have sok: "seg_ok s" using buf(3) h(1) by simp
      define n where "n = new_seg fs inum name ft (rlen s)"
      have r16: "rlen s < 65536" "rlen s mod 4 = 0" "8 + length name \<le> rlen s"
        using sok True h(4) rb(1) by (auto simp: seg_ok_def)
      have "ext2_dirent_write fs (encs A @ enc s @ (encs B @ replicate k 0)) (length (encs A)) inum name ft (rlen s)
        = Some (encs A @ enc n @ (encs B @ replicate k 0))"
        unfolding n_def by (rule write_seg) (use r16 nm in simp_all)
      then have w: "ext2_dirent_place fs buf need name inum ft = Some (DIRENT_PLACED, encs (A @ n # B) @ replicate k 0)"
        using run True h buf(1) by (simp add: placed_def)
      have nok: "seg_ok n" unfolding n_def by (rule new_seg_ok [OF nm r16(3,1,2) iv(2,3)])
      have rn: "rlen n = rlen s" unfolding n_def by (rule rlen_new_seg [OF r16(3)])
      show ?thesis
      proof (rule placedI [OF w])
        show "entries (A @ n # B) = entries A @ (name, inum) # entries B" using iv by (simp add: n_def)
        show "entries ss = entries A @ entries B" using h by simp
        show "length (encs (A @ n # B)) + k = bsize fs" using buf(1,2) h(1) rn by simp
        show "list_all seg_ok (A @ n # B)" using buf(3) h(1) nok by simp
      qed (rule nn)
    next
      case nohole: False
      show ?thesis
      proof (cases "split_off acc")
        case (Some p)
        from acc_ok_split [OF ao this] obtain A s B where h:
          "ss = A @ s # B" "s_ino s \<noteq> 0" "p = length (encs A)" "need < rlen s"
          "ext2_dirent_rec_len (s_nlen s) \<le> rlen s - need" .
        have sok: "seg_ok s" using buf(3) h(1) by simp
        define c where "c = cut_seg s (rlen s - need)"
        define n where "n = new_seg fs inum name ft need"
        have bb: "buf = encs A @ enc s @ (encs B @ replicate k 0)" using buf(1) h(1) by simp
        have "place_split fs buf p need name inum ft = Some (encs A @ enc c @ enc n @ (encs B @ replicate k 0))"
          unfolding h(3) c_def n_def
          by (rule split_seg [OF bb buf(2) sok h(2,4,5) rb(1) nm(2) rb(3)])
        then have w: "ext2_dirent_place fs buf need name inum ft
            = Some (DIRENT_PLACED, encs (A @ c # n # B) @ replicate k 0)"
          using run nohole Some by (simp add: placed_def)
        have m4: "(rlen s - need) mod 4 = 0"
        proof -
          have "4 dvd rlen s" "4 dvd need" using sok rb(3) by (simp_all add: seg_ok_def dvd_eq_mod_eq_0)
          then have "4 dvd rlen s - need" by (rule dvd_diff_nat)
          then show ?thesis by (simp add: dvd_eq_mod_eq_0)
        qed
        have "rlen s - need < rlen s" using h(4) rb(1) by linarith
        note cf = cut_seg_facts [OF sok h(2,5) this m4, folded c_def]
        have rn: "rlen n = need" unfolding n_def by (rule rlen_new_seg [OF rb(1)])
        show ?thesis
        proof (rule placedI [OF w])
          show "entries (A @ c # n # B) = (entries A @ [(seg_name s, s_ino s)]) @ (name, inum) # entries B"
            using iv cf h(2) by (simp add: n_def)
          show "entries ss = (entries A @ [(seg_name s, s_ino s)]) @ entries B" using h by simp
          show "length (encs (A @ c # n # B)) + k = bsize fs" using buf(1,2) h(1,4) rn cf(1) by simp
          show "list_all seg_ok (A @ c # n # B)" using buf(3) h(1) nsok cf(2) by (simp add: n_def)
        qed (rule nn)
      next
        case None
        have kk: "bsize fs - length (encs ss) = k" "length (encs ss) + k = bsize fs" using buf(1,2) by simp_all
        define n where "n = new_seg fs inum name ft need"
        have rn: "rlen n = need" unfolding n_def by (rule rlen_new_seg [OF rb(1)])
        have app: "ext2_dirent_write fs buf (length (encs ss)) inum name ft need
            = Some (encs (ss @ [n]) @ replicate (k - need) 0)" if "need \<le> k"
        proof -
          have "replicate k (0 :: u8) = replicate need 0 @ replicate (k - need) 0"
            unfolding replicate_add [symmetric] using that by simp
          then have "buf = encs ss @ replicate need 0 @ replicate (k - need) 0" using buf(1) by simp
          then show ?thesis
            using write_seg [of "encs ss" "length (encs ss)" "replicate need 0" need name fs "replicate (k - need) 0" inum ft]
              rb(1) n16 nm(2) by (simp add: n_def)
        qed
        have goal: ?thesis if w: "ext2_dirent_place fs buf need name inum ft
            = placed (ext2_dirent_write fs buf (length (encs ss)) inum name ft need)" and k: "need \<le> k"
        proof (rule placedI)
          show "ext2_dirent_place fs buf need name inum ft = Some (DIRENT_PLACED, encs (ss @ [n]) @ replicate (k - need) 0)"
            unfolding w app [OF k] by (simp add: placed_def)
          show "entries (ss @ [n]) = entries ss @ (name, inum) # []" using iv by (simp add: n_def)
          show "length (encs (ss @ [n])) + (k - need) = bsize fs" using kk rn k by simp
          show "list_all seg_ok (ss @ [n])" using buf(3) nsok by (simp add: n_def)
        qed (use nn in simp_all)
        show ?thesis
        proof (cases "ss = []")
          case True
          then have "\<not> seen acc" using ao by (simp add: acc_ok_def)
          then have "ext2_dirent_place fs buf need name inum ft
              = placed (ext2_dirent_write fs buf (length (encs ss)) inum name ft need)"
            using run nohole None True by simp
          moreover have "need \<le> k" using True kk need(2) by simp
          ultimately show ?thesis by (rule goal)
        next
          case False
          then have sn: "seen acc" "last_off acc + last_len acc = length (encs ss)" using ao by (simp_all add: acc_ok_def)
          have z: "ext2_all_zero (chunk (length (encs ss)) k buf)"
            unfolding buf(1) by (subst chunk_at) (simp_all add: ext2_all_zero_def list_all_length)
          have run2: "ext2_dirent_place fs buf need name inum ft = (if need \<le> k
              then placed (ext2_dirent_write fs buf (length (encs ss)) inum name ft need) else Some (DIRENT_FULL, buf))"
            using run nohole None sn z kk by simp
          show ?thesis
          proof (cases "need \<le> k")
            case True
            then show ?thesis using goal run2 by simp
          next
            case no: False
            have "list_all (no_room need) ss" using ao nohole None unfolding acc_ok_def by simp
            then show ?thesis using run2 nn no by (simp add: dm dom_map_of_conv_image_fst)
          qed
        qed
      qed
    qed
  qed
qed

end
