(* ===== verification/Ext2_Dirent_Ops.thy ===== *)
theory Ext2_Dirent_Ops
  imports Ext2_Dirent_Block
begin

text \<open>
  Removing names from a directory block, redirecting \<open>..\<close>, fresh directories, and the contract of
  a directory block as a map from names to inodes: the locale \<open>name_store\<close>, interpreted on the
  operations of the model.
\<close>

section \<open>Removing a name\<close>

definition hole_seg :: "nat \<Rightarrow> seg" where
  "hole_seg tot = \<lparr>s_ino = 0, s_nlen = 0, s_ftype = 0, s_body = replicate (tot - 8) 0\<rparr>"

lemma hole_seg_facts:
  assumes "8 \<le> tot"
  shows "rlen (hole_seg tot) = tot" "entries (hole_seg tot # ss) = entries ss"
    "tot < 65536 \<Longrightarrow> tot mod 4 = 0 \<Longrightarrow> seg_ok (hole_seg tot)"
    "enc (hole_seg tot) = dhdr_bytes \<lparr>d_inode = 0, d_rec_len = tot, d_name_len = 0, d_file_type = 0\<rparr> @ replicate (tot - 8) 0"
  using assms by (simp_all add: rlen_def hole_seg_def seg_ok_def enc_def seg_hdr_def)

lemma make_hole:
  assumes "length P = off" "length X = tot" "8 \<le> tot" "tot < 65536"
  shows "Option.bind (put off (dhdr_bytes \<lparr>d_inode = 0, d_rec_len = tot mod 65536, d_name_len = 0, d_file_type = 0\<rparr>) (P @ X @ S))
      (put (off + 8) (replicate (tot - 8) 0)) = Some (P @ enc (hole_seg tot) @ S)"
proof -
  define h where "h = dhdr_bytes \<lparr>d_inode = 0, d_rec_len = tot, d_name_len = 0, d_file_type = 0\<rparr>"
  have X: "X = take 8 X @ drop 8 X" by simp
  have 1: "put off h (P @ X @ S) = Some (P @ h @ (drop 8 X @ S))"
  proof -
    have "put off h (P @ take 8 X @ (drop 8 X @ S)) = Some (P @ h @ (drop 8 X @ S))"
      by (rule put_mid) (use assms in \<open>simp_all add: h_def\<close>)
    then show ?thesis unfolding append_assoc [symmetric, of "take 8 X"] append_take_drop_id .
  qed
  have 2: "put (off + 8) (replicate (tot - 8) 0) ((P @ h) @ drop 8 X @ S) = Some ((P @ h) @ replicate (tot - 8) 0 @ S)"
    by (rule put_mid) (use assms in \<open>simp_all add: h_def\<close>)
  show ?thesis using 1 2 assms(4) hole_seg_facts(4) [OF assms(3)] by (simp add: h_def)
qed

text \<open>The hole that a removal leaves, and the segments behind it.\<close>

fun after_removal :: "seg \<Rightarrow> seg list \<Rightarrow> seg list" where
  "after_removal s [] = [hole_seg (rlen s)]"
| "after_removal s (t # B) = (if s_ino t = 0 then hole_seg (rlen s + rlen t) # B else hole_seg (rlen s) # t # B)"

lemma remove_at_segs:
  assumes b: "block_is fs (A @ s # B) k buf" and bs: "bsize_ok fs"
  shows "remove_at fs buf (length (encs A)) = Some (encs (A @ after_removal s B) @ replicate k 0)"
proof -
  have b8: "8 \<le> bsize fs" and b16: "bsize fs < 65536" using bs by (simp_all add: bsize_ok_def)
  have buf: "buf = encs A @ enc s @ (encs B @ replicate k 0)" "length buf = bsize fs" and ok: "seg_ok s" "list_all seg_ok B"
    using block_isD(1,3) [OF b] block_isD(2) [OF b] by simp_all
  have lb: "length (encs A) + (rlen s + (length (encs B) + k)) = bsize fs" using buf by simp
  note d = at_seg [OF buf ok(1)]
  have hd: "d_rec_len (seg_hdr s) = rlen s" "(seg_hdr s)\<lparr>d_inode := 0, d_name_len := 0, d_file_type := 0, d_rec_len := x\<rparr>
      = \<lparr>d_inode = 0, d_rec_len = x, d_name_len = 0, d_file_type = 0\<rparr>" for x by (simp_all add: seg_hdr_def)
  define nxt where "nxt = length (encs A) + rlen s"
  obtain st nx where n: "ext2_dirent_at fs buf nxt = (st, nx)" by fastforce
  have run: "remove_at fs buf (length (encs A)) = (let merge = (st = 1 \<and> d_inode nx = 0);
      tot = (if merge then rlen s + d_rec_len nx else rlen s) in do {
         buf \<leftarrow> (if merge then put nxt (replicate (d_rec_len nx) 0) buf else Some buf);
         buf \<leftarrow> put (length (encs A)) (dhdr_bytes \<lparr>d_inode = 0, d_rec_len = tot mod 65536, d_name_len = 0, d_file_type = 0\<rparr>) buf;
         put (length (encs A) + 8) (replicate (tot - 8) 0) buf })"
    unfolding remove_at_def d snd_conv hd Let_def nxt_def [symmetric] n prod.case ext2_dirent_hdr_len_def ..
  have plain: "remove_at fs buf (length (encs A)) = Some (encs (A @ hole_seg (rlen s) # B) @ replicate k 0)"
    if "\<not> (st = 1 \<and> d_inode nx = 0)"
    unfolding run Let_def if_not_P [OF that] Option.bind.bind_lunit
    using make_hole [of "encs A" "length (encs A)" "enc s" "rlen s" "encs B @ replicate k 0"] rlen_ge [of s] lb b16 buf(1)
    by simp
  show ?thesis
  proof (cases B)
    case Nil
    have "buf = (encs A @ enc s) @ encs [] @ replicate k 0" using buf(1) Nil by simp
    from at_tailE [OF this buf(2) b8] n have "st = 0" by (auto simp: nxt_def)
    then show ?thesis using plain Nil by simp
  next
    case (Cons t B')
    have bt: "buf = (encs A @ enc s) @ enc t @ (encs B' @ replicate k 0)" using buf(1) Cons by simp
    have "seg_ok t" using ok Cons by simp
    from at_seg [OF bt buf(2) this] n have nx: "st = 1" "nx = seg_hdr t" by (simp_all add: nxt_def)
    show ?thesis
    proof (cases "s_ino t = 0")
      case False
      then show ?thesis using plain Cons nx by (simp add: seg_hdr_def)
    next
      case True
      have tl: "d_rec_len nx = rlen t" "d_inode nx = 0" using nx True by (simp_all add: seg_hdr_def)
      have 1: "put nxt (replicate (rlen t) 0) buf = Some (encs A @ (enc s @ replicate (rlen t) 0) @ (encs B' @ replicate k 0))"
        unfolding bt using put_mid [of "encs A @ enc s" nxt "replicate (rlen t) 0" "enc t" "encs B' @ replicate k 0"]
        by (simp add: nxt_def)
      have "rlen s + rlen t < 65536" using lb b16 Cons by simp
      then show ?thesis unfolding run Let_def
        using make_hole [of "encs A" "length (encs A)" "enc s @ replicate (rlen t) 0" "rlen s + rlen t" "encs B' @ replicate k 0"]
          rlen_ge [of s] tl nx(1) 1 Cons True by simp
    qed
  qed
qed

lemma after_removal_facts:
  assumes "list_all seg_ok (s # B)" "length (encs (s # B)) < 65536"
  shows "entries (after_removal s B) = entries B" "list_all seg_ok (after_removal s B)"
    "length (encs (after_removal s B)) = length (encs (s # B))"
proof -
  have m: "rlen s mod 4 = 0" using assms(1) by (simp add: seg_ok_def)
  have s: "rlen (hole_seg (rlen s)) = rlen s" "seg_ok (hole_seg (rlen s))" "entries (hole_seg (rlen s) # C) = entries C" for C
    using hole_seg_facts [OF rlen_ge, of s] assms(2) m by simp_all
  have t: "rlen (hole_seg (rlen s + rlen t)) = rlen s + rlen t" "seg_ok (hole_seg (rlen s + rlen t))"
    "entries (hole_seg (rlen s + rlen t) # C) = entries C" if "B = t # B'" for t B' C
  proof -
    have "rlen t mod 4 = 0" using assms(1) that by (simp add: seg_ok_def)
    with m have "4 dvd rlen s" "4 dvd rlen t" by (simp_all add: dvd_eq_mod_eq_0)
    then have "4 dvd rlen s + rlen t" by (rule dvd_add)
    then have "(rlen s + rlen t) mod 4 = 0" by (simp add: dvd_eq_mod_eq_0)
    moreover have "8 \<le> rlen s + rlen t" using rlen_ge [of s] by linarith
    ultimately show "rlen (hole_seg (rlen s + rlen t)) = rlen s + rlen t" "seg_ok (hole_seg (rlen s + rlen t))"
      "entries (hole_seg (rlen s + rlen t) # C) = entries C"
      using hole_seg_facts [of "rlen s + rlen t"] assms(2) that by simp_all
  qed
  show "entries (after_removal s B) = entries B" using s(3) t(3) by (cases B) simp_all
  show "list_all seg_ok (after_removal s B)" using s(2) t(2) assms(1) by (cases B) simp_all
  show "length (encs (after_removal s B)) = length (encs (s # B))" using s(1) t(1) by (cases B) simp_all
qed

lemma map_of_delete:
  "distinct (map fst (xs @ (k, v) # ys)) \<Longrightarrow> map_of (xs @ ys) = (map_of (xs @ (k, v) # ys))(k := None)"
proof (induction xs)
  case Nil
  then have "k \<notin> fst ` set ys" by simp
  then show ?case by (auto simp: fun_eq_iff map_of_eq_None_iff)
next
  case (Cons x xs)
  then show ?case by (cases x) (auto simp: fun_eq_iff)
qed

text \<open>Finding a name and removing the record.\<close>

lemma dirent_remove_ok:
  assumes ok: "dir_ok fs buf" and bs: "bsize_ok fs"
  shows "case locate_scan fs buf name 0 of
      None \<Rightarrow> name \<notin> dom (dir_map fs buf)
    | Some off \<Rightarrow> name \<in> dom (dir_map fs buf) \<and> (\<exists>buf'. remove_at fs buf off = Some buf' \<and> dir_ok fs buf'
        \<and> dir_map fs buf' = (dir_map fs buf)(name := None))"
proof -
  from ok obtain ss k where b: "block_is fs ss k buf" by (auto simp: dir_ok_def)
  have b8: "8 \<le> bsize fs" and b16: "bsize fs < 65536" using bs by (simp_all add: bsize_ok_def)
  have buf: "buf = encs ss @ replicate k 0" "length buf = bsize fs" "list_all seg_ok ss" "distinct (map fst (entries ss))"
    by (rule block_isD [OF b])+
  have dm: "dir_map fs buf = map_of (entries ss)" by (rule dir_map_segs [OF b b8])
  have "buf = [] @ encs ss @ replicate k 0" using buf(1) by simp
  note lo = locate_scan_segs [OF this buf(2) b8 buf(3), of name, unfolded list.size(3)]
  show ?thesis
  proof (cases "locate_scan fs buf name 0")
    case None
    then show ?thesis using lo by (simp add: dm dom_map_of_conv_image_fst)
  next
    case (Some off)
    then obtain A s B where h: "ss = A @ s # B" "off = length (encs A)" "s_ino s \<noteq> 0" "seg_name s = name" using lo by auto
    have l: "length (encs A) + (length (encs (s # B)) + k) = bsize fs" using buf(1,2) h(1) by simp
    note af = after_removal_facts [of s B]
    have af: "entries (after_removal s B) = entries B" "list_all seg_ok (after_removal s B)"
      "length (encs (after_removal s B)) = length (encs (s # B))"
      using af buf(3) h(1) l b16 by simp_all
    have e: "entries ss = entries A @ (name, s_ino s) # entries B" using h by simp
    have e': "entries (A @ after_removal s B) = entries A @ entries B" using af(1) by simp
    define buf' where "buf' = encs (A @ after_removal s B) @ replicate k 0"
    have "remove_at fs buf off = Some buf'"
      unfolding h(2) buf'_def by (rule remove_at_segs [OF b [unfolded h(1)] bs])
    moreover have b': "block_is fs (A @ after_removal s B) k buf'"
      using buf(3,4) h(1) af(2,3) l e e' by (simp add: block_is_def buf'_def)
    moreover have "dir_map fs buf' = (dir_map fs buf)(name := None)"
      unfolding dir_map_segs [OF b' b8] dm e' e by (rule map_of_delete) (use buf(4) e in simp)
    moreover have "name \<in> dom (dir_map fs buf)" by (simp add: dm e dom_map_of_conv_image_fst)
    ultimately show ?thesis using Some by (auto simp: dir_ok_def)
  qed
qed

lemma dirent_empty_ok:
  assumes ok: "dir_ok fs buf" and bs: "bsize_ok fs"
  shows "empty_scan fs buf 0 = (dom (dir_map fs buf) \<subseteq> {dot, dotdot})"
proof -
  from ok obtain ss k where b: "block_is fs ss k buf" by (auto simp: dir_ok_def)
  have b8: "8 \<le> bsize fs" using bs by (simp add: bsize_ok_def)
  have buf: "buf = [] @ encs ss @ replicate k 0" "length buf = bsize fs" "list_all seg_ok ss"
    using block_isD(1) [OF b] block_isD(2,3) [OF b] by simp_all
  from empty_scan_segs [OF buf(1,2) b8 buf(3)] show ?thesis
    by (simp add: dir_map_segs [OF b b8] dom_map_of_conv_image_fst)
qed

section \<open>Redirecting an entry\<close>

lemma map_of_update:
  "distinct (map fst (xs @ (k, v) # ys)) \<Longrightarrow> map_of (xs @ (k, w) # ys) = (map_of (xs @ (k, v) # ys))(k \<mapsto> w)"
proof (induction xs)
  case (Cons x xs)
  then show ?case by (cases x) (auto simp: fun_eq_iff)
qed (simp add: fun_eq_iff)

lemma set_inode_ok:
  assumes ok: "dir_ok fs buf" and bs: "bsize_ok fs" and loc: "locate_scan fs buf name 0 = Some off"
    and i: "inum \<noteq> 0" "inum < 4294967296"
  shows "\<exists>buf'. set_inode_at fs buf off inum = Some buf' \<and> dir_ok fs buf'
    \<and> dir_map fs buf' = (dir_map fs buf)(name \<mapsto> inum)"
proof -
  from ok obtain ss k where b: "block_is fs ss k buf" by (auto simp: dir_ok_def)
  have b8: "8 \<le> bsize fs" using bs by (simp add: bsize_ok_def)
  have buf: "buf = encs ss @ replicate k 0" "length buf = bsize fs" "list_all seg_ok ss" "distinct (map fst (entries ss))"
    by (rule block_isD [OF b])+
  have "buf = [] @ encs ss @ replicate k 0" using buf(1) by simp
  from locate_scan_segs [OF this buf(2) b8 buf(3), of name] loc
  obtain A s B where h: "ss = A @ s # B" "off = length (encs A)" "s_ino s \<noteq> 0" "seg_name s = name" by auto
  define t where "t = s\<lparr>s_ino := inum\<rparr>"
  have bb: "buf = encs A @ enc s @ (encs B @ replicate k 0)" and sok: "seg_ok s" using buf(1,3) h(1) by simp_all
  have t: "rlen t = rlen s" "seg_ok t" "seg_name t = name" "s_ino t = inum"
    using sok h(3,4) i by (simp_all add: t_def rlen_def seg_ok_def seg_name_def)
  have hd: "(seg_hdr s)\<lparr>d_inode := inum\<rparr> = seg_hdr t" by (simp add: seg_hdr_def t_def rlen_def)
  define buf' where "buf' = encs (A @ t # B) @ replicate k 0"
  have "put off (dhdr_bytes (seg_hdr t)) (encs A @ dhdr_bytes (seg_hdr s) @ (s_body s @ encs B @ replicate k 0))
      = Some (encs A @ dhdr_bytes (seg_hdr t) @ (s_body s @ encs B @ replicate k 0))"
    by (rule put_mid) (simp_all add: h(2))
  then have "set_inode_at fs buf off inum = Some buf'"
    unfolding set_inode_at_def h(2) at_seg [OF bb buf(2) sok] snd_conv hd
    by (simp add: bb buf'_def enc_def h(2)) (simp add: t_def)
  moreover have e: "entries ss = entries A @ (name, s_ino s) # entries B"
    and e': "entries (A @ t # B) = entries A @ (name, inum) # entries B" using h t i by simp_all
  moreover have b': "block_is fs (A @ t # B) k buf'"
    using buf h(1) t e e' by (simp add: block_is_def buf'_def)
  moreover have "dir_map fs buf' = (dir_map fs buf)(name \<mapsto> inum)"
    unfolding dir_map_segs [OF b' b8] dir_map_segs [OF b b8] e' e by (rule map_of_update) (use buf(4) e in simp)
  ultimately show ?thesis by (auto simp: dir_ok_def)
qed

section \<open>A fresh directory\<close>

lemma init_dir_ok:
  assumes bs: "bsize_ok fs" and l: "length buf = bsize fs" and i: "inum \<noteq> 0" "inum < 4294967296"
    and p: "parent \<noteq> 0" "parent < 4294967296"
  shows "\<exists>buf'. ext2_dirent_init_dir fs buf inum parent = Some (0, buf')
    \<and> block_is fs [new_seg fs inum dot EXT2_FT_DIR 12, new_seg fs parent dotdot EXT2_FT_DIR 12, hole_seg (bsize fs - 24)] 0 buf'
    \<and> dir_map fs buf' = [dot \<mapsto> inum, dotdot \<mapsto> parent]"
proof -
  have b: "32 \<le> bsize fs" "bsize fs < 65536" "bsize fs mod 4 = 0" using bs by (simp_all add: bsize_ok_def)
  have rl: "ext2_dirent_rec_len (Suc 0) = 12" "ext2_dirent_rec_len 2 = 12" by (simp_all add: ext2_dirent_rec_len_def ext2_dirent_hdr_len_def)
  define rest where "rest = bsize fs - 24"
  have r: "8 \<le> rest" "rest < 65536" "24 + rest = bsize fs" "rest mod 4 = 0"
  proof -
    show "8 \<le> rest" "rest < 65536" "24 + rest = bsize fs" using b by (simp_all add: rest_def)
    have "4 dvd bsize fs" using b(3) by (simp add: dvd_eq_mod_eq_0)
    then have "4 dvd rest" unfolding rest_def by (intro dvd_diff_nat) simp_all
    then show "rest mod 4 = 0" by (simp add: dvd_eq_mod_eq_0)
  qed
  define s1 where "s1 = new_seg fs inum dot EXT2_FT_DIR 12"
  define s2 where "s2 = new_seg fs parent dotdot EXT2_FT_DIR 12"
  have 0: "put 0 (replicate (bsize fs) 0) buf = Some (replicate 12 0 @ replicate 12 0 @ replicate rest 0)"
    using l r(3) by (simp add: put_def patch_def replicate_add [symmetric])
  have 1: "ext2_dirent_write fs ([] @ replicate 12 0 @ (replicate 12 0 @ replicate rest 0)) 0 inum dot EXT2_FT_DIR 12
      = Some ([] @ enc s1 @ (replicate 12 0 @ replicate rest 0))"
    unfolding s1_def by (rule write_seg) (simp_all add: dot_def)
  have l1: "length (enc s1) = 12" "length (enc s2) = 12" by (simp_all add: s1_def s2_def rlen_new_seg dot_def dotdot_def)
  have 2: "ext2_dirent_write fs (enc s1 @ replicate 12 0 @ replicate rest 0) 12 parent dotdot EXT2_FT_DIR 12
      = Some (enc s1 @ enc s2 @ replicate rest 0)"
    unfolding s2_def by (rule write_seg) (use l1 in \<open>simp_all add: dotdot_def\<close>)
  define h where "h = dhdr_bytes \<lparr>d_inode = 0, d_rec_len = rest, d_name_len = 0, d_file_type = 0\<rparr>"
  have sp: "replicate rest (0 :: u8) = replicate 8 0 @ replicate (rest - 8) 0"
    unfolding replicate_add [symmetric] using r(1) by simp
  have 3: "put 24 h ((enc s1 @ enc s2) @ replicate rest 0) = Some ((enc s1 @ enc s2) @ enc (hole_seg rest))"
    unfolding hole_seg_facts(4) [OF r(1)] h_def [symmetric] sp
    by (rule put_mid) (use l1 in \<open>simp_all add: h_def\<close>)
  have rm: "(bsize fs - 12 - 12) mod 65536 = rest" using r by (simp add: rest_def)
  define buf' where "buf' = encs [s1, s2, hole_seg rest] @ replicate 0 0"
  have "ext2_dirent_init_dir fs buf inum parent = Some (0, buf')"
    unfolding ext2_dirent_init_dir_def Let_def ext2_dirent_hdr_len_def One_nat_def rl rm h_def [symmetric]
    using i(1) b(1) 0 1 2 3 by (simp add: buf'_def)
  moreover have "seg_ok s1" "seg_ok s2" unfolding s1_def s2_def using i p
    by (auto intro!: new_seg_ok simp: dot_def dotdot_def EXT2_FT_DIR_def)
  then have b': "block_is fs [s1, s2, hole_seg rest] 0 buf'"
    using l1 r hole_seg_facts [OF r(1)] i p
    by (simp add: block_is_def buf'_def) (simp add: s1_def s2_def dot_def dotdot_def)
  moreover have "dir_map fs buf' = [dot \<mapsto> inum, dotdot \<mapsto> parent]"
    using hole_seg_facts(2) [OF r(1)] i p b(1)
    by (subst dir_map_segs [OF b']) (simp_all add: s1_def s2_def dot_def dotdot_def fun_eq_iff)
  ultimately show ?thesis by (auto simp: s1_def s2_def rest_def)
qed

section \<open>The contract of a directory\<close>

text \<open>
  What the directory operations rely on: a state that maps names to inodes, with an insertion
  that adds exactly the new name and a removal that removes exactly it.
\<close>

locale name_store =
  fixes inv :: "'s \<Rightarrow> bool"
    and look :: "'s \<Rightarrow> u8 list \<Rightarrow> nat option"
    and ins :: "'s \<Rightarrow> u8 list \<Rightarrow> nat \<Rightarrow> 's option"
    and del :: "'s \<Rightarrow> u8 list \<Rightarrow> 's option"
    and name_ok :: "u8 list \<Rightarrow> bool"
    and ino_ok :: "nat \<Rightarrow> bool"
  assumes ins_law: "inv s \<Longrightarrow> name_ok n \<Longrightarrow> ino_ok i \<Longrightarrow> ins s n i = Some t
      \<Longrightarrow> look s n = None \<and> inv t \<and> look t = (look s)(n \<mapsto> i)"
    and del_law: "inv s \<Longrightarrow> look s n \<noteq> None \<Longrightarrow> \<exists>t. del s n = Some t \<and> inv t \<and> look t = (look s)(n := None)"
begin

lemma ins_del:
  assumes "inv s" "name_ok n" "ino_ok i" "ins s n i = Some t"
  shows "\<exists>u. del t n = Some u \<and> inv u \<and> look u = look s"
proof -
  note il = ins_law [OF assms]
  then have "look t n \<noteq> None" by simp
  from del_law [OF _ this] il obtain u where "del t n = Some u" "inv u" "look u = (look t)(n := None)" by blast
  then show ?thesis using il by (auto simp: fun_eq_iff)
qed

text \<open>Inserting the new name and removing the old one moves the entry.\<close>

lemma move:
  assumes "inv s" "name_ok new" "ino_ok i" "look s old = Some i" "ins s new i = Some t"
  shows "\<exists>u. del t old = Some u \<and> inv u \<and> look u = (look s)(new \<mapsto> i, old := None) \<and> old \<noteq> new"
proof -
  note il = ins_law [OF assms(1-3,5)]
  then have ne: "old \<noteq> new" using assms(4) by auto
  then have "look t old \<noteq> None" using il assms(4) by simp
  from del_law [OF _ this] il obtain u where "del t old = Some u" "inv u" "look u = (look t)(old := None)" by blast
  then show ?thesis using il ne by auto
qed

end

text \<open>The operations on a block, with the length that \<open>ext2_dirent_add\<close> asks for and a given file
  type; a full block is no insertion.\<close>

definition dirent_ins :: "nat \<Rightarrow> 'd ext2 \<times> u8 list \<Rightarrow> u8 list \<Rightarrow> nat \<Rightarrow> ('d ext2 \<times> u8 list) option" where
  "dirent_ins ft s name inum = (case s of (fs, buf) \<Rightarrow>
     if ext2_dirent_rec_len (length name) > bsize fs then None
     else case ext2_dirent_place fs buf (ext2_dirent_rec_len (length name)) name inum ft of
       Some (DIRENT_PLACED, buf) \<Rightarrow> Some (fs, buf) | _ \<Rightarrow> None)"

definition dirent_del :: "'d ext2 \<times> u8 list \<Rightarrow> u8 list \<Rightarrow> ('d ext2 \<times> u8 list) option" where
  "dirent_del s name = (case s of (fs, buf) \<Rightarrow> case locate_scan fs buf name 0 of None \<Rightarrow> None
     | Some off \<Rightarrow> map_option (Pair fs) (remove_at fs buf off))"

definition dir_inv :: "'d ext2 \<times> u8 list \<Rightarrow> bool" where
  "dir_inv s \<longleftrightarrow> bsize_ok (fst s) \<and> dir_ok (fst s) (snd s)"

interpretation dir_block: name_store dir_inv "\<lambda>s. dir_map (fst s) (snd s)" "dirent_ins EXT2_FT_REG" dirent_del
  ext2_dirent_name_ok "\<lambda>i. i \<noteq> 0 \<and> i < 4294967296"
proof unfold_locales
  fix s t :: "'d ext2 \<times> u8 list" and n i
  assume s: "dir_inv s" and n: "ext2_dirent_name_ok n" and i: "i \<noteq> 0 \<and> i < 4294967296"
    and t: "dirent_ins EXT2_FT_REG s n i = Some t"
  obtain fs buf where e: "s = (fs, buf)" by (cases s)
  have bs: "bsize_ok fs" and ok: "dir_ok fs buf" using s by (simp_all add: e dir_inv_def)
  then obtain ss k where b: "block_is fs ss k buf" by (auto simp: dir_ok_def)
  have nm: "0 < length n" "length n < 256"
    using n by (auto simp: ext2_dirent_name_ok_def EXT2_NAME_LEN_def split: if_splits)
  have le: "ext2_dirent_rec_len (length n) \<le> bsize fs" using t by (auto simp: dirent_ins_def e split: if_splits)
  obtain b' where p: "ext2_dirent_place fs buf (ext2_dirent_rec_len (length n)) n i EXT2_FT_REG = Some (DIRENT_PLACED, b')"
    "t = (fs, b')"
    using t le by (auto simp: dirent_ins_def e split: option.splits place_verdict.splits prod.splits)
  from dirent_place_ok [OF b bs nm _ _ _ refl le, of i EXT2_FT_REG] i p(1)
  show "dir_map (fst s) (snd s) n = None \<and> dir_inv t \<and> dir_map (fst t) (snd t) = (dir_map (fst s) (snd s))(n \<mapsto> i)"
    using bs by (auto simp: e p(2) dir_inv_def EXT2_FT_REG_def)
next
  fix s :: "'d ext2 \<times> u8 list" and n
  assume s: "dir_inv s" and l: "dir_map (fst s) (snd s) n \<noteq> None"
  obtain fs buf where e: "s = (fs, buf)" by (cases s)
  have bs: "bsize_ok fs" and ok: "dir_ok fs buf" using s by (simp_all add: e dir_inv_def)
  from dirent_remove_ok [OF ok bs, of n] l obtain off buf' where "locate_scan fs buf n 0 = Some off"
    "remove_at fs buf off = Some buf'" "dir_ok fs buf'" "dir_map fs buf' = (dir_map fs buf)(n := None)"
    by (auto simp: e dom_def split: option.splits)
  then show "\<exists>t. dirent_del s n = Some t \<and> dir_inv t \<and> dir_map (fst t) (snd t) = (dir_map (fst s) (snd s))(n := None)"
    using bs by (auto simp: dirent_del_def e dir_inv_def)
qed

section \<open>Properties\<close>

text \<open>C35: A directory block is a finite map under \<open>ext2_dirent_place\<close>: on a well-formed block the
  insertion of a legal name never writes outside the block and never finds corruption; it
  reports \<open>FULL\<close> only when no hole, no slack and no tail has the room, and \<open>EXISTS\<close> exactly when a lookup finds the name, and when it places the record, in a
  hole, in the slack of a longer record or behind the last one, the block stays well formed and
  every lookup answers as before, but for the new name.\<close>

theorem ext2_dirent_place_refines_map:
  assumes "dir_ok fs buf" "bsize_ok fs" "ext2_dirent_name_ok name" "inum \<noteq> 0" "inum < 4294967296" "ft < 256"
    and "ext2_dirent_rec_len (length name) \<le> bsize fs"
  shows "\<exists>v buf'. ext2_dirent_place fs buf (ext2_dirent_rec_len (length name)) name inum ft = Some (v, buf')
    \<and> (case v of DIRENT_EXISTS \<Rightarrow> find_scan fs buf name 0 \<noteq> None \<and> buf' = buf
       | DIRENT_FULL \<Rightarrow> find_scan fs buf name 0 = None \<and> buf' = buf
           \<and> dir_full fs buf (ext2_dirent_rec_len (length name))
       | DIRENT_CORRUPT \<Rightarrow> False
       | DIRENT_PLACED \<Rightarrow> find_scan fs buf name 0 = None \<and> dir_ok fs buf'
           \<and> (\<forall>n. find_scan fs buf' n 0 = (if n = name then Some inum else find_scan fs buf n 0)))"
proof -
  from assms(1) obtain ss k where b: "block_is fs ss k buf" by (auto simp: dir_ok_def)
  have nm: "0 < length name" "length name < 256"
    using assms(3) by (auto simp: ext2_dirent_name_ok_def EXT2_NAME_LEN_def split: if_splits)
  from dirent_place_ok [OF b assms(2) nm assms(4-6) refl assms(7)] obtain v buf' where r:
    "ext2_dirent_place fs buf (ext2_dirent_rec_len (length name)) name inum ft = Some (v, buf')"
    "case v of DIRENT_EXISTS \<Rightarrow> name \<in> dom (dir_map fs buf) \<and> buf' = buf
       | DIRENT_FULL \<Rightarrow> name \<notin> dom (dir_map fs buf) \<and> buf' = buf
           \<and> list_all (no_room (ext2_dirent_rec_len (length name))) ss \<and> k < ext2_dirent_rec_len (length name)
       | DIRENT_CORRUPT \<Rightarrow> False
       | DIRENT_PLACED \<Rightarrow> name \<notin> dom (dir_map fs buf) \<and> dir_ok fs buf'
           \<and> dir_map fs buf' = (dir_map fs buf)(name \<mapsto> inum)" by blast
  have u: "find_scan fs b n 0 = dir_map fs b n" for b n by (simp add: dir_map_def)
  have "v = DIRENT_FULL \<Longrightarrow> dir_full fs buf (ext2_dirent_rec_len (length name))"
    unfolding dir_full_def using r(2) b by auto
  then show ?thesis unfolding u using r by (cases v) (auto simp: dom_def)
qed

definition dir64 :: "ramblock ext2" where
  "dir64 = \<lparr>e_dev = \<lparr>op_read = ramblock_read, op_write = None,
       impl = \<lparr>rb_buffer = [], rb_block_size = 1, rb_block_count = 0\<rparr>, block_size = 1, block_count = 0\<rparr>,
     e_sb = bytes_sb [], bsize = 64, first_data_block = 0, group_count = 1,
     inode_size = 128, first_inode = 11, inodes_per_block = 1, addrs_per_block = 16, gdt_blocks = 1,
     gdt = [], e_incompat = 2, e_ro_compat = 0, has_filetype = True, large_files = False,
     read_only = False, sb_dirty = False, gdt_dirty = False, dir_buf = [], cached_dir_inode = 0,
     cached_dir_block = 0, cached_dir_size = 0, cached_dir_blocks = [], inode_cache = [],
     inode_cache_next = 0, cached_indirect_block = 0, cached_indirect_buf = [],
     block_bitmap = \<lparr>bc_buf = [], bc_cached = 0, bc_dirty = False\<rparr>,
     inode_bitmap = \<lparr>bc_buf = [], bc_cached = 0, bc_dirty = False\<rparr>,
     block_alloc_hint = 0, inode_alloc_hint = 0, inode_list = [], pending_free = [],
     pending_free_cap = 0, answers = []\<rparr>"

definition dir64_block :: "u8 list" where
  "dir64_block = snd (the (ext2_dirent_init_dir dir64 (replicate 64 0) 12 2))"

lemma dir64_bs: "bsize_ok dir64" "bsize dir64 = 64"
  by (simp_all add: bsize_ok_def dir64_def)

lemma dir64_segs:
  "block_is dir64 [new_seg dir64 12 dot EXT2_FT_DIR 12, new_seg dir64 2 dotdot EXT2_FT_DIR 12, hole_seg 40] 0 dir64_block"
  "dir_map dir64 dir64_block = [dot \<mapsto> 12, dotdot \<mapsto> 2]" "dir_ok dir64 dir64_block"
proof -
  from init_dir_ok [OF dir64_bs(1), of "replicate 64 0" 12 2] dir64_bs(2)
  show "block_is dir64 [new_seg dir64 12 dot EXT2_FT_DIR 12, new_seg dir64 2 dotdot EXT2_FT_DIR 12, hole_seg 40] 0 dir64_block"
    "dir_map dir64 dir64_block = [dot \<mapsto> 12, dotdot \<mapsto> 2]" by (auto simp: dir64_block_def)
  then show "dir_ok dir64 dir64_block" unfolding dir_ok_def by blast
qed

lemma rec_len_one: "ext2_dirent_rec_len (length [97 :: u8]) = 12" "ext2_dirent_name_ok [97]"
  by (simp_all add: ext2_dirent_rec_len_def ext2_dirent_hdr_len_def ext2_dirent_name_ok_def EXT2_NAME_LEN_def)

lemma dir64_place:
  assumes "i \<noteq> 0" "i < 4294967296"
  shows "\<exists>buf'. ext2_dirent_place dir64 dir64_block (ext2_dirent_rec_len (length [97 :: u8])) [97] i EXT2_FT_REG
    = Some (DIRENT_PLACED, buf')"
proof -
  have "ext2_dirent_rec_len (length [97 :: u8]) \<le> bsize dir64" unfolding rec_len_one dir64_bs by simp
  from dirent_place_ok [OF dir64_segs(1) dir64_bs(1) _ _ _ _ _ refl this, of i EXT2_FT_REG] assms
  obtain v buf' where r: "ext2_dirent_place dir64 dir64_block (ext2_dirent_rec_len (length [97 :: u8])) [97] i EXT2_FT_REG = Some (v, buf')"
    "case v of DIRENT_EXISTS \<Rightarrow> [97] \<in> dom (dir_map dir64 dir64_block) \<and> buf' = dir64_block
       | DIRENT_FULL \<Rightarrow> [97] \<notin> dom (dir_map dir64 dir64_block) \<and> buf' = dir64_block
           \<and> list_all (no_room (ext2_dirent_rec_len (length [97 :: u8]))) [new_seg dir64 12 dot EXT2_FT_DIR 12,
               new_seg dir64 2 dotdot EXT2_FT_DIR 12, hole_seg 40] \<and> 0 < ext2_dirent_rec_len (length [97 :: u8])
       | DIRENT_CORRUPT \<Rightarrow> False
       | DIRENT_PLACED \<Rightarrow> [97] \<notin> dom (dir_map dir64 dir64_block) \<and> dir_ok dir64 buf'
           \<and> dir_map dir64 buf' = (dir_map dir64 dir64_block)([97] \<mapsto> i)" by (auto simp: EXT2_FT_REG_def)
  have "v \<noteq> DIRENT_EXISTS" using r(2) by (auto simp: dir64_segs(2) dot_def dotdot_def)
  moreover have "\<not> no_room (ext2_dirent_rec_len (length [97 :: u8])) (hole_seg 40)"
    unfolding rec_len_one by (simp add: no_room_def rlen_def) (simp add: hole_seg_def)
  then have "v \<noteq> DIRENT_FULL" using r(2) by auto
  moreover have "v \<noteq> DIRENT_CORRUPT" using r(2) by auto
  ultimately show ?thesis using r(1) by (cases v) auto
qed

theorem ext2_dirent_place_refines_map_witness:
  "\<exists>buf'. ext2_dirent_place dir64 dir64_block 12 [97] 13 EXT2_FT_REG = Some (DIRENT_PLACED, buf')
    \<and> dir_ok dir64 buf' \<and> find_scan dir64 buf' [97] 0 = Some 13 \<and> find_scan dir64 buf' dotdot 0 = Some 2"
proof -
  obtain b where b: "ext2_dirent_place dir64 dir64_block 12 [97] 13 EXT2_FT_REG = Some (DIRENT_PLACED, b)"
    using dir64_place [of 13, unfolded rec_len_one] by auto
  have le: "ext2_dirent_rec_len (length [97 :: u8]) \<le> bsize dir64" unfolding rec_len_one dir64_bs by simp
  from ext2_dirent_place_refines_map [OF dir64_segs(3) dir64_bs(1) rec_len_one(2) _ _ _ le, of 13 EXT2_FT_REG] b
  have r: "dir_ok dir64 b"
    "\<And>n. find_scan dir64 b n 0 = (if n = [97] then Some 13 else find_scan dir64 dir64_block n 0)"
    unfolding rec_len_one by (auto simp: EXT2_FT_REG_def)
  have "find_scan dir64 dir64_block dotdot 0 = Some 2"
    using dir64_segs(2) unfolding dir_map_def fun_eq_iff by (auto simp: dot_def dotdot_def)
  then show ?thesis using b r by (auto simp: dotdot_def)
qed

text \<open>Renaming inside a directory block moves exactly one entry: after placing the new name
  with the inode of the old one and removing the old record, lookups of every other name answer
  as before, the new name gives the inode and the old one nothing; no step writes outside the
  block.\<close>

theorem ext2_dirent_rename_moves:
  assumes "dir_ok fs buf" "bsize_ok fs" "ext2_dirent_name_ok new" "find_scan fs buf old 0 = Some i"
    "i \<noteq> 0" "i < 4294967296" "ext2_dirent_rec_len (length new) \<le> bsize fs"
    and "ext2_dirent_place fs buf (ext2_dirent_rec_len (length new)) new i EXT2_FT_REG = Some (DIRENT_PLACED, b1)"
  shows "\<exists>off b2. locate_scan fs b1 old 0 = Some off \<and> remove_at fs b1 off = Some b2 \<and> dir_ok fs b2
    \<and> (\<forall>n. find_scan fs b2 n 0 = (if n = old then None else if n = new then Some i else find_scan fs buf n 0))"
proof -
  have s: "dir_inv (fs, buf)" using assms(1,2) by (simp add: dir_inv_def)
  have i: "dirent_ins EXT2_FT_REG (fs, buf) new i = Some (fs, b1)"
    using assms(7,8) by (simp add: dirent_ins_def)
  have l: "dir_map (fst (fs, buf)) (snd (fs, buf)) old = Some i" using assms(4) by (simp add: dir_map_def)
  from dir_block.move [OF s assms(3) conjI [OF assms(5,6)] l i] obtain u where u:
    "dirent_del (fs, b1) old = Some u" "dir_inv u"
    "dir_map (fst u) (snd u) = (dir_map fs buf)(new \<mapsto> i, old := None)" by auto
  from u(1) obtain off b2 where r: "locate_scan fs b1 old 0 = Some off" "remove_at fs b1 off = Some b2" "u = (fs, b2)"
    by (auto simp: dirent_del_def split: option.splits)
  have "find_scan fs b2 n 0 = (if n = old then None else if n = new then Some i else find_scan fs buf n 0)" for n
    using u(3) unfolding r(3) fst_conv snd_conv dir_map_def fun_eq_iff by simp
  then show ?thesis using r u(2) by (auto simp: dir_inv_def)
qed

theorem ext2_dirent_rename_moves_witness:
  "\<exists>b1 off b2. ext2_dirent_place dir64 dir64_block 12 [97] 2 EXT2_FT_REG = Some (DIRENT_PLACED, b1)
    \<and> locate_scan dir64 b1 dotdot 0 = Some off \<and> remove_at dir64 b1 off = Some b2 \<and> dir_ok dir64 b2
    \<and> find_scan dir64 b2 [97] 0 = Some 2 \<and> find_scan dir64 b2 dotdot 0 = None"
proof -
  obtain b1 where b: "ext2_dirent_place dir64 dir64_block 12 [97] 2 EXT2_FT_REG = Some (DIRENT_PLACED, b1)"
    using dir64_place [of 2, unfolded rec_len_one] by auto
  have le: "ext2_dirent_rec_len (length [97 :: u8]) \<le> bsize dir64" unfolding rec_len_one dir64_bs by simp
  have f: "find_scan dir64 dir64_block dotdot 0 = Some 2"
    using dir64_segs(2) unfolding dir_map_def fun_eq_iff by (auto simp: dot_def dotdot_def)
  from ext2_dirent_rename_moves [OF dir64_segs(3) dir64_bs(1) rec_len_one(2) f _ _ le b [folded rec_len_one(1)]]
  obtain off b2 where "locate_scan dir64 b1 dotdot 0 = Some off" "remove_at dir64 b1 off = Some b2" "dir_ok dir64 b2"
    "\<forall>n. find_scan dir64 b2 n 0
      = (if n = dotdot then None else if n = [97] then Some 2 else find_scan dir64 dir64_block n 0)" by auto
  then show ?thesis using b by (auto simp: dotdot_def)
qed

end
