(* ===== verification/Ext2_Inode.thy ===== *)
theory Ext2_Inode
  imports Ext2_Alloc_Run
begin

text \<open>
  Inodes of ext2 (\<open>kernel/kernel/fs/ext2/helpers.c\<close>): where an inode lies on the volume, the cache
  of eight headers in front of the inode table, reading and writing a header, the count of
  directories of a group.  A write that succeeds also flushes the queue of freed blocks: the
  inode that named them is on the disk by then.

  \<open>inode_view\<close> is the table as the disk has it.  \<open>icache_ok\<close> says that every occupied slot holds
  the header the disk has; the lemmas show that reads and writes keep it, that a read returns the
  view and a write changes it at one inode.
\<close>

section \<open>Operations\<close>

definition ext2_inode_size :: "'d ext2 \<Rightarrow> ihdr \<Rightarrow> nat" where
  "ext2_inode_size fs h =
    (if large_files fs \<and> i_size_high h \<noteq> 0 then i_size_high h * 4294967296 + i_size h else i_size h)"

text \<open>Table block and offset in it; \<open>None\<close> is the return of -1.\<close>

definition ext2_inode_locate :: "'d ext2 \<Rightarrow> nat \<Rightarrow> (nat \<times> nat) option" where
  "ext2_inode_locate fs inum =
    (if inum = 0 \<or> inum > inodes_count fs then None
     else let grp = (inum - 1) div ipg fs in
       if grp \<ge> group_count fs then None
       else let index = (inum - 1) mod ipg fs;
                table_block = wrap32 (bg_inode_table (gdt fs ! grp) + index div inodes_per_block fs);
                byte_off = wrap32 (index mod inodes_per_block fs * inode_size fs)
            in if table_block \<ge> blocks_count fs then None
               else if byte_off > bsize fs \<or> bsize fs - byte_off < ihdr_len then None
               else Some (table_block, byte_off))"

text \<open>The first slot of the cache that holds the inode.\<close>

definition icache_find :: "icache_slot list \<Rightarrow> nat \<Rightarrow> nat option" where
  "icache_find slots inum = find (\<lambda>i. ic_num (slots ! i) = inum) [0..<length slots]"

definition next_slot :: "'d ext2 \<Rightarrow> nat" where
  "next_slot fs = (inode_cache_next fs + 1) mod EXT2_INODE_CACHE_SLOTS"

text \<open>The header is read into the slot that is to hold it, which is free until the read is done.\<close>

definition ext2_read_inode :: "'d ext2 \<Rightarrow> nat \<Rightarrow> (ihdr option \<times> 'd ext2) option" where
  "ext2_read_inode fs inum =
    (if inum = 0 \<or> inum > inodes_count fs then Some (None, fs)
     else case icache_find (inode_cache fs) inum of
       Some i \<Rightarrow> Some (Some (ic_hdr (inode_cache fs ! i)), fs)
     | None \<Rightarrow> case ext2_inode_locate fs inum of
         None \<Rightarrow> Some (None, fs)
       | Some (table_block, byte_off) \<Rightarrow>
         let offset = table_block * bsize fs + byte_off; s = inode_cache_next fs in
         if offset > UINT64_MAX - ihdr_len then Some (None, fs)
         else if s \<ge> length (inode_cache fs) then None
         else let old = ic_hdr (inode_cache fs ! s);
                  fs = fs\<lparr>inode_cache_next := next_slot fs,
                          inode_cache := (inode_cache fs)[s := \<lparr>ic_num = 0, ic_hdr = old\<rparr>]\<rparr>
              in do {
                (rc, buf, fs) \<leftarrow> dev_read fs offset (ihdr_bytes old);
                let h = bytes_ihdr buf;
                if rc \<noteq> BLOCK_OK
                then Some (None, fs\<lparr>inode_cache := (inode_cache fs)[s := \<lparr>ic_num = 0, ic_hdr = h\<rparr>]\<rparr>)
                else Some (Some h, fs\<lparr>inode_cache := (inode_cache fs)[s := \<lparr>ic_num = inum, ic_hdr = h\<rparr>]\<rparr>) })"

definition ext2_inode_cache_store :: "'d ext2 \<Rightarrow> nat \<Rightarrow> ihdr \<Rightarrow> 'd ext2 option" where
  "ext2_inode_cache_store fs inum h =
    (case icache_find (inode_cache fs) inum of
       Some i \<Rightarrow> Some (fs\<lparr>inode_cache := (inode_cache fs)[i := (inode_cache fs ! i)\<lparr>ic_hdr := h\<rparr>]\<rparr>)
     | None \<Rightarrow> let s = inode_cache_next fs in
         if s \<ge> length (inode_cache fs) then None
         else Some (fs\<lparr>inode_cache_next := next_slot fs,
                       inode_cache := (inode_cache fs)[s := \<lparr>ic_num = inum, ic_hdr = h\<rparr>]\<rparr>))"

definition ext2_write_inode :: "'d ext2 \<Rightarrow> nat \<Rightarrow> ihdr \<Rightarrow> (int \<times> 'd ext2) option" where
  "ext2_write_inode fs inum h =
    (case ext2_inode_locate fs inum of
       None \<Rightarrow> Some (BLOCK_ERR_INVAL, fs)
     | Some (table_block, byte_off) \<Rightarrow>
       let offset = table_block * bsize fs + byte_off in
       if offset > UINT64_MAX - ihdr_len then Some (BLOCK_ERR_INVAL, fs)
       else do {
         (rc, fs) \<leftarrow> dev_write fs offset (ihdr_bytes h);
         if rc \<noteq> BLOCK_OK then Some (rc, fs)
         else do {
           fs \<leftarrow> ext2_inode_cache_store fs inum h;
           (_, fs) \<leftarrow> ext2_pending_free_flush fs;
           Some (rc, fs) } })"

definition ext2_dirs_count_adjust :: "'d ext2 \<Rightarrow> nat \<Rightarrow> int \<Rightarrow> int \<times> 'd ext2" where
  "ext2_dirs_count_adjust fs inum delta =
    (if delta = 0 \<or> inum = 0 then (-1, fs)
     else let grp = (inum - 1) div ipg fs in
       if grp \<ge> group_count fs then (-1, fs)
       else if delta > 0
       then (0, upd_gdesc grp (\<lambda>g. g\<lparr>bg_used_dirs := (bg_used_dirs g + 1) mod 65536\<rparr>) fs)
       else if bg_used_dirs (gdt fs ! grp) = 0 then (-1, fs)
       else (0, upd_gdesc grp (\<lambda>g. g\<lparr>bg_used_dirs := bg_used_dirs g - 1\<rparr>) fs))"

section \<open>The inode table\<close>

definition inode_view :: "('d \<Rightarrow> u8 list) \<Rightarrow> 'd ext2 \<Rightarrow> nat \<Rightarrow> ihdr option" where
  "inode_view content fs i =
    map_option (\<lambda>(t, b). bytes_ihdr (chunk b ihdr_len (blk content fs t))) (ext2_inode_locate fs i)"

text \<open>The geometry of the table, which mounting establishes, and the tables of the groups lying
  apart from each other and from the bitmaps.\<close>

definition tbl :: "'d ext2 \<Rightarrow> nat \<Rightarrow> nat" where "tbl fs g = bg_inode_table (gdt fs ! g)"

definition tbl_blocks :: "'d ext2 \<Rightarrow> nat" where
  "tbl_blocks fs = div_ceil_u32 (wrap32 (inode_size fs * ipg fs)) (bsize fs)"

definition itab_ok :: "'d ext2 \<Rightarrow> bool" where
  "itab_ok fs \<longleftrightarrow> 0 < inodes_per_block fs \<and> inodes_per_block fs * inode_size fs = bsize fs
     \<and> ihdr_len \<le> inode_size fs \<and> inode_size fs \<le> 256
     \<and> (\<forall>g<group_count fs. tbl fs g + tbl_blocks fs \<le> blocks_count fs)
     \<and> (\<forall>g<group_count fs. \<forall>g'<group_count fs. g \<noteq> g' \<longrightarrow>
          tbl fs g + tbl_blocks fs \<le> tbl fs g' \<or> tbl fs g' + tbl_blocks fs \<le> tbl fs g)
     \<and> (\<forall>g<group_count fs. \<forall>b. is_bitmap fs b \<longrightarrow> \<not> (tbl fs g \<le> b \<and> b < tbl fs g + tbl_blocks fs))"

text \<open>The slots hold what the table \<open>V\<close> has, each inode at most once.\<close>

definition slots_ok :: "(nat \<Rightarrow> ihdr option) \<Rightarrow> icache_slot list \<Rightarrow> bool" where
  "slots_ok V slots \<longleftrightarrow> (\<forall>i<length slots. length (i_block (ic_hdr (slots ! i))) = 15
       \<and> (ic_num (slots ! i) \<noteq> 0 \<longrightarrow> V (ic_num (slots ! i)) = Some (ic_hdr (slots ! i))))
     \<and> (\<forall>i<length slots. \<forall>j<length slots. i \<noteq> j \<longrightarrow> ic_num (slots ! i) \<noteq> 0
          \<longrightarrow> ic_num (slots ! i) \<noteq> ic_num (slots ! j))"

definition icache_ok :: "('d \<Rightarrow> u8 list) \<Rightarrow> 'd ext2 \<Rightarrow> bool" where
  "icache_ok content fs \<longleftrightarrow> length (inode_cache fs) = EXT2_INODE_CACHE_SLOTS
     \<and> inode_cache_next fs < EXT2_INODE_CACHE_SLOTS
     \<and> slots_ok (inode_view content fs) (inode_cache fs)"

definition fs_ok :: "('d \<Rightarrow> u8 list) \<Rightarrow> 'd ext2 \<Rightarrow> bool" where
  "fs_ok content fs \<longleftrightarrow> alloc_inv content fs \<and> itab_ok fs \<and> icache_ok content fs"

definition mount_of :: "'d ext2 \<Rightarrow> bool \<times> bool \<times> bool \<times> nat \<times> nat" where
  "mount_of fs = (has_filetype fs, large_files fs, read_only fs, addrs_per_block fs, inodes_per_block fs)"

definition icache_of :: "'d ext2 \<Rightarrow> icache_slot list \<times> nat" where
  "icache_of fs = (inode_cache fs, inode_cache_next fs)"

lemma rest_mount: "rest_of fs' = rest_of fs \<Longrightarrow> mount_of fs' = mount_of fs \<and> icache_of fs' = icache_of fs"
  by (simp add: rest_of_def mount_of_def icache_of_def)

lemma mount_fields:
  assumes "mount_of fs' = mount_of fs"
  shows "has_filetype fs' = has_filetype fs" "large_files fs' = large_files fs" "read_only fs' = read_only fs"
    "addrs_per_block fs' = addrs_per_block fs" "inodes_per_block fs' = inodes_per_block fs"
  using assms by (simp_all add: mount_of_def)

lemma locate_frame:
  assumes l: "lay fs' = lay fs" and m: "mount_of fs' = mount_of fs" and ge: "geom fs"
  shows "ext2_inode_locate fs' i = ext2_inode_locate fs i"
proof -
  note f = lay_fields [OF l] and n = lay_nth(4) [OF l geom_length [OF ge]]
  show ?thesis unfolding ext2_inode_locate_def f mount_fields [OF m] Let_def by (simp add: n)
qed

lemma itab_frame:
  assumes l: "lay fs' = lay fs" and m: "mount_of fs' = mount_of fs" and ge: "geom fs"
  shows "itab_ok fs' = itab_ok fs" "tbl_blocks fs' = tbl_blocks fs" "g < group_count fs \<Longrightarrow> tbl fs' g = tbl fs g"
proof -
  note f = lay_fields [OF l] and n = lay_nth(4) [OF l geom_length [OF ge]]
  show b: "tbl_blocks fs' = tbl_blocks fs" by (simp add: tbl_blocks_def f)
  show t: "tbl fs' g = tbl fs g" if "g < group_count fs" for g using n [OF that] by (simp add: tbl_def)
  show "itab_ok fs' = itab_ok fs"
    unfolding itab_ok_def f mount_fields [OF m] b lay_bitmap(1) [OF l ge] by (simp add: t cong: conj_cong)
qed

section \<open>Where the inodes lie\<close>

lemma itabD:
  assumes "itab_ok fs"
  shows "0 < inodes_per_block fs" "inodes_per_block fs * inode_size fs = bsize fs"
    "ihdr_len \<le> inode_size fs" "inode_size fs \<le> 256"
    "g < group_count fs \<Longrightarrow> tbl fs g + tbl_blocks fs \<le> blocks_count fs"
    "g < group_count fs \<Longrightarrow> g' < group_count fs \<Longrightarrow> g \<noteq> g' \<Longrightarrow>
      tbl fs g + tbl_blocks fs \<le> tbl fs g' \<or> tbl fs g' + tbl_blocks fs \<le> tbl fs g"
    "g < group_count fs \<Longrightarrow> is_bitmap fs b \<Longrightarrow> \<not> (tbl fs g \<le> b \<and> b < tbl fs g + tbl_blocks fs)"
  using assms unfolding itab_ok_def by blast+

lemma ceil_mult:
  assumes "0 < (b :: nat)"
  shows "n \<le> (n + b - 1) div b * b"
proof -
  have "(n + b - 1) mod b < b" using assms by simp
  moreover have "(n + b - 1) div b * b + (n + b - 1) mod b = n + b - 1" by simp
  ultimately show ?thesis using assms by linarith
qed

lemma row_less:
  assumes "p * s = b" "i < m" "s * m \<le> k * b" "0 < s" "0 < (b :: nat)"
  shows "i div p < k"
proof -
  have "i div p * b = i div p * p * s" using assms(1) by (simp add: mult.assoc)
  also have "\<dots> \<le> i * s" by (intro mult_le_mono1) (simp add: div_times_less_eq_dividend)
  also have "\<dots> < m * s" using assms(2,4) by simp
  also have "\<dots> \<le> k * b" using assms(3) by (simp add: mult.commute)
  finally show ?thesis by simp
qed

lemma row_inside:
  assumes "p * s = b" "0 < p"
  shows "i mod p * s + s \<le> (b :: nat)"
proof -
  have "Suc (i mod p) * s \<le> p * s" by (intro mult_le_mono1) (use assms(2) in \<open>simp add: Suc_leI\<close>)
  then show ?thesis using assms(1) by simp
qed

lemma row_apart: "a \<noteq> b \<Longrightarrow> a * s + s \<le> b * s \<or> b * s + s \<le> a * (s :: nat)"
  by (metis add.commute linorder_neqE_nat mult_Suc mult_le_mono1 Suc_leI)

text \<open>The blocks of a table hold all inodes of the group.\<close>

lemma bsize_pos: "itab_ok fs \<Longrightarrow> 0 < bsize fs"
  using itabD(1-3) [of fs] by (metis less_le_trans mult_pos_pos zero_less_numeral)

lemma tbl_blocks_enough:
  assumes ge: "geom fs" and it: "itab_ok fs" and i: "index < ipg fs"
  shows "index div inodes_per_block fs < tbl_blocks fs"
proof -
  note d = itabD(1-4) [OF it]
  define n where "n = inode_size fs * ipg fs"
  have "ipg fs \<le> 8 * 4096" using ge by (auto simp: geom_def)
  then have "n \<le> 256 * (8 * 4096)" unfolding n_def by (rule mult_le_mono [OF d(4)])
  moreover have bs4: "bsize fs \<le> 4096" using ge by (simp add: geom_def)
  moreover have "(n + bsize fs - 1) div bsize fs \<le> n + bsize fs - 1" by (rule div_le_dividend)
  ultimately have lt: "n < 4294967296" "(n + bsize fs - 1) div bsize fs < 4294967296" by linarith+
  have "tbl_blocks fs = (n + bsize fs - 1) div bsize fs"
    unfolding tbl_blocks_def div_ceil_u32_def n_def [symmetric] wrap32_id [OF lt(1)] by (rule wrap32_id [OF lt(2)])
  then have "n \<le> tbl_blocks fs * bsize fs" using ceil_mult [OF bsize_pos [OF it]] by simp
  then show ?thesis
    using row_less [OF d(2) i _ _ bsize_pos [OF it]] d(3) by (simp add: n_def)
qed

lemma locate_ok:
  assumes ge: "geom fs" and it: "itab_ok fs" and i: "0 < inum" "inum \<le> inodes_count fs"
  defines "index \<equiv> (inum - 1) mod ipg fs" and "g \<equiv> (inum - 1) div ipg fs"
  shows "ext2_inode_locate fs inum = Some (tbl fs g + index div inodes_per_block fs,
      index mod inodes_per_block fs * inode_size fs)"
    "g < group_count fs" "tbl fs g + index div inodes_per_block fs < tbl fs g + tbl_blocks fs"
    "tbl fs g + tbl_blocks fs \<le> blocks_count fs"
    "index mod inodes_per_block fs * inode_size fs + inode_size fs \<le> bsize fs"
proof -
  note d = itabD [OF it]
  have ip: "0 < ipg fs" and b32: "blocks_count fs < 4294967296" "bsize fs \<le> 4096"
    and ic: "inodes_count fs \<le> group_count fs * ipg fs" using ge by (simp_all add: geom_def)
  show g: "g < group_count fs"
    unfolding g_def using i ic ip by (simp add: div_less_iff_less_mult)
  have ix: "index < ipg fs" using ip by (simp add: index_def)
  show t: "tbl fs g + index div inodes_per_block fs < tbl fs g + tbl_blocks fs"
    using tbl_blocks_enough [OF ge it ix] by simp
  show v: "tbl fs g + tbl_blocks fs \<le> blocks_count fs" by (rule d(5) [OF g])
  show r: "index mod inodes_per_block fs * inode_size fs + inode_size fs \<le> bsize fs"
    by (rule row_inside [OF d(2) d(1)])
  have w: "wrap32 (tbl fs g + index div inodes_per_block fs) = tbl fs g + index div inodes_per_block fs"
    "wrap32 (index mod inodes_per_block fs * inode_size fs) = index mod inodes_per_block fs * inode_size fs"
    using t v b32 r d(3) by (intro wrap32_id, linarith)+
  have n: "inum \<noteq> 0" "\<not> inum > inodes_count fs" "\<not> g \<ge> group_count fs"
    "\<not> tbl fs g + index div inodes_per_block fs \<ge> blocks_count fs"
    "\<not> (index mod inodes_per_block fs * inode_size fs > bsize fs
       \<or> bsize fs - index mod inodes_per_block fs * inode_size fs < ihdr_len)"
    using i g t v r d(3) by linarith+
  show "ext2_inode_locate fs inum = Some (tbl fs g + index div inodes_per_block fs,
      index mod inodes_per_block fs * inode_size fs)"
    unfolding ext2_inode_locate_def Let_def g_def [symmetric] index_def [symmetric] tbl_def [symmetric] w
    using n by (simp only: if_False simp_thms)
qed

lemma locate_valid: "ext2_inode_locate fs i = Some tb \<Longrightarrow> 0 < i \<and> i \<le> inodes_count fs"
  by (auto simp: ext2_inode_locate_def split: if_splits)

text \<open>An inode lies inside its block, which holds nothing else, and apart from every other inode.\<close>

lemma locate_props:
  assumes ge: "geom fs" and it: "itab_ok fs" and l: "ext2_inode_locate fs i = Some (t, b)"
  shows "t < blocks_count fs" "b + ihdr_len \<le> bsize fs" "\<not> is_bitmap fs t" "is_meta fs t"
proof -
  note v = locate_valid [OF l]
  note o' = locate_ok [OF ge it conjunct1 [OF v] conjunct2 [OF v]]
  define g where "g = (i - 1) div ipg fs"
  have tb: "t < tbl fs g + tbl_blocks fs" "tbl fs g \<le> t" "g < group_count fs"
    "b = (i - 1) mod ipg fs mod inodes_per_block fs * inode_size fs"
    using o' l by (auto simp: g_def)
  show "t < blocks_count fs" using tb(1) o'(4) by (simp add: g_def)
  show "b + ihdr_len \<le> bsize fs" using o'(5) tb(4) itabD(3) [OF it] by simp
  show "\<not> is_bitmap fs t" using itabD(7) [OF it tb(3)] tb(1,2) by blast
  show "is_meta fs t" using tb(1-3) by (auto simp: is_meta_def tbl_def tbl_blocks_def)
qed

lemma locate_apart:
  assumes ge: "geom fs" and it: "itab_ok fs" and ne: "i \<noteq> j"
    and l: "ext2_inode_locate fs i = Some (t, b)" "ext2_inode_locate fs j = Some (t, b')"
  shows "b + ihdr_len \<le> b' \<or> b' + ihdr_len \<le> b"
proof -
  note v = locate_valid [OF l(1)] and v' = locate_valid [OF l(2)]
  note p = locate_ok [OF ge it conjunct1 [OF v] conjunct2 [OF v]]
    and p' = locate_ok [OF ge it conjunct1 [OF v'] conjunct2 [OF v']]
  define g where "g = (i - 1) div ipg fs"
  define g' where "g' = (j - 1) div ipg fs"
  define x where "x = (i - 1) mod ipg fs"
  define x' where "x' = (j - 1) mod ipg fs"
  note p = p [folded g_def x_def] and p' = p' [folded g'_def x'_def]
  have tb: "t = tbl fs g + x div inodes_per_block fs" "b = x mod inodes_per_block fs * inode_size fs"
    "t = tbl fs g' + x' div inodes_per_block fs" "b' = x' mod inodes_per_block fs * inode_size fs"
    using p(1) p'(1) l by simp_all
  have gg: "g = g'"
  proof (rule ccontr)
    assume "g \<noteq> g'"
    from itabD(6) [OF it p(2) p'(2) this] show False using p(3) p'(3) tb(1,3) by linarith
  qed
  have "x \<noteq> x'"
  proof
    assume "x = x'"
    then have "i - 1 = j - 1" using gg unfolding x_def x'_def g_def g'_def by (metis div_mult_mod_eq)
    then show False using ne v v' by linarith
  qed
  moreover have "x div inodes_per_block fs = x' div inodes_per_block fs" using tb(1,3) gg by simp
  ultimately have "x mod inodes_per_block fs \<noteq> x' mod inodes_per_block fs" by (metis div_mult_mod_eq)
  from row_apart [OF this, of "inode_size fs"] show ?thesis using tb(2,4) itabD(3) [OF it] by linarith
qed

section \<open>The cache\<close>

lemma icache_find_Some:
  "icache_find slots n = Some i \<Longrightarrow> i < length slots \<and> ic_num (slots ! i) = n"
  by (auto simp: icache_find_def find_Some_iff)

lemma icache_find_None: "icache_find slots n = None \<Longrightarrow> i < length slots \<Longrightarrow> ic_num (slots ! i) \<noteq> n"
  by (auto simp: icache_find_def find_None_iff)

lemma slots_okD:
  assumes "slots_ok V slots" "i < length slots"
  shows "length (i_block (ic_hdr (slots ! i))) = 15"
    "ic_num (slots ! i) \<noteq> 0 \<Longrightarrow> V (ic_num (slots ! i)) = Some (ic_hdr (slots ! i))"
    "j < length slots \<Longrightarrow> i \<noteq> j \<Longrightarrow> ic_num (slots ! i) \<noteq> 0 \<Longrightarrow> ic_num (slots ! i) \<noteq> ic_num (slots ! j)"
  using assms unfolding slots_ok_def by blast+

lemma slots_ok_update:
  assumes ok: "slots_ok V slots" and s: "s < length slots" and l: "length (i_block h) = 15"
    and n: "n \<noteq> 0 \<Longrightarrow> V n = Some h" "\<And>i. n \<noteq> 0 \<Longrightarrow> i < length slots \<Longrightarrow> i \<noteq> s \<Longrightarrow> ic_num (slots ! i) \<noteq> n"
  shows "slots_ok V (slots[s := \<lparr>ic_num = n, ic_hdr = h\<rparr>])"
  unfolding slots_ok_def
proof (intro conjI allI impI)
  fix i assume i: "i < length (slots[s := \<lparr>ic_num = n, ic_hdr = h\<rparr>])"
  show "length (i_block (ic_hdr (slots[s := \<lparr>ic_num = n, ic_hdr = h\<rparr>] ! i))) = 15"
    using slots_okD(1) [OF ok] i l s by (cases "i = s") simp_all
  show "V (ic_num (slots[s := \<lparr>ic_num = n, ic_hdr = h\<rparr>] ! i))
      = Some (ic_hdr (slots[s := \<lparr>ic_num = n, ic_hdr = h\<rparr>] ! i))"
    if "ic_num (slots[s := \<lparr>ic_num = n, ic_hdr = h\<rparr>] ! i) \<noteq> 0"
    using slots_okD(2) [OF ok] i n(1) s that by (cases "i = s") simp_all
  fix j assume j: "j < length (slots[s := \<lparr>ic_num = n, ic_hdr = h\<rparr>])" "i \<noteq> j"
    and z: "ic_num (slots[s := \<lparr>ic_num = n, ic_hdr = h\<rparr>] ! i) \<noteq> 0"
  show "ic_num (slots[s := \<lparr>ic_num = n, ic_hdr = h\<rparr>] ! i) \<noteq> ic_num (slots[s := \<lparr>ic_num = n, ic_hdr = h\<rparr>] ! j)"
    using slots_okD(3) [OF ok, of i j] i j z n(2) [of i] n(2) [of j] s
    by (cases "i = s"; cases "j = s") (auto simp: nth_list_update)
qed

text \<open>Storing a header is what the table does when the inode is written.\<close>

lemma slots_ok_write:
  assumes ok: "slots_ok V slots" and l: "length (i_block h) = 15"
  shows "icache_find slots n = Some k \<Longrightarrow> slots_ok (V(n \<mapsto> h)) (slots[k := (slots ! k)\<lparr>ic_hdr := h\<rparr>])"
    "icache_find slots n = None \<Longrightarrow> slots_ok (V(n \<mapsto> h)) slots"
proof -
  show "slots_ok (V(n \<mapsto> h)) slots" if "icache_find slots n = None"
    using ok icache_find_None [OF that] unfolding slots_ok_def by simp
  assume f: "icache_find slots n = Some k"
  note k = icache_find_Some [OF f]
  define sl where "sl = slots[k := (slots ! k)\<lparr>ic_hdr := h\<rparr>]"
  have num: "i < length slots \<Longrightarrow> ic_num (sl ! i) = ic_num (slots ! i)" for i
    by (cases "i = k") (simp_all add: sl_def)
  have hd: "i < length slots \<Longrightarrow> ic_hdr (sl ! i) = (if i = k then h else ic_hdr (slots ! i))" for i
    by (simp add: sl_def nth_list_update)
  have len: "length sl = length slots" by (simp add: sl_def)
  show "slots_ok (V(n \<mapsto> h)) (slots[k := (slots ! k)\<lparr>ic_hdr := h\<rparr>])"
    unfolding sl_def [symmetric] slots_ok_def len
  proof (intro conjI allI impI)
    fix i assume i: "i < length slots"
    show "length (i_block (ic_hdr (sl ! i))) = 15" using slots_okD(1) [OF ok i] l hd [OF i] by simp
    show "(V(n \<mapsto> h)) (ic_num (sl ! i)) = Some (ic_hdr (sl ! i))" if z: "ic_num (sl ! i) \<noteq> 0"
    proof (cases "i = k")
      case True
      then show ?thesis using num [OF i] hd [OF i] k by simp
    next
      case False
      have z': "ic_num (slots ! i) \<noteq> 0" using z num [OF i] by simp
      have "ic_num (slots ! i) \<noteq> n" using slots_okD(3) [OF ok i conjunct1 [OF k] False z'] k by simp
      then show ?thesis using num [OF i] hd [OF i] False slots_okD(2) [OF ok i z'] by simp
    qed
    fix j assume j: "j < length slots" "i \<noteq> j" "ic_num (sl ! i) \<noteq> 0"
    show "ic_num (sl ! i) \<noteq> ic_num (sl ! j)"
      using slots_okD(3) [OF ok i j(1,2)] j(3) num [OF i] num [OF j(1)] by simp
  qed
qed

section \<open>Transfers inside a block\<close>

lemma patch_chunk:
  assumes "b + length ys \<le> n" "a + n \<le> length xs"
  shows "chunk a n (patch (a + b) ys xs) = patch b ys (chunk a n xs)"
proof -
  define zs where "zs = patch b ys (chunk a n xs)"
  have l: "length zs = n" using assms by (simp add: zs_def length_patch length_chunk)
  have "patch (a + b) ys xs = patch a zs xs" unfolding zs_def by (rule patch_window [OF assms, symmetric])
  moreover have "chunk a (length zs) (patch a zs xs) = zs" by (rule chunk_patch) (use l assms in simp)
  ultimately show ?thesis using l by (simp add: zs_def)
qed

context failstop_device
begin

lemma dev_read_within:
  assumes "at fs" "t < blocks_count fs" "b + length buf \<le> bsize fs"
  shows "\<exists>rc buf' fs'. dev_read fs (t * bsize fs + b) buf = Some (rc, buf', fs') \<and> same_but_dev fs fs'
    \<and> e_dev fs' = e_dev fs \<and> at fs' \<and> length buf' = length buf
    \<and> (rc = BLOCK_OK \<longrightarrow> buf' = chunk b (length buf) (blk content fs t))"
proof -
  have "t * bsize fs + b + length buf \<le> length (bytes fs)" using block_inside(1) [OF assms(1,2)] assms(3) by simp
  from dev_read_ok [OF assms(1) this] show ?thesis unfolding blk_def chunk_chunk [OF assms(3)] .
qed

lemma dev_write_within:
  assumes "at fs" "t < blocks_count fs" "b + length buf \<le> bsize fs"
  shows "\<exists>rc fs'. dev_write fs (t * bsize fs + b) buf = Some (rc, fs') \<and> same_but_dev fs fs' \<and> at fs'
    \<and> (\<forall>c<blocks_count fs. blk content fs' c
        = (if rc = BLOCK_OK \<and> c = t then patch b buf (blk content fs t) else blk content fs c))
    \<and> (rc \<noteq> BLOCK_OK \<longrightarrow> blk content fs' = blk content fs)"
proof -
  note bi = block_inside(1) [OF assms(1,2)]
  have "t * bsize fs + b + length buf \<le> length (bytes fs)" using bi assms(3) by simp
  from dev_write_ok [OF assms(1) this] obtain rc fs' where w:
    "dev_write fs (t * bsize fs + b) buf = Some (rc, fs')" "same_but_dev fs fs'" "at fs'"
    "bytes fs' = (if rc = BLOCK_OK then patch (t * bsize fs + b) buf (bytes fs) else bytes fs)" by blast
  have bs: "bsize fs' = bsize fs" by (rule same_but_devD(2) [OF w(2)])
  have "blk content fs' c = (if rc = BLOCK_OK \<and> c = t then patch b buf (blk content fs t) else blk content fs c)"
    if c: "c < blocks_count fs" for c
  proof (cases "rc = BLOCK_OK")
    case ok: True
    show ?thesis
    proof (cases "c = t")
      case True
      then show ?thesis using ok w(4) bs patch_chunk [OF assms(3) bi] by (simp add: blk_def)
    next
      case ne: False
      have "chunk (c * bsize fs) (bsize fs) (patch (t * bsize fs + b) buf (bytes fs))
          = chunk (c * bsize fs) (bsize fs) (bytes fs)"
        by (rule chunk_patch_apart)
          (use block_inside(1) [OF assms(1) c] bi assms(3) blocks_apart [OF ne, of "bsize fs"] in linarith)+
      then show ?thesis using ok ne w(4) bs by (simp add: blk_def)
    qed
  qed (use w(4) bs in \<open>simp add: blk_def\<close>)
  moreover have "rc \<noteq> BLOCK_OK \<longrightarrow> blk content fs' = blk content fs"
    using w(4) bs by (simp add: blk_def fun_eq_iff)
  ultimately show ?thesis using w(1-3) by blast
qed

end

section \<open>Frames\<close>

text \<open>A step that touches only the small caches.\<close>

definition quiet :: "('d \<Rightarrow> u8 list) \<Rightarrow> 'd ext2 \<Rightarrow> 'd ext2 \<Rightarrow> bool" where
  "quiet content fs fs' \<longleftrightarrow> lay fs' = lay fs \<and> mount_of fs' = mount_of fs
     \<and> pending_free fs' = pending_free fs \<and> (\<forall>s. get_bm s fs' = get_bm s fs)
     \<and> blk content fs' = blk content fs"

lemma quietD:
  assumes "quiet content fs fs'"
  shows "lay fs' = lay fs" "mount_of fs' = mount_of fs" "pending_free fs' = pending_free fs"
    "get_bm s fs' = get_bm s fs" "blk content fs' = blk content fs"
  using assms by (simp_all add: quiet_def)

lemma quiet_refl [simp]: "quiet content fs fs" by (simp add: quiet_def)

lemma quiet_trans: "quiet content a b \<Longrightarrow> quiet content b c \<Longrightarrow> quiet content a c"
  by (simp add: quiet_def)

lemma alloc_frame:
  assumes inv: "alloc_inv content fs" and l: "lay fs' = lay fs" and gm: "\<And>s. get_bm s fs' = get_bm s fs"
    and p: "pending_free fs' = pending_free fs"
    and bk: "\<And>c. is_bitmap fs c \<Longrightarrow> c < blocks_count fs \<Longrightarrow> blk content fs' c = blk content fs c"
  shows "alloc_inv content fs'" "in_use content fs' b = in_use content fs b"
    "claimable content fs' b = claimable content fs b"
    "g < group_count fs \<Longrightarrow> bm_bits content s fs' g = bm_bits content s fs g"
proof -
  note ge = alloc_invD(1) [OF inv] and bo = alloc_invD(2) [OF inv] and ok = alloc_invD(3) [OF inv]
  show bits: "g < group_count fs \<Longrightarrow> bm_bits content s fs' g = bm_bits content s fs g" for s g
    by (rule bits_frame(1) [OF l ge bo gm bk])
  have okk: "bm_ok content s fs'" for s by (rule bits_frame(2) [OF l ge bo gm bk ok])
  have iu: "in_use content fs' x = in_use content fs x" "claimable content fs' x = claimable content fs x" for x
    by (rule in_use_cong [OF l ge bits], assumption)+
  show "in_use content fs' b = in_use content fs b" "claimable content fs' b = claimable content fs b"
    by (simp_all only: iu)
  show "alloc_inv content fs'"
    using inv okk lay_geom [OF l] lay_bitmap [OF l ge] unfolding alloc_inv_def by (simp add: iu p)
qed

lemma view_frame:
  assumes ge: "geom fs" and it: "itab_ok fs" and l: "lay fs' = lay fs" and m: "mount_of fs' = mount_of fs"
    and bk: "\<And>c. c < blocks_count fs \<Longrightarrow> is_meta fs c \<Longrightarrow> \<not> is_bitmap fs c \<Longrightarrow> blk content fs' c = blk content fs c"
  shows "inode_view content fs' = inode_view content fs"
proof
  fix i
  show "inode_view content fs' i = inode_view content fs i"
  proof (cases "ext2_inode_locate fs i")
    case None
    then show ?thesis using locate_frame [OF l m ge, of i] by (simp add: inode_view_def)
  next
    case (Some tb)
    obtain t b where tb: "tb = (t, b)" by (cases tb)
    note lp = locate_props [OF ge it Some [unfolded tb]]
    have "blk content fs' t = blk content fs t" by (rule bk [OF lp(1,4,3)])
    then show ?thesis using Some tb locate_frame [OF l m ge, of i] by (simp add: inode_view_def)
  qed
qed

lemma fs_okD:
  assumes "fs_ok content fs"
  shows "alloc_inv content fs" "itab_ok fs" "icache_ok content fs" "geom fs" "bitmaps_ok fs"
    "length (inode_cache fs) = EXT2_INODE_CACHE_SLOTS" "inode_cache_next fs < EXT2_INODE_CACHE_SLOTS"
    "slots_ok (inode_view content fs) (inode_cache fs)"
proof -
  show "alloc_inv content fs" "itab_ok fs" "icache_ok content fs" using assms by (simp_all add: fs_ok_def)
  then show "geom fs" "bitmaps_ok fs" "length (inode_cache fs) = EXT2_INODE_CACHE_SLOTS"
    "inode_cache_next fs < EXT2_INODE_CACHE_SLOTS" "slots_ok (inode_view content fs) (inode_cache fs)"
    by (simp_all add: alloc_inv_def icache_ok_def)
qed

lemma quiet_ok:
  assumes ok: "fs_ok content fs" and q: "quiet content fs fs'"
    and ic: "icache_ok content fs'"
  shows "fs_ok content fs'"
  using alloc_frame(1) [OF fs_okD(1) [OF ok] quietD(1) [OF q] quietD(4) [OF q] quietD(3) [OF q]]
    itab_frame(1) [OF quietD(1,2) [OF q] fs_okD(4) [OF ok]] fs_okD(2) [OF ok] ic quietD(5) [OF q]
  by (simp add: fs_ok_def)

lemma quiet_view:
  assumes "fs_ok content fs" "quiet content fs fs'"
  shows "inode_view content fs' = inode_view content fs"
  by (rule view_frame [OF fs_okD(4,2) [OF assms(1)] quietD(1,2) [OF assms(2)]]) (simp add: quietD(5) [OF assms(2)])

lemma icache_fields:
  "lay (fs\<lparr>inode_cache := x, inode_cache_next := n\<rparr>) = lay fs"
  "lay (fs\<lparr>inode_cache := x\<rparr>) = lay fs"
  "mount_of (fs\<lparr>inode_cache := x\<rparr>) = mount_of fs" "mount_of (fs\<lparr>inode_cache_next := n\<rparr>) = mount_of fs"
  "lay (fs\<lparr>inode_cache_next := n\<rparr>) = lay fs"
  "blk content (fs\<lparr>inode_cache := x\<rparr>) = blk content fs" "blk content (fs\<lparr>inode_cache_next := n\<rparr>) = blk content fs"
  "get_bm s (fs\<lparr>inode_cache := x\<rparr>) = get_bm s fs" "get_bm s (fs\<lparr>inode_cache_next := n\<rparr>) = get_bm s fs"
  "on_device rd wr good (fs\<lparr>inode_cache := x\<rparr>) = on_device rd wr good fs"
  "on_device rd wr good (fs\<lparr>inode_cache_next := n\<rparr>) = on_device rd wr good fs"
  by (cases s; simp add: lay_def mount_of_def blk_def on_device_def fun_eq_iff)+

lemma same_quiet:
  assumes "same_but_dev fs fs'" "e_dev fs' = e_dev fs"
  shows "quiet content fs fs'"
  using same_lay [OF assms(1)] rest_mount [of fs' fs] same_but_devD(2,19) [OF assms(1)] get_bm_same [OF assms(1)] assms(2)
  by (simp add: quiet_def blk_def fun_eq_iff)

section \<open>Reading and writing an inode\<close>

text \<open>The other caches, which reading and writing inodes leaves alone.\<close>

definition caches_of :: "'d ext2 \<Rightarrow> (u8 list \<times> nat \<times> nat \<times> nat \<times> nat list) \<times> (nat \<times> u8 list) \<times> nat list" where
  "caches_of fs = ((dir_buf fs, cached_dir_inode fs, cached_dir_block fs, cached_dir_size fs, cached_dir_blocks fs),
     (cached_indirect_block fs, cached_indirect_buf fs), inode_list fs)"

lemma rest_caches: "rest_of fs' = rest_of fs \<Longrightarrow> caches_of fs' = caches_of fs"
  by (simp add: rest_of_def caches_of_def)

lemma icache_caches:
  "caches_of (fs\<lparr>inode_cache := x\<rparr>) = caches_of fs" "caches_of (fs\<lparr>inode_cache_next := n\<rparr>) = caches_of fs"
  by (simp_all add: caches_of_def)

lemma icache_pending:
  "pending_free (fs\<lparr>inode_cache := x\<rparr>) = pending_free fs" "pending_free (fs\<lparr>inode_cache_next := n\<rparr>) = pending_free fs"
  by simp_all

lemma quiet_icache:
  "quiet content fs (fs\<lparr>inode_cache_next := n, inode_cache := x\<rparr>)" "quiet content fs (fs\<lparr>inode_cache := x\<rparr>)"
  unfolding quiet_def by (simp_all only: icache_fields icache_pending simp_thms)

lemma view_valid:
  assumes "geom fs" "itab_ok fs"
  shows "(inode_view content fs i \<noteq> None) = (0 < i \<and> i \<le> inodes_count fs)"
  using locate_ok(1) [OF assms, of i] locate_valid [of fs i] by (auto simp: inode_view_def)

context failstop_device
begin

lemma view_ok:
  assumes a: "at fs" and ge: "geom fs" and it: "itab_ok fs" and v: "inode_view content fs i = Some h"
  shows "ihdr_ok h" "length (i_block h) = 15"
proof -
  obtain t b where l: "ext2_inode_locate fs i = Some (t, b)" "h = bytes_ihdr (chunk b ihdr_len (blk content fs t))"
    using v by (auto simp: inode_view_def)
  note lp = locate_props [OF ge it l(1)]
  have "length (chunk b ihdr_len (blk content fs t)) = ihdr_len"
    by (rule length_chunk) (use lp length_blk [OF a lp(1)] in simp)
  from bytes_ihdr_ok [OF this] show "ihdr_ok h" "length (i_block h) = 15"
    using l(2) by (simp_all add: ihdr_ok_def)
qed

lemma read_inode_ok:
  assumes a: "at fs" and ok: "fs_ok content fs"
  shows "\<exists>r fs'. ext2_read_inode fs i = Some (r, fs') \<and> at fs' \<and> fs_ok content fs' \<and> quiet content fs fs'
    \<and> caches_of fs' = caches_of fs \<and> (r = None \<or> r = inode_view content fs i) \<and> e_dev fs' = e_dev fs"
proof -
  note d = fs_okD [OF ok]
  consider "i = 0 \<or> i > inodes_count fs"
    | k where "0 < i" "i \<le> inodes_count fs" "icache_find (inode_cache fs) i = Some k"
    | "0 < i" "i \<le> inodes_count fs" "icache_find (inode_cache fs) i = None"
    by (metis not_gr_zero not_le option.exhaust)
  then show ?thesis
  proof cases
    case 1
    then show ?thesis using a ok by (simp add: ext2_read_inode_def)
  next
    case 2
    note k = icache_find_Some [OF 2(3)]
    have "inode_view content fs i = Some (ic_hdr (inode_cache fs ! k))"
      using slots_okD(2) [OF d(8) conjunct1 [OF k]] k 2(1) by simp
    then show ?thesis using 2 a ok by (simp add: ext2_read_inode_def)
  next
    case 3
    obtain t b where l: "ext2_inode_locate fs i = Some (t, b)" using locate_ok(1) [OF d(4,2) 3(1,2)] by simp
    note lp = locate_props [OF d(4,2) l]
    define s where "s = inode_cache_next fs"
    define old where "old = ic_hdr (inode_cache fs ! s)"
    define f where "f = fs\<lparr>inode_cache_next := next_slot fs,
      inode_cache := (inode_cache fs)[s := \<lparr>ic_num = 0, ic_hdr = old\<rparr>]\<rparr>"
    have s: "s < length (inode_cache fs)" using d(6,7) by (simp add: s_def)
    have l15: "length (i_block old) = 15" using slots_okD(1) [OF d(8) s] by (simp add: old_def)
    have lb: "length (ihdr_bytes old) = ihdr_len" by (rule length_ihdr_bytes [OF l15])
    have bi: "t * bsize fs + bsize fs < 4294967296" using block_inside(2) [OF a lp(1)] .
    have no: "\<not> UINT64_MAX - ihdr_len < t * bsize fs + b" unfolding UINT64_MAX_def using bi lp(2) by linarith
    have qf: "quiet content fs f" unfolding f_def by (rule quiet_icache)
    have af: "at f" using a unfolding f_def icache_fields .
    have ff: "bsize f = bsize fs" "blocks_count f = blocks_count fs"
      using lay_fields(1,2) [OF quietD(1) [OF qf]] .
    have fc: "inode_cache f = (inode_cache fs)[s := \<lparr>ic_num = 0, ic_hdr = old\<rparr>]"
      "inode_cache_next f = next_slot fs" "caches_of f = caches_of fs"
      unfolding f_def icache_caches by simp_all
    from dev_read_within [OF af, of t b "ihdr_bytes old"] lp(1,2) lb obtain rc buf g where r:
      "dev_read f (t * bsize fs + b) (ihdr_bytes old) = Some (rc, buf, g)" "same_but_dev f g" "e_dev g = e_dev f"
      "at g" "length buf = ihdr_len" "rc = BLOCK_OK \<longrightarrow> buf = chunk b ihdr_len (blk content fs t)"
      unfolding ff quietD(5) [OF qf] by auto
    define n where "n = (if rc = BLOCK_OK then i else 0)"
    define g' where "g' = g\<lparr>inode_cache := (inode_cache g)[s := \<lparr>ic_num = n, ic_hdr = bytes_ihdr buf\<rparr>]\<rparr>"
    define res where "res = (if rc = BLOCK_OK then Some (bytes_ihdr buf) else None)"
    have run: "ext2_read_inode fs i = Some (res, g')"
      unfolding ext2_read_inode_def Let_def l 3(3) option.case prod.case s_def [symmetric] old_def [symmetric]
        f_def [symmetric]
      using 3(1,2) no s r(1) by (simp add: g'_def n_def res_def)
    have qg: "quiet content f g" by (rule same_quiet [OF r(2,3)])
    have q: "quiet content fs g'"
      using quiet_trans [OF qf quiet_trans [OF qg]] quiet_icache(2) unfolding g'_def by blast
    have ag: "at g'" using r(4) unfolding g'_def icache_fields .
    have rg: "rest_of g = rest_of f" using same_lay [OF r(2)] by simp
    have cg: "inode_cache g = inode_cache f" "inode_cache_next g = inode_cache_next f"
      using rest_mount [OF rg] by (simp_all add: icache_of_def)
    have cag: "caches_of g' = caches_of fs"
      using rest_caches [OF rg] fc(3) unfolding g'_def icache_caches by simp
    have view: "rc = BLOCK_OK \<Longrightarrow> inode_view content fs i = Some (bytes_ihdr buf)"
      using r(6) l by (simp add: inode_view_def)
    have V: "inode_view content g' = inode_view content fs" by (rule quiet_view [OF ok q])
    have l15b: "length (i_block (bytes_ihdr buf)) = 15" using bytes_ihdr_ok [OF r(5)] by (simp add: ihdr_ok_def)
    have ca: "inode_cache g' = (inode_cache fs)[s := \<lparr>ic_num = n, ic_hdr = bytes_ihdr buf\<rparr>]"
      "inode_cache_next g' = next_slot fs"
      unfolding g'_def using cg fc by simp_all
    have "slots_ok (inode_view content g') (inode_cache g')"
      unfolding V ca
      by (rule slots_ok_update [OF d(8) s l15b])
        (use view icache_find_None [OF 3(3)] in \<open>auto simp: n_def split: if_splits\<close>)
    then have "icache_ok content g'"
      using d(6) ca by (simp add: icache_ok_def next_slot_def EXT2_INODE_CACHE_SLOTS_def)
    moreover have "e_dev g' = e_dev fs" unfolding g'_def using r(3) by (simp add: f_def)
    ultimately show ?thesis using run ag q quiet_ok [OF ok q] cag view by (auto simp: res_def)
  qed
qed

lemma store_ok:
  assumes a: "at fs" and al: "alloc_inv content fs" and it: "itab_ok fs"
    and len: "length (inode_cache fs) = EXT2_INODE_CACHE_SLOTS" "inode_cache_next fs < EXT2_INODE_CACHE_SLOTS"
    and sl: "slots_ok V (inode_cache fs)" and V: "inode_view content fs = V(i \<mapsto> h)"
    and h: "length (i_block h) = 15"
  shows "\<exists>fs'. ext2_inode_cache_store fs i h = Some fs' \<and> at fs' \<and> fs_ok content fs'
    \<and> quiet content fs fs' \<and> caches_of fs' = caches_of fs"
proof -
  have done': ?thesis if r: "ext2_inode_cache_store fs i h = Some fs'"
    and e: "fs' = fs\<lparr>inode_cache_next := n, inode_cache := x\<rparr>" and n: "n < EXT2_INODE_CACHE_SLOTS"
    and x: "slots_ok (V(i \<mapsto> h)) x" "length x = EXT2_INODE_CACHE_SLOTS" for fs' n x
  proof -
    have q: "quiet content fs fs'" unfolding e by (rule quiet_icache)
    have V': "inode_view content fs' = V(i \<mapsto> h)"
      using view_frame [OF alloc_invD(1) [OF al] it quietD(1,2) [OF q]] quietD(5) [OF q] V by simp
    have "inode_cache fs' = x" "inode_cache_next fs' = n" by (simp_all add: e)
    then have "icache_ok content fs'" using n x V' by (simp add: icache_ok_def)
    moreover have "alloc_inv content fs'"
      by (rule alloc_frame(1) [OF al quietD(1,4,3) [OF q]]) (simp add: quietD(5) [OF q])
    moreover have "itab_ok fs'" using itab_frame(1) [OF quietD(1,2) [OF q] alloc_invD(1) [OF al]] it by simp
    moreover have "at fs'" using a unfolding e icache_fields .
    moreover have "caches_of fs' = caches_of fs" unfolding e icache_caches ..
    ultimately show ?thesis using r q by (simp add: fs_ok_def)
  qed
  show ?thesis
  proof (cases "icache_find (inode_cache fs) i")
    case (Some k)
    show ?thesis
      by (rule done' [OF _ _ len(2) slots_ok_write(1) [OF sl h Some]])
        (simp_all add: ext2_inode_cache_store_def Some len)
  next
    case None
    define s where "s = inode_cache_next fs"
    have s: "s < length (inode_cache fs)" using len by (simp add: s_def)
    note sw = slots_ok_write(2) [OF sl h None]
    have "slots_ok (V(i \<mapsto> h)) ((inode_cache fs)[s := \<lparr>ic_num = i, ic_hdr = h\<rparr>])"
      by (rule slots_ok_update [OF sw s h]) (use icache_find_None [OF None] in simp_all)
    moreover have "ext2_inode_cache_store fs i h = Some (fs\<lparr>inode_cache_next := next_slot fs,
        inode_cache := (inode_cache fs)[s := \<lparr>ic_num = i, ic_hdr = h\<rparr>]\<rparr>)"
      unfolding ext2_inode_cache_store_def None option.case Let_def s_def [symmetric] using s by simp
    ultimately show ?thesis
      using len(1) done' [OF _ refl, where n = "next_slot fs" and x = "(inode_cache fs)[s := \<lparr>ic_num = i, ic_hdr = h\<rparr>]"]
      by (simp add: next_slot_def EXT2_INODE_CACHE_SLOTS_def)
  qed
qed

lemma write_inode_ok:
  assumes a: "at fs" and ok: "fs_ok content fs" and h: "ihdr_ok h"
  shows "\<exists>rc fs'. ext2_write_inode fs i h = Some (rc, fs') \<and> at fs' \<and> fs_ok content fs'
    \<and> lay fs' = lay fs \<and> mount_of fs' = mount_of fs \<and> caches_of fs' = caches_of fs
    \<and> (if rc = BLOCK_OK then 0 < i \<and> i \<le> inodes_count fs
         \<and> inode_view content fs' = (inode_view content fs)(i \<mapsto> h) \<and> pending_free fs' = []
         \<and> (\<forall>c. c \<notin> set (pending_free fs) \<longrightarrow> in_use content fs' c = in_use content fs c
              \<and> claimable content fs' c = claimable content fs c)
         \<and> (\<forall>c<blocks_count fs. \<not> is_meta fs c \<longrightarrow> blk content fs' c = blk content fs c)
       else quiet content fs fs')"
proof (cases "ext2_inode_locate fs i")
  case None
  then have "ext2_write_inode fs i h = Some (BLOCK_ERR_INVAL, fs)" by (simp add: ext2_write_inode_def)
  then show ?thesis using a ok by (simp add: BLOCK_ERR_INVAL_def BLOCK_OK_def)
next
  case (Some tb)
  obtain t b where tb: "tb = (t, b)" by (cases tb)
  note l = Some [unfolded tb]
  note d = fs_okD [OF ok] and v = locate_valid [OF l]
  note lp = locate_props [OF d(4,2) l]
  have l15: "length (i_block h) = 15" using h by (simp add: ihdr_ok_def)
  have lb: "length (ihdr_bytes h) = ihdr_len" by (rule length_ihdr_bytes [OF l15])
  have bi: "t * bsize fs + bsize fs < 4294967296" using block_inside(2) [OF a lp(1)] .
  have no: "\<not> UINT64_MAX - ihdr_len < t * bsize fs + b" unfolding UINT64_MAX_def using bi lp(2) by linarith
  from dev_write_within [OF a lp(1), of b "ihdr_bytes h"] lp(2) lb obtain rc f where w:
    "dev_write fs (t * bsize fs + b) (ihdr_bytes h) = Some (rc, f)" "same_but_dev fs f" "at f"
    "\<And>c. c < blocks_count fs \<Longrightarrow> blk content f c
      = (if rc = BLOCK_OK \<and> c = t then patch b (ihdr_bytes h) (blk content fs t) else blk content fs c)"
    "rc \<noteq> BLOCK_OK \<longrightarrow> blk content f = blk content fs" by auto
  have lf: "lay f = lay fs" and rf: "rest_of f = rest_of fs" using same_lay [OF w(2)] by simp_all
  note mf = conjunct1 [OF rest_mount [OF rf]] and cf = conjunct2 [OF rest_mount [OF rf]]
  have icf: "inode_cache f = inode_cache fs" "inode_cache_next f = inode_cache_next fs"
    using cf by (simp_all add: icache_of_def)
  note gmf = get_bm_same [OF w(2)] and pf = same_but_devD(19) [OF w(2)]
  show ?thesis
  proof (cases "rc = BLOCK_OK")
    case False
    have q: "quiet content fs f" using lf mf pf gmf w(5) False by (simp add: quiet_def)
    have "icache_ok content f" using d(6-8) icf quiet_view [OF ok q] by (simp add: icache_ok_def)
    then have "fs_ok content f" by (rule quiet_ok [OF ok q])
    moreover have "ext2_write_inode fs i h = Some (rc, f)"
      using False no w(1) l by (simp add: ext2_write_inode_def Let_def)
    ultimately show ?thesis using False w(3) q lf mf rest_caches [OF rf] by simp
  next
    case True
    have bkm: "blk content f c = blk content fs c" if "is_bitmap fs c" "c < blocks_count fs" for c
      using w(4) [OF that(2)] lp(3) that(1) by auto
    have fr: "alloc_inv content f" "in_use content f c = in_use content fs c"
      "claimable content f c = claimable content fs c" for c
      by (rule alloc_frame [OF d(1) lf gmf pf bkm], assumption+)+
    have itf: "itab_ok f" using itab_frame(1) [OF lf mf d(4)] d(2) by simp
    have Vf: "inode_view content f = (inode_view content fs)(i \<mapsto> h)"
    proof
      fix j
      have lj: "ext2_inode_locate f j = ext2_inode_locate fs j" by (rule locate_frame [OF lf mf d(4)])
      show "inode_view content f j = ((inode_view content fs)(i \<mapsto> h)) j"
      proof (cases "j = i")
        case True
        have "chunk b ihdr_len (patch b (ihdr_bytes h) (blk content fs t)) = ihdr_bytes h"
          using chunk_patch [of b "ihdr_bytes h" "blk content fs t"] lb length_blk [OF a lp(1)] lp(2) by simp
        then show ?thesis
          using True \<open>rc = BLOCK_OK\<close> w(4) [OF lp(1)] l lj bytes_ihdr_bytes [OF h] by (simp add: inode_view_def)
      next
        case ne: False
        show ?thesis
        proof (cases "ext2_inode_locate fs j")
          case None
          then show ?thesis using ne lj by (simp add: inode_view_def)
        next
          case (Some tb')
          obtain t' b' where tb': "tb' = (t', b')" by (cases tb')
          note lj' = Some [unfolded tb']
          note lp' = locate_props [OF d(4,2) lj']
          have "chunk b' ihdr_len (blk content f t') = chunk b' ihdr_len (blk content fs t')"
          proof (cases "t' = t")
            case tt: True
            have "b + ihdr_len \<le> b' \<or> b' + ihdr_len \<le> b"
              by (rule locate_apart [OF d(4,2) ne [symmetric] l lj' [unfolded tt]])
            then have "chunk b' ihdr_len (patch b (ihdr_bytes h) (blk content fs t))
                = chunk b' ihdr_len (blk content fs t)"
              using lp(2) lp'(2) lb length_blk [OF a lp(1)] by (intro chunk_patch_apart) auto
            then show ?thesis using w(4) [OF lp(1)] tt \<open>rc = BLOCK_OK\<close> by simp
          qed (use w(4) [OF lp'(1)] in simp)
          then show ?thesis using ne lj lj' by (simp add: inode_view_def)
        qed
      qed
    qed
    from store_ok [OF w(3) fr(1) itf _ _ _ Vf l15] d(6-8) icf obtain g where g:
      "ext2_inode_cache_store f i h = Some g" "at g" "fs_ok content g" "quiet content f g" "caches_of g = caches_of f"
      by auto
    note dg = fs_okD [OF g(3)] and qg = quietD [OF g(4)]
    from flush_ok [OF g(2) dg(1)] obtain rc2 fs' where fl: "ext2_pending_free_flush g = Some (rc2, fs')"
      "at fs'" "alloc_inv content fs'" "freed content g (set (pending_free g)) fs'" "pending_free fs' = []" by blast
    have l': "lay fs' = lay g" and r': "rest_of fs' = rest_of g" using fl(4) by (simp_all add: freed_def)
    have m': "mount_of fs' = mount_of g" and ic': "icache_of fs' = icache_of g" using rest_mount [OF r'] by simp_all
    have Vg: "inode_view content g = inode_view content f"
      by (rule view_frame [OF alloc_invD(1) [OF fr(1)] itf qg(1,2)]) (rule fun_cong [OF qg(5)])
    have V': "inode_view content fs' = inode_view content g"
      by (rule view_frame [OF dg(4,2) l' m']) (use fl(4) in \<open>simp add: freed_def\<close>)
    have it': "itab_ok fs'" using itab_frame(1) [OF l' m' dg(4)] dg(2) by simp
    have "icache_ok content fs'" using dg(6-8) ic' V' by (simp add: icache_ok_def icache_of_def)
    then have ok': "fs_ok content fs'" using fl(3) it' by (simp add: fs_ok_def)
    have L: "lay fs' = lay fs" "mount_of fs' = mount_of fs" "caches_of fs' = caches_of fs"
      using l' m' qg(1,2) lf mf rest_caches [OF r'] g(5) rest_caches [OF rf] by simp_all
    have run: "ext2_write_inode fs i h = Some (rc, fs')"
      unfolding ext2_write_inode_def l option.case prod.case Let_def
      using no w(1) True g(1) fl(1) by simp
    have iu: "in_use content fs' c = in_use content fs c \<and> claimable content fs' c = claimable content fs c"
      if "c \<notin> set (pending_free fs)" for c
    proof -
      have "c \<notin> set (pending_free g)" using that qg(3) pf by simp
      then have "in_use content fs' c = in_use content g c \<and> claimable content fs' c = claimable content g c"
        using fl(4) by (simp add: freed_def)
      moreover have "in_use content g c = in_use content f c" "claimable content g c = claimable content f c"
        by (rule alloc_frame(2,3) [OF fr(1) qg(1,4,3)]; simp add: qg(5))+
      ultimately show ?thesis using fr(2,3) by simp
    qed
    have bk: "blk content fs' c = blk content fs c" if c: "c < blocks_count fs" "\<not> is_meta fs c" for c
    proof -
      have ft: "c \<noteq> t" using lp(4) c(2) by auto
      have "\<not> is_bitmap fs c" using c(2) by (simp add: is_meta_def)
      then have "\<not> is_bitmap g c" "c < blocks_count g"
        using lay_bitmap(1) [of g fs, OF _ d(4)] lay_fields(2) [of g fs] qg(1) lf c(1) by simp_all
      then have "blk content fs' c = blk content g c" using fl(4) by (simp add: freed_def)
      then show ?thesis using qg(5) w(4) [OF c(1)] ft by simp
    qed
    show ?thesis using run fl(2) ok' L True v V' Vg Vf fl(5) iu bk by simp
  qed
qed

end

section \<open>A volume with inodes\<close>

text \<open>
  Nine blocks of 256 bytes on a RAM device with the contents \<open>c\<close>: superblock, descriptors, the
  two bitmaps, one block of two inodes, four data blocks.
\<close>

definition vol_sb :: superblock where
  "vol_sb = (bytes_sb (replicate 1024 0))
     \<lparr>s_inodes_count := 2, s_blocks_count := 9, s_blocks_per_group := 16, s_inodes_per_group := 2\<rparr>"

definition vol :: "u8 list \<Rightarrow> ramblock ext2" where
  "vol c = \<lparr>e_dev = \<lparr>op_read = ramblock_read, op_write = Some ramblock_write,
       impl = \<lparr>rb_buffer = c, rb_block_size = 256, rb_block_count = 9\<rparr>, block_size = 256, block_count = 9\<rparr>,
     e_sb = vol_sb, bsize = 256, first_data_block = 0, group_count = 1,
     inode_size = 128, first_inode = 1, inodes_per_block = 2, addrs_per_block = 64, gdt_blocks = 1,
     gdt = [small_gdesc], e_incompat = 0, e_ro_compat = 0, has_filetype = False, large_files = False,
     read_only = False, sb_dirty = False, gdt_dirty = False, dir_buf = replicate 256 0, cached_dir_inode = 0,
     cached_dir_block = 0, cached_dir_size = 0, cached_dir_blocks = replicate 15 0,
     inode_cache = replicate 8 \<lparr>ic_num = 0, ic_hdr = ihdr_zero\<rparr>,
     inode_cache_next = 0, cached_indirect_block = 0, cached_indirect_buf = replicate 256 0,
     block_bitmap = \<lparr>bc_buf = replicate 256 0, bc_cached = 0, bc_dirty = False\<rparr>,
     inode_bitmap = \<lparr>bc_buf = replicate 256 0, bc_cached = 0, bc_dirty = False\<rparr>,
     block_alloc_hint = 0, inode_alloc_hint = 0, inode_list = [], pending_free = [],
     pending_free_cap = 0, answers = replicate 8 True\<rparr>"

lemma vol_fields:
  "blocks_count (vol c) = 9" "bpg (vol c) = 16" "ipg (vol c) = 2" "inodes_count (vol c) = 2"
  "bsize (vol c) = 256" "first_data_block (vol c) = 0" "group_count (vol c) = 1" "gdt (vol c) = [small_gdesc]"
  "inode_size (vol c) = 128" "gdt_blocks (vol c) = 1" "pending_free (vol c) = []" "first_inode (vol c) = 1"
  "inodes_per_block (vol c) = 2" "addrs_per_block (vol c) = 64" "large_files (vol c) = False"
  "read_only (vol c) = False"
  "inode_cache (vol c) = replicate 8 \<lparr>ic_num = 0, ic_hdr = ihdr_zero\<rparr>" "inode_cache_next (vol c) = 0"
  "cached_indirect_block (vol c) = 0" "cached_indirect_buf (vol c) = replicate 256 0"
  "get_bm s (vol c) = \<lparr>bc_buf = replicate 256 0, bc_cached = 0, bc_dirty = False\<rparr>"
  "rb_buffer (impl (e_dev (vol c))) = c"
  by (cases s; simp add: vol_def vol_sb_def)+

lemma vol_device: "length c = 2304 \<Longrightarrow> on_device ramblock_read ramblock_write ramblock_good (vol c)"
  by (simp add: on_device_def vol_fields) (simp add: vol_def ramblock_good_def)

lemma vol_tbl: "tbl (vol c) 0 = 4" "tbl_blocks (vol c) = 1" "ext2_first_allocatable (vol c) = 5"
  by (simp_all add: tbl_def tbl_blocks_def ext2_first_allocatable_def vol_fields small_gdesc_def div_ceil_u32_def)

lemma small_bm: "bm_block sel small_gdesc = (if sel = BlockBits then 2 else 3)"
  by (cases sel) (simp_all add: small_gdesc_def)

lemma vol_meta: "is_meta (vol c) b \<Longrightarrow> b < 5"
  by (auto simp: is_meta_def is_bitmap_def vol_fields div_ceil_u32_def small_fields(17) small_bm split: if_splits)

lemma vol_ok: "fs_ok rb_buffer (vol c)"
proof -
  have "geom (vol c)" by (simp add: geom_def vol_fields)
  moreover have "bitmaps_ok (vol c)"
    by (auto simp: bitmaps_ok_def vol_fields small_bm split: if_splits) (metis bm_sel.exhaust)+
  moreover have "bm_ok rb_buffer s (vol c)" for s by (simp add: bm_ok_def vol_fields Let_def)
  moreover have "\<not> claimable rb_buffer (vol c) b" if "is_meta (vol c) b" for b
    using vol_meta [OF that] by (simp add: claimable_def ext2_block_freeable_def vol_fields vol_tbl Let_def)
  ultimately have "alloc_inv rb_buffer (vol c)" by (simp add: alloc_inv_def vol_fields)
  moreover have "itab_ok (vol c)"
    by (auto simp: itab_ok_def vol_fields vol_tbl is_bitmap_def small_bm split: if_splits)
  moreover have "icache_ok rb_buffer (vol c)"
    by (simp add: icache_ok_def slots_ok_def vol_fields EXT2_INODE_CACHE_SLOTS_def ihdr_zero_def ihdr_of_def)
  ultimately show ?thesis by (simp add: fs_ok_def)
qed

section \<open>Properties\<close>

text \<open>C36: Behind its cache of eight headers the inode table is a map from inode numbers to headers:
  on any fail-stop device a read returns the header the map has or fails, and changes nothing of
  it; a write of a header whose fields fit their C types updates the map at exactly that inode
  and flushes the queue of freed blocks, or fails and changes nothing.  Both keep the cache
  coherent with the disk and all data blocks as they were.\<close>

theorem ext2_inode_table_refines:
  assumes "failstop_device rd wr content good" "on_device rd wr good fs" "fs_ok content fs" "ihdr_ok h"
  shows "(\<exists>r fs'. ext2_read_inode fs i = Some (r, fs') \<and> on_device rd wr good fs' \<and> fs_ok content fs'
      \<and> inode_view content fs' = inode_view content fs \<and> (r = None \<or> r = inode_view content fs i))
    \<and> (\<exists>rc fs'. ext2_write_inode fs i h = Some (rc, fs') \<and> on_device rd wr good fs' \<and> fs_ok content fs'
      \<and> (\<forall>c<blocks_count fs. \<not> is_meta fs c \<longrightarrow> blk content fs' c = blk content fs c)
      \<and> inode_view content fs' = (if rc = BLOCK_OK then (inode_view content fs)(i \<mapsto> h) else inode_view content fs)
      \<and> pending_free fs' = (if rc = BLOCK_OK then [] else pending_free fs))"
proof
  from failstop_device.read_inode_ok [OF assms(1-3), of i] quiet_view [OF assms(3)]
  show "\<exists>r fs'. ext2_read_inode fs i = Some (r, fs') \<and> on_device rd wr good fs' \<and> fs_ok content fs'
      \<and> inode_view content fs' = inode_view content fs \<and> (r = None \<or> r = inode_view content fs i)" by blast
  from failstop_device.write_inode_ok [OF assms, of i] obtain rc fs' where w:
    "ext2_write_inode fs i h = Some (rc, fs')" "on_device rd wr good fs'" "fs_ok content fs'"
    "if rc = BLOCK_OK then 0 < i \<and> i \<le> inodes_count fs
         \<and> inode_view content fs' = (inode_view content fs)(i \<mapsto> h) \<and> pending_free fs' = []
         \<and> (\<forall>c. c \<notin> set (pending_free fs) \<longrightarrow> in_use content fs' c = in_use content fs c
              \<and> claimable content fs' c = claimable content fs c)
         \<and> (\<forall>c<blocks_count fs. \<not> is_meta fs c \<longrightarrow> blk content fs' c = blk content fs c)
       else quiet content fs fs'" by blast
  have "(\<forall>c<blocks_count fs. \<not> is_meta fs c \<longrightarrow> blk content fs' c = blk content fs c)
      \<and> inode_view content fs' = (if rc = BLOCK_OK then (inode_view content fs)(i \<mapsto> h) else inode_view content fs)
      \<and> pending_free fs' = (if rc = BLOCK_OK then [] else pending_free fs)"
  proof (cases "rc = BLOCK_OK")
    case True
    then show ?thesis using w(4) by simp
  next
    case False
    then have q: "quiet content fs fs'" using w(4) by simp
    show ?thesis using False quiet_view [OF assms(3) q] by (simp add: quietD(3,5) [OF q])
  qed
  with w(1-3) show "\<exists>rc fs'. ext2_write_inode fs i h = Some (rc, fs') \<and> on_device rd wr good fs' \<and> fs_ok content fs'
      \<and> (\<forall>c<blocks_count fs. \<not> is_meta fs c \<longrightarrow> blk content fs' c = blk content fs c)
      \<and> inode_view content fs' = (if rc = BLOCK_OK then (inode_view content fs)(i \<mapsto> h) else inode_view content fs)
      \<and> pending_free fs' = (if rc = BLOCK_OK then [] else pending_free fs)"
    by blast
qed

theorem ext2_inode_table_refines_witness:
  "\<exists>rc fs'. ext2_write_inode (vol (replicate 2304 0)) 2 ihdr_zero = Some (rc, fs')
     \<and> fs_ok rb_buffer fs'
     \<and> inode_view rb_buffer fs' = (if rc = BLOCK_OK
         then (inode_view rb_buffer (vol (replicate 2304 0)))(2 \<mapsto> ihdr_zero)
         else inode_view rb_buffer (vol (replicate 2304 0)))"
proof -
  have "ihdr_ok ihdr_zero"
    by (simp add: ihdr_ok_def ihdr_zero_def ihdr_vals_of length_i_block_of list_all2_conv_all_nth length_ihdr_fields)
  note r = ext2_inode_table_refines [OF ram.fail.failstop_device_axioms vol_device [OF length_replicate] vol_ok this]
  show ?thesis by (rule exE [OF conjunct2 [OF r]], elim exE conjE, intro exI conjI) assumption+
qed

end
