(* ===== verification/Ext2_Map.thy ===== *)
theory Ext2_Map
  imports Ext2_Inode
begin

text \<open>
  The block map of an inode (\<open>kernel/kernel/fs/ext2/helpers.c\<close>): the split of a logical block
  number into slots, the walk through the indirect blocks with the cached one, the allocation of
  a block and of the indirect blocks on the way to it, and the three ways to give blocks back.
  A slot of an indirect block is four bytes, least significant first.
\<close>

section \<open>Slots of an indirect block\<close>

definition get32 :: "u8 list \<Rightarrow> nat \<Rightarrow> nat option" where
  "get32 buf k = (if 4 * k + 4 \<le> length buf then Some (le_val (chunk (4 * k) 4 buf)) else None)"

definition put32 :: "u8 list \<Rightarrow> nat \<Rightarrow> nat \<Rightarrow> u8 list option" where
  "put32 buf k v = (if 4 * k + 4 \<le> length buf then Some (patch (4 * k) (le_bytes 4 v) buf) else None)"

text \<open>The read through the cached indirect block, the read and the store past it.\<close>

definition ext2_indirect_entry :: "'d ext2 \<Rightarrow> nat \<Rightarrow> nat \<Rightarrow> (nat option \<times> 'd ext2) option" where
  "ext2_indirect_entry fs block index =
    (if block = 0 \<or> index \<ge> addrs_per_block fs then Some (None, fs)
     else if block \<ge> blocks_count fs then Some (None, fs)
     else do {
       (fine, fs) \<leftarrow>
         (if cached_indirect_block fs = block then Some (True, fs)
          else if cached_indirect_buf fs = [] then Some (False, fs)
          else do {
            (rc, buf, fs) \<leftarrow> ext2_read_block fs block (cached_indirect_buf fs);
            Some (rc = BLOCK_OK, fs\<lparr>cached_indirect_buf := buf,
              cached_indirect_block := (if rc = BLOCK_OK then block else 0)\<rparr>) });
       if \<not> fine then Some (None, fs)
       else do {
         v \<leftarrow> get32 (cached_indirect_buf fs) index;
         Some (if v = 0 \<or> v \<ge> blocks_count fs then None else Some v, fs) } })"

definition ext2_indirect_peek :: "'d ext2 \<Rightarrow> nat \<Rightarrow> nat \<Rightarrow> (nat option \<times> 'd ext2) option" where
  "ext2_indirect_peek fs block index =
    (if block = 0 \<or> index \<ge> addrs_per_block fs then Some (None, fs)
     else if block \<ge> blocks_count fs then Some (None, fs)
     else case kmalloc_ok fs of (a, fs) \<Rightarrow>
       if \<not> a then Some (None, fs)
       else do {
         (rc, buf, fs) \<leftarrow> ext2_read_block fs block (replicate (bsize fs) 0);
         if rc \<noteq> BLOCK_OK then Some (None, fs)
         else do { v \<leftarrow> get32 buf index; Some (Some v, fs) } })"

definition ext2_indirect_store :: "'d ext2 \<Rightarrow> nat \<Rightarrow> nat \<Rightarrow> nat \<Rightarrow> (int \<times> 'd ext2) option" where
  "ext2_indirect_store fs block index v =
    (if block = 0 \<or> index \<ge> addrs_per_block fs then Some (-1, fs)
     else if block \<ge> blocks_count fs then Some (-1, fs)
     else case kmalloc_ok fs of (a, fs) \<Rightarrow>
       if \<not> a then Some (-1, fs)
       else do {
         (rc, buf, fs) \<leftarrow> ext2_read_block fs block (replicate (bsize fs) 0);
         if rc \<noteq> BLOCK_OK then Some (-1, fs)
         else do {
           buf \<leftarrow> put32 buf index v;
           (rc, fs) \<leftarrow> ext2_write_block fs block buf;
           if rc \<noteq> BLOCK_OK then Some (-1, fs)
           else Some (0, if cached_indirect_block fs = block then fs\<lparr>cached_indirect_block := 0\<rparr> else fs) } })"

section \<open>Logical block numbers\<close>

text \<open>The slot of the inode that roots the walk, and the slots on the way; their number is the
  depth.\<close>

definition ext2_block_slot :: "nat \<Rightarrow> nat \<Rightarrow> (nat \<times> nat list) option" where
  "ext2_block_slot index apb =
    (if index < EXT2_NDIR_BLOCKS then None
     else let index = index - EXT2_NDIR_BLOCKS in
       if index < apb then Some (EXT2_IND_BLOCK, [index])
       else let index = index - apb; dind_span = wrap32 (apb * apb) in
         if index < dind_span then Some (EXT2_DIND_BLOCK, [index div apb, index mod apb])
         else let index = index - dind_span in
           Some (EXT2_TIND_BLOCK, [index div dind_span, index div apb mod apb, index mod apb]))"

primrec map_walk :: "nat list \<Rightarrow> 'd ext2 \<Rightarrow> nat \<Rightarrow> (nat option \<times> 'd ext2) option" where
  "map_walk [] fs container = Some (Some container, fs)"
| "map_walk (s # ss) fs container = do {
     (r, fs) \<leftarrow> ext2_indirect_entry fs container s;
     case r of None \<Rightarrow> Some (None, fs) | Some entry \<Rightarrow> map_walk ss fs entry }"

definition ext2_map_block :: "'d ext2 \<Rightarrow> nat list \<Rightarrow> nat \<Rightarrow> (nat option \<times> 'd ext2) option" where
  "ext2_map_block fs blocks index =
    (if index < EXT2_NDIR_BLOCKS
     then let b = blocks ! index in
       Some (if b = 0 \<or> b \<ge> blocks_count fs then None else Some b, fs)
     else case ext2_block_slot index (addrs_per_block fs) of
       None \<Rightarrow> Some (None, fs)
     | Some (root, slots) \<Rightarrow> map_walk slots fs (blocks ! root))"

section \<open>Giving blocks back\<close>

definition ext2_block_empty :: "'d ext2 \<Rightarrow> nat \<Rightarrow> (bool option \<times> 'd ext2) option" where
  "ext2_block_empty fs block = (case kmalloc_ok fs of (a, fs) \<Rightarrow>
     if \<not> a then Some (None, fs)
     else do {
       (rc, buf, fs) \<leftarrow> ext2_read_block fs block (replicate (bsize fs) 0);
       if rc \<noteq> BLOCK_OK then Some (None, fs)
       else if addrs_per_block fs * 4 > length buf then None
       else Some (Some (\<forall>x\<in>set (take (addrs_per_block fs * 4) buf). x = 0), fs) })"

definition set_slot :: "nat \<Rightarrow> nat \<Rightarrow> ihdr \<Rightarrow> ihdr" where
  "set_slot i b h = h\<lparr>i_block := (i_block h)[i := b]\<rparr>"

text \<open>The containers on the way down, and the block at its end when every slot was mapped;
  \<open>None\<close> in the result is a read that failed.\<close>

primrec slot_path :: "nat list \<Rightarrow> 'd ext2 \<Rightarrow> nat \<Rightarrow> nat list
    \<Rightarrow> ((nat list \<times> nat option) option \<times> 'd ext2) option" where
  "slot_path [] fs container cs = Some (Some (cs, Some container), fs)"
| "slot_path (s # ss) fs container cs =
    (if container = 0 \<or> container \<ge> blocks_count fs then Some (Some (cs, None), fs)
     else do {
       (r, fs) \<leftarrow> ext2_indirect_peek fs container s;
       case r of None \<Rightarrow> Some (None, fs)
       | Some entry \<Rightarrow>
         if entry = 0 then Some (Some (cs @ [container], None), fs)
         else slot_path ss fs entry (cs @ [container]) })"

text \<open>The containers that became empty are freed from the lowest up.\<close>

primrec prune :: "nat \<Rightarrow> nat list \<Rightarrow> nat \<Rightarrow> nat list \<Rightarrow> 'd ext2 \<Rightarrow> ihdr \<Rightarrow> nat
    \<Rightarrow> (int \<times> nat \<times> ihdr \<times> 'd ext2) option" where
  "prune 0 cs root slots fs h fr = Some (0, fr, h, fs)"
| "prune (Suc d) cs root slots fs h fr = do {
     (r, fs) \<leftarrow> ext2_block_empty fs (cs ! d);
     case r of None \<Rightarrow> Some (-1, fr, h, fs)
     | Some False \<Rightarrow> Some (0, fr, h, fs)
     | Some True \<Rightarrow> (case ext2_free_block fs (cs ! d) of (rc, fs) \<Rightarrow>
         if rc \<noteq> 0 then Some (-1, fr, h, fs)
         else if d = 0 then Some (0, wrap32 (fr + 1), set_slot root 0 h, fs)
         else do {
           (rc, fs) \<leftarrow> ext2_indirect_store fs (cs ! (d - 1)) (slots ! (d - 1)) 0;
           if rc \<noteq> 0 then Some (-1, wrap32 (fr + 1), h, fs)
           else prune d cs root slots fs h (wrap32 (fr + 1)) }) }"

definition ext2_free_slot :: "'d ext2 \<Rightarrow> ihdr \<Rightarrow> nat \<Rightarrow> (int \<times> nat \<times> ihdr \<times> 'd ext2) option" where
  "ext2_free_slot fs h index =
    (if index \<ge> blocks_count fs then Some (-1, 0, h, fs)
     else if index < EXT2_NDIR_BLOCKS
     then let b = i_block h ! index in
       if b = 0 \<or> b \<ge> blocks_count fs then Some (0, 0, h, fs)
       else case ext2_free_block fs b of (rc, fs) \<Rightarrow>
         if rc \<noteq> 0 then Some (-1, 0, h, fs) else Some (0, 1, set_slot index 0 h, fs)
     else case ext2_block_slot index (addrs_per_block fs) of
       None \<Rightarrow> Some (-1, 0, h, fs)
     | Some (root, slots) \<Rightarrow> do {
         (r, fs) \<leftarrow> slot_path slots fs (i_block h ! root) [];
         case r of None \<Rightarrow> Some (-1, 0, h, fs)
         | Some (cs, bottom) \<Rightarrow>
           (case bottom of
              Some b \<Rightarrow>
                if b \<noteq> 0 \<and> b < blocks_count fs
                then case ext2_free_block fs b of (rc, fs) \<Rightarrow>
                  if rc \<noteq> 0 then Some (-1, 0, h, fs)
                  else do {
                    (rc, fs) \<leftarrow> ext2_indirect_store fs (last cs) (last slots) 0;
                    if rc \<noteq> 0 then Some (-1, 1, h, fs)
                    else prune (length cs) cs root slots fs h 1 }
                else prune (length cs) cs root slots fs h 0
            | None \<Rightarrow> prune (length cs) cs root slots fs h 0) })"

definition ext2_free_index :: "'d ext2 \<Rightarrow> ihdr \<Rightarrow> nat \<Rightarrow> (int \<times> nat \<times> ihdr \<times> 'd ext2) option" where
  "ext2_free_index fs h index = ext2_free_slot fs h index"

text \<open>
  The recursive release of a range.  \<open>level_loop\<close> goes over the slots \<open>ks\<close> of one indirect block,
  whose bytes are \<open>buf\<close>; \<open>child\<close> is the release of the level below, absent at the lowest.
\<close>

primrec level_loop :: "('d ext2 \<Rightarrow> nat \<Rightarrow> nat \<Rightarrow> nat \<Rightarrow> (int \<times> nat \<times> bool \<times> 'd ext2) option) option
    \<Rightarrow> nat \<Rightarrow> nat \<Rightarrow> nat \<Rightarrow> nat \<Rightarrow> nat list \<Rightarrow> 'd ext2 \<Rightarrow> u8 list \<Rightarrow> nat \<Rightarrow> bool
    \<Rightarrow> (int \<times> nat \<times> bool \<times> u8 list \<times> 'd ext2) option" where
  "level_loop child base stride lo hi [] fs buf fr changed = Some (0, fr, changed, buf, fs)"
| "level_loop child base stride lo hi (k # ks) fs buf fr changed =
    (let idx = base + k * stride in
     if idx > hi then Some (0, fr, changed, buf, fs)
     else do {
       entry \<leftarrow> get32 buf k;
       if entry = 0 then level_loop child base stride lo hi ks fs buf fr changed
       else do {
         (rc, fr, gone, fs) \<leftarrow> (case child of
             None \<Rightarrow> Some (0, fr, idx \<ge> lo, fs)
           | Some below \<Rightarrow> below fs entry (wrap32 idx) fr);
         if rc \<noteq> 0 then Some (-1, fr, changed, buf, fs)
         else if \<not> gone then level_loop child base stride lo hi ks fs buf fr changed
         else case ext2_free_block fs entry of (rc, fs) \<Rightarrow>
           if rc \<noteq> 0 then Some (-1, fr, changed, buf, fs)
           else do {
             buf \<leftarrow> put32 buf k 0;
             level_loop child base stride lo hi ks fs buf (wrap32 (fr + 1)) True } } })"

definition level_block :: "('d ext2 \<Rightarrow> nat \<Rightarrow> nat \<Rightarrow> nat \<Rightarrow> (int \<times> nat \<times> bool \<times> 'd ext2) option) option
    \<Rightarrow> 'd ext2 \<Rightarrow> nat \<Rightarrow> nat \<Rightarrow> nat \<Rightarrow> nat \<Rightarrow> nat \<Rightarrow> nat \<Rightarrow> (int \<times> nat \<times> bool \<times> 'd ext2) option" where
  "level_block child fs container base stride lo hi fr =
    (case kmalloc_ok fs of (a, fs) \<Rightarrow>
     if \<not> a then Some (-1, fr, False, fs)
     else do {
       (rc, buf, fs) \<leftarrow> ext2_read_block fs container (replicate (bsize fs) 0);
       if rc \<noteq> BLOCK_OK then Some (-1, fr, False, fs)
       else do {
         (rc, fr, changed, buf, fs) \<leftarrow>
           level_loop child base stride lo hi [0..<addrs_per_block fs] fs buf fr False;
         if rc \<noteq> 0 then Some (-1, fr, False, fs)
         else do {
           (rc, fs) \<leftarrow> (if changed then ext2_write_block fs container buf else Some (BLOCK_OK, fs));
           if rc \<noteq> BLOCK_OK then Some (-1, fr, False, fs)
           else if 4 * addrs_per_block fs > length buf then None
           else Some (0, fr, \<forall>k<addrs_per_block fs. get32 buf k = Some 0, fs) } } })"

primrec ext2_free_level :: "nat \<Rightarrow> nat \<Rightarrow> nat \<Rightarrow> 'd ext2 \<Rightarrow> nat \<Rightarrow> nat \<Rightarrow> nat \<Rightarrow> nat
    \<Rightarrow> (int \<times> nat \<times> bool \<times> 'd ext2) option" where
  "ext2_free_level 0 lo hi fs container base stride fr =
     level_block None fs container base stride lo hi fr"
| "ext2_free_level (Suc d) lo hi fs container base stride fr =
     level_block (Some (\<lambda>f entry idx fr. ext2_free_level d lo hi f entry idx
         (if Suc d = 2 then addrs_per_block f else 1) fr))
       fs container base stride lo hi fr"

primrec free_direct :: "nat list \<Rightarrow> 'd ext2 \<Rightarrow> ihdr \<Rightarrow> nat \<Rightarrow> int \<times> nat \<times> ihdr \<times> 'd ext2" where
  "free_direct [] fs h fr = (0, fr, h, fs)"
| "free_direct (i # is) fs h fr =
    (let b = i_block h ! i in
     if b = 0 \<or> b \<ge> blocks_count fs then free_direct is fs h fr
     else case ext2_free_block fs b of (rc, fs) \<Rightarrow>
       if rc \<noteq> 0 then (-1, fr, h, fs)
       else free_direct is fs (set_slot i 0 h) (wrap32 (fr + 1)))"

primrec free_levels :: "(nat \<times> nat \<times> nat \<times> nat) list \<Rightarrow> nat \<Rightarrow> nat \<Rightarrow> 'd ext2 \<Rightarrow> ihdr \<Rightarrow> nat
    \<Rightarrow> (int \<times> nat \<times> ihdr \<times> 'd ext2) option" where
  "free_levels [] lo hi fs h fr = Some (0, fr, h, fs)"
| "free_levels (l # ls) lo hi fs h fr =
    (case l of (root, base, stride, depth) \<Rightarrow> let container = i_block h ! root in
     if container = 0 \<or> container \<ge> blocks_count fs then free_levels ls lo hi fs h fr
     else do {
       (rc, fr, emptied, fs) \<leftarrow> ext2_free_level depth lo hi fs container base stride fr;
       if rc \<noteq> 0 then Some (-1, fr, h, fs)
       else if \<not> emptied then free_levels ls lo hi fs h fr
       else case ext2_free_block fs container of (rc, fs) \<Rightarrow>
         if rc \<noteq> 0 then Some (-1, fr, h, fs)
         else free_levels ls lo hi fs (set_slot root 0 h) (wrap32 (fr + 1)) })"

definition block_levels :: "nat \<Rightarrow> (nat \<times> nat \<times> nat \<times> nat) list" where
  "block_levels apb =
    [(EXT2_IND_BLOCK, EXT2_NDIR_BLOCKS, 1, 0),
     (EXT2_DIND_BLOCK, wrap32 (EXT2_NDIR_BLOCKS + apb), apb, 1),
     (EXT2_TIND_BLOCK, wrap32 (EXT2_NDIR_BLOCKS + apb + apb * apb), wrap32 (apb * apb), 2)]"

definition ext2_free_blocks_from :: "'d ext2 \<Rightarrow> ihdr \<Rightarrow> nat \<Rightarrow> nat \<Rightarrow> (int \<times> nat \<times> ihdr \<times> 'd ext2) option" where
  "ext2_free_blocks_from fs h lo hi =
    (if lo > hi then Some (0, 0, h, fs)
     else case free_direct [lo..<min EXT2_NDIR_BLOCKS (hi + 1)] fs h 0 of (rc, fr, h, fs) \<Rightarrow>
       if rc \<noteq> 0 then Some (-1, fr, h, fs)
       else free_levels (block_levels (addrs_per_block fs)) lo hi fs h fr)"

section \<open>Allocating on the way\<close>

text \<open>The walk that allocates what is missing; \<open>None\<close> in the result is the jump to the rollback.\<close>

primrec alloc_walk :: "nat list \<Rightarrow> 'd ext2 \<Rightarrow> ihdr \<Rightarrow> nat \<Rightarrow> (nat option \<times> ihdr \<times> 'd ext2) option" where
  "alloc_walk [] fs h container = Some (Some container, h, fs)"
| "alloc_walk (s # ss) fs h container = do {
     (r, fs) \<leftarrow> ext2_indirect_peek fs container s;
     case r of None \<Rightarrow> Some (None, h, fs)
     | Some entry \<Rightarrow>
       if entry \<noteq> 0 then alloc_walk ss fs h entry
       else do {
         (nb, fs) \<leftarrow> ext2_alloc_block fs;
         case nb of None \<Rightarrow> Some (None, h, fs)
         | Some nb \<Rightarrow> do {
             (rc, fs) \<leftarrow> ext2_indirect_store fs container s nb;
             if rc \<noteq> 0 then Some (None, h, snd (ext2_free_block fs nb))
             else alloc_walk ss fs (h\<lparr>i_blocks := wrap32 (i_blocks h + ext2_sectors_per_block fs)\<rparr>) nb } } }"

definition claim_slot :: "nat \<Rightarrow> nat \<Rightarrow> 'd ext2 \<Rightarrow> ihdr \<Rightarrow> ihdr" where
  "claim_slot i nb fs h =
    (set_slot i nb h)\<lparr>i_blocks := wrap32 (i_blocks h + ext2_sectors_per_block fs)\<rparr>"

definition ext2_map_block_alloc :: "'d ext2 \<Rightarrow> ihdr \<Rightarrow> nat \<Rightarrow> (nat option \<times> ihdr \<times> 'd ext2) option" where
  "ext2_map_block_alloc fs h index =
    (if index < EXT2_NDIR_BLOCKS
     then if i_block h ! index \<noteq> 0 then Some (Some (i_block h ! index), h, fs)
       else do {
         (nb, fs) \<leftarrow> ext2_alloc_block fs;
         case nb of None \<Rightarrow> Some (None, h, fs)
         | Some nb \<Rightarrow> Some (Some nb, claim_slot index nb fs h, fs) }
     else case ext2_block_slot index (addrs_per_block fs) of
       None \<Rightarrow> Some (None, h, fs)
     | Some (root, slots) \<Rightarrow> do {
         (c, h, fs) \<leftarrow>
           (if i_block h ! root \<noteq> 0 then Some (Some (i_block h ! root), h, fs)
            else do {
              (nb, fs) \<leftarrow> ext2_alloc_block fs;
              case nb of None \<Rightarrow> Some (None, h, fs)
              | Some nb \<Rightarrow> Some (Some nb, claim_slot root nb fs h, fs) });
         case c of None \<Rightarrow> Some (None, h, fs)
         | Some container \<Rightarrow> do {
             (r, h, fs) \<leftarrow> alloc_walk slots fs h container;
             case r of Some b \<Rightarrow> Some (Some b, h, fs)
             | None \<Rightarrow> do {
                 (rc, fr, h, fs) \<leftarrow> ext2_free_slot fs h index;
                 Some (None, if rc = 0
                   then h\<lparr>i_blocks := wrap32 (i_blocks h + 4294967296 - wrap32 (fr * ext2_sectors_per_block fs))\<rparr>
                   else h, fs) } } })"

section \<open>The split is a bijection\<close>

text \<open>The logical block that the root and the slots stand for.\<close>

definition slot_index :: "nat \<Rightarrow> nat \<Rightarrow> nat list \<Rightarrow> nat" where
  "slot_index apb root slots =
    (if root = EXT2_IND_BLOCK then 12 + slots ! 0
     else if root = EXT2_DIND_BLOCK then 12 + apb + slots ! 0 * apb + slots ! 1
     else 12 + apb + apb * apb + slots ! 0 * (apb * apb) + slots ! 1 * apb + slots ! 2)"

definition slots_of :: "nat \<Rightarrow> nat \<Rightarrow> nat list \<Rightarrow> bool" where
  "slots_of apb root slots \<longleftrightarrow> root \<in> {12, 13, 14} \<and> length slots = root - 11 \<and> (\<forall>s\<in>set slots. s < apb)"

definition max_blocks :: "nat \<Rightarrow> nat" where "max_blocks apb = 12 + apb + apb * apb + apb * apb * apb"

lemma apb_square: "apb \<le> 1024 \<Longrightarrow> wrap32 (apb * apb) = apb * apb"
  using mult_le_mono [of apb 1024 apb 1024] by (intro wrap32_id) simp

lemma split3: "(a :: nat) div (n * n) * (n * n) + a div n mod n * n + a mod n = a"
proof -
  define x y z where "x = a div n div n" and "y = a div n mod n" and "z = a mod n"
  have "x * n + y = a div n" "a div n * n + z = a" by (simp_all add: x_def y_def z_def)
  then have "(x * n + y) * n + z = a" by simp
  then have "x * (n * n) + y * n + z = a" by (simp add: distrib_right mult.assoc)
  then show ?thesis by (simp add: div_mult2_eq x_def y_def z_def)
qed

lemma block_slot_index:
  assumes "0 < apb" "apb \<le> 1024" "12 \<le> index"
  obtains root slots where "ext2_block_slot index apb = Some (root, slots)" "slot_index apb root slots = index"
    "root \<in> {12, 13, 14}" "length slots = root - 11" "\<forall>s\<in>set (tl slots). s < apb"
    "index < max_blocks apb \<Longrightarrow> \<forall>s\<in>set slots. s < apb"
proof -
  note sq = apb_square [OF assms(2)]
  define a where "a = index - 12"
  define b where "b = a - apb"
  define c where "c = b - apb * apb"
  have run: "ext2_block_slot index apb = (if a < apb then Some (12, [a])
      else if b < apb * apb then Some (13, [b div apb, b mod apb])
      else Some (14, [c div (apb * apb), c div apb mod apb, c mod apb]))"
    using assms(3) by (simp add: ext2_block_slot_def sq Let_def a_def b_def c_def EXT2_NDIR_BLOCKS_def
        EXT2_IND_BLOCK_def EXT2_DIND_BLOCK_def EXT2_TIND_BLOCK_def)
  consider "a < apb" | "\<not> a < apb" "b < apb * apb" | "\<not> a < apb" "\<not> b < apb * apb" by linarith
  then show ?thesis
  proof cases
    case 1
    then show ?thesis using assms(3) run
      by (intro that [of 12 "[a]"]) (simp_all add: slot_index_def a_def EXT2_IND_BLOCK_def)
  next
    case 2
    then have "b div apb < apb" using assms(1) by (simp add: div_less_iff_less_mult)
    then show ?thesis using 2 assms(1,3) run
      by (intro that [of 13 "[b div apb, b mod apb]"])
        (simp_all add: slot_index_def a_def b_def EXT2_IND_BLOCK_def EXT2_DIND_BLOCK_def)
  next
    case 3
    have "c div (apb * apb) < apb" if "index < max_blocks apb"
      using that 3 assms(1) by (simp add: div_less_iff_less_mult max_blocks_def a_def b_def c_def algebra_simps)
    then show ?thesis using 3 assms(1,3) run split3 [of c apb]
      by (intro that [of 14 "[c div (apb * apb), c div apb mod apb, c mod apb]"])
        (simp_all add: slot_index_def a_def b_def c_def EXT2_IND_BLOCK_def EXT2_DIND_BLOCK_def)
  qed
qed

lemma slot_of_index:
  assumes "0 < apb" "apb \<le> 1024" "slots_of apb root slots"
  shows "ext2_block_slot (slot_index apb root slots) apb = Some (root, slots)"
    "12 \<le> slot_index apb root slots" "slot_index apb root slots < max_blocks apb"
proof -
  note sq = apb_square [OF assms(2)]
  have defs: "EXT2_NDIR_BLOCKS = 12" "EXT2_IND_BLOCK = 12" "EXT2_DIND_BLOCK = 13" "EXT2_TIND_BLOCK = 14"
    by (simp_all add: EXT2_NDIR_BLOCKS_def EXT2_IND_BLOCK_def EXT2_DIND_BLOCK_def EXT2_TIND_BLOCK_def)
  have two: "x * apb + y < apb * apb" if "x < apb" "y < apb" for x y
  proof -
    have "x * apb + y < Suc x * apb" using that by simp
    also have "\<dots> \<le> apb * apb" using that by (intro mult_le_mono1) simp
    finally show ?thesis .
  qed
  consider (ind) s where "root = 12" "slots = [s]" "s < apb"
    | (dind) s t where "root = 13" "slots = [s, t]" "s < apb" "t < apb"
    | (tind) s t u where "root = 14" "slots = [s, t, u]" "s < apb" "t < apb" "u < apb"
    using assms(3) by (auto simp: slots_of_def length_Suc_conv numeral_eq_Suc)
  then have "ext2_block_slot (slot_index apb root slots) apb = Some (root, slots)
      \<and> 12 \<le> slot_index apb root slots \<and> slot_index apb root slots < max_blocks apb"
  proof cases
    case ind
    then show ?thesis by (simp add: ext2_block_slot_def slot_index_def defs Let_def max_blocks_def)
  next
    case dind
    then show ?thesis using two [OF dind(3,4)] assms(1)
      by (simp add: ext2_block_slot_def slot_index_def defs Let_def sq max_blocks_def)
  next
    case tind
    define n where "n = s * (apb * apb) + (t * apb + u)"
    have t: "t * apb + u < apb * apb" by (rule two [OF tind(4,5)])
    then have d: "n div (apb * apb) = s" using assms(1) by (simp add: n_def)
    have "n = (s * apb + t) * apb + u" by (simp add: n_def algebra_simps)
    then have m: "n div apb = s * apb + t" "n mod apb = u" using tind(5) by simp_all
    have "Suc s * (apb * apb) \<le> apb * (apb * apb)" by (intro mult_le_mono1) (use tind(3) in simp)
    then have lt: "n < apb * apb * apb" unfolding n_def using t by simp
    have e: "slot_index apb root slots = 12 + apb + apb * apb + n"
      using tind by (simp add: slot_index_def defs n_def)
    have "ext2_block_slot (12 + apb + apb * apb + n) apb
        = Some (14, [n div (apb * apb), n div apb mod apb, n mod apb])"
      by (simp add: ext2_block_slot_def defs Let_def sq)
    then show ?thesis unfolding e using lt d m tind by (simp add: max_blocks_def)
  qed
  then show "ext2_block_slot (slot_index apb root slots) apb = Some (root, slots)"
    "12 \<le> slot_index apb root slots" "slot_index apb root slots < max_blocks apb" by auto
qed

text \<open>C37: The split of a logical block number into a root and slots is a bijection: for every
  block size up to 4096 (1024 addresses per block) the logical blocks behind the direct ones, up
  to the largest file, correspond one to one to the roots with as many slots as their depth, all
  inside an indirect block.\<close>

theorem ext2_block_slot_bijective:
  assumes "0 < apb" "apb \<le> 1024"
  shows "bij_betw (\<lambda>index. the (ext2_block_slot index apb)) {12..<max_blocks apb}
      {(root, slots). slots_of apb root slots}
    \<and> (\<forall>index<12. ext2_block_slot index apb = None)"
proof
  show "\<forall>index<12. ext2_block_slot index apb = None"
    by (simp add: ext2_block_slot_def EXT2_NDIR_BLOCKS_def)
  have f: "the (ext2_block_slot i apb) \<in> {(root, slots). slots_of apb root slots}
      \<and> (\<lambda>(r, ss). slot_index apb r ss) (the (ext2_block_slot i apb)) = i" if "i \<in> {12..<max_blocks apb}" for i
  proof -
    from that have i: "12 \<le> i" "i < max_blocks apb" by simp_all
    from block_slot_index [OF assms i(1)] obtain root slots where "ext2_block_slot i apb = Some (root, slots)"
      "slot_index apb root slots = i" "root \<in> {12, 13, 14}" "length slots = root - 11" "\<forall>s\<in>set slots. s < apb"
      using i(2) by metis
    then show ?thesis by (simp add: slots_of_def)
  qed
  show "bij_betw (\<lambda>index. the (ext2_block_slot index apb)) {12..<max_blocks apb}
      {(root, slots). slots_of apb root slots}"
    by (rule bij_betw_byWitness [where f' = "\<lambda>(r, ss). slot_index apb r ss"])
      (use f slot_of_index [OF assms] in \<open>force+\<close>)
qed

theorem ext2_block_slot_bijective_witness:
  "bij_betw (\<lambda>index. the (ext2_block_slot index 256)) {12..<max_blocks 256}
    {(root, slots). slots_of 256 root slots}"
  using ext2_block_slot_bijective [of 256] by simp

end
