(* ===== verification/Ext2_Tree.thy ===== *)
theory Ext2_Tree
  imports Ext2_Map
begin

text \<open>
  The block map of a file as a tree on the disk: \<open>node_from\<close> follows slots through indirect blocks
  as their bytes are on the volume, \<open>bmap\<close> is the map from logical blocks to blocks.
  \<open>ext2_map_block\<close> computes it through its cached indirect block, as long as that copy is the
  block on the disk (\<open>ind_ok\<close>).
\<close>

section \<open>The tree\<close>

definition ind_entry :: "('d \<Rightarrow> u8 list) \<Rightarrow> 'd ext2 \<Rightarrow> nat \<Rightarrow> nat \<Rightarrow> nat" where
  "ind_entry content fs c s = le_val (chunk (4 * s) 4 (blk content fs c))"

definition is_block :: "'d ext2 \<Rightarrow> nat \<Rightarrow> bool" where
  "is_block fs b \<longleftrightarrow> 0 < b \<and> b < blocks_count fs"

primrec node_from :: "('d \<Rightarrow> u8 list) \<Rightarrow> 'd ext2 \<Rightarrow> nat \<Rightarrow> nat list \<Rightarrow> nat option" where
  "node_from content fs c [] = (if is_block fs c then Some c else None)"
| "node_from content fs c (s # ss) =
    (if is_block fs c \<and> s < addrs_per_block fs then node_from content fs (ind_entry content fs c s) ss else None)"

definition bmap :: "('d \<Rightarrow> u8 list) \<Rightarrow> 'd ext2 \<Rightarrow> nat list \<Rightarrow> nat \<Rightarrow> nat option" where
  "bmap content fs blocks index =
    (if index < EXT2_NDIR_BLOCKS then node_from content fs (blocks ! index) []
     else case ext2_block_slot index (addrs_per_block fs) of None \<Rightarrow> None
     | Some (root, slots) \<Rightarrow> node_from content fs (blocks ! root) slots)"

definition apb_ok :: "'d ext2 \<Rightarrow> bool" where
  "apb_ok fs \<longleftrightarrow> 4 * addrs_per_block fs = bsize fs \<and> 0 < addrs_per_block fs \<and> addrs_per_block fs \<le> 1024"

text \<open>The cached indirect block is the one on the disk.\<close>

definition ind_ok :: "('d \<Rightarrow> u8 list) \<Rightarrow> 'd ext2 \<Rightarrow> bool" where
  "ind_ok content fs \<longleftrightarrow> length (cached_indirect_buf fs) = bsize fs \<and> (cached_indirect_block fs \<noteq> 0 \<longrightarrow>
     cached_indirect_buf fs = blk content fs (cached_indirect_block fs))"

section \<open>Steps that leave the volume alone\<close>

definition dirc_of :: "'d ext2 \<Rightarrow> (u8 list \<times> nat \<times> nat \<times> nat \<times> nat list) \<times> nat list" where
  "dirc_of fs = ((dir_buf fs, cached_dir_inode fs, cached_dir_block fs, cached_dir_size fs, cached_dir_blocks fs),
     inode_list fs)"

definition still :: "('d \<Rightarrow> u8 list) \<Rightarrow> 'd ext2 \<Rightarrow> 'd ext2 \<Rightarrow> bool" where
  "still content fs fs' \<longleftrightarrow> quiet content fs fs' \<and> icache_of fs' = icache_of fs \<and> dirc_of fs' = dirc_of fs
     \<and> e_dev fs' = e_dev fs"

lemma stillD:
  assumes "still content fs fs'"
  shows "quiet content fs fs'" "icache_of fs' = icache_of fs" "dirc_of fs' = dirc_of fs"
    "lay fs' = lay fs" "mount_of fs' = mount_of fs" "pending_free fs' = pending_free fs"
    "get_bm s fs' = get_bm s fs" "blk content fs' = blk content fs"
    "bsize fs' = bsize fs" "blocks_count fs' = blocks_count fs" "addrs_per_block fs' = addrs_per_block fs"
    "e_dev fs' = e_dev fs"
proof -
  show q: "quiet content fs fs'" and "icache_of fs' = icache_of fs" "dirc_of fs' = dirc_of fs" "e_dev fs' = e_dev fs"
    using assms by (simp_all add: still_def)
  note d = quietD [OF q]
  show "lay fs' = lay fs" "mount_of fs' = mount_of fs" "pending_free fs' = pending_free fs"
    "get_bm s fs' = get_bm s fs" "blk content fs' = blk content fs" using d by simp_all
  show "bsize fs' = bsize fs" "blocks_count fs' = blocks_count fs" by (rule lay_fields [OF d(1)])+
  show "addrs_per_block fs' = addrs_per_block fs" by (rule mount_fields [OF d(2)])
qed

lemma still_refl [simp]: "still content fs fs" by (simp add: still_def)

lemma still_trans: "still content a b \<Longrightarrow> still content b c \<Longrightarrow> still content a c"
  unfolding still_def using quiet_trans [of content a b c] by simp

lemma still_ok:
  assumes "fs_ok content fs" "still content fs fs'"
  shows "fs_ok content fs'"
proof (rule quiet_ok [OF assms(1) stillD(1) [OF assms(2)]])
  show "icache_ok content fs'"
    using fs_okD(6-8) [OF assms(1)] stillD(2) [OF assms(2)] quiet_view [OF assms(1) stillD(1) [OF assms(2)]]
    by (simp add: icache_ok_def icache_of_def)
qed

lemma same_still:
  assumes "same_but_dev fs fs'" "e_dev fs' = e_dev fs"
  shows "still content fs fs'"
  using same_quiet [OF assms, of content] same_lay [OF assms(1)] rest_mount [of fs' fs] assms(2)
  by (simp add: still_def rest_of_def dirc_of_def)

lemma ind_fields:
  "still content fs (fs\<lparr>cached_indirect_buf := b, cached_indirect_block := c\<rparr>)"
  "still content fs (fs\<lparr>cached_indirect_block := c\<rparr>)"
  "on_device rd wr good (fs\<lparr>cached_indirect_buf := b\<rparr>) = on_device rd wr good fs"
  "on_device rd wr good (fs\<lparr>cached_indirect_block := c\<rparr>) = on_device rd wr good fs"
proof -
  have "get_bm s (fs\<lparr>cached_indirect_buf := b, cached_indirect_block := c\<rparr>) = get_bm s fs"
    "get_bm s (fs\<lparr>cached_indirect_block := c\<rparr>) = get_bm s fs" for s by (cases s; simp)+
  then show "still content fs (fs\<lparr>cached_indirect_buf := b, cached_indirect_block := c\<rparr>)"
    "still content fs (fs\<lparr>cached_indirect_block := c\<rparr>)"
    by (simp_all add: still_def quiet_def lay_def mount_of_def icache_of_def dirc_of_def blk_def fun_eq_iff)
qed (simp_all add: on_device_def)

lemma node_frame:
  assumes "still content fs fs'"
  shows "is_block fs' c = is_block fs c" "ind_entry content fs' = ind_entry content fs"
    "node_from content fs' c ss = node_from content fs c ss" "bmap content fs' bs i = bmap content fs bs i"
    "apb_ok fs' = apb_ok fs"
proof -
  note d = stillD [OF assms]
  show ib: "is_block fs' c = is_block fs c" for c by (simp add: is_block_def d)
  show ie: "ind_entry content fs' = ind_entry content fs" by (simp add: ind_entry_def d fun_eq_iff)
  show nf: "node_from content fs' c ss = node_from content fs c ss" for c ss
    by (induction ss arbitrary: c) (simp_all add: ib ie d)
  show "bmap content fs' bs i = bmap content fs bs i"
    by (simp add: bmap_def nf d del: node_from.simps split: option.splits)
  show "apb_ok fs' = apb_ok fs" by (simp add: apb_ok_def d)
qed

section \<open>The walk\<close>

text \<open>Whether no transfer of a whole block fails.\<close>

definition readable :: "'d ext2 \<Rightarrow> bool" where
  "readable fs \<longleftrightarrow> (\<forall>f b buf. e_dev f = e_dev fs \<and> bsize f = bsize fs \<and> blocks_count f = blocks_count fs
     \<and> b < blocks_count f \<and> length buf = bsize f
     \<longrightarrow> (\<exists>buf' f'. ext2_read_block f b buf = Some (BLOCK_OK, buf', f')))"

lemma readable_still: "still content fs fs' \<Longrightarrow> readable fs' = readable fs"
  unfolding readable_def by (simp add: stillD(9,10,12) [of content fs fs'])

lemma readableD:
  "readable fs \<Longrightarrow> ext2_read_block fs b buf = Some (rc, buf', f) \<Longrightarrow> b < blocks_count fs \<Longrightarrow> length buf = bsize fs
   \<Longrightarrow> rc = BLOCK_OK"
  unfolding readable_def by fastforce

lemma get32_entry:
  assumes "length buf = bsize fs" "apb_ok fs" "s < addrs_per_block fs"
  shows "get32 buf s = Some (le_val (chunk (4 * s) 4 buf))"
  using assms by (simp add: get32_def apb_ok_def)

context failstop_device
begin

lemma indirect_entry_ok:
  assumes a: "at fs" and io: "ind_ok content fs" and ap: "apb_ok fs"
  shows "\<exists>r fs'. ext2_indirect_entry fs c s = Some (r, fs') \<and> at fs' \<and> still content fs fs' \<and> ind_ok content fs'
    \<and> (case r of None \<Rightarrow> readable fs \<longrightarrow> \<not> (is_block fs c \<and> s < addrs_per_block fs \<and> is_block fs (ind_entry content fs c s))
       | Some v \<Rightarrow> is_block fs c \<and> s < addrs_per_block fs \<and> v = ind_entry content fs c s \<and> is_block fs v)"
proof (cases "c = 0 \<or> s \<ge> addrs_per_block fs \<or> c \<ge> blocks_count fs")
  case True
  then show ?thesis using a io by (auto simp: ext2_indirect_entry_def is_block_def)
next
  case False
  then have c: "is_block fs c" "s < addrs_per_block fs" by (simp_all add: is_block_def)
  have ne: "cached_indirect_buf fs \<noteq> []" using io a by (auto simp: ind_ok_def on_device_def)
  have done': ?thesis
    if run: "ext2_indirect_entry fs c s = do { v \<leftarrow> get32 (cached_indirect_buf f) s;
        Some (if v = 0 \<or> v \<ge> blocks_count f then None else Some v, f) }"
      and f: "at f" "still content fs f" "ind_ok content f" "cached_indirect_block f = c" for f
  proof -
    note sd = stillD [OF f(2)]
    have lb: "length (cached_indirect_buf f) = bsize fs" using f(3) sd(9) by (simp add: ind_ok_def)
    have b: "cached_indirect_buf f = blk content fs c"
      using f(3,4) c(1) sd(8) by (simp add: ind_ok_def is_block_def)
    have "get32 (cached_indirect_buf f) s = Some (ind_entry content fs c s)"
      using get32_entry [OF lb ap c(2)] b by (simp add: ind_entry_def)
    then show ?thesis using run f c sd by (auto simp: is_block_def)
  qed
  show ?thesis
  proof (cases "cached_indirect_block fs = c")
    case True
    have "ext2_indirect_entry fs c s = do { v \<leftarrow> get32 (cached_indirect_buf fs) s;
        Some (if v = 0 \<or> v \<ge> blocks_count fs then None else Some v, fs) }"
      using False True by (simp add: ext2_indirect_entry_def)
    then show ?thesis by (rule done' [OF _ a still_refl io True])
  next
    case ca: False
    have lb: "length (cached_indirect_buf fs) = bsize fs" using io by (simp add: ind_ok_def)
    from read_block_ok [OF a lb, of c] obtain rc buf f where r:
      "ext2_read_block fs c (cached_indirect_buf fs) = Some (rc, buf, f)" "same_but_dev fs f" "e_dev f = e_dev fs"
      "at f" "length buf = bsize fs" "rc = BLOCK_OK \<longrightarrow> buf = blk content fs c" by blast
    define k where "k = (if rc = BLOCK_OK then c else 0)"
    define g where "g = f\<lparr>cached_indirect_buf := buf, cached_indirect_block := k\<rparr>"
    have st: "still content fs g"
      unfolding g_def by (rule still_trans [OF same_still [OF r(2,3)] ind_fields(1)])
    note sd = stillD [OF st]
    have ag: "at g" using r(4) unfolding g_def ind_fields .
    have fl: "cached_indirect_buf g = buf" "cached_indirect_block g = k" by (simp_all add: g_def)
    have ig: "ind_ok content g" using r(5,6) sd by (simp add: ind_ok_def fl k_def)
    have run: "ext2_indirect_entry fs c s = (if rc \<noteq> BLOCK_OK then Some (None, g)
        else do { v \<leftarrow> get32 (cached_indirect_buf g) s;
          Some (if v = 0 \<or> v \<ge> blocks_count g then None else Some v, g) })"
      unfolding ext2_indirect_entry_def using False ca ne r(1) by (simp add: g_def k_def)
    show ?thesis
    proof (cases "rc = BLOCK_OK")
      case True
      show ?thesis by (rule done' [OF _ ag st ig]) (use run True in \<open>simp_all add: fl k_def\<close>)
    next
      case False
      have "b < blocks_count fs \<longleftrightarrow> True" if "b = c" for b using c(1) that by (simp add: is_block_def)
      then have "\<not> readable fs" using readableD [OF _ r(1) _ lb] False by auto
      then show ?thesis using run ag st ig False by simp
    qed
  qed
qed

lemma map_walk_ok:
  assumes "at fs" "ind_ok content fs" "apb_ok fs" "ss \<noteq> [] \<or> is_block fs c"
  shows "\<exists>r fs'. map_walk ss fs c = Some (r, fs') \<and> at fs' \<and> still content fs fs' \<and> ind_ok content fs'
    \<and> (r = node_from content fs c ss \<or> r = None \<and> \<not> readable fs)"
  using assms
proof (induction ss arbitrary: fs c)
  case Nil
  then show ?case by simp
next
  case (Cons s ss)
  from indirect_entry_ok [OF Cons.prems(1-3), of c s] obtain r f where r:
    "ext2_indirect_entry fs c s = Some (r, f)" "at f" "still content fs f" "ind_ok content f"
    "case r of None \<Rightarrow> readable fs \<longrightarrow> \<not> (is_block fs c \<and> s < addrs_per_block fs \<and> is_block fs (ind_entry content fs c s))
       | Some v \<Rightarrow> is_block fs c \<and> s < addrs_per_block fs \<and> v = ind_entry content fs c s \<and> is_block fs v" by blast
  show ?case
  proof (cases r)
    case None
    have "readable fs \<Longrightarrow> node_from content fs c (s # ss) = None"
      using r(5) None by (cases ss) auto
    then show ?thesis using r(1-4) None by auto
  next
    case (Some v)
    note nf = node_frame [OF r(3)]
    have v: "is_block fs c" "s < addrs_per_block fs" "v = ind_entry content fs c s" "is_block f v"
      using r(5) Some nf(1) by auto
    have "apb_ok f" using Cons.prems(3) nf by simp
    from Cons.IH [OF r(2,4) this] v(4) obtain r2 g where g: "map_walk ss f v = Some (r2, g)" "at g"
      "still content f g" "ind_ok content g"
      "r2 = node_from content f v ss \<or> r2 = None \<and> \<not> readable f" by blast
    have "map_walk (s # ss) fs c = Some (r2, g)" using r(1) Some g(1) by simp
    then show ?thesis using g still_trans [OF r(3) g(3)] v nf(3) readable_still [OF r(3)] by auto
  qed
qed

lemma map_block_ok:
  assumes a: "at fs" and io: "ind_ok content fs" and ap: "apb_ok fs"
  shows "\<exists>r fs'. ext2_map_block fs bs index = Some (r, fs') \<and> at fs' \<and> still content fs fs' \<and> ind_ok content fs'
    \<and> (r = bmap content fs bs index \<or> r = None \<and> \<not> readable fs)"
proof (cases "index < EXT2_NDIR_BLOCKS")
  case True
  then show ?thesis using a io by (auto simp: ext2_map_block_def bmap_def is_block_def Let_def)
next
  case False
  then have i: "12 \<le> index" by (simp add: EXT2_NDIR_BLOCKS_def)
  have "0 < addrs_per_block fs" "addrs_per_block fs \<le> 1024" using ap by (simp_all add: apb_ok_def)
  from block_slot_index [OF this i] obtain root slots where sl:
    "ext2_block_slot index (addrs_per_block fs) = Some (root, slots)" "root \<in> {12, 13, 14}" "length slots = root - 11"
    by blast
  then have "slots \<noteq> []" by auto
  from map_walk_ok [OF a io ap disjI1 [OF this], of "bs ! root"] show ?thesis
    using False sl(1) by (simp add: ext2_map_block_def bmap_def)
qed

end

end
