(* ===== verification/Ext2_File.thy ===== *)
theory Ext2_File
  imports Ext2_Tree
begin

text \<open>
  Regular files of ext2 (\<open>kernel/kernel/fs/ext2/ext2.c\<close>): the clock, attributes, opening, reading,
  writing and resizing.  \<open>cs\<close> is what \<open>walltime_cs\<close> returns at the call of \<open>ext2_now\<close>, in
  hundredths of a second.  An inode object of the name registry is represented by the number of
  the on-disk inode in its \<open>impl\<close>; \<open>None\<close> is an object without one, or one of another mount.
\<close>

section \<open>Time\<close>

definition ext2_now :: "int \<Rightarrow> nat" where
  "ext2_now cs = (if cs \<le> 0 then 0 else let secs = nat cs div 100 in
     if secs > 4294967295 then 4294967295 else secs)"

definition ext2_stamp :: "int \<Rightarrow> bool \<Rightarrow> bool \<Rightarrow> bool \<Rightarrow> ihdr \<Rightarrow> ihdr" where
  "ext2_stamp cs atime mtime ctime h = (let now = ext2_now cs;
     h = (if atime then h\<lparr>i_atime := now\<rparr> else h);
     h = (if mtime then h\<lparr>i_mtime := now\<rparr> else h)
     in if ctime then h\<lparr>i_ctime := now\<rparr> else h)"

definition ext2_touch_atime :: "int \<Rightarrow> 'd ext2 \<Rightarrow> nat \<Rightarrow> ihdr \<Rightarrow> (ihdr \<times> 'd ext2) option" where
  "ext2_touch_atime cs fs inum h =
    (if read_only fs then Some (h, fs)
     else let now = ext2_now cs in
       if i_atime h = now then Some (h, fs)
       else let h = h\<lparr>i_atime := now\<rparr> in do {
         (_, fs) \<leftarrow> ext2_write_inode fs inum h;
         Some (h, fs) })"

definition ext2_time_from_centis :: "int \<Rightarrow> int \<times> nat" where
  "ext2_time_from_centis centis =
    (if centis < 0 then (INVALIDARG, 0)
     else let seconds = centis div 100 in
       if seconds > 4294967295 then (INVALIDARG, 0) else (0, nat seconds))"

section \<open>Length\<close>

definition volume_bytes :: "'d ext2 \<Rightarrow> nat" where
  "volume_bytes fs = blocks_count fs * bsize fs"

definition ext2_inode_length :: "'d ext2 \<Rightarrow> ihdr \<Rightarrow> nat option" where
  "ext2_inode_length fs h = (let len = ext2_inode_size fs h in if len > volume_bytes fs then None else Some len)"

definition set_size :: "'d ext2 \<Rightarrow> nat \<Rightarrow> ihdr \<Rightarrow> ihdr" where
  "set_size fs n h = h\<lparr>i_size := wrap32 n, i_size_high := (if large_files fs then wrap32 (n div 4294967296) else 0)\<rparr>"

definition drop_sectors :: "nat \<Rightarrow> ihdr \<Rightarrow> ihdr" where
  "drop_sectors n h = h\<lparr>i_blocks := i_blocks h - n\<rparr>"

definition ext2_inode_resize :: "'d ext2 \<Rightarrow> ihdr \<Rightarrow> nat \<Rightarrow> (int \<times> ihdr \<times> 'd ext2) option" where
  "ext2_inode_resize fs h new_size =
    (if new_size > volume_bytes fs then Some (INVALIDARG, h, fs)
     else if \<not> large_files fs \<and> new_size > 4294967295 then Some (INVALIDARG, h, fs)
     else case ext2_inode_length fs h of None \<Rightarrow> Some (PLAINERR, h, fs)
     | Some cur_size \<Rightarrow> do {
         (rc, h, fs) \<leftarrow>
           (if new_size < cur_size
            then let lo = wrap32 ((new_size + bsize fs - 1) div bsize fs);
                     hi = wrap32 ((cur_size + bsize fs - 1) div bsize fs)
              in do {
                (rc, n, h, fs) \<leftarrow> ext2_free_blocks_from fs h lo (hi - 1);
                if rc \<noteq> 0 then Some (PLAINERR, h, fs)
                else Some (0, drop_sectors (wrap32 (n * ext2_sectors_per_block fs)) h, fs) }
            else Some (0, h, fs));
         if rc \<noteq> 0 then Some (rc, h, fs) else Some (0, set_size fs new_size h, fs) })"

section \<open>Attributes\<close>

text \<open>\<open>attr_mask\<close> are the bits of the mask (\<open>INODE_ATTR_*\<close>; \<open>m_other\<close> stands for all others).\<close>

record attr_mask =
  m_size :: bool
  m_atime :: bool
  m_mtime :: bool
  m_ctime :: bool
  m_btime :: bool
  m_other :: bool

record inode_attr =
  at_valid :: attr_mask
  at_size :: int
  at_atime :: int
  at_mtime :: int
  at_ctime :: int
  at_btime :: int

definition getattr_valid :: attr_mask where
  "getattr_valid = \<lparr>m_size = True, m_atime = True, m_mtime = True, m_ctime = True, m_btime = False, m_other = False\<rparr>"

definition ext2_getattr :: "'d ext2 \<Rightarrow> nat option \<Rightarrow> (int \<times> inode_attr option \<times> 'd ext2) option" where
  "ext2_getattr fs ii = (case ii of None \<Rightarrow> Some (NOTFOUND, None, fs)
   | Some inum \<Rightarrow> do {
       (r, fs) \<leftarrow> ext2_read_inode fs inum;
       case r of None \<Rightarrow> Some (NOTFOUND, None, fs)
       | Some h \<Rightarrow>
         if i_dtime h \<noteq> 0 then Some (NOTFOUND, None, fs)
         else case ext2_inode_length fs h of None \<Rightarrow> Some (PLAINERR, None, fs)
         | Some len \<Rightarrow> Some (0, Some \<lparr>at_valid = getattr_valid, at_size = int len, at_atime = int (i_atime h) * 100,
             at_mtime = int (i_mtime h) * 100, at_ctime = int (i_ctime h) * 100, at_btime = 0\<rparr>, fs) })"

text \<open>One of the three times: the one stored, or the one asked for.\<close>

definition wanted_time :: "bool \<Rightarrow> int \<Rightarrow> nat \<Rightarrow> int \<times> nat" where
  "wanted_time asked centis old = (if asked then ext2_time_from_centis centis else (0, old))"

definition ext2_setattr ::
  "int \<Rightarrow> 'd ext2 \<Rightarrow> nat option \<Rightarrow> inode_attr \<Rightarrow> attr_mask \<Rightarrow> (int \<times> 'd ext2) option" where
  "ext2_setattr cs fs ii attr msk =
    (if m_other msk then Some (INVALIDARG, fs)
     else if m_btime msk then Some (UNSUPPORTEDOP, fs)
     else if read_only fs then Some (NOTSUPPORTED, fs)
     else case ii of None \<Rightarrow> Some (NOTFOUND, fs)
     | Some inum \<Rightarrow> do {
         (r, fs) \<leftarrow> ext2_read_inode fs inum;
         case r of None \<Rightarrow> Some (NOTFOUND, fs)
         | Some h \<Rightarrow>
           if i_dtime h \<noteq> 0 then Some (NOTFOUND, fs)
           else case wanted_time (m_atime msk) (at_atime attr) (i_atime h) of (rc, atime) \<Rightarrow>
             if rc \<noteq> 0 then Some (rc, fs)
             else case wanted_time (m_mtime msk) (at_mtime attr) (i_mtime h) of (rc, mtime) \<Rightarrow>
             if rc \<noteq> 0 then Some (rc, fs)
             else case wanted_time (m_ctime msk) (at_ctime attr) (i_ctime h) of (rc, ctime) \<Rightarrow>
             if rc \<noteq> 0 then Some (rc, fs)
             else do {
               (rc, size_changed, h, fs) \<leftarrow>
                 (if \<not> m_size msk then Some (0, False, h, fs)
                  else if i_fmt h \<noteq> EXT2_S_IFREG then Some (UNSUPPORTEDOP, False, h, fs)
                  else if at_size attr < 0 then Some (INVALIDARG, False, h, fs)
                  else case ext2_inode_length fs h of None \<Rightarrow> Some (PLAINERR, False, h, fs)
                  | Some old_size \<Rightarrow> do {
                      (rc, h, fs) \<leftarrow> ext2_inode_resize fs h (nat (at_size attr));
                      Some (rc, nat (at_size attr) \<noteq> old_size, h, fs) });
               if rc \<noteq> 0 then Some (rc, fs)
               else let now = ext2_now cs;
                        mtime = (if size_changed \<and> \<not> m_mtime msk then now else mtime);
                        ctime = (if (m_atime msk \<or> m_mtime msk \<or> m_size msk) \<and> \<not> m_ctime msk
                                 then now else ctime)
                    in do {
                      (rc, fs) \<leftarrow> ext2_write_inode fs inum (h\<lparr>i_atime := atime, i_mtime := mtime, i_ctime := ctime\<rparr>);
                      Some (if rc \<noteq> BLOCK_OK then PLAINERR else 0, fs) } } })"

section \<open>Open files\<close>

record ext2_file =
  f_inum :: nat
  f_size :: nat
  f_block :: "nat list"

definition ext2_open :: "'d ext2 \<Rightarrow> nat option \<Rightarrow> (ext2_file option \<times> 'd ext2) option" where
  "ext2_open fs ii = (case ii of None \<Rightarrow> Some (None, fs)
   | Some inum \<Rightarrow> do {
       (r, fs) \<leftarrow> ext2_read_inode fs inum;
       case r of None \<Rightarrow> Some (None, fs)
       | Some h \<Rightarrow>
         if i_dtime h \<noteq> 0 then Some (None, fs)
         else if i_fmt h \<noteq> EXT2_S_IFREG then Some (None, fs)
         else case ext2_inode_length fs h of None \<Rightarrow> Some (None, fs)
         | Some len \<Rightarrow> (case kmalloc_ok fs of (a, fs) \<Rightarrow>
             Some (if a then Some \<lparr>f_inum = inum, f_size = len, f_block = i_block h\<rparr> else None, fs)) })"

definition ext2_read_part :: "'d ext2 \<Rightarrow> nat \<Rightarrow> nat \<Rightarrow> u8 list \<Rightarrow> (int \<times> u8 list \<times> 'd ext2) option" where
  "ext2_read_part fs block within buf =
    (if buf = [] then Some (BLOCK_OK, buf, fs)
     else if block \<ge> blocks_count fs then Some (BLOCK_ERR_INVAL, buf, fs)
     else let offset = block * bsize fs + within in
       if offset > UINT64_MAX - length buf then Some (BLOCK_ERR_INVAL, buf, fs)
       else dev_read fs offset buf)"

lemma part_decr: "\<not> len \<le> p \<Longrightarrow> 0 < b \<Longrightarrow> len - (p + min (b - q mod b) (len - p)) < (len - p :: nat)"
  using mod_less_divisor [of b q] by linarith

text \<open>
  The loop of \<open>ext2_read\<close>: \<open>fin\<close> bytes of \<open>len\<close> are done, \<open>buf\<close> is the caller's buffer.  A
  division by a block size of zero and an access past the buffer are \<open>None\<close>.
\<close>

function ext2_read_loop :: "'d ext2 \<Rightarrow> nat list \<Rightarrow> nat \<Rightarrow> nat \<Rightarrow> nat \<Rightarrow> u8 list \<Rightarrow> (int \<times> u8 list \<times> 'd ext2) option" where
  "ext2_read_loop fs blocks pos fin len buf =
    (if fin \<ge> len then Some (int fin, buf, fs)
     else if bsize fs = 0 then None
     else let index = wrap32 (pos div bsize fs); within = pos mod bsize fs;
              n = min (bsize fs - within) (len - fin) in
       if fin + n > length buf then None
       else do {
         (r, fs) \<leftarrow> ext2_map_block fs blocks index;
         (rc, dst, fs) \<leftarrow> (case r of
             Some phys \<Rightarrow> ext2_read_part fs phys within (chunk fin n buf)
           | None \<Rightarrow> Some (BLOCK_OK, replicate n 0, fs));
         let buf = patch fin dst buf in
         if rc \<noteq> BLOCK_OK then Some (-1, buf, fs)
         else ext2_read_loop fs blocks (pos + n) (fin + n) len buf })"
  by pat_completeness auto
termination by (relation "measure (\<lambda>(fs, blocks, pos, fin, len, buf). len - fin)") (auto intro: part_decr)

declare ext2_read_loop.simps [simp del]

definition ext2_read :: "int \<Rightarrow> 'd ext2 \<Rightarrow> ext2_file \<Rightarrow> u8 list \<Rightarrow> nat \<Rightarrow> nat
    \<Rightarrow> (int \<times> u8 list \<times> ext2_file \<times> 'd ext2) option" where
  "ext2_read cs fs f buf len offset =
    (let len = (if len > 2147483647 then 2147483647 else len) in do {
       (r, fs) \<leftarrow> ext2_read_inode fs (f_inum f);
       case r of None \<Rightarrow> Some (-1, buf, f, fs)
       | Some h \<Rightarrow> (case ext2_inode_length fs h of None \<Rightarrow> Some (-1, buf, f, fs)
         | Some on_disk \<Rightarrow> let f = f\<lparr>f_size := on_disk, f_block := i_block h\<rparr> in
             if offset \<ge> on_disk then do {
               (_, fs) \<leftarrow> ext2_touch_atime cs fs (f_inum f) h;
               Some (0, buf, f, fs) }
             else let avail = on_disk - offset; len = (if len > avail then avail else len) in do {
               (rc, buf, fs) \<leftarrow> ext2_read_loop fs (f_block f) offset 0 len buf;
               if rc = -1 then Some (-1, buf, f, fs)
               else do {
                 (_, fs) \<leftarrow> ext2_touch_atime cs fs (f_inum f) h;
                 Some (rc, buf, f, fs) } }) })"

section \<open>Writing\<close>

text \<open>
  The first pass maps every block of the range, in the copy of the inode's blocks and through the
  allocator, and remembers the logical blocks it had to allocate; \<open>cap\<close> is the size of the array
  for them.  The flag is whether the pass went through.
\<close>

definition claim_index :: "nat list \<Rightarrow> nat \<Rightarrow> nat \<Rightarrow> 'd ext2 \<Rightarrow> (nat list \<times> nat) option \<times> 'd ext2" where
  "claim_index claims cap index fs =
    (if length claims \<noteq> cap then (Some (claims @ [index], cap), fs)
     else case kmalloc_ok fs of (a, fs) \<Rightarrow>
       if \<not> a then (None, fs)
       else (Some (claims @ [index], if cap \<noteq> 0 then wrap32 (cap * 2) else 8), fs))"

function claim_loop :: "'d ext2 \<Rightarrow> ihdr \<Rightarrow> nat \<Rightarrow> nat \<Rightarrow> nat list \<Rightarrow> nat
    \<Rightarrow> (bool \<times> ihdr \<times> nat list \<times> 'd ext2) option" where
  "claim_loop fs h p fin claims cap =
    (if p \<ge> fin then Some (True, h, claims, fs)
     else if bsize fs = 0 then None
     else let index = wrap32 (p div bsize fs); n = min (bsize fs - p mod bsize fs) (fin - p) in do {
       (r, fs) \<leftarrow> ext2_map_block fs (i_block h) index;
       if r \<noteq> None \<and> r \<noteq> Some 0 then claim_loop fs h (p + n) fin claims cap
       else do {
         (r, h, fs) \<leftarrow> ext2_map_block_alloc fs h index;
         if r = None then Some (False, h, claims, fs)
         else case claim_index claims cap index fs of
           (None, fs) \<Rightarrow> Some (False, h, claims, fs)
         | (Some (claims, cap), fs) \<Rightarrow> claim_loop fs h (p + n) fin claims cap } })"
  by pat_completeness auto
termination by (relation "measure (\<lambda>(fs, h, p, fin, claims, cap). fin - p)") (auto intro: part_decr)

declare claim_loop.simps [simp del]

text \<open>The second pass stores the data, whole blocks directly, parts of a block by a read, a change
  and a write back.\<close>

definition store_part :: "'d ext2 \<Rightarrow> nat \<Rightarrow> nat \<Rightarrow> u8 list \<Rightarrow> (int \<times> 'd ext2) option" where
  "store_part fs phys within src =
    (let base = phys * bsize fs in
     if within = 0 \<and> length src = bsize fs then dev_write fs base src
     else case kmalloc_ok fs of (a, fs) \<Rightarrow>
       if \<not> a then Some (-1, fs)
       else do {
         (rc, scr, fs) \<leftarrow> dev_read fs base (replicate (bsize fs) 0);
         if rc \<noteq> BLOCK_OK then Some (-1, fs)
         else if within + length src > length scr then None
         else dev_write fs base (patch within src scr) })"

function store_loop :: "'d ext2 \<Rightarrow> nat list \<Rightarrow> nat \<Rightarrow> nat \<Rightarrow> u8 list \<Rightarrow> (bool \<times> 'd ext2) option" where
  "store_loop fs blocks pos fin buf =
    (if fin \<ge> length buf then Some (True, fs)
     else if bsize fs = 0 then None
     else let index = wrap32 (pos div bsize fs); within = pos mod bsize fs;
              n = min (bsize fs - within) (length buf - fin) in do {
       (r, fs) \<leftarrow> ext2_map_block fs blocks index;
       case r of None \<Rightarrow> Some (False, fs)
       | Some phys \<Rightarrow>
         if phys = 0 then Some (False, fs)
         else do {
           (rc, fs) \<leftarrow> store_part fs phys within (chunk fin n buf);
           if rc \<noteq> BLOCK_OK then Some (False, fs)
           else store_loop fs blocks (pos + n) (fin + n) buf } })"
  by pat_completeness auto
termination by (relation "measure (\<lambda>(fs, blocks, pos, fin, buf). length buf - fin)") (auto intro: part_decr)

declare store_loop.simps [simp del]

text \<open>The release of the claimed blocks after a failure.\<close>

primrec unclaim :: "nat list \<Rightarrow> 'd ext2 \<Rightarrow> ihdr \<Rightarrow> nat list \<Rightarrow> nat \<Rightarrow> (nat \<times> nat list \<times> ihdr \<times> 'd ext2) option" where
  "unclaim [] fs h fblock n = Some (n, fblock, h, fs)"
| "unclaim (i # is) fs h fblock n = do {
     (rc, got, h, fs) \<leftarrow> ext2_free_index fs h i;
     if rc \<noteq> 0 then unclaim is fs h fblock n
     else unclaim is fs h (if i < EXT2_NDIR_BLOCKS then fblock[i := 0] else fblock) (wrap32 (n + got)) }"

definition write_rollback :: "'d ext2 \<Rightarrow> ext2_file \<Rightarrow> ihdr \<Rightarrow> ihdr \<Rightarrow> nat \<Rightarrow> nat list \<Rightarrow> bool
    \<Rightarrow> (int \<times> ext2_file \<times> 'd ext2) option" where
  "write_rollback fs f orig h orig_size claims wrote_meta =
    (if claims = [] \<and> \<not> wrote_meta then Some (-1, f, fs)
     else do {
       (n, fblock, h, fs) \<leftarrow> unclaim claims fs h (f_block f) 0;
       let h = (if n \<noteq> 0 then drop_sectors (wrap32 (n * ext2_sectors_per_block fs)) h else h);
       let h = (set_size fs orig_size h)\<lparr>i_mtime := i_mtime orig, i_ctime := i_ctime orig\<rparr>;
       (_, fs) \<leftarrow> ext2_write_inode fs (f_inum f) h;
       Some (-1, f\<lparr>f_block := fblock\<rparr>, fs) })"

definition ext2_write :: "int \<Rightarrow> 'd ext2 \<Rightarrow> ext2_file \<Rightarrow> u8 list \<Rightarrow> nat
    \<Rightarrow> (int \<times> ext2_file \<times> 'd ext2) option" where
  "ext2_write cs fs f buf offset =
    (if read_only fs then Some (-1, f, fs)
     else if buf = [] then Some (0, f, fs)
     else let buf = take 2147483647 buf; fin = offset + length buf in
       if fin > volume_bytes fs then Some (-1, f, fs)
       else do {
         (r, fs) \<leftarrow> ext2_read_inode fs (f_inum f);
         case r of None \<Rightarrow> Some (-1, f, fs)
         | Some orig \<Rightarrow> (case ext2_inode_length fs orig of None \<Rightarrow> Some (-1, f, fs)
           | Some disk_size \<Rightarrow>
             let now = ext2_now cs; f = f\<lparr>f_size := disk_size, f_block := i_block orig\<rparr> in do {
               (fine, h, claims, fs) \<leftarrow> claim_loop fs orig offset fin [] 0;
               if \<not> fine then write_rollback fs f orig h disk_size claims False
               else let grew = (claims \<noteq> []); longer = (fin > disk_size) in
                 if longer \<and> \<not> large_files fs \<and> fin > 4294967295
                 then write_rollback fs f orig h disk_size claims False
                 else do {
                   (rc, h, fs) \<leftarrow>
                     (if \<not> (grew \<or> longer) then Some (BLOCK_OK, h, fs)
                      else let h = (if longer then set_size fs fin h else h)\<lparr>i_mtime := now, i_ctime := now\<rparr> in do {
                        (rc, fs) \<leftarrow> ext2_write_inode fs (f_inum f) h;
                        Some (rc, h, fs) });
                   if rc \<noteq> BLOCK_OK then write_rollback fs f orig h disk_size claims False
                   else do {
                     let wrote_meta = (grew \<or> longer);
                     (fine, fs) \<leftarrow> store_loop fs (i_block h) offset 0 buf;
                     if \<not> fine then write_rollback fs f orig h disk_size claims wrote_meta
                     else do {
                       (rc, h, fs) \<leftarrow>
                         (if wrote_meta then Some (BLOCK_OK, h, fs)
                          else let h = h\<lparr>i_mtime := now, i_ctime := now\<rparr> in do {
                            (rc, fs) \<leftarrow> ext2_write_inode fs (f_inum f) h;
                            Some (rc, h, fs) });
                       if rc \<noteq> BLOCK_OK then write_rollback fs f orig h disk_size claims wrote_meta
                       else Some (int (length buf),
                         if fin > f_size f then f\<lparr>f_size := fin\<rparr> else f, fs) } } } }) })"

definition ext2_resize :: "int \<Rightarrow> 'd ext2 \<Rightarrow> ext2_file \<Rightarrow> nat \<Rightarrow> (int \<times> ext2_file \<times> 'd ext2) option" where
  "ext2_resize cs fs f new_size =
    (if read_only fs then Some (NOTSUPPORTED, f, fs)
     else do {
       (r, fs) \<leftarrow> ext2_read_inode fs (f_inum f);
       case r of None \<Rightarrow> Some (NOTFOUND, f, fs)
       | Some h \<Rightarrow>
         if i_fmt h \<noteq> EXT2_S_IFREG then Some (UNSUPPORTEDOP, f, fs)
         else do {
           (rc, h, fs) \<leftarrow> ext2_inode_resize fs h new_size;
           if rc \<noteq> 0 then Some (rc, f, fs)
           else let h = ext2_stamp cs False True True h in do {
             (rc, fs) \<leftarrow> ext2_write_inode fs (f_inum f) h;
             if rc \<noteq> BLOCK_OK then Some (PLAINERR, f, fs)
             else Some (0, f\<lparr>f_size := new_size, f_block := i_block h\<rparr>, fs) } } })"

end
