(* ===== verification/Ext2_Read.thy ===== *)
theory Ext2_Read
  imports Ext2_File
begin

text \<open>
  Reading a file of ext2: the bytes of a file are what its block map says, zero where no block is
  mapped, and \<open>ext2_read\<close> returns exactly the bytes of the range that lie inside the file.
\<close>

definition file_byte :: "('d \<Rightarrow> u8 list) \<Rightarrow> 'd ext2 \<Rightarrow> nat list \<Rightarrow> nat \<Rightarrow> u8" where
  "file_byte content fs blocks p =
    (case bmap content fs blocks (p div bsize fs) of None \<Rightarrow> 0 | Some b \<Rightarrow> blk content fs b ! (p mod bsize fs))"

lemma node_from_block: "node_from content fs c ss = Some b \<Longrightarrow> is_block fs b"
  by (induction ss arbitrary: c) (auto split: if_splits)

lemma bmap_block: "bmap content fs bs i = Some b \<Longrightarrow> is_block fs b"
  unfolding bmap_def by (auto split: if_splits option.splits dest: node_from_block simp del: node_from.simps)

lemma file_byte_frame:
  assumes "still content fs fs'"
  shows "file_byte content fs' bs p = file_byte content fs bs p"
  unfolding file_byte_def node_frame(4) [OF assms] stillD(8,9) [OF assms] by (rule refl)

text \<open>Positions inside one block.\<close>

lemma within_block:
  assumes "0 < (b :: nat)" "j < b - p mod b"
  shows "(p + j) div b = p div b" "(p + j) mod b = p mod b + j"
proof -
  have e: "p + j = p mod b + j + p div b * b" using div_mult_mod_eq [of p b] by linarith
  have l: "p mod b + j < b" using assms by linarith
  have "(p mod b + j + p div b * b) div b = p div b + (p mod b + j) div b"
    by (rule div_mult_self1) (use assms in simp)
  then show "(p + j) div b = p div b" unfolding e [symmetric] div_less [OF l] by simp
  show "(p + j) mod b = p mod b + j" unfolding e mod_mult_self1 by (rule mod_less [OF l])
qed

context failstop_device
begin

lemma read_part_ok:
  assumes "at fs" "is_block fs b" "within + length buf \<le> bsize fs"
  shows "\<exists>rc buf' fs'. ext2_read_part fs b within buf = Some (rc, buf', fs') \<and> still content fs fs' \<and> at fs'
    \<and> cached_indirect_block fs' = cached_indirect_block fs \<and> cached_indirect_buf fs' = cached_indirect_buf fs
    \<and> length buf' = length buf \<and> (rc = BLOCK_OK \<longrightarrow> buf' = chunk within (length buf) (blk content fs b))"
proof (cases "buf = []")
  case True
  then show ?thesis using assms by (simp add: ext2_read_part_def chunk_def)
next
  case False
  have b: "b < blocks_count fs" using assms(2) by (simp add: is_block_def)
  have "b * bsize fs + bsize fs < 4294967296" by (rule block_inside(2) [OF assms(1) b])
  then have no: "\<not> UINT64_MAX - length buf < b * bsize fs + within"
    unfolding UINT64_MAX_def using assms(3) by linarith
  from dev_read_within [OF assms(1) b assms(3)] obtain rc buf' fs' where r:
    "dev_read fs (b * bsize fs + within) buf = Some (rc, buf', fs')" "same_but_dev fs fs'" "e_dev fs' = e_dev fs"
    "at fs'" "length buf' = length buf" "rc = BLOCK_OK \<longrightarrow> buf' = chunk within (length buf) (blk content fs b)" by blast
  have "ext2_read_part fs b within buf = Some (rc, buf', fs')"
    using False b no r(1) by (simp add: ext2_read_part_def Let_def)
  then show ?thesis using r same_still [OF r(2,3)] same_but_devD(17,18) [OF r(2)] by simp
qed

lemma read_loop_ok:
  assumes "at fs" "ind_ok content fs" "apb_ok fs" "len \<le> length buf" "fin \<le> len"
    "pos + (len - fin) \<le> volume_bytes fs"
  shows "\<exists>rc buf' fs'. ext2_read_loop fs bs pos fin len buf = Some (rc, buf', fs') \<and> at fs' \<and> still content fs fs'
    \<and> ind_ok content fs' \<and> length buf' = length buf \<and> (rc = -1 \<or> rc = int len
      \<and> (\<forall>i<length buf. if fin \<le> i \<and> i < len
           then buf' ! i = file_byte content fs bs (pos + (i - fin)) \<or> \<not> readable fs \<and> buf' ! i = 0
           else buf' ! i = buf ! i))"
  using assms
proof (induction "len - fin" arbitrary: fs pos fin buf rule: less_induct)
  case less
  show ?case
  proof (cases "fin \<ge> len")
    case True
    then show ?thesis using less.prems by (auto simp: ext2_read_loop.simps)
  next
    case more: False
    have b0: "0 < bsize fs" using less.prems(1) by (simp add: on_device_def)
    define n where "n = min (bsize fs - pos mod bsize fs) (len - fin)"
    have n: "0 < n" "fin + n \<le> len" "n \<le> bsize fs - pos mod bsize fs"
      using more b0 mod_less_divisor [OF b0, of pos] by (auto simp: n_def)
    have bc: "blocks_count fs < 4294967296" using less.prems(1) by (simp add: on_device_def)
    have "pos < volume_bytes fs" using less.prems(6) more by linarith
    then have "pos div bsize fs < blocks_count fs"
      using b0 by (simp add: volume_bytes_def div_less_iff_less_mult)
    then have ix: "wrap32 (pos div bsize fs) = pos div bsize fs" using bc by (intro wrap32_id) linarith
    from map_block_ok [OF less.prems(1-3), of bs "pos div bsize fs"] obtain r f where m:
      "ext2_map_block fs bs (pos div bsize fs) = Some (r, f)" "at f" "still content fs f" "ind_ok content f"
      "r = bmap content fs bs (pos div bsize fs) \<or> r = None \<and> \<not> readable fs" by blast
    note sm = stillD [OF m(3)]
    define src where "src = (case r of Some phys \<Rightarrow> ext2_read_part f phys (pos mod bsize fs) (chunk fin n buf)
      | None \<Rightarrow> Some (BLOCK_OK, replicate n 0, f))"
    have lc: "length (chunk fin n buf) = n" by (rule length_chunk) (use n less.prems(4) in linarith)
    have "\<exists>rc dst g. src = Some (rc, dst, g) \<and> at g \<and> still content fs g \<and> ind_ok content g \<and> length dst = n
        \<and> (rc = BLOCK_OK \<longrightarrow> (\<forall>j<n. dst ! j = file_byte content fs bs (pos + j) \<or> \<not> readable fs \<and> dst ! j = 0))"
    proof (cases r)
      case None
      have "file_byte content fs bs (pos + j) = 0 \<or> \<not> readable fs" if "j < n" for j
        using m(5) None within_block(1) [OF b0, of j pos] n that by (auto simp: file_byte_def)
      then show ?thesis using None m(2-4) by (auto simp: src_def)
    next
      case (Some phys)
      have bm: "bmap content fs bs (pos div bsize fs) = Some phys" using m(5) Some by simp
      have ib: "is_block f phys" using bmap_block [OF bm] node_frame(1) [OF m(3)] by simp
      have "pos mod bsize fs + length (chunk fin n buf) \<le> bsize f" using n lc sm(9) by linarith
      from read_part_ok [OF m(2) ib this] obtain rc dst g where p:
        "ext2_read_part f phys (pos mod bsize fs) (chunk fin n buf) = Some (rc, dst, g)" "still content f g" "at g"
        "cached_indirect_block g = cached_indirect_block f" "cached_indirect_buf g = cached_indirect_buf f"
        "length dst = n" "rc = BLOCK_OK \<longrightarrow> dst = chunk (pos mod bsize fs) n (blk content f phys)"
        unfolding lc by blast
      note sp = stillD [OF p(2)]
      have "ind_ok content g" using m(4) p(4,5) sp by (simp add: ind_ok_def)
      moreover have "dst ! j = file_byte content fs bs (pos + j)" if "rc = BLOCK_OK" "j < n" for j
      proof -
        have "phys < blocks_count fs" using ib node_frame(1) [OF m(3)] by (simp add: is_block_def)
        then have "pos mod bsize fs + n \<le> length (blk content fs phys)"
          using length_blk [OF less.prems(1)] n(3) b0 mod_less_divisor [OF b0, of pos] by (simp; linarith)
        then have "dst ! j = blk content fs phys ! (pos mod bsize fs + j)"
          using p(7) that sm(8) by (simp add: nth_chunk)
        then show ?thesis using within_block [OF b0, of j pos] n that bm by (simp add: file_byte_def)
      qed
      ultimately show ?thesis using Some p still_trans [OF m(3) p(2)] by (auto simp: src_def)
    qed
    then obtain rc dst g where d: "src = Some (rc, dst, g)" "at g" "still content fs g" "ind_ok content g" "length dst = n"
      "rc = BLOCK_OK \<longrightarrow> (\<forall>j<n. dst ! j = file_byte content fs bs (pos + j) \<or> \<not> readable fs \<and> dst ! j = 0)" by blast
    note sg = stillD [OF d(3)]
    define buf2 where "buf2 = patch fin dst buf"
    have lp: "fin + length dst \<le> length buf" using n d(5) less.prems(4) by linarith
    have lb: "length buf2 = length buf" unfolding buf2_def by (rule length_patch [OF lp])
    have run: "ext2_read_loop fs bs pos fin len buf = (if rc \<noteq> BLOCK_OK then Some (-1, buf2, g)
        else ext2_read_loop g bs (pos + n) (fin + n) len buf2)"
    proof -
      have g: "\<not> fin + n > length buf" "bsize fs \<noteq> 0" using lp d(5) b0 by simp_all
      show ?thesis
        unfolding ext2_read_loop.simps [of fs bs pos fin len buf] Let_def ix n_def [symmetric] m(1)
        using more g d(1) by (simp add: src_def buf2_def)
    qed
    show ?thesis
    proof (cases "rc = BLOCK_OK")
      case False
      then show ?thesis using run d lb by simp
    next
      case True
      have "len - (fin + n) < len - fin" using n more by linarith
      moreover have "apb_ok g" using less.prems(3) node_frame(5) [OF d(3)] by simp
      moreover have "len \<le> length buf2" "fin + n \<le> len" using lb less.prems(4) n(2) by simp_all
      moreover have "pos + n + (len - (fin + n)) \<le> volume_bytes g"
        using less.prems(6) n(2) sg(9,10) by (simp add: volume_bytes_def)
      ultimately have "\<exists>rc' buf' fs'. ext2_read_loop g bs (pos + n) (fin + n) len buf2 = Some (rc', buf', fs') \<and> at fs'
        \<and> still content g fs' \<and> ind_ok content fs' \<and> length buf' = length buf2 \<and> (rc' = -1 \<or> rc' = int len
          \<and> (\<forall>i<length buf2. if fin + n \<le> i \<and> i < len
             then buf' ! i = file_byte content g bs (pos + n + (i - (fin + n))) \<or> \<not> readable g \<and> buf' ! i = 0
             else buf' ! i = buf2 ! i))"
        by (rule less.hyps [OF _ d(2,4)])
      then obtain rc' buf' fs' where r:
        "ext2_read_loop g bs (pos + n) (fin + n) len buf2 = Some (rc', buf', fs')" "at fs'" "still content g fs'"
        "ind_ok content fs'" "length buf' = length buf2"
        "rc' = -1 \<or> rc' = int len
          \<and> (\<forall>i<length buf2. if fin + n \<le> i \<and> i < len
             then buf' ! i = file_byte content g bs (pos + n + (i - (fin + n))) \<or> \<not> readable g \<and> buf' ! i = 0
             else buf' ! i = buf2 ! i)" by blast
      have "if fin \<le> i \<and> i < len
           then buf' ! i = file_byte content fs bs (pos + (i - fin)) \<or> \<not> readable fs \<and> buf' ! i = 0
           else buf' ! i = buf ! i" if "rc' \<noteq> -1" "i < length buf" for i
      proof -
        have h: "if fin + n \<le> i \<and> i < len
             then buf' ! i = file_byte content fs bs (pos + n + (i - (fin + n))) \<or> \<not> readable fs \<and> buf' ! i = 0
             else buf' ! i = buf2 ! i"
          using r(6) that unfolding lb file_byte_frame [OF d(3)] readable_still [OF d(3)] by blast
        have b2: "buf2 ! i = (if fin \<le> i \<and> i < fin + n then dst ! (i - fin) else buf ! i)"
          unfolding buf2_def using nth_patch [OF lp that(2)] d(5) by simp
        consider "i < fin \<or> len \<le> i" | "fin \<le> i" "i < fin + n" | "fin + n \<le> i" "i < len" by linarith
        then show ?thesis
        proof cases
          case 1
          then show ?thesis using h b2 n by auto
        next
          case 2
          then have "buf' ! i = dst ! (i - fin)" "i < len" using h b2 n by auto
          moreover have "i - fin < n" using 2 by linarith
          ultimately show ?thesis using d(6) True 2 by auto
        next
          case 3
          then have "pos + n + (i - (fin + n)) = pos + (i - fin)" by linarith
          then show ?thesis using h 3 by simp
        qed
      qed
      then have "rc' = -1 \<or> rc' = int len \<and> (\<forall>i<length buf. if fin \<le> i \<and> i < len
           then buf' ! i = file_byte content fs bs (pos + (i - fin)) \<or> \<not> readable fs \<and> buf' ! i = 0
           else buf' ! i = buf ! i)" using r(6) by blast
      moreover have "ext2_read_loop fs bs pos fin len buf = Some (rc', buf', fs')" using run True r(1) by simp
      ultimately show ?thesis using r(2,4) r(5) [unfolded lb] still_trans [OF d(3) r(3)] by blast
    qed
  qed
qed

end

section \<open>A header whose fields fit\<close>

lemma ihdr_ok_iff:
  "ihdr_ok h \<longleftrightarrow> i_mode h < 65536 \<and> i_uid h < 65536 \<and> i_size h < 4294967296 \<and> i_atime h < 4294967296
     \<and> i_ctime h < 4294967296 \<and> i_mtime h < 4294967296 \<and> i_dtime h < 4294967296 \<and> i_gid h < 65536
     \<and> i_links h < 65536 \<and> i_blocks h < 4294967296 \<and> i_flags h < 4294967296 \<and> i_osd1 h < 4294967296
     \<and> length (i_block h) = 15 \<and> (\<forall>b\<in>set (i_block h). b < 4294967296)
     \<and> i_generation h < 4294967296 \<and> i_file_acl h < 4294967296 \<and> i_size_high h < 4294967296"
proof (cases "length (i_block h) = 15")
  case True
  have l: "list_all2 (\<lambda>w v. v < 256 ^ w) (replicate 15 4) (i_block h) = (\<forall>b\<in>set (i_block h). b < 4294967296)"
    using True by (simp add: list_all2_conv_all_nth all_set_conv_all_nth)
  have "ihdr_ok h \<longleftrightarrow> list_all2 (\<lambda>w v. v < 256 ^ w) ([2, 2, 4, 4, 4, 4, 4, 2, 2, 4, 4, 4] :: nat list)
        [i_mode h, i_uid h, i_size h, i_atime h, i_ctime h, i_mtime h, i_dtime h, i_gid h,
         i_links h, i_blocks h, i_flags h, i_osd1 h]
      \<and> list_all2 (\<lambda>w v. v < 256 ^ w) (replicate 15 4) (i_block h)
      \<and> list_all2 (\<lambda>w v. v < 256 ^ w) ([4, 4, 4] :: nat list) [i_generation h, i_file_acl h, i_size_high h]"
    unfolding ihdr_ok_def ihdr_fields_def ihdr_vals_def
    by (subst list_all2_append, simp)+ (simp_all add: True list_all2_append)
  then show ?thesis unfolding l using True by simp
qed (simp add: ihdr_ok_def)

lemma ext2_now_less: "ext2_now cs < 4294967296"
  by (simp add: ext2_now_def Let_def)

lemma node_quiet:
  assumes "quiet content fs fs'"
  shows "bmap content fs' bs i = bmap content fs bs i" "file_byte content fs' bs p = file_byte content fs bs p"
    "apb_ok fs' = apb_ok fs" "volume_bytes fs' = volume_bytes fs" "ext2_inode_size fs' h = ext2_inode_size fs h"
    "ext2_inode_length fs' h = ext2_inode_length fs h"
proof -
  note d = quietD [OF assms]
  note f = lay_fields(1,2) [OF d(1)] mount_fields [OF d(2)]
  have ib: "is_block fs' c = is_block fs c" for c by (simp add: is_block_def f)
  have ie: "ind_entry content fs' = ind_entry content fs" by (simp add: ind_entry_def d(5) fun_eq_iff)
  have nf: "node_from content fs' c ss = node_from content fs c ss" for c ss
    by (induction ss arbitrary: c) (simp_all add: ib ie f)
  show b: "bmap content fs' bs i = bmap content fs bs i" for i unfolding bmap_def nf f by (rule refl)
  show "file_byte content fs' bs p = file_byte content fs bs p" unfolding file_byte_def b f d(5) by (rule refl)
  show "apb_ok fs' = apb_ok fs" by (simp add: apb_ok_def f)
  show v: "volume_bytes fs' = volume_bytes fs" by (simp add: volume_bytes_def f)
  show e: "ext2_inode_size fs' h = ext2_inode_size fs h" by (simp add: ext2_inode_size_def f)
  show "ext2_inode_length fs' h = ext2_inode_length fs h" by (simp add: ext2_inode_length_def v e Let_def)
qed

lemma ind_caches: "caches_of fs' = caches_of fs \<Longrightarrow> quiet content fs fs' \<Longrightarrow> ind_ok content fs' = ind_ok content fs"
  using quietD(5) [of content fs fs'] lay_fields(1) [of fs' fs] quietD(1) [of content fs fs']
  by (simp add: ind_ok_def caches_of_def)

context failstop_device
begin

lemma touch_ok:
  assumes a: "at fs" and ok: "fs_ok content fs" and h: "ihdr_ok h"
  shows "\<exists>h' fs'. ext2_touch_atime cs fs i h = Some (h', fs') \<and> at fs' \<and> fs_ok content fs'"
proof -
  have "ihdr_ok (h\<lparr>i_atime := ext2_now cs\<rparr>)" using h ext2_now_less [of cs] by (simp add: ihdr_ok_iff)
  from write_inode_ok [OF a ok this, of i] obtain rc fs' where
    "ext2_write_inode fs i (h\<lparr>i_atime := ext2_now cs\<rparr>) = Some (rc, fs')" "at fs'" "fs_ok content fs'" by blast
  then show ?thesis using a ok by (simp add: ext2_touch_atime_def Let_def)
qed

lemma read_ok:
  assumes a: "at fs" and ok: "fs_ok content fs" and io: "ind_ok content fs" and ap: "apb_ok fs"
    and lb: "len \<le> length buf"
  shows "\<exists>rc buf' f' fs'. ext2_read cs fs f buf len offset = Some (rc, buf', f', fs') \<and> at fs' \<and> fs_ok content fs'
    \<and> length buf' = length buf \<and> (rc = -1 \<or> (\<exists>h. inode_view content fs (f_inum f) = Some h
        \<and> rc = int (min (min len 2147483647) (ext2_inode_size fs h - offset))
        \<and> (\<forall>i<length buf. if int i < rc
             then buf' ! i = file_byte content fs (i_block h) (offset + i) \<or> \<not> readable fs \<and> buf' ! i = 0
             else buf' ! i = buf ! i)))"
proof -
  define len1 where "len1 = (if len > 2147483647 then 2147483647 else len)"
  from read_inode_ok [OF a ok, of "f_inum f"] obtain r f1 where r: "ext2_read_inode fs (f_inum f) = Some (r, f1)"
    "at f1" "fs_ok content f1" "quiet content fs f1" "caches_of f1 = caches_of fs"
    "r = None \<or> r = inode_view content fs (f_inum f)" "e_dev f1 = e_dev fs" by blast
  note q = node_quiet [OF r(4)]
  have rd1: "readable f1 = readable fs"
    unfolding readable_def r(7) lay_fields(1,2) [OF quietD(1) [OF r(4)]] by (rule refl)
  show ?thesis
  proof (cases r)
    case None
    then show ?thesis using r(1-3) by (simp add: ext2_read_def Let_def)
  next
    case (Some h)
    have v: "inode_view content fs (f_inum f) = Some h" using r(6) Some by simp
    note hv = view_ok [OF a fs_okD(4,2) [OF ok] v]
    note run0 = r(1) [unfolded Some]
    show ?thesis
    proof (cases "ext2_inode_length f1 h")
      case None
      then show ?thesis using run0 r(2,3) by (simp add: ext2_read_def Let_def)
    next
      case (Some n)
      then have n: "n = ext2_inode_size fs h" "n \<le> volume_bytes fs"
        using q by (simp_all add: ext2_inode_length_def Let_def split: if_splits)
      define f2 where "f2 = f\<lparr>f_size := n, f_block := i_block h\<rparr>"
      have f2: "f_inum f2 = f_inum f" "f_block f2 = i_block h" by (simp_all add: f2_def)
      show ?thesis
      proof (cases "offset \<ge> n")
        case True
        from touch_ok [OF r(2,3) hv(1)] obtain h' fs' where t:
          "ext2_touch_atime cs f1 (f_inum f) h = Some (h', fs')" "at fs'" "fs_ok content fs'" by blast
        have "ext2_read cs fs f buf len offset = Some (0, buf, f2, fs')"
          unfolding ext2_read_def Let_def using run0 Some True t(1) by (simp add: f2_def)
        then show ?thesis using t True n v by auto
      next
        case False
        define len2 where "len2 = (if len1 > n - offset then n - offset else len1)"
        have l2: "len2 \<le> length buf" "len2 = min (min len 2147483647) (n - offset)"
          "offset + (len2 - 0) \<le> volume_bytes f1"
          using lb n False q(4) by (auto simp: len2_def len1_def)
        have io1: "ind_ok content f1" and ap1: "apb_ok f1"
          using ind_caches [OF r(5,4)] io q(3) ap by simp_all
        from read_loop_ok [OF r(2) io1 ap1 l2(1) le0 l2(3), of "i_block h"] obtain rc buf' g where l:
          "ext2_read_loop f1 (i_block h) offset 0 len2 buf = Some (rc, buf', g)" "at g" "still content f1 g"
          "length buf' = length buf" "rc = -1 \<or> rc = int len2
            \<and> (\<forall>i<length buf. if 0 \<le> i \<and> i < len2
              then buf' ! i = file_byte content f1 (i_block h) (offset + (i - 0)) \<or> \<not> readable f1 \<and> buf' ! i = 0
              else buf' ! i = buf ! i)" by blast
        have okg: "fs_ok content g" by (rule still_ok [OF r(3) l(3)])
        have run: "ext2_read cs fs f buf len offset = (if rc = -1 then Some (-1, buf', f2, g)
            else do { (_, fs) \<leftarrow> ext2_touch_atime cs g (f_inum f) h; Some (rc, buf', f2, fs) })"
          unfolding ext2_read_def Let_def len1_def [symmetric] run0
          using False Some l(1) f2 by (simp add: f2_def len2_def [symmetric])
        show ?thesis
        proof (cases "rc = -1")
          case True
          then show ?thesis using run l(2,4) okg by simp
        next
          case ne: False
          from touch_ok [OF l(2) okg hv(1)] obtain h' fs' where t:
            "ext2_touch_atime cs g (f_inum f) h = Some (h', fs')" "at fs'" "fs_ok content fs'" by blast
          have rc: "rc = int len2" using l(5) ne by blast
          have "\<forall>i<length buf. if int i < rc
             then buf' ! i = file_byte content fs (i_block h) (offset + i) \<or> \<not> readable fs \<and> buf' ! i = 0
             else buf' ! i = buf ! i"
            using l(5) ne unfolding q(2) rd1 rc diff_zero of_nat_less_iff by simp
          moreover have "rc = int (min (min len 2147483647) (ext2_inode_size fs h - offset))"
            using rc l2(2) n(1) by simp
          moreover have "ext2_read cs fs f buf len offset = Some (rc, buf', f2, fs')" using run ne t(1) by simp
          ultimately show ?thesis using t(2,3) l(4) v by blast
        qed
      qed
    qed
  qed
qed

end

text \<open>Blocks that are whole device blocks of a device that never fails can always be read.\<close>

context block_device
begin

lemma aligned_readable:
  assumes a: "on_device rd wr good fs" and al: "bsize fs mod block_size (e_dev fs) = 0"
  shows "readable fs"
  unfolding readable_def
proof (intro allI impI)
  fix f :: "'d ext2" and b and buf :: "u8 list"
  assume f: "e_dev f = e_dev fs \<and> bsize f = bsize fs \<and> blocks_count f = blocks_count fs
     \<and> b < blocks_count f \<and> length buf = bsize f"
  then have af: "on_device rd wr good f" using a by (simp add: on_device_def)
  note bi = fail.block_inside [OF af, of b]
  obtain k h where k: "kmalloc_ok f = (k, h)" by fastforce
  have e: "e_dev h = e_dev f" using kmalloc_ok_same [OF k] by simp
  have m: "b * bsize f mod block_size (e_dev f) = 0" "bsize f mod block_size (e_dev f) = 0"
    using al f by (auto simp: mod_eq_0_iff_dvd)
  have "block_read_bytes k (e_dev f) (b * bsize f) (bsize f) = block_read_bytes True (e_dev f) (b * bsize f) (bsize f)"
    unfolding block_read_bytes_def Let_def using m by simp
  also have "\<dots> = Some (BLOCK_OK, chunk (b * bsize f) (bsize f) (content (impl (e_dev f))))"
    by (rule read_bytes) (use af bi f in \<open>auto simp: on_device_def\<close>)
  finally have r: "block_read_bytes k (e_dev f) (b * bsize f) (bsize f)
      = Some (BLOCK_OK, chunk (b * bsize f) (bsize f) (content (impl (e_dev f))))" .
  have "length (chunk (b * bsize f) (bsize f) (content (impl (e_dev f)))) \<le> length buf"
    using f by (simp add: chunk_def)
  then show "\<exists>buf' f'. ext2_read_block f b buf = Some (BLOCK_OK, buf', f')"
    using r e k bi f by (simp add: ext2_read_block_def dev_read_def Let_def fill_buf_def)
qed

end

section \<open>A volume with a file\<close>

text \<open>Inode 1 of the small volume has five bytes in block 5.\<close>

definition hello_hdr :: ihdr where
  "hello_hdr = ihdr_zero\<lparr>i_mode := 33188, i_size := 5, i_links := 1, i_block := 5 # replicate 14 0\<rparr>"

definition hello :: "u8 list" where "hello = [104, 101, 108, 108, 111]"

definition hello_bytes :: "u8 list" where
  "hello_bytes = replicate 1024 0 @ ihdr_bytes hello_hdr @ replicate 144 0 @ hello @ replicate 1019 0"

lemma ihdr_ok_zero: "ihdr_ok ihdr_zero"
  by (simp add: ihdr_ok_def ihdr_zero_def ihdr_vals_of length_i_block_of list_all2_conv_all_nth length_ihdr_fields)

lemma hello_hdr_ok: "ihdr_ok hello_hdr"
  using ihdr_ok_zero by (simp add: ihdr_ok_iff hello_hdr_def)

lemma hello_lengths: "length (ihdr_bytes hello_hdr) = 112" "length hello = 5" "length hello_bytes = 2304"
  using length_ihdr_bytes [of hello_hdr] by (simp_all add: hello_bytes_def hello_def hello_hdr_def)

lemma hello_view: "inode_view rb_buffer (vol hello_bytes) 1 = Some hello_hdr"
proof -
  have "ext2_inode_locate (vol hello_bytes) 1 = Some (4, 0)"
    by (simp add: ext2_inode_locate_def vol_fields small_fields(17))
  moreover have "chunk 0 112 (blk rb_buffer (vol hello_bytes) 4) = ihdr_bytes hello_hdr"
    using hello_lengths(1) by (simp add: blk_def vol_fields chunk_def hello_bytes_def)
  ultimately show ?thesis by (simp add: inode_view_def bytes_ihdr_bytes [OF hello_hdr_ok])
qed

lemma hello_byte: "i < 5 \<Longrightarrow> file_byte rb_buffer (vol hello_bytes) (i_block hello_hdr) i = hello ! i"
proof -
  assume i: "i < 5"
  have "bmap rb_buffer (vol hello_bytes) (i_block hello_hdr) 0 = Some 5"
    by (simp add: bmap_def EXT2_NDIR_BLOCKS_def is_block_def vol_fields hello_hdr_def)
  moreover have "blk rb_buffer (vol hello_bytes) 5 = hello @ replicate 251 0"
    using hello_lengths(1,2) by (simp add: blk_def vol_fields chunk_def hello_bytes_def)
  ultimately show ?thesis using i hello_lengths(2) by (simp add: file_byte_def vol_fields nth_append)
qed

lemma vol_apb: "apb_ok (vol c)" "ind_ok rb_buffer (vol c)"
  by (simp_all add: apb_ok_def ind_ok_def vol_fields)

lemma vol_readable: "length c = 2304 \<Longrightarrow> readable (vol c)"
  by (rule ram.aligned_readable [OF vol_device]) (simp_all add: vol_def)

section \<open>Properties\<close>



end
