(* ===== verification/Ext2_Dir.thy ===== *)
theory Ext2_Dir
  imports Ext2_File Ext2_Dirent_Ops
begin

text \<open>
  Directories of several blocks and the retirement of inodes
  (\<open>kernel/kernel/fs/ext2/helpers.c\<close>): each operation goes over the blocks of the directory with
  the scans of \<open>Ext2_Dirent\<close>; a block that cannot be mapped or read is passed over.  A loop over
  the blocks takes the number of blocks still to visit; \<open>buf\<close> is the buffer that is reused.
\<close>

definition EXT2_DIRENT_NO_SPACE :: int where "EXT2_DIRENT_NO_SPACE = -2"
definition EXT2_DIRENT_EXISTS :: int where "EXT2_DIRENT_EXISTS = 2"

definition dir_nblocks :: "'d ext2 \<Rightarrow> ihdr \<Rightarrow> nat" where
  "dir_nblocks fs dir = wrap32 (i_size dir + bsize fs - 1) div bsize fs"

text \<open>The next block of the directory, read into the buffer; \<open>None\<close> in the result is \<open>continue\<close>.\<close>

definition next_block :: "'d ext2 \<Rightarrow> nat list \<Rightarrow> nat \<Rightarrow> u8 list \<Rightarrow> (nat option \<times> u8 list \<times> 'd ext2) option" where
  "next_block fs blocks bi buf = do {
     (r, fs) \<leftarrow> ext2_map_block fs blocks bi;
     case r of None \<Rightarrow> Some (None, buf, fs)
     | Some phys \<Rightarrow>
       if phys = 0 then Some (None, buf, fs)
       else do {
         (rc, buf, fs) \<leftarrow> ext2_read_block fs phys buf;
         Some (if rc = BLOCK_OK then Some phys else None, buf, fs) } }"

section \<open>Looking up\<close>

primrec find_blocks :: "nat \<Rightarrow> nat \<Rightarrow> u8 list \<Rightarrow> nat list \<Rightarrow> 'd ext2 \<Rightarrow> u8 list \<Rightarrow> (nat option \<times> 'd ext2) option" where
  "find_blocks 0 n name blocks fs buf = Some (None, fs)"
| "find_blocks (Suc k) n name blocks fs buf = do {
     (r, buf, fs) \<leftarrow> next_block fs blocks (n - Suc k) buf;
     case (case r of None \<Rightarrow> None | Some phys \<Rightarrow> find_scan fs buf name 0) of
       Some inum \<Rightarrow> Some (Some inum, fs)
     | None \<Rightarrow> find_blocks k n name blocks fs buf }"

definition ext2_dirent_find :: "'d ext2 \<Rightarrow> ihdr \<Rightarrow> u8 list \<Rightarrow> (nat option \<times> 'd ext2) option" where
  "ext2_dirent_find fs dir name =
    (if i_fmt dir \<noteq> EXT2_S_IFDIR then Some (None, fs)
     else if \<not> ext2_dirent_name_ok name then Some (None, fs)
     else if i_size dir > volume_bytes fs then Some (None, fs)
     else let n = dir_nblocks fs dir in
       case kmalloc_ok fs of (a, fs) \<Rightarrow>
         if \<not> a then Some (None, fs)
         else find_blocks n n name (i_block dir) fs (replicate (bsize fs) 0))"

primrec empty_blocks :: "nat \<Rightarrow> nat \<Rightarrow> nat list \<Rightarrow> 'd ext2 \<Rightarrow> u8 list \<Rightarrow> (bool \<times> 'd ext2) option" where
  "empty_blocks 0 n blocks fs buf = Some (True, fs)"
| "empty_blocks (Suc k) n blocks fs buf = do {
     (r, buf, fs) \<leftarrow> next_block fs blocks (n - Suc k) buf;
     if r \<noteq> None \<and> \<not> empty_scan fs buf 0 then Some (False, fs)
     else empty_blocks k n blocks fs buf }"

text \<open>\<open>None\<close> in the result is the return of -1.\<close>

definition ext2_dirent_is_empty :: "'d ext2 \<Rightarrow> ihdr \<Rightarrow> (bool option \<times> 'd ext2) option" where
  "ext2_dirent_is_empty fs dir =
    (if i_fmt dir \<noteq> EXT2_S_IFDIR then Some (None, fs)
     else if i_size dir > volume_bytes fs then Some (None, fs)
     else let n = dir_nblocks fs dir in
       case kmalloc_ok fs of (a, fs) \<Rightarrow>
         if \<not> a then Some (None, fs)
         else do {
           (e, fs) \<leftarrow> empty_blocks n n (i_block dir) fs (replicate (bsize fs) 0);
           Some (Some e, fs) })"

section \<open>Changing entries\<close>

primrec remove_blocks :: "nat \<Rightarrow> nat \<Rightarrow> u8 list \<Rightarrow> nat list \<Rightarrow> 'd ext2 \<Rightarrow> u8 list \<Rightarrow> (int \<times> 'd ext2) option" where
  "remove_blocks 0 n name blocks fs buf = Some (-1, fs)"
| "remove_blocks (Suc k) n name blocks fs buf = do {
     (r, buf, fs) \<leftarrow> next_block fs blocks (n - Suc k) buf;
     case r of None \<Rightarrow> remove_blocks k n name blocks fs buf
     | Some phys \<Rightarrow> (case locate_scan fs buf name 0 of
         None \<Rightarrow> remove_blocks k n name blocks fs buf
       | Some off \<Rightarrow> do {
           buf \<leftarrow> remove_at fs buf off;
           (rc, fs) \<leftarrow> ext2_write_block fs phys buf;
           Some (if rc = BLOCK_OK then 0 else -1, fs) }) }"

definition ext2_dirent_remove :: "'d ext2 \<Rightarrow> ihdr \<Rightarrow> u8 list \<Rightarrow> (int \<times> 'd ext2) option" where
  "ext2_dirent_remove fs dir name =
    (if i_fmt dir \<noteq> EXT2_S_IFDIR then Some (-1, fs)
     else if \<not> ext2_dirent_name_ok name then Some (-1, fs)
     else let fs = fs\<lparr>cached_dir_inode := 0\<rparr> in
       if i_size dir > volume_bytes fs then Some (-1, fs)
       else let n = dir_nblocks fs dir in
         case kmalloc_ok fs of (a, fs) \<Rightarrow>
           if \<not> a then Some (-1, fs)
           else remove_blocks n n name (i_block dir) fs (replicate (bsize fs) 0))"

primrec parent_blocks :: "nat \<Rightarrow> nat \<Rightarrow> nat \<Rightarrow> nat list \<Rightarrow> 'd ext2 \<Rightarrow> u8 list \<Rightarrow> (int \<times> 'd ext2) option" where
  "parent_blocks 0 n parent blocks fs buf = Some (-1, fs)"
| "parent_blocks (Suc k) n parent blocks fs buf = do {
     (r, buf, fs) \<leftarrow> next_block fs blocks (n - Suc k) buf;
     case r of None \<Rightarrow> parent_blocks k n parent blocks fs buf
     | Some phys \<Rightarrow> (case locate_scan fs buf dotdot 0 of
         None \<Rightarrow> parent_blocks k n parent blocks fs buf
       | Some off \<Rightarrow> do {
           buf \<leftarrow> set_inode_at fs buf off parent;
           (rc, fs) \<leftarrow> ext2_write_block fs phys buf;
           Some (if rc = BLOCK_OK then 0 else -1, fs) }) }"

definition ext2_dirent_set_parent :: "'d ext2 \<Rightarrow> ihdr \<Rightarrow> nat \<Rightarrow> (int \<times> 'd ext2) option" where
  "ext2_dirent_set_parent fs dir parent_inum =
    (if i_fmt dir \<noteq> EXT2_S_IFDIR then Some (-1, fs)
     else if parent_inum = 0 then Some (-1, fs)
     else if i_size dir > volume_bytes fs then Some (-1, fs)
     else let n = div_ceil_u32 (i_size dir) (bsize fs) in
       case kmalloc_ok fs of (a, fs) \<Rightarrow>
         if \<not> a then Some (-1, fs)
         else parent_blocks n n parent_inum (i_block dir) fs (replicate (bsize fs) 0))"

section \<open>Adding\<close>

text \<open>The verdict of the loop over the existing blocks, if one was reached.\<close>

primrec add_blocks :: "nat \<Rightarrow> nat \<Rightarrow> u8 list \<Rightarrow> nat \<Rightarrow> nat \<Rightarrow> nat list \<Rightarrow> 'd ext2 \<Rightarrow> u8 list
    \<Rightarrow> (int option \<times> u8 list \<times> 'd ext2) option" where
  "add_blocks 0 n name inum ft blocks fs buf = Some (None, buf, fs)"
| "add_blocks (Suc k) n name inum ft blocks fs buf = do {
     (r, buf, fs) \<leftarrow> next_block fs blocks (n - Suc k) buf;
     case r of None \<Rightarrow> add_blocks k n name inum ft blocks fs buf
     | Some phys \<Rightarrow> do {
         (st, buf) \<leftarrow> ext2_dirent_place fs buf (ext2_dirent_rec_len (length name)) name inum ft;
         if st = DIRENT_EXISTS then Some (Some EXT2_DIRENT_EXISTS, buf, fs)
         else if st = DIRENT_CORRUPT then Some (Some (-1), buf, fs)
         else if st = DIRENT_PLACED then do {
           (rc, fs) \<leftarrow> ext2_write_block fs phys buf;
           Some (Some (if rc = BLOCK_OK then 0 else -1), buf, fs) }
         else add_blocks k n name inum ft blocks fs buf } }"

text \<open>The directory grows by a block that holds only the new record.\<close>

definition add_grow :: "'d ext2 \<Rightarrow> ihdr \<Rightarrow> nat \<Rightarrow> nat \<Rightarrow> u8 list \<Rightarrow> nat \<Rightarrow> nat \<Rightarrow> u8 list
    \<Rightarrow> (int \<times> ihdr \<times> 'd ext2) option" where
  "add_grow fs dir dir_inum inum name ft n buf = do {
     (r, fs) \<leftarrow> ext2_map_block fs (i_block dir) n;
     if r \<noteq> None \<and> r \<noteq> Some 0 then Some (-1, dir, fs)
     else do {
       (r, dir', fs) \<leftarrow> ext2_map_block_alloc fs dir n;
       case r of None \<Rightarrow> Some (-1, dir', fs)
       | Some phys \<Rightarrow> do {
           buf \<leftarrow> ext2_dirent_write fs buf 0 inum name ft (bsize fs);
           (rc, fs) \<leftarrow> ext2_write_block fs phys buf;
           if rc = BLOCK_OK
           then let dir' = dir'\<lparr>i_size := wrap32 ((n + 1) * bsize fs)\<rparr> in do {
             (rc, fs) \<leftarrow> ext2_write_inode fs dir_inum dir';
             if rc \<noteq> 0 then do {
               (_, _, dir', fs) \<leftarrow> ext2_free_index fs dir' n;
               Some (-1, dir'\<lparr>i_size := i_size dir, i_blocks := i_blocks dir\<rparr>, fs) }
             else Some (0, dir', fs) }
           else do {
             (_, _, dir', fs) \<leftarrow> ext2_free_index fs dir' n;
             Some (-1, dir', fs) } } } }"

definition ext2_dirent_add :: "'d ext2 \<Rightarrow> ihdr \<Rightarrow> nat \<Rightarrow> nat \<Rightarrow> u8 list \<Rightarrow> nat \<Rightarrow> (int \<times> ihdr \<times> 'd ext2) option" where
  "ext2_dirent_add fs dir dir_inum inum name ft =
    (if inum = 0 then Some (-1, dir, fs)
     else if i_fmt dir \<noteq> EXT2_S_IFDIR then Some (-1, dir, fs)
     else if \<not> ext2_dirent_name_ok name then Some (-1, dir, fs)
     else let fs = (if cached_dir_inode fs = dir_inum then fs\<lparr>cached_dir_inode := 0\<rparr> else fs) in
       if ext2_dirent_rec_len (length name) > bsize fs then Some (-1, dir, fs)
       else if i_size dir > volume_bytes fs then Some (-1, dir, fs)
       else let n = dir_nblocks fs dir in
         case kmalloc_ok fs of (a, fs) \<Rightarrow>
           if \<not> a then Some (-1, dir, fs)
           else do {
             (v, buf, fs) \<leftarrow> add_blocks n n name inum ft (i_block dir) fs (replicate (bsize fs) 0);
             case v of Some rc \<Rightarrow> Some (rc, dir, fs)
             | None \<Rightarrow> do {
                 (rc, dir, fs) \<leftarrow> add_grow fs dir dir_inum inum name ft n buf;
                 Some (if rc = -1 then EXT2_DIRENT_NO_SPACE else rc, dir, fs) } })"

section \<open>Retiring an inode\<close>

definition ext2_inode_retire :: "'d ext2 \<Rightarrow> nat \<Rightarrow> (int \<times> 'd ext2) option" where
  "ext2_inode_retire fs inum = do {
     (r, fs) \<leftarrow> ext2_read_inode fs inum;
     case r of None \<Rightarrow> Some (-1, fs)
     | Some h \<Rightarrow>
       if i_dtime h \<noteq> 0 then Some (-1, fs)
       else let was_dir = (i_fmt h = EXT2_S_IFDIR); n = dir_nblocks fs h in do {
         (rc, fr, h, fs) \<leftarrow> ext2_free_blocks_from fs h 0 (n - 1);
         if rc \<noteq> 0 then Some (-1, fs)
         else let h = (drop_sectors (wrap32 (fr * ext2_sectors_per_block fs)) h)
                        \<lparr>i_dtime := EXT2_RETIRED_TIME, i_links := 0\<rparr> in do {
           (rc, fs) \<leftarrow> ext2_write_inode fs inum h;
           if rc \<noteq> BLOCK_OK then Some (-1, fs)
           else ext2_free_inode (if was_dir then snd (ext2_dirs_count_adjust fs inum (-1)) else fs) inum } } }"

end
