(* ===== verification/Ext2_Names.thy ===== *)
theory Ext2_Names
  imports Ext2_Dir
begin

text \<open>
  The operations of ext2 on names (\<open>kernel/kernel/fs/ext2/ext2.c\<close>): create, unlink, rename, link,
  the search behind lookup, and readdir.  A directory of the name registry is given by the inode
  number in its \<open>impl\<close>, \<open>None\<close> when it has none or belongs to another mount; \<open>clk n\<close> is the
  reading of the clock at the n-th place of the operation that takes one.
\<close>

definition inc16 :: "nat \<Rightarrow> nat" where "inc16 n = (n + 1) mod 65536"
definition dec16 :: "nat \<Rightarrow> nat" where "dec16 n = (n + 65535) mod 65536"

definition hdr_is_dir :: "ihdr \<Rightarrow> bool" where "hdr_is_dir h \<longleftrightarrow> i_fmt h = EXT2_S_IFDIR"

definition dot_name :: "u8 list \<Rightarrow> bool" where "dot_name name \<longleftrightarrow> name = dot \<or> name = dotdot"

definition ft_of :: "bool \<Rightarrow> nat" where "ft_of d = (if d then EXT2_FT_DIR else EXT2_FT_REG)"

section \<open>Create\<close>

text \<open>\<open>ext2_inode_retire\<close> followed by \<open>ext2_free_inode\<close>, the way a failed creation is undone.\<close>

definition undo_inode :: "'d ext2 \<Rightarrow> nat \<Rightarrow> 'd ext2 option" where
  "undo_inode fs inum = do {
     (_, fs) \<leftarrow> ext2_inode_retire fs inum;
     (_, fs) \<leftarrow> ext2_free_inode fs inum;
     Some fs }"

text \<open>The first block of a new directory.\<close>

definition new_dir_block :: "'d ext2 \<Rightarrow> nat \<Rightarrow> nat \<Rightarrow> ihdr \<Rightarrow> (bool \<times> 'd ext2) option" where
  "new_dir_block fs inum parent tgt = do {
     (r, fs) \<leftarrow> ext2_alloc_block fs;
     case r of None \<Rightarrow> Some (False, fs)
     | Some phys \<Rightarrow> (case kmalloc_ok fs of (a, fs) \<Rightarrow>
         if \<not> a then Some (False, snd (ext2_free_block fs phys))
         else do {
           (built, buf) \<leftarrow> ext2_dirent_init_dir fs (replicate (bsize fs) 0) inum parent;
           (rc, fs) \<leftarrow> (if built \<noteq> 0 then Some (-1, fs) else ext2_write_block fs phys buf);
           if rc \<noteq> BLOCK_OK then Some (False, snd (ext2_free_block fs phys))
           else let fs = (if cached_dir_inode fs = inum then fs\<lparr>cached_dir_inode := 0\<rparr> else fs);
                    tgt = (set_slot 0 phys tgt)\<lparr>i_size := bsize fs, i_blocks := ext2_sectors_per_block fs\<rparr>
                in do {
                  (rc, fs) \<leftarrow> ext2_write_inode fs inum tgt;
                  if rc \<noteq> BLOCK_OK then Some (False, snd (ext2_free_block fs phys)) else Some (True, fs) } }) }"

definition fresh_ihdr :: "int \<Rightarrow> bool \<Rightarrow> ihdr" where
  "fresh_ihdr cs d = ext2_stamp cs True True True
     (ihdr_zero\<lparr>i_links := (if d then 2 else 1),
        i_mode := (if d then EXT2_S_IFDIR + 493 else EXT2_S_IFREG + 420)\<rparr>)"

text \<open>The new name, and the directory that holds it written back.\<close>

definition create_name :: "int \<Rightarrow> 'd ext2 \<Rightarrow> nat \<Rightarrow> ihdr \<Rightarrow> nat \<Rightarrow> u8 list \<Rightarrow> bool \<Rightarrow> (int \<times> 'd ext2) option" where
  "create_name cs fs dnum dih inum name d = do {
     (added, dih, fs) \<leftarrow> ext2_dirent_add fs (ext2_stamp cs False True True dih) dnum inum name (ft_of d);
     if added = 0 then do {
       let dih = (if d then dih\<lparr>i_links := inc16 (i_links dih)\<rparr> else dih);
       (rc, fs) \<leftarrow> ext2_write_inode fs dnum dih;
       if rc = BLOCK_OK then Some (0, fs)
       else do {
         (_, fs) \<leftarrow> ext2_dirent_remove fs dih name;
         fs \<leftarrow> undo_inode fs inum;
         Some (PLAINERR, fs) } }
     else do {
       fs \<leftarrow> undo_inode fs inum;
       Some (if added = EXT2_DIRENT_EXISTS then EXISTS else PLAINERR, fs) } }"

definition ext2_create :: "(nat \<Rightarrow> int) \<Rightarrow> 'd ext2 \<Rightarrow> nat option \<Rightarrow> u8 list \<Rightarrow> inode_type \<Rightarrow> (int \<times> 'd ext2) option" where
  "ext2_create clk fs di name ty =
    (if read_only fs then Some (NOTSUPPORTED, fs)
     else if \<not> ext2_dirent_name_ok name then Some (INVALIDARG, fs)
     else if ty \<noteq> INODE_DIR \<and> ty \<noteq> INODE_FILE then Some (UNSUPPORTEDOP, fs)
     else case di of None \<Rightarrow> Some (INVALIDARG, fs)
     | Some dnum \<Rightarrow> do {
         (r, fs) \<leftarrow> ext2_read_inode fs dnum;
         case r of None \<Rightarrow> Some (NOTFOUND, fs)
         | Some dih \<Rightarrow>
           if \<not> hdr_is_dir dih then Some (NOTFOUND, fs)
           else do {
             (r, fs) \<leftarrow> ext2_dirent_find fs dih name;
             if r \<noteq> None then Some (EXISTS, fs)
             else do {
               (r, fs) \<leftarrow> ext2_alloc_inode fs;
               case r of None \<Rightarrow> Some (PLAINERR, fs)
               | Some inum \<Rightarrow> let d = (ty = INODE_DIR); tgt = fresh_ihdr (clk 0) d in do {
                   (rc, fs) \<leftarrow> ext2_write_inode fs inum tgt;
                   if rc \<noteq> BLOCK_OK then do {
                     (_, fs) \<leftarrow> ext2_free_inode fs inum;
                     Some (PLAINERR, fs) }
                   else do {
                     (fine, fs) \<leftarrow>
                       (if \<not> d then Some (True, fs)
                        else case ext2_dirs_count_adjust fs inum 1 of (rc, fs) \<Rightarrow>
                          if rc \<noteq> 0 then Some (False, fs) else new_dir_block fs inum dnum tgt);
                     if \<not> fine then do {
                       fs \<leftarrow> undo_inode fs inum;
                       Some (PLAINERR, fs) }
                     else create_name (clk 1) fs dnum dih inum name d } } } } })"

section \<open>Unlink\<close>

text \<open>The name is put back after a failure.\<close>

definition readd :: "'d ext2 \<Rightarrow> ihdr \<Rightarrow> nat \<Rightarrow> nat \<Rightarrow> u8 list \<Rightarrow> bool \<Rightarrow> (int \<times> 'd ext2) option" where
  "readd fs dih dnum inum name d = do {
     (_, _, fs) \<leftarrow> ext2_dirent_add fs dih dnum inum name (ft_of d);
     Some (PLAINERR, fs) }"

text \<open>A retired inode that is still named only loses the name.\<close>

definition unlink_retired :: "int \<Rightarrow> 'd ext2 \<Rightarrow> nat \<Rightarrow> ihdr \<Rightarrow> u8 list \<Rightarrow> (int \<times> 'd ext2) option" where
  "unlink_retired cs fs dnum dih name = do {
     (rc, fs) \<leftarrow> ext2_dirent_remove fs dih name;
     if rc \<noteq> 0 then Some (PLAINERR, fs)
     else do {
       (rc, fs) \<leftarrow> ext2_write_inode fs dnum (ext2_stamp cs False True True dih);
       Some (if rc \<noteq> BLOCK_OK then PLAINERR else 0, fs) } }"

text \<open>The inode keeps other links: its count drops.\<close>

definition unlink_drop :: "nat \<Rightarrow> 'd ext2 \<Rightarrow> nat \<Rightarrow> ihdr \<Rightarrow> nat \<Rightarrow> ihdr \<Rightarrow> u8 list \<Rightarrow> bool \<Rightarrow> nat \<Rightarrow> (int \<times> 'd ext2) option" where
  "unlink_drop now fs dnum dih inum tgt name d drop_n = do {
     let back_dih = (if d then dih\<lparr>i_links := inc16 (i_links dih)\<rparr> else dih);
     (rc, fs) \<leftarrow> ext2_write_inode fs inum (tgt\<lparr>i_links := i_links tgt - drop_n, i_ctime := now\<rparr>);
     if rc \<noteq> BLOCK_OK then readd fs back_dih dnum inum name d
     else do {
       (rc, fs) \<leftarrow> ext2_write_inode fs dnum dih;
       if rc = BLOCK_OK then Some (0, fs)
       else do {
         (_, fs) \<leftarrow> ext2_write_inode fs inum tgt;
         readd fs back_dih dnum inum name d } } }"

text \<open>The last link: the inode is retired.\<close>

definition unlink_last :: "'d ext2 \<Rightarrow> nat \<Rightarrow> ihdr \<Rightarrow> nat \<Rightarrow> u8 list \<Rightarrow> bool \<Rightarrow> (int \<times> 'd ext2) option" where
  "unlink_last fs dnum dih inum name d = do {
     (rc, fs) \<leftarrow> ext2_inode_retire fs inum;
     if rc = 0 then do {
       (rc, fs) \<leftarrow> ext2_write_inode fs dnum dih;
       Some (if rc = BLOCK_OK then 0 else PLAINERR, fs) }
     else do {
       (rc, dih, fs) \<leftarrow> ext2_dirent_add fs (if d then dih\<lparr>i_links := inc16 (i_links dih)\<rparr> else dih)
         dnum inum name (ft_of d);
       if rc \<noteq> 0 then Some (PLAINERR, fs)
       else if \<not> d then Some (PLAINERR, fs)
       else do {
         (_, fs) \<leftarrow> ext2_write_inode fs dnum dih;
         Some (PLAINERR, fs) } } }"

definition ext2_unlink :: "(nat \<Rightarrow> int) \<Rightarrow> 'd ext2 \<Rightarrow> nat option \<Rightarrow> u8 list \<Rightarrow> (int \<times> 'd ext2) option" where
  "ext2_unlink clk fs di name =
    (if read_only fs then Some (NOTSUPPORTED, fs)
     else if \<not> ext2_dirent_name_ok name then Some (INVALIDARG, fs)
     else case di of None \<Rightarrow> Some (INVALIDARG, fs)
     | Some dnum \<Rightarrow>
       if dot_name name then Some (UNSUPPORTEDOP, fs)
       else do {
         (r, fs) \<leftarrow> ext2_read_inode fs dnum;
         case r of None \<Rightarrow> Some (NOTFOUND, fs)
         | Some dih \<Rightarrow>
           if \<not> hdr_is_dir dih then Some (NOTFOUND, fs)
           else do {
             (r, fs) \<leftarrow> ext2_dirent_find fs dih name;
             case r of None \<Rightarrow> Some (NOTFOUND, fs)
             | Some inum \<Rightarrow> do {
                 (r, fs) \<leftarrow> ext2_read_inode fs inum;
                 case r of None \<Rightarrow> Some (NOTFOUND, fs)
                 | Some tgt \<Rightarrow> let now = ext2_now (clk 0); d = hdr_is_dir tgt in
                   if i_dtime tgt \<noteq> 0 then unlink_retired (clk 1) fs dnum dih name
                   else do {
                     (e, fs) \<leftarrow> (if d then ext2_dirent_is_empty fs tgt else Some (Some True, fs));
                     if e = None then Some (PLAINERR, fs)
                     else if e = Some False then Some (BUSY, fs)
                     else do {
                       (rc, fs) \<leftarrow> ext2_dirent_remove fs dih name;
                       if rc \<noteq> 0 then Some (PLAINERR, fs)
                       else if d \<and> i_links dih \<le> 1
                       then readd fs dih dnum inum name True
                       else let drop_n = (if d then 2 else 1);
                                dih = ext2_stamp (clk 1) False True True
                                  (if d then dih\<lparr>i_links := i_links dih - 1\<rparr> else dih)
                            in if i_links tgt > drop_n then unlink_drop now fs dnum dih inum tgt name d drop_n
                               else unlink_last fs dnum dih inum name d } } } } })"

section \<open>Rename\<close>

text \<open>Whether \<open>root_inum\<close> is met on the way up from a directory; the number of hops is bounded by
  the number of inodes.\<close>

primrec subtree_hops :: "nat \<Rightarrow> 'd ext2 \<Rightarrow> nat \<Rightarrow> nat \<Rightarrow> (bool \<times> 'd ext2) option" where
  "subtree_hops 0 fs root_inum cur = Some (False, fs)"
| "subtree_hops (Suc k) fs root_inum cur =
    (if cur = EXT2_ROOT_INO \<or> cur = 0 then Some (False, fs)
     else do {
       (r, fs) \<leftarrow> ext2_read_inode fs cur;
       case r of None \<Rightarrow> Some (False, fs)
       | Some h \<Rightarrow>
         if \<not> hdr_is_dir h then Some (False, fs)
         else do {
           (r, fs) \<leftarrow> ext2_dirent_find fs h dotdot;
           case r of None \<Rightarrow> Some (False, fs)
           | Some up \<Rightarrow>
             if up = cur then Some (False, fs)
             else if up = root_inum then Some (True, fs)
             else subtree_hops k fs root_inum up } })"

definition ext2_in_subtree :: "'d ext2 \<Rightarrow> nat \<Rightarrow> nat \<Rightarrow> (bool \<times> 'd ext2) option" where
  "ext2_in_subtree fs root_inum start_inum =
    (if root_inum = start_inum then Some (True, fs)
     else subtree_hops (inodes_count fs + 1) fs root_inum start_inum)"

text \<open>An existing entry under the new name is unlinked first.  The result is the return code to
  give up with, or the header of the new directory to go on with.\<close>

definition rename_replace :: "(nat \<Rightarrow> int) \<Rightarrow> 'd ext2 \<Rightarrow> nat \<Rightarrow> ihdr \<Rightarrow> u8 list \<Rightarrow> nat \<Rightarrow> bool
    \<Rightarrow> ((int + ihdr) \<times> 'd ext2) option" where
  "rename_replace clk fs nnum ndih new_name inum d = do {
     (r, fs) \<leftarrow> ext2_dirent_find fs ndih new_name;
     case r of None \<Rightarrow> Some (Inr ndih, fs)
     | Some existing \<Rightarrow>
       if existing = inum then Some (Inl 0, fs)
       else do {
         (r, fs) \<leftarrow> ext2_read_inode fs existing;
         case r of None \<Rightarrow> Some (Inl NOTFOUND, fs)
         | Some dst \<Rightarrow>
           if i_dtime dst \<noteq> 0 then Some (Inl NOTFOUND, fs)
           else if d \<noteq> hdr_is_dir dst then Some (Inl UNSUPPORTEDOP, fs)
           else do {
             (e, fs) \<leftarrow> (if hdr_is_dir dst then ext2_dirent_is_empty fs dst else Some (Some True, fs));
             if e = None then Some (Inl PLAINERR, fs)
             else if e = Some False then Some (Inl BUSY, fs)
             else do {
               (rep, fs) \<leftarrow> ext2_unlink (\<lambda>n. clk (n + 1)) fs (Some nnum) new_name;
               if rep \<noteq> 0 then Some (Inl rep, fs)
               else do {
                 (r, fs) \<leftarrow> ext2_read_inode fs nnum;
                 case r of None \<Rightarrow> Some (Inl NOTFOUND, fs) | Some h \<Rightarrow> Some (Inr h, fs) } } } } }"

text \<open>A directory that changes its parent: \<open>..\<close>, the link counts and both parents on the disk.
  The flag is whether this went through; if not everything has been put back.\<close>

definition rename_parents :: "(nat \<Rightarrow> int) \<Rightarrow> 'd ext2 \<Rightarrow> nat \<Rightarrow> ihdr \<Rightarrow> nat \<Rightarrow> ihdr \<Rightarrow> u8 list \<Rightarrow> ihdr
    \<Rightarrow> (bool \<times> ihdr \<times> ihdr \<times> 'd ext2) option" where
  "rename_parents clk fs onum odih nnum ndih new_name tgt = do {
     (rc, fs) \<leftarrow> ext2_dirent_set_parent fs tgt nnum;
     if rc \<noteq> 0 then do {
       (_, fs) \<leftarrow> ext2_dirent_remove fs ndih new_name;
       Some (False, odih, ndih, fs) }
     else let odih = (if i_links odih > 1 then odih\<lparr>i_links := i_links odih - 1\<rparr> else odih);
              odih = ext2_stamp (clk 4) False True True odih;
              ndih = ext2_stamp (clk 5) False True True (ndih\<lparr>i_links := inc16 (i_links ndih)\<rparr>)
          in do {
            (rc, fs) \<leftarrow> ext2_write_inode fs onum odih;
            let old_ok = (rc = BLOCK_OK);
            (rc, fs) \<leftarrow> ext2_write_inode fs nnum ndih;
            let new_ok = (rc = BLOCK_OK);
            if old_ok \<and> new_ok then Some (True, odih, ndih, fs)
            else do {
              (odih, fs) \<leftarrow> (if \<not> old_ok then Some (odih, fs)
                else let h = odih\<lparr>i_links := inc16 (i_links odih)\<rparr> in do {
                  (_, fs) \<leftarrow> ext2_write_inode fs onum h;
                  Some (h, fs) });
              (ndih, fs) \<leftarrow> (if \<not> new_ok then Some (ndih, fs)
                else let h = ndih\<lparr>i_links := dec16 (i_links ndih)\<rparr> in do {
                  (_, fs) \<leftarrow> ext2_write_inode fs nnum h;
                  Some (h, fs) });
              (_, fs) \<leftarrow> ext2_dirent_set_parent fs tgt onum;
              (_, fs) \<leftarrow> ext2_dirent_remove fs ndih new_name;
              Some (False, odih, ndih, fs) } } }"

text \<open>The old name goes, and what is not yet on the disk is written.\<close>

definition rename_finish :: "(nat \<Rightarrow> int) \<Rightarrow> 'd ext2 \<Rightarrow> nat \<Rightarrow> ihdr \<Rightarrow> u8 list \<Rightarrow> nat \<Rightarrow> ihdr \<Rightarrow> u8 list
    \<Rightarrow> nat \<Rightarrow> ihdr \<Rightarrow> bool \<Rightarrow> (int \<times> 'd ext2) option" where
  "rename_finish clk fs onum odih old_name nnum ndih new_name inum tgt moved = do {
     (rc, fs) \<leftarrow> ext2_dirent_remove fs odih old_name;
     if rc \<noteq> 0 then do {
       (_, fs) \<leftarrow> ext2_dirent_remove fs ndih new_name;
       fs \<leftarrow> (if \<not> moved then Some fs
         else do {
           (_, fs) \<leftarrow> ext2_write_inode fs onum (odih\<lparr>i_links := inc16 (i_links odih)\<rparr>);
           (_, fs) \<leftarrow> ext2_write_inode fs nnum (ndih\<lparr>i_links := dec16 (i_links ndih)\<rparr>);
           (_, fs) \<leftarrow> ext2_dirent_set_parent fs tgt onum;
           Some fs });
       Some (PLAINERR, fs) }
     else do {
       (fine, fs) \<leftarrow>
         (if moved then Some (True, fs)
          else let odih = ext2_stamp (clk 6) False True True odih; ndih = ext2_stamp (clk 7) False True True ndih in
            if onum = nnum then do {
              (rc, fs) \<leftarrow> ext2_write_inode fs nnum ndih;
              Some (rc = BLOCK_OK, fs) }
            else do {
              (rc, fs) \<leftarrow> ext2_write_inode fs onum odih;
              if rc \<noteq> BLOCK_OK then Some (False, fs)
              else do {
                (rc, fs) \<leftarrow> ext2_write_inode fs nnum ndih;
                Some (rc = BLOCK_OK, fs) } });
       if \<not> fine then Some (PLAINERR, fs)
       else do {
         (rc, fs) \<leftarrow> ext2_write_inode fs inum tgt;
         Some (if rc \<noteq> BLOCK_OK then PLAINERR else 0, fs) } } }"

definition ext2_rename_move :: "(nat \<Rightarrow> int) \<Rightarrow> 'd ext2 \<Rightarrow> nat \<Rightarrow> ihdr \<Rightarrow> u8 list \<Rightarrow> nat \<Rightarrow> ihdr \<Rightarrow> u8 list
    \<Rightarrow> nat \<Rightarrow> ihdr \<Rightarrow> (int \<times> 'd ext2) option" where
  "ext2_rename_move clk fs onum odih old_name nnum ndih new_name inum tgt =
    (let d = hdr_is_dir tgt; moves = (d \<and> onum \<noteq> nnum) in do {
       (added, ndih, fs) \<leftarrow> ext2_dirent_add fs (ext2_stamp (clk 3) False True True ndih) nnum inum new_name (ft_of d);
       if added = EXT2_DIRENT_EXISTS then Some (EXISTS, fs)
       else if added \<noteq> 0 then Some (PLAINERR, fs)
       else do {
         (fine, odih, ndih, fs) \<leftarrow>
           (if \<not> moves then Some (True, odih, ndih, fs)
            else rename_parents clk fs onum odih nnum ndih new_name tgt);
         if \<not> fine then Some (PLAINERR, fs)
         else rename_finish clk fs onum odih old_name nnum ndih new_name inum tgt moves } })"

definition ext2_rename :: "(nat \<Rightarrow> int) \<Rightarrow> 'd ext2 \<Rightarrow> nat option \<Rightarrow> u8 list \<Rightarrow> nat option \<Rightarrow> u8 list
    \<Rightarrow> (int \<times> 'd ext2) option" where
  "ext2_rename clk fs odi old_name ndi new_name =
    (if read_only fs then Some (NOTSUPPORTED, fs)
     else if \<not> ext2_dirent_name_ok old_name \<or> \<not> ext2_dirent_name_ok new_name then Some (INVALIDARG, fs)
     else if dot_name old_name \<or> dot_name new_name then Some (UNSUPPORTEDOP, fs)
     else case (odi, ndi) of
       (Some onum, Some nnum) \<Rightarrow> do {
         (ro, fs) \<leftarrow> ext2_read_inode fs onum;
         case ro of None \<Rightarrow> Some (NOTFOUND, fs)
         | Some odih \<Rightarrow> do {
             (rn, fs) \<leftarrow> ext2_read_inode fs nnum;
             case rn of None \<Rightarrow> Some (NOTFOUND, fs)
             | Some ndih \<Rightarrow>
               if \<not> hdr_is_dir odih \<or> \<not> hdr_is_dir ndih then Some (NOTFOUND, fs)
               else if onum = nnum \<and> old_name = new_name then Some (0, fs)
               else do {
                 (r, fs) \<leftarrow> ext2_dirent_find fs odih old_name;
                 case r of None \<Rightarrow> Some (NOTFOUND, fs)
                 | Some inum \<Rightarrow> do {
                     (r, fs) \<leftarrow> ext2_read_inode fs inum;
                     case r of None \<Rightarrow> Some (NOTFOUND, fs)
                     | Some tgt \<Rightarrow>
                       if i_dtime tgt \<noteq> 0 then Some (NOTFOUND, fs)
                       else let d = hdr_is_dir tgt; tgt = tgt\<lparr>i_ctime := ext2_now (clk 0)\<rparr> in do {
                         (below, fs) \<leftarrow> (if d \<and> onum \<noteq> nnum then ext2_in_subtree fs inum nnum else Some (False, fs));
                         if below then Some (BUSY, fs)
                         else do {
                           (r, fs) \<leftarrow> rename_replace clk fs nnum ndih new_name inum d;
                           case r of Inl rc \<Rightarrow> Some (rc, fs)
                           | Inr ndih \<Rightarrow>
                             ext2_rename_move clk fs onum odih old_name nnum ndih new_name inum tgt } } } } } }
     | _ \<Rightarrow> Some (INVALIDARG, fs))"

section \<open>Link\<close>

definition ext2_link :: "(nat \<Rightarrow> int) \<Rightarrow> 'd ext2 \<Rightarrow> nat option \<Rightarrow> inode_type \<Rightarrow> nat option \<Rightarrow> u8 list
    \<Rightarrow> (int \<times> 'd ext2) option" where
  "ext2_link clk fs ti ttype di name =
    (if read_only fs then Some (NOTSUPPORTED, fs)
     else if \<not> ext2_dirent_name_ok name then Some (INVALIDARG, fs)
     else case (ti, di) of
       (Some inum, Some dnum) \<Rightarrow>
         if ttype \<noteq> INODE_FILE then Some (UNSUPPORTEDOP, fs)
         else if inum = 0 \<or> inum = dnum then Some (INVALIDARG, fs)
         else do {
           (r, fs) \<leftarrow> ext2_read_inode fs inum;
           case r of None \<Rightarrow> Some (NOTFOUND, fs)
           | Some tgt \<Rightarrow>
             if i_dtime tgt \<noteq> 0 then Some (NOTFOUND, fs)
             else if i_fmt tgt \<noteq> EXT2_S_IFREG then Some (UNSUPPORTEDOP, fs)
             else do {
               (r, fs) \<leftarrow> ext2_read_inode fs dnum;
               case r of None \<Rightarrow> Some (NOTFOUND, fs)
               | Some dih \<Rightarrow>
                 if \<not> hdr_is_dir dih then Some (NOTFOUND, fs)
                 else let now = ext2_now (clk 0) in do {
                   (added, dih, fs) \<leftarrow>
                     ext2_dirent_add fs (ext2_stamp (clk 1) False True True dih) dnum inum name EXT2_FT_REG;
                   if added = EXT2_DIRENT_EXISTS then Some (EXISTS, fs)
                   else if added \<noteq> 0 then Some (PLAINERR, fs)
                   else if i_links tgt = 65535 then do {
                     (_, fs) \<leftarrow> ext2_dirent_remove fs dih name;
                     Some (BUSY, fs) }
                   else let tgt = tgt\<lparr>i_links := i_links tgt + 1, i_ctime := now\<rparr> in do {
                     (rc, fs) \<leftarrow> ext2_write_inode fs inum tgt;
                     if rc \<noteq> BLOCK_OK then do {
                       (_, fs) \<leftarrow> ext2_dirent_remove fs dih name;
                       Some (PLAINERR, fs) }
                     else do {
                       (rc, fs) \<leftarrow> ext2_write_inode fs dnum dih;
                       if rc = BLOCK_OK then Some (0, fs)
                       else do {
                         (_, fs) \<leftarrow> ext2_write_inode fs inum (tgt\<lparr>i_links := i_links tgt - 1\<rparr>);
                         (_, fs) \<leftarrow> ext2_dirent_remove fs dih name;
                         Some (PLAINERR, fs) } } } } } }
     | _ \<Rightarrow> Some (UNSUPPORTEDOP, fs))"

section \<open>Lookup\<close>

text \<open>The search of \<open>ext2_lookup\<close> on the disk, when the name registry has no entry yet: the inode
  of the name and the type its mode gives, or nothing.\<close>

definition type_of_mode :: "ihdr \<Rightarrow> inode_type option" where
  "type_of_mode h = (if i_fmt h = EXT2_S_IFDIR then Some INODE_DIR
     else if i_fmt h = EXT2_S_IFREG then Some INODE_FILE else None)"

definition lookup_disk :: "int \<Rightarrow> 'd ext2 \<Rightarrow> nat \<Rightarrow> u8 list \<Rightarrow> ((nat \<times> inode_type) option \<times> 'd ext2) option" where
  "lookup_disk cs fs dnum name = do {
     (r, fs) \<leftarrow> ext2_read_inode fs dnum;
     case r of None \<Rightarrow> Some (None, fs)
     | Some dih \<Rightarrow>
       if \<not> hdr_is_dir dih then Some (None, fs)
       else do {
         (dih, fs) \<leftarrow> ext2_touch_atime cs fs dnum dih;
         if i_size dih = 0 then Some (None, fs)
         else if i_size dih > volume_bytes fs then Some (None, fs)
         else case kmalloc_ok fs of (a, fs) \<Rightarrow>
           if \<not> a then Some (None, fs)
           else let n = div_ceil_u32 (i_size dih) (bsize fs) in do {
             (r, fs) \<leftarrow> find_blocks n n name (i_block dih) fs (replicate (bsize fs) 0);
             case r of None \<Rightarrow> Some (None, fs)
             | Some inum \<Rightarrow> do {
                 (r, fs) \<leftarrow> ext2_read_inode fs inum;
                 case r of None \<Rightarrow> Some (None, fs)
                 | Some child \<Rightarrow>
                   Some (if i_dtime child \<noteq> 0 then None
                         else map_option (Pair inum) (type_of_mode child), fs) } } } }"

section \<open>Reading a directory\<close>

record dirent_entry =
  de_name :: "u8 list"
  de_type :: inode_type
  de_size :: nat
  de_atime :: int
  de_mtime :: int
  de_ctime :: int

definition NAME_MAX :: nat where "NAME_MAX = 255"

definition cursor_next_block :: "'d ext2 \<Rightarrow> nat \<Rightarrow> nat" where
  "cursor_next_block fs off = wrap32 ((wrap32 (off div bsize fs) + 1) * bsize fs)"

text \<open>The block of the cursor, loaded into \<open>dir_buf\<close> unless it is there.\<close>

definition load_dir_block :: "'d ext2 \<Rightarrow> nat \<Rightarrow> (bool \<times> 'd ext2) option" where
  "load_dir_block fs bi =
    (if cached_dir_block fs = wrap32 (bi + 1) then Some (True, fs)
     else do {
       (r, fs) \<leftarrow> ext2_map_block fs (cached_dir_blocks fs) bi;
       case r of None \<Rightarrow> Some (False, fs\<lparr>cached_dir_block := 0\<rparr>)
       | Some phys \<Rightarrow> do {
           (rc, buf, fs) \<leftarrow> ext2_read_block fs phys (dir_buf fs);
           Some (rc = BLOCK_OK, fs\<lparr>dir_buf := buf,
             cached_dir_block := (if rc = BLOCK_OK then wrap32 (bi + 1) else 0)\<rparr>) } })"

definition entry_of :: "'d ext2 \<Rightarrow> u8 list \<Rightarrow> ihdr \<Rightarrow> inode_type \<Rightarrow> dirent_entry" where
  "entry_of fs name child ty =
    \<lparr>de_name = take NAME_MAX name, de_type = ty,
     de_size = (case ext2_inode_length fs child of Some len \<Rightarrow> wrap32 len | None \<Rightarrow> 0),
     de_atime = int (i_atime child) * 100, de_mtime = int (i_mtime child) * 100,
     de_ctime = int (i_ctime child) * 100\<rparr>"

text \<open>The loop of \<open>ext2_readdir\<close>; the result is 0 with an entry or 1 at the end, and the cursor.\<close>

partial_function (option) readdir_loop ::
  "'d ext2 \<Rightarrow> nat \<Rightarrow> nat \<Rightarrow> (int \<times> dirent_entry option \<times> nat \<times> 'd ext2) option" where
  "readdir_loop fs dsize cursor =
    (if cursor \<ge> dsize then Some (1, None, wrap32 dsize, fs)
     else if bsize fs = 0 then None
     else let bi = wrap32 (cursor div bsize fs); in_block = cursor mod bsize fs in do {
       (fine, fs) \<leftarrow> load_dir_block fs bi;
       if \<not> fine then readdir_loop fs dsize (cursor_next_block fs cursor)
       else let (st, d) = ext2_dirent_at fs (dir_buf fs) in_block in
         if st \<noteq> 1
         then readdir_loop (fs\<lparr>cached_dir_block := 0\<rparr>) dsize (cursor_next_block fs cursor)
         else if d_inode d = 0 \<or> bad_name d
         then readdir_loop fs dsize (wrap32 (cursor + d_rec_len d))
         else do {
           (r, fs) \<leftarrow> ext2_read_inode fs (d_inode d);
           case (case r of None \<Rightarrow> None
                 | Some child \<Rightarrow> if i_dtime child \<noteq> 0 then None else map_option (Pair child) (type_of_mode child)) of
             None \<Rightarrow> readdir_loop fs dsize (wrap32 (cursor + d_rec_len d))
           | Some (child, ty) \<Rightarrow>
             Some (0, Some (entry_of fs (chunk (in_block + ext2_dirent_hdr_len) (d_name_len d) (dir_buf fs)) child ty),
               wrap32 (cursor + d_rec_len d), fs) } })"

definition ext2_readdir :: "int \<Rightarrow> 'd ext2 \<Rightarrow> nat option \<Rightarrow> nat
    \<Rightarrow> (int \<times> dirent_entry option \<times> nat \<times> 'd ext2) option" where
  "ext2_readdir cs fs di cursor =
    (case di of None \<Rightarrow> Some (-1, None, cursor, fs)
     | Some dnum \<Rightarrow> do {
         (r, fs) \<leftarrow> ext2_read_inode fs dnum;
         case r of None \<Rightarrow> Some (-1, None, cursor, fs)
         | Some h \<Rightarrow>
           if \<not> hdr_is_dir h then Some (-1, None, cursor, fs)
           else do {
             (h, fs) \<leftarrow> ext2_touch_atime cs fs dnum h;
             case (if cached_dir_inode fs = dnum then Some (cached_dir_size fs, fs)
                   else map_option (\<lambda>len. (len, fs\<lparr>cached_dir_inode := dnum, cached_dir_size := len,
                     cached_dir_blocks := i_block h, cached_dir_block := 0\<rparr>)) (ext2_inode_length fs h)) of
               None \<Rightarrow> Some (-1, None, cursor, fs)
             | Some (dsize, fs) \<Rightarrow>
               if dsize = 0 then Some (1, None, cursor, fs)
               else if dir_buf fs = [] then Some (-1, None, cursor, fs)
               else readdir_loop fs dsize cursor } })"

end
