(* ===== verification/Ext2_Mount.thy ===== *)
theory Ext2_Mount
  imports Ext2_Read
begin

text \<open>
  Mounting and unmounting (\<open>ext2_mount\<close>, \<open>ext2_validate_gdt\<close> and \<open>ext2_finish\<close> of
  \<open>kernel/kernel/fs/ext2/ext2.c\<close>).  What the registry answers is an argument: the type of the
  mount point if it resolves, and whether a root inode can be allocated and attached.  A failed
  mount frees all it has built, so it leaves nothing but its return code.

  The properties say what a mount establishes: the geometry the other theories assume, and on a
  volume whose metadata blocks are distinct and marked, their invariant.
\<close>

section \<open>Checks of the superblock\<close>

definition EXT2_MAGIC :: nat where "EXT2_MAGIC = 61267"
definition EXT2_INCOMPAT_SUPPORTED :: nat where "EXT2_INCOMPAT_SUPPORTED = 2"
definition EXT2_RO_COMPAT_SUPPORTED :: nat where "EXT2_RO_COMPAT_SUPPORTED = 3"
definition EXT2_STATE_MOUNTED :: nat where "EXT2_STATE_MOUNTED = 0"
definition EXT2_STATE_CLEAN :: nat where "EXT2_STATE_CLEAN = 1"
definition EXT2_MAX_INODE_SIZE :: nat where "EXT2_MAX_INODE_SIZE = 256"

text \<open>\<open>~m\<close> of a 32-bit mask.\<close>

definition not32 :: "nat \<Rightarrow> nat" where "not32 m = 4294967295 - m"

definition sb_bsize :: "superblock \<Rightarrow> nat" where
  "sb_bsize sb = 1024 * 2 ^ s_log_block_size sb"

definition sb_groups :: "superblock \<Rightarrow> nat" where
  "sb_groups sb = div_ceil_u32 (s_blocks_count sb - s_first_data_block sb) (s_blocks_per_group sb)"

definition sb_inode_size :: "superblock \<Rightarrow> nat" where
  "sb_inode_size sb = (if s_rev_level sb = 0 then 128 else s_inode_size sb)"

definition sb_shape_ok :: "'d block_dev \<Rightarrow> superblock \<Rightarrow> bool" where
  "sb_shape_ok dev sb \<longleftrightarrow>
     s_magic sb = EXT2_MAGIC \<and> \<not> s_rev_level sb > 1 \<and> \<not> s_log_block_size sb > 2
     \<and> \<not> (s_blocks_count sb = 0 \<or> s_inodes_count sb = 0)
     \<and> \<not> (s_blocks_per_group sb = 0 \<or> s_inodes_per_group sb = 0)
     \<and> \<not> s_blocks_per_group sb > 8 * sb_bsize sb \<and> \<not> s_inodes_per_group sb > 8 * sb_bsize sb
     \<and> s_first_data_block sb = (if sb_bsize sb = 1024 then 1 else 0)
     \<and> \<not> s_blocks_count sb * sb_bsize sb > wrap64 (block_size dev * block_count dev)
     \<and> sb_groups sb \<noteq> 0
     \<and> \<not> s_inodes_count sb > sb_groups sb * s_inodes_per_group sb"

definition sb_inodes_ok :: "superblock \<Rightarrow> bool" where
  "sb_inodes_ok sb \<longleftrightarrow> s_rev_level sb = 0 \<or>
     \<not> (s_inode_size sb < 128 \<or> s_inode_size sb AND (s_inode_size sb - 1) \<noteq> 0
        \<or> s_inode_size sb > sb_bsize sb \<or> s_inode_size sb > EXT2_MAX_INODE_SIZE)
     \<and> \<not> (s_first_inode sb < 11 \<or> s_first_inode sb > s_inodes_count sb)"

section \<open>Building the state\<close>

definition ext2_blank :: "'d block_dev \<Rightarrow> bool list \<Rightarrow> 'd ext2" where
  "ext2_blank dev as = \<lparr>e_dev = dev, e_sb = bytes_sb (replicate sb_len 0), bsize = 0, first_data_block = 0,
     group_count = 0, inode_size = 0, first_inode = 0, inodes_per_block = 0, addrs_per_block = 0,
     gdt_blocks = 0, gdt = [], e_incompat = 0, e_ro_compat = 0, has_filetype = False, large_files = False,
     read_only = False, sb_dirty = False, gdt_dirty = False, dir_buf = [], cached_dir_inode = 0,
     cached_dir_block = 0, cached_dir_size = 0, cached_dir_blocks = replicate 15 0,
     inode_cache = replicate EXT2_INODE_CACHE_SLOTS \<lparr>ic_num = 0, ic_hdr = ihdr_zero\<rparr>,
     inode_cache_next = 0, cached_indirect_block = 0, cached_indirect_buf = [],
     block_bitmap = \<lparr>bc_buf = [], bc_cached = 0, bc_dirty = False\<rparr>,
     inode_bitmap = \<lparr>bc_buf = [], bc_cached = 0, bc_dirty = False\<rparr>,
     block_alloc_hint = 0, inode_alloc_hint = 0, inode_list = [], pending_free = [],
     pending_free_cap = 0, answers = as\<rparr>"

definition mount_params :: "superblock \<Rightarrow> 'd ext2 \<Rightarrow> 'd ext2" where
  "mount_params sb fs =
    (let old = (s_rev_level sb = 0);
         insz = sb_inode_size sb;
         incompat = if old then 0 else s_feature_incompat sb;
         ro = if old then 0 else s_feature_ro_compat sb in
     fs\<lparr>e_sb := sb, bsize := sb_bsize sb, first_data_block := s_first_data_block sb,
        group_count := sb_groups sb, inode_size := insz,
        first_inode := (if old then 11 else s_first_inode sb), e_incompat := incompat, e_ro_compat := ro,
        has_filetype := bit incompat 1, large_files := bit ro 1,
        addrs_per_block := sb_bsize sb div 4, inodes_per_block := sb_bsize sb div insz\<rparr>)"

text \<open>The four buffers of one block each, cleared by the allocator.\<close>

definition mount_buffers :: "'d ext2 \<Rightarrow> bool \<times> 'd ext2" where
  "mount_buffers fs = (let z = replicate (bsize fs) 0; bc = \<lparr>bc_buf = z, bc_cached = 0, bc_dirty = False\<rparr> in
     case kmalloc_ok fs of (a, fs) \<Rightarrow> if \<not> a then (False, fs) else
     case kmalloc_ok (fs\<lparr>cached_indirect_buf := z\<rparr>) of (a, fs) \<Rightarrow> if \<not> a then (False, fs) else
     case kmalloc_ok (fs\<lparr>dir_buf := z\<rparr>) of (a, fs) \<Rightarrow> if \<not> a then (False, fs) else
     case kmalloc_ok (fs\<lparr>block_bitmap := bc\<rparr>) of (a, fs) \<Rightarrow> if \<not> a then (False, fs) else
       (True, fs\<lparr>inode_bitmap := bc\<rparr>))"

primrec load_gdt :: "nat \<Rightarrow> nat \<Rightarrow> u8 list \<Rightarrow> 'd ext2 \<Rightarrow> (bool \<times> u8 list \<times> 'd ext2) option" where
  "load_gdt 0 i tab fs = Some (True, tab, fs)"
| "load_gdt (Suc k) i tab fs = do {
     (rc, b, fs) \<leftarrow> ext2_read_block fs (wrap32 (first_data_block fs + 1 + i)) (chunk (i * bsize fs) (bsize fs) tab);
     if rc \<noteq> BLOCK_OK then Some (False, tab, fs)
     else load_gdt k (Suc i) (patch (i * bsize fs) b tab) fs }"

definition mount_gdt :: "'d ext2 \<Rightarrow> (bool \<times> 'd ext2) option" where
  "mount_gdt fs = (let gb = group_count fs * gdesc_len; n = (gb + bsize fs - 1) div bsize fs;
       total_bytes = n * bsize fs in
     if n = 0 \<or> n > 4294967295 then Some (False, fs)
     else if first_data_block fs + 1 + n > blocks_count fs then Some (False, fs)
     else if total_bytes = 0 \<or> total_bytes > 4294967295 then Some (False, fs)
     else case kmalloc_ok (fs\<lparr>gdt_blocks := n\<rparr>) of (a, fs) \<Rightarrow>
       if \<not> a then Some (False, fs)
       else do {
         (ok, tab, fs) \<leftarrow> load_gdt n 0 (replicate total_bytes 0) fs;
         Some (ok, fs\<lparr>gdt := bytes_gdt (total_bytes div gdesc_len) tab\<rparr>) })"

text \<open>\<open>ext2_validate_gdt\<close> returns whether every group's metadata lies inside the volume.\<close>

definition ext2_validate_gdt :: "'d ext2 \<Rightarrow> bool" where
  "ext2_validate_gdt fs =
    (let itables = div_ceil_u32 (wrap32 (inode_size fs * ipg fs)) (bsize fs) in
     list_all (\<lambda>i. let gd = gdt fs ! i in
         \<not> (bg_block_bitmap gd \<ge> blocks_count fs \<or> bg_inode_bitmap gd \<ge> blocks_count fs)
         \<and> \<not> bg_inode_table gd \<ge> blocks_count fs
         \<and> \<not> bg_inode_table gd + itables > blocks_count fs) [0..<group_count fs])"

definition set_state :: "nat \<Rightarrow> 'd ext2 \<Rightarrow> 'd ext2" where
  "set_state n fs = fs\<lparr>e_sb := (e_sb fs)\<lparr>s_state := n\<rparr>\<rparr>"

text \<open>A writable volume is marked as mounted; when that fails it is mounted read-only.\<close>

definition mount_mark :: "'d ext2 \<Rightarrow> 'd ext2 option" where
  "mount_mark fs =
    (if read_only fs then Some fs
     else do {
       (rc, fs) \<leftarrow> write_sb (set_state EXT2_STATE_MOUNTED fs);
       Some (if rc \<noteq> BLOCK_OK then (set_state EXT2_STATE_CLEAN fs)\<lparr>read_only := True\<rparr> else fs) })"

definition mount_attached :: "inode_type option \<Rightarrow> bool \<Rightarrow> bool \<Rightarrow> 'd ext2 \<Rightarrow> (int \<times> 'd ext2 option) option" where
  "mount_attached mp node_ok attach_ok fs =
    (if mp \<noteq> Some INODE_DIR \<or> \<not> node_ok then Some (PLAINERR, None)
     else case kmalloc_ok fs of (a, fs) \<Rightarrow>
       if \<not> a \<or> \<not> attach_ok then Some (PLAINERR, None)
       else do {
         fs \<leftarrow> mount_mark (fs\<lparr>inode_list := EXT2_ROOT_INO # inode_list fs\<rparr>);
         Some (0, Some fs) })"

definition mount_volume :: "inode_type option \<Rightarrow> bool \<Rightarrow> bool \<Rightarrow> 'd ext2 \<Rightarrow> (int \<times> 'd ext2 option) option" where
  "mount_volume mp node_ok attach_ok fs =
    (case mount_buffers fs of (a, fs) \<Rightarrow>
     if \<not> a then Some (PLAINERR, None)
     else do {
       (ok, fs) \<leftarrow> mount_gdt fs;
       if \<not> ok \<or> \<not> ext2_validate_gdt fs then Some (PLAINERR, None)
       else mount_attached mp node_ok attach_ok
         (fs\<lparr>read_only := e_ro_compat fs AND not32 EXT2_RO_COMPAT_SUPPORTED \<noteq> 0
             \<or> s_state (e_sb fs) \<noteq> EXT2_STATE_CLEAN\<rparr>) })"

definition ext2_mount :: "'d block_dev option \<Rightarrow> bool list \<Rightarrow> inode_type option \<Rightarrow> bool \<Rightarrow> bool
    \<Rightarrow> (int \<times> 'd ext2 option) option" where
  "ext2_mount dev as mp node_ok attach_ok = (case dev of None \<Rightarrow> Some (NOTFOUND, None)
   | Some dev \<Rightarrow>
     if wrap64 (block_count dev * block_size dev) < 2048 then Some (PLAINERR, None)
     else case kmalloc_ok (ext2_blank dev as) of (a, fs) \<Rightarrow>
     if \<not> a then Some (PLAINERR, None)
     else case kmalloc_ok fs of (a, fs) \<Rightarrow>
     if \<not> a then Some (PLAINERR, None)
     else do {
       (rc, buf, fs) \<leftarrow> dev_read fs 1024 (replicate sb_len 0);
       if rc \<noteq> BLOCK_OK then Some (PLAINERR, None)
       else let sb = bytes_sb buf in
       if \<not> sb_shape_ok dev sb \<or> \<not> sb_inodes_ok sb then Some (PLAINERR, None)
       else let fs = mount_params sb fs in
       if e_incompat fs AND not32 EXT2_INCOMPAT_SUPPORTED \<noteq> 0 then Some (PLAINERR, None)
       else mount_volume mp node_ok attach_ok fs })"

section \<open>Unmounting\<close>

text \<open>The part of \<open>ext2_finish\<close> that touches the volume; the rest frees the state.\<close>

definition ext2_finish :: "'d ext2 \<Rightarrow> 'd ext2 option" where
  "ext2_finish fs =
    (if read_only fs then Some fs
     else do {
       (_, fs) \<leftarrow> ext2_pending_free_flush fs;
       (rc, fs) \<leftarrow> ext2_sync_metadata fs;
       if rc = BLOCK_OK then do {
         (_, fs) \<leftarrow> write_sb (set_state EXT2_STATE_CLEAN fs);
         Some (set_state EXT2_STATE_CLEAN fs) }
       else Some fs })"


section \<open>What the checks give\<close>

lemma wrap64_le: "wrap64 n \<le> n" by (simp add: wrap64_def)

lemma sb_bsize_cases: "\<not> s_log_block_size sb > 2 \<Longrightarrow> sb_bsize sb = 1024 \<or> sb_bsize sb = 2048 \<or> sb_bsize sb = 4096"
proof -
  assume "\<not> s_log_block_size sb > 2"
  then have "s_log_block_size sb = 0 \<or> s_log_block_size sb = 1 \<or> s_log_block_size sb = 2" by linarith
  then show ?thesis by (auto simp: sb_bsize_def)
qed

lemma div_ceil_bounds:
  assumes "div_ceil_u32 n b \<noteq> 0" "n < 4294967296" "0 < b"
  shows "0 < n" "n \<le> div_ceil_u32 n b * b" "(div_ceil_u32 n b - 1) * b < n"
proof -
  have n0: "0 < n"
  proof (rule ccontr)
    assume "\<not> 0 < n"
    then have "(n + b - 1) div b = 0" using assms(3) by simp
    then show False using assms(1) by (simp add: div_ceil_u32_def)
  qed
  then show "0 < n" .
  have "(n + b - 1) div b \<le> n"
  proof (rule ccontr)
    assume "\<not> (n + b - 1) div b \<le> n"
    then have "Suc n * b \<le> (n + b - 1) div b * b" by (intro mult_le_mono1) simp
    also have "\<dots> \<le> n + b - 1" by (rule div_times_less_eq_dividend)
    finally have "n * b + b \<le> n + b - 1" by simp
    moreover have "n \<le> n * b" using assms(3) by simp
    ultimately show False using n0 assms(3) by linarith
  qed
  then have d: "div_ceil_u32 n b = (n + b - 1) div b" using assms(2) by (simp add: div_ceil_u32_def)
  show "n \<le> div_ceil_u32 n b * b" unfolding d by (rule ceil_mult [OF assms(3)])
  have "div_ceil_u32 n b * b \<le> n + b - 1" unfolding d by (rule div_times_less_eq_dividend)
  moreover have "(div_ceil_u32 n b - 1) * b = div_ceil_u32 n b * b - b" by (simp add: diff_mult_distrib)
  ultimately show "(div_ceil_u32 n b - 1) * b < n" using n0 assms(3) by linarith
qed

lemma pow2_range: "128 \<le> n \<Longrightarrow> n \<le> (256 :: nat) \<Longrightarrow> n AND (n - 1) = 0 \<Longrightarrow> n = 128 \<or> n = 256"
proof (rule ccontr)
  assume n: "128 \<le> n" "n \<le> 256" "n AND (n - 1) = 0" "\<not> (n = 128 \<or> n = 256)"
  then have "128 < n" "n < 256" by auto
  then have "n div 128 = 1" "(n - 1) div 128 = 1" by linarith+
  then have "bit n 7" "bit (n - 1) 7" by (simp_all add: bit_iff_odd)
  then have "bit (n AND (n - 1)) 7" by (simp only: bit_and_iff)
  then show False unfolding n(3) by simp
qed

lemma inodes_ok_size: "sb_inodes_ok sb \<Longrightarrow> s_rev_level sb \<noteq> 0
  \<Longrightarrow> (s_inode_size sb = 128 \<or> s_inode_size sb = 256) \<and> 11 \<le> s_first_inode sb"
  using pow2_range [of "s_inode_size sb"] by (auto simp: sb_inodes_ok_def EXT2_MAX_INODE_SIZE_def not_less)

text \<open>The state once the parameters are set: nothing is cached.\<close>

definition params_ok :: "'d block_dev \<Rightarrow> superblock \<Rightarrow> 'd ext2 \<Rightarrow> bool" where
  "params_ok dev sb fs \<longleftrightarrow> e_dev fs = dev \<and> e_sb fs = sb \<and> sb_shape_ok dev sb \<and> bsize fs = sb_bsize sb
     \<and> first_data_block fs = s_first_data_block sb \<and> group_count fs = sb_groups sb
     \<and> (sb_inode_size sb = 128 \<or> sb_inode_size sb = 256) \<and> inodes_per_block fs = bsize fs div inode_size fs
     \<and> addrs_per_block fs = bsize fs div 4 \<and> 11 \<le> first_inode fs
     \<and> inode_cache fs = replicate EXT2_INODE_CACHE_SLOTS \<lparr>ic_num = 0, ic_hdr = ihdr_zero\<rparr>
     \<and> inode_cache_next fs = 0 \<and> cached_indirect_block fs = 0 \<and> cached_dir_inode fs = 0 \<and> pending_free fs = []
     \<and> inode_size fs = sb_inode_size sb"

lemma params_okD:
  assumes "params_ok dev sb fs"
  shows "e_dev fs = dev" "e_sb fs = sb" "sb_shape_ok dev sb" "bsize fs = sb_bsize sb"
    "first_data_block fs = s_first_data_block sb" "group_count fs = sb_groups sb"
    "inode_size fs = 128 \<or> inode_size fs = 256" "inodes_per_block fs = bsize fs div inode_size fs"
    "addrs_per_block fs = bsize fs div 4" "11 \<le> first_inode fs"
    "inode_cache fs = replicate EXT2_INODE_CACHE_SLOTS \<lparr>ic_num = 0, ic_hdr = ihdr_zero\<rparr>"
    "inode_cache_next fs = 0" "cached_indirect_block fs = 0" "cached_dir_inode fs = 0" "pending_free fs = []"
    "inode_size fs = sb_inode_size sb"
  using assms by (simp_all add: params_ok_def)

lemma shape_geom:
  assumes "sb_shape_ok dev sb" "s_blocks_count sb < 4294967296"
  shows "s_first_data_block sb \<le> 1" "s_first_data_block sb < s_blocks_count sb"
    "(sb_groups sb - 1) * s_blocks_per_group sb < s_blocks_count sb - s_first_data_block sb"
    "s_blocks_count sb - s_first_data_block sb \<le> sb_groups sb * s_blocks_per_group sb"
    "sb_bsize sb = 1024 \<or> sb_bsize sb = 2048 \<or> sb_bsize sb = 4096"
    "s_blocks_count sb * sb_bsize sb \<le> block_size dev * block_count dev"
proof -
  have p: "sb_groups sb \<noteq> 0" "0 < s_blocks_per_group sb" using assms(1) by (simp_all add: sb_shape_ok_def)
  have "s_blocks_count sb - s_first_data_block sb < 4294967296" using assms(2) by simp
  note b = div_ceil_bounds [OF p(1) [unfolded sb_groups_def] this p(2), folded sb_groups_def]
  show "s_first_data_block sb \<le> 1" using assms(1) by (simp add: sb_shape_ok_def)
  show "s_first_data_block sb < s_blocks_count sb" using b(1) by simp
  show "(sb_groups sb - 1) * s_blocks_per_group sb < s_blocks_count sb - s_first_data_block sb"
    "s_blocks_count sb - s_first_data_block sb \<le> sb_groups sb * s_blocks_per_group sb" by (rule b)+
  show "sb_bsize sb = 1024 \<or> sb_bsize sb = 2048 \<or> sb_bsize sb = 4096"
    by (rule sb_bsize_cases) (use assms(1) in \<open>simp add: sb_shape_ok_def\<close>)
  show "s_blocks_count sb * sb_bsize sb \<le> block_size dev * block_count dev"
    using assms(1) wrap64_le [of "block_size dev * block_count dev"] by (simp add: sb_shape_ok_def)
qed

section \<open>The steps of a mount\<close>

lemma kmalloc_ok_eq: "kmalloc_ok fs = (answers fs \<noteq> [] \<and> hd (answers fs), fs\<lparr>answers := tl (answers fs)\<rparr>)"
  by (cases fs; cases "answers fs") (simp_all add: kmalloc_ok_def)

lemma mount_params_ok:
  assumes "same_but_dev (ext2_blank dev as) f" "e_dev f = dev" "sb_shape_ok dev sb" "sb_inodes_ok sb"
  shows "params_ok dev sb (mount_params sb f)"
proof -
  note d = same_but_devD [OF assms(1)]
  have il: "cached_dir_inode f = 0" "inode_cache_next f = 0"
    using assms(1) by (cases f; simp add: same_but_dev_def ext2_blank_def)+
  have bl: "cached_indirect_block (ext2_blank dev as) = 0" "pending_free (ext2_blank dev as) = []"
    "inode_cache (ext2_blank dev as) = replicate EXT2_INODE_CACHE_SLOTS \<lparr>ic_num = 0, ic_hdr = ihdr_zero\<rparr>"
    by (simp_all add: ext2_blank_def)
  show ?thesis
    using inodes_ok_size [OF assms(4)] assms(2,3)
    by (simp add: params_ok_def mount_params_def Let_def il d(16,17,19) bl sb_inode_size_def)
qed

definition bufs_ok :: "'d ext2 \<Rightarrow> bool" where
  "bufs_ok fs \<longleftrightarrow> length (cached_indirect_buf fs) = bsize fs \<and> length (dir_buf fs) = bsize fs
     \<and> (\<forall>s. bc_cached (get_bm s fs) = 0 \<and> \<not> bc_dirty (get_bm s fs) \<and> length (bc_buf (get_bm s fs)) = bsize fs)"

lemma mount_buffers_ok:
  assumes "mount_buffers fs = (a, fs')" "params_ok dev sb fs" "a"
  shows "params_ok dev sb fs'" "bufs_ok fs'" "e_ro_compat fs' = e_ro_compat fs"
proof -
  define z where "z = replicate (bsize fs) (0 :: u8)"
  define bc where "bc = \<lparr>bc_buf = z, bc_cached = 0, bc_dirty = False\<rparr>"
  have e: "\<exists>as. fs' = fs\<lparr>cached_indirect_buf := z, dir_buf := z, block_bitmap := bc, answers := as, inode_bitmap := bc\<rparr>"
    using assms(1,3) unfolding mount_buffers_def Let_def kmalloc_ok_eq z_def [symmetric] bc_def [symmetric]
    by (auto split: if_splits)
  then show "params_ok dev sb fs'" using assms(2) by (auto simp: params_ok_def)
  show "e_ro_compat fs' = e_ro_compat fs" using e by auto
  have "bc_cached (get_bm s fs') = 0 \<and> \<not> bc_dirty (get_bm s fs') \<and> length (bc_buf (get_bm s fs')) = bsize fs'" for s
    using e by (cases s) (auto simp: bc_def z_def)
  then show "bufs_ok fs'" using e by (auto simp: bufs_ok_def z_def)
qed

lemma same_more:
  assumes "same_but_dev fs fs'"
  shows "dir_buf fs' = dir_buf fs" "cached_dir_inode fs' = cached_dir_inode fs" "inode_list fs' = inode_list fs"
    "e_ro_compat fs' = e_ro_compat fs" "inode_cache_next fs' = inode_cache_next fs"
proof -
  have e: "fs' = fs\<lparr>e_dev := e_dev fs', answers := answers fs'\<rparr>" using assms by (simp add: same_but_dev_def)
  show "dir_buf fs' = dir_buf fs" "cached_dir_inode fs' = cached_dir_inode fs" "inode_list fs' = inode_list fs"
    "e_ro_compat fs' = e_ro_compat fs" "inode_cache_next fs' = inode_cache_next fs" by (subst e; simp)+
qed

lemma params_same:
  assumes "params_ok dev sb fs" "same_but_dev fs fs'"
  shows "params_ok (e_dev fs') sb fs' = sb_shape_ok (e_dev fs') sb"
  using assms(1) unfolding params_ok_def same_but_devD [OF assms(2)] same_more [OF assms(2)] by blast

lemma get_bm_ro: "get_bm s (fs\<lparr>read_only := r\<rparr>) = get_bm s fs"
  by (cases s; simp)

lemma get_bm_gdt [simp]: "get_bm s (fs\<lparr>gdt_blocks := n\<rparr>) = get_bm s fs" "get_bm s (fs\<lparr>gdt := t\<rparr>) = get_bm s fs"
  by (cases s; simp)+

lemma bufs_same: "same_but_dev fs fs' \<Longrightarrow> bufs_ok fs' = bufs_ok fs"
  by (simp add: bufs_ok_def same_but_devD [of fs fs'] same_more [of fs fs'] get_bm_same [of fs fs'])

lemma bytes_gdt_nth: "g < n \<Longrightarrow> bytes_gdt n bs ! g = bytes_gdesc (chunk (g * gdesc_len) gdesc_len bs)"
proof (induction n arbitrary: g bs)
  case (Suc n)
  then show ?case by (cases g) (simp_all add: chunk_def add.commute)
qed simp

lemma chunk_append: "chunk a (n + m) xs = chunk a n xs @ chunk (a + n) m xs"
  by (simp add: chunk_def take_add) (simp add: add.commute)


text \<open>The table in memory is the one on the disk.\<close>

definition disk_gdesc :: "('d \<Rightarrow> u8 list) \<Rightarrow> 'd ext2 \<Rightarrow> nat \<Rightarrow> gdesc" where
  "disk_gdesc content fs g = bytes_gdesc
     (chunk ((first_data_block fs + 1) * bsize fs + g * gdesc_len) gdesc_len (content (impl (e_dev fs))))"

definition gdt_rows :: "'d ext2 \<Rightarrow> nat" where
  "gdt_rows fs = (group_count fs * gdesc_len + bsize fs - 1) div bsize fs"

definition gdt_fits :: "'d ext2 \<Rightarrow> bool" where
  "gdt_fits fs \<longleftrightarrow> first_data_block fs + gdt_blocks fs < blocks_count fs \<and> gdt_blocks fs = gdt_rows fs"

context failstop_device
begin

lemma load_gdt_ok:
  assumes "at fs" "first_data_block fs + 1 + (i + k) \<le> blocks_count fs" "length tab = (i + k) * bsize fs"
    "take (i * bsize fs) tab = chunk ((first_data_block fs + 1) * bsize fs) (i * bsize fs) (bytes fs)"
  shows "\<exists>ok tab' fs'. load_gdt k i tab fs = Some (ok, tab', fs') \<and> same_but_dev fs fs' \<and> e_dev fs' = e_dev fs \<and> at fs'
    \<and> (ok \<longrightarrow> tab' = chunk ((first_data_block fs + 1) * bsize fs) ((i + k) * bsize fs) (bytes fs))"
  using assms
proof (induction k arbitrary: i tab fs)
  case 0
  then show ?case by (auto intro!: exI [of _ True])
next
  case (Suc k)
  define b where "b = first_data_block fs + 1 + i"
  have b: "b < blocks_count fs" "wrap32 b = b"
    using Suc.prems(1,2) by (simp_all add: b_def on_device_def)
  have inb: "i * bsize fs + bsize fs \<le> length tab" using Suc.prems(3) by simp
  have "length (chunk (i * bsize fs) (bsize fs) tab) = bsize fs" by (rule length_chunk [OF inb])
  from read_block_ok [OF Suc.prems(1) this, of b] obtain rc c f where r:
    "ext2_read_block fs b (chunk (i * bsize fs) (bsize fs) tab) = Some (rc, c, f)" "same_but_dev fs f"
    "e_dev f = e_dev fs" "at f" "length c = bsize fs" "rc = BLOCK_OK \<longrightarrow> c = blk content fs b" by blast
  show ?case
  proof (cases "rc = BLOCK_OK")
    case False
    then have "load_gdt (Suc k) i tab fs = Some (False, tab, f)"
      unfolding load_gdt.simps(2) b_def [symmetric] b(2) r(1) by simp
    then show ?thesis using r(2-4) by blast
  next
    case True
    note d = same_but_devD(1,2,3) [OF r(2)]
    define tab2 where "tab2 = patch (i * bsize fs) c tab"
    have l2: "length tab2 = (Suc i + k) * bsize f"
      unfolding tab2_def using length_patch [of "i * bsize fs" c tab] inb r(5) Suc.prems(3) d by simp
    have "take (Suc i * bsize fs) tab2 = take (i * bsize fs) tab @ c"
      using inb r(5) by (simp add: tab2_def patch_def min_def)
    also have "\<dots> = chunk ((first_data_block fs + 1) * bsize fs) (i * bsize fs) (bytes fs)
        @ chunk (b * bsize fs) (bsize fs) (bytes fs)"
      using Suc.prems(4) r(6) True by (simp add: blk_def)
    also have "b * bsize fs = (first_data_block fs + 1) * bsize fs + i * bsize fs"
      by (simp add: b_def algebra_simps)
    finally have t2: "take (Suc i * bsize fs) tab2
        = chunk ((first_data_block fs + 1) * bsize fs) (Suc i * bsize fs) (bytes fs)"
      unfolding mult_Suc add.commute [of "bsize fs" "i * bsize fs"] chunk_append .
    have p: "first_data_block f + 1 + (Suc i + k) \<le> blocks_count f"
      "take (Suc i * bsize f) tab2 = chunk ((first_data_block f + 1) * bsize f) (Suc i * bsize f) (bytes f)"
      using Suc.prems(2) t2 d r(3) by simp_all
    from Suc.IH [OF r(4) p(1) l2 p(2)] obtain ok tab' fs' where h:
      "load_gdt k (Suc i) tab2 f = Some (ok, tab', fs')" "same_but_dev f fs'" "e_dev fs' = e_dev f" "at fs'"
      "ok \<longrightarrow> tab' = chunk ((first_data_block f + 1) * bsize f) ((Suc i + k) * bsize f) (bytes f)" by blast
    have "load_gdt (Suc k) i tab fs = Some (ok, tab', fs')"
      unfolding load_gdt.simps(2) b_def [symmetric] b(2) r(1) using True h(1) d(2) by (simp add: tab2_def)
    then show ?thesis using same_but_dev_trans [OF r(2) h(2)] h(3,4,5) r(3) d by simp
  qed
qed

lemma at_params:
  assumes "params_ok dev sb fs" "op_read dev = rd" "op_write dev = Some wr"
    "good (block_size dev) (block_count dev) (impl dev)" "s_blocks_count sb < 4294967296"
  shows "at fs"
proof -
  note p = params_okD [OF assms(1)] and g = shape_geom(5,6) [OF params_okD(3) [OF assms(1)] assms(5)]
  show ?thesis using assms(2-5) g by (auto simp: on_device_def p(1,2,4) mult.commute)
qed

lemma mount_gdt_ok:
  assumes p: "params_ok dev sb fs" and bo: "bufs_ok fs" and a: "at fs" and b32: "blocks_count fs < 4294967296"
  shows "\<exists>ok fs'. mount_gdt fs = Some (ok, fs') \<and> params_ok dev sb fs' \<and> bufs_ok fs' \<and> at fs'
    \<and> e_ro_compat fs' = e_ro_compat fs \<and> inode_size fs' = inode_size fs
    \<and> (ok \<longrightarrow> group_count fs' \<le> length (gdt fs') \<and> gdt_fits fs'
         \<and> (\<forall>g<group_count fs'. gdt fs' ! g = disk_gdesc content fs' g))"
proof -
  define n where "n = (group_count fs * gdesc_len + bsize fs - 1) div bsize fs"
  have bs: "0 < bsize fs" "gdesc_len dvd bsize fs"
    using shape_geom(5) [OF params_okD(3) [OF p]] b32 params_okD(2,4) [OF p] by (auto simp: dvd_def)
  show ?thesis
  proof (cases "n = 0 \<or> n > 4294967295 \<or> first_data_block fs + 1 + n > blocks_count fs
      \<or> n * bsize fs = 0 \<or> n * bsize fs > 4294967295")
    case True
    then have "mount_gdt fs = Some (False, fs)"
      unfolding mount_gdt_def Let_def n_def [symmetric] by auto
    then show ?thesis using p bo a by blast
  next
    case False
    obtain al f where k: "kmalloc_ok (fs\<lparr>gdt_blocks := n\<rparr>) = (al, f)" by fastforce
    define f0 where "f0 = fs\<lparr>gdt_blocks := n\<rparr>"
    note ks = kmalloc_ok_same [OF k [folded f0_def]]
    have af0: "at f0" using a by (simp add: on_device_def f0_def)
    have pf0: "params_ok dev sb f0" "bufs_ok f0" "e_ro_compat f0 = e_ro_compat fs \<and> inode_size f0 = inode_size fs"
      "bsize f0 = bsize fs" "first_data_block f0 = first_data_block fs" "blocks_count f0 = blocks_count fs"
      "gdt_blocks f0 = n" "group_count f0 = group_count fs" "e_dev f0 = e_dev fs"
      using p bo by (simp_all add: f0_def params_ok_def bufs_ok_def)
    have af: "at f" by (rule at_alloc [OF af0 k [folded f0_def]])
    note d = same_but_devD(1,2,3,4,9,5) [OF conjunct1 [OF ks]]
    have pf: "params_ok dev sb f"
      using params_same [OF pf0(1) conjunct1 [OF ks]] params_okD(1,3) [OF pf0(1)] ks by simp
    have bf: "bufs_ok f" using bufs_same [OF conjunct1 [OF ks]] pf0(2) by simp
    have rf: "e_ro_compat f = e_ro_compat fs \<and> inode_size f = inode_size fs"
      using same_more(4) [OF conjunct1 [OF ks]] pf0(3) d(6) by simp
    show ?thesis
    proof (cases al)
      case no: False
      then have "mount_gdt fs = Some (False, f)"
        using False k unfolding mount_gdt_def Let_def n_def [symmetric] by auto
      then show ?thesis using pf bf af rf by blast
    next
      case yes: True
      define tab where "tab = replicate (n * bsize fs) (0 :: u8)"
      have pre: "first_data_block f + 1 + (0 + n) \<le> blocks_count f" "length tab = (0 + n) * bsize f"
        "take (0 * bsize f) tab = chunk ((first_data_block f + 1) * bsize f) (0 * bsize f) (bytes f)"
        using False d pf0 by (simp_all add: tab_def chunk_def)
      from load_gdt_ok [OF af pre] obtain ok tab' g where l: "load_gdt n 0 tab f = Some (ok, tab', g)"
        "same_but_dev f g" "e_dev g = e_dev f" "at g"
        "ok \<longrightarrow> tab' = chunk ((first_data_block f + 1) * bsize f) ((0 + n) * bsize f) (bytes f)" by blast
      define fs' where "fs' = g\<lparr>gdt := bytes_gdt (n * bsize fs div gdesc_len) tab'\<rparr>"
      have run: "mount_gdt fs = Some (ok, fs')"
        using False k yes l(1) unfolding mount_gdt_def Let_def n_def [symmetric] tab_def fs'_def by simp
      note dg = same_but_devD(1,2,3,4,9,5) [OF l(2)]
      have pg: "params_ok dev sb g" "bufs_ok g" "e_ro_compat g = e_ro_compat fs \<and> inode_size g = inode_size fs"
        using params_same [OF pf l(2)] params_okD(1,3) [OF pf] l(3) bufs_same [OF l(2)] bf
          same_more(4) [OF l(2)] rf dg(6) by simp_all
      have fld: "bsize fs' = bsize fs" "first_data_block fs' = first_data_block fs" "group_count fs' = group_count fs"
        "gdt_blocks fs' = n" "blocks_count fs' = blocks_count fs" "e_dev fs' = e_dev fs"
        using d dg pf0 l(3) ks by (simp_all add: fs'_def)
      have gc: "group_count fs * gdesc_len \<le> n * bsize fs"
        using ceil_mult [OF bs(1), of "group_count fs * gdesc_len"] by (simp add: n_def)
      then have gl: "group_count fs \<le> n * bsize fs div gdesc_len" by (simp add: less_eq_div_iff_mult_less_eq)
      have "gdt fs' ! i = disk_gdesc content fs' i" if ok "i < group_count fs" for i
      proof -
        have t: "tab' = chunk ((first_data_block fs + 1) * bsize fs) (n * bsize fs) (bytes fs)"
          using l(5) that(1) d pf0 ks by simp
        have "i * gdesc_len + gdesc_len \<le> group_count fs * gdesc_len" using that(2) by simp
        then have "chunk (i * gdesc_len) gdesc_len tab'
            = chunk ((first_data_block fs + 1) * bsize fs + i * gdesc_len) gdesc_len (bytes fs)"
          unfolding t by (intro chunk_chunk) (use gc in linarith)
        then show ?thesis
          using that(2) gl by (simp add: disk_gdesc_def fld) (simp add: fs'_def bytes_gdt_nth)
      qed
      moreover have "params_ok dev sb fs'" "bufs_ok fs'" "at fs'" "e_ro_compat fs' = e_ro_compat fs \<and> inode_size fs' = inode_size fs"
        using pg l(4) by (simp_all add: fs'_def params_ok_def bufs_ok_def on_device_def)
      moreover have "group_count fs' \<le> length (gdt fs')" using gl fld(3) by (simp add: fs'_def)
      moreover have "gdt_fits fs'" using False fld by (simp add: gdt_fits_def gdt_rows_def n_def)
      ultimately show ?thesis using run fld(3) by (intro exI conjI) (assumption | simp)+
    qed
  qed
qed

end

section \<open>What a mount establishes\<close>

text \<open>
  \<open>mounted\<close> is what the checks and the construction give.  \<open>vol_formed\<close> is what they leave to the
  volume: bitmaps in blocks of their own, inode tables apart, and all of it marked in the bitmaps.
\<close>

definition mounted :: "('d \<Rightarrow> u8 list) \<Rightarrow> 'd ext2 \<Rightarrow> bool" where
  "mounted content fs \<longleftrightarrow> geom fs \<and> apb_ok fs \<and> ind_ok content fs \<and> icache_ok content fs
     \<and> (\<forall>s. bm_ok content s fs) \<and> pending_free fs = []
     \<and> (inode_size fs = 128 \<or> inode_size fs = 256) \<and> inodes_per_block fs * inode_size fs = bsize fs
     \<and> 11 \<le> first_inode fs \<and> gdt_fits fs
     \<and> (\<forall>g<group_count fs. gdt fs ! g = disk_gdesc content fs g
          \<and> bg_block_bitmap (gdt fs ! g) < blocks_count fs \<and> bg_inode_bitmap (gdt fs ! g) < blocks_count fs
          \<and> tbl fs g + tbl_blocks fs \<le> blocks_count fs)"

definition vol_formed :: "('d \<Rightarrow> u8 list) \<Rightarrow> 'd ext2 \<Rightarrow> bool" where
  "vol_formed content fs \<longleftrightarrow> bitmaps_ok fs
     \<and> (\<forall>g<group_count fs. \<forall>g'<group_count fs. g \<noteq> g' \<longrightarrow>
          tbl fs g + tbl_blocks fs \<le> tbl fs g' \<or> tbl fs g' + tbl_blocks fs \<le> tbl fs g)
     \<and> (\<forall>g<group_count fs. \<forall>b. is_bitmap fs b \<longrightarrow> \<not> (tbl fs g \<le> b \<and> b < tbl fs g + tbl_blocks fs))
     \<and> (\<forall>b. is_meta fs b \<longrightarrow> \<not> claimable content fs b)"

lemma mounted_fs_ok:
  assumes "mounted content fs" "vol_formed content fs"
  shows "fs_ok content fs"
proof -
  have m: "geom fs" "\<And>s. bm_ok content s fs" "pending_free fs = []" "icache_ok content fs"
    "inode_size fs = 128 \<or> inode_size fs = 256" "inodes_per_block fs * inode_size fs = bsize fs"
    "\<And>g. g < group_count fs \<Longrightarrow> tbl fs g + tbl_blocks fs \<le> blocks_count fs" "apb_ok fs"
    using assms(1) unfolding mounted_def by blast+
  have v: "bitmaps_ok fs" "\<And>b. is_meta fs b \<Longrightarrow> \<not> claimable content fs b"
    using assms(2) unfolding vol_formed_def by blast+
  have "0 < inodes_per_block fs" using m(6,8) by (cases "inodes_per_block fs") (auto simp: apb_ok_def)
  moreover have "112 \<le> inode_size fs" "inode_size fs \<le> 256" using m(5) by auto
  ultimately have "itab_ok fs" using m(6,7) assms(2) unfolding itab_ok_def vol_formed_def by blast
  moreover have "alloc_inv content fs" using m(1-3) v by (simp add: alloc_inv_def)
  ultimately show ?thesis using m(4) by (simp add: fs_ok_def)
qed

lemma validate_gdt_ok:
  assumes "ext2_validate_gdt fs" "g < group_count fs"
  shows "bg_block_bitmap (gdt fs ! g) < blocks_count fs" "bg_inode_bitmap (gdt fs ! g) < blocks_count fs"
    "tbl fs g + tbl_blocks fs \<le> blocks_count fs"
  using assms by (auto simp: ext2_validate_gdt_def Let_def list_all_iff tbl_def tbl_blocks_def not_le not_less)

lemma mountedI:
  assumes p: "params_ok dev sb fs" and bo: "bufs_ok fs" and v: "ext2_validate_gdt fs"
    and g: "group_count fs \<le> length (gdt fs)" "gdt_fits fs"
      "\<forall>g<group_count fs. gdt fs ! g = disk_gdesc content fs g"
    and c: "s_blocks_count sb < 4294967296" "s_inodes_count sb < 4294967296"
  shows "mounted content fs"
proof -
  note q = params_okD [OF p] and sg = shape_geom [OF params_okD(3) [OF p] c(1)]
  have b: "bsize fs = 1024 \<or> bsize fs = 2048 \<or> bsize fs = 4096" using sg(5) q(4) by simp
  have "geom fs"
    using sg(1-4) c g(1) q(3) b unfolding geom_def q(2,5,6)
    by (auto simp: sb_shape_ok_def q(4))
  moreover have "apb_ok fs" using b by (auto simp: apb_ok_def q(9))
  moreover have "ind_ok content fs" using bo by (simp add: ind_ok_def bufs_ok_def q(13))
  moreover have "icache_ok content fs"
    by (simp add: icache_ok_def slots_ok_def q(11,12) EXT2_INODE_CACHE_SLOTS_def ihdr_zero_def ihdr_of_def)
  moreover have "\<forall>s. bm_ok content s fs" using bo by (simp add: bm_ok_def bufs_ok_def Let_def)
  moreover have "inodes_per_block fs * inode_size fs = bsize fs" using b q(7) by (auto simp: q(8))
  ultimately show ?thesis unfolding mounted_def using q(7,10,15) g(2,3) validate_gdt_ok [OF v] by blast
qed

lemma length_sb_bytes: "length (s_tail sb) = 920 \<Longrightarrow> length (sb_bytes sb) = sb_len"
  unfolding sb_bytes_def length_append by (subst length_pack) (simp_all add: sb_vals_def sb_fields_sum)

lemma set_state_fields:
  "e_sb (set_state n fs) = (e_sb fs)\<lparr>s_state := n\<rparr>" "e_dev (set_state n fs) = e_dev fs"
  "bsize (set_state n fs) = bsize fs" "gdt (set_state n fs) = gdt fs"
  "first_data_block (set_state n fs) = first_data_block fs" "gdt_blocks (set_state n fs) = gdt_blocks fs"
  "group_count (set_state n fs) = group_count fs" "inode_size (set_state n fs) = inode_size fs"
  "read_only (set_state n fs) = read_only fs"
  by (simp_all add: set_state_def)

lemma sb_state [simp]:
  "sb_bsize (sb\<lparr>s_state := n\<rparr>) = sb_bsize sb" "sb_groups (sb\<lparr>s_state := n\<rparr>) = sb_groups sb"
  "sb_inode_size (sb\<lparr>s_state := n\<rparr>) = sb_inode_size sb"
  by (simp_all add: sb_bsize_def sb_groups_def sb_inode_size_def)

lemma shape_state: "sb_shape_ok dev (sb\<lparr>s_state := n\<rparr>) = sb_shape_ok dev sb"
  by (simp add: sb_shape_ok_def)

lemma set_state_params:
  "params_ok dev sb fs \<Longrightarrow> params_ok dev (sb\<lparr>s_state := n\<rparr>) (set_state n fs)"
  unfolding params_ok_def shape_state by (simp add: set_state_def)

lemma shape_dev:
  "block_size d' = block_size d \<Longrightarrow> block_count d' = block_count d \<Longrightarrow> sb_shape_ok d' sb = sb_shape_ok d sb"
  by (simp add: sb_shape_ok_def)

lemma block_write_keeps:
  "block_write_bytes a dev off buf = Some (rc, d) \<Longrightarrow> block_size d = block_size dev \<and> block_count d = block_count dev"
  by (auto simp: block_write_bytes_def Let_def split: if_splits option.splits prod.splits)

lemma dev_write_keeps:
  assumes "dev_write fs off buf = Some (rc, fs')"
  shows "block_size (e_dev fs') = block_size (e_dev fs)" "block_count (e_dev fs') = block_count (e_dev fs)"
  using assms by (auto simp: dev_write_def kmalloc_ok_eq dest!: block_write_keeps split: bind_splits)

lemma set_state_bufs: "bufs_ok (set_state n fs) = bufs_ok fs"
proof -
  have "get_bm s (set_state n fs) = get_bm s fs" for s by (cases s) (simp_all add: set_state_def)
  then show ?thesis by (simp add: bufs_ok_def set_state_def)
qed

text \<open>A loaded volume: everything but the mark.\<close>

definition loaded :: "('d \<Rightarrow> u8 list) \<Rightarrow> superblock \<Rightarrow> 'd ext2 \<Rightarrow> bool" where
  "loaded content sb fs \<longleftrightarrow> params_ok (e_dev fs) sb fs \<and> bufs_ok fs \<and> ext2_validate_gdt fs
     \<and> group_count fs \<le> length (gdt fs) \<and> gdt_fits fs
     \<and> (\<forall>g<group_count fs. gdt fs ! g = disk_gdesc content fs g)"

lemma chunk_patch_after: "off + length ys \<le> a \<Longrightarrow> off + length ys \<le> length xs \<Longrightarrow> chunk a n (patch off ys xs) = chunk a n xs"
  by (simp add: chunk_def patch_def)

lemma gdt_after_sb:
  assumes "params_ok dev sb fs" "s_blocks_count sb < 4294967296"
  shows "2048 \<le> (first_data_block fs + 1) * bsize fs"
proof -
  note q = params_okD [OF assms(1)]
  have "s_first_data_block sb = (if sb_bsize sb = 1024 then 1 else 0)" using q(3) by (simp add: sb_shape_ok_def)
  then show ?thesis using shape_geom(5) [OF q(3) assms(2)] unfolding q(4,5) by auto
qed

lemma loadedD:
  assumes "loaded content sb fs"
  shows "params_ok (e_dev fs) sb fs" "bufs_ok fs" "ext2_validate_gdt fs" "group_count fs \<le> length (gdt fs)"
    "gdt_fits fs"
    "g < group_count fs \<Longrightarrow> gdt fs ! g = disk_gdesc content fs g"
  using assms unfolding loaded_def by blast+

lemma loaded_mounted:
  "loaded content sb fs \<Longrightarrow> s_blocks_count sb < 4294967296 \<Longrightarrow> s_inodes_count sb < 4294967296 \<Longrightarrow> mounted content fs"
  by (rule mountedI) (auto dest: loadedD)

text \<open>A state that differs in the state field, the flag, the device and the answers.\<close>

lemma loaded_frame:
  assumes l: "loaded content sb fs" and b: "s_blocks_count sb < 4294967296"
    and p: "params_ok (e_dev fs') sb' fs'" and bo: "bufs_ok fs'"
    and e: "gdt fs' = gdt fs" "group_count fs' = group_count fs" "first_data_block fs' = first_data_block fs"
      "gdt_blocks fs' = gdt_blocks fs" "bsize fs' = bsize fs" "inode_size fs' = inode_size fs"
      "blocks_count fs' = blocks_count fs" "ipg fs' = ipg fs"
    and d: "content (impl (e_dev fs')) = content (impl (e_dev fs))
      \<or> (\<exists>ys. length ys = 1024 \<and> 2048 \<le> length (content (impl (e_dev fs)))
           \<and> content (impl (e_dev fs')) = patch 1024 ys (content (impl (e_dev fs))))"
  shows "loaded content sb' fs'"
proof -
  have "disk_gdesc content fs' g = disk_gdesc content fs g" for g
  proof -
    define a where "a = (first_data_block fs + 1) * bsize fs + g * gdesc_len"
    have "2048 \<le> a" using gdt_after_sb [OF loadedD(1) [OF l] b] by (simp add: a_def)
    then have "chunk a gdesc_len (content (impl (e_dev fs'))) = chunk a gdesc_len (content (impl (e_dev fs)))"
      using d chunk_patch_after [of 1024 _ a "content (impl (e_dev fs))" gdesc_len] by fastforce
    then show ?thesis unfolding disk_gdesc_def e a_def by simp
  qed
  moreover have "ext2_validate_gdt fs' = ext2_validate_gdt fs" by (simp add: ext2_validate_gdt_def e)
  moreover have "gdt_fits fs' = gdt_fits fs" by (simp add: gdt_fits_def gdt_rows_def e)
  ultimately show ?thesis using loadedD [OF l] p bo unfolding loaded_def e by simp
qed

text \<open>\<open>mounted_from d fs\<close>: the volume is loaded from the device contents \<open>d\<close>, which differ from those
  left behind only in the mark of a writable mount.\<close>

definition mounted_from :: "('d \<Rightarrow> u8 list) \<Rightarrow> u8 list \<Rightarrow> 'd ext2 \<Rightarrow> bool" where
  "mounted_from content disk fs \<longleftrightarrow> (let sb = bytes_sb (chunk 1024 sb_len disk) in
     mounted content fs \<and> bsize fs = sb_bsize sb \<and> first_data_block fs = s_first_data_block sb
     \<and> group_count fs = sb_groups sb \<and> inode_size fs = sb_inode_size sb
     \<and> e_sb fs = sb\<lparr>s_state := (if read_only fs then s_state sb else EXT2_STATE_MOUNTED)\<rparr>
     \<and> content (impl (e_dev fs)) = (if read_only fs then disk else patch 1024 (sb_bytes (e_sb fs)) disk)
     \<and> (s_state sb \<noteq> EXT2_STATE_CLEAN \<longrightarrow> read_only fs))"

context failstop_device
begin

lemma mount_mark_ok:
  assumes l: "loaded content sb fs" and a: "at fs" and b: "s_blocks_count sb < 4294967296"
    and t: "length (s_tail sb) = 920" and st: "\<not> read_only fs \<Longrightarrow> s_state sb = EXT2_STATE_CLEAN"
    and big: "2048 \<le> length (bytes fs)"
  shows "\<exists>fs'. mount_mark fs = Some fs' \<and> at fs' \<and> loaded content (e_sb fs') fs'
    \<and> e_sb fs' = sb\<lparr>s_state := (if read_only fs' then s_state sb else EXT2_STATE_MOUNTED)\<rparr>
    \<and> bytes fs' = (if read_only fs' then bytes fs else patch 1024 (sb_bytes (e_sb fs')) (bytes fs))
    \<and> (read_only fs \<longrightarrow> read_only fs')"
proof (cases "read_only fs")
  case True
  then show ?thesis using l a params_okD(2) [OF loadedD(1) [OF l]] by (simp add: mount_mark_def)
next
  case False
  note pk = loadedD(1) [OF l] and q = params_okD(2) [OF loadedD(1) [OF l]]
  define f where "f = set_state EXT2_STATE_MOUNTED fs"
  have ff: "e_sb f = sb\<lparr>s_state := EXT2_STATE_MOUNTED\<rparr>" "e_dev f = e_dev fs" "at f"
    using a by (simp_all add: f_def set_state_fields q on_device_def)
  have lsb: "length (sb_bytes (e_sb f)) = sb_len" by (rule length_sb_bytes) (simp add: ff t)
  from dev_write_ok [OF ff(3), of 1024 "sb_bytes (e_sb f)"] lsb big ff(2) obtain rc g where
    w: "dev_write f 1024 (sb_bytes (e_sb f)) = Some (rc, g)" "same_but_dev f g" "at g"
      "bytes g = (if rc = BLOCK_OK then patch 1024 (sb_bytes (e_sb f)) (bytes fs) else bytes fs)" by auto
  note d = same_but_devD(1-10,13) [OF w(2)]
  have pf: "params_ok (e_dev fs) (sb\<lparr>s_state := EXT2_STATE_MOUNTED\<rparr>) f" "bufs_ok f"
    using set_state_params [OF pk] loadedD(2) [OF l] by (simp_all add: f_def set_state_bufs)
  have sh: "sb_shape_ok (e_dev g) (sb\<lparr>s_state := n\<rparr>)" for n
    using params_okD(3) [OF pk] shape_dev [OF dev_write_keeps [OF w(1)], of sb] by (simp add: shape_state ff(2))
  have "params_ok (e_dev f) (sb\<lparr>s_state := EXT2_STATE_MOUNTED\<rparr>) f" using pf(1) ff(2) by simp
  then have pg: "params_ok (e_dev g) (sb\<lparr>s_state := EXT2_STATE_MOUNTED\<rparr>) g"
    using params_same [OF _ w(2)] sh by blast
  have bg: "bufs_ok g" using bufs_same [OF w(2)] pf(2) by simp
  have fld: "gdt g = gdt fs" "group_count g = group_count fs" "first_data_block g = first_data_block fs"
    "gdt_blocks g = gdt_blocks fs" "bsize g = bsize fs" "inode_size g = inode_size fs"
    "blocks_count g = blocks_count fs" "ipg g = ipg fs" "e_sb g = e_sb f" "read_only g = False"
    using d False by (simp_all add: f_def set_state_fields)
  show ?thesis
  proof (cases "rc = BLOCK_OK")
    case True
    have "content (impl (e_dev g)) = patch 1024 (sb_bytes (e_sb f)) (bytes fs)" using w(4) True by simp
    then have "loaded content (sb\<lparr>s_state := EXT2_STATE_MOUNTED\<rparr>) g"
      by (intro loaded_frame [OF l b pg bg fld(1-8)] disjI2 exI [of _ "sb_bytes (e_sb f)"] conjI lsb big)
    moreover have "mount_mark fs = Some g"
      using False w(1) True by (simp add: mount_mark_def write_sb_def f_def)
    ultimately show ?thesis using w(3,4) True ff(1) fld(9,10) False by simp
  next
    case no: False
    define g2 where "g2 = (set_state EXT2_STATE_CLEAN g)\<lparr>read_only := True\<rparr>"
    have sb: "e_sb g2 = sb" using st [OF False] ff(1) fld(9) by (simp add: g2_def set_state_fields)
    have e2: "e_dev g2 = e_dev g" "at g2" using w(3) by (simp_all add: g2_def set_state_fields on_device_def)
    have "params_ok (e_dev g) sb (set_state EXT2_STATE_CLEAN g)"
      using set_state_params [OF pg, of EXT2_STATE_CLEAN] st [OF False] by (cases sb) simp
    then have "params_ok (e_dev g2) sb g2" unfolding e2(1) by (simp add: params_ok_def g2_def)
    moreover have "bufs_ok (set_state EXT2_STATE_CLEAN g)" using bg by (simp add: set_state_bufs)
    then have "bufs_ok g2" by (simp add: g2_def bufs_ok_def get_bm_ro)
    moreover have "content (impl (e_dev g2)) = content (impl (e_dev fs))" using w(4) no e2 by simp
    ultimately have "loaded content sb g2"
      by (intro loaded_frame [OF l b]) (simp_all add: g2_def set_state_fields fld(1-8) fld(9) ff(1) q)
    moreover have "mount_mark fs = Some g2"
      using False w(1) no by (simp add: mount_mark_def write_sb_def f_def g2_def)
    ultimately show ?thesis using e2 w(4) no sb by (simp add: g2_def)
  qed
qed

lemma mount_volume_ok:
  assumes p: "params_ok dev (bytes_sb sbuf) fs" and a: "at fs" and l: "length sbuf = sb_len"
    and big: "2048 \<le> length (bytes fs)" and sbuf: "sbuf = chunk 1024 sb_len (bytes fs)"
    and disk: "bytes fs = content (impl dev)"
  shows "\<exists>rc r. mount_volume mp nd att fs = Some (rc, r) \<and> (case r of None \<Rightarrow> rc = PLAINERR
    | Some fs' \<Rightarrow> rc = 0 \<and> at fs' \<and> mounted_from content (content (impl dev)) fs')"
proof -
  define sb where "sb = bytes_sb sbuf"
  have fit: "s_blocks_count sb < 4294967296" "s_inodes_count sb < 4294967296"
    using sb_nums_fit [OF l] by (simp_all add: sb_def)
  have tl: "length (s_tail sb) = 920" using l by (simp add: sb_def bytes_sb_def Let_def)
  obtain ok f where mb: "mount_buffers fs = (ok, f)" by fastforce
  show ?thesis
  proof (cases ok)
    case False
    then show ?thesis using mb by (simp add: mount_volume_def)
  next
    case True
    note b = mount_buffers_ok [OF mb p [folded sb_def] True]
    note bq = params_okD [OF b(1)] and pq = params_okD [OF p [folded sb_def]]
    have af: "at f" using a bq(1,2,4) pq(1,2,4) by (simp add: on_device_def)
    have b32: "blocks_count f < 4294967296" using fit bq(2) by simp
    from mount_gdt_ok [OF b(1,2) af b32] obtain ok2 g where g: "mount_gdt f = Some (ok2, g)"
      "params_ok dev sb g" "bufs_ok g" "at g" "e_ro_compat g = e_ro_compat f \<and> inode_size g = inode_size f"
      "ok2 \<longrightarrow> group_count g \<le> length (gdt g) \<and> gdt_fits g
         \<and> (\<forall>i<group_count g. gdt g ! i = disk_gdesc content g i)" by blast
    note gq = params_okD [OF g(2)]
    define h where "h = g\<lparr>read_only := e_ro_compat g AND not32 EXT2_RO_COMPAT_SUPPORTED \<noteq> 0
             \<or> s_state (e_sb g) \<noteq> EXT2_STATE_CLEAN\<rparr>"
    have run: "mount_volume mp nd att fs = (if \<not> ok2 \<or> \<not> ext2_validate_gdt g then Some (PLAINERR, None)
        else mount_attached mp nd att h)"
      using mb True g(1) by (simp add: mount_volume_def h_def)
    show ?thesis
    proof (cases "\<not> ok2 \<or> \<not> ext2_validate_gdt g \<or> mp \<noteq> Some INODE_DIR \<or> \<not> nd")
      case True
      then have "mount_volume mp nd att fs = Some (PLAINERR, None)"
        unfolding run mount_attached_def by auto
      then show ?thesis by simp
    next
      case go: False
      obtain al k where k: "kmalloc_ok h = (al, k)" by fastforce
      show ?thesis
      proof (cases "al \<and> att")
        case False
        then have "mount_volume mp nd att fs = Some (PLAINERR, None)"
          using go k unfolding run mount_attached_def by auto
        then show ?thesis by simp
      next
        case yes: True
        define m where "m = k\<lparr>inode_list := EXT2_ROOT_INO # inode_list k\<rparr>"
        have k2: "k = h\<lparr>answers := tl (answers h)\<rparr>" using k by (simp add: kmalloc_ok_eq)
        have m: "params_ok dev sb m" "at m" "bufs_ok m" "ext2_validate_gdt m" "read_only m = read_only h"
          "e_dev m = dev"
        proof -
          show "params_ok dev sb m" using g(2) by (simp add: m_def k2 h_def params_ok_def)
          show "at m" using g(4) by (simp add: m_def k2 h_def on_device_def)
          have "get_bm s m = get_bm s g" for s by (cases s) (simp_all add: m_def k2 h_def)
          then show "bufs_ok m" using g(3) by (simp add: bufs_ok_def m_def k2 h_def)
          show "ext2_validate_gdt m" using go by (simp add: ext2_validate_gdt_def m_def k2 h_def)
          show "read_only m = read_only h" "e_dev m = dev" using gq(1) by (simp_all add: m_def k2 h_def)
        qed
        have gm: "disk_gdesc content m = disk_gdesc content g"
          by (simp add: fun_eq_iff disk_gdesc_def m_def k2 h_def)
        have ld: "loaded content sb m"
          using m g(6) go unfolding loaded_def gm by (simp add: m_def k2 h_def gdt_fits_def gdt_rows_def)
        have st: "\<not> read_only m \<Longrightarrow> s_state sb = EXT2_STATE_CLEAN"
          unfolding m(5) using gq(2) by (simp add: h_def)
        have bm: "bytes m = content (impl dev)" using m(6) by simp
        have big': "2048 \<le> length (bytes m)" using big disk bm by simp
        from mount_mark_ok [OF ld m(2) fit(1) tl st big'] obtain z where z: "mount_mark m = Some z" "at z"
          "loaded content (e_sb z) z"
          "e_sb z = sb\<lparr>s_state := (if read_only z then s_state sb else EXT2_STATE_MOUNTED)\<rparr>"
          "bytes z = (if read_only z then bytes m else patch 1024 (sb_bytes (e_sb z)) (bytes m))"
          "read_only m \<longrightarrow> read_only z" by blast
        have "mounted content z" by (rule loaded_mounted [OF z(3)]) (simp_all add: z(4) fit)
        moreover have "s_state sb \<noteq> EXT2_STATE_CLEAN \<longrightarrow> read_only z" using st z(6) by blast
        moreover have "bsize z = sb_bsize sb" "first_data_block z = s_first_data_block sb"
          "group_count z = sb_groups sb" "inode_size z = sb_inode_size sb"
          using params_okD(4-6,16) [OF loadedD(1) [OF z(3)]] by (simp_all add: z(4))
        ultimately have "mounted_from content (content (impl dev)) z"
          using z(4,5) bm unfolding mounted_from_def Let_def disk [symmetric] sbuf [symmetric] sb_def [symmetric] by simp
        moreover have "mount_volume mp nd att fs = Some (0, Some z)"
          using go k yes z(1) unfolding run mount_attached_def by (simp add: m_def)
        ultimately show ?thesis using z(2) by simp
      qed
    qed
  qed
qed

lemma mount_ok:
  assumes dv: "op_read dev = rd" "op_write dev = Some wr" "good (block_size dev) (block_count dev) (impl dev)"
  shows "\<exists>rc r. ext2_mount (Some dev) as mp nd att = Some (rc, r) \<and> (case r of None \<Rightarrow> rc = PLAINERR
    | Some fs \<Rightarrow> rc = 0 \<and> at fs \<and> mounted_from content (content (impl dev)) fs)"
proof (cases "wrap64 (block_count dev * block_size dev) < 2048")
  case True
  then show ?thesis by (simp add: ext2_mount_def)
next
  case False
  have big: "2048 \<le> length (content (impl dev))"
    using False wrap64_le [of "block_count dev * block_size dev"] fs_length [OF dv(3)] by simp
  define f0 where "f0 = ext2_blank dev as"
  obtain a1 f1 where k1: "kmalloc_ok f0 = (a1, f1)" by fastforce
  obtain a2 f2 where k2: "kmalloc_ok f1 = (a2, f2)" by fastforce
  obtain a3 f3 where k3: "kmalloc_ok f2 = (a3, f3)" by fastforce
  note s1 = kmalloc_ok_same [OF k1] and s2 = kmalloc_ok_same [OF k2] and s3 = kmalloc_ok_same [OF k3]
  have ed: "e_dev f3 = dev" using s1 s2 s3 by (simp add: f0_def ext2_blank_def)
  have sm: "same_but_dev f0 f3" using s1 s2 s3 same_but_dev_trans by blast
  have r1: "1024 + 1024 \<le> length (content (impl (e_dev f3)))" using big ed by simp
  from xfer_read [of "e_dev f3" 1024 1024 a3] r1 obtain rc ys where x:
    "block_read_bytes a3 dev 1024 1024 = Some (rc, ys)" "length ys \<le> 1024"
    "rc = 0 \<longrightarrow> ys = chunk 1024 1024 (content (impl dev))"
    using dv unfolding ed by blast
  define buf where "buf = patch 0 ys (replicate sb_len 0)"
  have rd: "dev_read f2 1024 (replicate sb_len 0) = Some (rc, buf, f3)"
    using k3 x(1,2) ed s3 by (simp add: dev_read_def fill_buf_def buf_def)
  define sb where "sb = bytes_sb buf"
  define f where "f = mount_params sb f3"
  have run: "ext2_mount (Some dev) as mp nd att = (if \<not> a1 \<or> \<not> a2 \<or> rc \<noteq> BLOCK_OK
      \<or> \<not> sb_shape_ok dev sb \<or> \<not> sb_inodes_ok sb \<or> e_incompat f AND not32 EXT2_INCOMPAT_SUPPORTED \<noteq> 0
      then Some (PLAINERR, None) else mount_volume mp nd att f)"
    using False k1 k2 rd by (simp add: ext2_mount_def f0_def [symmetric] sb_def [symmetric] f_def [symmetric] Let_def)
  show ?thesis
  proof (cases "\<not> a1 \<or> \<not> a2 \<or> rc \<noteq> BLOCK_OK
      \<or> \<not> sb_shape_ok dev sb \<or> \<not> sb_inodes_ok sb \<or> e_incompat f AND not32 EXT2_INCOMPAT_SUPPORTED \<noteq> 0")
    case True
    then show ?thesis unfolding run by simp
  next
    case go: False
    have bf: "buf = chunk 1024 sb_len (content (impl dev))"
    proof -
      have "ys = chunk 1024 1024 (content (impl dev))" using x(3) go by (simp add: BLOCK_OK_def)
      moreover have "length ys = 1024" unfolding calculation by (rule length_chunk) (use big in simp)
      ultimately show ?thesis by (simp add: buf_def patch_def)
    qed
    have lb: "length buf = sb_len" unfolding bf by (rule length_chunk) (use big in simp)
    have pf: "params_ok dev (bytes_sb buf) f"
      unfolding f_def sb_def using mount_params_ok [OF sm [unfolded f0_def] ed] go by (simp add: sb_def)
    have af: "at f" by (rule at_params [OF pf dv]) (use sb_nums_fit [OF lb] in simp)
    have df: "bytes f = content (impl dev)" using params_okD(1) [OF pf] by simp
    have "2048 \<le> length (bytes f)" "buf = chunk 1024 sb_len (bytes f)" using big bf df by simp_all
    from mount_volume_ok [OF pf af lb this df] show ?thesis unfolding run if_not_P [OF go] .
  qed
qed

end

section \<open>Which volumes are accepted\<close>

text \<open>Memory for \<open>n\<close> more allocations.\<close>

definition plenty :: "nat \<Rightarrow> 'd ext2 \<Rightarrow> bool" where
  "plenty n fs \<longleftrightarrow> n \<le> length (answers fs) \<and> (\<forall>i<n. answers fs ! i)"

definition gdt_good :: "('d \<Rightarrow> u8 list) \<Rightarrow> 'd ext2 \<Rightarrow> bool" where
  "gdt_good content fs \<longleftrightarrow> first_data_block fs + 1 + gdt_rows fs \<le> blocks_count fs
     \<and> (\<forall>g<group_count fs. let gd = disk_gdesc content fs g in
          bg_block_bitmap gd < blocks_count fs \<and> bg_inode_bitmap gd < blocks_count fs
          \<and> bg_inode_table gd < blocks_count fs \<and> bg_inode_table gd + tbl_blocks fs \<le> blocks_count fs)"

definition checks_pass :: "('d \<Rightarrow> u8 list) \<Rightarrow> 'd block_dev \<Rightarrow> bool" where
  "checks_pass content dev \<longleftrightarrow> (let disk = content (impl dev); sb = bytes_sb (chunk 1024 sb_len disk);
       fs = mount_params sb (ext2_blank dev []) in
     2048 \<le> length disk \<and> sb_shape_ok dev sb \<and> sb_inodes_ok sb
     \<and> e_incompat fs AND not32 EXT2_INCOMPAT_SUPPORTED = 0 \<and> gdt_good content fs)"

lemma plenty_take:
  assumes "plenty (Suc n) fs"
  shows "kmalloc_ok fs = (True, fs\<lparr>answers := tl (answers fs)\<rparr>)" "plenty n (fs\<lparr>answers := tl (answers fs)\<rparr>)"
  using assms by (cases "answers fs"; fastforce simp: plenty_def kmalloc_ok_eq)+

lemma plenty_cong: "answers fs' = answers fs \<Longrightarrow> plenty n fs' = plenty n fs"
  by (simp add: plenty_def)

context block_device
begin

lemma dev_read_plenty:
  assumes "fail.at fs" "plenty (Suc n) fs" "off + length buf \<le> length (content (impl (e_dev fs)))"
  shows "dev_read fs off buf = Some (BLOCK_OK, chunk off (length buf) (content (impl (e_dev fs))),
    fs\<lparr>answers := tl (answers fs)\<rparr>)"
proof -
  have "block_read_bytes True (e_dev fs) off (length buf)
      = Some (BLOCK_OK, chunk off (length buf) (content (impl (e_dev fs))))"
    by (rule read_bytes) (use assms(1,3) in \<open>auto simp: on_device_def\<close>)
  moreover have "length (chunk off (length buf) (content (impl (e_dev fs)))) = length buf"
    by (rule length_chunk [OF assms(3)])
  ultimately show ?thesis
    by (simp add: dev_read_def plenty_take(1) [OF assms(2)] fill_buf_exact)
qed

lemma read_block_plenty:
  assumes "fail.at fs" "plenty (Suc n) fs" "b < blocks_count fs" "length buf = bsize fs"
  shows "ext2_read_block fs b buf = Some (BLOCK_OK, blk content fs b, fs\<lparr>answers := tl (answers fs)\<rparr>)"
proof -
  note bi = fail.block_inside [OF assms(1,3)]
  show ?thesis using dev_read_plenty [OF assms(1,2), of "b * bsize fs" buf] bi assms(3,4)
    by (simp add: ext2_read_block_def Let_def blk_def)
qed

lemma load_gdt_plenty:
  assumes "fail.at fs" "plenty (k + n) fs" "first_data_block fs + 1 + (i + k) \<le> blocks_count fs"
    "length tab = (i + k) * bsize fs"
  shows "\<exists>tab' fs'. load_gdt k i tab fs = Some (True, tab', fs') \<and> plenty n fs'"
  using assms
proof (induction k arbitrary: i tab fs)
  case 0
  then show ?case by simp
next
  case (Suc k)
  define b where "b = first_data_block fs + 1 + i"
  have b: "b < blocks_count fs" "wrap32 b = b"
    using Suc.prems(1,3) by (simp_all add: b_def on_device_def)
  have inb: "i * bsize fs + bsize fs \<le> length tab" using Suc.prems(4) by simp
  define f where "f = fs\<lparr>answers := tl (answers fs)\<rparr>"
  have p1: "plenty (Suc (k + n)) fs" using Suc.prems(2) by simp
  have r: "ext2_read_block fs b (chunk (i * bsize fs) (bsize fs) tab) = Some (BLOCK_OK, blk content fs b, f)"
    unfolding f_def by (rule read_block_plenty [OF Suc.prems(1) p1 b(1) length_chunk [OF inb]])
  have ff: "bsize f = bsize fs" "first_data_block f = first_data_block fs" "blocks_count f = blocks_count fs"
    "fail.at f" using Suc.prems(1) by (simp_all add: f_def on_device_def)
  have "length (blk content fs b) = bsize fs" by (rule fail.length_blk [OF Suc.prems(1) b(1)])
  then have l: "length (patch (i * bsize fs) (blk content fs b) tab) = (Suc i + k) * bsize f"
    using length_patch [of "i * bsize fs" "blk content fs b" tab] inb Suc.prems(4) ff(1) by simp
  have "first_data_block f + 1 + (Suc i + k) \<le> blocks_count f" using Suc.prems(3) ff by simp
  from Suc.IH [OF ff(4) plenty_take(2) [OF p1, folded f_def] this l]
  obtain tab' fs' where "load_gdt k (Suc i) (patch (i * bsize fs) (blk content fs b) tab) f = Some (True, tab', fs')"
    "plenty n fs'" by blast
  moreover from this have "load_gdt (Suc k) i tab fs = Some (True, tab', fs')"
    unfolding load_gdt.simps(2) b_def [symmetric] b(2) r using ff(1) by simp
  ultimately show ?case by blast
qed

lemma mount_gdt_plenty:
  assumes a: "fail.at fs" and p: "plenty (Suc (gdt_rows fs + n)) fs" and gc: "0 < group_count fs"
  shows "\<exists>ok fs'. mount_gdt fs = Some (ok, fs') \<and> ok = (first_data_block fs + 1 + gdt_rows fs \<le> blocks_count fs)
    \<and> (ok \<longrightarrow> plenty n fs')"
proof (cases "first_data_block fs + 1 + gdt_rows fs \<le> blocks_count fs")
  case False
  then show ?thesis
    unfolding mount_gdt_def Let_def gdt_rows_def [symmetric] by (cases "gdt_rows fs = 0 \<or> 4294967295 < gdt_rows fs") auto
next
  case True
  have bs: "0 < bsize fs" "blocks_count fs < 4294967296" using a by (simp_all add: on_device_def)
  have "blocks_count fs - 1 < blocks_count fs" using True by simp
  from fail.block_inside(2) [OF a this] have "(blocks_count fs - 1) * bsize fs < 4294967295" using bs by linarith
  moreover have "gdt_rows fs * bsize fs \<le> (blocks_count fs - 1) * bsize fs"
    by (intro mult_le_mono1) (use True in simp)
  ultimately have r: "gdt_rows fs * bsize fs \<le> 4294967295" "gdt_rows fs \<le> 4294967295"
    using True bs(2) by linarith+
  have "group_count fs * gdesc_len \<le> gdt_rows fs * bsize fs"
    unfolding gdt_rows_def by (rule ceil_mult [OF bs(1)])
  then have r0: "0 < gdt_rows fs * bsize fs" using gc by (metis gr0I le_zero_eq mult_eq_0_iff zero_neq_numeral)
  define f0 where "f0 = fs\<lparr>gdt_blocks := gdt_rows fs\<rparr>"
  define f where "f = f0\<lparr>answers := tl (answers f0)\<rparr>"
  have p0: "plenty (Suc (gdt_rows fs + n)) f0" using p by (simp add: f0_def plenty_def)
  have ff: "fail.at f" "bsize f = bsize fs" "first_data_block f = first_data_block fs" "blocks_count f = blocks_count fs"
    using a by (simp_all add: f_def f0_def on_device_def)
  have pre: "first_data_block f + 1 + (0 + gdt_rows fs) \<le> blocks_count f"
    "length (replicate (gdt_rows fs * bsize fs) (0 :: u8)) = (0 + gdt_rows fs) * bsize f" using True ff by simp_all
  from load_gdt_plenty [OF ff(1) plenty_take(2) [OF p0, folded f_def] pre] obtain tab' fs' where
    l: "load_gdt (gdt_rows fs) 0 (replicate (gdt_rows fs * bsize fs) 0) f = Some (True, tab', fs')" "plenty n fs'" by blast
  have "\<exists>t. mount_gdt fs = Some (True, fs'\<lparr>gdt := t\<rparr>)"
    using True r r0 l(1) plenty_take(1) [OF p0, folded f_def, unfolded f0_def]
    unfolding mount_gdt_def Let_def gdt_rows_def [symmetric] by simp blast
  moreover have "plenty n (fs'\<lparr>gdt := t\<rparr>)" for t using l(2) by (simp add: plenty_def)
  ultimately show ?thesis using True by blast
qed

end

lemma mount_buffers_plenty:
  assumes "plenty (4 + n) fs"
  shows "\<exists>f. mount_buffers fs = (True, f) \<and> plenty n f"
proof -
  obtain a b c d as where as: "answers fs = a # b # c # d # as"
    using assms by (auto simp: plenty_def Suc_le_length_iff numeral_eq_Suc)
  have all: "i < 4 + n \<Longrightarrow> answers fs ! i" for i using assms by (simp add: plenty_def)
  have t: a b c d using all [of 0] all [of 1] all [of 2] all [of 3] by (simp_all add: as numeral_eq_Suc)
  have "n \<le> length as" using assms by (simp add: plenty_def as)
  moreover have "as ! i" if "i < n" for i using all [of "4 + i"] that by (simp add: as numeral_eq_Suc)
  ultimately show ?thesis using as t
    by (auto simp: mount_buffers_def Let_def kmalloc_ok_eq plenty_def)
qed

lemma validate_disk:
  assumes "\<forall>g<group_count fs. gdt fs ! g = disk_gdesc content fs g"
  shows "ext2_validate_gdt fs \<longleftrightarrow> (\<forall>g<group_count fs. let gd = disk_gdesc content fs g in
          bg_block_bitmap gd < blocks_count fs \<and> bg_inode_bitmap gd < blocks_count fs
          \<and> bg_inode_table gd < blocks_count fs \<and> bg_inode_table gd + tbl_blocks fs \<le> blocks_count fs)"
  using assms by (auto simp: ext2_validate_gdt_def Let_def list_all_iff tbl_blocks_def not_le not_less)

lemma gdt_good_cong:
  assumes "e_dev fs' = e_dev fs" "e_sb fs' = e_sb fs" "bsize fs' = bsize fs" "first_data_block fs' = first_data_block fs"
    "group_count fs' = group_count fs" "inode_size fs' = inode_size fs"
  shows "gdt_good content fs' = gdt_good content fs"
  unfolding gdt_good_def gdt_rows_def disk_gdesc_def tbl_blocks_def assms by (rule refl)

context block_device
begin

lemma mount_volume_plenty:
  assumes p: "params_ok dev sb fs" and a: "fail.at fs" and b32: "s_blocks_count sb < 4294967296"
    and t: "length (s_tail sb) = 920" and big: "2048 \<le> length (fail.bytes fs)"
    and pl: "plenty (gdt_rows fs + 6) fs"
  shows "\<exists>r. mount_volume (Some INODE_DIR) True True fs = Some (if gdt_good content fs then 0 else PLAINERR, r)
    \<and> (r \<noteq> None \<longleftrightarrow> gdt_good content fs)"
proof -
  have "plenty (4 + (gdt_rows fs + 2)) fs" using pl by (simp add: add.commute)
  from mount_buffers_plenty [OF this] obtain f where f: "mount_buffers fs = (True, f)" "plenty (gdt_rows fs + 2) f" by blast
  note b = mount_buffers_ok [OF f(1) p TrueI] and pq = params_okD [OF p]
  note bq = params_okD [OF b(1)]
  have af: "fail.at f" using a bq(1,2,4) pq(1,2,4) by (simp add: on_device_def)
  obtain as where fe: "f = fs\<lparr>cached_indirect_buf := cached_indirect_buf f, dir_buf := dir_buf f,
      block_bitmap := block_bitmap f, answers := as, inode_bitmap := inode_bitmap f\<rparr>"
    using f(1) unfolding mount_buffers_def Let_def kmalloc_ok_eq by (auto split: if_splits)
  have fis: "inode_size f = inode_size fs" by (subst fe) simp
  have gf: "gdt_good content f = gdt_good content fs" "gdt_rows f = gdt_rows fs"
    by (rule gdt_good_cong) (simp_all add: bq(1,2,4-6) pq(1,2,4-6) fis gdt_rows_def)
  have "0 < group_count f" using bq(3,6) by (simp add: sb_shape_ok_def)
  moreover have "plenty (Suc (gdt_rows f + 1)) f" using f(2) gf(2) by simp
  ultimately obtain ok g where g: "mount_gdt f = Some (ok, g)"
    "ok = (first_data_block f + 1 + gdt_rows f \<le> blocks_count f)" "ok \<longrightarrow> plenty 1 g"
    using mount_gdt_plenty [OF af] by blast
  from fail.mount_gdt_ok [OF b(1,2) af] b32 bq(2) g(1) have gg: "params_ok dev sb g" "bufs_ok g" "fail.at g"
    "inode_size g = inode_size f" "ok \<longrightarrow> group_count g \<le> length (gdt g) \<and> gdt_fits g
         \<and> (\<forall>i<group_count g. gdt g ! i = disk_gdesc content g i)" by auto
  note gq = params_okD [OF gg(1)]
  have gd: "gdt_good content g = gdt_good content fs" "gdt_rows g = gdt_rows f"
    unfolding gf(1) [symmetric] by (rule gdt_good_cong) (simp_all add: bq(1,2,4-6) gq(1,2,4-6) gg(4) gdt_rows_def)
  have ok: "ok = (first_data_block g + 1 + gdt_rows g \<le> blocks_count g)"
    unfolding g(2) gd(2) by (simp add: gq(2,5) bq(2,5))
  define h where "h = g\<lparr>read_only := e_ro_compat g AND not32 EXT2_RO_COMPAT_SUPPORTED \<noteq> 0
             \<or> s_state (e_sb g) \<noteq> EXT2_STATE_CLEAN\<rparr>"
  have run: "mount_volume (Some INODE_DIR) True True fs = (if \<not> ok \<or> \<not> ext2_validate_gdt g then Some (PLAINERR, None)
      else mount_attached (Some INODE_DIR) True True h)"
    using f(1) g(1) by (simp add: mount_volume_def h_def)
  show ?thesis
  proof (cases ok)
    case False
    then have "\<not> gdt_good content g" unfolding gdt_good_def using ok by blast
    then have "\<not> gdt_good content fs" by (simp add: gd(1))
    then show ?thesis using run False by simp
  next
    case True
    note gg5 = gg(5) [rule_format, OF True]
    have "ext2_validate_gdt g = gdt_good content g"
      unfolding gdt_good_def using validate_disk [of g content] gg5 ok True by blast
    then have v: "ext2_validate_gdt g = gdt_good content fs" by (simp add: gd(1))
    show ?thesis
    proof (cases "ext2_validate_gdt g")
      case no: False
      then show ?thesis using run v by simp
    next
      case yes: True
      have "plenty (Suc 0) h" using g(3) True by (simp add: h_def plenty_def)
      note k = plenty_take(1) [OF this]
      define m where "m = h\<lparr>answers := tl (answers h), inode_list := EXT2_ROOT_INO # inode_list h\<rparr>"
      have m: "params_ok dev sb m" "fail.at m" "e_dev m = dev" "ext2_validate_gdt m"
        using gg(1,3) gq(1) yes
        by (simp_all add: m_def h_def params_ok_def on_device_def ext2_validate_gdt_def)
      have "get_bm s m = get_bm s g" for s by (cases s) (simp_all add: m_def h_def)
      then have mb: "bufs_ok m" using gg(2) by (simp add: bufs_ok_def m_def h_def)
      have gm: "disk_gdesc content m = disk_gdesc content g"
        by (simp add: fun_eq_iff disk_gdesc_def m_def h_def)
      have ld: "loaded content sb m"
        using m mb gg5 unfolding loaded_def gm by (simp add: m_def h_def gdt_fits_def gdt_rows_def)
      have st: "s_state sb = EXT2_STATE_CLEAN" if "\<not> read_only m"
        using that gq(2) by (simp add: m_def h_def)
      have "2048 \<le> length (fail.bytes m)" using big m(3) pq(1) by simp
      from fail.mount_mark_ok [OF ld m(2) b32 t st this] obtain z where "mount_mark m = Some z" by blast
      then have "mount_attached (Some INODE_DIR) True True h = Some (0, Some z)"
        by (simp add: mount_attached_def k m_def)
      then show ?thesis using run True yes v by simp
    qed
  qed
qed

lemma mount_plenty:
  assumes dv: "op_read dev = rd" "op_write dev = Some wr" "good (block_size dev) (block_count dev) (impl dev)"
    and as: "\<forall>i<n. as ! i" "n \<le> length as"
    and n: "gdt_rows (mount_params (bytes_sb (chunk 1024 sb_len (content (impl dev)))) (ext2_blank dev [])) + 9 \<le> n"
  shows "\<exists>r. ext2_mount (Some dev) as (Some INODE_DIR) True True
      = Some (if checks_pass content dev then 0 else PLAINERR, r) \<and> (r \<noteq> None \<longleftrightarrow> checks_pass content dev)"
proof -
  define disk where "disk = content (impl dev)"
  have "block_count dev * block_size dev < 18446744073709551616"
    using fail.fs_bound [OF dv(3)] by linarith
  then have w: "wrap64 (block_count dev * block_size dev) = length disk"
    using content_length [OF dv(3)] by (simp add: wrap64_def disk_def)
  show ?thesis
  proof (cases "length disk < 2048")
    case True
    then have "\<not> checks_pass content dev" by (simp add: checks_pass_def Let_def disk_def)
    then show ?thesis using True w by (simp add: ext2_mount_def)
  next
    case False
    define sb where "sb = bytes_sb (chunk 1024 sb_len disk)"
    define rows where "rows = gdt_rows (mount_params sb (ext2_blank dev []))"
    have pl: "plenty (Suc (Suc (Suc (rows + 6)))) (ext2_blank dev as)"
      using as n by (simp add: plenty_def ext2_blank_def rows_def sb_def disk_def)
    define f1 where "f1 = (ext2_blank dev as)\<lparr>answers := tl as\<rparr>"
    define f2 where "f2 = f1\<lparr>answers := tl (tl as)\<rparr>"
    define f3 where "f3 = f2\<lparr>answers := tl (tl (tl as))\<rparr>"
    have an: "answers (ext2_blank dev as) = as" "answers f1 = tl as" "answers f2 = tl (tl as)"
      by (simp_all add: ext2_blank_def f1_def f2_def)
    note k1 = plenty_take [OF pl, unfolded an, folded f1_def]
    note k2 = plenty_take [OF k1(2), unfolded an, folded f2_def]
    have e2: "e_dev f2 = dev" "blocks_count f2 * bsize f2 = 0"
      by (simp_all add: f2_def f1_def ext2_blank_def)
    have "block_read_bytes True dev 1024 1024 = Some (BLOCK_OK, chunk 1024 1024 disk)"
      unfolding disk_def by (rule read_bytes [OF dv(3,1)]) (use False in \<open>simp add: disk_def\<close>)
    moreover have l: "length (chunk 1024 1024 disk) = 1024" by (rule length_chunk) (use False in simp)
    ultimately have r: "dev_read f2 1024 (replicate sb_len 0) = Some (BLOCK_OK, chunk 1024 sb_len disk, f3)"
      using plenty_take(1) [OF k2(2), unfolded an, folded f3_def]
      by (simp add: dev_read_def f3_def e2 f2_def f1_def ext2_blank_def fill_buf_exact)
    define f where "f = mount_params sb f3"
    have run: "ext2_mount (Some dev) as (Some INODE_DIR) True True
      = (if \<not> sb_shape_ok dev sb \<or> \<not> sb_inodes_ok sb \<or> e_incompat f AND not32 EXT2_INCOMPAT_SUPPORTED \<noteq> 0
         then Some (PLAINERR, None) else mount_volume (Some INODE_DIR) True True f)"
      using False w k1(1) k2(1) r by (simp add: ext2_mount_def Let_def sb_def [symmetric] f_def [symmetric])
    define b where "b = mount_params sb (ext2_blank dev [])"
    have bf: "e_dev f = e_dev b" "e_sb f = e_sb b" "bsize f = bsize b" "first_data_block f = first_data_block b"
      "group_count f = group_count b" "inode_size f = inode_size b" "e_incompat f = e_incompat b"
      by (simp_all add: f_def b_def mount_params_def Let_def f3_def f2_def f1_def ext2_blank_def)
    have gb: "gdt_good content f = gdt_good content b" "gdt_rows f = gdt_rows b"
      by (rule gdt_good_cong [OF bf(1-6)]) (simp add: gdt_rows_def bf)
    have mo: "checks_pass content dev \<longleftrightarrow> sb_shape_ok dev sb \<and> sb_inodes_ok sb
        \<and> e_incompat f AND not32 EXT2_INCOMPAT_SUPPORTED = 0 \<and> gdt_good content f"
      using False unfolding checks_pass_def Let_def disk_def [symmetric] sb_def [symmetric] b_def [symmetric]
      by (auto simp: gb bf)
    show ?thesis
    proof (cases "sb_shape_ok dev sb \<and> sb_inodes_ok sb \<and> e_incompat f AND not32 EXT2_INCOMPAT_SUPPORTED = 0")
      case no: False
      then have "ext2_mount (Some dev) as (Some INODE_DIR) True True = Some (PLAINERR, None)" unfolding run by auto
      then show ?thesis using no mo by auto
    next
      case go: True
      have sm: "same_but_dev (ext2_blank dev as) f3" "e_dev f3 = dev"
        by (simp_all add: same_but_dev_def f3_def f2_def f1_def ext2_blank_def)
      have pf: "params_ok dev sb f" unfolding f_def by (rule mount_params_ok [OF sm]) (use go in blast)+
      have fit: "s_blocks_count sb < 4294967296" "length (s_tail sb) = 920"
        using sb_nums_fit(1) [of "chunk 1024 sb_len disk"] l by (simp_all add: sb_def bytes_sb_def Let_def)
      have af: "fail.at f" by (rule fail.at_params [OF pf dv fit(1)])
      have big: "2048 \<le> length (fail.bytes f)" using False params_okD(1) [OF pf] by (simp add: disk_def)
      have "plenty (rows + 6) f3"
        using plenty_take(2) [OF k2(2), unfolded an, folded f3_def] .
      then have "plenty (gdt_rows f + 6) f"
        by (simp add: gb b_def rows_def [symmetric]) (simp add: plenty_def f_def mount_params_def Let_def)
      from mount_volume_plenty [OF pf af fit big this] show ?thesis
        unfolding run using go mo by auto
    qed
  qed
qed

end

section \<open>A volume that mounts\<close>

lemma bytes_sb_bytes:
  assumes "fits sb_fields (sb_vals s)"
  shows "bytes_sb (sb_bytes s) = s"
proof -
  have u: "unpack sb_fields (sb_bytes s) = sb_vals s"
    unfolding sb_bytes_def by (rule unpack_pack [OF assms])
  have "length (pack sb_fields (sb_vals s)) = 104"
    by (subst length_pack) (simp_all add: sb_vals_def sb_fields_sum)
  then have d: "drop 104 (sb_bytes s) = s_tail s" by (simp add: sb_bytes_def)
  show ?thesis unfolding bytes_sb_def Let_def u d by (cases s) (simp add: sb_vals_def)
qed

lemma bytes_gdesc_bytes:
  assumes "fits gdesc_fields [bg_block_bitmap g, bg_inode_bitmap g, bg_inode_table g,
     bg_free_blocks g, bg_free_inodes g, bg_used_dirs g, bg_pad g]"
  shows "bytes_gdesc (gdesc_bytes g) = g"
  using unpack_pack [OF assms, of "bg_reserved g"] by (cases g) (simp add: bytes_gdesc_def gdesc_bytes_def Let_def length_pack gdesc_fields_def)

text \<open>Eight blocks of 1024 bytes: nothing, superblock, descriptors, two bitmaps, eight inodes, data.\<close>

definition zero_sb :: superblock where "zero_sb = bytes_sb (replicate sb_len 0)"

definition demo_sb :: superblock where
  "demo_sb = zero_sb\<lparr>s_inodes_count := 8, s_blocks_count := 8, s_first_data_block := 1,
     s_blocks_per_group := 8192, s_inodes_per_group := 8, s_magic := EXT2_MAGIC, s_state := EXT2_STATE_CLEAN\<rparr>"

definition demo_gd :: gdesc where
  "demo_gd = \<lparr>bg_block_bitmap = 3, bg_inode_bitmap = 4, bg_inode_table = 5, bg_free_blocks = 2,
     bg_free_inodes = 0, bg_used_dirs = 1, bg_pad = 0, bg_reserved = replicate 12 0\<rparr>"

definition demo_disk :: "u8 list" where
  "demo_disk = replicate 1024 0 @ sb_bytes demo_sb @ gdesc_bytes demo_gd @ replicate 6112 0"

definition demo_dev :: "ramblock block_dev" where
  "demo_dev = \<lparr>op_read = ramblock_read, op_write = Some ramblock_write,
     impl = \<lparr>rb_buffer = demo_disk, rb_block_size = 512, rb_block_count = 16\<rparr>, block_size = 512, block_count = 16\<rparr>"

lemma zero_sb: "sb_vals zero_sb = [0, 0, 0, 0, 0, 0, 0, 0, 0, 0, 0, 0, 0, 0, 0, 0, 0, 0, 0, 0, 0, 0, 0, 0, 0, 0, 0, 0, 0, 0, 0]"
  "length (s_tail zero_sb) = 920"
proof -
  have z: "le_val (replicate n 0) = 0" for n by (induction n) simp_all
  have u: "unpack ws (replicate n 0) = replicate (length ws) 0" for ws n
    by (induction ws arbitrary: n) (simp_all add: z)
  show "sb_vals zero_sb = [0, 0, 0, 0, 0, 0, 0, 0, 0, 0, 0, 0, 0, 0, 0, 0, 0, 0, 0, 0, 0, 0, 0, 0, 0, 0, 0, 0, 0, 0, 0]"
    unfolding zero_sb_def bytes_sb_def Let_def u sb_fields_sum sb_vals_def superblock.simps
    by (simp only: nth_replicate)
  show "length (s_tail zero_sb) = 920" unfolding zero_sb_def bytes_sb_def Let_def superblock.simps by simp
qed

lemma demo_vals:
  "sb_vals demo_sb = [8, 8, 0, 0, 0, 1, 0, 0, 8192, 0, 8, 0, 0, 0, 0, 61267, 1, 0, 0, 0, 0, 0, 0, 0, 0, 0, 0, 0, 0, 0, 0]"
  "length (s_tail demo_sb) = 920"
  using zero_sb by (simp_all add: sb_vals_def demo_sb_def EXT2_MAGIC_def EXT2_STATE_CLEAN_def)

lemma sb_fields_list: "sb_fields = [4, 4, 4, 4, 4, 4, 4, 4, 4, 4, 4, 4, 4, 2, 2, 2, 2, 2, 2, 4, 4, 4, 4, 2, 2, 4, 2, 2, 4, 4, 4]"
  by (simp add: sb_fields_def numeral_eq_Suc)

lemma demo_parts: "bytes_sb (sb_bytes demo_sb) = demo_sb" "bytes_gdesc (gdesc_bytes demo_gd) = demo_gd"
  "length (sb_bytes demo_sb) = 1024" "length (gdesc_bytes demo_gd) = 32" "length demo_disk = 8192"
proof -
  show "bytes_sb (sb_bytes demo_sb) = demo_sb"
    by (rule bytes_sb_bytes) (simp add: demo_vals(1) sb_fields_list)
  show "bytes_gdesc (gdesc_bytes demo_gd) = demo_gd"
    by (rule bytes_gdesc_bytes) (simp add: gdesc_fields_def demo_gd_def)
  show l: "length (sb_bytes demo_sb) = 1024" by (rule length_sb_bytes [OF demo_vals(2)])
  show g: "length (gdesc_bytes demo_gd) = 32"
    unfolding gdesc_bytes_def length_append by (subst length_pack) (simp_all add: gdesc_fields_def demo_gd_def)
  show "length demo_disk = 8192" by (simp add: demo_disk_def l g)
qed

lemma demo_fields:
  "s_inodes_count demo_sb = 8" "s_blocks_count demo_sb = 8" "s_first_data_block demo_sb = 1"
  "s_log_block_size demo_sb = 0" "s_blocks_per_group demo_sb = 8192" "s_inodes_per_group demo_sb = 8"
  "s_magic demo_sb = EXT2_MAGIC" "s_state demo_sb = EXT2_STATE_CLEAN" "s_rev_level demo_sb = 0"
  "s_feature_incompat demo_sb = 0" "sb_bsize demo_sb = 1024" "sb_groups demo_sb = 1" "sb_inode_size demo_sb = 128"
  using demo_vals(1)
  by (simp_all add: sb_vals_def EXT2_MAGIC_def EXT2_STATE_CLEAN_def sb_bsize_def sb_groups_def div_ceil_u32_def
      sb_inode_size_def)

lemma demo_chunks: "chunk 1024 sb_len demo_disk = sb_bytes demo_sb" "chunk 2048 gdesc_len demo_disk = gdesc_bytes demo_gd"
  using demo_parts(3,4) by (simp_all add: demo_disk_def chunk_def)

lemma demo_good: "op_read demo_dev = ramblock_read" "op_write demo_dev = Some ramblock_write"
  "ramblock_good (block_size demo_dev) (block_count demo_dev) (impl demo_dev)"
  "rb_buffer (impl demo_dev) = demo_disk"
  by (simp_all add: demo_dev_def ramblock_good_def demo_parts(5))

definition demo_params :: "ramblock ext2" where
  "demo_params = mount_params demo_sb (ext2_blank demo_dev [])"

lemma demo_params:
  "bsize demo_params = 1024" "first_data_block demo_params = 1" "group_count demo_params = 1"
  "inode_size demo_params = 128" "e_sb demo_params = demo_sb" "e_dev demo_params = demo_dev"
  "e_incompat demo_params = 0"
  by (simp_all add: demo_params_def mount_params_def Let_def demo_fields ext2_blank_def)

lemma demo_rows: "gdt_rows demo_params = 1" "tbl_blocks demo_params = 1"
  by (simp_all add: gdt_rows_def demo_params tbl_blocks_def demo_fields div_ceil_u32_def)

lemma demo_checks: "checks_pass rb_buffer demo_dev"
proof -
  have gd: "disk_gdesc rb_buffer demo_params 0 = demo_gd"
    by (simp add: disk_gdesc_def demo_params demo_good demo_chunks demo_parts)
  have "gdt_good rb_buffer demo_params"
    unfolding gdt_good_def by (simp add: demo_params demo_rows demo_fields gd Let_def) (simp add: demo_gd_def)
  moreover have "sb_shape_ok demo_dev demo_sb"
    by (simp add: sb_shape_ok_def demo_fields) (simp add: demo_dev_def wrap64_def)
  moreover have "sb_inodes_ok demo_sb" by (simp add: sb_inodes_ok_def demo_fields)
  ultimately show ?thesis
    unfolding checks_pass_def Let_def demo_good(4) demo_chunks(1) demo_parts(1) demo_params_def [symmetric]
    by (simp add: demo_parts(5) demo_params)
qed

lemma demo_formed:
  assumes "mounted_from rb_buffer demo_disk fs"
  shows "vol_formed rb_buffer fs"
proof -
  have f: "bsize fs = 1024" "first_data_block fs = 1" "group_count fs = 1" "inode_size fs = 128"
    "blocks_count fs = 8" "ipg fs = 8" "bpg fs = 8192" "gdt fs ! 0 = disk_gdesc rb_buffer fs 0"
    "rb_buffer (impl (e_dev fs)) = (if read_only fs then demo_disk else patch 1024 (sb_bytes (e_sb fs)) demo_disk)"
    "length (s_tail (e_sb fs)) = 920" "gdt_fits fs"
    using assms by (simp_all add: mounted_from_def Let_def demo_chunks demo_parts demo_fields mounted_def demo_vals(2))
  have "chunk 2048 gdesc_len (rb_buffer (impl (e_dev fs))) = gdesc_bytes demo_gd"
    unfolding f(9) using demo_chunks(2) chunk_patch_after [of 1024 "sb_bytes (e_sb fs)" 2048 demo_disk gdesc_len]
      length_sb_bytes [OF f(10)] demo_parts(5) by auto
  then have g: "gdt fs ! 0 = demo_gd" unfolding f(8) disk_gdesc_def by (simp add: f(1,2) demo_parts(2))
  have bm: "bm_block sel demo_gd = (if sel = BlockBits then 3 else 4)" for sel
    by (cases sel) (simp_all add: demo_gd_def)
  have tb: "tbl fs 0 = 5" "tbl_blocks fs = 1"
    by (simp_all add: tbl_def g tbl_blocks_def f div_ceil_u32_def) (simp add: demo_gd_def)
  have "gdt_rows fs = 1" by (simp add: gdt_rows_def f)
  then have gb: "gdt_blocks fs = 1" using f(11) by (simp add: gdt_fits_def)
  have ib: "is_bitmap fs b \<Longrightarrow> b = 3 \<or> b = 4" for b by (auto simp: is_bitmap_def f(3) g bm split: if_splits)
  have fa: "ext2_first_allocatable fs = 6"
    using tb by (simp add: ext2_first_allocatable_def tbl_def tbl_blocks_def)
  have meta: "\<not> claimable rb_buffer fs b" if "is_meta fs b" for b
  proof -
    have "b < 6" using that ib [of b] tb
      by (auto simp: is_meta_def f(2,3) gb tbl_def [symmetric] tbl_blocks_def [symmetric])
    then have "ext2_block_freeable fs b = None" by (simp add: ext2_block_freeable_def Let_def fa f)
    then show ?thesis by (simp add: claimable_def)
  qed
  have inj: "bm_block sel demo_gd = bm_block sel' demo_gd \<longrightarrow> sel = sel'" for sel sel'
    by (cases sel; cases sel') (simp_all add: bm)
  have g0: "i < (1 :: nat) \<Longrightarrow> gdt fs ! i = demo_gd" for i by (simp add: g)
  have "bitmaps_ok fs"
    unfolding bitmaps_ok_def f(3,5)
  proof (intro conjI allI impI)
    fix sel i assume i: "i < (1 :: nat)"
    show "0 < bm_block sel (gdt fs ! i)" "bm_block sel (gdt fs ! i) < 8" by (simp_all add: g0 [OF i] bm)
    fix sel' j assume j: "j < (1 :: nat)" and e: "bm_block sel (gdt fs ! i) = bm_block sel' (gdt fs ! j)"
    show "sel = sel'" using e inj unfolding g0 [OF i] g0 [OF j] by blast
    show "i = j" using i j by simp
  qed
  moreover have "\<not> (tbl fs i \<le> b \<and> b < tbl fs i + tbl_blocks fs)" if "i < 1" "is_bitmap fs b" for i b
    using ib [OF that(2)] that(1) by (auto simp: tb)
  ultimately show ?thesis unfolding vol_formed_def f(3) using meta by (intro conjI allI impI) auto
qed

section \<open>Properties\<close>


text \<open>What a volume has to look like, from its bytes alone and without the wrap-around of the code.\<close>

definition disk_sb :: "u8 list \<Rightarrow> superblock" where
  "disk_sb disk = bytes_sb (chunk 1024 1024 disk)"

definition disk_groups :: "u8 list \<Rightarrow> nat" where
  "disk_groups disk = (let sb = disk_sb disk in
     (s_blocks_count sb - s_first_data_block sb + s_blocks_per_group sb - 1) div s_blocks_per_group sb)"

definition disk_rows :: "u8 list \<Rightarrow> nat" where
  "disk_rows disk = (let bs = 1024 * 2 ^ s_log_block_size (disk_sb disk) in (disk_groups disk * 32 + bs - 1) div bs)"

definition sb_sound :: "u8 list \<Rightarrow> bool" where
  "sb_sound disk \<longleftrightarrow> (let sb = disk_sb disk; bs = 1024 * 2 ^ s_log_block_size sb in
     s_magic sb = 61267 \<and> s_rev_level sb \<le> 1 \<and> s_log_block_size sb \<le> 2
     \<and> 0 < s_inodes_count sb \<and> s_inodes_count sb \<le> disk_groups disk * s_inodes_per_group sb
     \<and> 0 < s_blocks_per_group sb \<and> s_blocks_per_group sb \<le> 8 * bs
     \<and> 0 < s_inodes_per_group sb \<and> s_inodes_per_group sb \<le> 8 * bs
     \<and> s_first_data_block sb = (if bs = 1024 then 1 else 0) \<and> s_first_data_block sb < s_blocks_count sb
     \<and> s_blocks_count sb * bs \<le> length disk
     \<and> (s_rev_level sb = 0 \<or> (s_inode_size sb = 128 \<or> s_inode_size sb = 256) \<and> 11 \<le> s_first_inode sb
          \<and> s_first_inode sb \<le> s_inodes_count sb \<and> (s_feature_incompat sb = 0 \<or> s_feature_incompat sb = 2)))"

definition groups_sound :: "u8 list \<Rightarrow> bool" where
  "groups_sound disk \<longleftrightarrow> (let sb = disk_sb disk; bs = 1024 * 2 ^ s_log_block_size sb;
       insz = (if s_rev_level sb = 0 then 128 else s_inode_size sb) in
     s_first_data_block sb + disk_rows disk < s_blocks_count sb
     \<and> (\<forall>g<disk_groups disk. let gd = bytes_gdesc (chunk ((s_first_data_block sb + 1) * bs + g * 32) 32 disk) in
          bg_block_bitmap gd < s_blocks_count sb \<and> bg_inode_bitmap gd < s_blocks_count sb
          \<and> bg_inode_table gd + (insz * s_inodes_per_group sb + bs - 1) div bs \<le> s_blocks_count sb))"

definition mountable :: "u8 list \<Rightarrow> bool" where
  "mountable disk \<longleftrightarrow> 2048 \<le> length disk \<and> sb_sound disk \<and> groups_sound disk"

lemma div_ceil_plain: "n < 4294967296 \<Longrightarrow> div_ceil_u32 n b = (n + b - 1) div b"
proof (cases "b = 0 \<or> n = 0")
  case False
  assume n: "n < 4294967296"
  have "(n + b - 1) div b \<le> n"
  proof -
    have "n + b - 1 \<le> n * b" using False by (cases n; cases b) simp_all
    then have "(n + b - 1) div b \<le> n * b div b" by (rule div_le_mono)
    then show ?thesis using False by simp
  qed
  then show ?thesis using n by (simp add: div_ceil_u32_def)
next
  case True
  then have "(n + b - 1) div b = 0" by (cases "b = 0") auto
  then show ?thesis by (simp add: div_ceil_u32_def)
qed

lemma incompat_mask: "n < 4294967296 \<Longrightarrow> n AND not32 EXT2_INCOMPAT_SUPPORTED = 0 \<longleftrightarrow> n = 0 \<or> n = (2 :: nat)"
proof -
  assume n: "n < 4294967296"
  have m: "not32 EXT2_INCOMPAT_SUPPORTED = 4294967293" by (simp add: not32_def EXT2_INCOMPAT_SUPPORTED_def)
  have "n AND 4294967293 = of_bool (odd n) + 2 * (n div 2 AND 2147483646)"
    using and_rec [of n 4294967293] by simp
  moreover have "n div 2 AND 2147483646 = 2 * (n div 2 div 2 AND 1073741823)"
    using and_rec [of "n div 2" 2147483646] by simp
  moreover have "n div 2 div 2 AND 1073741823 = n div 4"
  proof -
    have d: "n div 2 div 2 = n div 4" by (simp only: div_mult2_eq [symmetric]) simp
    have e: "(1073741823 :: nat) = mask 30" by (simp add: mask_eq_exp_minus_1)
    have "n div 4 < 1073741824" using n by linarith
    then have "take_bit 30 (n div 4) = n div 4" by (simp add: take_bit_nat_eq_self_iff)
    then show ?thesis unfolding d e take_bit_eq_mask .
  qed
  ultimately have "n AND 4294967293 = of_bool (odd n) + 4 * (n div 4)" by simp
  then show ?thesis unfolding m by (simp add: div_eq_0_iff) presburger
qed

lemma sb_facts:
  assumes "2048 \<le> length disk"
  shows "s_blocks_count (disk_sb disk) < 4294967296" "s_inodes_count (disk_sb disk) < 4294967296"
    "s_feature_incompat (disk_sb disk) < 4294967296"
proof -
  have l: "length (chunk 1024 1024 disk) = sb_len" by (rule length_chunk) (use assms in simp)
  show "s_blocks_count (disk_sb disk) < 4294967296" "s_inodes_count (disk_sb disk) < 4294967296"
    using sb_nums_fit(1,2) [OF l] by (simp_all add: disk_sb_def)
  have f: "fits sb_fields (unpack sb_fields (chunk 1024 1024 disk))"
    by (rule unpack_fits) (use l sb_fields_sum in simp)
  show "s_feature_incompat (disk_sb disk) < 4294967296"
    using list_all2_nthD [OF f, of 29] by (simp add: sb_fields_sum disk_sb_def bytes_sb_def Let_def sb_fields_list)
qed

lemma disk_params:
  assumes "2048 \<le> length disk"
  shows "sb_bsize (disk_sb disk) = 1024 * 2 ^ s_log_block_size (disk_sb disk)"
    "sb_groups (disk_sb disk) = disk_groups disk"
proof -
  show "sb_bsize (disk_sb disk) = 1024 * 2 ^ s_log_block_size (disk_sb disk)" by (simp add: sb_bsize_def)
  have "s_blocks_count (disk_sb disk) - s_first_data_block (disk_sb disk) < 4294967296"
    using sb_facts(1) [OF assms] by simp
  then show "sb_groups (disk_sb disk) = disk_groups disk"
    by (simp add: sb_groups_def div_ceil_plain disk_groups_def Let_def)
qed

lemma disk_groups_zero:
  "0 < s_blocks_per_group (disk_sb disk) \<Longrightarrow>
    disk_groups disk \<noteq> 0 \<longleftrightarrow> s_first_data_block (disk_sb disk) < s_blocks_count (disk_sb disk)"
  by (auto simp: disk_groups_def Let_def div_eq_0_iff)

lemma disk_blank:
  assumes "2048 \<le> length disk" "disk = content (impl dev)"
  defines "fs \<equiv> mount_params (disk_sb disk) (ext2_blank dev [])"
  shows "gdt_rows fs = disk_rows disk" "e_sb fs = disk_sb disk" "e_dev fs = dev"
    "bsize fs = 1024 * 2 ^ s_log_block_size (disk_sb disk)" "first_data_block fs = s_first_data_block (disk_sb disk)"
    "group_count fs = disk_groups disk" "inode_size fs = sb_inode_size (disk_sb disk)"
    "e_incompat fs = (if s_rev_level (disk_sb disk) = 0 then 0 else s_feature_incompat (disk_sb disk))"
  using disk_params [OF assms(1)]
  by (simp_all add: fs_def mount_params_def Let_def ext2_blank_def gdt_rows_def disk_rows_def)

lemma sb_checks_iff:
  assumes l: "2048 \<le> length disk" and w: "wrap64 (block_size dev * block_count dev) = length disk"
  defines "sb \<equiv> disk_sb disk" and "bs \<equiv> 1024 * (2 :: nat) ^ s_log_block_size (disk_sb disk)"
  shows "sb_shape_ok dev sb \<and> sb_inodes_ok sb
      \<and> (if s_rev_level sb = 0 then 0 else s_feature_incompat sb) AND not32 EXT2_INCOMPAT_SUPPORTED = 0 \<longleftrightarrow> sb_sound disk"
proof -
  have bsz: "sb_bsize sb = bs" unfolding sb_def bs_def by (rule disk_params(1) [OF l])
  have bs2: "1024 * 2 ^ s_log_block_size sb = bs" by (simp add: sb_def bs_def)
  have gr: "sb_groups sb = disk_groups disk" unfolding sb_def by (rule disk_params(2) [OF l])
  have shape: "sb_shape_ok dev sb \<longleftrightarrow> s_magic sb = 61267 \<and> s_rev_level sb \<le> 1 \<and> s_log_block_size sb \<le> 2
     \<and> 0 < s_inodes_count sb \<and> s_inodes_count sb \<le> disk_groups disk * s_inodes_per_group sb
     \<and> 0 < s_blocks_per_group sb \<and> s_blocks_per_group sb \<le> 8 * bs
     \<and> 0 < s_inodes_per_group sb \<and> s_inodes_per_group sb \<le> 8 * bs
     \<and> s_first_data_block sb = (if bs = 1024 then 1 else 0) \<and> s_first_data_block sb < s_blocks_count sb
     \<and> s_blocks_count sb * bs \<le> length disk"
    unfolding sb_shape_ok_def bsz gr w EXT2_MAGIC_def using disk_groups_zero [of disk, folded sb_def]
    by (auto simp: not_less)
  have bs1: "256 \<le> bs" unfolding bs_def using one_le_power [of "2 :: nat" "s_log_block_size (disk_sb disk)"] by linarith
  have p2: "s_inode_size sb AND (s_inode_size sb - 1) = 0" if "s_inode_size sb = 128 \<or> s_inode_size sb = 256"
  proof -
    have "(128 :: nat) AND 127 = 0" "(256 :: nat) AND 255 = 0" by code_simp+
    then show ?thesis using that by auto
  qed
  have ino: "sb_inodes_ok sb \<longleftrightarrow> s_rev_level sb = 0 \<or> (s_inode_size sb = 128 \<or> s_inode_size sb = 256)
      \<and> 11 \<le> s_first_inode sb \<and> s_first_inode sb \<le> s_inodes_count sb"
    unfolding sb_inodes_ok_def bsz EXT2_MAX_INODE_SIZE_def
    using p2 bs1 pow2_range [of "s_inode_size sb"] by (auto simp: not_less)
  have inc: "(if s_rev_level sb = 0 then 0 else s_feature_incompat sb) AND not32 EXT2_INCOMPAT_SUPPORTED = 0
      \<longleftrightarrow> s_rev_level sb = 0 \<or> s_feature_incompat sb = 0 \<or> s_feature_incompat sb = 2"
    using incompat_mask [OF sb_facts(3) [OF l], folded sb_def] by simp
  show ?thesis unfolding shape ino inc sb_sound_def Let_def sb_def [symmetric] bs2 by blast
qed

lemma checks_iff:
  assumes g: "length (content (impl dev)) = block_count dev * block_size dev"
    "block_count dev * block_size dev < 18446744073709551616"
  shows "checks_pass content dev = mountable (content (impl dev))"
proof (cases "2048 \<le> length (content (impl dev))")
  case True
  define disk where "disk = content (impl dev)"
  define sb where "sb = disk_sb disk"
  define fs where "fs = mount_params sb (ext2_blank dev [])"
  note l = True [folded disk_def] and d = disk_blank [where content = content and dev = dev, OF True [folded disk_def] disk_def, folded sb_def, folded fs_def]
  have w: "wrap64 (block_size dev * block_count dev) = length disk"
    using g by (simp add: wrap64_def disk_def mult.commute)
  have e: "checks_pass content dev \<longleftrightarrow> (sb_shape_ok dev sb \<and> sb_inodes_ok sb
      \<and> (if s_rev_level sb = 0 then 0 else s_feature_incompat sb) AND not32 EXT2_INCOMPAT_SUPPORTED = 0) \<and> gdt_good content fs"
    using True unfolding checks_pass_def Let_def disk_def [symmetric] disk_sb_def [symmetric] sb_def [symmetric]
      fs_def [symmetric] d(8) by blast
  show ?thesis
  proof (cases "sb_shape_ok dev sb \<and> sb_inodes_ok sb")
    case False
    then have "\<not> sb_sound disk" using sb_checks_iff [OF l w, folded sb_def] by blast
    then have "\<not> mountable (content (impl dev))" unfolding mountable_def disk_def [symmetric] by blast
    moreover have "\<not> checks_pass content dev" unfolding e using False by blast
    ultimately show ?thesis by blast
  next
    case ok: True
    define bs where "bs = 1024 * (2 :: nat) ^ s_log_block_size sb"
    define insz where "insz = sb_inode_size sb"
    have bsz: "sb_bsize sb = bs" by (simp add: sb_bsize_def bs_def)
    have lim: "insz \<le> 256" "s_inodes_per_group sb \<le> 32768" "0 < s_inodes_per_group sb" "128 \<le> insz" "0 < bs"
    proof -
      show "insz \<le> 256" "128 \<le> insz"
        using ok inodes_ok_size [of sb] by (auto simp: insz_def sb_inode_size_def)
      have "bs \<le> 4096" using sb_bsize_cases [of sb] ok bsz by (auto simp: sb_shape_ok_def)
      then show "s_inodes_per_group sb \<le> 32768" using ok bsz by (simp add: sb_shape_ok_def)
      show "0 < s_inodes_per_group sb" using ok by (simp add: sb_shape_ok_def)
      show "0 < bs" by (simp add: bs_def)
    qed
    have "insz * s_inodes_per_group sb \<le> 256 * 32768" by (rule mult_le_mono [OF lim(1,2)])
    then have "insz * s_inodes_per_group sb < 4294967296" by simp
    then have tb: "tbl_blocks fs = (insz * s_inodes_per_group sb + bs - 1) div bs"
      by (simp add: tbl_blocks_def d(2,4,7) div_ceil_plain insz_def bs_def)
    have "0 < insz * s_inodes_per_group sb" using lim by simp
    then have "bs \<le> insz * s_inodes_per_group sb + bs - 1" by linarith
    then have tb0: "0 < tbl_blocks fs" unfolding tb using lim(5) by (simp add: div_greater_zero_iff)
    have gg: "gdt_good content fs = groups_sound disk"
      unfolding gdt_good_def groups_sound_def Let_def sb_def [symmetric] bs_def [symmetric]
        sb_inode_size_def [symmetric] insz_def [symmetric] tb [symmetric]
        d(1,2,5,6) disk_gdesc_def d(3,4) disk_def [symmetric]
      using tb0 by (auto simp: Suc_le_eq bs_def)
    show ?thesis
      unfolding e sb_checks_iff [OF l w, folded sb_def] gg mountable_def disk_def [symmetric] using l by blast
  qed
next
  case False
  then show ?thesis by (simp add: checks_pass_def mountable_def Let_def)
qed

context block_device
begin

lemma mount_accepts:
  assumes dv: "op_read dev = rd" "op_write dev = Some wr" "good (block_size dev) (block_count dev) (impl dev)"
    and as: "\<forall>i<n. as ! i" "n \<le> length as" and n: "disk_rows (content (impl dev)) + 9 \<le> n"
  shows "\<exists>r. ext2_mount (Some dev) as (Some INODE_DIR) True True
      = Some (if mountable (content (impl dev)) then 0 else PLAINERR, r) \<and> (r \<noteq> None \<longleftrightarrow> mountable (content (impl dev)))"
proof (cases "2048 \<le> length (content (impl dev))")
  case True
  have b: "block_count dev * block_size dev < 18446744073709551616"
    using fail.fs_bound [OF dv(3)] by linarith
  note r = disk_blank(1) [where content = content and dev = dev, OF True refl]
  have "gdt_rows (mount_params (bytes_sb (chunk 1024 sb_len (content (impl dev)))) (ext2_blank dev [])) + 9 \<le> n"
    using r n by (simp add: disk_sb_def)
  from mount_plenty [OF dv as this] show ?thesis
    unfolding checks_iff [where content = content and dev = dev, OF content_length [OF dv(3)] b] .
next
  case False
  have "wrap64 (block_count dev * block_size dev) < 2048"
    using False content_length [OF dv(3)] wrap64_le [of "block_count dev * block_size dev"] by simp
  then show ?thesis using False by (simp add: ext2_mount_def mountable_def Let_def)
qed

end

text \<open>C40: On a device whose transfers do not fail, with memory for its buffers and a directory to mount
  on, a volume is mounted exactly when it is acceptable (\<open>mountable\<close>, on its bytes, in exact
  arithmetic): at least 2048 bytes, a superblock with the right magic, revision, sizes, counts and
  features, a descriptor table inside the volume, and every group's bitmaps and inode table
  inside it.\<close>

theorem ext2_mount_accepts:
  assumes "block_device rd wr content good" "op_read dev = rd" "op_write dev = Some wr"
    "good (block_size dev) (block_count dev) (impl dev)" "\<forall>i<n. as ! i" "n \<le> length as"
    "disk_rows (content (impl dev)) + 9 \<le> n"
  shows "\<exists>r. ext2_mount (Some dev) as (Some INODE_DIR) True True
      = Some (if mountable (content (impl dev)) then 0 else PLAINERR, r) \<and> (r \<noteq> None \<longleftrightarrow> mountable (content (impl dev)))"
  by (rule block_device.mount_accepts [OF assms])

lemma demo_disk_rows: "disk_rows demo_disk = 1" "mountable demo_disk"
proof -
  have l: "2048 \<le> length demo_disk" "demo_disk = rb_buffer (impl demo_dev)"
    by (simp_all add: demo_parts(5) demo_good(4))
  have ds: "disk_sb demo_disk = demo_sb" by (simp add: disk_sb_def demo_chunks(1) demo_parts(1))
  show "disk_rows demo_disk = 1"
    using disk_blank(1) [where content = rb_buffer and dev = demo_dev, OF l] demo_rows(1) by (simp add: ds demo_params_def)
  show "mountable demo_disk"
    using checks_iff [of rb_buffer demo_dev] demo_checks demo_good(4)
    by (simp add: demo_parts(5)) (simp add: demo_dev_def)
qed

theorem ext2_mount_accepts_witness:
  "\<exists>fs. ext2_mount (Some demo_dev) (replicate 10 True) (Some INODE_DIR) True True = Some (0, Some fs)"
proof -
  have n: "disk_rows (rb_buffer (impl demo_dev)) + 9 \<le> 10" by (simp add: demo_good(4) demo_disk_rows)
  have "\<exists>r. ext2_mount (Some demo_dev) (replicate 10 True) (Some INODE_DIR) True True
      = Some (if mountable (rb_buffer (impl demo_dev)) then 0 else PLAINERR, r)
      \<and> (r \<noteq> None \<longleftrightarrow> mountable (rb_buffer (impl demo_dev)))"
    by (rule ext2_mount_accepts [OF ram.block_device_axioms demo_good(1-3) _ _ n]) simp_all
  then show ?thesis using demo_disk_rows(2) by (auto simp: demo_good(4))
qed


end
