(* ===== verification/Spec2Isabelle.thy ===== *)
theory Spec2Isabelle
  imports Prelude Fd_Table Pipe Pipe_System Sched Pmm Vmm Vmalloc Kmsg Kbd Block Slab Calc Pur_Parse Registry Namespace Namespace_Ops Namespace_Make Namespace_Rename Namespace_Run Ext2_Layout Ext2_Base Ext2_Alloc Ext2_Alloc_Inv Ext2_Alloc_Ops Ext2_Alloc_Inodes Ext2_Alloc_Run Ext2_Dirent Ext2_Dirent_Block Ext2_Dirent_Ops Ext2_Inode Ext2_Map Ext2_Tree Ext2_File Ext2_Read Ext2_Dir Ext2_Names Ext2_Mount
begin

text \<open>
  Panuti, a small Unix-like operating system for the i386: the parts of its kernel, and of its
  programs, that keep state and compute, modelled from the C sources and verified.

  \<^bold>\<open>The program.\<close>  The kernel boots on a frame allocator built from the boot loader's memory map
  (\<open>kernel/arch/i386/memman/pmm/pmm.c\<close>).  Two-level page tables on top of it
  (\<open>kernel/arch/i386/memman/vmm/vmm.c\<close>) give every task an address space and the kernel a page
  heap (\<open>kernel/kernel/memman/vmalloc/vmalloc.c\<close>), from which \<open>kmalloc\<close> cuts small objects
  (\<open>kernel/kernel/memman/slab/slab.c\<close>).  Tasks wait in a ring that the scheduler walks
  (\<open>kernel/kernel/sched/sched.c\<close>); each has a table of descriptors
  (\<open>kernel/kernel/handle/handle.c\<close>) whose slots lead to pipes (\<open>kernel/kernel/handle/pipe.c\<close>),
  block devices (\<open>kernel/kernel/block\<close>), the keyboard's line discipline
  (\<open>kernel/kernel/drivers/kbd\<close>) or the kernel log (\<open>kernel/kernel/log/kmsg.c\<close>).  Paths lead through
  the name registry (\<open>kernel/kernel/handle/registry.c\<close>) to the nodes behind descriptors; below a mount
  point the registry asks a file system, of which ext2 (\<open>kernel/kernel/fs/ext2\<close>) is the one that
  can be written.  In user space
  the shell \<open>pur\<close> parses command lines (\<open>pur/src\<close>) and \<open>calc\<close> evaluates expressions
  (\<open>calc/src/eval.c\<close>).

  \<^bold>\<open>The theories.\<close>  Each names its functions after those of the source.

  \<^item> \<open>Prelude\<close>: integer types, error codes, bit arrays stored in bytes (the descriptor table and the
    frame bitmap use them), wrap-around at 32 bits.
  \<^item> \<open>Fd_Table\<close> (\<open>handle.c\<close>, \<open>task_return_hslot\<close>): the table that doubles up to 1024 slots.  The
    locale \<open>fd_provider\<close> is its contract, interpreted on the model.
  \<^item> \<open>Pipe\<close> and \<open>Pipe_System\<close> (\<open>pipe.c\<close>): the ring buffer, shown to be a bounded byte stream (locale
    \<open>byte_stream\<close>); then readers and writers interleaved at the points where the code enables
    interrupts (\<open>pipe_step\<close>), the reference counts of the two ends, and the creation of a pair.
  \<^item> \<open>Sched\<close> (\<open>sched.c\<close>): the circular queue and the choice of the next task.
  \<^item> \<open>Pmm\<close> (\<open>pmm.c\<close>): allocation and release (locale \<open>frame_allocator\<close>), and the construction of the
    bitmap at boot.
  \<^item> \<open>Vmm\<close> (\<open>vmm.c\<close>): physical memory, the processor's page walk, and every operation as loads and stores
    through the recursive entry of the directory.  It calls the model of \<open>pmm.c\<close>.
  \<^item> \<open>Vmalloc\<close> (\<open>vmalloc.c\<close>), over \<open>Vmm\<close>; \<open>Slab\<close> (\<open>slab.c\<close>), whose pages are answers of \<open>vmalloc\<close>.
  \<^item> \<open>Kmsg\<close> (\<open>kmsg.c\<close>), \<open>Kbd\<close> (\<open>core.c\<close>, \<open>line.c\<close>, \<open>kpktasc.c\<close>), \<open>Block\<close> (\<open>block.c\<close>, \<open>utils.c\<close>,
    \<open>ramblock.c\<close>; locale \<open>block_device\<close>, interpreted on the RAM device).
  \<^item> \<open>Registry\<close> and \<open>Namespace\<close> (\<open>registry.c\<close>, \<open>mount.c\<close>, \<open>dir.c\<close>): inodes and directory entries with
    their reference counts (\<open>reg_ok\<close>), the path walk across mounts and every operation on names, and
    the name space that they stand for (\<open>ns_ok\<close>); \<open>Namespace_Ops\<close>, \<open>Namespace_Make\<close>,
    \<open>Namespace_Rename\<close>: the effect of each operation; \<open>Namespace_Run\<close>: every sequence of them
    from boot (\<open>name_run\<close>).
  \<^item> ext2 (\<open>ext2.h\<close>, \<open>helpers.c\<close>, \<open>ext2.c\<close>).  \<open>Ext2_Layout\<close>: the packed structs and their bytes.
    \<open>Ext2_Base\<close>: the mounted state and the transfers, over a device that fails without effect
    (locale \<open>failstop_device\<close>, of which \<open>block_device\<close> is an instance).  \<open>Ext2_Alloc\<close>: the block and
    inode allocators with their bitmap caches and the queue of freed blocks; their invariant
    (\<open>alloc_inv\<close>, \<open>Ext2_Alloc_Inv\<close>), effects (\<open>Ext2_Alloc_Ops\<close>, \<open>Ext2_Alloc_Inodes\<close>) and every
    sequence of them (\<open>Ext2_Alloc_Run\<close>).  \<open>Ext2_Dirent\<close>, \<open>Ext2_Dirent_Block\<close>, \<open>Ext2_Dirent_Ops\<close>:
    the records of one directory block as a map from names to inodes (locale \<open>name_store\<close>).
    \<open>Ext2_Inode\<close>: the inode table behind its cache, a map from numbers to headers (\<open>inode_view\<close>), and
    the invariant of the whole state (\<open>fs_ok\<close>).  \<open>Ext2_Map\<close>: the block map and its changes;
    \<open>Ext2_Tree\<close>: the tree of blocks an inode stands for (\<open>bmap\<close>).  \<open>Ext2_File\<close>: attributes, open,
    read, write, resize; \<open>Ext2_Read\<close>: reading gives the bytes of the file (\<open>file_byte\<close>).
    \<open>Ext2_Dir\<close>: directories of several blocks; \<open>Ext2_Names\<close>: create, unlink, rename, link, lookup
    and readdir.  \<open>Ext2_Mount\<close>: mounting and unmounting, and what a mount establishes.
  \<^item> \<open>Calc\<close> (\<open>eval.c\<close>) and \<open>Pur_Parse\<close> (\<open>ast.c\<close>, \<open>parse.c\<close>).

  \<^bold>\<open>Conventions.\<close>  A pointer is a natural number, 0 the null pointer.  A dereference of null or of a
  freed object, an access outside an array, a page fault and a kernel panic are \<open>None\<close>, and so is a
  loop that does not end (\<open>partial_function\<close>) or runs out of fuel.  Whether an allocation succeeds
  is an argument, or comes from a list of answers, so that the theorems cover every pattern of
  failures.  32 and 64 bit sums that can wrap are reduced; words that the code treats bitwise are
  words.  A section that runs with interrupts off is one step.

  \<^bold>\<open>Lemma groups.\<close>  In each theory: the frame lemmas of the single updates, the invariant of the
  component's state and its preservation by every operation, the abstract view (a byte list, a set
  of open descriptors, of free frames or of live objects, a partial map from pages to frames) and
  the effect of each operation on it; then the properties with their concrete instances.

  \<^bold>\<open>Fuel.\<close>  The reading loop of \<open>Kmsg\<close> takes the size of the ring plus one
  (\<open>kmsg_read_terminates\<close>), the evaluator three steps for each character (\<open>calc_total\<close>), the
  shell's parser four steps for each token (\<open>pur_total\<close>); each lemma shows its bound to be
  enough for every input.  All other recursions end without fuel.

  \<^bold>\<open>Not modelled.\<close>  The hardware drivers (ATA, serial, PS/2, RTC, timers, VGA) and the interrupt and
  boot code are port and register accesses; the assembly of the context switch is the change of
  the running task.  The theorems on names are about the native tree: what is mounted is
  modelled as calls into a table of file system operations, and no theorem speaks of it.  Of ext2
  the nodes that the registry keeps for looked-up inodes are their numbers; \<open>ext2_close\<close> and the
  freeing of memory when a mount ends are left out; write, resize, create, unlink, rename and link
  are modelled in full but stated of them is only what the theorems on their parts give.  ISO 9660
  and FAT, process creation and the ELF loader, the system call handlers, the C library and the
  remaining utilities are not modelled.
\<close>

end
